(* ===== verification/Prelude.thy ===== *)
theory Prelude
  imports Main "HOL-Library.Multiset" "HOL-Library.Word" "HOL-Library.Monad_Syntax"
begin

text \<open>
  What every component theory shares: 32-bit unsigned arithmetic with its wrap-around
  written out, the indexed loop over a vector of cells that the KV cache operations are
  instances of, with its invariant rule, and the lemma collections.

  An assertion of the code (\<open>GGML_ASSERT\<close>, \<open>GGML_ABORT\<close>) ends the process. A function
  that contains one returns an \<open>option\<close>, and \<open>None\<close> is the abort.
\<close>

named_theorems cell_simps
  \<open>unfolding rules for the operations on one cache cell\<close>
named_theorems u32_simps
  \<open>rules that remove the wrap-around where the values are in range\<close>

subsection \<open>uint32_t and int32_t\<close>

abbreviation U32 :: nat where
  "U32 \<equiv> 4294967296"

definition u32_add :: "nat \<Rightarrow> nat \<Rightarrow> nat" where
  "u32_add a b = (a + b) mod U32"

definition u32_sub :: "nat \<Rightarrow> nat \<Rightarrow> nat" where
  "u32_sub a b = (a + (U32 - b mod U32)) mod U32"

definition int32_max :: int where
  "int32_max = 2147483647"

lemma u32_add_exact [u32_simps]: "a + b < U32 \<Longrightarrow> u32_add a b = a + b"
  by (simp add: u32_add_def)

lemma u32_sub_exact [u32_simps]: "b \<le> a \<Longrightarrow> a < U32 \<Longrightarrow> u32_sub a b = a - b"
proof -
  assume *: "b \<le> a" "a < U32"
  then have "a + (U32 - b mod U32) = (a - b) + U32" by simp
  moreover have "((a - b) + U32) mod U32 = a - b"
    using * by (simp only: mod_add_self2) simp
  ultimately show ?thesis by (simp only: u32_sub_def)
qed

lemma u32_sub_underflow: "0 < b \<Longrightarrow> b < U32 \<Longrightarrow> u32_sub 0 b = U32 - b"
  by (simp add: u32_sub_def)

text \<open>Integer division of C++ truncates towards zero.\<close>

definition cdiv :: "int \<Rightarrow> int \<Rightarrow> int" where
  "cdiv a b = sgn a * sgn b * (\<bar>a\<bar> div \<bar>b\<bar>)"

lemma cdiv_nonneg: "0 \<le> a \<Longrightarrow> 0 < b \<Longrightarrow> cdiv a b = a div b"
  by (cases "a = 0") (simp_all add: cdiv_def)

subsection \<open>The loop over a vector of cells\<close>

text \<open>
  \<^verbatim>\<open>for (uint32_t i = 0; i < size; ++i) { ... cells[i] ... }\<close>: the body reads and writes the
  one cell and the locals \<open>s\<close>.
\<close>

fun cell_loop :: "(nat \<Rightarrow> 'c \<Rightarrow> 's \<Rightarrow> 'c \<times> 's) \<Rightarrow> nat \<Rightarrow> 'c list \<Rightarrow> 's \<Rightarrow> 'c list \<times> 's" where
  "cell_loop f i [] s = ([], s)"
| "cell_loop f i (c # cs) s =
     (let (c', s1) = f i c s; (cs', s2) = cell_loop f (Suc i) cs s1 in (c' # cs', s2))"

lemma cell_loop_length [simp]: "length (fst (cell_loop f i cs s)) = length cs"
  by (induction f i cs s rule: cell_loop.induct) (auto simp: Let_def split: prod.splits)

text \<open>
  The invariant rule: \<open>P i done rest s\<close> speaks of the cells already rewritten, the cells to
  come and the locals.
\<close>

lemma cell_loop_rule:
  assumes "cell_loop f i cs s = (cs', s')"
    and "P i ds cs s"
    and "\<And>i c ds rest s c' s'. P i ds (c # rest) s \<Longrightarrow> f i c s = (c', s')
           \<Longrightarrow> P (Suc i) (ds @ [c']) rest s'"
  shows "P (i + length cs) (ds @ cs') [] s'"
  using assms(1,2)
proof (induction cs arbitrary: i ds s cs')
  case Nil
  then show ?case by simp
next
  case (Cons c cs)
  obtain c' s1 where f: "f i c s = (c', s1)" by fastforce
  obtain cs2 s2 where l: "cell_loop f (Suc i) cs s1 = (cs2, s2)" by fastforce
  have eq: "cs' = c' # cs2" "s' = s2" using Cons.prems(1) f l by auto
  have "P (Suc i) (ds @ [c']) cs s1" using assms(3) Cons.prems(2) f by blast
  then have "P (Suc i + length cs) ((ds @ [c']) @ cs2) [] s'"
    using Cons.IH l eq by blast
  then show ?case by (simp add: eq)
qed

text \<open>A body whose new cell does not depend on the locals maps the vector.\<close>

lemma cell_loop_map:
  assumes "\<And>i c s. fst (f i c s) = g c"
  shows "fst (cell_loop f i cs s) = map g cs"
  using assms
  by (induction f i cs s rule: cell_loop.induct) (auto simp: Let_def split: prod.splits, metis fst_conv)

text \<open>
  The shape of every loop that may empty cells: the new cell is \<open>g c\<close>, a cell for which \<open>E\<close>
  holds (it is empty) stays so, and a counter among the locals drops by one when \<open>g\<close> empties the
  cell. Then the counter keeps counting the cells that are not empty.
\<close>

lemma cell_loop_count:
  fixes used_of :: "'s \<Rightarrow> nat"
  assumes g: "\<And>i c s. ok c \<Longrightarrow> fst (f i c s) = g i c"
    and u: "\<And>i c s. ok c \<Longrightarrow> used_of (snd (f i c s)) =
              (if \<not> E c \<and> E (g i c) then u32_sub (used_of s) 1 else used_of s)"
    and e: "\<And>i c. ok c \<Longrightarrow> E c \<Longrightarrow> E (g i c)"
    and "\<forall>c \<in> set cs. ok c" "used_of s = k + length (filter (\<lambda>c. \<not> E c) cs)" "used_of s < U32"
  shows "used_of (snd (cell_loop f i cs s)) = k + length (filter (\<lambda>c. \<not> E c) (fst (cell_loop f i cs s)))"
  using assms(4-6)
proof (induction cs arbitrary: i s k)
  case Nil
  then show ?case by simp
next
  case (Cons c cs)
  have ok: "ok c" using Cons.prems by simp
  obtain s1 where f: "f i c s = (g i c, s1)" using g [OF ok] by (metis prod.collapse)
  have s1: "used_of s1 = (k + (if E (g i c) then 0 else 1)) + length (filter (\<lambda>c. \<not> E c) cs)"
    using u [OF ok, of i s] e [OF ok, of i] f Cons.prems
    by (auto simp: u32_sub_exact split: if_splits)
  have "used_of s1 < U32" using s1 Cons.prems e [OF ok, of i] by (auto split: if_splits)
  then have "used_of (snd (cell_loop f (Suc i) cs s1))
      = (k + (if E (g i c) then 0 else 1)) + length (filter (\<lambda>c. \<not> E c) (fst (cell_loop f (Suc i) cs s1)))"
    using Cons.IH s1 Cons.prems(1) by simp
  then show ?case by (simp add: f split_beta)
qed

lemma cell_loop_nth:
  assumes "\<And>i c s. fst (f i c s) = g i c" "j < length cs"
  shows "fst (cell_loop f i cs s) ! j = g (i + j) (cs ! j)"
  using assms(2)
proof (induction cs arbitrary: i s j)
  case Nil
  then show ?case by simp
next
  case (Cons c cs)
  obtain s1 where "f i c s = (g i c, s1)" using assms(1) by (metis prod.collapse)
  then show ?case using Cons by (cases j) (simp_all add: split_beta)
qed

subsection \<open>Arrays: reads and writes that may run out of bounds\<close>

text \<open>
  A read or write past the end of an array is undefined behaviour of the code; here it gives
  \<open>None\<close>, so that a theorem that a function returns \<open>Some\<close> includes memory safety.
\<close>

definition ensure :: "bool \<Rightarrow> unit option" where
  "ensure b = (if b then Some () else None)"

definition slice :: "'a list \<Rightarrow> nat \<Rightarrow> nat \<Rightarrow> 'a list option" where
  "slice xs off n = (if off + n \<le> length xs then Some (take n (drop off xs)) else None)"

definition gather :: "'a list \<Rightarrow> nat list \<Rightarrow> 'a list option" where
  "gather xs is = (if list_all (\<lambda>i. i < length xs) is then Some (map ((!) xs) is) else None)"

definition write_run :: "'a list \<Rightarrow> nat \<Rightarrow> 'a list \<Rightarrow> 'a list option" where
  "write_run xs off ys =
     (if off + length ys \<le> length xs
      then Some (take off xs @ ys @ drop (off + length ys) xs) else None)"

lemma ensure_bind [simp]: "Option.bind (ensure b) f = (if b then f () else None)"
  by (simp add: ensure_def)

lemma write_run_length: "write_run xs off ys = Some zs \<Longrightarrow> length zs = length xs"
  by (auto simp: write_run_def split: if_splits)

lemma write_run_take:
  "write_run xs off ys = Some zs \<Longrightarrow> take (off + length ys) zs = take off xs @ ys"
  by (auto simp: write_run_def split: if_splits)

subsection \<open>std::sort\<close>

text \<open>
  \<open>std::sort\<close> permutes the range into an order in which no later element is less than an
  earlier one; the order of equivalent elements is unspecified, and insertion sort is one
  instance. The theorems use only that the result is a sorted permutation.
\<close>

fun insert_lt :: "('a \<Rightarrow> 'a \<Rightarrow> bool) \<Rightarrow> 'a \<Rightarrow> 'a list \<Rightarrow> 'a list" where
  "insert_lt lt x [] = [x]"
| "insert_lt lt x (y # ys) = (if lt y x then y # insert_lt lt x ys else x # y # ys)"

definition std_sort :: "('a \<Rightarrow> 'a \<Rightarrow> bool) \<Rightarrow> 'a list \<Rightarrow> 'a list" where
  "std_sort lt xs = foldr (insert_lt lt) xs []"

lemma mset_insert_lt [simp]: "mset (insert_lt lt x xs) = add_mset x (mset xs)"
  by (induction xs) auto

lemma mset_std_sort [simp]: "mset (std_sort lt xs) = mset xs"
  by (induction xs) (auto simp: std_sort_def)

lemma set_std_sort [simp]: "set (std_sort lt xs) = set xs"
  by (metis mset_std_sort set_mset_mset)

lemma length_std_sort [simp]: "length (std_sort lt xs) = length xs"
  by (metis mset_std_sort size_mset)

lemma distinct_std_sort [simp]: "distinct (std_sort lt xs) = distinct xs"
  by (metis mset_std_sort mset_eq_imp_distinct_iff)

lemma set_insert_lt [simp]: "set (insert_lt lt x xs) = insert x (set xs)"
  by (induction xs) auto

lemma sorted_insert_lt:
  assumes "\<And>a b. lt a b \<Longrightarrow> \<not> lt b a" "\<And>a b c. \<not> lt b a \<Longrightarrow> \<not> lt c b \<Longrightarrow> \<not> lt c a"
    and "sorted_wrt (\<lambda>a b. \<not> lt b a) xs"
  shows "sorted_wrt (\<lambda>a b. \<not> lt b a) (insert_lt lt x xs)"
  using assms(3)
proof (induction xs)
  case Nil
  then show ?case by simp
next
  case (Cons y ys)
  show ?case
  proof (cases "lt y x")
    case True
    then have "\<not> lt x y" by (rule assms(1))
    then show ?thesis using True Cons by auto
  next
    case False
    have "\<not> lt z x" if "z \<in> set ys" for z
      using assms(2) [of y x z] False Cons.prems that by auto
    then show ?thesis using False Cons.prems by auto
  qed
qed

lemma sorted_std_sort:
  assumes "\<And>a b. lt a b \<Longrightarrow> \<not> lt b a" "\<And>a b c. \<not> lt b a \<Longrightarrow> \<not> lt c b \<Longrightarrow> \<not> lt c a"
  shows "sorted_wrt (\<lambda>a b. \<not> lt b a) (std_sort lt xs)"
proof (induction xs)
  case Nil
  then show ?case by (simp add: std_sort_def)
next
  case (Cons x xs)
  then have "sorted_wrt (\<lambda>a b. \<not> lt b a) (insert_lt lt x (std_sort lt xs))"
    by (intro sorted_insert_lt) (use assms in blast)+
  then show ?case by (simp add: std_sort_def)
qed

subsection \<open>A loop that may abort\<close>

fun fold_opt :: "('a \<Rightarrow> 'b \<Rightarrow> 'b option) \<Rightarrow> 'a list \<Rightarrow> 'b \<Rightarrow> 'b option" where
  "fold_opt f [] s = Some s"
| "fold_opt f (x # xs) s = do { s1 \<leftarrow> f x s; fold_opt f xs s1 }"

lemma fold_opt_rule:
  assumes "fold_opt f xs s = Some s'" "P s"
    "\<And>x s s'. x \<in> set xs \<Longrightarrow> P s \<Longrightarrow> f x s = Some s' \<Longrightarrow> P s'"
  shows "P s'"
  using assms
proof (induction xs arbitrary: s)
  case (Cons x xs)
  then obtain s1 where s1: "f x s = Some s1" "fold_opt f xs s1 = Some s'" by (auto split: bind_splits)
  have p1: "P s1" using Cons.prems(3) [OF _ Cons.prems(2) s1(1)] by simp
  show ?case by (rule Cons.IH [OF s1(2) p1]) (rule Cons.prems(3), simp_all)
qed simp

text \<open>A fold whose steps each add a set.\<close>

lemma fold_opt_union:
  assumes "fold_opt f xs s = Some s'"
    "\<And>x s s'. x \<in> set xs \<Longrightarrow> f x s = Some s' \<Longrightarrow> set s' = set s \<union> A x"
  shows "set s' = set s \<union> (\<Union>x\<in>set xs. A x)"
  using assms
proof (induction xs arbitrary: s)
  case (Cons x xs)
  then obtain s1 where s1: "f x s = Some s1" "fold_opt f xs s1 = Some s'" by (auto split: bind_splits)
  have "set s1 = set s \<union> A x" using Cons.prems(2) [OF _ s1(1)] by simp
  moreover have "set s' = set s1 \<union> (\<Union>x\<in>set xs. A x)" using Cons.IH [OF s1(2)] Cons.prems(2) by simp
  ultimately show ?case by auto
qed simp

lemma fold_opt_pick:
  assumes "fold_opt f xs s = Some s'" "x \<in> set xs"
  shows "\<exists>u v. f x u = Some v"
  using assms by (induction xs arbitrary: s) (auto split: bind_splits)

lemma fold_opt_append:
  "fold_opt f (xs @ ys) s = do { s1 \<leftarrow> fold_opt f xs s; fold_opt f ys s1 }"
  by (induction xs arbitrary: s) (auto split: bind_splits)

end
