(* ===== verification/Batch.thy ===== *)
theory Batch
  imports Prelude
begin

text \<open>
  \<open>llama-batch.h\<close> and \<open>llama-batch.cpp\<close>: the splitting of an input batch into micro-batches
  (\<open>llama_sbatch\<close>, \<open>llama_ubatch\<close>), and the defaults of \<open>llama_batch_allocr\<close>.

  A pointer to an array is the list of the elements from there on, \<open>nullptr\<close> is \<open>None\<close>; so
  \<open>batch->token + offset\<close> is \<open>drop offset token\<close>. The type of one embedding row (\<open>n_embd\<close>
  floats, copied as a block) is the parameter \<open>'e\<close>. The contents of a reserved buffer before
  it is written are unspecified in the code and zeros here.
\<close>

section \<open>Data\<close>

record 'e llama_batch =
  b_n_tokens :: nat
  b_token :: "int list option"
  b_embd :: "'e list option"
  b_pos :: "int list option"
  b_n_seq_id :: "int list option"
  b_seq_id :: "int list list option"
  b_logits :: "int list option"

record 'e llama_ubatch =
  ub_equal_seqs :: bool
  ub_n_tokens :: nat
  ub_n_seq_tokens :: nat
  ub_n_seqs :: nat
  ub_token :: "int list option"
  ub_embd :: "'e list option"
  ub_pos :: "int list"
  ub_n_seq_id :: "int list"
  ub_seq_id :: "int list list"
  ub_output :: "int list"

record llama_sbatch_seq =
  sq_n_seq_id :: int
  sq_seq_id :: "int list"
  sq_offset :: nat
  sq_length :: nat

record 'e llama_sbatch =
  sb_n_tokens :: nat
  sb_logits_all :: bool
  sb_ids :: "nat list"
  sb_out_ids :: "nat list"
  sb_seq :: "llama_sbatch_seq list"
  sb_batch :: "'e llama_batch"

section \<open>Reserving and filling a micro-batch\<close>

definition reserve_ubatch ::
  "nat \<Rightarrow> bool \<Rightarrow> 'e::zero llama_sbatch \<Rightarrow> 'e llama_ubatch \<times> 'e llama_sbatch" where
  "reserve_ubatch n_ubatch has_embd sb =
     (\<lparr>ub_equal_seqs = True, ub_n_tokens = 0, ub_n_seq_tokens = 0, ub_n_seqs = 0,
       ub_token = (if \<not> has_embd then Some (replicate n_ubatch 0) else None),
       ub_embd = (if has_embd then Some (replicate n_ubatch 0) else None),
       ub_pos = replicate n_ubatch 0, ub_n_seq_id = replicate n_ubatch 0,
       ub_seq_id = replicate n_ubatch [], ub_output = replicate n_ubatch 0\<rparr>,
      sb\<lparr>sb_seq := rev (dropWhile (\<lambda>s. sq_length s = 0) (rev (sb_seq sb)))\<rparr>)"

text \<open>Filling one array of the micro-batch, with the tokens or with the embeddings.\<close>

definition fill_array ::
  "bool \<Rightarrow> 'a list option \<Rightarrow> 'a list option \<Rightarrow> nat \<Rightarrow> nat list option \<Rightarrow> nat \<Rightarrow> 'a list option option" where
  "fill_array equal src dst at idx off =
     (case src of
        None \<Rightarrow> Some None
      | Some xs \<Rightarrow>
          if equal
          then do { is \<leftarrow> idx; buf \<leftarrow> dst; vals \<leftarrow> gather xs is; w \<leftarrow> write_run buf at vals; Some (Some w) }
          else Some (Some (drop off xs)))"

text \<open>The output flags and the batch indices appended to \<open>out_ids\<close>.\<close>

definition fill_output ::
  "'e llama_sbatch \<Rightarrow> 'e llama_ubatch \<Rightarrow> nat \<Rightarrow> nat \<Rightarrow> (int list \<times> nat list) option" where
  "fill_output sb ub off len =
     (let at = ub_n_tokens ub; idx = slice (sb_ids sb) off len in
      if sb_logits_all sb then
        do { is \<leftarrow> idx; out \<leftarrow> write_run (ub_output ub) at (replicate len 1); Some (out, is) }
      else case b_logits (sb_batch sb) of
        Some logits \<Rightarrow>
          if ub_equal_seqs ub
          then do { is \<leftarrow> idx; vals \<leftarrow> gather logits is; out \<leftarrow> write_run (ub_output ub) at vals;
                    Some (out, filter (\<lambda>id. logits ! id \<noteq> 0) is) }
          else do { vals \<leftarrow> slice logits off len;
                    Some (drop off logits, map ((+) off) (filter (\<lambda>i. vals ! i \<noteq> 0) [0..<len])) }
      | None \<Rightarrow>
          do { is \<leftarrow> idx;
               out \<leftarrow> write_run (ub_output ub) at
                        (map (\<lambda>id. if id = length (sb_ids sb) - 1 then 1 else 0) is);
               Some (out, filter (\<lambda>id. id = length (sb_ids sb) - 1) is) })"

definition add_seq_to_ubatch ::
  "'e llama_sbatch \<Rightarrow> 'e llama_ubatch \<Rightarrow> llama_sbatch_seq \<Rightarrow> nat
     \<Rightarrow> ('e llama_sbatch \<times> 'e llama_ubatch \<times> llama_sbatch_seq) option" where
  "add_seq_to_ubatch sb ub s len =
     (let b = sb_batch sb; at = ub_n_tokens ub; off = sq_offset s; eq = ub_equal_seqs ub;
          idx = slice (sb_ids sb) off len
      in do {
        ensure (len \<le> sq_length s);
        ensure (sq_n_seq_id s = 0 \<or> ub_n_seqs ub = 0 \<or> len = ub_n_tokens ub div ub_n_seqs ub);
        ensure ((sq_n_seq_id s \<noteq> 0) = eq);
        token \<leftarrow> fill_array eq (b_token b) (ub_token ub) at idx off;
        embd \<leftarrow> fill_array eq (b_embd b) (ub_embd ub) at idx off;
        bpos \<leftarrow> b_pos b;
        pos \<leftarrow> (if eq then do { is \<leftarrow> idx; vals \<leftarrow> gather bpos is; write_run (ub_pos ub) at vals }
               else Some (drop off bpos));
        n_seq_id \<leftarrow> (if eq then write_run (ub_n_seq_id ub) (ub_n_seqs ub) [sq_n_seq_id s]
                    else case b_n_seq_id b of
                      Some ns \<Rightarrow> Some (drop off ns)
                    | None \<Rightarrow> write_run (ub_n_seq_id ub) (ub_n_seqs ub) (replicate len 1));
        seq_id \<leftarrow> (if eq then write_run (ub_seq_id ub) (ub_n_seqs ub) [sq_seq_id s]
                  else case b_seq_id b of Some ss \<Rightarrow> Some (drop off ss) | None \<Rightarrow> Some (ub_seq_id ub));
        (output, new_ids) \<leftarrow> fill_output sb ub off len;
        let ub' = ub\<lparr>
              ub_token := token, ub_embd := embd, ub_pos := pos, ub_n_seq_id := n_seq_id,
              ub_seq_id := seq_id, ub_output := output,
              ub_n_seq_tokens := (if ub_n_tokens ub = 0 \<and> ub_n_seqs ub = 0
                                  then (if eq then len else 1) else ub_n_seq_tokens ub),
              ub_n_tokens := ub_n_tokens ub + len,
              ub_n_seqs := ub_n_seqs ub + (if eq then 1 else len)\<rparr>;
            s' = s\<lparr>sq_offset := sq_offset s + len, sq_length := sq_length s - len\<rparr>;
            sb' = sb\<lparr>sb_out_ids := sb_out_ids sb @ new_ids, sb_n_tokens := sb_n_tokens sb - len\<rparr>
        in do {
          ensure (ub_n_tokens ub' = ub_n_seq_tokens ub' * ub_n_seqs ub');
          Some (sb', ub', s')
        }
      })"

section \<open>The three splits\<close>

definition split_simple ::
  "nat \<Rightarrow> 'e::zero llama_sbatch \<Rightarrow> ('e llama_ubatch \<times> 'e llama_sbatch) option" where
  "split_simple n0 sb0 =
     (let n_ubatch = (if sb_n_tokens sb0 < n0 then sb_n_tokens sb0 else n0);
          (ub0, sb) = reserve_ubatch n_ubatch (b_embd (sb_batch sb0) \<noteq> None) sb0;
          ub = ub0\<lparr>ub_equal_seqs := False\<rparr>
      in case sb_seq sb of
           [] \<Rightarrow> Some (ub, sb)
         | s # rest \<Rightarrow> do {
             ensure (rest = [] \<and> sq_n_seq_id s = 0);
             (sb1, ub1, s1) \<leftarrow> add_seq_to_ubatch sb ub s
                                (if sq_length s < n_ubatch then sq_length s else n_ubatch);
             Some (ub1, sb1\<lparr>sb_seq := [s1]\<rparr>)
           })"

text \<open>The loop of \<open>split_equal\<close>, from index \<open>i - 1\<close> down; \<open>len = 0\<close> until the first sequence.\<close>

fun split_equal_loop ::
  "nat \<Rightarrow> nat \<Rightarrow> nat \<Rightarrow> nat \<Rightarrow> 'e llama_sbatch \<Rightarrow> 'e llama_ubatch
     \<Rightarrow> ('e llama_ubatch \<times> 'e llama_sbatch) option" where
  "split_equal_loop n_ubatch 0 len n_in sb ub = Some (ub, sb)"
| "split_equal_loop n_ubatch (Suc i) len n_in sb ub =
     (let s = sb_seq sb ! i;
          len' = (if len = 0 then (if sq_length s < n_ubatch then sq_length s else n_ubatch) else len)
      in do {
        ensure (sq_length s > 0);
        (sb1, ub1, s1) \<leftarrow> add_seq_to_ubatch sb ub s len';
        let sb2 = sb1\<lparr>sb_seq := (sb_seq sb1)[i := s1]\<rparr>; n_in' = n_in + len'
        in if sq_n_seq_id s > 1 \<or> len' + n_in' > n_ubatch then Some (ub1, sb2)
           else split_equal_loop n_ubatch i len' n_in' sb2 ub1
      })"

definition split_equal ::
  "nat \<Rightarrow> 'e::zero llama_sbatch \<Rightarrow> ('e llama_ubatch \<times> 'e llama_sbatch) option" where
  "split_equal n0 sb0 =
     (let n_ubatch = (if sb_n_tokens sb0 < n0 then sb_n_tokens sb0 else n0);
          (ub, sb) = reserve_ubatch n_ubatch (b_embd (sb_batch sb0) \<noteq> None) sb0
      in case sb_seq sb of
           [] \<Rightarrow> Some (ub, sb)
         | s # _ \<Rightarrow> do {
             ensure (sq_n_seq_id s > 0);
             split_equal_loop n_ubatch (length (sb_seq sb)) 0 0 sb ub
           })"

definition split_seq ::
  "nat \<Rightarrow> 'e::zero llama_sbatch \<Rightarrow> ('e llama_ubatch \<times> 'e llama_sbatch) option" where
  "split_seq n0 sb0 =
     (let n_ubatch = (if sb_n_tokens sb0 < n0 then sb_n_tokens sb0 else n0);
          (ub, sb) = reserve_ubatch n_ubatch (b_embd (sb_batch sb0) \<noteq> None) sb0
      in if sb_seq sb = [] then Some (ub, sb)
         else let s = last (sb_seq sb) in do {
             ensure (sq_n_seq_id s > 0);
             (sb1, ub1, s1) \<leftarrow> add_seq_to_ubatch sb ub s
                                (if sq_length s < n_ubatch then sq_length s else n_ubatch);
             Some (ub1, sb1\<lparr>sb_seq := butlast (sb_seq sb1) @ [s1]\<rparr>)
           })"

section \<open>Building the sequences of a batch\<close>

fun first_diff :: "nat \<Rightarrow> int list \<Rightarrow> int list \<Rightarrow> (int \<times> int) option" where
  "first_diff 0 xs ys = None"
| "first_diff (Suc n) (x # xs) (y # ys) = (if x \<noteq> y then Some (x, y) else first_diff n xs ys)"
| "first_diff (Suc n) _ _ = None"

definition ids_lt :: "'e llama_batch \<Rightarrow> nat \<Rightarrow> nat \<Rightarrow> bool" where
  "ids_lt b i j =
     (let n_seq = (\<lambda>k. case b_n_seq_id b of None \<Rightarrow> 1 | Some ns \<Rightarrow> ns ! k);
          tie = (case b_pos b of Some p \<Rightarrow> p ! i < p ! j | None \<Rightarrow> i < j)
      in if n_seq i = n_seq j then
           (case b_seq_id b of
              Some ss \<Rightarrow> (case first_diff (nat (n_seq i)) (ss ! i) (ss ! j) of
                           Some (x, y) \<Rightarrow> x < y | None \<Rightarrow> tie)
            | None \<Rightarrow> tie)
         else n_seq i > n_seq j)"

definition same_seq :: "int \<Rightarrow> int list \<Rightarrow> llama_sbatch_seq \<Rightarrow> bool" where
  "same_seq n_seqs seq_ids s =
     (n_seqs = sq_n_seq_id s \<and> list_all (\<lambda>j. seq_ids ! j = sq_seq_id s ! j) [0..<nat n_seqs])"

fun build_seqs ::
  "int list \<Rightarrow> int list list \<Rightarrow> nat \<Rightarrow> nat list \<Rightarrow> llama_sbatch_seq list \<Rightarrow> llama_sbatch_seq list" where
  "build_seqs ns ss i [] acc = acc"
| "build_seqs ns ss i (bi # ids) acc =
     (if acc \<noteq> [] \<and> same_seq (ns ! bi) (ss ! bi) (last acc)
      then build_seqs ns ss (Suc i) ids
             (butlast acc @ [(last acc)\<lparr>sq_length := sq_length (last acc) + 1\<rparr>])
      else build_seqs ns ss (Suc i) ids
             (acc @ [\<lparr>sq_n_seq_id = ns ! bi, sq_seq_id = ss ! bi, sq_offset = i, sq_length = 1\<rparr>]))"

definition sbatch_seq_lt :: "llama_sbatch_seq \<Rightarrow> llama_sbatch_seq \<Rightarrow> bool" where
  "sbatch_seq_lt a b =
     (if sq_n_seq_id a = sq_n_seq_id b then sq_length a > sq_length b
      else sq_n_seq_id a < sq_n_seq_id b)"

definition sbatch_init :: "'e llama_batch \<Rightarrow> bool \<Rightarrow> bool \<Rightarrow> 'e llama_sbatch option" where
  "sbatch_init b simple_split logits_all =
     (let ids = [0..<b_n_tokens b];
          sb = \<lparr>sb_n_tokens = b_n_tokens b, sb_logits_all = logits_all, sb_ids = ids,
                sb_out_ids = [], sb_seq = [], sb_batch = b\<rparr>
      in if simple_split
         then Some (sb\<lparr>sb_seq := [\<lparr>sq_n_seq_id = 0, sq_seq_id = [], sq_offset = 0,
                                  sq_length = b_n_tokens b\<rparr>]\<rparr>)
         else let ids' = std_sort (ids_lt b) ids in do {
           ns \<leftarrow> b_n_seq_id b;
           ss \<leftarrow> b_seq_id b;
           Some (sb\<lparr>sb_ids := ids', sb_seq := std_sort sbatch_seq_lt (build_seqs ns ss 0 ids' [])\<rparr>)
         })"

section \<open>Defaults of a batch\<close>

definition batch_allocr :: "'e llama_batch \<Rightarrow> int \<Rightarrow> 'e llama_batch option" where
  "batch_allocr b p0 =
     (let n = b_n_tokens b in do {
        ensure (n > 0);
        Some (b\<lparr>
          b_pos := Some (case b_pos b of Some p \<Rightarrow> p | None \<Rightarrow> map (\<lambda>i. int i + p0) [0..<n]),
          b_n_seq_id := Some (case b_n_seq_id b of Some ns \<Rightarrow> ns | None \<Rightarrow> replicate n 1),
          b_seq_id := Some (case b_seq_id b of Some ss \<Rightarrow> ss | None \<Rightarrow> replicate n [0]),
          b_logits := Some (case b_logits b of Some l \<Rightarrow> l
                            | None \<Rightarrow> (replicate n 0)[n - 1 := 1])\<rparr>)
      })"

definition batch_get_one :: "int list \<Rightarrow> nat \<Rightarrow> 'e llama_batch" where
  "batch_get_one tokens n =
     \<lparr>b_n_tokens = n, b_token = Some tokens, b_embd = None, b_pos = None, b_n_seq_id = None,
      b_seq_id = None, b_logits = None\<rparr>"

section \<open>Well-formed batches\<close>

text \<open>
  What \<open>llama_batch_allocr\<close> establishes and the splits read: the arrays that are present have
  an entry per token, and the positions are present.
\<close>

definition batch_ok :: "'e llama_batch \<Rightarrow> bool" where
  "batch_ok b =
     (let n = b_n_tokens b in
        (\<forall>t. b_token b = Some t \<longrightarrow> length t = n) \<and> (\<forall>e. b_embd b = Some e \<longrightarrow> length e = n)
      \<and> (\<exists>p. b_pos b = Some p \<and> length p = n)
      \<and> (\<forall>ns. b_n_seq_id b = Some ns \<longrightarrow> length ns = n)
      \<and> (\<forall>ss. b_seq_id b = Some ss \<longrightarrow> length ss = n)
      \<and> (\<forall>l. b_logits b = Some l \<longrightarrow> length l = n))"

text \<open>The batch entries whose output is requested.\<close>

definition wanted :: "'e llama_sbatch \<Rightarrow> nat \<Rightarrow> bool" where
  "wanted sb k = (sb_logits_all sb \<or>
     (case b_logits (sb_batch sb) of
        Some l \<Rightarrow> l ! k \<noteq> 0 | None \<Rightarrow> k = length (sb_ids sb) - 1))"

definition ub_tokens :: "'e llama_ubatch \<Rightarrow> int list option" where
  "ub_tokens ub = map_option (take (ub_n_tokens ub)) (ub_token ub)"

definition ub_positions :: "'e llama_ubatch \<Rightarrow> int list" where
  "ub_positions ub = take (ub_n_tokens ub) (ub_pos ub)"

lemma slice_upt: "off + len \<le> n \<Longrightarrow> slice [0..<n] off len = Some [off..<off + len]"
  by (simp add: slice_def take_upt)

lemma slice_Some: "off + len \<le> length xs \<Longrightarrow> slice xs off len = Some (take len (drop off xs))"
  by (simp add: slice_def)

lemma gather_Some: "\<forall>i \<in> set is. i < length xs \<Longrightarrow> gather xs is = Some (map ((!) xs) is)"
  by (simp add: gather_def list_all_iff)

lemma write_run_Some:
  "off + length ys \<le> length xs \<Longrightarrow>
     write_run xs off ys = Some (take off xs @ ys @ drop (off + length ys) xs)"
  by (simp add: write_run_def)

lemma filter_upt_shift:
  assumes "off + len \<le> length l"
  shows "map ((+) off) (filter (\<lambda>i. take len (drop off l) ! i \<noteq> z) [0..<len])
       = filter (\<lambda>i. l ! i \<noteq> z) [off..<off + len]"
proof -
  have "[off..<off + len] = map ((+) off) [0..<len]"
    by (intro nth_equalityI) auto
  then show ?thesis using assms
    by (auto simp: filter_map o_def intro!: arg_cong [where f = "map ((+) off)"] filter_cong)
qed

section \<open>The simple split\<close>

definition simple_ok :: "'e llama_sbatch \<Rightarrow> bool" where
  "simple_ok sb =
     (let n = b_n_tokens (sb_batch sb) in
        batch_ok (sb_batch sb) \<and> sb_ids sb = [0..<n] \<and>
        (case sb_seq sb of
           [] \<Rightarrow> sb_n_tokens sb = 0
         | [s] \<Rightarrow> sq_n_seq_id s = 0 \<and> sq_length s = sb_n_tokens sb \<and> sq_offset s + sq_length s = n
         | _ \<Rightarrow> False))"

lemma simple_init_ok: "batch_ok b \<Longrightarrow> sbatch_init b True la = Some sb \<Longrightarrow> simple_ok sb"
  by (auto simp: sbatch_init_def simple_ok_def Let_def)

text \<open>One \<open>add_seq_to_ubatch\<close> of a simple split: the micro-batch points into the batch.\<close>

lemma add_seq_simple:
  assumes ok: "batch_ok (sb_batch sb)" "sb_ids sb = [0..<b_n_tokens (sb_batch sb)]"
    and s: "sq_n_seq_id s = 0" "sq_offset s + sq_length s = b_n_tokens (sb_batch sb)" "len \<le> sq_length s"
    and ub: "\<not> ub_equal_seqs ub" "ub_n_tokens ub = 0" "ub_n_seqs ub = 0"
      "len \<le> length (ub_output ub)" "len \<le> length (ub_n_seq_id ub)"
  shows "\<exists>ub'. add_seq_to_ubatch sb ub s len =
           Some (sb\<lparr>sb_out_ids := sb_out_ids sb @ filter (wanted sb) [sq_offset s..<sq_offset s + len],
                    sb_n_tokens := sb_n_tokens sb - len\<rparr>, ub',
                 s\<lparr>sq_offset := sq_offset s + len, sq_length := sq_length s - len\<rparr>)
       \<and> \<not> ub_equal_seqs ub' \<and> ub_n_tokens ub' = len \<and> ub_n_seq_tokens ub' = 1 \<and> ub_n_seqs ub' = len
       \<and> ub_token ub' = map_option (drop (sq_offset s)) (b_token (sb_batch sb))
       \<and> ub_pos ub' = drop (sq_offset s) (the (b_pos (sb_batch sb)))"
proof -
  let ?b = "sb_batch sb" and ?off = "sq_offset s"
  obtain p where p: "b_pos ?b = Some p" using ok(1) by (auto simp: batch_ok_def Let_def)
  have idx: "slice (sb_ids sb) ?off len = Some [?off..<?off + len]"
    unfolding ok(2) by (rule slice_upt) (use s in simp)
  have out: "\<exists>out. fill_output sb ub ?off len = Some (out, filter (wanted sb) [?off..<?off + len])"
  proof (cases "sb_logits_all sb")
    case True
    then show ?thesis using idx ub by (simp add: fill_output_def write_run_Some wanted_def [abs_def])
  next
    case False
    show ?thesis
    proof (cases "b_logits ?b")
      case None
      then show ?thesis using idx ub False by (simp add: fill_output_def write_run_Some wanted_def [abs_def])
    next
      case (Some l)
      then have "?off + len \<le> length l" using ok(1) s by (auto simp: batch_ok_def Let_def)
      then show ?thesis using Some False ub
        by (simp add: fill_output_def slice_Some filter_upt_shift wanted_def [abs_def])
    qed
  qed
  have nseq: "\<exists>v. (case b_n_seq_id ?b of Some ns \<Rightarrow> Some (drop ?off ns)
      | None \<Rightarrow> write_run (ub_n_seq_id ub) (ub_n_seqs ub) (replicate len 1)) = Some v"
    using ub by (auto simp: write_run_Some split: option.splits)
  have arr: "fill_array False src dst at idx off = Some (map_option (drop off) src)"
    for src dst :: "'b list option" and at idx off
    by (cases src) (simp_all add: fill_array_def)
  obtain o' where o': "fill_output sb ub ?off len = Some (o', filter (wanted sb) [?off..<?off + len])"
    using out by blast
  obtain v where v: "(case b_n_seq_id ?b of Some ns \<Rightarrow> Some (drop ?off ns)
      | None \<Rightarrow> write_run (ub_n_seq_id ub) (ub_n_seqs ub) (replicate len 1)) = Some v"
    using nseq by blast
  obtain w where w: "(case b_seq_id ?b of Some ss \<Rightarrow> Some (drop ?off ss) | None \<Rightarrow> Some (ub_seq_id ub)) = Some w"
    by (cases "b_seq_id ?b") auto
  show ?thesis
    unfolding add_seq_to_ubatch_def Let_def
    using s ub by (simp add: arr p o' v w)
qed

lemma reserve_simple:
  assumes "simple_ok sb" "0 < sb_n_tokens sb"
  shows "snd (reserve_ubatch n e sb) = sb"
  using assms
  by (auto simp: reserve_ubatch_def simple_ok_def Let_def split: list.splits)

text \<open>
  One step: never an assertion failure, \<open>min n_ubatch n_tokens\<close> tokens, which are the next ones
  of the batch, and the invariant again.
\<close>

lemma split_simple_step:
  assumes ok: "simple_ok sb" and pos: "0 < sb_n_tokens sb"
  shows "\<exists>ub sb'. split_simple n0 sb = Some (ub, sb') \<and> simple_ok sb'
     \<and> sb_batch sb' = sb_batch sb \<and> sb_logits_all sb' = sb_logits_all sb
     \<and> ub_n_tokens ub = min n0 (sb_n_tokens sb) \<and> sb_n_tokens sb' = sb_n_tokens sb - ub_n_tokens ub
     \<and> ub_n_seqs ub = ub_n_tokens ub \<and> ub_n_seq_tokens ub = 1
     \<and> ub_positions ub = take (ub_n_tokens ub)
         (drop (b_n_tokens (sb_batch sb) - sb_n_tokens sb) (the (b_pos (sb_batch sb))))
     \<and> ub_tokens ub = map_option (\<lambda>t. take (ub_n_tokens ub)
         (drop (b_n_tokens (sb_batch sb) - sb_n_tokens sb) t)) (b_token (sb_batch sb))
     \<and> sb_out_ids sb' = sb_out_ids sb @ filter (wanted sb)
         [b_n_tokens (sb_batch sb) - sb_n_tokens sb..<
          b_n_tokens (sb_batch sb) - sb_n_tokens sb + ub_n_tokens ub]"
proof -
  obtain s where s: "sb_seq sb = [s]" "sq_n_seq_id s = 0" "sq_length s = sb_n_tokens sb"
      "sq_offset s + sq_length s = b_n_tokens (sb_batch sb)"
    and b: "batch_ok (sb_batch sb)" "sb_ids sb = [0..<b_n_tokens (sb_batch sb)]"
    using ok pos by (auto simp: simple_ok_def Let_def split: list.splits)
  define n where "n = (if sb_n_tokens sb < n0 then sb_n_tokens sb else n0)"
  have n: "n = min n0 (sb_n_tokens sb)" by (auto simp: n_def)
  obtain ub0 where r: "reserve_ubatch n (b_embd (sb_batch sb) \<noteq> None) sb = (ub0, sb)"
    using reserve_simple [OF ok pos] by (metis prod.collapse)
  define ub where "ub = ub0\<lparr>ub_equal_seqs := False\<rparr>"
  have ub: "\<not> ub_equal_seqs ub" "ub_n_tokens ub = 0" "ub_n_seqs ub = 0"
      "length (ub_output ub) = n" "length (ub_n_seq_id ub) = n"
    using r by (auto simp: reserve_ubatch_def ub_def)
  have off: "b_n_tokens (sb_batch sb) - sb_n_tokens sb = sq_offset s" using s by simp
  have len: "(if sq_length s < n then sq_length s else n) = n" using s n by auto
  obtain ub' where ub': "add_seq_to_ubatch sb ub s n =
      Some (sb\<lparr>sb_out_ids := sb_out_ids sb @ filter (wanted sb) [sq_offset s..<sq_offset s + n],
               sb_n_tokens := sb_n_tokens sb - n\<rparr>, ub',
            s\<lparr>sq_offset := sq_offset s + n, sq_length := sq_length s - n\<rparr>)"
      "ub_n_tokens ub' = n" "ub_n_seq_tokens ub' = 1" "ub_n_seqs ub' = n"
      "ub_token ub' = map_option (drop (sq_offset s)) (b_token (sb_batch sb))"
      "ub_pos ub' = drop (sq_offset s) (the (b_pos (sb_batch sb)))"
    using add_seq_simple [OF b s(2) s(4), of n ub] ub s(3) n by auto
  have "split_simple n0 sb = Some (ub',
      sb\<lparr>sb_out_ids := sb_out_ids sb @ filter (wanted sb) [sq_offset s..<sq_offset s + n],
         sb_n_tokens := sb_n_tokens sb - n,
         sb_seq := [s\<lparr>sq_offset := sq_offset s + n, sq_length := sq_length s - n\<rparr>]\<rparr>)"
    unfolding split_simple_def Let_def n_def [symmetric] r prod.case ub_def [symmetric]
    by (simp add: s(1,2) len ub'(1))
  moreover have "sq_offset s + n + (sb_n_tokens sb - n) = b_n_tokens (sb_batch sb)"
    using s n by simp
  ultimately show ?thesis
    using ub' s b n off
    by (auto simp: simple_ok_def Let_def ub_positions_def ub_tokens_def option.map_comp o_def)
qed

text \<open>
  The loop \<open>while (sbatch.n_tokens > 0) { ubatch = sbatch.split_...(n_ubatch); ... }\<close> of the
  decoder, with as much fuel as there are tokens.
\<close>

fun drain ::
  "(nat \<Rightarrow> 'e llama_sbatch \<Rightarrow> ('e llama_ubatch \<times> 'e llama_sbatch) option) \<Rightarrow> nat \<Rightarrow> nat
     \<Rightarrow> 'e llama_sbatch \<Rightarrow> ('e llama_ubatch list \<times> 'e llama_sbatch) option" where
  "drain split n0 0 sb = (if sb_n_tokens sb = 0 then Some ([], sb) else None)"
| "drain split n0 (Suc fuel) sb =
     (if sb_n_tokens sb = 0 then Some ([], sb)
      else do { (ub, sb1) \<leftarrow> split n0 sb; (ubs, sb2) \<leftarrow> drain split n0 fuel sb1; Some (ub # ubs, sb2) })"

lemma drain_simple:
  assumes "simple_ok sb" "0 < n0" "sb_n_tokens sb \<le> fuel"
  shows "\<exists>ubs sb'. drain split_simple n0 fuel sb = Some (ubs, sb') \<and> sb_n_tokens sb' = 0
     \<and> (\<forall>ub \<in> set ubs. 0 < ub_n_tokens ub \<and> ub_n_tokens ub \<le> n0)
     \<and> concat (map ub_positions ubs) =
         drop (b_n_tokens (sb_batch sb) - sb_n_tokens sb) (the (b_pos (sb_batch sb)))
     \<and> (\<forall>t. b_token (sb_batch sb) = Some t \<longrightarrow>
         concat (map (\<lambda>ub. the (ub_tokens ub)) ubs) = drop (b_n_tokens (sb_batch sb) - sb_n_tokens sb) t)
     \<and> sb_out_ids sb' = sb_out_ids sb @ filter (wanted sb)
         [b_n_tokens (sb_batch sb) - sb_n_tokens sb..<b_n_tokens (sb_batch sb)]"
  using assms
proof (induction fuel arbitrary: sb)
  case 0
  then show ?case by (auto simp: simple_ok_def batch_ok_def Let_def)
next
  case (Suc fuel)
  show ?case
  proof (cases "sb_n_tokens sb = 0")
    case True
    then show ?thesis using Suc.prems by (auto simp: simple_ok_def batch_ok_def Let_def)
  next
    case False
    let ?n = "b_n_tokens (sb_batch sb)" and ?o = "b_n_tokens (sb_batch sb) - sb_n_tokens sb"
    from False obtain ub sb1 where 1: "split_simple n0 sb = Some (ub, sb1)" "simple_ok sb1"
      "sb_batch sb1 = sb_batch sb" "sb_logits_all sb1 = sb_logits_all sb"
      "ub_n_tokens ub = min n0 (sb_n_tokens sb)" "sb_n_tokens sb1 = sb_n_tokens sb - ub_n_tokens ub"
      "ub_positions ub = take (ub_n_tokens ub) (drop ?o (the (b_pos (sb_batch sb))))"
      "ub_tokens ub = map_option (\<lambda>t. take (ub_n_tokens ub) (drop ?o t)) (b_token (sb_batch sb))"
      "sb_out_ids sb1 = sb_out_ids sb @ filter (wanted sb) [?o..<?o + ub_n_tokens ub]"
      using split_simple_step [OF Suc.prems(1), of n0] by auto
    have "sb_n_tokens sb1 \<le> fuel" using 1(5,6) Suc.prems False by auto
    from Suc.IH [OF 1(2) Suc.prems(2) this] obtain ubs sb2 where
      2: "drain split_simple n0 fuel sb1 = Some (ubs, sb2)" "sb_n_tokens sb2 = 0"
      "\<forall>ub \<in> set ubs. 0 < ub_n_tokens ub \<and> ub_n_tokens ub \<le> n0"
      "concat (map ub_positions ubs) = drop (?n - sb_n_tokens sb1) (the (b_pos (sb_batch sb)))"
      "\<forall>t. b_token (sb_batch sb) = Some t \<longrightarrow>
         concat (map (\<lambda>ub. the (ub_tokens ub)) ubs) = drop (?n - sb_n_tokens sb1) t"
      "sb_out_ids sb2 = sb_out_ids sb1 @ filter (wanted sb1) [?n - sb_n_tokens sb1..<?n]"
      using 1(3) by auto
    have le: "sb_n_tokens sb \<le> ?n"
      using Suc.prems(1) by (auto simp: simple_ok_def Let_def split: list.splits)
    have o1: "?n - sb_n_tokens sb1 = ?o + ub_n_tokens ub" using 1(5,6) le by simp
    have "sb_ids sb1 = sb_ids sb"
      using 1(2,3) Suc.prems(1) by (auto simp: simple_ok_def Let_def)
    then have w: "wanted sb1 = wanted sb" by (simp add: wanted_def [abs_def] 1(3,4) cong: option.case_cong)
    have up: "[?o..<?n] = [?o..<?o + ub_n_tokens ub] @ [?o + ub_n_tokens ub..<?n]"
      using 1(5) le upt_add_eq_append [of ?o "?o + ub_n_tokens ub" "sb_n_tokens sb - ub_n_tokens ub"]
      by simp
    have split: "take k (drop ?o xs) @ drop (?o + k) xs = drop ?o xs" for k and xs :: "int list"
      by (metis add.commute append_take_drop_id drop_drop)
    let ?k = "ub_n_tokens ub"
    have "drain split_simple n0 (Suc fuel) sb = Some (ub # ubs, sb2)"
      using False 1(1) 2(1) by simp
    moreover have "0 < ?k \<and> ?k \<le> n0" using 1(5) False Suc.prems(2) by simp
    moreover have "concat (map ub_positions (ub # ubs)) = drop ?o (the (b_pos (sb_batch sb)))"
      by (simp only: list.map concat.simps 1(7) 2(4) o1 split)
    moreover have "concat (map (\<lambda>ub. the (ub_tokens ub)) (ub # ubs)) = drop ?o t"
      if "b_token (sb_batch sb) = Some t" for t
      using 2(5) that by (simp only: list.map concat.simps 1(8) o1 option.map option.sel simp_thms split)
    moreover have "sb_out_ids sb2 = sb_out_ids sb @ filter (wanted sb) [?o..<?n]"
      by (simp only: 2(6) 1(9) w o1 up filter_append append_assoc)
    ultimately show ?thesis using 2(2,3) by fastforce
  qed
qed

section \<open>The equal split\<close>

text \<open>The batch indices still to be processed.\<close>

definition seq_ids_of :: "nat list \<Rightarrow> llama_sbatch_seq \<Rightarrow> nat list" where
  "seq_ids_of ids s = take (sq_length s) (drop (sq_offset s) ids)"

definition remaining :: "'e llama_sbatch \<Rightarrow> nat list" where
  "remaining sb = concat (map (seq_ids_of (sb_ids sb)) (sb_seq sb))"

definition seq_in :: "nat list \<Rightarrow> llama_sbatch_seq \<Rightarrow> bool" where
  "seq_in ids s = (0 < sq_n_seq_id s \<and> sq_offset s + sq_length s \<le> length ids)"

definition seqs_sorted :: "llama_sbatch_seq list \<Rightarrow> bool" where
  "seqs_sorted ss = sorted_wrt (\<lambda>a b. \<not> sbatch_seq_lt b a \<and> (0 < sq_length b \<longrightarrow> 0 < sq_length a)) ss"

definition frame_ok :: "'e llama_sbatch \<Rightarrow> bool" where
  "frame_ok sb = (batch_ok (sb_batch sb) \<and> length (sb_ids sb) = b_n_tokens (sb_batch sb)
     \<and> (\<forall>i \<in> set (sb_ids sb). i < b_n_tokens (sb_batch sb))
     \<and> (b_token (sb_batch sb) = None \<or> b_embd (sb_batch sb) = None))"

definition equal_ok :: "'e llama_sbatch \<Rightarrow> bool" where
  "equal_ok sb = (frame_ok sb \<and> (\<forall>s \<in> set (sb_seq sb). seq_in (sb_ids sb) s)
     \<and> seqs_sorted (sb_seq sb) \<and> sum_list (map sq_length (sb_seq sb)) = sb_n_tokens sb)"

definition ub_buffers :: "nat \<Rightarrow> 'e llama_batch \<Rightarrow> 'e llama_ubatch \<Rightarrow> bool" where
  "ub_buffers n b ub = (ub_equal_seqs ub
     \<and> (b_token b \<noteq> None \<longrightarrow> (\<exists>t. ub_token ub = Some t \<and> length t = n))
     \<and> (b_embd b \<noteq> None \<longrightarrow> (\<exists>e. ub_embd ub = Some e \<and> length e = n))
     \<and> length (ub_pos ub) = n \<and> length (ub_n_seq_id ub) = n \<and> length (ub_seq_id ub) = n
     \<and> length (ub_output ub) = n)"

lemma fill_array_equal:
  assumes "\<forall>xs. src = Some xs \<longrightarrow> (\<forall>i \<in> set is. i < length xs)"
    and "\<forall>xs. src = Some xs \<longrightarrow> (\<exists>buf. dst = Some buf \<and> length buf = n)" "at + length is \<le> n"
  shows "\<exists>w. fill_array True src dst at (Some is) off = Some w
     \<and> (\<forall>xs. src = Some xs \<longrightarrow> (\<exists>buf v. dst = Some buf \<and> w = Some v \<and> length v = n
           \<and> take (at + length is) v = take at buf @ map ((!) xs) is))"
proof (cases src)
  case None
  then show ?thesis by (simp add: fill_array_def)
next
  case (Some xs)
  then obtain buf where "dst = Some buf" "length buf = n" using assms(2) by auto
  then show ?thesis using Some assms by (simp add: fill_array_def gather_Some write_run_Some)
qed

lemma fill_output_equal:
  assumes "frame_ok sb" "ub_equal_seqs ub" "length (ub_output ub) = n" "ub_n_tokens ub + len \<le> n"
    and "slice (sb_ids sb) off len = Some is"
  shows "\<exists>out. fill_output sb ub off len = Some (out, filter (wanted sb) is) \<and> length out = n"
proof -
  have len: "length is = len" and sub: "set is \<subseteq> set (sb_ids sb)"
    using assms(5) by (auto simp: slice_def dest: in_set_takeD in_set_dropD split: if_splits)
  show ?thesis
  proof (cases "sb_logits_all sb")
    case True
    then show ?thesis using assms len by (auto simp: fill_output_def write_run_Some wanted_def)
  next
    case False
    have "\<forall>i \<in> set is. i < length l" if "b_logits (sb_batch sb) = Some l" for l
      using that assms(1) sub by (auto simp: frame_ok_def batch_ok_def Let_def)
    then show ?thesis using False assms len
      by (cases "b_logits (sb_batch sb)")
        (auto simp: fill_output_def write_run_Some gather_Some wanted_def [abs_def])
  qed
qed

text \<open>
  One \<open>add_seq_to_ubatch\<close> of an equal split. The premises are what the split maintains; the
  conclusion includes that no assertion fails and no buffer is overrun.
\<close>

lemma add_seq_equal:
  assumes fr: "frame_ok sb" and s: "seq_in (sb_ids sb) s" "len \<le> sq_length s" "0 < len"
    and ub: "ub_buffers n (sb_batch sb) ub" "ub_n_tokens ub = len * ub_n_seqs ub"
      "0 < ub_n_seqs ub \<longrightarrow> ub_n_seq_tokens ub = len" "ub_n_tokens ub + len \<le> n"
  defines "is \<equiv> take len (drop (sq_offset s) (sb_ids sb))"
  shows "\<exists>ub'. add_seq_to_ubatch sb ub s len =
           Some (sb\<lparr>sb_out_ids := sb_out_ids sb @ filter (wanted sb) is, sb_n_tokens := sb_n_tokens sb - len\<rparr>,
                 ub', s\<lparr>sq_offset := sq_offset s + len, sq_length := sq_length s - len\<rparr>)
       \<and> ub_buffers n (sb_batch sb) ub' \<and> ub_n_tokens ub' = ub_n_tokens ub + len
       \<and> ub_n_seqs ub' = ub_n_seqs ub + 1 \<and> ub_n_seq_tokens ub' = len
       \<and> ub_positions ub' = ub_positions ub @ map ((!) (the (b_pos (sb_batch sb)))) is
       \<and> (\<forall>t. b_token (sb_batch sb) = Some t \<longrightarrow>
            ub_tokens ub' = Some (the (ub_tokens ub) @ map ((!) t) is))"
proof -
  let ?b = "sb_batch sb" and ?at = "ub_n_tokens ub"
  have idx: "slice (sb_ids sb) (sq_offset s) len = Some is" and len: "length is = len"
    using s by (auto simp: is_def seq_in_def slice_def)
  have sub: "\<forall>i \<in> set is. i < b_n_tokens ?b"
    using fr by (auto simp: is_def frame_ok_def dest!: in_set_takeD in_set_dropD)
  obtain p where p: "b_pos ?b = Some p" "length p = b_n_tokens ?b"
    using fr by (auto simp: frame_ok_def batch_ok_def Let_def)
  have seqs: "ub_n_seqs ub + 1 \<le> n"
  proof -
    have "ub_n_seqs ub \<le> len * ub_n_seqs ub" using s(3) by (cases len) auto
    then show ?thesis using ub(2,4) s(3) by linarith
  qed
  obtain tok where tok: "fill_array True (b_token ?b) (ub_token ub) ?at (Some is) (sq_offset s) = Some tok"
    "\<forall>xs. b_token ?b = Some xs \<longrightarrow> (\<exists>buf v. ub_token ub = Some buf \<and> tok = Some v \<and> length v = n
           \<and> take (?at + length is) v = take ?at buf @ map ((!) xs) is)"
    using fill_array_equal [of "b_token ?b" "is" "ub_token ub" n ?at "sq_offset s"] fr ub sub len
    by (auto simp: frame_ok_def batch_ok_def Let_def ub_buffers_def)
  obtain emb where emb: "fill_array True (b_embd ?b) (ub_embd ub) ?at (Some is) (sq_offset s) = Some emb"
    "\<forall>xs. b_embd ?b = Some xs \<longrightarrow> (\<exists>buf v. ub_embd ub = Some buf \<and> emb = Some v \<and> length v = n
           \<and> take (?at + length is) v = take ?at buf @ map ((!) xs) is)"
    using fill_array_equal [of "b_embd ?b" "is" "ub_embd ub" n ?at "sq_offset s"] fr ub sub len
    by (auto simp: frame_ok_def batch_ok_def Let_def ub_buffers_def)
  obtain out where out: "fill_output sb ub (sq_offset s) len = Some (out, filter (wanted sb) is)" "length out = n"
    using fill_output_equal [OF fr _ _ ub(4) idx] ub(1) by (auto simp: ub_buffers_def)
  have b: "ub_equal_seqs ub" "length (ub_pos ub) = n" "length (ub_n_seq_id ub) = n" "length (ub_seq_id ub) = n"
    using ub(1) by (auto simp: ub_buffers_def)
  have div: "0 < ub_n_seqs ub \<Longrightarrow> len = ?at div ub_n_seqs ub" using ub(2) by simp
  have g: "gather p is = Some (map ((!) p) is)" using sub p by (simp add: gather_Some)
  have at: "?at + len \<le> n" "?at + length is \<le> n" using ub(4) len by simp_all
  obtain p' where p': "write_run (ub_pos ub) ?at (map ((!) p) is) = Some p'" "length p' = n"
      "take (?at + len) p' = take ?at (ub_pos ub) @ map ((!) p) is"
    using at b len by (auto simp: write_run_Some)
  obtain ns where ns: "write_run (ub_n_seq_id ub) (ub_n_seqs ub) [sq_n_seq_id s] = Some ns" "length ns = n"
    using seqs b by (auto simp: write_run_Some)
  obtain si where si: "write_run (ub_seq_id ub) (ub_n_seqs ub) [sq_seq_id s] = Some si" "length si = n"
    using seqs b by (auto simp: write_run_Some)
  define ub' where "ub' = ub\<lparr>ub_token := tok, ub_embd := emb, ub_pos := p', ub_n_seq_id := ns,
      ub_seq_id := si, ub_output := out, ub_n_seq_tokens := len,
      ub_n_tokens := ?at + len, ub_n_seqs := ub_n_seqs ub + 1\<rparr>"
  have nst: "(if ?at = 0 \<and> ub_n_seqs ub = 0 then len else ub_n_seq_tokens ub) = len"
    using ub(2,3) s(3) by auto
  have e1: "(sq_n_seq_id s = 0 \<or> ub_n_seqs ub = 0 \<or> len = ?at div ub_n_seqs ub) = True"
    using div by auto
  have e2: "(sq_n_seq_id s \<noteq> 0) = True" using s(1) by (auto simp: seq_in_def)
  have e3: "(?at + len = len * (ub_n_seqs ub + 1)) = True" using ub(2) by simp
  have "add_seq_to_ubatch sb ub s len =
           Some (sb\<lparr>sb_out_ids := sb_out_ids sb @ filter (wanted sb) is, sb_n_tokens := sb_n_tokens sb - len\<rparr>,
                 ub', s\<lparr>sq_offset := sq_offset s + len, sq_length := sq_length s - len\<rparr>)"
    unfolding add_seq_to_ubatch_def Let_def idx b(1)
    by (simp only: b(1) e1 e2 e3 s(2) ensure_bind if_True tok(1) emb(1) out(1) p(1) g p'(1) ns(1) si(1)
        Option.bind.simps prod.case nst simp_thms ub'_def) (use ub(2) in simp)
  moreover have "ub_buffers n ?b ub'"
    using b(1) tok(2) emb(2) p'(2) ns(2) si(2) out(2) by (auto simp: ub_buffers_def ub'_def)
  moreover have "ub_positions ub' = ub_positions ub @ map ((!) (the (b_pos ?b))) is"
    using p'(3) by (simp add: ub_positions_def ub'_def p(1))
  moreover have "\<forall>t. b_token ?b = Some t \<longrightarrow> ub_tokens ub' = Some (the (ub_tokens ub) @ map ((!) t) is)"
    using tok(2) len by (auto simp: ub_tokens_def ub'_def)
  ultimately show ?thesis by (auto simp: ub'_def)
qed

lemma concat_map_split:
  "i < length xs \<Longrightarrow> concat (map f xs) =
     concat (map f (take i xs)) @ f (xs ! i) @ concat (map f (drop (Suc i) xs))"
  by (subst (1) id_take_nth_drop [of i xs]) simp_all

lemma mset_concat_update:
  assumes "i < length xs" "f (xs ! i) = p @ f y"
  shows "mset (concat (map f xs)) = mset p + mset (concat (map f (xs[i := y])))"
  using assms(1) concat_map_split [of i xs f] concat_map_split [of i "xs[i := y]" f]
  by (simp add: assms(2))

lemma sum_list_update_sub:
  fixes f :: "'a \<Rightarrow> nat"
  assumes "i < length xs" "f (xs ! i) = f y + k"
  shows "sum_list (map f xs) = sum_list (map f (xs[i := y])) + k"
proof -
  have *: "sum_list (map f zs) = sum_list (map f (take i zs)) + f (zs ! i) + sum_list (map f (drop (Suc i) zs))"
    if "i < length zs" for zs
    by (subst (1) id_take_nth_drop [OF that]) simp
  show ?thesis using *[of xs] *[of "xs[i := y]"] assms by simp
qed

text \<open>
  What the loop of \<open>split_equal\<close> maintains before index \<open>i - 1\<close> is visited: the sequences
  from \<open>i\<close> on have each given \<open>len\<close> tokens, those before \<open>i\<close> are untouched and at least
  \<open>len\<close> longer than those after.
\<close>

definition equal_loop_inv :: "nat \<Rightarrow> nat \<Rightarrow> nat \<Rightarrow> nat \<Rightarrow> 'e llama_sbatch \<Rightarrow> 'e llama_ubatch \<Rightarrow> bool" where
  "equal_loop_inv n i len n_in sb ub =
     (let ss = sb_seq sb; m = length ss in
        equal_ok sb \<and> ub_buffers n (sb_batch sb) ub \<and> i \<le> m \<and> 0 < n
      \<and> ub_n_seqs ub = m - i \<and> ub_n_tokens ub = n_in \<and> n_in = len * (m - i)
      \<and> (len = 0 \<longleftrightarrow> i = m) \<and> (i < m \<longrightarrow> ub_n_seq_tokens ub = len \<and> len + n_in \<le> n)
      \<and> (\<forall>j < i. 0 < sq_length (ss ! j))
      \<and> (i < m \<longrightarrow> (\<forall>j < m. sq_n_seq_id (ss ! j) = 1))
      \<and> (\<forall>j k. j < i \<longrightarrow> i \<le> k \<longrightarrow> k < m \<longrightarrow> sq_length (ss ! k) + len \<le> sq_length (ss ! j)))"

lemma seqs_sorted_iff:
  "seqs_sorted ss \<longleftrightarrow> (\<forall>j k. j < k \<longrightarrow> k < length ss \<longrightarrow>
     \<not> sbatch_seq_lt (ss ! k) (ss ! j) \<and> (0 < sq_length (ss ! k) \<longrightarrow> 0 < sq_length (ss ! j)))"
  by (auto simp: seqs_sorted_def sorted_wrt_iff_nth_less)

lemma seqs_sorted_shrink:
  assumes "seqs_sorted ss" "i < length ss"
    and "sq_n_seq_id s' = sq_n_seq_id (ss ! i)" "sq_length s' \<le> sq_length (ss ! i)"
    and "\<And>j. j < i \<Longrightarrow> 0 < sq_length (ss ! j)"
    and "\<And>k. i < k \<Longrightarrow> k < length ss \<Longrightarrow>
           sq_n_seq_id (ss ! k) = sq_n_seq_id (ss ! i) \<and> sq_length (ss ! k) \<le> sq_length s'"
  shows "seqs_sorted (ss[i := s'])"
  unfolding seqs_sorted_iff
proof (intro allI impI)
  fix j k assume jk: "j < k" "k < length (ss[i := s'])"
  have base: "\<not> sbatch_seq_lt (ss ! k) (ss ! j)" "0 < sq_length (ss ! k) \<longrightarrow> 0 < sq_length (ss ! j)"
    using assms(1) jk by (auto simp: seqs_sorted_iff)
  consider "k = i" | "j = i" | "j \<noteq> i" "k \<noteq> i" by blast
  then show "\<not> sbatch_seq_lt (ss[i := s'] ! k) (ss[i := s'] ! j)
      \<and> (0 < sq_length (ss[i := s'] ! k) \<longrightarrow> 0 < sq_length (ss[i := s'] ! j))"
  proof cases
    case 1
    then show ?thesis using base jk assms(2,3,4,5) by (auto simp: sbatch_seq_lt_def split: if_splits)
  next
    case 2
    then show ?thesis using jk assms(2,3) assms(6) [of k] by (auto simp: sbatch_seq_lt_def)
  next
    case 3
    then show ?thesis using base jk by simp
  qed
qed

lemma equal_ok_step:
  fixes outs :: "nat list"
  assumes "equal_ok sb" "i < length (sb_seq sb)" "s = sb_seq sb ! i" "len \<le> sq_length s"
    and "\<And>j. j < i \<Longrightarrow> 0 < sq_length (sb_seq sb ! j)"
    and "\<And>k. i < k \<Longrightarrow> k < length (sb_seq sb) \<Longrightarrow> sq_n_seq_id (sb_seq sb ! k) = sq_n_seq_id s
           \<and> sq_length (sb_seq sb ! k) + len \<le> sq_length s"
  defines "s' \<equiv> s\<lparr>sq_offset := sq_offset s + len, sq_length := sq_length s - len\<rparr>"
    and "sb' \<equiv> sb\<lparr>sb_out_ids := outs, sb_n_tokens := sb_n_tokens sb - len,
                  sb_seq := (sb_seq sb)[i := s\<lparr>sq_offset := sq_offset s + len, sq_length := sq_length s - len\<rparr>]\<rparr>"
  shows "equal_ok sb'" "sb_n_tokens sb' + len = sb_n_tokens sb"
    "mset (remaining sb) = mset (take len (drop (sq_offset s) (sb_ids sb))) + mset (remaining sb')"
proof -
  have mem: "s \<in> set (sb_seq sb)" using assms(2,3) by simp
  have sum: "sum_list (map sq_length (sb_seq sb)) = sum_list (map sq_length ((sb_seq sb)[i := s'])) + len"
    by (rule sum_list_update_sub) (use assms in \<open>simp_all add: s'_def\<close>)
  show n: "sb_n_tokens sb' + len = sb_n_tokens sb"
    using assms(1) sum by (simp add: equal_ok_def sb'_def)
  have srt: "seqs_sorted ((sb_seq sb)[i := s'])"
  proof (rule seqs_sorted_shrink)
    show "seqs_sorted (sb_seq sb)" using assms(1) by (simp add: equal_ok_def)
    show "sq_n_seq_id (sb_seq sb ! k) = sq_n_seq_id (sb_seq sb ! i) \<and> sq_length (sb_seq sb ! k) \<le> sq_length s'"
      if "i < k" "k < length (sb_seq sb)" for k
      using assms(6) [OF that] assms(3) by (auto simp: s'_def)
  qed (use assms in \<open>simp_all add: s'_def\<close>)
  have in': "seq_in (sb_ids sb) s'"
    using assms(1,4) mem by (auto simp: equal_ok_def seq_in_def s'_def)
  have all: "seq_in (sb_ids sb) t" if "t \<in> set ((sb_seq sb)[i := s'])" for t
    using that set_update_subset_insert [of "sb_seq sb" i s'] in' assms(1) by (auto simp: equal_ok_def)
  have "sb_n_tokens sb - len = sum_list (map sq_length ((sb_seq sb)[i := s']))"
    using sum assms(1) unfolding equal_ok_def by linarith
  then show "equal_ok sb'"
    using assms(1) srt all unfolding sb'_def s'_def [symmetric] by (simp add: equal_ok_def frame_ok_def)
  show "mset (remaining sb) = mset (take len (drop (sq_offset s) (sb_ids sb))) + mset (remaining sb')"
    unfolding remaining_def sb'_def s'_def [symmetric]
  proof (simp, rule mset_concat_update)
    show "seq_ids_of (sb_ids sb) (sb_seq sb ! i)
        = take len (drop (sq_offset s) (sb_ids sb)) @ seq_ids_of (sb_ids sb) s'"
      using assms(3,4) by (simp add: seq_ids_of_def s'_def take_add [symmetric] drop_drop add.commute)
        (metis add.commute drop_drop le_add_diff_inverse take_add)
  qed (use assms in simp)
qed

lemma split_equal_loop_ok:
  assumes "equal_loop_inv n i len n_in sb ub"
  shows "\<exists>ub' sb' P. split_equal_loop n i len n_in sb ub = Some (ub', sb') \<and> equal_ok sb'
     \<and> sb_batch sb' = sb_batch sb \<and> sb_logits_all sb' = sb_logits_all sb \<and> sb_ids sb' = sb_ids sb
     \<and> ub_positions ub' = ub_positions ub @ map ((!) (the (b_pos (sb_batch sb)))) P
     \<and> (\<forall>t. b_token (sb_batch sb) = Some t \<longrightarrow>
          the (ub_tokens ub') = the (ub_tokens ub) @ map ((!) t) P)
     \<and> sb_out_ids sb' = sb_out_ids sb @ filter (wanted sb) P
     \<and> sb_n_tokens sb' + length P = sb_n_tokens sb
     \<and> ub_n_tokens ub' = ub_n_tokens ub + length P \<and> ub_n_tokens ub' \<le> n
     \<and> (0 < i \<longrightarrow> P \<noteq> []) \<and> mset (remaining sb) = mset P + mset (remaining sb')
     \<and> ub_n_tokens ub' = ub_n_seq_tokens ub' * ub_n_seqs ub'"
  using assms
proof (induction i arbitrary: len n_in sb ub)
  case 0
  then show ?case
    by (intro exI [of _ ub] exI [of _ sb] exI [of _ "[]"])
      (auto simp: equal_loop_inv_def Let_def mult.commute)
next
  case (Suc i)
  let ?ss = "sb_seq sb" and ?m = "length (sb_seq sb)"
  define s where "s = ?ss ! i"
  define len' where "len' = (if len = 0 then (if sq_length s < n then sq_length s else n) else len)"
  from Suc.prems have ok: "equal_ok sb" and ub: "ub_buffers n (sb_batch sb) ub"
    and im: "Suc i \<le> ?m" "0 < n" and cnt: "ub_n_seqs ub = ?m - Suc i" "ub_n_tokens ub = n_in"
      "n_in = len * (?m - Suc i)" "len = 0 \<longleftrightarrow> Suc i = ?m"
      "Suc i < ?m \<longrightarrow> ub_n_seq_tokens ub = len \<and> len + n_in \<le> n"
    and pos: "\<forall>j < Suc i. 0 < sq_length (?ss ! j)"
    and one: "Suc i < ?m \<longrightarrow> (\<forall>j < ?m. sq_n_seq_id (?ss ! j) = 1)"
    and diff: "\<forall>j k. j < Suc i \<longrightarrow> Suc i \<le> k \<longrightarrow> k < ?m \<longrightarrow>
                sq_length (?ss ! k) + len \<le> sq_length (?ss ! j)"
    unfolding equal_loop_inv_def Let_def by auto
  have mem: "s \<in> set ?ss" using im by (simp add: s_def)
  have spos: "0 < sq_length s" using pos by (simp add: s_def)
  have l0: "0 < len'" using spos im by (auto simp: len'_def)
  have ls: "len' \<le> sq_length s"
  proof (cases "len = 0")
    case True
    then show ?thesis by (simp add: len'_def)
  next
    case False
    then have "Suc i < ?m" using cnt(4) im by auto
    then have "sq_length (?ss ! Suc i) + len \<le> sq_length s" using diff by (auto simp: s_def)
    then show ?thesis using False by (simp add: len'_def)
  qed
  have ln: "n_in + len' \<le> n" using cnt im by (cases "len = 0") (auto simp: len'_def)
  have nin: "ub_n_tokens ub = len' * ub_n_seqs ub"
    using cnt by (cases "len = 0") (auto simp: len'_def)
  have nst: "0 < ub_n_seqs ub \<longrightarrow> ub_n_seq_tokens ub = len'"
    using cnt by (auto simp: len'_def)
  have fr: "frame_ok sb" and sin: "seq_in (sb_ids sb) s"
    using ok mem by (auto simp: equal_ok_def)
  define idx where "idx = take len' (drop (sq_offset s) (sb_ids sb))"
  have isl: "length idx = len'" using sin ls by (auto simp: idx_def seq_in_def)
  define s1 where "s1 = s\<lparr>sq_offset := sq_offset s + len', sq_length := sq_length s - len'\<rparr>"
  have "ub_n_tokens ub + len' \<le> n" using ln cnt(2) by simp
  from add_seq_equal [OF fr sin ls l0 ub nin nst this] obtain ub1 where add:
    "add_seq_to_ubatch sb ub s len' =
       Some (sb\<lparr>sb_out_ids := sb_out_ids sb @ filter (wanted sb) idx, sb_n_tokens := sb_n_tokens sb - len'\<rparr>, ub1, s1)"
    "ub_buffers n (sb_batch sb) ub1" "ub_n_tokens ub1 = ub_n_tokens ub + len'"
    "ub_n_seqs ub1 = ub_n_seqs ub + 1" "ub_n_seq_tokens ub1 = len'"
    "ub_positions ub1 = ub_positions ub @ map ((!) (the (b_pos (sb_batch sb)))) idx"
    "\<forall>t. b_token (sb_batch sb) = Some t \<longrightarrow> ub_tokens ub1 = Some (the (ub_tokens ub) @ map ((!) t) idx)"
    unfolding idx_def s1_def by blast
  define sb2 where "sb2 = sb\<lparr>sb_out_ids := sb_out_ids sb @ filter (wanted sb) idx,
      sb_n_tokens := sb_n_tokens sb - len', sb_seq := ?ss[i := s1]\<rparr>"
  have later: "sq_n_seq_id (?ss ! k) = sq_n_seq_id s \<and> sq_length (?ss ! k) + len' \<le> sq_length s"
    if "i < k" "k < ?m" for k
    using one diff cnt(4) im that by (auto simp: s_def len'_def)
  have step: "equal_ok sb2" "sb_n_tokens sb2 + len' = sb_n_tokens sb"
      "mset (remaining sb) = mset idx + mset (remaining sb2)"
    using equal_ok_step [OF ok _ s_def ls _ later] im pos unfolding sb2_def s1_def idx_def by auto
  have fields: "sb_batch sb2 = sb_batch sb" "sb_logits_all sb2 = sb_logits_all sb" "sb_ids sb2 = sb_ids sb"
      "length (sb_seq sb2) = ?m"
    by (simp_all add: sb2_def)
  have w: "wanted sb2 = wanted sb" by (simp add: wanted_def [abs_def] fields cong: option.case_cong)
  have unfold: "split_equal_loop n (Suc i) len n_in sb ub =
      (if sq_n_seq_id s > 1 \<or> len' + (n_in + len') > n then Some (ub1, sb2)
       else split_equal_loop n i len' (n_in + len') sb2 ub1)"
    using spos by (simp add: Let_def s_def [symmetric] len'_def [symmetric] add(1) sb2_def)
  show ?case
  proof (cases "sq_n_seq_id s > 1 \<or> len' + (n_in + len') > n")
    case True
    then show ?thesis
      unfolding unfold using add step fields isl ln cnt nin l0
      by (intro exI [of _ ub1] exI [of _ sb2] exI [of _ "idx"]) (auto simp: sb2_def)
  next
    case False
    have s1nth: "?ss[i := s1] ! j = (if j = i then s1 else ?ss ! j)" for j using im by (simp add: nth_list_update)
    have spos1: "0 < sq_n_seq_id (?ss ! j)" if "j < ?m" for j
      using ok that by (auto simp: equal_ok_def seq_in_def)
    have s_one: "sq_n_seq_id s = 1" using False spos1 [of i] im by (auto simp: s_def)
    have before: "sq_n_seq_id (?ss ! j) = 1 \<and> sq_length s \<le> sq_length (?ss ! j)" if "j < i" for j
    proof -
      have "\<not> sbatch_seq_lt s (?ss ! j)"
        using ok that im by (auto simp: equal_ok_def seqs_sorted_iff s_def)
      then show ?thesis using s_one spos1 [of j] that im by (auto simp: sbatch_seq_lt_def split: if_splits)
    qed
    have inv: "equal_loop_inv n i len' (n_in + len') sb2 ub1"
      unfolding equal_loop_inv_def Let_def
    proof (intro conjI)
      show "\<forall>j k. j < i \<longrightarrow> i \<le> k \<longrightarrow> k < length (sb_seq sb2) \<longrightarrow>
          sq_length (sb_seq sb2 ! k) + len' \<le> sq_length (sb_seq sb2 ! j)"
      proof (intro allI impI)
        fix j k assume jk: "j < i" "i \<le> k" "k < length (sb_seq sb2)"
        show "sq_length (sb_seq sb2 ! k) + len' \<le> sq_length (sb_seq sb2 ! j)"
        proof (cases "k = i")
          case True
          then show ?thesis using jk before [of j] ls by (simp add: sb2_def s1nth s1_def)
        next
          case F: False
          then have "sq_length (?ss ! k) + len' \<le> sq_length s" using later jk fields(4) by simp
          then show ?thesis using F jk before [of j] by (simp add: sb2_def s1nth)
        qed
      qed
      show "i < length (sb_seq sb2) \<longrightarrow> (\<forall>j < length (sb_seq sb2). sq_n_seq_id (sb_seq sb2 ! j) = 1)"
      proof (intro impI allI)
        fix j assume j: "j < length (sb_seq sb2)"
        consider "j < i" | "j = i" | "i < j" by linarith
        then show "sq_n_seq_id (sb_seq sb2 ! j) = 1"
          using j before [of j] s_one later [of j] fields(4)
          by cases (auto simp: sb2_def s1nth s1_def)
      qed
      show "n_in + len' = len' * (length (sb_seq sb2) - i)"
        using nin cnt(1,2) fields(4) im by (simp add: Suc_diff_Suc [symmetric])
      show "(len' = 0) = (i = length (sb_seq sb2))" using l0 fields(4) im by simp
    qed (use add step fields ln cnt l0 im pos False in \<open>auto simp: sb2_def s1nth\<close>)
    from Suc.IH [OF inv] obtain ub' sb' P where *:
      "split_equal_loop n i len' (n_in + len') sb2 ub1 = Some (ub', sb')" "equal_ok sb'"
      "sb_batch sb' = sb_batch sb2" "sb_logits_all sb' = sb_logits_all sb2" "sb_ids sb' = sb_ids sb2"
      "ub_positions ub' = ub_positions ub1 @ map ((!) (the (b_pos (sb_batch sb2)))) P"
      "\<forall>t. b_token (sb_batch sb2) = Some t \<longrightarrow>
          the (ub_tokens ub') = the (ub_tokens ub1) @ map ((!) t) P"
      "sb_out_ids sb' = sb_out_ids sb2 @ filter (wanted sb2) P"
      "sb_n_tokens sb' + length P = sb_n_tokens sb2" "ub_n_tokens ub' = ub_n_tokens ub1 + length P"
      "ub_n_tokens ub' \<le> n" "mset (remaining sb2) = mset P + mset (remaining sb')"
      "ub_n_tokens ub' = ub_n_seq_tokens ub' * ub_n_seqs ub'"
      by blast
    have out2: "sb_out_ids sb2 = sb_out_ids sb @ filter (wanted sb) idx" by (simp add: sb2_def)
    show ?thesis
      unfolding unfold using False *(2,11,13)
      by (intro exI [of _ ub'] exI [of _ sb'] exI [of _ "idx @ P"])
        (use isl l0 in \<open>auto simp: * fields add w out2 step simp flip: step(2)\<close>)
  qed
qed

lemma dropWhile_zero_split:
  fixes len :: "'a \<Rightarrow> nat"
  defines "kept \<equiv> \<lambda>ss. rev (dropWhile (\<lambda>s. len s = 0) (rev ss))"
  shows "\<exists>zs. ss = kept ss @ zs \<and> (\<forall>z \<in> set zs. len z = 0)"
    "sorted_wrt (\<lambda>a b. 0 < len b \<longrightarrow> 0 < len a) ss \<Longrightarrow> s \<in> set (kept ss) \<Longrightarrow> 0 < len s"
proof -
  let ?z = "rev (takeWhile (\<lambda>s. len s = 0) (rev ss))"
  have eq: "ss = kept ss @ ?z"
    unfolding kept_def by (metis rev_append rev_rev_ident takeWhile_dropWhile_id)
  moreover have "\<forall>z \<in> set ?z. len z = 0" by (auto dest: set_takeWhileD)
  ultimately show "\<exists>zs. ss = kept ss @ zs \<and> (\<forall>z \<in> set zs. len z = 0)" by blast
  assume srt: "sorted_wrt (\<lambda>a b. 0 < len b \<longrightarrow> 0 < len a) ss" and mem: "s \<in> set (kept ss)"
  show "0 < len s"
  proof (cases "dropWhile (\<lambda>s. len s = 0) (rev ss)")
    case Nil
    then show ?thesis using mem unfolding kept_def by (simp only: Nil) simp
  next
    case (Cons x xs)
    then have x: "0 < len x" by (auto simp: dropWhile_eq_Cons_conv)
    have k: "kept ss = rev xs @ [x]" unfolding kept_def by (simp only: Cons) simp
    have "sorted_wrt (\<lambda>a b. 0 < len b \<longrightarrow> 0 < len a) (kept ss)"
      using srt eq by (metis sorted_wrt_append)
    then show ?thesis using mem x by (auto simp: k sorted_wrt_append)
  qed
qed

lemma reserve_equal:
  fixes n :: nat and e :: bool
  assumes "equal_ok sb"
  defines "sb' \<equiv> snd (reserve_ubatch n e sb)"
  shows "equal_ok sb'" "\<forall>s \<in> set (sb_seq sb'). 0 < sq_length s" "remaining sb' = remaining sb"
    "sb_n_tokens sb' = sb_n_tokens sb" "sb_batch sb' = sb_batch sb" "sb_ids sb' = sb_ids sb"
    "sb_logits_all sb' = sb_logits_all sb" "sb_out_ids sb' = sb_out_ids sb"
proof -
  obtain zs where zs: "sb_seq sb = sb_seq sb' @ zs" "\<forall>z \<in> set zs. sq_length z = 0"
    using dropWhile_zero_split(1) [of "sb_seq sb" sq_length]
    by (auto simp: sb'_def reserve_ubatch_def)
  have z0: "sum_list (map sq_length zs) = 0" using zs(2) by (simp add: sum_list_eq_0_iff)
  have zc: "concat (map (seq_ids_of ids) zs) = []" for ids
    using zs(2) by (simp add: seq_ids_of_def)
  show fields: "sb_n_tokens sb' = sb_n_tokens sb" "sb_batch sb' = sb_batch sb" "sb_ids sb' = sb_ids sb"
    "sb_logits_all sb' = sb_logits_all sb" "sb_out_ids sb' = sb_out_ids sb"
    by (simp_all add: sb'_def reserve_ubatch_def)
  show "equal_ok sb'"
    using assms(1) zs(1) z0
    by (auto simp: equal_ok_def frame_ok_def fields seqs_sorted_def sorted_wrt_append)
  show "remaining sb' = remaining sb"
    by (simp add: remaining_def zs(1) zc fields)
  have "sorted_wrt (\<lambda>a b. 0 < sq_length b \<longrightarrow> 0 < sq_length a) (sb_seq sb)"
  proof -
    have "sorted_wrt (\<lambda>a b. \<not> sbatch_seq_lt b a \<and> (0 < sq_length b \<longrightarrow> 0 < sq_length a)) (sb_seq sb)"
      using assms(1) by (simp add: equal_ok_def seqs_sorted_def)
    then show ?thesis by (rule sorted_wrt_mono_rel [rotated]) auto
  qed
  note srt = this
  show "\<forall>s \<in> set (sb_seq sb'). 0 < sq_length s"
  proof
    fix s assume "s \<in> set (sb_seq sb')"
    then have "s \<in> set (rev (dropWhile (\<lambda>s. sq_length s = 0) (rev (sb_seq sb))))"
      by (simp add: sb'_def reserve_ubatch_def)
    with srt show "0 < sq_length s" by (rule dropWhile_zero_split(2))
  qed
qed

lemma split_equal_step:
  assumes ok: "equal_ok sb" and pos: "0 < sb_n_tokens sb" "0 < n0"
  shows "\<exists>ub sb' P. split_equal n0 sb = Some (ub, sb') \<and> equal_ok sb'
     \<and> sb_batch sb' = sb_batch sb \<and> sb_logits_all sb' = sb_logits_all sb \<and> sb_ids sb' = sb_ids sb
     \<and> P \<noteq> [] \<and> ub_n_tokens ub = length P \<and> length P \<le> n0
     \<and> ub_n_tokens ub = ub_n_seq_tokens ub * ub_n_seqs ub
     \<and> sb_n_tokens sb' + length P = sb_n_tokens sb
     \<and> mset (remaining sb) = mset P + mset (remaining sb')
     \<and> ub_positions ub = map ((!) (the (b_pos (sb_batch sb)))) P
     \<and> (\<forall>t. b_token (sb_batch sb) = Some t \<longrightarrow> the (ub_tokens ub) = map ((!) t) P)
     \<and> sb_out_ids sb' = sb_out_ids sb @ filter (wanted sb) P"
proof -
  define n where "n = (if sb_n_tokens sb < n0 then sb_n_tokens sb else n0)"
  have n: "0 < n" "n \<le> n0" using pos by (auto simp: n_def)
  define e where "e = (b_embd (sb_batch sb) \<noteq> None)"
  obtain ub1 sb1 where r: "reserve_ubatch n e sb = (ub1, sb1)" by fastforce
  have sb1: "equal_ok sb1" "\<forall>s \<in> set (sb_seq sb1). 0 < sq_length s" "remaining sb1 = remaining sb"
    "sb_n_tokens sb1 = sb_n_tokens sb" "sb_batch sb1 = sb_batch sb" "sb_ids sb1 = sb_ids sb"
    "sb_logits_all sb1 = sb_logits_all sb" "sb_out_ids sb1 = sb_out_ids sb"
    using reserve_equal [OF ok, of n e] r by simp_all
  have ub1: "ub_n_tokens ub1 = 0" "ub_n_seqs ub1 = 0" "ub_positions ub1 = []"
      "b_token (sb_batch sb) \<noteq> None \<longrightarrow> ub_tokens ub1 = Some []" "ub_buffers n (sb_batch sb1) ub1"
    using r ok by (auto simp: reserve_ubatch_def ub_positions_def ub_tokens_def ub_buffers_def e_def
        equal_ok_def frame_ok_def sb1)
  obtain s rest where ss: "sb_seq sb1 = s # rest"
    using sb1(1,4) pos(1) by (cases "sb_seq sb1") (auto simp: equal_ok_def)
  have spos: "sq_n_seq_id s > 0" using sb1(1) ss by (simp add: equal_ok_def seq_in_def)
  have w: "wanted sb1 = wanted sb" by (simp add: wanted_def [abs_def] sb1 cong: option.case_cong)
  have "equal_loop_inv n (length (sb_seq sb1)) 0 0 sb1 ub1"
    using sb1 ub1 n(1) by (auto simp: equal_loop_inv_def Let_def)
  from split_equal_loop_ok [OF this] obtain ub' sb' P where *:
    "split_equal_loop n (length (sb_seq sb1)) 0 0 sb1 ub1 = Some (ub', sb')" "equal_ok sb'"
    "sb_batch sb' = sb_batch sb1" "sb_logits_all sb' = sb_logits_all sb1" "sb_ids sb' = sb_ids sb1"
    "ub_positions ub' = ub_positions ub1 @ map ((!) (the (b_pos (sb_batch sb1)))) P"
    "\<forall>t. b_token (sb_batch sb1) = Some t \<longrightarrow> the (ub_tokens ub') = the (ub_tokens ub1) @ map ((!) t) P"
    "sb_out_ids sb' = sb_out_ids sb1 @ filter (wanted sb1) P"
    "sb_n_tokens sb' + length P = sb_n_tokens sb1"
    "ub_n_tokens ub' = ub_n_tokens ub1 + length P" "ub_n_tokens ub' \<le> n"
    "0 < length (sb_seq sb1) \<longrightarrow> P \<noteq> []" "mset (remaining sb1) = mset P + mset (remaining sb')"
    "ub_n_tokens ub' = ub_n_seq_tokens ub' * ub_n_seqs ub'"
    by blast
  have "split_equal n0 sb = Some (ub', sb')"
    unfolding split_equal_def Let_def n_def [symmetric] e_def [symmetric] r prod.case
    using spos *(1) by (simp add: ss)
  then show ?thesis
    using * sb1 ub1 w n ss by (intro exI [of _ ub'] exI [of _ sb'] exI [of _ P]) auto
qed

text \<open>
  The whole decode loop over an equal split: it ends, no assertion fails, and every token
  of the batch is in exactly one micro-batch.
\<close>

lemma drain_equal:
  assumes "equal_ok sb" "0 < n0" "sb_n_tokens sb \<le> fuel"
  shows "\<exists>ubs sb' Ps. drain split_equal n0 fuel sb = Some (ubs, sb') \<and> sb_n_tokens sb' = 0
     \<and> length Ps = length ubs \<and> map ub_n_tokens ubs = map length Ps
     \<and> (\<forall>ub \<in> set ubs. 0 < ub_n_tokens ub \<and> ub_n_tokens ub \<le> n0
          \<and> ub_n_tokens ub = ub_n_seq_tokens ub * ub_n_seqs ub)
     \<and> mset (concat Ps) = mset (remaining sb)
     \<and> map ub_positions ubs = map (map ((!) (the (b_pos (sb_batch sb))))) Ps
     \<and> sb_out_ids sb' = sb_out_ids sb @ filter (wanted sb) (concat Ps)"
  using assms
proof (induction fuel arbitrary: sb)
  case 0
  have "remaining sb = []"
    using 0 by (auto simp: remaining_def equal_ok_def seq_ids_of_def)
  then show ?case using 0 by auto
next
  case (Suc fuel)
  show ?case
  proof (cases "sb_n_tokens sb = 0")
    case True
    then have "remaining sb = []"
      using Suc.prems by (auto simp: remaining_def equal_ok_def seq_ids_of_def)
    then show ?thesis using True by auto
  next
    case False
    from split_equal_step [OF Suc.prems(1) _ Suc.prems(2)] False
    obtain ub sb1 P where 1: "split_equal n0 sb = Some (ub, sb1)" "equal_ok sb1"
      "sb_batch sb1 = sb_batch sb" "sb_logits_all sb1 = sb_logits_all sb" "sb_ids sb1 = sb_ids sb"
      "P \<noteq> []" "ub_n_tokens ub = length P" "length P \<le> n0"
      "ub_n_tokens ub = ub_n_seq_tokens ub * ub_n_seqs ub"
      "sb_n_tokens sb1 + length P = sb_n_tokens sb"
      "mset (remaining sb) = mset P + mset (remaining sb1)"
      "ub_positions ub = map ((!) (the (b_pos (sb_batch sb)))) P"
      "sb_out_ids sb1 = sb_out_ids sb @ filter (wanted sb) P"
      by blast
    have w: "wanted sb1 = wanted sb" by (simp add: wanted_def [abs_def] 1 cong: option.case_cong)
    have "0 < length P" using 1(6) by simp
    then have "sb_n_tokens sb1 \<le> fuel" using 1(10) Suc.prems(3) by linarith
    from Suc.IH [OF 1(2) Suc.prems(2) this] obtain ubs sb2 Ps where 2:
      "drain split_equal n0 fuel sb1 = Some (ubs, sb2)" "sb_n_tokens sb2 = 0"
      "length Ps = length ubs" "map ub_n_tokens ubs = map length Ps"
      "\<forall>ub \<in> set ubs. 0 < ub_n_tokens ub \<and> ub_n_tokens ub \<le> n0
          \<and> ub_n_tokens ub = ub_n_seq_tokens ub * ub_n_seqs ub"
      "mset (concat Ps) = mset (remaining sb1)"
      "map ub_positions ubs = map (map ((!) (the (b_pos (sb_batch sb))))) Ps"
      "sb_out_ids sb2 = sb_out_ids sb1 @ filter (wanted sb) (concat Ps)"
      unfolding 1(3) w by blast
    have "drain split_equal n0 (Suc fuel) sb = Some (ub # ubs, sb2)"
      using False 1(1) 2(1) by simp
    then show ?thesis
      using 1 2 \<open>0 < length P\<close>
      by (intro exI [of _ "ub # ubs"] exI [of _ sb2] exI [of _ "P # Ps"]) (auto simp del: drain.simps)
  qed
qed

text \<open>The sequences built from the sorted indices cover them, in order.\<close>

definition acc_ok :: "int list \<Rightarrow> nat list \<Rightarrow> nat \<Rightarrow> llama_sbatch_seq list \<Rightarrow> bool" where
  "acc_ok ns ids i acc =
     ((\<forall>s \<in> set acc. seq_in ids s \<and> 0 < sq_length s)
      \<and> concat (map (seq_ids_of ids) acc) = take i ids
      \<and> (acc \<noteq> [] \<longrightarrow> sq_offset (last acc) + sq_length (last acc) = i))"

lemma acc_ok_extend:
  assumes "acc_ok ns ids i acc" "i < length ids" "acc \<noteq> []"
  shows "acc_ok ns ids (Suc i) (butlast acc @ [(last acc)\<lparr>sq_length := sq_length (last acc) + 1\<rparr>])"
proof -
  obtain init l where acc: "acc = init @ [l]" using assms(3) by (metis append_butlast_last_id)
  have off: "sq_offset l + sq_length l = i" using assms(1,3) by (simp add: acc_ok_def acc)
  have "seq_ids_of ids (l\<lparr>sq_length := sq_length l + 1\<rparr>) = seq_ids_of ids l @ [ids ! i]"
    using off assms(2) by (simp add: seq_ids_of_def take_Suc_conv_app_nth)
  then show ?thesis
    using assms(1,2) off by (auto simp: acc_ok_def acc seq_in_def take_Suc_conv_app_nth)
qed

lemma acc_ok_new:
  assumes "acc_ok ns ids i acc" "i < length ids" "0 < n"
  shows "acc_ok ns ids (Suc i)
     (acc @ [\<lparr>sq_n_seq_id = n, sq_seq_id = q, sq_offset = i, sq_length = 1\<rparr>])"
  using assms by (auto simp: acc_ok_def seq_in_def seq_ids_of_def take_Suc_conv_app_nth hd_drop_conv_nth take_Suc)

lemma build_seqs_ok:
  assumes "acc_ok ns ids i acc" "rest = drop i ids" "i \<le> length ids" "\<forall>b \<in> set ids. 0 < ns ! b"
  shows "acc_ok ns ids (length ids) (build_seqs ns ss i rest acc)"
  using assms(1-3)
proof (induction rest arbitrary: i acc)
  case Nil
  then show ?case by simp
next
  case (Cons b rest)
  have i: "i < length ids" using Cons.prems(2,3) by (metis drop_all linorder_not_less list.distinct(1))
  have "drop i ids = ids ! i # drop (Suc i) ids" using i by (simp add: Cons_nth_drop_Suc)
  then have b: "b = ids ! i" "rest = drop (Suc i) ids" using Cons.prems(2) by simp_all
  have "0 < ns ! b" using assms(4) i b(1) by simp
  then show ?case
    using Cons.IH [OF acc_ok_extend [OF Cons.prems(1) i] b(2)]
      Cons.IH [OF acc_ok_new [OF Cons.prems(1) i] b(2)] i
    by simp
qed

lemma sbatch_seq_sorted: "sorted_wrt (\<lambda>a b. \<not> sbatch_seq_lt b a) (std_sort sbatch_seq_lt ss)"
  by (rule sorted_std_sort) (auto simp: sbatch_seq_lt_def split: if_splits)

lemma equal_init_ok:
  assumes b: "batch_ok b" "b_token b = None \<or> b_embd b = None"
    and ns: "b_n_seq_id b = Some ns" "\<forall>n \<in> set ns. 0 < n" "b_seq_id b \<noteq> None"
    and init: "sbatch_init b False la = Some sb"
  shows "equal_ok sb" "mset (remaining sb) = mset [0..<b_n_tokens b]"
    "sb_n_tokens sb = b_n_tokens b" "sb_out_ids sb = []" "sb_batch sb = b"
proof -
  let ?n = "b_n_tokens b"
  obtain ss where ss: "b_seq_id b = Some ss" using ns(3) by auto
  define ids where "ids = std_sort (ids_lt b) [0..<?n]"
  define seqs where "seqs = build_seqs ns ss 0 ids []"
  have sb: "sb = \<lparr>sb_n_tokens = ?n, sb_logits_all = la, sb_ids = ids, sb_out_ids = [],
      sb_seq = std_sort sbatch_seq_lt seqs, sb_batch = b\<rparr>"
    using init ns(1) ss by (simp add: sbatch_init_def Let_def ids_def seqs_def)
  have idset: "set ids = {..<?n}" by (auto simp: ids_def)
  have idlen: "length ids = ?n" by (simp add: ids_def)
  have "length ns = ?n" using b(1) ns(1) by (auto simp: batch_ok_def Let_def)
  then have "\<forall>k \<in> set ids. 0 < ns ! k" using ns(2) idset by (metis lessThan_iff nth_mem)
  then have acc: "acc_ok ns ids (length ids) seqs"
    unfolding seqs_def by (intro build_seqs_ok) (auto simp: acc_ok_def)
  have rem: "mset (remaining sb) = mset (concat (map (seq_ids_of ids) seqs))"
    by (simp add: remaining_def sb mset_concat flip: sum_mset_sum_list)
  then show "mset (remaining sb) = mset [0..<?n]"
    using acc by (simp add: acc_ok_def ids_def)
  have "length (concat (map (seq_ids_of ids) seqs)) = length ids" using acc by (simp add: acc_ok_def)
  moreover have "map (\<lambda>s. length (seq_ids_of ids s)) seqs = map sq_length seqs"
    using acc by (auto simp: acc_ok_def seq_in_def seq_ids_of_def)
  ultimately have sum: "sum_list (map sq_length seqs) = ?n"
    by (simp add: length_concat o_def idlen)
  have sum': "sum_list (map sq_length (std_sort sbatch_seq_lt seqs)) = sum_list (map sq_length seqs)"
    by (metis mset_map mset_std_sort sum_mset_sum_list)
  have srt: "seqs_sorted (sb_seq sb)"
  proof -
    have "sorted_wrt (\<lambda>a b. \<not> sbatch_seq_lt b a) (sb_seq sb)"
      by (simp add: sb sbatch_seq_sorted)
    then show ?thesis unfolding seqs_sorted_def
      by (rule sorted_wrt_mono_rel [rotated]) (use acc in \<open>auto simp: sb acc_ok_def\<close>)
  qed
  show "equal_ok sb"
    using b srt acc sum sum' idset idlen by (auto simp: equal_ok_def frame_ok_def sb acc_ok_def)
  show "sb_n_tokens sb = ?n" "sb_out_ids sb = []" "sb_batch sb = b" by (simp_all add: sb)
qed

end
