(* ===== verification/KvUnified.thy ===== *)
theory KvUnified
  imports Prelude
begin

text \<open>
  The cell metadata of \<open>llama_kv_cache_unified\<close> (\<open>llama-kv-cache.h\<close>,
  \<open>llama-kv-cache.cpp\<close>): the cells, the bookkeeping fields and the sequence operations
  \<open>clear\<close>, \<open>seq_rm\<close>, \<open>seq_cp\<close>, \<open>seq_keep\<close>, \<open>seq_add\<close>, \<open>seq_div\<close>, \<open>seq_pos_max\<close>, with the
  well-formedness invariant and the abstract view: the multiset of the occupied cells'
  (position, sequences) pairs.

  Positions (\<open>llama_pos\<close>, int32_t) and sequence ids are \<open>int\<close>; arithmetic on a position that
  would overflow int32_t is undefined behaviour of the code and outside the model.
  \<open>std::set\<close> of sequence ids is a set. Indices and counters (uint32_t) are \<open>nat\<close> with the
  wrap-around of \<open>used--\<close> written out. The vector \<open>cells\<close> has \<open>size\<close> elements
  (\<open>cells.resize(kv_size)\<close> in the constructor, never resized), so the loops over
  \<open>i < size\<close> run over the list.
\<close>

section \<open>State\<close>

record kv_cell =
  cell_pos :: int
  cell_delta :: int
  cell_seq_id :: "int set"

definition kv_cell_new :: kv_cell where
  "kv_cell_new = \<lparr>cell_pos = -1, cell_delta = 0, cell_seq_id = {}\<rparr>"

definition has_seq_id :: "kv_cell \<Rightarrow> int \<Rightarrow> bool" where
  "has_seq_id c sid = (sid \<in> cell_seq_id c)"

definition is_empty :: "kv_cell \<Rightarrow> bool" where
  "is_empty c = (cell_seq_id c = {})"

definition is_same_seq :: "kv_cell \<Rightarrow> kv_cell \<Rightarrow> bool" where
  "is_same_seq c d = (cell_seq_id c = cell_seq_id d)"

record llama_kv_defrag_move =
  mv_src :: nat
  mv_dst :: nat
  mv_len :: nat

record kv_unified =
  kv_head :: nat
  kv_size :: nat
  kv_used :: nat
  kv_n :: nat
  kv_cells :: "kv_cell list"
  kv_has_shift :: bool
  kv_do_defrag :: bool
  kv_can_shift :: bool
  kv_padding :: nat
  kv_moves :: "llama_kv_defrag_move list"
  kv_pending :: "(nat \<times> nat) list"

definition get_padding :: "bool \<Rightarrow> nat" where
  "get_padding flash_attn = (if flash_attn then 256 else 32)"

text \<open>
  The constructor: \<open>GGML_ASSERT(kv_size % padding == 0)\<close>, then the bookkeeping fields and
  \<open>kv_size\<close> default cells. (The K and V tensors it allocates are not part of this state.)
\<close>

definition kv_init :: "nat \<Rightarrow> nat \<Rightarrow> kv_unified option" where
  "kv_init sz padding =
     (if padding \<noteq> 0 \<and> sz mod padding = 0
      then Some \<lparr>kv_head = 0, kv_size = sz, kv_used = 0, kv_n = 0,
        kv_cells = replicate sz kv_cell_new, kv_has_shift = False, kv_do_defrag = False,
        kv_can_shift = True, kv_padding = padding, kv_moves = [], kv_pending = []\<rparr>
      else None)"

section \<open>Operations\<close>

text \<open>A negative bound stands for the start, or for the end, of the sequence.\<close>

definition norm_p0 :: "int \<Rightarrow> int" where
  "norm_p0 p0 = (if p0 < 0 then 0 else p0)"

definition norm_p1 :: "int \<Rightarrow> int" where
  "norm_p1 p1 = (if p1 < 0 then int32_max else p1)"

definition in_range :: "int \<Rightarrow> int \<Rightarrow> kv_cell \<Rightarrow> bool" where
  "in_range p0 p1 c = (cell_pos c \<ge> norm_p0 p0 \<and> cell_pos c < norm_p1 p1)"

text \<open>
  \<open>if (new_head != size && new_head < head) head = new_head;\<close>
\<close>

definition lower_head :: "nat \<Rightarrow> kv_unified \<Rightarrow> kv_unified" where
  "lower_head new_head kv =
     (if new_head \<noteq> kv_size kv \<and> new_head < kv_head kv then kv\<lparr>kv_head := new_head\<rparr> else kv)"

definition kv_clear :: "kv_unified \<Rightarrow> kv_unified" where
  "kv_clear kv = kv\<lparr>
     kv_cells := map (\<lambda>c. c\<lparr>cell_pos := -1, cell_seq_id := {}\<rparr>) (kv_cells kv),
     kv_head := 0, kv_used := 0\<rparr>"

text \<open>The locals of the removing loops are the pair (\<open>used\<close>, \<open>new_head\<close>).\<close>

definition seq_rm_cell ::
  "nat \<Rightarrow> int \<Rightarrow> int \<Rightarrow> int \<Rightarrow> nat \<Rightarrow> kv_cell \<Rightarrow> nat \<times> nat \<Rightarrow> kv_cell \<times> nat \<times> nat" where
  "seq_rm_cell sz sid p0 p1 i c = (\<lambda>(used, new_head).
     if in_range p0 p1 c then
       if sid < 0 \<or> has_seq_id c sid then
         let c1 = c\<lparr>cell_seq_id := (if sid < 0 then {} else cell_seq_id c - {sid})\<rparr>
         in if is_empty c1
            then (c1\<lparr>cell_pos := -1\<rparr>,
                  (if cell_pos c1 \<ge> 0 then u32_sub used 1 else used),
                  (if new_head = sz then i else new_head))
            else (c1, used, new_head)
       else (c, used, new_head)
     else (c, used, new_head))"

definition seq_rm :: "int \<Rightarrow> int \<Rightarrow> int \<Rightarrow> kv_unified \<Rightarrow> kv_unified" where
  "seq_rm sid p0 p1 kv =
     (case cell_loop (seq_rm_cell (kv_size kv) sid p0 p1) 0 (kv_cells kv)
             (kv_used kv, kv_size kv) of
        (cs, used, new_head) \<Rightarrow> lower_head new_head (kv\<lparr>kv_cells := cs, kv_used := used\<rparr>))"

definition seq_cp_cell :: "int \<Rightarrow> int \<Rightarrow> int \<Rightarrow> int \<Rightarrow> kv_cell \<Rightarrow> kv_cell" where
  "seq_cp_cell src dst p0 p1 c =
     (if has_seq_id c src \<and> in_range p0 p1 c
      then c\<lparr>cell_seq_id := insert dst (cell_seq_id c)\<rparr> else c)"

definition seq_cp :: "int \<Rightarrow> int \<Rightarrow> int \<Rightarrow> int \<Rightarrow> kv_unified \<Rightarrow> kv_unified" where
  "seq_cp src dst p0 p1 kv =
     (if src = dst then kv
      else kv\<lparr>kv_head := 0, kv_cells := map (seq_cp_cell src dst p0 p1) (kv_cells kv)\<rparr>)"

definition seq_keep_cell ::
  "nat \<Rightarrow> int \<Rightarrow> nat \<Rightarrow> kv_cell \<Rightarrow> nat \<times> nat \<Rightarrow> kv_cell \<times> nat \<times> nat" where
  "seq_keep_cell sz sid i c = (\<lambda>(used, new_head).
     if \<not> has_seq_id c sid
     then (c\<lparr>cell_pos := -1, cell_seq_id := {}\<rparr>,
           (if cell_pos c \<ge> 0 then u32_sub used 1 else used),
           (if new_head = sz then i else new_head))
     else (c\<lparr>cell_seq_id := {sid}\<rparr>, used, new_head))"

definition seq_keep :: "int \<Rightarrow> kv_unified \<Rightarrow> kv_unified" where
  "seq_keep sid kv =
     (case cell_loop (seq_keep_cell (kv_size kv) sid) 0 (kv_cells kv)
             (kv_used kv, kv_size kv) of
        (cs, used, new_head) \<Rightarrow> lower_head new_head (kv\<lparr>kv_cells := cs, kv_used := used\<rparr>))"

text \<open>In \<open>seq_add\<close> the locals are (\<open>has_shift\<close>, \<open>used\<close>, \<open>new_head\<close>).\<close>

definition seq_add_cell ::
  "nat \<Rightarrow> int \<Rightarrow> int \<Rightarrow> int \<Rightarrow> int \<Rightarrow> nat \<Rightarrow> kv_cell \<Rightarrow> bool \<times> nat \<times> nat
     \<Rightarrow> kv_cell \<times> bool \<times> nat \<times> nat" where
  "seq_add_cell sz sid p0 p1 d i c = (\<lambda>(shift, used, new_head).
     if has_seq_id c sid \<and> in_range p0 p1 c then
       let c1 = c\<lparr>cell_pos := cell_pos c + d, cell_delta := cell_delta c + d\<rparr>
       in if cell_pos c1 < 0
          then (c1\<lparr>cell_pos := -1, cell_seq_id := {}\<rparr>, True,
                (if \<not> is_empty c1 then u32_sub used 1 else used),
                (if new_head = sz then i else new_head))
          else (c1, True, used, new_head)
     else (c, shift, used, new_head))"

definition seq_add :: "int \<Rightarrow> int \<Rightarrow> int \<Rightarrow> int \<Rightarrow> kv_unified \<Rightarrow> kv_unified" where
  "seq_add sid p0 p1 d kv =
     (if d = 0 \<or> norm_p0 p0 = norm_p1 p1 then kv
      else case cell_loop (seq_add_cell (kv_size kv) sid p0 p1 d) 0 (kv_cells kv)
                  (kv_has_shift kv, kv_used kv, kv_size kv) of
        (cs, shift, used, new_head) \<Rightarrow>
          kv\<lparr>kv_cells := cs, kv_has_shift := shift, kv_used := used,
             kv_head := (if new_head \<noteq> kv_size kv then new_head else 0)\<rparr>)"

text \<open>
  \<open>seq_div\<close> divides as C++ does, truncating; the divisor 0 is undefined behaviour of the code,
  and the callers pass a positive one.
\<close>

definition seq_div_cell :: "int \<Rightarrow> int \<Rightarrow> int \<Rightarrow> int \<Rightarrow> nat \<Rightarrow> kv_cell \<Rightarrow> bool \<Rightarrow> kv_cell \<times> bool" where
  "seq_div_cell sid p0 p1 d i c shift =
     (if has_seq_id c sid \<and> in_range p0 p1 c
      then (c\<lparr>cell_pos := cdiv (cell_pos c) d,
              cell_delta := cell_delta c + (cdiv (cell_pos c) d - cell_pos c)\<rparr>, True)
      else (c, shift))"

definition seq_div :: "int \<Rightarrow> int \<Rightarrow> int \<Rightarrow> int \<Rightarrow> kv_unified \<Rightarrow> kv_unified" where
  "seq_div sid p0 p1 d kv =
     (if d = 1 \<or> norm_p0 p0 = norm_p1 p1 then kv
      else case cell_loop (seq_div_cell sid p0 p1 d) 0 (kv_cells kv) (kv_has_shift kv) of
        (cs, shift) \<Rightarrow> kv\<lparr>kv_cells := cs, kv_has_shift := shift\<rparr>)"

definition seq_pos_max :: "int \<Rightarrow> kv_unified \<Rightarrow> int" where
  "seq_pos_max sid kv =
     foldl (\<lambda>r c. if has_seq_id c sid then max r (cell_pos c) else r) 0 (kv_cells kv)"

definition get_n_tokens :: "kv_unified \<Rightarrow> nat" where
  "get_n_tokens kv = foldl (\<lambda>r c. r + card (cell_seq_id c)) 0 (kv_cells kv)"

definition get_used_cells :: "kv_unified \<Rightarrow> nat" where
  "get_used_cells kv = kv_used kv"

definition get_pos_max :: "kv_unified \<Rightarrow> int" where
  "get_pos_max kv = foldl (\<lambda>m c. max m (cell_pos c)) (-1) (kv_cells kv)"

definition kv_set_full :: "kv_unified \<Rightarrow> kv_unified" where
  "kv_set_full kv = kv\<lparr>kv_n := kv_size kv\<rparr>"

lemmas cell_op_defs =
  has_seq_id_def is_empty_def seq_rm_cell_def seq_cp_cell_def seq_keep_cell_def
  seq_add_cell_def seq_div_cell_def


section \<open>Invariant and abstract view\<close>

definition cell_ok :: "kv_cell \<Rightarrow> bool" where
  "cell_ok c = (finite (cell_seq_id c) \<and> (cell_seq_id c = {} \<longleftrightarrow> cell_pos c < 0) \<and> -1 \<le> cell_pos c)"

definition occupied :: "kv_cell list \<Rightarrow> nat" where
  "occupied cs = length (filter (\<lambda>c. \<not> is_empty c) cs)"

text \<open>
  The bound \<open>4 * size < 2 ^ 32\<close> keeps every index sum of the search for a slot inside
  uint32_t; a cache of a billion cells is far outside what the code is used for.
\<close>

definition kv_ok :: "kv_unified \<Rightarrow> bool" where
  "kv_ok kv = (length (kv_cells kv) = kv_size kv \<and> 4 * kv_size kv < U32
     \<and> kv_head kv \<le> kv_size kv \<and> kv_used kv = occupied (kv_cells kv)
     \<and> (\<forall>c \<in> set (kv_cells kv). cell_ok c))"

definition cell_entry :: "kv_cell \<Rightarrow> int \<times> int set" where
  "cell_entry c = (cell_pos c, cell_seq_id c)"

definition cells_abs :: "kv_cell list \<Rightarrow> (int \<times> int set) multiset" where
  "cells_abs cs = mset (map cell_entry (filter (\<lambda>c. \<not> is_empty c) cs))"

definition kv_abs :: "kv_unified \<Rightarrow> (int \<times> int set) multiset" where
  "kv_abs kv = cells_abs (kv_cells kv)"

lemma occupied_simps [simp]:
  "occupied [] = 0"
  "occupied (c # cs) = (if is_empty c then 0 else 1) + occupied cs"
  "occupied (xs @ ys) = occupied xs + occupied ys"
  by (simp_all add: occupied_def)

lemma occupied_le_length: "occupied cs \<le> length cs"
  by (simp add: occupied_def)

lemma cells_abs_simps [simp]:
  "cells_abs [] = {#}"
  "cells_abs (c # cs) = (if is_empty c then {#} else {#cell_entry c#}) + cells_abs cs"
  "cells_abs (xs @ ys) = cells_abs xs + cells_abs ys"
  by (simp_all add: cells_abs_def)

lemma size_cells_abs: "size (cells_abs cs) = occupied cs"
  by (induction cs) auto

lemma snd_cell_entry [simp]: "snd (cell_entry c) = {} \<longleftrightarrow> is_empty c"
  by (simp add: cell_entry_def is_empty_def)

lemma cell_ok_new [simp]: "cell_ok kv_cell_new"
  by (simp add: cell_ok_def kv_cell_new_def)

lemma is_empty_new [simp]: "is_empty kv_cell_new"
  by (simp add: is_empty_def kv_cell_new_def)

lemma cell_ok_empty_pos: "cell_ok c \<Longrightarrow> is_empty c \<longleftrightarrow> cell_pos c = -1"
  by (auto simp: cell_ok_def is_empty_def)

lemma cell_ok_pos: "cell_ok c \<Longrightarrow> 0 \<le> cell_pos c \<longleftrightarrow> \<not> is_empty c"
  by (auto simp: cell_ok_def is_empty_def)

lemma kv_okI:
  "length (kv_cells kv) = kv_size kv \<Longrightarrow> 4 * kv_size kv < U32 \<Longrightarrow> kv_head kv \<le> kv_size kv
   \<Longrightarrow> kv_used kv = occupied (kv_cells kv) \<Longrightarrow> (\<And>c. c \<in> set (kv_cells kv) \<Longrightarrow> cell_ok c) \<Longrightarrow> kv_ok kv"
  by (simp add: kv_ok_def)

lemma kv_okD:
  assumes "kv_ok kv"
  shows "length (kv_cells kv) = kv_size kv" "4 * kv_size kv < U32" "kv_head kv \<le> kv_size kv"
    "kv_used kv = occupied (kv_cells kv)" "\<And>c. c \<in> set (kv_cells kv) \<Longrightarrow> cell_ok c"
  using assms by (auto simp: kv_ok_def)

text \<open>The counting rule of the prelude, for the loops whose new cell is \<open>g c\<close>.\<close>

lemma removing_loop:
  fixes used_of :: "'s \<Rightarrow> nat"
  assumes g: "\<And>i c s. fst (f i c s) = g c"
    and u: "\<And>i c s. cell_ok c \<Longrightarrow> used_of (snd (f i c s)) =
              (if \<not> is_empty c \<and> is_empty (g c) then u32_sub (used_of s) 1 else used_of s)"
    and e: "\<And>c. cell_ok c \<Longrightarrow> is_empty c \<Longrightarrow> is_empty (g c)"
    and "\<forall>c \<in> set cs. cell_ok c" "used_of s = k + occupied cs" "used_of s < U32"
  shows "used_of (snd (cell_loop f i cs s)) = k + occupied (map g cs)"
  using cell_loop_count [where ok = cell_ok and E = is_empty and f = f and g = "\<lambda>_. g" and used_of = used_of,
      OF g u e assms(4) _ assms(6), of k i] assms(5)
  by (simp add: occupied_def cell_loop_map [OF g])

lemma cell_loop_new_head:
  fixes hd_of :: "'s \<Rightarrow> nat"
  assumes "\<And>i c s. hd_of (snd (f i c s)) = hd_of s \<or> hd_of (snd (f i c s)) = i"
  shows "hd_of (snd (cell_loop f i cs s)) = hd_of s
    \<or> (i \<le> hd_of (snd (cell_loop f i cs s)) \<and> hd_of (snd (cell_loop f i cs s)) < i + length cs)"
proof (induction cs arbitrary: i s)
  case Nil
  then show ?case by simp
next
  case (Cons c cs)
  obtain c' s1 where f: "f i c s = (c', s1)" by fastforce
  have "hd_of s1 = hd_of s \<or> hd_of s1 = i" using assms [of i c s] f by simp
  moreover have "hd_of (snd (cell_loop f (Suc i) cs s1)) = hd_of s1
    \<or> (Suc i \<le> hd_of (snd (cell_loop f (Suc i) cs s1))
      \<and> hd_of (snd (cell_loop f (Suc i) cs s1)) < Suc i + length cs)"
    by (rule Cons.IH)
  ultimately show ?case by (auto simp: f split_beta)
qed

text \<open>What such a loop does to the abstract view.\<close>

abbreviation live :: "(int \<times> int set) multiset \<Rightarrow> (int \<times> int set) multiset" where
  "live M \<equiv> filter_mset (\<lambda>e. snd e \<noteq> {}) M"

lemma cells_abs_map:
  assumes "\<And>c. cell_ok c \<Longrightarrow> is_empty c \<Longrightarrow> is_empty (g c)"
    and "\<And>c. cell_ok c \<Longrightarrow> \<not> is_empty c \<Longrightarrow> is_empty (g c) \<Longrightarrow> snd (e (cell_entry c)) = {}"
    and "\<And>c. cell_ok c \<Longrightarrow> \<not> is_empty c \<Longrightarrow> \<not> is_empty (g c) \<Longrightarrow> e (cell_entry c) = cell_entry (g c)"
    and "\<forall>c \<in> set cs. cell_ok c"
  shows "cells_abs (map g cs) = live (image_mset e (cells_abs cs))"
  using assms(4)
proof (induction cs)
  case Nil
  then show ?case by simp
next
  case (Cons c cs)
  then have ok: "cell_ok c" by simp
  show ?case
    using Cons assms(1-3) [OF ok] by (cases "is_empty c"; cases "is_empty (g c)") auto
qed

section \<open>The operations on one cell\<close>

definition rm_entry :: "int \<Rightarrow> int \<Rightarrow> int \<Rightarrow> int \<times> int set \<Rightarrow> int \<times> int set" where
  "rm_entry sid p0 p1 = (\<lambda>(p, S).
     if norm_p0 p0 \<le> p \<and> p < norm_p1 p1 then (p, if sid < 0 then {} else S - {sid}) else (p, S))"

definition cp_entry :: "int \<Rightarrow> int \<Rightarrow> int \<Rightarrow> int \<Rightarrow> int \<times> int set \<Rightarrow> int \<times> int set" where
  "cp_entry src dst p0 p1 = (\<lambda>(p, S).
     if src \<in> S \<and> norm_p0 p0 \<le> p \<and> p < norm_p1 p1 then (p, insert dst S) else (p, S))"

definition keep_entry :: "int \<Rightarrow> int \<times> int set \<Rightarrow> int \<times> int set" where
  "keep_entry sid = (\<lambda>(p, S). (p, S \<inter> {sid}))"

definition add_entry :: "int \<Rightarrow> int \<Rightarrow> int \<Rightarrow> int \<Rightarrow> int \<times> int set \<Rightarrow> int \<times> int set" where
  "add_entry sid p0 p1 d = (\<lambda>(p, S).
     if sid \<in> S \<and> norm_p0 p0 \<le> p \<and> p < norm_p1 p1
     then (p + d, if p + d < 0 then {} else S) else (p, S))"

definition div_entry :: "int \<Rightarrow> int \<Rightarrow> int \<Rightarrow> int \<Rightarrow> int \<times> int set \<Rightarrow> int \<times> int set" where
  "div_entry sid p0 p1 d = (\<lambda>(p, S).
     if sid \<in> S \<and> norm_p0 p0 \<le> p \<and> p < norm_p1 p1 then (cdiv p d, S) else (p, S))"

text \<open>The new cell each loop body computes does not depend on the locals.\<close>

definition rm_new :: "int \<Rightarrow> int \<Rightarrow> int \<Rightarrow> kv_cell \<Rightarrow> kv_cell" where
  "rm_new sid p0 p1 c = fst (seq_rm_cell 0 sid p0 p1 0 c (0, 0))"

definition keep_new :: "int \<Rightarrow> kv_cell \<Rightarrow> kv_cell" where
  "keep_new sid c = fst (seq_keep_cell 0 sid 0 c (0, 0))"

definition add_new :: "int \<Rightarrow> int \<Rightarrow> int \<Rightarrow> int \<Rightarrow> kv_cell \<Rightarrow> kv_cell" where
  "add_new sid p0 p1 d c = fst (seq_add_cell 0 sid p0 p1 d 0 c (False, 0, 0))"

definition div_new :: "int \<Rightarrow> int \<Rightarrow> int \<Rightarrow> int \<Rightarrow> kv_cell \<Rightarrow> kv_cell" where
  "div_new sid p0 p1 d c = fst (seq_div_cell sid p0 p1 d 0 c False)"

lemmas cell_new_defs = rm_new_def keep_new_def add_new_def div_new_def
lemmas entry_defs = rm_entry_def cp_entry_def keep_entry_def add_entry_def div_entry_def

lemma cell_loop_new:
  "fst (seq_rm_cell sz sid p0 p1 i c s) = rm_new sid p0 p1 c"
  "fst (seq_keep_cell sz sid i c s) = keep_new sid c"
  "fst (seq_add_cell sz sid p0 p1 d i c t) = add_new sid p0 p1 d c"
  "fst (seq_div_cell sid p0 p1 d i c b) = div_new sid p0 p1 d c"
  by (auto simp: cell_new_defs cell_op_defs Let_def split: prod.splits)

lemma div_ge_minus_one: "0 \<le> a \<Longrightarrow> 0 < e \<Longrightarrow> -1 \<le> a div (e::int)"
  using pos_imp_zdiv_nonneg_iff [of e a] by linarith

lemma cell_ok_new_cells:
  assumes "cell_ok c"
  shows "cell_ok (rm_new sid p0 p1 c)" "cell_ok (seq_cp_cell src dst p0 p1 c)"
    "cell_ok (keep_new sid c)" "cell_ok (add_new sid p0 p1 d c)"
    "0 < e \<Longrightarrow> cell_ok (div_new sid p0 p1 e c)"
  using assms
  by (auto simp: cell_ok_def cell_new_defs cell_op_defs in_range_def norm_p0_def Let_def
      cdiv_nonneg pos_imp_zdiv_neg_iff div_ge_minus_one split: if_splits)

lemma new_cells_empty:
  "cell_ok c \<Longrightarrow> is_empty c \<Longrightarrow> is_empty (rm_new sid p0 p1 c)"
  "cell_ok c \<Longrightarrow> is_empty (seq_cp_cell src dst p0 p1 c) = is_empty c"
  "cell_ok c \<Longrightarrow> is_empty c \<Longrightarrow> is_empty (keep_new sid c)"
  "cell_ok c \<Longrightarrow> is_empty c \<Longrightarrow> is_empty (add_new sid p0 p1 d c)"
  "cell_ok c \<Longrightarrow> is_empty (div_new sid p0 p1 d c) = is_empty c"
  by (auto simp: cell_ok_def cell_new_defs cell_op_defs Let_def split: if_splits)


lemma norm_p0_nonneg [simp]: "0 \<le> norm_p0 p"
  by (simp add: norm_p0_def)

lemma new_cells_entry:
  "is_empty (rm_new sid p0 p1 c) \<Longrightarrow> \<not> is_empty c \<Longrightarrow> snd (rm_entry sid p0 p1 (cell_entry c)) = {}"
  "\<not> is_empty (rm_new sid p0 p1 c) \<Longrightarrow> rm_entry sid p0 p1 (cell_entry c) = cell_entry (rm_new sid p0 p1 c)"
  "cp_entry src dst p0 p1 (cell_entry c) = cell_entry (seq_cp_cell src dst p0 p1 c)"
  "is_empty (keep_new sid c) \<Longrightarrow> snd (keep_entry sid (cell_entry c)) = {}"
  "\<not> is_empty (keep_new sid c) \<Longrightarrow> keep_entry sid (cell_entry c) = cell_entry (keep_new sid c)"
  "is_empty (add_new sid p0 p1 d c) \<Longrightarrow> \<not> is_empty c \<Longrightarrow> snd (add_entry sid p0 p1 d (cell_entry c)) = {}"
  "\<not> is_empty (add_new sid p0 p1 d c) \<Longrightarrow> add_entry sid p0 p1 d (cell_entry c) = cell_entry (add_new sid p0 p1 d c)"
  "div_entry sid p0 p1 d (cell_entry c) = cell_entry (div_new sid p0 p1 d c)"
  by (auto simp: cell_entry_def entry_defs cell_new_defs cell_op_defs in_range_def Let_def
      split: if_splits)

section \<open>The operations on the cache\<close>

lemma lower_head_sel [simp]:
  "kv_cells (lower_head h kv) = kv_cells kv" "kv_size (lower_head h kv) = kv_size kv"
  "kv_used (lower_head h kv) = kv_used kv" "kv_n (lower_head h kv) = kv_n kv"
  "kv_has_shift (lower_head h kv) = kv_has_shift kv" "kv_pending (lower_head h kv) = kv_pending kv"
  "kv_do_defrag (lower_head h kv) = kv_do_defrag kv" "kv_padding (lower_head h kv) = kv_padding kv"
  by (simp_all add: lower_head_def)

lemma lower_head_le: "kv_head kv \<le> m \<Longrightarrow> kv_head (lower_head h kv) \<le> m"
  by (simp add: lower_head_def)

lemmas seq_loop_maps =
  cell_loop_map [OF cell_loop_new(1)] cell_loop_map [OF cell_loop_new(2)]
  cell_loop_map [OF cell_loop_new(3)] cell_loop_map [OF cell_loop_new(4)]

lemma seq_op_cells:
  "kv_cells (seq_rm sid p0 p1 kv) = map (rm_new sid p0 p1) (kv_cells kv)"
  "kv_cells (seq_keep sid kv) = map (keep_new sid) (kv_cells kv)"
  "kv_cells (seq_add sid p0 p1 d kv) =
     (if d = 0 \<or> norm_p0 p0 = norm_p1 p1 then kv_cells kv else map (add_new sid p0 p1 d) (kv_cells kv))"
  "kv_cells (seq_div sid p0 p1 d kv) =
     (if d = 1 \<or> norm_p0 p0 = norm_p1 p1 then kv_cells kv else map (div_new sid p0 p1 d) (kv_cells kv))"
  by (simp_all add: seq_rm_def seq_keep_def seq_add_def seq_div_def split_beta seq_loop_maps)

lemma seq_ops_frame [simp]:
  "kv_size (seq_rm sid p0 p1 kv) = kv_size kv" "kv_size (seq_cp a b p0 p1 kv) = kv_size kv"
  "kv_size (seq_keep sid kv) = kv_size kv" "kv_size (seq_add sid p0 p1 d kv) = kv_size kv"
  "kv_size (seq_div sid p0 p1 d kv) = kv_size kv"
  "kv_pending (seq_rm sid p0 p1 kv) = kv_pending kv"
  by (auto simp: seq_rm_def seq_cp_def seq_keep_def seq_add_def seq_div_def split: prod.splits)

lemma occupied_bound: "kv_ok kv \<Longrightarrow> occupied (kv_cells kv) < U32"
  using occupied_le_length [of "kv_cells kv"] by (simp add: kv_ok_def)

text \<open>What the removing loops do to \<open>used\<close> and to \<open>new_head\<close>.\<close>

lemma rm_loop_used:
  assumes "kv_ok kv"
  shows "fst (snd (cell_loop (seq_rm_cell n sid p0 p1) 0 (kv_cells kv) (kv_used kv, m)))
      = occupied (map (rm_new sid p0 p1) (kv_cells kv))"
  using removing_loop [where used_of = fst and g = "rm_new sid p0 p1" and k = 0
      and f = "seq_rm_cell n sid p0 p1" and s = "(kv_used kv, m)", of "kv_cells kv" 0]
    kv_okD [OF assms] occupied_bound [OF assms] new_cells_empty
  by (auto simp: cell_loop_new cell_new_defs cell_op_defs cell_ok_def Let_def split_beta)

lemma keep_loop_used:
  assumes "kv_ok kv"
  shows "fst (snd (cell_loop (seq_keep_cell n sid) 0 (kv_cells kv) (kv_used kv, m)))
      = occupied (map (keep_new sid) (kv_cells kv))"
  using removing_loop [where used_of = fst and g = "keep_new sid" and k = 0
      and f = "seq_keep_cell n sid" and s = "(kv_used kv, m)", of "kv_cells kv" 0]
    kv_okD [OF assms] occupied_bound [OF assms] new_cells_empty
  by (auto simp: cell_loop_new cell_new_defs cell_op_defs cell_ok_def Let_def split_beta)

lemma add_loop_used:
  assumes "kv_ok kv"
  shows "fst (snd (snd (cell_loop (seq_add_cell n sid p0 p1 d) 0 (kv_cells kv) (b, kv_used kv, m))))
      = occupied (map (add_new sid p0 p1 d) (kv_cells kv))"
  using removing_loop [where used_of = "\<lambda>t. fst (snd t)" and g = "add_new sid p0 p1 d" and k = 0
      and f = "seq_add_cell n sid p0 p1 d" and s = "(b, kv_used kv, m)", of "kv_cells kv" 0]
    kv_okD [OF assms] occupied_bound [OF assms] new_cells_empty
  by (auto simp: cell_loop_new cell_new_defs cell_op_defs cell_ok_def Let_def split_beta)

lemma add_loop_head:
  "snd (snd (snd (cell_loop (seq_add_cell n sid p0 p1 d) 0 cs (b, u, length cs)))) \<le> length cs"
  using cell_loop_new_head [where hd_of = "\<lambda>t. snd (snd t)" and f = "seq_add_cell n sid p0 p1 d",
      of 0 cs "(b, u, length cs)"]
  by (force simp: seq_add_cell_def Let_def split_beta)

text \<open>Every operation keeps the invariant.\<close>

lemma kv_init_ok: "kv_init sz padding = Some kv \<Longrightarrow> 4 * sz < U32 \<Longrightarrow> kv_ok kv"
  by (auto simp: kv_init_def kv_ok_def occupied_def split: if_splits)

lemma kv_clear_ok: "kv_ok kv \<Longrightarrow> kv_ok (kv_clear kv)"
  by (auto simp: kv_ok_def kv_clear_def cell_ok_def occupied_def is_empty_def)

lemma seq_rm_ok:
  assumes "kv_ok kv"
  shows "kv_ok (seq_rm sid p0 p1 kv)"
proof (rule kv_okI)
  note ok = kv_okD [OF assms]
  show "kv_used (seq_rm sid p0 p1 kv) = occupied (kv_cells (seq_rm sid p0 p1 kv))"
    using rm_loop_used [OF assms] by (simp add: seq_rm_def split_beta seq_loop_maps)
  show "kv_head (seq_rm sid p0 p1 kv) \<le> kv_size (seq_rm sid p0 p1 kv)"
    using ok by (auto simp: seq_rm_def split_beta intro!: lower_head_le)
qed (use kv_okD [OF assms] in \<open>auto simp: seq_op_cells cell_ok_new_cells\<close>)

lemma seq_cp_ok: "kv_ok kv \<Longrightarrow> kv_ok (seq_cp src dst p0 p1 kv)"
  by (auto simp: kv_ok_def seq_cp_def cell_ok_new_cells occupied_def filter_map o_def
      new_cells_empty(2) cong: filter_cong)

lemma seq_keep_ok:
  assumes "kv_ok kv"
  shows "kv_ok (seq_keep sid kv)"
proof (rule kv_okI)
  note ok = kv_okD [OF assms]
  show "kv_used (seq_keep sid kv) = occupied (kv_cells (seq_keep sid kv))"
    using keep_loop_used [OF assms] by (simp add: seq_keep_def split_beta seq_loop_maps)
  show "kv_head (seq_keep sid kv) \<le> kv_size (seq_keep sid kv)"
    using ok by (auto simp: seq_keep_def split_beta intro!: lower_head_le)
qed (use kv_okD [OF assms] in \<open>auto simp: seq_op_cells cell_ok_new_cells\<close>)

lemma seq_add_ok:
  assumes "kv_ok kv"
  shows "kv_ok (seq_add sid p0 p1 d kv)"
proof (cases "d = 0 \<or> norm_p0 p0 = norm_p1 p1")
  case True
  with assms show ?thesis by (auto simp: seq_add_def)
next
  case False
  note ok = kv_okD [OF assms]
  show ?thesis
  proof (rule kv_okI)
    show "kv_used (seq_add sid p0 p1 d kv) = occupied (kv_cells (seq_add sid p0 p1 d kv))"
      using add_loop_used [OF assms] False by (simp add: seq_add_def split_beta seq_loop_maps)
    show "kv_head (seq_add sid p0 p1 d kv) \<le> kv_size (seq_add sid p0 p1 d kv)"
      using False add_loop_head [of _ sid p0 p1 d "kv_cells kv"] ok(1)
      by (simp add: seq_add_def split_beta)
  qed (use ok False in \<open>auto simp: seq_op_cells cell_ok_new_cells\<close>)
qed

lemma occupied_map:
  "\<lbrakk>\<And>c. c \<in> set cs \<Longrightarrow> is_empty (g c) = is_empty c\<rbrakk> \<Longrightarrow> occupied (map g cs) = occupied cs"
  by (simp add: occupied_def filter_map o_def cong: filter_cong)

lemma seq_div_ok:
  assumes "kv_ok kv" "0 < d"
  shows "kv_ok (seq_div sid p0 p1 d kv)"
proof (rule kv_okI)
  note ok = kv_okD [OF assms(1)]
  have u: "kv_used (seq_div sid p0 p1 d kv) = kv_used kv"
    by (auto simp: seq_div_def split_beta)
  show "kv_used (seq_div sid p0 p1 d kv) = occupied (kv_cells (seq_div sid p0 p1 d kv))"
    using ok(4,5) by (simp add: u seq_op_cells occupied_map new_cells_empty)
  show "kv_head (seq_div sid p0 p1 d kv) \<le> kv_size (seq_div sid p0 p1 d kv)"
    using ok by (auto simp: seq_div_def split_beta)
qed (use kv_okD [OF assms(1)] assms(2) in \<open>auto simp: seq_op_cells cell_ok_new_cells split: if_splits\<close>)

text \<open>What each operation does to the abstract view.\<close>

lemma kv_abs_init: "kv_init sz padding = Some kv \<Longrightarrow> kv_abs kv = {#}"
  by (auto simp: kv_init_def kv_abs_def cells_abs_def split: if_splits)

lemma kv_abs_clear: "kv_abs (kv_clear kv) = {#}"
  by (simp add: kv_abs_def kv_clear_def cells_abs_def is_empty_def filter_map o_def)

lemma kv_abs_seq_rm:
  "kv_ok kv \<Longrightarrow> kv_abs (seq_rm sid p0 p1 kv) = live (image_mset (rm_entry sid p0 p1) (kv_abs kv))"
  unfolding kv_abs_def seq_op_cells
  by (rule cells_abs_map) (auto simp: new_cells_empty new_cells_entry dest: kv_okD)

lemma kv_abs_seq_keep:
  "kv_ok kv \<Longrightarrow> kv_abs (seq_keep sid kv) = live (image_mset (keep_entry sid) (kv_abs kv))"
  unfolding kv_abs_def seq_op_cells
  by (rule cells_abs_map) (auto simp: new_cells_empty new_cells_entry dest: kv_okD)

lemma live_cells_abs [simp]: "live (cells_abs cs) = cells_abs cs"
  by (induction cs) (auto simp: cell_entry_def is_empty_def)

lemma live_kv_abs [simp]: "live (kv_abs kv) = kv_abs kv"
  by (simp add: kv_abs_def)

lemma kv_abs_seq_add:
  assumes "kv_ok kv" "d \<noteq> 0" "norm_p0 p0 \<noteq> norm_p1 p1"
  shows "kv_abs (seq_add sid p0 p1 d kv) = live (image_mset (add_entry sid p0 p1 d) (kv_abs kv))"
  using assms unfolding kv_abs_def seq_op_cells
  by (simp, intro cells_abs_map) (auto simp: new_cells_empty new_cells_entry dest: kv_okD)

lemma cells_abs_map_same:
  assumes "\<And>c. c \<in> set cs \<Longrightarrow> is_empty (g c) = is_empty c"
    and "\<And>c. e (cell_entry c) = cell_entry (g c)"
  shows "cells_abs (map g cs) = image_mset e (cells_abs cs)"
  using assms(1)
proof (induction cs)
  case Nil
  then show ?case by simp
next
  case (Cons c cs)
  have "cells_abs (map g cs) = image_mset e (cells_abs cs)" using Cons by simp
  then show ?case using Cons.prems [of c] by (simp add: assms(2))
qed

lemma kv_abs_seq_cp:
  "kv_ok kv \<Longrightarrow> src \<noteq> dst \<Longrightarrow>
     kv_abs (seq_cp src dst p0 p1 kv) = image_mset (cp_entry src dst p0 p1) (kv_abs kv)"
  by (auto simp: kv_abs_def seq_cp_def new_cells_empty new_cells_entry dest: kv_okD
      intro!: cells_abs_map_same)

lemma kv_abs_seq_div:
  "kv_ok kv \<Longrightarrow> d \<noteq> 1 \<Longrightarrow> norm_p0 p0 \<noteq> norm_p1 p1 \<Longrightarrow>
     kv_abs (seq_div sid p0 p1 d kv) = image_mset (div_entry sid p0 p1 d) (kv_abs kv)"
  by (auto simp: kv_abs_def seq_op_cells new_cells_empty new_cells_entry dest: kv_okD
      intro!: cells_abs_map_same)

end
