(* ===== verification/KvSlot.thy ===== *)
theory KvSlot
  imports Prelude Batch KvUnified
begin

text \<open>
  Placing a micro-batch in the unified cache and undoing it: \<open>find_slot\<close>, \<open>cell_max\<close>,
  \<open>restore\<close>, \<open>commit\<close> of \<open>llama_kv_cache_unified\<close>, and \<open>GGML_PAD\<close>.

  The search loop is \<open>while (true)\<close>; it is modelled with fuel, and \<open>find_loop_terminates\<close>
  shows that \<open>2 * size + 2\<close> rounds are enough, so that the fuel never runs out.
\<close>

section \<open>Searching\<close>

text \<open>\<open>GGML_PAD(x, n)\<close>: \<^verbatim>\<open>(((x) + (n) - 1) & ~((n) - 1))\<close> on uint32_t.\<close>

definition ggml_pad :: "nat \<Rightarrow> nat \<Rightarrow> nat" where
  "ggml_pad x n =
     unat (and (word_of_nat x + word_of_nat n - 1) (not (word_of_nat n - 1)) :: 32 word)"

fun cell_max_from :: "kv_cell list \<Rightarrow> nat \<Rightarrow> nat" where
  "cell_max_from cs 0 = 0"
| "cell_max_from cs (Suc i) =
     (if cell_pos (cs ! i) \<ge> 0 \<and> \<not> is_empty (cs ! i) then Suc i else cell_max_from cs i)"

definition cell_max :: "kv_unified \<Rightarrow> nat" where
  "cell_max kv = cell_max_from (kv_cells kv) (kv_size kv)"

text \<open>The inner loop: the offset of the first used cell of the window, if there is one.\<close>

fun first_used :: "kv_cell list \<Rightarrow> nat \<Rightarrow> nat option" where
  "first_used [] i = None"
| "first_used (c # cs) i = (if cell_pos c \<ge> 0 then Some i else first_used cs (Suc i))"

fun find_loop ::
  "nat \<Rightarrow> kv_cell list \<Rightarrow> nat \<Rightarrow> nat \<Rightarrow> nat \<Rightarrow> nat \<Rightarrow> (bool \<times> nat) option" where
  "find_loop 0 cs sz n_tokens head n_tested = None"
| "find_loop (Suc fuel) cs sz n_tokens head n_tested =
     (if u32_add head n_tokens > sz
      then find_loop fuel cs sz n_tokens 0 (u32_add n_tested (u32_sub sz head))
      else case first_used (take n_tokens (drop head cs)) 0 of
        None \<Rightarrow> Some (True, head)
      | Some i \<Rightarrow>
          (let head' = u32_add head (i + 1); n_tested' = u32_add n_tested (i + 1) in
             if n_tested' \<ge> sz then Some (False, head')
             else find_loop fuel cs sz n_tokens head' n_tested'))"

section \<open>Placing\<close>

text \<open>The array reads of the placing loops are inside the micro-batch's arrays.\<close>

definition ub_reads_ok :: "'e llama_ubatch \<Rightarrow> bool" where
  "ub_reads_ok ub = (ub_n_seqs ub * ub_n_seq_tokens ub \<le> length (ub_pos ub)
     \<and> ub_n_seqs ub * ub_n_seq_tokens ub \<le> ub_n_tokens ub
     \<and> ub_n_seqs ub \<le> length (ub_n_seq_id ub) \<and> ub_n_seqs ub \<le> length (ub_seq_id ub)
     \<and> list_all (\<lambda>s. nat (ub_n_seq_id ub ! s) \<le> length (ub_seq_id ub ! s)) [0..<ub_n_seqs ub])"

definition ub_seq_set :: "'e llama_ubatch \<Rightarrow> nat \<Rightarrow> int set" where
  "ub_seq_set ub s = set (take (nat (ub_n_seq_id ub ! s)) (ub_seq_id ub ! s))"

definition place_one :: "nat \<Rightarrow> 'e llama_ubatch \<Rightarrow> kv_cell list \<Rightarrow> nat \<times> nat \<Rightarrow> kv_cell list" where
  "place_one head ub cs = (\<lambda>(s, i).
     let k = s * ub_n_seq_tokens ub + i; c = cs ! (head + k)
     in cs[head + k := c\<lparr>cell_pos := ub_pos ub ! k,
                         cell_seq_id := cell_seq_id c \<union> ub_seq_set ub s\<rparr>])"

definition place_tokens :: "nat \<Rightarrow> 'e llama_ubatch \<Rightarrow> kv_cell list \<Rightarrow> kv_cell list" where
  "place_tokens head ub cs =
     foldl (place_one head ub) cs (List.product [0..<ub_n_seqs ub] [0..<ub_n_seq_tokens ub])"

text \<open>Enough unused cells before the current head: the search starts at the beginning.\<close>

definition slot_start :: "'e llama_ubatch \<Rightarrow> kv_unified \<Rightarrow> nat" where
  "slot_start ub kv =
     (if kv_head kv > u32_add (kv_used kv) (2 * ub_n_tokens ub mod U32) then 0 else kv_head kv)"

definition find_slot :: "'e llama_ubatch \<Rightarrow> kv_unified \<Rightarrow> (bool \<times> kv_unified) option" where
  "find_slot ub kv =
     (let n_tokens = ub_n_tokens ub; sz = kv_size kv; head0 = slot_start ub kv
      in if n_tokens > sz then Some (False, kv\<lparr>kv_head := head0\<rparr>)
         else case find_loop (2 * sz + 2) (kv_cells kv) sz n_tokens head0 0 of
           None \<Rightarrow> None
         | Some (False, h) \<Rightarrow> Some (False, kv\<lparr>kv_head := h\<rparr>)
         | Some (True, h) \<Rightarrow>
             if ub_reads_ok ub then
               (let kv' = kv\<lparr>kv_head := h, kv_cells := place_tokens h ub (kv_cells kv),
                             kv_used := u32_add (kv_used kv) n_tokens,
                             kv_pending := kv_pending kv @ [(h, u32_add h n_tokens)]\<rparr>
                in Some (True, kv'\<lparr>kv_n := min sz (max (kv_padding kv)
                                     (ggml_pad (cell_max kv') (kv_padding kv)))\<rparr>))
             else None)"

section \<open>Undoing\<close>

definition restore_cell :: "kv_cell list \<times> nat \<Rightarrow> nat \<Rightarrow> kv_cell list \<times> nat" where
  "restore_cell = (\<lambda>(cs, used) i.
     (cs[i := (cs ! i)\<lparr>cell_pos := -1, cell_seq_id := {}\<rparr>],
      if cell_pos (cs ! i) \<ge> 0 then u32_sub used 1 else used))"

definition restore_range ::
  "kv_cell list \<times> nat \<times> nat \<Rightarrow> nat \<times> nat \<Rightarrow> kv_cell list \<times> nat \<times> nat" where
  "restore_range = (\<lambda>(cs, used, new_head) (c0, c1).
     case foldl restore_cell (cs, used) [c0..<c1] of (cs', used') \<Rightarrow> (cs', used', min new_head c0))"

text \<open>The pending ranges themselves are left in place by \<open>restore\<close>, as in the code.\<close>

definition kv_restore :: "kv_unified \<Rightarrow> kv_unified" where
  "kv_restore kv =
     (if kv_pending kv = [] then kv
      else case foldl restore_range (kv_cells kv, kv_used kv, kv_size kv) (kv_pending kv) of
        (cs, used, new_head) \<Rightarrow> lower_head new_head (kv\<lparr>kv_cells := cs, kv_used := used\<rparr>))"

definition kv_commit :: "kv_unified \<Rightarrow> kv_unified" where
  "kv_commit kv = kv\<lparr>kv_pending := []\<rparr>"

section \<open>The search finds a slot exactly when there is one\<close>

definition free_run :: "kv_cell list \<Rightarrow> nat \<Rightarrow> nat \<Rightarrow> bool" where
  "free_run cs h n = (h + n \<le> length cs \<and> (\<forall>i < n. cell_pos (cs ! (h + i)) < 0))"

lemma first_used_None: "first_used cs k = None \<longleftrightarrow> (\<forall>c \<in> set cs. cell_pos c < 0)"
  by (induction cs k rule: first_used.induct) auto

lemma first_used_Some:
  "first_used cs k = Some i \<Longrightarrow> k \<le> i \<and> i - k < length cs \<and> cell_pos (cs ! (i - k)) \<ge> 0
     \<and> (\<forall>j < i - k. cell_pos (cs ! j) < 0)"
proof (induction cs k rule: first_used.induct)
  case (1 k)
  then show ?case by simp
next
  case (2 c cs k)
  show ?case
  proof (cases "cell_pos c \<ge> 0")
    case True
    then show ?thesis using 2 by simp
  next
    case False
    with 2 have *: "Suc k \<le> i \<and> i - Suc k < length cs \<and> cell_pos (cs ! (i - Suc k)) \<ge> 0
       \<and> (\<forall>j < i - Suc k. cell_pos (cs ! j) < 0)" by simp
    then obtain d where d: "i - k = Suc d" "i - Suc k = d" by (metis Suc_diff_Suc Suc_le_lessD)
    show ?thesis using * d False by (auto simp: less_Suc_eq_0_disj)
  qed
qed

lemma ball_window:
  "head + n \<le> length cs \<Longrightarrow> (\<forall>c \<in> set (take n (drop head cs)). P c) \<longleftrightarrow> (\<forall>i < n. P (cs ! (head + i)))"
  by (auto simp: set_conv_nth)

lemma first_used_window:
  assumes "head + n \<le> length cs"
  shows "first_used (take n (drop head cs)) 0 = None \<longleftrightarrow> free_run cs head n"
  using assms by (simp add: first_used_None free_run_def ball_window)

lemma first_used_window_Some:
  assumes "head + n \<le> length cs" "first_used (take n (drop head cs)) 0 = Some i"
  shows "i < n" "cell_pos (cs ! (head + i)) \<ge> 0"
  using first_used_Some [OF assms(2)] assms(1) by auto

lemma not_free_run:
  assumes "cell_pos (cs ! u) \<ge> 0" "w \<le> u" "u < w + n"
  shows "\<not> free_run cs w n"
proof
  assume "free_run cs w n"
  moreover have "u - w < n" "w + (u - w) = u" using assms by auto
  ultimately have "cell_pos (cs ! u) < 0" unfolding free_run_def by metis
  then show False using assms(1) by simp
qed

text \<open>
  What is known when the search that started at \<open>h0\<close> has reached \<open>head\<close>: the windows already
  excluded, before the first wrap, after it, and after the second.
\<close>

definition search_inv :: "kv_cell list \<Rightarrow> nat \<Rightarrow> nat \<Rightarrow> nat \<Rightarrow> nat \<Rightarrow> nat \<Rightarrow> bool" where
  "search_inv cs sz n h0 head n_tested =
     (head \<le> sz \<and> (n_tested < sz \<or> head + n \<le> sz \<and> n_tested \<le> 2 * sz) \<and>
      ((h0 \<le> head \<and> n_tested = head - h0 \<and> (\<forall>w. h0 \<le> w \<and> w < head \<longrightarrow> \<not> free_run cs w n))
     \<or> (n_tested = sz - h0 + head \<and> (\<forall>w. h0 \<le> w \<or> w < head \<longrightarrow> \<not> free_run cs w n))
     \<or> (\<forall>w. \<not> free_run cs w n)))"

lemma search_invE:
  assumes "search_inv cs sz n h0 head t"
  obtains (first) "h0 \<le> head" "t = head - h0" "\<And>w. h0 \<le> w \<Longrightarrow> w < head \<Longrightarrow> \<not> free_run cs w n"
  | (second) "t = sz - h0 + head" "\<And>w. h0 \<le> w \<or> w < head \<Longrightarrow> \<not> free_run cs w n"
  | (third) "\<And>w. \<not> free_run cs w n"
  using assms unfolding search_inv_def by blast

lemma search_inv_bounds:
  assumes "search_inv cs sz n h0 head t"
  shows "head \<le> sz" "t \<le> 2 * sz" "sz < head + n \<Longrightarrow> t < sz"
  using assms by (auto simp: search_inv_def)

lemma search_inv_wrap:
  assumes "search_inv cs sz n h0 head t" "length cs = sz" "h0 \<le> sz" "n \<le> sz" "sz < head + n"
  shows "search_inv cs sz n h0 0 (t + (sz - head))"
proof -
  note bounds = search_inv_bounds [OF assms(1)]
  have out: "\<not> free_run cs w n" if "head \<le> w" for w
    using that assms(2,5) by (simp add: free_run_def)
  have le2: "t + (sz - head) \<le> 2 * sz" using bounds(1) bounds(3) [OF assms(5)] by linarith
  show ?thesis
    using assms(1)
  proof (cases rule: search_invE)
    case first
    then have "\<not> free_run cs w n" if "h0 \<le> w" for w
      using that out [of w] by (cases "w < head") auto
    moreover have "t + (sz - head) = sz - h0" "sz - h0 \<le> 2 * sz" using first bounds(1) by simp_all
    ultimately show ?thesis using assms(4) by (simp add: search_inv_def)
  next
    case second
    then have "\<not> free_run cs w n" for w using out [of w] by (cases "w < head") auto
    then show ?thesis using le2 assms(4) by (simp add: search_inv_def)
  next
    case third
    then show ?thesis using le2 assms(4) by (simp add: search_inv_def)
  qed
qed

lemma search_inv_skip:
  assumes "search_inv cs sz n h0 head t" "length cs = sz" "h0 \<le> sz"
    and "cell_pos (cs ! (head + i)) \<ge> 0" "i < n" "head + n \<le> sz"
  shows "t + (i + 1) < sz \<Longrightarrow> search_inv cs sz n h0 (head + (i + 1)) (t + (i + 1))"
    and "sz \<le> t + (i + 1) \<Longrightarrow> \<not> free_run cs w n"
proof -
  have skip: "\<not> free_run cs v n" if "head \<le> v" "v < head + (i + 1)" for v
    by (rule not_free_run [OF assms(4)]) (use that assms(5) in auto)
  have big: "\<not> free_run cs v n" if "sz \<le> v" for v
    using that assms(2,5) by (simp add: free_run_def)
  have "(t + (i + 1) < sz \<longrightarrow> search_inv cs sz n h0 (head + (i + 1)) (t + (i + 1)))
    \<and> (sz \<le> t + (i + 1) \<longrightarrow> \<not> free_run cs w n)"
    using assms(1)
  proof (cases rule: search_invE)
    case first
    have *: "\<not> free_run cs v n" if "h0 \<le> v" "v < head + (i + 1)" for v
      using that first skip [of v] by (cases "v < head") auto
    have **: "\<not> free_run cs w n" if "sz \<le> t + (i + 1)"
    proof (cases "sz \<le> w")
      case False
      then show ?thesis using * [of w] that first(1,2) assms(5,6) by linarith
    qed (rule big)
    show ?thesis using * ** first(1,2) assms(5,6) by (auto simp: search_inv_def)
  next
    case second
    have *: "\<not> free_run cs v n" if "h0 \<le> v \<or> v < head + (i + 1)" for v
      using that second skip [of v] by (cases "v < head") auto
    have **: "\<not> free_run cs w n" if "sz \<le> t + (i + 1)"
      using * [of w] that second(1) assms(3) by linarith
    show ?thesis using * ** second(1) assms(5,6) by (auto simp: search_inv_def)
  next
    case third
    then show ?thesis using assms(5,6) by (simp add: search_inv_def)
  qed
  then show "t + (i + 1) < sz \<Longrightarrow> search_inv cs sz n h0 (head + (i + 1)) (t + (i + 1))"
    and "sz \<le> t + (i + 1) \<Longrightarrow> \<not> free_run cs w n" by blast+
qed

text \<open>
  The search ends within its fuel. It succeeds only at a free run, and it fails only when no
  window of \<open>n_tokens\<close> cells is free.
\<close>

lemma find_loop_correct:
  assumes "length cs = sz" "4 * sz < U32" "n \<le> sz" "h0 \<le> sz"
    and "search_inv cs sz n h0 head t"
    and "2 * (sz - t) + (if head + n > sz then 1 else 0) < fuel"
  shows "\<exists>found h. find_loop fuel cs sz n head t = Some (found, h) \<and> h \<le> sz
     \<and> (if found then free_run cs h n else \<forall>w. \<not> free_run cs w n)"
  using assms(5,6)
proof (induction fuel arbitrary: head t)
  case 0
  then show ?case by simp
next
  case (Suc fuel)
  have hs: "head \<le> sz" and ts: "t \<le> 2 * sz" and tw: "head + n > sz \<Longrightarrow> t < sz"
    using search_inv_bounds [OF Suc.prems(1)] by auto
  have add: "u32_add head n = head + n" using hs assms(2,3) by (intro u32_add_exact) linarith
  show ?case
  proof (cases "head + n > sz")
    case True
    have "u32_sub sz head = sz - head" using hs assms(2) by (intro u32_sub_exact) linarith+
    moreover have "u32_add t (sz - head) = t + (sz - head)"
      using tw [OF True] assms(2) by (intro u32_add_exact) linarith
    moreover have "\<exists>found h. find_loop fuel cs sz n 0 (t + (sz - head)) = Some (found, h) \<and> h \<le> sz
       \<and> (if found then free_run cs h n else \<forall>w. \<not> free_run cs w n)"
      by (rule Suc.IH [OF search_inv_wrap])
        (use Suc.prems True assms in auto)
    ultimately show ?thesis using True by (simp add: add)
  next
    case False
    show ?thesis
    proof (cases "first_used (take n (drop head cs)) 0")
      case None
      then have "free_run cs head n" using first_used_window [of head n cs] False assms(1) by simp
      then show ?thesis using False None hs by (intro exI [of _ True] exI [of _ head]) (simp add: add)
    next
      case (Some i)
      have i: "i < n" "cell_pos (cs ! (head + i)) \<ge> 0"
        using first_used_window_Some [OF _ Some] False assms(1) by auto
      have a: "u32_add head (i + 1) = head + (i + 1)" "u32_add t (i + 1) = t + (i + 1)"
        using i(1) False ts assms(2,3) by (intro u32_add_exact; linarith)+
      have skip: "t + (i + 1) < sz \<Longrightarrow> search_inv cs sz n h0 (head + (i + 1)) (t + (i + 1))"
        "sz \<le> t + (i + 1) \<Longrightarrow> \<forall>w. \<not> free_run cs w n"
        using search_inv_skip [OF Suc.prems(1) assms(1,4) i(2,1)] False by auto
      show ?thesis
      proof (cases "sz \<le> t + (i + 1)")
        case True
        then show ?thesis using False Some skip(2) i a
          by (intro exI [of _ False] exI [of _ "head + (i + 1)"]) (simp add: add)
      next
        case lt: False
        have "\<exists>found h. find_loop fuel cs sz n (head + (i + 1)) (t + (i + 1)) = Some (found, h) \<and> h \<le> sz
           \<and> (if found then free_run cs h n else \<forall>w. \<not> free_run cs w n)"
          by (rule Suc.IH [OF skip(1)]) (use Suc.prems lt False in \<open>auto split: if_splits\<close>)
        then show ?thesis using False Some lt a by (simp add: add)
      qed
    qed
  qed
qed


section \<open>What a successful placement writes\<close>

definition place_cell :: "'e llama_ubatch \<Rightarrow> nat \<Rightarrow> kv_cell \<Rightarrow> kv_cell" where
  "place_cell ub k c = c\<lparr>cell_pos := ub_pos ub ! k,
     cell_seq_id := cell_seq_id c \<union> ub_seq_set ub (k div ub_n_seq_tokens ub)\<rparr>"

text \<open>The micro-batch as entries of the abstract view, and what makes it placeable.\<close>

definition ub_entries :: "'e llama_ubatch \<Rightarrow> (int \<times> int set) list" where
  "ub_entries ub =
     map (\<lambda>k. (ub_pos ub ! k, ub_seq_set ub (k div ub_n_seq_tokens ub))) [0..<ub_n_tokens ub]"

definition ub_placeable :: "'e llama_ubatch \<Rightarrow> bool" where
  "ub_placeable ub = (ub_reads_ok ub \<and> ub_n_tokens ub = ub_n_seqs ub * ub_n_seq_tokens ub
     \<and> list_all (\<lambda>e. 0 \<le> fst e \<and> snd e \<noteq> {}) (ub_entries ub))"

lemma place_one_length [simp]: "length (foldl (place_one h ub) cs ps) = length cs"
  by (induction ps arbitrary: cs) (auto simp: place_one_def Let_def split: prod.splits)

lemma place_fold:
  assumes "\<forall>p \<in> set ps. snd p < ub_n_seq_tokens ub \<and> h + (fst p * ub_n_seq_tokens ub + snd p) < length cs"
    and "distinct (map (\<lambda>p. fst p * ub_n_seq_tokens ub + snd p) ps)" "j < length cs"
  shows "foldl (place_one h ub) cs ps ! j =
    (if h \<le> j \<and> j - h \<in> (\<lambda>p. fst p * ub_n_seq_tokens ub + snd p) ` set ps
     then place_cell ub (j - h) (cs ! j) else cs ! j)"
  using assms
proof (induction ps arbitrary: cs)
  case Nil
  then show ?case by simp
next
  case (Cons p ps)
  obtain s i where p: "p = (s, i)" by fastforce
  let ?k = "s * ub_n_seq_tokens ub + i"
  let ?cs = "place_one h ub cs p"
  have i: "i < ub_n_seq_tokens ub" and kl: "h + ?k < length cs" using Cons.prems(1) p by auto
  have s: "?k div ub_n_seq_tokens ub = s" using i by simp
  have step: "?cs = cs[h + ?k := place_cell ub ?k (cs ! (h + ?k))]"
    using s by (simp add: p place_one_def place_cell_def Let_def)
  have IH: "foldl (place_one h ub) ?cs ps ! j =
    (if h \<le> j \<and> j - h \<in> (\<lambda>p. fst p * ub_n_seq_tokens ub + snd p) ` set ps
     then place_cell ub (j - h) (?cs ! j) else ?cs ! j)"
    by (rule Cons.IH) (use Cons.prems in \<open>auto simp: step\<close>)
  have fresh: "?k \<notin> (\<lambda>p. fst p * ub_n_seq_tokens ub + snd p) ` set ps"
    using Cons.prems(2) by (simp add: p)
  show ?case
  proof (cases "j = h + ?k")
    case True
    have "?cs ! j = place_cell ub ?k (cs ! j)" using kl by (simp add: step True)
    moreover have "j - h = ?k" "h \<le> j" using True by simp_all
    ultimately show ?thesis using IH fresh by (simp add: p)
  next
    case False
    then have "?cs ! j = cs ! j" by (simp add: step)
    moreover have "h \<le> j \<Longrightarrow> j - h \<noteq> ?k" using False by auto
    ultimately show ?thesis using IH by (auto simp: p)
  qed
qed

lemma product_index_bij:
  "(\<lambda>p. fst p * m + snd p) ` set (List.product [0..<n] [0..<m]) = {..<n * m}"
  "distinct (map (\<lambda>p. fst p * m + snd p) (List.product [0..<n] [0..<m]))"
proof -
  have lt: "s * m + i < n * m" if "s < n" "i < m" for s i
  proof -
    have "s * m + i < Suc s * m" using that(2) by simp
    also have "\<dots> \<le> n * m" using that(1) by (intro mult_le_mono1) simp
    finally show ?thesis .
  qed
  have ex: "\<exists>p \<in> {..<n} \<times> {..<m}. k = fst p * m + snd p" if "k < n * m" for k
  proof -
    have m: "0 < m" using that by (cases m) auto
    have "k div m < n" using that by (simp add: less_mult_imp_div_less)
    then have "(k div m, k mod m) \<in> {..<n} \<times> {..<m}" using m by simp
    then show ?thesis by (intro bexI [of _ "(k div m, k mod m)"]) auto
  qed
  show "(\<lambda>p. fst p * m + snd p) ` set (List.product [0..<n] [0..<m]) = {..<n * m}"
    using lt ex by (auto simp: image_iff atLeast0LessThan)
  have "inj_on (\<lambda>p. fst p * m + snd p) (set (List.product [0..<n] [0..<m]))"
  proof (rule inj_onI)
    fix p q assume "p \<in> set (List.product [0..<n] [0..<m])" "q \<in> set (List.product [0..<n] [0..<m])"
      and eq: "fst p * m + snd p = fst q * m + snd q"
    then have pq: "snd p < m" "snd q < m" by auto
    have "fst p = (fst p * m + snd p) div m" using pq by simp
    also have "\<dots> = fst q" using pq by (simp add: eq)
    finally have "fst p = fst q" .
    then have "snd p = snd q" using eq by simp
    then show "p = q" using \<open>fst p = fst q\<close> by (simp add: prod_eq_iff)
  qed
  then show "distinct (map (\<lambda>p. fst p * m + snd p) (List.product [0..<n] [0..<m]))"
    by (simp add: distinct_map distinct_product)
qed

lemma place_tokens_nth:
  assumes "h + ub_n_seqs ub * ub_n_seq_tokens ub \<le> length cs" "j < length cs"
  shows "place_tokens h ub cs ! j =
    (if h \<le> j \<and> j - h < ub_n_seqs ub * ub_n_seq_tokens ub
     then place_cell ub (j - h) (cs ! j) else cs ! j)"
proof -
  let ?ps = "List.product [0..<ub_n_seqs ub] [0..<ub_n_seq_tokens ub]"
  let ?kof = "\<lambda>p. fst p * ub_n_seq_tokens ub + snd p"
  have img: "?kof ` set ?ps = {..<ub_n_seqs ub * ub_n_seq_tokens ub}" by (rule product_index_bij)
  have "snd p < ub_n_seq_tokens ub \<and> h + ?kof p < length cs" if "p \<in> set ?ps" for p
  proof -
    have "?kof p < ub_n_seqs ub * ub_n_seq_tokens ub" using that img by blast
    then show ?thesis using that assms(1) by auto
  qed
  then show ?thesis
    using place_fold [of ?ps ub h cs j] product_index_bij(2) assms(2)
    unfolding place_tokens_def img by simp
qed

lemma place_tokens_length [simp]: "length (place_tokens h ub cs) = length cs"
  by (simp add: place_tokens_def)

text \<open>Three pieces: the cells before the window, the window, and the cells after it.\<close>

lemma window_split:
  assumes "h + n \<le> length cs" "length ds = length cs"
    and "\<And>j. j < length cs \<Longrightarrow> ds ! j = (if h \<le> j \<and> j - h < n then f (j - h) (cs ! j) else cs ! j)"
  shows "ds = take h cs @ map (\<lambda>k. f k (cs ! (h + k))) [0..<n] @ drop (h + n) cs"
proof (rule nth_equalityI)
  show "length ds = length (take h cs @ map (\<lambda>k. f k (cs ! (h + k))) [0..<n] @ drop (h + n) cs)"
    using assms(1,2) by simp
next
  fix j assume "j < length ds"
  then have j: "j < length cs" using assms(2) by simp
  consider "j < h" | "h \<le> j" "j < h + n" | "h + n \<le> j" by linarith
  then show "ds ! j = (take h cs @ map (\<lambda>k. f k (cs ! (h + k))) [0..<n] @ drop (h + n) cs) ! j"
    by cases (use assms(1) assms(3) [OF j] j in \<open>auto simp: nth_append less_diff_conv2\<close>)
qed

lemma list_window:
  "h + n \<le> length cs \<Longrightarrow> cs = take h cs @ map (\<lambda>k. cs ! (h + k)) [0..<n] @ drop (h + n) cs"
  using window_split [of h n cs cs "\<lambda>_ c. c"] by simp

lemma place_tokens_split:
  assumes "h + ub_n_tokens ub \<le> length cs" "ub_placeable ub"
  shows "place_tokens h ub cs =
    take h cs @ map (\<lambda>k. place_cell ub k (cs ! (h + k))) [0..<ub_n_tokens ub]
      @ drop (h + ub_n_tokens ub) cs"
  using assms by (intro window_split) (auto simp: place_tokens_nth ub_placeable_def)

lemma free_cell: "cell_ok c \<Longrightarrow> cell_pos c < 0 \<Longrightarrow> is_empty c"
  using cell_ok_pos [of c] by auto

lemma free_window:
  assumes "free_run cs h n" "\<forall>c \<in> set cs. cell_ok c" "k < n"
  shows "cell_ok (cs ! (h + k))" "is_empty (cs ! (h + k))"
proof -
  have "h + k < length cs" "cell_pos (cs ! (h + k)) < 0"
    using assms(1,3) by (auto simp: free_run_def)
  then show "cell_ok (cs ! (h + k))" using assms(2) by simp
  then show "is_empty (cs ! (h + k))" using \<open>cell_pos _ < 0\<close> by (rule free_cell)
qed

lemma cells_abs_empties: "list_all is_empty cs \<Longrightarrow> cells_abs cs = {#}"
  by (induction cs) auto

lemma cells_abs_full:
  "(\<And>k. k \<in> set ks \<Longrightarrow> \<not> is_empty (g k)) \<Longrightarrow> cells_abs (map g ks) = mset (map (cell_entry \<circ> g) ks)"
  by (induction ks) auto

lemma ub_entry:
  assumes "ub_placeable ub" "k < ub_n_tokens ub"
  shows "0 \<le> ub_pos ub ! k" "ub_seq_set ub (k div ub_n_seq_tokens ub) \<noteq> {}"
  using assms by (auto simp: ub_placeable_def ub_entries_def list_all_iff)

lemma place_cell_ok:
  assumes "ub_placeable ub" "k < ub_n_tokens ub" "cell_ok c"
  shows "cell_ok (place_cell ub k c)" "\<not> is_empty (place_cell ub k c)"
  using ub_entry [OF assms(1,2)] assms(3)
  by (auto simp: cell_ok_def place_cell_def is_empty_def ub_seq_set_def)

lemma place_cell_entry:
  "is_empty c \<Longrightarrow> cell_entry (place_cell ub k c)
     = (ub_pos ub ! k, ub_seq_set ub (k div ub_n_seq_tokens ub))"
  by (simp add: place_cell_def cell_entry_def is_empty_def)

lemma cells_abs_place:
  assumes "free_run cs h (ub_n_tokens ub)" "\<forall>c \<in> set cs. cell_ok c" "ub_placeable ub"
  shows "cells_abs (place_tokens h ub cs) = cells_abs cs + mset (ub_entries ub)"
    "occupied (place_tokens h ub cs) = occupied cs + ub_n_tokens ub"
    "\<forall>c \<in> set (place_tokens h ub cs). cell_ok c"
proof -
  let ?n = "ub_n_tokens ub"
  let ?w = "map (\<lambda>k. place_cell ub k (cs ! (h + k))) [0..<?n]"
  have le: "h + ?n \<le> length cs" using assms(1) by (simp add: free_run_def)
  note free = free_window [OF assms(1,2)]
  note split = place_tokens_split [OF le assms(3)]
  have w: "cells_abs ?w = mset (ub_entries ub)"
    using place_cell_ok [OF assms(3)] free
    by (subst cells_abs_full) (auto simp: ub_entries_def place_cell_entry comp_def intro!: image_mset_cong)
  have e: "cells_abs (map (\<lambda>k. cs ! (h + k)) [0..<?n]) = {#}"
    by (rule cells_abs_empties) (use free in \<open>auto simp: list_all_iff\<close>)
  have old: "cells_abs cs = cells_abs (take h cs) + cells_abs (drop (h + ?n) cs)"
    by (subst list_window [OF le]) (simp add: e)
  show abs: "cells_abs (place_tokens h ub cs) = cells_abs cs + mset (ub_entries ub)"
    unfolding split old by (simp add: w)
  show "occupied (place_tokens h ub cs) = occupied cs + ?n"
    using arg_cong [OF abs, of "size"] by (simp add: size_cells_abs ub_entries_def)
  show "\<forall>c \<in> set (place_tokens h ub cs). cell_ok c"
    unfolding split using assms(2) place_cell_ok(1) [OF assms(3)] free(1)
    by (auto dest: in_set_takeD in_set_dropD)
qed

section \<open>find_slot\<close>

text \<open>On a power of two \<open>GGML_PAD\<close> rounds up to the next multiple.\<close>

lemma unat_and_not_mask:
  "unat (and w (not (mask k)) :: 'a::len word) = unat w - unat w mod 2 ^ k"
proof -
  have "and w (not (mask k)) = w - take_bit k w"
    by (subst disjunctive_diff_eq_and_not)
      (auto intro!: bit_eqI simp: bit_and_iff bit_not_iff bit_take_bit_iff bit_mask_iff)
  moreover have u: "unat (take_bit k w) = unat w mod 2 ^ k"
    using take_bit_eq_mod [of k "unat w"] by (simp only: unsigned_take_bit_eq)
  moreover have "take_bit k w \<le> w"
    by (simp only: word_le_nat_alt u mod_less_eq_dividend)
  ultimately show ?thesis by (simp add: unat_sub)
qed

lemma ggml_pad_pow2:
  assumes "x + 2 ^ k \<le> U32" "0 < x"
  shows "ggml_pad x (2 ^ k) = (x + 2 ^ k - 1) div 2 ^ k * 2 ^ k"
proof -
  have "(2::nat) ^ k \<ge> 1" by simp
  have "(word_of_nat x + word_of_nat (2 ^ k) - 1 :: 32 word) = word_of_nat (x + 2 ^ k - 1)"
    using assms(2) by (subst of_nat_diff) (auto simp: trans_le_add1)
  moreover have "unat (word_of_nat (x + 2 ^ k - 1) :: 32 word) = x + 2 ^ k - 1"
    using assms by (simp only: unsigned_of_nat) (simp add: take_bit_nat_eq_self_iff)
  moreover have "(word_of_nat (2 ^ k) - 1 :: 32 word) = mask k"
    by (simp add: mask_eq_exp_minus_1)
  ultimately show ?thesis
    by (simp add: ggml_pad_def unat_and_not_mask minus_mod_eq_div_mult)
qed

lemma search_inv_start: "h0 \<le> sz \<Longrightarrow> n \<le> sz \<Longrightarrow> 0 < sz \<Longrightarrow> search_inv cs sz n h0 h0 0"
  unfolding search_inv_def by auto

lemma find_loop_from_start:
  assumes "length cs = sz" "4 * sz < U32" "n \<le> sz" "h0 \<le> sz"
  shows "\<exists>found h. find_loop (2 * sz + 2) cs sz n h0 0 = Some (found, h) \<and> h \<le> sz
     \<and> (if found then free_run cs h n else \<forall>w. \<not> free_run cs w n)"
proof (cases "sz = 0")
  case True
  then show ?thesis using assms by (auto simp: u32_add_def free_run_def)
next
  case False
  then show ?thesis
    using assms search_inv_start [of h0 sz n cs] by (intro find_loop_correct) auto
qed

lemma slot_start_le: "kv_ok kv \<Longrightarrow> slot_start ub kv \<le> kv_size kv"
  by (simp add: slot_start_def kv_ok_def)

lemma find_slot_cases:
  assumes "kv_ok kv" "ub_placeable ub"
  obtains (found) kv' where "find_slot ub kv = Some (True, kv')"
      "free_run (kv_cells kv) (kv_head kv') (ub_n_tokens ub)"
      "kv_cells kv' = place_tokens (kv_head kv') ub (kv_cells kv)"
      "kv_used kv' = kv_used kv + ub_n_tokens ub" "kv_size kv' = kv_size kv"
      "kv_pending kv' = kv_pending kv @ [(kv_head kv', kv_head kv' + ub_n_tokens ub)]"
      "kv_n kv' = min (kv_size kv) (max (kv_padding kv) (ggml_pad (cell_max kv') (kv_padding kv)))"
  | (full) h where "find_slot ub kv = Some (False, kv\<lparr>kv_head := h\<rparr>)" "h \<le> kv_size kv"
      "\<forall>w. \<not> free_run (kv_cells kv) w (ub_n_tokens ub)"
proof (cases "ub_n_tokens ub > kv_size kv")
  case True
  then have none: "\<forall>w. \<not> free_run (kv_cells kv) w (ub_n_tokens ub)"
    using kv_okD(1) [OF assms(1)] by (simp add: free_run_def)
  show ?thesis
    using full [of "slot_start ub kv"] none slot_start_le [OF assms(1), of ub] True
    by (simp add: find_slot_def)
next
  case le: False
  note ok = kv_okD [OF assms(1)]
  obtain f h where loop: "find_loop (2 * kv_size kv + 2) (kv_cells kv) (kv_size kv)
      (ub_n_tokens ub) (slot_start ub kv) 0 = Some (f, h)" "h \<le> kv_size kv"
      "if f then free_run (kv_cells kv) h (ub_n_tokens ub)
       else \<forall>w. \<not> free_run (kv_cells kv) w (ub_n_tokens ub)"
    using find_loop_from_start [OF ok(1,2) _ slot_start_le [OF assms(1), of ub], of "ub_n_tokens ub"]
      le by (auto simp: not_less)
  show ?thesis
  proof (cases f)
    case True
    have run: "free_run (kv_cells kv) h (ub_n_tokens ub)" using loop(3) True by simp
    then have "h + ub_n_tokens ub \<le> kv_size kv" using ok(1) by (simp add: free_run_def)
    then have exact: "u32_add h (ub_n_tokens ub) = h + ub_n_tokens ub"
      "u32_add (kv_used kv) (ub_n_tokens ub) = kv_used kv + ub_n_tokens ub"
      using ok occupied_le_length [of "kv_cells kv"] by (auto intro!: u32_add_exact)
    define kv1 where "kv1 = kv\<lparr>kv_head := h, kv_cells := place_tokens h ub (kv_cells kv),
      kv_used := u32_add (kv_used kv) (ub_n_tokens ub),
      kv_pending := kv_pending kv @ [(h, u32_add h (ub_n_tokens ub))]\<rparr>"
    define kv2 where "kv2 = kv1\<lparr>kv_n := min (kv_size kv)
      (max (kv_padding kv) (ggml_pad (cell_max kv1) (kv_padding kv)))\<rparr>"
    have "find_slot ub kv = Some (True, kv2)"
      using assms(2) loop(1) le True
      by (simp add: find_slot_def ub_placeable_def kv1_def kv2_def Let_def del: find_loop.simps)
    moreover have "cell_max kv2 = cell_max kv1" by (simp add: kv2_def cell_max_def)
    ultimately show ?thesis
      using found [of kv2] run exact by (simp add: kv2_def kv1_def)
  next
    case False
    then show ?thesis
      using full [of h] loop le
      by (simp add: find_slot_def del: find_loop.simps)
  qed
qed

lemma find_slot_found_ok:
  assumes "kv_ok kv" "ub_placeable ub" "find_slot ub kv = Some (True, kv')"
  shows "kv_ok kv'" "kv_abs kv' = kv_abs kv + mset (ub_entries ub)"
proof -
  note ok = kv_okD [OF assms(1)]
  show "kv_ok kv'"
    using assms(1,2)
  proof (cases rule: find_slot_cases)
    case (found k)
    then have [simp]: "k = kv'" using assms(3) by simp
    note place = cells_abs_place [OF found(2) _ assms(2)]
    show ?thesis
      by (rule kv_okI) (use found ok place in \<open>auto simp: free_run_def\<close>)
  qed (use assms(3) in simp)
  show "kv_abs kv' = kv_abs kv + mset (ub_entries ub)"
    using assms(1,2)
  proof (cases rule: find_slot_cases)
    case (found k)
    then show ?thesis
      using assms(3) cells_abs_place(1) [OF found(2) _ assms(2)] ok(5) by (simp add: kv_abs_def)
  qed (use assms(3) in simp)
qed

lemma find_slot_full_ok:
  assumes "kv_ok kv" "ub_placeable ub" "find_slot ub kv = Some (False, kv')"
  shows "kv_ok kv'" "kv_cells kv' = kv_cells kv"
  using assms(1,2)
  by (cases rule: find_slot_cases; use assms in \<open>auto simp: kv_ok_def\<close>)+

section \<open>restore and commit\<close>

definition restored :: "kv_cell \<Rightarrow> kv_cell" where
  "restored c = c\<lparr>cell_pos := -1, cell_seq_id := {}\<rparr>"

lemma restored_ok [simp]: "cell_ok (restored c)" "is_empty (restored c)"
  by (simp_all add: restored_def cell_ok_def is_empty_def)

lemma occupied_pos: "i < length cs \<Longrightarrow> \<not> is_empty (cs ! i) \<Longrightarrow> 0 < occupied cs"
  by (induction cs arbitrary: i) (auto split: nat.splits simp: nth_Cons)

lemma occupied_update:
  "i < length cs \<Longrightarrow> is_empty c \<Longrightarrow>
     occupied (cs[i := c]) = occupied cs - (if is_empty (cs ! i) then 0 else 1)"
  by (induction cs arbitrary: i)
    (auto simp: occupied_pos Suc_diff_le Suc_le_eq split: nat.splits dest: occupied_pos)

definition cells_used_ok :: "kv_cell list \<Rightarrow> nat \<Rightarrow> bool" where
  "cells_used_ok cs used = (used = occupied cs \<and> (\<forall>c \<in> set cs. cell_ok c) \<and> length cs < U32)"

lemma restore_cell_step:
  assumes "cells_used_ok cs used" "i < length cs"
  shows "restore_cell (cs, used) i = (cs[i := restored (cs ! i)], occupied (cs[i := restored (cs ! i)]))"
    "cells_used_ok (cs[i := restored (cs ! i)]) (occupied (cs[i := restored (cs ! i)]))"
proof -
  have c: "cell_ok (cs ! i)" using assms by (auto simp: cells_used_ok_def)
  have u: "used = occupied cs" "occupied cs < U32"
    using assms occupied_le_length [of cs] by (auto simp: cells_used_ok_def)
  have "1 \<le> occupied cs" if "\<not> is_empty (cs ! i)"
    using occupied_pos [OF assms(2) that] by simp
  then show "restore_cell (cs, used) i
      = (cs[i := restored (cs ! i)], occupied (cs[i := restored (cs ! i)]))"
    using cell_ok_pos [OF c] u assms(2)
    by (auto simp: restore_cell_def occupied_update restored_def [symmetric] u32_sub_exact)
  show "cells_used_ok (cs[i := restored (cs ! i)]) (occupied (cs[i := restored (cs ! i)]))"
    using assms set_update_subset_insert [of cs i "restored (cs ! i)"]
    by (auto simp: cells_used_ok_def)
qed

lemma restore_cells:
  assumes "cells_used_ok cs used" "\<forall>i \<in> set is. i < length cs" "foldl restore_cell (cs, used) is = (cs', used')"
  shows "cells_used_ok cs' used' \<and> length cs' = length cs
    \<and> (\<forall>j < length cs. cs' ! j = (if j \<in> set is then restored (cs ! j) else cs ! j))"
  using assms
proof (induction "is" arbitrary: cs used)
  case Nil
  then show ?case by simp
next
  case (Cons i "is")
  note step = restore_cell_step [OF Cons.prems(1), of i]
  have i: "i < length cs" using Cons.prems(2) by simp
  have "cells_used_ok cs' used' \<and> length cs' = length (cs[i := restored (cs ! i)])
    \<and> (\<forall>j < length (cs[i := restored (cs ! i)]). cs' ! j =
        (if j \<in> set is then restored (cs[i := restored (cs ! i)] ! j) else cs[i := restored (cs ! i)] ! j))"
    by (rule Cons.IH [OF step(2) [OF i]]) (use Cons.prems step(1) [OF i] in auto)
  moreover have "restored (restored c) = restored c" for c by (simp add: restored_def)
  ultimately show ?case using i by (simp add: nth_list_update)
qed

definition in_ranges :: "(nat \<times> nat) list \<Rightarrow> nat \<Rightarrow> bool" where
  "in_ranges rs j = (\<exists>r \<in> set rs. fst r \<le> j \<and> j < snd r)"

lemma restore_ranges:
  assumes "cells_used_ok cs used" "\<forall>r \<in> set rs. snd r \<le> length cs"
    "foldl restore_range (cs, used, nh) rs = (cs', used', nh')"
  shows "cells_used_ok cs' used' \<and> length cs' = length cs
    \<and> (\<forall>j < length cs. cs' ! j = (if in_ranges rs j then restored (cs ! j) else cs ! j))"
  using assms
proof (induction rs arbitrary: cs used nh)
  case Nil
  then show ?case by (simp add: in_ranges_def)
next
  case (Cons r rs)
  obtain c0 c1 where r: "r = (c0, c1)" by fastforce
  obtain cs1 u1 where l: "foldl restore_cell (cs, used) [c0..<c1] = (cs1, u1)" by fastforce
  have first: "cells_used_ok cs1 u1 \<and> length cs1 = length cs
    \<and> (\<forall>j < length cs. cs1 ! j = (if j \<in> set [c0..<c1] then restored (cs ! j) else cs ! j))"
    by (rule restore_cells [OF Cons.prems(1) _ l]) (use Cons.prems(2) r in auto)
  have "cells_used_ok cs' used' \<and> length cs' = length cs1
    \<and> (\<forall>j < length cs1. cs' ! j = (if in_ranges rs j then restored (cs1 ! j) else cs1 ! j))"
    by (rule Cons.IH [of cs1 u1 "min nh c0"])
      (use Cons.prems first in \<open>auto simp: r restore_range_def l\<close>)
  moreover have "restored (restored c) = restored c" for c by (simp add: restored_def)
  ultimately show ?case using first by (auto simp: in_ranges_def r)
qed

lemma kv_restore_spec:
  assumes "kv_ok kv" "\<forall>r \<in> set (kv_pending kv). snd r \<le> kv_size kv"
  shows "kv_ok (kv_restore kv)" "kv_pending (kv_restore kv) = kv_pending kv"
    "\<And>j. j < kv_size kv \<Longrightarrow> kv_cells (kv_restore kv) ! j =
       (if in_ranges (kv_pending kv) j then restored (kv_cells kv ! j) else kv_cells kv ! j)"
proof -
  note ok = kv_okD [OF assms(1)]
  obtain cs u nh where l: "foldl restore_range (kv_cells kv, kv_used kv, kv_size kv) (kv_pending kv)
      = (cs, u, nh)" by (metis prod_cases3)
  have spec: "cells_used_ok cs u \<and> length cs = length (kv_cells kv)
    \<and> (\<forall>j < length (kv_cells kv). cs ! j =
        (if in_ranges (kv_pending kv) j then restored (kv_cells kv ! j) else kv_cells kv ! j))"
    by (rule restore_ranges [OF _ _ l]) (use ok assms(2) in \<open>auto simp: cells_used_ok_def\<close>)
  have eq: "kv_restore kv = (if kv_pending kv = [] then kv
      else lower_head nh (kv\<lparr>kv_cells := cs, kv_used := u\<rparr>))"
    by (simp add: kv_restore_def l)
  have "kv_ok (lower_head nh (kv\<lparr>kv_cells := cs, kv_used := u\<rparr>))"
    using spec ok by (intro kv_okI) (auto simp: cells_used_ok_def intro: lower_head_le)
  then show "kv_ok (kv_restore kv)" using assms(1) by (simp add: eq)
  show "kv_pending (kv_restore kv) = kv_pending kv" by (simp add: eq)
  show "\<And>j. j < kv_size kv \<Longrightarrow> kv_cells (kv_restore kv) ! j =
       (if in_ranges (kv_pending kv) j then restored (kv_cells kv ! j) else kv_cells kv ! j)"
    using spec ok(1) by (cases "kv_pending kv = []") (simp_all add: eq in_ranges_def)
qed

lemma kv_restore_nothing: "kv_restore (kv_commit kv) = kv_commit kv"
  by (simp add: kv_restore_def kv_commit_def)

text \<open>
  A failed decode: what \<open>find_slot\<close> placed is taken out again, and the cache looks as before.
\<close>

lemma restore_after_find_slot:
  assumes "kv_ok kv" "kv_pending kv = []" "ub_placeable ub" "find_slot ub kv = Some (True, kv')"
  shows "kv_ok (kv_restore kv')" "kv_abs (kv_restore kv') = kv_abs kv"
    "kv_used (kv_restore kv') = kv_used kv"
proof -
  note ok' = find_slot_found_ok [OF assms(1,3,4)]
  let ?n = "ub_n_tokens ub" and ?h = "kv_head kv'"
  have found: "free_run (kv_cells kv) ?h ?n" "kv_cells kv' = place_tokens ?h ub (kv_cells kv)"
    "kv_pending kv' = [(?h, ?h + ?n)]" "kv_size kv' = kv_size kv"
    using find_slot_cases [OF assms(1,3)] assms(2,4) by force+
  have le: "?h + ?n \<le> length (kv_cells kv)" using found(1) by (simp add: free_run_def)
  have pend: "\<forall>r \<in> set (kv_pending kv'). snd r \<le> kv_size kv'"
    using le kv_okD(1) [OF assms(1)] found by simp
  note spec = kv_restore_spec [OF ok'(1) pend]
  show ok: "kv_ok (kv_restore kv')" by (rule spec)
  have cells: "kv_cells (kv_restore kv') = take ?h (kv_cells kv)
      @ map (\<lambda>k. restored (place_cell ub k (kv_cells kv ! (?h + k)))) [0..<?n]
      @ drop (?h + ?n) (kv_cells kv)"
  proof (rule window_split [OF le])
    show len: "length (kv_cells (kv_restore kv')) = length (kv_cells kv)"
      using kv_okD(1) [OF ok] kv_okD(1) [OF assms(1)] found(4)
      by (auto simp: kv_restore_def split: prod.splits if_splits)
    show "kv_cells (kv_restore kv') ! j = (if ?h \<le> j \<and> j - ?h < ?n
        then restored (place_cell ub (j - ?h) (kv_cells kv ! j)) else kv_cells kv ! j)"
      if "j < length (kv_cells kv)" for j
      using that spec(3) [of j] place_tokens_nth [of ?h ub "kv_cells kv" j] le assms(3)
        kv_okD(1) [OF assms(1)] found(2-4)
      by (auto simp: in_ranges_def ub_placeable_def less_diff_conv2)
  qed
  note free = free_window [OF found(1)]
  have "cells_abs (map (\<lambda>k. restored (place_cell ub k (kv_cells kv ! (?h + k)))) [0..<?n]) = {#}"
    by (rule cells_abs_empties) (simp add: list_all_iff)
  moreover have "cells_abs (map (\<lambda>k. kv_cells kv ! (?h + k)) [0..<?n]) = {#}"
    by (rule cells_abs_empties) (use free kv_okD(5) [OF assms(1)] in \<open>auto simp: list_all_iff\<close>)
  moreover have "cells_abs (kv_cells kv) = cells_abs (take ?h (kv_cells kv)) + cells_abs
      (map (\<lambda>k. kv_cells kv ! (?h + k)) [0..<?n]) + cells_abs (drop (?h + ?n) (kv_cells kv))"
    by (subst list_window [OF le]) (simp add: add.assoc)
  ultimately show abs: "kv_abs (kv_restore kv') = kv_abs kv"
    by (simp add: kv_abs_def cells)
  show "kv_used (kv_restore kv') = kv_used kv"
    using arg_cong [OF abs, of "size"] kv_okD(4) [OF ok] kv_okD(4) [OF assms(1)]
    by (simp add: kv_abs_def size_cells_abs)
qed

end
