(* ===== verification/KvDefrag.thy ===== *)
theory KvDefrag
  imports Prelude KvUnified KvSlot
begin

text \<open>
  Defragmentation of the unified cache: \<open>defrag_prepare\<close> moves the metadata of the last used
  cells into the holes and records the moves, \<open>build_graph_defrag\<close> copies the K and V data of
  every layer along the recorded moves, \<open>update\<close> runs both (and the K-shift) on the cache.

  The loops of \<open>defrag_prepare\<close> are the functions \<open>hole_size\<close>, \<open>back_scan\<close>, \<open>move_cells\<close> and
  \<open>defrag_loop\<close>. The tensors are functions from an element index to an element, so
  \<open>ggml_row_size(type, k)\<close> is \<open>k\<close> elements.
\<close>

section \<open>Choosing the moves\<close>

record defrag_state =
  df_cells :: "kv_cell list"
  df_ids :: "nat list"
  df_head :: nat
  df_moves :: "llama_kv_defrag_move list"

text \<open>\<^verbatim>\<open>while (i0 + nh < n_used && cells[i0 + nh].is_empty()) nh++;\<close>\<close>

function hole_size :: "kv_cell list \<Rightarrow> nat \<Rightarrow> nat \<Rightarrow> nat \<Rightarrow> nat" where
  "hole_size cs n_used i0 nh =
     (if i0 + nh < n_used \<and> is_empty (cs ! (i0 + nh)) then hole_size cs n_used i0 (nh + 1) else nh)"
  by pat_completeness auto
termination by (relation "measure (\<lambda>(cs, n_used, i0, nh). n_used - (i0 + nh))") auto

declare hole_size.simps [simp del]

text \<open>From the end, until \<open>nh\<close> cells to move are found: the index reached and the number found.\<close>

fun back_scan ::
  "kv_cell list \<Rightarrow> nat list \<Rightarrow> nat \<Rightarrow> nat \<Rightarrow> nat \<Rightarrow> nat \<Rightarrow> nat \<Rightarrow> nat \<times> nat" where
  "back_scan cs ids n_kv nh i0 i nf =
     (if i > i0
      then if is_empty (cs ! i) \<or> ids ! i \<noteq> n_kv then back_scan cs ids n_kv nh i0 (i - 1) nf
           else if nf + 1 = nh then (i, nf + 1)
           else back_scan cs ids n_kv nh i0 (i - 1) (nf + 1)
      else (i, nf))"

declare back_scan.simps [simp del]

text \<open>One cell is moved: \<open>defrag_info.moves\<close> gets a new move, or its last one grows.\<close>

definition record_move :: "bool \<Rightarrow> nat \<Rightarrow> nat \<Rightarrow> llama_kv_defrag_move list \<Rightarrow> llama_kv_defrag_move list" where
  "record_move cont src dst ms =
     (if \<not> cont then ms @ [\<lparr>mv_src = src, mv_dst = dst, mv_len = 1\<rparr>]
      else butlast ms @ [(last ms)\<lparr>mv_len := mv_len (last ms) + 1\<rparr>])"

definition move_one :: "nat \<Rightarrow> bool \<Rightarrow> nat \<Rightarrow> nat \<Rightarrow> defrag_state \<Rightarrow> defrag_state" where
  "move_one n_used cont src dst st = \<lparr>
     df_cells = (df_cells st)[dst := df_cells st ! src, src := kv_cell_new],
     df_ids = (df_ids st)[src := dst],
     df_head = n_used,
     df_moves = record_move cont src dst (df_moves st)\<rparr>"

function move_cells ::
  "nat \<Rightarrow> nat \<Rightarrow> nat \<Rightarrow> nat \<Rightarrow> nat \<Rightarrow> bool \<Rightarrow> nat \<Rightarrow> defrag_state \<Rightarrow> defrag_state" where
  "move_cells n_used n_kv i0 nh i1 cont nf st =
     (if i1 < n_kv
      then if is_empty (df_cells st ! i1) \<or> df_ids st ! i1 \<noteq> n_kv
           then move_cells n_used n_kv i0 nh (i1 + 1) False nf st
           else (let st' = move_one n_used cont i1 (i0 + nf) st in
                 if nf + 1 = nh then st'
                 else move_cells n_used n_kv i0 nh (i1 + 1) True (nf + 1) st')
      else st)"
  by pat_completeness auto
termination
  by (relation "measure (\<lambda>(n_used, n_kv, i0, nh, i1, cont, nf, st). n_kv - i1)") auto

declare move_cells.simps [simp del]

lemma hole_size_ge: "nh \<le> hole_size cs n_used i0 nh"
  by (induction cs n_used i0 nh rule: hole_size.induct) (subst hole_size.simps, auto)

text \<open>\<open>GGML_ASSERT(nf == nh)\<close> is the \<open>None\<close> of the outer loop.\<close>

function defrag_loop :: "nat \<Rightarrow> nat \<Rightarrow> nat \<Rightarrow> defrag_state \<Rightarrow> defrag_state option" where
  "defrag_loop n_used n_kv i0 st =
     (if i0 < n_used
      then if \<not> is_empty (df_cells st ! i0)
           then defrag_loop n_used n_kv (i0 + 1) (st\<lparr>df_ids := (df_ids st)[i0 := i0]\<rparr>)
           else (let nh = hole_size (df_cells st) n_used i0 1;
                     (i1, nf) = back_scan (df_cells st) (df_ids st) n_kv nh i0 (u32_sub n_kv 1) 0
                 in if nf = nh
                    then defrag_loop n_used n_kv (i0 + (nh - 1) + 1)
                           (move_cells n_used n_kv i0 nh i1 False 0 st)
                    else None)
      else Some st)"
  by pat_completeness auto
termination by (relation "measure (\<lambda>(n_used, n_kv, i0, st). n_used - i0)") auto

declare defrag_loop.simps [simp del]

definition defrag_prepare :: "kv_unified \<Rightarrow> (bool \<times> kv_unified) option" where
  "defrag_prepare kv =
     (let n_kv = cell_max kv; n_used = kv_used kv in
      case defrag_loop n_used n_kv 0
             \<lparr>df_cells = kv_cells kv, df_ids = replicate n_kv n_kv, df_head = kv_head kv, df_moves = []\<rparr> of
        None \<Rightarrow> None
      | Some st \<Rightarrow> Some (df_moves st \<noteq> [],
          kv\<lparr>kv_cells := df_cells st, kv_head := df_head st, kv_moves := df_moves st\<rparr>))"

section \<open>Moving the data\<close>

record view2d =
  vw_ne0 :: nat
  vw_ne1 :: nat
  vw_nb1 :: nat
  vw_off :: nat

definition view_at :: "view2d \<Rightarrow> nat \<Rightarrow> nat" where
  "view_at v e = vw_off v + e div vw_ne0 v * vw_nb1 v + e mod vw_ne0 v"

text \<open>\<open>ggml_cpy\<close>: the elements in the order of the source view, into the order of the destination.\<close>

definition ggml_cpy :: "view2d \<Rightarrow> view2d \<Rightarrow> (nat \<Rightarrow> 'd) \<Rightarrow> nat \<Rightarrow> 'd" where
  "ggml_cpy src dst t = foldl (\<lambda>t e. t(view_at dst e := t (view_at src e))) t [0..<vw_ne0 src * vw_ne1 src]"

record 'd kv_layer =
  ly_n_embd_k :: nat
  ly_n_embd_v :: nat
  ly_k :: "nat \<Rightarrow> 'd"
  ly_v :: "nat \<Rightarrow> 'd"

definition view_k :: "'d kv_layer \<Rightarrow> llama_kv_defrag_move \<Rightarrow> nat \<Rightarrow> view2d" where
  "view_k ly mv start = \<lparr>vw_ne0 = ly_n_embd_k ly, vw_ne1 = mv_len mv, vw_nb1 = ly_n_embd_k ly,
     vw_off = ly_n_embd_k ly * start\<rparr>"

definition view_v_src :: "bool \<Rightarrow> nat \<Rightarrow> 'd kv_layer \<Rightarrow> llama_kv_defrag_move \<Rightarrow> view2d" where
  "view_v_src flash_attn sz ly mv =
     (if flash_attn
      then \<lparr>vw_ne0 = ly_n_embd_v ly, vw_ne1 = mv_len mv, vw_nb1 = ly_n_embd_v ly,
            vw_off = ly_n_embd_v ly * mv_dst mv\<rparr>
      else \<lparr>vw_ne0 = mv_len mv, vw_ne1 = ly_n_embd_v ly, vw_nb1 = sz, vw_off = mv_src mv\<rparr>)"

definition view_v_dst :: "bool \<Rightarrow> nat \<Rightarrow> 'd kv_layer \<Rightarrow> llama_kv_defrag_move \<Rightarrow> view2d" where
  "view_v_dst flash_attn sz ly mv =
     (if flash_attn
      then \<lparr>vw_ne0 = mv_len mv, vw_ne1 = ly_n_embd_v ly, vw_nb1 = ly_n_embd_v ly, vw_off = mv_src mv\<rparr>
      else \<lparr>vw_ne0 = mv_len mv, vw_ne1 = ly_n_embd_v ly, vw_nb1 = sz, vw_off = mv_dst mv\<rparr>)"

definition layer_move :: "bool \<Rightarrow> nat \<Rightarrow> llama_kv_defrag_move \<Rightarrow> 'd kv_layer \<Rightarrow> 'd kv_layer" where
  "layer_move flash_attn sz mv ly = ly\<lparr>
     ly_k := ggml_cpy (view_k ly mv (mv_src mv)) (view_k ly mv (mv_dst mv)) (ly_k ly),
     ly_v := ggml_cpy (view_v_src flash_attn sz ly mv) (view_v_dst flash_attn sz ly mv) (ly_v ly)\<rparr>"

definition build_graph_defrag ::
  "bool \<Rightarrow> nat \<Rightarrow> llama_kv_defrag_move list \<Rightarrow> 'd kv_layer list \<Rightarrow> 'd kv_layer list" where
  "build_graph_defrag flash_attn sz moves layers =
     foldl (\<lambda>ls mv. map (layer_move flash_attn sz mv) ls) layers moves"

section \<open>update\<close>

text \<open>The chunks of at most \<open>max_moves\<close> moves; with \<open>max_moves = 0\<close> the loop would not advance.\<close>

function move_chunks :: "nat \<Rightarrow> 'm list \<Rightarrow> 'm list list option" where
  "move_chunks max_moves ms =
     (if ms = [] then Some []
      else if max_moves = 0 then None
      else map_option ((#) (take max_moves ms)) (move_chunks max_moves (drop max_moves ms)))"
  by pat_completeness auto
termination by (relation "measure (\<lambda>(max_moves, ms). length ms)") auto

declare move_chunks.simps [simp del]

text \<open>
  \<open>shift_k\<close> stands for the K-shift graph (the rotary embedding of \<open>build_rope_shift\<close> by the
  deltas of the cells), \<open>max_moves\<close> for the bound computed from the graph size. \<open>None\<close> is the
  abort, a failed assertion or the endless loop; otherwise the cache and the tensors afterwards.
\<close>

definition apply_shift ::
  "(int list \<Rightarrow> 'd kv_layer list \<Rightarrow> 'd kv_layer list) \<Rightarrow> bool \<Rightarrow> kv_unified \<times> 'd kv_layer list
     \<Rightarrow> (kv_unified \<times> 'd kv_layer list) option" where
  "apply_shift shift_k rope = (\<lambda>(kv, layers).
     if kv_has_shift kv then
       if \<not> kv_can_shift kv then None
       else Some (kv\<lparr>kv_has_shift := False, kv_cells := map (\<lambda>c. c\<lparr>cell_delta := 0\<rparr>) (kv_cells kv)\<rparr>,
                  if rope then shift_k (map cell_delta (kv_cells kv)) layers else layers)
     else Some (kv, layers))"

definition apply_defrag ::
  "bool \<Rightarrow> nat \<Rightarrow> kv_unified \<times> 'd kv_layer list \<Rightarrow> (kv_unified \<times> 'd kv_layer list) option" where
  "apply_defrag flash_attn max_moves = (\<lambda>(kv, layers).
     if kv_do_defrag kv then
       case defrag_prepare kv of
         None \<Rightarrow> None
       | Some (False, kv') \<Rightarrow> Some (kv', layers)
       | Some (True, kv') \<Rightarrow>
           (case move_chunks max_moves (kv_moves kv') of
              None \<Rightarrow> None
            | Some chunks \<Rightarrow> Some (kv'\<lparr>kv_do_defrag := False\<rparr>,
                foldl (\<lambda>ls chunk. build_graph_defrag flash_attn (kv_size kv) chunk ls) layers chunks))
     else Some (kv, layers))"

definition kv_update ::
  "(int list \<Rightarrow> 'd kv_layer list \<Rightarrow> 'd kv_layer list) \<Rightarrow> bool \<Rightarrow> bool \<Rightarrow> nat
     \<Rightarrow> kv_unified \<times> 'd kv_layer list \<Rightarrow> (kv_unified \<times> 'd kv_layer list) option" where
  "kv_update shift_k rope flash_attn max_moves st =
     Option.bind (apply_shift shift_k rope st) (apply_defrag flash_attn max_moves)"

section \<open>The cells with their data\<close>

text \<open>
  \<open>D i\<close> is the data of cell \<open>i\<close>. What defragmentation must keep is the multiset of the
  occupied cells together with their data.
\<close>

definition occ :: "kv_cell list \<Rightarrow> nat set" where
  "occ cs = {i. i < length cs \<and> \<not> is_empty (cs ! i)}"

definition cell_data :: "kv_cell list \<Rightarrow> (nat \<Rightarrow> 'd) \<Rightarrow> (kv_cell \<times> 'd) multiset" where
  "cell_data cs D = image_mset (\<lambda>i. (cs ! i, D i)) (mset_set (occ cs))"

definition move_rows :: "llama_kv_defrag_move \<Rightarrow> (nat \<Rightarrow> 'd) \<Rightarrow> nat \<Rightarrow> 'd" where
  "move_rows mv D i =
     (if mv_dst mv \<le> i \<and> i < mv_dst mv + mv_len mv then D (mv_src mv + (i - mv_dst mv)) else D i)"

definition moved :: "llama_kv_defrag_move list \<Rightarrow> (nat \<Rightarrow> 'd) \<Rightarrow> nat \<Rightarrow> 'd" where
  "moved ms D = foldl (\<lambda>D mv. move_rows mv D) D ms"

lemma finite_occ [simp]: "finite (occ cs)"
  by (simp add: occ_def)

lemma card_occ: "card (occ cs) = occupied cs"
  by (simp add: occ_def occupied_def length_filter_conv_card)

lemma size_cell_data: "size (cell_data cs D) = occupied cs"
  by (simp add: cell_data_def card_occ)

lemma occ_move:
  assumes "src < length cs" "dst < length cs" "src \<noteq> dst" "is_empty (cs ! dst)" "\<not> is_empty (cs ! src)"
  shows "occ (cs[dst := cs ! src, src := kv_cell_new]) = insert dst (occ cs - {src})"
  using assms by (auto simp: occ_def nth_list_update)

lemma cell_data_move:
  assumes "src < length cs" "dst < length cs" "src \<noteq> dst" "is_empty (cs ! dst)" "\<not> is_empty (cs ! src)"
  shows "cell_data (cs[dst := cs ! src, src := kv_cell_new]) (D(dst := D src)) = cell_data cs D"
proof -
  let ?cs = "cs[dst := cs ! src, src := kv_cell_new]"
  have o: "src \<in> occ cs" "dst \<notin> occ cs" using assms by (auto simp: occ_def)
  have same: "image_mset (\<lambda>i. (?cs ! i, (D(dst := D src)) i)) (mset_set (occ cs - {src}))
      = image_mset (\<lambda>i. (cs ! i, D i)) (mset_set (occ cs - {src}))"
    using o by (intro image_mset_cong) (auto simp: nth_list_update)
  have "cell_data ?cs (D(dst := D src)) = add_mset (cs ! src, D src)
      (image_mset (\<lambda>i. (?cs ! i, (D(dst := D src)) i)) (mset_set (occ cs - {src})))"
    using o assms by (simp add: cell_data_def occ_move)
  also have "\<dots> = add_mset (cs ! src, D src) (image_mset (\<lambda>i. (cs ! i, D i)) (mset_set (occ cs - {src})))"
    by (simp only: same)
  also have "\<dots> = cell_data cs D"
    using o by (simp add: cell_data_def mset_set.remove)
  finally show ?thesis .
qed

lemma move_rows_in:
  "mv_dst mv \<le> i \<Longrightarrow> i < mv_dst mv + mv_len mv \<Longrightarrow> move_rows mv D i = D (mv_src mv + (i - mv_dst mv))"
  by (simp only: move_rows_def simp_thms if_True)

lemma move_rows_out:
  "\<not> (mv_dst mv \<le> i \<and> i < mv_dst mv + mv_len mv) \<Longrightarrow> move_rows mv D i = D i"
  by (simp only: move_rows_def if_False)

lemma move_rows_one: "move_rows \<lparr>mv_src = src, mv_dst = dst, mv_len = 1\<rparr> D = D(dst := D src)"
  by (auto simp: move_rows_def fun_eq_iff)

lemma move_rows_grow:
  assumes "mv_dst mv + mv_len mv \<le> mv_src mv"
  shows "move_rows (mv\<lparr>mv_len := mv_len mv + 1\<rparr>) D
    = (move_rows mv D)(mv_dst mv + mv_len mv := move_rows mv D (mv_src mv + mv_len mv))"
  using assms by (auto simp: move_rows_def fun_eq_iff less_Suc_eq)

lemma moved_snoc: "moved (ms @ [mv]) D = move_rows mv (moved ms D)"
  by (simp add: moved_def)

definition mv_ok :: "nat \<Rightarrow> llama_kv_defrag_move \<Rightarrow> bool" where
  "mv_ok n mv = (mv_dst mv + mv_len mv \<le> mv_src mv \<and> mv_src mv + mv_len mv \<le> n)"

text \<open>The last move is being extended: it ends just before \<open>src\<close> and \<open>dst\<close>.\<close>

definition cont_ok :: "bool \<Rightarrow> nat \<Rightarrow> nat \<Rightarrow> llama_kv_defrag_move list \<Rightarrow> bool" where
  "cont_ok cont src dst ms = (cont \<longrightarrow> ms \<noteq> [] \<and> mv_src (last ms) + mv_len (last ms) = src
     \<and> mv_dst (last ms) + mv_len (last ms) = dst)"

lemma record_move_ok:
  assumes "cont_ok cont src dst ms" "\<forall>mv \<in> set ms. mv_ok n mv"
    "cont \<Longrightarrow> dst < mv_src (last ms)" "dst < src" "src < n"
  shows "moved (record_move cont src dst ms) D = (moved ms D)(dst := moved ms D src)"
    "cont_ok True (src + 1) (dst + 1) (record_move cont src dst ms)"
    "\<forall>mv \<in> set (record_move cont src dst ms). mv_ok n mv"
proof -
  have "moved (record_move cont src dst ms) D = (moved ms D)(dst := moved ms D src)
    \<and> cont_ok True (src + 1) (dst + 1) (record_move cont src dst ms)
    \<and> (\<forall>mv \<in> set (record_move cont src dst ms). mv_ok n mv)"
  proof (cases cont)
    case False
    then show ?thesis using assms
      by (simp add: record_move_def moved_snoc move_rows_one [simplified] cont_ok_def mv_ok_def)
  next
    case True
    then have ne: "ms \<noteq> []" using assms(1) by (simp add: cont_ok_def)
    obtain ms0 mv where ms: "ms = ms0 @ [mv]" using ne by (metis append_butlast_last_id)
    have ends: "src = mv_src mv + mv_len mv" "dst = mv_dst mv + mv_len mv"
      using True assms(1) by (auto simp: cont_ok_def ms)
    have "mv_dst mv + mv_len mv \<le> mv_src mv" using assms(2) by (simp add: ms mv_ok_def)
    then show ?thesis
      using True assms(2,3,5) ends
      by (simp add: record_move_def ms moved_snoc move_rows_grow [simplified] cont_ok_def)
        (simp add: mv_ok_def)
  qed
  then show "moved (record_move cont src dst ms) D = (moved ms D)(dst := moved ms D src)"
    "cont_ok True (src + 1) (dst + 1) (record_move cont src dst ms)"
    "\<forall>mv \<in> set (record_move cont src dst ms). mv_ok n mv" by blast+
qed

section \<open>defrag_prepare\<close>

lemma hole_size_empty:
  assumes "\<And>k. k < nh \<Longrightarrow> is_empty (cs ! (i0 + k))" "i0 + nh \<le> n_used"
  shows "\<And>k. k < hole_size cs n_used i0 nh \<Longrightarrow> is_empty (cs ! (i0 + k))"
    "i0 + hole_size cs n_used i0 nh \<le> n_used"
proof -
  have "(\<forall>k < hole_size cs n_used i0 nh. is_empty (cs ! (i0 + k)))
      \<and> i0 + hole_size cs n_used i0 nh \<le> n_used"
    using assms
  proof (induction cs n_used i0 nh rule: hole_size.induct)
    case (1 cs n_used i0 nh)
    show ?case
    proof (cases "i0 + nh < n_used \<and> is_empty (cs ! (i0 + nh))")
      case True
      have "\<And>k. k < nh + 1 \<Longrightarrow> is_empty (cs ! (i0 + k))"
        using True 1 by (auto simp: less_Suc_eq)
      then show ?thesis using 1 True by (subst (1 2) hole_size.simps) auto
    next
      case False
      then show ?thesis using 1 by (subst (1 2) hole_size.simps) auto
    qed
  qed
  then show "\<And>k. k < hole_size cs n_used i0 nh \<Longrightarrow> is_empty (cs ! (i0 + k))"
    "i0 + hole_size cs n_used i0 nh \<le> n_used" by blast+
qed

text \<open>The cells still to be moved, seen from index \<open>lo\<close> up to \<open>n_kv\<close>.\<close>

definition movable :: "kv_cell list \<Rightarrow> nat list \<Rightarrow> nat \<Rightarrow> nat \<Rightarrow> nat \<Rightarrow> nat set" where
  "movable cs ids n_kv lo hi = {i. lo \<le> i \<and> i < hi \<and> \<not> is_empty (cs ! i) \<and> ids ! i = n_kv}"

lemma finite_movable [simp]: "finite (movable cs ids n_kv lo hi)"
  by (simp add: movable_def)

lemma movable_top:
  "lo \<le> i \<Longrightarrow> movable cs ids n_kv lo (Suc i) =
     (if is_empty (cs ! i) \<or> ids ! i \<noteq> n_kv then movable cs ids n_kv lo i
      else insert i (movable cs ids n_kv lo i))"
  by (auto simp: movable_def less_Suc_eq)

lemma movable_bottom:
  "i < hi \<Longrightarrow> movable cs ids n_kv i hi =
     (if is_empty (cs ! i) \<or> ids ! i \<noteq> n_kv then movable cs ids n_kv (Suc i) hi
      else insert i (movable cs ids n_kv (Suc i) hi))"
  by (auto simp: movable_def Suc_le_eq order_le_less)

lemma not_in_movable [simp]:
  "i \<notin> movable cs ids n_kv lo i" "i \<notin> movable cs ids n_kv (Suc i) hi"
  by (auto simp: movable_def)

lemma back_scan_finds:
  assumes "nf < nh" "nh \<le> nf + card (movable cs ids n_kv (Suc i0) (Suc i))"
  shows "\<exists>j. back_scan cs ids n_kv nh i0 i nf = (j, nh) \<and> i0 < j \<and> j \<le> i
    \<and> \<not> is_empty (cs ! j) \<and> nf + card (movable cs ids n_kv j (Suc i)) = nh"
  using assms
proof (induction cs ids n_kv nh i0 i nf rule: back_scan.induct)
  case (1 cs ids n_kv nh i0 i nf)
  have "i0 < i"
  proof (rule ccontr)
    assume "\<not> i0 < i"
    then have "movable cs ids n_kv (Suc i0) (Suc i) = {}" by (auto simp: movable_def)
    then show False using 1 by simp
  qed
  then have S: "Suc (i - 1) = i" by simp
  show ?case
  proof (cases "is_empty (cs ! i) \<or> ids ! i \<noteq> n_kv")
    case True
    then have "movable cs ids n_kv lo (Suc i) = movable cs ids n_kv lo i" if "lo \<le> i" for lo
      using movable_top [OF that] by simp
    then obtain j where "back_scan cs ids n_kv nh i0 (i - 1) nf = (j, nh)" "i0 < j" "j \<le> i - 1"
      "\<not> is_empty (cs ! j)" "nf + card (movable cs ids n_kv j i) = nh"
      using 1 True \<open>i0 < i\<close> S by auto
    then show ?thesis
      using True \<open>i0 < i\<close> movable_top [of j i cs ids n_kv] by (subst back_scan.simps) auto
  next
    case False
    then have mt: "card (movable cs ids n_kv lo (Suc i)) = Suc (card (movable cs ids n_kv lo i))"
      if "lo \<le> i" for lo
      using movable_top [OF that] by simp
    show ?thesis
    proof (cases "nf + 1 = nh")
      case True
      moreover have "movable cs ids n_kv i i = {}" by (auto simp: movable_def)
      ultimately show ?thesis
        using False \<open>i0 < i\<close> mt [of i] by (subst back_scan.simps) auto
    next
      case more: False
      then obtain j where "back_scan cs ids n_kv nh i0 (i - 1) (nf + 1) = (j, nh)" "i0 < j" "j \<le> i - 1"
        "\<not> is_empty (cs ! j)" "nf + 1 + card (movable cs ids n_kv j i) = nh"
        using 1 False \<open>i0 < i\<close> S mt [of "Suc i0"] by auto
      then show ?thesis
        using more False \<open>i0 < i\<close> mt [of j] by (subst back_scan.simps) auto
    qed
  qed
qed

text \<open>
  What holds while the hole \<open>[i0, i0 + nh)\<close> is being filled: its first \<open>nf\<close> cells are full, and
  as many cells are left to be moved as are still empty.
\<close>

definition filling ::
  "(nat \<Rightarrow> 'd) \<Rightarrow> (kv_cell \<times> 'd) multiset \<Rightarrow> nat \<Rightarrow> nat \<Rightarrow> nat \<Rightarrow> nat \<Rightarrow> defrag_state \<Rightarrow> bool" where
  "filling D M n_kv i0 nh nf st =
     (n_kv \<le> length (df_cells st)
    \<and> (\<forall>k < nh. is_empty (df_cells st ! (i0 + k)) \<longleftrightarrow> nf \<le> k)
    \<and> (\<forall>mv \<in> set (df_moves st). mv_ok n_kv mv)
    \<and> cell_data (df_cells st) (moved (df_moves st) D) = M
    \<and> (\<forall>i. i0 + nh \<le> i \<and> i < n_kv \<and> \<not> is_empty (df_cells st ! i) \<longrightarrow> df_ids st ! i = n_kv)
    \<and> (\<forall>c \<in> set (df_cells st). cell_ok c))"

lemma move_one_filling:
  fixes n_used :: nat
  assumes fill: "filling D M n_kv i0 nh nf st" and nf: "nf < nh" and i1: "i0 + nh \<le> i1" "i1 < n_kv"
    and c: "cont_ok cont i1 (i0 + nf) (df_moves st)" "cont \<Longrightarrow> i0 + nh \<le> mv_src (last (df_moves st))"
    and ne: "\<not> is_empty (df_cells st ! i1)"
  defines "st' \<equiv> move_one n_used cont i1 (i0 + nf) st"
  shows "filling D M n_kv i0 nh (nf + 1) st'" "cont_ok True (i1 + 1) (i0 + (nf + 1)) (df_moves st')"
    "i0 + nh \<le> mv_src (last (df_moves st'))" "df_moves st' \<noteq> []" "df_head st' = n_used"
    "length (df_cells st') = length (df_cells st)"
    "\<And>i. i < i0 \<or> n_kv \<le> i \<Longrightarrow> df_cells st' ! i = df_cells st ! i"
    "movable (df_cells st') (df_ids st') n_kv (i1 + 1) n_kv
      = movable (df_cells st) (df_ids st) n_kv (i1 + 1) n_kv"
proof -
  let ?dst = "i0 + nf"
  have len: "n_kv \<le> length (df_cells st)"
    and hole: "\<And>k. k < nh \<Longrightarrow> is_empty (df_cells st ! (i0 + k)) \<longleftrightarrow> nf \<le> k"
    and mvs: "\<forall>mv \<in> set (df_moves st). mv_ok n_kv mv"
    and M: "cell_data (df_cells st) (moved (df_moves st) D) = M"
    and ids: "\<And>i. i0 + nh \<le> i \<Longrightarrow> i < n_kv \<Longrightarrow> \<not> is_empty (df_cells st ! i) \<Longrightarrow> df_ids st ! i = n_kv"
    and ok: "\<forall>c \<in> set (df_cells st). cell_ok c"
    using fill by (auto simp: filling_def)
  have lt: "?dst < i1" "i1 < length (df_cells st)" using nf i1 len by auto
  have de: "is_empty (df_cells st ! ?dst)" using hole [OF nf] by simp
  have "cont \<Longrightarrow> ?dst < mv_src (last (df_moves st))" using c(2) nf by linarith
  note rec = record_move_ok [OF c(1) mvs this lt(1) i1(2)]
  have data: "cell_data (df_cells st') (moved (df_moves st') D) = M"
    using cell_data_move [of i1 "df_cells st" ?dst "moved (df_moves st) D"] lt de ne M rec(1) [of D]
    by (simp add: st'_def move_one_def)
  have "df_cells st ! i1 \<in> set (df_cells st)" using lt by simp
  then have ok': "\<forall>c \<in> set (df_cells st'). cell_ok c"
    using ok by (auto simp: st'_def move_one_def dest!: subsetD [OF set_update_subset_insert])
  have hole': "is_empty (df_cells st' ! (i0 + k)) \<longleftrightarrow> nf + 1 \<le> k" if "k < nh" for k
    using hole [OF that] that i1 lt nf ne by (auto simp: st'_def move_one_def nth_list_update)
  show "filling D M n_kv i0 nh (nf + 1) st'"
    unfolding filling_def
  proof (intro conjI allI impI; (elim conjE)?)
    fix i assume i: "i0 + nh \<le> i" "i < n_kv" "\<not> is_empty (df_cells st' ! i)"
    then have "i \<noteq> i1" "i \<noteq> ?dst" using nf lt by (auto simp: st'_def move_one_def)
    then show "df_ids st' ! i = n_kv" using ids [of i] i by (simp add: st'_def move_one_def)
  qed (use hole' rec(3) data ok' len in \<open>auto simp: st'_def move_one_def\<close>)
  show "cont_ok True (i1 + 1) (i0 + (nf + 1)) (df_moves st')"
    using rec(2) by (simp add: st'_def move_one_def)
  show "i0 + nh \<le> mv_src (last (df_moves st'))"
    using c(2) i1(1) by (auto simp: st'_def move_one_def record_move_def)
  show "df_moves st' \<noteq> []" by (simp add: st'_def move_one_def record_move_def)
  show "df_head st' = n_used" "length (df_cells st') = length (df_cells st)"
    by (simp_all add: st'_def move_one_def)
  show "\<And>i. i < i0 \<or> n_kv \<le> i \<Longrightarrow> df_cells st' ! i = df_cells st ! i"
    using i1 nf by (auto simp: st'_def move_one_def nth_list_update)
  show "movable (df_cells st') (df_ids st') n_kv (i1 + 1) n_kv
      = movable (df_cells st) (df_ids st) n_kv (i1 + 1) n_kv"
    using lt by (auto simp: movable_def st'_def move_one_def nth_list_update)
qed

lemma move_cells_fills:
  fixes n_used :: nat
  assumes "filling D M n_kv i0 nh nf st" "nf < nh" "i0 + nh \<le> i1" "i1 \<le> n_kv"
    and "cont_ok cont i1 (i0 + nf) (df_moves st)" "cont \<longrightarrow> i0 + nh \<le> mv_src (last (df_moves st))"
    and "nf + card (movable (df_cells st) (df_ids st) n_kv i1 n_kv) = nh"
  defines "st' \<equiv> move_cells n_used n_kv i0 nh i1 cont nf st"
  shows "filling D M n_kv i0 nh nh st' \<and> df_moves st' \<noteq> [] \<and> df_head st' = n_used
    \<and> length (df_cells st') = length (df_cells st)
    \<and> (\<forall>i. i < i0 \<or> n_kv \<le> i \<longrightarrow> df_cells st' ! i = df_cells st ! i)"
  using assms(1-7) unfolding st'_def
proof (induction n_used n_kv i0 nh i1 cont nf st rule: move_cells.induct)
  case (1 n_used n_kv i0 nh i1 cont nf st)
  have lt: "i1 < n_kv"
  proof (rule ccontr)
    assume "\<not> i1 < n_kv"
    then have "movable (df_cells st) (df_ids st) n_kv i1 n_kv = {}" by (auto simp: movable_def)
    then show False using 1(4,9) by simp
  qed
  show ?case
  proof (cases "is_empty (df_cells st ! i1) \<or> df_ids st ! i1 \<noteq> n_kv")
    case True
    then have "move_cells n_used n_kv i0 nh i1 cont nf st = move_cells n_used n_kv i0 nh (i1 + 1) False nf st"
      using lt by (subst move_cells.simps) simp
    moreover have "nf + card (movable (df_cells st) (df_ids st) n_kv (i1 + 1) n_kv) = nh"
      using 1(9) movable_bottom [OF lt] True by simp
    ultimately show ?thesis using 1(1) [OF lt True] 1(3-6) lt by (simp add: cont_ok_def)
  next
    case False
    let ?st = "move_one n_used cont i1 (i0 + nf) st"
    have ne: "\<not> is_empty (df_cells st ! i1)" using False by simp
    have c: "cont \<Longrightarrow> i0 + nh \<le> mv_src (last (df_moves st))" using 1(8) by simp
    note step = move_one_filling [OF 1(3,4,5) lt 1(7) c ne, where n_used = n_used]
    have eq: "move_cells n_used n_kv i0 nh i1 cont nf st =
        (if nf + 1 = nh then ?st else move_cells n_used n_kv i0 nh (i1 + 1) True (nf + 1) ?st)"
      using lt False by (subst move_cells.simps) (simp add: Let_def)
    show ?thesis
    proof (cases "nf + 1 = nh")
      case True
      have eq': "move_cells n_used n_kv i0 nh i1 cont nf st = ?st" using eq True by simp
      show ?thesis unfolding eq'
        using step(1) [unfolded True] step(4-7) by simp
    next
      case more: False
      have "nf + 1 + card (movable (df_cells ?st) (df_ids ?st) n_kv (i1 + 1) n_kv) = nh"
        using 1(9) movable_bottom [OF lt] False step(8) by simp
      then have "filling D M n_kv i0 nh nh (move_cells n_used n_kv i0 nh (i1 + 1) True (nf + 1) ?st)
        \<and> df_moves (move_cells n_used n_kv i0 nh (i1 + 1) True (nf + 1) ?st) \<noteq> []
        \<and> df_head (move_cells n_used n_kv i0 nh (i1 + 1) True (nf + 1) ?st) = n_used
        \<and> length (df_cells (move_cells n_used n_kv i0 nh (i1 + 1) True (nf + 1) ?st)) = length (df_cells ?st)
        \<and> (\<forall>i. i < i0 \<or> n_kv \<le> i \<longrightarrow>
            df_cells (move_cells n_used n_kv i0 nh (i1 + 1) True (nf + 1) ?st) ! i = df_cells ?st ! i)"
        using 1(2) [OF lt False refl more step(1)] step(2,3) more 1(4,5) lt by simp
      then show ?thesis using eq more step(6,7) by simp
    qed
  qed
qed

definition defragging ::
  "(nat \<Rightarrow> 'd) \<Rightarrow> (kv_cell \<times> 'd) multiset \<Rightarrow> nat \<Rightarrow> nat \<Rightarrow> nat \<Rightarrow> defrag_state \<Rightarrow> bool" where
  "defragging D M n_used n_kv i0 st =
     (n_used \<le> n_kv \<and> n_kv \<le> length (df_cells st) \<and> n_kv < U32
    \<and> (\<forall>i < i0. \<not> is_empty (df_cells st ! i))
    \<and> (\<forall>i. n_kv \<le> i \<and> i < length (df_cells st) \<longrightarrow> is_empty (df_cells st ! i))
    \<and> occupied (df_cells st) = n_used
    \<and> (\<forall>i. i0 \<le> i \<and> i < n_kv \<and> \<not> is_empty (df_cells st ! i) \<longrightarrow> df_ids st ! i = n_kv)
    \<and> (\<forall>mv \<in> set (df_moves st). mv_ok n_kv mv)
    \<and> cell_data (df_cells st) (moved (df_moves st) D) = M
    \<and> (\<forall>c \<in> set (df_cells st). cell_ok c))"

lemma defragging_movable:
  assumes inv: "defragging D M n_used n_kv i0 st" and i0: "i0 < n_used" "is_empty (df_cells st ! i0)"
  shows "card (movable (df_cells st) (df_ids st) n_kv (Suc i0) n_kv) = n_used - i0"
proof -
  let ?mv = "movable (df_cells st) (df_ids st) n_kv (Suc i0) n_kv"
  have "occ (df_cells st) = {..<i0} \<union> ?mv"
  proof (intro set_eqI iffI)
    fix i assume "i \<in> occ (df_cells st)"
    then have i: "i < length (df_cells st)" "\<not> is_empty (df_cells st ! i)" by (auto simp: occ_def)
    then have "i < n_kv" "i \<noteq> i0" using inv i0(2) by (auto simp: defragging_def not_less)
    then show "i \<in> {..<i0} \<union> ?mv" using inv i(2) by (auto simp: defragging_def movable_def not_less Suc_le_eq)
  next
    fix i assume i: "i \<in> {..<i0} \<union> ?mv"
    have "n_kv \<le> length (df_cells st)" "n_used \<le> n_kv" using inv by (simp_all add: defragging_def)
    moreover have "i < n_kv \<and> \<not> is_empty (df_cells st ! i)"
    proof (cases "i < i0")
      case True
      then have "\<not> is_empty (df_cells st ! i)" using inv by (simp add: defragging_def)
      then show ?thesis using True i0(1) \<open>n_used \<le> n_kv\<close> by simp
    qed (use i in \<open>simp add: movable_def\<close>)
    ultimately show "i \<in> occ (df_cells st)" by (simp add: occ_def)
  qed
  moreover have "{..<i0} \<inter> ?mv = {}" by (auto simp: movable_def)
  ultimately have "card (occ (df_cells st)) = i0 + card ?mv"
    by (simp add: card_Un_disjoint)
  moreover have "occupied (df_cells st) = n_used" using inv by (simp add: defragging_def)
  ultimately show ?thesis by (simp add: card_occ)
qed

lemma defrag_hole:
  assumes inv: "defragging D M n_used n_kv i0 st" and i0: "i0 < n_used" "is_empty (df_cells st ! i0)"
  defines "nh \<equiv> hole_size (df_cells st) n_used i0 1"
  obtains i1 where
    "back_scan (df_cells st) (df_ids st) n_kv nh i0 (u32_sub n_kv 1) 0 = (i1, nh)"
    "defragging D M n_used n_kv (i0 + nh) (move_cells n_used n_kv i0 nh i1 False 0 st)"
    "1 \<le> nh" "df_moves (move_cells n_used n_kv i0 nh i1 False 0 st) \<noteq> []"
    "length (df_cells (move_cells n_used n_kv i0 nh i1 False 0 st)) = length (df_cells st)"
    "df_head (move_cells n_used n_kv i0 nh i1 False 0 st) = n_used"
proof -
  have le: "n_used \<le> n_kv" "n_kv \<le> length (df_cells st)" "n_kv < U32"
    and front: "\<And>i. i < i0 \<Longrightarrow> \<not> is_empty (df_cells st ! i)"
    and beyond: "\<And>i. n_kv \<le> i \<Longrightarrow> i < length (df_cells st) \<Longrightarrow> is_empty (df_cells st ! i)"
    and ids: "\<And>i. i0 \<le> i \<Longrightarrow> i < n_kv \<Longrightarrow> \<not> is_empty (df_cells st ! i) \<Longrightarrow> df_ids st ! i = n_kv"
    and rest: "\<forall>mv \<in> set (df_moves st). mv_ok n_kv mv" "\<forall>c \<in> set (df_cells st). cell_ok c"
      "cell_data (df_cells st) (moved (df_moves st) D) = M" "occupied (df_cells st) = n_used"
    using inv by (auto simp: defragging_def)
  have hole: "\<And>k. k < nh \<Longrightarrow> is_empty (df_cells st ! (i0 + k))" "i0 + nh \<le> n_used" "1 \<le> nh"
    unfolding nh_def using hole_size_empty [of 1 "df_cells st" i0 n_used] i0 hole_size_ge by auto
  have S: "Suc (u32_sub n_kv 1) = n_kv"
    using le i0(1) by (subst u32_sub_exact) auto
  have "nh \<le> card (movable (df_cells st) (df_ids st) n_kv (Suc i0) n_kv)"
    using defragging_movable [OF inv i0] hole(2) by simp
  then obtain i1 where i1: "back_scan (df_cells st) (df_ids st) n_kv nh i0 (u32_sub n_kv 1) 0 = (i1, nh)"
      "i0 < i1" "i1 \<le> u32_sub n_kv 1" "\<not> is_empty (df_cells st ! i1)"
      "card (movable (df_cells st) (df_ids st) n_kv i1 n_kv) = nh"
    using back_scan_finds [of 0 nh "df_cells st" "df_ids st" n_kv i0 "u32_sub n_kv 1"] hole(3) S by auto
  have far: "i0 + nh \<le> i1"
  proof (rule ccontr)
    assume "\<not> i0 + nh \<le> i1"
    then have "is_empty (df_cells st ! (i0 + (i1 - i0)))" using i1(2) by (intro hole(1)) simp
    then show False using i1(2,4) by simp
  qed
  let ?st = "move_cells n_used n_kv i0 nh i1 False 0 st"
  have "filling D M n_kv i0 nh 0 st"
    using le rest hole ids by (auto simp: filling_def)
  then have "filling D M n_kv i0 nh nh ?st \<and> df_moves ?st \<noteq> [] \<and> df_head ?st = n_used
    \<and> length (df_cells ?st) = length (df_cells st)
    \<and> (\<forall>i. i < i0 \<or> n_kv \<le> i \<longrightarrow> df_cells ?st ! i = df_cells st ! i)"
    by (rule move_cells_fills) (use far i1 hole(3) S in \<open>auto simp: cont_ok_def\<close>)
  then have f: "filling D M n_kv i0 nh nh ?st"  "df_moves ?st \<noteq> []" "df_head ?st = n_used" "length (df_cells ?st) = length (df_cells st)"
    "\<And>i. i < i0 \<or> n_kv \<le> i \<Longrightarrow> df_cells ?st ! i = df_cells st ! i" by auto
  have data: "cell_data (df_cells ?st) (moved (df_moves ?st) D) = M"
    using f(1) by (simp add: filling_def)
  have "occupied (df_cells ?st) = n_used"
    using arg_cong [OF trans [OF data rest(3) [symmetric]], of size] rest(4) by (simp add: size_cell_data)
  moreover have "\<not> is_empty (df_cells ?st ! i)" if "i < i0 + nh" for i
  proof (cases "i < i0")
    case False
    then have "i = i0 + (i - i0)" "i - i0 < nh" using that by auto
    then show ?thesis using f(1) unfolding filling_def by (metis linorder_not_le)
  qed (use f(5) front in simp)
  ultimately have "defragging D M n_used n_kv (i0 + nh) ?st"
    using f data le beyond by (auto simp: defragging_def filling_def)
  then show ?thesis using that i1(1) hole(3) f(2,3,4) by blast
qed

lemma defrag_loop_ok:
  assumes "defragging D M n_used n_kv i0 st" "i0 \<le> n_used"
  shows "\<exists>st'. defrag_loop n_used n_kv i0 st = Some st' \<and> length (df_cells st') = length (df_cells st)
     \<and> defragging D M n_used n_kv n_used st' \<and> (df_moves st \<noteq> [] \<longrightarrow> df_moves st' \<noteq> [])
     \<and> (df_moves st' = [] \<longrightarrow> df_cells st' = df_cells st)
     \<and> (df_head st' = df_head st \<or> df_head st' = n_used)"
  using assms
proof (induction n_used n_kv i0 st rule: defrag_loop.induct)
  case (1 n_used n_kv i0 st)
  show ?case
  proof (cases "i0 < n_used")
    case False
    then show ?thesis using 1(3,4) by (subst defrag_loop.simps) simp
  next
    case lt: True
    show ?thesis
    proof (cases "is_empty (df_cells st ! i0)")
      case False
      let ?st = "st\<lparr>df_ids := (df_ids st)[i0 := i0]\<rparr>"
      have "defragging D M n_used n_kv (i0 + 1) ?st"
        using 1(3) False by (auto simp: defragging_def less_Suc_eq Suc_le_eq)
      moreover have "defrag_loop n_used n_kv i0 st = defrag_loop n_used n_kv (i0 + 1) ?st"
        using lt False by (subst defrag_loop.simps) simp
      ultimately show ?thesis using 1(1) [OF lt False] lt by simp
    next
      case True
      define nh where "nh = hole_size (df_cells st) n_used i0 1"
      obtain i1 where h: "back_scan (df_cells st) (df_ids st) n_kv nh i0 (u32_sub n_kv 1) 0 = (i1, nh)"
        "defragging D M n_used n_kv (i0 + nh) (move_cells n_used n_kv i0 nh i1 False 0 st)"
        "1 \<le> nh" "df_moves (move_cells n_used n_kv i0 nh i1 False 0 st) \<noteq> []"
        "length (df_cells (move_cells n_used n_kv i0 nh i1 False 0 st)) = length (df_cells st)"
        "df_head (move_cells n_used n_kv i0 nh i1 False 0 st) = n_used"
        using defrag_hole [OF 1(3) lt True] unfolding nh_def by metis
      have next_i: "i0 + (nh - 1) + 1 = i0 + nh" using h(3) by simp
      have le: "i0 + nh \<le> n_used"
        unfolding nh_def using hole_size_empty(2) [of 1 "df_cells st" i0 n_used] lt True by simp
      have "defrag_loop n_used n_kv i0 st
          = defrag_loop n_used n_kv (i0 + nh) (move_cells n_used n_kv i0 nh i1 False 0 st)"
        using lt True h(1) next_i
        by (subst defrag_loop.simps) (simp add: nh_def [symmetric, simplified] Let_def)
      moreover obtain st' where "defrag_loop n_used n_kv (i0 + nh) (move_cells n_used n_kv i0 nh i1 False 0 st) = Some st'"
         "length (df_cells st') = length (df_cells (move_cells n_used n_kv i0 nh i1 False 0 st))"
         "defragging D M n_used n_kv n_used st'" "df_moves st' \<noteq> []"
         "df_head st' = n_used"
        using 1(2) [OF lt _ nh_def h(1) [symmetric] refl, unfolded next_i] True h(2,4,6) le by auto
      ultimately show ?thesis using h(5) by simp
    qed
  qed
qed

lemma cell_max_from_le: "cell_max_from cs n \<le> n"
  by (induction n) (simp_all add: le_SucI)

lemma cell_max_from_above:
  "cell_max_from cs n \<le> i \<Longrightarrow> i < n \<Longrightarrow> cell_pos (cs ! i) < 0 \<or> is_empty (cs ! i)"
  by (induction n) (auto simp: less_Suc_eq split: if_splits)

lemmas cell_max_from_spec = cell_max_from_le cell_max_from_above

lemma occupied_le_cell_max:
  assumes "kv_ok kv"
  shows "occupied (kv_cells kv) \<le> cell_max kv"
proof -
  note ok = kv_okD [OF assms]
  have "occ (kv_cells kv) \<subseteq> {..<cell_max kv}"
  proof
    fix i assume i: "i \<in> occ (kv_cells kv)"
    then have "cell_ok (kv_cells kv ! i)" using ok(5) by (simp add: occ_def)
    then have "cell_pos (kv_cells kv ! i) \<ge> 0" using i cell_ok_pos by (simp add: occ_def)
    then show "i \<in> {..<cell_max kv}"
      using i ok(1) cell_max_from_above [of "kv_cells kv" "kv_size kv" i]
      by (force simp: occ_def cell_max_def not_less)
  qed
  then have "card (occ (kv_cells kv)) \<le> card {..<cell_max kv}" by (intro card_mono) simp_all
  then show ?thesis by (simp add: card_occ)
qed

text \<open>
  Defragmentation never fails its assertion. Afterwards the occupied cells are the first
  \<open>used\<close> ones, each with its data; without moves nothing has changed.
\<close>

lemma defrag_prepare_ok:
  assumes "kv_ok kv"
  shows "\<exists>b kv'. defrag_prepare kv = Some (b, kv') \<and> kv_ok kv'
    \<and> (\<forall>i < kv_size kv. is_empty (kv_cells kv' ! i) \<longleftrightarrow> kv_used kv \<le> i)
    \<and> cell_data (kv_cells kv') (moved (kv_moves kv') D) = cell_data (kv_cells kv) D
    \<and> (\<forall>mv \<in> set (kv_moves kv'). mv_ok (kv_size kv) mv)
    \<and> (b \<longleftrightarrow> kv_moves kv' \<noteq> []) \<and> (\<not> b \<longrightarrow> kv_cells kv' = kv_cells kv)
    \<and> kv_used kv' = kv_used kv \<and> kv_size kv' = kv_size kv \<and> kv_pending kv' = kv_pending kv"
proof -
  note ok = kv_okD [OF assms]
  let ?n_kv = "cell_max kv" and ?cs = "kv_cells kv"
  let ?st = "\<lparr>df_cells = ?cs, df_ids = replicate ?n_kv ?n_kv, df_head = kv_head kv, df_moves = []\<rparr>"
  have nk: "?n_kv \<le> kv_size kv" by (simp add: cell_max_def cell_max_from_le)
  have beyond: "is_empty (?cs ! i)" if "?n_kv \<le> i" "i < kv_size kv" for i
    using cell_max_from_above [of ?cs "kv_size kv" i] free_cell [of "?cs ! i"] ok(1,5) that
    by (auto simp: cell_max_def)
  have "defragging D (cell_data ?cs D) (kv_used kv) ?n_kv 0 ?st"
    using ok nk beyond occupied_le_cell_max [OF assms] by (auto simp: defragging_def moved_def)
  then obtain st' where st': "defrag_loop (kv_used kv) ?n_kv 0 ?st = Some st'"
    "length (df_cells st') = length ?cs"
    "defragging D (cell_data ?cs D) (kv_used kv) ?n_kv (kv_used kv) st'"
    "df_moves st' = [] \<longrightarrow> df_cells st' = ?cs"
    "df_head st' = kv_head kv \<or> df_head st' = kv_used kv"
    using defrag_loop_ok [of D "cell_data ?cs D" "kv_used kv" ?n_kv 0 ?st] by force
  let ?kv = "kv\<lparr>kv_cells := df_cells st', kv_head := df_head st', kv_moves := df_moves st'\<rparr>"
  have prep: "defrag_prepare kv = Some (df_moves st' \<noteq> [], ?kv)"
    by (simp add: defrag_prepare_def st'(1))
  have "occupied (df_cells st') = kv_used kv" using st'(3) by (simp add: defragging_def)
  then have card: "card (occ (df_cells st')) = kv_used kv" by (simp add: card_occ)
  have "kv_used kv \<le> length (df_cells st')"
    using st'(2) ok(4) occupied_le_length [of ?cs] by simp
  then have "{..<kv_used kv} \<subseteq> occ (df_cells st')"
    using st'(3) by (auto simp: defragging_def occ_def)
  with card have eq: "{..<kv_used kv} = occ (df_cells st')" by (intro card_subset_eq) simp_all
  have "is_empty (df_cells st' ! i) \<longleftrightarrow> kv_used kv \<le> i" if "i < kv_size kv" for i
  proof -
    have "i \<in> {..<kv_used kv} \<longleftrightarrow> i \<in> occ (df_cells st')" by (simp only: eq)
    then show ?thesis using st'(2) ok(1) that by (simp add: occ_def) linarith
  qed
  then have "\<forall>i < kv_size kv. is_empty (df_cells st' ! i) \<longleftrightarrow> kv_used kv \<le> i" by simp
  moreover have "kv_ok ?kv"
    using st'(2,3,5) ok occupied_le_length [of ?cs] by (intro kv_okI) (auto simp: defragging_def)
  moreover have "cell_data (df_cells st') (moved (df_moves st') D) = cell_data ?cs D"
    "\<forall>mv \<in> set (df_moves st'). mv_ok (kv_size kv) mv"
    using st'(3) nk by (auto simp: defragging_def mv_ok_def)
  ultimately show ?thesis
    using st'(4)
    by (intro exI [of _ "df_moves st' \<noteq> []"] exI [of _ ?kv] conjI)
      (simp_all add: prep)
qed

section \<open>The data moves with the cells\<close>

lemma ggml_cpy_other:
  assumes "\<And>e. e < vw_ne0 src * vw_ne1 src \<Longrightarrow> x \<noteq> view_at dst e"
  shows "ggml_cpy src dst t x = t x"
proof -
  have "foldl (\<lambda>t e. t(view_at dst e := t (view_at src e))) t es x = t x"
    if "\<forall>e \<in> set es. x \<noteq> view_at dst e" for es
    using that by (induction es arbitrary: t) auto
  then show ?thesis using assms by (simp add: ggml_cpy_def)
qed

text \<open>When no destination element is a source element or written twice, the copy is exact.\<close>

lemma ggml_cpy_at:
  assumes "e < vw_ne0 src * vw_ne1 src"
    and inj: "\<And>d. d < vw_ne0 src * vw_ne1 src \<Longrightarrow> view_at dst d = view_at dst e \<Longrightarrow> d = e"
    and sep: "\<And>d. d < vw_ne0 src * vw_ne1 src \<Longrightarrow> view_at dst d \<noteq> view_at src e"
  shows "ggml_cpy src dst t (view_at dst e) = t (view_at src e)"
proof -
  let ?f = "\<lambda>t e. t(view_at dst e := t (view_at src e))"
  have keep: "foldl ?f t es x = t x" if "\<forall>e \<in> set es. x \<noteq> view_at dst e" for es x and t :: "nat \<Rightarrow> 'a"
    using that by (induction es arbitrary: t) auto
  let ?n = "vw_ne0 src * vw_ne1 src"
  have split: "[0..<?n] = [0..<e] @ e # [Suc e..<?n]"
    using assms(1) upt_add_eq_append [of 0 e "?n - e"] by (simp add: upt_conv_Cons)
  have "foldl ?f t [0..<e] (view_at src e) = t (view_at src e)"
  proof (rule keep, intro ballI notI)
    fix d assume "d \<in> set [0..<e]" "view_at src e = view_at dst d"
    then show False using sep [of d] assms(1) by simp
  qed
  moreover have "\<forall>d \<in> set [Suc e..<?n]. view_at dst e \<noteq> view_at dst d"
  proof (intro ballI notI)
    fix d assume "d \<in> set [Suc e..<?n]" "view_at dst e = view_at dst d"
    then show False using inj [of d] by simp
  qed
  ultimately show ?thesis unfolding ggml_cpy_def split by (simp add: keep)
qed

text \<open>The data of one cell: its row of K and, the V cache being transposed, its column of V.\<close>

definition k_row :: "'d kv_layer \<Rightarrow> nat \<Rightarrow> 'd list" where
  "k_row ly i = map (\<lambda>e. ly_k ly (ly_n_embd_k ly * i + e)) [0..<ly_n_embd_k ly]"

definition v_col :: "nat \<Rightarrow> 'd kv_layer \<Rightarrow> nat \<Rightarrow> 'd list" where
  "v_col sz ly i = map (\<lambda>j. ly_v ly (j * sz + i)) [0..<ly_n_embd_v ly]"

lemma mult_div_pos: "0 < n \<Longrightarrow> x div n * n + x mod n = (x::nat)"
  by simp

lemma view_k_at: "0 < ly_n_embd_k ly \<Longrightarrow> view_at (view_k ly mv start) e = ly_n_embd_k ly * start + e"
  by (simp add: view_at_def view_k_def add.assoc mult_div_pos)

lemma k_row_move:
  assumes "mv_ok n mv" "0 < ly_n_embd_k ly"
  shows "k_row (layer_move False sz mv ly) i = move_rows mv (k_row ly) i"
proof -
  let ?n = "ly_n_embd_k ly"
  let ?src = "view_k ly mv (mv_src mv)" and ?dst = "view_k ly mv (mv_dst mv)"
  have ne: "vw_ne0 ?src * vw_ne1 ?src = ?n * mv_len mv" by (simp add: view_k_def)
  have apart: "?n * mv_dst mv + ?n * mv_len mv \<le> ?n * mv_src mv"
    using assms(1) by (simp add: mv_ok_def flip: add_mult_distrib2)
  have cpy: "ggml_cpy ?src ?dst (ly_k ly) (?n * i + x)
      = (if mv_dst mv \<le> i \<and> i < mv_dst mv + mv_len mv
         then ly_k ly (?n * (mv_src mv + (i - mv_dst mv)) + x) else ly_k ly (?n * i + x))" if x: "x < ?n" for x
  proof (cases "mv_dst mv \<le> i \<and> i < mv_dst mv + mv_len mv")
    case True
    define j where "j = i - mv_dst mv"
    have j: "i = mv_dst mv + j" "j < mv_len mv" using True by (auto simp: j_def)
    have "Suc j * ?n \<le> mv_len mv * ?n" using j(2) by (intro mult_le_mono1) simp
    then have e: "?n * j + x < ?n * mv_len mv" using x by (simp add: algebra_simps)
    have "ggml_cpy ?src ?dst (ly_k ly) (view_at ?dst (?n * j + x)) = ly_k ly (view_at ?src (?n * j + x))"
      by (rule ggml_cpy_at) (use e apart ne in \<open>simp_all add: view_k_at [OF assms(2)]\<close>)
    then show ?thesis using j by (simp add: view_k_at [OF assms(2)] algebra_simps)
  next
    case False
    have "?n * i + x \<noteq> view_at ?dst e" if "e < vw_ne0 ?src * vw_ne1 ?src" for e
    proof
      assume "?n * i + x = view_at ?dst e"
      then have eq: "?n * i + x = ?n * mv_dst mv + e" by (simp add: view_k_at [OF assms(2)])
      have "i = (?n * i + x) div ?n" using x by simp
      also have "\<dots> = mv_dst mv + e div ?n" using assms(2) by (simp add: eq)
      finally have "i = mv_dst mv + e div ?n" .
      moreover have "e div ?n < mv_len mv"
        using that ne assms(2) by (simp add: less_mult_imp_div_less mult.commute)
      ultimately show False using False by simp
    qed
    then have "ggml_cpy ?src ?dst (ly_k ly) (?n * i + x) = ly_k ly (?n * i + x)"
      by (rule ggml_cpy_other)
    then show ?thesis using False by (simp only: if_False)
  qed
  show ?thesis
    by (auto simp: k_row_def move_rows_def layer_move_def cpy intro!: nth_equalityI)
qed

lemma div_mod_unique:
  assumes "a * n + b = c * n + d" "b < n" "d < (n::nat)"
  shows "a = c" "b = d"
proof -
  have "a = (a * n + b) div n" using assms(2) by simp
  also have "\<dots> = c" using assms(1,3) by simp
  finally show "a = c" .
  then show "b = d" using assms(1) by simp
qed

lemma v_col_move:
  assumes "mv_ok sz mv" "i < sz"
  shows "v_col sz (layer_move False sz mv ly) i = move_rows mv (v_col sz ly) i"
proof -
  let ?n = "ly_n_embd_v ly" and ?l = "mv_len mv"
  let ?src = "view_v_src False sz ly mv" and ?dst = "view_v_dst False sz ly mv"
  have ne: "vw_ne0 ?src * vw_ne1 ?src = ?l * ?n" by (simp add: view_v_src_def)
  have at: "view_at ?src e = e div ?l * sz + (mv_src mv + e mod ?l)"
    "view_at ?dst e = e div ?l * sz + (mv_dst mv + e mod ?l)" for e
    by (simp_all add: view_at_def view_v_src_def view_v_dst_def)
  have dst: "mv_dst mv + ?l \<le> mv_src mv" and src: "mv_src mv + ?l \<le> sz" using assms(1) by (simp_all add: mv_ok_def)
  have md: "e mod ?l < ?l" if "e < ?l * ?n" for e
    using that by (cases "?l = 0") auto
  have bound: "mv_src mv + e mod ?l < sz" "mv_dst mv + e mod ?l < sz" if "e < ?l * ?n" for e
    using md [OF that] dst src by linarith+
  have cpy: "ggml_cpy ?src ?dst (ly_v ly) (j * sz + i)
      = (if mv_dst mv \<le> i \<and> i < mv_dst mv + ?l
         then ly_v ly (j * sz + (mv_src mv + (i - mv_dst mv))) else ly_v ly (j * sz + i))" if j: "j < ?n" for j
  proof (cases "mv_dst mv \<le> i \<and> i < mv_dst mv + ?l")
    case True
    define d where "d = i - mv_dst mv"
    have d: "i = mv_dst mv + d" "d < ?l" using True by (auto simp: d_def)
    have "Suc j * ?l \<le> ?n * ?l" using j by (intro mult_le_mono1) simp
    then have e: "j * ?l + d < ?l * ?n" using d(2) by (simp add: algebra_simps)
    have dm: "(j * ?l + d) div ?l = j" "(j * ?l + d) mod ?l = d" using d(2) by simp_all
    have "ggml_cpy ?src ?dst (ly_v ly) (view_at ?dst (j * ?l + d)) = ly_v ly (view_at ?src (j * ?l + d))"
    proof (rule ggml_cpy_at)
      fix c assume c: "c < vw_ne0 ?src * vw_ne1 ?src"
      then have cl: "c < ?l * ?n" by (simp add: ne)
      show "c = j * ?l + d" if "view_at ?dst c = view_at ?dst (j * ?l + d)"
      proof -
        have "c div ?l = j" "mv_dst mv + c mod ?l = mv_dst mv + d"
          using div_mod_unique [of "c div ?l" sz "mv_dst mv + c mod ?l" j "mv_dst mv + d"]
            that bound(2) [OF cl] d assms(2) by (simp_all add: at)
        then show ?thesis using div_mult_mod_eq [of c ?l] by simp
      qed
      show "view_at ?dst c \<noteq> view_at ?src (j * ?l + d)"
      proof
        assume "view_at ?dst c = view_at ?src (j * ?l + d)"
        then have "mv_dst mv + c mod ?l = mv_src mv + d"
          using div_mod_unique(2) [of "c div ?l" sz "mv_dst mv + c mod ?l" j "mv_src mv + d"]
            bound(2) [OF cl] bound(1) [OF e] d(2) by (simp add: at)
        then show False using md [OF cl] dst by linarith
      qed
    qed (use e in \<open>simp add: ne\<close>)
    then show ?thesis using d by (simp add: at dm)
  next
    case False
    have "j * sz + i \<noteq> view_at ?dst e" if "e < vw_ne0 ?src * vw_ne1 ?src" for e
    proof
      assume "j * sz + i = view_at ?dst e"
      moreover have e: "e < ?l * ?n" using that ne by simp
      ultimately have "i = mv_dst mv + e mod ?l"
        using div_mod_unique(2) [of j sz i "e div ?l" "mv_dst mv + e mod ?l"] assms(2) bound(2) [OF e]
        by (simp add: at)
      then show False using False md [OF e] by simp
    qed
    then have "ggml_cpy ?src ?dst (ly_v ly) (j * sz + i) = ly_v ly (j * sz + i)"
      by (rule ggml_cpy_other)
    then show ?thesis using False by (simp only: if_False)
  qed
  show ?thesis
    by (auto simp: v_col_def move_rows_def layer_move_def cpy intro!: nth_equalityI)
qed

text \<open>The data of cell \<open>i\<close> in every layer, and what a list of moves does to it.\<close>

definition layer_rows :: "nat \<Rightarrow> 'd kv_layer list \<Rightarrow> nat \<Rightarrow> ('d list \<times> 'd list) list" where
  "layer_rows sz layers i = map (\<lambda>ly. (k_row ly i, v_col sz ly i)) layers"

definition layers_ok :: "'d kv_layer list \<Rightarrow> bool" where
  "layers_ok layers = (\<forall>ly \<in> set layers. 0 < ly_n_embd_k ly)"

lemma move_rows_Pair: "(move_rows mv f i, move_rows mv g i) = move_rows mv (\<lambda>i. (f i, g i)) i"
  by (simp add: move_rows_def)

lemma layer_rows_move:
  assumes "mv_ok sz mv" "layers_ok layers" "i < sz"
  shows "layer_rows sz (map (layer_move False sz mv) layers) i = move_rows mv (layer_rows sz layers) i"
proof -
  have "(k_row (layer_move False sz mv ly) i, v_col sz (layer_move False sz mv ly) i)
      = move_rows mv (\<lambda>i. (k_row ly i, v_col sz ly i)) i" if "ly \<in> set layers" for ly
    using that assms by (simp add: k_row_move [where n = sz] v_col_move layers_ok_def move_rows_Pair)
  then show ?thesis
    by (cases "mv_dst mv \<le> i \<and> i < mv_dst mv + mv_len mv")
      (simp_all add: layer_rows_def move_rows_in move_rows_out)
qed

lemma moved_cong:
  assumes "\<forall>mv \<in> set ms. mv_ok sz mv" "\<And>i. i < sz \<Longrightarrow> D i = E i" "i < sz"
  shows "moved ms D i = moved ms E i"
  using assms(1,2)
proof (induction ms arbitrary: D E)
  case Nil
  then show ?case using assms(3) by (simp add: moved_def)
next
  case (Cons mv ms)
  have mv: "mv_src mv + mv_len mv \<le> sz" using Cons.prems(1) by (simp add: mv_ok_def)
  have "move_rows mv D j = move_rows mv E j" if "j < sz" for j
  proof (cases "mv_dst mv \<le> j \<and> j < mv_dst mv + mv_len mv")
    case True
    then have "mv_src mv + (j - mv_dst mv) < sz" using mv by linarith
    then have "D (mv_src mv + (j - mv_dst mv)) = E (mv_src mv + (j - mv_dst mv))"
      by (rule Cons.prems(2))
    then show ?thesis using True by (simp add: move_rows_in)
  qed (use Cons.prems(2) that in \<open>simp add: move_rows_out\<close>)
  then have "moved ms (move_rows mv D) i = moved ms (move_rows mv E) i"
    using Cons.prems(1) by (intro Cons.IH) simp_all
  then show ?case by (simp add: moved_def)
qed

lemma build_graph_defrag_rows:
  assumes "\<forall>mv \<in> set ms. mv_ok sz mv" "layers_ok layers" "i < sz"
  shows "layer_rows sz (build_graph_defrag False sz ms layers) i = moved ms (layer_rows sz layers) i"
  using assms(1,2)
proof (induction ms arbitrary: layers)
  case Nil
  then show ?case by (simp add: build_graph_defrag_def moved_def)
next
  case (Cons mv ms)
  let ?ls = "map (layer_move False sz mv) layers"
  have ok: "layers_ok ?ls" using Cons.prems(2) by (simp add: layers_ok_def layer_move_def)
  have "layer_rows sz (build_graph_defrag False sz ms ?ls) i = moved ms (layer_rows sz ?ls) i"
    using Cons.IH [OF _ ok] Cons.prems(1) by simp
  also have "\<dots> = moved ms (move_rows mv (layer_rows sz layers)) i"
    by (rule moved_cong [OF _ _ assms(3)]) (use Cons.prems layer_rows_move in auto)
  finally show ?case by (simp add: build_graph_defrag_def moved_def)
qed

lemma move_chunks_concat: "move_chunks m ms = Some chunks \<Longrightarrow> concat chunks = ms"
proof (induction m ms arbitrary: chunks rule: move_chunks.induct)
  case (1 m ms)
  show ?case
    using 1(2) 1(1) by (subst (asm) move_chunks.simps) (auto split: if_splits)
qed

lemma move_chunks_some: "0 < m \<Longrightarrow> \<exists>chunks. move_chunks m ms = Some chunks"
proof (induction m ms rule: move_chunks.induct)
  case (1 m ms)
  show ?case using 1 by (subst move_chunks.simps) auto
qed

lemma build_graph_chunks:
  "foldl (\<lambda>ls chunk. build_graph_defrag fa sz chunk ls) layers chunks
    = build_graph_defrag fa sz (concat chunks) layers"
  by (induction chunks arbitrary: layers) (simp_all add: build_graph_defrag_def)

lemma cell_data_cong:
  "(\<And>i. i < length cs \<Longrightarrow> D i = E i) \<Longrightarrow> cell_data cs D = cell_data cs E"
  by (auto simp: cell_data_def occ_def intro!: image_mset_cong)

text \<open>
  The defragmentation step of \<open>update\<close>, without flash attention: it returns, the occupied
  cells keep their K and V data in every layer, and the cache is compact.
\<close>

lemma apply_defrag_ok:
  assumes "kv_ok kv" "layers_ok layers" "0 < max_moves" "kv_do_defrag kv"
  shows "\<exists>kv' layers'. apply_defrag False max_moves (kv, layers) = Some (kv', layers') \<and> kv_ok kv'
    \<and> (\<forall>i < kv_size kv. is_empty (kv_cells kv' ! i) \<longleftrightarrow> kv_used kv \<le> i)
    \<and> cell_data (kv_cells kv') (layer_rows (kv_size kv) layers')
        = cell_data (kv_cells kv) (layer_rows (kv_size kv) layers)"
proof -
  let ?D = "layer_rows (kv_size kv) layers"
  obtain b kv1 where p: "defrag_prepare kv = Some (b, kv1)" "kv_ok kv1"
    "\<forall>i < kv_size kv. is_empty (kv_cells kv1 ! i) \<longleftrightarrow> kv_used kv \<le> i"
    "cell_data (kv_cells kv1) (moved (kv_moves kv1) ?D) = cell_data (kv_cells kv) ?D"
    "\<forall>mv \<in> set (kv_moves kv1). mv_ok (kv_size kv) mv"
    "b \<longleftrightarrow> kv_moves kv1 \<noteq> []" "kv_size kv1 = kv_size kv"
    using defrag_prepare_ok [OF assms(1)] by metis
  show ?thesis
  proof (cases b)
    case False
    then have "apply_defrag False max_moves (kv, layers) = Some (kv1, layers)"
      using p(1) assms(4) by (simp add: apply_defrag_def)
    moreover have "kv_moves kv1 = []" using False p(6) by simp
    ultimately show ?thesis using p(2-4) by (simp add: moved_def)
  next
    case True
    obtain chunks where ch: "move_chunks max_moves (kv_moves kv1) = Some chunks"
      using move_chunks_some [OF assms(3)] by blast
    let ?kv = "kv1\<lparr>kv_do_defrag := False\<rparr>"
    let ?ls = "build_graph_defrag False (kv_size kv) (kv_moves kv1) layers"
    have "apply_defrag False max_moves (kv, layers) = Some (?kv, ?ls)"
      using p(1) True ch assms(4)
      by (simp add: apply_defrag_def build_graph_chunks move_chunks_concat [OF ch])
    moreover have "kv_ok ?kv" using p(2) by (simp add: kv_ok_def)
    moreover have "cell_data (kv_cells kv1) (layer_rows (kv_size kv) ?ls)
        = cell_data (kv_cells kv1) (moved (kv_moves kv1) ?D)"
      by (rule cell_data_cong) (use build_graph_defrag_rows p(5,7) assms(2) kv_okD(1) [OF p(2)] in auto)
    ultimately show ?thesis using p(3,4) by simp
  qed
qed

section \<open>The whole of update\<close>

lemma map_delta_ok:
  assumes "kv_ok kv"
  shows "kv_ok (kv\<lparr>kv_has_shift := False, kv_cells := map (\<lambda>c. c\<lparr>cell_delta := 0\<rparr>) (kv_cells kv)\<rparr>)"
    "cells_abs (map (\<lambda>c. c\<lparr>cell_delta := 0\<rparr>) cs) = cells_abs cs"
proof -
  have [simp]: "is_empty (c\<lparr>cell_delta := 0\<rparr>) = is_empty c" for c by (simp add: is_empty_def)
  have [simp]: "cell_ok (c\<lparr>cell_delta := 0\<rparr>) = cell_ok c" for c by (simp add: cell_ok_def)
  have [simp]: "cell_entry (c\<lparr>cell_delta := 0\<rparr>) = cell_entry c" for c by (simp add: cell_entry_def)
  show "kv_ok (kv\<lparr>kv_has_shift := False, kv_cells := map (\<lambda>c. c\<lparr>cell_delta := 0\<rparr>) (kv_cells kv)\<rparr>)"
    using assms by (simp add: kv_ok_def occupied_map)
  show "cells_abs (map (\<lambda>c. c\<lparr>cell_delta := 0\<rparr>) cs) = cells_abs cs"
    by (induction cs) simp_all
qed

lemma cells_abs_cell_data: "cells_abs cs = image_mset (\<lambda>p. cell_entry (fst p)) (cell_data cs D)"
proof -
  have "cells_abs cs = image_mset (\<lambda>i. cell_entry (cs ! i)) (mset_set (occ cs))"
  proof (induction cs rule: rev_induct)
    case Nil
    then show ?case by (simp add: occ_def)
  next
    case (snoc c cs)
    have o: "occ (cs @ [c]) = (if is_empty c then occ cs else insert (length cs) (occ cs))"
      by (auto simp: occ_def nth_append less_Suc_eq)
    have "image_mset (\<lambda>i. cell_entry ((cs @ [c]) ! i)) (mset_set (occ cs))
        = image_mset (\<lambda>i. cell_entry (cs ! i)) (mset_set (occ cs))"
      by (rule image_mset_cong) (auto simp: occ_def nth_append)
    moreover have "length cs \<notin> occ cs" by (simp add: occ_def)
    ultimately show ?case using snoc by (simp add: o)
  qed
  then show ?thesis by (simp add: cell_data_def image_mset.compositionality comp_def)
qed

text \<open>
  \<open>update\<close> always returns on a cache that can shift. The positions and sequences of the
  occupied cells are the same afterwards, no shift is pending, and all deltas are zero.
\<close>

lemma kv_update_ok:
  assumes "kv_ok kv" "kv_can_shift kv" "0 < max_moves" "layers_ok layers"
    and "\<And>ds ls. layers_ok ls \<Longrightarrow> layers_ok (shift_k ds ls)"
  shows "\<exists>kv' layers'. kv_update shift_k rope False max_moves (kv, layers) = Some (kv', layers')
    \<and> kv_ok kv' \<and> kv_abs kv' = kv_abs kv \<and> (kv_has_shift kv \<longrightarrow> \<not> kv_has_shift kv')"
proof -
  define kv1 where "kv1 = (if kv_has_shift kv then kv\<lparr>kv_has_shift := False,
      kv_cells := map (\<lambda>c. c\<lparr>cell_delta := 0\<rparr>) (kv_cells kv)\<rparr> else kv)"
  define ls1 where "ls1 = (if kv_has_shift kv \<and> rope then shift_k (map cell_delta (kv_cells kv)) layers else layers)"
  have s: "apply_shift shift_k rope (kv, layers) = Some (kv1, ls1)"
    using assms(2) by (simp add: apply_shift_def kv1_def ls1_def)
  have ok1: "kv_ok kv1" "kv_abs kv1 = kv_abs kv" "layers_ok ls1" "\<not> kv_has_shift kv1"
    using assms map_delta_ok [OF assms(1)] by (auto simp: kv1_def ls1_def kv_abs_def)
  show ?thesis
  proof (cases "kv_do_defrag kv1")
    case False
    then have "kv_update shift_k rope False max_moves (kv, layers) = Some (kv1, ls1)"
      by (simp add: kv_update_def s apply_defrag_def)
    then show ?thesis using ok1 by blast
  next
    case True
    obtain kv2 ls2 where d: "apply_defrag False max_moves (kv1, ls1) = Some (kv2, ls2)" "kv_ok kv2"
      "cell_data (kv_cells kv2) (layer_rows (kv_size kv1) ls2)
        = cell_data (kv_cells kv1) (layer_rows (kv_size kv1) ls1)"
      using apply_defrag_ok [OF ok1(1,3) assms(3) True] by metis
    have "kv_abs kv2 = kv_abs kv1"
      unfolding kv_abs_def
      using cells_abs_cell_data [of "kv_cells kv2" "layer_rows (kv_size kv1) ls2"]
        cells_abs_cell_data [of "kv_cells kv1" "layer_rows (kv_size kv1) ls1"] d(3) by simp
    moreover have "kv_has_shift kv2 = kv_has_shift kv1"
      using d(1) True by (auto simp: apply_defrag_def defrag_prepare_def Let_def
          split: option.splits bool.splits prod.splits)
    ultimately show ?thesis using s d(1,2) ok1 by (simp add: kv_update_def)
  qed
qed

section \<open>Two places where the code loses data\<close>

text \<open>
  With flash attention the V cache is not transposed, and a cell's values are a row. The source
  view of the code starts at row \<open>dst\<close> and the destination view at element \<open>src\<close> of row 0, so
  the row of the moved cell is not copied.
\<close>

definition v_row :: "'d kv_layer \<Rightarrow> nat \<Rightarrow> 'd list" where
  "v_row ly i = map (\<lambda>e. ly_v ly (ly_n_embd_v ly * i + e)) [0..<ly_n_embd_v ly]"

definition demo_layer :: "nat kv_layer" where
  "demo_layer = \<lparr>ly_n_embd_k = 2, ly_n_embd_v = 2, ly_k = (\<lambda>i. i), ly_v = (\<lambda>i. i)\<rparr>"

definition demo_move :: llama_kv_defrag_move where
  "demo_move = \<lparr>mv_src = 2, mv_dst = 0, mv_len = 1\<rparr>"

lemmas demo_defs = demo_layer_def demo_move_def v_row_def k_row_def layer_move_def ggml_cpy_def
  view_at_def view_k_def view_v_src_def view_v_dst_def

text \<open>
  A micro-batch is placed in cells 2 and 3 of a cache with a hole at 1 and not committed. If the
  cache is defragmented before the decode fails, \<open>restore\<close> clears the recorded range, and the
  token that defragmentation moved out of it stays in the cache.
\<close>

definition demo_cell :: "int \<Rightarrow> kv_cell" where
  "demo_cell p = \<lparr>cell_pos = p, cell_delta = 0, cell_seq_id = {0}\<rparr>"

definition demo_kv :: kv_unified where
  "demo_kv = \<lparr>kv_head = 2, kv_size = 5, kv_used = 3, kv_n = 5,
     kv_cells = [demo_cell 0, kv_cell_new, demo_cell 1, demo_cell 2, kv_cell_new],
     kv_has_shift = False, kv_do_defrag = True, kv_can_shift = True, kv_padding = 1,
     kv_moves = [], kv_pending = [(2, 4)]\<rparr>"

lemma demo_restore_stale:
  "map_option (\<lambda>r. map cell_pos (kv_cells (kv_restore (snd r)))) (defrag_prepare demo_kv)
    = Some [0, 2, -1, -1, -1]"
proof -
  note unfolds = demo_kv_def demo_cell_def kv_cell_new_def is_empty_def upt_rec
  have m: "cell_max demo_kv = 4" by (simp add: cell_max_def unfolds eval_nat_numeral)
  show ?thesis
    by (simp add: defrag_prepare_def m) (simp add: unfolds defrag_loop.simps hole_size.simps back_scan.simps
        move_cells.simps move_one_def record_move_def kv_restore_def restore_range_def restore_cell_def
        u32_sub_exact lower_head_def Let_def, rule exI [of _ True], simp)
qed

lemma demo_flash: "v_row (layer_move True 4 demo_move demo_layer) 0 \<noteq> v_row demo_layer 2"
  by (simp add: demo_defs upt_rec)

end
