(* ===== verification/ByteIo.thy ===== *)
theory ByteIo
  imports Prelude
begin

text \<open>
  Bytes and the buffers the state is written to and read from: the little-endian layout of the
  fixed-width integers, \<open>llama_io_write_dummy\<close>, \<open>llama_io_write_buffer\<close>,
  \<open>llama_io_read_buffer\<close> (\<open>llama-context.cpp\<close>) and \<open>write_string\<close>, \<open>read_string\<close>
  (\<open>llama-io.cpp\<close>). A byte is a \<open>nat\<close>; the machine is little-endian. \<open>None\<close> is the exception
  ``unexpectedly reached end of buffer''.
\<close>

type_synonym byte = nat

section \<open>Integers\<close>

fun le_bytes :: "nat \<Rightarrow> nat \<Rightarrow> byte list" where
  "le_bytes 0 n = []"
| "le_bytes (Suc k) n = n mod 256 # le_bytes k (n div 256)"

fun le_value :: "byte list \<Rightarrow> nat" where
  "le_value [] = 0"
| "le_value (b # bs) = b + 256 * le_value bs"

definition i32_bytes :: "int \<Rightarrow> byte list" where
  "i32_bytes i = le_bytes 4 (nat (i mod 4294967296))"

definition i32_value :: "nat \<Rightarrow> int" where
  "i32_value n = (if n < 2147483648 then int n else int n - 4294967296)"

definition i32_fits :: "int \<Rightarrow> bool" where
  "i32_fits i = (-2147483648 \<le> i \<and> i < 2147483648)"

lemma length_le_bytes [simp]: "length (le_bytes k n) = k"
  by (induction k arbitrary: n) auto

lemma length_i32_bytes [simp]: "length (i32_bytes i) = 4"
  by (simp add: i32_bytes_def)

lemma le_value_bytes: "n < 256 ^ k \<Longrightarrow> le_value (le_bytes k n) = n"
proof (induction k arbitrary: n)
  case 0
  then show ?case by simp
next
  case (Suc k)
  have "n div 256 < 256 ^ k" using Suc.prems by (simp add: less_mult_imp_div_less mult.commute)
  then show ?case using Suc.IH by simp
qed

lemma i32_value_bytes: "i32_fits i \<Longrightarrow> i32_value (le_value (i32_bytes i)) = i"
proof -
  assume i: "i32_fits i"
  have "nat (i mod 4294967296) < 256 ^ 4" by simp
  then have "le_value (i32_bytes i) = nat (i mod 4294967296)"
    unfolding i32_bytes_def by (rule le_value_bytes)
  moreover have "i mod 4294967296 = (if 0 \<le> i then i else i + 4294967296)"
  proof (cases "0 \<le> i")
    case False
    have "(i + 4294967296) mod 4294967296 = i + 4294967296"
      using i False by (intro mod_pos_pos_trivial) (auto simp: i32_fits_def)
    then show ?thesis using False by simp
  qed (use i in \<open>simp add: i32_fits_def\<close>)
  ultimately show ?thesis
    using i by (cases "0 \<le> i") (auto simp: i32_value_def i32_fits_def)
qed

section \<open>Writing\<close>

text \<open>What is left of the buffer, and what has been written.\<close>

record io_write_buffer =
  wb_room :: nat
  wb_out :: "byte list"

definition io_write :: "byte list \<Rightarrow> io_write_buffer \<Rightarrow> io_write_buffer option" where
  "io_write src io =
     (if length src > wb_room io then None
      else Some (io\<lparr>wb_out := wb_out io @ src, wb_room := wb_room io - length src\<rparr>))"

definition io_written :: "io_write_buffer \<Rightarrow> nat" where
  "io_written io = length (wb_out io)"

text \<open>The dummy only counts.\<close>

definition dummy_write :: "byte list \<Rightarrow> nat \<Rightarrow> nat" where
  "dummy_write src n = n + length src"

definition string_bytes :: "byte list \<Rightarrow> byte list" where
  "string_bytes s = le_bytes 4 (length s mod U32) @ take (length s mod U32) s"

lemma io_write_append:
  "Option.bind (io_write xs io) (io_write ys) = io_write (xs @ ys) io"
  by (auto simp: io_write_def)

section \<open>Reading\<close>

definition io_read :: "nat \<Rightarrow> byte list \<Rightarrow> (byte list \<times> byte list) option" where
  "io_read n buf = (if n > length buf then None else Some (take n buf, drop n buf))"

definition read_le :: "nat \<Rightarrow> byte list \<Rightarrow> (nat \<times> byte list) option" where
  "read_le k buf = map_option (\<lambda>(v, rest). (le_value v, rest)) (io_read k buf)"

definition read_i32 :: "byte list \<Rightarrow> (int \<times> byte list) option" where
  "read_i32 buf = map_option (\<lambda>(v, rest). (i32_value v, rest)) (read_le 4 buf)"

definition read_string :: "byte list \<Rightarrow> (byte list \<times> byte list) option" where
  "read_string buf = Option.bind (read_le 4 buf) (\<lambda>(n, rest). io_read n rest)"

lemma io_read_append [simp]: "io_read (length xs) (xs @ rest) = Some (xs, rest)"
  by (simp add: io_read_def)

lemma io_read_exact: "n = length xs \<Longrightarrow> io_read n (xs @ rest) = Some (xs, rest)"
  by simp

lemma read_le_append: "n < 256 ^ k \<Longrightarrow> read_le k (le_bytes k n @ rest) = Some (n, rest)"
  using io_read_append [of "le_bytes k n" rest] by (simp add: read_le_def le_value_bytes)

lemma read_le4 [simp]: "n < U32 \<Longrightarrow> read_le 4 (le_bytes 4 n @ rest) = Some (n, rest)"
  by (rule read_le_append) simp

lemma read_i32_append [simp]: "i32_fits i \<Longrightarrow> read_i32 (i32_bytes i @ rest) = Some (i, rest)"
  using io_read_append [of "i32_bytes i" rest]
  by (simp add: read_i32_def read_le_def i32_value_bytes)

lemma read_string_roundtrip:
  "length s < U32 \<Longrightarrow> read_string (string_bytes s @ rest) = Some (s, rest)"
  by (simp add: read_string_def string_bytes_def)

lemma io_read_length: "io_read n buf = Some (v, rest) \<Longrightarrow> length v = n \<and> buf = v @ rest"
  by (auto simp: io_read_def split: if_splits)

end
