(* ===== verification/KvState.thy ===== *)
theory KvState
  imports Prelude ByteIo Batch KvUnified KvSlot KvDefrag
begin

text \<open>
  Saving and restoring the unified cache: \<open>state_write\<close>, \<open>state_read\<close> and their parts for the
  cell metadata and for the tensor data (\<open>llama-kv-cache.cpp\<close>).

  A tensor is its type and its bytes. \<open>type_traits\<close> is the table behind \<open>ggml_row_size\<close> and
  \<open>ggml_type_size\<close>. A reading function ends in one of four ways: it returns true or false, an
  exception of the reader leaves it, or an assertion (or an access outside an array) stops the
  process. The state it has reached is returned in each case, because the exception is caught
  by \<open>llama_context::state_set_data\<close> and the cache is used again.
\<close>

section \<open>State\<close>

record type_traits =
  tr_size :: "nat \<Rightarrow> nat"
  tr_blck :: "nat \<Rightarrow> nat"

definition ggml_row_size :: "type_traits \<Rightarrow> nat \<Rightarrow> nat \<Rightarrow> nat" where
  "ggml_row_size tr ty ne = tr_size tr ty * ne div tr_blck tr ty"

record st_tensor =
  tn_type :: nat
  tn_data :: "byte list"

record st_layer =
  sl_embd_k :: nat
  sl_embd_v :: nat
  sl_k :: st_tensor
  sl_v :: st_tensor

record kv_store =
  st_kv :: kv_unified
  st_v_trans :: bool
  st_layers :: "st_layer list"

definition k_size_row :: "type_traits \<Rightarrow> st_layer \<Rightarrow> nat" where
  "k_size_row tr ly = ggml_row_size tr (tn_type (sl_k ly)) (sl_embd_k ly)"

definition v_size_row :: "type_traits \<Rightarrow> st_layer \<Rightarrow> nat" where
  "v_size_row tr ly = ggml_row_size tr (tn_type (sl_v ly)) (sl_embd_v ly)"

definition v_size_el :: "type_traits \<Rightarrow> st_layer \<Rightarrow> nat" where
  "v_size_el tr ly = tr_size tr (tn_type (sl_v ly))"

section \<open>Writing\<close>

definition saved_cell :: "int \<Rightarrow> kv_cell \<Rightarrow> bool" where
  "saved_cell sid c = (sid = -1 \<and> \<not> is_empty c \<or> has_seq_id c sid)"

text \<open>The loop over the cells: the closed ranges, the number of cells, and the open range.\<close>

definition range_step ::
  "int \<Rightarrow> nat \<Rightarrow> (nat \<times> nat) list \<times> nat \<times> nat \<Rightarrow> nat \<times> kv_cell \<Rightarrow> (nat \<times> nat) list \<times> nat \<times> nat" where
  "range_step sid sz = (\<lambda>(ranges, cnt, begn) (i, c).
     if saved_cell sid c then (ranges, cnt + 1, if begn = sz then i else begn)
     else if begn \<noteq> sz then (ranges @ [(begn, i)], cnt, sz)
     else (ranges, cnt, begn))"

definition cell_ranges :: "int \<Rightarrow> kv_unified \<Rightarrow> (nat \<times> nat) list \<times> nat" where
  "cell_ranges sid kv =
     (case foldl (range_step sid (kv_size kv)) ([], 0, kv_size kv)
             (zip [0..<kv_size kv] (kv_cells kv)) of
        (ranges, cnt, begn) \<Rightarrow>
          (if begn \<noteq> kv_size kv then ranges @ [(begn, kv_size kv)] else ranges, cnt))"

definition range_cells :: "(nat \<times> nat) list \<Rightarrow> nat list" where
  "range_cells ranges = concat (map (\<lambda>r. [fst r..<snd r]) ranges)"

definition cell_meta_bytes :: "int \<Rightarrow> kv_cell \<Rightarrow> byte list" where
  "cell_meta_bytes sid c =
     (let n_seq_id = (if sid = -1 then card (cell_seq_id c) else 0)
      in i32_bytes (cell_pos c) @ le_bytes 4 n_seq_id
         @ (if n_seq_id \<noteq> 0 then concat (map i32_bytes (sorted_list_of_set (cell_seq_id c))) else []))"

definition state_write_meta :: "int \<Rightarrow> (nat \<times> nat) list \<Rightarrow> kv_unified \<Rightarrow> byte list" where
  "state_write_meta sid ranges kv =
     concat (map (\<lambda>i. cell_meta_bytes sid (kv_cells kv ! i)) (range_cells ranges))"

text \<open>\<open>write_tensor\<close> of one block per range; \<open>row\<close> bytes per cell, from byte \<open>base\<close> on.\<close>

fun write_blocks :: "byte list \<Rightarrow> nat \<Rightarrow> nat \<Rightarrow> (nat \<times> nat) list \<Rightarrow> byte list option" where
  "write_blocks data base row [] = Some []"
| "write_blocks data base row (r # rs) = do {
     b \<leftarrow> slice data (base + fst r * row) ((snd r - fst r) * row);
     bs \<leftarrow> write_blocks data base row rs;
     Some (b @ bs)
   }"

definition write_k :: "type_traits \<Rightarrow> (nat \<times> nat) list \<Rightarrow> st_layer \<Rightarrow> byte list option" where
  "write_k tr ranges ly = do {
     d \<leftarrow> write_blocks (tn_data (sl_k ly)) 0 (k_size_row tr ly) ranges;
     Some (le_bytes 4 (tn_type (sl_k ly)) @ le_bytes 8 (k_size_row tr ly) @ d)
   }"

definition write_v_rows :: "type_traits \<Rightarrow> (nat \<times> nat) list \<Rightarrow> st_layer \<Rightarrow> byte list option" where
  "write_v_rows tr ranges ly = do {
     d \<leftarrow> write_blocks (tn_data (sl_v ly)) 0 (v_size_row tr ly) ranges;
     Some (le_bytes 4 (tn_type (sl_v ly)) @ le_bytes 8 (v_size_row tr ly) @ d)
   }"

text \<open>Transposed values: one block per range for each of the \<open>n_embd_v_gqa\<close> rows.\<close>

fun write_v_cols ::
  "nat \<Rightarrow> nat \<Rightarrow> (nat \<times> nat) list \<Rightarrow> byte list \<Rightarrow> nat list \<Rightarrow> byte list option" where
  "write_v_cols sz el ranges data [] = Some []"
| "write_v_cols sz el ranges data (j # js) = do {
     b \<leftarrow> write_blocks data (j * sz * el) el ranges;
     bs \<leftarrow> write_v_cols sz el ranges data js;
     Some (b @ bs)
   }"

definition write_v_trans ::
  "type_traits \<Rightarrow> nat \<Rightarrow> (nat \<times> nat) list \<Rightarrow> st_layer \<Rightarrow> byte list option" where
  "write_v_trans tr sz ranges ly = do {
     d \<leftarrow> write_v_cols sz (v_size_el tr ly) ranges (tn_data (sl_v ly)) [0..<sl_embd_v ly];
     Some (le_bytes 4 (tn_type (sl_v ly)) @ le_bytes 4 (v_size_el tr ly) @ le_bytes 4 (sl_embd_v ly) @ d)
   }"

fun write_layers :: "(st_layer \<Rightarrow> byte list option) \<Rightarrow> st_layer list \<Rightarrow> byte list option" where
  "write_layers w [] = Some []"
| "write_layers w (ly # ls) = do { b \<leftarrow> w ly; bs \<leftarrow> write_layers w ls; Some (b @ bs) }"

definition state_write_data ::
  "type_traits \<Rightarrow> (nat \<times> nat) list \<Rightarrow> kv_store \<Rightarrow> byte list option" where
  "state_write_data tr ranges st = do {
     k \<leftarrow> write_layers (write_k tr ranges) (st_layers st);
     v \<leftarrow> write_layers (if st_v_trans st then write_v_trans tr (kv_size (st_kv st)) ranges
                        else write_v_rows tr ranges) (st_layers st);
     Some (le_bytes 4 (if st_v_trans st then 1 else 0) @ le_bytes 4 (length (st_layers st)) @ k @ v)
   }"

definition state_write :: "type_traits \<Rightarrow> int \<Rightarrow> kv_store \<Rightarrow> byte list option" where
  "state_write tr sid st =
     (case cell_ranges sid (st_kv st) of (ranges, cnt) \<Rightarrow> do {
        ensure (cnt = sum_list (map (\<lambda>r. snd r - fst r) ranges));
        d \<leftarrow> state_write_data tr ranges st;
        Some (le_bytes 4 cnt @ state_write_meta sid ranges (st_kv st) @ d)
      })"

section \<open>Reading the metadata\<close>

datatype read_exit = Rd_true | Rd_false | Rd_throw | Rd_abort

fun read_seq_ids :: "nat \<Rightarrow> int set \<Rightarrow> byte list \<Rightarrow> read_exit \<times> int set \<times> byte list" where
  "read_seq_ids 0 S buf = (Rd_true, S, buf)"
| "read_seq_ids (Suc n) S buf =
     (case read_i32 buf of
        None \<Rightarrow> (Rd_throw, S, buf)
      | Some (sid, rest) \<Rightarrow>
          if sid < 0 then (Rd_false, S, rest) else read_seq_ids n (insert sid S) rest)"

text \<open>The whole cache: \<open>n\<close> cells from cell \<open>i\<close> on.\<close>

fun read_cells :: "nat \<Rightarrow> nat \<Rightarrow> kv_cell list \<Rightarrow> byte list \<Rightarrow> read_exit \<times> kv_cell list \<times> byte list" where
  "read_cells 0 i cs buf = (Rd_true, cs, buf)"
| "read_cells (Suc n) i cs buf =
     (case read_i32 buf of
        None \<Rightarrow> (Rd_throw, cs, buf)
      | Some (pos, buf1) \<Rightarrow>
          (case read_le 4 buf1 of
             None \<Rightarrow> (Rd_throw, cs, buf1)
           | Some (n_seq_id, buf2) \<Rightarrow>
               (case read_seq_ids n_seq_id (cell_seq_id (cs ! i)) buf2 of
                  (ex, S, buf3) \<Rightarrow>
                    (let cs' = cs[i := (cs ! i)\<lparr>cell_pos := pos, cell_seq_id := S\<rparr>]
                     in if ex = Rd_true then read_cells n (i + 1) cs' buf3 else (ex, cs', buf3)))))"

text \<open>A single sequence: the positions only.\<close>

fun read_positions :: "nat \<Rightarrow> byte list \<Rightarrow> read_exit \<times> int list \<times> byte list" where
  "read_positions 0 buf = (Rd_true, [], buf)"
| "read_positions (Suc n) buf =
     (case read_i32 buf of
        None \<Rightarrow> (Rd_throw, [], buf)
      | Some (pos, buf1) \<Rightarrow>
          (case read_le 4 buf1 of
             None \<Rightarrow> (Rd_throw, [], buf1)
           | Some (n_seq_id, buf2) \<Rightarrow>
               if n_seq_id \<noteq> 0 then (Rd_false, [], buf2)
               else (case read_positions n buf2 of (ex, ps, rest) \<Rightarrow> (ex, pos # ps, rest))))"

text \<open>The micro-batch built for \<open>find_slot\<close>: \<open>reserve_ubatch\<close>, then its fields.\<close>

definition restore_ubatch :: "int \<Rightarrow> int list \<Rightarrow> unit llama_ubatch" where
  "restore_ubatch dest ps = \<lparr>ub_equal_seqs = True, ub_n_tokens = length ps,
     ub_n_seq_tokens = length ps, ub_n_seqs = 1, ub_token = Some (replicate (length ps) 0),
     ub_embd = None, ub_pos = ps, ub_n_seq_id = (replicate (length ps) 0)[0 := 1],
     ub_seq_id = (replicate (length ps) [])[0 := [dest]], ub_output = replicate (length ps) 0\<rparr>"

text \<open>The five assertions on the first and the last cell after \<open>find_slot\<close>.\<close>

definition restored_slot_ok :: "int \<Rightarrow> int list \<Rightarrow> kv_unified \<Rightarrow> bool" where
  "restored_slot_ok dest ps kv =
     (let h = kv_head kv; n = length ps; cs = kv_cells kv in
      h + n \<le> kv_size kv \<and> cell_pos (cs ! h) = ps ! 0 \<and> cell_pos (cs ! (h + n - 1)) = ps ! (n - 1)
      \<and> has_seq_id (cs ! h) dest \<and> has_seq_id (cs ! (h + n - 1)) dest)"

definition state_read_meta_seq ::
  "nat \<Rightarrow> int \<Rightarrow> kv_unified \<Rightarrow> byte list \<Rightarrow> read_exit \<times> kv_unified \<times> byte list" where
  "state_read_meta_seq cell_count dest kv buf =
     (let kv1 = seq_rm dest (-1) (-1) kv in
      case read_positions cell_count buf of (ex, ps, rest) \<Rightarrow>
        if ex \<noteq> Rd_true then (ex, kv1, rest)
        else if cell_count = 0 then (Rd_abort, kv1, rest)
        else (case find_slot (restore_ubatch dest ps) kv1 of
                None \<Rightarrow> (Rd_abort, kv1, rest)
              | Some (False, kv2) \<Rightarrow> (Rd_false, kv2, rest)
              | Some (True, kv2) \<Rightarrow>
                  (let kv3 = kv_commit kv2 in
                   if restored_slot_ok dest ps kv3 then (Rd_true, kv3, rest)
                   else (Rd_abort, kv3, rest))))"

definition state_read_meta_all ::
  "nat \<Rightarrow> kv_unified \<Rightarrow> byte list \<Rightarrow> read_exit \<times> kv_unified \<times> byte list" where
  "state_read_meta_all cell_count kv buf =
     (if cell_count > kv_size kv then (Rd_false, kv, buf)
      else let kv1 = kv_clear kv in
        case read_cells cell_count 0 (kv_cells kv1) buf of (ex, cs, rest) \<Rightarrow>
          if ex = Rd_true
          then (Rd_true, kv1\<lparr>kv_cells := cs, kv_head := 0, kv_used := cell_count\<rparr>, rest)
          else (ex, kv1\<lparr>kv_cells := cs\<rparr>, rest))"

definition state_read_meta ::
  "nat \<Rightarrow> int \<Rightarrow> kv_unified \<Rightarrow> byte list \<Rightarrow> read_exit \<times> kv_unified \<times> byte list" where
  "state_read_meta cell_count dest kv buf =
     (if dest \<noteq> -1 then state_read_meta_seq cell_count dest kv buf
      else state_read_meta_all cell_count kv buf)"

section \<open>Reading the data\<close>

text \<open>A field that must have the value this cache has.\<close>

definition read_expect :: "nat \<Rightarrow> nat \<Rightarrow> byte list \<Rightarrow> read_exit \<times> byte list" where
  "read_expect k expected buf =
     (case read_le k buf of
        None \<Rightarrow> (Rd_throw, buf)
      | Some (v, rest) \<Rightarrow> (if v = expected then Rd_true else Rd_false, rest))"

text \<open>\<open>ggml_backend_tensor_set(t, io.read(n), off, n)\<close>\<close>

definition read_block :: "nat \<Rightarrow> nat \<Rightarrow> byte list \<Rightarrow> byte list \<Rightarrow> read_exit \<times> byte list \<times> byte list" where
  "read_block off n data buf =
     (case io_read n buf of
        None \<Rightarrow> (Rd_throw, data, buf)
      | Some (b, rest) \<Rightarrow>
          (case write_run data off b of
             None \<Rightarrow> (Rd_abort, data, rest)
           | Some data' \<Rightarrow> (Rd_true, data', rest)))"

definition set_k :: "st_layer \<Rightarrow> byte list \<Rightarrow> st_layer" where
  "set_k ly d = ly\<lparr>sl_k := (sl_k ly)\<lparr>tn_data := d\<rparr>\<rparr>"

definition set_v :: "st_layer \<Rightarrow> byte list \<Rightarrow> st_layer" where
  "set_v ly d = ly\<lparr>sl_v := (sl_v ly)\<lparr>tn_data := d\<rparr>\<rparr>"

text \<open>The fields are read one after the other until one does not agree.\<close>

fun read_expects :: "(nat \<times> nat) list \<Rightarrow> byte list \<Rightarrow> read_exit \<times> byte list" where
  "read_expects [] buf = (Rd_true, buf)"
| "read_expects ((k, v) # es) buf =
     (case read_expect k v buf of
        (ex, rest) \<Rightarrow> if ex = Rd_true then read_expects es rest else (ex, rest))"

definition read_k_layer ::
  "type_traits \<Rightarrow> nat \<Rightarrow> nat \<Rightarrow> st_layer \<Rightarrow> byte list \<Rightarrow> read_exit \<times> st_layer \<times> byte list" where
  "read_k_layer tr head cell_count ly buf =
     (case read_expects [(4, tn_type (sl_k ly)), (8, k_size_row tr ly)] buf of
        (ex, b1) \<Rightarrow>
          if ex \<noteq> Rd_true \<or> cell_count = 0 then (ex, ly, b1)
          else (case read_block (head * k_size_row tr ly) (cell_count * k_size_row tr ly)
                       (tn_data (sl_k ly)) b1 of
                  (ex, d, b2) \<Rightarrow> (ex, set_k ly d, b2)))"

definition read_v_layer ::
  "type_traits \<Rightarrow> nat \<Rightarrow> nat \<Rightarrow> st_layer \<Rightarrow> byte list \<Rightarrow> read_exit \<times> st_layer \<times> byte list" where
  "read_v_layer tr head cell_count ly buf =
     (case read_expects [(4, tn_type (sl_v ly)), (8, v_size_row tr ly)] buf of
        (ex, b1) \<Rightarrow>
          if ex \<noteq> Rd_true \<or> cell_count = 0 then (ex, ly, b1)
          else (case read_block (head * v_size_row tr ly) (cell_count * v_size_row tr ly)
                       (tn_data (sl_v ly)) b1 of
                  (ex, d, b2) \<Rightarrow> (ex, set_v ly d, b2)))"

fun read_v_cols ::
  "nat \<Rightarrow> nat \<Rightarrow> nat \<Rightarrow> nat \<Rightarrow> nat list \<Rightarrow> byte list \<Rightarrow> byte list \<Rightarrow> read_exit \<times> byte list \<times> byte list" where
  "read_v_cols sz el head cell_count [] data buf = (Rd_true, data, buf)"
| "read_v_cols sz el head cell_count (j # js) data buf =
     (case read_block ((head + j * sz) * el) (cell_count * el) data buf of
        (ex, data', rest) \<Rightarrow>
          if ex = Rd_true then read_v_cols sz el head cell_count js data' rest else (ex, data', rest))"

definition read_v_trans_layer ::
  "type_traits \<Rightarrow> nat \<Rightarrow> nat \<Rightarrow> nat \<Rightarrow> st_layer \<Rightarrow> byte list \<Rightarrow> read_exit \<times> st_layer \<times> byte list" where
  "read_v_trans_layer tr sz head cell_count ly buf =
     (case read_expects [(4, tn_type (sl_v ly)), (4, v_size_el tr ly), (4, sl_embd_v ly)] buf of
        (ex, b1) \<Rightarrow>
          if ex \<noteq> Rd_true \<or> cell_count = 0 then (ex, ly, b1)
          else (case read_v_cols sz (v_size_el tr ly) head cell_count [0..<sl_embd_v ly]
                       (tn_data (sl_v ly)) b1 of
                  (ex, d, b2) \<Rightarrow> (ex, set_v ly d, b2)))"

fun read_layers ::
  "(st_layer \<Rightarrow> byte list \<Rightarrow> read_exit \<times> st_layer \<times> byte list) \<Rightarrow> st_layer list \<Rightarrow> byte list
     \<Rightarrow> read_exit \<times> st_layer list \<times> byte list" where
  "read_layers f [] buf = (Rd_true, [], buf)"
| "read_layers f (ly # ls) buf =
     (case f ly buf of
        (ex, ly', b1) \<Rightarrow>
          if ex = Rd_true then (case read_layers f ls b1 of (ex, ls', b2) \<Rightarrow> (ex, ly' # ls', b2))
          else (ex, ly' # ls, b1))"

definition state_read_data ::
  "type_traits \<Rightarrow> nat \<Rightarrow> kv_store \<Rightarrow> byte list \<Rightarrow> read_exit \<times> kv_store \<times> byte list" where
  "state_read_data tr cell_count st buf =
     (case read_le 4 buf of
        None \<Rightarrow> (Rd_throw, st, buf)
      | Some (v_trans, b1) \<Rightarrow>
          (case read_le 4 b1 of
             None \<Rightarrow> (Rd_throw, st, b1)
           | Some (n_layer, b2) \<Rightarrow>
               (let kv = st_kv st; h = kv_head kv in
                if n_layer \<noteq> length (st_layers st) \<or> cell_count > kv_size kv
                   \<or> st_v_trans st \<noteq> (v_trans \<noteq> 0)
                then (Rd_false, st, b2)
                else case read_layers (read_k_layer tr h cell_count) (st_layers st) b2 of
                  (ex, ls, b3) \<Rightarrow>
                    if ex \<noteq> Rd_true then (ex, st\<lparr>st_layers := ls\<rparr>, b3)
                    else case read_layers (if st_v_trans st
                             then read_v_trans_layer tr (kv_size kv) h cell_count
                             else read_v_layer tr h cell_count) ls b3 of
                           (ex, ls', b4) \<Rightarrow> (ex, st\<lparr>st_layers := ls'\<rparr>, b4))))"

text \<open>
  \<open>state_read\<close> undoes what it has done when a part returns false, and then throws. An exception
  of the reader itself passes through.
\<close>

definition state_read ::
  "type_traits \<Rightarrow> int \<Rightarrow> kv_store \<Rightarrow> byte list \<Rightarrow> read_exit \<times> kv_store \<times> byte list" where
  "state_read tr dest st buf =
     (case read_le 4 buf of
        None \<Rightarrow> (Rd_throw, st, buf)
      | Some (cell_count, b1) \<Rightarrow>
          (case state_read_meta cell_count dest (st_kv st) b1 of
             (ex, kv, b2) \<Rightarrow>
               (case (if ex = Rd_true then state_read_data tr cell_count (st\<lparr>st_kv := kv\<rparr>) b2
                      else (ex, st\<lparr>st_kv := kv\<rparr>, b2)) of
                  (ex2, st2, b3) \<Rightarrow>
                    if ex2 = Rd_false
                    then (Rd_throw, st2\<lparr>st_kv := (if dest = -1 then kv_clear (st_kv st2)
                                               else seq_rm dest (-1) (-1) (st_kv st2))\<rparr>, b3)
                    else (ex2, st2, b3))))"

section \<open>What is written\<close>

definition saved_cells :: "int \<Rightarrow> kv_unified \<Rightarrow> nat list" where
  "saved_cells sid kv = filter (\<lambda>i. saved_cell sid (kv_cells kv ! i)) [0..<kv_size kv]"

lemma range_fold:
  assumes "n \<le> sz" "length cs = sz"
    and "foldl (range_step sid sz) ([], 0, sz) (zip [0..<n] (take n cs)) = (ranges, cnt, begn)"
  shows "range_cells ranges @ (if begn \<noteq> sz then [begn..<n] else [])
        = filter (\<lambda>i. saved_cell sid (cs ! i)) [0..<n]
    \<and> cnt = length (filter (\<lambda>i. saved_cell sid (cs ! i)) [0..<n])
    \<and> (begn \<noteq> sz \<longrightarrow> begn < n) \<and> (\<forall>r \<in> set ranges. fst r < snd r \<and> snd r \<le> sz)"
  using assms(1,3)
proof (induction n arbitrary: ranges cnt begn)
  case 0
  then show ?case by (simp add: range_cells_def)
next
  case (Suc n)
  obtain ranges0 cnt0 begn0 where
    f: "foldl (range_step sid sz) ([], 0, sz) (zip [0..<n] (take n cs)) = (ranges0, cnt0, begn0)"
    by (metis prod_cases3)
  have t: "take (Suc n) cs = take n cs @ [cs ! n]"
    using Suc.prems(1) assms(2) by (simp add: take_Suc_conv_app_nth)
  have z: "zip [0..<Suc n] (take (Suc n) cs) = zip [0..<n] (take n cs) @ [(n, cs ! n)]"
    using Suc.prems(1) assms(2) unfolding t by simp
  have step: "(ranges, cnt, begn) = range_step sid sz (ranges0, cnt0, begn0) (n, cs ! n)"
    using Suc.prems(2) unfolding z by (simp add: f)
  note IH = Suc.IH [OF _ f]
  show ?case
    using IH step Suc.prems(1)
    by (cases "saved_cell sid (cs ! n)"; cases "begn0 = sz")
      (auto simp: range_step_def range_cells_def)
qed

lemma cell_ranges_ok:
  assumes "kv_ok kv" "cell_ranges sid kv = (ranges, cnt)"
  shows "range_cells ranges = saved_cells sid kv" "cnt = length (saved_cells sid kv)"
    "\<forall>r \<in> set ranges. fst r < snd r \<and> snd r \<le> kv_size kv"
    "cnt = sum_list (map (\<lambda>r. snd r - fst r) ranges)"
proof -
  let ?sz = "kv_size kv" and ?cs = "kv_cells kv"
  have len: "length ?cs = ?sz" using kv_okD(1) [OF assms(1)] .
  obtain ranges0 cnt0 begn0 where
    f: "foldl (range_step sid ?sz) ([], 0, ?sz) (zip [0..<?sz] ?cs) = (ranges0, cnt0, begn0)"
    by (metis prod_cases3)
  have inv: "range_cells ranges0 @ (if begn0 \<noteq> ?sz then [begn0..<?sz] else []) = saved_cells sid kv
    \<and> cnt0 = length (saved_cells sid kv) \<and> (begn0 \<noteq> ?sz \<longrightarrow> begn0 < ?sz)
    \<and> (\<forall>r \<in> set ranges0. fst r < snd r \<and> snd r \<le> ?sz)"
    using range_fold [of ?sz ?sz ?cs sid ranges0 cnt0 begn0] f len by (simp add: saved_cells_def)
  have eq: "ranges = (if begn0 \<noteq> ?sz then ranges0 @ [(begn0, ?sz)] else ranges0)" "cnt = cnt0"
    using assms(2) f by (auto simp: cell_ranges_def)
  show rc: "range_cells ranges = saved_cells sid kv" "cnt = length (saved_cells sid kv)"
    "\<forall>r \<in> set ranges. fst r < snd r \<and> snd r \<le> ?sz"
    using inv by (auto simp: eq range_cells_def)
  have "length (range_cells ranges) = sum_list (map (\<lambda>r. snd r - fst r) ranges)"
    by (simp add: range_cells_def length_concat comp_def)
  then show "cnt = sum_list (map (\<lambda>r. snd r - fst r) ranges)"
    using rc by simp
qed

text \<open>The block of a tensor that belongs to an index, and how blocks are written and read.\<close>

definition chunk :: "nat \<Rightarrow> byte list \<Rightarrow> nat \<Rightarrow> byte list" where
  "chunk row data i = take row (drop (i * row) data)"

lemma chunk_length: "(i + 1) * row \<le> length data \<Longrightarrow> length (chunk row data i) = row"
  by (simp add: chunk_def)

lemma slice_chunks:
  "a + n * row \<le> length data \<Longrightarrow>
     take (n * row) (drop a data) = concat (map (\<lambda>k. take row (drop (a + k * row) data)) [0..<n])"
proof (induction n)
  case 0
  then show ?case by simp
next
  case (Suc n)
  then have "take (n * row) (drop a data) = concat (map (\<lambda>k. take row (drop (a + k * row) data)) [0..<n])"
    by simp
  moreover have "take (Suc n * row) (drop a data)
      = take (n * row) (drop a data) @ take row (drop (a + n * row) data)"
  proof -
    have e: "Suc n * row = n * row + row" by simp
    show ?thesis unfolding e take_add drop_drop by (simp add: add.commute)
  qed
  ultimately show ?case by simp
qed

lemma write_blocks_ok:
  assumes "\<forall>r \<in> set ranges. fst r < snd r \<and> (base + snd r) * row \<le> length data"
  shows "write_blocks data (base * row) row ranges
    = Some (concat (map (\<lambda>i. chunk row data (base + i)) (range_cells ranges)))"
  using assms
proof (induction ranges)
  case Nil
  then show ?case by (simp add: range_cells_def)
next
  case (Cons r rs)
  have r: "fst r < snd r" "(base + snd r) * row \<le> length data" using Cons.prems by auto
  have sum: "base * row + fst r * row + (snd r - fst r) * row = (base + snd r) * row"
    using r(1) by (simp add: algebra_simps flip: add_mult_distrib)
  have "take ((snd r - fst r) * row) (drop (base * row + fst r * row) data)
    = concat (map (\<lambda>k. take row (drop (base * row + fst r * row + k * row) data)) [0..<snd r - fst r])"
    by (rule slice_chunks) (use sum r(2) in simp)
  also have "map (\<lambda>k. take row (drop (base * row + fst r * row + k * row) data)) [0..<snd r - fst r]
    = map (\<lambda>i. chunk row data (base + i)) [fst r..<snd r]"
    by (rule nth_equalityI) (use r(1) in \<open>auto simp: chunk_def add_mult_distrib add.assoc\<close>)
  finally show ?case
    using Cons sum r(2) by (simp add: slice_def range_cells_def)
qed

lemma chunk_concat:
  assumes "\<forall>i \<in> set is. length (f i) = row" "k < length is"
  shows "chunk row (concat (map f is)) k = f (is ! k)"
  using assms
proof (induction "is" arbitrary: k)
  case Nil
  then show ?case by simp
next
  case (Cons i "is")
  then show ?case by (cases k) (auto simp: chunk_def)
qed

lemma chunk_write_run:
  assumes "write_run data (h * row) ys = Some data'" "length ys = n * row"
  shows "chunk row data' j = (if h \<le> j \<and> j < h + n then chunk row ys (j - h) else chunk row data j)"
proof -
  have d: "data' = take (h * row) data @ ys @ drop (h * row + n * row) data"
    "h * row + n * row \<le> length data"
    using assms by (auto simp: write_run_def split: if_splits)
  consider "j < h" | "h \<le> j" "j < h + n" | "h + n \<le> j" by linarith
  then show ?thesis
  proof cases
    case 1
    then have "Suc j * row \<le> h * row" by (intro mult_le_mono1) simp
    then show ?thesis using 1 d by (simp add: chunk_def take_drop)
  next
    case 2
    define k where "k = j - h"
    have k: "j = h + k" "k < n" using 2 by (auto simp: k_def)
    have "Suc k * row \<le> n * row" using k(2) by (intro mult_le_mono1) simp
    then show ?thesis using k d assms(2) by (simp add: chunk_def add_mult_distrib)
  next
    case 3
    then obtain k where k: "j = h + n + k" using le_Suc_ex by blast
    show ?thesis using 3 d assms(2) by (simp add: chunk_def k add_mult_distrib add.commute)
  qed
qed

section \<open>The data of one layer, written and read back\<close>

definition cell_k :: "type_traits \<Rightarrow> st_layer \<Rightarrow> nat \<Rightarrow> byte list" where
  "cell_k tr ly i = chunk (k_size_row tr ly) (tn_data (sl_k ly)) i"

definition cell_v :: "type_traits \<Rightarrow> bool \<Rightarrow> nat \<Rightarrow> st_layer \<Rightarrow> nat \<Rightarrow> byte list list" where
  "cell_v tr v_trans sz ly i =
     (if v_trans then map (\<lambda>j. chunk (v_size_el tr ly) (tn_data (sl_v ly)) (j * sz + i)) [0..<sl_embd_v ly]
      else [chunk (v_size_row tr ly) (tn_data (sl_v ly)) i])"

text \<open>The tensors have the sizes the constructor allocates, and the fields fit their widths.\<close>

definition layer_ok :: "type_traits \<Rightarrow> bool \<Rightarrow> nat \<Rightarrow> st_layer \<Rightarrow> bool" where
  "layer_ok tr v_trans sz ly =
     (length (tn_data (sl_k ly)) = sz * k_size_row tr ly
    \<and> length (tn_data (sl_v ly)) = (if v_trans then sl_embd_v ly * sz * v_size_el tr ly else sz * v_size_row tr ly)
    \<and> tn_type (sl_k ly) < U32 \<and> tn_type (sl_v ly) < U32 \<and> k_size_row tr ly < 256 ^ 8
    \<and> v_size_row tr ly < 256 ^ 8 \<and> v_size_el tr ly < U32 \<and> sl_embd_v ly < U32)"

definition same_shape :: "st_layer \<Rightarrow> st_layer \<Rightarrow> bool" where
  "same_shape ly ly' = (tn_type (sl_k ly) = tn_type (sl_k ly') \<and> tn_type (sl_v ly) = tn_type (sl_v ly')
     \<and> sl_embd_k ly = sl_embd_k ly' \<and> sl_embd_v ly = sl_embd_v ly')"

lemma same_shape_sizes:
  "same_shape ly ly' \<Longrightarrow> k_size_row tr ly = k_size_row tr ly' \<and> v_size_row tr ly = v_size_row tr ly'
     \<and> v_size_el tr ly = v_size_el tr ly'"
  by (simp add: same_shape_def k_size_row_def v_size_row_def v_size_el_def)

lemma read_expect_ok: "v < 256 ^ k \<Longrightarrow> read_expect k v (le_bytes k v @ rest) = (Rd_true, rest)"
  by (simp add: read_expect_def read_le_append)

lemma read_block_chunks:
  assumes "\<forall>i \<in> set is. length (f i) = row" "n = length is" "(h + n) * row \<le> length data"
  shows "\<exists>data'. read_block (h * row) (n * row) data (concat (map f is) @ rest) = (Rd_true, data', rest)
    \<and> length data' = length data
    \<and> (\<forall>j. chunk row data' j = (if h \<le> j \<and> j < h + n then f (is ! (j - h)) else chunk row data j))"
proof -
  have len: "length (concat (map f is)) = n * row"
    using assms(1,2) by (induction "is" arbitrary: n) auto
  have "h * row + n * row \<le> length data" using assms(3) by (simp add: add_mult_distrib)
  then obtain data' where w: "write_run data (h * row) (concat (map f is)) = Some data'"
    using len by (simp add: write_run_def)
  have "read_block (h * row) (n * row) data (concat (map f is) @ rest) = (Rd_true, data', rest)"
    using w io_read_exact [OF len [symmetric], of rest] by (simp add: read_block_def)
  moreover have "chunk row data' j = (if h \<le> j \<and> j < h + n then f (is ! (j - h)) else chunk row data j)" for j
    using chunk_write_run [OF w len, of j] chunk_concat [OF assms(1), of "j - h"] assms(2) by auto
  ultimately show ?thesis using write_run_length [OF w] by blast
qed

lemma chunks_of_saved:
  "\<forall>i \<in> set is. i < sz \<Longrightarrow> length data = sz * row \<Longrightarrow> \<forall>i \<in> set is. length (chunk row data i) = row"
proof
  fix i assume *: "\<forall>i \<in> set is. i < sz" "length data = sz * row" "i \<in> set is"
  then have "Suc i * row \<le> sz * row" by (intro mult_le_mono1) (auto simp: Suc_le_eq)
  then show "length (chunk row data i) = row" using * by (intro chunk_length) simp
qed

text \<open>Keys: the layer written by \<open>write_k\<close> is read by \<open>read_k_layer\<close> to the cells from \<open>h\<close> on.\<close>

lemma read_k_layer_ok:
  assumes "layer_ok tr vt sz1 ly1" "layer_ok tr vt sz2 ly2" "same_shape ly1 ly2"
    and "\<forall>r \<in> set ranges. fst r < snd r \<and> snd r \<le> sz1" "range_cells ranges = is" "length is = n" "h + n \<le> sz2"
  shows "\<exists>bs ly'. write_k tr ranges ly1 = Some bs \<and> read_k_layer tr h n ly2 (bs @ rest) = (Rd_true, ly', rest)
    \<and> layer_ok tr vt sz2 ly' \<and> same_shape ly2 ly' \<and> sl_v ly' = sl_v ly2
    \<and> (\<forall>j. cell_k tr ly' j = (if h \<le> j \<and> j < h + n then cell_k tr ly1 (is ! (j - h)) else cell_k tr ly2 j))"
proof -
  let ?row = "k_size_row tr ly2" and ?d1 = "tn_data (sl_k ly1)" and ?d2 = "tn_data (sl_k ly2)"
  have row: "k_size_row tr ly1 = ?row" and ty: "tn_type (sl_k ly1) = tn_type (sl_k ly2)"
    using same_shape_sizes [OF assms(3)] assms(3) by (auto simp: same_shape_def)
  have len1: "length ?d1 = sz1 * ?row" and len2: "length ?d2 = sz2 * ?row"
    and fits: "tn_type (sl_k ly2) < 256 ^ 4" "?row < 256 ^ 8"
    using assms(1,2) row by (auto simp: layer_ok_def)
  have lt: "\<forall>i \<in> set is. i < sz1"
    using assms(4,5) by (fastforce simp: range_cells_def)
  have "\<forall>r \<in> set ranges. fst r < snd r \<and> (0 + snd r) * ?row \<le> length ?d1"
    using assms(4) len1 by auto
  from write_blocks_ok [OF this] have w: "write_k tr ranges ly1 = Some (le_bytes 4 (tn_type (sl_k ly2))
      @ le_bytes 8 ?row @ concat (map (chunk ?row ?d1) is))"
    by (simp add: write_k_def row ty assms(5))
  have "(h + n) * ?row \<le> length ?d2" using assms(7) len2 by simp
  from read_block_chunks [OF chunks_of_saved [OF lt len1] assms(6) [symmetric] this]
  obtain d where d: "read_block (h * ?row) (n * ?row) ?d2 (concat (map (chunk ?row ?d1) is) @ rest) = (Rd_true, d, rest)"
    "length d = length ?d2"
    "\<forall>j. chunk ?row d j = (if h \<le> j \<and> j < h + n then chunk ?row ?d1 (is ! (j - h)) else chunk ?row ?d2 j)"
    by blast
  define ly' where "ly' = (if n = 0 then ly2 else set_k ly2 d)"
  have sh: "same_shape ly2 ly'" "sl_v ly' = sl_v ly2" by (auto simp: ly'_def same_shape_def set_k_def)
  have row': "k_size_row tr ly' = ?row" using same_shape_sizes [OF sh(1)] by simp
  have "read_k_layer tr h n ly2 ((le_bytes 4 (tn_type (sl_k ly2)) @ le_bytes 8 ?row
      @ concat (map (chunk ?row ?d1) is)) @ rest) = (Rd_true, ly', rest)"
    using assms(6) d(1) fits by (auto simp: read_k_layer_def read_expect_ok ly'_def)
  moreover have "layer_ok tr vt sz2 ly'"
    using assms(2) d(2) by (auto simp: layer_ok_def ly'_def set_k_def k_size_row_def v_size_row_def v_size_el_def)
  moreover have "cell_k tr ly' j = (if h \<le> j \<and> j < h + n then cell_k tr ly1 (is ! (j - h)) else cell_k tr ly2 j)" for j
  proof (cases "n = 0")
    case False
    then show ?thesis using d(3) row' row by (auto simp: cell_k_def ly'_def set_k_def)
  qed (auto simp: ly'_def)
  ultimately show ?thesis using w sh by blast
qed

lemma read_v_layer_ok:
  assumes "layer_ok tr False sz1 ly1" "layer_ok tr False sz2 ly2" "same_shape ly1 ly2"
    and "\<forall>r \<in> set ranges. fst r < snd r \<and> snd r \<le> sz1" "range_cells ranges = is" "length is = n" "h + n \<le> sz2"
  shows "\<exists>bs ly'. write_v_rows tr ranges ly1 = Some bs \<and> read_v_layer tr h n ly2 (bs @ rest) = (Rd_true, ly', rest)
    \<and> sl_k ly' = sl_k ly2 \<and> same_shape ly2 ly'
    \<and> (\<forall>j < sz2. cell_v tr False sz2 ly' j
        = (if h \<le> j \<and> j < h + n then cell_v tr False sz1 ly1 (is ! (j - h)) else cell_v tr False sz2 ly2 j))"
proof -
  let ?row = "v_size_row tr ly2" and ?d1 = "tn_data (sl_v ly1)" and ?d2 = "tn_data (sl_v ly2)"
  have row: "v_size_row tr ly1 = ?row" and ty: "tn_type (sl_v ly1) = tn_type (sl_v ly2)"
    using same_shape_sizes [OF assms(3)] assms(3) by (auto simp: same_shape_def)
  have len1: "length ?d1 = sz1 * ?row" and len2: "length ?d2 = sz2 * ?row"
    and fits: "tn_type (sl_v ly2) < 256 ^ 4" "?row < 256 ^ 8"
    using assms(1,2) row by (auto simp: layer_ok_def)
  have lt: "\<forall>i \<in> set is. i < sz1"
    using assms(4,5) by (fastforce simp: range_cells_def)
  have "\<forall>r \<in> set ranges. fst r < snd r \<and> (0 + snd r) * ?row \<le> length ?d1"
    using assms(4) len1 by auto
  from write_blocks_ok [OF this] have w: "write_v_rows tr ranges ly1 = Some (le_bytes 4 (tn_type (sl_v ly2))
      @ le_bytes 8 ?row @ concat (map (chunk ?row ?d1) is))"
    by (simp add: write_v_rows_def row ty assms(5))
  have "(h + n) * ?row \<le> length ?d2" using assms(7) len2 by simp
  from read_block_chunks [OF chunks_of_saved [OF lt len1] assms(6) [symmetric] this]
  obtain d where d: "read_block (h * ?row) (n * ?row) ?d2 (concat (map (chunk ?row ?d1) is) @ rest) = (Rd_true, d, rest)"
    "length d = length ?d2"
    "\<forall>j. chunk ?row d j = (if h \<le> j \<and> j < h + n then chunk ?row ?d1 (is ! (j - h)) else chunk ?row ?d2 j)"
    by blast
  define ly' where "ly' = (if n = 0 then ly2 else set_v ly2 d)"
  have sh: "same_shape ly2 ly'" "sl_k ly' = sl_k ly2" by (auto simp: ly'_def same_shape_def set_v_def)
  have row': "v_size_row tr ly' = ?row" using same_shape_sizes [OF sh(1)] by simp
  have "read_v_layer tr h n ly2 ((le_bytes 4 (tn_type (sl_v ly2)) @ le_bytes 8 ?row
      @ concat (map (chunk ?row ?d1) is)) @ rest) = (Rd_true, ly', rest)"
    using assms(6) d(1) fits by (auto simp: read_v_layer_def read_expect_ok ly'_def)
  moreover have "cell_v tr False sz2 ly' j
      = (if h \<le> j \<and> j < h + n then cell_v tr False sz1 ly1 (is ! (j - h)) else cell_v tr False sz2 ly2 j)" for j
  proof (cases "n = 0")
    case False
    then show ?thesis using d(3) row' row by (auto simp: cell_v_def ly'_def set_v_def)
  qed (auto simp: ly'_def)
  ultimately show ?thesis using w sh by blast
qed

lemma write_v_cols_ok:
  assumes "\<forall>r \<in> set ranges. fst r < snd r \<and> snd r \<le> sz" "\<forall>j \<in> set js. (j + 1) * sz * el \<le> length data"
  shows "write_v_cols sz el ranges data js = Some (concat (map (\<lambda>j.
    concat (map (\<lambda>i. chunk el data (j * sz + i)) (range_cells ranges))) js))"
  using assms(2)
proof (induction js)
  case Nil
  then show ?case by simp
next
  case (Cons j js)
  have "\<forall>r \<in> set ranges. fst r < snd r \<and> (j * sz + snd r) * el \<le> length data"
  proof
    fix r assume r: "r \<in> set ranges"
    then have "(j * sz + snd r) * el \<le> (j + 1) * sz * el"
      using assms(1) by (intro mult_le_mono1) auto
    also have "\<dots> \<le> length data" using Cons.prems by simp
    finally show "fst r < snd r \<and> (j * sz + snd r) * el \<le> length data" using assms(1) r by simp
  qed
  then show ?case using Cons by (simp add: write_blocks_ok)
qed

lemma read_v_cols_ok:
  assumes "\<forall>j \<in> set js. \<forall>i \<in> set is. length (f j i) = el" "length is = n" "h + n \<le> sz"
    and "\<forall>j \<in> set js. (j + 1) * sz * el \<le> length data" "distinct js"
  shows "\<exists>data'. read_v_cols sz el h n js data (concat (map (\<lambda>j. concat (map (f j) is)) js) @ rest) = (Rd_true, data', rest)
    \<and> length data' = length data
    \<and> (\<forall>j i. i < sz \<longrightarrow> chunk el data' (j * sz + i) =
        (if j \<in> set js \<and> h \<le> i \<and> i < h + n then f j (is ! (i - h)) else chunk el data (j * sz + i)))"
  using assms(1,4,5)
proof (induction js arbitrary: data)
  case Nil
  then show ?case by simp
next
  case (Cons j0 js)
  let ?rest = "concat (map (\<lambda>j. concat (map (f j) is)) js) @ rest"
  have "(h + j0 * sz + n) * el \<le> (j0 + 1) * sz * el" using assms(3) by (intro mult_le_mono1) simp
  also have "\<dots> \<le> length data" using Cons.prems(2) by simp
  finally have le: "(h + j0 * sz + n) * el \<le> length data" .
  have lens: "\<forall>i \<in> set is. length (f j0 i) = el" using Cons.prems(1) by simp
  obtain d where d: "read_block ((h + j0 * sz) * el) (n * el) data (concat (map (f j0) is) @ ?rest) = (Rd_true, d, ?rest)"
    "length d = length data"
    "\<forall>x. chunk el d x = (if h + j0 * sz \<le> x \<and> x < h + j0 * sz + n then f j0 (is ! (x - (h + j0 * sz))) else chunk el data x)"
    using read_block_chunks [OF lens assms(2) [symmetric] le, of ?rest] by blast
  have here: "chunk el d (j * sz + i) =
      (if j = j0 \<and> h \<le> i \<and> i < h + n then f j (is ! (i - h)) else chunk el data (j * sz + i))" if "i < sz" for j i
  proof (cases "h + j0 * sz \<le> j * sz + i \<and> j * sz + i < h + j0 * sz + n")
    case True
    then obtain k where k: "j * sz + i = j0 * sz + (h + k)" "k < n"
      by (metis add.commute add.left_commute le_Suc_ex nat_add_left_cancel_less)
    have "j = j0" "i = h + k" using div_mod_unique [OF k(1) that] k(2) assms(3) by auto
    then show ?thesis using d(3) k by simp
  next
    case False
    then have out: "\<not> (j = j0 \<and> h \<le> i \<and> i < h + n)" by auto
    have "chunk el d (j * sz + i) = chunk el data (j * sz + i)"
      using d(3) [rule_format, of "j * sz + i"] unfolding if_not_P [OF False] .
    then show ?thesis using out by (simp only: if_False)
  qed
  have pre: "\<forall>j \<in> set js. \<forall>i \<in> set is. length (f j i) = el"
    "\<forall>j \<in> set js. (j + 1) * sz * el \<le> length d" "distinct js"
    using Cons.prems d(2) by auto
  obtain d' where d': "read_v_cols sz el h n js d ?rest = (Rd_true, d', rest)" "length d' = length d"
    "\<forall>j i. i < sz \<longrightarrow> chunk el d' (j * sz + i) =
        (if j \<in> set js \<and> h \<le> i \<and> i < h + n then f j (is ! (i - h)) else chunk el d (j * sz + i))"
    using Cons.IH [OF pre] by blast
  have "read_v_cols sz el h n (j0 # js) data (concat (map (\<lambda>j. concat (map (f j) is)) (j0 # js)) @ rest)
      = (Rd_true, d', rest)"
    using d(1) d'(1) by simp
  moreover have "chunk el d' (j * sz + i) = (if j \<in> set (j0 # js) \<and> h \<le> i \<and> i < h + n then f j (is ! (i - h))
      else chunk el data (j * sz + i))" if "i < sz" for j i
    using d'(3) here [OF that, of j] that Cons.prems(3) by auto
  ultimately show ?case using d(2) d'(2) by (intro exI [of _ d']) simp
qed

lemma read_v_trans_layer_ok:
  assumes "layer_ok tr True sz1 ly1" "layer_ok tr True sz2 ly2" "same_shape ly1 ly2"
    and "\<forall>r \<in> set ranges. fst r < snd r \<and> snd r \<le> sz1" "range_cells ranges = is" "length is = n" "h + n \<le> sz2"
  shows "\<exists>bs ly'. write_v_trans tr sz1 ranges ly1 = Some bs
    \<and> read_v_trans_layer tr sz2 h n ly2 (bs @ rest) = (Rd_true, ly', rest)
    \<and> sl_k ly' = sl_k ly2 \<and> same_shape ly2 ly'
    \<and> (\<forall>j < sz2. cell_v tr True sz2 ly' j
        = (if h \<le> j \<and> j < h + n then cell_v tr True sz1 ly1 (is ! (j - h)) else cell_v tr True sz2 ly2 j))"
proof -
  let ?el = "v_size_el tr ly2" and ?d1 = "tn_data (sl_v ly1)" and ?d2 = "tn_data (sl_v ly2)"
  let ?js = "[0..<sl_embd_v ly2]"
  have el: "v_size_el tr ly1 = ?el" and ty: "tn_type (sl_v ly1) = tn_type (sl_v ly2)"
    and em: "sl_embd_v ly1 = sl_embd_v ly2"
    using same_shape_sizes [OF assms(3)] assms(3) by (auto simp: same_shape_def)
  have len1: "length ?d1 = sl_embd_v ly2 * sz1 * ?el" and len2: "length ?d2 = sl_embd_v ly2 * sz2 * ?el"
    and fits: "tn_type (sl_v ly2) < 256 ^ 4" "?el < 256 ^ 4" "sl_embd_v ly2 < 256 ^ 4"
    using assms(1,2) el em by (auto simp: layer_ok_def)
  have lt: "\<forall>i \<in> set is. i < sz1"
    using assms(4,5) by (fastforce simp: range_cells_def)
  have js: "\<forall>j \<in> set ?js. (j + 1) * s * ?el \<le> sl_embd_v ly2 * s * ?el" for s
    by (auto intro!: mult_le_mono1 simp del: mult_Suc)
  define f where "f = (\<lambda>j i. chunk ?el ?d1 (j * sz1 + i))"
  have w: "write_v_trans tr sz1 ranges ly1 = Some (le_bytes 4 (tn_type (sl_v ly2)) @ le_bytes 4 ?el
      @ le_bytes 4 (sl_embd_v ly2) @ concat (map (\<lambda>j. concat (map (f j) is)) ?js))"
    using write_v_cols_ok [OF assms(4), of ?js ?el ?d1] js [of sz1] len1
    by (simp add: write_v_trans_def el ty em assms(5) f_def)
  have lens: "\<forall>j \<in> set ?js. \<forall>i \<in> set is. length (f j i) = ?el"
  proof (intro ballI)
    fix j i assume ji: "j \<in> set ?js" "i \<in> set is"
    then have "(j * sz1 + i + 1) * ?el \<le> (j + 1) * sz1 * ?el"
      using lt by (intro mult_le_mono1) (auto simp: Suc_le_eq)
    also have "\<dots> \<le> length ?d1" using js [of sz1] ji(1) len1 by simp
    finally show "length (f j i) = ?el" unfolding f_def by (intro chunk_length) simp
  qed
  have room: "\<forall>j \<in> set ?js. (j + 1) * sz2 * ?el \<le> length ?d2" using js [of sz2] len2 by simp
  obtain d where d: "read_v_cols sz2 ?el h n ?js ?d2 (concat (map (\<lambda>j. concat (map (f j) is)) ?js) @ rest) = (Rd_true, d, rest)"
    "length d = length ?d2"
    "\<forall>j i. i < sz2 \<longrightarrow> chunk ?el d (j * sz2 + i) =
        (if j \<in> set ?js \<and> h \<le> i \<and> i < h + n then f j (is ! (i - h)) else chunk ?el ?d2 (j * sz2 + i))"
    using read_v_cols_ok [OF lens assms(6,7) room distinct_upt, of rest] by blast
  define ly' where "ly' = (if n = 0 then ly2 else set_v ly2 d)"
  have sh: "same_shape ly2 ly'" "sl_k ly' = sl_k ly2" by (auto simp: ly'_def same_shape_def set_v_def)
  have el': "v_size_el tr ly' = ?el" "sl_embd_v ly' = sl_embd_v ly2"
    using same_shape_sizes [OF sh(1)] sh(1) by (auto simp: same_shape_def)
  have nz: "concat (map (\<lambda>j. concat (map (f j) is)) ?js) = []" if "n = 0"
    using that assms(6) by simp
  have "read_v_trans_layer tr sz2 h n ly2 ((le_bytes 4 (tn_type (sl_v ly2)) @ le_bytes 4 ?el
      @ le_bytes 4 (sl_embd_v ly2) @ concat (map (\<lambda>j. concat (map (f j) is)) ?js)) @ rest) = (Rd_true, ly', rest)"
    using d(1) fits nz by (auto simp: read_v_trans_layer_def read_expect_ok ly'_def)
  moreover have "cell_v tr True sz2 ly' j = (if h \<le> j \<and> j < h + n then cell_v tr True sz1 ly1 (is ! (j - h))
      else cell_v tr True sz2 ly2 j)" if "j < sz2" for j
  proof (cases "n = 0")
    case False
    then show ?thesis
      using d(3) that el' el em by (auto simp: cell_v_def ly'_def set_v_def f_def)
  qed (auto simp: ly'_def)
  ultimately show ?thesis using w sh by blast
qed

section \<open>The data of the whole cache\<close>

lemma layers_roundtrip:
  assumes "list_all2 (\<lambda>a b. \<forall>rest. \<exists>bs ly'. w a = Some bs \<and> f b (bs @ rest) = (Rd_true, ly', rest) \<and> Q a b ly') ls1 ls2"
  shows "\<exists>bs ls'. write_layers w ls1 = Some bs \<and> read_layers f ls2 (bs @ rest) = (Rd_true, ls', rest)
    \<and> length ls' = length ls2 \<and> (\<forall>i < length ls2. Q (ls1 ! i) (ls2 ! i) (ls' ! i))"
  using assms
proof (induction ls1 ls2 rule: list_all2_induct)
  case Nil
  then show ?case by simp
next
  case (Cons a as b bs2)
  obtain bs ls' where IH: "write_layers w as = Some bs" "read_layers f bs2 (bs @ rest) = (Rd_true, ls', rest)"
    "length ls' = length bs2" "\<forall>i < length bs2. Q (as ! i) (bs2 ! i) (ls' ! i)"
    using Cons.IH by blast
  obtain b1 ly' where h: "w a = Some b1" "f b (b1 @ (bs @ rest)) = (Rd_true, ly', bs @ rest)" "Q a b ly'"
    using Cons.hyps(1) by blast
  show ?case
    using IH h by (intro exI [of _ "b1 @ bs"] exI [of _ "ly' # ls'"]) (auto simp: nth_Cons split: nat.splits)
qed

definition cell_store :: "type_traits \<Rightarrow> kv_store \<Rightarrow> nat \<Rightarrow> (byte list \<times> byte list list) list" where
  "cell_store tr st i =
     map (\<lambda>ly. (cell_k tr ly i, cell_v tr (st_v_trans st) (kv_size (st_kv st)) ly i)) (st_layers st)"

definition data_ok :: "type_traits \<Rightarrow> kv_store \<Rightarrow> bool" where
  "data_ok tr st = (length (st_layers st) < U32
     \<and> list_all (layer_ok tr (st_v_trans st) (kv_size (st_kv st))) (st_layers st))"

definition store_ok :: "type_traits \<Rightarrow> kv_store \<Rightarrow> bool" where
  "store_ok tr st = (kv_ok (st_kv st) \<and> data_ok tr st \<and> list_all (\<lambda>c. i32_fits (cell_pos c) \<and> (\<forall>s \<in> cell_seq_id c. 0 \<le> s \<and> i32_fits s)
          \<and> card (cell_seq_id c) < U32) (kv_cells (st_kv st)))"

definition same_model :: "kv_store \<Rightarrow> kv_store \<Rightarrow> bool" where
  "same_model st1 st2 = (st_v_trans st1 = st_v_trans st2
     \<and> list_all2 same_shape (st_layers st1) (st_layers st2))"

lemma same_shape_trans: "same_shape a b \<Longrightarrow> same_shape b c \<Longrightarrow> same_shape a c"
  by (auto simp: same_shape_def)

lemma cell_k_sl_k: "same_shape a b \<Longrightarrow> sl_k b = sl_k a \<Longrightarrow> cell_k tr b j = cell_k tr a j"
  using same_shape_sizes [of a b tr] by (simp add: cell_k_def)

lemma cell_v_sl_v: "same_shape a b \<Longrightarrow> sl_v b = sl_v a \<Longrightarrow> cell_v tr vt sz b j = cell_v tr vt sz a j"
  using same_shape_sizes [of a b tr] by (simp add: cell_v_def same_shape_def)

lemma v_layer_roundtrip:
  assumes "layer_ok tr vt sz1 ly1" "layer_ok tr vt sz2 ly2" "same_shape ly1 ly2"
    and "\<forall>r \<in> set ranges. fst r < snd r \<and> snd r \<le> sz1" "range_cells ranges = is" "length is = n" "h + n \<le> sz2"
  shows "\<exists>bs ly'. (if vt then write_v_trans tr sz1 ranges else write_v_rows tr ranges) ly1 = Some bs
    \<and> (if vt then read_v_trans_layer tr sz2 h n else read_v_layer tr h n) ly2 (bs @ rest) = (Rd_true, ly', rest)
    \<and> sl_k ly' = sl_k ly2 \<and> same_shape ly2 ly'
    \<and> (\<forall>j < sz2. cell_v tr vt sz2 ly' j
        = (if h \<le> j \<and> j < h + n then cell_v tr vt sz1 ly1 (is ! (j - h)) else cell_v tr vt sz2 ly2 j))"
proof (cases vt)
  case True
  have "layer_ok tr True sz1 ly1" "layer_ok tr True sz2 ly2" using assms(1,2) True by simp_all
  from read_v_trans_layer_ok [OF this assms(3-7), of rest] show ?thesis by (simp only: True if_True)
next
  case False
  have "layer_ok tr False sz1 ly1" "layer_ok tr False sz2 ly2" using assms(1,2) False by simp_all
  from read_v_layer_ok [OF this assms(3-7), of rest] show ?thesis by (simp only: False if_False)
qed

lemma state_data_roundtrip:
  assumes "data_ok tr st1" "data_ok tr st2" "same_model st1 st2"
    and "\<forall>r \<in> set ranges. fst r < snd r \<and> snd r \<le> kv_size (st_kv st1)"
    and "range_cells ranges = is" "length is = n" "kv_head (st_kv st2) + n \<le> kv_size (st_kv st2)"
  shows "\<exists>bs st'. state_write_data tr ranges st1 = Some bs
    \<and> state_read_data tr n st2 (bs @ rest) = (Rd_true, st', rest)
    \<and> st_kv st' = st_kv st2 \<and> (\<forall>j < kv_size (st_kv st2). cell_store tr st' j =
      (if kv_head (st_kv st2) \<le> j \<and> j < kv_head (st_kv st2) + n then cell_store tr st1 (is ! (j - kv_head (st_kv st2)))
       else cell_store tr st2 j))"
proof -
  let ?sz1 = "kv_size (st_kv st1)" and ?sz2 = "kv_size (st_kv st2)" and ?h = "kv_head (st_kv st2)"
  let ?vt = "st_v_trans st2" and ?ls1 = "st_layers st1" and ?ls2 = "st_layers st2"
  have vt: "st_v_trans st1 = ?vt" and sh: "list_all2 same_shape ?ls1 ?ls2"
    and len: "length ?ls1 = length ?ls2" "length ?ls2 < U32"
    using assms(2,3) by (auto simp: same_model_def data_ok_def dest: list_all2_lengthD)
  have ok1: "layer_ok tr ?vt ?sz1 (?ls1 ! i)" and ok2: "layer_ok tr ?vt ?sz2 (?ls2 ! i)"
    and sh12: "same_shape (?ls1 ! i) (?ls2 ! i)" if "i < length ?ls2" for i
    using assms(1,2) sh that len vt by (auto simp: data_ok_def list_all_length list_all2_conv_all_nth)
  let ?wv = "if ?vt then write_v_trans tr ?sz1 ranges else write_v_rows tr ranges"
  let ?rv = "if ?vt then read_v_trans_layer tr ?sz2 ?h n else read_v_layer tr ?h n"
  let ?Qk = "\<lambda>a b ly'. layer_ok tr ?vt ?sz2 ly' \<and> same_shape b ly' \<and> sl_v ly' = sl_v b
    \<and> (\<forall>j. cell_k tr ly' j = (if ?h \<le> j \<and> j < ?h + n then cell_k tr a (is ! (j - ?h)) else cell_k tr b j))"
  let ?Qv = "\<lambda>a b ly'. sl_k ly' = sl_k b \<and> same_shape b ly' \<and> (\<forall>j < ?sz2. cell_v tr ?vt ?sz2 ly' j =
      (if ?h \<le> j \<and> j < ?h + n then cell_v tr ?vt ?sz1 a (is ! (j - ?h)) else cell_v tr ?vt ?sz2 b j))"
  have kall: "list_all2 (\<lambda>a b. \<forall>rest. \<exists>bs ly'. write_k tr ranges a = Some bs
      \<and> read_k_layer tr ?h n b (bs @ rest) = (Rd_true, ly', rest) \<and> ?Qk a b ly') ?ls1 ?ls2"
    unfolding list_all2_conv_all_nth
    using read_k_layer_ok [OF ok1 ok2 sh12 assms(4-7)] len by simp
  note kk = layers_roundtrip [OF kall]
  obtain kb where kb: "write_layers (write_k tr ranges) ?ls1 = Some kb" using kk by blast
  have vv: "\<exists>vb ls4. write_layers ?wv ?ls1 = Some vb \<and> read_layers ?rv ls3 (vb @ rest) = (Rd_true, ls4, rest)
      \<and> length ls4 = length ls3 \<and> (\<forall>i < length ls3. ?Qv (?ls1 ! i) (ls3 ! i) (ls4 ! i))"
    if "length ls3 = length ?ls2" "\<forall>i < length ?ls2. ?Qk (?ls1 ! i) (?ls2 ! i) (ls3 ! i)" for ls3
  proof (rule layers_roundtrip, unfold list_all2_conv_all_nth, intro conjI allI impI)
    fix i rest assume i: "i < length ?ls1"
    have "layer_ok tr ?vt ?sz2 (ls3 ! i)" "same_shape (?ls1 ! i) (ls3 ! i)"
      using that(2) i len sh12 same_shape_trans by (auto, blast)
    then show "\<exists>bs ly'. ?wv (?ls1 ! i) = Some bs \<and> ?rv (ls3 ! i) (bs @ rest) = (Rd_true, ly', rest)
        \<and> ?Qv (?ls1 ! i) (ls3 ! i) ly'"
      using v_layer_roundtrip [OF ok1 _ _ assms(4-7), of i "ls3 ! i" rest] i len by simp
  qed (use that(1) len in simp)
  obtain vb where vb: "write_layers ?wv ?ls1 = Some vb"
  proof -
    have "\<exists>ls3. length ls3 = length ?ls2 \<and> (\<forall>i < length ?ls2. ?Qk (?ls1 ! i) (?ls2 ! i) (ls3 ! i))"
      using kk by blast
    then show ?thesis using vv that by blast
  qed
  obtain ls3 where ls3: "read_layers (read_k_layer tr ?h n) ?ls2 (kb @ (vb @ rest)) = (Rd_true, ls3, vb @ rest)"
    "length ls3 = length ?ls2" "\<forall>i < length ?ls2. ?Qk (?ls1 ! i) (?ls2 ! i) (ls3 ! i)"
    using layers_roundtrip [OF kall, of "vb @ rest"] kb by auto
  obtain ls4 where ls4: "read_layers ?rv ls3 (vb @ rest) = (Rd_true, ls4, rest)" "length ls4 = length ls3"
    "\<forall>i < length ls3. ?Qv (?ls1 ! i) (ls3 ! i) (ls4 ! i)"
    using vv [OF ls3(2,3)] vb by auto
  let ?st' = "st2\<lparr>st_layers := ls4\<rparr>"
  have "state_write_data tr ranges st1
      = Some (le_bytes 4 (if ?vt then 1 else 0) @ le_bytes 4 (length ?ls2) @ kb @ vb)" (is "_ = Some ?bs")
    using kb vb len by (simp add: state_write_data_def vt)
  moreover have "state_read_data tr n st2 (?bs @ rest) = (Rd_true, ?st', rest)"
    using ls3(1) ls4(1) len(2) assms(7) by (simp add: state_read_data_def Let_def)
  moreover have "cell_store tr ?st' j = (if ?h \<le> j \<and> j < ?h + n then cell_store tr st1 (is ! (j - ?h)) else cell_store tr st2 j)"
    if "j < ?sz2" for j
  proof -
    have "(cell_k tr (ls4 ! i) j, cell_v tr ?vt ?sz2 (ls4 ! i) j) =
      (if ?h \<le> j \<and> j < ?h + n then (cell_k tr (?ls1 ! i) (is ! (j - ?h)), cell_v tr ?vt ?sz1 (?ls1 ! i) (is ! (j - ?h)))
       else (cell_k tr (?ls2 ! i) j, cell_v tr ?vt ?sz2 (?ls2 ! i) j))" if i: "i < length ?ls2" for i
    proof -
      have q: "?Qk (?ls1 ! i) (?ls2 ! i) (ls3 ! i)" "?Qv (?ls1 ! i) (ls3 ! i) (ls4 ! i)"
        using ls3(2,3) ls4(3) i by auto
      then show ?thesis
        using cell_k_sl_k [of "ls3 ! i" "ls4 ! i" tr j] cell_v_sl_v [of "?ls2 ! i" "ls3 ! i" tr ?vt ?sz2 j] \<open>j < ?sz2\<close>
        by auto
    qed
    then show ?thesis
      using ls3(2) ls4(2) len(1) by (auto simp: cell_store_def vt intro!: nth_equalityI)
  qed
  ultimately show ?thesis by auto
qed

section \<open>The metadata of the cells\<close>

definition cell_fits :: "kv_cell \<Rightarrow> bool" where
  "cell_fits c = (i32_fits (cell_pos c) \<and> (\<forall>s \<in> cell_seq_id c. 0 \<le> s \<and> i32_fits s)
     \<and> card (cell_seq_id c) < U32 \<and> finite (cell_seq_id c))"

lemma store_ok_cell:
  assumes "store_ok tr st" "i < kv_size (st_kv st)"
  shows "cell_fits (kv_cells (st_kv st) ! i)"
proof -
  have "kv_cells (st_kv st) ! i \<in> set (kv_cells (st_kv st))"
    using assms kv_okD(1) [of "st_kv st"] by (simp add: store_ok_def)
  then show ?thesis
    using assms(1) kv_okD(5) [of "st_kv st"] unfolding store_ok_def list_all_iff cell_fits_def
    by (auto simp: cell_ok_def)
qed

lemma read_seq_ids_ok:
  "\<forall>s \<in> set ss. 0 \<le> s \<and> i32_fits s \<Longrightarrow>
     read_seq_ids (length ss) S (concat (map i32_bytes ss) @ rest) = (Rd_true, S \<union> set ss, rest)"
  by (induction ss arbitrary: S) (auto simp: not_less)

lemma read_cells_ok:
  assumes "\<forall>c \<in> set ms. cell_fits c" "i + length ms \<le> length cs"
    and "\<forall>j < length cs. cell_seq_id (cs ! j) = {} \<or> j < i"
  shows "\<exists>cs'. read_cells (length ms) i cs (concat (map (cell_meta_bytes (-1)) ms) @ rest) = (Rd_true, cs', rest)
    \<and> length cs' = length cs \<and> (\<forall>j < length cs. cs' ! j = (if i \<le> j \<and> j < i + length ms
        then (cs ! j)\<lparr>cell_pos := cell_pos (ms ! (j - i)), cell_seq_id := cell_seq_id (ms ! (j - i))\<rparr> else cs ! j))"
  using assms
proof (induction ms arbitrary: i cs)
  case Nil
  then show ?case by (auto simp: not_less)
next
  case (Cons m ms)
  have m: "i32_fits (cell_pos m)" "\<forall>s \<in> set (sorted_list_of_set (cell_seq_id m)). 0 \<le> s \<and> i32_fits s"
    "card (cell_seq_id m) < U32" "finite (cell_seq_id m)"
    "set (sorted_list_of_set (cell_seq_id m)) = cell_seq_id m"
    using Cons.prems(1) by (auto simp: cell_fits_def)
  let ?c = "(cs ! i)\<lparr>cell_pos := cell_pos m, cell_seq_id := cell_seq_id m\<rparr>"
  let ?rest = "concat (map (cell_meta_bytes (-1)) ms) @ rest"
  have e: "cell_seq_id (cs ! i) = {}" using Cons.prems(2) Cons.prems(3) [rule_format, of i] by simp
  have "card (cell_seq_id m) = 0 \<Longrightarrow> sorted_list_of_set (cell_seq_id m) = []" using m(4) by simp
  then have bytes: "cell_meta_bytes (-1) m = i32_bytes (cell_pos m) @ le_bytes 4 (card (cell_seq_id m))
      @ concat (map i32_bytes (sorted_list_of_set (cell_seq_id m)))"
    by (simp add: cell_meta_bytes_def Let_def)
  have "read_seq_ids (card (cell_seq_id m)) {} (concat (map i32_bytes (sorted_list_of_set (cell_seq_id m))) @ ?rest)
      = (Rd_true, cell_seq_id m, ?rest)"
    using read_seq_ids_ok [OF m(2), of "{}" ?rest] m(5) by simp
  then have step: "read_cells (length (m # ms)) i cs (concat (map (cell_meta_bytes (-1)) (m # ms)) @ rest)
      = read_cells (length ms) (i + 1) (cs[i := ?c]) ?rest"
    using m(1,3) by (simp add: bytes e Let_def)
  have "\<forall>c \<in> set ms. cell_fits c" "i + 1 + length ms \<le> length (cs[i := ?c])"
    "\<forall>j < length (cs[i := ?c]). cell_seq_id (cs[i := ?c] ! j) = {} \<or> j < i + 1"
    using Cons.prems by (auto simp: nth_list_update)
  from Cons.IH [OF this] obtain cs' where
    cs': "read_cells (length ms) (i + 1) (cs[i := ?c]) ?rest = (Rd_true, cs', rest)" "length cs' = length cs"
    "\<forall>j < length cs. cs' ! j = (if i + 1 \<le> j \<and> j < i + 1 + length ms
        then (cs[i := ?c] ! j)\<lparr>cell_pos := cell_pos (ms ! (j - (i + 1))), cell_seq_id := cell_seq_id (ms ! (j - (i + 1)))\<rparr>
        else cs[i := ?c] ! j)" by auto
  have "cs' ! j = (if i \<le> j \<and> j < i + length (m # ms)
        then (cs ! j)\<lparr>cell_pos := cell_pos ((m # ms) ! (j - i)), cell_seq_id := cell_seq_id ((m # ms) ! (j - i))\<rparr>
        else cs ! j)" if "j < length cs" for j
    using cs'(3) that by (cases "j = i") (auto simp: nth_Cons' nth_list_update)
  then show ?case using step cs'(1,2) by auto
qed

lemma read_positions_ok:
  "\<forall>c \<in> set ms. cell_fits c \<Longrightarrow> sid \<noteq> -1 \<Longrightarrow>
     read_positions (length ms) (concat (map (cell_meta_bytes sid) ms) @ rest) = (Rd_true, map cell_pos ms, rest)"
  by (induction ms) (auto simp: cell_meta_bytes_def cell_fits_def)

lemma saved_cells_lt: "i \<in> set (saved_cells sid kv) \<Longrightarrow> i < kv_size kv"
  by (simp add: saved_cells_def)

lemma state_write_parts:
  assumes "store_ok tr st" "cell_ranges sid (st_kv st) = (ranges, cnt)"
    "state_write_data tr ranges st = Some d"
  shows "state_write tr sid st = Some (le_bytes 4 (length (saved_cells sid (st_kv st)))
      @ concat (map (cell_meta_bytes sid) (map ((!) (kv_cells (st_kv st))) (saved_cells sid (st_kv st)))) @ d)"
  using assms cell_ranges_ok [OF _ assms(2)]
  by (simp add: state_write_def state_write_meta_def store_ok_def comp_def)

section \<open>Round trips\<close>

text \<open>A saved cell: its position and sequences, with its keys and values in every layer.\<close>

definition saved_view :: "type_traits \<Rightarrow> kv_store \<Rightarrow> nat \<Rightarrow> (int \<times> int set) \<times> (byte list \<times> byte list list) list" where
  "saved_view tr st i = (cell_entry (kv_cells (st_kv st) ! i), cell_store tr st i)"

lemma cell_store_kv:
  "kv_size kv = kv_size (st_kv st) \<Longrightarrow> cell_store tr (st\<lparr>st_kv := kv\<rparr>) = cell_store tr st"
  by (simp add: cell_store_def fun_eq_iff)

lemma data_ok_kv: "kv_size kv = kv_size (st_kv st) \<Longrightarrow> data_ok tr (st\<lparr>st_kv := kv\<rparr>) = data_ok tr st"
  by (simp add: data_ok_def)

lemma saved_cells_all: "saved_cells (-1) kv = filter (\<lambda>i. \<not> is_empty (kv_cells kv ! i) \<or> -1 \<in> cell_seq_id (kv_cells kv ! i)) [0..<kv_size kv]"
  by (auto simp: saved_cells_def saved_cell_def has_seq_id_def intro!: filter_cong)

lemma saved_cells_nonempty:
  "saved_cells (-1) kv = filter (\<lambda>i. \<not> is_empty (kv_cells kv ! i)) [0..<kv_size kv]"
  unfolding saved_cells_all by (rule filter_cong) (auto simp: is_empty_def)

text \<open>
  Saving the whole cache and loading it into a cache of the same model, at least as large as
  the saved cells: the cells in use become the first ones, each with its position, sequences
  and data, and the rest of the input is left for the next reader.
\<close>

lemma state_roundtrip_cache:
  assumes "store_ok tr st1" "store_ok tr st2" "same_model st1 st2"
    and "kv_used (st_kv st1) \<le> kv_size (st_kv st2)"
  shows "\<exists>bs st'. state_write tr (-1) st1 = Some bs \<and> state_read tr (-1) st2 (bs @ rest) = (Rd_true, st', rest)
    \<and> kv_ok (st_kv st') \<and> kv_used (st_kv st') = kv_used (st_kv st1)
    \<and> map (saved_view tr st') [0..<kv_used (st_kv st1)]
        = map (saved_view tr st1) (saved_cells (-1) (st_kv st1))"
proof -
  let ?kv1 = "st_kv st1" and ?kv2 = "kv_clear (st_kv st2)" and ?sz = "kv_size (st_kv st2)"
  define is0 where "is0 = saved_cells (-1) ?kv1"
  define ms where "ms = map ((!) (kv_cells ?kv1)) is0"
  let ?n = "length is0"
  have ok1: "kv_ok ?kv1" and ok2: "kv_ok (st_kv st2)" using assms(1,2) by (auto simp: store_ok_def)
  have n: "?n = kv_used ?kv1"
  proof -
    have "set is0 = occ (kv_cells ?kv1)" "distinct is0"
      using kv_okD(1) [OF ok1] by (auto simp: is0_def saved_cells_nonempty occ_def)
    then show ?thesis
      using distinct_card [of is0] kv_okD(4) [OF ok1] by (simp add: card_occ)
  qed
  obtain ranges cnt where r: "cell_ranges (-1) ?kv1 = (ranges, cnt)" by fastforce
  note rok = cell_ranges_ok [OF ok1 r]
  have fits: "\<forall>c \<in> set ms. cell_fits c"
    using store_ok_cell [OF assms(1)] saved_cells_lt by (auto simp: ms_def is0_def)
  have len2: "length (kv_cells ?kv2) = ?sz" using kv_okD(1) [OF ok2] by (simp add: kv_clear_def)
  have clear: "\<forall>j < length (kv_cells ?kv2). cell_seq_id (kv_cells ?kv2 ! j) = {} \<or> j < 0"
    by (simp add: kv_clear_def)
  let ?kvx = "\<lambda>cs. ?kv2\<lparr>kv_cells := cs, kv_head := 0, kv_used := ?n\<rparr>"
  have io: "\<exists>bs st'. state_write_data tr ranges st1 = Some bs
      \<and> state_read_data tr ?n (st2\<lparr>st_kv := kv\<rparr>) (bs @ rest) = (Rd_true, st', rest) \<and> st_kv st' = kv
      \<and> (\<forall>j < ?sz. cell_store tr st' j = (if j < ?n then cell_store tr st1 (is0 ! j) else cell_store tr st2 j))"
    if kv: "kv_size kv = ?sz" "kv_head kv = 0" for kv
  proof -
    have "data_ok tr st1" "data_ok tr (st2\<lparr>st_kv := kv\<rparr>)" "same_model st1 (st2\<lparr>st_kv := kv\<rparr>)"
      using assms(1-3) kv(1) by (simp_all add: store_ok_def data_ok_kv same_model_def)
    from state_data_roundtrip [OF this rok(3) rok(1) [folded is0_def] refl, of rest]
    show ?thesis using kv assms(4) n by (simp add: cell_store_kv cong: if_cong)
  qed
  obtain d where d0: "state_write_data tr ranges st1 = Some d"
    using io [of "?kvx []"] by (auto simp: kv_clear_def)
  have nle: "0 + length ms \<le> length (kv_cells ?kv2)" using assms(4) n len2 by (simp add: ms_def)
  obtain cs where cs: "read_cells (length ms) 0 (kv_cells ?kv2) (concat (map (cell_meta_bytes (-1)) ms) @ (d @ rest)) = (Rd_true, cs, d @ rest)"
    "length cs = ?sz"
    "\<forall>j < ?sz. cs ! j = (if j < ?n then (kv_cells ?kv2 ! j)\<lparr>cell_pos := cell_pos (ms ! j), cell_seq_id := cell_seq_id (ms ! j)\<rparr>
      else kv_cells ?kv2 ! j)"
    using read_cells_ok [OF fits nle clear, of "d @ rest"] len2 by (auto simp: ms_def)
  let ?st2 = "st2\<lparr>st_kv := ?kvx cs\<rparr>"
  have kvx: "kv_size (?kvx cs) = ?sz" "kv_head (?kvx cs) = 0" by (simp_all add: kv_clear_def)
  obtain st' where st': "state_read_data tr ?n ?st2 (d @ rest) = (Rd_true, st', rest)" "st_kv st' = ?kvx cs"
    "\<forall>j < ?sz. cell_store tr st' j = (if j < ?n then cell_store tr st1 (is0 ! j) else cell_store tr st2 j)"
    using io [OF kvx] d0 by auto
  have nU: "?n < U32" using assms(4) n kv_okD(2) [OF ok2] by simp
  have w: "state_write tr (-1) st1 = Some (le_bytes 4 ?n @ concat (map (cell_meta_bytes (-1)) ms) @ d)" (is "_ = Some ?bs")
    using state_write_parts [OF assms(1) r d0] by (simp add: ms_def is0_def)
  have rd: "state_read tr (-1) st2 (?bs @ rest) = (Rd_true, st', rest)"
    using nU cs(1) st'(1) assms(4) n
    by (simp add: state_read_def state_read_meta_def state_read_meta_all_def ms_def Let_def)
  have cell: "cell_ok (ms ! j)" "\<not> is_empty (ms ! j)" if "j < ?n" for j
  proof -
    have i: "is0 ! j < kv_size ?kv1" "\<not> is_empty (kv_cells ?kv1 ! (is0 ! j))"
      using nth_mem [OF that] by (simp_all add: is0_def saved_cells_nonempty del: nth_mem)
    then have "kv_cells ?kv1 ! (is0 ! j) \<in> set (kv_cells ?kv1)" using kv_okD(1) [OF ok1] by simp
    then show "cell_ok (ms ! j)" "\<not> is_empty (ms ! j)"
      using kv_okD(5) [OF ok1] i(2) that by (simp_all add: ms_def)
  qed
  have csj: "cell_ok (cs ! j)" "is_empty (cs ! j) \<longleftrightarrow> ?n \<le> j" if "j < ?sz" for j
    using cs(3) that cell [of j] len2
    by (auto simp: cell_ok_def is_empty_def kv_clear_def kv_okD(1) [OF ok2])
  have "occ cs = {..<?n}" using csj cs(2) assms(4) n by (auto simp: occ_def not_le)
  then have "occupied cs = ?n" using card_occ [of cs] by simp
  then have kvok: "kv_ok (st_kv st')"
    using st'(2) cs(2) csj(1) kv_okD(2) [OF ok2] by (intro kv_okI) (auto simp: kv_clear_def in_set_conv_nth)
  have "saved_view tr st' j = saved_view tr st1 (is0 ! j)" if "j < ?n" for j
    using st'(2,3) cs(3) that assms(4) n
    by (simp add: saved_view_def cell_entry_def ms_def)
  then have "map (saved_view tr st') [0..<?n] = map (saved_view tr st1) is0"
    by (intro nth_equalityI) auto
  then show ?thesis using w rd kvok st'(2) n by (auto simp: is0_def)
qed

text \<open>Placing one restored sequence: the micro-batch is well formed and ends up as planned.\<close>

lemma restore_ubatch_placeable:
  assumes "ps \<noteq> []" "\<forall>p \<in> set ps. 0 \<le> p"
  shows "ub_placeable (restore_ubatch dest ps)"
    "ub_entries (restore_ubatch dest ps) = map (\<lambda>p. (p, {dest})) ps"
proof -
  have seqs: "ub_seq_set (restore_ubatch dest ps) 0 = {dest}"
    using assms(1) by (simp add: ub_seq_set_def restore_ubatch_def)
  show e: "ub_entries (restore_ubatch dest ps) = map (\<lambda>p. (p, {dest})) ps"
    using seqs by (intro nth_equalityI) (auto simp: ub_entries_def restore_ubatch_def div_less)
  show "ub_placeable (restore_ubatch dest ps)"
    unfolding ub_placeable_def e
    using assms by (auto simp: ub_reads_ok_def restore_ubatch_def list_all_iff Suc_le_eq)
qed

lemma place_restored:
  assumes "ps \<noteq> []" "h + length ps \<le> length cs" "j < length cs"
    and "\<forall>k < length ps. cell_seq_id (cs ! (h + k)) = {}"
  shows "cell_entry (place_tokens h (restore_ubatch dest ps) cs ! j) =
    (if h \<le> j \<and> j < h + length ps then (ps ! (j - h), {dest}) else cell_entry (cs ! j))"
proof -
  have "place_tokens h (restore_ubatch dest ps) cs ! j =
      (if h \<le> j \<and> j - h < length ps then place_cell (restore_ubatch dest ps) (j - h) (cs ! j) else cs ! j)"
    using place_tokens_nth [of h "restore_ubatch dest ps" cs j] assms(2,3)
    by (simp add: restore_ubatch_def)
  moreover have "cell_seq_id (cs ! j) = {}" if "h \<le> j" "j < h + length ps"
    using assms(4) [rule_format, of "j - h"] that by auto
  ultimately show ?thesis
    using assms(1) by (auto simp: place_cell_def cell_entry_def ub_seq_set_def restore_ubatch_def div_less)
qed

lemma cell_max_irrelevant [simp]: "kv_head (kv_commit kv) = kv_head kv" "kv_cells (kv_commit kv) = kv_cells kv"
  "kv_size (kv_commit kv) = kv_size kv" "kv_used (kv_commit kv) = kv_used kv"
  by (simp_all add: kv_commit_def)

lemma kv_commit_ok [simp]: "kv_ok (kv_commit kv) = kv_ok kv" "kv_abs (kv_commit kv) = kv_abs kv"
  by (simp_all add: kv_ok_def kv_abs_def)

text \<open>
  Loading one saved sequence as sequence \<open>dest\<close> into a cache with room for it in one block:
  the old cells of \<open>dest\<close> are gone, the restored cells lie at the new head, each with its
  position, the sequence \<open>dest\<close> and its data, and every other cell keeps its data.
\<close>

lemma state_roundtrip_seq:
  assumes "store_ok tr st1" "store_ok tr st2" "same_model st1 st2"
    and "0 \<le> sid" "0 \<le> dest" "saved_cells sid (st_kv st1) = is0" "is0 \<noteq> []"
    and "free_run (kv_cells (seq_rm dest (-1) (-1) (st_kv st2))) w (length is0)"
  shows "\<exists>bs st'. state_write tr sid st1 = Some bs \<and> state_read tr dest st2 (bs @ rest) = (Rd_true, st', rest)
    \<and> kv_ok (st_kv st')
    \<and> kv_abs (st_kv st') = kv_abs (seq_rm dest (-1) (-1) (st_kv st2))
        + mset (map (\<lambda>i. (cell_pos (kv_cells (st_kv st1) ! i), {dest})) is0)
    \<and> map (saved_view tr st') [kv_head (st_kv st')..<kv_head (st_kv st') + length is0]
        = map (\<lambda>i. ((cell_pos (kv_cells (st_kv st1) ! i), {dest}), cell_store tr st1 i)) is0
    \<and> (\<forall>j < kv_size (st_kv st2). \<not> (kv_head (st_kv st') \<le> j \<and> j < kv_head (st_kv st') + length is0)
        \<longrightarrow> cell_store tr st' j = cell_store tr st2 j)"
proof -
  let ?kv1 = "st_kv st1" and ?kv2 = "seq_rm dest (-1) (-1) (st_kv st2)"
  define ms where "ms = map ((!) (kv_cells ?kv1)) is0"
  define ps where "ps = map cell_pos ms"
  let ?n = "length is0" and ?ub = "restore_ubatch dest ps"
  have ok1: "kv_ok ?kv1" and ok2: "kv_ok ?kv2"
    using assms(1,2) by (auto simp: store_ok_def intro: seq_rm_ok)
  obtain ranges cnt where r: "cell_ranges sid ?kv1 = (ranges, cnt)" by fastforce
  note rok = cell_ranges_ok [OF ok1 r]
  have lt: "\<forall>i \<in> set is0. i < kv_size ?kv1" using assms(6) saved_cells_lt by blast
  have fits: "\<forall>c \<in> set ms. cell_fits c"
    using store_ok_cell [OF assms(1)] lt by (auto simp: ms_def)
  have pos: "\<forall>p \<in> set ps. 0 \<le> p"
  proof
    fix p assume "p \<in> set ps"
    then obtain i where i: "i \<in> set is0" "p = cell_pos (kv_cells ?kv1 ! i)" by (auto simp: ps_def ms_def)
    then have "sid \<in> cell_seq_id (kv_cells ?kv1 ! i)"
      using assms(4,6) by (auto simp: saved_cells_def saved_cell_def has_seq_id_def)
    moreover have "cell_ok (kv_cells ?kv1 ! i)" using i(1) lt kv_okD(1,5) [OF ok1] by simp
    ultimately show "0 \<le> p" using cell_ok_pos [of "kv_cells ?kv1 ! i"] i(2) by (auto simp: is_empty_def)
  qed
  have ne: "ps \<noteq> []" "length ps = ?n" using assms(7) by (simp_all add: ps_def ms_def)
  note pl = restore_ubatch_placeable [OF ne(1) pos, of dest]
  have ubn: "ub_n_tokens ?ub = ?n" using ne(2) by (simp add: restore_ubatch_def)
  obtain kv3 where found: "find_slot ?ub ?kv2 = Some (True, kv3)"
    "free_run (kv_cells ?kv2) (kv_head kv3) ?n" "kv_cells kv3 = place_tokens (kv_head kv3) ?ub (kv_cells ?kv2)"
    "kv_size kv3 = kv_size ?kv2"
    using find_slot_cases [OF ok2 pl(1)] assms(8) ubn by metis
  note f = find_slot_found_ok [OF ok2 pl(1) found(1)]
  let ?h = "kv_head kv3" and ?kv4 = "kv_commit kv3"
  have room: "?h + length ps \<le> length (kv_cells ?kv2)" using found(2) ne(2) by (simp add: free_run_def)
  have sz: "length (kv_cells ?kv2) = kv_size (st_kv st2)" using kv_okD(1) [OF ok2] by simp
  have emp: "\<forall>k < length ps. cell_seq_id (kv_cells ?kv2 ! (?h + k)) = {}"
    using free_window(2) [OF found(2)] kv_okD(5) [OF ok2] ne(2) by (simp add: is_empty_def)
  have entry: "cell_entry (kv_cells kv3 ! j) =
      (if ?h \<le> j \<and> j < ?h + length ps then (ps ! (j - ?h), {dest}) else cell_entry (kv_cells ?kv2 ! j))"
    if "j < kv_size (st_kv st2)" for j
    using place_restored [OF ne(1) room _ emp, of j dest] that sz found(3) by simp
  have slot: "restored_slot_ok dest ps ?kv4"
  proof -
    obtain m where m: "length ps = Suc m" using ne(1) by (cases ps) auto
    have "?h < kv_size (st_kv st2)" "?h + m < kv_size (st_kv st2)" using room sz m by simp_all
    then have "cell_entry (kv_cells kv3 ! ?h) = (ps ! 0, {dest})"
      "cell_entry (kv_cells kv3 ! (?h + m)) = (ps ! m, {dest})"
      using entry m by simp_all
    then show ?thesis
      using room sz found(4) m by (simp add: restored_slot_ok_def Let_def cell_entry_def has_seq_id_def)
  qed
  have data: "data_ok tr st1" "data_ok tr (st2\<lparr>st_kv := ?kv4\<rparr>)" "same_model st1 (st2\<lparr>st_kv := ?kv4\<rparr>)"
    using assms(1-3) found(4) by (simp_all add: store_ok_def data_ok_kv same_model_def)
  have hn: "kv_head (st_kv (st2\<lparr>st_kv := ?kv4\<rparr>)) + ?n \<le> kv_size (st_kv (st2\<lparr>st_kv := ?kv4\<rparr>))"
    using room ne(2) sz found(4) by simp
  obtain d st' where d: "state_write_data tr ranges st1 = Some d"
    "state_read_data tr ?n (st2\<lparr>st_kv := ?kv4\<rparr>) (d @ rest) = (Rd_true, st', rest)" "st_kv st' = ?kv4"
    "\<forall>j < kv_size (st_kv st2). cell_store tr st' j = (if ?h \<le> j \<and> j < ?h + ?n
       then cell_store tr st1 (is0 ! (j - ?h)) else cell_store tr st2 j)"
    using state_data_roundtrip [OF data rok(3) rok(1) [unfolded assms(6)] refl hn, of rest] found(4)
    by (auto simp: cell_store_kv cong: if_cong)
  have nU: "?n < U32" using room ne(2) kv_okD(1,2) [OF ok2] by simp
  have w: "state_write tr sid st1 = Some (le_bytes 4 ?n @ concat (map (cell_meta_bytes sid) ms) @ d)" (is "_ = Some ?bs")
    using state_write_parts [OF assms(1) r d(1)] by (simp add: ms_def assms(6))
  have "read_positions ?n (concat (map (cell_meta_bytes sid) ms) @ (d @ rest)) = (Rd_true, ps, d @ rest)"
    using read_positions_ok [OF fits, of sid "d @ rest"] assms(4) by (simp add: ps_def ms_def)
  then have "state_read_meta ?n dest (st_kv st2) (concat (map (cell_meta_bytes sid) ms) @ (d @ rest)) = (Rd_true, ?kv4, d @ rest)"
    using assms(5,7) found(1) slot by (simp add: state_read_meta_def state_read_meta_seq_def Let_def)
  then have rd: "state_read tr dest st2 (?bs @ rest) = (Rd_true, st', rest)"
    using nU d(2) by (simp add: state_read_def)
  have view: "map (saved_view tr st') [?h..<?h + ?n]
      = map (\<lambda>i. ((cell_pos (kv_cells ?kv1 ! i), {dest}), cell_store tr st1 i)) is0"
    using entry d(3,4) room ne(2) sz
    by (intro nth_equalityI) (auto simp: saved_view_def ps_def ms_def)
  have abs: "kv_abs (st_kv st') = kv_abs ?kv2 + mset (map (\<lambda>i. (cell_pos (kv_cells ?kv1 ! i), {dest})) is0)"
    using f(2) pl(2) d(3) by (simp add: ps_def ms_def comp_def)
  show ?thesis using w rd f(1) abs view d(3,4) by (intro exI [of _ ?bs] exI [of _ st']) auto
qed

text \<open>
  An input that ends inside a cell: the exception leaves \<open>state_read\<close> before anything is undone,
  and the cells read so far are in the cache although \<open>used\<close> is 0.
\<close>

lemma state_read_truncated:
  assumes "0 < kv_size (st_kv st)" "length (kv_cells (st_kv st)) = kv_size (st_kv st)" "i32_fits p"
  shows "\<exists>st'. state_read tr (-1) st (le_bytes 4 1 @ i32_bytes p @ le_bytes 4 2 @ i32_bytes 7) = (Rd_throw, st', [])
    \<and> kv_used (st_kv st') = 0 \<and> kv_cells (st_kv st') ! 0 = (kv_cells (st_kv st) ! 0)\<lparr>cell_pos := p, cell_seq_id := {7}\<rparr>"
proof -
  have r: "read_i32 [] = None" by (simp add: read_i32_def read_le_def io_read_def)
  have b: "i32_bytes p @ le_bytes 4 2 @ i32_bytes 7 = i32_bytes p @ (le_bytes 4 2 @ (i32_bytes 7 @ []))" by simp
  have "read_seq_ids 2 {} (i32_bytes 7 @ []) = (Rd_throw, {7}, [])"
    using read_i32_append [of 7 "[]"] r by (simp add: numeral_2_eq_2 i32_fits_def del: append_Nil2)
  then show ?thesis
    using assms
    by (simp add: state_read_def state_read_meta_def state_read_meta_all_def b kv_clear_def Let_def
        One_nat_def [symmetric] del: append_Nil2 le_bytes.simps One_nat_def)
      (simp add: numeral_2_eq_2)
qed

text \<open>A sequence without cells is saved, but loading it runs outside the arrays.\<close>

lemma state_read_empty_seq:
  assumes "0 \<le> dest"
  shows "\<exists>kv buf. state_read tr dest st (le_bytes 4 0 @ rest) = (Rd_abort, st\<lparr>st_kv := kv\<rparr>, buf)"
  using assms
  by (intro exI [of _ "seq_rm dest (-1) (-1) (st_kv st)"] exI [of _ rest])
    (simp add: state_read_def state_read_meta_def state_read_meta_seq_def Let_def)

end
