(* ===== verification/KvRecurrent.thy ===== *)
theory KvRecurrent
  imports Prelude Batch KvUnified
begin

text \<open>
  The cell metadata of \<open>llama_kv_cache_recurrent\<close> (\<open>llama-kv-cache.h\<close>, \<open>llama-kv-cache.cpp\<close>):
  one cell holds the state of a whole sequence (or of several that share it). Cell number \<open>s\<close>
  has a second role: its field \<open>tail\<close> names the cell with the state of sequence \<open>s\<close>.

  The cells are a list, an \<open>int\<close> index as in the code (-1: none). \<open>find_slot\<close> is given step by
  step; an index outside the cells or a failed assertion is \<open>None\<close>.
\<close>

section \<open>State\<close>

record rc_cell =
  rc_pos :: int
  rc_src :: int
  rc_tail :: int
  rc_seq_id :: "int set"

definition rc_cell_new :: rc_cell where
  "rc_cell_new = \<lparr>rc_pos = -1, rc_src = -1, rc_tail = -1, rc_seq_id = {}\<rparr>"

definition rc_has_seq_id :: "rc_cell \<Rightarrow> int \<Rightarrow> bool" where
  "rc_has_seq_id c sid = (sid \<in> rc_seq_id c)"

definition rc_is_empty :: "rc_cell \<Rightarrow> bool" where
  "rc_is_empty c = (rc_seq_id c = {})"

record kv_recurrent =
  rc_head :: nat
  rc_size :: nat
  rc_used :: nat
  rc_n :: nat
  rc_cells :: "rc_cell list"
  rc_pending :: "(nat \<times> nat) list"

definition rc_init :: "nat \<Rightarrow> kv_recurrent" where
  "rc_init sz = \<lparr>rc_head = 0, rc_size = sz, rc_used = 0, rc_n = 0,
     rc_cells = replicate sz rc_cell_new, rc_pending = []\<rparr>"

definition rc_lower_head :: "nat \<Rightarrow> kv_recurrent \<Rightarrow> kv_recurrent" where
  "rc_lower_head new_head kv =
     (if new_head \<noteq> rc_size kv \<and> new_head < rc_head kv then kv\<lparr>rc_head := new_head\<rparr> else kv)"

section \<open>Operations\<close>

definition rc_clear :: "kv_recurrent \<Rightarrow> kv_recurrent" where
  "rc_clear kv = kv\<lparr>rc_cells := map (\<lambda>c. rc_cell_new) (rc_cells kv), rc_head := 0, rc_used := 0\<rparr>"

definition rc_in_range :: "int \<Rightarrow> int \<Rightarrow> rc_cell \<Rightarrow> bool" where
  "rc_in_range p0 p1 c = (norm_p0 p0 \<le> rc_pos c \<and> rc_pos c < norm_p1 p1)"

text \<open>
  The test on the tail of a sequence: \<open>None\<close> refuses (a partial intersection), otherwise
  whether the tail becomes invalid.
\<close>

definition rc_rm_tail :: "int \<Rightarrow> int \<Rightarrow> rc_cell \<Rightarrow> bool option" where
  "rc_rm_tail p0 p1 c =
     (if (0 < norm_p0 p0 \<and> norm_p0 p0 \<le> rc_pos c) \<or> (0 < norm_p1 p1 \<and> norm_p1 p1 \<le> rc_pos c) then None
      else Some (norm_p0 p0 \<le> rc_pos c \<and> rc_pos c < norm_p1 p1))"

definition rc_rm_cell ::
  "nat \<Rightarrow> int \<Rightarrow> int \<Rightarrow> int \<Rightarrow> nat \<Rightarrow> rc_cell \<Rightarrow> nat \<times> nat \<Rightarrow> rc_cell \<times> nat \<times> nat" where
  "rc_rm_cell sz sid p0 p1 i c = (\<lambda>(used, new_head).
     if rc_in_range p0 p1 c \<and> (sid < 0 \<or> rc_has_seq_id c sid) then
       let c1 = c\<lparr>rc_seq_id := (if sid < 0 then {} else rc_seq_id c - {sid})\<rparr>
       in if rc_is_empty c1
          then (c1\<lparr>rc_pos := -1, rc_src := -1\<rparr>, (if rc_pos c1 \<ge> 0 then u32_sub used 1 else used),
                (if new_head = sz then i else new_head))
          else (c1, used, new_head)
     else (c, used, new_head))"

definition rc_rm_loop :: "int \<Rightarrow> int \<Rightarrow> int \<Rightarrow> kv_recurrent \<Rightarrow> kv_recurrent" where
  "rc_rm_loop sid p0 p1 kv =
     (case cell_loop (rc_rm_cell (rc_size kv) sid p0 p1) 0 (rc_cells kv) (rc_used kv, rc_size kv) of
        (cs, used, new_head) \<Rightarrow> rc_lower_head new_head (kv\<lparr>rc_cells := cs, rc_used := used\<rparr>))"

definition rc_set_tail :: "int \<Rightarrow> int \<Rightarrow> rc_cell list \<Rightarrow> rc_cell list" where
  "rc_set_tail sid t cs = cs[nat sid := (cs ! nat sid)\<lparr>rc_tail := t\<rparr>]"

definition rc_seq_rm :: "int \<Rightarrow> int \<Rightarrow> int \<Rightarrow> kv_recurrent \<Rightarrow> bool \<times> kv_recurrent" where
  "rc_seq_rm sid p0 p1 kv =
     (if sid \<ge> int (rc_size kv) then (False, kv)
      else if 0 \<le> sid then
        (let t = rc_tail (rc_cells kv ! nat sid) in
         if t \<ge> 0 then
           (case rc_rm_tail p0 p1 (rc_cells kv ! nat t) of
              None \<Rightarrow> (False, kv)
            | Some invalid \<Rightarrow> (True, rc_rm_loop sid p0 p1
                (if invalid then kv\<lparr>rc_cells := rc_set_tail sid (-1) (rc_cells kv)\<rparr> else kv)))
         else (True, rc_rm_loop sid p0 p1 kv))
      else if norm_p0 p0 \<noteq> norm_p1 p1 \<and> (norm_p0 p0 \<noteq> 0 \<or> norm_p1 p1 \<noteq> int32_max) then (False, kv)
      else (True, rc_rm_loop sid p0 p1 kv))"

text \<open>A sequence leaves the cell \<open>t\<close>; the cell is freed when it was the last one.\<close>

definition rc_leave :: "int \<Rightarrow> int \<Rightarrow> rc_cell list \<times> nat \<Rightarrow> rc_cell list \<times> nat" where
  "rc_leave sid t = (\<lambda>(cs, used).
     let c = (cs ! nat t)\<lparr>rc_seq_id := rc_seq_id (cs ! nat t) - {sid}\<rparr>;
         c' = (if rc_seq_id c = {} then c\<lparr>rc_pos := -1, rc_src := -1\<rparr> else c)
     in (rc_set_tail sid (-1) (cs[nat t := c']), if rc_seq_id c = {} then u32_sub used 1 else used))"

definition rc_seq_cp :: "int \<Rightarrow> int \<Rightarrow> int \<Rightarrow> int \<Rightarrow> kv_recurrent \<Rightarrow> kv_recurrent" where
  "rc_seq_cp src dst p0 p1 kv =
     (if src = dst then kv
      else if 0 \<le> dst \<and> dst < int (rc_size kv) \<and> 0 \<le> src \<and> src < int (rc_size kv) then
        (let cs = rc_cells kv; td = rc_tail (cs ! nat dst);
             (cs1, used1) = (if td \<ge> 0 then rc_leave dst td (cs, rc_used kv) else (cs, rc_used kv));
             ts = rc_tail (cs1 ! nat src)
         in if ts \<ge> 0
            then kv\<lparr>rc_used := used1, rc_cells := rc_set_tail dst ts
                   (cs1[nat ts := (cs1 ! nat ts)\<lparr>rc_seq_id := insert dst (rc_seq_id (cs1 ! nat ts))\<rparr>])\<rparr>
            else kv\<lparr>rc_cells := cs1, rc_used := used1\<rparr>)
      else kv)"

definition rc_keep_cell ::
  "nat \<Rightarrow> int \<Rightarrow> nat \<Rightarrow> rc_cell \<Rightarrow> nat \<times> nat \<Rightarrow> rc_cell \<times> nat \<times> nat" where
  "rc_keep_cell sz sid i c = (\<lambda>(used, new_head).
     let c1 = (if int i \<noteq> sid then c\<lparr>rc_tail := -1\<rparr> else c) in
     if \<not> rc_has_seq_id c1 sid
     then (c1\<lparr>rc_pos := -1, rc_src := -1, rc_seq_id := {}\<rparr>,
           (if rc_pos c1 \<ge> 0 then u32_sub used 1 else used), (if new_head = sz then i else new_head))
     else (c1\<lparr>rc_seq_id := {sid}\<rparr>, used, new_head))"

definition rc_seq_keep :: "int \<Rightarrow> kv_recurrent \<Rightarrow> kv_recurrent" where
  "rc_seq_keep sid kv =
     (case cell_loop (rc_keep_cell (rc_size kv) sid) 0 (rc_cells kv) (rc_used kv, rc_size kv) of
        (cs, used, new_head) \<Rightarrow> rc_lower_head new_head (kv\<lparr>rc_cells := cs, rc_used := used\<rparr>))"

text \<open>\<open>seq_add\<close> and \<open>seq_div\<close> change the position of the cell of the sequence only.\<close>

definition rc_map_pos :: "(int \<Rightarrow> int) \<Rightarrow> int \<Rightarrow> int \<Rightarrow> int \<Rightarrow> kv_recurrent \<Rightarrow> kv_recurrent" where
  "rc_map_pos f sid p0 p1 kv =
     (if norm_p0 p0 = norm_p1 p1 then kv
      else if 0 \<le> sid \<and> sid < int (rc_size kv) then
        (let t = rc_tail (rc_cells kv ! nat sid) in
         if t \<ge> 0 then
           (let c = rc_cells kv ! nat t in
            if rc_has_seq_id c sid \<and> rc_in_range p0 p1 c
            then kv\<lparr>rc_cells := (rc_cells kv)[nat t := c\<lparr>rc_pos := f (rc_pos c)\<rparr>]\<rparr> else kv)
         else kv)
      else kv)"

definition rc_seq_add :: "int \<Rightarrow> int \<Rightarrow> int \<Rightarrow> int \<Rightarrow> kv_recurrent \<Rightarrow> kv_recurrent" where
  "rc_seq_add sid p0 p1 d kv = (if d = 0 then kv else rc_map_pos (\<lambda>p. p + d) sid p0 p1 kv)"

definition rc_seq_div :: "int \<Rightarrow> int \<Rightarrow> int \<Rightarrow> int \<Rightarrow> kv_recurrent \<Rightarrow> kv_recurrent" where
  "rc_seq_div sid p0 p1 d kv = (if d = 1 then kv else rc_map_pos (\<lambda>p. cdiv p d) sid p0 p1 kv)"

definition rc_seq_pos_max :: "int \<Rightarrow> kv_recurrent \<Rightarrow> int" where
  "rc_seq_pos_max sid kv =
     foldl (\<lambda>r c. if rc_has_seq_id c sid then max r (rc_pos c) else r) 0 (rc_cells kv)"

definition rc_restore :: "kv_recurrent \<Rightarrow> kv_recurrent" where
  "rc_restore kv = (if rc_pending kv = [] then kv else snd (rc_seq_rm (-1) (-1) (-1) kv))"

definition rc_commit :: "kv_recurrent \<Rightarrow> kv_recurrent" where
  "rc_commit kv = kv\<lparr>rc_pending := []\<rparr>"

section \<open>find_slot\<close>

text \<open>
  First pass: every id of every sequence set must be below \<open>size\<close> (else false), and an id after
  the first of its set leaves the cell it had.
\<close>

fun rc_check_ids :: "nat \<Rightarrow> bool \<Rightarrow> int list \<Rightarrow> rc_cell list \<times> nat \<Rightarrow> bool \<times> rc_cell list \<times> nat" where
  "rc_check_ids sz first [] st = (True, st)"
| "rc_check_ids sz first (sid # sids) st =
     (if sid < 0 \<or> sid \<ge> int sz then (False, st)
      else let t = rc_tail (fst st ! nat sid)
           in rc_check_ids sz False sids (if \<not> first \<and> t \<ge> 0 then rc_leave sid t st else st))"

fun rc_check_seqs :: "nat \<Rightarrow> int list list \<Rightarrow> rc_cell list \<times> nat \<Rightarrow> bool \<times> rc_cell list \<times> nat" where
  "rc_check_seqs sz [] st = (True, st)"
| "rc_check_seqs sz (sids # rest) st =
     (case rc_check_ids sz True sids st of
        (ok, st') \<Rightarrow> if ok then rc_check_seqs sz rest st' else (False, st'))"

text \<open>The next empty cell, from \<open>e\<close> on and around the end, in at most \<open>size\<close> steps.\<close>

fun rc_next_empty :: "nat \<Rightarrow> nat \<Rightarrow> rc_cell list \<Rightarrow> nat \<Rightarrow> nat" where
  "rc_next_empty 0 sz cs e = e"
| "rc_next_empty (Suc k) sz cs e =
     (let e' = (if e \<ge> sz then e - sz else e) in
      if rc_is_empty (cs ! e') then e' else rc_next_empty k sz cs (e' + 1))"

text \<open>
  Second pass: a sequence that does not own its cell gets the next empty one, with a copy of the
  old tail. The state is the cells, the next empty cell and the bounds \<open>min\<close>, \<open>max\<close>.
\<close>

definition rc_owns :: "int \<Rightarrow> rc_cell list \<Rightarrow> bool option" where
  "rc_owns sid cs =
     (let t = rc_tail (cs ! nat sid) in
      if t \<ge> 0 then
        (if \<not> rc_has_seq_id (cs ! nat t) sid then None else Some (card (rc_seq_id (cs ! nat t)) = 1))
      else Some False)"

definition rc_assign :: "int \<Rightarrow> nat \<Rightarrow> rc_cell list \<Rightarrow> rc_cell list option" where
  "rc_assign sid e cs =
     (if e \<ge> length cs \<or> \<not> rc_is_empty (cs ! e) then None
      else let t = rc_tail (cs ! nat sid);
               cs1 = (if t \<ge> 0
                 then (let o_cell = cs ! nat t;
                           cs' = cs[nat t := o_cell\<lparr>rc_seq_id := rc_seq_id o_cell - {sid}\<rparr>]
                       in cs'[e := (cs' ! e)\<lparr>rc_pos := rc_pos o_cell, rc_src := rc_src o_cell,
                                           rc_seq_id := insert sid (rc_seq_id (cs' ! e))\<rparr>])
                 else cs)
           in Some (rc_set_tail sid (int e) cs1))"

fun rc_find_range ::
  "nat \<Rightarrow> int list \<Rightarrow> rc_cell list \<times> nat \<times> int \<times> int \<Rightarrow> (rc_cell list \<times> nat \<times> int \<times> int) option" where
  "rc_find_range sz [] st = Some st"
| "rc_find_range sz (sid # rest) (cs, e, mn, mx) = do {
     has_cell \<leftarrow> rc_owns sid cs;
     cs' \<leftarrow> (if has_cell then Some cs else rc_assign sid e cs);
     let e' = (if has_cell \<or> rest = [] then e else rc_next_empty sz sz cs' (e + 1));
         t = rc_tail (cs' ! nat sid)
     in rc_find_range sz rest (cs', e', min mn t, max mx t)
   }"

text \<open>Third pass: the cell of sequence \<open>s\<close> is swapped to \<open>s + min\<close>.\<close>

definition rc_retail :: "int set \<Rightarrow> int \<Rightarrow> rc_cell list \<Rightarrow> rc_cell list" where
  "rc_retail S t cs = fold (\<lambda>sid cs. rc_set_tail sid t cs) (sorted_list_of_set S) cs"

definition rc_swap :: "nat \<Rightarrow> nat \<Rightarrow> rc_cell list \<Rightarrow> rc_cell list option" where
  "rc_swap dst src cs =
     (if dst \<ge> length cs \<or> src \<ge> length cs then None
      else if dst = src then Some cs
      else let a = cs ! dst; b = cs ! src;
               cs1 = cs[dst := a\<lparr>rc_pos := rc_pos b, rc_src := rc_src b, rc_seq_id := rc_seq_id b\<rparr>,
                        src := b\<lparr>rc_pos := rc_pos a, rc_src := rc_src a, rc_seq_id := rc_seq_id a\<rparr>]
           in Some (rc_retail (rc_seq_id b) (int dst) (rc_retail (rc_seq_id a) (int src) cs1)))"

fun rc_gather :: "nat \<Rightarrow> int list \<Rightarrow> rc_cell list \<Rightarrow> rc_cell list option" where
  "rc_gather d [] cs = Some cs"
| "rc_gather d (sid # rest) cs = do {
     ensure (0 \<le> rc_tail (cs ! nat sid));
     cs' \<leftarrow> rc_swap d (nat (rc_tail (cs ! nat sid))) cs;
     rc_gather (d + 1) rest cs'
   }"

text \<open>Fourth pass: the positions and the sequence sets of the cells \<open>min, min + 1, ...\<close>.\<close>

fun rc_update_pos :: "nat \<Rightarrow> (int \<times> int list) list \<Rightarrow> rc_cell list \<Rightarrow> rc_cell list" where
  "rc_update_pos d [] cs = cs"
| "rc_update_pos d ((last_pos, sids) # rest) cs =
     rc_update_pos (d + 1) rest
       (fold (\<lambda>sid cs. rc_set_tail sid (int d) cs) sids
         (cs[d := (cs ! d)\<lparr>rc_pos := last_pos, rc_seq_id := set sids\<rparr>]))"

definition ub_sids :: "'e llama_ubatch \<Rightarrow> nat \<Rightarrow> int list" where
  "ub_sids ub s = take (nat (ub_n_seq_id ub ! s)) (ub_seq_id ub ! s)"

definition rc_last_pos :: "'e llama_ubatch \<Rightarrow> nat \<Rightarrow> int" where
  "rc_last_pos ub s = ub_pos ub ! (ub_n_seq_tokens ub * s + ub_n_seq_tokens ub - 1)"

definition rc_find_slot :: "'e llama_ubatch \<Rightarrow> kv_recurrent \<Rightarrow> (bool \<times> kv_recurrent) option" where
  "rc_find_slot ub kv =
     (let sz = rc_size kv; n_seqs = ub_n_seqs ub; seqs = map (ub_sids ub) [0..<n_seqs];
          head = (if rc_head kv > u32_add (rc_used kv) (2 * ub_n_tokens ub mod U32) then 0 else rc_head kv)
      in do {
        ensure (ub_equal_seqs ub);
        case rc_check_seqs sz seqs (rc_cells kv, rc_used kv) of (ok, cs, used) \<Rightarrow>
          if \<not> ok then Some (False, kv\<lparr>rc_head := head, rc_cells := cs, rc_used := used\<rparr>)
          else do {
            ensure (list_all (\<lambda>ids. ids \<noteq> []) seqs);
            (cs2, e, mn, mx) \<leftarrow> rc_find_range sz (map hd seqs)
               (cs, rc_next_empty sz sz cs head, int sz - 1, 0);
            cs3 \<leftarrow> rc_gather (nat mn) (map hd seqs) cs2;
            let cs4 = rc_update_pos (nat mn) (map (\<lambda>s. (rc_last_pos ub s, ub_sids ub s)) [0..<n_seqs]) cs3;
                n = nat ((mx - mn + 1) mod 4294967296)
            in Some (n \<ge> n_seqs, kv\<lparr>rc_head := nat mn, rc_n := n, rc_cells := cs4,
                 rc_used := length (filter (\<lambda>c. \<not> rc_is_empty c) cs4)\<rparr>)
          }
      })"

section \<open>Copying states\<close>

definition rc_s_copy :: "nat \<Rightarrow> kv_recurrent \<Rightarrow> int \<times> kv_recurrent" where
  "rc_s_copy i kv =
     (let cell_id = i + rc_head kv; c = rc_cells kv ! cell_id;
          src = (if rc_src c < 0 \<or> rc_src c \<ge> int (rc_size kv) then int cell_id else rc_src c)
      in (src, kv\<lparr>rc_cells := (rc_cells kv)[cell_id := c\<lparr>rc_src := int cell_id\<rparr>]\<rparr>))"

definition rc_s_mask :: "nat \<Rightarrow> kv_recurrent \<Rightarrow> int \<times> kv_recurrent" where
  "rc_s_mask i kv =
     (let cell_id = i + rc_head kv; c = rc_cells kv ! cell_id
      in (if rc_src c \<ge> 0 then 1 else 0,
          if rc_src c < 0 then kv\<lparr>rc_cells := (rc_cells kv)[cell_id := c\<lparr>rc_src := int cell_id\<rparr>]\<rparr> else kv))"

section \<open>The invariant\<close>

text \<open>
  The tails and the sequence sets agree: a sequence is in at most one cell, the one its tail
  names. Cells without sequences have no position.
\<close>

definition rc_cells_ok :: "nat \<Rightarrow> rc_cell list \<Rightarrow> bool" where
  "rc_cells_ok sz cs = (length cs = sz
    \<and> (\<forall>i < sz. finite (rc_seq_id (cs ! i)) \<and> (rc_seq_id (cs ! i) = {} \<longleftrightarrow> rc_pos (cs ! i) < 0))
    \<and> (\<forall>i < sz. \<forall>s \<in> rc_seq_id (cs ! i). 0 \<le> s \<and> s < int sz \<and> rc_tail (cs ! nat s) = int i)
    \<and> (\<forall>s < sz. rc_tail (cs ! s) = -1 \<or> (0 \<le> rc_tail (cs ! s) \<and> rc_tail (cs ! s) < int sz
         \<and> int s \<in> rc_seq_id (cs ! nat (rc_tail (cs ! s))))))"

definition rc_occupied :: "rc_cell list \<Rightarrow> nat" where
  "rc_occupied cs = length (filter (\<lambda>c. \<not> rc_is_empty c) cs)"

definition rc_ok :: "kv_recurrent \<Rightarrow> bool" where
  "rc_ok kv = (rc_cells_ok (rc_size kv) (rc_cells kv) \<and> rc_used kv = rc_occupied (rc_cells kv)
     \<and> rc_size kv < 2147483648 \<and> rc_head kv \<le> rc_size kv)"

text \<open>The abstract view: the state cell and the position of a sequence.\<close>

definition rc_state_of :: "kv_recurrent \<Rightarrow> nat \<Rightarrow> (nat \<times> int) option" where
  "rc_state_of kv s =
     (let t = rc_tail (rc_cells kv ! s) in
      if t < 0 then None else Some (nat t, rc_pos (rc_cells kv ! nat t)))"

lemma rc_init_ok: "sz < 2147483648 \<Longrightarrow> rc_ok (rc_init sz)"
  by (simp add: rc_ok_def rc_init_def rc_cells_ok_def rc_occupied_def rc_cell_new_def rc_is_empty_def)

lemma rc_cells_okD:
  assumes "rc_cells_ok sz cs"
  shows "length cs = sz" "\<And>i. i < sz \<Longrightarrow> finite (rc_seq_id (cs ! i))"
    "\<And>i. i < sz \<Longrightarrow> rc_seq_id (cs ! i) = {} \<longleftrightarrow> rc_pos (cs ! i) < 0"
    "\<And>i s. i < sz \<Longrightarrow> s \<in> rc_seq_id (cs ! i) \<Longrightarrow> 0 \<le> s \<and> s < int sz \<and> rc_tail (cs ! nat s) = int i"
    "\<And>s. s < sz \<Longrightarrow> rc_tail (cs ! s) = -1 \<or> (0 \<le> rc_tail (cs ! s) \<and> rc_tail (cs ! s) < int sz
         \<and> int s \<in> rc_seq_id (cs ! nat (rc_tail (cs ! s))))"
  using assms by (auto simp: rc_cells_ok_def)

lemma rc_occupied_le: "rc_occupied cs \<le> length cs"
  by (simp add: rc_occupied_def)

lemma rc_clear_ok: "rc_ok kv \<Longrightarrow> rc_ok (rc_clear kv)"
  by (auto simp: rc_ok_def rc_clear_def rc_cells_ok_def rc_occupied_def rc_cell_new_def rc_is_empty_def)

lemma rc_lower_head_sel [simp]:
  "rc_cells (rc_lower_head h kv) = rc_cells kv" "rc_size (rc_lower_head h kv) = rc_size kv"
  "rc_used (rc_lower_head h kv) = rc_used kv" "rc_pending (rc_lower_head h kv) = rc_pending kv"
  by (simp_all add: rc_lower_head_def)

lemma rc_lower_head_le: "rc_head kv \<le> m \<Longrightarrow> rc_head (rc_lower_head h kv) \<le> m"
  by (simp add: rc_lower_head_def)

subsection \<open>Removing a sequence\<close>

definition rc_rm_new :: "int \<Rightarrow> int \<Rightarrow> int \<Rightarrow> rc_cell \<Rightarrow> rc_cell" where
  "rc_rm_new sid p0 p1 c = fst (rc_rm_cell 0 sid p0 p1 0 c (0, 0))"

lemma rc_rm_cell_new: "fst (rc_rm_cell sz sid p0 p1 i c s) = rc_rm_new sid p0 p1 c"
  by (auto simp: rc_rm_new_def rc_rm_cell_def Let_def split: prod.splits)

definition rc_cell_ok :: "rc_cell \<Rightarrow> bool" where
  "rc_cell_ok c = (rc_seq_id c = {} \<longleftrightarrow> rc_pos c < 0)"

lemma rc_rm_used:
  assumes "\<forall>c \<in> set cs. rc_cell_ok c" "used = rc_occupied cs" "length cs < U32"
  shows "fst (snd (cell_loop (rc_rm_cell sz sid p0 p1) 0 cs (used, nh))) = rc_occupied (map (rc_rm_new sid p0 p1) cs)"
proof -
  have u: "fst (snd (rc_rm_cell sz sid p0 p1 i c s)) =
      (if \<not> rc_is_empty c \<and> rc_is_empty (rc_rm_new sid p0 p1 c) then u32_sub (fst s) 1 else fst s)"
    if "rc_cell_ok c" for i c s
    using that by (auto simp: rc_rm_cell_def rc_rm_new_def rc_cell_ok_def rc_is_empty_def Let_def
        rc_has_seq_id_def split_beta)
  have e: "rc_is_empty (rc_rm_new sid p0 p1 c)" if "rc_cell_ok c" "rc_is_empty c" for c
    using that by (auto simp: rc_rm_cell_def rc_rm_new_def rc_is_empty_def Let_def)
  have "fst (used, nh) < U32" using assms rc_occupied_le [of cs] by simp
  then show ?thesis
    using cell_loop_count [where ok = rc_cell_ok and E = rc_is_empty and used_of = fst and k = 0
        and f = "rc_rm_cell sz sid p0 p1" and g = "\<lambda>_. rc_rm_new sid p0 p1", OF rc_rm_cell_new u e assms(1),
        of "(used, nh)" 0] assms(2)
    by (simp add: rc_occupied_def cell_loop_map [OF rc_rm_cell_new])
qed

text \<open>What the whole loop does when \<open>sid\<close> is in at most the cell \<open>t\<close>.\<close>

lemma rc_rm_loop_cells:
  "rc_cells (rc_rm_loop sid p0 p1 kv) = map (rc_rm_new sid p0 p1) (rc_cells kv)"
  by (simp add: rc_rm_loop_def split_beta cell_loop_map [OF rc_rm_cell_new])

lemma rc_rm_loop_frame:
  "rc_size (rc_rm_loop sid p0 p1 kv) = rc_size kv"
  "rc_head kv \<le> m \<Longrightarrow> rc_head (rc_rm_loop sid p0 p1 kv) \<le> m"
  by (simp_all add: rc_rm_loop_def split_beta rc_lower_head_le)

lemma rc_rm_new_out:
  "\<not> (rc_in_range p0 p1 c \<and> sid \<in> rc_seq_id c) \<Longrightarrow> 0 \<le> sid \<Longrightarrow> rc_rm_new sid p0 p1 c = c"
  by (auto simp: rc_rm_new_def rc_rm_cell_def rc_has_seq_id_def)

lemma rc_rm_new_in:
  "rc_in_range p0 p1 c \<Longrightarrow> sid \<in> rc_seq_id c \<Longrightarrow> 0 \<le> sid \<Longrightarrow> rc_rm_new sid p0 p1 c =
     (if rc_seq_id c = {sid} then c\<lparr>rc_pos := -1, rc_src := -1, rc_seq_id := {}\<rparr>
      else c\<lparr>rc_seq_id := rc_seq_id c - {sid}\<rparr>)"
  by (auto simp: rc_rm_new_def rc_rm_cell_def rc_has_seq_id_def rc_is_empty_def Let_def)

lemma rc_in_range_tail [simp]: "rc_in_range p0 p1 (c\<lparr>rc_tail := x\<rparr>) = rc_in_range p0 p1 c"
  by (simp add: rc_in_range_def)

lemma rc_rm_new_sel:
  assumes "0 \<le> sid"
  shows "rc_seq_id (rc_rm_new sid p0 p1 c) = (if rc_in_range p0 p1 c then rc_seq_id c - {sid} else rc_seq_id c)"
    "rc_tail (rc_rm_new sid p0 p1 c) = rc_tail c"
    "rc_pos (rc_rm_new sid p0 p1 c) = (if rc_in_range p0 p1 c \<and> rc_seq_id c = {sid} then -1 else rc_pos c)"
  using assms by (auto simp: rc_rm_new_def rc_rm_cell_def rc_has_seq_id_def rc_is_empty_def Let_def)

subsection \<open>Leaving and joining a cell\<close>

lemma rc_cells_ok_leave:
  assumes "rc_cells_ok sz cs" "s < sz" "rc_tail (cs ! s) = int t" "length cs' = sz"
    and seq: "\<And>j. j < sz \<Longrightarrow> rc_seq_id (cs' ! j) = (if j = t then rc_seq_id (cs ! j) - {int s} else rc_seq_id (cs ! j))"
    and tail: "\<And>j. j < sz \<Longrightarrow> rc_tail (cs' ! j) = (if j = s then -1 else rc_tail (cs ! j))"
    and pos: "\<And>j. j < sz \<Longrightarrow> rc_seq_id (cs' ! j) = {} \<longleftrightarrow> rc_pos (cs' ! j) < 0"
  shows "rc_cells_ok sz cs'"
proof -
  note ok = rc_cells_okD [OF assms(1)]
  have ids: "0 \<le> x \<and> x < int sz \<and> rc_tail (cs' ! nat x) = int i" if i: "i < sz" and x: "x \<in> rc_seq_id (cs' ! i)" for i x
  proof -
    have x0: "x \<in> rc_seq_id (cs ! i)" "\<not> (i = t \<and> x = int s)" using x seq [OF i] by (auto split: if_splits)
    have b: "0 \<le> x" "x < int sz" "rc_tail (cs ! nat x) = int i" using ok(4) [OF i x0(1)] by auto
    moreover have "nat x \<noteq> s" using b assms(3) x0(2) by auto
    moreover have "nat x < sz" using b by auto
    ultimately show ?thesis using tail by simp
  qed
  have tl: "rc_tail (cs' ! q) = -1 \<or> (0 \<le> rc_tail (cs' ! q) \<and> rc_tail (cs' ! q) < int sz
      \<and> int q \<in> rc_seq_id (cs' ! nat (rc_tail (cs' ! q))))" if q: "q < sz" for q
  proof (cases "q = s \<or> rc_tail (cs ! q) = -1")
    case True
    then show ?thesis using tail [OF q] by auto
  next
    case False
    then have t: "0 \<le> rc_tail (cs ! q)" "rc_tail (cs ! q) < int sz" "int q \<in> rc_seq_id (cs ! nat (rc_tail (cs ! q)))"
      using ok(5) [OF q] by auto
    define m where "m = nat (rc_tail (cs ! q))"
    have m: "m < sz" "int q \<in> rc_seq_id (cs ! m)" using t by (auto simp: m_def)
    then have "int q \<in> rc_seq_id (cs' ! m)" using False seq [OF m(1)] by (cases "m = t") auto
    then have "int q \<in> rc_seq_id (cs' ! nat (rc_tail (cs ! q)))" by (simp add: m_def)
    then show ?thesis using t False tail [OF q] by simp
  qed
  have fin: "finite (rc_seq_id (cs' ! i))" if "i < sz" for i
    using ok(2) [OF that] seq [OF that] by (cases "i = t") simp_all
  show ?thesis unfolding rc_cells_ok_def using assms(4) fin pos ids tl by blast
qed

lemma rc_cells_ok_join:
  assumes "rc_cells_ok sz cs" "s < sz" "rc_tail (cs ! s) = -1" "t < sz" "length cs' = sz"
    and seq: "\<And>j. j < sz \<Longrightarrow> rc_seq_id (cs' ! j) = (if j = t then insert (int s) (rc_seq_id (cs ! j)) else rc_seq_id (cs ! j))"
    and tail: "\<And>j. j < sz \<Longrightarrow> rc_tail (cs' ! j) = (if j = s then int t else rc_tail (cs ! j))"
    and pos: "\<And>j. j < sz \<Longrightarrow> rc_seq_id (cs' ! j) = {} \<longleftrightarrow> rc_pos (cs' ! j) < 0"
  shows "rc_cells_ok sz cs'"
proof -
  note ok = rc_cells_okD [OF assms(1)]
  have ids: "0 \<le> x \<and> x < int sz \<and> rc_tail (cs' ! nat x) = int i" if i: "i < sz" and x: "x \<in> rc_seq_id (cs' ! i)" for i x
  proof (cases "x = int s")
    case True
    have "i = t"
    proof (rule ccontr)
      assume "i \<noteq> t"
      then have "int s \<in> rc_seq_id (cs ! i)" using x seq [OF i] True by simp
      then show False using ok(4) [OF i] assms(3) by force
    qed
    then show ?thesis using True tail [OF assms(2)] assms(2) by simp
  next
    case False
    then have "x \<in> rc_seq_id (cs ! i)" using x seq [OF i] by (auto split: if_splits)
    then have b: "0 \<le> x" "x < int sz" "rc_tail (cs ! nat x) = int i" using ok(4) [OF i] by auto
    moreover have "nat x \<noteq> s" "nat x < sz" using b False by auto
    ultimately show ?thesis using tail by simp
  qed
  have tl: "rc_tail (cs' ! q) = -1 \<or> (0 \<le> rc_tail (cs' ! q) \<and> rc_tail (cs' ! q) < int sz
      \<and> int q \<in> rc_seq_id (cs' ! nat (rc_tail (cs' ! q))))" if q: "q < sz" for q
  proof (cases "q = s")
    case True
    then show ?thesis using tail [OF q] seq [OF assms(4)] assms(4) by simp
  next
    case False
    show ?thesis
    proof (cases "rc_tail (cs ! q) = -1")
      case neg: False
      then have t: "0 \<le> rc_tail (cs ! q)" "rc_tail (cs ! q) < int sz" "int q \<in> rc_seq_id (cs ! nat (rc_tail (cs ! q)))"
        using ok(5) [OF q] by auto
      define m where "m = nat (rc_tail (cs ! q))"
      have m: "m < sz" "int q \<in> rc_seq_id (cs ! m)" using t by (auto simp: m_def)
      then have "int q \<in> rc_seq_id (cs' ! m)" using seq [OF m(1)] by (cases "m = t") auto
      then show ?thesis using t False tail [OF q] by (simp add: m_def)
    qed (use False tail [OF q] in simp)
  qed
  have fin: "finite (rc_seq_id (cs' ! i))" if "i < sz" for i
    using ok(2) [OF that] seq [OF that] by (cases "i = t") simp_all
  show ?thesis unfolding rc_cells_ok_def using assms(5) fin pos ids tl by blast
qed

lemma rc_nowhere:
  assumes "rc_cells_ok sz cs" "s < sz" "rc_tail (cs ! s) = -1" "i < sz"
  shows "int s \<notin> rc_seq_id (cs ! i)"
  using rc_cells_okD(4) [OF assms(1,4)] assms(3) by force

lemma rc_only_tail:
  assumes "rc_cells_ok sz cs" "s < sz" "i < sz" "int s \<in> rc_seq_id (cs ! i)"
  shows "rc_tail (cs ! s) = int i"
  using rc_cells_okD(4) [OF assms(1,3,4)] by simp

text \<open>\<open>rc_leave\<close> keeps the invariant; afterwards the sequence has no cell.\<close>

lemma rc_occupied_simps [simp]:
  "rc_occupied [] = 0" "rc_occupied (c # cs) = (if rc_is_empty c then 0 else 1) + rc_occupied cs"
  by (simp_all add: rc_occupied_def)

lemma rc_occupied_update:
  "i < length cs \<Longrightarrow> rc_occupied (cs[i := c]) + (if rc_is_empty (cs ! i) then 0 else 1)
     = rc_occupied cs + (if rc_is_empty c then 0 else 1)"
proof (induction cs arbitrary: i)
  case Nil
  then show ?case by simp
next
  case (Cons d cs)
  show ?case
  proof (cases i)
    case (Suc m)
    then show ?thesis using Cons.IH [of m] Cons.prems by simp
  qed simp
qed

lemma rc_set_tail_nth:
  "j < length cs \<Longrightarrow> rc_set_tail sid t cs ! j = (if j = nat sid then (cs ! j)\<lparr>rc_tail := t\<rparr> else cs ! j)"
  by (simp add: rc_set_tail_def nth_list_update)

lemma rc_set_tail_length [simp]: "length (rc_set_tail sid t cs) = length cs"
  by (simp add: rc_set_tail_def)

lemma rc_occupied_set_tail [simp]: "rc_occupied (rc_set_tail sid t cs) = rc_occupied cs"
proof (cases "nat sid < length cs")
  case True
  then show ?thesis
    using rc_occupied_update [OF True, of "(cs ! nat sid)\<lparr>rc_tail := t\<rparr>"]
    by (simp add: rc_set_tail_def rc_is_empty_def split: if_splits)
qed (simp add: rc_set_tail_def list_update_beyond not_less)

lemma rc_leave_ok:
  assumes ok: "rc_cells_ok sz cs" and s: "s < sz" "rc_tail (cs ! s) = int t" and u: "used = rc_occupied cs" "sz < U32"
    and l: "rc_leave (int s) (int t) (cs, used) = (cs', used')"
  shows "rc_cells_ok sz cs'" "used' = rc_occupied cs'" "rc_tail (cs' ! s) = -1" "length cs' = sz"
    "\<And>j. j < sz \<Longrightarrow> j \<noteq> s \<Longrightarrow> rc_tail (cs' ! j) = rc_tail (cs ! j)"
    "\<And>j. j < sz \<Longrightarrow> rc_seq_id (cs' ! j) = rc_seq_id (cs ! j) - {int s}"
    "\<And>j. j < sz \<Longrightarrow> rc_seq_id (cs' ! j) \<noteq> {} \<Longrightarrow> rc_pos (cs' ! j) = rc_pos (cs ! j)"
proof -
  note d = rc_cells_okD [OF ok]
  have t: "t < sz" "int s \<in> rc_seq_id (cs ! t)" using d(5) [OF s(1)] s(2) by auto
  define c where "c = (cs ! t)\<lparr>rc_seq_id := rc_seq_id (cs ! t) - {int s}\<rparr>"
  define c' where "c' = (if rc_seq_id c = {} then c\<lparr>rc_pos := -1, rc_src := -1\<rparr> else c)"
  have cs': "cs' = rc_set_tail (int s) (-1) (cs[t := c'])"
    "used' = (if rc_seq_id c = {} then u32_sub used 1 else used)"
  proof -
    have "cs' = fst (rc_leave (int s) (int t) (cs, used))" "used' = snd (rc_leave (int s) (int t) (cs, used))"
      using l by simp_all
    then show "cs' = rc_set_tail (int s) (-1) (cs[t := c'])"
      "used' = (if rc_seq_id c = {} then u32_sub used 1 else used)"
      by (simp_all add: rc_leave_def Let_def c_def c'_def del: Diff_eq_empty_iff)
  qed
  have nth: "cs' ! j = (if j = s then (if j = t then c' else cs ! j)\<lparr>rc_tail := -1\<rparr> else if j = t then c' else cs ! j)"
    if "j < sz" for j
    using that d(1) t(1) by (simp add: cs' rc_set_tail_nth nth_list_update)
  have seqc: "rc_seq_id c' = rc_seq_id (cs ! t) - {int s}" "rc_tail c' = rc_tail (cs ! t)"
    by (simp_all add: c'_def c_def)
  show len: "length cs' = sz" by (simp add: cs' d(1))
  show seq: "\<And>j. j < sz \<Longrightarrow> rc_seq_id (cs' ! j) = rc_seq_id (cs ! j) - {int s}"
  proof -
    fix j assume j: "j < sz"
    show "rc_seq_id (cs' ! j) = rc_seq_id (cs ! j) - {int s}"
    proof (cases "j = t")
      case False
      then have "int s \<notin> rc_seq_id (cs ! j)" using rc_only_tail [OF ok s(1) j] s(2) by auto
      then show ?thesis using nth [OF j] False by auto
    qed (use nth [OF j] seqc in auto)
  qed
  show tail: "rc_tail (cs' ! s) = -1" "\<And>j. j < sz \<Longrightarrow> j \<noteq> s \<Longrightarrow> rc_tail (cs' ! j) = rc_tail (cs ! j)"
    using nth s(1) seqc by auto
  show pos: "\<And>j. j < sz \<Longrightarrow> rc_seq_id (cs' ! j) \<noteq> {} \<Longrightarrow> rc_pos (cs' ! j) = rc_pos (cs ! j)"
    using nth by (auto simp: c'_def c_def)
  have emp: "rc_seq_id (cs' ! j) = {} \<longleftrightarrow> rc_pos (cs' ! j) < 0" if j: "j < sz" for j
    using nth [OF j] d(3) [OF j] t(2) by (auto simp: c'_def c_def)
  have seq': "rc_seq_id (cs' ! j) = (if j = t then rc_seq_id (cs ! j) - {int s} else rc_seq_id (cs ! j))" if j: "j < sz" for j
  proof (cases "j = t")
    case False
    then have "int s \<notin> rc_seq_id (cs ! j)" using rc_only_tail [OF ok s(1) j] s(2) by auto
    then show ?thesis using seq [OF j] False by simp
  qed (use seq [OF j] in simp)
  show "rc_cells_ok sz cs'"
    by (rule rc_cells_ok_leave [OF ok s len seq' _ emp]) (use tail in auto)
  have ne: "\<not> rc_is_empty (cs ! t)" using t(2) by (auto simp: rc_is_empty_def)
  have ie: "rc_is_empty c' \<longleftrightarrow> rc_seq_id c = {}" by (simp add: rc_is_empty_def c'_def)
  have "rc_occupied (cs[t := c']) + 1 = rc_occupied cs + (if rc_seq_id c = {} then 0 else 1)"
    using rc_occupied_update [of t cs c'] t(1) d(1) ne ie by simp
  moreover have "rc_occupied cs < U32" using rc_occupied_le [of cs] d(1) u(2) by simp
  ultimately show "used' = rc_occupied cs'"
    using u(1) by (auto simp: cs' u32_sub_exact split: if_splits)
qed

subsection \<open>The sequence operations keep the invariant\<close>

lemma rc_okD:
  assumes "rc_ok kv"
  shows "rc_cells_ok (rc_size kv) (rc_cells kv)" "rc_used kv = rc_occupied (rc_cells kv)"
    "rc_size kv < 2147483648" "rc_head kv \<le> rc_size kv" "length (rc_cells kv) = rc_size kv"
  using assms by (auto simp: rc_ok_def rc_cells_ok_def)

lemma rc_cells_cell_ok:
  assumes "rc_cells_ok sz cs"
  shows "\<forall>c \<in> set cs. rc_cell_ok c"
proof
  fix c assume "c \<in> set cs"
  then obtain i where "i < sz" "c = cs ! i" using rc_cells_okD(1) [OF assms] by (metis in_set_conv_nth)
  then show "rc_cell_ok c" using rc_cells_okD(3) [OF assms] by (simp add: rc_cell_ok_def)
qed

lemma rc_set_tail_cell_ok:
  assumes "\<forall>c \<in> set cs. rc_cell_ok c"
  shows "\<forall>c \<in> set (rc_set_tail sid t cs). rc_cell_ok c"
proof
  fix c assume "c \<in> set (rc_set_tail sid t cs)"
  then obtain j where j: "j < length cs" "c = rc_set_tail sid t cs ! j"
    by (metis in_set_conv_nth rc_set_tail_length)
  then have "rc_cell_ok (cs ! j)" using assms by simp
  then show "rc_cell_ok c" using j by (auto simp: rc_set_tail_nth rc_cell_ok_def)
qed

lemma rc_rm_loop_used:
  assumes "\<forall>c \<in> set (rc_cells kv). rc_cell_ok c" "rc_used kv = rc_occupied (rc_cells kv)" "length (rc_cells kv) < U32"
  shows "rc_used (rc_rm_loop sid p0 p1 kv) = rc_occupied (rc_cells (rc_rm_loop sid p0 p1 kv))"
  using rc_rm_used [OF assms, of "rc_size kv" sid p0 p1 "rc_size kv"]
  by (simp add: rc_rm_loop_def split_beta cell_loop_map [OF rc_rm_cell_new])

lemma rc_rm_loop_nothing:
  assumes "rc_ok kv" "0 \<le> sid" "\<And>c. c \<in> set (rc_cells kv) \<Longrightarrow> \<not> (rc_in_range p0 p1 c \<and> sid \<in> rc_seq_id c)"
  shows "rc_ok (rc_rm_loop sid p0 p1 kv)" "rc_cells (rc_rm_loop sid p0 p1 kv) = rc_cells kv"
proof -
  note ok = rc_okD [OF assms(1)]
  show eq: "rc_cells (rc_rm_loop sid p0 p1 kv) = rc_cells kv"
    unfolding rc_rm_loop_cells by (rule map_idI) (use assms(2,3) rc_rm_new_out in blast)
  have "rc_used (rc_rm_loop sid p0 p1 kv) = rc_occupied (rc_cells (rc_rm_loop sid p0 p1 kv))"
    by (rule rc_rm_loop_used) (use ok rc_cells_cell_ok in auto)
  then show "rc_ok (rc_rm_loop sid p0 p1 kv)"
    using ok eq rc_rm_loop_frame by (simp add: rc_ok_def)
qed

text \<open>The range contains the cell of the sequence: the sequence leaves it.\<close>

lemma rc_rm_loop_leaves:
  assumes ok: "rc_ok kv" and s: "s < rc_size kv" "rc_tail (rc_cells kv ! s) = int t"
    and r: "rc_in_range p0 p1 (rc_cells kv ! t)"
  defines "kv1 \<equiv> kv\<lparr>rc_cells := rc_set_tail (int s) (-1) (rc_cells kv)\<rparr>"
  shows "rc_ok (rc_rm_loop (int s) p0 p1 kv1)"
    "\<And>j. j < rc_size kv \<Longrightarrow> rc_seq_id (rc_cells (rc_rm_loop (int s) p0 p1 kv1) ! j) = rc_seq_id (rc_cells kv ! j) - {int s}"
    "\<And>j. j < rc_size kv \<Longrightarrow> rc_tail (rc_cells (rc_rm_loop (int s) p0 p1 kv1) ! j) = (if j = s then -1 else rc_tail (rc_cells kv ! j))"
proof -
  let ?sz = "rc_size kv" and ?cs = "rc_cells kv" and ?cs' = "rc_cells (rc_rm_loop (int s) p0 p1 kv1)"
  note d = rc_okD [OF ok]
  note cd = rc_cells_okD [OF d(1)]
  have t: "t < ?sz" "int s \<in> rc_seq_id (?cs ! t)" using cd(5) [OF s(1)] s(2) by auto
  have nth: "?cs' ! j = (if j = t then rc_rm_new (int s) p0 p1 (if j = s then (?cs ! j)\<lparr>rc_tail := -1\<rparr> else ?cs ! j)
      else if j = s then (?cs ! j)\<lparr>rc_tail := -1\<rparr> else ?cs ! j)" if j: "j < ?sz" for j
  proof -
    have m: "?cs' ! j = rc_rm_new (int s) p0 p1 (if j = s then (?cs ! j)\<lparr>rc_tail := -1\<rparr> else ?cs ! j)"
      using j d(5) by (simp add: rc_rm_loop_cells kv1_def rc_set_tail_nth)
    have "int s \<notin> rc_seq_id (?cs ! j)" if "j \<noteq> t"
      using rc_only_tail [OF d(1) s(1) j] s(2) that by auto
    then show ?thesis using m by (auto simp: rc_rm_new_out)
  qed
  define ct where "ct = (if t = s then (?cs ! t)\<lparr>rc_tail := -1\<rparr> else ?cs ! t)"
  have ct: "rc_in_range p0 p1 ct" "rc_seq_id ct = rc_seq_id (?cs ! t)" "rc_pos ct = rc_pos (?cs ! t)"
    "rc_tail ct = (if t = s then -1 else rc_tail (?cs ! t))" and nth_t: "?cs' ! t = rc_rm_new (int s) p0 p1 ct"
    using r nth [OF t(1)] by (auto simp: ct_def)
  have nth_o: "?cs' ! j = (if j = s then (?cs ! j)\<lparr>rc_tail := -1\<rparr> else ?cs ! j)" if "j < ?sz" "j \<noteq> t" for j
    using nth [OF that(1)] that(2) by simp
  have len: "length ?cs' = ?sz" by (simp add: rc_rm_loop_cells kv1_def d(5))
  show seq: "rc_seq_id (?cs' ! j) = rc_seq_id (?cs ! j) - {int s}" if j: "j < ?sz" for j
  proof (cases "j = t")
    case False
    then have "int s \<notin> rc_seq_id (?cs ! j)" using rc_only_tail [OF d(1) s(1) j] s(2) by auto
    then show ?thesis using nth_o [OF j False] by simp
  next
    case True
    show ?thesis unfolding True nth_t using ct by (simp add: rc_rm_new_sel)
  qed
  show tail: "rc_tail (?cs' ! j) = (if j = s then -1 else rc_tail (?cs ! j))" if j: "j < ?sz" for j
  proof (cases "j = t")
    case True
    show ?thesis unfolding True nth_t using ct by (simp add: rc_rm_new_sel)
  qed (use nth_o [OF j] in simp)
  have pos: "rc_seq_id (?cs' ! j) = {} \<longleftrightarrow> rc_pos (?cs' ! j) < 0" if j: "j < ?sz" for j
  proof (cases "j = t")
    case True
    have "rc_seq_id ct = {int s} \<longleftrightarrow> rc_seq_id ct - {int s} = {}" using ct(2) t(2) by auto
    then show ?thesis unfolding True nth_t using ct cd(3) [OF t(1)] t(2) by (auto simp: rc_rm_new_sel)
  next
    case False
    then show ?thesis using nth_o [OF j] cd(3) [OF j] by (cases "j = s") simp_all
  qed
  have seq': "rc_seq_id (?cs' ! j) = (if j = t then rc_seq_id (?cs ! j) - {int s} else rc_seq_id (?cs ! j))" if j: "j < ?sz" for j
    using seq [OF j] rc_only_tail [OF d(1) s(1) j] s(2) by auto
  have "rc_cells_ok ?sz ?cs'"
    by (rule rc_cells_ok_leave [OF d(1) s len seq' tail pos])
  moreover have "rc_used (rc_rm_loop (int s) p0 p1 kv1) = rc_occupied ?cs'"
  proof (rule rc_rm_loop_used)
    show "\<forall>c \<in> set (rc_cells kv1). rc_cell_ok c"
      using rc_set_tail_cell_ok [OF rc_cells_cell_ok [OF d(1)]] by (simp add: kv1_def)
  qed (use d in \<open>simp_all add: kv1_def\<close>)
  ultimately show "rc_ok (rc_rm_loop (int s) p0 p1 kv1)"
    using d(3,4) by (simp add: rc_ok_def kv1_def rc_rm_loop_frame)
qed

text \<open>\<open>seq_rm\<close> of one sequence: refused without effect, or the invariant holds afterwards.\<close>

lemma rc_seq_rm_cases:
  assumes ok: "rc_ok kv" and s: "s < rc_size kv" and r: "rc_seq_rm (int s) p0 p1 kv = (b, kv')"
  shows "rc_ok kv' \<and> rc_size kv' = rc_size kv \<and> (\<not> b \<longrightarrow> kv' = kv)
    \<and> (\<forall>q < rc_size kv. q \<noteq> s \<longrightarrow> rc_tail (rc_cells kv' ! q) = rc_tail (rc_cells kv ! q))
    \<and> (b \<longrightarrow> (case rc_state_of kv s of None \<Rightarrow> rc_cells kv' = rc_cells kv
        | Some (t, p) \<Rightarrow> if norm_p0 p0 \<le> p \<and> p < norm_p1 p1 then rc_state_of kv' s = None
                         else rc_cells kv' = rc_cells kv))"
proof -
  let ?cs = "rc_cells kv"
  note d = rc_okD [OF ok]
  note cd = rc_cells_okD [OF d(1)]
  consider (no) "rc_tail (?cs ! s) = -1" | (yes) t where "rc_tail (?cs ! s) = int t" "t < rc_size kv" "int s \<in> rc_seq_id (?cs ! t)"
    using cd(5) [OF s] by (metis nat_int nonneg_int_cases of_nat_less_iff)
  then show ?thesis
  proof cases
    case no
    have "(b, kv') = (True, rc_rm_loop (int s) p0 p1 kv)" using r no s by (simp add: rc_seq_rm_def Let_def)
    moreover have "rc_ok (rc_rm_loop (int s) p0 p1 kv)" "rc_cells (rc_rm_loop (int s) p0 p1 kv) = ?cs"
      using rc_rm_loop_nothing [OF ok, of "int s" p0 p1] rc_nowhere [OF d(1) s no] d(5)
      by (force simp: in_set_conv_nth)+
    ultimately show ?thesis using no by (simp add: rc_state_of_def rc_rm_loop_frame)
  next
    case yes
    let ?p = "rc_pos (?cs ! t)"
    have st: "rc_state_of kv s = Some (t, ?p)" using yes(1) by (simp add: rc_state_of_def)
    show ?thesis
    proof (cases "rc_rm_tail p0 p1 (?cs ! t)")
      case None
      then show ?thesis using r yes(1) s ok by (simp add: rc_seq_rm_def Let_def)
    next
      case (Some invalid)
      have inv: "invalid = rc_in_range p0 p1 (?cs ! t)"
        using Some by (auto simp: rc_rm_tail_def rc_in_range_def split: if_splits)
      show ?thesis
      proof (cases invalid)
        case True
        let ?kv' = "rc_rm_loop (int s) p0 p1 (kv\<lparr>rc_cells := rc_set_tail (int s) (-1) ?cs\<rparr>)"
        note l = rc_rm_loop_leaves [OF ok s yes(1), of p0 p1]
        have e: "(b, kv') = (True, ?kv')" using r yes(1) s Some True by (simp add: rc_seq_rm_def Let_def)
        have "rc_in_range p0 p1 (?cs ! t)" using inv True by simp
        then have "rc_ok ?kv'" "\<forall>q < rc_size kv. rc_tail (rc_cells ?kv' ! q) = (if q = s then -1 else rc_tail (?cs ! q))"
          "norm_p0 p0 \<le> ?p \<and> ?p < norm_p1 p1"
          using l by (simp_all add: rc_in_range_def)
        then show ?thesis using e s st by (simp add: rc_state_of_def rc_rm_loop_frame)
      next
        case False
        have e: "(b, kv') = (True, rc_rm_loop (int s) p0 p1 kv)"
          using r yes(1) s Some False by (simp add: rc_seq_rm_def Let_def)
        have out: "\<not> (rc_in_range p0 p1 c \<and> int s \<in> rc_seq_id c)" if "c \<in> set ?cs" for c
        proof -
          obtain j where "j < length ?cs" "?cs ! j = c" using \<open>c \<in> set ?cs\<close> unfolding in_set_conv_nth by blast
          then have j: "j < rc_size kv" "c = ?cs ! j" using d(5) by simp_all
          show ?thesis
          proof
            assume c: "rc_in_range p0 p1 c \<and> int s \<in> rc_seq_id c"
            then have "rc_tail (?cs ! s) = int j" using rc_only_tail [OF d(1) s j(1)] j(2) by simp
            then have "c = ?cs ! t" using yes(1) j(2) by simp
            then show False using c inv False by simp
          qed
        qed
        have "rc_ok (rc_rm_loop (int s) p0 p1 kv)" "rc_cells (rc_rm_loop (int s) p0 p1 kv) = ?cs"
          using rc_rm_loop_nothing [OF ok, of "int s" p0 p1] out by simp_all
        moreover have "\<not> (norm_p0 p0 \<le> ?p \<and> ?p < norm_p1 p1)" using inv False by (simp add: rc_in_range_def)
        ultimately show ?thesis using e st by (auto simp: rc_rm_loop_frame)
      qed
    qed
  qed
qed

text \<open>\<open>seq_cp\<close>: the destination shares the cell of the source, every other sequence keeps its cell.\<close>

lemma rc_join_ok:
  assumes ok: "rc_cells_ok sz cs" and s: "s < sz" "rc_tail (cs ! s) = -1" and t: "t < sz" "rc_seq_id (cs ! t) \<noteq> {}"
  defines "cs' \<equiv> rc_set_tail (int s) (int t) (cs[t := (cs ! t)\<lparr>rc_seq_id := insert (int s) (rc_seq_id (cs ! t))\<rparr>])"
  shows "rc_cells_ok sz cs'" "rc_occupied cs' = rc_occupied cs"
    "\<And>j. j < sz \<Longrightarrow> rc_tail (cs' ! j) = (if j = s then int t else rc_tail (cs ! j))"
    "\<And>j. j < sz \<Longrightarrow> rc_pos (cs' ! j) = rc_pos (cs ! j)"
proof -
  note cd = rc_cells_okD [OF ok]
  have nth: "cs' ! j = (let c = (if j = t then (cs ! j)\<lparr>rc_seq_id := insert (int s) (rc_seq_id (cs ! j))\<rparr> else cs ! j)
      in if j = s then c\<lparr>rc_tail := int t\<rparr> else c)" if "j < sz" for j
    using that cd(1) t(1) by (auto simp: cs'_def rc_set_tail_nth nth_list_update Let_def)
  show tail: "\<And>j. j < sz \<Longrightarrow> rc_tail (cs' ! j) = (if j = s then int t else rc_tail (cs ! j))"
    using nth by (auto simp: Let_def)
  show pos: "\<And>j. j < sz \<Longrightarrow> rc_pos (cs' ! j) = rc_pos (cs ! j)"
    using nth by (auto simp: Let_def)
  have seq: "rc_seq_id (cs' ! j) = (if j = t then insert (int s) (rc_seq_id (cs ! j)) else rc_seq_id (cs ! j))" if "j < sz" for j
    using nth [OF that] by (auto simp: Let_def)
  show "rc_cells_ok sz cs'"
  proof (rule rc_cells_ok_join [OF ok s t(1) _ seq tail])
    show "length cs' = sz" by (simp add: cs'_def cd(1))
    show "rc_seq_id (cs' ! j) = {} \<longleftrightarrow> rc_pos (cs' ! j) < 0" if "j < sz" for j
      using cd(3) [OF that] pos [OF that] seq [OF that] t(2) by auto
  qed
  have "rc_occupied (cs[t := (cs ! t)\<lparr>rc_seq_id := insert (int s) (rc_seq_id (cs ! t))\<rparr>]) = rc_occupied cs"
    using rc_occupied_update [of t cs "(cs ! t)\<lparr>rc_seq_id := insert (int s) (rc_seq_id (cs ! t))\<rparr>"] t cd(1)
    by (simp add: rc_is_empty_def)
  then show "rc_occupied cs' = rc_occupied cs" by (simp add: cs'_def)
qed

lemma rc_tail_cases:
  assumes "rc_cells_ok sz cs" "s < sz"
  obtains (none) "rc_tail (cs ! s) = -1"
  | (some) t where "rc_tail (cs ! s) = int t" "t < sz" "int s \<in> rc_seq_id (cs ! t)"
  using rc_cells_okD(5) [OF assms] by (metis nat_int nonneg_int_cases of_nat_less_iff)

lemma rc_seq_cp_ok:
  assumes ok: "rc_ok kv" and sd: "a < rc_size kv" "b < rc_size kv" "a \<noteq> b"
  shows "rc_ok (rc_seq_cp (int a) (int b) p0 p1 kv)"
    "rc_state_of (rc_seq_cp (int a) (int b) p0 p1 kv) b = rc_state_of kv a"
    "\<And>q. q < rc_size kv \<Longrightarrow> q \<noteq> b \<Longrightarrow> rc_state_of (rc_seq_cp (int a) (int b) p0 p1 kv) q = rc_state_of kv q"
proof -
  let ?sz = "rc_size kv" and ?cs = "rc_cells kv"
  let ?kv' = "rc_seq_cp (int a) (int b) p0 p1 kv"
  note d = rc_okD [OF ok]
  define st where "st = (if rc_tail (?cs ! b) \<ge> 0 then rc_leave (int b) (rc_tail (?cs ! b)) (?cs, rc_used kv) else (?cs, rc_used kv))"
  obtain cs1 u1 where st1: "st = (cs1, u1)" by fastforce
  have U: "?sz < U32" using d(3) by simp
  have left: "rc_cells_ok ?sz cs1 \<and> u1 = rc_occupied cs1 \<and> rc_tail (cs1 ! b) = -1
    \<and> (\<forall>j < ?sz. j \<noteq> b \<longrightarrow> rc_tail (cs1 ! j) = rc_tail (?cs ! j))
    \<and> (\<forall>j < ?sz. rc_seq_id (cs1 ! j) = rc_seq_id (?cs ! j) - {int b})
    \<and> (\<forall>j < ?sz. rc_seq_id (cs1 ! j) \<noteq> {} \<longrightarrow> rc_pos (cs1 ! j) = rc_pos (?cs ! j))"
    using d(1) sd(2)
  proof (cases rule: rc_tail_cases)
    case none
    then have "cs1 = ?cs" "u1 = rc_used kv" using st1 by (auto simp: st_def)
    then show ?thesis using d(1,2) none rc_nowhere [OF d(1) sd(2) none] by auto
  next
    case (some t)
    then have l: "rc_leave (int b) (int t) (?cs, rc_used kv) = (cs1, u1)" using st1 by (simp add: st_def)
    show ?thesis using rc_leave_ok [OF d(1) sd(2) some(1) d(2) U l] by blast
  qed
  then have c1: "rc_cells_ok ?sz cs1" "rc_tail (cs1 ! b) = -1" by simp_all
  have old: "rc_state_of kv q = (if rc_tail (cs1 ! q) < 0 then None else
      Some (nat (rc_tail (cs1 ! q)), rc_pos (cs1 ! nat (rc_tail (cs1 ! q)))))" if q: "q < ?sz" "q \<noteq> b" for q
    using c1(1) q(1)
  proof (cases rule: rc_tail_cases)
    case none
    then show ?thesis using left q by (simp add: rc_state_of_def)
  next
    case (some t)
    then have "rc_seq_id (cs1 ! t) \<noteq> {}" by auto
    then have "rc_pos (cs1 ! t) = rc_pos (?cs ! t)" using left some(2) by blast
    then show ?thesis using left q some(1) by (simp add: rc_state_of_def Let_def)
  qed
  have kv': "?kv' = (let (cs1, used1) = st; ts = rc_tail (cs1 ! a) in
      if ts \<ge> 0 then kv\<lparr>rc_used := used1, rc_cells := rc_set_tail (int b) ts
          (cs1[nat ts := (cs1 ! nat ts)\<lparr>rc_seq_id := insert (int b) (rc_seq_id (cs1 ! nat ts))\<rparr>])\<rparr>
      else kv\<lparr>rc_cells := cs1, rc_used := used1\<rparr>)"
    using sd by (simp add: rc_seq_cp_def st_def Let_def)
  have "rc_ok ?kv' \<and> rc_state_of ?kv' b = rc_state_of kv a
    \<and> (\<forall>q < ?sz. q \<noteq> b \<longrightarrow> rc_state_of ?kv' q = rc_state_of kv q)"
    using c1(1) sd(1)
  proof (cases rule: rc_tail_cases)
    case none
    then have "?kv' = kv\<lparr>rc_cells := cs1, rc_used := u1\<rparr>" by (simp add: kv' st1)
    then show ?thesis
      using left d(3,4) old none sd c1(2) by (auto simp: rc_ok_def rc_state_of_def Let_def)
  next
    case (some t)
    define cs2 where "cs2 = rc_set_tail (int b) (int t) (cs1[t := (cs1 ! t)\<lparr>rc_seq_id := insert (int b) (rc_seq_id (cs1 ! t))\<rparr>])"
    have ne: "rc_seq_id (cs1 ! t) \<noteq> {}" using some(3) by auto
    note j = rc_join_ok [OF c1(1) sd(2) c1(2) some(2) ne, folded cs2_def]
    have e: "?kv' = kv\<lparr>rc_used := u1, rc_cells := cs2\<rparr>" using some(1) by (simp add: kv' st1 cs2_def)
    have tl: "rc_tail (cs2 ! q) = (if q = b then int t else rc_tail (cs1 ! q))" if "q < ?sz" for q
      using j(3) [OF that] .
    have "rc_state_of ?kv' b = rc_state_of kv a"
      using e old [OF sd(1) sd(3)] some(1,2) tl [OF sd(2)] j(4) [OF some(2)] by (simp add: rc_state_of_def)
    moreover have "rc_state_of ?kv' q = rc_state_of kv q" if q: "q < ?sz" "q \<noteq> b" for q
      using c1(1) q(1)
    proof (cases rule: rc_tail_cases)
      case none
      then show ?thesis using e old [OF q] tl [OF q(1)] q(2) by (simp add: rc_state_of_def)
    next
      case (some t2)
      then show ?thesis using e old [OF q] tl [OF q(1)] q(2) j(4) [OF some(2)] by (simp add: rc_state_of_def)
    qed
    ultimately show ?thesis using e j(1,2) left d(3,4) by (simp add: rc_ok_def)
  qed
  then show "rc_ok ?kv'" "rc_state_of ?kv' b = rc_state_of kv a"
    "\<And>q. q < rc_size kv \<Longrightarrow> q \<noteq> b \<Longrightarrow> rc_state_of ?kv' q = rc_state_of kv q" by blast+
qed

text \<open>\<open>seq_keep\<close>\<close>

definition rc_keep_new :: "int \<Rightarrow> nat \<Rightarrow> rc_cell \<Rightarrow> rc_cell" where
  "rc_keep_new sid i c = fst (rc_keep_cell 0 sid i c (0, 0))"

lemma rc_keep_cell_new: "fst (rc_keep_cell sz sid i c s) = rc_keep_new sid i c"
  by (auto simp: rc_keep_new_def rc_keep_cell_def Let_def split: prod.splits)

lemma rc_keep_new_sel:
  "rc_seq_id (rc_keep_new sid i c) = rc_seq_id c \<inter> {sid}"
  "rc_tail (rc_keep_new sid i c) = (if int i = sid then rc_tail c else -1)"
  "rc_pos (rc_keep_new sid i c) = (if sid \<in> rc_seq_id c then rc_pos c else -1)"
  by (auto simp: rc_keep_new_def rc_keep_cell_def rc_has_seq_id_def Let_def)

lemma rc_seq_keep_cells:
  assumes "length (rc_cells kv) = rc_size kv" "j < rc_size kv"
  shows "rc_cells (rc_seq_keep sid kv) ! j = rc_keep_new sid j (rc_cells kv ! j)"
  using cell_loop_nth [where f = "rc_keep_cell (rc_size kv) sid" and g = "rc_keep_new sid" and i = 0, OF rc_keep_cell_new]
    assms by (simp add: rc_seq_keep_def split_beta)

lemma rc_seq_keep_ok:
  assumes ok: "rc_ok kv"
  shows "rc_ok (rc_seq_keep sid kv)"
    "\<And>s. s < rc_size kv \<Longrightarrow> rc_state_of (rc_seq_keep sid kv) s = (if int s = sid then rc_state_of kv s else None)"
proof -
  let ?kv' = "rc_seq_keep sid kv" and ?sz = "rc_size kv" and ?cs = "rc_cells kv"
  note d = rc_okD [OF ok]
  note cd = rc_cells_okD [OF d(1)]
  note nth = rc_seq_keep_cells [OF d(5), of _ sid]
  have sz: "rc_size ?kv' = ?sz" "length (rc_cells ?kv') = ?sz"
    by (simp_all add: rc_seq_keep_def split_beta d(5))
  have pos: "rc_seq_id (rc_cells ?kv' ! i) = {} \<longleftrightarrow> rc_pos (rc_cells ?kv' ! i) < 0" if "i < ?sz" for i
    using cd(3) [OF that] by (auto simp: nth [OF that] rc_keep_new_sel)
  have ids: "0 \<le> x \<and> x < int ?sz \<and> rc_tail (rc_cells ?kv' ! nat x) = int i"
    if "i < ?sz" "x \<in> rc_seq_id (rc_cells ?kv' ! i)" for i x
  proof -
    have x: "x = sid" "sid \<in> rc_seq_id (?cs ! i)" using that by (auto simp: nth rc_keep_new_sel)
    then have b: "0 \<le> sid" "sid < int ?sz" "rc_tail (?cs ! nat sid) = int i" using cd(4) [OF that(1)] by auto
    then have "nat sid < ?sz" "int (nat sid) = sid" by auto
    then show ?thesis using b x(1) by (simp add: nth rc_keep_new_sel)
  qed
  have tl: "rc_tail (rc_cells ?kv' ! s) = -1 \<or> (0 \<le> rc_tail (rc_cells ?kv' ! s) \<and> rc_tail (rc_cells ?kv' ! s) < int ?sz
      \<and> int s \<in> rc_seq_id (rc_cells ?kv' ! nat (rc_tail (rc_cells ?kv' ! s))))" if s: "s < ?sz" for s
    using d(1) s
  proof (cases rule: rc_tail_cases)
    case (some t)
    then show ?thesis using s by (cases "int s = sid") (simp_all add: nth rc_keep_new_sel)
  qed (use s in \<open>simp add: nth rc_keep_new_sel\<close>)
  have "rc_cells_ok ?sz (rc_cells ?kv')"
    unfolding rc_cells_ok_def using sz(2) pos ids tl by (auto simp: nth rc_keep_new_sel)
  moreover have "rc_used ?kv' = rc_occupied (rc_cells ?kv')"
  proof -
    have u: "fst (snd (rc_keep_cell ?sz sid i c s)) = (if \<not> rc_is_empty c \<and> rc_is_empty (rc_keep_new sid i c)
        then u32_sub (fst s) 1 else fst s)" if "rc_cell_ok c" for i c and s :: "nat \<times> nat"
      using that by (auto simp: rc_keep_cell_def rc_keep_new_def rc_cell_ok_def rc_is_empty_def Let_def
          rc_has_seq_id_def split_beta)
    have e: "rc_is_empty (rc_keep_new sid i c)" if "rc_cell_ok c" "rc_is_empty c" for i c
      using that by (simp add: rc_is_empty_def rc_keep_new_sel)
    have "fst (rc_used kv, ?sz) < U32" using d(2,3,5) rc_occupied_le [of ?cs] by simp
    then show ?thesis
      using cell_loop_count [where ok = rc_cell_ok and E = rc_is_empty and used_of = fst and k = 0
          and f = "rc_keep_cell ?sz sid" and g = "rc_keep_new sid", OF rc_keep_cell_new u e rc_cells_cell_ok [OF d(1)],
          of "(rc_used kv, ?sz)" 0] d(2)
      by (simp add: rc_seq_keep_def split_beta rc_occupied_def)
  qed
  moreover have "rc_head ?kv' \<le> ?sz"
    using d(4) by (simp add: rc_seq_keep_def split_beta rc_lower_head_le)
  ultimately show "rc_ok ?kv'" using sz d(3) by (simp add: rc_ok_def)
  show "rc_state_of ?kv' s = (if int s = sid then rc_state_of kv s else None)" if s: "s < ?sz" for s
    using d(1) s
  proof (cases rule: rc_tail_cases)
    case none
    then show ?thesis using s by (simp add: rc_state_of_def nth rc_keep_new_sel)
  next
    case (some t)
    then show ?thesis using s by (auto simp: rc_state_of_def nth rc_keep_new_sel)
  qed
qed

text \<open>\<open>seq_add\<close> and \<open>seq_div\<close> keep the invariant as long as the position stays valid.\<close>

lemma rc_map_pos_ok:
  assumes ok: "rc_ok kv" and f: "\<And>p. 0 \<le> p \<Longrightarrow> norm_p0 p0 \<le> p \<Longrightarrow> 0 \<le> f p"
  shows "rc_ok (rc_map_pos f sid p0 p1 kv)"
proof -
  note d = rc_okD [OF ok]
  note cd = rc_cells_okD [OF d(1)]
  let ?cs = "rc_cells kv" and ?sz = "rc_size kv"
  have step: "rc_ok (kv\<lparr>rc_cells := ?cs[t := (?cs ! t)\<lparr>rc_pos := f (rc_pos (?cs ! t))\<rparr>]\<rparr>)"
    if t: "t < ?sz" "sid \<in> rc_seq_id (?cs ! t)" "norm_p0 p0 \<le> rc_pos (?cs ! t)" for t
  proof -
    let ?cs' = "?cs[t := (?cs ! t)\<lparr>rc_pos := f (rc_pos (?cs ! t))\<rparr>]"
    have nth: "?cs' ! j = (if j = t then (?cs ! j)\<lparr>rc_pos := f (rc_pos (?cs ! j))\<rparr> else ?cs ! j)" if "j < ?sz" for j
      using that t(1) d(5) by (simp add: nth_list_update)
    have p0: "0 \<le> rc_pos (?cs ! t)" using cd(3) [OF t(1)] t(2) by (auto simp: not_less)
    have sel: "rc_seq_id (?cs' ! j) = rc_seq_id (?cs ! j)" "rc_tail (?cs' ! j) = rc_tail (?cs ! j)" if "j < ?sz" for j
      using nth [OF that] by auto
    have pos: "rc_seq_id (?cs' ! j) = {} \<longleftrightarrow> rc_pos (?cs' ! j) < 0" if "j < ?sz" for j
      using nth [OF that] cd(3) [OF that] t(2) f [OF p0 t(3)] by auto
    have "rc_cells_ok ?sz ?cs'"
      unfolding rc_cells_ok_def
    proof (intro conjI allI impI ballI)
      fix i x assume i: "i < ?sz" and x: "x \<in> rc_seq_id (?cs' ! i)"
      then have b: "0 \<le> x" "x < int ?sz" "rc_tail (?cs ! nat x) = int i"
        using cd(4) [OF i, of x] sel(1) [OF i] by auto
      moreover have "nat x < ?sz" using b by auto
      ultimately show "0 \<le> x" "x < int ?sz" "rc_tail (?cs' ! nat x) = int i" using sel by simp_all
    next
      fix s assume s: "s < ?sz"
      show "rc_tail (?cs' ! s) = -1 \<or> (0 \<le> rc_tail (?cs' ! s) \<and> rc_tail (?cs' ! s) < int ?sz
          \<and> int s \<in> rc_seq_id (?cs' ! nat (rc_tail (?cs' ! s))))"
        using d(1) s
      proof (cases rule: rc_tail_cases)
        case none
        then show ?thesis using sel(2) [OF s] by simp
      next
        case (some u)
        then show ?thesis using sel(2) [OF s] sel(1) [OF some(2)] by simp
      qed
    qed (use d(5) sel cd(2) pos in auto)
    moreover have "rc_occupied ?cs' = rc_occupied ?cs"
      using rc_occupied_update [of t ?cs "(?cs ! t)\<lparr>rc_pos := f (rc_pos (?cs ! t))\<rparr>"] t(1) d(5)
      by (simp add: rc_is_empty_def split: if_splits)
    ultimately show ?thesis using d by (simp add: rc_ok_def)
  qed
  show ?thesis
  proof (cases "0 \<le> sid \<and> sid < int ?sz")
    case True
    then have "nat sid < ?sz" by auto
    with d(1) show ?thesis
    proof (cases rule: rc_tail_cases)
      case none
      then show ?thesis using ok by (simp add: rc_map_pos_def)
    next
      case (some t)
      then show ?thesis using ok True step [of t]
        by (simp add: rc_map_pos_def rc_in_range_def rc_has_seq_id_def Let_def)
    qed
  next
    case False
    then show ?thesis using ok by (auto simp: rc_map_pos_def)
  qed
qed

section \<open>A stale tail\<close>

text \<open>
  Removing every sequence (id -1) empties the cells and leaves the tails. The next micro-batch
  of a sequence that had a state then fails the assertion of \<open>find_slot\<close>.
\<close>

definition rc_demo_ub :: "unit llama_ubatch" where
  "rc_demo_ub = \<lparr>ub_equal_seqs = True, ub_n_tokens = 1, ub_n_seq_tokens = 1, ub_n_seqs = 1,
     ub_token = Some [0], ub_embd = None, ub_pos = [0], ub_n_seq_id = [1], ub_seq_id = [[0]], ub_output = [0]\<rparr>"

definition rc_demo_kv :: kv_recurrent where
  "rc_demo_kv = (rc_init 2)\<lparr>rc_cells :=
     [rc_cell_new\<lparr>rc_pos := 0, rc_seq_id := {0}, rc_tail := 0\<rparr>, rc_cell_new], rc_used := 1\<rparr>"

lemma rc_demo_rm: "\<exists>kv'. rc_seq_rm (-1) (-1) (-1) rc_demo_kv = (True, kv')"
  by (simp add: rc_seq_rm_def norm_p0_def norm_p1_def)

lemma rc_seq_rm_all_abort:
  "rc_ok rc_demo_kv" "rc_seq_rm (-1) (-1) (-1) rc_demo_kv = (True, kv') \<Longrightarrow> rc_find_slot rc_demo_ub kv' = None"
proof -
  show "rc_ok rc_demo_kv"
    by (simp add: rc_ok_def rc_demo_kv_def rc_init_def rc_cells_ok_def rc_cell_new_def rc_is_empty_def
        less_2_cases_iff all_conj_distrib)
  assume "rc_seq_rm (-1) (-1) (-1) rc_demo_kv = (True, kv')"
  then have "kv' = rc_demo_kv\<lparr>rc_cells := [rc_cell_new\<lparr>rc_tail := 0\<rparr>, rc_cell_new], rc_used := 0\<rparr>"
    by (simp add: rc_seq_rm_def rc_demo_kv_def rc_init_def norm_p0_def norm_p1_def int32_max_def rc_rm_loop_def
        rc_rm_cell_def rc_in_range_def rc_cell_new_def rc_is_empty_def Let_def u32_sub_exact rc_lower_head_def split: if_splits)
  then show "rc_find_slot rc_demo_ub kv' = None"
    by (simp add: rc_find_slot_def rc_demo_ub_def rc_demo_kv_def rc_init_def ub_sids_def rc_cell_new_def
        rc_owns_def rc_has_seq_id_def Let_def u32_add_exact)
qed

end
