(* ===== verification/KvSystem.thy ===== *)
theory KvSystem
  imports KvUnified KvSlot KvDefrag KvRecurrent
begin

text \<open>
  The interface \<open>llama_memory_i\<close> the rest of the library uses the caches through, as locales: what
  every operation keeps of the cache's invariant, and what it does to the abstract view. The
  clients' lemmas (a context shift, the independence of sequences) are proved from the laws
  alone. The unified cache provides them; its life as a whole is a transition system.
\<close>

section \<open>Invariants of transition systems\<close>

locale transition_system =
  fixes start :: "'s \<Rightarrow> bool" and step :: "'s \<Rightarrow> 's \<Rightarrow> bool" and inv :: "'s \<Rightarrow> bool"
  assumes start_inv: "start s \<Longrightarrow> inv s"
    and step_inv: "inv s \<Longrightarrow> step s t \<Longrightarrow> inv t"
begin

lemma steps_inv: "step\<^sup>*\<^sup>* s t \<Longrightarrow> inv s \<Longrightarrow> inv t"
  by (induction rule: rtranclp_induct) (auto intro: step_inv)

lemma reachable_inv: "start s \<Longrightarrow> step\<^sup>*\<^sup>* s t \<Longrightarrow> inv t"
  using steps_inv start_inv by blast

end

section \<open>The interface of a cache\<close>

text \<open>The positions a view holds for a sequence.\<close>

definition seq_positions :: "int \<Rightarrow> (int \<times> int set) multiset \<Rightarrow> int multiset" where
  "seq_positions sid v = image_mset fst (filter_mset (\<lambda>e. sid \<in> snd e) v)"

lemma seq_positions_simps [simp]:
  "seq_positions sid {#} = {#}"
  "seq_positions sid (add_mset e v) = (if sid \<in> snd e then add_mset (fst e) (seq_positions sid v) else seq_positions sid v)"
  "seq_positions sid (v + w) = seq_positions sid v + seq_positions sid w"
  by (simp_all add: seq_positions_def)

lemma seq_positions_live [simp]: "seq_positions sid (live v) = seq_positions sid v"
  by (induction v) auto

lemma seq_positions_rm:
  "0 \<le> sid \<Longrightarrow> seq_positions q (image_mset (rm_entry sid p0 p1) v) =
    (if q = sid then filter_mset (\<lambda>p. \<not> (norm_p0 p0 \<le> p \<and> p < norm_p1 p1)) (seq_positions q v) else seq_positions q v)"
  by (induction v) (auto simp: rm_entry_def split: prod.splits if_splits)

lemma seq_positions_rm_all:
  "sid < 0 \<Longrightarrow> seq_positions q (image_mset (rm_entry sid p0 p1) v) =
    filter_mset (\<lambda>p. \<not> (norm_p0 p0 \<le> p \<and> p < norm_p1 p1)) (seq_positions q v)"
  by (induction v) (auto simp: rm_entry_def split: prod.splits if_splits)

lemma seq_positions_keep:
  "seq_positions q (image_mset (keep_entry sid) v) = (if q = sid then seq_positions q v else {#})"
  by (induction v) (auto simp: keep_entry_def split: prod.splits if_splits)

lemma seq_positions_cp:
  "q \<noteq> dst \<Longrightarrow> seq_positions q (image_mset (cp_entry src dst p0 p1) v) = seq_positions q v"
  "seq_positions dst v = {#} \<Longrightarrow> seq_positions dst (image_mset (cp_entry src dst p0 p1) v) =
     filter_mset (\<lambda>p. norm_p0 p0 \<le> p \<and> p < norm_p1 p1) (seq_positions src v)"
proof -
  show "q \<noteq> dst \<Longrightarrow> seq_positions q (image_mset (cp_entry src dst p0 p1) v) = seq_positions q v"
    by (induction v) (auto simp: cp_entry_def split: prod.splits if_splits)
  show "seq_positions dst v = {#} \<Longrightarrow> seq_positions dst (image_mset (cp_entry src dst p0 p1) v) =
     filter_mset (\<lambda>p. norm_p0 p0 \<le> p \<and> p < norm_p1 p1) (seq_positions src v)"
    by (induction v) (auto simp: cp_entry_def split: prod.splits if_splits)
qed

lemma seq_positions_add:
  "seq_positions sid (image_mset (add_entry sid p0 p1 d) v) =
    image_mset (\<lambda>p. if norm_p0 p0 \<le> p \<and> p < norm_p1 p1 then p + d else p)
      (filter_mset (\<lambda>p. \<not> (norm_p0 p0 \<le> p \<and> p < norm_p1 p1 \<and> p + d < 0)) (seq_positions sid v))"
  by (induction v) (auto simp: add_entry_def split: prod.splits if_splits)

text \<open>
  Discarding \<open>d\<close> tokens at \<open>k\<close> and moving the later ones down leaves the positions without
  a gap.
\<close>

lemma shifted_positions:
  fixes n :: int
  assumes "0 \<le> k" "0 \<le> d" "k + d \<le> n"
  shows "image_mset (\<lambda>p. if k + d \<le> p \<and> p < n then p - d else p)
     (filter_mset (\<lambda>p. \<not> (k \<le> p \<and> p < k + d)) (mset_set {0..<n})) = mset_set {0..<n - d}"
proof -
  let ?f = "\<lambda>p. if k + d \<le> p \<and> p < n then p - d else p" and ?A = "{p \<in> {0..<n}. \<not> (k \<le> p \<and> p < k + d)}"
  have "inj_on ?f ?A" by (rule inj_onI) (auto split: if_splits)
  moreover have "?f ` ?A = {0..<n - d}"
  proof (intro equalityI subsetI)
    fix q assume "q \<in> {0..<n - d}"
    then have "q = ?f (if q < k then q else q + d)" "(if q < k then q else q + d) \<in> ?A" using assms by auto
    then show "q \<in> ?f ` ?A" by (rule image_eqI)
  qed (use assms in \<open>auto split: if_splits\<close>)
  ultimately show ?thesis by (simp add: image_mset_mset_set)
qed

locale kv_memory =
  fixes inv :: "'s \<Rightarrow> bool" and view :: "'s \<Rightarrow> (int \<times> int set) multiset"
    and clear :: "'s \<Rightarrow> 's" and rm :: "int \<Rightarrow> int \<Rightarrow> int \<Rightarrow> 's \<Rightarrow> 's"
    and cp :: "int \<Rightarrow> int \<Rightarrow> int \<Rightarrow> int \<Rightarrow> 's \<Rightarrow> 's" and keep :: "int \<Rightarrow> 's \<Rightarrow> 's"
    and add :: "int \<Rightarrow> int \<Rightarrow> int \<Rightarrow> int \<Rightarrow> 's \<Rightarrow> 's"
  assumes inv_clear: "inv s \<Longrightarrow> inv (clear s)"
    and inv_rm: "inv s \<Longrightarrow> inv (rm sid p0 p1 s)"
    and inv_cp: "inv s \<Longrightarrow> inv (cp src dst p0 p1 s)"
    and inv_keep: "inv s \<Longrightarrow> inv (keep sid s)"
    and inv_add: "inv s \<Longrightarrow> inv (add sid p0 p1 d s)"
    and view_clear: "view (clear s) = {#}"
    and view_rm: "inv s \<Longrightarrow> view (rm sid p0 p1 s) = live (image_mset (rm_entry sid p0 p1) (view s))"
    and view_cp: "inv s \<Longrightarrow> src \<noteq> dst \<Longrightarrow> view (cp src dst p0 p1 s) = image_mset (cp_entry src dst p0 p1) (view s)"
    and view_keep: "inv s \<Longrightarrow> view (keep sid s) = live (image_mset (keep_entry sid) (view s))"
    and view_add: "inv s \<Longrightarrow> d \<noteq> 0 \<Longrightarrow> norm_p0 p0 \<noteq> norm_p1 p1 \<Longrightarrow>
      view (add sid p0 p1 d s) = live (image_mset (add_entry sid p0 p1 d) (view s))"
begin

lemma positions_clear: "seq_positions q (view (clear s)) = {#}"
  by (simp add: view_clear)

lemma positions_rm:
  "inv s \<Longrightarrow> 0 \<le> sid \<Longrightarrow> seq_positions q (view (rm sid p0 p1 s)) =
    (if q = sid then filter_mset (\<lambda>p. \<not> (norm_p0 p0 \<le> p \<and> p < norm_p1 p1)) (seq_positions q (view s))
     else seq_positions q (view s))"
  by (simp add: view_rm seq_positions_rm)

lemma positions_keep:
  "inv s \<Longrightarrow> seq_positions q (view (keep sid s)) = (if q = sid then seq_positions q (view s) else {#})"
  by (simp add: view_keep seq_positions_keep)

lemma positions_cp:
  assumes "inv s" "src \<noteq> dst" "seq_positions dst (view s) = {#}"
  shows "seq_positions dst (view (cp src dst p0 p1 s)) =
      filter_mset (\<lambda>p. norm_p0 p0 \<le> p \<and> p < norm_p1 p1) (seq_positions src (view s))"
    "q \<noteq> dst \<Longrightarrow> seq_positions q (view (cp src dst p0 p1 s)) = seq_positions q (view s)"
  using assms by (simp_all add: view_cp seq_positions_cp)

text \<open>
  The context shift of the runners: the sequence had the positions below \<open>n\<close>; \<open>d\<close> of them are
  removed from \<open>k\<close> on and the rest is moved down.
\<close>

lemma context_shift:
  assumes "inv s" "0 \<le> sid" "0 \<le> k" "0 < d" "k + d < n" "n < int32_max"
    "seq_positions sid (view s) = mset_set {0..<n}"
  shows "seq_positions sid (view (add sid (k + d) n (- d) (rm sid k (k + d) s))) = mset_set {0..<n - d}"
    "inv (add sid (k + d) n (- d) (rm sid k (k + d) s))"
proof -
  have r: "norm_p0 k = k" "norm_p1 (k + d) = k + d" "norm_p0 (k + d) = k + d" "norm_p1 n = n"
    using assms by (simp_all add: norm_p0_def norm_p1_def)
  have i: "inv (rm sid k (k + d) s)" using inv_rm assms(1) by blast
  then show "inv (add sid (k + d) n (- d) (rm sid k (k + d) s))" by (rule inv_add)
  have "seq_positions sid (view (rm sid k (k + d) s)) = filter_mset (\<lambda>p. \<not> (k \<le> p \<and> p < k + d)) (mset_set {0..<n})"
    using positions_rm [OF assms(1,2), of sid k "k + d"] assms(7) r by simp
  moreover have "filter_mset (\<lambda>p. \<not> (k + d \<le> p \<and> p < n \<and> p + - d < 0)) M = M" for M
    by (induction M) (use assms in auto)
  ultimately show "seq_positions sid (view (add sid (k + d) n (- d) (rm sid k (k + d) s))) = mset_set {0..<n - d}"
    using view_add [OF i, of "- d" "k + d" n sid] assms r shifted_positions [of k d n]
    by (simp add: seq_positions_add cong: if_cong)
qed

end

interpretation unified: kv_memory kv_ok kv_abs kv_clear seq_rm seq_cp seq_keep seq_add
  by unfold_locales
    (auto simp: kv_clear_ok seq_rm_ok seq_cp_ok seq_keep_ok seq_add_ok kv_abs_clear kv_abs_seq_rm kv_abs_seq_cp
      kv_abs_seq_keep kv_abs_seq_add)

section \<open>The life of a unified cache\<close>

text \<open>
  Everything a context does to its cache. An update runs without flash attention over K and V
  tensors of the model's shape, which the K-shift keeps (their elements, and the embeddings of a
  micro-batch, do not matter to the cells).
\<close>

inductive kv_step :: "kv_unified \<Rightarrow> kv_unified \<Rightarrow> bool" where
  step_clear: "kv_step kv (kv_clear kv)"
| step_rm: "kv_step kv (seq_rm sid p0 p1 kv)"
| step_cp: "kv_step kv (seq_cp src dst p0 p1 kv)"
| step_keep: "kv_step kv (seq_keep sid kv)"
| step_add: "kv_step kv (seq_add sid p0 p1 d kv)"
| step_div: "0 < d \<Longrightarrow> kv_step kv (seq_div sid p0 p1 d kv)"
| step_slot: "ub_placeable (ub :: unit llama_ubatch) \<Longrightarrow> find_slot ub kv = Some (b, kv') \<Longrightarrow> kv_step kv kv'"
| step_commit: "kv_step kv (kv_commit kv)"
| step_restore: "kv_step kv (kv_restore kv)"
| step_full: "kv_step kv (kv_set_full kv)"
| step_sched: "kv_step kv (kv\<lparr>kv_do_defrag := True\<rparr>)"
| step_update: "0 < m \<Longrightarrow> layers_ok (ls :: nat kv_layer list) \<Longrightarrow> (\<And>ds ls. layers_ok ls \<Longrightarrow> layers_ok (shift_k ds ls)) \<Longrightarrow>
    kv_update shift_k rope False m (kv, ls) = Some (kv', ls') \<Longrightarrow> kv_step kv kv'"

definition sys_start :: "kv_unified \<Rightarrow> bool" where
  "sys_start kv = (\<exists>sz padding. 4 * sz < U32 \<and> kv_init sz padding = Some kv)"

definition sys_ok :: "kv_unified \<Rightarrow> bool" where
  "sys_ok kv = (kv_ok kv \<and> (\<forall>r\<in>set (kv_pending kv). snd r \<le> kv_size kv) \<and> kv_can_shift kv)"

lemma frame_ops [simp]:
  "kv_pending (kv_clear kv) = kv_pending kv" "kv_size (kv_clear kv) = kv_size kv"
  "kv_pending (seq_cp a b p0 p1 kv) = kv_pending kv" "kv_pending (seq_keep sid kv) = kv_pending kv"
  "kv_pending (seq_add sid p0 p1 d kv) = kv_pending kv" "kv_pending (seq_div sid p0 p1 d kv) = kv_pending kv"
  "kv_can_shift (kv_clear kv) = kv_can_shift kv" "kv_can_shift (seq_rm sid p0 p1 kv) = kv_can_shift kv"
  "kv_can_shift (seq_cp a b p0 p1 kv) = kv_can_shift kv" "kv_can_shift (seq_keep sid kv) = kv_can_shift kv"
  "kv_can_shift (seq_add sid p0 p1 d kv) = kv_can_shift kv" "kv_can_shift (seq_div sid p0 p1 d kv) = kv_can_shift kv"
  "kv_can_shift (kv_restore kv) = kv_can_shift kv" "kv_size (kv_restore kv) = kv_size kv"
  by (auto simp: kv_clear_def seq_rm_def seq_cp_def seq_keep_def seq_add_def seq_div_def kv_restore_def lower_head_def
      split: prod.splits)

lemma find_slot_can_shift: "find_slot ub kv = Some (b, kv') \<Longrightarrow> kv_can_shift kv' = kv_can_shift kv"
  by (auto simp: find_slot_def Let_def simp del: find_loop.simps split: if_splits option.splits prod.splits bool.splits)

lemma kv_update_frame:
  assumes "kv_update shift_k rope flash m (kv, ls) = Some (kv', ls')"
  shows "kv_pending kv' = kv_pending kv" "kv_size kv' = kv_size kv" "kv_can_shift kv' = kv_can_shift kv"
  using assms
  by (auto simp: kv_update_def apply_shift_def apply_defrag_def defrag_prepare_def Let_def bind_eq_Some_conv
      split: if_splits option.splits bool.splits prod.splits)

lemma kv_ok_cong:
  "kv_cells kv' = kv_cells kv \<Longrightarrow> kv_size kv' = kv_size kv \<Longrightarrow> kv_head kv' = kv_head kv \<Longrightarrow> kv_used kv' = kv_used kv \<Longrightarrow>
    kv_ok kv' = kv_ok kv"
  by (simp add: kv_ok_def)

lemma sys_start_ok: "sys_start kv \<Longrightarrow> sys_ok kv"
proof -
  assume "sys_start kv"
  then obtain sz padding where i: "4 * sz < U32" "kv_init sz padding = Some kv" by (auto simp: sys_start_def)
  then show ?thesis using kv_init_ok [OF i(2,1)] by (auto simp: sys_ok_def kv_init_def split: if_splits)
qed

lemma sys_slot_ok:
  assumes "sys_ok kv" "ub_placeable ub" "find_slot ub kv = Some (b, kv')"
  shows "sys_ok kv'"
proof -
  have ok: "kv_ok kv" using assms(1) by (simp add: sys_ok_def)
  show ?thesis
  proof (cases b)
    case True
    have f: "find_slot ub kv = Some (True, kv')" using assms(3) True by simp
    show ?thesis
    proof (cases rule: find_slot_cases [OF ok assms(2)])
      case (1 kv2)
      then have "kv2 = kv'" using f by simp
      with 1 have "kv_pending kv' = kv_pending kv @ [(kv_head kv', kv_head kv' + ub_n_tokens ub)]" "kv_size kv' = kv_size kv"
        "kv_head kv' + ub_n_tokens ub \<le> kv_size kv"
        using ok by (auto simp: free_run_def kv_ok_def)
      then show ?thesis using find_slot_found_ok(1) [OF ok assms(2) f] find_slot_can_shift [OF assms(3)] assms(1)
        by (auto simp: sys_ok_def)
    next
      case (2 h)
      then show ?thesis using f by simp
    qed
  next
    case False
    have f: "find_slot ub kv = Some (False, kv')" using assms(3) False by simp
    show ?thesis
    proof (cases rule: find_slot_cases [OF ok assms(2)])
      case (2 h)
      then have "kv' = kv\<lparr>kv_head := h\<rparr>" using f by simp
      then show ?thesis using find_slot_full_ok(1) [OF ok assms(2) f] assms(1) by (simp add: sys_ok_def)
    next
      case (1 kv2)
      then show ?thesis using f by simp
    qed
  qed
qed

lemma sys_step_ok: "sys_ok kv \<Longrightarrow> kv_step kv kv' \<Longrightarrow> sys_ok kv'"
proof (rotate_tac 1, induction rule: kv_step.induct)
  case (step_slot ub kv b kv')
  then show ?case using sys_slot_ok by blast
next
  case (step_update m ls shift_k rope kv kv' ls')
  have "kv_ok kv" "kv_can_shift kv" using step_update.prems by (auto simp: sys_ok_def)
  then have "kv_ok kv'" using kv_update_ok [of kv m ls shift_k rope] step_update.hyps by fastforce
  then show ?case using kv_update_frame [OF step_update.hyps(4)] step_update.prems by (simp add: sys_ok_def)
next
  case (step_restore kv)
  then show ?case using kv_restore_spec(1,2) [of kv] by (simp add: sys_ok_def)
next
  case (step_commit kv)
  then show ?case using kv_ok_cong [of "kv_commit kv" kv] by (simp add: sys_ok_def kv_commit_def)
next
  case (step_full kv)
  then show ?case using kv_ok_cong [of "kv_set_full kv" kv] by (simp add: sys_ok_def kv_set_full_def)
next
  case (step_sched kv)
  then show ?case using kv_ok_cong [of "kv\<lparr>kv_do_defrag := True\<rparr>" kv] by (simp add: sys_ok_def)
qed (simp_all add: sys_ok_def kv_clear_ok seq_rm_ok seq_cp_ok seq_keep_ok seq_add_ok seq_div_ok)

interpretation cache: transition_system sys_start kv_step sys_ok
  by unfold_locales (auto intro: sys_start_ok sys_step_ok)

section \<open>The life of a recurrent cache\<close>

text \<open>The operations on sequences whose ids are states of the cache, as its callers guarantee.\<close>

inductive rc_step :: "kv_recurrent \<Rightarrow> kv_recurrent \<Rightarrow> bool" where
  rc_clear: "rc_step kv (rc_clear kv)"
| rc_rm: "s < rc_size kv \<Longrightarrow> rc_step kv (snd (rc_seq_rm (int s) p0 p1 kv))"
| rc_cp: "a < rc_size kv \<Longrightarrow> b < rc_size kv \<Longrightarrow> a \<noteq> b \<Longrightarrow> rc_step kv (rc_seq_cp (int a) (int b) p0 p1 kv)"
| rc_keep: "rc_step kv (rc_seq_keep sid kv)"
| rc_add: "(\<And>p. 0 \<le> p \<Longrightarrow> norm_p0 p0 \<le> p \<Longrightarrow> 0 \<le> p + d) \<Longrightarrow> rc_step kv (rc_seq_add sid p0 p1 d kv)"

definition rc_start :: "kv_recurrent \<Rightarrow> bool" where
  "rc_start kv = (\<exists>sz. sz < 2147483648 \<and> kv = rc_init sz)"

lemma rc_step_ok: "rc_ok kv \<Longrightarrow> rc_step kv kv' \<Longrightarrow> rc_ok kv'"
proof (rotate_tac 1, induction rule: rc_step.induct)
  case (rc_rm s kv p0 p1)
  then show ?case using rc_seq_rm_cases [OF rc_rm.prems rc_rm.hyps] by (metis prod.collapse)
next
  case (rc_add p0 d kv sid p1)
  then show ?case by (simp add: rc_seq_add_def rc_map_pos_ok)
qed (auto simp: rc_clear_ok rc_seq_cp_ok rc_seq_keep_ok)

interpretation recurrent: transition_system rc_start rc_step rc_ok
  by unfold_locales (auto simp: rc_start_def intro: rc_init_ok rc_step_ok)

end
