(* ===== verification/Utf8.thy ===== *)
theory Utf8
  imports Prelude ByteIo
begin

text \<open>
  UTF-8: the encoder and the strict decoder of \<open>unicode.cpp\<close>, and the two lenient decoders of
  \<open>llama-grammar.cpp\<close>, one of them incremental (a token may end inside a code point, and the
  partial value is carried to the next token).

  A byte is a \<open>nat\<close> below 256; a C string ends at its first 0, which the model reads as the end
  of the list. \<open>None\<close> is a thrown \<open>std::invalid_argument\<close>.
\<close>

unbundle bit_operations_syntax

section \<open>unicode.cpp\<close>

definition unicode_len_utf8 :: "byte \<Rightarrow> nat" where
  "unicode_len_utf8 src = [1, 1, 1, 1, 1, 1, 1, 1, 1, 1, 1, 1, 2, 2, 3, 4] ! drop_bit 4 src"

definition unicode_cpt_to_utf8 :: "nat \<Rightarrow> byte list option" where
  "unicode_cpt_to_utf8 cpt =
     (if cpt \<le> 0x7f then Some [cpt]
      else if 0x80 \<le> cpt \<and> cpt \<le> 0x7ff then
        Some [0xc0 OR (drop_bit 6 cpt AND 0x1f), 0x80 OR (cpt AND 0x3f)]
      else if 0x800 \<le> cpt \<and> cpt \<le> 0xffff then
        Some [0xe0 OR (drop_bit 12 cpt AND 0x0f), 0x80 OR (drop_bit 6 cpt AND 0x3f), 0x80 OR (cpt AND 0x3f)]
      else if 0x10000 \<le> cpt \<and> cpt \<le> 0x10ffff then
        Some [0xf0 OR (drop_bit 18 cpt AND 0x07), 0x80 OR (drop_bit 12 cpt AND 0x3f),
              0x80 OR (drop_bit 6 cpt AND 0x3f), 0x80 OR (cpt AND 0x3f)]
      else None)"

text \<open>A continuation byte at index \<open>i\<close>.\<close>

definition cont_at :: "byte list \<Rightarrow> nat \<Rightarrow> bool" where
  "cont_at s i = (i < length s \<and> s ! i AND 0xc0 = 0x80)"

definition unicode_cpt_from_utf8 :: "byte list \<Rightarrow> nat \<Rightarrow> (nat \<times> nat) option" where
  "unicode_cpt_from_utf8 s off =
     (let b = s ! off in
      if b AND 0x80 = 0 then Some (b, off + 1)
      else if b AND 0x40 = 0 then None
      else if b AND 0x20 = 0 then
        (if \<not> cont_at s (off + 1) then None
         else Some (push_bit 6 (b AND 0x1f) OR (s ! (off + 1) AND 0x3f), off + 2))
      else if b AND 0x10 = 0 then
        (if \<not> cont_at s (off + 1) \<or> \<not> cont_at s (off + 2) then None
         else Some (push_bit 12 (b AND 0x0f) OR push_bit 6 (s ! (off + 1) AND 0x3f)
                    OR (s ! (off + 2) AND 0x3f), off + 3))
      else if b AND 0x08 = 0 then
        (if \<not> cont_at s (off + 1) \<or> \<not> cont_at s (off + 2) \<or> \<not> cont_at s (off + 3) then None
         else Some (push_bit 18 (b AND 0x07) OR push_bit 12 (s ! (off + 1) AND 0x3f)
                    OR push_bit 6 (s ! (off + 2) AND 0x3f) OR (s ! (off + 3) AND 0x3f), off + 4))
      else None)"

lemma cpt_from_utf8_advances: "unicode_cpt_from_utf8 s off = Some (c, off') \<Longrightarrow> off < off'"
  by (auto simp: unicode_cpt_from_utf8_def Let_def split: if_splits)

text \<open>An invalid byte gives U+FFFD and is skipped.\<close>

function unicode_cpts_from_utf8_at :: "byte list \<Rightarrow> nat \<Rightarrow> nat list" where
  "unicode_cpts_from_utf8_at s off =
     (if off < length s then
        (case unicode_cpt_from_utf8 s off of
           Some (c, off') \<Rightarrow> c # unicode_cpts_from_utf8_at s off'
         | None \<Rightarrow> 0xfffd # unicode_cpts_from_utf8_at s (off + 1))
      else [])"
  by pat_completeness auto
termination
  by (relation "measure (\<lambda>(s, off). length s - off)") (auto dest: cpt_from_utf8_advances)

declare unicode_cpts_from_utf8_at.simps [simp del]

definition unicode_cpts_from_utf8 :: "byte list \<Rightarrow> nat list" where
  "unicode_cpts_from_utf8 s = unicode_cpts_from_utf8_at s 0"

fun unicode_cpts_to_utf8 :: "nat list \<Rightarrow> byte list option" where
  "unicode_cpts_to_utf8 [] = Some []"
| "unicode_cpts_to_utf8 (c # cs) = do {
     b \<leftarrow> unicode_cpt_to_utf8 c; bs \<leftarrow> unicode_cpts_to_utf8 cs; Some (b @ bs)
   }"

section \<open>llama-grammar.cpp\<close>

text \<open>
  The decoder of the grammar parser: \<open>pos < end\<close> and the terminating 0 bound the loop. The
  result is the value and the rest of the string.
\<close>

fun decode_rest :: "nat \<Rightarrow> nat \<Rightarrow> byte list \<Rightarrow> nat \<times> byte list" where
  "decode_rest 0 val src = (val, src)"
| "decode_rest (Suc k) val [] = (val, [])"
| "decode_rest (Suc k) val (b # src) =
     (if b = 0 then (val, b # src)
      else decode_rest k ((push_bit 6 val + (b AND 0x3f)) mod U32) src)"

definition decode_utf8_one :: "byte list \<Rightarrow> nat \<times> byte list" where
  "decode_utf8_one src =
     (let first_byte = hd src;
          len = [1, 1, 1, 1, 1, 1, 1, 1, 1, 1, 1, 1, 2, 2, 3, 4] ! drop_bit 4 first_byte;
          mask = push_bit (8 - len) 1 - 1
      in decode_rest (len - 1) (first_byte AND mask) (tl src))"

record llama_partial_utf8 =
  pu_value :: nat
  pu_remain :: int

text \<open>Continue the code point the previous piece ended in; \<open>None\<close>: not a continuation byte.\<close>

fun decode_continue :: "byte list \<Rightarrow> nat \<Rightarrow> int \<Rightarrow> (byte list \<times> nat \<times> int) option" where
  "decode_continue [] val n_remain = Some ([], val, n_remain)"
| "decode_continue (b # src) val n_remain =
     (if n_remain > 0
      then if drop_bit 6 b \<noteq> 2 then None
           else decode_continue src ((push_bit 6 val + (b AND 0x3f)) mod U32) (n_remain - 1)
      else Some (b # src, val, n_remain))"

text \<open>The bytes after a first byte, which are not checked.\<close>

fun decode_take :: "byte list \<Rightarrow> nat \<Rightarrow> int \<Rightarrow> byte list \<times> nat \<times> int" where
  "decode_take [] val n_remain = ([], val, n_remain)"
| "decode_take (b # src) val n_remain =
     (if n_remain > 0
      then decode_take src ((push_bit 6 val + (b AND 0x3f)) mod U32) (n_remain - 1)
      else (b # src, val, n_remain))"

lemma decode_take_length: "length (fst (decode_take src val n)) \<le> length src"
  by (induction src val n rule: decode_take.induct) auto

definition utf8_lookup :: "byte \<Rightarrow> int" where
  "utf8_lookup b = [1, 1, 1, 1, 1, 1, 1, 1, 0, 0, 0, 0, 2, 2, 3, 4] ! drop_bit 4 b"

function decode_loop :: "byte list \<Rightarrow> nat \<Rightarrow> int \<Rightarrow> nat list \<Rightarrow> nat list \<times> llama_partial_utf8" where
  "decode_loop [] val n_remain cps = (cps @ [0], \<lparr>pu_value = val, pu_remain = n_remain\<rparr>)"
| "decode_loop (b # src) val n_remain cps =
     (let n = utf8_lookup b - 1 in
      if n < 0 then ([0], \<lparr>pu_value = 0, pu_remain = n\<rparr>)
      else (case decode_take src (b AND (push_bit (nat (7 - n)) 1 - 1)) n of
              (rest, val', n') \<Rightarrow> decode_loop rest val' n' (if n' = 0 then cps @ [val'] else cps)))"
  by pat_completeness auto
termination
  by (relation "measure (\<lambda>(src, val, n, cps). length src)")
    (auto, metis decode_take_length fst_conv le_imp_less_Suc)

definition decode_utf8 :: "byte list \<Rightarrow> llama_partial_utf8 \<Rightarrow> nat list \<times> llama_partial_utf8" where
  "decode_utf8 str start =
     (let src = takeWhile (\<lambda>b. b \<noteq> 0) str in
      case decode_continue src (pu_value start) (pu_remain start) of
        None \<Rightarrow> ([0], \<lparr>pu_value = 0, pu_remain = -1\<rparr>)
      | Some (rest, val, n_remain) \<Rightarrow>
          decode_loop rest val n_remain (if pu_remain start > 0 \<and> n_remain = 0 then [val] else []))"

section \<open>The decoder as an automaton\<close>

text \<open>
  One byte at a time, with every continuation byte checked. On the inputs it accepts it is what
  \<open>decode_utf8\<close> computes, and it does not matter where the input is cut.
\<close>

definition utf8_step :: "llama_partial_utf8 \<Rightarrow> byte \<Rightarrow> (nat list \<times> llama_partial_utf8) option" where
  "utf8_step p b =
     (if pu_remain p > 0
      then if drop_bit 6 b \<noteq> 2 then None
           else (let v = (push_bit 6 (pu_value p) + (b AND 0x3f)) mod U32; n = pu_remain p - 1
                 in Some (if n = 0 then [v] else [], \<lparr>pu_value = v, pu_remain = n\<rparr>))
      else (let n = utf8_lookup b - 1; v = b AND (push_bit (nat (7 - n)) 1 - 1)
            in if n < 0 then None
               else Some (if n = 0 then [v] else [], \<lparr>pu_value = v, pu_remain = n\<rparr>)))"

fun utf8_run :: "llama_partial_utf8 \<Rightarrow> byte list \<Rightarrow> (nat list \<times> llama_partial_utf8) option" where
  "utf8_run p [] = Some ([], p)"
| "utf8_run p (b # bs) = do {
     (out, p1) \<leftarrow> utf8_step p b; (out', p2) \<leftarrow> utf8_run p1 bs; Some (out @ out', p2)
   }"

lemma utf8_run_append:
  "utf8_run p (xs @ ys) = do {
     (out, p1) \<leftarrow> utf8_run p xs; (out', p2) \<leftarrow> utf8_run p1 ys; Some (out @ out', p2) }"
proof (induction xs arbitrary: p)
  case Nil
  then show ?case by (cases "utf8_run p ys") auto
next
  case (Cons x xs)
  then show ?case
    by (cases "utf8_step p x") (auto split: option.splits bind_splits)
qed

text \<open>While a code point is open, the checked and the unchecked loops do what the automaton does.\<close>

lemma utf8_run_open:
  assumes "0 \<le> n" "utf8_run \<lparr>pu_value = v, pu_remain = n\<rparr> bs = Some (out, p)"
  obtains (closed) rest v' where "decode_take bs v n = (rest, v', 0)" "decode_continue bs v n = Some (rest, v', 0)"
      "length rest \<le> length bs"
      "\<exists>out'. utf8_run \<lparr>pu_value = v', pu_remain = 0\<rparr> rest = Some (out', p)
         \<and> out = (if n > 0 then v' # out' else out')"
  | (still_open) v' n' where "decode_take bs v n = ([], v', n')" "decode_continue bs v n = Some ([], v', n')"
      "0 < n'" "out = []" "p = \<lparr>pu_value = v', pu_remain = n'\<rparr>"
  using assms
proof (induction bs arbitrary: v n out thesis)
  case Nil
  then show ?case by (cases "n = 0") auto
next
  case (Cons b bs)
  show ?case
  proof (cases "n = 0")
    case True
    then show ?thesis using Cons.prems(1,4) by simp
  next
    case False
    then have n: "0 < n" using Cons.prems(3) by simp
    let ?v = "(push_bit 6 v + (b AND 0x3f)) mod U32"
    have b: "drop_bit 6 b = 2" using Cons.prems(4) n by (auto simp: utf8_step_def split: if_splits)
    obtain out1 where run: "utf8_run \<lparr>pu_value = ?v, pu_remain = n - 1\<rparr> bs = Some (out1, p)"
      "out = (if n = 1 then ?v # out1 else out1)"
      using Cons.prems(4) n b by (auto simp: utf8_step_def Let_def split: bind_splits if_splits)
    have step: "decode_take (b # bs) v n = decode_take bs ?v (n - 1)"
      "decode_continue (b # bs) v n = decode_continue bs ?v (n - 1)" using n b by simp_all
    have n1: "0 \<le> n - 1" using n by simp
    show ?thesis
    proof (rule Cons.IH [OF _ _ n1 run(1)])
      fix rest v' assume c: "decode_take bs ?v (n - 1) = (rest, v', 0)" "decode_continue bs ?v (n - 1) = Some (rest, v', 0)"
        "length rest \<le> length bs" "\<exists>out'. utf8_run \<lparr>pu_value = v', pu_remain = 0\<rparr> rest = Some (out', p)
         \<and> out1 = (if n - 1 > 0 then v' # out' else out')"
      have "v' = ?v" "rest = bs" if "n = 1" using c(1) that by (cases bs; simp)+
      then show thesis
        using c step run(2) n by (intro Cons.prems(1) [of rest v']) (auto split: if_splits)
    next
      fix v' n' assume o: "decode_take bs ?v (n - 1) = ([], v', n')" "decode_continue bs ?v (n - 1) = Some ([], v', n')"
        "0 < n'" "out1 = []" "p = \<lparr>pu_value = v', pu_remain = n'\<rparr>"
      have "n \<noteq> 1" using o(1,3) by (cases bs) auto
      then show thesis using o step run(2) by (intro Cons.prems(2)) auto
    qed
  qed
qed

lemma decode_loop_run:
  assumes "utf8_run \<lparr>pu_value = v, pu_remain = n\<rparr> bs = Some (out, p)" "n \<le> 0"
  shows "decode_loop bs v n cps = (cps @ out @ [0], p)"
  using assms
proof (induction bs v n cps arbitrary: out rule: decode_loop.induct)
  case (1 v n cps)
  then show ?case by simp
next
  case (2 b bs v n cps)
  define m where "m = utf8_lookup b - 1"
  define w where "w = b AND (push_bit (nat (7 - m)) 1 - 1)"
  have m: "0 \<le> m" using 2(2,3) by (auto simp: utf8_step_def m_def Let_def not_le split: if_splits)
  obtain out1 where run: "utf8_run \<lparr>pu_value = w, pu_remain = m\<rparr> bs = Some (out1, p)"
    "out = (if m = 0 then w # out1 else out1)"
    using 2(2,3) m by (auto simp: utf8_step_def m_def w_def Let_def split: bind_splits if_splits)
  have step: "decode_loop (b # bs) v n cps = (case decode_take bs w m of
      (rest, v', n') \<Rightarrow> decode_loop rest v' n' (if n' = 0 then cps @ [v'] else cps))"
    using m by (simp add: m_def w_def Let_def)
  have IH: "decode_loop rest v' n' (if n' = 0 then cps @ [v'] else cps) = ((if n' = 0 then cps @ [v'] else cps) @ o2 @ [0], p)"
    if "decode_take bs w m = (rest, v', n')" "utf8_run \<lparr>pu_value = v', pu_remain = n'\<rparr> rest = Some (o2, p)" "n' \<le> 0"
    for rest v' n' o2
    using 2(1) [OF m_def _ that(1) [unfolded w_def, symmetric] refl that(2,3)] m by auto
  show ?case
  proof (rule utf8_run_open [OF m run(1)])
    fix rest v' assume c: "decode_take bs w m = (rest, v', 0)"
      "\<exists>o2. utf8_run \<lparr>pu_value = v', pu_remain = 0\<rparr> rest = Some (o2, p) \<and> out1 = (if m > 0 then v' # o2 else o2)"
    then obtain o2 where o2: "utf8_run \<lparr>pu_value = v', pu_remain = 0\<rparr> rest = Some (o2, p)"
      "out1 = (if m > 0 then v' # o2 else o2)" by blast
    have "v' = w" if "m = 0" using c(1) that by (cases bs) auto
    then have "out = v' # o2" using run(2) o2(2) m by auto
    then show ?thesis using step c(1) IH [OF c(1) o2(1)] by simp
  next
    fix v' n' assume "decode_take bs w m = ([], v', n')" "0 < n'" "out1 = []" "p = \<lparr>pu_value = v', pu_remain = n'\<rparr>"
    moreover from this have "m \<noteq> 0" by (cases bs) auto
    ultimately show ?thesis using step run(2) by simp
  qed
qed

lemma takeWhile_nonzero: "(0 :: nat) \<notin> set bs \<Longrightarrow> takeWhile ((<) 0) bs = bs"
  by (induction bs) auto

text \<open>On input the automaton accepts, \<open>decode_utf8\<close> is the automaton.\<close>

lemma decode_utf8_run:
  assumes "utf8_run p bs = Some (out, p')" "0 \<notin> set bs"
  shows "decode_utf8 bs p = (out @ [0], p')"
proof -
  have tw: "takeWhile ((<) 0) bs = bs" using assms(2) by (rule takeWhile_nonzero)
  obtain v n where p: "p = \<lparr>pu_value = v, pu_remain = n\<rparr>" by (cases p)
  show ?thesis
  proof (cases "0 < n")
    case False
    then have "decode_continue bs v n = Some (bs, v, n)" by (cases bs) auto
    then show ?thesis
      using decode_loop_run [of v n bs out p' "[]"] assms(1) False by (simp add: decode_utf8_def tw p)
  next
    case True
    then have "0 \<le> n" by simp
    from this assms(1) [unfolded p] show ?thesis
    proof (rule utf8_run_open)
      fix rest v' assume c: "decode_continue bs v n = Some (rest, v', 0)"
        "\<exists>out'. utf8_run \<lparr>pu_value = v', pu_remain = 0\<rparr> rest = Some (out', p') \<and> out = (if n > 0 then v' # out' else out')"
      then show ?thesis using True decode_loop_run [of v' 0 rest _ p' "[v']"] by (auto simp: decode_utf8_def tw p)
    next
      fix v' n' assume "decode_continue bs v n = Some ([], v', n')" "0 < n'" "out = []" "p' = \<lparr>pu_value = v', pu_remain = n'\<rparr>"
      then show ?thesis using True by (simp add: decode_utf8_def tw p)
    qed
  qed
qed

text \<open>
  Decoding a text in two pieces, the second from where the first stopped, gives the code points
  of the whole, wherever the text is cut.
\<close>

lemma decode_utf8_pieces:
  assumes "utf8_run p (xs @ ys) = Some (out, p')" "0 \<notin> set (xs @ ys)"
  shows "\<exists>o1 p1 o2. decode_utf8 xs p = (o1 @ [0], p1) \<and> decode_utf8 ys p1 = (o2 @ [0], p')
    \<and> decode_utf8 (xs @ ys) p = ((o1 @ o2) @ [0], p')"
proof -
  obtain o1 p1 o2 where r: "utf8_run p xs = Some (o1, p1)" "utf8_run p1 ys = Some (o2, p')" "out = o1 @ o2"
    using assms(1) by (auto simp: utf8_run_append split: bind_splits)
  then show ?thesis
    using decode_utf8_run [OF r(1)] decode_utf8_run [OF r(2)] decode_utf8_run [OF assms(1)] assms(2) by auto
qed

section \<open>Bits\<close>

lemma and_masks:
  "(n :: nat) AND 0x1f = n mod 32" "n AND 0x3f = n mod 64" "n AND 0x0f = n mod 16" "n AND 0x07 = n mod 8"
  using take_bit_eq_mask [of 5 n] take_bit_eq_mask [of 6 n] take_bit_eq_mask [of 4 n] take_bit_eq_mask [of 3 n]
  by (simp_all add: take_bit_eq_mod mask_eq_exp_minus_1)

lemma or_high: "y < 2 ^ k \<Longrightarrow> (m * 2 ^ k) OR y = m * 2 ^ k + (y :: nat)"
proof -
  assume y: "y < 2 ^ k"
  have "m * 2 ^ k = push_bit k m" by (simp add: push_bit_eq_mult)
  moreover have "y = take_bit k y" using y by (simp add: take_bit_nat_eq_self)
  moreover have "push_bit k m AND take_bit k y = 0"
    by (rule bit_eqI) (auto simp: bit_and_iff bit_push_bit_iff bit_take_bit_iff)
  ultimately show ?thesis using disjunctive_add_eq_or [of "push_bit k m" "take_bit k y"] by metis
qed

lemma or_leads:
  "y < 32 \<Longrightarrow> 0xc0 OR y = 0xc0 + (y :: nat)" "y < 64 \<Longrightarrow> 0x80 OR y = 0x80 + (y :: nat)"
  "y < 16 \<Longrightarrow> 0xe0 OR y = 0xe0 + (y :: nat)" "y < 8 \<Longrightarrow> 0xf0 OR y = 0xf0 + (y :: nat)"
  using or_high [of y 5 6] or_high [of y 6 2] or_high [of y 4 14] or_high [of y 3 30] by simp_all

lemma cpt_to_utf8_arith:
  "unicode_cpt_to_utf8 c =
     (if c \<le> 0x7f then Some [c]
      else if c \<le> 0x7ff then Some [0xc0 + c div 64, 0x80 + c mod 64]
      else if c \<le> 0xffff then Some [0xe0 + c div 4096, 0x80 + c div 64 mod 64, 0x80 + c mod 64]
      else if c \<le> 0x10ffff then Some [0xf0 + c div 262144, 0x80 + c div 4096 mod 64, 0x80 + c div 64 mod 64, 0x80 + c mod 64]
      else None)"
proof -
  have d: "drop_bit 6 c = c div 64" "drop_bit 12 c = c div 4096" "drop_bit 18 c = c div 262144"
    by (simp_all add: drop_bit_eq_div)
  have m: "c \<le> 0x7ff \<Longrightarrow> c div 64 mod 32 = c div 64" "c \<le> 0xffff \<Longrightarrow> c div 4096 mod 16 = c div 4096"
    "c \<le> 0x10ffff \<Longrightarrow> c div 262144 mod 8 = c div 262144"
    by (auto intro!: mod_less)
  show ?thesis
    by (simp add: unicode_cpt_to_utf8_def and_masks or_leads d m)
qed

text \<open>The automaton's steps in arithmetic: a lead byte by its range, a continuation byte.\<close>

lemma utf8_lookup_ranges:
  "b < 128 \<Longrightarrow> utf8_lookup b = 1" "192 \<le> b \<Longrightarrow> b < 224 \<Longrightarrow> utf8_lookup b = 2"
  "224 \<le> b \<Longrightarrow> b < 240 \<Longrightarrow> utf8_lookup b = 3" "240 \<le> b \<Longrightarrow> b < 256 \<Longrightarrow> utf8_lookup b = 4"
proof -
  assume "b < 128"
  then have "b div 16 \<in> {0, 1, 2, 3, 4, 5, 6, 7}" by auto
  then show "utf8_lookup b = 1" by (auto simp: utf8_lookup_def drop_bit_eq_div)
next
  assume "192 \<le> b" "b < 224"
  then have "b div 16 \<in> {12, 13}" by auto
  then show "utf8_lookup b = 2" by (auto simp: utf8_lookup_def drop_bit_eq_div)
next
  assume "224 \<le> b" "b < 240"
  then have "b div 16 = 14" by auto
  then show "utf8_lookup b = 3" by (auto simp: utf8_lookup_def drop_bit_eq_div)
next
  assume "240 \<le> b" "b < 256"
  then have "b div 16 = 15" by auto
  then show "utf8_lookup b = 4" by (auto simp: utf8_lookup_def drop_bit_eq_div)
qed

lemma and_127: "(n :: nat) AND 127 = n mod 128"
  using take_bit_eq_mask [of 7 n] by (simp add: take_bit_eq_mod mask_eq_exp_minus_1)

lemma utf8_step_lead:
  assumes "pu_remain p \<le> 0"
  shows "b < 128 \<Longrightarrow> utf8_step p b = Some ([b], \<lparr>pu_value = b, pu_remain = 0\<rparr>)"
    "x < 32 \<Longrightarrow> utf8_step p (0xc0 + x) = Some ([], \<lparr>pu_value = x, pu_remain = 1\<rparr>)"
    "x < 16 \<Longrightarrow> utf8_step p (0xe0 + x) = Some ([], \<lparr>pu_value = x, pu_remain = 2\<rparr>)"
    "x < 8 \<Longrightarrow> utf8_step p (0xf0 + x) = Some ([], \<lparr>pu_value = x, pu_remain = 3\<rparr>)"
proof -
  show "b < 128 \<Longrightarrow> utf8_step p b = Some ([b], \<lparr>pu_value = b, pu_remain = 0\<rparr>)"
    using assms by (simp add: utf8_step_def utf8_lookup_ranges and_127)
  show "x < 32 \<Longrightarrow> utf8_step p (0xc0 + x) = Some ([], \<lparr>pu_value = x, pu_remain = 1\<rparr>)"
    using assms by (simp add: utf8_step_def utf8_lookup_ranges and_masks mod_add_left_eq [of 192 64 x, symmetric])
  show "x < 16 \<Longrightarrow> utf8_step p (0xe0 + x) = Some ([], \<lparr>pu_value = x, pu_remain = 2\<rparr>)"
    using assms by (simp add: utf8_step_def utf8_lookup_ranges and_masks mod_add_left_eq [of 224 32 x, symmetric])
  show "x < 8 \<Longrightarrow> utf8_step p (0xf0 + x) = Some ([], \<lparr>pu_value = x, pu_remain = 3\<rparr>)"
    using assms by (simp add: utf8_step_def utf8_lookup_ranges and_masks mod_add_left_eq [of 240 16 x, symmetric])
qed

lemma utf8_step_cont:
  assumes "x < 64" "0 < n"
  shows "utf8_step \<lparr>pu_value = v, pu_remain = n\<rparr> (0x80 + x) =
    (let w = (v * 64 + x) mod U32 in Some (if n = 1 then [w] else [], \<lparr>pu_value = w, pu_remain = n - 1\<rparr>))"
proof -
  have "drop_bit 6 (0x80 + x) = 2" using assms(1) by (simp add: drop_bit_eq_div)
  moreover have "(0x80 + x) AND 0x3f = x"
    using assms(1) by (simp only: and_masks) (simp add: mod_add_left_eq [of 128 64 x, symmetric])
  ultimately show ?thesis using assms(2) by (simp add: utf8_step_def push_bit_eq_mult Let_def)
qed

lemma utf8_run_2:
  assumes "pu_remain p \<le> 0" "a < 32" "b < 64" "v = a * 64 + b"
  shows "utf8_run p [0xc0 + a, 0x80 + b] = Some ([v], \<lparr>pu_value = v, pu_remain = 0\<rparr>)"
  using assms by (simp add: utf8_step_lead utf8_step_cont Let_def)

lemma utf8_run_3:
  assumes "pu_remain p \<le> 0" "a < 16" "b < 64" "d < 64" "v = (a * 64 + b) * 64 + d"
  shows "utf8_run p [0xe0 + a, 0x80 + b, 0x80 + d] = Some ([v], \<lparr>pu_value = v, pu_remain = 0\<rparr>)"
  using assms by (simp add: utf8_step_lead utf8_step_cont Let_def)

lemma utf8_run_4:
  assumes "pu_remain p \<le> 0" "a < 8" "b < 64" "d < 64" "e < 64" "v = ((a * 64 + b) * 64 + d) * 64 + e"
  shows "utf8_run p [0xf0 + a, 0x80 + b, 0x80 + d, 0x80 + e] = Some ([v], \<lparr>pu_value = v, pu_remain = 0\<rparr>)"
  using assms by (simp add: utf8_step_lead utf8_step_cont Let_def)

lemma sextets:
  "(c :: nat) = c div 64 * 64 + c mod 64" "c div 64 = c div 4096 * 64 + c div 64 mod 64"
  "c div 4096 = c div 262144 * 64 + c div 4096 mod 64"
  using div_mult_mod_eq [of "c div 64" 64] div_mult_mod_eq [of "c div 4096" 64]
  by (simp_all add: div_mult2_eq [symmetric])

text \<open>The automaton reads back what the encoder wrote.\<close>

lemma utf8_run_encode:
  assumes "unicode_cpt_to_utf8 c = Some bs" "pu_remain p \<le> 0"
  shows "utf8_run p bs = Some ([c], \<lparr>pu_value = c, pu_remain = 0\<rparr>)"
proof -
  note e = assms(1) [unfolded cpt_to_utf8_arith]
  have b: "c mod 64 < 64" "c div 64 mod 64 < 64" "c div 4096 mod 64 < 64" by simp_all
  consider "c \<le> 0x7f" | "0x7f < c" "c \<le> 0x7ff" | "0x7ff < c" "c \<le> 0xffff" | "0xffff < c" "c \<le> 0x10ffff"
    using e by (fastforce split: if_splits)
  then show ?thesis
  proof cases
    case 1
    then show ?thesis using e assms(2) by (auto simp: utf8_step_lead)
  next
    case 2
    then have "bs = [0xc0 + c div 64, 0x80 + c mod 64]" "c div 64 < 32" using e by (simp, simp)
    then show ?thesis using utf8_run_2 [OF assms(2) _ b(1) sextets(1)] by (simp only:)
  next
    case 3
    then have "bs = [0xe0 + c div 4096, 0x80 + c div 64 mod 64, 0x80 + c mod 64]" "c div 4096 < 16"
      using e by (simp, simp)
    then show ?thesis
      using utf8_run_3 [OF assms(2) _ b(2,1), of "c div 4096" c] sextets(1,2) [of c] by metis
  next
    case 4
    then have "bs = [0xf0 + c div 262144, 0x80 + c div 4096 mod 64, 0x80 + c div 64 mod 64, 0x80 + c mod 64]"
      "c div 262144 < 8" using e by (simp, simp)
    then show ?thesis
      using utf8_run_4 [OF assms(2) _ b(3,2,1), of "c div 262144" c] sextets [of c] by metis
  qed
qed

lemma utf8_run_encode_all:
  assumes "unicode_cpts_to_utf8 cps = Some bs" "pu_remain p \<le> 0"
  shows "\<exists>p'. utf8_run p bs = Some (cps, p') \<and> pu_remain p' \<le> 0"
  using assms
proof (induction cps arbitrary: p bs)
  case Nil
  then show ?case by simp
next
  case (Cons c cps)
  then obtain b1 b2 where b: "unicode_cpt_to_utf8 c = Some b1" "unicode_cpts_to_utf8 cps = Some b2" "bs = b1 @ b2"
    by (auto split: bind_splits)
  show ?case
    using Cons.IH [OF b(2), of "\<lparr>pu_value = c, pu_remain = 0\<rparr>"] utf8_run_encode [OF b(1) Cons.prems(2)] b(3)
    by (auto simp: utf8_run_append)
qed

lemma encode_no_nul:
  "unicode_cpts_to_utf8 cps = Some bs \<Longrightarrow> 0 \<notin> set cps \<Longrightarrow> 0 \<notin> set bs"
proof (induction cps arbitrary: bs)
  case (Cons c cps)
  then show ?case by (auto simp: cpt_to_utf8_arith split: bind_splits if_splits)
qed simp

lemma decode_utf8_encode:
  assumes "unicode_cpts_to_utf8 cps = Some bs" "0 \<notin> set cps" "pu_remain p = 0"
  shows "\<exists>p'. decode_utf8 bs p = (cps @ [0], p')"
  using utf8_run_encode_all [OF assms(1), of p] decode_utf8_run encode_no_nul [OF assms(1,2)] assms(3)
  by fastforce

lemma encode_inject: "unicode_cpt_to_utf8 c = Some bs \<Longrightarrow> unicode_cpt_to_utf8 d = Some bs \<Longrightarrow> c = d"
  using utf8_run_encode [of c bs "\<lparr>pu_value = 0, pu_remain = 0\<rparr>"] utf8_run_encode [of d bs "\<lparr>pu_value = 0, pu_remain = 0\<rparr>"]
  by simp

subsection \<open>The strict decoder\<close>

lemma and_bits:
  "((b :: nat) AND 0x80 = 0) = even (b div 128)" "(b AND 0x40 = 0) = even (b div 64)" "(b AND 0x20 = 0) = even (b div 32)"
  "(b AND 0x10 = 0) = even (b div 16)" "(b AND 0x08 = 0) = even (b div 8)"
  using and_exp_eq_0_iff_not_bit [of b 7] and_exp_eq_0_iff_not_bit [of b 6] and_exp_eq_0_iff_not_bit [of b 5]
    and_exp_eq_0_iff_not_bit [of b 4] and_exp_eq_0_iff_not_bit [of b 3]
  by (simp_all add: bit_iff_odd)

lemma cont_byte: "x < 64 \<Longrightarrow> (0x80 + x) AND 0xc0 = (0x80 :: nat)" "x < 64 \<Longrightarrow> (0x80 + x) AND 0x3f = x"
proof -
  assume x: "x < 64"
  then have "x = x AND 0x3f" by (simp add: and_masks)
  then have "x AND 0xc0 = x AND (0x3f AND 0xc0)" by (metis and.assoc)
  then have "x AND 0xc0 = 0" by simp
  moreover have "(0x80 OR x) AND 0xc0 = (0x80 AND 0xc0) OR (x AND 0xc0)"
    by (rule bit_eqI) (auto simp only: bit_and_iff bit_or_iff)
  moreover have "0x80 + x = 0x80 OR x" using x by (simp only: or_leads)
  ultimately show "(0x80 + x) AND 0xc0 = (0x80 :: nat)" by simp
  show "(0x80 + x) AND 0x3f = x" using x
    by (simp only: and_masks) (simp add: mod_add_left_eq [of 128 64 x, symmetric])
qed

lemma cont_at_append:
  "x < 64 \<Longrightarrow> n = length pre \<Longrightarrow> cont_at (pre @ (0x80 + x) # post) n"
  by (simp add: cont_at_def cont_byte nth_append)

lemma or_high_push: "y < 2 ^ k \<Longrightarrow> push_bit k m OR y = m * 2 ^ k + (y :: nat)"
  by (simp add: push_bit_eq_mult or_high)


lemma cont_at_rel: "cont_at (pre @ s) (length pre + k) = cont_at s k"
  by (simp add: cont_at_def)

lemma nth_rel: "(pre @ s) ! (length pre + k) = s ! k"
  by simp

text \<open>The decoder at an encoded code point, whatever surrounds it.\<close>

lemma cpt_from_utf8_shift:
  "unicode_cpt_from_utf8 (pre @ s) (length pre) = map_option (\<lambda>(c, k). (c, length pre + k)) (unicode_cpt_from_utf8 s 0)"
proof -
  let ?t = "pre @ s" and ?n = "length pre"
  have "cont_at ?t (?n + 1) = cont_at s (0 + 1)" "cont_at ?t (?n + 2) = cont_at s (0 + 2)"
    "cont_at ?t (?n + 3) = cont_at s (0 + 3)" "?t ! ?n = s ! 0" "?t ! (?n + 1) = s ! (0 + 1)"
    "?t ! (?n + 2) = s ! (0 + 2)" "?t ! (?n + 3) = s ! (0 + 3)"
    using nth_rel [of pre s 0] by (simp_all only: cont_at_rel nth_rel add_0 add_0_right)
  then show ?thesis unfolding unicode_cpt_from_utf8_def Let_def by (simp only: if_distrib [of "map_option f" for f]) simp
qed

lemma cpt_from_utf8_1: "b < 128 \<Longrightarrow> unicode_cpt_from_utf8 (b # post) 0 = Some (b, 1)"
  by (simp add: unicode_cpt_from_utf8_def and_bits)

lemma lead_bits:
  "a < 32 \<Longrightarrow> (0xc0 + a) AND 0x1f = (a :: nat)" "a < 16 \<Longrightarrow> (0xe0 + a) AND 0x0f = a" "a < 8 \<Longrightarrow> (0xf0 + a) AND 0x07 = a"
  by (simp_all only: and_masks)
    (simp_all add: mod_add_left_eq [of 192 32 a, symmetric] mod_add_left_eq [of 224 16 a, symmetric]
      mod_add_left_eq [of 240 8 a, symmetric])

lemma lead_div:
  "a < 32 \<Longrightarrow> (0xc0 + a) div 128 = (1 :: nat)"
  "a < 32 \<Longrightarrow> (0xc0 + a) div 64 = (3 :: nat)"
  "a < 32 \<Longrightarrow> (0xc0 + a) div 32 = (6 :: nat)"
  "a < 16 \<Longrightarrow> (0xe0 + a) div 128 = (1 :: nat)"
  "a < 16 \<Longrightarrow> (0xe0 + a) div 64 = (3 :: nat)"
  "a < 16 \<Longrightarrow> (0xe0 + a) div 32 = (7 :: nat)"
  "a < 16 \<Longrightarrow> (0xe0 + a) div 16 = (14 :: nat)"
  "a < 8 \<Longrightarrow> (0xf0 + a) div 128 = (1 :: nat)"
  "a < 8 \<Longrightarrow> (0xf0 + a) div 64 = (3 :: nat)"
  "a < 8 \<Longrightarrow> (0xf0 + a) div 32 = (7 :: nat)"
  "a < 8 \<Longrightarrow> (0xf0 + a) div 16 = (15 :: nat)"
  "a < 8 \<Longrightarrow> (0xf0 + a) div 8 = (30 :: nat)"
  by (rule div_nat_eqI; simp)+

lemma cpt_from_utf8_2:
  assumes "a < 32" "x < 64"
  shows "unicode_cpt_from_utf8 ((0xc0 + a) # (0x80 + x) # post) 0 = Some (a * 64 + x, 2)"
proof -
  have "odd ((0xc0 + a) div 128)" "odd ((0xc0 + a) div 64)"
    "even ((0xc0 + a) div 32)"
    using assms by (simp_all only: lead_div) simp_all
  moreover have "push_bit 6 a OR x = a * 64 + x" using assms or_high_push [of x 6 a] by simp
  ultimately show ?thesis
    using assms unfolding unicode_cpt_from_utf8_def
    by (simp add: and_bits cont_at_def Let_def cont_byte lead_bits numeral_2_eq_2)
qed

lemma cpt_from_utf8_3:
  assumes "a < 16" "x < 64" "y < 64"
  shows "unicode_cpt_from_utf8 ((0xe0 + a) # (0x80 + x) # (0x80 + y) # post) 0 = Some ((a * 64 + x) * 64 + y, 3)"
proof -
  have "odd ((0xe0 + a) div 128)" "odd ((0xe0 + a) div 64)" "odd ((0xe0 + a) div 32)"
    "even ((0xe0 + a) div 16)"
    using assms by (simp_all only: lead_div) simp_all
  moreover have "push_bit 12 a OR push_bit 6 x OR y = (a * 64 + x) * 64 + y"
    using assms or_high_push [of y 6 x] or_high_push [of "x * 64 + y" 12 a] by (simp add: or.assoc)
  ultimately show ?thesis
    using assms unfolding unicode_cpt_from_utf8_def
    by (simp add: and_bits cont_at_def Let_def cont_byte lead_bits numeral_2_eq_2 numeral_3_eq_3)
qed

lemma cpt_from_utf8_4:
  assumes "a < 8" "x < 64" "y < 64" "z < 64"
  shows "unicode_cpt_from_utf8 ((0xf0 + a) # (0x80 + x) # (0x80 + y) # (0x80 + z) # post) 0
    = Some (((a * 64 + x) * 64 + y) * 64 + z, 4)"
proof -
  have "odd ((0xf0 + a) div 128)" "odd ((0xf0 + a) div 64)" "odd ((0xf0 + a) div 32)" "odd ((0xf0 + a) div 16)"
    "even ((0xf0 + a) div 8)"
    using assms by (simp_all only: lead_div) simp_all
  moreover have "push_bit 18 a OR push_bit 12 x OR push_bit 6 y OR z = ((a * 64 + x) * 64 + y) * 64 + z"
    using assms or_high_push [of z 6 y] or_high_push [of "y * 64 + z" 12 x]
      or_high_push [of "x * 4096 + (y * 64 + z)" 18 a] by (simp add: or.assoc)
  ultimately show ?thesis
    using assms unfolding unicode_cpt_from_utf8_def
    by (simp add: and_bits cont_at_def Let_def cont_byte lead_bits numeral_2_eq_2 numeral_3_eq_3)
qed

lemma cpt_from_utf8_encode:
  assumes "unicode_cpt_to_utf8 c = Some bs"
  shows "unicode_cpt_from_utf8 (pre @ bs @ post) (length pre) = Some (c, length pre + length bs)"
proof -
  note e = assms [unfolded cpt_to_utf8_arith]
  consider "c \<le> 0x7f" | "0x7f < c" "c \<le> 0x7ff" | "0x7ff < c" "c \<le> 0xffff" | "0xffff < c" "c \<le> 0x10ffff"
    using e by (fastforce split: if_splits)
  then have "unicode_cpt_from_utf8 (bs @ post) 0 = Some (c, length bs)"
  proof cases
    case 1
    then show ?thesis using e cpt_from_utf8_1 [of c post] by auto
  next
    case 2
    then have b: "bs = [0xc0 + c div 64, 0x80 + c mod 64]" "c div 64 < 32" using e by (simp, simp)
    show ?thesis
      using cpt_from_utf8_2 [OF b(2), of "c mod 64" post] by (simp add: b(1) sextets(1) [symmetric])
  next
    case 3
    then have b: "bs = [0xe0 + c div 4096, 0x80 + c div 64 mod 64, 0x80 + c mod 64]" "c div 4096 < 16"
      using e by (simp, simp)
    show ?thesis
      using cpt_from_utf8_3 [OF b(2), of "c div 64 mod 64" "c mod 64" post]
      by (simp only: sextets(1,2) [of c, symmetric]) (simp add: b(1))
  next
    case 4
    then have b: "bs = [0xf0 + c div 262144, 0x80 + c div 4096 mod 64, 0x80 + c div 64 mod 64, 0x80 + c mod 64]"
      "c div 262144 < 8" using e by (simp, simp)
    show ?thesis
      using cpt_from_utf8_4 [OF b(2), of "c div 4096 mod 64" "c div 64 mod 64" "c mod 64" post]
      by (simp only: sextets [of c, symmetric]) (simp add: b(1))
  qed
  then show ?thesis by (simp add: cpt_from_utf8_shift)
qed

lemma cpts_from_utf8_encode_at:
  assumes "unicode_cpts_to_utf8 cps = Some bs"
  shows "unicode_cpts_from_utf8_at (pre @ bs) (length pre) = cps"
  using assms
proof (induction cps arbitrary: pre bs)
  case Nil
  then show ?case by (simp add: unicode_cpts_from_utf8_at.simps)
next
  case (Cons c cps)
  then obtain b1 b2 where b: "unicode_cpt_to_utf8 c = Some b1" "unicode_cpts_to_utf8 cps = Some b2" "bs = b1 @ b2"
    by (auto split: bind_splits)
  have ne: "b1 \<noteq> []" using b(1) by (auto simp: unicode_cpt_to_utf8_def split: if_splits)
  have "unicode_cpts_from_utf8_at (pre @ bs) (length pre) = c # unicode_cpts_from_utf8_at ((pre @ b1) @ b2) (length (pre @ b1))"
    using cpt_from_utf8_encode [OF b(1), of pre b2] ne b(3) by (simp add: unicode_cpts_from_utf8_at.simps [of "pre @ b1 @ b2" "length pre"])
  then show ?case using Cons.IH [OF b(2), of "pre @ b1"] by simp
qed

lemma cpts_from_utf8_encode: "unicode_cpts_to_utf8 cps = Some bs \<Longrightarrow> unicode_cpts_from_utf8 bs = cps"
  using cpts_from_utf8_encode_at [of cps bs "[]"] by (simp add: unicode_cpts_from_utf8_def)

subsection \<open>The decoder of the grammar parser\<close>

lemma unicode_len_ranges:
  "b < 128 \<Longrightarrow> unicode_len_utf8 b = 1" "192 \<le> b \<Longrightarrow> b < 224 \<Longrightarrow> unicode_len_utf8 b = 2"
  "224 \<le> b \<Longrightarrow> b < 240 \<Longrightarrow> unicode_len_utf8 b = 3" "240 \<le> b \<Longrightarrow> b < 256 \<Longrightarrow> unicode_len_utf8 b = 4"
proof -
  assume "b < 128"
  then have "b div 16 \<in> {0, 1, 2, 3, 4, 5, 6, 7}" by auto
  then show "unicode_len_utf8 b = 1" by (auto simp: unicode_len_utf8_def drop_bit_eq_div)
next
  assume "192 \<le> b" "b < 224"
  then have "b div 16 \<in> {12, 13}" by auto
  then show "unicode_len_utf8 b = 2" by (auto simp: unicode_len_utf8_def drop_bit_eq_div)
next
  assume "224 \<le> b" "b < 240"
  then have "b div 16 = 14" by auto
  then show "unicode_len_utf8 b = 3" by (auto simp: unicode_len_utf8_def drop_bit_eq_div)
next
  assume "240 \<le> b" "b < 256"
  then have "b div 16 = 15" by auto
  then show "unicode_len_utf8 b = 4" by (auto simp: unicode_len_utf8_def drop_bit_eq_div)
qed

lemma unicode_len_range:
  assumes "b < 256"
  shows "1 \<le> unicode_len_utf8 b \<and> unicode_len_utf8 b \<le> 4"
proof -
  consider "b < 128" | "128 \<le> b" "b < 192" | "192 \<le> b" "b < 224" | "224 \<le> b" "b < 240" | "240 \<le> b"
    by linarith
  then show ?thesis
  proof cases
    case 2
    then have "b div 16 \<in> {8, 9, 10, 11}" by auto
    then show ?thesis by (auto simp: unicode_len_utf8_def drop_bit_eq_div)
  qed (use unicode_len_ranges assms in simp_all)
qed

lemma decode_utf8_one_len:
  "decode_utf8_one (b # src) =
     decode_rest (unicode_len_utf8 b - 1) (b AND (push_bit (8 - unicode_len_utf8 b) 1 - 1)) src"
  by (simp add: decode_utf8_one_def unicode_len_utf8_def Let_def)

lemma decode_utf8_one_lead:
  "b < 128 \<Longrightarrow> decode_utf8_one (b # src) = (b, src)"
  "x < 32 \<Longrightarrow> decode_utf8_one ((0xc0 + x) # src) = decode_rest 1 x src"
  "x < 16 \<Longrightarrow> decode_utf8_one ((0xe0 + x) # src) = decode_rest 2 x src"
  "x < 8 \<Longrightarrow> decode_utf8_one ((0xf0 + x) # src) = decode_rest 3 x src"
proof -
  show "b < 128 \<Longrightarrow> decode_utf8_one (b # src) = (b, src)"
    by (simp add: decode_utf8_one_len unicode_len_ranges and_127)
  show "x < 32 \<Longrightarrow> decode_utf8_one ((0xc0 + x) # src) = decode_rest 1 x src"
    by (simp add: decode_utf8_one_len unicode_len_ranges and_masks mod_add_left_eq [of 192 64 x, symmetric])
  show "x < 16 \<Longrightarrow> decode_utf8_one ((0xe0 + x) # src) = decode_rest 2 x src"
    by (simp add: decode_utf8_one_len unicode_len_ranges and_masks mod_add_left_eq [of 224 32 x, symmetric])
  show "x < 8 \<Longrightarrow> decode_utf8_one ((0xf0 + x) # src) = decode_rest 3 x src"
    by (simp add: decode_utf8_one_len unicode_len_ranges and_masks mod_add_left_eq [of 240 16 x, symmetric])
qed

lemma decode_rest_cont:
  "x < 64 \<Longrightarrow> v * 64 + x < U32 \<Longrightarrow> decode_rest (Suc k) v ((0x80 + x) # src) = decode_rest k (v * 64 + x) src"
  by (simp add: cont_byte(2) push_bit_eq_mult)

lemma decode_utf8_one_encode:
  assumes "unicode_cpt_to_utf8 c = Some bs"
  shows "decode_utf8_one (bs @ rest) = (c, rest)"
proof -
  note e = assms [unfolded cpt_to_utf8_arith]
  have b: "c mod 64 < 64" "c div 64 mod 64 < 64" "c div 4096 mod 64 < 64" by simp_all
  have c: "c < U32" using e by (auto split: if_splits)
  have u: "c div 64 < U32" "c div 4096 < U32" using c by (auto intro: le_less_trans [OF div_le_dividend])
  consider "c \<le> 0x7f" | "0x7f < c" "c \<le> 0x7ff" | "0x7ff < c" "c \<le> 0xffff" | "0xffff < c" "c \<le> 0x10ffff"
    using e by (fastforce split: if_splits)
  then show ?thesis
  proof cases
    case 1
    then show ?thesis using e by (auto simp: decode_utf8_one_lead)
  next
    case 2
    then have bs: "bs = [0xc0 + c div 64, 0x80 + c mod 64]" "c div 64 < 32" using e by (simp, simp)
    have "decode_utf8_one (bs @ rest) = decode_rest (Suc 0) (c div 64) ((0x80 + c mod 64) # rest)"
      using decode_utf8_one_lead(2) [OF bs(2)] by (simp add: bs(1))
    also have "\<dots> = (c, rest)"
      using decode_rest_cont [OF b(1), of "c div 64" 0 rest] c by (simp add: sextets(1) [symmetric])
    finally show ?thesis .
  next
    case 3
    then have bs: "bs = [0xe0 + c div 4096, 0x80 + c div 64 mod 64, 0x80 + c mod 64]" "c div 4096 < 16"
      using e by (simp, simp)
    have "decode_utf8_one (bs @ rest) =
        decode_rest (Suc (Suc 0)) (c div 4096) ((0x80 + c div 64 mod 64) # (0x80 + c mod 64) # rest)"
      using decode_utf8_one_lead(3) [OF bs(2)] by (simp add: bs(1) numeral_2_eq_2)
    also have "\<dots> = decode_rest (Suc 0) (c div 64) ((0x80 + c mod 64) # rest)"
      using decode_rest_cont [OF b(2), of "c div 4096" "Suc 0"] u by (simp only: sextets(2) [symmetric])
    also have "\<dots> = (c, rest)"
      using decode_rest_cont [OF b(1), of "c div 64" 0 rest] c by (simp add: sextets(1) [symmetric])
    finally show ?thesis .
  next
    case 4
    then have bs: "bs = [0xf0 + c div 262144, 0x80 + c div 4096 mod 64, 0x80 + c div 64 mod 64, 0x80 + c mod 64]"
      "c div 262144 < 8" using e by (simp, simp)
    have "decode_utf8_one (bs @ rest) = decode_rest (Suc (Suc (Suc 0))) (c div 262144)
        ((0x80 + c div 4096 mod 64) # (0x80 + c div 64 mod 64) # (0x80 + c mod 64) # rest)"
      using decode_utf8_one_lead(4) [OF bs(2)] by (simp add: bs(1) numeral_3_eq_3)
    also have "\<dots> = decode_rest (Suc (Suc 0)) (c div 4096) ((0x80 + c div 64 mod 64) # (0x80 + c mod 64) # rest)"
      using decode_rest_cont [OF b(3), of "c div 262144" "Suc (Suc 0)"] u by (simp only: sextets(3) [symmetric])
    also have "\<dots> = decode_rest (Suc 0) (c div 64) ((0x80 + c mod 64) # rest)"
      using decode_rest_cont [OF b(2), of "c div 4096" "Suc 0"] u by (simp only: sextets(2) [symmetric])
    also have "\<dots> = (c, rest)"
      using decode_rest_cont [OF b(1), of "c div 64" 0 rest] c by (simp add: sextets(1) [symmetric])
    finally show ?thesis .
  qed
qed

section \<open>The byte alphabet of the byte-level BPE\<close>

text \<open>
  The printable bytes stand for themselves, the others for the code points from 256 on, in
  order.
\<close>

definition byte_ranges :: "byte list" where
  "byte_ranges = [0x21..<0x7F] @ [0xA1..<0xAD] @ [0xAE..<0x100]"

definition unicode_byte_to_utf8_map :: "byte \<rightharpoonup> byte list" where
  "unicode_byte_to_utf8_map =
     (let m = fold (\<lambda>ch m. m(ch \<mapsto> the (unicode_cpt_to_utf8 ch))) byte_ranges Map.empty in
      fst (fold (\<lambda>ch (m, n). if m ch = None then (m(ch \<mapsto> the (unicode_cpt_to_utf8 (256 + n))), Suc n) else (m, n))
             [0..<256] (m, 0)))"

definition unicode_utf8_to_byte_map :: "byte list \<rightharpoonup> byte" where
  "unicode_utf8_to_byte_map =
     (let m = fold (\<lambda>ch m. m(the (unicode_cpt_to_utf8 ch) \<mapsto> ch)) byte_ranges Map.empty in
      fst (fold (\<lambda>ch (m, n).
               if m (the (unicode_cpt_to_utf8 ch)) = None
               then (m(the (unicode_cpt_to_utf8 (256 + n)) \<mapsto> ch), Suc n) else (m, n))
             [0..<256] (m, 0)))"

text \<open>\<open>map.at\<close>; \<open>None\<close> is \<open>std::out_of_range\<close>.\<close>

definition unicode_byte_to_utf8 :: "byte \<Rightarrow> byte list option" where
  "unicode_byte_to_utf8 b = unicode_byte_to_utf8_map b"

definition unicode_utf8_to_byte :: "byte list \<Rightarrow> byte option" where
  "unicode_utf8_to_byte s = unicode_utf8_to_byte_map s"

text \<open>The number of unprintable bytes below \<open>b\<close>.\<close>

definition unprintable :: "nat \<Rightarrow> nat" where
  "unprintable k = length (filter (\<lambda>c. c \<notin> set byte_ranges) [0..<k])"

definition byte_code :: "byte \<Rightarrow> nat" where
  "byte_code b = (if b \<in> set byte_ranges then b else 256 + unprintable b)"

lemma unprintable_Suc: "unprintable (Suc k) = (if k \<in> set byte_ranges then unprintable k else Suc (unprintable k))"
  by (simp add: unprintable_def)

lemma unprintable_le: "unprintable k \<le> k"
  using length_filter_le [of _ "[0..<k]"] by (simp add: unprintable_def)

lemma unprintable_mono: "i < j \<Longrightarrow> i \<notin> set byte_ranges \<Longrightarrow> unprintable i < unprintable j"
proof (induction j)
  case (Suc j)
  then show ?case by (cases "i = j") (auto simp: unprintable_Suc)
qed simp

lemma byte_code_less: "b < 256 \<Longrightarrow> byte_code b < 512"
  using unprintable_le [of b] by (simp add: byte_code_def)

lemma utf8_of_some: "c < 512 \<Longrightarrow> unicode_cpt_to_utf8 c = Some (the (unicode_cpt_to_utf8 c))"
  by (simp add: unicode_cpt_to_utf8_def)

lemma utf8_of_inj: "c < 512 \<Longrightarrow> d < 512 \<Longrightarrow> the (unicode_cpt_to_utf8 c) = the (unicode_cpt_to_utf8 d) \<longleftrightarrow> c = d"
  using encode_inject utf8_of_some by metis

lemma fold_map_set:
  "fold (\<lambda>ch m. m(ch \<mapsto> f ch)) xs m = (\<lambda>b. if b \<in> set xs then Some (f b) else m b)"
  by (induction xs arbitrary: m) (auto simp: fun_eq_iff)

lemma fold_map_key:
  "(\<And>x y. x \<in> A \<Longrightarrow> y \<in> A \<Longrightarrow> k x = k y \<longleftrightarrow> x = y) \<Longrightarrow> set xs \<subseteq> A \<Longrightarrow> b \<in> A \<Longrightarrow>
    fold (\<lambda>ch m. m(k ch \<mapsto> ch)) xs m (k b) = (if b \<in> set xs then Some b else m (k b))"
  by (induction xs arbitrary: m) auto

lemma byte_to_utf8_loop:
  "k \<le> 256 \<Longrightarrow> fold (\<lambda>ch (m, n). if m ch = None then (m(ch \<mapsto> the (unicode_cpt_to_utf8 (256 + n))), Suc n) else (m, n))
     [0..<k] ((\<lambda>b. if b \<in> set byte_ranges then Some (the (unicode_cpt_to_utf8 b)) else None), 0)
   = ((\<lambda>b. if b \<in> set byte_ranges \<or> b < k then Some (the (unicode_cpt_to_utf8 (byte_code b))) else None), unprintable k)"
proof (induction k)
  case 0
  then show ?case by (auto simp: byte_code_def unprintable_def)
next
  case (Suc k)
  then show ?case by (auto simp: fun_eq_iff unprintable_Suc byte_code_def less_Suc_eq)
qed

lemma byte_to_utf8: "b < 256 \<Longrightarrow> unicode_byte_to_utf8 b = unicode_cpt_to_utf8 (byte_code b)"
  using byte_to_utf8_loop [of 256] utf8_of_some [OF byte_code_less, of b]
  by (simp add: unicode_byte_to_utf8_def unicode_byte_to_utf8_map_def fold_map_set)

lemma byte_ranges_less: "b \<in> set byte_ranges \<Longrightarrow> b < 256"
  by (auto simp: byte_ranges_def)

lemma utf8_to_byte_loop:
  assumes "k \<le> 256" "\<And>b. b < 512 \<Longrightarrow> m0 (the (unicode_cpt_to_utf8 b)) = (if b \<in> set byte_ranges then Some b else None)"
    "fold (\<lambda>ch (m, n). if m (the (unicode_cpt_to_utf8 ch)) = None
        then (m(the (unicode_cpt_to_utf8 (256 + n)) \<mapsto> ch), Suc n) else (m, n)) [0..<k] (m0, 0) = (m, n)"
  shows "n = unprintable k \<and> (\<forall>b<256. m (the (unicode_cpt_to_utf8 b)) = (if b \<in> set byte_ranges then Some b else None))
    \<and> (\<forall>b<k. m (the (unicode_cpt_to_utf8 (byte_code b))) = Some b)"
  using assms(1,3)
proof (induction k arbitrary: m n)
  case 0
  then show ?case using assms(2) by (auto simp: unprintable_def)
next
  case (Suc k)
  obtain m1 n1 where f: "fold (\<lambda>ch (m, n). if m (the (unicode_cpt_to_utf8 ch)) = None
        then (m(the (unicode_cpt_to_utf8 (256 + n)) \<mapsto> ch), Suc n) else (m, n)) [0..<k] (m0, 0) = (m1, n1)"
    by fastforce
  have ih: "n1 = unprintable k" "\<forall>b<256. m1 (the (unicode_cpt_to_utf8 b)) = (if b \<in> set byte_ranges then Some b else None)"
    "\<forall>b<k. m1 (the (unicode_cpt_to_utf8 (byte_code b))) = Some b"
    using Suc.IH [OF _ f] Suc.prems(1) by auto
  have k: "m1 (the (unicode_cpt_to_utf8 k)) = (if k \<in> set byte_ranges then Some k else None)" using ih(2) Suc.prems(1) by simp
  show ?case
  proof (cases "k \<in> set byte_ranges")
    case True
    then have "m = m1" "n = n1" using Suc.prems(2) f k by simp_all
    then show ?thesis
      using ih k True by (auto simp: unprintable_Suc less_Suc_eq byte_code_def)
  next
    case False
    then have m: "m = m1(the (unicode_cpt_to_utf8 (256 + n1)) \<mapsto> k)" "n = Suc n1" using Suc.prems(2) f k by simp_all
    have n1: "256 + n1 < 512" using unprintable_le [of k] Suc.prems(1) ih(1) by simp
    have "the (unicode_cpt_to_utf8 b) \<noteq> the (unicode_cpt_to_utf8 (256 + n1))" if "b < 256" for b
      using utf8_of_inj [of b "256 + n1"] n1 that by simp
    moreover have "the (unicode_cpt_to_utf8 (byte_code b)) \<noteq> the (unicode_cpt_to_utf8 (256 + n1))" if "b < k" for b
    proof -
      have "byte_code b \<noteq> 256 + n1"
        using that unprintable_mono [of b k] byte_ranges_less [of b] ih(1) by (auto simp: byte_code_def)
      then show ?thesis using utf8_of_inj [OF byte_code_less n1, of b] that Suc.prems(1) by simp
    qed
    ultimately show ?thesis using m ih False by (auto simp: unprintable_Suc less_Suc_eq byte_code_def)
  qed
qed

lemma utf8_to_byte:
  assumes "b < 256"
  shows "\<exists>s. unicode_byte_to_utf8 b = Some s \<and> unicode_utf8_to_byte s = Some b"
proof -
  let ?m0 = "fold (\<lambda>ch m. m(the (unicode_cpt_to_utf8 ch) \<mapsto> ch)) byte_ranges Map.empty"
  have m0: "?m0 (the (unicode_cpt_to_utf8 b)) = (if b \<in> set byte_ranges then Some b else None)" if "b < 512" for b
    using fold_map_key [of "{..<512}" "\<lambda>c. the (unicode_cpt_to_utf8 c)" byte_ranges b Map.empty] utf8_of_inj that
      byte_ranges_less by fastforce
  obtain m n where f: "fold (\<lambda>ch (m, n). if m (the (unicode_cpt_to_utf8 ch)) = None
        then (m(the (unicode_cpt_to_utf8 (256 + n)) \<mapsto> ch), Suc n) else (m, n)) [0..<256] (?m0, 0) = (m, n)"
    by fastforce
  have "m (the (unicode_cpt_to_utf8 (byte_code b))) = Some b"
    using utf8_to_byte_loop [OF _ m0 f] assms by simp
  then have "unicode_utf8_to_byte (the (unicode_cpt_to_utf8 (byte_code b))) = Some b"
    using f by (simp add: unicode_utf8_to_byte_def unicode_utf8_to_byte_map_def)
  then show ?thesis using byte_to_utf8 [OF assms] utf8_of_some [OF byte_code_less [OF assms]] by auto
qed

end
