(* ===== verification/Grammar.thy ===== *)
theory Grammar
  imports Prelude Utf8
begin

unbundle bit_operations_syntax

text \<open>
  The grammar engine of \<open>llama-grammar.cpp\<close>: a nondeterministic pushdown automaton over code
  points. A rule is its vector of elements, a position is a rule and an index into it (the code
  keeps a pointer), a stack is the list of its positions, the top first (the code's
  \<open>back()\<close>), and the state of a grammar is the list of its possible stacks.

  Reading past a rule, the assertions and \<open>GGML_ABORT\<close> are \<open>None\<close>. The expansion of the
  stacks is bounded by a fuel; that some fuel is enough is proved for the grammars without left
  recursion.
\<close>

section \<open>Grammars\<close>

datatype llama_gretype =
    LLAMA_GRETYPE_END
  | LLAMA_GRETYPE_ALT
  | LLAMA_GRETYPE_RULE_REF
  | LLAMA_GRETYPE_CHAR
  | LLAMA_GRETYPE_CHAR_NOT
  | LLAMA_GRETYPE_CHAR_RNG_UPPER
  | LLAMA_GRETYPE_CHAR_ALT
  | LLAMA_GRETYPE_CHAR_ANY

record llama_grammar_element =
  e_type :: llama_gretype
  e_value :: nat

abbreviation gelem :: "llama_gretype \<Rightarrow> nat \<Rightarrow> llama_grammar_element" where
  "gelem t v \<equiv> \<lparr>e_type = t, e_value = v\<rparr>"

type_synonym llama_grammar_rule = "llama_grammar_element list"
type_synonym llama_grammar_rules = "llama_grammar_rule list"
type_synonym gpos = "nat \<times> nat"
type_synonym llama_grammar_stack = "gpos list"
type_synonym llama_grammar_stacks = "llama_grammar_stack list"

definition is_end_of_sequence :: "llama_grammar_element \<Rightarrow> bool" where
  "is_end_of_sequence e = (case e_type e of
     LLAMA_GRETYPE_END \<Rightarrow> True
   | LLAMA_GRETYPE_ALT \<Rightarrow> True
   | _ \<Rightarrow> False)"

text \<open>The rest of the rule a pointer points into, and the element it points at.\<close>

definition rest_at :: "llama_grammar_rules \<Rightarrow> gpos \<Rightarrow> llama_grammar_rule" where
  "rest_at rules p = (if fst p < length rules then drop (snd p) (rules ! fst p) else [])"

definition elem_at :: "llama_grammar_rules \<Rightarrow> gpos \<Rightarrow> llama_grammar_element option" where
  "elem_at rules p = (case rest_at rules p of [] \<Rightarrow> None | e # _ \<Rightarrow> Some e)"

definition move :: "gpos \<Rightarrow> nat \<Rightarrow> gpos" where
  "move p n = (fst p, snd p + n)"

section \<open>Matching a character\<close>

text \<open>
  The do loop of \<open>match_char\<close>: the element at the position and the one after it, and whether an
  alternative follows. The result holds the number of elements passed.
\<close>

fun match_scan :: "llama_grammar_rule \<Rightarrow> nat \<Rightarrow> bool \<Rightarrow> (bool \<times> nat) option" where
  "match_scan (e # e1 # es) chr found =
     (if e_type e1 = LLAMA_GRETYPE_CHAR_RNG_UPPER
      then (let found' = (found \<or> (e_value e \<le> chr \<and> chr \<le> e_value e1)) in
            case es of
              [] \<Rightarrow> None
            | e' # _ \<Rightarrow>
                if e_type e' = LLAMA_GRETYPE_CHAR_ALT
                then map_option (\<lambda>(b, m). (b, 2 + m)) (match_scan es chr found')
                else Some (found', 2))
      else (let found' = (if e_type e = LLAMA_GRETYPE_CHAR_ANY then True else found \<or> e_value e = chr) in
            if e_type e1 = LLAMA_GRETYPE_CHAR_ALT
            then map_option (\<lambda>(b, m). (b, 1 + m)) (match_scan (e1 # es) chr found')
            else Some (found', 1)))"
| "match_scan es chr found = None"

definition is_positive_char :: "llama_grammar_element \<Rightarrow> bool" where
  "is_positive_char e = (e_type e = LLAMA_GRETYPE_CHAR \<or> e_type e = LLAMA_GRETYPE_CHAR_ANY)"

definition llama_grammar_match_char :: "llama_grammar_rule \<Rightarrow> nat \<Rightarrow> (bool \<times> nat) option" where
  "llama_grammar_match_char pos chr =
     (case pos of
        [] \<Rightarrow> None
      | e # _ \<Rightarrow>
          if is_positive_char e \<or> e_type e = LLAMA_GRETYPE_CHAR_NOT
          then map_option (\<lambda>(found, n). (found = is_positive_char e, n)) (match_scan pos chr False)
          else None)"

text \<open>
  The loop over the alternatives for a partial code point, which may become anything from
  \<open>low\<close> to \<open>high\<close>; \<open>positive\<close> is the answer when one of them can match.
\<close>

fun match_partial_scan :: "llama_grammar_rule \<Rightarrow> nat \<Rightarrow> nat \<Rightarrow> bool \<Rightarrow> bool option" where
  "match_partial_scan (e # e1 # es) low high positive =
     (if e_type e1 = LLAMA_GRETYPE_CHAR_RNG_UPPER
      then if e_value e \<le> high \<and> low \<le> e_value e1 then Some positive
           else (case es of
               [] \<Rightarrow> None
             | e' # _ \<Rightarrow>
                 if e_type e' = LLAMA_GRETYPE_CHAR_ALT then match_partial_scan es low high positive
                 else Some (\<not> positive))
      else if e_type e = LLAMA_GRETYPE_CHAR_ANY then Some True
      else if low \<le> e_value e \<and> e_value e \<le> high then Some positive
      else if e_type e1 = LLAMA_GRETYPE_CHAR_ALT then match_partial_scan (e1 # es) low high positive
      else Some (\<not> positive))"
| "match_partial_scan es low high positive = None"

definition partial_low :: "llama_partial_utf8 \<Rightarrow> nat" where
  "partial_low partial =
     (let low = (pu_value partial * 2 ^ nat (pu_remain partial * 6)) mod U32 in
      if low = 0 then
        (if pu_remain partial = 2 then 2 ^ 11 else if pu_remain partial = 3 then 2 ^ 16 else low)
      else low)"

definition partial_high :: "llama_partial_utf8 \<Rightarrow> nat" where
  "partial_high partial =
     (pu_value partial * 2 ^ nat (pu_remain partial * 6)) mod U32
       OR (2 ^ nat (pu_remain partial * 6) - 1)"

definition llama_grammar_match_partial_char ::
  "llama_grammar_rule \<Rightarrow> llama_partial_utf8 \<Rightarrow> bool option" where
  "llama_grammar_match_partial_char pos partial =
     (case pos of
        [] \<Rightarrow> None
      | e # _ \<Rightarrow>
          if \<not> (is_positive_char e \<or> e_type e = LLAMA_GRETYPE_CHAR_NOT) then None
          else if pu_remain partial < 0 \<or> (pu_remain partial = 1 \<and> pu_value partial < 2) then Some False
          else match_partial_scan pos (partial_low partial) (partial_high partial) (is_positive_char e))"

section \<open>Expanding a stack\<close>

text \<open>
  The starts of the alternates of a rule: the first element, and whatever follows an
  \<open>ALT\<close>, up to the \<open>END\<close>. The two nested loops of the code scan them while they use them.
\<close>

fun alt_starts_from :: "llama_grammar_rule \<Rightarrow> nat \<Rightarrow> nat list option" where
  "alt_starts_from [] i = None"
| "alt_starts_from (e # es) i =
     (case e_type e of
        LLAMA_GRETYPE_END \<Rightarrow> Some []
      | LLAMA_GRETYPE_ALT \<Rightarrow> map_option ((#) (i + 1)) (alt_starts_from es (i + 1))
      | _ \<Rightarrow> alt_starts_from es (i + 1))"

definition alt_starts :: "llama_grammar_rule \<Rightarrow> nat list option" where
  "alt_starts rule = map_option ((#) 0) (alt_starts_from rule 0)"

text \<open>Push a position unless it is at the end of its alternate.\<close>

definition push_pos :: "llama_grammar_rules \<Rightarrow> gpos \<Rightarrow> llama_grammar_stack \<Rightarrow> llama_grammar_stack option" where
  "push_pos rules p stack =
     map_option (\<lambda>e. if is_end_of_sequence e then stack else p # stack) (elem_at rules p)"

definition add_stack :: "llama_grammar_stack \<Rightarrow> llama_grammar_stacks \<Rightarrow> llama_grammar_stacks" where
  "add_stack stack new_stacks = (if stack \<in> set new_stacks then new_stacks else new_stacks @ [stack])"

fun llama_grammar_advance_stack ::
  "nat \<Rightarrow> llama_grammar_rules \<Rightarrow> llama_grammar_stack \<Rightarrow> llama_grammar_stacks \<Rightarrow> llama_grammar_stacks option"
where
  "llama_grammar_advance_stack 0 rules stack new_stacks = None"
| "llama_grammar_advance_stack (Suc fuel) rules stack new_stacks =
     (case stack of
        [] \<Rightarrow> Some (add_stack stack new_stacks)
      | pos # below \<Rightarrow>
          (case elem_at rules pos of
             None \<Rightarrow> None
           | Some e \<Rightarrow>
               (case e_type e of
                  LLAMA_GRETYPE_RULE_REF \<Rightarrow>
                    (if e_value e < length rules
                     then (case alt_starts (rules ! e_value e) of
                             None \<Rightarrow> None
                           | Some starts \<Rightarrow>
                               fold_opt (\<lambda>sub new. do {
                                   s1 \<leftarrow> push_pos rules (move pos 1) below;
                                   s2 \<leftarrow> push_pos rules (e_value e, sub) s1;
                                   llama_grammar_advance_stack fuel rules s2 new
                                 }) starts new_stacks)
                     else None)
                | LLAMA_GRETYPE_CHAR \<Rightarrow> Some (add_stack stack new_stacks)
                | LLAMA_GRETYPE_CHAR_NOT \<Rightarrow> Some (add_stack stack new_stacks)
                | LLAMA_GRETYPE_CHAR_ANY \<Rightarrow> Some (add_stack stack new_stacks)
                | _ \<Rightarrow> None)))"

section \<open>Accepting a character\<close>

definition accept_stack ::
  "nat \<Rightarrow> llama_grammar_rules \<Rightarrow> nat \<Rightarrow> llama_grammar_stack \<Rightarrow> llama_grammar_stacks \<Rightarrow> llama_grammar_stacks option"
where
  "accept_stack fuel rules chr stack stacks_new =
     (case stack of
        [] \<Rightarrow> Some stacks_new
      | pos # below \<Rightarrow>
          (case llama_grammar_match_char (rest_at rules pos) chr of
             None \<Rightarrow> None
           | Some (False, n) \<Rightarrow> Some stacks_new
           | Some (True, n) \<Rightarrow> do {
               new_stack \<leftarrow> push_pos rules (move pos n) below;
               llama_grammar_advance_stack fuel rules new_stack stacks_new
             }))"

definition llama_grammar_accept ::
  "nat \<Rightarrow> llama_grammar_rules \<Rightarrow> llama_grammar_stacks \<Rightarrow> nat \<Rightarrow> llama_grammar_stacks option"
where
  "llama_grammar_accept fuel rules stacks chr = fold_opt (accept_stack fuel rules chr) stacks []"

section \<open>Rejecting candidates\<close>

text \<open>A candidate is a token's index and a pointer into its code points, which end with a 0.\<close>

record llama_grammar_candidate =
  c_index :: nat
  c_code_points :: "nat list"
  c_pos :: nat
  c_partial_utf8 :: llama_partial_utf8

definition c_cpt :: "llama_grammar_candidate \<Rightarrow> nat" where
  "c_cpt tok = c_code_points tok ! c_pos tok"

definition c_next :: "llama_grammar_candidate \<Rightarrow> llama_grammar_candidate" where
  "c_next tok = tok\<lparr>c_pos := c_pos tok + 1\<rparr>"

definition c_prev :: "llama_grammar_candidate \<Rightarrow> llama_grammar_candidate" where
  "c_prev tok = tok\<lparr>c_pos := c_pos tok - 1\<rparr>"

text \<open>The loop over the candidates of one stack: the rejects and the candidates to go on with.\<close>

definition sort_candidate ::
  "llama_grammar_rule \<Rightarrow> llama_grammar_candidate \<Rightarrow> llama_grammar_candidate list \<times> llama_grammar_candidate list
    \<Rightarrow> (llama_grammar_candidate list \<times> llama_grammar_candidate list) option"
where
  "sort_candidate stack_pos tok = (\<lambda>(rejects, next_candidates).
     if c_cpt tok = 0
     then if pu_remain (c_partial_utf8 tok) \<noteq> 0
          then map_option (\<lambda>b. if b then (rejects, next_candidates) else (rejects @ [tok], next_candidates))
                 (llama_grammar_match_partial_char stack_pos (c_partial_utf8 tok))
          else Some (rejects, next_candidates)
     else map_option (\<lambda>(b, n). if b then (rejects, next_candidates @ [c_next tok])
                                else (rejects @ [tok], next_candidates))
            (llama_grammar_match_char stack_pos (c_cpt tok)))"

text \<open>
  \<open>depth\<close> bounds the length of the code points that are looked at, \<open>fuel\<close> the expansions.
  \<open>reject_for_stack\<close> is \<open>llama_grammar_reject_candidates_for_stack\<close> with the recursive call
  as its argument.
\<close>

definition reject_for_stack ::
  "(llama_grammar_stacks \<Rightarrow> llama_grammar_candidate list \<Rightarrow> llama_grammar_candidate list option) \<Rightarrow>
    nat \<Rightarrow> llama_grammar_rules \<Rightarrow> llama_grammar_stack \<Rightarrow> llama_grammar_candidate list
    \<Rightarrow> llama_grammar_candidate list option"
where
  "reject_for_stack reject_candidates fuel rules stack candidates =
     (case stack of
        [] \<Rightarrow> Some (filter (\<lambda>tok. c_cpt tok \<noteq> 0 \<or> pu_remain (c_partial_utf8 tok) \<noteq> 0) candidates)
      | stack_pos # below \<Rightarrow> do {
          (rejects, next_candidates) \<leftarrow> fold_opt (sort_candidate (rest_at rules stack_pos)) candidates ([], []);
          (b, n) \<leftarrow> llama_grammar_match_char (rest_at rules stack_pos) 0;
          stack_after \<leftarrow> push_pos rules (move stack_pos n) below;
          next_stacks \<leftarrow> llama_grammar_advance_stack fuel rules stack_after [];
          next_rejects \<leftarrow> reject_candidates next_stacks next_candidates;
          Some (rejects @ map c_prev next_rejects)
        })"

fun llama_grammar_reject_candidates ::
  "nat \<Rightarrow> nat \<Rightarrow> llama_grammar_rules \<Rightarrow> llama_grammar_stacks \<Rightarrow> llama_grammar_candidate list
    \<Rightarrow> llama_grammar_candidate list option"
where
  "llama_grammar_reject_candidates 0 fuel rules stacks candidates = None"
| "llama_grammar_reject_candidates (Suc depth) fuel rules stacks candidates =
     (if stacks = [] then None
      else if candidates = [] then Some []
      else fold_opt
             (reject_for_stack (\<lambda>next_stacks. llama_grammar_reject_candidates depth fuel rules next_stacks) fuel rules)
             stacks candidates)"

section \<open>Left recursion\<close>

record lr_state =
  rules_visited :: "bool list"
  rules_in_progress :: "bool list"
  rules_may_be_empty :: "bool list"

text \<open>Whether one of the alternates is literally empty.\<close>

fun has_empty_alternate :: "llama_grammar_rule \<Rightarrow> bool \<Rightarrow> bool" where
  "has_empty_alternate [] at_rule_start = False"
| "has_empty_alternate (e # es) at_rule_start =
     (if is_end_of_sequence e
      then if at_rule_start then True else has_empty_alternate es True
      else has_empty_alternate es False)"

fun lr_elements ::
  "(nat \<Rightarrow> lr_state \<Rightarrow> (bool \<times> lr_state) option) \<Rightarrow> llama_grammar_rule \<Rightarrow> bool \<Rightarrow> lr_state
    \<Rightarrow> (bool \<times> lr_state) option"
where
  "lr_elements detect [] recurse_into_nonterminal st = Some (False, st)"
| "lr_elements detect (e # es) recurse_into_nonterminal st =
     (if e_type e = LLAMA_GRETYPE_RULE_REF \<and> recurse_into_nonterminal
      then do {
        (found, st1) \<leftarrow> detect (e_value e) st;
        if found then Some (True, st1)
        else lr_elements detect es (rules_may_be_empty st1 ! e_value e) st1
      }
      else if is_end_of_sequence e then lr_elements detect es True st
      else lr_elements detect es False st)"

fun llama_grammar_detect_left_recursion ::
  "nat \<Rightarrow> llama_grammar_rules \<Rightarrow> nat \<Rightarrow> lr_state \<Rightarrow> (bool \<times> lr_state) option"
where
  "llama_grammar_detect_left_recursion 0 rules rule_index st = None"
| "llama_grammar_detect_left_recursion (Suc fuel) rules rule_index st =
     (if length rules \<le> rule_index then None
      else if rules_in_progress st ! rule_index then Some (True, st)
      else (let st1 = st\<lparr>rules_in_progress := (rules_in_progress st)[rule_index := True]\<rparr>;
                st2 = (if has_empty_alternate (rules ! rule_index) True
                       then st1\<lparr>rules_may_be_empty := (rules_may_be_empty st1)[rule_index := True]\<rparr> else st1)
            in do {
              (found, st3) \<leftarrow> lr_elements (\<lambda>r s. llama_grammar_detect_left_recursion fuel rules r s)
                                (rules ! rule_index) True st2;
              if found then Some (True, st3)
              else Some (False, st3\<lparr>rules_in_progress := (rules_in_progress st3)[rule_index := False],
                                    rules_visited := (rules_visited st3)[rule_index := True]\<rparr>)
            }))"

text \<open>The loop over all the rules, which starts from nothing visited.\<close>

fun lr_all :: "nat \<Rightarrow> llama_grammar_rules \<Rightarrow> nat list \<Rightarrow> lr_state \<Rightarrow> (bool \<times> lr_state) option" where
  "lr_all fuel rules [] st = Some (False, st)"
| "lr_all fuel rules (i # js) st =
     (if rules_visited st ! i then lr_all fuel rules js st
      else do {
        (found, st1) \<leftarrow> llama_grammar_detect_left_recursion fuel rules i st;
        if found then Some (True, st1) else lr_all fuel rules js st1
      })"

definition lr_start :: "nat \<Rightarrow> lr_state" where
  "lr_start n = \<lparr>rules_visited = replicate n False, rules_in_progress = replicate n False,
                 rules_may_be_empty = replicate n False\<rparr>"

definition check_left_recursion :: "nat \<Rightarrow> llama_grammar_rules \<Rightarrow> bool option" where
  "check_left_recursion fuel rules = map_option fst (lr_all fuel rules [0..<length rules] (lr_start (length rules)))"

section \<open>Vocabularies\<close>

text \<open>The pieces and the end-of-generation tokens of \<open>ollama_vocab\<close>.\<close>

record ollama_vocab =
  token_to_piece_map :: "nat \<rightharpoonup> byte list"
  special_eog_ids :: "nat set"

definition ov_token_to_piece :: "ollama_vocab \<Rightarrow> nat \<Rightarrow> byte list option" where
  "ov_token_to_piece v token = token_to_piece_map v token"

fun ov_add_token_pieces :: "(nat \<times> byte list) list \<Rightarrow> ollama_vocab \<Rightarrow> ollama_vocab" where
  "ov_add_token_pieces [] v = v"
| "ov_add_token_pieces ((token, piece) # ps) v =
     ov_add_token_pieces ps (v\<lparr>token_to_piece_map := (token_to_piece_map v)(token \<mapsto> piece)\<rparr>)"

definition ov_is_eog :: "ollama_vocab \<Rightarrow> nat \<Rightarrow> bool" where
  "ov_is_eog v token = (token \<in> special_eog_ids v)"

fun ov_set_eog_tokens :: "nat list \<Rightarrow> ollama_vocab \<Rightarrow> ollama_vocab" where
  "ov_set_eog_tokens [] v = v"
| "ov_set_eog_tokens (t # ts) v = ov_set_eog_tokens ts (v\<lparr>special_eog_ids := insert t (special_eog_ids v)\<rparr>)"

text \<open>What the grammar calls of a \<open>llama_vocab\<close>.\<close>

record vocab_calls =
  v_token_to_piece :: "nat \<Rightarrow> byte list"
  v_is_eog :: "nat \<Rightarrow> bool"

section \<open>The grammar of a sampler\<close>

text \<open>
  A trigger pattern is a full match of \<open>std::regex_match\<close>: on a match, the position of its first
  group.
\<close>

record llama_grammar =
  g_vocab :: vocab_calls
  g_o_vocab :: "ollama_vocab option"
  g_rules :: llama_grammar_rules
  g_stacks :: llama_grammar_stacks
  g_partial_utf8 :: llama_partial_utf8
  g_lazy :: bool
  g_awaiting_trigger :: bool
  g_trigger_buffer :: "byte list"
  g_trigger_tokens :: "nat list"
  g_trigger_patterns :: "(byte list \<Rightarrow> nat option) list"

datatype grammar_exn = Token_Not_Found nat | Unexpected_Empty_Stack "byte list"

fun copy_rule :: "llama_grammar_rule \<Rightarrow> llama_grammar_rule option" where
  "copy_rule [] = None"
| "copy_rule (e # es) =
     (if e_type e = LLAMA_GRETYPE_END then Some [gelem LLAMA_GRETYPE_END 0] else map_option ((#) e) (copy_rule es))"

fun copy_rules :: "llama_grammar_rules \<Rightarrow> llama_grammar_rules option" where
  "copy_rules [] = Some []"
| "copy_rules (r # rs) = do { r1 \<leftarrow> copy_rule r; rs1 \<leftarrow> copy_rules rs; Some (r1 # rs1) }"

text \<open>One stack for every alternate of the start rule.\<close>

definition initial_stacks :: "nat \<Rightarrow> llama_grammar_rules \<Rightarrow> nat \<Rightarrow> llama_grammar_stacks option" where
  "initial_stacks fuel rules start =
     (if start < length rules then
        (case alt_starts (rules ! start) of
           None \<Rightarrow> None
         | Some starts \<Rightarrow>
             fold_opt (\<lambda>sub new. do {
                 s \<leftarrow> push_pos rules (start, sub) [];
                 llama_grammar_advance_stack fuel rules s new
               }) starts [])
      else None)"

text \<open>\<open>Some None\<close> is the null pointer a left-recursive grammar gives.\<close>

definition llama_grammar_init_rules ::
  "nat \<Rightarrow> vocab_calls \<Rightarrow> ollama_vocab option \<Rightarrow> llama_grammar_rules \<Rightarrow> nat \<Rightarrow> llama_grammar option option"
where
  "llama_grammar_init_rules fuel vocab o_vocab rules start_rule_index =
     (case copy_rules rules of
        None \<Rightarrow> None
      | Some vec_rules \<Rightarrow>
          (case check_left_recursion fuel vec_rules of
             None \<Rightarrow> None
           | Some True \<Rightarrow> Some None
           | Some False \<Rightarrow>
               (case initial_stacks fuel vec_rules start_rule_index of
                  None \<Rightarrow> None
                | Some stacks \<Rightarrow>
                    Some (Some \<lparr>g_vocab = vocab, g_o_vocab = o_vocab, g_rules = vec_rules, g_stacks = stacks,
                      g_partial_utf8 = \<lparr>pu_value = 0, pu_remain = 0\<rparr>, g_lazy = False,
                      g_awaiting_trigger = False, g_trigger_buffer = [], g_trigger_tokens = [],
                      g_trigger_patterns = []\<rparr>))))"

text \<open>
  \<open>llama_grammar_clone_impl\<close> copies the stacks and then redirects their pointers. \<open>old\<close> and
  \<open>new\<close> give the addresses of the elements of the two copies of the rules.
\<close>

definition rule_positions :: "llama_grammar_rules \<Rightarrow> gpos list" where
  "rule_positions rules = concat (map (\<lambda>i. map (Pair i) [0..<length (rules ! i)]) [0..<length rules])"

definition clone_entry :: "(gpos \<Rightarrow> 'a) \<Rightarrow> (gpos \<Rightarrow> 'a) \<Rightarrow> llama_grammar_rules \<Rightarrow> 'a \<Rightarrow> 'a" where
  "clone_entry old new rules entry =
     fold (\<lambda>p r. if entry = old p then new p else r) (rule_positions rules) entry"

definition clone_stacks :: "(gpos \<Rightarrow> 'a) \<Rightarrow> (gpos \<Rightarrow> 'a) \<Rightarrow> llama_grammar_rules \<Rightarrow> 'a list list \<Rightarrow> 'a list list" where
  "clone_stacks old new rules stacks = map (map (clone_entry old new rules)) stacks"

text \<open>The vocabulary in use: \<open>None\<close> is the exception of a token it does not have.\<close>

definition g_piece :: "llama_grammar \<Rightarrow> nat \<Rightarrow> byte list option" where
  "g_piece g token =
     (case g_o_vocab g of Some v \<Rightarrow> ov_token_to_piece v token | None \<Rightarrow> Some (v_token_to_piece (g_vocab g) token))"

definition g_is_eog :: "llama_grammar \<Rightarrow> nat \<Rightarrow> bool" where
  "g_is_eog g token = (case g_o_vocab g of Some v \<Rightarrow> ov_is_eog v token | None \<Rightarrow> v_is_eog (g_vocab g) token)"

fun accept_code_points ::
  "nat \<Rightarrow> llama_grammar_rules \<Rightarrow> nat list \<Rightarrow> llama_grammar_stacks \<Rightarrow> llama_grammar_stacks option"
where
  "accept_code_points fuel rules [] stacks = Some stacks"
| "accept_code_points fuel rules (c # cs) stacks = do {
     stacks1 \<leftarrow> llama_grammar_accept fuel rules stacks c; accept_code_points fuel rules cs stacks1
   }"

text \<open>The result: the exception, if any, and the grammar as it is left.\<close>

definition llama_grammar_accept_str ::
  "nat \<Rightarrow> llama_grammar \<Rightarrow> byte list \<Rightarrow> (grammar_exn option \<times> llama_grammar) option"
where
  "llama_grammar_accept_str fuel g piece =
     (case decode_utf8 piece (g_partial_utf8 g) of
        (code_points, partial) \<Rightarrow> do {
          stacks \<leftarrow> accept_code_points fuel (g_rules g) (butlast code_points) (g_stacks g);
          Some (if stacks = [] then Some (Unexpected_Empty_Stack piece) else None,
                g\<lparr>g_stacks := stacks, g_partial_utf8 := partial\<rparr>)
        })"

fun match_triggers :: "(byte list \<Rightarrow> nat option) list \<Rightarrow> byte list \<Rightarrow> byte list option" where
  "match_triggers [] buffer = None"
| "match_triggers (p # ps) buffer =
     (case p buffer of Some pos \<Rightarrow> Some (drop pos buffer) | None \<Rightarrow> match_triggers ps buffer)"

definition llama_grammar_accept_impl ::
  "nat \<Rightarrow> llama_grammar \<Rightarrow> nat \<Rightarrow> (grammar_exn option \<times> llama_grammar) option"
where
  "llama_grammar_accept_impl fuel g token =
     (case g_piece g token of
        None \<Rightarrow> Some (Some (Token_Not_Found token), g)
      | Some piece \<Rightarrow>
          if g_awaiting_trigger g
          then if token \<in> set (g_trigger_tokens g)
               then llama_grammar_accept_str fuel (g\<lparr>g_awaiting_trigger := False, g_trigger_buffer := []\<rparr>) piece
               else (let buffer = g_trigger_buffer g @ piece in
                     case match_triggers (g_trigger_patterns g) buffer of
                       Some constrained_str \<Rightarrow>
                         llama_grammar_accept_str fuel (g\<lparr>g_awaiting_trigger := False, g_trigger_buffer := []\<rparr>)
                           constrained_str
                     | None \<Rightarrow> Some (None, g\<lparr>g_trigger_buffer := buffer\<rparr>))
          else if g_is_eog g token
          then if [] \<in> set (g_stacks g) then Some (None, g) else None
          else llama_grammar_accept_str fuel g piece)"

record 'l llama_token_data =
  td_id :: nat
  td_logit :: 'l
  td_p :: 'l

text \<open>
  The loop of \<open>apply_impl\<close> over the candidate tokens from index \<open>i\<close> on; \<open>minus_infinity\<close> is
  the logit of a token that is ruled out.
\<close>

fun apply_scan ::
  "'l \<Rightarrow> llama_grammar \<Rightarrow> nat \<Rightarrow> 'l llama_token_data list
    \<Rightarrow> grammar_exn option \<times> 'l llama_token_data list \<times> llama_grammar_candidate list"
where
  "apply_scan minus_infinity g i [] = (None, [], [])"
| "apply_scan minus_infinity g i (d # ds) =
     (case g_piece g (td_id d) of
        None \<Rightarrow> (Some (Token_Not_Found (td_id d)), d # ds, [])
      | Some piece \<Rightarrow>
          (case apply_scan minus_infinity g (Suc i) ds of
             (e, ds1, cs) \<Rightarrow>
               if g_is_eog g (td_id d)
               then (e, (if [] \<in> set (g_stacks g) then d else d\<lparr>td_logit := minus_infinity\<rparr>) # ds1, cs)
               else if piece = [] \<or> hd piece = 0
               then (e, d\<lparr>td_logit := minus_infinity\<rparr> # ds1, cs)
               else (case decode_utf8 piece (g_partial_utf8 g) of
                       (code_points, partial) \<Rightarrow>
                         (e, d # ds1,
                          \<lparr>c_index = i, c_code_points = code_points, c_pos = 0, c_partial_utf8 = partial\<rparr> # cs))))"

definition llama_grammar_apply_impl ::
  "'l \<Rightarrow> nat \<Rightarrow> nat \<Rightarrow> llama_grammar \<Rightarrow> 'l llama_token_data list
    \<Rightarrow> (grammar_exn option \<times> 'l llama_token_data list) option"
where
  "llama_grammar_apply_impl minus_infinity depth fuel g cur_p =
     (if g_awaiting_trigger g then Some (None, cur_p)
      else (case apply_scan minus_infinity g 0 cur_p of
              (Some e, data, candidates) \<Rightarrow> Some (Some e, data)
            | (None, data, candidates) \<Rightarrow>
                map_option (\<lambda>rejects. (None,
                    fold (\<lambda>tok ds. ds[c_index tok := (ds ! c_index tok)\<lparr>td_logit := minus_infinity\<rparr>]) rejects data))
                  (llama_grammar_reject_candidates depth fuel (g_rules g) (g_stacks g) candidates)))"

end
