(* ===== verification/GrammarLang.thy ===== *)
theory GrammarLang
  imports Grammar
begin

text \<open>
  What the grammar engine promises: the language of a position and of a stack, the expansion as
  a relation on stacks, and the proofs that the stacks the engine keeps stand for exactly the
  strings the grammar still allows.
\<close>

section \<open>Expansion as a relation\<close>

definition at_char :: "llama_grammar_element \<Rightarrow> bool" where
  "at_char e = (is_positive_char e \<or> e_type e = LLAMA_GRETYPE_CHAR_NOT)"

inductive advances :: "llama_grammar_rules \<Rightarrow> llama_grammar_stack \<Rightarrow> llama_grammar_stack \<Rightarrow> bool"
  for rules
where
  adv_empty: "advances rules [] []"
| adv_char: "elem_at rules p = Some e \<Longrightarrow> at_char e \<Longrightarrow> advances rules (p # below) (p # below)"
| adv_ref: "elem_at rules p = Some e \<Longrightarrow> e_type e = LLAMA_GRETYPE_RULE_REF \<Longrightarrow> e_value e < length rules \<Longrightarrow>
    alt_starts (rules ! e_value e) = Some starts \<Longrightarrow> i \<in> set starts \<Longrightarrow>
    push_pos rules (move p 1) below = Some s1 \<Longrightarrow> push_pos rules (e_value e, i) s1 = Some s2 \<Longrightarrow>
    advances rules s2 t \<Longrightarrow> advances rules (p # below) t"

lemma set_add_stack [simp]: "set (add_stack s ss) = insert s (set ss)"
  by (auto simp: add_stack_def)

lemma add_stack_not_Nil [simp]: "add_stack s ss \<noteq> []"
  by (auto simp: add_stack_def)

lemma distinct_add_stack [simp]: "distinct (add_stack s ss) = distinct ss"
  by (auto simp: add_stack_def)

lemma advances_empty [simp]: "advances rules [] t \<longleftrightarrow> t = []"
  by (auto elim: advances.cases intro: advances.intros)

lemma advances_char:
  "elem_at rules p = Some e \<Longrightarrow> at_char e \<Longrightarrow> advances rules (p # below) t \<longleftrightarrow> t = p # below"
  by (auto elim: advances.cases intro: advances.intros simp: at_char_def is_positive_char_def)

lemma advances_ref:
  assumes "elem_at rules p = Some e" "e_type e = LLAMA_GRETYPE_RULE_REF" "e_value e < length rules"
    "alt_starts (rules ! e_value e) = Some starts"
  shows "advances rules (p # below) t \<longleftrightarrow>
    (\<exists>i\<in>set starts. \<exists>s1 s2. push_pos rules (move p 1) below = Some s1 \<and> push_pos rules (e_value e, i) s1 = Some s2
      \<and> advances rules s2 t)"
proof
  assume "advances rules (p # below) t"
  then show "\<exists>i\<in>set starts. \<exists>s1 s2. push_pos rules (move p 1) below = Some s1 \<and> push_pos rules (e_value e, i) s1 = Some s2
      \<and> advances rules s2 t"
    by (cases rule: advances.cases) (use assms in \<open>auto simp: at_char_def is_positive_char_def\<close>)
next
  assume "\<exists>i\<in>set starts. \<exists>s1 s2. push_pos rules (move p 1) below = Some s1 \<and> push_pos rules (e_value e, i) s1 = Some s2
      \<and> advances rules s2 t"
  then show "advances rules (p # below) t" using adv_ref [OF assms] by blast
qed

text \<open>\<open>advance_stack\<close> computes the set of expansions.\<close>

lemma advance_stack_set:
  "llama_grammar_advance_stack fuel rules stack new = Some res \<Longrightarrow> set res = set new \<union> {t. advances rules stack t}"
proof (induction fuel arbitrary: stack new res)
  case 0
  then show ?case by simp
next
  case (Suc fuel)
  show ?case
  proof (cases stack)
    case Nil
    then show ?thesis using Suc.prems by auto
  next
    case (Cons p below)
    then obtain e where e: "elem_at rules p = Some e" using Suc.prems by (auto split: option.splits)
    show ?thesis
    proof (cases "e_type e = LLAMA_GRETYPE_RULE_REF")
      case False
      then have "at_char e" "res = add_stack stack new"
        using Suc.prems Cons e by (auto simp: at_char_def is_positive_char_def split: llama_gretype.splits)
      then show ?thesis using advances_char [OF e] Cons by auto
    next
      case True
      then obtain starts where st: "e_value e < length rules" "alt_starts (rules ! e_value e) = Some starts"
        using Suc.prems Cons e by (auto split: option.splits if_splits)
      define A where "A i = {t. \<exists>s1 s2. push_pos rules (move p 1) below = Some s1
        \<and> push_pos rules (e_value e, i) s1 = Some s2 \<and> advances rules s2 t}" for i
      have f: "fold_opt (\<lambda>sub new. do {
          s1 \<leftarrow> push_pos rules (move p 1) below;
          s2 \<leftarrow> push_pos rules (e_value e, sub) s1;
          llama_grammar_advance_stack fuel rules s2 new }) starts new = Some res"
        using Suc.prems Cons e True st by simp
      have "set res = set new \<union> (\<Union>i\<in>set starts. A i)"
        by (rule fold_opt_union [OF f]) (auto simp: A_def dest: Suc.IH split: bind_splits)
      moreover have "(\<Union>i\<in>set starts. A i) = {t. advances rules stack t}"
        by (auto simp: A_def Cons advances_ref [OF e True st])
      ultimately show ?thesis by simp
    qed
  qed
qed

lemma alt_starts_not_Nil: "alt_starts rule = Some starts \<Longrightarrow> starts \<noteq> []"
  by (auto simp: alt_starts_def)

lemma fold_opt_not_Nil:
  assumes "fold_opt f xs s = Some s'" "xs \<noteq> []" "\<And>x s s'. x \<in> set xs \<Longrightarrow> f x s = Some s' \<Longrightarrow> s' \<noteq> []"
  shows "s' \<noteq> []"
proof -
  obtain y ys where xs: "xs = ys @ [y]" using assms(2) by (cases xs rule: rev_cases) auto
  have "\<exists>t. f y t = Some s'" using assms(1) unfolding xs
    by (induction ys arbitrary: s) (auto split: bind_splits)
  then show ?thesis using assms(3) xs by auto
qed

text \<open>An expansion gives at least one stack, and never a stack twice.\<close>

lemma advance_stack_not_Nil:
  "llama_grammar_advance_stack fuel rules stack new = Some res \<Longrightarrow> res \<noteq> []"
proof (induction fuel arbitrary: stack new res)
  case (Suc fuel)
  show ?case
    using Suc.prems
    by (auto split: list.splits option.splits llama_gretype.splits if_splits bind_splits
        dest!: fold_opt_not_Nil dest: alt_starts_not_Nil Suc.IH)
qed simp

lemma advance_stack_distinct:
  "llama_grammar_advance_stack fuel rules stack new = Some res \<Longrightarrow> distinct new \<Longrightarrow> distinct res"
proof (induction fuel arbitrary: stack new res)
  case (Suc fuel)
  show ?case
    using Suc.prems Suc.IH
    by (auto split: list.splits option.splits llama_gretype.splits if_splits
        elim!: fold_opt_rule [where P = distinct] split: bind_splits)
qed simp

section \<open>Languages\<close>

text \<open>
  The strings a position can still produce up to the end of its alternate, and with them those of
  a stack.
\<close>

inductive pos_lang :: "llama_grammar_rules \<Rightarrow> gpos \<Rightarrow> nat list \<Rightarrow> bool"
  for rules
where
  lang_end: "elem_at rules p = Some e \<Longrightarrow> is_end_of_sequence e \<Longrightarrow> pos_lang rules p []"
| lang_ref: "elem_at rules p = Some e \<Longrightarrow> e_type e = LLAMA_GRETYPE_RULE_REF \<Longrightarrow> e_value e < length rules \<Longrightarrow>
    alt_starts (rules ! e_value e) = Some starts \<Longrightarrow> i \<in> set starts \<Longrightarrow>
    pos_lang rules (e_value e, i) u \<Longrightarrow> pos_lang rules (move p 1) v \<Longrightarrow> pos_lang rules p (u @ v)"
| lang_char: "llama_grammar_match_char (rest_at rules p) c = Some (True, n) \<Longrightarrow>
    pos_lang rules (move p n) v \<Longrightarrow> pos_lang rules p (c # v)"

definition rule_lang :: "llama_grammar_rules \<Rightarrow> nat \<Rightarrow> nat list \<Rightarrow> bool" where
  "rule_lang rules r w = (\<exists>starts. r < length rules \<and> alt_starts (rules ! r) = Some starts
     \<and> (\<exists>i\<in>set starts. pos_lang rules (r, i) w))"

fun stack_lang :: "llama_grammar_rules \<Rightarrow> llama_grammar_stack \<Rightarrow> nat list \<Rightarrow> bool" where
  "stack_lang rules [] w = (w = [])"
| "stack_lang rules (p # below) w = (\<exists>u v. w = u @ v \<and> pos_lang rules p u \<and> stack_lang rules below v)"

definition stacks_lang :: "llama_grammar_rules \<Rightarrow> llama_grammar_stacks \<Rightarrow> nat list \<Rightarrow> bool" where
  "stacks_lang rules stacks w = (\<exists>s\<in>set stacks. stack_lang rules s w)"

text \<open>No position of a stack is the end of an alternate, and the top is a character.\<close>

definition stack_ok :: "llama_grammar_rules \<Rightarrow> llama_grammar_stack \<Rightarrow> bool" where
  "stack_ok rules s = (\<forall>p\<in>set s. \<exists>e. elem_at rules p = Some e \<and> \<not> is_end_of_sequence e)"

definition ready :: "llama_grammar_rules \<Rightarrow> llama_grammar_stack \<Rightarrow> bool" where
  "ready rules s = (stack_ok rules s \<and> (case s of [] \<Rightarrow> True | p # _ \<Rightarrow> \<exists>e. elem_at rules p = Some e \<and> at_char e))"

lemma stack_ok_Nil [simp]: "stack_ok rules []" and ready_Nil [simp]: "ready rules []"
  by (simp_all add: stack_ok_def ready_def)

lemma stack_ok_Cons [simp]:
  "stack_ok rules (p # s) \<longleftrightarrow> (\<exists>e. elem_at rules p = Some e \<and> \<not> is_end_of_sequence e) \<and> stack_ok rules s"
  by (simp add: stack_ok_def)

lemma push_pos_ok: "push_pos rules p s = Some s' \<Longrightarrow> stack_ok rules s \<Longrightarrow> stack_ok rules s'"
  by (auto simp: push_pos_def split: if_splits)

lemma match_char_at_char:
  "llama_grammar_match_char (rest_at rules p) c = Some r \<Longrightarrow> \<exists>e. elem_at rules p = Some e \<and> at_char e"
  by (auto simp: llama_grammar_match_char_def elem_at_def at_char_def split: list.splits if_splits)

lemma at_char_not_end: "at_char e \<Longrightarrow> \<not> is_end_of_sequence e \<and> e_type e \<noteq> LLAMA_GRETYPE_RULE_REF"
  by (auto simp: at_char_def is_positive_char_def is_end_of_sequence_def)

lemma pos_lang_end:
  assumes "elem_at rules p = Some e" "is_end_of_sequence e"
  shows "pos_lang rules p w \<longleftrightarrow> w = []"
proof
  assume "pos_lang rules p w"
  then show "w = []"
  proof cases
    case (lang_ref e' starts i u v)
    then show ?thesis using assms by (simp add: is_end_of_sequence_def)
  next
    case (lang_char c n v)
    then show ?thesis using assms match_char_at_char [OF lang_char(2)] at_char_not_end by auto
  qed
qed (simp add: lang_end [OF assms])

lemma pos_lang_defined: "pos_lang rules p w \<Longrightarrow> \<exists>e. elem_at rules p = Some e"
  by (auto elim: pos_lang.cases dest: match_char_at_char)

lemma pos_lang_char:
  assumes "elem_at rules p = Some e" "at_char e"
  shows "pos_lang rules p w \<longleftrightarrow>
    (\<exists>c n v. w = c # v \<and> llama_grammar_match_char (rest_at rules p) c = Some (True, n) \<and> pos_lang rules (move p n) v)"
  using assms at_char_not_end [OF assms(2)] by (auto elim: pos_lang.cases intro: lang_char)

lemma push_pos_lang: "push_pos rules p s = Some s' \<Longrightarrow> stack_lang rules s' w \<longleftrightarrow> stack_lang rules (p # s) w"
proof -
  assume "push_pos rules p s = Some s'"
  then obtain e where e: "elem_at rules p = Some e" "s' = (if is_end_of_sequence e then s else p # s)"
    by (auto simp: push_pos_def)
  then show ?thesis by (cases "is_end_of_sequence e") (simp_all add: pos_lang_end [OF e(1)])
qed

lemma advances_lang: "advances rules s t \<Longrightarrow> stack_lang rules t w \<Longrightarrow> stack_lang rules s w"
proof (induction arbitrary: w rule: advances.induct)
  case (adv_ref p e starts i below s1 s2 t)
  then have "stack_lang rules s2 w" by blast
  then obtain u v where u: "w = u @ v" "pos_lang rules (e_value e, i) u" "stack_lang rules s1 v"
    using push_pos_lang [OF adv_ref.hyps(7)] by auto
  moreover obtain u' v' where "v = u' @ v'" "pos_lang rules (move p 1) u'" "stack_lang rules below v'"
    using push_pos_lang [OF adv_ref.hyps(6)] u(3) by auto
  ultimately show ?case using lang_ref [OF adv_ref.hyps(1-5)] by (metis append.assoc stack_lang.simps(2))
qed auto

text \<open>
  Conversely a string of a position is one of an expansion: a derivation of the position is
  followed, and the rest of the stack is only expanded where the derivation is empty.
\<close>

lemma pos_lang_advances:
  assumes "pos_lang rules p u" "stack_lang rules s v" "push_pos rules p s = Some s'"
    "u = [] \<Longrightarrow> \<exists>t. advances rules s t \<and> stack_lang rules t v"
  shows "\<exists>t. advances rules s' t \<and> stack_lang rules t (u @ v)"
  using assms
proof (induction arbitrary: s s' v rule: pos_lang.induct)
  case (lang_end p e)
  then show ?case by (simp add: push_pos_def)
next
  case (lang_char p c n w)
  then obtain e where e: "elem_at rules p = Some e" "at_char e" using match_char_at_char by blast
  then have "s' = p # s" using lang_char.prems(2) at_char_not_end by (simp add: push_pos_def)
  then show ?case
    using adv_char [OF e] pos_lang.lang_char [OF lang_char.hyps(1,2)] lang_char.prems(1) by (metis stack_lang.simps(2))
next
  case (lang_ref p e starts i u1 u2)
  have s': "s' = p # s" using lang_ref.prems(2) lang_ref.hyps(1,2) by (simp add: push_pos_def is_end_of_sequence_def)
  obtain s1 where s1: "push_pos rules (move p 1) s = Some s1"
    using pos_lang_defined [OF lang_ref.hyps(7)] by (auto simp: push_pos_def)
  have v1: "stack_lang rules s1 (u2 @ v)"
    using push_pos_lang [OF s1] lang_ref.hyps(7) lang_ref.prems(1) by auto
  obtain s2 where s2: "push_pos rules (e_value e, i) s1 = Some s2"
    using pos_lang_defined [OF lang_ref.hyps(6)] by (auto simp: push_pos_def)
  have "\<exists>t. advances rules s2 t \<and> stack_lang rules t (u1 @ u2 @ v)"
  proof (rule lang_ref.IH(1) [OF v1 s2])
    assume "u1 = []"
    then show "\<exists>t. advances rules s1 t \<and> stack_lang rules t (u2 @ v)"
      using lang_ref.IH(2) [OF lang_ref.prems(1) s1] lang_ref.prems(3) by simp
  qed
  then show ?case using adv_ref [OF lang_ref.hyps(1-5) s1 s2] s' by auto
qed

lemma stack_lang_advances:
  "stack_lang rules s w \<Longrightarrow> stack_ok rules s \<Longrightarrow> \<exists>t. advances rules s t \<and> stack_lang rules t w"
proof (induction s arbitrary: w)
  case (Cons p s)
  then obtain u v where u: "w = u @ v" "pos_lang rules p u" "stack_lang rules s v" by auto
  have "push_pos rules p s = Some (p # s)" using Cons.prems(2) by (auto simp: push_pos_def)
  then show ?case using pos_lang_advances [OF u(2,3)] Cons.IH [OF u(3)] Cons.prems(2) u(1) by auto
qed simp

lemma advances_ready: "advances rules s t \<Longrightarrow> stack_ok rules s \<Longrightarrow> ready rules t"
proof (induction rule: advances.induct)
  case (adv_ref p e starts i below s1 s2 t)
  then show ?case using push_pos_ok [OF adv_ref.hyps(7) push_pos_ok [OF adv_ref.hyps(6)]] by simp
qed (auto simp: ready_def)

text \<open>The stacks of an expansion have the language of the stack that was expanded.\<close>

lemma advance_stack_lang:
  assumes "llama_grammar_advance_stack fuel rules stack new = Some res" "stack_ok rules stack"
  shows "stacks_lang rules res w \<longleftrightarrow> stack_lang rules stack w \<or> stacks_lang rules new w"
  using advance_stack_set [OF assms(1)] stack_lang_advances [OF _ assms(2)] advances_lang
  by (fastforce simp: stacks_lang_def)

lemma advance_stack_ready:
  assumes "llama_grammar_advance_stack fuel rules stack new = Some res" "stack_ok rules stack"
    "\<forall>s\<in>set new. ready rules s"
  shows "\<forall>s\<in>set res. ready rules s"
  using advance_stack_set [OF assms(1)] advances_ready assms(2,3) by auto

section \<open>Accepting\<close>

text \<open>One code point from one stack to one of its successors.\<close>

definition accepts :: "llama_grammar_rules \<Rightarrow> llama_grammar_stack \<Rightarrow> nat \<Rightarrow> llama_grammar_stack \<Rightarrow> bool" where
  "accepts rules s c t = (\<exists>p below n s1. s = p # below \<and> llama_grammar_match_char (rest_at rules p) c = Some (True, n)
     \<and> push_pos rules (move p n) below = Some s1 \<and> advances rules s1 t)"

lemma accept_stack_set:
  assumes "accept_stack fuel rules chr s new = Some res"
  shows "set res = set new \<union> {t. accepts rules s chr t}"
proof (cases s)
  case Nil
  then show ?thesis using assms by (simp add: accept_stack_def accepts_def)
next
  case (Cons p below)
  then obtain b n where m: "llama_grammar_match_char (rest_at rules p) chr = Some (b, n)"
    using assms by (auto simp: accept_stack_def split: option.splits)
  show ?thesis
  proof (cases b)
    case False
    then show ?thesis using assms Cons m by (simp add: accept_stack_def accepts_def)
  next
    case True
    then obtain s1 where s1: "push_pos rules (move p n) below = Some s1" "llama_grammar_advance_stack fuel rules s1 new = Some res"
      using assms Cons m by (auto simp: accept_stack_def split: bind_splits)
    then show ?thesis using advance_stack_set [OF s1(2)] Cons m True by (simp add: accepts_def)
  qed
qed

lemma accept_set:
  assumes "llama_grammar_accept fuel rules stacks chr = Some stacks'"
  shows "set stacks' = {t. \<exists>s\<in>set stacks. accepts rules s chr t}"
proof -
  have "set stacks' = set [] \<union> (\<Union>s\<in>set stacks. {t. accepts rules s chr t})"
    using assms unfolding llama_grammar_accept_def by (rule fold_opt_union) (rule accept_stack_set)
  then show ?thesis by auto
qed

lemma accepts_ready: "accepts rules s c t \<Longrightarrow> ready rules s \<Longrightarrow> ready rules t"
proof -
  assume "accepts rules s c t" "ready rules s"
  then obtain p below n s1 where "s = p # below" "push_pos rules (move p n) below = Some s1" "advances rules s1 t"
    by (auto simp: accepts_def)
  then show ?thesis
    using \<open>ready rules s\<close> push_pos_ok [of rules "move p n" below s1] advances_ready by (simp add: ready_def)
qed

lemma accepts_lang:
  assumes "ready rules s"
  shows "(\<exists>t. accepts rules s c t \<and> stack_lang rules t w) \<longleftrightarrow> stack_lang rules s (c # w)"
proof
  assume "\<exists>t. accepts rules s c t \<and> stack_lang rules t w"
  then obtain p below n s1 t where s: "s = p # below" "llama_grammar_match_char (rest_at rules p) c = Some (True, n)"
     "push_pos rules (move p n) below = Some s1" "advances rules s1 t" "stack_lang rules t w"
    by (auto simp: accepts_def)
  then obtain u v where "w = u @ v" "pos_lang rules (move p n) u" "stack_lang rules below v"
    using push_pos_lang [OF s(3)] advances_lang [OF s(4,5)] by auto
  then show "stack_lang rules s (c # w)" using lang_char [OF s(2)] s(1) by (metis append_Cons stack_lang.simps(2))
next
  assume l: "stack_lang rules s (c # w)"
  then obtain p below where s: "s = p # below" by (cases s) auto
  then obtain e where e: "elem_at rules p = Some e" "at_char e" using assms by (auto simp: ready_def)
  obtain u v where u: "c # w = u @ v" "pos_lang rules p u" "stack_lang rules below v" using l s by auto
  then obtain n u' where n: "u = c # u'" "llama_grammar_match_char (rest_at rules p) c = Some (True, n)"
    "pos_lang rules (move p n) u'" using pos_lang_char [OF e] by auto
  obtain s1 where s1: "push_pos rules (move p n) below = Some s1"
    using pos_lang_defined [OF n(3)] by (auto simp: push_pos_def)
  have "stack_lang rules s1 w" using push_pos_lang [OF s1] u(1,3) n(1,3) by auto
  moreover have "stack_ok rules s1" using push_pos_ok [OF s1] assms s by (auto simp: ready_def)
  ultimately show "\<exists>t. accepts rules s c t \<and> stack_lang rules t w"
    using stack_lang_advances s n(2) s1 by (fastforce simp: accepts_def)
qed

lemma accept_lang:
  assumes "llama_grammar_accept fuel rules stacks chr = Some stacks'" "\<forall>s\<in>set stacks. ready rules s"
  shows "stacks_lang rules stacks' w \<longleftrightarrow> stacks_lang rules stacks (chr # w)"
    "\<forall>s\<in>set stacks'. ready rules s"
proof -
  have "stacks_lang rules stacks' w \<longleftrightarrow> (\<exists>s\<in>set stacks. \<exists>t. accepts rules s chr t \<and> stack_lang rules t w)"
    by (auto simp: stacks_lang_def accept_set [OF assms(1)])
  also have "\<dots> \<longleftrightarrow> stacks_lang rules stacks (chr # w)"
    using accepts_lang assms(2) by (simp add: stacks_lang_def)
  finally show "stacks_lang rules stacks' w \<longleftrightarrow> stacks_lang rules stacks (chr # w)" .
  show "\<forall>s\<in>set stacks'. ready rules s" using accepts_ready assms(2) by (auto simp: accept_set [OF assms(1)])
qed

lemma accept_code_points_lang:
  assumes "accept_code_points fuel rules cps stacks = Some stacks'" "\<forall>s\<in>set stacks. ready rules s"
  shows "stacks_lang rules stacks' w \<longleftrightarrow> stacks_lang rules stacks (cps @ w)"
    "\<forall>s\<in>set stacks'. ready rules s"
proof -
  have "(stacks_lang rules stacks' w \<longleftrightarrow> stacks_lang rules stacks (cps @ w)) \<and> (\<forall>s\<in>set stacks'. ready rules s)"
    using assms
  proof (induction cps arbitrary: stacks)
    case (Cons c cps)
    then obtain s1 where "llama_grammar_accept fuel rules stacks c = Some s1" "accept_code_points fuel rules cps s1 = Some stacks'"
      by (auto split: bind_splits)
    note s1 = this
    note a = accept_lang [OF s1(1) Cons.prems(2)]
    show ?case using Cons.IH [OF s1(2) a(2)] a(1) by simp
  qed simp
  then show "stacks_lang rules stacks' w \<longleftrightarrow> stacks_lang rules stacks (cps @ w)" "\<forall>s\<in>set stacks'. ready rules s"
    by blast+
qed

text \<open>The stacks a grammar starts with have the language of its start rule.\<close>

lemma initial_stacks_lang:
  assumes "initial_stacks fuel rules start = Some stacks"
  shows "stacks_lang rules stacks w \<longleftrightarrow> rule_lang rules start w" "\<forall>s\<in>set stacks. ready rules s"
proof -
  obtain starts where st: "start < length rules" "alt_starts (rules ! start) = Some starts"
    and f: "fold_opt (\<lambda>sub new. do {
                 s \<leftarrow> push_pos rules (start, sub) [];
                 llama_grammar_advance_stack fuel rules s new }) starts [] = Some stacks"
    using assms by (auto simp: initial_stacks_def split: if_splits option.splits)
  have u: "set stacks = set [] \<union> (\<Union>i\<in>set starts. {t. \<exists>s. push_pos rules (start, i) [] = Some s \<and> advances rules s t})"
    by (rule fold_opt_union [OF f]) (auto dest: advance_stack_set split: bind_splits)
  have p: "\<exists>s. push_pos rules (start, i) [] = Some s" if "i \<in> set starts" for i
    using fold_opt_pick [OF f that] by (auto split: bind_splits)
  have e: "stack_lang rules s w \<longleftrightarrow> (\<exists>t. advances rules s t \<and> stack_lang rules t w)"
    if "push_pos rules (start, i) [] = Some s" for i s
    using stack_lang_advances [of rules s w] push_pos_ok [OF that] advances_lang by auto
  have "stacks_lang rules stacks w \<longleftrightarrow> (\<exists>i\<in>set starts. \<exists>s. push_pos rules (start, i) [] = Some s \<and>
      (\<exists>t. advances rules s t \<and> stack_lang rules t w))"
    by (auto simp: stacks_lang_def u)
  also have "\<dots> \<longleftrightarrow> (\<exists>i\<in>set starts. \<exists>s. push_pos rules (start, i) [] = Some s \<and> stack_lang rules s w)"
    using e by blast
  also have "\<dots> \<longleftrightarrow> (\<exists>i\<in>set starts. pos_lang rules (start, i) w)"
    using p by (metis push_pos_lang stack_lang.simps append_Nil2)
  finally show "stacks_lang rules stacks w \<longleftrightarrow> rule_lang rules start w" using st by (simp add: rule_lang_def)
  show "\<forall>s\<in>set stacks. ready rules s" by (auto simp: u intro!: advances_ready push_pos_ok [OF _ stack_ok_Nil])
qed

section \<open>Rejecting\<close>

text \<open>
  A candidate is viable on a stack when its code points can be accepted one after the other and
  the partial code point it ends in, if any, may still match.
\<close>

fun viable :: "llama_grammar_rules \<Rightarrow> llama_grammar_stack \<Rightarrow> nat list \<Rightarrow> llama_partial_utf8 \<Rightarrow> bool" where
  "viable rules s [] u = (pu_remain u = 0 \<or>
     (\<exists>p below. s = p # below \<and> llama_grammar_match_partial_char (rest_at rules p) u = Some True))"
| "viable rules s (c # cs) u = (\<exists>t. accepts rules s c t \<and> viable rules t cs u)"

definition c_rest :: "llama_grammar_candidate \<Rightarrow> nat list" where
  "c_rest tok = takeWhile (\<lambda>c. c \<noteq> 0) (drop (c_pos tok) (c_code_points tok))"

definition c_ok :: "llama_grammar_candidate \<Rightarrow> bool" where
  "c_ok tok = (0 \<in> set (drop (c_pos tok) (c_code_points tok)))"

definition c_viable :: "llama_grammar_rules \<Rightarrow> llama_grammar_stack \<Rightarrow> llama_grammar_candidate \<Rightarrow> bool" where
  "c_viable rules s tok = viable rules s (c_rest tok) (c_partial_utf8 tok)"

lemma c_prev_next [simp]: "c_prev (c_next tok) = tok" "c_partial_utf8 (c_next tok) = c_partial_utf8 tok"
  by (simp_all add: c_prev_def c_next_def)

lemma drop_c_cpt: "c_ok tok \<Longrightarrow> drop (c_pos tok) (c_code_points tok) = c_cpt tok # drop (Suc (c_pos tok)) (c_code_points tok)"
  by (cases "c_pos tok < length (c_code_points tok)") (simp_all add: c_ok_def c_cpt_def Cons_nth_drop_Suc)

lemma c_rest_zero: "c_ok tok \<Longrightarrow> c_cpt tok = 0 \<Longrightarrow> c_rest tok = []"
  by (simp add: c_rest_def drop_c_cpt)

lemma c_rest_next: "c_ok tok \<Longrightarrow> c_cpt tok \<noteq> 0 \<Longrightarrow> c_rest tok = c_cpt tok # c_rest (c_next tok)"
  unfolding c_rest_def by (subst drop_c_cpt) (simp_all add: c_next_def)

lemma c_ok_next: "c_ok tok \<Longrightarrow> c_cpt tok \<noteq> 0 \<Longrightarrow> c_ok (c_next tok)"
  using drop_c_cpt [of tok] by (simp add: c_ok_def c_next_def)

lemma match_scan_length:
  "match_scan es c f = Some (b, n) \<Longrightarrow> \<exists>b'. match_scan es c' f' = Some (b', n)"
proof (induction es c f arbitrary: b n f' rule: match_scan.induct)
  case (1 e e1 es chr found)
  show ?case
  proof (cases "e_type e1 = LLAMA_GRETYPE_CHAR_RNG_UPPER")
    case True
    then show ?thesis using 1 by (fastforce simp: Let_def split: list.splits if_splits)
  next
    case False
    then show ?thesis using 1 by (fastforce simp: Let_def split: if_splits)
  qed
qed simp_all

lemma match_char_scan: "llama_grammar_match_char es c = Some (b, n) \<Longrightarrow> \<exists>b'. match_scan es c False = Some (b', n)"
  by (auto simp: llama_grammar_match_char_def split: list.splits if_splits)

lemma match_char_length:
  "llama_grammar_match_char es c = Some (b, n) \<Longrightarrow> llama_grammar_match_char es c' = Some (b', n') \<Longrightarrow> n' = n"
  using match_scan_length [of es c False _ n c' False] match_char_scan [of es c b n] match_char_scan [of es c' b' n']
  by fastforce

text \<open>The candidates of one stack, sorted.\<close>

lemma sort_candidates:
  assumes "fold_opt (sort_candidate es) toks (rs, ns) = Some (rs', ns')"
  shows "set rs' = set rs \<union> {tok \<in> set toks. (c_cpt tok = 0 \<and> pu_remain (c_partial_utf8 tok) \<noteq> 0 \<and>
        llama_grammar_match_partial_char es (c_partial_utf8 tok) = Some False) \<or>
        (c_cpt tok \<noteq> 0 \<and> (\<exists>n. llama_grammar_match_char es (c_cpt tok) = Some (False, n)))}"
    "set ns' = set ns \<union> c_next ` {tok \<in> set toks. c_cpt tok \<noteq> 0 \<and> (\<exists>n. llama_grammar_match_char es (c_cpt tok) = Some (True, n))}"
    "\<forall>tok\<in>set toks. (c_cpt tok = 0 \<longrightarrow> pu_remain (c_partial_utf8 tok) \<noteq> 0 \<longrightarrow>
        (\<exists>b. llama_grammar_match_partial_char es (c_partial_utf8 tok) = Some b)) \<and>
        (c_cpt tok \<noteq> 0 \<longrightarrow> (\<exists>b n. llama_grammar_match_char es (c_cpt tok) = Some (b, n)))"
proof -
  have "set rs' = set rs \<union> {tok \<in> set toks. (c_cpt tok = 0 \<and> pu_remain (c_partial_utf8 tok) \<noteq> 0 \<and>
        llama_grammar_match_partial_char es (c_partial_utf8 tok) = Some False) \<or>
        (c_cpt tok \<noteq> 0 \<and> (\<exists>n. llama_grammar_match_char es (c_cpt tok) = Some (False, n)))} \<and>
    set ns' = set ns \<union> c_next ` {tok \<in> set toks. c_cpt tok \<noteq> 0 \<and> (\<exists>n. llama_grammar_match_char es (c_cpt tok) = Some (True, n))} \<and>
    (\<forall>tok\<in>set toks. (c_cpt tok = 0 \<longrightarrow> pu_remain (c_partial_utf8 tok) \<noteq> 0 \<longrightarrow>
        (\<exists>b. llama_grammar_match_partial_char es (c_partial_utf8 tok) = Some b)) \<and>
        (c_cpt tok \<noteq> 0 \<longrightarrow> (\<exists>b n. llama_grammar_match_char es (c_cpt tok) = Some (b, n))))"
    using assms
  proof (induction toks arbitrary: rs ns)
    case (Cons tok toks)
    then obtain r1 n1 where s: "sort_candidate es tok (rs, ns) = Some (r1, n1)"
      "fold_opt (sort_candidate es) toks (r1, n1) = Some (rs', ns')" by (auto split: bind_splits)
    note ih = Cons.IH [OF s(2)]
    consider (skip) "c_cpt tok = 0" "pu_remain (c_partial_utf8 tok) = 0" "r1 = rs" "n1 = ns"
      | (partial) b where "c_cpt tok = 0" "pu_remain (c_partial_utf8 tok) \<noteq> 0" "n1 = ns"
          "llama_grammar_match_partial_char es (c_partial_utf8 tok) = Some b" "r1 = (if b then rs else rs @ [tok])"
      | (char) b n where "c_cpt tok \<noteq> 0" "llama_grammar_match_char es (c_cpt tok) = Some (b, n)"
          "r1 = (if b then rs else rs @ [tok])" "n1 = (if b then ns @ [c_next tok] else ns)"
      using s(1) by (fastforce simp: sort_candidate_def split: if_splits)
    then show ?case
    proof cases
      case skip
      with ih show ?thesis by auto
    next
      case partial
      with ih show ?thesis by (cases b) auto
    next
      case char
      with ih show ?thesis by (cases b) auto
    qed
  qed simp
  then show "set rs' = set rs \<union> {tok \<in> set toks. (c_cpt tok = 0 \<and> pu_remain (c_partial_utf8 tok) \<noteq> 0 \<and>
        llama_grammar_match_partial_char es (c_partial_utf8 tok) = Some False) \<or>
        (c_cpt tok \<noteq> 0 \<and> (\<exists>n. llama_grammar_match_char es (c_cpt tok) = Some (False, n)))}"
    "set ns' = set ns \<union> c_next ` {tok \<in> set toks. c_cpt tok \<noteq> 0 \<and> (\<exists>n. llama_grammar_match_char es (c_cpt tok) = Some (True, n))}"
    "\<forall>tok\<in>set toks. (c_cpt tok = 0 \<longrightarrow> pu_remain (c_partial_utf8 tok) \<noteq> 0 \<longrightarrow>
        (\<exists>b. llama_grammar_match_partial_char es (c_partial_utf8 tok) = Some b)) \<and>
        (c_cpt tok \<noteq> 0 \<longrightarrow> (\<exists>b n. llama_grammar_match_char es (c_cpt tok) = Some (b, n)))"
    by blast+
qed

text \<open>Viability of a candidate on a stack with a character on top.\<close>

lemma c_viable_Nil: "c_ok tok \<Longrightarrow> c_viable rules [] tok \<longleftrightarrow> c_cpt tok = 0 \<and> pu_remain (c_partial_utf8 tok) = 0"
  by (cases "c_cpt tok = 0") (simp_all add: c_viable_def c_rest_zero c_rest_next accepts_def)

lemma c_viable_zero:
  assumes "c_ok tok" "c_cpt tok = 0"
  shows "c_viable rules (p # below) tok \<longleftrightarrow> pu_remain (c_partial_utf8 tok) = 0 \<or>
    llama_grammar_match_partial_char (rest_at rules p) (c_partial_utf8 tok) = Some True"
  using assms by (simp add: c_viable_def c_rest_zero)

lemma c_viable_char:
  assumes "c_ok tok" "c_cpt tok \<noteq> 0" "llama_grammar_match_char (rest_at rules p) (c_cpt tok) = Some (b, n)"
    "push_pos rules (move p n) below = Some s1"
  shows "c_viable rules (p # below) tok \<longleftrightarrow> b \<and> (\<exists>t. advances rules s1 t \<and> c_viable rules t (c_next tok))"
  using assms by (auto simp: c_viable_def c_rest_next accepts_def)

definition rejects_ok ::
  "llama_grammar_rules \<Rightarrow> llama_grammar_stack set \<Rightarrow> llama_grammar_candidate list \<Rightarrow> llama_grammar_candidate list \<Rightarrow> bool"
where
  "rejects_ok rules S toks rej = (set rej = {tok \<in> set toks. \<not> (\<exists>s\<in>S. c_viable rules s tok)})"

lemma reject_for_stack_ok:
  assumes rec: "\<And>ss ts rej. R ss ts = Some rej \<Longrightarrow> \<forall>t\<in>set ts. c_ok t \<Longrightarrow> rejects_ok rules (set ss) ts rej"
    and run: "reject_for_stack R fuel rules s toks = Some rej" and ok: "\<forall>t\<in>set toks. c_ok t"
  shows "rejects_ok rules {s} toks rej"
proof (cases s)
  case Nil
  then show ?thesis using run ok by (auto simp: reject_for_stack_def rejects_ok_def c_viable_Nil)
next
  case (Cons p below)
  obtain rs ns b0 n s1 next_stacks next_rejects where
    sort: "fold_opt (sort_candidate (rest_at rules p)) toks ([], []) = Some (rs, ns)"
    and m: "llama_grammar_match_char (rest_at rules p) 0 = Some (b0, n)"
    and s1: "push_pos rules (move p n) below = Some s1"
    and ad: "llama_grammar_advance_stack fuel rules s1 [] = Some next_stacks"
    and re: "R next_stacks ns = Some next_rejects" and rej: "rej = rs @ map c_prev next_rejects"
    using run Cons by (auto simp: reject_for_stack_def split: bind_splits)
  note so = sort_candidates [OF sort]
  have ns: "set ns = c_next ` {tok \<in> set toks. c_cpt tok \<noteq> 0 \<and> (\<exists>n. llama_grammar_match_char (rest_at rules p) (c_cpt tok) = Some (True, n))}"
    using so(2) by simp
  then have "\<forall>t\<in>set ns. c_ok t" using ok c_ok_next by auto
  from rec [OF re this] have nr: "set next_rejects = {tok \<in> set ns. \<not> (\<exists>t. advances rules s1 t \<and> c_viable rules t tok)}"
    using advance_stack_set [OF ad] by (auto simp: rejects_ok_def)
  have n: "n' = n" if "llama_grammar_match_char (rest_at rules p) c = Some (b, n')" for c b n'
    using match_char_length [OF m that] .
  have "tok \<in> set rej \<longleftrightarrow> tok \<in> set toks \<and> \<not> c_viable rules s tok" for tok
  proof -
    have p: "tok \<in> c_prev ` set next_rejects \<longleftrightarrow> tok \<in> set toks \<and> c_cpt tok \<noteq> 0 \<and>
        (\<exists>n. llama_grammar_match_char (rest_at rules p) (c_cpt tok) = Some (True, n)) \<and>
        \<not> (\<exists>t. advances rules s1 t \<and> c_viable rules t (c_next tok))"
      by (force simp: nr ns)
    show ?thesis
    proof (cases "tok \<in> set toks")
      case False
      then show ?thesis using p so(1) by (auto simp: rej)
    next
      case True
      then have k: "c_ok tok" using ok by simp
      show ?thesis
      proof (cases "c_cpt tok = 0")
        case z: True
        then show ?thesis using True p so(1,3) c_viable_zero [OF k z, of rules p below] Cons by (auto simp: rej)
      next
        case False
        then obtain b where b: "llama_grammar_match_char (rest_at rules p) (c_cpt tok) = Some (b, n)"
          using so(3) True n by blast
        show ?thesis using True False p so(1) b c_viable_char [OF k False b s1] Cons by (auto simp: rej)
      qed
    qed
  qed
  then show ?thesis by (auto simp: rejects_ok_def)
qed

lemma reject_candidates_ok:
  "llama_grammar_reject_candidates depth fuel rules stacks toks = Some rej \<Longrightarrow> \<forall>t\<in>set toks. c_ok t \<Longrightarrow>
    rejects_ok rules (set stacks) toks rej"
proof (induction depth arbitrary: stacks toks rej)
  case 0
  then show ?case by simp
next
  case (Suc depth)
  let ?f = "reject_for_stack (\<lambda>next_stacks. llama_grammar_reject_candidates depth fuel rules next_stacks) fuel rules"
  have loop: "rejects_ok rules (set ss) ts r" if "fold_opt ?f ss ts = Some r" "\<forall>t\<in>set ts. c_ok t" for ss ts r
    using that
  proof (induction ss arbitrary: ts)
    case Nil
    then show ?case by (auto simp: rejects_ok_def)
  next
    case (Cons s ss)
    then obtain t1 where t1: "?f s ts = Some t1" "fold_opt ?f ss t1 = Some r" by (auto split: bind_splits)
    have r1: "rejects_ok rules {s} ts t1" using reject_for_stack_ok [OF Suc.IH t1(1) Cons.prems(2)] by simp
    then have "\<forall>t\<in>set t1. c_ok t" using Cons.prems(2) by (auto simp: rejects_ok_def)
    from Cons.IH [OF t1(2) this] r1 show ?case by (auto simp: rejects_ok_def)
  qed
  show ?case
    using Suc.prems loop by (auto simp: rejects_ok_def split: if_splits)
qed

section \<open>Sampling and accepting agree\<close>

fun accepts_run :: "llama_grammar_rules \<Rightarrow> llama_grammar_stack \<Rightarrow> nat list \<Rightarrow> llama_grammar_stack \<Rightarrow> bool" where
  "accepts_run rules s [] t = (t = s)"
| "accepts_run rules s (c # cs) t = (\<exists>s1. accepts rules s c s1 \<and> accepts_run rules s1 cs t)"

lemma accept_code_points_set:
  "accept_code_points fuel rules cps stacks = Some stacks' \<Longrightarrow>
    set stacks' = {t. \<exists>s\<in>set stacks. accepts_run rules s cps t}"
proof (induction cps arbitrary: stacks)
  case (Cons c cps)
  then obtain s1 where s1: "llama_grammar_accept fuel rules stacks c = Some s1" "accept_code_points fuel rules cps s1 = Some stacks'"
    by (auto split: bind_splits)
  show ?case using Cons.IH [OF s1(2)] accept_set [OF s1(1)] by auto
qed simp

lemma viable_run: "viable rules s cps u \<Longrightarrow> \<exists>t. accepts_run rules s cps t"
proof (induction cps arbitrary: s)
  case (Cons c cps)
  then obtain s1 t where "accepts rules s c s1" "accepts_run rules s1 cps t" by force
  then have "accepts_run rules s (c # cps) t" by auto
  then show ?case ..
next
  case Nil
  have "accepts_run rules s [] s" by simp
  then show ?case ..
qed

lemma run_viable: "pu_remain u = 0 \<Longrightarrow> accepts_run rules s cps t \<Longrightarrow> viable rules s cps u"
  by (induction cps arbitrary: s) auto

lemma decode_loop_terminated: "decode_loop bs v n cps = (out, p) \<Longrightarrow> \<exists>o'. out = o' @ [0]"
  by (induction bs v n cps arbitrary: out rule: decode_loop.induct) (auto simp: Let_def split: if_splits prod.splits)

lemma decode_utf8_terminated: "decode_utf8 piece u = (out, p) \<Longrightarrow> \<exists>o'. out = o' @ [0]"
  by (auto simp: decode_utf8_def Let_def split: option.splits dest: decode_loop_terminated)

definition token_candidate :: "llama_grammar \<Rightarrow> nat \<Rightarrow> byte list \<Rightarrow> llama_grammar_candidate" where
  "token_candidate g i piece =
     (case decode_utf8 piece (g_partial_utf8 g) of
        (cps, u) \<Rightarrow> \<lparr>c_index = i, c_code_points = cps, c_pos = 0, c_partial_utf8 = u\<rparr>)"

lemma token_candidate_ok: "c_ok (token_candidate g i piece)"
  by (cases "decode_utf8 piece (g_partial_utf8 g)")
    (auto simp: token_candidate_def c_ok_def dest: decode_utf8_terminated)

lemma token_candidate_index: "c_index (token_candidate g i piece) = i"
  by (simp add: token_candidate_def split: prod.splits)

lemma takeWhile_snoc: "(0 :: nat) \<notin> set xs \<Longrightarrow> takeWhile ((<) 0) (xs @ [0]) = xs"
  by (induction xs) auto

lemma token_candidate_rest:
  assumes "decode_utf8 piece (g_partial_utf8 g) = (cps, u)" "0 \<notin> set (butlast cps)"
  shows "c_rest (token_candidate g i piece) = butlast cps" "c_partial_utf8 (token_candidate g i piece) = u"
proof -
  obtain o' where o': "cps = o' @ [0]" using decode_utf8_terminated assms(1) by blast
  show "c_rest (token_candidate g i piece) = butlast cps" "c_partial_utf8 (token_candidate g i piece) = u"
    using assms takeWhile_snoc [of o'] by (simp_all add: token_candidate_def c_rest_def o')
qed

text \<open>What the scan leaves for every token, and which candidates it makes.\<close>

lemma apply_scan_ok:
  assumes "apply_scan mi g i ds = (None, ds', cs)"
  shows "length ds' = length ds \<and>
    (\<forall>k<length ds. \<exists>piece. g_piece g (td_id (ds ! k)) = Some piece \<and>
       (if g_is_eog g (td_id (ds ! k))
        then ds' ! k = (if [] \<in> set (g_stacks g) then ds ! k else (ds ! k)\<lparr>td_logit := mi\<rparr>)
        else if piece = [] \<or> hd piece = 0 then ds' ! k = (ds ! k)\<lparr>td_logit := mi\<rparr>
        else ds' ! k = ds ! k \<and> token_candidate g (i + k) piece \<in> set cs)) \<and>
    (\<forall>c\<in>set cs. \<exists>k<length ds. \<exists>piece. c = token_candidate g (i + k) piece \<and> g_piece g (td_id (ds ! k)) = Some piece)"
  using assms
proof (induction ds arbitrary: i ds' cs)
  case Nil
  then show ?case by simp
next
  case (Cons d ds)
  obtain piece where piece: "g_piece g (td_id d) = Some piece" using Cons.prems by (auto split: option.splits)
  obtain e ds1 cs1 where r: "apply_scan mi g (Suc i) ds = (e, ds1, cs1)" by (cases "apply_scan mi g (Suc i) ds")
  have e: "e = None" using Cons.prems piece r by (auto split: if_splits prod.splits)
  note ih = Cons.IH [OF r [unfolded e]]
  define d1 where "d1 = (if g_is_eog g (td_id d) then (if [] \<in> set (g_stacks g) then d else d\<lparr>td_logit := mi\<rparr>)
     else if piece = [] \<or> hd piece = 0 then d\<lparr>td_logit := mi\<rparr> else d)"
  define c1 where "c1 = (if g_is_eog g (td_id d) \<or> piece = [] \<or> hd piece = 0 then [] else [token_candidate g i piece])"
  have res: "ds' = d1 # ds1" "cs = c1 @ cs1"
    using Cons.prems piece r by (auto simp: d1_def c1_def token_candidate_def split: if_splits prod.splits)
  have "\<exists>piece. g_piece g (td_id ((d # ds) ! k)) = Some piece \<and>
       (if g_is_eog g (td_id ((d # ds) ! k))
        then ds' ! k = (if [] \<in> set (g_stacks g) then (d # ds) ! k else ((d # ds) ! k)\<lparr>td_logit := mi\<rparr>)
        else if piece = [] \<or> hd piece = 0 then ds' ! k = ((d # ds) ! k)\<lparr>td_logit := mi\<rparr>
        else ds' ! k = (d # ds) ! k \<and> token_candidate g (i + k) piece \<in> set cs)" if k: "k < length (d # ds)" for k
  proof (cases k)
    case 0
    then show ?thesis using piece res by (auto simp: d1_def c1_def)
  next
    case (Suc j)
    then obtain piece' where "g_piece g (td_id (ds ! j)) = Some piece' \<and>
       (if g_is_eog g (td_id (ds ! j))
        then ds1 ! j = (if [] \<in> set (g_stacks g) then ds ! j else (ds ! j)\<lparr>td_logit := mi\<rparr>)
        else if piece' = [] \<or> hd piece' = 0 then ds1 ! j = (ds ! j)\<lparr>td_logit := mi\<rparr>
        else ds1 ! j = ds ! j \<and> token_candidate g (Suc i + j) piece' \<in> set cs1)"
      using ih k by auto
    then show ?thesis using Suc res by (intro exI [of _ piece']) (auto split: if_splits)
  qed
  moreover have "\<exists>k<length (d # ds). \<exists>piece. c = token_candidate g (i + k) piece \<and> g_piece g (td_id ((d # ds) ! k)) = Some piece"
    if c: "c \<in> set cs" for c
  proof (cases "c \<in> set c1")
    case True
    then show ?thesis using piece by (intro exI [of _ 0]) (auto simp: c1_def split: if_splits)
  next
    case False
    then obtain k p where "k < length ds" "c = token_candidate g (Suc i + k) p" "g_piece g (td_id (ds ! k)) = Some p"
      using ih c res by auto
    then show ?thesis by (intro exI [of _ "Suc k"]) auto
  qed
  ultimately show ?case using ih res by auto
qed

lemma rejects_logit:
  "\<forall>c\<in>set rs. c_index c < length ds \<Longrightarrow>
    length (fold (\<lambda>tok ds. ds[c_index tok := (ds ! c_index tok)\<lparr>td_logit := mi\<rparr>]) rs ds) = length ds \<and>
    (\<forall>i<length ds. fold (\<lambda>tok ds. ds[c_index tok := (ds ! c_index tok)\<lparr>td_logit := mi\<rparr>]) rs ds ! i =
       (if i \<in> c_index ` set rs then (ds ! i)\<lparr>td_logit := mi\<rparr> else ds ! i))"
proof (induction rs arbitrary: ds)
  case (Cons r rs)
  have "\<forall>c\<in>set rs. c_index c < length (ds[c_index r := (ds ! c_index r)\<lparr>td_logit := mi\<rparr>])" using Cons.prems by simp
  from Cons.IH [OF this] Cons.prems show ?case by (auto simp: nth_list_update)
qed simp

text \<open>
  A token the grammar leaves in the running can be accepted, and a token it rules out because of
  its code points cannot.
\<close>

lemma apply_accept:
  assumes ap: "llama_grammar_apply_impl mi depth fuel g data = Some (None, data')"
    and i: "i < length data" and act: "\<not> g_awaiting_trigger g"
    and piece: "g_piece g (td_id (data ! i)) = Some piece"
    and dec: "decode_utf8 piece (g_partial_utf8 g) = (cps, u)" and nz: "0 \<notin> set (butlast cps)"
    and keep: "td_logit (data' ! i) \<noteq> mi"
    and acc: "llama_grammar_accept_impl fuel' g (td_id (data ! i)) = Some (e, g')"
  shows "e = None"
proof -
  obtain ds cs where sc: "apply_scan mi g 0 data = (None, ds, cs)"
    using ap act by (auto simp: llama_grammar_apply_impl_def split: prod.splits option.splits)
  then obtain rej where rej: "llama_grammar_reject_candidates depth fuel (g_rules g) (g_stacks g) cs = Some rej"
    and data': "data' = fold (\<lambda>tok ds. ds[c_index tok := (ds ! c_index tok)\<lparr>td_logit := mi\<rparr>]) rej ds"
    using ap act by (auto simp: llama_grammar_apply_impl_def)
  note sok = apply_scan_ok [OF sc]
  have cs: "\<forall>c\<in>set cs. c_ok c \<and> c_index c < length ds"
    using sok token_candidate_ok token_candidate_index by fastforce
  have ro: "set rej = {tok \<in> set cs. \<not> (\<exists>s\<in>set (g_stacks g). c_viable (g_rules g) s tok)}"
    using reject_candidates_ok [OF rej] cs by (simp add: rejects_ok_def)
  have d: "data' ! i = (if i \<in> c_index ` set rej then (ds ! i)\<lparr>td_logit := mi\<rparr> else ds ! i)"
    using rejects_logit [of rej ds mi] cs ro i sok data' by simp
  show ?thesis
  proof (cases "g_is_eog g (td_id (data ! i))")
    case True
    then show ?thesis using acc piece act by (auto simp: llama_grammar_accept_impl_def split: if_splits)
  next
    case False
    then have di: "ds ! i = data ! i" "token_candidate g i piece \<in> set cs"
      using sok i piece d keep by (auto split: if_splits)
    then have "i \<notin> c_index ` set rej" using d keep by (auto split: if_splits)
    then have "token_candidate g i piece \<notin> set rej"
      by (force simp: token_candidate_def split: prod.splits)
    then obtain s where s: "s \<in> set (g_stacks g)" "c_viable (g_rules g) s (token_candidate g i piece)"
      using ro di(2) by auto
    then have "viable (g_rules g) s (butlast cps) u" by (simp add: c_viable_def token_candidate_rest [OF dec nz])
    then obtain t where t: "accepts_run (g_rules g) s (butlast cps) t" using viable_run by blast
    obtain stacks where "accept_code_points fuel' (g_rules g) (butlast cps) (g_stacks g) = Some stacks"
      "e = (if stacks = [] then Some (Unexpected_Empty_Stack piece) else None)"
      using acc piece act False dec
      by (auto simp: llama_grammar_accept_impl_def llama_grammar_accept_str_def split: bind_splits)
    then show ?thesis using accept_code_points_set s(1) t by fastforce
  qed
qed

text \<open>The cloned stacks point into the new rules where the old ones pointed into the old.\<close>

lemma drop_eq_Cons_length: "drop n xs = y # ys \<Longrightarrow> n < length xs"
  by (metis drop_all list.distinct(1) not_le)

lemma set_rule_positions: "p \<in> set (rule_positions rules) \<longleftrightarrow> (\<exists>e. elem_at rules p = Some e)"
proof -
  have "p \<in> set (rule_positions rules) \<longleftrightarrow> fst p < length rules \<and> snd p < length (rules ! fst p)"
    by (cases p) (force simp: rule_positions_def)
  also have "\<dots> \<longleftrightarrow> (\<exists>e. elem_at rules p = Some e)"
    by (auto simp: elem_at_def rest_at_def split: list.splits dest: drop_eq_Cons_length)
  finally show ?thesis .
qed

lemma clone_entry_ok:
  assumes "inj_on old (insert p (set ps))"
  shows "fold (\<lambda>q r. if old p = old q then new q else r) ps e = (if p \<in> set ps then new p else e)"
  using assms
proof (induction ps arbitrary: e)
  case (Cons q ps)
  have "inj_on old (insert p (set ps))" using Cons.prems by (rule inj_on_subset) auto
  moreover have "old p = old q \<longleftrightarrow> p = q" using Cons.prems by (auto dest: inj_onD)
  ultimately show ?case using Cons.IH by auto
qed simp

lemma clone_stacks_ok:
  assumes "inj_on old (set (rule_positions rules))" "\<forall>s\<in>set stacks. stack_ok rules s"
  shows "clone_stacks old new rules (map (map old) stacks) = map (map new) stacks"
proof -
  have "clone_entry old new rules (old p) = new p" if "p \<in> set (rule_positions rules)" for p
    using clone_entry_ok [of old p "rule_positions rules" new "old p"] assms(1) that
    by (simp add: clone_entry_def insert_absorb)
  then show ?thesis using assms(2) by (fastforce simp: clone_stacks_def stack_ok_def set_rule_positions)
qed

end
