(* ===== verification/GrammarTerm.thy ===== *)
theory GrammarTerm
  imports GrammarLang
begin

text \<open>
  When the grammar engine returns. Well-formed rules, on which no read leaves a rule and no
  assertion fails; grammars without left recursion, on which the expansion of a stack ends; and
  the recursion the detector does not see.
\<close>

section \<open>Well-formed rules\<close>

text \<open>
  A rule is a sequence of alternates, an alternate a sequence of references and character
  classes, a class a character, perhaps up to an upper bound, and its alternatives. Mode 0: at an
  item, 1: after a character, 2: after an upper bound.
\<close>

fun items_ok :: "nat \<Rightarrow> nat \<Rightarrow> llama_grammar_rule \<Rightarrow> bool" where
  "items_ok n mode [] = False"
| "items_ok n mode (e # es) =
     (case e_type e of
        LLAMA_GRETYPE_END \<Rightarrow> es = []
      | LLAMA_GRETYPE_ALT \<Rightarrow> items_ok n 0 es
      | LLAMA_GRETYPE_RULE_REF \<Rightarrow> e_value e < n \<and> items_ok n 0 es
      | LLAMA_GRETYPE_CHAR \<Rightarrow> items_ok n 1 es
      | LLAMA_GRETYPE_CHAR_NOT \<Rightarrow> items_ok n 1 es
      | LLAMA_GRETYPE_CHAR_ANY \<Rightarrow> items_ok n 1 es
      | LLAMA_GRETYPE_CHAR_RNG_UPPER \<Rightarrow> mode = 1 \<and> items_ok n 2 es
      | LLAMA_GRETYPE_CHAR_ALT \<Rightarrow> mode \<noteq> 0 \<and> items_ok n 1 es)"

definition rules_ok :: "llama_grammar_rules \<Rightarrow> bool" where
  "rules_ok rules = (\<forall>r\<in>set rules. items_ok (length rules) 0 r)"

definition pos_ok :: "llama_grammar_rules \<Rightarrow> gpos \<Rightarrow> bool" where
  "pos_ok rules p = items_ok (length rules) 0 (rest_at rules p)"

definition stack_wf :: "llama_grammar_rules \<Rightarrow> llama_grammar_stack \<Rightarrow> bool" where
  "stack_wf rules s = (\<forall>p\<in>set s. pos_ok rules p)"

lemma stack_wf_simps [simp]: "stack_wf rules []" "stack_wf rules (p # s) \<longleftrightarrow> pos_ok rules p \<and> stack_wf rules s"
  by (auto simp: stack_wf_def)

lemma rest_at_move: "rest_at rules (move p n) = drop n (rest_at rules p)"
  by (simp add: rest_at_def move_def add.commute)

lemma pos_ok_elem: "pos_ok rules p \<Longrightarrow> \<exists>e es. rest_at rules p = e # es \<and> elem_at rules p = Some e"
  by (cases "rest_at rules p") (auto simp: pos_ok_def elem_at_def)

lemma items_ok_mode: "items_ok n 0 es \<Longrightarrow> items_ok n mode es"
  by (cases es) (auto split: llama_gretype.splits)

lemma alt_starts_from_ok:
  "items_ok n mode es \<Longrightarrow> \<exists>starts. alt_starts_from es i = Some starts \<and> (\<forall>j\<in>set starts. i \<le> j \<and> items_ok n 0 (drop (j - i) es))"
proof (induction es arbitrary: i mode)
  case (Cons e es)
  have sub: "\<exists>starts. alt_starts_from es (i + 1) = Some starts \<and>
      (\<forall>j\<in>set starts. i \<le> j \<and> items_ok n 0 (drop (j - i) (e # es)))" if ok: "items_ok n m es" for m
  proof -
    obtain starts where st: "alt_starts_from es (i + 1) = Some starts"
      "\<forall>j\<in>set starts. i + 1 \<le> j \<and> items_ok n 0 (drop (j - (i + 1)) es)"
      using Cons.IH [OF ok, of "i + 1"] by blast
    have "j - i = Suc (j - (i + 1))" if "i + 1 \<le> j" for j using that by simp
    then show ?thesis using st by auto
  qed
  show ?case
  proof (cases "e_type e")
    case LLAMA_GRETYPE_ALT
    then have ok: "items_ok n 0 es" using Cons.prems by simp
    from sub [OF this] LLAMA_GRETYPE_ALT ok show ?thesis by auto
  qed (use Cons.prems sub in \<open>auto dest: sub\<close>)
qed simp

lemma alt_starts_ok:
  assumes "rules_ok rules" "r < length rules"
  shows "\<exists>starts. alt_starts (rules ! r) = Some starts \<and> (\<forall>i\<in>set starts. pos_ok rules (r, i))"
proof -
  have ok: "items_ok (length rules) 0 (rules ! r)" using assms by (auto simp: rules_ok_def)
  show ?thesis
    using alt_starts_from_ok [OF ok, of 0] ok assms(2) by (auto simp: alt_starts_def pos_ok_def rest_at_def)
qed

lemma pos_ok_ref:
  assumes "pos_ok rules p" "elem_at rules p = Some e" "e_type e = LLAMA_GRETYPE_RULE_REF"
  shows "e_value e < length rules" "pos_ok rules (move p 1)"
  using assms pos_ok_elem [OF assms(1)] by (auto simp: pos_ok_def rest_at_move)

lemma match_scan_ok:
  "items_ok n 1 es \<Longrightarrow> \<exists>b m. match_scan (e # es) c f = Some (b, m) \<and> 0 < m \<and> items_ok n 0 (drop m (e # es))"
proof (induction "length es" arbitrary: e es f rule: less_induct)
  case less
  show ?case
  proof (cases es)
    case Nil
    then show ?thesis using less.prems by simp
  next
    case (Cons e1 es1)
    show ?thesis
    proof (cases "e_type e1 = LLAMA_GRETYPE_CHAR_RNG_UPPER")
      case True
      then have ok: "items_ok n 2 es1" using less.prems Cons by simp
      then obtain e2 es2 where es1: "es1 = e2 # es2" by (cases es1) auto
      show ?thesis
      proof (cases "e_type e2 = LLAMA_GRETYPE_CHAR_ALT")
        case alt: True
        then have "items_ok n 1 es2" using ok es1 by simp
        from less.hyps [OF _ this, of e2 "f \<or> (e_value e \<le> c \<and> c \<le> e_value e1)"] Cons es1 True alt
        show ?thesis by auto
      next
        case False
        then have "items_ok n 0 es1" using ok es1 by (auto split: llama_gretype.splits)
        then show ?thesis using Cons es1 True False by simp
      qed
    next
      case False
      show ?thesis
      proof (cases "e_type e1 = LLAMA_GRETYPE_CHAR_ALT")
        case alt: True
        then have "items_ok n 1 es1" using less.prems Cons by simp
        from less.hyps [OF _ this, of e1 "if e_type e = LLAMA_GRETYPE_CHAR_ANY then True else f \<or> e_value e = c"] Cons False alt
        show ?thesis by auto
      next
        case nalt: False
        then have "items_ok n 0 es" using less.prems Cons False by (auto split: llama_gretype.splits)
        then show ?thesis using Cons False nalt by simp
      qed
    qed
  qed
qed

lemma match_partial_scan_ok: "items_ok n 1 es \<Longrightarrow> \<exists>b. match_partial_scan (e # es) low high pc = Some b"
proof (induction "length es" arbitrary: e es rule: less_induct)
  case less
  then obtain e1 es1 where es: "es = e1 # es1" by (cases es) auto
  show ?case
  proof (cases "e_type e1 = LLAMA_GRETYPE_CHAR_RNG_UPPER")
    case True
    then obtain e2 es2 where es1: "es1 = e2 # es2" "items_ok n 2 es1" using less.prems es by (cases es1) auto
    show ?thesis
    proof (cases "e_type e2 = LLAMA_GRETYPE_CHAR_ALT")
      case alt: True
      then have "items_ok n 1 es2" using es1 by simp
      from less.hyps [OF _ this, of e2] es es1 True alt show ?thesis by auto
    qed (use es es1 True in auto)
  next
    case False
    show ?thesis
    proof (cases "e_type e1 = LLAMA_GRETYPE_CHAR_ALT")
      case alt: True
      then have "items_ok n 1 es1" using less.prems es by simp
      from less.hyps [OF _ this, of e1] es False alt show ?thesis by auto
    qed (use es False in auto)
  qed
qed

lemma pos_ok_char:
  assumes "pos_ok rules p" "elem_at rules p = Some e" "at_char e"
  shows "\<exists>b n. llama_grammar_match_char (rest_at rules p) c = Some (b, n) \<and> pos_ok rules (move p n)"
    "\<exists>b. llama_grammar_match_partial_char (rest_at rules p) u = Some b"
proof -
  obtain es where es: "rest_at rules p = e # es" using pos_ok_elem [OF assms(1)] assms(2) by auto
  then have ok: "items_ok (length rules) 1 es"
    using assms by (auto simp: pos_ok_def at_char_def is_positive_char_def)
  show "\<exists>b n. llama_grammar_match_char (rest_at rules p) c = Some (b, n) \<and> pos_ok rules (move p n)"
    using match_scan_ok [OF ok, of e c False] assms(3) es
    by (auto simp: llama_grammar_match_char_def at_char_def pos_ok_def rest_at_move)
  show "\<exists>b. llama_grammar_match_partial_char (rest_at rules p) u = Some b"
    using match_partial_scan_ok [OF ok] assms(3) es
    by (auto simp: llama_grammar_match_partial_char_def at_char_def)
qed

lemma push_pos_total: "pos_ok rules p \<Longrightarrow> \<exists>s'. push_pos rules p s = Some s'"
  using pos_ok_elem by (fastforce simp: push_pos_def)

lemma push_pos_wf: "push_pos rules p s = Some s' \<Longrightarrow> pos_ok rules p \<Longrightarrow> stack_wf rules s \<Longrightarrow> stack_wf rules s'"
  by (auto simp: push_pos_def split: if_splits)

lemma advances_wf: "advances rules s t \<Longrightarrow> rules_ok rules \<Longrightarrow> stack_wf rules s \<Longrightarrow> stack_wf rules t"
proof (induction rule: advances.induct)
  case (adv_ref p e starts i below s1 s2 t)
  have p: "pos_ok rules (move p 1)" "pos_ok rules (e_value e, i)"
    using pos_ok_ref [OF _ adv_ref.hyps(1,2)] alt_starts_ok [OF adv_ref.prems(1) adv_ref.hyps(3)] adv_ref.prems(2) adv_ref.hyps(4,5)
    by auto
  have "stack_wf rules s1" using push_pos_wf [OF adv_ref.hyps(6) p(1)] adv_ref.prems(2) by simp
  then show ?case using adv_ref.IH adv_ref.prems(1) push_pos_wf [OF adv_ref.hyps(7) p(2)] by simp
qed simp_all

section \<open>Expansion ends without left recursion\<close>

text \<open>
  Grammars without left recursion: the rules in \<open>N\<close> may produce nothing, and \<open>rk\<close> goes down
  along the references a rule can reach without consuming a character.
\<close>

fun null_suffix :: "nat set \<Rightarrow> llama_grammar_rule \<Rightarrow> bool" where
  "null_suffix N [] = False"
| "null_suffix N (e # es) =
     (if is_end_of_sequence e then True
      else if e_type e = LLAMA_GRETYPE_RULE_REF then e_value e \<in> N \<and> null_suffix N es else False)"

fun lead_ok :: "nat set \<Rightarrow> (nat \<Rightarrow> nat) \<Rightarrow> nat \<Rightarrow> llama_grammar_rule \<Rightarrow> bool" where
  "lead_ok N rk k [] = True"
| "lead_ok N rk k (e # es) =
     (if is_end_of_sequence e then True
      else if e_type e = LLAMA_GRETYPE_RULE_REF
           then rk (e_value e) < k \<and> (e_value e \<in> N \<longrightarrow> lead_ok N rk k es) else True)"

definition left_ranked :: "nat set \<Rightarrow> (nat \<Rightarrow> nat) \<Rightarrow> llama_grammar_rules \<Rightarrow> bool" where
  "left_ranked N rk rules =
     (\<forall>r<length rules. \<forall>i\<in>set (case alt_starts (rules ! r) of Some starts \<Rightarrow> starts | None \<Rightarrow> []).
        lead_ok N rk (rk r) (drop i (rules ! r)) \<and> (null_suffix N (drop i (rules ! r)) \<longrightarrow> r \<in> N))"

definition ends :: "llama_grammar_rules \<Rightarrow> llama_grammar_stack \<Rightarrow> bool" where
  "ends rules s = (\<exists>f. \<forall>new. \<exists>res. llama_grammar_advance_stack f rules s new = Some res)"

lemma fold_opt_mono:
  assumes "fold_opt f xs s = Some s'" "\<And>x s s'. x \<in> set xs \<Longrightarrow> f x s = Some s' \<Longrightarrow> g x s = Some s'"
  shows "fold_opt g xs s = Some s'"
  using assms by (induction xs arbitrary: s) (auto split: bind_splits)

lemma fold_opt_total:
  assumes "\<And>x s. x \<in> set xs \<Longrightarrow> \<exists>s'. f x s = Some s'"
  shows "\<exists>s'. fold_opt f xs s = Some s'"
  using assms by (induction xs arbitrary: s) (simp, metis bind.bind_lunit fold_opt.simps(2) list.set_intros)

text \<open>More fuel changes nothing.\<close>

lemma advance_stack_Suc:
  "llama_grammar_advance_stack f rules s new = Some res \<Longrightarrow> llama_grammar_advance_stack (Suc f) rules s new = Some res"
proof (induction f arbitrary: s new res)
  case (Suc f)
  show ?case
  proof (cases s)
    case Nil
    then show ?thesis using Suc.prems by simp
  next
    case (Cons p below)
    then obtain e where e: "elem_at rules p = Some e" using Suc.prems by (auto split: option.splits)
    show ?thesis
    proof (cases "e_type e = LLAMA_GRETYPE_RULE_REF")
      case False
      then show ?thesis using Suc.prems Cons e by (auto split: llama_gretype.splits)
    next
      case True
      then obtain starts where st: "e_value e < length rules" "alt_starts (rules ! e_value e) = Some starts"
        using Suc.prems Cons e by (auto split: option.splits if_splits)
      have "fold_opt (\<lambda>sub new. do {
          s1 \<leftarrow> push_pos rules (move p 1) below;
          s2 \<leftarrow> push_pos rules (e_value e, sub) s1;
          llama_grammar_advance_stack f rules s2 new }) starts new = Some res"
        using Suc.prems Cons e True st by simp
      then have "fold_opt (\<lambda>sub new. do {
          s1 \<leftarrow> push_pos rules (move p 1) below;
          s2 \<leftarrow> push_pos rules (e_value e, sub) s1;
          llama_grammar_advance_stack (Suc f) rules s2 new }) starts new = Some res"
        by (rule fold_opt_mono) (auto dest: Suc.IH split: bind_splits)
      then show ?thesis using Cons e True st by (subst llama_grammar_advance_stack.simps) simp
    qed
  qed
qed simp

lemma advance_stack_mono:
  assumes "llama_grammar_advance_stack f rules s new = Some res" "f \<le> f'"
  shows "llama_grammar_advance_stack f' rules s new = Some res"
  using assms(2,1) by (induction f' rule: dec_induct) (auto dest: advance_stack_Suc)

lemma ends_Nil: "ends rules []"
  unfolding ends_def by (rule exI [of _ 1]) simp

lemma ends_char: "elem_at rules p = Some e \<Longrightarrow> at_char e \<Longrightarrow> ends rules (p # s)"
  unfolding ends_def by (rule exI [of _ 1]) (auto simp: at_char_def is_positive_char_def)

lemma ends_ref:
  assumes e: "elem_at rules p = Some e" "e_type e = LLAMA_GRETYPE_RULE_REF" "e_value e < length rules"
    and st: "alt_starts (rules ! e_value e) = Some starts"
    and s1: "push_pos rules (move p 1) s = Some s1"
    and sub: "\<And>i. i \<in> set starts \<Longrightarrow> \<exists>s2. push_pos rules (e_value e, i) s1 = Some s2 \<and> ends rules s2"
  shows "ends rules (p # s)"
proof -
  have "\<exists>f. \<forall>i\<in>set starts. \<exists>s2. push_pos rules (e_value e, i) s1 = Some s2 \<and>
      (\<forall>new. \<exists>res. llama_grammar_advance_stack f rules s2 new = Some res)"
    using sub
  proof (induction starts)
    case (Cons i starts)
    obtain f where f: "\<forall>i\<in>set starts. \<exists>s2. push_pos rules (e_value e, i) s1 = Some s2 \<and>
      (\<forall>new. \<exists>res. llama_grammar_advance_stack f rules s2 new = Some res)" using Cons by auto
    obtain s2 f2 where f2: "push_pos rules (e_value e, i) s1 = Some s2"
      "\<forall>new. \<exists>res. llama_grammar_advance_stack f2 rules s2 new = Some res"
      using Cons.prems [of i] by (auto simp: ends_def)
    have "\<exists>res. llama_grammar_advance_stack (max f f2) rules s2 new = Some res" for new
      using f2(2) advance_stack_mono [of f2 rules s2 new _ "max f f2"] by (meson max.cobounded2)
    moreover have "\<exists>s2. push_pos rules (e_value e, j) s1 = Some s2 \<and>
      (\<forall>new. \<exists>res. llama_grammar_advance_stack (max f f2) rules s2 new = Some res)" if "j \<in> set starts" for j
      using f that advance_stack_mono [of f rules _ _ _ "max f f2"] by (meson max.cobounded1)
    ultimately show ?case using f2(1) by (intro exI [of _ "max f f2"]) auto
  qed simp
  then obtain f where f: "\<forall>i\<in>set starts. \<exists>s2. push_pos rules (e_value e, i) s1 = Some s2 \<and>
      (\<forall>new. \<exists>res. llama_grammar_advance_stack f rules s2 new = Some res)" ..
  have "\<exists>res. llama_grammar_advance_stack (Suc f) rules (p # s) new = Some res" for new
    using e st s1 f by (simp, intro fold_opt_total) fastforce
  then show ?thesis unfolding ends_def by blast
qed

text \<open>
  The two inductions: on the rank of a rule, and along an alternate. A position whose rest may be
  empty needs the stack below it to end.
\<close>

lemma ends_position:
  assumes ok: "rules_ok rules"
    and sub: "\<And>v i s. rk v < k \<Longrightarrow> v < length rules \<Longrightarrow> pos_ok rules (v, i) \<Longrightarrow>
      i \<in> set (case alt_starts (rules ! v) of Some starts \<Rightarrow> starts | None \<Rightarrow> []) \<Longrightarrow> (v \<in> N \<Longrightarrow> ends rules s) \<Longrightarrow>
      \<exists>s'. push_pos rules (v, i) s = Some s' \<and> ends rules s'"
    and p: "pos_ok rules p" "lead_ok N rk k (rest_at rules p)" "null_suffix N (rest_at rules p) \<Longrightarrow> ends rules s"
  shows "\<exists>s'. push_pos rules p s = Some s' \<and> ends rules s'"
  using p
proof (induction "length (rest_at rules p)" arbitrary: p rule: less_induct)
  case less
  obtain e es where e: "rest_at rules p = e # es" "elem_at rules p = Some e" using pos_ok_elem [OF less.prems(1)] by blast
  show ?case
  proof (cases "is_end_of_sequence e")
    case True
    then show ?thesis using less.prems(3) e by (simp add: push_pos_def)
  next
    case False
    then have push: "push_pos rules p s = Some (p # s)" using e by (simp add: push_pos_def)
    show ?thesis
    proof (cases "e_type e = LLAMA_GRETYPE_RULE_REF")
      case ref: False
      then have "at_char e" using less.prems(1) e(1) False
        by (auto simp: pos_ok_def at_char_def is_positive_char_def is_end_of_sequence_def split: llama_gretype.splits)
      then show ?thesis using push ends_char [OF e(2)] by simp
    next
      case ref: True
      note n = pos_ok_ref [OF less.prems(1) e(2) ref]
      have r1: "rest_at rules (move p 1) = es" by (simp add: rest_at_move e(1))
      have lead: "rk (e_value e) < k" "e_value e \<in> N \<Longrightarrow> lead_ok N rk k es" using less.prems(2) e(1) False ref by simp_all
      obtain starts where st: "alt_starts (rules ! e_value e) = Some starts" "\<forall>i\<in>set starts. pos_ok rules (e_value e, i)"
        using alt_starts_ok [OF ok n(1)] by blast
      obtain s1 where s1: "push_pos rules (move p 1) s = Some s1" using push_pos_total [OF n(2)] by blast
      have es1: "ends rules s1" if "e_value e \<in> N"
        using less.hyps [of "move p 1"] n(2) r1 lead(2) that less.prems(3) e(1) False ref s1 by auto
      have "ends rules (p # s)"
        by (rule ends_ref [OF e(2) ref n(1) st(1) s1]) (use sub [OF lead(1) n(1)] st es1 in simp)
      then show ?thesis using push by simp
    qed
  qed
qed

lemma ends_rule:
  assumes ok: "rules_ok rules" and rk: "left_ranked N rk rules"
  shows "v < length rules \<Longrightarrow> i \<in> set (case alt_starts (rules ! v) of Some starts \<Rightarrow> starts | None \<Rightarrow> []) \<Longrightarrow>
    pos_ok rules (v, i) \<Longrightarrow> (v \<in> N \<Longrightarrow> ends rules s) \<Longrightarrow> \<exists>s'. push_pos rules (v, i) s = Some s' \<and> ends rules s'"
proof (induction "rk v" arbitrary: v i s rule: less_induct)
  case less
  have l: "lead_ok N rk (rk v) (drop i (rules ! v))" "null_suffix N (drop i (rules ! v)) \<longrightarrow> v \<in> N"
    using rk less.prems(1,2) by (auto simp: left_ranked_def)
  show ?case
    by (rule ends_position [OF ok, of rk "rk v"]) (use less l in \<open>auto simp: rest_at_def\<close>)
qed

lemma ends_stack:
  assumes ok: "rules_ok rules" and rk: "left_ranked N rk rules" and s: "stack_wf rules s" "stack_ok rules s"
  shows "ends rules s"
  using s
proof (induction s)
  case Nil
  then show ?case by (simp add: ends_Nil)
next
  case (Cons p s)
  have e: "\<exists>s'. push_pos rules q s = Some s' \<and> ends rules s'" if "pos_ok rules q" for q
    using that
  proof (induction "length (rest_at rules q)" arbitrary: q rule: less_induct)
    case less
    obtain e es where e: "rest_at rules q = e # es" "elem_at rules q = Some e" using pos_ok_elem [OF less.prems] by blast
    consider "is_end_of_sequence e" | "\<not> is_end_of_sequence e" "at_char e" | "\<not> is_end_of_sequence e" "e_type e = LLAMA_GRETYPE_RULE_REF"
      using less.prems e(1)
      by (auto simp: pos_ok_def at_char_def is_positive_char_def is_end_of_sequence_def split: llama_gretype.splits)
    then show ?case
    proof cases
      case 1
      then show ?thesis using e Cons by (simp add: push_pos_def)
    next
      case 2
      then show ?thesis using ends_char [OF e(2)] e by (simp add: push_pos_def)
    next
      case 3
      note n = pos_ok_ref [OF less.prems e(2) 3(2)]
      obtain starts where st: "alt_starts (rules ! e_value e) = Some starts" "\<forall>i\<in>set starts. pos_ok rules (e_value e, i)"
        using alt_starts_ok [OF ok n(1)] by blast
      obtain s1 where s1: "push_pos rules (move q 1) s = Some s1" "ends rules s1"
        using less.hyps [of "move q 1"] n(2) e(1) by (auto simp: rest_at_move)
      have "ends rules (q # s)"
        by (rule ends_ref [OF e(2) 3(2) n(1) st(1) s1(1)]) (use ends_rule [OF ok rk n(1)] st s1(2) in simp)
      then show ?thesis using e 3(1) by (simp add: push_pos_def)
    qed
  qed
  have "push_pos rules p s = Some (p # s)" using Cons.prems by (auto simp: push_pos_def)
  then show ?case using e [of p] Cons.prems by auto
qed

section \<open>Accepting and rejecting return\<close>

text \<open>The stacks of a grammar in use.\<close>

definition stacks_ok :: "llama_grammar_rules \<Rightarrow> llama_grammar_stacks \<Rightarrow> bool" where
  "stacks_ok rules stacks = (\<forall>s\<in>set stacks. ready rules s \<and> stack_wf rules s)"

lemma common_fuel:
  assumes "\<And>x. x \<in> set xs \<Longrightarrow> \<exists>f. P f x" "\<And>f f' x. P f x \<Longrightarrow> f \<le> f' \<Longrightarrow> P f' x"
  shows "\<exists>f :: nat. \<forall>x\<in>set xs. P f x"
  using assms(1)
proof (induction xs)
  case (Cons x xs)
  obtain f where "\<forall>x\<in>set xs. P f x" using Cons by auto
  moreover obtain f' where "P f' x" using Cons.prems by auto
  ultimately show ?case using assms(2) by (intro exI [of _ "max f f'"]) (auto dest: assms(2))
qed simp

text \<open>What is left of a stack after its top character, whatever the character.\<close>

lemma after_char:
  assumes "rules_ok rules" "ready rules (p # below)" "stack_wf rules (p # below)"
  shows "\<exists>n s1. (\<forall>c. \<exists>b. llama_grammar_match_char (rest_at rules p) c = Some (b, n)) \<and>
    push_pos rules (move p n) below = Some s1 \<and> stack_ok rules s1 \<and> stack_wf rules s1"
proof -
  obtain e where e: "elem_at rules p = Some e" "at_char e" using assms(2) by (auto simp: ready_def)
  have p: "pos_ok rules p" using assms(3) by simp
  obtain b n where n: "llama_grammar_match_char (rest_at rules p) 0 = Some (b, n)" "pos_ok rules (move p n)"
    using pos_ok_char(1) [OF p e] by blast
  have all: "\<exists>b. llama_grammar_match_char (rest_at rules p) c = Some (b, n)" for c
    using pos_ok_char(1) [OF p e, of c] match_char_length [OF n(1)] by blast
  obtain s1 where s1: "push_pos rules (move p n) below = Some s1" using push_pos_total [OF n(2)] by blast
  show ?thesis
    using all s1 push_pos_ok [OF s1] push_pos_wf [OF s1 n(2)] assms(2,3) by (auto simp: ready_def)
qed

definition stack_fuel :: "llama_grammar_rules \<Rightarrow> nat \<Rightarrow> llama_grammar_stack \<Rightarrow> bool" where
  "stack_fuel rules f s = (case s of [] \<Rightarrow> True | p # below \<Rightarrow>
     \<exists>n s1. (\<forall>c. \<exists>b. llama_grammar_match_char (rest_at rules p) c = Some (b, n)) \<and>
       push_pos rules (move p n) below = Some s1 \<and>
       (\<forall>new. \<exists>res. llama_grammar_advance_stack f rules s1 new = Some res))"

lemma stack_fuel_mono: "stack_fuel rules f s \<Longrightarrow> f \<le> f' \<Longrightarrow> stack_fuel rules f' s"
  unfolding stack_fuel_def
  by (auto split: list.splits) (meson advance_stack_mono)

lemma stack_fuel_ex:
  assumes "rules_ok rules" "left_ranked N rk rules" "ready rules s" "stack_wf rules s"
  shows "\<exists>f. stack_fuel rules f s"
proof (cases s)
  case Nil
  then show ?thesis by (simp add: stack_fuel_def)
next
  case (Cons p below)
  obtain n s1 where s1: "\<forall>c. \<exists>b. llama_grammar_match_char (rest_at rules p) c = Some (b, n)"
    "push_pos rules (move p n) below = Some s1" "stack_ok rules s1" "stack_wf rules s1"
    using after_char [OF assms(1)] assms(3,4) Cons by blast
  obtain f where "\<forall>new. \<exists>res. llama_grammar_advance_stack f rules s1 new = Some res"
    using ends_stack [OF assms(1,2) s1(4,3)] by (auto simp: ends_def)
  then show ?thesis using Cons s1 by (auto simp: stack_fuel_def)
qed

lemma accept_stack_total:
  assumes "stack_fuel rules f s"
  shows "\<exists>res. accept_stack f rules c s new = Some res"
proof (cases s)
  case Nil
  then show ?thesis by (simp add: accept_stack_def)
next
  case (Cons p below)
  then obtain n s1 b where "llama_grammar_match_char (rest_at rules p) c = Some (b, n)"
    "push_pos rules (move p n) below = Some s1" "\<forall>new. \<exists>res. llama_grammar_advance_stack f rules s1 new = Some res"
    using assms by (auto simp: stack_fuel_def) metis
  then show ?thesis using Cons by (cases b) (simp_all add: accept_stack_def)
qed

lemma accept_total:
  "\<forall>s\<in>set stacks. stack_fuel rules f s \<Longrightarrow> \<exists>res. llama_grammar_accept f rules stacks c = Some res"
  unfolding llama_grammar_accept_def by (rule fold_opt_total) (use accept_stack_total in blast)

lemma accept_mono:
  assumes "llama_grammar_accept f rules stacks c = Some res" "f \<le> f'"
  shows "llama_grammar_accept f' rules stacks c = Some res"
  using assms(1) unfolding llama_grammar_accept_def
  by (rule fold_opt_mono)
    (auto simp: accept_stack_def split: list.splits option.splits bool.splits bind_splits
       dest: advance_stack_mono [OF _ assms(2)])

lemma accept_stacks_ok:
  assumes "rules_ok rules" "stacks_ok rules stacks" "llama_grammar_accept f rules stacks c = Some res"
  shows "stacks_ok rules res"
proof -
  have "ready rules t \<and> stack_wf rules t" if t: "accepts rules s c t" and s: "s \<in> set stacks" for s t
  proof -
    have r: "ready rules s" "stack_wf rules s" using assms(2) s by (auto simp: stacks_ok_def)
    obtain p below n s1 where p: "s = p # below" "llama_grammar_match_char (rest_at rules p) c = Some (True, n)"
      "push_pos rules (move p n) below = Some s1" "advances rules s1 t" using t by (auto simp: accepts_def)
    obtain n' s1' where n': "\<forall>c. \<exists>b. llama_grammar_match_char (rest_at rules p) c = Some (b, n')"
      "push_pos rules (move p n') below = Some s1'" "stack_wf rules s1'"
      using after_char [OF assms(1)] r p(1) by blast
    then have "n' = n" using p(2) by (metis option.inject prod.inject)
    then have "stack_wf rules s1" using n' p(3) by simp
    then show ?thesis using advances_wf [OF p(4) assms(1)] accepts_ready [OF t r(1)] by simp
  qed
  then show ?thesis using accept_set [OF assms(3)] by (auto simp: stacks_ok_def)
qed

lemma accept_code_points_mono:
  "accept_code_points f rules cps stacks = Some res \<Longrightarrow> f \<le> f' \<Longrightarrow> accept_code_points f' rules cps stacks = Some res"
  by (induction cps arbitrary: stacks) (auto split: bind_splits dest: accept_mono)

lemma accept_code_points_total:
  assumes "rules_ok rules" "left_ranked N rk rules" "stacks_ok rules stacks"
  shows "\<exists>f res. accept_code_points f rules cps stacks = Some res"
  using assms(3)
proof (induction cps arbitrary: stacks)
  case (Cons c cps)
  have "\<exists>f. \<forall>s\<in>set stacks. stack_fuel rules f s"
    by (rule common_fuel) (use stack_fuel_ex [OF assms(1,2)] Cons.prems stack_fuel_mono in \<open>auto simp: stacks_ok_def\<close>)
  then obtain f s1 where s1: "llama_grammar_accept f rules stacks c = Some s1" using accept_total by blast
  obtain f' res where "accept_code_points f' rules cps s1 = Some res"
    using Cons.IH accept_stacks_ok [OF assms(1) Cons.prems s1] by blast
  then have "accept_code_points (max f f') rules (c # cps) stacks = Some res"
    using accept_mono [OF s1, of "max f f'"] accept_code_points_mono [of f' rules cps s1 res "max f f'"] by simp
  then show ?case by blast
qed simp

lemma initial_stacks_total:
  assumes "rules_ok rules" "left_ranked N rk rules" "start < length rules"
  shows "\<exists>f stacks. initial_stacks f rules start = Some stacks \<and> stacks_ok rules stacks"
proof -
  obtain starts where st: "alt_starts (rules ! start) = Some starts" "\<forall>i\<in>set starts. pos_ok rules (start, i)"
    using alt_starts_ok [OF assms(1,3)] by blast
  define P where "P f i = (\<exists>s. push_pos rules (start, i) [] = Some s \<and>
     (\<forall>new. \<exists>res. llama_grammar_advance_stack f rules s new = Some res))" for f i
  have "\<exists>f. P f i" if "i \<in> set starts" for i
  proof -
    have "pos_ok rules (start, i)" using st(2) that by blast
    then obtain s where s: "push_pos rules (start, i) [] = Some s" using push_pos_total by blast
    have "ends rules s" using ends_stack [OF assms(1,2)] push_pos_wf [OF s] push_pos_ok [OF s] st(2) that by simp
    then show ?thesis using s by (auto simp: P_def ends_def)
  qed
  moreover have "P f' i" if "P f i" "f \<le> f'" for f f' i using that by (auto simp: P_def) (meson advance_stack_mono)
  ultimately obtain f where f: "\<forall>i\<in>set starts. P f i" using common_fuel [of starts P] by blast
  have "\<exists>stacks. fold_opt (\<lambda>sub new. do {
                 s \<leftarrow> push_pos rules (start, sub) [];
                 llama_grammar_advance_stack f rules s new }) starts [] = Some stacks"
    by (rule fold_opt_total) (use f in \<open>fastforce simp: P_def\<close>)
  then obtain stacks where run: "fold_opt (\<lambda>sub new. do {
                 s \<leftarrow> push_pos rules (start, sub) [];
                 llama_grammar_advance_stack f rules s new }) starts [] = Some stacks" ..
  then have i: "initial_stacks f rules start = Some stacks" using st assms(3) by (simp add: initial_stacks_def)
  have "set stacks = set [] \<union> (\<Union>i\<in>set starts. {t. \<exists>s. push_pos rules (start, i) [] = Some s \<and> advances rules s t})"
    by (rule fold_opt_union [OF run]) (auto dest: advance_stack_set split: bind_splits)
  then have "\<forall>t\<in>set stacks. stack_wf rules t"
    using advances_wf assms(1) push_pos_wf st(2) by fastforce
  then show ?thesis using i initial_stacks_lang(2) [OF i] by (auto simp: stacks_ok_def)
qed

text \<open>Depth: two more than the code points of the longest candidate.\<close>

lemma sort_candidates_total:
  assumes "pos_ok rules p" "elem_at rules p = Some e" "at_char e"
  shows "\<exists>rs ns. fold_opt (sort_candidate (rest_at rules p)) toks acc = Some (rs, ns)"
proof -
  have "\<exists>r. fold_opt (sort_candidate (rest_at rules p)) toks acc = Some r"
  proof (rule fold_opt_total)
    fix tok and acc :: "llama_grammar_candidate list \<times> llama_grammar_candidate list"
    obtain b n where "llama_grammar_match_char (rest_at rules p) (c_cpt tok) = Some (b, n)"
      using pos_ok_char(1) [OF assms] by blast
    moreover obtain b' where "llama_grammar_match_partial_char (rest_at rules p) (c_partial_utf8 tok) = Some b'"
      using pos_ok_char(2) [OF assms] by blast
    ultimately show "\<exists>r. sort_candidate (rest_at rules p) tok acc = Some r"
      by (cases acc) (simp add: sort_candidate_def)
  qed
  then show ?thesis by force
qed

definition depth_ok :: "nat \<Rightarrow> llama_grammar_candidate list \<Rightarrow> bool" where
  "depth_ok d toks = (0 < d \<and> (\<forall>tok\<in>set toks. c_ok tok \<and> length (c_rest tok) + 2 \<le> d))"

definition reject_returns :: "nat \<Rightarrow> llama_grammar_rules \<Rightarrow> nat \<Rightarrow> llama_grammar_stacks \<Rightarrow> bool" where
  "reject_returns d rules f0 stacks =
     (\<forall>f\<ge>f0. \<forall>toks. depth_ok d toks \<longrightarrow> (\<exists>rej. llama_grammar_reject_candidates d f rules stacks toks = Some rej))"

lemma reject_for_stack_returns:
  assumes ok: "rules_ok rules" and rk: "left_ranked N rk rules" and s: "ready rules s" "stack_wf rules s" and d0: "0 < d"
    and ih: "\<And>ss. ss \<noteq> [] \<Longrightarrow> stacks_ok rules ss \<Longrightarrow> \<exists>f0. reject_returns d rules f0 ss"
  shows "\<exists>f0. \<forall>f\<ge>f0. \<forall>toks. depth_ok (Suc d) toks \<longrightarrow>
    (\<exists>rej. reject_for_stack (\<lambda>ss. llama_grammar_reject_candidates d f rules ss) f rules s toks = Some rej)"
proof (cases s)
  case Nil
  then show ?thesis by (simp add: reject_for_stack_def)
next
  case (Cons p below)
  obtain e where e: "elem_at rules p = Some e" "at_char e" using s(1) Cons by (auto simp: ready_def)
  have p: "pos_ok rules p" using s(2) Cons by simp
  obtain n s1 where n: "\<forall>c. \<exists>b. llama_grammar_match_char (rest_at rules p) c = Some (b, n)"
    "push_pos rules (move p n) below = Some s1" "stack_ok rules s1" "stack_wf rules s1"
    using after_char [OF ok] s Cons by blast
  obtain f1 where "\<forall>new. \<exists>res. llama_grammar_advance_stack f1 rules s1 new = Some res"
    using ends_stack [OF ok rk n(4,3)] unfolding ends_def by blast
  then obtain res where f1: "llama_grammar_advance_stack f1 rules s1 [] = Some res" by blast
  have "stacks_ok rules res"
    using advance_stack_set [OF f1] advances_ready [OF _ n(3)] advances_wf [OF _ ok n(4)] by (auto simp: stacks_ok_def)
  then obtain f2 where f2: "reject_returns d rules f2 res" using ih advance_stack_not_Nil [OF f1] by blast
  have "\<exists>rej. reject_for_stack (\<lambda>ss. llama_grammar_reject_candidates d f rules ss) f rules s toks = Some rej"
    if f: "max f1 f2 \<le> f" and d: "depth_ok (Suc d) toks" for f toks
  proof -
    obtain rs ns where sort: "fold_opt (sort_candidate (rest_at rules p)) toks ([], []) = Some (rs, ns)"
      using sort_candidates_total [OF p e] by blast
    have "depth_ok d ns"
      using d d0 sort_candidates(2) [OF sort] c_rest_next c_ok_next by (fastforce simp: depth_ok_def)
    then obtain nr where nr: "llama_grammar_reject_candidates d f rules res ns = Some nr"
      using f2 f by (auto simp: reject_returns_def)
    have "llama_grammar_advance_stack f rules s1 [] = Some res" using advance_stack_mono [OF f1] f by simp
    moreover obtain b where "llama_grammar_match_char (rest_at rules p) 0 = Some (b, n)" using n(1) by blast
    ultimately show ?thesis using Cons sort nr n(2) by (simp add: reject_for_stack_def)
  qed
  then show ?thesis by blast
qed

lemma fold_opt_total_inv:
  assumes "P s" "\<And>x s. x \<in> set xs \<Longrightarrow> P s \<Longrightarrow> \<exists>s'. f x s = Some s' \<and> P s'"
  shows "\<exists>s'. fold_opt f xs s = Some s' \<and> P s'"
  using assms
proof (induction xs arbitrary: s)
  case (Cons x xs)
  obtain s1 where s1: "f x s = Some s1" "P s1" using Cons.prems(2) [of x s] Cons.prems(1) by auto
  then show ?case using Cons.IH [OF s1(2)] Cons.prems(2) by simp
qed simp

lemma reject_step_ok:
  assumes "reject_for_stack (\<lambda>ss. llama_grammar_reject_candidates d f rules ss) f rules s ts = Some rej"
    "\<forall>t\<in>set ts. c_ok t"
  shows "rejects_ok rules {s} ts rej"
  by (rule reject_for_stack_ok [OF _ assms]) (rule reject_candidates_ok)

lemma reject_candidates_returns:
  assumes ok: "rules_ok rules" and rk: "left_ranked N rk rules"
  shows "stacks \<noteq> [] \<Longrightarrow> stacks_ok rules stacks \<Longrightarrow> \<exists>f0. reject_returns d rules f0 stacks"
proof (induction d arbitrary: stacks)
  case 0
  show ?case by (simp add: reject_returns_def depth_ok_def)
next
  case (Suc d)
  show ?case
  proof (cases "d = 0")
    case True
    have "toks = []" if "depth_ok (Suc 0) toks" for toks using that by (cases toks) (auto simp: depth_ok_def)
    then show ?thesis using True Suc.prems by (auto simp: reject_returns_def)
  next
    case False
    define run where "run f = reject_for_stack (\<lambda>ss. llama_grammar_reject_candidates d f rules ss) f rules" for f
    define P where "P f0 s = (\<forall>f\<ge>f0. \<forall>toks. depth_ok (Suc d) toks \<longrightarrow> (\<exists>rej. run f s toks = Some rej))" for f0 s
    have "\<exists>f0. P f0 s" if "s \<in> set stacks" for s
      using reject_for_stack_returns [OF ok rk _ _ _ Suc.IH] False Suc.prems(2) that
      by (auto simp: P_def run_def stacks_ok_def)
    moreover have "P f' s" if "P f s" "f \<le> f'" for f f' s using that by (auto simp: P_def)
    ultimately obtain f0 where f0: "\<forall>s\<in>set stacks. P f0 s" using common_fuel [of stacks P] by blast
    have "\<exists>rej. fold_opt (run f) stacks toks = Some rej \<and> depth_ok (Suc d) rej"
      if f: "f0 \<le> f" and d: "depth_ok (Suc d) toks" for f toks
    proof (rule fold_opt_total_inv [where P = "depth_ok (Suc d)", OF d])
      fix s ts assume s: "s \<in> set stacks" "depth_ok (Suc d) ts"
      then obtain rej where rej: "run f s ts = Some rej" using f0 f unfolding P_def by blast
      then have "rejects_ok rules {s} ts rej"
        using reject_step_ok s(2) unfolding run_def depth_ok_def by blast
      then show "\<exists>rej. run f s ts = Some rej \<and> depth_ok (Suc d) rej"
        using rej s(2) by (auto simp: rejects_ok_def depth_ok_def)
    qed
    then show ?thesis using Suc.prems(1) unfolding reject_returns_def run_def
      by (intro exI [of _ f0]) fastforce
  qed
qed

section \<open>The recursion the detector does not see\<close>

text \<open>
  \<open>root ::= a root "x" | "y"\<close> with \<open>a ::= b\<close> and \<open>b ::= "z" | \<close>: \<open>a\<close> may be empty,
  but none of its alternates is literally empty, so the detector does not look past it. The
  expansion of the root's stack never ends.
\<close>

definition hidden_rules :: llama_grammar_rules where
  "hidden_rules =
     [[gelem LLAMA_GRETYPE_RULE_REF 1, gelem LLAMA_GRETYPE_RULE_REF 0, gelem LLAMA_GRETYPE_CHAR 120,
       gelem LLAMA_GRETYPE_ALT 0, gelem LLAMA_GRETYPE_CHAR 121, gelem LLAMA_GRETYPE_END 0],
      [gelem LLAMA_GRETYPE_RULE_REF 2, gelem LLAMA_GRETYPE_END 0],
      [gelem LLAMA_GRETYPE_CHAR 122, gelem LLAMA_GRETYPE_ALT 0, gelem LLAMA_GRETYPE_END 0]]"

lemma hidden_not_detected: "check_left_recursion 4 hidden_rules = Some False"
  by (simp add: check_left_recursion_def lr_start_def hidden_rules_def eval_nat_numeral is_end_of_sequence_def
      upt_rec Let_def)

lemma hidden_starts:
  "alt_starts (hidden_rules ! 0) = Some [0, 4]" "alt_starts (hidden_rules ! 1) = Some [0]"
  "alt_starts (hidden_rules ! 2) = Some [0, 2]" "length hidden_rules = 3"
  by (simp_all add: hidden_rules_def alt_starts_def)

lemma hidden_elems:
  "elem_at hidden_rules (0, 0) = Some (gelem LLAMA_GRETYPE_RULE_REF 1)"
  "elem_at hidden_rules (0, 1) = Some (gelem LLAMA_GRETYPE_RULE_REF 0)"
  "elem_at hidden_rules (0, 2) = Some (gelem LLAMA_GRETYPE_CHAR 120)"
  "elem_at hidden_rules (1, 0) = Some (gelem LLAMA_GRETYPE_RULE_REF 2)"
  "elem_at hidden_rules (1, 1) = Some (gelem LLAMA_GRETYPE_END 0)"
  "elem_at hidden_rules (2, 0) = Some (gelem LLAMA_GRETYPE_CHAR 122)"
  "elem_at hidden_rules (2, 2) = Some (gelem LLAMA_GRETYPE_END 0)"
  by (simp_all add: hidden_rules_def elem_at_def rest_at_def)

lemma hidden_diverges: "llama_grammar_advance_stack f hidden_rules ((0, 0) # s) new = None"
proof (induction f arbitrary: s new)
  case (Suc f)
  have 2: "llama_grammar_advance_stack g hidden_rules ((0, 1) # s) new = None" if "g \<le> Suc f" for g new
  proof (cases g)
    case (Suc h)
    have "llama_grammar_advance_stack h hidden_rules ((0, 0) # (0, 2) # s) new = None"
      using Suc.IH that Suc advance_stack_mono [of h hidden_rules _ new _ f] by (metis Suc_le_mono option.exhaust)
    then show ?thesis using Suc by (simp add: hidden_elems hidden_starts hidden_elems [unfolded One_nat_def] hidden_starts [unfolded One_nat_def]
        numeral_2_eq_2 [symmetric] push_pos_def is_end_of_sequence_def move_def)
  qed simp
  have 1: "llama_grammar_advance_stack f hidden_rules ((1, 0) # (0, 1) # s) new = None" for new
  proof (cases f)
    case (Suc h)
    then show ?thesis
      using 2 [of h]
      by (cases h) (simp_all add: hidden_elems hidden_starts hidden_elems [unfolded One_nat_def] hidden_starts [unfolded One_nat_def]
        numeral_2_eq_2 [symmetric] push_pos_def is_end_of_sequence_def move_def)
  qed simp
  show ?case by (simp add: hidden_elems hidden_starts hidden_elems [unfolded One_nat_def] hidden_starts [unfolded One_nat_def]
        numeral_2_eq_2 [symmetric] push_pos_def is_end_of_sequence_def move_def 1 [unfolded One_nat_def])
qed simp

end
