(* ===== verification/Gbnf.thy ===== *)
theory Gbnf
  imports Grammar "HOL-Library.AList"
begin

text \<open>
  The parser of the GBNF grammar language (\<open>llama_grammar_parser\<close> of \<open>llama-grammar.cpp\<close>).

  A C string is the list of its bytes, and the terminating 0 is the end of the list. A parsing function
  takes the rest of the text and returns what is left of it. The exceptions are a datatype; \<open>parse\<close>
  catches them all, clears the rules and returns false, so a failed parse has no state in the model.

  \<open>parse_sequence\<close> and \<open>parse_alternates\<close> call each other; the fuel bounds the calls and the rounds of
  their loops, and running out of it is the exception \<open>Spent\<close> of the model, which does not occur.
\<close>

section \<open>Exceptions\<close>

datatype parse_error =
    Expecting_Hex | Expecting_Name | Expecting_Int | Unknown_Escape | Unexpected_End
  | Expecting_Item | Expecting_Close | Expecting_Brace | Expecting_Comma | Expecting_Def
  | Expecting_Newline | Int_Out_Of_Range | Undefined_Rule | Undefined_Identifier "byte list" | Spent

definition andthen :: "parse_error + 'a \<Rightarrow> ('a \<Rightarrow> parse_error + 'b) \<Rightarrow> parse_error + 'b" where
  "andthen m f = (case m of Inl e \<Rightarrow> Inl e | Inr x \<Rightarrow> f x)"

text \<open>\<open>*pos\<close>: the byte at the position, 0 at the end of the string.\<close>

definition peek :: "byte list \<Rightarrow> byte" where
  "peek src = (case src of [] \<Rightarrow> 0 | c # _ \<Rightarrow> c)"

section \<open>Characters, names and numbers\<close>

definition is_digit_char :: "byte \<Rightarrow> bool" where
  "is_digit_char c = (48 \<le> c \<and> c \<le> 57)"

definition is_word_char :: "byte \<Rightarrow> bool" where
  "is_word_char c = ((97 \<le> c \<and> c \<le> 122) \<or> (65 \<le> c \<and> c \<le> 90) \<or> c = 45 \<or> is_digit_char c)"

definition hex_value :: "byte \<Rightarrow> nat option" where
  "hex_value c =
     (if 97 \<le> c \<and> c \<le> 102 then Some (c - 97 + 10)
      else if 65 \<le> c \<and> c \<le> 70 then Some (c - 65 + 10)
      else if 48 \<le> c \<and> c \<le> 57 then Some (c - 48)
      else None)"

text \<open>\<open>value\<close> is an \<open>uint32_t\<close> that is shifted; at most eight digits are read.\<close>

fun parse_hex_from :: "nat \<Rightarrow> byte list \<Rightarrow> nat \<Rightarrow> parse_error + nat \<times> byte list" where
  "parse_hex_from val src 0 = Inr (val, src)"
| "parse_hex_from val [] (Suc k) = Inl Expecting_Hex"
| "parse_hex_from val (c # src) (Suc k) =
     (case hex_value c of
        Some d \<Rightarrow> parse_hex_from ((push_bit 4 val + d) mod U32) src k
      | None \<Rightarrow> Inl Expecting_Hex)"

definition parse_hex :: "byte list \<Rightarrow> nat \<Rightarrow> parse_error + nat \<times> byte list" where
  "parse_hex src n = parse_hex_from 0 src n"

text \<open>Blanks, tabs and comments, and newlines where they are allowed.\<close>

definition is_newline :: "byte \<Rightarrow> bool" where
  "is_newline c = (c = 13 \<or> c = 10)"

function parse_space :: "bool \<Rightarrow> byte list \<Rightarrow> byte list" where
  "parse_space newline_ok [] = []"
| "parse_space newline_ok (c # src) =
     (if c = 35 then parse_space newline_ok (dropWhile (\<lambda>d. \<not> is_newline d) src)
      else if c = 32 \<or> c = 9 \<or> (newline_ok \<and> is_newline c) then parse_space newline_ok src
      else c # src)"
  by pat_completeness auto
termination
  by (relation "measure (\<lambda>(_, src). length src)") (auto simp: le_imp_less_Suc length_dropWhile_le)

definition parse_name :: "byte list \<Rightarrow> parse_error + byte list \<times> byte list" where
  "parse_name src =
     (let name = takeWhile is_word_char src in
      if name = [] then Inl Expecting_Name else Inr (name, dropWhile is_word_char src))"

definition parse_int :: "byte list \<Rightarrow> parse_error + byte list \<times> byte list" where
  "parse_int src =
     (let digits = takeWhile is_digit_char src in
      if digits = [] then Inl Expecting_Int else Inr (digits, dropWhile is_digit_char src))"

text \<open>\<open>int n = std::stoul(digits)\<close>: 64 bits are read, and the low 32 are taken as signed.\<close>

definition digits_value :: "byte list \<Rightarrow> nat" where
  "digits_value ds = foldl (\<lambda>n d. 10 * n + (d - 48)) 0 ds"

definition stoul_int :: "byte list \<Rightarrow> parse_error + int" where
  "stoul_int ds =
     (if digits_value ds < 2 ^ 64
      then Inr (let v = int (digits_value ds mod U32) in if v < 2 ^ 31 then v else v - 2 ^ 32)
      else Inl Int_Out_Of_Range)"

definition parse_char :: "byte list \<Rightarrow> parse_error + nat \<times> byte list" where
  "parse_char src =
     (case src of
        [] \<Rightarrow> Inl Unexpected_End
      | c # cs \<Rightarrow>
          if c = 92
          then (case cs of
                  [] \<Rightarrow> Inl Unknown_Escape
                | e # rest \<Rightarrow>
                    if e = 120 then parse_hex rest 2
                    else if e = 117 then parse_hex rest 4
                    else if e = 85 then parse_hex rest 8
                    else if e = 116 then Inr (9, rest)
                    else if e = 114 then Inr (13, rest)
                    else if e = 110 then Inr (10, rest)
                    else if e = 92 \<or> e = 34 \<or> e = 91 \<or> e = 93 then Inr (e, rest)
                    else Inl Unknown_Escape)
          else Inr (decode_utf8_one src))"

lemma parse_hex_shorter: "parse_hex_from val src k = Inr (v, rest) \<Longrightarrow> length rest \<le> length src"
  by (induction val src k rule: parse_hex_from.induct) (auto split: option.splits)

lemma decode_rest_shorter: "decode_rest k val src = (v, rest) \<Longrightarrow> length rest \<le> length src"
  by (induction k val src rule: decode_rest.induct) (auto split: if_splits)

lemma parse_char_shorter: "parse_char src = Inr (v, rest) \<Longrightarrow> length rest < length src"
proof (cases src)
  case (Cons c cs)
  assume r: "parse_char src = Inr (v, rest)"
  show ?thesis
  proof (cases "c = 92")
    case True
    then show ?thesis using r Cons
      by (auto simp: parse_char_def parse_hex_def split: list.splits if_splits dest: parse_hex_shorter)
  next
    case False
    then have "decode_utf8_one src = (v, rest)" using r Cons by (simp add: parse_char_def)
    then have "length rest \<le> length cs"
      using decode_rest_shorter Cons by (auto simp: decode_utf8_one_def Let_def)
    then show ?thesis using Cons by simp
  qed
qed (simp add: parse_char_def)

section \<open>The parser's state\<close>

text \<open>\<open>symbol_ids\<close>, a map from names to ids: an association list without repeated names.\<close>

record grammar_parser =
  symbol_ids :: "(byte list \<times> nat) list"
  p_rules :: llama_grammar_rules

definition get_symbol_id :: "byte list \<Rightarrow> grammar_parser \<Rightarrow> nat \<times> grammar_parser" where
  "get_symbol_id name p =
     (case map_of (symbol_ids p) name of
        Some i \<Rightarrow> (i, p)
      | None \<Rightarrow> (length (symbol_ids p),
          p\<lparr>symbol_ids := AList.update name (length (symbol_ids p)) (symbol_ids p)\<rparr>))"

fun dec_digits :: "nat \<Rightarrow> byte list" where
  "dec_digits n = (if n < 10 then [48 + n] else dec_digits (n div 10) @ [48 + n mod 10])"

declare dec_digits.simps [simp del]

definition generate_symbol_id :: "byte list \<Rightarrow> grammar_parser \<Rightarrow> nat \<times> grammar_parser" where
  "generate_symbol_id base_name p =
     (let next_id = length (symbol_ids p)
      in (next_id, p\<lparr>symbol_ids := AList.update (base_name @ [95] @ dec_digits next_id) next_id (symbol_ids p)\<rparr>))"

definition add_rule :: "nat \<Rightarrow> llama_grammar_rule \<Rightarrow> grammar_parser \<Rightarrow> grammar_parser" where
  "add_rule rule_id rule p =
     (let rules = (if length (p_rules p) \<le> rule_id
                   then p_rules p @ replicate (rule_id + 1 - length (p_rules p)) [] else p_rules p)
      in p\<lparr>p_rules := rules[rule_id := rule]\<rparr>)"

section \<open>Repetitions\<close>

text \<open>
  The rewriting of the last symbol \<open>S\<close>, repeated from \<open>min_times\<close> to \<open>max_times\<close> times (negative: without
  bound): \<open>min_times\<close> copies, then a reference to the last of the generated rules, where each of them
  is \<open>S\<close>, the reference to the one before (to itself without bound), or nothing.
\<close>

definition rec_rule ::
  "llama_grammar_rule \<Rightarrow> bool \<Rightarrow> nat \<Rightarrow> llama_grammar_rule" where
  "rec_rule prev_rule again ref =
     prev_rule @ (if again then [gelem LLAMA_GRETYPE_RULE_REF ref] else [])
       @ [gelem LLAMA_GRETYPE_ALT 0, gelem LLAMA_GRETYPE_END 0]"

fun rep_rules ::
  "nat \<Rightarrow> nat \<Rightarrow> bool \<Rightarrow> byte list \<Rightarrow> llama_grammar_rule \<Rightarrow> nat \<Rightarrow> grammar_parser \<Rightarrow> nat \<times> grammar_parser"
where
  "rep_rules 0 i unbounded name prev_rule last_id p = (last_id, p)"
| "rep_rules (Suc n) i unbounded name prev_rule last_id p =
     (case generate_symbol_id name p of
        (sid, p1) \<Rightarrow>
          rep_rules n (Suc i) unbounded name prev_rule sid
            (add_rule sid (rec_rule prev_rule (i > 0 \<or> unbounded) (if unbounded then sid else last_id)) p1))"

definition handle_repetitions ::
  "int \<Rightarrow> int \<Rightarrow> byte list \<Rightarrow> nat \<Rightarrow> llama_grammar_rule \<Rightarrow> grammar_parser
    \<Rightarrow> parse_error + llama_grammar_rule \<times> grammar_parser"
where
  "handle_repetitions min_times max_times rule_name last_sym_start rule p =
     (if last_sym_start = length rule then Inl Expecting_Item
      else (let prev_rule = drop last_sym_start rule;
                rule1 = (if min_times = 0 then take last_sym_start rule
                         else rule @ concat (replicate (nat (min_times - 1)) prev_rule));
                n_opt = (if max_times < 0 then 1 else max_times - min_times)
            in case rep_rules (nat n_opt) 0 (max_times < 0) rule_name prev_rule 0 p of
                 (last_id, p1) \<Rightarrow>
                   Inr (rule1 @ (if n_opt > 0 then [gelem LLAMA_GRETYPE_RULE_REF last_id] else []), p1)))"

text \<open>\<open>{m}\<close>, \<open>{m,}\<close> and \<open>{m,n}\<close>, after the opening brace; a missing bound is -1.\<close>

definition parse_bounds :: "bool \<Rightarrow> byte list \<Rightarrow> parse_error + (int \<times> int) \<times> byte list" where
  "parse_bounds nested src =
     (let pos = parse_space nested src in
      if \<not> is_digit_char (peek pos) then Inl Expecting_Int
      else andthen (parse_int pos) (\<lambda>(ds, r1). andthen (stoul_int ds) (\<lambda>min_times.
        let pos1 = parse_space nested r1 in
        if peek pos1 = 125 then Inr ((min_times, min_times), parse_space nested (tl pos1))
        else if peek pos1 = 44
        then (let pos2 = parse_space nested (tl pos1) in
              andthen (if is_digit_char (peek pos2)
                       then andthen (parse_int pos2) (\<lambda>(ds2, r2).
                              andthen (stoul_int ds2) (\<lambda>m. Inr (m, parse_space nested r2)))
                       else Inr (-1, pos2))
                (\<lambda>(max_times, pos3).
                   if peek pos3 = 125 then Inr ((min_times, max_times), parse_space nested (tl pos3))
                   else Inl Expecting_Brace))
        else Inl Expecting_Comma)))"

section \<open>Literals and classes\<close>

text \<open>The characters of a literal, up to the closing quote.\<close>

function parse_literal :: "byte list \<Rightarrow> llama_grammar_rule \<Rightarrow> parse_error + llama_grammar_rule \<times> byte list" where
  "parse_literal src rule =
     (if peek src = 34 then Inr (rule, tl src)
      else if src = [] then Inl Unexpected_End
      else (case parse_char src of
              Inl e \<Rightarrow> Inl e
            | Inr (c, rest) \<Rightarrow> parse_literal rest (rule @ [gelem LLAMA_GRETYPE_CHAR c])))"
  by pat_completeness auto
termination
  by (relation "measure (\<lambda>(src, rule). length src)") (auto dest: parse_char_shorter)

declare parse_literal.simps [simp del]

text \<open>The end of a range, when one follows: \<open>-]\<close> is a minus and the closing bracket.\<close>

definition parse_upper :: "byte list \<Rightarrow> llama_grammar_rule \<Rightarrow> parse_error + llama_grammar_rule \<times> byte list" where
  "parse_upper pos rule =
     (if peek pos = 45 \<and> peek (tl pos) \<noteq> 93
      then if tl pos = [] then Inl Unexpected_End
           else andthen (parse_char (tl pos)) (\<lambda>(c, rest).
                  Inr (rule @ [gelem LLAMA_GRETYPE_CHAR_RNG_UPPER c], rest))
      else Inr (rule, pos))"

lemma parse_upper_shorter: "parse_upper pos rule = Inr (rule', rest) \<Longrightarrow> length rest \<le> length pos"
  by (auto simp: parse_upper_def andthen_def split: if_splits sum.splits dest!: parse_char_shorter)

function parse_class ::
  "nat \<Rightarrow> llama_gretype \<Rightarrow> byte list \<Rightarrow> llama_grammar_rule \<Rightarrow> parse_error + llama_grammar_rule \<times> byte list"
where
  "parse_class last_sym_start start_type src rule =
     (if peek src = 93 then Inr (rule, tl src)
      else if src = [] then Inl Unexpected_End
      else (case parse_char src of
              Inl e \<Rightarrow> Inl e
            | Inr (c, rest) \<Rightarrow>
                (case parse_upper rest (rule @ [gelem (if last_sym_start < length rule then LLAMA_GRETYPE_CHAR_ALT
                                                       else start_type) c]) of
                   Inl e \<Rightarrow> Inl e
                 | Inr (rule1, rest1) \<Rightarrow> parse_class last_sym_start start_type rest1 rule1)))"
  by pat_completeness auto
termination
  by (relation "measure (\<lambda>(ls, ty, src, rule). length src)")
    (auto dest!: parse_char_shorter parse_upper_shorter)

declare parse_class.simps [simp del]

section \<open>Sequences and alternates\<close>

text \<open>
  One round of the loop of \<open>parse_sequence\<close>: \<open>None\<close> is the \<open>break\<close>, otherwise the new start of the
  last symbol, the rest, the rule and the parser. \<open>alternates\<close> is the recursive call of a group.
\<close>

definition sequence_step ::
  "(nat \<Rightarrow> byte list \<Rightarrow> grammar_parser \<Rightarrow> parse_error + byte list \<times> grammar_parser)
    \<Rightarrow> bool \<Rightarrow> byte list \<Rightarrow> nat \<Rightarrow> byte list \<Rightarrow> llama_grammar_rule \<Rightarrow> grammar_parser
    \<Rightarrow> parse_error + (nat \<times> byte list \<times> llama_grammar_rule \<times> grammar_parser) option"
where
  "sequence_step alternates nested name last_start src rule p =
     (let c = peek src; cs = tl src; space = parse_space nested in
      if c = 34
      then andthen (parse_literal cs rule) (\<lambda>(rule1, rest). Inr (Some (length rule, space rest, rule1, p)))
      else if c = 91
      then andthen (if peek cs = 94 then parse_class (length rule) LLAMA_GRETYPE_CHAR_NOT (tl cs) rule
                    else parse_class (length rule) LLAMA_GRETYPE_CHAR cs rule)
             (\<lambda>(rule1, rest). Inr (Some (length rule, space rest, rule1, p)))
      else if is_word_char c
      then andthen (parse_name src) (\<lambda>(ref_name, rest).
             case get_symbol_id ref_name p of
               (sid, p1) \<Rightarrow>
                 Inr (Some (length rule, space rest, rule @ [gelem LLAMA_GRETYPE_RULE_REF sid], p1)))
      else if c = 40
      then (case generate_symbol_id name p of
              (sid, p1) \<Rightarrow>
                andthen (alternates sid (parse_space True cs) p1) (\<lambda>(pos, p2).
                  if peek pos = 41
                  then Inr (Some (length rule, space (tl pos), rule @ [gelem LLAMA_GRETYPE_RULE_REF sid], p2))
                  else Inl Expecting_Close))
      else if c = 46
      then Inr (Some (length rule, space cs, rule @ [gelem LLAMA_GRETYPE_CHAR_ANY 0], p))
      else if c = 42 \<or> c = 43 \<or> c = 63
      then andthen (handle_repetitions (if c = 43 then 1 else 0) (if c = 63 then 1 else -1) name last_start rule p)
             (\<lambda>(rule1, p1). Inr (Some (last_start, space cs, rule1, p1)))
      else if c = 123
      then andthen (parse_bounds nested cs) (\<lambda>((min_times, max_times), rest).
             andthen (handle_repetitions min_times max_times name last_start rule p) (\<lambda>(rule1, p1).
               Inr (Some (last_start, rest, rule1, p1))))
      else Inr None)"

fun parse_sequence ::
  "nat \<Rightarrow> bool \<Rightarrow> byte list \<Rightarrow> nat \<Rightarrow> byte list \<Rightarrow> llama_grammar_rule \<Rightarrow> grammar_parser
    \<Rightarrow> parse_error + byte list \<times> llama_grammar_rule \<times> grammar_parser"
and parse_more_alternates ::
  "nat \<Rightarrow> bool \<Rightarrow> byte list \<Rightarrow> byte list \<Rightarrow> llama_grammar_rule \<Rightarrow> grammar_parser
    \<Rightarrow> parse_error + byte list \<times> llama_grammar_rule \<times> grammar_parser"
and parse_alternates ::
  "nat \<Rightarrow> bool \<Rightarrow> byte list \<Rightarrow> nat \<Rightarrow> byte list \<Rightarrow> grammar_parser \<Rightarrow> parse_error + byte list \<times> grammar_parser"
where
  "parse_sequence 0 nested name last_start src rule p = Inl Spent"
| "parse_sequence (Suc fuel) nested name last_start src rule p =
     andthen (sequence_step (\<lambda>sid pos p1. parse_alternates fuel True name sid pos p1)
                nested name last_start src rule p)
       (\<lambda>r. case r of
          None \<Rightarrow> Inr (src, rule, p)
        | Some (last_start1, pos1, rule1, p1) \<Rightarrow> parse_sequence fuel nested name last_start1 pos1 rule1 p1)"
| "parse_more_alternates 0 nested name pos rule p = Inl Spent"
| "parse_more_alternates (Suc fuel) nested name pos rule p =
     (if peek pos = 124
      then (let rule1 = rule @ [gelem LLAMA_GRETYPE_ALT 0] in
            andthen (parse_sequence fuel nested name (length rule1) (parse_space True (tl pos)) rule1 p)
              (\<lambda>(pos1, rule2, p1). parse_more_alternates fuel nested name pos1 rule2 p1))
      else Inr (pos, rule, p))"
| "parse_alternates 0 nested name rule_id src p = Inl Spent"
| "parse_alternates (Suc fuel) nested name rule_id src p =
     andthen (parse_sequence fuel nested name 0 src [] p) (\<lambda>(pos, rule, p1).
       andthen (parse_more_alternates fuel nested name pos rule p1) (\<lambda>(pos1, rule1, p2).
         Inr (pos1, add_rule rule_id (rule1 @ [gelem LLAMA_GRETYPE_END 0]) p2)))"

section \<open>Rules and grammars\<close>

text \<open>The fuel: every call and every round of a loop but the innermost ones reads a byte.\<close>

definition parse_fuel :: "byte list \<Rightarrow> nat" where
  "parse_fuel src = 3 * length src + 3"

text \<open>A rule ends with its line or with the text.\<close>

definition end_of_rule :: "byte list \<Rightarrow> parse_error + byte list" where
  "end_of_rule pos =
     (if peek pos = 13 then Inr (if peek (tl pos) = 10 then drop 2 pos else tl pos)
      else if peek pos = 10 then Inr (tl pos)
      else if pos \<noteq> [] then Inl Expecting_Newline
      else Inr pos)"

definition parse_rule :: "byte list \<Rightarrow> grammar_parser \<Rightarrow> parse_error + byte list \<times> grammar_parser" where
  "parse_rule src p =
     andthen (parse_name src) (\<lambda>(name, name_end).
       let pos = parse_space False name_end in
       case get_symbol_id name p of
         (rule_id, p1) \<Rightarrow>
           if take 3 pos = [58, 58, 61]
           then (let body = parse_space True (drop 3 pos) in
                 andthen (parse_alternates (parse_fuel body) False name rule_id body p1) (\<lambda>(pos1, p2).
                   andthen (end_of_rule pos1) (\<lambda>pos2. Inr (parse_space True pos2, p2))))
           else Inl Expecting_Def)"

section \<open>Nothing is pushed back\<close>

lemma andthen_Inr [simp]: "andthen m f = Inr y \<longleftrightarrow> (\<exists>x. m = Inr x \<and> f x = Inr y)"
  by (cases m) (simp_all add: andthen_def)

lemma andthen_Inl: "andthen m f = Inl e \<longleftrightarrow> m = Inl e \<or> (\<exists>x. m = Inr x \<and> f x = Inl e)"
  by (cases m) (simp_all add: andthen_def)

lemma peek_Nil [simp]: "peek [] = 0" and peek_Cons [simp]: "peek (c # src) = c"
  by (simp_all add: peek_def)

lemma peek_neq_0: "peek src = c \<Longrightarrow> c \<noteq> 0 \<Longrightarrow> \<exists>cs. src = c # cs"
  by (cases src) auto

lemma parse_space_shorter: "length (parse_space nl src) \<le> length src"
proof (induction nl src rule: parse_space.induct)
  case (2 nl c src)
  have "length (dropWhile (\<lambda>d. \<not> is_newline d) src) \<le> length src" by (rule length_dropWhile_le)
  then show ?case using 2 by (auto intro: le_SucI order_trans)
qed simp

lemma parse_name_shorter: "parse_name src = Inr (name, rest) \<Longrightarrow> length rest < length src"
  by (cases src) (auto simp: parse_name_def Let_def length_dropWhile_le le_imp_less_Suc split: if_splits)

lemma parse_int_shorter: "parse_int src = Inr (ds, rest) \<Longrightarrow> length rest < length src"
  by (cases src) (auto simp: parse_int_def Let_def length_dropWhile_le le_imp_less_Suc split: if_splits)

lemma space_le: "length src \<le> n \<Longrightarrow> length (parse_space nl src) \<le> n"
  using parse_space_shorter le_trans by blast

lemma tl_le: "length src \<le> n \<Longrightarrow> length (tl src) \<le> n"
  by simp

lemma space_less: "n < length (parse_space nl src) \<Longrightarrow> n < length src"
  using parse_space_shorter [of nl src] by simp

lemma tl_less: "n < length (tl src) \<Longrightarrow> n < length src"
  by simp

lemma parse_bounds_shorter:
  "parse_bounds nested src = Inr (b, rest) \<Longrightarrow> length rest \<le> length src"
  by (auto simp: parse_bounds_def Let_def simp del: length_tl split: if_splits dest!: parse_int_shorter space_less tl_less
      intro!: space_le tl_le)

lemma parse_literal_shorter: "parse_literal src rule = Inr (rule', rest) \<Longrightarrow> length rest \<le> length src"
proof (induction src rule rule: parse_literal.induct)
  case (1 src rule)
  show ?case using 1(2) 
    by (subst (asm) parse_literal.simps)
      (auto split: if_splits sum.splits dest!: 1(1) dest: parse_char_shorter)
qed

lemma parse_class_shorter: "parse_class ls ty src rule = Inr (rule', rest) \<Longrightarrow> length rest \<le> length src"
proof (induction ls ty src rule rule: parse_class.induct)
  case (1 ls ty src rule)
  let ?ty = "if ls < length rule then LLAMA_GRETYPE_CHAR_ALT else ty"
  show ?case
  proof (cases "peek src = 93 \<or> src = []")
    case True
    then show ?thesis using 1(2) by (subst (asm) parse_class.simps) (auto split: if_splits)
  next
    case False
    then obtain c rest1 rule1 rest2 where pc: "parse_char src = Inr (c, rest1)"
      and pu: "parse_upper rest1 (rule @ [gelem ?ty c]) = Inr (rule1, rest2)" and r: "parse_class ls ty rest2 rule1 = Inr (rule', rest)"
      using 1(2) by (subst (asm) parse_class.simps) (auto split: sum.splits)
    have "length rest \<le> length rest2" using 1(1) [OF _ _ pc refl pu refl r] False by simp
    then show ?thesis using parse_char_shorter [OF pc] parse_upper_shorter [OF pu] by simp
  qed
qed

text \<open>What a round of the loop has read, case by case.\<close>

lemma sequence_step_cases:
  assumes "sequence_step alternates nested name ls src rule p = Inr (Some (ls', pos, rule', p'))"
  obtains
    (literal) cs rest where "src = 34 # cs" "parse_literal cs rule = Inr (rule', rest)" "pos = parse_space nested rest"
      "ls' = length rule" "p' = p"
  | (cls) cs ty cs' rest where "src = 91 # cs" "ty = LLAMA_GRETYPE_CHAR \<or> ty = LLAMA_GRETYPE_CHAR_NOT" "cs' = cs \<or> cs' = tl cs"
      "parse_class (length rule) ty cs' rule = Inr (rule', rest)" "pos = parse_space nested rest" "ls' = length rule" "p' = p"
  | (ref) ref_name rest sid where "parse_name src = Inr (ref_name, rest)" "get_symbol_id ref_name p = (sid, p')"
      "rule' = rule @ [gelem LLAMA_GRETYPE_RULE_REF sid]" "pos = parse_space nested rest" "ls' = length rule"
  | (group) cs sid p1 pos1 where "src = 40 # cs" "generate_symbol_id name p = (sid, p1)"
      "alternates sid (parse_space True cs) p1 = Inr (41 # pos1, p')"
      "rule' = rule @ [gelem LLAMA_GRETYPE_RULE_REF sid]" "pos = parse_space nested pos1" "ls' = length rule"
  | (any) cs where "src = 46 # cs" "rule' = rule @ [gelem LLAMA_GRETYPE_CHAR_ANY 0]" "pos = parse_space nested cs"
      "ls' = length rule" "p' = p"
  | (repeat) min_times max_times where "handle_repetitions min_times max_times name ls rule p = Inr (rule', p')" "ls' = ls"
      "length pos < length src"
proof (cases src)
  case Nil
  then show ?thesis using assms(1) by (simp add: sequence_step_def is_word_char_def is_digit_char_def)
next
  case (Cons c cs)
  note step = assms [unfolded sequence_step_def Let_def Cons peek_Cons list.sel]
  consider "c = 34" | "c = 91" | "c \<noteq> 34" "c \<noteq> 91" "is_word_char c" | "c = 40" | "c = 46" | "c = 42 \<or> c = 43 \<or> c = 63"
    | "c = 123"
    using step by (auto split: if_splits)
  then show ?thesis
  proof cases
    case 1
    then show ?thesis using step Cons literal by auto
  next
    case 2
    then show ?thesis using step Cons cls by (auto split: if_splits)
  next
    case 3
    then obtain ref_name rest where "parse_name src = Inr (ref_name, rest)" using step Cons by auto
    then show ?thesis using 3 step Cons ref by (cases "get_symbol_id ref_name p") auto
  next
    case 4
    obtain sid p1 where g: "generate_symbol_id name p = (sid, p1)" by fastforce
    then obtain pos0 p2 where a: "alternates sid (parse_space True cs) p1 = Inr (pos0, p2)" "peek pos0 = 41"
      and r: "ls' = length rule" "pos = parse_space nested (tl pos0)" "rule' = rule @ [gelem LLAMA_GRETYPE_RULE_REF sid]" "p' = p2"
      using step 4 by (auto simp: is_word_char_def is_digit_char_def split: if_splits)
    obtain pos1 where "pos0 = 41 # pos1" using peek_neq_0 [OF a(2)] by auto
    then show ?thesis using group [of cs sid p1 pos1] g a(1) r Cons 4 by simp
  next
    case 5
    then show ?thesis using step Cons any by (auto simp: is_word_char_def is_digit_char_def)
  next
    case 6
    have "length (parse_space nested cs) < length src" using Cons parse_space_shorter [of nested cs] by simp
    moreover have "c \<noteq> 34" "c \<noteq> 91" "\<not> is_word_char c" "c \<noteq> 40" "c \<noteq> 46"
      using 6 by (elim disjE; simp add: is_word_char_def is_digit_char_def)+
    then have "handle_repetitions (if c = 43 then 1 else 0) (if c = 63 then 1 else -1) name ls rule p = Inr (rule', p')"
      "ls' = ls" "pos = parse_space nested cs"
      using step 6 by (simp_all only: if_False if_True) auto
    ultimately show ?thesis using repeat by blast
  next
    case 7
    then obtain mn mx where b: "parse_bounds nested cs = Inr ((mn, mx), pos)" and h: "handle_repetitions mn mx name ls rule p = Inr (rule', p')"
      and "ls' = ls" using step by (auto simp: is_word_char_def is_digit_char_def)
    then show ?thesis using repeat [OF h] parse_bounds_shorter [OF b] Cons by simp
  qed
qed

lemma sequence_step_shorter:
  assumes "sequence_step alternates nested name ls src rule p = Inr (Some (ls', pos, rule', p'))"
    "\<And>sid s q s' q'. alternates sid s q = Inr (s', q') \<Longrightarrow> length s' \<le> length s"
  shows "length pos < length src"
  using assms(1)
proof (cases rule: sequence_step_cases)
  case (literal cs rest)
  then show ?thesis using parse_literal_shorter space_le by (metis le_imp_less_Suc length_Cons)
next
  case (cls cs ty cs' rest)
  have "length cs' \<le> length cs" using cls(3) by auto
  then have "length rest \<le> length cs" using parse_class_shorter [OF cls(4)] by simp
  then show ?thesis using cls space_le by (metis le_imp_less_Suc length_Cons)
next
  case (ref ref_name rest sid)
  then show ?thesis using parse_name_shorter parse_space_shorter by (metis le_less_trans)
next
  case (group cs sid p1 pos1)
  have "length (41 # pos1) \<le> length cs" using assms(2) [OF group(3)] parse_space_shorter le_trans by blast
  then have "length pos \<le> length cs" unfolding group by (intro space_le) simp
  then show ?thesis using group by simp
next
  case (any cs)
  then show ?thesis using parse_space_shorter by (simp add: le_imp_less_Suc)
next
  case (repeat min_times max_times)
  then show ?thesis by simp
qed

lemma parse_alternates_shorter:
  "parse_sequence fuel nested name ls src rule p = Inr (pos, rule', p') \<Longrightarrow> length pos \<le> length src"
  "parse_more_alternates fuel nested name src rule p = Inr (pos, rule', p') \<Longrightarrow> length pos \<le> length src"
  "parse_alternates fuel nested name rule_id src p = Inr (pos, p') \<Longrightarrow> length pos \<le> length src"
proof (induction fuel nested name ls src rule p and fuel nested name src rule p and fuel nested name rule_id src p
    arbitrary: pos rule' p' and pos rule' p' and pos p'
    rule: parse_sequence_parse_more_alternates_parse_alternates.induct)
  case (2 fuel nested name ls src rule p)
  then show ?case
    by (auto split: option.splits prod.splits dest!: sequence_step_shorter) (meson le_trans less_imp_le_nat)+
next
  case (4 fuel nested name src rule p)
  then show ?case by (auto simp: Let_def split: if_splits) (meson le_trans space_le tl_le order_refl)+
next
  case (6 fuel nested name rule_id src p)
  then show ?case by auto (meson le_trans)
qed simp_all

lemma parse_rule_shorter: "parse_rule src p = Inr (rest, p') \<Longrightarrow> length rest < length src"
proof -
  assume r: "parse_rule src p = Inr (rest, p')"
  then obtain name name_end where n: "parse_name src = Inr (name, name_end)" by (auto simp: parse_rule_def)
  obtain rule_id p1 where g: "get_symbol_id name p = (rule_id, p1)" by fastforce
  let ?body = "parse_space True (drop 3 (parse_space False name_end))"
  obtain pos1 pos2 where a: "parse_alternates (parse_fuel ?body) False name rule_id ?body p1 = Inr (pos1, p')"
    and e: "end_of_rule pos1 = Inr pos2" and rest: "rest = parse_space True pos2"
    using r n g by (auto simp: parse_rule_def Let_def split: if_splits)
  have "length rest \<le> length pos1" using e unfolding rest by (intro space_le) (auto simp: end_of_rule_def split: if_splits)
  moreover have "length ?body \<le> length name_end" by (intro space_le) (simp add: parse_space_shorter le_diff_conv trans_le_add1)
  ultimately show ?thesis using parse_alternates_shorter(3) [OF a] parse_name_shorter [OF n] by simp
qed

section \<open>The whole grammar\<close>

function parse_rules :: "byte list \<Rightarrow> grammar_parser \<Rightarrow> parse_error + grammar_parser" where
  "parse_rules pos p =
     (if pos = [] then Inr p
      else (case parse_rule pos p of Inl e \<Rightarrow> Inl e | Inr (rest, p1) \<Rightarrow> parse_rules rest p1))"
  by pat_completeness auto
termination
  by (relation "measure (\<lambda>(pos, p). length pos)") (auto dest: parse_rule_shorter)

declare parse_rules.simps [simp del]

text \<open>
  The check that every rule is defined. A reference to a rule that does not exist is only an error if
  some name has its id.
\<close>

definition undefined_ref :: "grammar_parser \<Rightarrow> llama_grammar_element \<Rightarrow> bool" where
  "undefined_ref p e = (e_type e = LLAMA_GRETYPE_RULE_REF
     \<and> (e_value e \<ge> length (p_rules p) \<or> p_rules p ! e_value e = []))"

fun check_elements :: "grammar_parser \<Rightarrow> llama_grammar_rule \<Rightarrow> parse_error option" where
  "check_elements p [] = None"
| "check_elements p (e # es) =
     (if undefined_ref p e
      then (case find (\<lambda>kv. snd kv = e_value e) (symbol_ids p) of
              Some kv \<Rightarrow> Some (Undefined_Identifier (fst kv))
            | None \<Rightarrow> check_elements p es)
      else check_elements p es)"

fun check_rules :: "grammar_parser \<Rightarrow> llama_grammar_rules \<Rightarrow> parse_error option" where
  "check_rules p [] = None"
| "check_rules p (r # rs) =
     (if r = [] then Some Undefined_Rule
      else (case check_elements p r of Some e \<Rightarrow> Some e | None \<Rightarrow> check_rules p rs))"

definition gbnf_parse :: "byte list \<Rightarrow> parse_error + grammar_parser" where
  "gbnf_parse src =
     andthen (parse_rules (parse_space True src) \<lparr>symbol_ids = [], p_rules = []\<rparr>) (\<lambda>p.
       case check_rules p (p_rules p) of Some e \<Rightarrow> Inl e | None \<Rightarrow> Inr p)"

text \<open>
  A grammar from its text. The outcomes: the null pointer (the text does not parse, there is no \<open>root\<close>,
  or the grammar is left recursive), the exception of \<open>symbol_ids.at\<close>, or the grammar. \<open>None\<close> is a read
  outside the rules, or the recursion that does not return.
\<close>

datatype init_result = Init_Null | Init_Out_Of_Range | Init_Grammar llama_grammar

definition root_name :: "byte list" where
  "root_name = [114, 111, 111, 116]"

definition llama_grammar_init_str ::
  "nat \<Rightarrow> vocab_calls \<Rightarrow> ollama_vocab option \<Rightarrow> byte list \<Rightarrow> byte list \<Rightarrow> bool
    \<Rightarrow> (byte list \<Rightarrow> nat option) list \<Rightarrow> nat list \<Rightarrow> init_result option"
where
  "llama_grammar_init_str fuel vocab o_vocab grammar_str grammar_root lazy patterns tokens =
     (case gbnf_parse grammar_str of
        Inl _ \<Rightarrow> Some Init_Null
      | Inr parser \<Rightarrow>
          if p_rules parser = [] then Some Init_Null
          else if map_of (symbol_ids parser) root_name = None then Some Init_Null
          else (case map_of (symbol_ids parser) grammar_root of
                  None \<Rightarrow> Some Init_Out_Of_Range
                | Some start_rule_index \<Rightarrow>
                    (case llama_grammar_init_rules fuel vocab o_vocab (p_rules parser) start_rule_index of
                       None \<Rightarrow> None
                     | Some None \<Rightarrow> Some Init_Null
                     | Some (Some g) \<Rightarrow> Some (Init_Grammar (g\<lparr>g_lazy := lazy, g_awaiting_trigger := lazy,
                         g_trigger_tokens := tokens, g_trigger_patterns := patterns\<rparr>)))))"

end
