(* ===== verification/LeftRec.thy ===== *)
theory LeftRec
  imports GrammarTerm
begin

text \<open>
  The left-recursion check of the grammar engine: it returns on every well-formed set of rules, and it is
  sound where emptiness is visible: when no rule that is empty only through other rules hides a reference
  behind it, a grammar that passes the check has no left recursion, so the engine returns on it.
\<close>

section \<open>The detector returns\<close>

definition lr_sized :: "nat \<Rightarrow> lr_state \<Rightarrow> bool" where
  "lr_sized n st = (length (rules_visited st) = n \<and> length (rules_in_progress st) = n \<and> length (rules_may_be_empty st) = n)"

definition idle :: "lr_state \<Rightarrow> nat" where
  "idle st = length (filter Not (rules_in_progress st))"

lemma idle_update:
  "i < length bs \<Longrightarrow> \<not> bs ! i \<Longrightarrow> length (filter Not bs) = Suc (length (filter Not (bs[i := True])))"
proof (induction bs arbitrary: i)
  case (Cons b bs)
  then show ?case by (cases i) auto
qed simp

text \<open>A result without a left recursion leaves the progress marks as they were.\<close>

definition lr_returns :: "nat \<Rightarrow> lr_state \<Rightarrow> (bool \<times> lr_state) option \<Rightarrow> bool" where
  "lr_returns n st res = (\<exists>found st'. res = Some (found, st') \<and> lr_sized n st'
     \<and> (\<not> found \<longrightarrow> rules_in_progress st' = rules_in_progress st))"

lemma lr_returns_Some [simp]:
  "lr_returns n st (Some (found, st')) \<longleftrightarrow>
     lr_sized n st' \<and> (\<not> found \<longrightarrow> rules_in_progress st' = rules_in_progress st)"
  by (simp add: lr_returns_def)

lemma lr_elements_returns:
  assumes "\<And>r s. r < n \<Longrightarrow> lr_sized n s \<Longrightarrow> rules_in_progress s = ip \<Longrightarrow> lr_returns n s (detect r s)"
  shows "items_ok n m es \<Longrightarrow> lr_sized n st \<Longrightarrow> rules_in_progress st = ip \<Longrightarrow> lr_returns n st (lr_elements detect es recurse st)"
proof (induction es arbitrary: m recurse st)
  case (Cons e es)
  have rest: "lr_returns n s (lr_elements detect es b s)" if "lr_sized n s" "rules_in_progress s = ip" for b s
  proof (cases "es = []")
    case True
    then show ?thesis using that by simp
  next
    case False
    then obtain m' where "items_ok n m' es" using Cons.prems(1) by (auto split: llama_gretype.splits)
    from Cons.IH [OF this that] show ?thesis .
  qed
  show ?case
  proof (cases "e_type e = LLAMA_GRETYPE_RULE_REF \<and> recurse")
    case True
    then have "e_value e < n" using Cons.prems(1) by simp
    then obtain found st1 where d: "detect (e_value e) st = Some (found, st1)" "lr_sized n st1"
      "\<not> found \<longrightarrow> rules_in_progress st1 = rules_in_progress st"
      using assms [of "e_value e" st] Cons.prems(2,3) by (auto simp: lr_returns_def)
    then show ?thesis using True rest [of st1] Cons.prems(3) by (cases found) (auto simp: lr_returns_def)
  next
    case False
    then show ?thesis using rest [OF Cons.prems(2,3)] by auto
  qed
qed simp

lemma detect_returns:
  assumes ok: "rules_ok rules"
  shows "r < length rules \<Longrightarrow> lr_sized (length rules) st \<Longrightarrow> idle st < f \<Longrightarrow>
    lr_returns (length rules) st (llama_grammar_detect_left_recursion f rules r st)"
proof (induction f arbitrary: r st)
  case (Suc f)
  show ?case
  proof (cases "rules_in_progress st ! r")
    case True
    then show ?thesis using Suc.prems by simp
  next
    case False
    let ?ip = "(rules_in_progress st)[r := True]"
    define st2 where "st2 = (let st1 = st\<lparr>rules_in_progress := ?ip\<rparr> in
       if has_empty_alternate (rules ! r) True
       then st1\<lparr>rules_may_be_empty := (rules_may_be_empty st1)[r := True]\<rparr> else st1)"
    have s2: "lr_sized (length rules) st2" "rules_in_progress st2 = ?ip"
      using Suc.prems(2) by (auto simp: st2_def Let_def lr_sized_def)
    have "idle st = Suc (length (filter Not ?ip))"
      unfolding idle_def by (rule idle_update) (use Suc.prems False in \<open>auto simp: lr_sized_def\<close>)
    then have "lr_returns (length rules) s (llama_grammar_detect_left_recursion f rules q s)"
      if "q < length rules" "lr_sized (length rules) s" "rules_in_progress s = ?ip" for q s
      using Suc.IH [OF that(1,2)] Suc.prems(3) that(3) by (simp add: idle_def)
    moreover have "items_ok (length rules) 0 (rules ! r)" using ok Suc.prems(1) by (simp add: rules_ok_def)
    ultimately have "lr_returns (length rules) st2
      (lr_elements (\<lambda>r s. llama_grammar_detect_left_recursion f rules r s) (rules ! r) True st2)"
      using lr_elements_returns s2 by blast
    then obtain found st3 where l: "lr_elements (\<lambda>r s. llama_grammar_detect_left_recursion f rules r s) (rules ! r) True st2
        = Some (found, st3)" "lr_sized (length rules) st3" "\<not> found \<longrightarrow> rules_in_progress st3 = ?ip"
      using s2 by (auto simp: lr_returns_def)
    have restored: "?ip[r := False] = rules_in_progress st" using False by (metis list_update_id list_update_overwrite)
    have "llama_grammar_detect_left_recursion (Suc f) rules r st =
        (if found then Some (True, st3)
         else Some (False, st3\<lparr>rules_in_progress := (rules_in_progress st3)[r := False],
                               rules_visited := (rules_visited st3)[r := True]\<rparr>))"
      using Suc.prems(1) False l(1) by (simp add: st2_def Let_def)
    then show ?thesis using l(2,3) restored by (cases found) (auto simp: lr_returns_def lr_sized_def)
  qed
qed simp

lemma lr_all_returns:
  assumes "rules_ok rules" "length rules < f"
  shows "\<forall>i\<in>set ids. i < length rules \<Longrightarrow> lr_sized (length rules) st \<Longrightarrow> lr_returns (length rules) st (lr_all f rules ids st)"
proof (induction ids arbitrary: st)
  case (Cons i js)
  show ?case
  proof (cases "rules_visited st ! i")
    case False
    have "idle st \<le> length rules" using Cons.prems(2) length_filter_le [of Not "rules_in_progress st"] by (simp add: idle_def lr_sized_def)
    then obtain found st1 where d: "llama_grammar_detect_left_recursion f rules i st = Some (found, st1)"
      "lr_sized (length rules) st1" "\<not> found \<longrightarrow> rules_in_progress st1 = rules_in_progress st"
      using detect_returns [OF assms(1), of i st f] Cons.prems assms(2) by (auto simp: lr_returns_def)
    then show ?thesis using False Cons.IH [of st1] Cons.prems(1) by (cases found) (auto simp: lr_returns_def)
  qed (use Cons in simp)
qed simp

theorem check_left_recursion_returns:
  assumes "rules_ok rules" "length rules < f"
  shows "\<exists>b. check_left_recursion f rules = Some b"
  using lr_all_returns [OF assms, of "[0..<length rules]" "lr_start (length rules)"]
  by (auto simp: check_left_recursion_def lr_returns_def lr_sized_def lr_start_def)

section \<open>What the detector has seen\<close>

text \<open>The rules with a literally empty alternate, which are those the detector marks.\<close>

definition plainly_empty :: "llama_grammar_rules \<Rightarrow> nat set" where
  "plainly_empty rules = {r. r < length rules \<and> has_empty_alternate (rules ! r) True}"

text \<open>
  The rules in \<open>N\<close> include every rule that can be empty.
\<close>

definition empty_closed :: "nat set \<Rightarrow> llama_grammar_rules \<Rightarrow> bool" where
  "empty_closed N rules = (\<forall>r<length rules. \<forall>i\<in>set (case alt_starts (rules ! r) of Some starts \<Rightarrow> starts | None \<Rightarrow> []).
     null_suffix N (drop i (rules ! r)) \<longrightarrow> r \<in> N)"

text \<open>
  Emptiness is visible where it matters: in a leading position, a reference to a rule that is empty only
  through other rules (in \<open>N\<close>, but not in \<open>E\<close>) is not followed by another reference.
\<close>

fun visible_leads :: "nat set \<Rightarrow> nat set \<Rightarrow> llama_grammar_rule \<Rightarrow> bool" where
  "visible_leads N E [] = True"
| "visible_leads N E (e # es) =
     (if e_type e = LLAMA_GRETYPE_RULE_REF
      then if e_value e \<in> E then visible_leads N E es
           else e_value e \<in> N \<longrightarrow> (case es of [] \<Rightarrow> True | e' # _ \<Rightarrow> e_type e' \<noteq> LLAMA_GRETYPE_RULE_REF)
      else True)"

definition visible_empty :: "nat set \<Rightarrow> llama_grammar_rules \<Rightarrow> bool" where
  "visible_empty N rules = (\<forall>r<length rules. \<forall>i\<in>set (case alt_starts (rules ! r) of Some starts \<Rightarrow> starts | None \<Rightarrow> []).
     visible_leads N (plainly_empty rules) (drop i (rules ! r)))"

text \<open>\<open>Q\<close> holds of every reference in a leading position, over all the alternates.\<close>

fun leads :: "nat set \<Rightarrow> (nat \<Rightarrow> bool) \<Rightarrow> bool \<Rightarrow> llama_grammar_rule \<Rightarrow> bool" where
  "leads N Q recurse [] = True"
| "leads N Q recurse (e # es) =
     (if e_type e = LLAMA_GRETYPE_RULE_REF \<and> recurse
      then Q (e_value e) \<and> leads N Q (e_value e \<in> N) es
      else leads N Q (is_end_of_sequence e) es)"

lemma lead_ok_no_ref: "(case es of [] \<Rightarrow> True | e # _ \<Rightarrow> e_type e \<noteq> LLAMA_GRETYPE_RULE_REF) \<Longrightarrow> lead_ok N rk k es"
  by (cases es) auto

lemma leads_lead_ok: "leads E (\<lambda>v. rk v < k) True es \<Longrightarrow> visible_leads N E es \<Longrightarrow> lead_ok N rk k es"
  by (induction es) (auto simp: is_end_of_sequence_def intro: lead_ok_no_ref split: if_splits)

lemma leads_alternates:
  "leads N Q b es \<Longrightarrow> alt_starts_from es i = Some starts \<Longrightarrow> j \<in> set starts \<Longrightarrow> i < j \<and> leads N Q True (drop (j - i) es)"
proof (induction es arbitrary: b i starts)
  case (Cons e es)
  have sub: "i < j \<and> leads N Q True (drop (j - i) (e # es))"
    if "leads N Q b' es" "alt_starts_from es (i + 1) = Some st" "j \<in> set st" for b' st
  proof -
    have "i + 1 < j" "leads N Q True (drop (j - (i + 1)) es)" using Cons.IH [OF that] by auto
    moreover from this have "j - i = Suc (j - (i + 1))" by simp
    ultimately show ?thesis by simp
  qed
  obtain b' where b': "leads N Q b' es" using Cons.prems(1) by (auto split: if_splits)
  show ?case
  proof (cases "e_type e")
    case LLAMA_GRETYPE_ALT
    then obtain st where st: "alt_starts_from es (i + 1) = Some st" "starts = (i + 1) # st" using Cons.prems(2) by auto
    have "leads N Q True es" using Cons.prems(1) LLAMA_GRETYPE_ALT by (simp add: is_end_of_sequence_def)
    then show ?thesis using st Cons.prems(3) sub [OF b' st(1)] by auto
  qed (use Cons.prems sub [OF b'] in auto)
qed simp

lemma leads_starts:
  assumes "leads E (\<lambda>v. rk v < k) True r" "alt_starts r = Some starts" "i \<in> set starts"
    "visible_leads N E (drop i r)"
  shows "lead_ok N rk k (drop i r)"
  using assms leads_alternates [of E "\<lambda>v. rk v < k" True r 0] leads_lead_ok by (fastforce simp: alt_starts_def)

text \<open>The references in leading positions all lead to rules that are well-founded within fewer steps.\<close>

fun founded :: "llama_grammar_rules \<Rightarrow> nat \<Rightarrow> nat \<Rightarrow> bool" where
  "founded rules 0 r = False"
| "founded rules (Suc f) r = leads (plainly_empty rules) (founded rules f) True (rules ! r)"

text \<open>The marks are right: only rules with an empty alternate are marked, and the visited rules are well-founded.\<close>

definition marks_ok :: "llama_grammar_rules \<Rightarrow> lr_state \<Rightarrow> bool" where
  "marks_ok rules st = (lr_sized (length rules) st
     \<and> (\<forall>r<length rules. rules_may_be_empty st ! r \<longrightarrow> r \<in> plainly_empty rules)
     \<and> (\<forall>r<length rules. rules_visited st ! r \<longrightarrow> (\<exists>f. founded rules f r)))"

lemma leads_cong: "leads N Q b es \<Longrightarrow> (\<And>v. Q v \<Longrightarrow> Q' v) \<Longrightarrow> leads N Q' b es"
  by (induction es arbitrary: b) (auto split: if_splits)

lemma lr_elements_found:
  assumes "\<And>r s s'. r < length rules \<Longrightarrow> marks_ok rules s \<Longrightarrow> detect r s = Some (False, s') \<Longrightarrow>
      Q r \<and> marks_ok rules s' \<and> (r \<in> plainly_empty rules \<longrightarrow> rules_may_be_empty s' ! r)"
  shows "lr_elements detect es recurse st = Some (False, st') \<Longrightarrow> items_ok (length rules) m es \<Longrightarrow> marks_ok rules st \<Longrightarrow>
    leads (plainly_empty rules) Q recurse es \<and> marks_ok rules st'"
proof (induction es arbitrary: recurse st m)
  case (Cons e es)
  show ?case
  proof (cases "es = []")
    case True
    then show ?thesis using Cons.prems by (auto split: if_splits bind_splits llama_gretype.splits)
  next
    case False
    then obtain m' where m': "items_ok (length rules) m' es" using Cons.prems(2) by (auto split: llama_gretype.splits)
    show ?thesis
    proof (cases "e_type e = LLAMA_GRETYPE_RULE_REF \<and> recurse")
      case True
      then obtain st1 where d: "detect (e_value e) st = Some (False, st1)"
        and r: "lr_elements detect es (rules_may_be_empty st1 ! e_value e) st1 = Some (False, st')"
        using Cons.prems(1) by (auto split: bind_splits if_splits)
      have v: "e_value e < length rules" using True Cons.prems(2) by simp
      note a = assms [OF v Cons.prems(3) d]
      then have "rules_may_be_empty st1 ! e_value e \<longleftrightarrow> e_value e \<in> plainly_empty rules" using v by (auto simp: marks_ok_def)
      then show ?thesis using Cons.IH [OF r m'] a True by simp
    next
      case False
      then show ?thesis using Cons.IH [OF _ m' Cons.prems(3)] Cons.prems(1) by (auto split: if_splits)
    qed
  qed
qed simp

text \<open>A mark is never taken back.\<close>

lemma lr_elements_marks:
  assumes "\<And>r s b s'. detect r s = Some (b, s') \<Longrightarrow> rules_may_be_empty s ! q \<Longrightarrow> rules_may_be_empty s' ! q"
  shows "lr_elements detect es recurse st = Some (b, st') \<Longrightarrow> rules_may_be_empty st ! q \<Longrightarrow> rules_may_be_empty st' ! q"
proof (induction es arbitrary: recurse st)
  case (Cons e es)
  then show ?case by (auto split: if_splits bind_splits dest: assms)
qed simp

lemma detect_marks:
  "llama_grammar_detect_left_recursion f rules r st = Some (b, st') \<Longrightarrow> rules_may_be_empty st ! q \<Longrightarrow> rules_may_be_empty st' ! q"
proof (induction f arbitrary: r st b st')
  case (Suc f)
  have mark: "(rules_may_be_empty st)[r := True] ! q"
    using Suc.prems(2) by (cases "r < length (rules_may_be_empty st)") (auto simp: nth_list_update list_update_beyond)
  have "rules_may_be_empty st3 ! q" if "lr_elements (\<lambda>r s. llama_grammar_detect_left_recursion f rules r s) es True s2 = Some (found, st3)"
    "rules_may_be_empty s2 ! q" for es s2 st3 found
    by (rule lr_elements_marks [OF _ that]) (rule Suc.IH)
  then show ?case using Suc.prems mark by (auto simp: Let_def split: if_splits bind_splits)
qed simp

lemma detect_founded:
  assumes ok: "rules_ok rules"
  shows "llama_grammar_detect_left_recursion f rules r st = Some (False, st') \<Longrightarrow> r < length rules \<Longrightarrow> marks_ok rules st \<Longrightarrow>
    founded rules f r \<and> marks_ok rules st' \<and> (r \<in> plainly_empty rules \<longrightarrow> rules_may_be_empty st' ! r)"
proof (induction f arbitrary: r st st')
  case (Suc f)
  define st1 where "st1 = st\<lparr>rules_in_progress := (rules_in_progress st)[r := True]\<rparr>"
  define st2 where "st2 = (if has_empty_alternate (rules ! r) True
    then st1\<lparr>rules_may_be_empty := (rules_may_be_empty st1)[r := True]\<rparr> else st1)"
  let ?detect = "\<lambda>r s. llama_grammar_detect_left_recursion f rules r s"
  obtain st3 where l: "lr_elements ?detect (rules ! r) True st2 = Some (False, st3)"
    and st': "st' = st3\<lparr>rules_in_progress := (rules_in_progress st3)[r := False], rules_visited := (rules_visited st3)[r := True]\<rparr>"
    using Suc.prems(1,2) by (auto simp: st2_def st1_def Let_def split: if_splits bind_splits)
  have m2: "marks_ok rules st2" "r \<in> plainly_empty rules \<longrightarrow> rules_may_be_empty st2 ! r"
    using Suc.prems(2,3) by (auto simp: st2_def st1_def marks_ok_def lr_sized_def plainly_empty_def nth_list_update)
  have ok_r: "items_ok (length rules) 0 (rules ! r)" using ok Suc.prems(2) by (simp add: rules_ok_def)
  have fnd: "founded rules f q \<and> marks_ok rules s' \<and> (q \<in> plainly_empty rules \<longrightarrow> rules_may_be_empty s' ! q)"
    if "q < length rules" "marks_ok rules s" "?detect q s = Some (False, s')" for q s s'
    using Suc.IH [OF that(3,1,2)] .
  from lr_elements_found [OF fnd l ok_r m2(1)]
  have "founded rules (Suc f) r" "marks_ok rules st3" by auto
  moreover have "r \<in> plainly_empty rules \<longrightarrow> rules_may_be_empty st3 ! r"
    using lr_elements_marks [OF _ l] m2(2) detect_marks by metis
  moreover have "\<exists>g. founded rules g q" if "q < length rules" "rules_visited st' ! q" for q
    using that calculation(1,2) st' by (cases "q = r") (blast, simp add: marks_ok_def del: founded.simps)
  then have "marks_ok rules st'" using calculation(2) unfolding st' by (simp add: marks_ok_def lr_sized_def del: founded.simps)
  ultimately show ?case by (simp add: st')
qed simp

lemma lr_all_founded:
  assumes ok: "rules_ok rules"
  shows "lr_all f rules ids st = Some (False, st') \<Longrightarrow> \<forall>i\<in>set ids. i < length rules \<Longrightarrow> marks_ok rules st \<Longrightarrow>
    \<forall>i\<in>set ids. \<exists>g. founded rules g i"
proof (induction ids arbitrary: st)
  case (Cons i js)
  show ?case
  proof (cases "rules_visited st ! i")
    case True
    then show ?thesis using Cons by (auto simp: marks_ok_def)
  next
    case False
    then obtain st1 where d: "llama_grammar_detect_left_recursion f rules i st = Some (False, st1)"
      and r: "lr_all f rules js st1 = Some (False, st')"
      using Cons.prems(1) by (auto split: bind_splits if_splits)
    from detect_founded [OF ok d] Cons.prems(2,3) have "founded rules f i" "marks_ok rules st1" by auto
    then show ?thesis using Cons.IH [OF r] Cons.prems(2) by auto
  qed
qed simp

section \<open>Soundness\<close>

text \<open>The least number of steps is a rank.\<close>

definition founded_rank :: "llama_grammar_rules \<Rightarrow> nat \<Rightarrow> nat" where
  "founded_rank rules r = (LEAST f. founded rules f r)"

lemma founded_rank_less:
  assumes "founded rules g r"
  shows "leads (plainly_empty rules) (\<lambda>v. founded_rank rules v < founded_rank rules r) True (rules ! r)"
proof -
  have f: "founded rules (founded_rank rules r) r" unfolding founded_rank_def using assms by (rule LeastI)
  then obtain f' where f': "founded_rank rules r = Suc f'" by (cases "founded_rank rules r") auto
  have "founded_rank rules v < founded_rank rules r" if "founded rules f' v" for v
    using Least_le [of "\<lambda>f. founded rules f v", OF that] f' by (simp add: founded_rank_def)
  then show ?thesis using f f' by (auto elim: leads_cong)
qed

theorem check_left_recursion_sound:
  assumes "rules_ok rules" "empty_closed N rules" "visible_empty N rules" "check_left_recursion f rules = Some False"
  shows "left_ranked N (founded_rank rules) rules"
proof -
  have start: "marks_ok rules (lr_start (length rules))" by (simp add: marks_ok_def lr_sized_def lr_start_def)
  obtain st' where "lr_all f rules [0..<length rules] (lr_start (length rules)) = Some (False, st')"
    using assms(4) by (auto simp: check_left_recursion_def)
  from lr_all_founded [OF assms(1) this _ start] have f: "\<forall>r<length rules. \<exists>g. founded rules g r" by simp
  have "lead_ok N (founded_rank rules) (founded_rank rules r) (drop i (rules ! r))"
    if r: "r < length rules" and i: "i \<in> set (case alt_starts (rules ! r) of Some starts \<Rightarrow> starts | None \<Rightarrow> [])" for r i
  proof -
    have "visible_leads N (plainly_empty rules) (drop i (rules ! r))" using assms(3) r i by (simp add: visible_empty_def)
    moreover obtain starts where "alt_starts (rules ! r) = Some starts" "i \<in> set starts"
      using i by (cases "alt_starts (rules ! r)") auto
    moreover obtain g where "founded rules g r" using f r by blast
    ultimately show ?thesis using leads_starts [OF founded_rank_less] by blast
  qed
  then show ?thesis using assms(2) unfolding left_ranked_def empty_closed_def by blast
qed

end
