(* ===== verification/GbnfOk.thy ===== *)
theory GbnfOk
  imports Gbnf LeftRec
begin

text \<open>
  What the parser of grammars guarantees: it returns on every text, and the rules of a grammar it accepts
  are well-formed, so that no read of the engine leaves them. On the way: symbol ids are dense and
  injective, the generated names are fresh, and a rule under construction is a sequence of items.
\<close>

section \<open>The parser returns\<close>

lemma parse_hex_not_Spent: "parse_hex_from val src k \<noteq> Inl Spent"
  by (induction val src k rule: parse_hex_from.induct) (auto split: option.splits)

lemma parse_char_not_Spent: "parse_char src \<noteq> Inl Spent"
  by (auto simp: parse_char_def parse_hex_def parse_hex_not_Spent split: list.splits)

lemma parse_literal_not_Spent: "parse_literal src rule \<noteq> Inl Spent"
proof (induction src rule rule: parse_literal.induct)
  case (1 src rule)
  then show ?case by (subst parse_literal.simps) (auto split: sum.splits simp: parse_char_not_Spent)
qed

lemma parse_upper_not_Spent: "parse_upper pos rule \<noteq> Inl Spent"
  by (auto simp: parse_upper_def andthen_Inl parse_char_not_Spent)

lemma parse_class_not_Spent: "parse_class ls ty src rule \<noteq> Inl Spent"
proof (induction ls ty src rule rule: parse_class.induct)
  case (1 ls ty src rule)
  then show ?case by (subst parse_class.simps) (auto split: sum.splits simp: parse_char_not_Spent parse_upper_not_Spent)
qed

lemma parse_name_not_Spent: "parse_name src \<noteq> Inl Spent"
  by (simp add: parse_name_def Let_def)

lemma parse_bounds_not_Spent: "parse_bounds nested src \<noteq> Inl Spent"
  by (auto simp: parse_bounds_def Let_def andthen_Inl parse_int_def stoul_int_def)

lemma handle_repetitions_not_Spent: "handle_repetitions mn mx name ls rule p \<noteq> Inl Spent"
  by (auto simp: handle_repetitions_def Let_def split: prod.splits)

lemmas not_Spent = parse_literal_not_Spent parse_class_not_Spent parse_name_not_Spent parse_bounds_not_Spent
  handle_repetitions_not_Spent

text \<open>A round of the loop runs out of fuel only in the alternates of a group.\<close>

lemma sequence_step_Spent:
  assumes "sequence_step alternates nested name ls src rule p = Inl Spent"
  shows "\<exists>sid s q. alternates sid s q = Inl Spent \<and> length s < length src"
proof (cases src)
  case Nil
  then show ?thesis using assms by (simp add: sequence_step_def is_word_char_def is_digit_char_def)
next
  case (Cons c cs)
  have "length (parse_space True cs) < length src" using Cons parse_space_shorter [of True cs] by simp
  moreover have "\<exists>sid q. alternates sid (parse_space True cs) q = Inl Spent"
    using assms Cons
    by (auto simp: sequence_step_def Let_def andthen_Inl not_Spent split: if_splits prod.splits)
  ultimately show ?thesis by blast
qed

lemma parse_not_Spent:
  "3 * length src < fuel \<Longrightarrow> parse_sequence fuel nested name ls src rule p \<noteq> Inl Spent"
  "3 * length src < fuel \<Longrightarrow> parse_more_alternates fuel nested name src rule p \<noteq> Inl Spent"
  "3 * length src + 1 < fuel \<Longrightarrow> parse_alternates fuel nested name rule_id src p \<noteq> Inl Spent"
proof (induction fuel nested name ls src rule p and fuel nested name src rule p and fuel nested name rule_id src p
    rule: parse_sequence_parse_more_alternates_parse_alternates.induct)
  case (2 fuel nested name ls src rule p)
  show ?case
  proof
    assume "parse_sequence (Suc fuel) nested name ls src rule p = Inl Spent"
    then consider "sequence_step (\<lambda>sid pos p1. parse_alternates fuel True name sid pos p1) nested name ls src rule p = Inl Spent"
      | ls1 pos1 rule1 p1 where
        "sequence_step (\<lambda>sid pos p1. parse_alternates fuel True name sid pos p1) nested name ls src rule p
           = Inr (Some (ls1, pos1, rule1, p1))"
        "parse_sequence fuel nested name ls1 pos1 rule1 p1 = Inl Spent"
      by (auto simp: andthen_Inl split: option.splits)
    then show False
    proof cases
      case 1
      from sequence_step_Spent [OF this] 2(1,3) show False by fastforce
    next
      case (2 ls1 pos1 rule1 p1)
      have "length pos1 < length src" by (rule sequence_step_shorter [OF 2(1)]) (rule parse_alternates_shorter(3))
      then have "3 * length pos1 < fuel" using \<open>3 * length src < Suc fuel\<close> by simp
      from "2.IH"(2) [OF this] 2(2) show False by blast
    qed
  qed
next
  case (4 fuel nested name src rule p)
  show ?case
  proof
    assume s: "parse_more_alternates (Suc fuel) nested name src rule p = Inl Spent"
    then have bar: "peek src = 124" by (auto split: if_splits)
    then have "length (tl src) < length src" by (cases src) auto
    then have le: "length (parse_space True (tl src)) < length src" using parse_space_shorter [of True "tl src"] by simp
    let ?rule = "rule @ [gelem LLAMA_GRETYPE_ALT 0]"
    have "parse_sequence fuel nested name (length ?rule) (parse_space True (tl src)) ?rule p \<noteq> Inl Spent"
      using 4(1) [OF bar refl] 4(3) le by simp
    then obtain pos1 rule2 p1 where
      q: "parse_sequence fuel nested name (length ?rule) (parse_space True (tl src)) ?rule p = Inr (pos1, rule2, p1)"
      and m: "parse_more_alternates fuel nested name pos1 rule2 p1 = Inl Spent"
      using s bar by (auto simp: andthen_Inl Let_def)
    show False using 4(2) [OF bar refl] q m parse_alternates_shorter(1) [OF q] 4(3) le by fastforce
  qed
next
  case (6 fuel nested name rule_id src p)
  show ?case
  proof
    assume s: "parse_alternates (Suc fuel) nested name rule_id src p = Inl Spent"
    have "parse_sequence fuel nested name 0 src [] p \<noteq> Inl Spent" using 6 by simp
    then obtain pos rule p1 where q: "parse_sequence fuel nested name 0 src [] p = Inr (pos, rule, p1)"
      and m: "parse_more_alternates fuel nested name pos rule p1 = Inl Spent"
      using s by (auto simp: andthen_Inl)
    show False using 6(2) q m parse_alternates_shorter(1) [OF q] 6(3) by fastforce
  qed
qed simp_all

lemma parse_rule_not_Spent: "parse_rule src p \<noteq> Inl Spent"
proof -
  have "parse_alternates (parse_fuel body) nested name sid body q \<noteq> Inl Spent" for nested name sid body q
    by (rule parse_not_Spent(3)) (simp add: parse_fuel_def)
  then show ?thesis
    by (auto simp: parse_rule_def Let_def andthen_Inl parse_name_not_Spent end_of_rule_def split: prod.splits if_splits)
qed

lemma parse_rules_not_Spent: "parse_rules pos p \<noteq> Inl Spent"
proof (induction pos p rule: parse_rules.induct)
  case (1 pos p)
  then show ?case by (subst parse_rules.simps) (auto split: sum.splits simp: parse_rule_not_Spent)
qed

lemma check_elements_not_Spent: "check_elements p es \<noteq> Some Spent"
  by (induction es) (auto split: option.splits)

lemma check_rules_not_Spent: "check_rules p rs \<noteq> Some Spent"
  by (induction rs) (auto split: option.splits simp: check_elements_not_Spent)

lemma gbnf_parse_returns: "gbnf_parse src \<noteq> Inl Spent"
  by (auto simp: gbnf_parse_def andthen_Inl parse_rules_not_Spent check_rules_not_Spent split: option.splits)

section \<open>Rules under construction\<close>

text \<open>The mode of \<open>items_ok\<close> after reading elements, when they are items so far.\<close>

fun mode_after :: "nat \<Rightarrow> llama_grammar_rule \<Rightarrow> nat option" where
  "mode_after mode [] = Some mode"
| "mode_after mode (e # es) =
     (case e_type e of
        LLAMA_GRETYPE_END \<Rightarrow> None
      | LLAMA_GRETYPE_ALT \<Rightarrow> mode_after 0 es
      | LLAMA_GRETYPE_RULE_REF \<Rightarrow> mode_after 0 es
      | LLAMA_GRETYPE_CHAR_RNG_UPPER \<Rightarrow> if mode = 1 then mode_after 2 es else None
      | LLAMA_GRETYPE_CHAR_ALT \<Rightarrow> if mode \<noteq> 0 then mode_after 1 es else None
      | _ \<Rightarrow> mode_after 1 es)"

definition refs_below :: "nat \<Rightarrow> llama_grammar_rule \<Rightarrow> bool" where
  "refs_below n es = (\<forall>e\<in>set es. e_type e = LLAMA_GRETYPE_RULE_REF \<longrightarrow> e_value e < n)"

definition body_ok :: "nat \<Rightarrow> llama_grammar_rule \<Rightarrow> bool" where
  "body_ok n es = (mode_after 0 es \<noteq> None \<and> refs_below n es)"

lemma mode_after_append: "mode_after m (xs @ ys) = Option.bind (mode_after m xs) (\<lambda>m'. mode_after m' ys)"
  by (induction m xs rule: mode_after.induct) (auto split: llama_gretype.splits)

lemma mode_after_weaken: "mode_after 0 es \<noteq> None \<Longrightarrow> mode_after m es \<noteq> None"
  by (cases es) (auto split: llama_gretype.splits if_splits)

lemma refs_below_simps [simp]:
  "refs_below n []" "refs_below n (xs @ ys) \<longleftrightarrow> refs_below n xs \<and> refs_below n ys"
  "refs_below n (e # es) \<longleftrightarrow> (e_type e = LLAMA_GRETYPE_RULE_REF \<longrightarrow> e_value e < n) \<and> refs_below n es"
  by (auto simp: refs_below_def)

lemma body_ok_Nil [simp]: "body_ok n []"
  by (simp add: body_ok_def)

lemma body_ok_append: "body_ok n xs \<Longrightarrow> body_ok n ys \<Longrightarrow> body_ok n (xs @ ys)"
  using mode_after_weaken by (fastforce simp: body_ok_def mode_after_append)

lemma body_ok_prefix: "body_ok n (xs @ ys) \<Longrightarrow> body_ok n xs"
  by (cases "mode_after 0 xs") (auto simp: body_ok_def mode_after_append)

lemma body_ok_mono: "body_ok n es \<Longrightarrow> n \<le> n' \<Longrightarrow> body_ok n' es"
  by (force simp: body_ok_def refs_below_def)

lemma body_ok_repeat: "body_ok n es \<Longrightarrow> body_ok n (concat (replicate k es))"
  by (induction k) (auto intro: body_ok_append)

lemma body_ok_one [simp]:
  "body_ok n [gelem LLAMA_GRETYPE_ALT v]" "body_ok n [gelem LLAMA_GRETYPE_CHAR v]" "body_ok n [gelem LLAMA_GRETYPE_CHAR_ANY v]"
  "body_ok n [gelem LLAMA_GRETYPE_RULE_REF v] \<longleftrightarrow> v < n"
  "body_ok n [gelem LLAMA_GRETYPE_RULE_REF v, gelem LLAMA_GRETYPE_ALT w] \<longleftrightarrow> v < n"
  by (simp_all add: body_ok_def)

lemma mode_after_items_ok: "mode_after m es \<noteq> None \<Longrightarrow> refs_below n es \<Longrightarrow> items_ok n m (es @ [gelem LLAMA_GRETYPE_END v])"
  by (induction m es rule: mode_after.induct) (auto split: llama_gretype.splits if_splits)

lemma body_ok_items_ok: "body_ok n es \<Longrightarrow> items_ok n 0 (es @ [gelem LLAMA_GRETYPE_END v])"
  by (simp add: body_ok_def mode_after_items_ok)

text \<open>Literals and classes append an item.\<close>

lemma parse_literal_body:
  "parse_literal src rule = Inr (rule', rest) \<Longrightarrow> \<exists>new. rule' = rule @ new \<and> body_ok n new"
proof (induction src rule rule: parse_literal.induct)
  case (1 src rule)
  show ?case
  proof (cases "peek src = 34 \<or> src = []")
    case True
    then show ?thesis using 1(2) by (subst (asm) parse_literal.simps) (auto split: if_splits)
  next
    case False
    then obtain c rest1 where pc: "parse_char src = Inr (c, rest1)"
      and r: "parse_literal rest1 (rule @ [gelem LLAMA_GRETYPE_CHAR c]) = Inr (rule', rest)"
      using 1(2) by (subst (asm) parse_literal.simps) (auto split: sum.splits)
    obtain new where "rule' = rule @ [gelem LLAMA_GRETYPE_CHAR c] @ new" "body_ok n new"
      using 1(1) [OF _ _ pc refl r] False by auto
    then show ?thesis using body_ok_append [of n "[gelem LLAMA_GRETYPE_CHAR c]" new] by auto
  qed
qed

definition class_ok :: "nat \<Rightarrow> llama_grammar_rule \<Rightarrow> bool" where
  "class_ok n es = (es = [] \<or> (\<exists>m. mode_after 0 es = Some m \<and> m \<noteq> 0 \<and> refs_below n es))"

lemma class_ok_body: "class_ok n es \<Longrightarrow> body_ok n es"
  by (auto simp: class_ok_def body_ok_def)

lemma parse_upper_class:
  assumes "parse_upper pos (rule @ es) = Inr (rule', rest)" "mode_after 0 es = Some 1" "refs_below n es"
  shows "\<exists>es'. rule' = rule @ es' \<and> es' \<noteq> [] \<and> class_ok n es'"
proof -
  have "es \<noteq> []" using assms(2) by auto
  then show ?thesis
    using assms by (auto simp: parse_upper_def class_ok_def mode_after_append split: if_splits)
qed

lemma parse_class_body:
  assumes "parse_class (length rule) ty src (rule @ es) = Inr (rule', rest)" "class_ok n es"
    "ty = LLAMA_GRETYPE_CHAR \<or> ty = LLAMA_GRETYPE_CHAR_NOT"
  shows "\<exists>es'. rule' = rule @ es' \<and> class_ok n es'"
  using assms
proof (induction "length rule" ty src "rule @ es" arbitrary: es rule: parse_class.induct)
  case (1 ty src es)
  let ?ty = "if length rule < length (rule @ es) then LLAMA_GRETYPE_CHAR_ALT else ty"
  show ?case
  proof (cases "peek src = 93 \<or> src = []")
    case True
    then show ?thesis using 1(2,3) by (subst (asm) parse_class.simps) (auto split: if_splits)
  next
    case False
    then obtain c rest1 rule1 rest2 where pc: "parse_char src = Inr (c, rest1)"
      and pu: "parse_upper rest1 ((rule @ es) @ [gelem ?ty c]) = Inr (rule1, rest2)"
      and r: "parse_class (length rule) ty rest2 rule1 = Inr (rule', rest)"
      using 1(2) by (subst (asm) parse_class.simps) (auto split: sum.splits)
    have m: "mode_after 0 (es @ [gelem ?ty c]) = Some 1" "refs_below n (es @ [gelem ?ty c])"
      using 1(3,4) by (auto simp: class_ok_def mode_after_append)
    obtain es' where es': "rule1 = rule @ es'" "class_ok n es'"
      using parse_upper_class [OF pu [unfolded append_assoc] m] by blast
    show ?thesis using 1(1) [OF _ _ pc refl pu [unfolded es'(1)] refl r [unfolded es'(1)] es'(2) 1(4)] False by blast
  qed
qed

section \<open>Symbols\<close>

text \<open>
  Ids are the numbers below the number of symbols, in the order of the map's insertions. A name of the
  grammar consists of word characters, a generated one ends in an underscore and its id: the two never
  meet, and \<open>generate_symbol_id\<close> never overwrites.
\<close>

definition word_name :: "byte list \<Rightarrow> bool" where
  "word_name name = (\<forall>c\<in>set name. is_word_char c)"

definition name_ok :: "byte list \<Rightarrow> nat \<Rightarrow> bool" where
  "name_ok name i = (word_name name \<or> (\<exists>base. word_name base \<and> name = base @ [95] @ dec_digits i))"

definition symbols_ok :: "(byte list \<times> nat) list \<Rightarrow> bool" where
  "symbols_ok ids = (map snd ids = [0..<length ids] \<and> distinct (map fst ids) \<and> (\<forall>(k, v)\<in>set ids. name_ok k v))"

lemma digits_value_dec: "digits_value (dec_digits n) = n"
proof (induction n rule: dec_digits.induct)
  case (1 n)
  then show ?case by (subst dec_digits.simps) (auto simp: digits_value_def)
qed

lemma dec_digits_inject: "dec_digits m = dec_digits n \<Longrightarrow> m = n"
  by (metis digits_value_dec)

lemma word_char_95: "is_word_char c \<Longrightarrow> c \<noteq> 95"
  by (auto simp: is_word_char_def is_digit_char_def)

lemma generated_name_inject:
  assumes "word_name a" "word_name b" "a @ [95] @ xs = b @ [95] @ ys"
  shows "a = b \<and> xs = ys"
proof -
  have "takeWhile (\<lambda>c. c \<noteq> 95) (a @ [95] @ xs) = a" "takeWhile (\<lambda>c. c \<noteq> 95) (b @ [95] @ ys) = b"
    using assms(1,2) word_char_95 by (simp_all add: word_name_def takeWhile_append2)
  then show ?thesis using assms(3) by auto
qed

lemma symbols_ok_value: "symbols_ok ids \<Longrightarrow> (k, v) \<in> set ids \<Longrightarrow> v < length ids"
proof -
  assume "symbols_ok ids" "(k, v) \<in> set ids"
  then have "snd (k, v) \<in> set (map snd ids)" "map snd ids = [0..<length ids]" by (force, simp add: symbols_ok_def)
  then show ?thesis by simp
qed

lemma alist_update_fresh: "name \<notin> fst ` set ids \<Longrightarrow> AList.update name v ids = ids @ [(name, v)]"
  by (induction ids) auto

lemma symbols_ok_insert:
  assumes "symbols_ok ids" "map_of ids name = None" "name_ok name (length ids)"
  shows "symbols_ok (AList.update name (length ids) ids)" "length (AList.update name (length ids) ids) = Suc (length ids)"
proof -
  have "name \<notin> fst ` set ids" using assms(2) by (simp add: map_of_eq_None_iff)
  note alist_update_fresh [OF this, of "length ids"]
  then show "symbols_ok (AList.update name (length ids) ids)" "length (AList.update name (length ids) ids) = Suc (length ids)"
    using assms \<open>name \<notin> fst ` set ids\<close> by (auto simp: symbols_ok_def)
qed

lemma get_symbol_id_ok:
  assumes "symbols_ok (symbol_ids p)" "word_name name" "get_symbol_id name p = (i, p')"
  shows "symbols_ok (symbol_ids p') \<and> length (symbol_ids p) \<le> length (symbol_ids p') \<and> i < length (symbol_ids p')
    \<and> p_rules p' = p_rules p"
proof (cases "map_of (symbol_ids p) name")
  case None
  then show ?thesis
    using assms symbols_ok_insert [OF assms(1) None] by (auto simp: get_symbol_id_def name_ok_def)
next
  case (Some j)
  then show ?thesis using assms symbols_ok_value [OF assms(1) map_of_SomeD [OF Some]] by (simp add: get_symbol_id_def)
qed

lemma generated_name_fresh:
  assumes "symbols_ok ids" "word_name base"
  shows "map_of ids (base @ [95] @ dec_digits (length ids)) = None"
proof (rule ccontr)
  assume "map_of ids (base @ [95] @ dec_digits (length ids)) \<noteq> None"
  then obtain v where v: "(base @ [95] @ dec_digits (length ids), v) \<in> set ids" by (auto dest: map_of_SomeD)
  then have "name_ok (base @ [95] @ dec_digits (length ids)) v" using assms(1) by (auto simp: symbols_ok_def)
  then obtain b where "word_name b" "base @ [95] @ dec_digits (length ids) = b @ [95] @ dec_digits v"
    using word_char_95 by (fastforce simp: name_ok_def word_name_def)
  then have "length ids = v" using generated_name_inject [OF assms(2)] dec_digits_inject by blast
  then show False using symbols_ok_value [OF assms(1) v] by simp
qed

lemma generate_symbol_id_ok:
  assumes "symbols_ok (symbol_ids p)" "word_name base" "generate_symbol_id base p = (i, p')"
  shows "symbols_ok (symbol_ids p') \<and> length (symbol_ids p') = Suc (length (symbol_ids p)) \<and> i = length (symbol_ids p)
    \<and> p_rules p' = p_rules p"
proof -
  have "name_ok (base @ [95] @ dec_digits (length (symbol_ids p))) (length (symbol_ids p))"
    using assms(2) unfolding name_ok_def by blast
  from symbols_ok_insert [OF assms(1) generated_name_fresh [OF assms(1,2)] this] show ?thesis
    using assms(3) by (auto simp: generate_symbol_id_def Let_def)
qed

section \<open>The parser's invariant\<close>

abbreviation n_syms :: "grammar_parser \<Rightarrow> nat" where
  "n_syms p \<equiv> length (symbol_ids p)"

definition rule_done :: "nat \<Rightarrow> llama_grammar_rule \<Rightarrow> bool" where
  "rule_done n r = (r = [] \<or> (\<exists>b. r = b @ [gelem LLAMA_GRETYPE_END 0] \<and> body_ok n b))"

definition parser_ok :: "grammar_parser \<Rightarrow> bool" where
  "parser_ok p = (symbols_ok (symbol_ids p) \<and> (\<forall>r\<in>set (p_rules p). rule_done (n_syms p) r))"

text \<open>What a parsing step keeps: the invariant, and no symbol is lost.\<close>

definition extends :: "grammar_parser \<Rightarrow> grammar_parser \<Rightarrow> bool" where
  "extends p p' = (parser_ok p' \<and> n_syms p \<le> n_syms p')"

lemma extends_trans: "extends p q \<Longrightarrow> extends q r \<Longrightarrow> extends p r"
  by (simp add: extends_def)

lemma rule_done_mono: "rule_done n r \<Longrightarrow> n \<le> n' \<Longrightarrow> rule_done n' r"
  by (auto simp: rule_done_def intro: body_ok_mono)

lemma parser_ok_get:
  assumes "parser_ok p" "word_name name" "get_symbol_id name p = (i, p')"
  shows "extends p p'" "i < n_syms p'"
  using get_symbol_id_ok [of p, OF _ assms(2,3)] assms(1) rule_done_mono
  by (auto simp: parser_ok_def extends_def)

lemma parser_ok_generate:
  assumes "parser_ok p" "word_name name" "generate_symbol_id name p = (i, p')"
  shows "extends p p'" "i < n_syms p'" "i = n_syms p"
  using generate_symbol_id_ok [of p, OF _ assms(2,3)] assms(1) rule_done_mono [of "n_syms p" _ "Suc (n_syms p)"]
  by (auto simp: parser_ok_def extends_def)

lemma add_rule_ok:
  assumes "parser_ok p" "rule_done (n_syms p) r"
  shows "extends p (add_rule i r p)" "symbol_ids (add_rule i r p) = symbol_ids p"
proof -
  have "rule_done (n_syms p) []" by (simp add: rule_done_def)
  then show "extends p (add_rule i r p)" using assms
    by (auto simp: add_rule_def Let_def parser_ok_def extends_def dest!: set_update_subset_insert [THEN subsetD])
  show "symbol_ids (add_rule i r p) = symbol_ids p" by (simp add: add_rule_def Let_def)
qed

lemma rep_step_ok:
  assumes "parser_ok p" "word_name name" "body_ok (n_syms p) prev" "0 < i \<longrightarrow> last_id < n_syms p"
    "generate_symbol_id name p = (sid, p1)"
    "p2 = add_rule sid (rec_rule prev (i > 0 \<or> unbounded) (if unbounded then sid else last_id)) p1"
  shows "extends p p2" "sid = n_syms p" "n_syms p2 = Suc (n_syms p)" "body_ok (n_syms p2) prev" "p_rules p1 = p_rules p"
proof -
  note g = generate_symbol_id_ok [OF _ assms(2,5)] and e = parser_ok_generate [OF assms(1,2,5)]
  have sym: "symbols_ok (symbol_ids p)" using assms(1) by (simp add: parser_ok_def)
  show "sid = n_syms p" "p_rules p1 = p_rules p" using g sym by auto
  let ?x = "if unbounded then sid else last_id"
  have "body_ok (n_syms p1) prev" "n_syms p \<le> n_syms p1" using body_ok_mono assms(3) e(1) by (auto simp: extends_def)
  moreover have "rec_rule prev (i > 0 \<or> unbounded) ?x
      = (prev @ (if i > 0 \<or> unbounded then [gelem LLAMA_GRETYPE_RULE_REF ?x] else []) @ [gelem LLAMA_GRETYPE_ALT 0])
        @ [gelem LLAMA_GRETYPE_END 0]"
    by (simp add: rec_rule_def)
  ultimately have "rule_done (n_syms p1) (rec_rule prev (i > 0 \<or> unbounded) ?x)"
    using e(2) assms(4) unfolding rule_done_def by (auto intro!: body_ok_append)
  from add_rule_ok [OF _ this, of sid] e(1) have a: "extends p1 p2" "symbol_ids p2 = symbol_ids p1"
    unfolding assms(6) by (auto simp: extends_def)
  show "extends p p2" by (rule extends_trans [OF e(1) a(1)])
  show "n_syms p2 = Suc (n_syms p)" "body_ok (n_syms p2) prev" using a(2) g sym \<open>body_ok (n_syms p1) prev\<close> by auto
qed

lemma rep_rules_ok:
  "parser_ok p \<Longrightarrow> word_name name \<Longrightarrow> body_ok (n_syms p) prev \<Longrightarrow> 0 < i \<longrightarrow> last_id < n_syms p \<Longrightarrow>
    rep_rules k i unbounded name prev last_id p = (lid, p') \<Longrightarrow>
    extends p p' \<and> (0 < k \<or> 0 < i \<longrightarrow> lid < n_syms p')"
proof (induction k arbitrary: i last_id p)
  case 0
  then show ?case by (simp add: extends_def)
next
  case (Suc k)
  obtain sid p1 where g: "generate_symbol_id name p = (sid, p1)" by fastforce
  define p2 where "p2 = add_rule sid (rec_rule prev (i > 0 \<or> unbounded) (if unbounded then sid else last_id)) p1"
  note st = rep_step_ok [OF Suc.prems(1-4) g p2_def]
  have "rep_rules k (Suc i) unbounded name prev sid p2 = (lid, p')" using Suc.prems(5) g by (simp add: p2_def)
  from Suc.IH [OF _ Suc.prems(2) st(4) _ this] st have "extends p2 p' \<and> lid < n_syms p'" by (simp add: extends_def)
  then show ?case using extends_trans [OF st(1)] by blast
qed

definition sequence_ok :: "nat \<Rightarrow> nat \<Rightarrow> llama_grammar_rule \<Rightarrow> bool" where
  "sequence_ok n ls rule = (ls \<le> length rule \<and> body_ok n rule \<and> body_ok n (drop ls rule))"

lemma sequence_ok_append: "body_ok n rule \<Longrightarrow> body_ok n new \<Longrightarrow> sequence_ok n (length rule) (rule @ new)"
  by (simp add: sequence_ok_def body_ok_append)

lemma sequence_ok_extend:
  "sequence_ok n ls rule \<Longrightarrow> n \<le> n' \<Longrightarrow> body_ok n' new \<Longrightarrow> sequence_ok n' ls (rule @ new)"
  by (auto simp: sequence_ok_def intro!: body_ok_append intro: body_ok_mono)

lemma handle_repetitions_ok:
  assumes "parser_ok p" "word_name name" "sequence_ok (n_syms p) ls rule"
    "handle_repetitions mn mx name ls rule p = Inr (rule', p')"
  shows "extends p p'" "sequence_ok (n_syms p') ls rule'"
proof -
  let ?prev = "drop ls rule" and ?n = "if mx < 0 then 1 else mx - mn"
  let ?rule1 = "if mn = 0 then take ls rule else rule @ concat (replicate (nat (mn - 1)) ?prev)"
  obtain lid p1 where rr: "rep_rules (nat ?n) 0 (mx < 0) name ?prev 0 p = (lid, p1)" by fastforce
  have prev: "body_ok (n_syms p) ?prev" "body_ok (n_syms p) rule" "ls \<le> length rule" using assms(3) by (simp_all add: sequence_ok_def)
  note r = rep_rules_ok [OF assms(1,2) prev(1) _ rr]
  have res: "rule' = ?rule1 @ (if ?n > 0 then [gelem LLAMA_GRETYPE_RULE_REF lid] else [])" "p' = p1"
    using assms(4) rr by (auto simp: handle_repetitions_def Let_def split: if_splits)
  show "extends p p'" using r res(2) by simp
  have mono: "n_syms p \<le> n_syms p'" using r res(2) by (simp add: extends_def)
  have "body_ok (n_syms p) (take ls rule)" using body_ok_prefix [of _ "take ls rule" "drop ls rule"] prev(2) by simp
  then have "body_ok (n_syms p) ?rule1" "body_ok (n_syms p) (drop ls ?rule1)" "ls \<le> length ?rule1"
    using prev by (auto intro!: body_ok_append body_ok_repeat)
  moreover have "body_ok (n_syms p') (if ?n > 0 then [gelem LLAMA_GRETYPE_RULE_REF lid] else [])" using r res(2) by auto
  ultimately show "sequence_ok (n_syms p') ls rule'"
    unfolding res(1) by (intro sequence_ok_extend [OF _ mono]) (simp_all add: sequence_ok_def)
qed

lemma parse_name_word: "parse_name src = Inr (name, rest) \<Longrightarrow> word_name name"
  by (auto simp: parse_name_def Let_def word_name_def split: if_splits dest: set_takeWhileD)

lemma sequence_step_ok:
  assumes step: "sequence_step alternates nested name ls src rule p = Inr (Some (ls', pos, rule', p'))"
    and p: "parser_ok p" "word_name name" "sequence_ok (n_syms p) ls rule"
    and alt: "\<And>sid s q s' q'. parser_ok q \<Longrightarrow> alternates sid s q = Inr (s', q') \<Longrightarrow> extends q q'"
  shows "extends p p' \<and> sequence_ok (n_syms p') ls' rule'"
  using step
proof (cases rule: sequence_step_cases)
  case (literal cs rest)
  then show ?thesis using parse_literal_body [OF literal(2), of "n_syms p"] p sequence_ok_append
    by (auto simp: extends_def sequence_ok_def body_ok_append)
next
  case (cls cs ty cs' rest)
  obtain new where "rule' = rule @ new" "body_ok (n_syms p) new"
    using parse_class_body [of rule ty cs' "[]" rule' rest "n_syms p"] cls class_ok_body by (auto simp: class_ok_def)
  then show ?thesis using cls p sequence_ok_append by (auto simp: extends_def sequence_ok_def body_ok_append)
next
  case (ref ref_name rest sid)
  note g = parser_ok_get [OF p(1) parse_name_word [OF ref(1)] ref(2)]
  have "body_ok (n_syms p') rule" using p(3) g(1) body_ok_mono by (auto simp: sequence_ok_def extends_def)
  then show ?thesis using g ref by (simp add: sequence_ok_append)
next
  case (group cs sid p1 pos1)
  note g = parser_ok_generate [OF p(1,2) group(2)]
  have e: "extends p1 p'" using alt [OF _ group(3)] g(1) by (simp add: extends_def)
  have "body_ok (n_syms p') rule" "sid < n_syms p'"
    using p(3) g(1,2) e body_ok_mono by (auto simp: sequence_ok_def extends_def)
  then show ?thesis using extends_trans [OF g(1) e] group by (simp add: sequence_ok_append)
next
  case (any cs)
  then show ?thesis using p by (simp add: extends_def sequence_ok_append sequence_ok_def body_ok_append)
next
  case (repeat min_times max_times)
  then show ?thesis using handle_repetitions_ok [OF p repeat(1)] by simp
qed

lemma parse_alternates_ok:
  "parse_sequence fuel nested name ls src rule p = Inr (pos, rule', p') \<Longrightarrow> parser_ok p \<Longrightarrow> word_name name \<Longrightarrow>
    sequence_ok (n_syms p) ls rule \<Longrightarrow> extends p p' \<and> body_ok (n_syms p') rule'"
  "parse_more_alternates fuel nested name src rule p = Inr (pos, rule', p') \<Longrightarrow> parser_ok p \<Longrightarrow> word_name name \<Longrightarrow>
    body_ok (n_syms p) rule \<Longrightarrow> extends p p' \<and> body_ok (n_syms p') rule'"
  "parse_alternates fuel nested name rule_id src p = Inr (pos, p') \<Longrightarrow> parser_ok p \<Longrightarrow> word_name name \<Longrightarrow> extends p p'"
proof (induction fuel nested name ls src rule p and fuel nested name src rule p and fuel nested name rule_id src p
    arbitrary: pos rule' p' and pos rule' p' and pos p'
    rule: parse_sequence_parse_more_alternates_parse_alternates.induct)
  case (2 fuel nested name ls src rule p)
  let ?step = "sequence_step (\<lambda>sid pos p1. parse_alternates fuel True name sid pos p1) nested name ls src rule p"
  obtain r where r: "?step = Inr r" using 2(3) by auto
  show ?case
  proof (cases r)
    case None
    then show ?thesis using 2 r by (simp add: extends_def sequence_ok_def)
  next
    case (Some t)
    obtain ls1 pos1 rule1 p1 where t: "t = (ls1, pos1, rule1, p1)" by (cases t)
    have s: "?step = Inr (Some (ls1, pos1, rule1, p1))" using r Some t by simp
    have a: "extends q q'" if "parser_ok q" "parse_alternates fuel True name sid s q = Inr (s', q')" for sid s q s' q'
      using 2(1) [OF that(2,1) 2(5)] .
    have st: "extends p p1 \<and> sequence_ok (n_syms p1) ls1 rule1"
      by (rule sequence_step_ok [OF s 2(4,5,6)]) (rule a)
    have "parse_sequence fuel nested name ls1 pos1 rule1 p1 = Inr (pos, rule', p')" using 2(3) s by simp
    from 2(2) [OF this _ 2(5)] st extends_trans show ?thesis by (auto simp: extends_def)
  qed
next
  case (4 fuel nested name src rule p)
  show ?case
  proof (cases "peek src = 124")
    case True
    let ?rule = "rule @ [gelem LLAMA_GRETYPE_ALT 0]"
    obtain pos1 rule2 p1 where q: "parse_sequence fuel nested name (length ?rule) (parse_space True (tl src)) ?rule p = Inr (pos1, rule2, p1)"
      and m: "parse_more_alternates fuel nested name pos1 rule2 p1 = Inr (pos, rule', p')"
      using 4(3) True by (auto simp: Let_def)
    have "sequence_ok (n_syms p) (length ?rule) ?rule" using 4(6) by (simp add: sequence_ok_def body_ok_append)
    from 4(1) [OF True refl q 4(4,5) this] have a: "extends p p1" "body_ok (n_syms p1) rule2" by auto
    from 4(2) [OF True refl m _ 4(5) a(2)] a(1) have "extends p1 p' \<and> body_ok (n_syms p') rule'"
      by (simp add: extends_def)
    then show ?thesis using extends_trans [OF a(1)] by blast
  next
    case False
    then show ?thesis using 4 by (simp add: extends_def)
  qed
next
  case (6 fuel nested name rule_id src p)
  obtain pos1 rule p1 rule1 p2 where q: "parse_sequence fuel nested name 0 src [] p = Inr (pos1, rule, p1)"
    and m: "parse_more_alternates fuel nested name pos1 rule p1 = Inr (pos, rule1, p2)"
    and p': "p' = add_rule rule_id (rule1 @ [gelem LLAMA_GRETYPE_END 0]) p2"
    using 6(3) by auto
  have a: "extends p p1" "body_ok (n_syms p1) rule" using 6(1) [OF q 6(4,5)] by (auto simp: sequence_ok_def)
  then have "parser_ok p1" by (simp add: extends_def)
  with 6(2) [OF m _ 6(5) a(2)] have b: "extends p1 p2" "body_ok (n_syms p2) rule1" by auto
  have "rule_done (n_syms p2) (rule1 @ [gelem LLAMA_GRETYPE_END 0])" using b(2) by (auto simp: rule_done_def)
  with add_rule_ok(1) [of p2] b(1) have "extends p2 p'" by (simp add: p' extends_def)
  then show ?case using extends_trans [OF a(1) extends_trans [OF b(1)]] by blast
qed simp_all

lemma parse_rule_ok:
  assumes "parse_rule src p = Inr (rest, p')" "parser_ok p"
  shows "extends p p'"
proof -
  obtain name name_end where n: "parse_name src = Inr (name, name_end)" using assms(1) by (auto simp: parse_rule_def)
  obtain rule_id p1 where g: "get_symbol_id name p = (rule_id, p1)" by fastforce
  let ?body = "parse_space True (drop 3 (parse_space False name_end))"
  obtain pos1 where a: "parse_alternates (parse_fuel ?body) False name rule_id ?body p1 = Inr (pos1, p')"
    using assms(1) n g by (auto simp: parse_rule_def Let_def split: if_splits)
  have e: "extends p p1" by (rule parser_ok_get(1) [OF assms(2) parse_name_word [OF n] g])
  then have "extends p1 p'" using parse_alternates_ok(3) [OF a _ parse_name_word [OF n]] by (simp add: extends_def)
  then show ?thesis by (rule extends_trans [OF e])
qed

lemma parse_rules_ok: "parse_rules pos p = Inr p' \<Longrightarrow> parser_ok p \<Longrightarrow> parser_ok p'"
proof (induction pos p rule: parse_rules.induct)
  case (1 pos p)
  show ?case
  proof (cases "pos = []")
    case True
    then show ?thesis using 1 by (subst (asm) (1) parse_rules.simps) simp
  next
    case False
    then obtain rest p1 where r: "parse_rule pos p = Inr (rest, p1)" and q: "parse_rules rest p1 = Inr p'"
      using 1(2) by (subst (asm) (1) parse_rules.simps) (auto split: sum.splits)
    show ?thesis using 1(1) [OF False r refl q] parse_rule_ok [OF r 1(3)] by (simp add: extends_def)
  qed
qed

lemma check_elements_None:
  "check_elements p es = None \<Longrightarrow> e \<in> set es \<Longrightarrow> undefined_ref p e \<Longrightarrow> e_value e \<notin> snd ` set (symbol_ids p)"
  by (induction es) (auto split: if_splits option.splits simp: find_None_iff)

lemma check_rules_None:
  "check_rules p rs = None \<Longrightarrow> r \<in> set rs \<Longrightarrow> r \<noteq> [] \<and> check_elements p r = None"
  by (induction rs) (auto split: if_splits option.splits)

theorem gbnf_parse_ok:
  assumes "gbnf_parse src = Inr p"
  shows "parser_ok p" "rules_ok (p_rules p)"
proof -
  have "parser_ok \<lparr>symbol_ids = [], p_rules = []\<rparr>" by (simp add: parser_ok_def symbols_ok_def)
  then show p: "parser_ok p" using assms parse_rules_ok by (fastforce simp: gbnf_parse_def split: option.splits)
  have c: "check_rules p (p_rules p) = None" using assms by (auto simp: gbnf_parse_def split: option.splits)
  have "items_ok (length (p_rules p)) 0 r" if r: "r \<in> set (p_rules p)" for r
  proof -
    note cr = check_rules_None [OF c r]
    have "rule_done (n_syms p) r" using p r by (simp add: parser_ok_def)
    then obtain b where b: "r = b @ [gelem LLAMA_GRETYPE_END 0]" "body_ok (n_syms p) b"
      using cr by (auto simp: rule_done_def)
    have "e_value e < length (p_rules p)" if e: "e \<in> set b" "e_type e = LLAMA_GRETYPE_RULE_REF" for e
    proof (rule ccontr)
      assume "\<not> e_value e < length (p_rules p)"
      then have "undefined_ref p e" using e(2) by (simp add: undefined_ref_def)
      then have "e_value e \<notin> snd ` set (symbol_ids p)" using check_elements_None cr b(1) e(1) by auto
      moreover have "snd ` set (symbol_ids p) = {0..<n_syms p}"
        using p unfolding parser_ok_def symbols_ok_def by (metis set_map set_upt)
      moreover have "e_value e < n_syms p" using b(2) e by (simp add: body_ok_def refs_below_def)
      ultimately show False by simp
    qed
    then have "body_ok (length (p_rules p)) b" using b(2) by (simp add: body_ok_def refs_below_def)
    then show ?thesis unfolding b(1) by (rule body_ok_items_ok)
  qed
  then show "rules_ok (p_rules p)" by (simp add: rules_ok_def)
qed

section \<open>A grammar from its text\<close>

lemma copy_rule_body: "mode_after m b \<noteq> None \<Longrightarrow> copy_rule (b @ [gelem LLAMA_GRETYPE_END 0]) = Some (b @ [gelem LLAMA_GRETYPE_END 0])"
  by (induction m b rule: mode_after.induct) (auto split: llama_gretype.splits if_splits)

lemma rule_done_copy: "rule_done n r \<Longrightarrow> r \<noteq> [] \<Longrightarrow> copy_rule r = Some r"
  using copy_rule_body by (fastforce simp: rule_done_def body_ok_def)

lemma copy_rules_id: "\<forall>r\<in>set rs. r \<noteq> [] \<and> rule_done n r \<Longrightarrow> copy_rules rs = Some rs"
  by (induction rs) (auto simp: rule_done_copy)

lemma gbnf_copy: "gbnf_parse src = Inr p \<Longrightarrow> copy_rules (p_rules p) = Some (p_rules p)"
  using gbnf_parse_ok(1) [of src p] check_rules_None [of p "p_rules p"]
  by (intro copy_rules_id [of _ "n_syms p"]) (fastforce simp: gbnf_parse_def parser_ok_def split: option.splits)

text \<open>What a grammar object built from a text holds.\<close>

lemma init_str_grammar:
  assumes "llama_grammar_init_str fuel vocab o_vocab src root lazy pats toks = Some (Init_Grammar g)"
  shows "\<exists>p start. gbnf_parse src = Inr p \<and> map_of (symbol_ids p) root = Some start \<and> g_rules g = p_rules p
    \<and> initial_stacks fuel (p_rules p) start = Some (g_stacks g) \<and> check_left_recursion fuel (p_rules p) = Some False
    \<and> pu_remain (g_partial_utf8 g) = 0 \<and> g_awaiting_trigger g = lazy"
  using assms gbnf_copy [of src]
  by (auto simp: llama_grammar_init_str_def llama_grammar_init_rules_def split: sum.splits option.splits if_splits bool.splits)

lemma init_str_language:
  assumes "llama_grammar_init_str fuel vocab o_vocab src root lazy pats toks = Some (Init_Grammar g)"
  shows "\<exists>p start. gbnf_parse src = Inr p \<and> map_of (symbol_ids p) root = Some start \<and> g_rules g = p_rules p
    \<and> rules_ok (g_rules g) \<and> (\<forall>w. stacks_lang (g_rules g) (g_stacks g) w \<longleftrightarrow> rule_lang (p_rules p) start w)"
  using init_str_grammar [OF assms] initial_stacks_lang(1) gbnf_parse_ok(2) by fastforce

text \<open>It is built, or refused, for every text whose grammar has no hidden empty rule.\<close>

lemma initial_stacks_mono:
  assumes "initial_stacks f rules start = Some stacks" "f \<le> f'"
  shows "initial_stacks f' rules start = Some stacks"
proof -
  obtain starts where st: "start < length rules" "alt_starts (rules ! start) = Some starts"
    using assms(1) by (auto simp: initial_stacks_def split: if_splits option.splits)
  have "fold_opt (\<lambda>sub new. do { s \<leftarrow> push_pos rules (start, sub) []; llama_grammar_advance_stack f rules s new }) starts [] = Some stacks"
    using assms(1) st by (simp add: initial_stacks_def)
  then have "fold_opt (\<lambda>sub new. do { s \<leftarrow> push_pos rules (start, sub) []; llama_grammar_advance_stack f' rules s new }) starts [] = Some stacks"
    by (rule fold_opt_mono) (auto split: bind_splits intro: advance_stack_mono [OF _ assms(2)])
  then show ?thesis using st by (simp add: initial_stacks_def)
qed

lemma init_str_returns:
  assumes "\<And>p. gbnf_parse src = Inr p \<Longrightarrow> \<exists>N. empty_closed N (p_rules p) \<and> visible_empty N (p_rules p)"
    "\<And>p start. gbnf_parse src = Inr p \<Longrightarrow> map_of (symbol_ids p) root = Some start \<Longrightarrow> start < length (p_rules p)"
  shows "\<exists>fuel res. llama_grammar_init_str fuel vocab o_vocab src root lazy pats toks = Some res"
proof (cases "gbnf_parse src")
  case (Inl e)
  then show ?thesis by (auto simp: llama_grammar_init_str_def)
next
  case (Inr p)
  show ?thesis
  proof (cases "p_rules p = [] \<or> map_of (symbol_ids p) root_name = None \<or> map_of (symbol_ids p) root = None")
    case True
    then show ?thesis using Inr by (auto simp: llama_grammar_init_str_def)
  next
    case False
    then obtain start where start: "map_of (symbol_ids p) root = Some start" by blast
    note ok = gbnf_parse_ok(2) [OF Inr] and copy = gbnf_copy [OF Inr]
    let ?n = "length (p_rules p)"
    show ?thesis
    proof (cases "\<exists>f>?n. check_left_recursion f (p_rules p) = Some True")
      case True
      then obtain f where "check_left_recursion f (p_rules p) = Some True" by blast
      then have "llama_grammar_init_str f vocab o_vocab src root lazy pats toks = Some Init_Null"
        using False Inr start copy by (auto simp: llama_grammar_init_str_def llama_grammar_init_rules_def)
      then show ?thesis by blast
    next
      case no: False
      have chk: "check_left_recursion f (p_rules p) = Some False" if "?n < f" for f
        using check_left_recursion_returns [OF ok that] no that by auto
      obtain N where "empty_closed N (p_rules p)" "visible_empty N (p_rules p)" using assms(1) [OF Inr] by blast
      from check_left_recursion_sound [OF ok this chk]
      have "left_ranked N (founded_rank (p_rules p)) (p_rules p)" by blast
      from initial_stacks_total [OF ok this assms(2) [OF Inr start]] obtain f stacks
        where "initial_stacks f (p_rules p) start = Some stacks" by blast
      then have i: "initial_stacks (max f (Suc ?n)) (p_rules p) start = Some stacks" by (rule initial_stacks_mono) simp
      have "\<exists>g. llama_grammar_init_str (max f (Suc ?n)) vocab o_vocab src root lazy pats toks = Some (Init_Grammar g)"
        using False Inr start copy i chk [of "max f (Suc ?n)"] by (auto simp: llama_grammar_init_str_def llama_grammar_init_rules_def)
      then show ?thesis by blast
    qed
  qed
qed

text \<open>A grammar that was built can be fed with any text.\<close>

lemma init_str_feeds:
  assumes "gbnf_parse src = Inr p" "empty_closed N (p_rules p)" "visible_empty N (p_rules p)"
    "map_of (symbol_ids p) root = Some start" "start < length (p_rules p)"
  shows "\<exists>fuel res. llama_grammar_init_str fuel vocab o_vocab src root lazy pats toks = Some res
    \<and> (\<forall>g cps. res = Init_Grammar g \<longrightarrow> (\<exists>f' stacks'. accept_code_points f' (g_rules g) cps (g_stacks g) = Some stacks'))"
proof -
  obtain fuel res where r: "llama_grammar_init_str fuel vocab o_vocab src root lazy pats toks = Some res"
    using init_str_returns [of src root vocab o_vocab lazy pats toks] assms by (metis Inr_inject option.inject)
  have "\<exists>f' stacks'. accept_code_points f' (g_rules g) cps (g_stacks g) = Some stacks'" if g: "res = Init_Grammar g" for g cps
  proof -
    note i = init_str_grammar [OF r [unfolded g]]
    then have c: "check_left_recursion fuel (p_rules p) = Some False" and s: "g_rules g = p_rules p"
      "initial_stacks fuel (p_rules p) start = Some (g_stacks g)" using assms(1,4) by auto
    note ok = gbnf_parse_ok(2) [OF assms(1)]
    note ranked = check_left_recursion_sound [OF ok assms(2,3) c]
    obtain f0 stacks0 where "initial_stacks f0 (p_rules p) start = Some stacks0" "stacks_ok (p_rules p) stacks0"
      using initial_stacks_total [OF ok ranked assms(5)] by blast
    moreover from this have "stacks0 = g_stacks g"
      using initial_stacks_mono [OF s(2), of "max fuel f0"] initial_stacks_mono [of f0 "p_rules p" start stacks0 "max fuel f0"] by simp
    ultimately show ?thesis unfolding s(1) using accept_code_points_total [OF ok ranked] by blast
  qed
  then show ?thesis using r by blast
qed

section \<open>Literals are read as they are written\<close>

text \<open>A literal: UTF-8, with a backslash before quotes and backslashes.\<close>

fun literal_text :: "nat list \<Rightarrow> byte list option" where
  "literal_text [] = Some []"
| "literal_text (c # cs) = do {
     b \<leftarrow> (if c = 34 \<or> c = 92 then Some [92, c] else unicode_cpt_to_utf8 c);
     bs \<leftarrow> literal_text cs;
     Some (b @ bs)
   }"

lemma parse_char_encode:
  assumes "unicode_cpt_to_utf8 c = Some bs" "c \<noteq> 92"
  shows "parse_char (bs @ rest) = Inr (c, rest)"
proof -
  obtain b bs' where b: "bs = b # bs'" "b \<noteq> 92"
    using assms by (auto simp: cpt_to_utf8_arith split: if_splits)
  then show ?thesis using decode_utf8_one_encode [OF assms(1)] by (simp add: parse_char_def)
qed

lemma parse_literal_text:
  "literal_text cps = Some bs \<Longrightarrow> 0 \<notin> set cps \<Longrightarrow>
    parse_literal (bs @ 34 # rest) rule = Inr (rule @ map (gelem LLAMA_GRETYPE_CHAR) cps, rest)"
proof (induction cps arbitrary: bs rule)
  case Nil
  then show ?case by (simp add: parse_literal.simps)
next
  case (Cons c cs)
  then obtain b bs1 where b: "(if c = 34 \<or> c = 92 then Some [92, c] else unicode_cpt_to_utf8 c) = Some b"
    "literal_text cs = Some bs1" "bs = b @ bs1"
    by (auto split: bind_splits)
  let ?src = "bs1 @ 34 # rest"
  have "parse_char (b @ ?src) = Inr (c, ?src) \<and> peek (b @ ?src) \<noteq> 34 \<and> b \<noteq> []"
  proof (cases "c = 34 \<or> c = 92")
    case True
    then show ?thesis using b(1) by (auto simp: parse_char_def)
  next
    case False
    then have e: "unicode_cpt_to_utf8 c = Some b" using b(1) by simp
    then show ?thesis using parse_char_encode [OF e] False by (auto simp: cpt_to_utf8_arith split: if_splits)
  qed
  then show ?case using Cons.IH [OF b(2)] Cons.prems(2) b(3) by (subst parse_literal.simps) simp
qed

end
