(* ===== verification/GbnfLang.thy ===== *)
theory GbnfLang
  imports GbnfOk
begin

text \<open>
  What a repetition means. The parser rewrites \<open>S{m,n}\<close> into copies of \<open>S\<close> and generated rules; the
  language of the result is that of at least \<open>m\<close> and at most \<open>n\<close> copies of \<open>S\<close>, and of any number from
  \<open>m\<close> on where there is no upper bound.
\<close>

section \<open>The language of a part of an alternate\<close>

inductive body_lang :: "llama_grammar_rules \<Rightarrow> llama_grammar_rule \<Rightarrow> nat list \<Rightarrow> bool" for rules where
  body_Nil: "body_lang rules [] []"
| body_ref: "e_type e = LLAMA_GRETYPE_RULE_REF \<Longrightarrow> rule_lang rules (e_value e) u \<Longrightarrow> body_lang rules es v \<Longrightarrow>
    body_lang rules (e # es) (u @ v)"
| body_char: "llama_grammar_match_char (es @ [gelem LLAMA_GRETYPE_END 0]) c = Some (True, n) \<Longrightarrow>
    body_lang rules (drop n es) v \<Longrightarrow> body_lang rules es (c # v)"

text \<open>What follows a part does not continue its last character class.\<close>

definition boundary :: "llama_grammar_rule \<Rightarrow> bool" where
  "boundary t = (case t of [] \<Rightarrow> False
     | e # _ \<Rightarrow> e_type e \<noteq> LLAMA_GRETYPE_CHAR_RNG_UPPER \<and> e_type e \<noteq> LLAMA_GRETYPE_CHAR_ALT)"

definition no_end :: "llama_grammar_rule \<Rightarrow> bool" where
  "no_end es = (\<forall>e\<in>set es. \<not> is_end_of_sequence e)"

lemma no_end_simps [simp]:
  "no_end []" "no_end (e # es) \<longleftrightarrow> \<not> is_end_of_sequence e \<and> no_end es" "no_end (xs @ ys) \<longleftrightarrow> no_end xs \<and> no_end ys"
  by (auto simp: no_end_def)

lemma no_end_drop: "no_end es \<Longrightarrow> no_end (drop n es)"
  by (auto simp: no_end_def dest: in_set_dropD)

lemma boundary_END [simp]: "boundary (gelem LLAMA_GRETYPE_END v # t)" "boundary (gelem LLAMA_GRETYPE_ALT v # t)"
  "boundary (gelem LLAMA_GRETYPE_RULE_REF v # t)"
  by (simp_all add: boundary_def)

text \<open>A class is matched inside the part.\<close>

lemma match_scan_boundary:
  assumes "es \<noteq> []" "boundary t" "boundary t'"
  shows "match_scan (es @ t) c f = match_scan (es @ t') c f \<and>
    (\<forall>b n. match_scan (es @ t) c f = Some (b, n) \<longrightarrow> 0 < n \<and> n \<le> length es)"
  using assms(1)
proof (induction es arbitrary: f rule: length_induct)
  case (1 es)
  obtain h hs h' hs' where t: "t = h # hs" "t' = h' # hs'"
    using assms(2,3) by (auto simp: boundary_def split: list.splits)
  then have nt: "e_type h \<noteq> LLAMA_GRETYPE_CHAR_RNG_UPPER" "e_type h \<noteq> LLAMA_GRETYPE_CHAR_ALT"
    "e_type h' \<noteq> LLAMA_GRETYPE_CHAR_RNG_UPPER" "e_type h' \<noteq> LLAMA_GRETYPE_CHAR_ALT"
    using assms(2,3) by (auto simp: boundary_def)
  obtain e es1 where es: "es = e # es1" using 1(2) by (cases es) auto
  show ?case
  proof (cases es1)
    case Nil
    then show ?thesis using t nt by (simp add: es)
  next
    case (Cons e1 es2)
    have ih: "match_scan (xs @ t) c g = match_scan (xs @ t') c g \<and>
      (\<forall>b n. match_scan (xs @ t) c g = Some (b, n) \<longrightarrow> 0 < n \<and> n \<le> length xs)"
      if "length xs < length es" "xs \<noteq> []" for xs g using 1(1) that by blast
    show ?thesis
    proof (cases "e_type e1 = LLAMA_GRETYPE_CHAR_RNG_UPPER")
      case True
      show ?thesis
      proof (cases es2)
        case Nil
        then show ?thesis using True t nt by (simp add: es Cons Let_def)
      next
        case (Cons e2 es3)
        have i: "match_scan ((e2 # es3) @ t) c g = match_scan ((e2 # es3) @ t') c g \<and>
          (\<forall>b n. match_scan ((e2 # es3) @ t) c g = Some (b, n) \<longrightarrow> 0 < n \<and> n \<le> length (e2 # es3))" for g
          by (rule ih) (simp_all add: es \<open>es1 = e1 # es2\<close> Cons)
        show ?thesis using True i by (auto simp: es \<open>es1 = e1 # es2\<close> Cons Let_def)
      qed
    next
      case False
      have i: "match_scan ((e1 # es2) @ t) c g = match_scan ((e1 # es2) @ t') c g \<and>
        (\<forall>b n. match_scan ((e1 # es2) @ t) c g = Some (b, n) \<longrightarrow> 0 < n \<and> n \<le> length (e1 # es2))" for g
        by (rule ih) (simp_all add: es Cons)
      show ?thesis using False i by (auto simp: es Cons Let_def)
    qed
  qed
qed

lemma match_char_boundary:
  assumes "boundary t" "boundary t'" "es \<noteq> []"
  shows "llama_grammar_match_char (es @ t) c = llama_grammar_match_char (es @ t') c"
    "llama_grammar_match_char (es @ t) c = Some (b, n) \<Longrightarrow> n \<le> length es"
  using match_scan_boundary [OF assms(3,1,2)] assms(3)
  by (cases es; auto simp: llama_grammar_match_char_def split: if_splits)+

lemma match_char_end: "boundary t \<Longrightarrow> is_end_of_sequence (hd t) \<or> e_type (hd t) = LLAMA_GRETYPE_RULE_REF \<Longrightarrow>
    llama_grammar_match_char t c = None"
  by (cases t) (auto simp: llama_grammar_match_char_def is_positive_char_def is_end_of_sequence_def boundary_def)

section \<open>Parts in their place\<close>

lemma pos_lang_body_intro:
  assumes "body_lang rules es u"
  shows "drop i (rules ! r) = es @ t \<Longrightarrow> r < length rules \<Longrightarrow> boundary t \<Longrightarrow> pos_lang rules (r, i + length es) v \<Longrightarrow>
    pos_lang rules (r, i) (u @ v)"
  using assms
proof (induction arbitrary: i rule: body_lang.induct)
  case (body_ref e u es v')
  have "drop (i + 1) (rules ! r) = es @ t" using body_ref.prems(1) by (metis append_Cons drop_drop drop_Suc_Cons drop0 One_nat_def add.commute)
  then have "pos_lang rules (move (r, i) 1) (v' @ v)" using body_ref.IH [of "i + 1"] body_ref.prems(2-4) by (simp add: move_def)
  moreover have "elem_at rules (r, i) = Some e" using body_ref.prems(1,2) by (simp add: elem_at_def rest_at_def)
  ultimately show ?case using body_ref.hyps(1,2) lang_ref [of rules "(r, i)" e] by (auto simp: rule_lang_def)
next
  case (body_char es c n v')
  have ne: "es \<noteq> []" using body_char.hyps(1) by (auto simp: llama_grammar_match_char_def is_positive_char_def)
  have m: "llama_grammar_match_char (es @ t) c = Some (True, n)" "n \<le> length es"
    using body_char.hyps(1) match_char_boundary [OF body_char.prems(3) _ ne, of "[gelem LLAMA_GRETYPE_END 0]"] by auto
  have "drop (i + n) (rules ! r) = drop n es @ t" using body_char.prems(1) m(2) by (metis drop_drop add.commute drop_append diff_is_0_eq drop0)
  then have "pos_lang rules (move (r, i) n) (v' @ v)"
    using body_char.IH [of "i + n"] body_char.prems(2-4) m(2) by (simp add: move_def)
  then show ?case using lang_char [of rules "(r, i)" c n] m(1) body_char.prems(1,2) by (simp add: rest_at_def)
qed simp

lemma pos_lang_body_elim:
  assumes "pos_lang rules p w"
  shows "p = (r, i) \<Longrightarrow> drop i (rules ! r) = es @ t \<Longrightarrow> r < length rules \<Longrightarrow> boundary t \<Longrightarrow> no_end es \<Longrightarrow>
    \<exists>u v. w = u @ v \<and> body_lang rules es u \<and> pos_lang rules (r, i + length es) v"
  using assms
proof (induction arbitrary: i es rule: pos_lang.induct)
  case (lang_end p e)
  then have "es = []" by (cases es) (auto simp: elem_at_def rest_at_def)
  then show ?case using pos_lang.lang_end [OF lang_end.hyps] lang_end.prems body_Nil by auto
next
  case (lang_ref p e starts j u1 u2)
  show ?case
  proof (cases es)
    case Nil
    then show ?thesis using pos_lang.lang_ref [OF lang_ref.hyps] lang_ref.prems(1) body_Nil by fastforce
  next
    case (Cons e' es')
    then have e: "e' = e" using lang_ref.hyps(1) lang_ref.prems(1-3) by (simp add: elem_at_def rest_at_def)
    have "drop (i + 1) (rules ! r) = es' @ t" using lang_ref.prems(2) Cons by (metis append_Cons drop_drop drop_Suc_Cons drop0 One_nat_def add.commute)
    from lang_ref.IH(2) [of "i + 1", OF _ this lang_ref.prems(3,4)] lang_ref.prems(1,5) Cons
    obtain u v where u: "u2 = u @ v" "body_lang rules es' u" "pos_lang rules (r, i + 1 + length es') v" by (auto simp: move_def)
    have "rule_lang rules (e_value e) u1" using lang_ref.hyps(3-6) by (auto simp: rule_lang_def)
    from body_ref [OF lang_ref.hyps(2) this u(2)] u(1,3) show ?thesis unfolding Cons e by (auto simp: append_assoc [symmetric] simp del: append_assoc)
  qed
next
  case (lang_char p c n v)
  show ?case
  proof (cases "es = []")
    case True
    then show ?thesis using pos_lang.lang_char [OF lang_char.hyps] lang_char.prems(1) body_Nil by fastforce
  next
    case False
    have m: "llama_grammar_match_char (es @ t) c = Some (True, n)" using lang_char.hyps(1) lang_char.prems(1-3) by (simp add: rest_at_def)
    have n: "n \<le> length es" "llama_grammar_match_char (es @ [gelem LLAMA_GRETYPE_END 0]) c = Some (True, n)"
      using match_char_boundary [OF lang_char.prems(4) _ False, of "[gelem LLAMA_GRETYPE_END 0]"] m by auto
    have "drop (i + n) (rules ! r) = drop n es @ t" using lang_char.prems(2) n(1) by (metis drop_drop add.commute drop_append diff_is_0_eq drop0)
    from lang_char.IH [of "i + n", OF _ this lang_char.prems(3,4) no_end_drop [OF lang_char.prems(5)]] lang_char.prems(1)
    obtain u v' where "v = u @ v'" "body_lang rules (drop n es) u" "pos_lang rules (r, i + length es) v'"
      using n(1) by (auto simp: move_def)
    then show ?thesis using body_char [OF n(2)] by (metis append_Cons)
  qed
qed

lemma pos_lang_body:
  assumes "drop i (rules ! r) = es @ t" "r < length rules" "boundary t" "no_end es"
  shows "pos_lang rules (r, i) w \<longleftrightarrow> (\<exists>u v. w = u @ v \<and> body_lang rules es u \<and> pos_lang rules (r, i + length es) v)"
  using pos_lang_body_intro [OF _ assms(1-3)] pos_lang_body_elim [OF _ refl assms] by blast

lemma body_lang_append_intro:
  "body_lang rules xs u \<Longrightarrow> body_lang rules ys v \<Longrightarrow> boundary (ys @ [gelem LLAMA_GRETYPE_END 0]) \<Longrightarrow> body_lang rules (xs @ ys) (u @ v)"
proof (induction rule: body_lang.induct)
  case (body_ref e u es v')
  then show ?case using body_lang.body_ref [of e rules u "es @ ys" "v' @ v"] by simp
next
  case (body_char es c n v')
  have ne: "es \<noteq> []" using body_char.hyps(1) by (auto simp: llama_grammar_match_char_def is_positive_char_def)
  have "llama_grammar_match_char ((es @ ys) @ [gelem LLAMA_GRETYPE_END 0]) c = Some (True, n)" "n \<le> length es"
    using match_char_boundary(1) [OF boundary_END(1) [of 0 "[]"] body_char.prems(2) ne, of c]
      match_char_boundary(2) [OF boundary_END(1) [of 0 "[]"] body_char.prems(2) ne body_char.hyps(1)] body_char.hyps(1) by auto
  then show ?case using body_lang.body_char [of "es @ ys" c n rules "v' @ v"] body_char.IH [OF body_char.prems] by simp
qed simp

lemma body_lang_append_elim:
  assumes "body_lang rules zs w"
  shows "zs = xs @ ys \<Longrightarrow> boundary (ys @ [gelem LLAMA_GRETYPE_END 0]) \<Longrightarrow>
    \<exists>u v. w = u @ v \<and> body_lang rules xs u \<and> body_lang rules ys v"
  using assms
proof (induction arbitrary: xs rule: body_lang.induct)
  case body_Nil
  then show ?case using body_lang.body_Nil by auto
next
  case (body_ref e u es v)
  show ?case
  proof (cases xs)
    case Nil
    then show ?thesis using body_lang.body_ref [OF body_ref.hyps] body_ref.prems(1) body_Nil by fastforce
  next
    case (Cons e' xs')
    then obtain u' v' where "v = u' @ v'" "body_lang rules xs' u'" "body_lang rules ys v'"
      using body_ref.IH [of xs'] body_ref.prems by auto
    then show ?thesis using body_lang.body_ref [OF body_ref.hyps(1,2), of xs' u'] Cons body_ref.prems(1)
      by (metis append.assoc append_Cons list.inject)
  qed
next
  case (body_char es c n v)
  show ?case
  proof (cases "xs = []")
    case True
    then show ?thesis using body_lang.body_char [OF body_char.hyps] body_char.prems(1) body_Nil by fastforce
  next
    case False
    have m: "llama_grammar_match_char (xs @ [gelem LLAMA_GRETYPE_END 0]) c = Some (True, n)" "n \<le> length xs"
      using match_char_boundary [OF body_char.prems(2) _ False, of "[gelem LLAMA_GRETYPE_END 0]" c] body_char.hyps(1) body_char.prems(1)
      by auto
    obtain u v' where "v = u @ v'" "body_lang rules (drop n xs) u" "body_lang rules ys v'"
      using body_char.IH [of "drop n xs"] body_char.prems m(2) by auto
    then show ?thesis using body_lang.body_char [OF m(1), of rules u] by (metis append_Cons)
  qed
qed

lemma body_lang_append:
  assumes "boundary (ys @ [gelem LLAMA_GRETYPE_END 0])"
  shows "body_lang rules (xs @ ys) w \<longleftrightarrow> (\<exists>u v. w = u @ v \<and> body_lang rules xs u \<and> body_lang rules ys v)"
  using body_lang_append_intro [OF _ _ assms] body_lang_append_elim [OF _ refl assms] by blast

lemma body_lang_Nil [simp]: "body_lang rules [] w \<longleftrightarrow> w = []"
  by (auto elim: body_lang.cases intro: body_Nil simp: llama_grammar_match_char_def is_positive_char_def)

lemma body_lang_one_ref [simp]: "body_lang rules [gelem LLAMA_GRETYPE_RULE_REF v] w \<longleftrightarrow> rule_lang rules v w"
proof
  assume "body_lang rules [gelem LLAMA_GRETYPE_RULE_REF v] w"
  then show "rule_lang rules v w"
    by (cases rule: body_lang.cases) (auto simp: llama_grammar_match_char_def is_positive_char_def)
next
  assume "rule_lang rules v w"
  then show "body_lang rules [gelem LLAMA_GRETYPE_RULE_REF v] w"
    using body_ref [of "gelem LLAMA_GRETYPE_RULE_REF v" rules w "[]" "[]"] by simp
qed

section \<open>Copies\<close>

fun copies :: "llama_grammar_rules \<Rightarrow> llama_grammar_rule \<Rightarrow> nat \<Rightarrow> nat list \<Rightarrow> bool" where
  "copies rules es 0 w = (w = [])"
| "copies rules es (Suc k) w = (\<exists>u v. w = u @ v \<and> body_lang rules es u \<and> copies rules es k v)"

lemma copies_add: "copies rules es (j + k) w \<longleftrightarrow> (\<exists>u v. w = u @ v \<and> copies rules es j u \<and> copies rules es k v)"
proof (induction j arbitrary: w)
  case (Suc j)
  show ?case by (simp add: Suc) (metis append.assoc)
qed simp

lemma boundary_body:
  assumes "mode_after 0 es \<noteq> None" "boundary t"
  shows "boundary (es @ t)"
  using assms by (cases es) (auto simp: boundary_def split: llama_gretype.splits if_splits)

lemma copies_replicate:
  assumes "mode_after 0 es \<noteq> None"
  shows "body_lang rules (concat (replicate k es)) w \<longleftrightarrow> copies rules es k w"
proof (induction k arbitrary: w)
  case (Suc k)
  have "mode_after 0 (concat (replicate k es)) \<noteq> None"
    by (induction k) (use mode_after_weaken assms in \<open>fastforce simp: mode_after_append\<close>)+
  then have "boundary (concat (replicate k es) @ [gelem LLAMA_GRETYPE_END 0])" by (rule boundary_body) simp
  then show ?case using Suc by (simp add: body_lang_append)
qed simp

section \<open>The generated rules\<close>

lemma no_end_starts: "no_end es \<Longrightarrow> alt_starts_from (es @ t) i = alt_starts_from t (i + length es)"
  by (induction es arbitrary: i) (auto simp: is_end_of_sequence_def split: llama_gretype.splits)

lemma rec_rule_starts:
  "no_end prev \<Longrightarrow> alt_starts (rec_rule prev again x) = Some [0, length prev + (if again then 2 else 1)]"
  by (simp add: alt_starts_def rec_rule_def no_end_starts)

lemma rec_rule_end:
  assumes "r < length rules" "rules ! r = rec_rule prev again x"
  shows "pos_lang rules (r, length prev + (if again then 2 else 1)) w \<longleftrightarrow> w = []"
    "pos_lang rules (r, length prev + (if again then 1 else 0)) w \<longleftrightarrow> w = []"
  using assms pos_lang_end [of rules "(r, length prev + (if again then 2 else 1))" "gelem LLAMA_GRETYPE_END 0"]
    pos_lang_end [of rules "(r, length prev + (if again then 1 else 0))" "gelem LLAMA_GRETYPE_ALT 0"]
  by (simp_all add: elem_at_def rest_at_def rec_rule_def is_end_of_sequence_def)

lemma rec_rule_ref:
  assumes "r < length rules" "rules ! r = rec_rule prev True x"
  shows "pos_lang rules (r, length prev) w \<longleftrightarrow> rule_lang rules x w"
proof -
  have e: "elem_at rules (r, length prev) = Some (gelem LLAMA_GRETYPE_RULE_REF x)"
    using assms by (simp add: elem_at_def rest_at_def rec_rule_def)
  have m: "llama_grammar_match_char (rest_at rules (r, length prev)) c = None" for c
    using assms by (simp add: rest_at_def rec_rule_def match_char_end is_end_of_sequence_def)
  have z: "pos_lang rules (move (r, length prev) 1) v \<longleftrightarrow> v = []" for v
    using rec_rule_end(2) [OF assms] by (simp add: move_def)
  show ?thesis
  proof
    assume "pos_lang rules (r, length prev) w"
    then show "rule_lang rules x w"
      by (cases rule: pos_lang.cases) (use e m z in \<open>auto simp: rule_lang_def is_end_of_sequence_def\<close>)
  next
    assume "rule_lang rules x w"
    then obtain starts i where "x < length rules" "alt_starts (rules ! x) = Some starts" "i \<in> set starts" "pos_lang rules (x, i) w"
      by (auto simp: rule_lang_def)
    then show "pos_lang rules (r, length prev) w" using lang_ref [OF e, of starts i w "[]"] z by simp
  qed
qed

lemma rec_rule_lang:
  assumes "r < length rules" "rules ! r = rec_rule prev again x" "no_end prev"
  shows "rule_lang rules r w \<longleftrightarrow> w = [] \<or> (\<exists>u v. w = u @ v \<and> body_lang rules prev u \<and> (if again then rule_lang rules x v else v = []))"
proof -
  have d: "drop 0 (rules ! r) = prev @ ((if again then [gelem LLAMA_GRETYPE_RULE_REF x] else []) @ [gelem LLAMA_GRETYPE_ALT 0, gelem LLAMA_GRETYPE_END 0])"
    using assms(2) by (simp add: rec_rule_def)
  have "pos_lang rules (r, 0) w \<longleftrightarrow> (\<exists>u v. w = u @ v \<and> body_lang rules prev u \<and> (if again then rule_lang rules x v else v = []))"
    using pos_lang_body [OF d assms(1) _ assms(3)] rec_rule_ref [OF assms(1)] rec_rule_end(2) [OF assms(1,2)] assms(2)
    by (cases again) auto
  then show ?thesis using rec_rule_starts [OF assms(3)] rec_rule_end(1) [OF assms(1,2)] assms(1,2)
    by (auto simp: rule_lang_def)
qed

text \<open>Without an upper bound the rule refers to itself.\<close>

lemma star_elim:
  assumes "pos_lang rules p w"
  shows "p = (r, i) \<Longrightarrow> i \<le> length prev \<Longrightarrow> r < length rules \<Longrightarrow> rules ! r = rec_rule prev True r \<Longrightarrow> no_end prev \<Longrightarrow>
    \<exists>u v k. w = u @ v \<and> body_lang rules (drop i prev) u \<and> copies rules prev k v"
  using assms
proof (induction arbitrary: i rule: pos_lang.induct)
  case (lang_end p e)
  then have "e \<in> set (drop i prev @ [gelem LLAMA_GRETYPE_RULE_REF r])"
    by (cases "drop i prev") (auto simp: elem_at_def rest_at_def rec_rule_def)
  then have False using lang_end by (auto simp: no_end_def is_end_of_sequence_def dest: in_set_dropD)
  then show ?case ..
next
  case (lang_ref p e starts j u1 u2)
  have d: "drop i (rules ! r) = drop i prev @ [gelem LLAMA_GRETYPE_RULE_REF r, gelem LLAMA_GRETYPE_ALT 0, gelem LLAMA_GRETYPE_END 0]"
    using lang_ref.prems(2,4) by (simp add: rec_rule_def)
  show ?case
  proof (cases "drop i prev")
    case Nil
    then have i: "i = length prev" using lang_ref.prems(2) by simp
    then have e: "e = gelem LLAMA_GRETYPE_RULE_REF r" using lang_ref.hyps(1) lang_ref.prems(1,3) d by (simp add: elem_at_def rest_at_def)
    have "pos_lang rules (r, length prev + 1) u2" using lang_ref.hyps(7) lang_ref.prems(1) i by (simp add: move_def)
    then have u2: "u2 = []" using rec_rule_end(2) [OF lang_ref.prems(3,4)] by simp
    have "j = 0 \<or> j = length prev + 2" using lang_ref.hyps(4,5) e lang_ref.prems(4) rec_rule_starts [OF lang_ref.prems(5), of True r] by auto
    then have "\<exists>k. copies rules prev k u1"
    proof
      assume "j = 0"
      then obtain u v k where "u1 = u @ v" "body_lang rules prev u" "copies rules prev k v"
        using lang_ref.IH(1) [of 0] e lang_ref.prems(3-5) by auto
      then have "copies rules prev (Suc k) u1" by auto
      then show ?thesis ..
    next
      assume "j = length prev + 2"
      then have "u1 = []" using rec_rule_end(1) [OF lang_ref.prems(3,4)] lang_ref.hyps(6) e by simp
      then have "copies rules prev 0 u1" by simp
      then show ?thesis ..
    qed
    then show ?thesis using Nil u2 by auto
  next
    case (Cons e' es')
    then have e: "e' = e" using lang_ref.hyps(1) lang_ref.prems(1,3) d by (simp add: elem_at_def rest_at_def)
    have "i < length prev" using Cons by (metis drop_all leI list.distinct(1))
    moreover have "drop (i + 1) prev = es'" using Cons by (metis One_nat_def add.commute drop_Suc drop_drop list.sel(3) plus_1_eq_Suc tl_drop)
    ultimately obtain u v k where u: "u2 = u @ v" "body_lang rules es' u" "copies rules prev k v"
      using lang_ref.IH(2) [of "i + 1"] lang_ref.prems by (auto simp: move_def)
    have "rule_lang rules (e_value e) u1" using lang_ref.hyps(3-6) by (auto simp: rule_lang_def)
    from body_ref [OF lang_ref.hyps(2) this u(2)] u(1,3) show ?thesis unfolding Cons e by (metis append.assoc)
  qed
next
  case (lang_char p c n v)
  let ?t = "[gelem LLAMA_GRETYPE_RULE_REF r, gelem LLAMA_GRETYPE_ALT 0, gelem LLAMA_GRETYPE_END 0]"
  have d: "rest_at rules p = drop i prev @ ?t" using lang_char.prems(1-4) by (simp add: rest_at_def rec_rule_def)
  then have ne: "drop i prev \<noteq> []"
    using lang_char.hyps(1) by (auto simp: match_char_end)
  have n: "n \<le> length (drop i prev)" "llama_grammar_match_char (drop i prev @ [gelem LLAMA_GRETYPE_END 0]) c = Some (True, n)"
    using match_char_boundary [OF boundary_END(3) boundary_END(1) [of 0 "[]"] ne, of r "[gelem LLAMA_GRETYPE_ALT 0, gelem LLAMA_GRETYPE_END 0]" c]
      lang_char.hyps(1) d by auto
  have "i + n \<le> length prev" using n(1) ne by simp
  then obtain u v' k where "v = u @ v'" "body_lang rules (drop (i + n) prev) u" "copies rules prev k v'"
    using lang_char.IH [of "i + n"] lang_char.prems by (auto simp: move_def)
  then show ?case using body_char [OF n(2), of rules u] by (intro exI [of _ "c # u"] exI [of _ v'] exI [of _ k]) (simp add: add.commute)
qed

lemma star_rule_lang:
  assumes "r < length rules" "rules ! r = rec_rule prev True r" "no_end prev"
  shows "rule_lang rules r w \<longleftrightarrow> (\<exists>k. copies rules prev k w)"
proof
  assume "rule_lang rules r w"
  then consider "w = []" | u v where "w = u @ v" "body_lang rules prev u" "rule_lang rules r v"
    using rec_rule_lang [OF assms, of w] by auto
  then show "\<exists>k. copies rules prev k w"
  proof cases
    case 1
    then have "copies rules prev 0 w" by simp
    then show ?thesis ..
  next
    case (2 u v)
    then have "pos_lang rules (r, length prev) v" using rec_rule_ref [OF assms(1,2)] by simp
    from star_elim [OF this refl _ assms] obtain k where "copies rules prev k v" by auto
    then have "copies rules prev (Suc k) w" using 2 by auto
    then show ?thesis ..
  qed
next
  assume "\<exists>k. copies rules prev k w"
  then obtain k where "copies rules prev k w" ..
  then show "rule_lang rules r w"
  proof (induction k arbitrary: w)
    case 0
    then show ?case using rec_rule_lang [OF assms, of "[]"] by simp
  next
    case (Suc k)
    then show ?case using rec_rule_lang [OF assms, of w] by auto
  qed
qed

text \<open>With an upper bound every rule refers to the one before.\<close>

lemma chain_rule_lang:
  assumes "\<And>j. j \<le> k \<Longrightarrow> n + j < length rules \<and> rules ! (n + j) = rec_rule prev (0 < j) (x j)" "\<And>j. 0 < j \<Longrightarrow> x j = n + j - 1"
    "no_end prev"
  shows "j \<le> k \<Longrightarrow> rule_lang rules (n + j) w \<longleftrightarrow> (\<exists>i\<le>Suc j. copies rules prev i w)"
proof (induction j arbitrary: w)
  case 0
  have "rule_lang rules (n + 0) w \<longleftrightarrow> w = [] \<or> body_lang rules prev w" using rec_rule_lang [OF _ _ assms(3)] assms(1) [of 0] by simp
  also have "\<dots> \<longleftrightarrow> copies rules prev 0 w \<or> copies rules prev (Suc 0) w" by simp
  also have "\<dots> \<longleftrightarrow> (\<exists>i\<le>Suc 0. copies rules prev i w)" by (simp add: le_Suc_eq ex_disj_distrib conj_disj_distribR del: copies.simps)
  finally show ?case .
next
  case (Suc j)
  have "rule_lang rules (n + Suc j) w \<longleftrightarrow> w = [] \<or> (\<exists>u v. w = u @ v \<and> body_lang rules prev u \<and> rule_lang rules (n + j) v)"
    using rec_rule_lang [OF _ _ assms(3)] assms(1,2) [of "Suc j"] Suc.prems by simp
  also have "\<dots> \<longleftrightarrow> (\<exists>i\<le>Suc (Suc j). copies rules prev i w)"
  proof
    assume "w = [] \<or> (\<exists>u v. w = u @ v \<and> body_lang rules prev u \<and> rule_lang rules (n + j) v)"
    then show "\<exists>i\<le>Suc (Suc j). copies rules prev i w"
    proof
      assume "w = []"
      then show ?thesis by (intro exI [of _ 0]) simp
    next
      assume "\<exists>u v. w = u @ v \<and> body_lang rules prev u \<and> rule_lang rules (n + j) v"
      then obtain u v i where "w = u @ v" "body_lang rules prev u" "i \<le> Suc j" "copies rules prev i v" using Suc by auto
      then show ?thesis by (intro exI [of _ "Suc i"]) auto
    qed
  next
    assume "\<exists>i\<le>Suc (Suc j). copies rules prev i w"
    then obtain i where i: "i \<le> Suc (Suc j)" "copies rules prev i w" by blast
    then show "w = [] \<or> (\<exists>u v. w = u @ v \<and> body_lang rules prev u \<and> rule_lang rules (n + j) v)"
      using Suc by (cases i) auto
  qed
  finally show ?case .
qed

text \<open>What the loop over the optional copies has written.\<close>

lemma rep_rules_written:
  "parser_ok p \<Longrightarrow> word_name name \<Longrightarrow> body_ok (n_syms p) prev \<Longrightarrow> 0 < i \<longrightarrow> last_id < n_syms p \<Longrightarrow>
    rep_rules k i unbounded name prev last_id p = (lid, p') \<Longrightarrow>
    (\<forall>j<k. n_syms p + j < length (p_rules p') \<and> p_rules p' ! (n_syms p + j) =
        rec_rule prev (0 < i + j \<or> unbounded) (if unbounded then n_syms p + j else if j = 0 then last_id else n_syms p + j - 1))
    \<and> (0 < k \<longrightarrow> lid = n_syms p + k - 1)
    \<and> (\<forall>m<n_syms p. m < length (p_rules p) \<longrightarrow> m < length (p_rules p') \<and> p_rules p' ! m = p_rules p ! m)"
proof (induction k arbitrary: i last_id p)
  case (Suc k)
  obtain sid p1 where g: "generate_symbol_id name p = (sid, p1)" by fastforce
  define r where "r = rec_rule prev (i > 0 \<or> unbounded) (if unbounded then sid else last_id)"
  define p2 where "p2 = add_rule sid r p1"
  note st = rep_step_ok [OF Suc.prems(1-4) g p2_def [unfolded r_def]]
  have w: "sid < length (p_rules p2)" "p_rules p2 ! sid = r"
    "\<And>m. m < n_syms p \<Longrightarrow> m < length (p_rules p) \<Longrightarrow> m < length (p_rules p2) \<and> p_rules p2 ! m = p_rules p ! m"
    using st(2,5) by (auto simp: p2_def add_rule_def Let_def nth_append)
  have "rep_rules k (Suc i) unbounded name prev sid p2 = (lid, p')" using Suc.prems(5) g by (simp add: p2_def r_def)
  from Suc.IH [OF _ Suc.prems(2) st(4) _ this] st(1,2,3)
  have ih: "\<forall>j<k. Suc (n_syms p) + j < length (p_rules p') \<and> p_rules p' ! (Suc (n_syms p) + j) =
        rec_rule prev True (if unbounded then Suc (n_syms p) + j else if j = 0 then n_syms p else Suc (n_syms p) + j - 1)"
    "0 < k \<longrightarrow> lid = Suc (n_syms p) + k - 1" "k = 0 \<longrightarrow> lid = n_syms p"
    "\<forall>m<Suc (n_syms p). m < length (p_rules p2) \<longrightarrow> m < length (p_rules p') \<and> p_rules p' ! m = p_rules p2 ! m"
    using \<open>rep_rules k (Suc i) unbounded name prev sid p2 = (lid, p')\<close> by (auto simp: extends_def)
  have "n_syms p + j < length (p_rules p') \<and> p_rules p' ! (n_syms p + j) =
        rec_rule prev (0 < i + j \<or> unbounded) (if unbounded then n_syms p + j else if j = 0 then last_id else n_syms p + j - 1)"
    if "j < Suc k" for j
  proof (cases j)
    case 0
    then show ?thesis using ih(4) w(1,2) st(2) by (auto simp: r_def)
  next
    case (Suc j')
    then show ?thesis using ih(1) that by (auto split: if_splits)
  qed
  then show ?case using ih(2,3,4) w(3) by (cases k) auto
qed simp

section \<open>Repetitions\<close>

text \<open>
  The last symbol \<open>S\<close> of the sequence is repeated: what was before it is left alone, and the new end of
  the sequence has the language of the allowed numbers of copies of \<open>S\<close>, in every set of rules that
  contains those of the parser. An upper bound below the lower one is taken as the lower one.
\<close>

lemma handle_repetitions_lang:
  assumes p: "parser_ok p" "word_name name" "sequence_ok (n_syms p) ls rule" "no_end (drop ls rule)" "0 \<le> mn"
    and h: "handle_repetitions mn mx name ls rule p = Inr (rule', p')"
    and R: "\<And>i. i < length (p_rules p') \<Longrightarrow> i < length R \<and> R ! i = p_rules p' ! i"
  shows "take ls rule' = take ls rule"
    "body_lang R (drop ls rule') w \<longleftrightarrow> (\<exists>k. nat mn \<le> k \<and> (0 \<le> mx \<longrightarrow> k \<le> nat (max mn mx)) \<and> copies R (drop ls rule) k w)"
proof -
  let ?prev = "drop ls rule" and ?n = "if mx < 0 then 1 else mx - mn"
  let ?opt = "if ?n > 0 then [gelem LLAMA_GRETYPE_RULE_REF (n_syms p + nat ?n - 1)] else []"
  obtain lid p1 where rr: "rep_rules (nat ?n) 0 (mx < 0) name ?prev 0 p = (lid, p1)" by fastforce
  have prev: "body_ok (n_syms p) ?prev" "ls \<le> length rule" using p(3) by (simp_all add: sequence_ok_def)
  note wr = rep_rules_written [OF p(1,2) prev(1) _ rr, simplified]
  have res: "rule' = (if mn = 0 then take ls rule else rule @ concat (replicate (nat (mn - 1)) ?prev)) @ ?opt" "p' = p1"
    using h rr wr by (auto simp: handle_repetitions_def Let_def split: if_splits)
  show "take ls rule' = take ls rule" using res(1) prev(2) by auto
  have d: "drop ls rule' = concat (replicate (nat mn) ?prev) @ ?opt"
  proof (cases "mn = 0")
    case False
    then have "nat mn = Suc (nat (mn - 1))" using p(5) by simp
    then show ?thesis using False prev(2) by (simp add: res(1))
  qed (use prev(2) in \<open>simp add: res(1)\<close>)
  have opt: "body_lang R ?opt v \<longleftrightarrow> (\<exists>k. (0 \<le> mx \<longrightarrow> k \<le> nat (mx - mn)) \<and> copies R ?prev k v)" for v
  proof (cases "mx < 0")
    case True
    have r: "n_syms p < length R" "R ! n_syms p = rec_rule ?prev True (n_syms p)" using wr True R res(2) by auto
    show ?thesis using True star_rule_lang [OF r p(4)] by simp
  next
    case False
    show ?thesis
    proof (cases "mn < mx")
      case True
      define k where "k = nat (mx - mn) - 1"
      have k: "nat (mx - mn) = Suc k" using True by (simp add: k_def)
      have "n_syms p + j < length R \<and> R ! (n_syms p + j) = rec_rule ?prev (0 < j) (if j = 0 then 0 else n_syms p + j - 1)"
        if "j \<le> k" for j using wr R [of "n_syms p + j"] res(2) False True k that by auto
      from chain_rule_lang [OF this _ p(4), of k k v] True False k show ?thesis by simp
    next
      case no: False
      have "(\<exists>k\<le>0. copies R ?prev k v) \<longleftrightarrow> v = []" by simp
      then show ?thesis using no False by auto
    qed
  qed
  have b: "boundary (?opt @ [gelem LLAMA_GRETYPE_END 0])" by simp
  have m: "mode_after 0 ?prev \<noteq> None" using prev(1) by (simp add: body_ok_def)
  have "body_lang R (drop ls rule') w \<longleftrightarrow> (\<exists>u v. w = u @ v \<and> copies R ?prev (nat mn) u \<and> body_lang R ?opt v)"
    unfolding d body_lang_append [OF b] copies_replicate [OF m] ..
  also have "\<dots> \<longleftrightarrow> (\<exists>j. (0 \<le> mx \<longrightarrow> j \<le> nat (mx - mn)) \<and> copies R ?prev (nat mn + j) w)"
    unfolding opt copies_add by blast
  also have "\<dots> \<longleftrightarrow> (\<exists>k. nat mn \<le> k \<and> (0 \<le> mx \<longrightarrow> k \<le> nat (max mn mx)) \<and> copies R ?prev k w)"
  proof
    assume "\<exists>j. (0 \<le> mx \<longrightarrow> j \<le> nat (mx - mn)) \<and> copies R ?prev (nat mn + j) w"
    then obtain j where "0 \<le> mx \<longrightarrow> j \<le> nat (mx - mn)" "copies R ?prev (nat mn + j) w" by blast
    then show "\<exists>k. nat mn \<le> k \<and> (0 \<le> mx \<longrightarrow> k \<le> nat (max mn mx)) \<and> copies R ?prev k w"
      using p(5) by (intro exI [of _ "nat mn + j"]) auto
  next
    assume "\<exists>k. nat mn \<le> k \<and> (0 \<le> mx \<longrightarrow> k \<le> nat (max mn mx)) \<and> copies R ?prev k w"
    then obtain k where "nat mn \<le> k" "0 \<le> mx \<longrightarrow> k \<le> nat (max mn mx)" "copies R ?prev k w" by blast
    then show "\<exists>j. (0 \<le> mx \<longrightarrow> j \<le> nat (mx - mn)) \<and> copies R ?prev (nat mn + j) w"
      using p(5) by (intro exI [of _ "k - nat mn"]) auto
  qed
  finally show "body_lang R (drop ls rule') w \<longleftrightarrow>
      (\<exists>k. nat mn \<le> k \<and> (0 \<le> mx \<longrightarrow> k \<le> nat (max mn mx)) \<and> copies R (drop ls rule) k w)" .
qed

section \<open>A literal\<close>

lemma literal_parse:
  assumes "literal_text cps = Some bs" "0 \<notin> set cps"
  shows "gbnf_parse ([114, 111, 111, 116, 32, 58, 58, 61, 32, 34] @ bs @ [34]) =
    Inr \<lparr>symbol_ids = [(root_name, 0)], p_rules = [map (gelem LLAMA_GRETYPE_CHAR) cps @ [gelem LLAMA_GRETYPE_END 0]]\<rparr>"
proof -
  let ?r = "map (gelem LLAMA_GRETYPE_CHAR) cps" and ?p = "\<lparr>symbol_ids = [(root_name, 0)], p_rules = []\<rparr>"
  obtain f where f: "parse_fuel (34 # bs @ [34]) = Suc (Suc (Suc f))" by (simp add: parse_fuel_def)
  have alts: "parse_alternates (parse_fuel (34 # bs @ [34])) False root_name 0 (34 # bs @ [34]) ?p
    = Inr ([], add_rule 0 (?r @ [gelem LLAMA_GRETYPE_END 0]) ?p)"
    unfolding f using parse_literal_text [OF assms, of "[]" "[]"]
    by (simp add: sequence_step_def andthen_def is_word_char_def is_digit_char_def)
  have "parse_rule ([114, 111, 111, 116, 32, 58, 58, 61, 32, 34] @ bs @ [34]) \<lparr>symbol_ids = [], p_rules = []\<rparr>
    = Inr ([], add_rule 0 (?r @ [gelem LLAMA_GRETYPE_END 0]) ?p)"
    by (simp add: parse_rule_def parse_name_def is_word_char_def is_digit_char_def root_name_def get_symbol_id_def andthen_def
      Let_def end_of_rule_def
      is_newline_def alts [unfolded root_name_def])
  moreover have "check_elements q (?r @ [gelem LLAMA_GRETYPE_END 0]) = None" for q
    by (induction cps) (simp_all add: undefined_ref_def)
  ultimately show ?thesis
    by (simp add: gbnf_parse_def parse_rules.simps andthen_def add_rule_def is_newline_def)
qed

lemma body_lang_char: "body_lang R [gelem LLAMA_GRETYPE_CHAR c] u \<longleftrightarrow> u = [c]"
proof
  assume "body_lang R [gelem LLAMA_GRETYPE_CHAR c] u"
  then show "u = [c]"
    by (cases rule: body_lang.cases) (auto simp: llama_grammar_match_char_def is_positive_char_def)
next
  assume "u = [c]"
  then show "body_lang R [gelem LLAMA_GRETYPE_CHAR c] u"
    using body_char [of "[gelem LLAMA_GRETYPE_CHAR c]" c 1 R "[]"] by (simp add: llama_grammar_match_char_def is_positive_char_def)
qed

lemma body_lang_chars: "body_lang R (map (gelem LLAMA_GRETYPE_CHAR) cps) w \<longleftrightarrow> w = cps"
proof (induction cps arbitrary: w)
  case (Cons c cs)
  have "boundary (map (gelem LLAMA_GRETYPE_CHAR) cs @ [gelem LLAMA_GRETYPE_END 0])" by (cases cs) (simp_all add: boundary_def)
  from body_lang_append [OF this, of R "[gelem LLAMA_GRETYPE_CHAR c]"] show ?case by (simp add: Cons.IH body_lang_char)
qed simp

lemma chars_rule_lang:
  "rule_lang [map (gelem LLAMA_GRETYPE_CHAR) cps @ [gelem LLAMA_GRETYPE_END 0]] 0 w \<longleftrightarrow> w = cps" (is "rule_lang ?R 0 w \<longleftrightarrow> _")
proof -
  have n: "no_end (map (gelem LLAMA_GRETYPE_CHAR) cps)" by (simp add: no_end_def is_end_of_sequence_def)
  have "pos_lang ?R (0, length cps) v \<longleftrightarrow> v = []" for v
    using pos_lang_end [of ?R "(0, length cps)" "gelem LLAMA_GRETYPE_END 0"]
    by (simp add: elem_at_def rest_at_def is_end_of_sequence_def)
  then have "pos_lang ?R (0, 0) w \<longleftrightarrow> w = cps"
    using pos_lang_body [of 0 ?R 0 "map (gelem LLAMA_GRETYPE_CHAR) cps" "[gelem LLAMA_GRETYPE_END 0]"] n body_lang_chars by simp
  moreover have "alt_starts (?R ! 0) = Some [0]"
    using no_end_starts [OF n, of "[gelem LLAMA_GRETYPE_END 0]" 0] by (simp add: alt_starts_def is_end_of_sequence_def)
  ultimately show ?thesis by (simp add: rule_lang_def)
qed

end
