(* ===== verification/Pretokenize.thy ===== *)
theory Pretokenize
  imports Utf8 "HOL-Library.Word"
begin

text \<open>
  Pre-tokenization (\<open>unicode_regex_split\<close> of \<open>unicode.cpp\<close>): a text is cut into words before BPE merges
  are looked for inside each of them. The tables of \<open>unicode-data.cpp\<close>, which a script generates, are
  an argument; so are the two \<open>std::regex\<close> engines. The hand-written splitters, the regular expressions
  over collapsed text, and the byte encoding of the words are definitions.
\<close>

unbundle bit_operations_syntax

section \<open>Flags of code points\<close>

text \<open>\<open>unicode_cpt_flags\<close> is its 16 bits: the bit fields are laid out from the lowest bit on.\<close>

type_synonym unicode_cpt_flags = "16 word"

definition flags_UNDEFINED :: unicode_cpt_flags where "flags_UNDEFINED = 0x0001"
definition flags_NUMBER :: unicode_cpt_flags where "flags_NUMBER = 0x0002"
definition flags_LETTER :: unicode_cpt_flags where "flags_LETTER = 0x0004"
definition flags_ACCENT_MARK :: unicode_cpt_flags where "flags_ACCENT_MARK = 0x0010"
definition flags_PUNCTUATION :: unicode_cpt_flags where "flags_PUNCTUATION = 0x0020"
definition flags_SYMBOL :: unicode_cpt_flags where "flags_SYMBOL = 0x0040"
definition flags_MASK_CATEGORIES :: unicode_cpt_flags where "flags_MASK_CATEGORIES = 0x00FF"

definition is_number :: "unicode_cpt_flags \<Rightarrow> bool" where "is_number f = bit f 1"
definition is_letter :: "unicode_cpt_flags \<Rightarrow> bool" where "is_letter f = bit f 2"
definition is_whitespace :: "unicode_cpt_flags \<Rightarrow> bool" where "is_whitespace f = bit f 8"

definition category_flag :: "unicode_cpt_flags \<Rightarrow> unicode_cpt_flags" where
  "category_flag f = f AND flags_MASK_CATEGORIES"

text \<open>The three classes are empty where there is no code point.\<close>

lemma no_flags [simp]: "\<not> is_number 0" "\<not> is_letter 0" "\<not> is_whitespace 0"
  by (simp_all add: is_number_def is_letter_def is_whitespace_def)

record range_nfd =
  nfd_first :: nat
  nfd_last :: nat
  nfd_nfd :: nat

record unicode_data =
  ranges_flags :: "(nat \<times> unicode_cpt_flags) list"
  set_whitespace :: "nat list"
  map_lowercase :: "(nat \<times> nat) list"
  map_uppercase :: "(nat \<times> nat) list"
  ranges_nfd :: "range_nfd list"

definition MAX_CODEPOINTS :: nat where
  "MAX_CODEPOINTS = 0x110000"

text \<open>
  \<open>std::vector<unicode_cpt_flags>\<close> of that length, as a function; a write outside is \<open>None\<close>, as is a failed
  assertion.
\<close>

definition or_flags :: "unicode_cpt_flags \<Rightarrow> nat \<Rightarrow> (nat \<Rightarrow> unicode_cpt_flags) \<Rightarrow> (nat \<Rightarrow> unicode_cpt_flags) option" where
  "or_flags b c flags = (if c < MAX_CODEPOINTS then Some (flags(c := flags c OR b)) else None)"

definition fill_flags ::
  "nat \<Rightarrow> nat \<Rightarrow> unicode_cpt_flags \<Rightarrow> (nat \<Rightarrow> unicode_cpt_flags) \<Rightarrow> (nat \<Rightarrow> unicode_cpt_flags) option" where
  "fill_flags ini en f flags =
     (if ini < en \<and> MAX_CODEPOINTS < en then None
      else Some (\<lambda>c. if ini \<le> c \<and> c < en then f else flags c))"

fun fill_ranges :: "(nat \<times> unicode_cpt_flags) list \<Rightarrow> (nat \<Rightarrow> unicode_cpt_flags) \<Rightarrow> (nat \<Rightarrow> unicode_cpt_flags) option" where
  "fill_ranges ((ini, f) # (en, g) # rs) flags = Option.bind (fill_flags ini en f flags) (fill_ranges ((en, g) # rs))"
| "fill_ranges _ flags = Some flags"

fun or_all :: "unicode_cpt_flags \<Rightarrow> nat list \<Rightarrow> (nat \<Rightarrow> unicode_cpt_flags) \<Rightarrow> (nat \<Rightarrow> unicode_cpt_flags) option" where
  "or_all b [] flags = Some flags"
| "or_all b (c # cs) flags = Option.bind (or_flags b c flags) (or_all b cs)"

definition unicode_cpt_flags_array :: "unicode_data \<Rightarrow> (nat \<Rightarrow> unicode_cpt_flags) option" where
  "unicode_cpt_flags_array T =
     (if ranges_flags T \<noteq> [] \<and> fst (hd (ranges_flags T)) = 0 \<and> fst (last (ranges_flags T)) = MAX_CODEPOINTS
      then do {
        a \<leftarrow> fill_ranges (ranges_flags T) (\<lambda>_. flags_UNDEFINED);
        a \<leftarrow> or_all 0x0100 (set_whitespace T) a;
        a \<leftarrow> or_all 0x0200 (map snd (map_lowercase T)) a;
        a \<leftarrow> or_all 0x0400 (map snd (map_uppercase T)) a;
        or_all 0x0800 (map nfd_nfd (ranges_nfd T)) a
      }
      else None)"

text \<open>The lookup in the array, the static variable of the code.\<close>

definition unicode_cpt_flags_from_cpt :: "(nat \<Rightarrow> unicode_cpt_flags) \<Rightarrow> nat \<Rightarrow> unicode_cpt_flags" where
  "unicode_cpt_flags_from_cpt cpt_flags cpt = (if cpt < MAX_CODEPOINTS then cpt_flags cpt else flags_UNDEFINED)"

text \<open>\<open>None\<close> is the exception of the decoder.\<close>

definition unicode_cpt_flags_from_utf8 :: "(nat \<Rightarrow> unicode_cpt_flags) \<Rightarrow> byte list \<Rightarrow> unicode_cpt_flags option" where
  "unicode_cpt_flags_from_utf8 cpt_flags utf8 =
     (if utf8 = [] then Some flags_UNDEFINED
      else map_option (\<lambda>(cpt, off). unicode_cpt_flags_from_cpt cpt_flags cpt) (unicode_cpt_from_utf8 utf8 0))"

section \<open>Case and canonical decomposition\<close>

text \<open>\<open>std::lower_bound\<close> and \<open>std::upper_bound\<close> on a table sorted by its first components.\<close>

definition unicode_tolower :: "unicode_data \<Rightarrow> nat \<Rightarrow> nat" where
  "unicode_tolower T cpt =
     (case dropWhile (\<lambda>p. fst p < cpt) (map_lowercase T) of
        p # _ \<Rightarrow> if fst p = cpt then snd p else cpt
      | [] \<Rightarrow> cpt)"

text \<open>The range before the upper bound; \<open>None\<close> where that is before the table.\<close>

definition normalize_cpt :: "unicode_data \<Rightarrow> nat \<Rightarrow> nat option" where
  "normalize_cpt T cpt =
     (case takeWhile (\<lambda>r. nfd_first r \<le> cpt) (ranges_nfd T) of
        [] \<Rightarrow> None
      | rs \<Rightarrow> (let it = List.last rs in
               Some (if nfd_first it \<le> cpt \<and> cpt \<le> nfd_last it then nfd_nfd it else cpt)))"

fun unicode_cpts_normalize_nfd :: "unicode_data \<Rightarrow> nat list \<Rightarrow> nat list option" where
  "unicode_cpts_normalize_nfd T [] = Some []"
| "unicode_cpts_normalize_nfd T (c # cs) = do {
     d \<leftarrow> normalize_cpt T c; ds \<leftarrow> unicode_cpts_normalize_nfd T cs; Some (d # ds)
   }"

section \<open>The hand-written splitters\<close>

text \<open>
  \<open>_get_cpt\<close> and \<open>_get_flags\<close> look at the piece of the text from \<open>ini\<close> to \<open>en\<close>; outside there is no code
  point and no flag.
\<close>

definition OUT_OF_RANGE :: nat where
  "OUT_OF_RANGE = 0xFFFFFFFF"

record piece_view =
  pv_cpts :: "nat list"
  pv_flags :: "nat \<Rightarrow> unicode_cpt_flags"
  pv_lower :: "nat \<Rightarrow> nat"
  pv_ini :: nat
  pv_end :: nat

definition get_cpt :: "piece_view \<Rightarrow> nat \<Rightarrow> nat" where
  "get_cpt v pos = (if pv_ini v \<le> pos \<and> pos < pv_end v then pv_cpts v ! pos else OUT_OF_RANGE)"

definition get_flags :: "piece_view \<Rightarrow> nat \<Rightarrow> unicode_cpt_flags" where
  "get_flags v pos = (if pv_ini v \<le> pos \<and> pos < pv_end v then pv_flags v (pv_cpts v ! pos) else 0)"

text \<open>
  \<open>_add_token\<close>: the length of the token, \<open>_prev_end\<close> and the offsets. \<open>None\<close> is the failed assertion.
\<close>

type_synonym token_state = "nat \<times> nat list"

definition add_token :: "piece_view \<Rightarrow> nat \<Rightarrow> token_state \<Rightarrow> (nat \<times> token_state) option" where
  "add_token v en st =
     (case st of (prev_end, out) \<Rightarrow>
        if prev_end \<le> en \<and> en \<le> pv_end v
        then (let len = en - prev_end in Some (len, (en, if len > 0 then out @ [len] else out)))
        else None)"

text \<open>
  \<open>while (P(pos)) pos++\<close>. The loops test a class of the code point at the position, which holds of no
  position after the end; \<open>scan_while_unfold\<close> below is the loop without the bound.
\<close>

function scan_while :: "(nat \<Rightarrow> bool) \<Rightarrow> nat \<Rightarrow> nat \<Rightarrow> nat" where
  "scan_while P en pos = (if pos < en \<and> P pos then scan_while P en (Suc pos) else pos)"
  by pat_completeness auto
termination
  by (relation "measure (\<lambda>(P, en, pos). en - pos)") auto

declare scan_while.simps [simp del]

lemma scan_while_unfold:
  "(\<And>p. en \<le> p \<Longrightarrow> \<not> P p) \<Longrightarrow> scan_while P en pos = (if P pos then scan_while P en (Suc pos) else pos)"
  by (subst scan_while.simps) (auto simp: not_less)

definition is_other :: "unicode_cpt_flags \<Rightarrow> bool" where
  "is_other f = (\<not> (is_whitespace f \<or> is_letter f \<or> is_number f) \<and> f \<noteq> 0)"

text \<open>The contractions: the number of code points after the apostrophe, or 0.\<close>

definition contraction :: "(nat \<Rightarrow> nat) \<Rightarrow> piece_view \<Rightarrow> nat \<Rightarrow> nat" where
  "contraction lower v pos =
     (if get_cpt v pos = 39 \<and> pos + 1 < pv_end v
      then (let c1 = lower (get_cpt v (pos + 1)) in
            if c1 = 115 \<or> c1 = 116 \<or> c1 = 109 \<or> c1 = 100 then 1
            else if pos + 2 < pv_end v
            then (let c2 = lower (get_cpt v (pos + 2)) in
                  if (c1 = 114 \<and> c2 = 101) \<or> (c1 = 118 \<and> c2 = 101) \<or> (c1 = 108 \<and> c2 = 108) then 2 else 0)
            else 0)
      else 0)"

text \<open>The white space from a position on, as both splitters end their round.\<close>

definition whitespace_end :: "piece_view \<Rightarrow> nat \<Rightarrow> nat" where
  "whitespace_end v pos =
     (let num_whitespaces = scan_while (\<lambda>p. is_whitespace (get_flags v p)) (pv_end v) pos - pos in
      if num_whitespaces > 1 \<and> get_cpt v (pos + num_whitespaces) \<noteq> OUT_OF_RANGE then pos + (num_whitespaces - 1)
      else if num_whitespaces > 0 then pos + num_whitespaces
      else pos + 1)"

text \<open>One round of the loop of \<open>unicode_regex_split_custom_gpt2\<close>: the new position and the tokens.\<close>

definition gpt2_round :: "piece_view \<Rightarrow> nat \<Rightarrow> token_state \<Rightarrow> (nat \<times> token_state) option" where
  "gpt2_round v pos st =
     (let cpt = get_cpt v pos; flags = get_flags v pos; n = contraction (\<lambda>c. c) v pos in
      if n > 0 then map_option (\<lambda>(len, st1). (pos + len, st1)) (add_token v (pos + 1 + n) st)
      else
        (let flags2 = (if cpt = 32 then get_flags v (pos + 1) else flags);
             pos1 = (if cpt = 32 then pos + 1 else pos);
             token = (\<lambda>en. map_option (\<lambda>(len, st1). (en, st1)) (add_token v en st))
         in if is_letter flags2 then token (scan_while (\<lambda>p. is_letter (get_flags v p)) (pv_end v) pos1)
            else if is_number flags2 then token (scan_while (\<lambda>p. is_number (get_flags v p)) (pv_end v) pos1)
            else if is_other flags2 then token (scan_while (\<lambda>p. is_other (get_flags v p)) (pv_end v) pos1)
            else token (whitespace_end v pos)))"

partial_function (option) gpt2_loop :: "piece_view \<Rightarrow> nat \<Rightarrow> token_state \<Rightarrow> token_state option" where
  "gpt2_loop v pos st =
     (if pos < pv_end v
      then Option.bind (gpt2_round v pos st) (\<lambda>(pos1, st1). gpt2_loop v pos1 st1)
      else Some st)"

text \<open>The pieces one after the other, each with its own \<open>_prev_end\<close>; \<open>loop\<close> is the inner loop.\<close>

fun split_custom ::
  "(piece_view \<Rightarrow> nat \<Rightarrow> token_state \<Rightarrow> token_state option) \<Rightarrow> (nat \<Rightarrow> unicode_cpt_flags) \<Rightarrow> (nat \<Rightarrow> nat) \<Rightarrow> nat list
    \<Rightarrow> nat list \<Rightarrow> nat \<Rightarrow> nat list \<Rightarrow> nat list option"
where
  "split_custom loop flags lower cpts [] start out = Some out"
| "split_custom loop flags lower cpts (off # offs) start out =
     (if start + off \<le> length cpts
      then (let v = \<lparr>pv_cpts = cpts, pv_flags = flags, pv_lower = lower, pv_ini = start, pv_end = start + off\<rparr>
            in Option.bind (loop v start (start, out)) (\<lambda>(prev_end, out1). split_custom loop flags lower cpts offs (start + off) out1))
      else None)"

definition unicode_regex_split_custom_gpt2 ::
  "unicode_data \<Rightarrow> (nat \<Rightarrow> unicode_cpt_flags) \<Rightarrow> byte list \<Rightarrow> nat list \<Rightarrow> nat list option" where
  "unicode_regex_split_custom_gpt2 T cpt_flags txt offsets =
     split_custom gpt2_loop (unicode_cpt_flags_from_cpt cpt_flags) (unicode_tolower T) (unicode_cpts_from_utf8 txt) offsets 0 []"

text \<open>
  The numbers of a round of \<open>unicode_regex_split_custom_llama3\<close>: a token after every third, and one for
  the rest.
\<close>

function number_tokens :: "piece_view \<Rightarrow> nat \<Rightarrow> nat \<Rightarrow> token_state \<Rightarrow> (nat \<times> token_state) option" where
  "number_tokens v ini pos st =
     (if pos < pv_end v \<and> is_number (get_flags v pos)
      then if Suc pos - ini \<ge> 3
           then (case add_token v (Suc pos) st of
                   None \<Rightarrow> None
                 | Some (_, st1) \<Rightarrow> number_tokens v (Suc pos) (Suc pos) st1)
           else number_tokens v ini (Suc pos) st
      else map_option (\<lambda>(_, st1). (pos, st1)) (add_token v pos st))"
  by pat_completeness auto
termination
  by (relation "measure (\<lambda>(v, ini, pos, st). pv_end v - pos)") auto

declare number_tokens.simps [simp del]

text \<open>White space up to the last line break in it; 0 without a line break.\<close>

definition is_line_break :: "nat \<Rightarrow> bool" where
  "is_line_break c = (c = 13 \<or> c = 10)"

function last_line_break :: "piece_view \<Rightarrow> nat \<Rightarrow> nat \<Rightarrow> nat" where
  "last_line_break v pos last_end =
     (if pos < pv_end v \<and> is_whitespace (get_flags v pos)
      then last_line_break v (Suc pos) (if is_line_break (get_cpt v pos) then Suc pos else last_end)
      else last_end)"
  by pat_completeness auto
termination
  by (relation "measure (\<lambda>(v, pos, last_end). pv_end v - pos)") auto

declare last_line_break.simps [simp del]

definition llama3_round :: "piece_view \<Rightarrow> nat \<Rightarrow> token_state \<Rightarrow> (nat \<times> token_state) option" where
  "llama3_round v pos st =
     (let cpt = get_cpt v pos; flags = get_flags v pos; n = contraction (pv_lower v) v pos in
      if n > 0 then map_option (\<lambda>(len, st1). (pos + len, st1)) (add_token v (pos + 1 + n) st)
      else
        (let flags2 = (if cpt = 32 then get_flags v (pos + 1) else flags);
             pos1 = (if cpt = 32 then pos + 1 else pos);
             token = (\<lambda>en. map_option (\<lambda>(len, st1). (en, st1)) (add_token v en st));
             last_end_r_or_n = last_line_break v pos 0
         in if \<not> (is_line_break cpt \<or> is_number flags) \<and> (is_letter flags \<or> is_letter (get_flags v (pos + 1)))
            then token (scan_while (\<lambda>p. is_letter (get_flags v p)) (pv_end v) (pos + 1))
            else if is_number flags then number_tokens v pos pos st
            else if \<not> (is_whitespace flags2 \<or> is_letter flags2 \<or> is_number flags2) \<and> flags \<noteq> 0
            then token (scan_while (\<lambda>p. is_line_break (get_cpt v p)) (pv_end v)
                          (scan_while (\<lambda>p. is_other (get_flags v p)) (pv_end v) pos1))
            else if last_end_r_or_n > 0 then token last_end_r_or_n
            else token (whitespace_end v pos)))"

partial_function (option) llama3_loop :: "piece_view \<Rightarrow> nat \<Rightarrow> token_state \<Rightarrow> token_state option" where
  "llama3_loop v pos st =
     (if pos < pv_end v
      then Option.bind (llama3_round v pos st) (\<lambda>(pos1, st1). llama3_loop v pos1 st1)
      else Some st)"

definition unicode_regex_split_custom_llama3 ::
  "unicode_data \<Rightarrow> (nat \<Rightarrow> unicode_cpt_flags) \<Rightarrow> byte list \<Rightarrow> nat list \<Rightarrow> nat list option" where
  "unicode_regex_split_custom_llama3 T cpt_flags txt offsets =
     split_custom llama3_loop (unicode_cpt_flags_from_cpt cpt_flags) (unicode_tolower T) (unicode_cpts_from_utf8 txt) offsets 0 []"

section \<open>Regular expressions\<close>

text \<open>
  The exceptions that leave \<open>unicode_regex_split\<close>; \<open>Aborted\<close> is a failed assertion or an access outside
  an array.
\<close>

datatype split_error = Regex_Failed | Regex_Mixed | Invalid_Codepoint | Aborted

definition attempt :: "'e + 'a \<Rightarrow> ('a \<Rightarrow> 'e + 'b) \<Rightarrow> 'e + 'b" where
  "attempt m f = (case m of Inl e \<Rightarrow> Inl e | Inr x \<Rightarrow> f x)"

definition or_fail :: "'e \<Rightarrow> 'a option \<Rightarrow> 'e + 'a" where
  "or_fail e m = (case m of None \<Rightarrow> Inl e | Some x \<Rightarrow> Inr x)"

text \<open>
  The matches of a regular expression in a piece, as \<open>std::regex_iterator\<close> lists them: positions and
  lengths. What lies between two matches is a word of its own.
\<close>

fun stl_words :: "nat \<Rightarrow> nat \<Rightarrow> (nat \<times> nat) list \<Rightarrow> nat list" where
  "stl_words off start_idx [] = (if start_idx < off then [off - start_idx] else [])"
| "stl_words off start_idx ((p, len) # ms) =
     (if p > start_idx then [p - start_idx] else []) @ [len] @ stl_words off (p + len) ms"

text \<open>Both overloads, for \<open>std::string\<close> and \<open>std::wstring\<close>; no match list is \<open>std::regex_error\<close>.\<close>

fun unicode_regex_split_stl ::
  "('a list \<Rightarrow> (nat \<times> nat) list option) \<Rightarrow> 'a list \<Rightarrow> nat list \<Rightarrow> nat \<Rightarrow> split_error + nat list"
where
  "unicode_regex_split_stl expr txt [] start = Inr []"
| "unicode_regex_split_stl expr txt (off # offs) start =
     (if start + off \<le> length txt
      then attempt (or_fail Regex_Failed (expr (take off (drop start txt)))) (\<lambda>ms.
             attempt (unicode_regex_split_stl expr txt offs (start + off)) (\<lambda>out.
               Inr (stl_words off 0 ms @ out)))
      else Inl Aborted)"

text \<open>Regular expressions are written with a slash for the backslash, 92; they have no slash of their own.\<close>

definition regex_text :: "string \<Rightarrow> byte list" where
  "regex_text s = map (\<lambda>c. if c = CHR ''/'' then 92 else of_char c) s"

definition gpt2_expr :: "byte list" where
  "gpt2_expr = regex_text '''s|'t|'re|'ve|'m|'ll|'d| ?/p{L}+| ?/p{N}+| ?[^/s/p{L}/p{N}]+|/s+(?!/S)''"

definition llama3_exprs :: "byte list list" where
  "llama3_exprs = map (\<lambda>s. regex_text (s @ ''|[^/r/n/p{L}/p{N}]?/p{L}+|/p{N}{1,3}| ?[^/s/p{L}/p{N}]+[/r/n]*|/s*[/r/n]+|/s+(?!/S)|/s+''))
     [''(?i:'s|'t|'re|'ve|'m|'ll|'d)'', ''(?:'[sS]|'[tT]|'[rR][eE]|'[vV][eE]|'[mM]|'[lL][lL]|'[dD])'']"

definition unicode_regex_split_custom ::
  "unicode_data \<Rightarrow> (nat \<Rightarrow> unicode_cpt_flags) \<Rightarrow> byte list \<Rightarrow> byte list \<Rightarrow> nat list \<Rightarrow> nat list option" where
  "unicode_regex_split_custom T cpt_flags txt regex_expr offsets =
     (if regex_expr = gpt2_expr then unicode_regex_split_custom_gpt2 T cpt_flags txt offsets
      else if regex_expr \<in> set llama3_exprs then unicode_regex_split_custom_llama3 T cpt_flags txt offsets
      else Some [])"

section \<open>Unicode categories over collapsed text\<close>

text \<open>
  \<open>k_ucat_enum\<close>, \<open>k_ucat_cpt\<close> and \<open>k_ucat_map\<close> in one table: the letter of the category, its flag, the
  byte it is collapsed to, and its members among the ASCII characters, as the inside of a class.
\<close>

definition k_ucat :: "(char \<times> unicode_cpt_flags \<times> byte \<times> byte list) list" where
  "k_ucat =
     [(CHR ''N'', flags_NUMBER, 0xD1, [0x30, 0x2D, 0x39]),
      (CHR ''L'', flags_LETTER, 0xD2, [0x41, 0x2D, 0x5A, 0x61, 0x2D, 0x7A]),
      (CHR ''P'', flags_PUNCTUATION, 0xD3,
        [0x21, 0x2D, 0x23, 0x25, 0x2D, 0x2A, 0x2C, 0x2D, 0x2F, 0x3A, 0x2D, 0x3B, 0x3F, 0x2D, 0x40, 92, 0x5B, 0x2D, 92, 0x5D,
         0x5F, 92, 0x7B, 92, 0x7D]),
      (CHR ''M'', flags_ACCENT_MARK, 0xD4, []),
      (CHR ''S'', flags_SYMBOL, 0xD5, [92, 0x24, 92, 0x2B, 0x3C, 0x2D, 0x3E, 0x5E, 0x60, 92, 0x7C])]"

definition ucat_name :: "char \<Rightarrow> byte list" where
  "ucat_name c = regex_text (''/p{'' @ [c] @ ''}'')"

fun contains :: "byte list \<Rightarrow> byte list \<Rightarrow> bool" where
  "contains pat [] = (pat = [])"
| "contains pat (c # s) = (take (length pat) (c # s) = pat \<or> contains pat s)"

definition uses_category :: "byte list \<Rightarrow> bool" where
  "uses_category regex_expr = list_ex (\<lambda>(l, _). contains (ucat_name l) regex_expr) k_ucat"

definition collapse_cpt :: "(nat \<Rightarrow> unicode_cpt_flags) \<Rightarrow> nat \<Rightarrow> byte" where
  "collapse_cpt cpt_flags c =
     (if c < 128 then c
      else (let flags = unicode_cpt_flags_from_cpt cpt_flags c in
            if is_whitespace flags then 0x0B
            else (case find (\<lambda>(_, f, _). f = category_flag flags) k_ucat of
                    Some (_, _, b, _) \<Rightarrow> b
                  | None \<Rightarrow> 0xD0)))"

text \<open>The expression over collapsed text; \<open>prev\<close> is the byte before, none at the start.\<close>

function collapse_regex :: "byte option \<Rightarrow> bool \<Rightarrow> byte list \<Rightarrow> byte list" where
  "collapse_regex prev inside [] = []"
| "collapse_regex prev inside (c # s) =
     (if c = 91 \<and> prev \<noteq> Some 92 then 91 # collapse_regex (Some c) True s
      else if inside \<and> c = 93 \<and> prev \<noteq> Some 92 then 93 # collapse_regex (Some c) False s
      else (case (if 4 \<le> length s then find (\<lambda>(l, _). ucat_name l = c # take 4 s) k_ucat else None) of
              Some (_, _, b, members) \<Rightarrow>
                (if inside then [] else [91]) @ [b] @ members @ (if inside then [] else [93])
                  @ collapse_regex (Some 125) inside (drop 4 s)
            | None \<Rightarrow> c # collapse_regex (Some c) inside s))"
  by pat_completeness auto
termination
  by (relation "measure (\<lambda>(_, _, s). length s)") auto

text \<open>Wide text, for expressions without categories.\<close>

definition wide_cpt :: "(nat \<Rightarrow> unicode_cpt_flags) \<Rightarrow> nat \<Rightarrow> nat" where
  "wide_cpt cpt_flags c =
     (if c > 0x7F \<and> is_whitespace (unicode_cpt_flags_from_cpt cpt_flags c) then 0x0B else c)"

section \<open>The words\<close>

text \<open>
  One expression: the hand-written splitter, or the engine for narrow or wide strings, which takes the
  expression and the piece. Making the wide expression from its UTF-8 text is part of \<open>wregex\<close>.
\<close>

definition split_expr ::
  "(byte list \<Rightarrow> byte list \<Rightarrow> (nat \<times> nat) list option) \<Rightarrow> (byte list \<Rightarrow> nat list \<Rightarrow> (nat \<times> nat) list option)
    \<Rightarrow> unicode_data \<Rightarrow> (nat \<Rightarrow> unicode_cpt_flags) \<Rightarrow> byte list \<Rightarrow> byte list \<Rightarrow> nat list \<Rightarrow> split_error + nat list"
where
  "split_expr regex wregex T cpt_flags txt regex_expr bpe_offsets =
     (let cpts = unicode_cpts_from_utf8 txt in
      attempt (or_fail Aborted (unicode_regex_split_custom T cpt_flags txt regex_expr bpe_offsets)) (\<lambda>tmp.
        if tmp \<noteq> [] then Inr tmp
        else if uses_category regex_expr
        then if list_ex (\<lambda>c. c \<ge> 128) (unicode_cpts_from_utf8 regex_expr) then Inl Regex_Mixed
             else unicode_regex_split_stl (regex (collapse_regex None False regex_expr)) (map (collapse_cpt cpt_flags) cpts)
                    bpe_offsets 0
        else unicode_regex_split_stl (wregex regex_expr) (map (wide_cpt cpt_flags) cpts) bpe_offsets 0))"

fun split_exprs :: "(byte list \<Rightarrow> nat list \<Rightarrow> split_error + nat list) \<Rightarrow> byte list list \<Rightarrow> nat list \<Rightarrow> split_error + nat list" where
  "split_exprs one [] offs = Inr offs"
| "split_exprs one (e # es) offs = attempt (one e offs) (split_exprs one es)"

fun bpe_words_from :: "nat list \<Rightarrow> nat list \<Rightarrow> nat \<Rightarrow> split_error + byte list list" where
  "bpe_words_from cpts [] start = Inr []"
| "bpe_words_from cpts (off # offs) start =
     (if start + off \<le> length cpts
      then attempt (or_fail Invalid_Codepoint (unicode_cpts_to_utf8 (take off (drop start cpts)))) (\<lambda>w.
             attempt (bpe_words_from cpts offs (start + off)) (\<lambda>ws. Inr (w # ws)))
      else Inl Aborted)"

fun encode_bytes :: "byte list \<Rightarrow> byte list option" where
  "encode_bytes [] = Some []"
| "encode_bytes (b # bs) = do { s \<leftarrow> unicode_byte_to_utf8 b; t \<leftarrow> encode_bytes bs; Some (s @ t) }"

fun unicode_byte_encoding_process :: "byte list list \<Rightarrow> split_error + byte list list" where
  "unicode_byte_encoding_process [] = Inr []"
| "unicode_byte_encoding_process (word # ws) =
     attempt (or_fail Invalid_Codepoint (unicode_cpts_to_utf8 (unicode_cpts_from_utf8 word))) (\<lambda>text_utf.
       attempt (or_fail Aborted (encode_bytes text_utf)) (\<lambda>w.
         attempt (unicode_byte_encoding_process ws) (\<lambda>r. Inr (w # r))))"

definition unicode_regex_split ::
  "(byte list \<Rightarrow> byte list \<Rightarrow> (nat \<times> nat) list option) \<Rightarrow> (byte list \<Rightarrow> nat list \<Rightarrow> (nat \<times> nat) list option)
    \<Rightarrow> unicode_data \<Rightarrow> (nat \<Rightarrow> unicode_cpt_flags) \<Rightarrow> byte list \<Rightarrow> byte list list \<Rightarrow> split_error + byte list list"
where
  "unicode_regex_split regex wregex T cpt_flags txt regex_exprs =
     (let cpts = unicode_cpts_from_utf8 txt in
      attempt (split_exprs (split_expr regex wregex T cpt_flags txt) regex_exprs [length cpts]) (\<lambda>bpe_offsets.
        attempt (bpe_words_from cpts bpe_offsets 0) unicode_byte_encoding_process))"

end
