(* ===== verification/PretokOk.thy ===== *)
theory PretokOk
  imports Pretokenize
begin

text \<open>
  Pre-tokenization loses nothing: the splitters return, never fail an assertion, and cut a piece into
  tokens that cover it. The two hand-written splitters share the locale \<open>splitter\<close>, whose law is that
  a round makes progress inside the piece.
\<close>

section \<open>Scanning\<close>

lemma scan_while_ge: "pos \<le> scan_while P en pos"
  by (induction P en pos rule: scan_while.induct) (subst scan_while.simps, auto)

lemma scan_while_le: "pos \<le> en \<Longrightarrow> scan_while P en pos \<le> en"
  by (induction P en pos rule: scan_while.induct) (subst scan_while.simps, auto)

lemma scan_while_gt: "P pos \<Longrightarrow> pos < en \<Longrightarrow> pos < scan_while P en pos"
  using scan_while_ge [of "Suc pos" P en] by (subst scan_while.simps) simp

lemma scan_while_stop: "\<not> P pos \<Longrightarrow> scan_while P en pos = pos"
  by (subst scan_while.simps) simp

lemma get_flags_in: "get_flags v pos \<noteq> 0 \<Longrightarrow> pos < pv_end v"
  by (auto simp: get_flags_def split: if_splits)

lemma class_in:
  "is_letter (get_flags v pos) \<Longrightarrow> pos < pv_end v" "is_number (get_flags v pos) \<Longrightarrow> pos < pv_end v"
  "is_whitespace (get_flags v pos) \<Longrightarrow> pos < pv_end v" "is_other (get_flags v pos) \<Longrightarrow> pos < pv_end v"
  by (auto intro!: get_flags_in simp: is_other_def)

lemma last_line_break_in:
  "last_e = 0 \<or> (pos0 < last_e \<and> last_e \<le> pv_end v) \<Longrightarrow> pos0 \<le> pos \<Longrightarrow>
    last_line_break v pos last_e = 0 \<or> (pos0 < last_line_break v pos last_e \<and> last_line_break v pos last_e \<le> pv_end v)"
proof (induction v pos last_e rule: last_line_break.induct)
  case (1 v pos last_e)
  then show ?case using last_line_break.simps [of v pos last_e] by (auto split: if_splits)
qed

lemma whitespace_end_in:
  assumes "pos < pv_end v"
  shows "pos < whitespace_end v pos" "whitespace_end v pos \<le> pv_end v"
  using scan_while_le [of pos "pv_end v" "\<lambda>p. is_whitespace (get_flags v p)"] assms
    scan_while_ge [of pos "\<lambda>p. is_whitespace (get_flags v p)" "pv_end v"]
  by (auto simp: whitespace_end_def Let_def)

lemma contraction_in: "contraction lower v pos > 0 \<Longrightarrow> pos + 1 + contraction lower v pos \<le> pv_end v"
  by (auto simp: contraction_def Let_def split: if_splits)

section \<open>Tokens of a round\<close>

text \<open>A round appends tokens of positive length that end where it ends.\<close>

definition advances_to :: "piece_view \<Rightarrow> nat \<Rightarrow> nat list \<Rightarrow> nat \<Rightarrow> (nat \<times> token_state) option \<Rightarrow> bool" where
  "advances_to v pos out pos' r =
     (\<exists>lens. r = Some (pos', (pos', out @ lens)) \<and> sum_list lens = pos' - pos \<and> 0 \<notin> set lens)"

definition makes_progress :: "piece_view \<Rightarrow> nat \<Rightarrow> nat list \<Rightarrow> (nat \<times> token_state) option \<Rightarrow> bool" where
  "makes_progress v pos out r = (\<exists>pos'. pos < pos' \<and> pos' \<le> pv_end v \<and> advances_to v pos out pos' r)"

lemma add_token_progress:
  assumes "pos < en" "en \<le> pv_end v"
  shows "makes_progress v pos out (map_option (\<lambda>(len, st1). (en, st1)) (add_token v en (pos, out)))"
    "n = en - pos \<Longrightarrow> makes_progress v pos out (map_option (\<lambda>(len, st1). (pos + len, st1)) (add_token v en (pos, out)))"
  using assms by (auto simp: makes_progress_def advances_to_def add_token_def Let_def intro!: exI [of _ en])

lemma gpt2_round_progress:
  assumes "pos < pv_end v"
  shows "makes_progress v pos out (gpt2_round v pos (pos, out))"
proof (cases "contraction (\<lambda>c. c) v pos > 0")
  case True
  then show ?thesis using contraction_in [OF True] by (auto simp: gpt2_round_def Let_def intro: add_token_progress)
next
  case False
  let ?f2 = "if get_cpt v pos = 32 then get_flags v (pos + 1) else get_flags v pos"
  let ?pos1 = "if get_cpt v pos = 32 then pos + 1 else pos"
  have scan: "pos < scan_while (\<lambda>p. C (get_flags v p)) (pv_end v) ?pos1 \<and> scan_while (\<lambda>p. C (get_flags v p)) (pv_end v) ?pos1 \<le> pv_end v"
    if "C ?f2" "\<And>p. C (get_flags v p) \<Longrightarrow> p < pv_end v" for C
  proof -
    have "C (get_flags v ?pos1)" "pos \<le> ?pos1" using that(1) by (auto split: if_splits)
    then show ?thesis using scan_while_gt [of "\<lambda>p. C (get_flags v p)" ?pos1 "pv_end v"] scan_while_le [of ?pos1 "pv_end v"] that(2)
      by (meson le_less_trans less_imp_le_nat)
  qed
  show ?thesis using False assms scan [of is_letter] scan [of is_number] scan [of is_other] class_in whitespace_end_in [OF assms]
    unfolding gpt2_round_def Let_def by (simp add: add_token_progress(1))
qed

lemma advances_to_step:
  assumes "add_token v en (pos, out) = Some (n, st1)" "pos < en" "st1 = (en, out @ [en - pos])"
    "advances_to v en (out @ [en - pos]) pos' r" "en \<le> pos'"
  shows "advances_to v pos out pos' r"
proof -
  obtain lens where "r = Some (pos', (pos', (out @ [en - pos]) @ lens))" "sum_list lens = pos' - en" "0 \<notin> set lens"
    using assms(4) by (auto simp: advances_to_def)
  then show ?thesis using assms(2,5) by (auto simp: advances_to_def intro!: exI [of _ "(en - pos) # lens"])
qed

text \<open>The tokens of a run of numbers; \<open>ini\<close> is where the last token ended.\<close>

lemma number_tokens_advances:
  "ini \<le> pos \<Longrightarrow> pos \<le> pv_end v \<Longrightarrow> 
    \<exists>pos'. pos \<le> pos' \<and> pos' \<le> pv_end v \<and> advances_to v ini out pos' (number_tokens v ini pos (ini, out))"
proof (induction "pv_end v - pos" arbitrary: pos ini out rule: less_induct)
  case less
  show ?case
  proof (cases "pos < pv_end v \<and> is_number (get_flags v pos)")
    case True
    show ?thesis
    proof (cases "Suc pos - ini \<ge> 3")
      case three: True
      have a: "add_token v (Suc pos) (ini, out) = Some (Suc pos - ini, (Suc pos, out @ [Suc pos - ini]))"
        using True less.prems three by (simp add: add_token_def Let_def)
      have n: "number_tokens v ini pos (ini, out) = number_tokens v (Suc pos) (Suc pos) (Suc pos, out @ [Suc pos - ini])"
        using number_tokens.simps [of v ini pos "(ini, out)"] True three a by simp
      obtain pos' where "Suc pos \<le> pos'" "pos' \<le> pv_end v"
        "advances_to v (Suc pos) (out @ [Suc pos - ini]) pos' (number_tokens v ini pos (ini, out))"
        using less.hyps [of "Suc pos" "Suc pos" "out @ [Suc pos - ini]"] True diff_less_mono2 [of pos "Suc pos" "pv_end v"] unfolding n by auto
      then show ?thesis using advances_to_step [OF a] three by (metis Suc_leD less_Suc_eq_le less.prems(1))
    next
      case False
      then have n: "number_tokens v ini pos (ini, out) = number_tokens v ini (Suc pos) (ini, out)"
        using number_tokens.simps [of v ini pos "(ini, out)"] True by simp
      show ?thesis using less.hyps [of "Suc pos" ini out] True less.prems unfolding n by (meson Suc_leD Suc_leI diff_less_mono2 lessI le_SucI)
    qed
  next
    case False
    then have "advances_to v ini out pos (number_tokens v ini pos (ini, out))"
      using number_tokens.simps [of v ini pos "(ini, out)"] less.prems
      by (auto simp: advances_to_def add_token_def Let_def)
    then show ?thesis using less.prems by blast
  qed
qed

lemma number_tokens_progress:
  assumes "pos < pv_end v" "is_number (get_flags v pos)"
  shows "makes_progress v pos out (number_tokens v pos pos (pos, out))"
proof -
  have "number_tokens v pos pos (pos, out) = number_tokens v pos (Suc pos) (pos, out)"
    using number_tokens.simps [of v pos pos "(pos, out)"] assms by simp
  then show ?thesis using number_tokens_advances [of pos "Suc pos" v out] assms(1) by (auto simp: makes_progress_def Suc_le_eq)
qed

lemma llama3_round_progress:
  assumes "pos < pv_end v"
  shows "makes_progress v pos out (llama3_round v pos (pos, out))"
proof (cases "contraction (pv_lower v) v pos > 0")
  case True
  then show ?thesis using contraction_in [OF True] by (auto simp: llama3_round_def Let_def intro: add_token_progress)
next
  case False
  let ?f2 = "if get_cpt v pos = 32 then get_flags v (pos + 1) else get_flags v pos"
  let ?pos1 = "if get_cpt v pos = 32 then pos + 1 else pos"
  let ?others = "scan_while (\<lambda>p. is_other (get_flags v p)) (pv_end v) ?pos1"
  let ?breaks = "scan_while (\<lambda>p. is_line_break (get_cpt v p)) (pv_end v) ?others"
  let ?letters = "scan_while (\<lambda>p. is_letter (get_flags v p)) (pv_end v) (pos + 1)"
  have letters: "pos < ?letters" "?letters \<le> pv_end v"
    using scan_while_ge [of "pos + 1" "\<lambda>p. is_letter (get_flags v p)" "pv_end v"]
      scan_while_le [of "pos + 1" "pv_end v" "\<lambda>p. is_letter (get_flags v p)"] assms by auto
  have others: "pos < ?breaks" "?breaks \<le> pv_end v"
    if "\<not> (is_whitespace ?f2 \<or> is_letter ?f2 \<or> is_number ?f2)" "get_flags v pos \<noteq> 0"
  proof -
    have "pos < ?others"
    proof (cases "get_cpt v pos = 32")
      case True
      then show ?thesis using scan_while_ge [of "pos + 1" "\<lambda>p. is_other (get_flags v p)" "pv_end v"] by simp
    next
      case False
      then show ?thesis using scan_while_gt [of "\<lambda>p. is_other (get_flags v p)" pos] that assms by (simp add: is_other_def)
    qed
    moreover have "?pos1 \<le> pv_end v" using assms by simp
    ultimately show "pos < ?breaks" "?breaks \<le> pv_end v"
      using scan_while_ge [of ?others "\<lambda>p. is_line_break (get_cpt v p)" "pv_end v"]
        scan_while_le [OF scan_while_le, of ?pos1 "pv_end v"] by (auto simp del: if_splits split del: if_split intro: le_trans)
  qed
  have breaks: "pos < last_line_break v pos 0" "last_line_break v pos 0 \<le> pv_end v" if "0 < last_line_break v pos 0"
    using last_line_break_in [of 0 pos v pos] that by auto
  show ?thesis
    using False letters others breaks whitespace_end_in [OF assms] number_tokens_progress [OF assms]
    unfolding llama3_round_def Let_def by (cases "get_cpt v pos = 32") (simp_all add: add_token_progress(1))
qed

section \<open>Splitters\<close>

locale splitter =
  fixes round :: "piece_view \<Rightarrow> nat \<Rightarrow> token_state \<Rightarrow> (nat \<times> token_state) option"
    and loop :: "piece_view \<Rightarrow> nat \<Rightarrow> token_state \<Rightarrow> token_state option"
  assumes loop_unfold: "loop v pos st = (if pos < pv_end v then Option.bind (round v pos st) (\<lambda>(pos1, st1). loop v pos1 st1) else Some st)"
    and progress: "pos < pv_end v \<Longrightarrow> makes_progress v pos out (round v pos (pos, out))"
begin

lemma loop_covers:
  "pos \<le> pv_end v \<Longrightarrow>
    \<exists>lens. loop v pos (pos, out) = Some (pv_end v, out @ lens) \<and> sum_list lens = pv_end v - pos \<and> 0 \<notin> set lens"
proof (induction "pv_end v - pos" arbitrary: pos out rule: less_induct)
  case less
  show ?case
  proof (cases "pos < pv_end v")
    case True
    then obtain pos' lens where r: "round v pos (pos, out) = Some (pos', (pos', out @ lens))"
      and p: "pos < pos'" "pos' \<le> pv_end v" and l: "sum_list lens = pos' - pos" "0 \<notin> set lens"
      using progress [OF True, of out] by (auto simp: makes_progress_def advances_to_def)
    obtain lens' where "loop v pos' (pos', out @ lens) = Some (pv_end v, (out @ lens) @ lens')"
      "sum_list lens' = pv_end v - pos'" "0 \<notin> set lens'"
      using less.hyps [of pos' "out @ lens"] True p diff_less_mono2 [of pos pos' "pv_end v"] by auto
    then show ?thesis using loop_unfold [of v pos "(pos, out)"] True r p l by (auto intro!: exI [of _ "lens @ lens'"])
  next
    case False
    then show ?thesis using loop_unfold [of v pos "(pos, out)"] less.prems by auto
  qed
qed

text \<open>Every piece is cut by itself.\<close>

lemma split_covers:
  "start + sum_list offs \<le> length cpts \<Longrightarrow>
    \<exists>parts. split_custom loop flags lower cpts offs start out = Some (out @ concat parts) \<and> map sum_list parts = offs
      \<and> 0 \<notin> set (concat parts)"
proof (induction offs arbitrary: start out)
  case (Cons off offs)
  let ?v = "\<lparr>pv_cpts = cpts, pv_flags = flags, pv_lower = lower, pv_ini = start, pv_end = start + off\<rparr>"
  obtain lens where l: "loop ?v start (start, out) = Some (start + off, out @ lens)" "sum_list lens = off" "0 \<notin> set lens"
    using loop_covers [of start ?v out] by auto
  obtain parts where "split_custom loop flags lower cpts offs (start + off) (out @ lens) = Some ((out @ lens) @ concat parts)"
    "map sum_list parts = offs" "0 \<notin> set (concat parts)"
    using Cons.IH [of "start + off" "out @ lens"] Cons.prems by auto
  then show ?case using l Cons.prems by (auto intro!: exI [of _ "lens # parts"])
qed (auto intro!: exI [of _ "[]"])

lemma split_sum:
  assumes "sum_list offs \<le> length cpts"
  shows "\<exists>out. split_custom loop flags lower cpts offs 0 [] = Some out \<and> sum_list out = sum_list offs"
proof -
  obtain parts where "split_custom loop flags lower cpts offs 0 [] = Some (concat parts)" "map sum_list parts = offs"
    using split_covers [of 0 offs cpts flags lower "[]"] assms by auto
  moreover have "sum_list (concat parts) = sum_list (map sum_list parts)" by (induction parts) simp_all
  ultimately show ?thesis by simp
qed

end

interpretation gpt2: splitter gpt2_round gpt2_loop
  by unfold_locales (rule gpt2_loop.simps, rule gpt2_round_progress)

interpretation llama3: splitter llama3_round llama3_loop
  by unfold_locales (rule llama3_loop.simps, rule llama3_round_progress)

section \<open>The regular expression engines\<close>

text \<open>
  What the code relies on of \<open>std::regex_iterator\<close>: the matches lie in the piece, one after the other.
\<close>

fun matches_in :: "nat \<Rightarrow> nat \<Rightarrow> (nat \<times> nat) list \<Rightarrow> bool" where
  "matches_in lo n [] = (lo \<le> n)"
| "matches_in lo n ((p, len) # ms) = (lo \<le> p \<and> p + len \<le> n \<and> matches_in (p + len) n ms)"

definition walks :: "('e \<Rightarrow> 'a list \<Rightarrow> (nat \<times> nat) list option) \<Rightarrow> bool" where
  "walks regex = (\<forall>e piece ms. regex e piece = Some ms \<longrightarrow> matches_in 0 (length piece) ms)"

lemma stl_words_sum: "matches_in lo off ms \<Longrightarrow> sum_list (stl_words off lo ms) = off - lo"
proof (induction off lo ms rule: stl_words.induct)
  case (2 off start_idx p len ms)
  have "p + len \<le> off" using 2 by simp
  then show ?case using 2 by auto
qed simp

lemma attempt_Inr [simp]: "attempt m f = Inr y \<longleftrightarrow> (\<exists>x. m = Inr x \<and> f x = Inr y)"
  by (cases m) (simp_all add: attempt_def)

lemma attempt_simps [simp]: "attempt (Inr x) f = f x" "attempt (Inl e) f = Inl e"
  by (simp_all add: attempt_def)

lemma or_fail_simps [simp]: "or_fail e (Some x) = Inr x" "or_fail e None = Inl e" "or_fail e m = Inr x \<longleftrightarrow> m = Some x"
  by (simp_all add: or_fail_def split: option.split)

text \<open>A step fails only with an error the engine raises, or keeps the sum of the lengths.\<close>

definition keeps_sum :: "nat \<Rightarrow> split_error + nat list \<Rightarrow> bool" where
  "keeps_sum n r = (case r of Inl e \<Rightarrow> e = Regex_Failed \<or> e = Regex_Mixed | Inr out \<Rightarrow> sum_list out = n)"

lemma stl_keeps_sum:
  assumes "\<And>piece ms. expr piece = Some ms \<Longrightarrow> matches_in 0 (length piece) ms"
  shows "start + sum_list offs \<le> length txt \<Longrightarrow> keeps_sum (sum_list offs) (unicode_regex_split_stl expr txt offs start)"
proof (induction offs arbitrary: start)
  case (Cons off offs)
  have off: "start + off \<le> length txt" and rest: "keeps_sum (sum_list offs) (unicode_regex_split_stl expr txt offs (start + off))"
    using Cons.IH [of "start + off"] Cons.prems by auto
  show ?case
  proof (cases "expr (take off (drop start txt))")
    case None
    then show ?thesis using off by (simp add: keeps_sum_def)
  next
    case (Some ms)
    then have "sum_list (stl_words off 0 ms) = off" using stl_words_sum [of 0 off ms] assms [OF Some] off by simp
    then show ?thesis using off Some rest
      by (cases "unicode_regex_split_stl expr txt offs (start + off)") (auto simp: keeps_sum_def)
  qed
qed (simp add: keeps_sum_def)

section \<open>The whole text\<close>

lemma split_expr_keeps_sum:
  assumes "walks regex" "walks wregex" "sum_list offs = length (unicode_cpts_from_utf8 txt)"
  shows "keeps_sum (sum_list offs) (split_expr regex wregex T cpt_flags txt e offs)"
proof -
  obtain tmp where t: "unicode_regex_split_custom T cpt_flags txt e offs = Some tmp" "tmp = [] \<or> sum_list tmp = sum_list offs"
    using gpt2.split_sum [of offs "unicode_cpts_from_utf8 txt"] llama3.split_sum [of offs "unicode_cpts_from_utf8 txt"] assms(3)
    unfolding unicode_regex_split_custom_def unicode_regex_split_custom_gpt2_def unicode_regex_split_custom_llama3_def
    by (metis order_refl)
  have "keeps_sum (sum_list offs) (unicode_regex_split_stl (regex r) (map (collapse_cpt cpt_flags) (unicode_cpts_from_utf8 txt)) offs 0)" for r
    using assms by (intro stl_keeps_sum) (auto simp: walks_def)
  moreover have "keeps_sum (sum_list offs) (unicode_regex_split_stl (wregex r) (map (wide_cpt cpt_flags) (unicode_cpts_from_utf8 txt)) offs 0)" for r
    using assms by (intro stl_keeps_sum) (auto simp: walks_def)
  ultimately show ?thesis using t by (auto simp: split_expr_def Let_def keeps_sum_def)
qed

lemma split_exprs_keeps_sum:
  assumes "\<And>e offs. sum_list offs = n \<Longrightarrow> keeps_sum n (one e offs)" "sum_list offs = n"
  shows "keeps_sum n (split_exprs one es offs)"
  using assms(2)
proof (induction es arbitrary: offs)
  case (Cons e es)
  then show ?case using assms(1) [OF Cons.prems, of e] by (cases "one e offs") (auto simp: keeps_sum_def)
qed (simp add: keeps_sum_def)

lemma cpts_to_utf8_append:
  "unicode_cpts_to_utf8 (xs @ ys) = do { u \<leftarrow> unicode_cpts_to_utf8 xs; v \<leftarrow> unicode_cpts_to_utf8 ys; Some (u @ v) }"
  by (induction xs) (auto split: bind_splits)

lemma bpe_words:
  assumes "unicode_cpts_to_utf8 (drop start cpts) = Some bs" "start + sum_list offs = length cpts"
  shows "\<exists>ws. bpe_words_from cpts offs start = Inr ws \<and> concat ws = bs \<and> (\<forall>w\<in>set ws. \<exists>cs. unicode_cpts_to_utf8 cs = Some w)"
  using assms
proof (induction offs arbitrary: start bs)
  case (Cons off offs)
  have "drop start cpts = take off (drop start cpts) @ drop (start + off) cpts" by (simp add: drop_drop add.commute flip: drop_drop)
  then obtain u v where u: "unicode_cpts_to_utf8 (take off (drop start cpts)) = Some u"
    and v: "unicode_cpts_to_utf8 (drop (start + off) cpts) = Some v" "bs = u @ v"
    using Cons.prems(1) cpts_to_utf8_append [of "take off (drop start cpts)" "drop (start + off) cpts"] by (auto split: bind_splits)
  obtain ws where "bpe_words_from cpts offs (start + off) = Inr ws" "concat ws = v"
    "\<forall>w\<in>set ws. \<exists>cs. unicode_cpts_to_utf8 cs = Some w"
    using Cons.IH [OF v(1)] Cons.prems(2) by auto
  then show ?case using u v Cons.prems(2) by auto
qed simp

lemma encode_bytes_append:
  "encode_bytes (xs @ ys) = do { u \<leftarrow> encode_bytes xs; v \<leftarrow> encode_bytes ys; Some (u @ v) }"
  by (induction xs) (auto split: bind_splits)

lemma encode_bytes_total: "\<forall>b\<in>set bs. b < 256 \<Longrightarrow> \<exists>s. encode_bytes bs = Some s"
proof (induction bs)
  case (Cons b bs)
  then show ?case using utf8_to_byte [of b] by auto
qed simp

lemma utf8_bytes: "unicode_cpts_to_utf8 cps = Some bs \<Longrightarrow> \<forall>b\<in>set bs. b < 256"
proof (induction cps arbitrary: bs)
  case (Cons c cps)
  then obtain b bs' where b: "unicode_cpt_to_utf8 c = Some b" "unicode_cpts_to_utf8 cps = Some bs'" "bs = b @ bs'"
    by (auto split: bind_splits)
  have "\<forall>x\<in>set b. x < 256" using b(1) by (auto simp: cpt_to_utf8_arith split: if_splits)
  then show ?case using Cons.IH [OF b(2)] b(3) by auto
qed simp

lemma byte_encoding_process:
  assumes "\<forall>w\<in>set ws. \<exists>cs. unicode_cpts_to_utf8 cs = Some w"
  shows "\<exists>r. unicode_byte_encoding_process ws = Inr r \<and> encode_bytes (concat ws) = Some (concat r)"
  using assms
proof (induction ws)
  case (Cons w ws)
  then obtain cs where w: "unicode_cpts_to_utf8 cs = Some w" by auto
  obtain s where s: "encode_bytes w = Some s" using encode_bytes_total [OF utf8_bytes [OF w]] by blast
  show ?case using Cons w s cpts_from_utf8_encode [OF w] by (auto simp: encode_bytes_append)
qed simp

theorem unicode_regex_split_lossless:
  assumes "unicode_cpts_to_utf8 cps = Some txt" "walks regex" "walks wregex"
  shows "case unicode_regex_split regex wregex T cpt_flags txt exprs of
           Inl e \<Rightarrow> e = Regex_Failed \<or> e = Regex_Mixed
         | Inr words \<Rightarrow> encode_bytes txt = Some (concat words)"
proof -
  note cps = cpts_from_utf8_encode [OF assms(1)]
  have "keeps_sum (length cps) (split_exprs (split_expr regex wregex T cpt_flags txt) exprs [length cps])"
    using split_expr_keeps_sum [OF assms(2,3)] cps by (intro split_exprs_keeps_sum) (metis, simp)
  then show ?thesis
  proof (cases "split_exprs (split_expr regex wregex T cpt_flags txt) exprs [length cps]")
    case (Inr offs)
    then have "sum_list offs = length cps" using \<open>keeps_sum _ _\<close> by (simp add: keeps_sum_def)
    then obtain ws where "bpe_words_from cps offs 0 = Inr ws" "concat ws = txt" "\<forall>w\<in>set ws. \<exists>cs. unicode_cpts_to_utf8 cs = Some w"
      using bpe_words [of 0 cps "txt" offs] assms(1) by auto
    then show ?thesis using byte_encoding_process [of ws] cps Inr by (auto simp: unicode_regex_split_def)
  qed (use cps in \<open>simp add: unicode_regex_split_def keeps_sum_def\<close>)
qed

text \<open>A code point that has no encoding, which the decoder lets through, ends in an exception.\<close>

lemma cpts_to_utf8_None: "unicode_cpts_to_utf8 cps = None \<longleftrightarrow> (\<exists>c\<in>set cps. 0x10ffff < c)"
proof (induction cps)
  case (Cons c cps)
  have "unicode_cpt_to_utf8 c = None \<longleftrightarrow> 0x10ffff < c" by (simp add: cpt_to_utf8_arith)
  then show ?case using Cons.IH by (cases "unicode_cpt_to_utf8 c"; cases "unicode_cpts_to_utf8 cps") auto
qed simp

lemma bpe_words_invalid:
  "start + sum_list offs = length cpts \<Longrightarrow> c \<in> set (drop start cpts) \<Longrightarrow> 0x10ffff < c \<Longrightarrow>
    bpe_words_from cpts offs start = Inl Invalid_Codepoint"
proof (induction offs arbitrary: start)
  case (Cons off offs)
  show ?case
  proof (cases "unicode_cpts_to_utf8 (take off (drop start cpts))")
    case None
    then show ?thesis using Cons.prems(1) by simp
  next
    case (Some u)
    then have "c \<notin> set (take off (drop start cpts))" using Cons.prems(3) cpts_to_utf8_None [of "take off (drop start cpts)"] by auto
    moreover have "drop start cpts = take off (drop start cpts) @ drop (start + off) cpts" by (simp add: add.commute flip: drop_drop)
    ultimately have "c \<in> set (drop (start + off) cpts)" using Cons.prems(2) by (metis Un_iff set_append)
    then show ?thesis using Cons.IH [of "start + off"] Cons.prems(1,3) Some by simp
  qed
qed simp

theorem unicode_regex_split_invalid:
  assumes "c \<in> set (unicode_cpts_from_utf8 txt)" "0x10ffff < c" "walks regex" "walks wregex"
  shows "unicode_regex_split regex wregex T cpt_flags txt exprs \<in> Inl ` {Regex_Failed, Regex_Mixed, Invalid_Codepoint}"
proof -
  let ?cps = "unicode_cpts_from_utf8 txt"
  have k: "keeps_sum (length ?cps) (split_exprs (split_expr regex wregex T cpt_flags txt) exprs [length ?cps])"
    using split_expr_keeps_sum [OF assms(3,4)] by (intro split_exprs_keeps_sum) (metis, simp)
  show ?thesis
  proof (cases "split_exprs (split_expr regex wregex T cpt_flags txt) exprs [length ?cps]")
    case (Inl e)
    then show ?thesis using k by (auto simp: unicode_regex_split_def keeps_sum_def)
  next
    case (Inr offs)
    then have "bpe_words_from ?cps offs 0 = Inl Invalid_Codepoint" using k bpe_words_invalid [of 0 offs ?cps c] assms(1,2) by (simp add: keeps_sum_def)
    then show ?thesis using Inr by (simp add: unicode_regex_split_def)
  qed
qed

section \<open>The tables\<close>

text \<open>Every code point of a range gets the flags of the range.\<close>

fun range_at :: "(nat \<times> unicode_cpt_flags) list \<Rightarrow> nat \<Rightarrow> unicode_cpt_flags option" where
  "range_at ((ini, f) # (en, g) # rs) c = (if ini \<le> c \<and> c < en then Some f else range_at ((en, g) # rs) c)"
| "range_at _ c = None"

lemma range_at_ge: "sorted (map fst rs) \<Longrightarrow> range_at rs c = Some f \<Longrightarrow> fst (hd rs) \<le> c"
  by (induction rs c rule: range_at.induct) (auto split: if_splits)

lemma fill_ranges_at:
  "sorted (map fst rs) \<Longrightarrow> (\<forall>r\<in>set rs. fst r \<le> MAX_CODEPOINTS) \<Longrightarrow>
    \<exists>a. fill_ranges rs flags = Some a \<and> (\<forall>c. a c = (case range_at rs c of Some f \<Rightarrow> f | None \<Rightarrow> flags c))"
proof (induction rs flags rule: fill_ranges.induct)
  case (1 ini f en g rs flags)
  let ?flags = "\<lambda>c. if ini \<le> c \<and> c < en then f else flags c"
  have ff: "fill_flags ini en f flags = Some ?flags" using 1(3) by (auto simp: fill_flags_def)
  obtain a where a: "fill_ranges ((en, g) # rs) ?flags = Some a"
    "\<forall>c. a c = (case range_at ((en, g) # rs) c of Some f \<Rightarrow> f | None \<Rightarrow> ?flags c)"
    using 1(1) [OF ff] 1(2,3) by auto
  have "range_at ((en, g) # rs) c = None" if "c < en" for c
    using range_at_ge [of "(en, g) # rs" c] 1(2) that by (cases "range_at ((en, g) # rs) c") auto
  then show ?case using ff a by (auto split: option.split)
qed auto

text \<open>The search for the lower case is a lookup.\<close>

lemma tolower_lookup:
  assumes "sorted (map fst (map_lowercase T))"
  shows "unicode_tolower T c = (case map_of (map_lowercase T) c of Some d \<Rightarrow> d | None \<Rightarrow> c)"
proof -
  have "(case dropWhile (\<lambda>p. fst p < c) xs of p # _ \<Rightarrow> if fst p = c then snd p else c | [] \<Rightarrow> c) =
    (case map_of xs c of Some d \<Rightarrow> d | None \<Rightarrow> c)" if "sorted (map fst xs)" for xs :: "(nat \<times> nat) list"
    using that
  proof (induction xs)
    case (Cons p xs)
    have "map_of xs c = None" if "c < fst p"
      using Cons.prems that by (force simp: map_of_eq_None_iff)
    then show ?case using Cons by (cases "fst p" c rule: linorder_cases) auto
  qed simp
  then show ?thesis using assms by (simp add: unicode_tolower_def)
qed

lemma normalize_total:
  assumes "ranges_nfd T \<noteq> []" "nfd_first (hd (ranges_nfd T)) = 0"
  shows "\<exists>ds. unicode_cpts_normalize_nfd T cps = Some ds \<and> length ds = length cps"
proof (induction cps)
  case (Cons c cps)
  have "takeWhile (\<lambda>r. nfd_first r \<le> c) (ranges_nfd T) \<noteq> []" using assms by (cases "ranges_nfd T") auto
  then have "\<exists>d. normalize_cpt T c = Some d" by (auto simp: normalize_cpt_def Let_def split: list.split)
  then show ?case using Cons by auto
qed simp

end
