(* ===== verification/PretokRegex.thy ===== *)
theory PretokRegex
  imports PretokOk
begin

text \<open>
  The hand-written splitters against the regular expressions they replace. The reference is a
  backtracking matcher: greedy repetitions of classes, ordered alternatives, negative lookahead.
\<close>

section \<open>A backtracking matcher\<close>

datatype rx_item = Rep "nat \<Rightarrow> bool" nat "nat option" | Not_Ahead "nat \<Rightarrow> bool"

text \<open>The greatest length of at most \<open>n\<close> and at least \<open>lo\<close> after which the rest matches.\<close>

fun backtrack :: "(nat \<Rightarrow> nat option) \<Rightarrow> nat \<Rightarrow> nat \<Rightarrow> nat option" where
  "backtrack f lo n =
     (if n < lo then None
      else (case f n of
              Some m \<Rightarrow> Some (n + m)
            | None \<Rightarrow> if n = 0 then None else backtrack f lo (n - 1)))"

declare backtrack.simps [simp del]

definition class_run :: "(nat \<Rightarrow> bool) \<Rightarrow> nat option \<Rightarrow> nat list \<Rightarrow> nat" where
  "class_run P hi w =
     (let n = length (takeWhile P w) in case hi of None \<Rightarrow> n | Some h \<Rightarrow> min n h)"

fun rx_match :: "rx_item list \<Rightarrow> nat list \<Rightarrow> nat option" where
  "rx_match [] w = Some 0"
| "rx_match (Not_Ahead P # rs) w = (if w \<noteq> [] \<and> P (hd w) then None else rx_match rs w)"
| "rx_match (Rep P lo hi # rs) w = backtrack (\<lambda>n. rx_match rs (drop n w)) lo (class_run P hi w)"

text \<open>The first alternative that matches.\<close>

fun rx_first :: "rx_item list list \<Rightarrow> nat list \<Rightarrow> nat option" where
  "rx_first [] w = None"
| "rx_first (rs # alts) w = (case rx_match rs w of Some n \<Rightarrow> Some n | None \<Rightarrow> rx_first alts w)"

text \<open>The matches of a text from a position on; an empty match is no match.\<close>

function rx_matches :: "rx_item list list \<Rightarrow> nat \<Rightarrow> nat list \<Rightarrow> (nat \<times> nat) list" where
  "rx_matches alts pos w =
     (if w = [] then []
      else (case rx_first alts w of
              Some (Suc n) \<Rightarrow> (pos, Suc n) # rx_matches alts (pos + Suc n) (drop (Suc n) w)
            | _ \<Rightarrow> rx_matches alts (Suc pos) (tl w)))"
  by pat_completeness auto
termination
  by (relation "measure (\<lambda>(_, _, w). length w)") auto

declare rx_matches.simps [simp del]

section \<open>The expressions\<close>

definition lit :: "(nat \<Rightarrow> nat) \<Rightarrow> nat \<Rightarrow> rx_item" where
  "lit lower c = Rep (\<lambda>d. lower d = c) 1 (Some 1)"

definition quote :: rx_item where
  "quote = Rep (\<lambda>d. d = 39) 1 (Some 1)"

definition contractions :: "(nat \<Rightarrow> nat) \<Rightarrow> rx_item list list" where
  "contractions lower =
     map (\<lambda>cs. quote # map (lit lower) cs) [[115], [116], [114, 101], [118, 101], [109], [108, 108], [100]]"

definition trailing_spaces :: "(nat \<Rightarrow> unicode_cpt_flags) \<Rightarrow> rx_item list" where
  "trailing_spaces flags = [Rep (\<lambda>c. is_whitespace (flags c)) 1 None, Not_Ahead (\<lambda>c. \<not> is_whitespace (flags c))]"

text \<open>
  \<open>'s|'t|'re|'ve|'m|'ll|'d| ?L+| ?N+| ?[^sLN]+|s+(?!S)\<close>, the expression that selects the splitter. (The
  comment above the splitter has a last alternative \<open>s+\<close>; without it a single space is no match but the
  gap between two, and so a word all the same.)
\<close>

definition gpt2_regex :: "(nat \<Rightarrow> unicode_cpt_flags) \<Rightarrow> rx_item list list" where
  "gpt2_regex flags =
     contractions (\<lambda>c. c) @
     [[Rep (\<lambda>c. c = 32) 0 (Some 1), Rep (\<lambda>c. is_letter (flags c)) 1 None],
      [Rep (\<lambda>c. c = 32) 0 (Some 1), Rep (\<lambda>c. is_number (flags c)) 1 None],
      [Rep (\<lambda>c. c = 32) 0 (Some 1),
       Rep (\<lambda>c. \<not> (is_whitespace (flags c) \<or> is_letter (flags c) \<or> is_number (flags c))) 1 None],
      trailing_spaces flags]"

text \<open>\<open>(?i:'s|'t|'re|'ve|'m|'ll|'d)|[^rnLN]?L+|N{1,3}| ?[^sLN]+[rn]*|s*[rn]+|s+(?!S)|s+\<close>\<close>

definition llama3_regex :: "(nat \<Rightarrow> unicode_cpt_flags) \<Rightarrow> (nat \<Rightarrow> nat) \<Rightarrow> rx_item list list" where
  "llama3_regex flags lower =
     contractions lower @
     [[Rep (\<lambda>c. \<not> (is_line_break c \<or> is_letter (flags c) \<or> is_number (flags c))) 0 (Some 1),
       Rep (\<lambda>c. is_letter (flags c)) 1 None],
      [Rep (\<lambda>c. is_number (flags c)) 1 (Some 3)],
      [Rep (\<lambda>c. c = 32) 0 (Some 1),
       Rep (\<lambda>c. \<not> (is_whitespace (flags c) \<or> is_letter (flags c) \<or> is_number (flags c))) 1 None,
       Rep is_line_break 0 None],
      [Rep (\<lambda>c. is_whitespace (flags c)) 0 None, Rep is_line_break 1 None],
      trailing_spaces flags,
      [Rep (\<lambda>c. is_whitespace (flags c)) 1 None]]"

text \<open>
  What the splitters use of the classes: every code point has a flag; numbers are not letters; the space
  and the line breaks are white space and neither letters nor numbers, and the apostrophe is none of the
  three.
\<close>

definition classes_ok :: "(nat \<Rightarrow> unicode_cpt_flags) \<Rightarrow> bool" where
  "classes_ok flags =
     ((\<forall>c. flags c \<noteq> 0) \<and> (\<forall>c. is_number (flags c) \<longrightarrow> \<not> is_letter (flags c) \<and> \<not> is_whitespace (flags c)) \<and>
      (\<forall>c. is_letter (flags c) \<longrightarrow> \<not> is_whitespace (flags c)) \<and>
      (\<forall>c\<in>{10, 13, 32}. is_whitespace (flags c)) \<and> is_other (flags 39))"

section \<open>How the items match\<close>

lemma takeWhile_run: "length (takeWhile P (c # w)) = (if P c then Suc (length (takeWhile P w)) else 0)"
  by simp

lemma backtrack_all: "f n = Some m \<Longrightarrow> lo \<le> n \<Longrightarrow> backtrack f lo n = Some (n + m)"
  by (subst backtrack.simps) simp

lemma backtrack_none: "n < lo \<Longrightarrow> backtrack f lo n = None"
  by (subst backtrack.simps) simp

lemma backtrack_Suc:
  "backtrack f 0 (Suc n) = (case backtrack (\<lambda>k. f (Suc k)) 0 n of Some m \<Rightarrow> Some (Suc m) | None \<Rightarrow> f 0)"
proof (induction n)
  case 0
  show ?case by (simp add: backtrack.simps [of f 0 "Suc 0"] backtrack.simps [of "\<lambda>k. f (Suc k)"] backtrack.simps [of f 0 0] split: option.split)
next
  case (Suc n)
  show ?case using Suc
    by (simp add: backtrack.simps [of f 0 "Suc (Suc n)"] backtrack.simps [of "\<lambda>k. f (Suc k)" 0 "Suc n"] split: option.split)
qed

lemma match_plus: "rx_match [Rep P 1 None] w = (if takeWhile P w = [] then None else Some (length (takeWhile P w)))"
proof (cases "takeWhile P w = []")
  case False
  then have "1 \<le> length (takeWhile P w)" by (cases "takeWhile P w") auto
  then show ?thesis using backtrack_all [of "\<lambda>n. Some 0" "length (takeWhile P w)" 0 1] False by (simp add: class_run_def Let_def)
qed (simp add: class_run_def Let_def backtrack_none)

lemma match_plus_le:
  assumes "h > 0"
  shows "rx_match [Rep P 1 (Some h)] w = (if takeWhile P w = [] then None else Some (min (length (takeWhile P w)) h))"
proof (cases "takeWhile P w = []")
  case False
  then have "1 \<le> length (takeWhile P w)" by (cases "takeWhile P w") auto
  then show ?thesis using backtrack_all [of "\<lambda>n. Some 0" "min (length (takeWhile P w)) h" 0 1] False assms
    by (simp add: class_run_def Let_def)
qed (simp add: class_run_def Let_def backtrack_none)

lemma match_star: "rx_match [Rep P 0 None] w = Some (length (takeWhile P w))"
  using backtrack_all [of "\<lambda>n. Some 0" "length (takeWhile P w)" 0 0] by (simp add: class_run_def Let_def)

lemma match_one: "rx_match (Rep P 1 (Some 1) # rs) w = (case w of c # w' \<Rightarrow> if P c then map_option Suc (rx_match rs w') else None | [] \<Rightarrow> None)"
proof (cases "takeWhile P w = []")
  case True
  then show ?thesis by (cases w) (auto simp: class_run_def Let_def backtrack_none)
next
  case False
  then obtain c w' where w: "w = c # w'" "P c" by (cases w) (auto split: if_splits)
  then show ?thesis
    by (simp add: class_run_def Let_def backtrack.simps [of "\<lambda>n. rx_match rs (drop n (c # w'))" "Suc 0" "Suc 0"]
        backtrack_none split: option.split)
qed

lemma match_opt:
  "rx_match (Rep P 0 (Some 1) # rs) w =
     (case w of c # w' \<Rightarrow> if P c then (case rx_match rs w' of Some m \<Rightarrow> Some (Suc m) | None \<Rightarrow> rx_match rs w) else rx_match rs w
      | [] \<Rightarrow> rx_match rs w)"
proof -
  have z: "backtrack f 0 0 = f 0" for f by (simp add: backtrack.simps [of f 0 0] split: option.split)
  show ?thesis by (cases w) (auto simp: class_run_def Let_def z backtrack_Suc [of _ 0] split: option.split)
qed

lemma match_plus_then:
  assumes "\<And>w. rx_match rs w \<noteq> None"
  shows "rx_match (Rep P 1 None # rs) w =
    (if takeWhile P w = [] then None else Some (length (takeWhile P w) + the (rx_match rs (drop (length (takeWhile P w)) w))))"
proof (cases "takeWhile P w = []")
  case False
  obtain m where "rx_match rs (drop (length (takeWhile P w)) w) = Some m" using assms by blast
  moreover have "1 \<le> length (takeWhile P w)" using False by (cases "takeWhile P w") auto
  ultimately show ?thesis using backtrack_all [of "\<lambda>n. rx_match rs (drop n w)" "length (takeWhile P w)" m 1] False
    by (simp add: class_run_def Let_def)
qed (simp add: class_run_def Let_def backtrack_none)

lemma drop_run: "drop (length (takeWhile P w)) w = dropWhile P w"
  by (simp add: dropWhile_eq_drop)

lemma run_nth: "k < length (takeWhile P w) \<Longrightarrow> P (w ! k)"
  by (metis nth_mem set_takeWhileD takeWhile_nth)

text \<open>White space not followed by anything else: all of it at the end, all but one before other text.\<close>

lemma match_trailing:
  "rx_match [Rep P 1 None, Not_Ahead (\<lambda>c. \<not> P c)] w =
     (let n = length (takeWhile P w) in
      if n = 0 then None else if dropWhile P w = [] then Some n else if n > 1 then Some (n - 1) else None)"
proof -
  let ?n = "length (takeWhile P w)" and ?f = "\<lambda>n. rx_match [Not_Ahead (\<lambda>c. \<not> P c)] (drop n w)"
  have m: "rx_match [Rep P 1 None, Not_Ahead (\<lambda>c. \<not> P c)] w = backtrack ?f 1 ?n" by (simp add: class_run_def Let_def)
  show ?thesis
  proof (cases "?n = 0 \<or> dropWhile P w = []")
    case True
    show ?thesis
    proof (cases "?n = 0")
      case True
      then show ?thesis unfolding m using backtrack_none [of ?n 1 ?f] by (simp add: Let_def)
    next
      case False
      then have e: "dropWhile P w = []" using True by blast
      then have "?f ?n = Some 0" by (simp add: drop_run)
      then have "backtrack ?f 1 ?n = Some ?n" using backtrack_all [of ?f ?n 0 1] False by simp
      then show ?thesis unfolding m Let_def using False e by (simp only: if_False if_True refl)
    qed
  next
    case False
    then have stop: "?f ?n = None" using hd_dropWhile [of P w] by (simp add: drop_run)
    have "?f (?n - 1) = Some 0"
    proof -
      have "?n - 1 < ?n" "?n \<le> length w" using False by (auto simp: length_takeWhile_le)
      then show ?thesis using run_nth [of "?n - 1" P w] by (auto simp: hd_drop_conv_nth)
    qed
    then show ?thesis unfolding m
      using False stop backtrack_all [of ?f "?n - 1" 0 1] backtrack_none [of 0 1 ?f] 
      by (subst backtrack.simps) (auto simp: Let_def simp del: rx_match.simps)
  qed
qed

section \<open>The words of an expression\<close>

definition shift_match :: "nat \<Rightarrow> nat \<times> nat \<Rightarrow> nat \<times> nat" where
  "shift_match k m = (fst m + k, snd m)"

lemma rx_matches_shift: "rx_matches alts (pos + k) w = map (shift_match k) (rx_matches alts pos w)"
proof (induction "length w" arbitrary: pos w rule: less_induct)
  case less
  show ?case
  proof (cases "w = []")
    case True
    then show ?thesis by (simp add: rx_matches.simps)
  next
    case False
    then have l: "length (drop (Suc n) w) < length w" "length (tl w) < length w" for n by auto
    show ?thesis using False less [OF l(1), of "pos + Suc n" for n] less [OF l(2), of "Suc pos"]
      by (subst (1 2) rx_matches.simps) (auto simp: shift_match_def ac_simps split: option.split nat.split)
  qed
qed

lemma stl_words_shift: "stl_words (off + k) (s + k) (map (shift_match k) ms) = stl_words off s ms"
proof (induction off s ms rule: stl_words.induct)
  case (2 off s p len ms)
  have "p + k + len = (p + len) + k" by simp
  then show ?case using 2 by (simp only: list.map shift_match_def stl_words.simps fst_conv snd_conv) simp
qed simp

definition rx_words :: "rx_item list list \<Rightarrow> nat list \<Rightarrow> nat list" where
  "rx_words alts w = stl_words (length w) 0 (rx_matches alts 0 w)"

lemma rx_words_Nil [simp]: "rx_words alts [] = []"
  by (simp add: rx_words_def rx_matches.simps)

lemma rx_words_from: "k \<le> length w \<Longrightarrow> stl_words (length w) k (rx_matches alts k (drop k w)) = rx_words alts (drop k w)"
  using rx_matches_shift [of alts 0 k "drop k w"] stl_words_shift [of "length w - k" k 0 "rx_matches alts 0 (drop k w)"]
  by (simp add: rx_words_def)

text \<open>A match is a word; so is a code point that no match begins with, when one follows it.\<close>

lemma rx_words_match:
  assumes "rx_first alts w = Some n" "0 < n" "n \<le> length w"
  shows "rx_words alts w = n # rx_words alts (drop n w)"
proof -
  obtain k where k: "n = Suc k" using assms(2) by (cases n) auto
  have "w \<noteq> []" using assms(2,3) by auto
  then have "rx_matches alts 0 w = (0, n) # rx_matches alts n (drop n w)"
    using assms(1) k by (subst rx_matches.simps) simp
  then show ?thesis using rx_words_from [OF assms(3), of alts] by (simp add: rx_words_def)
qed

lemma rx_words_gap:
  assumes "rx_first alts (c # w) = None" "w = [] \<or> (\<exists>n. rx_first alts w = Some n \<and> 0 < n \<and> n \<le> length w)"
  shows "rx_words alts (c # w) = 1 # rx_words alts w"
proof -
  have m: "rx_matches alts 0 (c # w) = rx_matches alts 1 w" using assms(1) by (subst rx_matches.simps) simp
  show ?thesis
  proof (cases "w = []")
    case True
    then show ?thesis using m by (simp add: rx_words_def rx_matches.simps)
  next
    case False
    then obtain n where n: "rx_first alts w = Some n" "0 < n" "n \<le> length w" using assms(2) by blast
    obtain k where k: "n = Suc k" using n(2) by (cases n) auto
    have "rx_matches alts 1 w = (1, n) # rx_matches alts (Suc n) (drop n w)"
      using n(1) k False by (subst rx_matches.simps) simp
    moreover have "stl_words (Suc (length w)) (Suc n) (rx_matches alts (Suc n) (drop n w)) = rx_words alts (drop n w)"
      using rx_words_from [of "Suc n" "c # w" alts] n(3) by simp
    ultimately show ?thesis using m rx_words_match [OF n] by (simp add: rx_words_def)
  qed
qed

section \<open>What a splitter sees\<close>

definition view_rest :: "piece_view \<Rightarrow> nat \<Rightarrow> nat list" where
  "view_rest v pos = drop pos (take (pv_end v) (pv_cpts v))"

definition view_ok :: "piece_view \<Rightarrow> bool" where
  "view_ok v = (pv_end v \<le> length (pv_cpts v) \<and> classes_ok (pv_flags v) \<and> (\<forall>c\<in>set (pv_cpts v). c \<noteq> OUT_OF_RANGE))"

lemma length_rest: "view_ok v \<Longrightarrow> length (view_rest v pos) = pv_end v - pos"
  by (simp add: view_rest_def view_ok_def)

lemma rest_Nil: "view_ok v \<Longrightarrow> view_rest v pos = [] \<longleftrightarrow> pv_end v \<le> pos"
  using length_rest [of v pos] by auto

lemma drop_rest: "drop k (view_rest v pos) = view_rest v (pos + k)"
  by (simp add: view_rest_def add.commute)

lemma rest_Cons:
  assumes "view_ok v" "pos < pv_end v"
  shows "view_rest v pos = pv_cpts v ! pos # view_rest v (Suc pos)"
proof -
  have "pos < length (take (pv_end v) (pv_cpts v))" using assms by (simp add: view_ok_def)
  from Cons_nth_drop_Suc [OF this] show ?thesis using assms(2) by (simp add: view_rest_def)
qed

lemma get_at:
  assumes "view_ok v" "pv_ini v \<le> pos"
  shows "get_cpt v pos = (case view_rest v pos of c # _ \<Rightarrow> c | [] \<Rightarrow> OUT_OF_RANGE)"
    "get_flags v pos = (case view_rest v pos of c # _ \<Rightarrow> pv_flags v c | [] \<Rightarrow> 0)"
  using assms rest_Cons [OF assms(1), of pos] rest_Nil [OF assms(1), of pos]
  by (auto simp: get_cpt_def get_flags_def not_less)

lemma get_next:
  assumes "view_ok v" "pv_ini v \<le> pos" "view_rest v pos = c # w"
  shows "get_cpt v pos = c" "get_flags v pos = pv_flags v c" "view_rest v (Suc pos) = w"
    "get_cpt v (Suc pos) = (case w of d # _ \<Rightarrow> d | [] \<Rightarrow> OUT_OF_RANGE)"
    "get_flags v (Suc pos) = (case w of d # _ \<Rightarrow> pv_flags v d | [] \<Rightarrow> 0)"
proof -
  show r: "view_rest v (Suc pos) = w" using drop_rest [of 1 v pos] assms(3) by simp
  show "get_cpt v pos = c" "get_flags v pos = pv_flags v c" using get_at [OF assms(1,2)] assms(3) by simp_all
  show "get_cpt v (Suc pos) = (case w of d # _ \<Rightarrow> d | [] \<Rightarrow> OUT_OF_RANGE)"
    "get_flags v (Suc pos) = (case w of d # _ \<Rightarrow> pv_flags v d | [] \<Rightarrow> 0)"
    using get_at [OF assms(1), of "Suc pos"] assms(2) r by simp_all
qed

lemma scan_rest:
  assumes "view_ok v" "\<And>p. pos \<le> p \<Longrightarrow> p < pv_end v \<Longrightarrow> P p = Q (pv_cpts v ! p)"
  shows "scan_while P (pv_end v) pos = pos + length (takeWhile Q (view_rest v pos))"
  using assms(2)
proof (induction "pv_end v - pos" arbitrary: pos rule: less_induct)
  case less
  show ?case
  proof (cases "pos < pv_end v")
    case True
    then have "pv_end v - Suc pos < pv_end v - pos" by simp
    note ih = less.hyps [OF this]
    show ?thesis using True ih less.prems rest_Cons [OF assms(1) True]
      by (subst scan_while.simps) auto
  next
    case False
    then show ?thesis using rest_Nil [OF assms(1), of pos] by (simp add: scan_while.simps [of P])
  qed
qed

lemma scan_class:
  assumes "view_ok v" "pv_ini v \<le> pos"
  shows "scan_while (\<lambda>p. C (get_flags v p)) (pv_end v) pos = pos + length (takeWhile (\<lambda>c. C (pv_flags v c)) (view_rest v pos))"
  using assms by (intro scan_rest) (auto simp: get_flags_def)

lemma scan_breaks:
  assumes "view_ok v" "pv_ini v \<le> pos"
  shows "scan_while (\<lambda>p. is_line_break (get_cpt v p)) (pv_end v) pos = pos + length (takeWhile is_line_break (view_rest v pos))"
  using assms by (intro scan_rest) (auto simp: get_cpt_def)

lemma in_rest: "c \<in> set (view_rest v pos) \<Longrightarrow> c \<in> set (pv_cpts v)"
  by (auto simp: view_rest_def dest!: in_set_dropD in_set_takeD)

text \<open>The contractions are the first alternatives of both expressions.\<close>

definition contraction_of :: "(nat \<Rightarrow> nat) \<Rightarrow> nat list \<Rightarrow> nat" where
  "contraction_of lower w =
     (case w of a # b # w' \<Rightarrow>
        if a = 39
        then if lower b \<in> {115, 116, 109, 100} then 1
             else (case w' of c # _ \<Rightarrow>
               if (lower b = 114 \<and> lower c = 101) \<or> (lower b = 118 \<and> lower c = 101) \<or> (lower b = 108 \<and> lower c = 108) then 2 else 0
             | [] \<Rightarrow> 0)
        else 0
      | _ \<Rightarrow> 0)"

lemma contraction_rest:
  assumes "view_ok v" "pv_ini v \<le> pos"
  shows "contraction lower v pos = contraction_of lower (view_rest v pos)"
proof (cases "view_rest v pos")
  case Nil
  then show ?thesis using get_at [OF assms] by (simp add: contraction_def contraction_of_def OUT_OF_RANGE_def)
next
  case (Cons a w1)
  note a = get_next [OF assms Cons]
  have l: "length w1 = pv_end v - Suc pos" using a(3) length_rest [OF assms(1), of "Suc pos"] by simp
  show ?thesis
  proof (cases w1)
    case Nil
    then show ?thesis using l Cons by (auto simp: contraction_def contraction_of_def)
  next
    case (Cons b w2)
    have r: "view_rest v (Suc pos) = b # w2" "pv_ini v \<le> Suc pos" using a(3) Cons assms(2) by simp_all
    note b = get_next [OF assms(1) r(2,1)]
    show ?thesis using a b l Cons \<open>view_rest v pos = a # w1\<close>
      by (cases w2) (auto simp: contraction_def contraction_of_def Let_def)
  qed
qed

lemma first_contractions:
  "rx_first (contractions lower @ alts) w =
     (if contraction_of lower w > 0 then Some (1 + contraction_of lower w) else rx_first alts w)"
proof -
  have l: "rx_match (lit lower c # rs) u = (case u of d # u' \<Rightarrow> if lower d = c then map_option Suc (rx_match rs u') else None | [] \<Rightarrow> None)" for c rs u
    by (simp only: lit_def match_one)
  have q: "rx_match (quote # rs) u = (case u of d # u' \<Rightarrow> if d = 39 then map_option Suc (rx_match rs u') else None | [] \<Rightarrow> None)" for rs u
    by (simp only: quote_def match_one)
  show ?thesis
  proof (cases "\<exists>u. w = 39 # u")
    case True
    then obtain u where w: "w = 39 # u" by blast
    consider "u = []" | b where "u = [b]" | b c u' where "u = b # c # u'" by (cases u rule: remdups_adj.cases) auto
    then show ?thesis by cases (auto simp: w contractions_def contraction_of_def l q)
  next
    case False
    then have "\<not> (\<exists>u. w = 39 # u)" .
    then show ?thesis by (cases w) (simp_all add: contractions_def contraction_of_def q split: list.split)
  qed
qed

lemma contraction_length: "contraction_of lower w > 0 \<Longrightarrow> 1 + contraction_of lower w \<le> length w"
  by (auto simp: contraction_of_def split: list.splits if_splits)

section \<open>Splitters that follow an expression\<close>

locale regex_splitter = splitter +
  fixes regex :: "piece_view \<Rightarrow> rx_item list list"
  assumes follows: "view_ok v \<Longrightarrow> pv_ini v \<le> pos \<Longrightarrow> pos < pv_end v \<Longrightarrow>
    \<exists>lens pos'. round v pos (pos, out) = Some (pos', (pos', out @ lens)) \<and>
      rx_words (regex v) (view_rest v pos) = lens @ rx_words (regex v) (view_rest v pos')"
begin

lemma loop_words:
  assumes "view_ok v"
  shows "pv_ini v \<le> pos \<Longrightarrow> pos \<le> pv_end v \<Longrightarrow>
    loop v pos (pos, out) = Some (pv_end v, out @ rx_words (regex v) (view_rest v pos))"
proof (induction "pv_end v - pos" arbitrary: pos out rule: less_induct)
  case less
  show ?case
  proof (cases "pos < pv_end v")
    case True
    obtain lens pos' where r: "round v pos (pos, out) = Some (pos', (pos', out @ lens))"
      and w: "rx_words (regex v) (view_rest v pos) = lens @ rx_words (regex v) (view_rest v pos')"
      using follows [OF assms less.prems(1) True] by blast
    have p: "pos < pos'" "pos' \<le> pv_end v" using progress [OF True, of out] r by (auto simp: makes_progress_def advances_to_def)
    have "pv_end v - pos' < pv_end v - pos" using p True by simp
    from less.hyps [OF this _ p(2), of "out @ lens"] show ?thesis
      using loop_unfold [of v pos "(pos, out)"] True r w p less.prems by simp
  next
    case False
    then show ?thesis using loop_unfold [of v pos "(pos, out)"] less.prems rest_Nil [OF assms, of pos] by simp
  qed
qed

text \<open>The splitter is the general path with the expression.\<close>

lemma split_is_regex:
  assumes "\<And>start en. regex \<lparr>pv_cpts = cpts, pv_flags = flags, pv_lower = lower, pv_ini = start, pv_end = en\<rparr> = alts"
    "classes_ok flags" "\<forall>c\<in>set cpts. c \<noteq> OUT_OF_RANGE"
  shows "start + sum_list offs \<le> length cpts \<Longrightarrow>
    \<exists>ls. split_custom loop flags lower cpts offs start out = Some (out @ ls) \<and>
      unicode_regex_split_stl (\<lambda>w. Some (rx_matches alts 0 w)) cpts offs start = Inr ls"
proof (induction offs arbitrary: start out)
  case (Cons off offs)
  let ?v = "\<lparr>pv_cpts = cpts, pv_flags = flags, pv_lower = lower, pv_ini = start, pv_end = start + off\<rparr>"
  let ?w = "take off (drop start cpts)"
  have v: "view_ok ?v" "view_rest ?v start = ?w" using assms(2,3) Cons.prems by (simp_all add: view_ok_def view_rest_def drop_take)
  have l: "loop ?v start (start, out) = Some (start + off, out @ rx_words alts ?w)"
    using loop_words [OF v(1), of start out] v(2) assms(1) by simp
  obtain ls where "split_custom loop flags lower cpts offs (start + off) (out @ rx_words alts ?w) = Some ((out @ rx_words alts ?w) @ ls)"
    "unicode_regex_split_stl (\<lambda>w. Some (rx_matches alts 0 w)) cpts offs (start + off) = Inr ls"
    using Cons.IH [of "start + off" "out @ rx_words alts ?w"] Cons.prems by auto
  moreover have "length ?w = off" using Cons.prems by simp
  ultimately show ?case using l Cons.prems by (simp add: rx_words_def)
qed simp

end

lemma add_token_one:
  assumes "view_ok v" "0 < n" "n \<le> length (view_rest v pos)"
  shows "add_token v (pos + n) (pos, out) = Some (n, (pos + n, out @ [n]))"
  using assms length_rest [OF assms(1), of pos] by (simp add: add_token_def Let_def)

lemma takeWhile_eq_Nil: "takeWhile P w = [] \<longleftrightarrow> w = [] \<or> \<not> P (hd w)"
  by (cases w) auto

lemma other_class: "classes_ok flags \<Longrightarrow> is_other (flags c) \<longleftrightarrow> \<not> (is_whitespace (flags c) \<or> is_letter (flags c) \<or> is_number (flags c))"
  by (auto simp: is_other_def classes_ok_def)

text \<open>An optional space and a class that has no space.\<close>

lemma match_space_plus:
  assumes "\<not> P 32"
  shows "rx_match [Rep (\<lambda>c. c = 32) 0 (Some 1), Rep P 1 None] w =
    (case w of c # w' \<Rightarrow>
       (if c = 32 then if w' \<noteq> [] \<and> P (hd w') then Some (Suc (length (takeWhile P w'))) else None
        else if P c then Some (length (takeWhile P w)) else None)
     | [] \<Rightarrow> None)"
  using assms unfolding match_opt match_plus by (cases w) (auto simp: takeWhile_eq_Nil)

definition trailing_end :: "(nat \<Rightarrow> bool) \<Rightarrow> nat list \<Rightarrow> nat" where
  "trailing_end P w = (let n = length (takeWhile P w) in if n > 1 \<and> dropWhile P w \<noteq> [] then n - 1 else if n > 0 then n else 1)"

lemma whitespace_rest:
  assumes "view_ok v" "pv_ini v \<le> pos"
  shows "whitespace_end v pos = pos + trailing_end (\<lambda>c. is_whitespace (pv_flags v c)) (view_rest v pos)"
proof -
  let ?P = "\<lambda>c. is_whitespace (pv_flags v c)"
  let ?n = "length (takeWhile ?P (view_rest v pos))"
  have "get_cpt v (pos + ?n) \<noteq> OUT_OF_RANGE \<longleftrightarrow> dropWhile ?P (view_rest v pos) \<noteq> []"
    using get_at [OF assms(1), of "pos + ?n"] assms drop_rest [of ?n v pos] drop_run [of ?P "view_rest v pos"] in_rest [of _ v "pos + ?n"]
    by (cases "view_rest v (pos + ?n)") (auto simp: view_ok_def)
  then show ?thesis using scan_class [OF assms, of is_whitespace] by (auto simp: whitespace_end_def trailing_end_def Let_def)
qed

lemma class_run_le: "class_run P hi w \<le> length w"
  by (cases hi) (auto simp: class_run_def Let_def length_takeWhile_le min.coboundedI2 intro: le_trans [OF min.cobounded1])

lemma backtrack_le:
  "backtrack f lo n = Some m \<Longrightarrow> \<exists>k. lo \<le> k \<and> k \<le> n \<and> (\<exists>j. f k = Some j \<and> m = k + j)"
proof (induction f lo n rule: backtrack.induct)
  case (1 f lo n)
  note step = "1.prems" [unfolded backtrack.simps [of f lo n]]
  show ?case
  proof (cases "f n")
    case (Some j)
    then have "lo \<le> n" "m = n + j" using step by (auto split: if_splits)
    then show ?thesis using Some by blast
  next
    case None
    then have "\<not> n < lo" "n \<noteq> 0" "backtrack f lo (n - 1) = Some m" using step by (auto split: if_splits)
    then show ?thesis using "1.IH" None by (meson diff_le_self le_trans)
  qed
qed

lemma rx_match_le: "rx_match rs w = Some n \<Longrightarrow> n \<le> length w"
proof (induction rs w arbitrary: n rule: rx_match.induct)
  case (3 P lo hi rs w)
  then obtain k j where k: "k \<le> class_run P hi w" "rx_match rs (drop k w) = Some j" "n = k + j"
    using backtrack_le [of "\<lambda>n. rx_match rs (drop n w)" lo "class_run P hi w" n] by auto
  then show ?case using "3.IH" [OF k(2)] class_run_le [of P hi w] by simp
qed (auto split: if_splits)

lemma rx_first_le: "rx_first alts w = Some n \<Longrightarrow> n \<le> length w"
  by (induction alts) (auto split: option.splits dest: rx_match_le)

section \<open>The first match of the GPT-2 expression\<close>

definition starts_with :: "(nat \<Rightarrow> bool) \<Rightarrow> nat list \<Rightarrow> bool" where
  "starts_with P w = (w \<noteq> [] \<and> P (hd w))"

lemma starts_with_simps [simp]: "\<not> starts_with P []" "starts_with P (c # w) \<longleftrightarrow> P c"
  by (simp_all add: starts_with_def)

lemma starts_run: "starts_with P w \<Longrightarrow> 0 < length (takeWhile P w)"
  by (cases w) auto

abbreviation letters :: "(nat \<Rightarrow> unicode_cpt_flags) \<Rightarrow> nat \<Rightarrow> bool" where "letters flags \<equiv> \<lambda>c. is_letter (flags c)"
abbreviation numbers :: "(nat \<Rightarrow> unicode_cpt_flags) \<Rightarrow> nat \<Rightarrow> bool" where "numbers flags \<equiv> \<lambda>c. is_number (flags c)"
abbreviation blanks :: "(nat \<Rightarrow> unicode_cpt_flags) \<Rightarrow> nat \<Rightarrow> bool" where "blanks flags \<equiv> \<lambda>c. is_whitespace (flags c)"
abbreviation others :: "(nat \<Rightarrow> unicode_cpt_flags) \<Rightarrow> nat \<Rightarrow> bool" where
  "others flags \<equiv> \<lambda>c. \<not> (is_whitespace (flags c) \<or> is_letter (flags c) \<or> is_number (flags c))"

lemma space_classes: "classes_ok flags \<Longrightarrow> is_whitespace (flags 32) \<and> \<not> is_letter (flags 32) \<and> \<not> is_number (flags 32)"
  by (auto simp: classes_ok_def)

lemma gpt2_first:
  assumes "classes_ok flags" "contraction_of (\<lambda>c. c) (c # w) = 0"
  shows "rx_first (gpt2_regex flags) (c # w) =
    (let u = (if c = 32 then w else c # w); k = (if c = 32 then 1 else 0) in
     if starts_with (letters flags) u then Some (k + length (takeWhile (letters flags) u))
     else if starts_with (numbers flags) u then Some (k + length (takeWhile (numbers flags) u))
     else if starts_with (others flags) u then Some (k + length (takeWhile (others flags) u))
     else rx_match (trailing_spaces flags) (c # w))"
proof -
  have n: "\<not> letters flags 32" "\<not> numbers flags 32" "\<not> others flags 32" using space_classes [OF assms(1)] by auto
  note m = match_space_plus [of "letters flags", OF n(1)] match_space_plus [of "numbers flags", OF n(2)]
    match_space_plus [of "others flags", OF n(3)]
  have a: "rx_first (gpt2_regex flags) (c # w) =
    (case rx_match [Rep (\<lambda>c. c = 32) 0 (Some 1), Rep (letters flags) 1 None] (c # w) of Some n \<Rightarrow> Some n | None \<Rightarrow>
    (case rx_match [Rep (\<lambda>c. c = 32) 0 (Some 1), Rep (numbers flags) 1 None] (c # w) of Some n \<Rightarrow> Some n | None \<Rightarrow>
    (case rx_match [Rep (\<lambda>c. c = 32) 0 (Some 1), Rep (others flags) 1 None] (c # w) of Some n \<Rightarrow> Some n | None \<Rightarrow>
    (case rx_match (trailing_spaces flags) (c # w) of Some n \<Rightarrow> Some n | None \<Rightarrow> None))))"
    unfolding gpt2_regex_def first_contractions rx_first.simps assms(2) by simp
  have e: "(case x of Some n \<Rightarrow> Some n | None \<Rightarrow> None) = x" for x :: "nat option" by (cases x) auto
  show ?thesis unfolding a m e by (cases "c = 32") (auto simp: starts_with_def Let_def)
qed

lemma gpt2_nonblank:
  assumes "classes_ok flags" "\<not> is_whitespace (flags c)"
  shows "\<exists>n. rx_first (gpt2_regex flags) (c # w) = Some n \<and> 0 < n"
proof (cases "contraction_of (\<lambda>c. c) (c # w) > 0")
  case True
  then show ?thesis by (simp add: gpt2_regex_def first_contractions)
next
  case False
  then have "contraction_of (\<lambda>c. c) (c # w) = 0" "c \<noteq> 32" using assms space_classes [OF assms(1)] by auto
  then show ?thesis using gpt2_first [OF assms(1)] assms(2) by (auto simp: Let_def)
qed

lemma gpt2_blank:
  assumes "classes_ok flags" "contraction_of (\<lambda>c. c) (c # w) = 0"
    "starts_with (blanks flags) (if c = 32 then w else c # w) \<or> (c = 32 \<and> w = [])"
  shows "rx_words (gpt2_regex flags) (c # w)
    = trailing_end (blanks flags) (c # w) # rx_words (gpt2_regex flags) (drop (trailing_end (blanks flags) (c # w)) (c # w))"
proof -
  let ?n = "length (takeWhile (blanks flags) (c # w))"
  have c: "is_whitespace (flags c)" using assms(3) space_classes [OF assms(1)] by (auto split: if_splits)
  have "\<not> starts_with (letters flags) (if c = 32 then w else c # w)" "\<not> starts_with (numbers flags) (if c = 32 then w else c # w)"
    "\<not> starts_with (others flags) (if c = 32 then w else c # w)"
    using assms(1,3) by (auto simp: classes_ok_def starts_with_def split: if_splits)
  then have f: "rx_first (gpt2_regex flags) (c # w) = rx_match (trailing_spaces flags) (c # w)"
    using gpt2_first [OF assms(1,2)] by (simp add: Let_def)
  show ?thesis
  proof (cases "dropWhile (blanks flags) (c # w) = [] \<or> ?n > 1")
    case True
    then have "rx_first (gpt2_regex flags) (c # w) = Some (trailing_end (blanks flags) (c # w))" 
      using c unfolding f trailing_spaces_def match_trailing trailing_end_def by (auto simp: Let_def)
    moreover have "0 < trailing_end (blanks flags) (c # w)" by (auto simp: trailing_end_def Let_def)
    ultimately show ?thesis using rx_words_match rx_first_le by blast
  next
    case False
    then have "takeWhile (blanks flags) w = []" "dropWhile (blanks flags) w \<noteq> []" using c by auto
    then have w: "w \<noteq> []" "\<not> is_whitespace (flags (hd w))" by (auto simp: takeWhile_eq_Nil)
    have t: "trailing_end (blanks flags) (c # w) = 1" using False c by (simp add: trailing_end_def Let_def)
    have "rx_first (gpt2_regex flags) (c # w) = None"
      using False c unfolding f trailing_spaces_def match_trailing by (auto simp: Let_def)
    moreover obtain n where "rx_first (gpt2_regex flags) w = Some n" "0 < n"
      using gpt2_nonblank [OF assms(1) w(2), of "tl w"] w(1) by auto
    ultimately show ?thesis using rx_words_gap rx_first_le t by fastforce
  qed
qed

lemma no_other [simp]: "\<not> is_other 0"
  by (simp add: is_other_def)

section \<open>The GPT-2 splitter\<close>

text \<open>A round that adds one token.\<close>

definition gives_words :: "piece_view \<Rightarrow> rx_item list list \<Rightarrow> nat \<Rightarrow> nat list \<Rightarrow> (nat \<times> token_state) option \<Rightarrow> bool" where
  "gives_words v alts pos out r =
     (\<exists>lens pos'. r = Some (pos', (pos', out @ lens)) \<and> rx_words alts (view_rest v pos) = lens @ rx_words alts (view_rest v pos'))"

lemma gives_word:
  assumes "view_ok v" "rx_words alts (view_rest v pos) = n # rx_words alts (drop n (view_rest v pos))" "0 < n" "n \<le> length (view_rest v pos)"
  shows "gives_words v alts pos out (map_option (\<lambda>(len, st1). (pos + n, st1)) (add_token v (pos + n) (pos, out)))"
    "gives_words v alts pos out (map_option (\<lambda>(len, st1). (pos + len, st1)) (add_token v (pos + n) (pos, out)))"
  using add_token_one [OF assms(1,3,4)] assms(2)
  by (auto simp: gives_words_def drop_rest intro!: exI [of _ "[n]"])

lemma gives_match:
  assumes "view_ok v" "rx_first alts (view_rest v pos) = Some n" "0 < n"
  shows "gives_words v alts pos out (map_option (\<lambda>(len, st1). (pos + n, st1)) (add_token v (pos + n) (pos, out)))"
    "gives_words v alts pos out (map_option (\<lambda>(len, st1). (pos + len, st1)) (add_token v (pos + n) (pos, out)))"
  using gives_word [OF assms(1)] rx_words_match [OF assms(2,3)] rx_first_le [OF assms(2)] assms(3) by blast+

lemma trailing_end_in: "w \<noteq> [] \<Longrightarrow> 0 < trailing_end P w \<and> trailing_end P w \<le> length w"
  using length_takeWhile_le [of P w] by (cases w) (auto simp: trailing_end_def Let_def)

lemma gpt2_follows:
  assumes "view_ok v" "pv_ini v \<le> pos" "pos < pv_end v"
  shows "gives_words v (gpt2_regex (pv_flags v)) pos out (gpt2_round v pos (pos, out))"
proof -
  let ?fl = "pv_flags v" and ?rx = "gpt2_regex (pv_flags v)"
  have ok: "classes_ok ?fl" using assms(1) by (simp add: view_ok_def)
  obtain c w where r: "view_rest v pos = c # w" using rest_Cons [OF assms(1,3)] by blast
  note g = get_next [OF assms(1,2) r] and con = contraction_rest [OF assms(1,2), unfolded r]
  let ?n = "contraction_of (\<lambda>c. c) (c # w)"
  show ?thesis
  proof (cases "?n > 0")
    case True
    then have "rx_first ?rx (view_rest v pos) = Some (1 + ?n)" by (simp add: gpt2_regex_def first_contractions r)
    then show ?thesis using gives_match(2) [OF assms(1), of ?rx pos "1 + ?n" out] True con by (simp add: gpt2_round_def Let_def add.assoc)
  next
    case False
    define u where "u = (if c = 32 then w else c # w)"
    define k where "k = (if c = 32 then 1 else 0 :: nat)"
    have u: "view_rest v (pos + k) = u" "pv_ini v \<le> pos + k" using r g(3) assms(2) by (simp_all add: u_def k_def)
    have f2: "(if get_cpt v pos = 32 then get_flags v (pos + 1) else get_flags v pos) = (case u of d # _ \<Rightarrow> ?fl d | [] \<Rightarrow> 0)"
      using g by (simp add: u_def)
    have p1: "(if get_cpt v pos = 32 then pos + 1 else pos) = pos + k" using g(1) by (simp add: k_def)
    have first: "rx_first ?rx (view_rest v pos) = (if starts_with (letters ?fl) u then Some (k + length (takeWhile (letters ?fl) u))
       else if starts_with (numbers ?fl) u then Some (k + length (takeWhile (numbers ?fl) u))
       else if starts_with (others ?fl) u then Some (k + length (takeWhile (others ?fl) u))
       else rx_match (trailing_spaces ?fl) (c # w))"
      using gpt2_first [OF ok, of c w] False by (simp only: Let_def r u_def k_def)
    have scan: "scan_while (\<lambda>p. C (get_flags v p)) (pv_end v) (pos + k) = pos + (k + length (takeWhile (\<lambda>c. C (?fl c)) u))" for C
      using scan_class [OF assms(1) u(2), of C] u(1) by simp
    have round: "gpt2_round v pos (pos, out) =
      (let f = (case u of d # _ \<Rightarrow> ?fl d | [] \<Rightarrow> 0);
           token = (\<lambda>n. map_option (\<lambda>(len, st1). (pos + n, st1)) (add_token v (pos + n) (pos, out)))
       in if is_letter f then token (k + length (takeWhile (letters ?fl) u))
          else if is_number f then token (k + length (takeWhile (numbers ?fl) u))
          else if is_other f then token (k + length (takeWhile (\<lambda>c. is_other (?fl c)) u))
          else token (trailing_end (blanks ?fl) (c # w)))"
      unfolding gpt2_round_def Let_def con f2 p1 scan [of is_letter] scan [of is_number] scan [of is_other] whitespace_rest [OF assms(1,2)] r
      using False by simp
    show ?thesis
    proof (cases "starts_with (\<lambda>c. is_letter (?fl c) \<or> is_number (?fl c) \<or> is_other (?fl c)) u")
      case True
      then show ?thesis unfolding round Let_def
        using gives_match(1) [OF assms(1), of ?rx pos _ out] first starts_run [of _ u]
        by (cases u) (auto simp: other_class [OF ok])
    next
      case False
      then have "starts_with (blanks ?fl) u \<or> (c = 32 \<and> w = [])" by (cases u) (auto simp: u_def other_class [OF ok] split: if_splits)
      then have "rx_words ?rx (view_rest v pos) = trailing_end (blanks ?fl) (c # w) # rx_words ?rx (drop (trailing_end (blanks ?fl) (c # w)) (view_rest v pos))"
        unfolding r u_def by (intro gpt2_blank [OF ok]) (use \<open>\<not> ?n > 0\<close> in auto)
      from gives_word(1) [OF assms(1) this] show ?thesis unfolding round Let_def
        using False trailing_end_in [of "c # w" "blanks ?fl"] r by (cases u) auto
    qed
  qed
qed

interpretation gpt2_regexp: regex_splitter gpt2_round gpt2_loop "\<lambda>v. gpt2_regex (pv_flags v)"
  using gpt2_follows by unfold_locales (simp add: gives_words_def)

text \<open>The splitter is the general path with its expression, for texts in UTF-8.\<close>

lemma encoded_in_range: "unicode_cpts_to_utf8 cps = Some bs \<Longrightarrow> \<forall>c\<in>set cps. c \<noteq> OUT_OF_RANGE"
proof (induction cps arbitrary: bs)
  case (Cons c cps)
  then obtain b bs' where b: "unicode_cpt_to_utf8 c = Some b" "unicode_cpts_to_utf8 cps = Some bs'"
    by (auto split: bind_splits)
  have "c \<le> 0x10ffff" using b(1) by (auto simp: cpt_to_utf8_arith split: if_splits)
  then show ?case using Cons.IH [OF b(2)] by (auto simp: OUT_OF_RANGE_def)
qed simp

theorem gpt2_split_is_regex:
  assumes "unicode_cpts_to_utf8 cps = Some txt" "classes_ok (unicode_cpt_flags_from_cpt cpt_flags)" "sum_list offs \<le> length cps"
  shows "\<exists>ls. unicode_regex_split_custom_gpt2 T cpt_flags txt offs = Some ls \<and>
    unicode_regex_split_stl (\<lambda>w. Some (rx_matches (gpt2_regex (unicode_cpt_flags_from_cpt cpt_flags)) 0 w)) cps offs 0 = Inr ls"
  using gpt2_regexp.split_is_regex [where start = 0 and out = "[]", OF _ assms(2) encoded_in_range [OF assms(1)]] assms(3)
  by (simp add: unicode_regex_split_custom_gpt2_def cpts_from_utf8_encode [OF assms(1)])

end
