(* ===== verification/PretokLlama3.thy ===== *)
theory PretokLlama3
  imports PretokRegex
begin

text \<open>The Llama-3 splitter follows its expression.\<close>

section \<open>The Llama-3 splitter\<close>

abbreviation breaks_after :: "(nat \<Rightarrow> unicode_cpt_flags) \<Rightarrow> rx_item list" where
  "breaks_after flags \<equiv> [Rep (blanks flags) 0 None, Rep is_line_break 1 None]"

lemmas match_plus_Suc = match_plus [unfolded One_nat_def] match_plus_le [unfolded One_nat_def]

lemma backtrack_None: "backtrack f 0 n = None \<Longrightarrow> k \<le> n \<Longrightarrow> f k = None"
proof (induction n)
  case 0
  then show ?case by (simp add: backtrack.simps [of f 0 0] split: option.splits)
next
  case (Suc n)
  then show ?case by (cases "k = Suc n") (auto simp: backtrack.simps [of f 0 "Suc n"] split: option.splits)
qed

lemma line_break_blank: "classes_ok flags \<Longrightarrow> is_line_break c \<Longrightarrow> is_whitespace (flags c)"
  by (auto simp: classes_ok_def is_line_break_def)

lemma breaks_after_blank:
  assumes "classes_ok flags" "is_whitespace (flags c)"
  shows "rx_match (breaks_after flags) (c # w) =
    (case rx_match (breaks_after flags) w of Some m \<Rightarrow> Some (Suc m) | None \<Rightarrow> if is_line_break c then Some 1 else None)"
proof -
  let ?f = "\<lambda>n. rx_match [Rep is_line_break 1 None] (drop n w)" and ?n = "length (takeWhile (blanks flags) w)"
  have l: "rx_match (breaks_after flags) (c # w) = backtrack (\<lambda>n. rx_match [Rep is_line_break 1 None] (drop n (c # w))) 0 (Suc ?n)"
    "rx_match (breaks_after flags) w = backtrack ?f 0 ?n"
    using assms(2) by (simp_all add: class_run_def Let_def del: rx_match.simps) (simp_all add: class_run_def)
  have "takeWhile is_line_break w = []" if "backtrack ?f 0 ?n = None"
    using backtrack_None [OF that, of 0] by (auto simp: match_plus_Suc simp del: rx_match.simps split: if_splits)
  then show ?thesis unfolding l backtrack_Suc
    by (auto simp: match_plus_Suc simp del: rx_match.simps split: option.split)
qed

lemma breaks_after_other:
  assumes "classes_ok flags" "\<not> starts_with (blanks flags) w"
  shows "rx_match (breaks_after flags) w = None"
proof -
  have "takeWhile (blanks flags) w = []" "takeWhile is_line_break w = []"
    using assms line_break_blank [OF assms(1)] by (auto simp: takeWhile_eq_Nil starts_with_def)
  then show ?thesis using match_plus [of is_line_break w]
    by (simp add: class_run_def backtrack.simps [of _ 0 0] del: rx_match.simps) (simp add: class_run_def backtrack.simps [of _ 0 0])
qed

lemma last_line_break_rest:
  assumes "view_ok v" "pv_ini v \<le> pos"
  shows "last_line_break v pos last_e =
    (case rx_match (breaks_after (pv_flags v)) (view_rest v pos) of Some m \<Rightarrow> pos + m | None \<Rightarrow> last_e)"
  using assms(2)
proof (induction "pv_end v - pos" arbitrary: pos last_e rule: less_induct)
  case less
  have ok: "classes_ok (pv_flags v)" using assms(1) by (simp add: view_ok_def)
  show ?case
  proof (cases "pos < pv_end v \<and> is_whitespace (get_flags v pos)")
    case True
    obtain c w where r: "view_rest v pos = c # w" using rest_Cons [OF assms(1)] True by blast
    note g = get_next [OF assms(1) less.prems r]
    have "pv_end v - Suc pos < pv_end v - pos" using True by (simp add: diff_less_mono2)
    from less.hyps [OF this] have "last_line_break v (Suc pos) e =
      (case rx_match (breaks_after (pv_flags v)) w of Some m \<Rightarrow> Suc pos + m | None \<Rightarrow> e)" for e
      using less.prems g(3) by simp
    then show ?thesis
      using True g r breaks_after_blank [OF ok, of c w] by (subst last_line_break.simps) (auto split: option.split)
  next
    case False
    then have "\<not> starts_with (blanks (pv_flags v)) (view_rest v pos)"
      using get_at(2) [OF assms(1) less.prems] rest_Nil [OF assms(1), of pos] by (cases "view_rest v pos") auto
    moreover have "last_line_break v pos last_e = last_e" using False by (subst last_line_break.simps) auto
    ultimately show ?thesis using breaks_after_other [OF ok] by (simp del: rx_match.simps)
  qed
qed

lemma match_opt_letters:
  "rx_match [Rep Q 0 (Some 1), Rep P 1 None] (c # w) =
    (if Q c \<and> starts_with P w then Some (1 + length (takeWhile P w))
     else if P c then Some (1 + length (takeWhile P w)) else None)"
  unfolding match_opt match_plus by (auto simp: takeWhile_eq_Nil starts_with_def)

lemma match_space_breaks:
  assumes "\<not> P 32"
  shows "rx_match [Rep (\<lambda>c. c = 32) 0 (Some 1), Rep P 1 None, Rep Q 0 None] (c # w) =
    (let u = (if c = 32 then w else c # w); k = (if c = 32 then 1 else 0); n = length (takeWhile P u) in
     if starts_with P u then Some (k + (n + length (takeWhile Q (drop n u)))) else None)"
proof -
  have s: "rx_match [Rep Q 0 None] u \<noteq> None" for u by (simp only: match_star) simp
  show ?thesis
    using assms unfolding match_opt match_plus_then [OF s] match_star by (auto simp: takeWhile_eq_Nil starts_with_def Let_def)
qed

lemma match_blanks:
  "(case rx_match [Rep P 1 None, Not_Ahead (\<lambda>c. \<not> P c)] (c # w) of Some n \<Rightarrow> Some n | None \<Rightarrow>
     (case rx_match [Rep P 1 None] (c # w) of Some n \<Rightarrow> Some n | None \<Rightarrow> None)) =
   (if P c then Some (trailing_end P (c # w)) else None)"
  unfolding match_trailing match_plus trailing_end_def by (auto simp: Let_def)

lemma llama3_first:
  assumes "classes_ok flags" "contraction_of lower (c # w) = 0"
  shows "rx_first (llama3_regex flags lower) (c # w) =
    (if \<not> (is_line_break c \<or> is_number (flags c)) \<and> (is_letter (flags c) \<or> starts_with (letters flags) w)
     then Some (1 + length (takeWhile (letters flags) w))
     else if is_number (flags c) then Some (min (length (takeWhile (numbers flags) (c # w))) 3)
     else let u = (if c = 32 then w else c # w); k = (if c = 32 then 1 else 0); n = length (takeWhile (others flags) u) in
     if starts_with (others flags) u then Some (k + (n + length (takeWhile is_line_break (drop n u))))
     else case rx_match (breaks_after flags) (c # w) of Some m \<Rightarrow> Some m
     | None \<Rightarrow> if is_whitespace (flags c) then Some (trailing_end (blanks flags) (c # w)) else None)"
proof -
  have o: "\<not> others flags 32" using space_classes [OF assms(1)] by auto
  have l: "is_letter (flags c) \<Longrightarrow> \<not> is_line_break c \<and> \<not> is_number (flags c)" 
    using assms(1) line_break_blank [OF assms(1), of c] by (auto simp: classes_ok_def)
  have a: "rx_first (llama3_regex flags lower) (c # w) =
    (case rx_match [Rep (\<lambda>c. \<not> (is_line_break c \<or> is_letter (flags c) \<or> is_number (flags c))) 0 (Some 1), Rep (letters flags) 1 None] (c # w)
       of Some n \<Rightarrow> Some n | None \<Rightarrow>
    (case rx_match [Rep (numbers flags) 1 (Some 3)] (c # w) of Some n \<Rightarrow> Some n | None \<Rightarrow>
    (case rx_match [Rep (\<lambda>c. c = 32) 0 (Some 1), Rep (others flags) 1 None, Rep is_line_break 0 None] (c # w) of Some n \<Rightarrow> Some n | None \<Rightarrow>
    (case rx_match (breaks_after flags) (c # w) of Some n \<Rightarrow> Some n | None \<Rightarrow>
    (case rx_match (trailing_spaces flags) (c # w) of Some n \<Rightarrow> Some n | None \<Rightarrow>
    (case rx_match [Rep (blanks flags) 1 None] (c # w) of Some n \<Rightarrow> Some n | None \<Rightarrow> None))))))"
    unfolding llama3_regex_def first_contractions rx_first.simps assms(2) by simp
  have n: "(0 :: nat) < 3" by simp
  show ?thesis unfolding a match_opt_letters match_plus_le [OF n] match_space_breaks [of "others flags", OF o] trailing_spaces_def match_blanks
    using l by (auto simp: Let_def simp del: rx_match.simps split: option.split)
qed

lemma llama3_number:
  assumes "classes_ok flags" "starts_with (numbers flags) w"
  shows "rx_first (llama3_regex flags lower) w = Some (min (length (takeWhile (numbers flags) w)) 3)"
proof -
  obtain c w' where w: "w = c # w'" "is_number (flags c)" using assms(2) by (cases w) auto
  have "c \<noteq> 39" using assms(1) w(2) by (auto simp: classes_ok_def is_other_def)
  then have "contraction_of lower w = 0" by (simp add: contraction_of_def w(1) split: list.split)
  then show ?thesis using llama3_first [OF assms(1), of lower c w'] w by simp
qed

lemma number_tokens_words:
  assumes "view_ok v"
  shows "pv_ini v \<le> ini \<Longrightarrow> ini \<le> pos \<Longrightarrow> pos \<le> pv_end v \<Longrightarrow> pos < ini + 3 \<Longrightarrow> 
    view_rest v ini = xs @ view_rest v pos \<Longrightarrow> length xs = pos - ini \<Longrightarrow> \<forall>c\<in>set xs. is_number (pv_flags v c) \<Longrightarrow>
    gives_words v (llama3_regex (pv_flags v) lower) ini out (number_tokens v ini pos (ini, out))"
proof (induction "pv_end v - pos" arbitrary: ini pos out xs rule: less_induct)
  case less
  let ?fl = "pv_flags v" and ?rx = "llama3_regex (pv_flags v) lower"
  have ok: "classes_ok ?fl" using assms by (simp add: view_ok_def)
  have p: "pv_ini v \<le> pos" using less.prems by simp
  show ?case
  proof (cases "pos < pv_end v \<and> is_number (get_flags v pos)")
    case True
    obtain c w where r: "view_rest v pos = c # w" using rest_Cons [OF assms] True by blast
    note g = get_next [OF assms p r]
    have c: "is_number (?fl c)" using True g(2) by simp
    have smaller: "pv_end v - Suc pos < pv_end v - pos" using True by (simp add: diff_less_mono2)
    have xs: "view_rest v ini = (xs @ [c]) @ view_rest v (Suc pos)" using less.prems(5) r g(3) by simp
    show ?thesis
    proof (cases "Suc pos - ini \<ge> 3")
      case three: True
      then have "length (xs @ [c]) = 3" using less.prems(4,6) by simp
      then have "takeWhile (numbers ?fl) (view_rest v ini) = (xs @ [c]) @ takeWhile (numbers ?fl) (view_rest v (Suc pos))"
        "starts_with (numbers ?fl) (view_rest v ini)"
        unfolding xs using less.prems(7) c by (auto simp: starts_with_def hd_append)
      then have "rx_first ?rx (view_rest v ini) = Some 3" using llama3_number [OF ok] \<open>length (xs @ [c]) = 3\<close> by simp
      note f = this rx_first_le [OF this]
      have e: "ini + 3 = Suc pos" using three less.prems(2,4) by simp
      have "rx_words ?rx (view_rest v ini) = 3 # rx_words ?rx (drop 3 (view_rest v ini))" by (rule rx_words_match [OF f(1) _ f(2)]) simp
      then have wd: "rx_words ?rx (view_rest v ini) = 3 # rx_words ?rx (view_rest v (Suc pos))" by (simp only: drop_rest e)
      have a: "add_token v (Suc pos) (ini, out) = Some (3, (Suc pos, out @ [3]))"
        using add_token_one [OF assms _ f(2), of out] e by simp
      have n: "number_tokens v ini pos (ini, out) = number_tokens v (Suc pos) (Suc pos) (Suc pos, out @ [3])"
        using number_tokens.simps [of v ini pos "(ini, out)"] True three a by simp
      have "gives_words v ?rx (Suc pos) (out @ [3]) (number_tokens v (Suc pos) (Suc pos) (Suc pos, out @ [3]))"
        using less.hyps [OF smaller, of "Suc pos" "[]" "out @ [3]"] p True by simp
      then obtain lens pos' where "number_tokens v (Suc pos) (Suc pos) (Suc pos, out @ [3]) = Some (pos', (pos', (out @ [3]) @ lens))"
        "rx_words ?rx (view_rest v (Suc pos)) = lens @ rx_words ?rx (view_rest v pos')"
        by (auto simp: gives_words_def)
      then show ?thesis using wd unfolding n gives_words_def by (intro exI [of _ "3 # lens"] exI [of _ pos']) simp
    next
      case False
      have "number_tokens v ini pos (ini, out) = number_tokens v ini (Suc pos) (ini, out)"
        using number_tokens.simps [of v ini pos "(ini, out)"] True False by simp
      moreover have "Suc pos \<le> pv_end v" "Suc pos < ini + 3" "length (xs @ [c]) = Suc pos - ini"
        using True False less.prems(2,6) by auto
      ultimately show ?thesis using less.hyps [OF smaller, of ini "xs @ [c]" out] less.prems(1,2,7) xs c by (simp del: length_append)
    qed
  next
    case False
    have n: "number_tokens v ini pos (ini, out) = map_option (\<lambda>(_, st1). (pos, st1)) (add_token v pos (ini, out))"
      using number_tokens.simps [of v ini pos "(ini, out)"] False by auto
    show ?thesis
    proof (cases "pos = ini")
      case True
      then show ?thesis unfolding n using less.prems(3) by (simp add: add_token_def gives_words_def)
    next
      case no: False
      then have xs: "xs \<noteq> []" using less.prems(2,6) by auto
      have stop: "takeWhile (numbers ?fl) (view_rest v pos) = []"
        using False get_at(2) [OF assms p] rest_Nil [OF assms, of pos] by (cases "view_rest v pos") auto
      have "takeWhile (numbers ?fl) (view_rest v ini) = xs" "starts_with (numbers ?fl) (view_rest v ini)"
        using less.prems(7) stop xs unfolding less.prems(5) by (auto simp: starts_with_def hd_append)
      then have f: "rx_first ?rx (view_rest v ini) = Some (pos - ini)" using llama3_number [OF ok] less.prems(4,6) by simp
      have "pos = ini + (pos - ini)" using less.prems(2) by simp
      then show ?thesis unfolding n using gives_match(1) [OF assms f, of out] no less.prems(2) by (simp add: case_prod_beta)
    qed
  qed
qed

lemma llama3_follows:
  assumes "view_ok v" "pv_ini v \<le> pos" "pos < pv_end v"
  shows "gives_words v (llama3_regex (pv_flags v) (pv_lower v)) pos out (llama3_round v pos (pos, out))"
proof -
  let ?fl = "pv_flags v" and ?rx = "llama3_regex (pv_flags v) (pv_lower v)"
  have ok: "classes_ok ?fl" using assms(1) by (simp add: view_ok_def)
  obtain c w where r: "view_rest v pos = c # w" using rest_Cons [OF assms(1,3)] by blast
  note g = get_next [OF assms(1,2) r] and con = contraction_rest [OF assms(1,2), unfolded r]
  let ?n = "contraction_of (pv_lower v) (c # w)"
  show ?thesis
  proof (cases "?n > 0")
    case True
    then have "rx_first ?rx (view_rest v pos) = Some (1 + ?n)" by (simp add: llama3_regex_def first_contractions r)
    then show ?thesis using gives_match(2) [OF assms(1), of ?rx pos "1 + ?n" out] True con by (simp add: llama3_round_def Let_def add.assoc)
  next
    case False
    define u where "u = (if c = 32 then w else c # w)"
    define k where "k = (if c = 32 then 1 else 0 :: nat)"
    define n where "n = length (takeWhile (others ?fl) u)"
    have u: "view_rest v (pos + k) = u" "pv_ini v \<le> pos + k" using r g(3) assms(2) by (simp_all add: u_def k_def)
    have p1: "(if c = 32 then pos + 1 else pos) = pos + k" by (simp add: k_def)
    have letters: "scan_while (letters (get_flags v)) (pv_end v) (pos + 1) = pos + (1 + length (takeWhile (letters ?fl) w))"
      using scan_class [OF assms(1), of "pos + 1" is_letter] assms(2) g(3) by simp
    have others: "scan_while (\<lambda>p. is_other (get_flags v p)) (pv_end v) (pos + k) = pos + (k + n)"
      using scan_class [OF assms(1) u(2), of is_other] u(1) by (simp add: other_class [OF ok] n_def)
    have breaks: "scan_while (\<lambda>p. is_line_break (get_cpt v p)) (pv_end v) (pos + (k + n)) = pos + (k + (n + length (takeWhile is_line_break (drop n u))))"
      using scan_breaks [OF assms(1), of "pos + (k + n)"] u(2) drop_rest [of n v "pos + k"] u(1) by (simp add: add.assoc)
    have first: "rx_first ?rx (view_rest v pos) =
      (if \<not> (is_line_break c \<or> is_number (?fl c)) \<and> (is_letter (?fl c) \<or> starts_with (letters ?fl) w)
       then Some (1 + length (takeWhile (letters ?fl) w))
       else if is_number (?fl c) then Some (min (length (takeWhile (numbers ?fl) (c # w))) 3)
       else if starts_with (others ?fl) u then Some (k + (n + length (takeWhile is_line_break (drop n u))))
       else case rx_match (breaks_after ?fl) (c # w) of Some m \<Rightarrow> Some m
       | None \<Rightarrow> if is_whitespace (?fl c) then Some (trailing_end (blanks ?fl) (c # w)) else None)"
      using llama3_first [OF ok, of "pv_lower v" c w] False by (simp only: Let_def r u_def k_def n_def)
    have fl: "?fl c \<noteq> 0" using ok by (simp add: classes_ok_def)
    have letter: "is_letter (?fl c) \<Longrightarrow> \<not> (is_line_break c \<or> is_number (?fl c))"
      using ok line_break_blank [OF ok, of c] by (auto simp: classes_ok_def)
    define f2 where "f2 = (case u of d # _ \<Rightarrow> ?fl d | [] \<Rightarrow> 0)"
    have f2: "(if c = 32 then get_flags v (pos + 1) else ?fl c) = f2"
      using g by (simp add: u_def f2_def)
    have others_f2: "\<not> (is_whitespace f2 \<or> is_letter f2 \<or> is_number f2) \<longleftrightarrow> u = [] \<or> starts_with (others ?fl) u"
      by (cases u) (auto simp: f2_def)
    let ?token = "\<lambda>n. map_option (\<lambda>(len, st1). (pos + n, st1)) (add_token v (pos + n) (pos, out))"
    have next_letter: "is_letter (get_flags v (pos + 1)) = starts_with (letters ?fl) w" using g(5) by (cases w) auto
    have round: "llama3_round v pos (pos, out) =
      (if \<not> (is_line_break c \<or> is_number (?fl c)) \<and> (is_letter (?fl c) \<or> starts_with (letters ?fl) w)
       then ?token (1 + length (takeWhile (letters ?fl) w))
       else if is_number (?fl c) then number_tokens v pos pos (pos, out)
       else if u = [] \<or> starts_with (others ?fl) u then ?token (k + (n + length (takeWhile is_line_break (drop n u))))
       else if last_line_break v pos 0 > 0
       then map_option (\<lambda>(len, st1). (last_line_break v pos 0, st1)) (add_token v (last_line_break v pos 0) (pos, out))
       else ?token (trailing_end (blanks ?fl) (c # w)))"
      unfolding llama3_round_def Let_def con f2 others_f2 p1 others breaks letters next_letter whitespace_rest [OF assms(1,2)] r g(1,2)
      using False fl by simp
    consider (letters) "\<not> (is_line_break c \<or> is_number (?fl c)) \<and> (is_letter (?fl c) \<or> starts_with (letters ?fl) w)"
      | (number) "is_number (?fl c)"
      | (last_space) "c = 32" "w = []"
      | (others) "\<not> is_number (?fl c)" "starts_with (others ?fl) u"
          "\<not> (\<not> (is_line_break c \<or> is_number (?fl c)) \<and> (is_letter (?fl c) \<or> starts_with (letters ?fl) w))"
      | (blank) "is_whitespace (?fl c)" "u \<noteq> []" "\<not> is_number (?fl c)" "\<not> starts_with (others ?fl) u"
          "\<not> (\<not> (is_line_break c \<or> is_number (?fl c)) \<and> (is_letter (?fl c) \<or> starts_with (letters ?fl) w))"
      using letter space_classes [OF ok] by (cases "c = 32") (auto simp: u_def split: if_splits)
    then show ?thesis
    proof cases
      case letters
      then show ?thesis using gives_match(1) [OF assms(1), of ?rx pos "1 + length (takeWhile (letters ?fl) w)" out] first round by simp
    next
      case number
      then show ?thesis using number_tokens_words [OF assms(1), of pos pos "[]" "pv_lower v" out] assms round by simp
    next
      case last_space
      have "rx_first ?rx (view_rest v pos) = Some 1"
        using first last_space space_classes [OF ok] breaks_after_blank [OF ok, of 32 "[]"] breaks_after_other [OF ok, of "[]"]
        by (simp add: u_def is_line_break_def trailing_end_def del: rx_match.simps)
      then show ?thesis using gives_match(1) [OF assms(1), of ?rx pos 1 out] round last_space space_classes [OF ok]
        by (simp add: u_def k_def n_def)
    next
      case others
      have "0 < n" unfolding n_def by (rule starts_run [OF others(2)])
      moreover have "rx_first ?rx (view_rest v pos) = Some (k + (n + length (takeWhile is_line_break (drop n u))))"
        using first by (simp only: if_not_P [OF others(3)] if_not_P [OF others(1)] if_P [OF others(2)])
      moreover have "llama3_round v pos (pos, out) = ?token (k + (n + length (takeWhile is_line_break (drop n u))))"
        using round by (simp only: if_not_P [OF others(3)] if_not_P [OF others(1)] if_P [OF disjI2 [OF others(2)]])
      ultimately show ?thesis using gives_match(1) [OF assms(1), of ?rx pos _ out] by simp
    next
      case blank
      note lb = last_line_break_rest [OF assms(1,2), of 0, unfolded r]
      have no: "\<not> (u = [] \<or> starts_with (others ?fl) u)" using blank(2,4) by blast
      note first1 = first [unfolded if_not_P [OF blank(5)] if_not_P [OF blank(3)] if_not_P [OF blank(4)]]
      note round1 = round [unfolded if_not_P [OF blank(5)] if_not_P [OF blank(3)] if_not_P [OF no]]
      show ?thesis
      proof (cases "rx_match (breaks_after ?fl) (c # w)")
        case None
        have "rx_first ?rx (view_rest v pos) = Some (trailing_end (blanks ?fl) (c # w))" using first1 blank(1) None by (simp del: rx_match.simps)
        moreover have "last_line_break v pos 0 = 0" using lb None by (simp del: rx_match.simps)
        ultimately show ?thesis using round1 gives_match(1) [OF assms(1), of ?rx pos _ out] trailing_end_in [of "c # w"] by simp
      next
        case (Some m)
        have "0 < m" using Some breaks_after_blank [OF ok blank(1), of w] by (auto split: option.splits if_splits simp del: rx_match.simps)
        moreover have "rx_first ?rx (view_rest v pos) = Some m" using first1 Some by (simp del: rx_match.simps)
        moreover have "last_line_break v pos 0 = pos + m" using lb Some by (simp del: rx_match.simps)
        ultimately show ?thesis using round1 gives_match(1) [OF assms(1), of ?rx pos m out] by simp
      qed
    qed
  qed
qed

interpretation llama3_regexp: regex_splitter llama3_round llama3_loop "\<lambda>v. llama3_regex (pv_flags v) (pv_lower v)"
  using llama3_follows by unfold_locales (simp add: gives_words_def)

theorem llama3_split_is_regex:
  assumes "unicode_cpts_to_utf8 cps = Some txt" "classes_ok (unicode_cpt_flags_from_cpt cpt_flags)" "sum_list offs \<le> length cps"
  shows "\<exists>ls. unicode_regex_split_custom_llama3 T cpt_flags txt offs = Some ls \<and>
    unicode_regex_split_stl (\<lambda>w. Some (rx_matches (llama3_regex (unicode_cpt_flags_from_cpt cpt_flags) (unicode_tolower T)) 0 w)) cps offs 0 = Inr ls"
  using llama3_regexp.split_is_regex [where start = 0 and out = "[]", OF _ assms(2) encoded_in_range [OF assms(1)]] assms(3)
  by (simp add: unicode_regex_split_custom_llama3_def cpts_from_utf8_encode [OF assms(1)])

end
