(* ===== verification/Vocab.thy ===== *)
theory Vocab
  imports PretokOk "HOL-Library.AList"
begin

text \<open>
  The vocabulary of \<^verbatim>\<open>llama-vocab.cpp\<close>: the two tables between tokens and their texts with the loop that fills
  them, the BPE merges, the list of special tokens, the attributes, the byte tokens and the text of one token.

  A token is its index, \<open>LLAMA_TOKEN_NULL\<close> is -1. The type of scores is a parameter. A \<open>std::unordered_map\<close> is an
  association list without duplicate keys. The attribute bits are a natural number.
\<close>

subsection \<open>Data\<close>

datatype llama_vocab_type = Vocab_NONE | Vocab_SPM | Vocab_BPE | Vocab_WPM | Vocab_UGM | Vocab_RWKV

type_synonym token_id = int

definition LLAMA_TOKEN_NULL :: token_id where
  "LLAMA_TOKEN_NULL = -1"

text \<open>A failed assertion, the exceptions, an index outside its array, and the errors of the word splitter.\<close>

datatype vocab_error = Vocab_Abort | Out_Of_Range | Runtime_Error | Bad_Access | Split_Error split_error

record 's token_data =
  td_text :: "byte list"
  td_score :: 's
  td_attr :: nat

record 's llama_vocab =
  vo_type :: llama_vocab_type
  vo_add_space_prefix :: bool
  vo_add_bos :: bool
  vo_add_eos :: bool
  vo_ignore_merges :: bool
  vo_clean_spaces :: bool
  vo_remove_extra_whitespaces :: bool
  vo_escape_whitespaces :: bool
  vo_treat_whitespace_as_suffix :: bool
  vo_max_token_len :: nat
  vo_bos_id :: token_id
  vo_eos_id :: token_id
  vo_unk_id :: token_id
  vo_sep_id :: token_id
  vo_token_to_id :: "(byte list \<times> token_id) list"
  vo_id_to_token :: "'s token_data list"
  vo_special_tokens :: "token_id list"
  vo_piece_cache :: "byte list list"
  vo_bpe_ranks :: "((byte list \<times> byte list) \<times> int) list"

text \<open>The bits of \<open>llama_token_attr\<close>.\<close>

definition ATTR_UNKNOWN :: nat where "ATTR_UNKNOWN = 1"
definition ATTR_UNUSED :: nat where "ATTR_UNUSED = 2"
definition ATTR_NORMAL :: nat where "ATTR_NORMAL = 4"
definition ATTR_CONTROL :: nat where "ATTR_CONTROL = 8"
definition ATTR_USER_DEFINED :: nat where "ATTR_USER_DEFINED = 16"
definition ATTR_BYTE :: nat where "ATTR_BYTE = 32"
definition ATTR_LSTRIP :: nat where "ATTR_LSTRIP = 128"
definition ATTR_RSTRIP :: nat where "ATTR_RSTRIP = 256"

definition has_attr :: "nat \<Rightarrow> nat \<Rightarrow> bool" where
  "has_attr attr bits = (attr AND bits \<noteq> 0)"

lemmas attr_bits = ATTR_UNKNOWN_def ATTR_UNUSED_def ATTR_NORMAL_def ATTR_CONTROL_def ATTR_USER_DEFINED_def
  ATTR_BYTE_def ATTR_LSTRIP_def ATTR_RSTRIP_def has_attr_def

text \<open>The six types of the file; any other is undefined.\<close>

definition attr_of_type :: "int \<Rightarrow> nat" where
  "attr_of_type t =
     (if t = 2 then ATTR_UNKNOWN else if t = 5 then ATTR_UNUSED else if t = 1 then ATTR_NORMAL
      else if t = 3 then ATTR_CONTROL else if t = 4 then ATTR_USER_DEFINED else if t = 6 then ATTR_BYTE else 0)"

subsection \<open>Loading the tokens\<close>

fun to_decimal :: "nat \<Rightarrow> byte list" where
  "to_decimal n = (if n < 10 then [48 + n] else to_decimal (n div 10) @ [48 + n mod 10])"

declare to_decimal.simps [simp del]

definition empty_name :: "nat \<Rightarrow> byte list" where
  "empty_name i = regex_text ''[EMPTY_'' @ to_decimal i @ regex_text '']''"

text \<open>The arrays of scores and types are optional; a read past their end is \<open>None\<close>.\<close>

definition array_read :: "'a list \<Rightarrow> nat \<Rightarrow> 'a option" where
  "array_read xs i = (if i < length xs then Some (xs ! i) else None)"

fun load_tokens_from ::
  "'s :: zero list option \<Rightarrow> int list option \<Rightarrow> nat \<Rightarrow> byte list list \<Rightarrow> 's llama_vocab \<Rightarrow> 's llama_vocab option"
where
  "load_tokens_from scores toktypes i [] v = Some v"
| "load_tokens_from scores toktypes i (w # ws) v =
     do {
       score \<leftarrow> (case scores of None \<Rightarrow> Some 0 | Some xs \<Rightarrow> array_read xs i);
       attr \<leftarrow> (case toktypes of None \<Rightarrow> Some ATTR_NORMAL | Some xs \<Rightarrow> map_option attr_of_type (array_read xs i));
       let word = (if w = [] then empty_name i else w);
       load_tokens_from scores toktypes (Suc i) ws
         (v\<lparr>vo_token_to_id := AList.update word (int i) (vo_token_to_id v),
            vo_max_token_len := max (vo_max_token_len v) (length word),
            vo_id_to_token := (vo_id_to_token v)[i := \<lparr>td_text = word, td_score = score, td_attr = attr\<rparr>]\<rparr>)
     }"

text \<open>The assertion after the loop: no text may come twice.\<close>

definition load_tokens ::
  "byte list list \<Rightarrow> 's :: zero list option \<Rightarrow> int list option \<Rightarrow> 's llama_vocab \<Rightarrow> 's llama_vocab option"
where
  "load_tokens ws scores toktypes v =
     do {
       v1 \<leftarrow> load_tokens_from scores toktypes 0 ws
              (v\<lparr>vo_id_to_token := replicate (length ws) \<lparr>td_text = [], td_score = 0, td_attr = 0\<rparr>\<rparr>);
       if length (vo_id_to_token v1) = length (vo_token_to_id v1) then Some v1 else None
     }"

definition n_tokens :: "'s llama_vocab \<Rightarrow> nat" where
  "n_tokens v = length (vo_id_to_token v)"

text \<open>The two tables agree.\<close>

definition vocab_ok :: "'s llama_vocab \<Rightarrow> bool" where
  "vocab_ok v \<longleftrightarrow> distinct (map fst (vo_token_to_id v)) \<and>
     (\<forall>t t'. map_of (vo_token_to_id v) t = Some t' \<longleftrightarrow>
       (\<exists>i < n_tokens v. t' = int i \<and> td_text (vo_id_to_token v ! i) = t))"

definition named_word :: "nat \<Rightarrow> byte list \<Rightarrow> byte list" where
  "named_word i w = (if w = [] then empty_name i else w)"

text \<open>The loop: the words so far in the one table, the last index of each in the other.\<close>

lemma load_tokens_from_ok:
  assumes "load_tokens_from scores toktypes i ws v = Some v'" "i + length ws = length (vo_id_to_token v)"
    and "distinct (map fst (vo_token_to_id v))" "fst ` set (vo_token_to_id v) = (\<lambda>j. td_text (vo_id_to_token v ! j)) ` {..<i}"
    and "\<And>t t'. map_of (vo_token_to_id v) t = Some t' \<Longrightarrow> \<exists>j < i. t' = int j \<and> td_text (vo_id_to_token v ! j) = t"
  shows "length (vo_id_to_token v') = length (vo_id_to_token v) \<and> distinct (map fst (vo_token_to_id v')) \<and>
    fst ` set (vo_token_to_id v') = (\<lambda>j. td_text (vo_id_to_token v' ! j)) ` {..<i + length ws} \<and>
    (\<forall>t t'. map_of (vo_token_to_id v') t = Some t' \<longrightarrow> (\<exists>j < i + length ws. t' = int j \<and> td_text (vo_id_to_token v' ! j) = t)) \<and>
    (\<forall>j < i. vo_id_to_token v' ! j = vo_id_to_token v ! j) \<and>
    (\<forall>j < length ws. td_text (vo_id_to_token v' ! (i + j)) = named_word (i + j) (ws ! j))"
  using assms
proof (induction ws arbitrary: i v)
  case Nil
  then show ?case by simp
next
  case (Cons w ws)
  obtain score attr where sa: "load_tokens_from scores toktypes (Suc i) ws
      (v\<lparr>vo_token_to_id := AList.update (named_word i w) (int i) (vo_token_to_id v),
         vo_max_token_len := max (vo_max_token_len v) (length (named_word i w)),
         vo_id_to_token := (vo_id_to_token v)[i := \<lparr>td_text = named_word i w, td_score = score, td_attr = attr\<rparr>]\<rparr>) = Some v'"
    (is "load_tokens_from _ _ _ _ ?v = _")
    using Cons.prems(1) by (auto simp: Let_def named_word_def split: bind_splits option.splits)
  have i: "i < length (vo_id_to_token v)" using Cons.prems(2) by simp
  have texts: "(\<lambda>j. td_text (vo_id_to_token ?v ! j)) ` {..<Suc i} = insert (named_word i w) ((\<lambda>j. td_text (vo_id_to_token v ! j)) ` {..<i})"
    using i by (auto simp: lessThan_Suc nth_list_update image_iff)
  have ih: "length (vo_id_to_token v') = length (vo_id_to_token ?v) \<and> distinct (map fst (vo_token_to_id v')) \<and>
    fst ` set (vo_token_to_id v') = (\<lambda>j. td_text (vo_id_to_token v' ! j)) ` {..<Suc i + length ws} \<and>
    (\<forall>t t'. map_of (vo_token_to_id v') t = Some t' \<longrightarrow> (\<exists>j < Suc i + length ws. t' = int j \<and> td_text (vo_id_to_token v' ! j) = t)) \<and>
    (\<forall>j < Suc i. vo_id_to_token v' ! j = vo_id_to_token ?v ! j) \<and>
    (\<forall>j < length ws. td_text (vo_id_to_token v' ! (Suc i + j)) = named_word (Suc i + j) (ws ! j))"
  proof (rule Cons.IH [OF sa])
    show "Suc i + length ws = length (vo_id_to_token ?v)" using Cons.prems(2) by simp
    show "distinct (map fst (vo_token_to_id ?v))" using Cons.prems(3) by (simp add: distinct_update)
    show "fst ` set (vo_token_to_id ?v) = (\<lambda>j. td_text (vo_id_to_token ?v ! j)) ` {..<Suc i}"
      unfolding texts using Cons.prems(4) by (simp add: dom_map_of_conv_image_fst [symmetric] update_conv')
    show "\<exists>j < Suc i. t' = int j \<and> td_text (vo_id_to_token ?v ! j) = t"
      if "map_of (vo_token_to_id ?v) t = Some t'" for t t'
    proof (cases "t = named_word i w")
      case True
      then show ?thesis using that i by (intro exI [of _ i]) (simp add: update_conv')
    next
      case False
      then have "map_of (vo_token_to_id v) t = Some t'" using that by (simp add: update_conv')
      from Cons.prems(5) [OF this] show ?thesis using i by (auto simp: nth_list_update)
    qed
  qed
  have "td_text (vo_id_to_token v' ! (i + j)) = named_word (i + j) ((w # ws) ! j)" if "j < length (w # ws)" for j
    using that ih i by (cases j) (simp_all add: nth_list_update)
  moreover have "vo_id_to_token v' ! j = vo_id_to_token v ! j" if "j < i" for j
    using that ih i by (simp add: nth_list_update)
  ultimately show ?case using ih by simp
qed

text \<open>A load that passes the assertion leaves the tables inverse to each other.\<close>

lemma inj_texts:
  assumes "distinct (map fst m)" "fst ` set m = f ` {..<n}" "length m = n"
  shows "inj_on f {..<n :: nat}"
proof -
  have "card (f ` {..<n}) = n" using assms distinct_card [of "map fst m"] by (metis length_map list.set_map)
  then show ?thesis by (intro eq_card_imp_inj_on) simp_all
qed

lemma load_tokens_ok:
  assumes "load_tokens ws scores toktypes v = Some v'" "vo_token_to_id v = []"
  shows "vocab_ok v'" "n_tokens v' = length ws"
    "i < length ws \<Longrightarrow> td_text (vo_id_to_token v' ! i) = named_word i (ws ! i)"
proof -
  let ?v = "v\<lparr>vo_id_to_token := replicate (length ws) \<lparr>td_text = [], td_score = 0, td_attr = 0\<rparr>\<rparr>"
  have l: "load_tokens_from scores toktypes 0 ws ?v = Some v'" and n: "length (vo_id_to_token v') = length (vo_token_to_id v')"
    using assms(1) by (auto simp: load_tokens_def split: bind_splits if_splits)
  from load_tokens_from_ok [OF l] assms(2)
  have r: "length (vo_id_to_token v') = length ws" "distinct (map fst (vo_token_to_id v'))"
    "fst ` set (vo_token_to_id v') = (\<lambda>j. td_text (vo_id_to_token v' ! j)) ` {..<length ws}"
    "\<And>t t'. map_of (vo_token_to_id v') t = Some t' \<Longrightarrow> \<exists>j < length ws. t' = int j \<and> td_text (vo_id_to_token v' ! j) = t"
    "\<And>j. j < length ws \<Longrightarrow> td_text (vo_id_to_token v' ! j) = named_word j (ws ! j)"
    by simp_all
  show "n_tokens v' = length ws" using r(1) by (simp add: n_tokens_def)
  show "i < length ws \<Longrightarrow> td_text (vo_id_to_token v' ! i) = named_word i (ws ! i)" by (rule r(5))
  have inj: "inj_on (\<lambda>j. td_text (vo_id_to_token v' ! j)) {..<length ws}"
    by (rule inj_texts [OF r(2,3)]) (use r(1) n in simp)
  have "map_of (vo_token_to_id v') (td_text (vo_id_to_token v' ! j)) = Some (int j)" if j: "j < length ws" for j
  proof -
    have "td_text (vo_id_to_token v' ! j) \<in> fst ` set (vo_token_to_id v')" using j r(3) by auto
    then obtain t' where t': "map_of (vo_token_to_id v') (td_text (vo_id_to_token v' ! j)) = Some t'"
      by (metis dom_map_of_conv_image_fst domD)
    obtain k where "k < length ws" "t' = int k" "td_text (vo_id_to_token v' ! k) = td_text (vo_id_to_token v' ! j)"
      using r(4) [OF t'] by blast
    then show ?thesis using t' inj_onD [OF inj, of k j] j by simp
  qed
  then show "vocab_ok v'" using r unfolding vocab_ok_def n_tokens_def by auto
qed

text \<open>No text is longer than the recorded length.\<close>

definition max_len_ok :: "'s llama_vocab \<Rightarrow> bool" where
  "max_len_ok v \<longleftrightarrow> (\<forall>d \<in> set (vo_id_to_token v). length (td_text d) \<le> vo_max_token_len v)"

lemma load_tokens_from_max:
  "load_tokens_from scores toktypes i ws v = Some v' \<Longrightarrow> max_len_ok v \<Longrightarrow> max_len_ok v'"
proof (induction scores toktypes i ws v rule: load_tokens_from.induct)
  case (2 scores toktypes i w ws v)
  obtain score attr where sa: "(case scores of None \<Rightarrow> Some 0 | Some xs \<Rightarrow> array_read xs i) = Some score"
    "(case toktypes of None \<Rightarrow> Some ATTR_NORMAL | Some xs \<Rightarrow> map_option attr_of_type (array_read xs i)) = Some attr"
    using 2(2) by (auto split: bind_splits)
  define word where "word = (if w = [] then empty_name i else w)"
  let ?v = "v\<lparr>vo_token_to_id := AList.update word (int i) (vo_token_to_id v),
       vo_max_token_len := max (vo_max_token_len v) (length word),
       vo_id_to_token := (vo_id_to_token v)[i := \<lparr>td_text = word, td_score = score, td_attr = attr\<rparr>]\<rparr>"
  have load: "load_tokens_from scores toktypes (Suc i) ws ?v = Some v'"
    using 2(2) sa by (simp add: Let_def word_def)
  have "length (td_text d) \<le> max (vo_max_token_len v) (length word)"
    if d: "d \<in> set ((vo_id_to_token v)[i := \<lparr>td_text = word, td_score = score, td_attr = attr\<rparr>])" for d
  proof -
    have "d = \<lparr>td_text = word, td_score = score, td_attr = attr\<rparr> \<or> d \<in> set (vo_id_to_token v)"
      using d set_update_subset_insert by fastforce
    then show ?thesis
    proof
      assume "d \<in> set (vo_id_to_token v)"
      then have "length (td_text d) \<le> vo_max_token_len v" using 2(3) by (simp add: max_len_ok_def)
      then show ?thesis by (rule max.coboundedI1)
    qed simp
  qed
  then have "max_len_ok ?v" by (simp add: max_len_ok_def)
  then show ?case by (rule 2(1) [OF sa refl, folded word_def, OF load])
qed simp

lemma load_tokens_max: "load_tokens ws scores toktypes v = Some v' \<Longrightarrow> max_len_ok v'"
proof -
  assume "load_tokens ws scores toktypes v = Some v'"
  then have "load_tokens_from scores toktypes 0 ws (v\<lparr>vo_id_to_token := replicate (length ws) \<lparr>td_text = [], td_score = 0, td_attr = 0\<rparr>\<rparr>) = Some v'"
    by (auto simp: load_tokens_def split: bind_splits if_splits)
  then show ?thesis by (rule load_tokens_from_max) (simp add: max_len_ok_def)
qed

subsection \<open>Merges\<close>

text \<open>\<open>std::string::find\<close>.\<close>

fun find_sub :: "byte list \<Rightarrow> byte list \<Rightarrow> nat option" where
  "find_sub pat s =
     (if take (length pat) s = pat then Some 0
      else case s of [] \<Rightarrow> None | b # s' \<Rightarrow> map_option Suc (find_sub pat s'))"

declare find_sub.simps [simp del]

definition str_find :: "byte list \<Rightarrow> byte list \<Rightarrow> nat \<Rightarrow> nat option" where
  "str_find s pat from = (if from \<le> length s then map_option (\<lambda>p. from + p) (find_sub pat (drop from s)) else None)"

text \<open>A merge is cut at the first space past its first byte, and keeps its first rank.\<close>

definition cut_merge :: "byte list \<Rightarrow> byte list \<times> byte list" where
  "cut_merge word = (case str_find word [32] 1 of None \<Rightarrow> ([], []) | Some p \<Rightarrow> (take p word, drop (p + 1) word))"

definition emplace :: "'k \<Rightarrow> 'b \<Rightarrow> ('k \<times> 'b) list \<Rightarrow> ('k \<times> 'b) list" where
  "emplace k x m = (if map_of m k = None then m @ [(k, x)] else m)"

fun load_merges_from :: "nat \<Rightarrow> byte list list \<Rightarrow> ((byte list \<times> byte list) \<times> int) list \<Rightarrow> ((byte list \<times> byte list) \<times> int) list" where
  "load_merges_from i [] m = m"
| "load_merges_from i (w # ws) m = load_merges_from (Suc i) ws (emplace (cut_merge w) (int i) m)"

definition load_merges :: "byte list list \<Rightarrow> 's llama_vocab \<Rightarrow> 's llama_vocab" where
  "load_merges ws v = v\<lparr>vo_bpe_ranks := load_merges_from 0 ws (vo_bpe_ranks v)\<rparr>"

lemma map_of_emplace: "map_of (emplace k x m) k' = (if k' = k \<and> map_of m k = None then Some x else map_of m k')"
  by (auto simp: emplace_def map_add_Some_iff map_add_def split: option.split)

lemma find_map_index: "List.find P (map f xs) = map_option f (List.find (\<lambda>x. P (f x)) xs)"
  by (induction xs) auto

text \<open>The rank of a pair is the index of its first merge.\<close>

lemma load_merges_from_rank:
  "map_of (load_merges_from i ws m) p =
     (case map_of m p of Some r \<Rightarrow> Some r
      | None \<Rightarrow> map_option (\<lambda>j. int (i + j)) (List.find (\<lambda>j. cut_merge (ws ! j) = p) [0..<length ws]))"
proof (induction ws arbitrary: i m)
  case Nil
  then show ?case by (simp split: option.split)
next
  case (Cons w ws)
  have "List.find P [0..<Suc n] = (if P 0 then Some 0 else map_option Suc (List.find (\<lambda>j. P (Suc j)) [0..<n]))" for P n
    by (simp add: upt_conv_Cons find_map_index del: upt_Suc flip: map_Suc_upt)
  then show ?case using Cons by (auto simp: map_of_emplace option.map_comp comp_def add.left_commute split: option.split)
qed

text \<open>Handing the merges out again: every pair is written at its rank.\<close>

definition get_bpe_merges :: "'s llama_vocab \<Rightarrow> byte list list option" where
  "get_bpe_merges v =
     fold (\<lambda>((a, b), r) res. do { xs \<leftarrow> res; if nat r < length xs then Some (xs[nat r := a @ [32] @ b]) else None })
       (vo_bpe_ranks v) (Some (replicate (length (vo_bpe_ranks v)) []))"

definition find_bpe_rank :: "'s llama_vocab \<Rightarrow> byte list \<Rightarrow> byte list \<Rightarrow> int option" where
  "find_bpe_rank v l r =
     (if 32 \<in> set l \<or> 10 \<in> set l \<or> 32 \<in> set r \<or> 10 \<in> set r then None
      else Some (case map_of (vo_bpe_ranks v) (l, r) of None \<Rightarrow> -1 | Some k \<Rightarrow> k))"

subsection \<open>Lookups\<close>

definition token_of_text :: "'s llama_vocab \<Rightarrow> byte list \<Rightarrow> token_id" where
  "token_of_text v t = (case map_of (vo_token_to_id v) t of Some t' \<Rightarrow> t' | None \<Rightarrow> LLAMA_TOKEN_NULL)"

text \<open>The sessions of a tokenizer run on a vocabulary with a type, so its assertion is only here.\<close>

definition text_to_token :: "'s llama_vocab \<Rightarrow> byte list \<Rightarrow> token_id option" where
  "text_to_token v t = (if vo_type v = Vocab_NONE then None else Some (token_of_text v t))"

definition get_token_data :: "'s llama_vocab \<Rightarrow> token_id \<Rightarrow> 's token_data option" where
  "get_token_data v t = (if 0 \<le> t \<and> nat t < n_tokens v then Some (vo_id_to_token v ! nat t) else None)"

definition token_has :: "'s llama_vocab \<Rightarrow> token_id \<Rightarrow> nat \<Rightarrow> bool" where
  "token_has v t bits = has_attr (td_attr (vo_id_to_token v ! nat t)) bits"

definition cache_special_tokens :: "'s llama_vocab \<Rightarrow> token_id list" where
  "cache_special_tokens v =
     sort_key (\<lambda>t. - int (length (td_text (vo_id_to_token v ! nat t))))
       (filter (\<lambda>t. token_has v t (ATTR_CONTROL OR ATTR_USER_DEFINED OR ATTR_UNKNOWN)) (map int [0..<n_tokens v]))"

definition hex_digit :: "nat \<Rightarrow> byte" where
  "hex_digit n = (if n < 10 then 48 + n else 55 + n)"

definition hex_name :: "byte \<Rightarrow> byte list" where
  "hex_name ch = [60, 48, 120, hex_digit (ch div 16), hex_digit (ch mod 16), 62]"

text \<open>\<open>find\<close> on a C string: a zero byte would end it.\<close>

definition byte_to_token :: "'s llama_vocab \<Rightarrow> byte \<Rightarrow> vocab_error + token_id" where
  "byte_to_token v ch =
     (case vo_type v of
        Vocab_SPM \<Rightarrow> (case map_of (vo_token_to_id v) (hex_name ch) of Some t \<Rightarrow> Inr t
          | None \<Rightarrow> or_fail Out_Of_Range (map_of (vo_token_to_id v) (if ch = 0 then [] else [ch])))
      | Vocab_UGM \<Rightarrow> (case map_of (vo_token_to_id v) (hex_name ch) of Some t \<Rightarrow> Inr t
          | None \<Rightarrow> or_fail Out_Of_Range (map_of (vo_token_to_id v) (if ch = 0 then [] else [ch])))
      | Vocab_WPM \<Rightarrow> attempt (or_fail Out_Of_Range (unicode_byte_to_utf8 ch)) (\<lambda>t. or_fail Out_Of_Range (map_of (vo_token_to_id v) t))
      | Vocab_BPE \<Rightarrow> attempt (or_fail Out_Of_Range (unicode_byte_to_utf8 ch)) (\<lambda>t. or_fail Out_Of_Range (map_of (vo_token_to_id v) t))
      | _ \<Rightarrow> Inl Vocab_Abort)"

text \<open>\<open>strtol\<close> with base 16 on two bytes: white space, a sign, then the hexadecimal digits.\<close>

definition is_space :: "byte \<Rightarrow> bool" where
  "is_space b = (b = 32 \<or> 9 \<le> b \<and> b \<le> 13)"

definition hex_value :: "byte \<Rightarrow> nat option" where
  "hex_value b = (if 48 \<le> b \<and> b \<le> 57 then Some (b - 48) else if 97 \<le> b \<and> b \<le> 102 then Some (b - 87)
     else if 65 \<le> b \<and> b \<le> 70 then Some (b - 55) else None)"

fun hex_number :: "nat \<Rightarrow> byte list \<Rightarrow> nat" where
  "hex_number n [] = n"
| "hex_number n (b # s) = (case hex_value b of None \<Rightarrow> n | Some d \<Rightarrow> hex_number (16 * n + d) s)"

definition strtol_hex :: "byte list \<Rightarrow> int" where
  "strtol_hex s =
     (case dropWhile is_space s of
        [] \<Rightarrow> 0
      | b # s' \<Rightarrow> if b = 45 then - int (hex_number 0 s') else if b = 43 then int (hex_number 0 s')
                  else int (hex_number 0 (b # s')))"

definition token_to_byte :: "'s llama_vocab \<Rightarrow> token_id \<Rightarrow> vocab_error + byte" where
  "token_to_byte v t =
     (case get_token_data v t of
        None \<Rightarrow> Inl Bad_Access
      | Some d \<Rightarrow>
          if vo_type v = Vocab_NONE \<or> \<not> has_attr (td_attr d) ATTR_BYTE then Inl Vocab_Abort
          else if vo_type v = Vocab_SPM \<or> vo_type v = Vocab_UGM then
            (if length (td_text d) < 3 then Inl Out_Of_Range
             else Inr (nat (strtol_hex (take 2 (drop 3 (td_text d))) mod 256)))
          else Inl Vocab_Abort)"

lemma hex_value_digit: "n < 16 \<Longrightarrow> hex_value (hex_digit n) = Some n"
  by (auto simp: hex_value_def hex_digit_def)

lemma hex_digit_plain: "n < 16 \<Longrightarrow> \<not> is_space (hex_digit n) \<and> hex_digit n \<noteq> 43 \<and> hex_digit n \<noteq> 45"
  by (auto simp: is_space_def hex_digit_def)

lemma strtol_hex_digits: "a < 16 \<Longrightarrow> b < 16 \<Longrightarrow> strtol_hex [hex_digit a, hex_digit b] = int (16 * a + b)"
  by (simp add: strtol_hex_def hex_digit_plain hex_value_digit)

lemma token_of_byte:
  assumes "vocab_ok v" "vo_type v = Vocab_SPM \<or> vo_type v = Vocab_UGM" "ch < 256"
    and "map_of (vo_token_to_id v) (hex_name ch) = Some t" "token_has v t ATTR_BYTE"
  shows "byte_to_token v ch = Inr t \<and> token_to_byte v t = Inr ch"
proof -
  obtain i where i: "i < n_tokens v" "t = int i" "td_text (vo_id_to_token v ! i) = hex_name ch"
    using assms(1,4) unfolding vocab_ok_def by blast
  have "byte_to_token v ch = Inr t" using assms(2,4) by (auto simp: byte_to_token_def)
  moreover have "nat (strtol_hex [hex_digit (ch div 16), hex_digit (ch mod 16)] mod 256) = ch"
    using assms(3) by (simp add: strtol_hex_digits nat_mod_distrib)
  ultimately show ?thesis
    using i assms(2,5) by (auto simp: token_to_byte_def get_token_data_def token_has_def hex_name_def)
qed

subsection \<open>The text of a token\<close>

text \<open>\<open>replace_all\<close> of \<^verbatim>\<open>llama-impl.cpp\<close>.\<close>

lemma find_sub_bound: "find_sub pat s = Some p \<Longrightarrow> p + length pat \<le> length s"
proof (induction pat s arbitrary: p rule: find_sub.induct)
  case (1 pat s)
  show ?case
  proof (cases "take (length pat) s = pat")
    case True
    then have "p = 0" using 1(2) by (simp add: find_sub.simps)
    then show ?thesis using arg_cong [OF True, of length] by simp
  next
    case False
    then obtain b s' q where "s = b # s'" "find_sub pat s' = Some q" "p = Suc q"
      using 1(2) by (subst (asm) find_sub.simps) (auto split: list.splits)
    then show ?thesis using 1(1) [OF False, of b s' q] by simp
  qed
qed

function replace_all :: "byte list \<Rightarrow> byte list \<Rightarrow> byte list \<Rightarrow> byte list" where
  "replace_all search rep s =
     (if search = [] then s
      else case find_sub search s of None \<Rightarrow> s
        | Some p \<Rightarrow> take p s @ rep @ replace_all search rep (drop (p + length search) s))"
  by auto
termination
proof (relation "measure (\<lambda>(search, rep, s). length s)")
  fix search rep s :: "byte list" and p
  assume "search \<noteq> []" "find_sub search s = Some p"
  then show "((search, rep, drop (p + length search) s), (search, rep, s)) \<in> measure (\<lambda>(search, rep, s). length s)"
    using find_sub_bound [of search s p] by (cases search) auto
qed simp

declare replace_all.simps [simp del]

text \<open>U+2581 stands for the space.\<close>

definition escaped_space :: "byte list" where
  "escaped_space = [0xe2, 0x96, 0x81]"

definition llama_escape_whitespace :: "byte list \<Rightarrow> byte list" where
  "llama_escape_whitespace s = replace_all [32] escaped_space s"

definition llama_unescape_whitespace :: "byte list \<Rightarrow> byte list" where
  "llama_unescape_whitespace s = replace_all escaped_space [32] s"

lemma replace_all_Nil: "search \<noteq> [] \<Longrightarrow> replace_all search rep [] = []"
  by (simp add: replace_all.simps find_sub.simps)

lemma replace_all_Cons:
  "search \<noteq> [] \<Longrightarrow> replace_all search rep (b # s) =
     (if take (length search) (b # s) = search then rep @ replace_all search rep (drop (length search) (b # s))
      else b # replace_all search rep s)"
  by (subst (1) replace_all.simps, subst (1) find_sub.simps, subst (2) replace_all.simps) (auto split: option.split)

lemma escape_concat: "llama_escape_whitespace s = concat (map (\<lambda>b. if b = 32 then escaped_space else [b]) s)"
  unfolding llama_escape_whitespace_def by (induction s) (simp_all add: replace_all_Nil replace_all_Cons)

lemma escaped_space_len: "escaped_space \<noteq> []" "length escaped_space = 3"
  by (simp_all add: escaped_space_def)

lemma unescape_Cons:
  "llama_unescape_whitespace (b # s) =
     (if take 3 (b # s) = escaped_space then 32 # llama_unescape_whitespace (drop 3 (b # s)) else b # llama_unescape_whitespace s)"
  unfolding llama_unescape_whitespace_def using replace_all_Cons [of escaped_space "[32]" b s]
  by (simp add: escaped_space_len)

lemma find_sub_None_Cons: "find_sub pat (b # s) = None \<longleftrightarrow> take (length pat) (b # s) \<noteq> pat \<and> find_sub pat s = None"
  by (subst find_sub.simps) simp

text \<open>Escaping can be undone on a text that has no escaped space of its own.\<close>

lemma unescape_escape:
  "find_sub escaped_space s = None \<Longrightarrow> llama_unescape_whitespace (llama_escape_whitespace s) = s"
proof (induction s)
  case Nil
  then show ?case by (simp add: llama_unescape_whitespace_def llama_escape_whitespace_def replace_all_Nil escaped_space_def)
next
  case (Cons b s)
  have none: "take 3 (b # s) \<noteq> escaped_space" "find_sub escaped_space s = None"
    using Cons.prems unfolding find_sub_None_Cons by (simp_all add: escaped_space_len)
  have ih: "llama_unescape_whitespace (llama_escape_whitespace s) = s" by (rule Cons.IH [OF none(2)])
  show ?case
  proof (cases "b = 32")
    case True
    then show ?thesis using ih by (simp add: escape_concat escaped_space_def unescape_Cons)
  next
    case False
    have "take 3 (llama_escape_whitespace (b # s)) \<noteq> escaped_space"
    proof
      assume t: "take 3 (llama_escape_whitespace (b # s)) = escaped_space"
      then have b: "b = 0xe2" using False by (simp add: escape_concat escaped_space_def)
      obtain c s1 where s: "s = c # s1" using t b by (cases s) (auto simp: escape_concat escaped_space_def)
      then have c: "c = 0x96" using t b by (auto simp: escape_concat escaped_space_def split: if_splits)
      obtain d s2 where s1: "s1 = d # s2" using t b c s by (cases s1) (auto simp: escape_concat escaped_space_def)
      then have "d = 0x81" using t b c s by (auto simp: escape_concat escaped_space_def split: if_splits)
      then show False using none(1) b c s s1 by (simp add: escaped_space_def)
    qed
    then show ?thesis using ih False by (simp add: escape_concat unescape_Cons)
  qed
qed

text \<open>
  \<open>llama_decode_text\<close> undoes the byte alphabet. A code point that stands for no byte is written out, with the
  whole text; a number that is no code point has no UTF-8, which is an exception of another kind.
\<close>

definition hex_lower :: "byte \<Rightarrow> byte list" where
  "hex_lower b = map (\<lambda>n. if n < 10 then 48 + n else 87 + n) [b div 16, b mod 16]"

fun decode_cpts :: "byte list \<Rightarrow> nat list \<Rightarrow> vocab_error + byte list" where
  "decode_cpts txt [] = Inr []"
| "decode_cpts txt (c # cs) =
     attempt (or_fail (Split_Error Invalid_Codepoint) (unicode_cpt_to_utf8 c)) (\<lambda>utf8.
       attempt (decode_cpts txt cs) (\<lambda>rest.
         Inr ((case unicode_utf8_to_byte utf8 of
                 Some b \<Rightarrow> [b]
               | None \<Rightarrow> regex_text ''[UNK_BYTE_0x'' @ concat (map hex_lower utf8) @ txt @ regex_text '']'') @ rest)))"

definition llama_decode_text :: "byte list \<Rightarrow> vocab_error + byte list" where
  "llama_decode_text txt = decode_cpts txt (unicode_cpts_from_utf8 txt)"

text \<open>\<open>llama_unescape_rwkv_token\<close>, on characters as signed bytes; the state is the loop's.\<close>

definition rwkv_digit :: "byte \<Rightarrow> nat" where
  "rwkv_digit c = (if 97 \<le> c \<and> c < 128 then c - 87 else (c + 208) mod 256)"

fun rwkv_unescape :: "bool \<Rightarrow> nat \<Rightarrow> nat \<Rightarrow> byte list \<Rightarrow> byte list" where
  "rwkv_unescape esc hex acc [] = []"
| "rwkv_unescape esc hex acc (c # s) =
     (if hex \<noteq> 0 then
        (let acc' = (16 * acc + rwkv_digit c) mod 256 in
         if hex = 1 then acc' # rwkv_unescape esc 0 0 s else rwkv_unescape esc (hex - 1) acc' s)
      else if esc then
        (if c = 116 then 9 # rwkv_unescape False hex acc s
         else if c = 110 then 10 # rwkv_unescape False hex acc s
         else if c = 114 then 13 # rwkv_unescape False hex acc s
         else if c = 120 then rwkv_unescape False 2 acc s
         else c # rwkv_unescape False hex acc s)
      else if c = 92 then rwkv_unescape True hex acc s
      else c # rwkv_unescape esc hex acc s)"

definition llama_unescape_rwkv_token :: "byte list \<Rightarrow> byte list" where
  "llama_unescape_rwkv_token s = rwkv_unescape False 0 0 s"

text \<open>
  \<open>token_to_piece\<close> writes into a buffer of \<open>length\<close> bytes: the result, the number of bytes or minus the number
  needed, with what is written. Sizes are below \<open>2 ^ 31\<close>.
\<close>

fun skip_spaces :: "nat \<Rightarrow> byte list \<Rightarrow> byte list" where
  "skip_spaces 0 s = s"
| "skip_spaces (Suc k) [] = []"
| "skip_spaces (Suc k) (b # s) = (if b = 32 then skip_spaces k s else b # s)"

definition try_copy :: "int \<Rightarrow> int \<Rightarrow> byte list \<Rightarrow> int \<times> byte list" where
  "try_copy len lstrip s =
     (let t = skip_spaces (nat lstrip) s; n = int (length t) in if len < n then (- n, []) else (n, t))"

definition ATTR_special :: nat where
  "ATTR_special = ATTR_UNKNOWN OR ATTR_CONTROL"

definition piece_of :: "'s llama_vocab \<Rightarrow> token_id \<Rightarrow> int \<Rightarrow> int \<Rightarrow> vocab_error + (int \<times> byte list)" where
  "piece_of v t len lstrip =
     (let d = vo_id_to_token v ! nat t; attr = td_attr d in
      case vo_type v of
        Vocab_BPE \<Rightarrow>
          if has_attr attr (ATTR_special OR ATTR_USER_DEFINED) then Inr (try_copy len lstrip (td_text d))
          else if has_attr attr ATTR_NORMAL then attempt (llama_decode_text (td_text d)) (\<lambda>s. Inr (try_copy len lstrip s))
          else Inr (0, [])
      | Vocab_RWKV \<Rightarrow>
          (let s = llama_unescape_rwkv_token (td_text d) in
           Inr (if len < int (length s) then (- int (length s), []) else (int (length s), s)))
      | Vocab_NONE \<Rightarrow> Inl Vocab_Abort
      | _ \<Rightarrow>
          if has_attr attr (ATTR_special OR ATTR_USER_DEFINED) then Inr (try_copy len lstrip (td_text d))
          else if has_attr attr ATTR_NORMAL then Inr (try_copy len lstrip (llama_unescape_whitespace (td_text d)))
          else if has_attr attr ATTR_BYTE then attempt (token_to_byte v t) (\<lambda>b. Inr (try_copy len lstrip [b]))
          else Inr (0, []))"

definition token_to_piece :: "'s llama_vocab \<Rightarrow> token_id \<Rightarrow> int \<Rightarrow> int \<Rightarrow> bool \<Rightarrow> vocab_error + (int \<times> byte list)" where
  "token_to_piece v t len lstrip special =
     (if vo_type v = Vocab_NONE then Inl Vocab_Abort
      else case get_token_data v t of
        None \<Rightarrow> Inl Out_Of_Range
      | Some d \<Rightarrow>
          if \<not> special \<and> has_attr (td_attr d) ATTR_special then Inr (0, [])
          else if vo_piece_cache v \<noteq> [] then
            (if nat t < length (vo_piece_cache v) then Inr (try_copy len lstrip (vo_piece_cache v ! nat t)) else Inl Out_Of_Range)
          else piece_of v t len lstrip)"

text \<open>The cache holds each token's piece, asked for again when the first buffer was too small.\<close>

definition token_to_piece_for_cache :: "'s llama_vocab \<Rightarrow> token_id \<Rightarrow> bool \<Rightarrow> int \<Rightarrow> vocab_error + byte list" where
  "token_to_piece_for_cache v t special capacity =
     attempt (token_to_piece v t capacity 0 special) (\<lambda>(n, s).
       if n < 0 then
         attempt (token_to_piece v t (- n) 0 special) (\<lambda>(check, s). if check = - n then Inr s else Inl Vocab_Abort)
       else Inr s)"

fun pieces_from :: "'s llama_vocab \<Rightarrow> int \<Rightarrow> nat \<Rightarrow> nat \<Rightarrow> vocab_error + byte list list" where
  "pieces_from v capacity i 0 = Inr []"
| "pieces_from v capacity i (Suc k) =
     attempt (token_to_piece_for_cache v (int i) True capacity) (\<lambda>s.
       attempt (pieces_from v capacity (Suc i) k) (\<lambda>ss. Inr (s # ss)))"

definition build_piece_cache :: "int \<Rightarrow> 's llama_vocab \<Rightarrow> vocab_error + 's llama_vocab" where
  "build_piece_cache capacity v =
     attempt (pieces_from v capacity 0 (n_tokens v)) (\<lambda>ss. Inr (v\<lparr>vo_piece_cache := ss\<rparr>))"

text \<open>The whole piece of a token, whatever the buffer.\<close>

definition whole_piece :: "'s llama_vocab \<Rightarrow> token_id \<Rightarrow> vocab_error + byte list" where
  "whole_piece v t =
     (let d = vo_id_to_token v ! nat t; attr = td_attr d in
      case vo_type v of
        Vocab_BPE \<Rightarrow>
          if has_attr attr (ATTR_special OR ATTR_USER_DEFINED) then Inr (td_text d)
          else if has_attr attr ATTR_NORMAL then llama_decode_text (td_text d) else Inr []
      | Vocab_RWKV \<Rightarrow> Inr (llama_unescape_rwkv_token (td_text d))
      | Vocab_NONE \<Rightarrow> Inl Vocab_Abort
      | _ \<Rightarrow>
          if has_attr attr (ATTR_special OR ATTR_USER_DEFINED) then Inr (td_text d)
          else if has_attr attr ATTR_NORMAL then Inr (llama_unescape_whitespace (td_text d))
          else if has_attr attr ATTR_BYTE then attempt (token_to_byte v t) (\<lambda>b. Inr [b]) else Inr [])"

lemma try_copy_plain: "try_copy len 0 s = (if len < int (length s) then (- int (length s), []) else (int (length s), s))"
  by (simp add: try_copy_def Let_def)

lemma piece_of_whole:
  assumes "0 \<le> len"
  shows "piece_of v t len 0 = attempt (whole_piece v t) (\<lambda>s. Inr (try_copy len 0 s))"
  using assms by (simp add: piece_of_def whole_piece_def Let_def try_copy_plain attempt_def split: llama_vocab_type.split sum.split)

text \<open>So the cache holds the whole pieces, whatever the first buffer.\<close>

lemma piece_for_cache:
  assumes "vo_type v \<noteq> Vocab_NONE" "vo_piece_cache v = []" "i < n_tokens v" "0 \<le> capacity"
  shows "token_to_piece_for_cache v (int i) True capacity = whole_piece v (int i)"
proof -
  have p: "token_to_piece v (int i) len 0 True = attempt (whole_piece v (int i)) (\<lambda>s. Inr (try_copy len 0 s))" if "0 \<le> len" for len
    using assms(1-3) piece_of_whole [OF that, of v "int i"] by (simp add: token_to_piece_def get_token_data_def)
  show ?thesis
    unfolding token_to_piece_for_cache_def p [OF assms(4)]
    by (cases "whole_piece v (int i)") (simp_all add: try_copy_plain p)
qed

lemma pieces_from_whole:
  assumes "vo_type v \<noteq> Vocab_NONE" "vo_piece_cache v = []" "0 \<le> capacity" "i + k \<le> n_tokens v"
  shows "pieces_from v capacity i k = Inr ss \<Longrightarrow> length ss = k \<and> (\<forall>j < k. whole_piece v (int (i + j)) = Inr (ss ! j))"
  using assms(4)
proof (induction k arbitrary: i ss)
  case 0
  then show ?case by simp
next
  case (Suc k)
  obtain s ss' where s: "whole_piece v (int i) = Inr s" "pieces_from v capacity (Suc i) k = Inr ss'" "ss = s # ss'"
    using Suc.prems piece_for_cache [OF assms(1,2) _ assms(3), of i] by auto
  have ih: "length ss' = k \<and> (\<forall>j < k. whole_piece v (int (Suc i + j)) = Inr (ss' ! j))"
    using Suc.IH [OF s(2)] Suc.prems(2) by simp
  have "whole_piece v (int (i + j)) = Inr ((s # ss') ! j)" if "j < Suc k" for j
    using that ih s(1) by (cases j) simp_all
  then show ?case using ih s(3) by simp
qed

lemma build_piece_cache_ok:
  assumes "build_piece_cache capacity v = Inr v'" "vo_type v \<noteq> Vocab_NONE" "vo_piece_cache v = []" "0 \<le> capacity"
  shows "\<exists>ss. v' = v\<lparr>vo_piece_cache := ss\<rparr> \<and> length ss = n_tokens v \<and> (\<forall>i < n_tokens v. whole_piece v (int i) = Inr (ss ! i))"
  using assms(1) pieces_from_whole [OF assms(2-4), of 0 "n_tokens v"] by (auto simp: build_piece_cache_def)

text \<open>The text of a list of tokens, and the attributes of a token whose text goes through decoding.\<close>

fun spelled :: "'s llama_vocab \<Rightarrow> token_id list \<Rightarrow> vocab_error + byte list" where
  "spelled v [] = Inr []"
| "spelled v (t # ts) = attempt (whole_piece v t) (\<lambda>s. attempt (spelled v ts) (\<lambda>r. Inr (s @ r)))"

lemma spelled_append: "spelled v (ts @ us) = attempt (spelled v ts) (\<lambda>s. attempt (spelled v us) (\<lambda>r. Inr (s @ r)))"
  by (induction ts) (auto simp: attempt_def split: sum.splits)

definition plain_attr :: "nat \<Rightarrow> bool" where
  "plain_attr attr \<longleftrightarrow> has_attr attr ATTR_NORMAL \<and> \<not> has_attr attr (ATTR_special OR ATTR_USER_DEFINED)"

subsection \<open>What loading promises\<close>

lemma load_tokens_inverse:
  assumes "load_tokens ws scores toktypes v = Some v'" "vo_token_to_id v = []"
  shows "(\<forall>i < length ws. map_option td_text (get_token_data v' (int i)) = Some (named_word i (ws ! i)) \<and>
      token_of_text v' (named_word i (ws ! i)) = int i \<and> length (named_word i (ws ! i)) \<le> vo_max_token_len v') \<and>
    (\<forall>s. token_of_text v' s \<noteq> LLAMA_TOKEN_NULL \<longrightarrow> (\<exists>i < length ws. token_of_text v' s = int i \<and> s = named_word i (ws ! i)))"
proof (intro conjI allI impI)
  note ok = load_tokens_ok [OF assms]
  show "map_option td_text (get_token_data v' (int i)) = Some (named_word i (ws ! i))" if "i < length ws" for i
    using ok(2,3) that by (simp add: get_token_data_def)
  show "token_of_text v' (named_word i (ws ! i)) = int i" if "i < length ws" for i
  proof -
    have "map_of (vo_token_to_id v') (named_word i (ws ! i)) = Some (int i)"
      using ok that unfolding vocab_ok_def by metis
    then show ?thesis by (simp add: token_of_text_def)
  qed
  show "length (named_word i (ws ! i)) \<le> vo_max_token_len v'" if "i < length ws" for i
  proof -
    have "vo_id_to_token v' ! i \<in> set (vo_id_to_token v')" using ok(2) that by (simp add: n_tokens_def)
    then show ?thesis using load_tokens_max [OF assms(1)] ok(3) [OF that] by (metis max_len_ok_def)
  qed
  show "\<exists>i < length ws. token_of_text v' s = int i \<and> s = named_word i (ws ! i)" if known: "token_of_text v' s \<noteq> LLAMA_TOKEN_NULL" for s
  proof -
    obtain t where m: "map_of (vo_token_to_id v') s = Some t"
      using known by (cases "map_of (vo_token_to_id v') s") (simp_all add: token_of_text_def)
    then have t: "token_of_text v' s = t" by (simp add: token_of_text_def)
    from m obtain i where "i < n_tokens v'" "t = int i" "td_text (vo_id_to_token v' ! i) = s"
      using ok(1) unfolding vocab_ok_def by metis
    then show ?thesis using ok(2,3) t by auto
  qed
qed

end
