(* ===== verification/TokMerge.thy ===== *)
theory TokMerge
  imports Prelude Utf8
begin

text \<open>
  The merging of symbols in the SPM and BPE tokenizers of \<^verbatim>\<open>llama-vocab.cpp\<close>. A text is cut into
  UTF-8 characters, a doubly linked list of symbols in an array; a priority queue holds pairs of
  neighbours that may be merged, and entries go stale when one of the two symbols has changed. The
  two sessions share the loop, with their own ways to look up a pair and to see that an entry is stale.

  The specification merges, as long as there is one, the best pair of neighbouring texts (the left-most of
  the best), with no queue, no links and no stale entries. The locale \<open>merge_session\<close> states what the loop
  relies on and proves that it is the specification.

  \<open>std::priority_queue\<close> returns an entry that no other precedes; of several it may return any, and here it is
  the first. A symbol's \<open>const char *\<close> is the text from there on.
\<close>

subsection \<open>Symbols\<close>

record llm_symbol =
  sy_prev :: int
  sy_next :: int
  sy_text :: "byte list"
  sy_n :: nat

definition sym_str :: "llm_symbol \<Rightarrow> byte list" where
  "sym_str s = take (sy_n s) (sy_text s)"

text \<open>Cutting into UTF-8 characters; a byte is below 256.\<close>

function init_symbols :: "int \<Rightarrow> byte list \<Rightarrow> llm_symbol list" where
  "init_symbols idx s =
     (if s = [] \<or> \<not> hd s < 256 then []
      else let n = min (unicode_len_utf8 (hd s)) (length s); rest = drop n s in
        \<lparr>sy_prev = idx - 1, sy_next = (if rest = [] then -1 else idx + 1), sy_text = s, sy_n = n\<rparr> #
        init_symbols (idx + 1) rest)"
  by auto

termination
proof (relation "measure (\<lambda>(i, s). length s)")
  fix idx :: int and s :: "byte list" and n rest
  assume a: "\<not> (s = [] \<or> \<not> hd s < 256)" "n = min (unicode_len_utf8 (hd s)) (length s)" "rest = drop n s"
  then have "0 < n" using unicode_len_range [of "hd s"] by (cases s) auto
  then show "((idx + 1, rest), (idx, s)) \<in> measure (\<lambda>(i, s). length s)" using a by (cases s) auto
qed simp

declare init_symbols.simps [simp del]

subsection \<open>The loop\<close>

record 'k llm_bigram =
  bg_left :: int
  bg_right :: int
  bg_key :: 'k
  bg_text :: "byte list"
  bg_size :: nat

record ('k, 's) merge_state =
  ms_symbols :: "llm_symbol list"
  ms_queue :: "'k llm_bigram list"
  ms_log :: 's

abbreviation symbol_at :: "('k, 's) merge_state \<Rightarrow> int \<Rightarrow> llm_symbol" where
  "symbol_at st i \<equiv> ms_symbols st ! nat i"

definition best_entry :: "('e \<Rightarrow> 'e \<Rightarrow> bool) \<Rightarrow> 'e \<Rightarrow> 'e list \<Rightarrow> 'e" where
  "best_entry precedes e q = fold (\<lambda>x b. if precedes x b then x else b) q e"

definition queue_pop :: "('e \<Rightarrow> 'e \<Rightarrow> bool) \<Rightarrow> 'e list \<Rightarrow> ('e \<times> 'e list) option" where
  "queue_pop precedes q =
     (case q of [] \<Rightarrow> None
      | e # es \<Rightarrow> let t = best_entry precedes e es in Some (t, remove1 t q))"

text \<open>The right symbol goes into the left one and leaves the chain.\<close>

definition merge_symbols :: "int \<Rightarrow> int \<Rightarrow> llm_symbol list \<Rightarrow> llm_symbol list" where
  "merge_symbols l r syms =
     (let ls = syms ! nat l; rs = syms ! nat r;
          syms1 = syms[nat l := ls\<lparr>sy_n := sy_n ls + sy_n rs, sy_next := sy_next rs\<rparr>];
          syms2 = syms1[nat r := (syms1 ! nat r)\<lparr>sy_n := 0\<rparr>]
      in if sy_next rs \<ge> 0
         then syms2[nat (sy_next rs) := (syms2 ! nat (sy_next rs))\<lparr>sy_prev := l\<rparr>] else syms2)"

partial_function (option) merge_loop ::
  "(('k, 's) merge_state \<Rightarrow> int \<Rightarrow> int \<Rightarrow> ('k, 's) merge_state) \<Rightarrow>
   ('k llm_bigram \<Rightarrow> llm_symbol \<Rightarrow> llm_symbol \<Rightarrow> bool) \<Rightarrow>
   ('k llm_bigram \<Rightarrow> 'k llm_bigram \<Rightarrow> bool) \<Rightarrow> ('k, 's) merge_state \<Rightarrow> ('k, 's) merge_state option" where
  "merge_loop add stale precedes st =
     (case queue_pop precedes (ms_queue st) of
        None \<Rightarrow> Some st
      | Some (e, q) \<Rightarrow>
          let st1 = st\<lparr>ms_queue := q\<rparr>; l = bg_left e; r = bg_right e in
          if stale e (symbol_at st1 l) (symbol_at st1 r) then merge_loop add stale precedes st1
          else
            let st2 = st1\<lparr>ms_symbols := merge_symbols l r (ms_symbols st1)\<rparr>;
                st3 = add st2 (sy_prev (symbol_at st2 l)) l
            in merge_loop add stale precedes (add st3 l (sy_next (symbol_at st3 l))))"

text \<open>All pairs of neighbours are tried first.\<close>

definition seed_bigrams ::
  "(('k, 's) merge_state \<Rightarrow> int \<Rightarrow> int \<Rightarrow> ('k, 's) merge_state) \<Rightarrow> ('k, 's) merge_state \<Rightarrow> ('k, 's) merge_state" where
  "seed_bigrams add st = fold (\<lambda>i st. add st (int i - 1) (int i)) [1..<length (ms_symbols st)] st"

subsection \<open>The specification\<close>

text \<open>The left-most of the best pairs of neighbours, with its position.\<close>

fun best_pair :: "(byte list \<Rightarrow> byte list \<Rightarrow> 'k option) \<Rightarrow> ('k \<Rightarrow> 'k \<Rightarrow> bool) \<Rightarrow> byte list list \<Rightarrow> (nat \<times> 'k) option" where
  "best_pair key lt (a # b # ps) =
     (let rest = map_option (\<lambda>(i, k). (Suc i, k)) (best_pair key lt (b # ps)) in
      case (key a b, rest) of
        (None, _) \<Rightarrow> rest
      | (Some k, None) \<Rightarrow> Some (0, k)
      | (Some k, Some (i, k')) \<Rightarrow> if lt k' k then Some (i, k') else Some (0, k))"
| "best_pair key lt ps = None"

fun merge_at :: "nat \<Rightarrow> byte list list \<Rightarrow> byte list list" where
  "merge_at 0 (a # b # ps) = (a @ b) # ps"
| "merge_at (Suc i) (p # ps) = p # merge_at i ps"
| "merge_at _ ps = ps"

lemma best_pair_pos: "best_pair key lt ps = Some (i, k) \<Longrightarrow> Suc i < length ps"
  by (induction key lt ps arbitrary: i k rule: best_pair.induct)
    (auto simp: Let_def split: option.splits if_splits prod.splits)

lemma merge_at_length: "Suc i < length ps \<Longrightarrow> length (merge_at i ps) = length ps - 1"
  by (induction i ps rule: merge_at.induct) auto

function naive_merge :: "(byte list \<Rightarrow> byte list \<Rightarrow> 'k option) \<Rightarrow> ('k \<Rightarrow> 'k \<Rightarrow> bool) \<Rightarrow> byte list list \<Rightarrow> byte list list" where
  "naive_merge key lt ps =
     (case best_pair key lt ps of None \<Rightarrow> ps | Some (i, k) \<Rightarrow> naive_merge key lt (merge_at i ps))"
  by auto
termination
  by (relation "measure (\<lambda>(key, lt, ps). length ps)") (auto dest!: best_pair_pos simp: merge_at_length)

declare naive_merge.simps [simp del]

lemma merge_at_concat: "concat (merge_at i ps) = concat ps"
  by (induction i ps rule: merge_at.induct) auto

lemma naive_merge_concat: "concat (naive_merge key lt ps) = concat ps"
  by (induction key lt ps rule: naive_merge.induct)
    (subst naive_merge.simps, auto simp: merge_at_concat split: option.split)

lemma merge_at_split: "merge_at (length xs) (xs @ a # b # ys) = xs @ (a @ b) # ys"
  by (induction xs) auto

text \<open>What makes a pair the best one.\<close>

definition is_best :: "(byte list \<Rightarrow> byte list \<Rightarrow> 'k option) \<Rightarrow> ('k \<Rightarrow> 'k \<Rightarrow> bool) \<Rightarrow> byte list list \<Rightarrow> nat \<Rightarrow> 'k \<Rightarrow> bool" where
  "is_best key lt ps i k \<longleftrightarrow> Suc i < length ps \<and> key (ps ! i) (ps ! Suc i) = Some k \<and>
     (\<forall>j k'. Suc j < length ps \<and> key (ps ! j) (ps ! Suc j) = Some k' \<longrightarrow> lt k k' \<or> k = k' \<and> i \<le> j)"

lemma best_pair_none:
  "best_pair key lt ps = None \<Longrightarrow> Suc j < length ps \<Longrightarrow> key (ps ! j) (ps ! Suc j) = None"
proof (induction key lt ps arbitrary: j rule: best_pair.induct)
  case (1 key lt a b ps)
  then have "key a b = None" "best_pair key lt (b # ps) = None"
    by (auto simp: Let_def split: option.splits if_splits)
  then show ?case using 1 by (cases j) auto
qed auto

lemma best_pair_some:
  assumes lt: "\<And>k. \<not> lt k k" "\<And>a b c. lt a b \<Longrightarrow> lt b c \<Longrightarrow> lt a c" "\<And>a b. lt a b \<or> a = b \<or> lt b a"
    and "best_pair key lt ps = Some (i, k)"
  shows "is_best key lt ps i k"
  using assms(4)
proof (induction ps arbitrary: i k rule: induct_list012)
  case (3 a b ps)
  have step: "is_best key lt (a # b # ps) i k"
    if 1: "Suc i < length (a # b # ps)" "key ((a # b # ps) ! i) ((a # b # ps) ! Suc i) = Some k"
      and 2: "\<And>k'. key a b = Some k' \<Longrightarrow> lt k k' \<or> k = k' \<and> i = 0"
      and 3: "\<And>j k'. Suc j < length (b # ps) \<Longrightarrow> key ((b # ps) ! j) ((b # ps) ! Suc j) = Some k' \<Longrightarrow>
        lt k k' \<or> k = k' \<and> i \<le> Suc j" for i k
    unfolding is_best_def
  proof (intro conjI allI impI 1, elim conjE)
    fix j k' assume j: "Suc j < length (a # b # ps)" "key ((a # b # ps) ! j) ((a # b # ps) ! Suc j) = Some k'"
    show "lt k k' \<or> k = k' \<and> i \<le> j"
    proof (cases j)
      case 0
      then show ?thesis using j 2 [of k'] by simp
    next
      case (Suc l)
      then show ?thesis using j 3 [of l k'] by simp
    qed
  qed
  show ?case
  proof (cases "best_pair key lt (b # ps)")
    case None
    then have e: "i = 0" "key a b = Some k" using 3(3) by (auto simp: Let_def split: option.splits)
    show ?thesis by (rule step) (use e best_pair_none [OF None] in auto)
  next
    case (Some r)
    obtain i0 k0 where r: "r = (i0, k0)" by fastforce
    have ih: "Suc i0 < length (b # ps)" "key ((b # ps) ! i0) ((b # ps) ! Suc i0) = Some k0"
      "\<And>j k'. Suc j < length (b # ps) \<Longrightarrow> key ((b # ps) ! j) ((b # ps) ! Suc j) = Some k' \<Longrightarrow>
        lt k0 k' \<or> k0 = k' \<and> i0 \<le> j"
      using 3(2) [OF Some [unfolded r]] unfolding is_best_def by blast+
    show ?thesis
    proof (cases "\<exists>ka. key a b = Some ka \<and> \<not> lt k0 ka")
      case True
      then obtain ka where ka: "key a b = Some ka" "\<not> lt k0 ka" by blast
      then have e: "i = 0" "k = ka" using 3(3) Some r by (auto simp: Let_def)
      show ?thesis
      proof (rule step)
        fix j k' assume "Suc j < length (b # ps)" "key ((b # ps) ! j) ((b # ps) ! Suc j) = Some k'"
        then have "lt k0 k' \<or> k0 = k' \<and> i0 \<le> j" by (rule ih(3))
        then show "lt k k' \<or> k = k' \<and> i \<le> Suc j" using ka(2) lt(2) [of ka k0 k'] lt(3) [of k0 ka] e by auto
      qed (use e ka in auto)
    next
      case False
      then have e: "i = Suc i0" "k = k0" using 3(3) Some r by (auto simp: Let_def split: option.splits)
      show ?thesis by (rule step) (use e False ih in auto)
    qed
  qed
qed auto

lemma is_best_unique:
  assumes lt: "\<And>k. \<not> lt k k" "\<And>a b c. lt a b \<Longrightarrow> lt b c \<Longrightarrow> lt a c"
    and "is_best key lt ps i k" "is_best key lt ps j k'"
  shows "i = j \<and> k = k'"
proof -
  have "lt k k' \<or> k = k' \<and> i \<le> j" "lt k' k \<or> k' = k \<and> j \<le> i"
    using assms(3,4) unfolding is_best_def by blast+
  then show ?thesis using lt by (metis order_antisym)
qed

subsection \<open>The chain of symbols\<close>

text \<open>The live symbols \<open>is\<close> in order, linked both ways, each one's text going on where the last one ends.\<close>

definition linked :: "llm_symbol list \<Rightarrow> nat \<Rightarrow> nat \<Rightarrow> bool" where
  "linked syms l r \<longleftrightarrow> l < r \<and> sy_next (syms ! l) = int r \<and> sy_prev (syms ! r) = int l \<and>
     sy_text (syms ! r) = drop (sy_n (syms ! l)) (sy_text (syms ! l))"

definition chain_ok :: "llm_symbol list \<Rightarrow> nat list \<Rightarrow> bool" where
  "chain_ok syms is \<longleftrightarrow>
     (\<forall>i \<in> set is. i < length syms \<and> 0 < sy_n (syms ! i) \<and> sy_n (syms ! i) \<le> length (sy_text (syms ! i))) \<and>
     (\<forall>i < length syms. i \<notin> set is \<longrightarrow> sy_n (syms ! i) = 0) \<and> successively (linked syms) is \<and>
     (is \<noteq> [] \<longrightarrow> sy_prev (syms ! hd is) = -1 \<and> sy_next (syms ! last is) = -1)"

definition pieces :: "llm_symbol list \<Rightarrow> nat list \<Rightarrow> byte list list" where
  "pieces syms is = map (\<lambda>i. sym_str (syms ! i)) is"

lemma pieces_length [simp]: "length (pieces syms is) = length is"
  by (simp add: pieces_def)

lemma chain_sorted: "chain_ok syms is \<Longrightarrow> sorted_wrt (<) is"
proof -
  assume "chain_ok syms is"
  then have "successively (linked syms) is" by (simp add: chain_ok_def)
  then have "successively (<) is" by (rule successively_mono) (simp_all add: linked_def)
  then show "sorted_wrt (<) is" by (simp add: successively_conv_sorted_wrt)
qed

lemma chain_distinct: "chain_ok syms is \<Longrightarrow> distinct is"
  using chain_sorted strict_sorted_iff by blast

lemma update_same: "f x = f (xs ! i) \<Longrightarrow> map f (xs[i := x]) = map f xs"
  by (cases "i < length xs") (simp_all add: map_update list_update_same_conv list_update_beyond)

lemma merge_symbols_texts: "map sy_text (merge_symbols l r syms) = map sy_text syms"
  unfolding merge_symbols_def Let_def by (auto simp: update_same)

lemma merge_symbols_at:
  assumes "chain_ok syms (xs @ l # r # ys)"
  defines "syms' \<equiv> merge_symbols (int l) (int r) syms"
  shows "length syms' = length syms"
    "syms' ! l = (syms ! l)\<lparr>sy_n := sy_n (syms ! l) + sy_n (syms ! r), sy_next := sy_next (syms ! r)\<rparr>"
    "syms' ! r = (syms ! r)\<lparr>sy_n := 0\<rparr>"
    "ys \<noteq> [] \<Longrightarrow> syms' ! hd ys = (syms ! hd ys)\<lparr>sy_prev := int l\<rparr>"
    "\<And>i. i \<noteq> l \<Longrightarrow> i \<noteq> r \<Longrightarrow> (ys \<noteq> [] \<Longrightarrow> i \<noteq> hd ys) \<Longrightarrow> syms' ! i = syms ! i"
proof -
  have lr: "l < length syms" "r < length syms" "linked syms l r" and ys: "\<And>y. y \<in> set ys \<Longrightarrow> y < length syms"
    using assms(1) by (simp_all add: chain_ok_def successively_append_iff)
  have lt: "l < r" using lr(3) by (simp add: linked_def)
  have nxt: "sy_next (syms ! r) = (if ys = [] then -1 else int (hd ys))"
    and above: "ys \<noteq> [] \<Longrightarrow> r < hd ys"
    using assms(1) by (auto simp: chain_ok_def successively_append_iff successively_Cons linked_def)
  note m = syms'_def merge_symbols_def Let_def nxt
  show "length syms' = length syms" by (simp add: m)
  show "syms' ! l = (syms ! l)\<lparr>sy_n := sy_n (syms ! l) + sy_n (syms ! r), sy_next := sy_next (syms ! r)\<rparr>"
    using lr lt above by (auto simp: m nth_list_update)
  show "syms' ! r = (syms ! r)\<lparr>sy_n := 0\<rparr>"
    using lr lt above by (auto simp: m nth_list_update)
  show "syms' ! hd ys = (syms ! hd ys)\<lparr>sy_prev := int l\<rparr>" if "ys \<noteq> []"
    using lr lt above ys [of "hd ys"] that by (auto simp: m nth_list_update)
  show "syms' ! i = syms ! i" if "i \<noteq> l" "i \<noteq> r" "ys \<noteq> [] \<Longrightarrow> i \<noteq> hd ys" for i
    using that by (auto simp: m nth_list_update)
qed

lemma merge_symbols_chain:
  assumes "chain_ok syms (xs @ l # r # ys)"
  defines "syms' \<equiv> merge_symbols (int l) (int r) syms"
  shows "chain_ok syms' (xs @ l # ys)"
    "pieces syms' (xs @ l # ys) = merge_at (length xs) (pieces syms (xs @ l # r # ys))"
proof -
  note at = merge_symbols_at [OF assms(1), folded syms'_def]
  have c: "\<And>i. i \<in> set (xs @ l # r # ys) \<Longrightarrow> i < length syms \<and> 0 < sy_n (syms ! i) \<and> sy_n (syms ! i) \<le> length (sy_text (syms ! i))"
    "\<And>i. i < length syms \<Longrightarrow> i \<notin> set (xs @ l # r # ys) \<Longrightarrow> sy_n (syms ! i) = 0"
    "successively (linked syms) xs" "xs \<noteq> [] \<Longrightarrow> linked syms (last xs) l" "linked syms l r"
    "ys \<noteq> [] \<Longrightarrow> linked syms r (hd ys)" "successively (linked syms) ys"
    "sy_prev (syms ! hd (xs @ [l])) = -1" "sy_next (syms ! last (r # ys)) = -1"
    using assms(1) by (auto simp: chain_ok_def successively_append_iff successively_Cons hd_append)
  have d: "distinct (xs @ l # r # ys)" by (rule chain_distinct [OF assms(1)])
  have same: "syms' ! i = syms ! i" if "i \<in> set xs" for i
    by (rule at(5)) (use that d in auto)
  have n_ys: "sy_n (syms' ! i) = sy_n (syms ! i) \<and> sy_text (syms' ! i) = sy_text (syms ! i) \<and>
      sy_next (syms' ! i) = sy_next (syms ! i)" if "i \<in> set ys" for i
  proof -
    have "ys \<noteq> []" "i \<noteq> l" "i \<noteq> r" using that d by auto
    then show ?thesis using at(4) at(5) [of i] by (cases "i = hd ys") simp_all
  qed
  have prev_ys: "sy_prev (syms' ! i) = sy_prev (syms ! i)" if "i \<in> set (tl ys)" for i
  proof -
    have "i \<noteq> hd ys" "i \<in> set ys" using that d by (cases ys; auto)+
    moreover have "i \<noteq> l" "i \<noteq> r" using \<open>i \<in> set ys\<close> d by auto
    ultimately show ?thesis using at(5) [of i] by simp
  qed
  have str_r: "sym_str (syms ! l) @ sym_str (syms ! r) = sym_str (syms' ! l)"
    using c(1) [of l] c(5) by (simp add: sym_str_def at(2) linked_def take_add)
  have lr_len: "sy_n (syms ! l) + sy_n (syms ! r) \<le> length (sy_text (syms ! l))"
    using c(1) [of l] c(1) [of r] c(5) by (auto simp: linked_def)
  have "successively (linked syms') xs"
    using c(3) by (rule successively_mono) (auto simp: linked_def same)
  moreover have "successively (linked syms') ys"
  proof (rule successively_conv_nth [THEN iffD2, rule_format])
    fix i assume i: "Suc i < length ys"
    have "ys ! Suc i \<in> set (tl ys)" using i by (cases ys) auto
    then show "linked syms' (ys ! i) (ys ! Suc i)"
      using successively_nth [OF c(7) i] n_ys [of "ys ! i"] n_ys [of "ys ! Suc i"] prev_ys i
      by (simp add: linked_def)
  qed
  moreover have "linked syms' (last xs) l" if "xs \<noteq> []"
    using c(4) [OF that] same [of "last xs"] that by (simp add: linked_def at(2))
  moreover have "linked syms' l (hd ys)" if "ys \<noteq> []"
    using c(5,6) at(4) that by (auto simp: linked_def at(2))
      (metis add.commute)
  ultimately have succ: "successively (linked syms') (xs @ l # ys)"
    by (auto simp: successively_append_iff successively_Cons)
  have dead: "sy_n (syms' ! i) = 0" if "i < length syms'" "i \<notin> set (xs @ l # ys)" for i
  proof (cases "i = r")
    case True
    then show ?thesis by (simp add: at(3))
  next
    case False
    then have "syms' ! i = syms ! i" using that by (intro at(5)) auto
    then show ?thesis using c(2) that False at(1) by auto
  qed
  have live: "i < length syms' \<and> 0 < sy_n (syms' ! i) \<and> sy_n (syms' ! i) \<le> length (sy_text (syms' ! i))"
    if "i \<in> set (xs @ l # ys)" for i
    using that c(1) [of i] same [of i] n_ys [of i] lr_len c(1) [of l] by (auto simp: at(1,2))
  have "sy_prev (syms' ! hd (xs @ [l])) = -1"
    using c(8) same by (cases xs) (auto simp: at(2))
  moreover have "sy_next (syms' ! last (l # ys)) = -1"
    using c(9) n_ys [of "last ys"] by (auto simp: at(2) split: if_splits)
  ultimately show "chain_ok syms' (xs @ l # ys)"
    using succ dead live by (auto simp: chain_ok_def hd_append)
  have "pieces syms' (xs @ l # ys) = pieces syms xs @ (sym_str (syms ! l) @ sym_str (syms ! r)) # pieces syms ys"
  proof -
    have "map (\<lambda>i. sym_str (syms' ! i)) xs = pieces syms xs" using same by (simp add: pieces_def)
    moreover have "map (\<lambda>i. sym_str (syms' ! i)) ys = pieces syms ys" using n_ys by (simp add: pieces_def sym_str_def)
    ultimately show ?thesis by (simp add: pieces_def str_r)
  qed
  moreover have "merge_at (length xs) (pieces syms (xs @ l # r # ys)) =
      pieces syms xs @ (sym_str (syms ! l) @ sym_str (syms ! r)) # pieces syms ys"
    using merge_at_split [of "pieces syms xs" "sym_str (syms ! l)" "sym_str (syms ! r)" "pieces syms ys"]
    by (simp add: pieces_def)
  ultimately show "pieces syms' (xs @ l # ys) = merge_at (length xs) (pieces syms (xs @ l # r # ys))" by simp
qed

lemma sym_str_join:
  "sy_text rs = drop (sy_n ls) (sy_text ls) \<Longrightarrow> sym_str ls @ sym_str rs = take (sy_n ls + sy_n rs) (sy_text ls)"
  by (simp add: sym_str_def take_add)

lemma take_eq_take: "n \<le> length t \<Longrightarrow> m \<le> length t \<Longrightarrow> take n t = take m t \<longleftrightarrow> n = m"
  by (metis length_take min_absorb2)

subsection \<open>The queue\<close>

definition adj :: "nat list \<Rightarrow> nat \<Rightarrow> nat \<Rightarrow> bool" where
  "adj is l r \<longleftrightarrow> (\<exists>xs ys. is = xs @ l # r # ys)"

lemma adjI: "xs @ l # r # ys = is \<Longrightarrow> adj is l r"
  by (auto simp: adj_def)

lemma adj_linked: "chain_ok syms is \<Longrightarrow> adj is l r \<Longrightarrow> linked syms l r"
  by (auto simp: chain_ok_def adj_def successively_append_iff)

lemma adj_mem: "adj is l r \<Longrightarrow> l \<in> set is \<and> r \<in> set is"
  by (auto simp: adj_def)

lemma adj_nth: "adj is l r \<longleftrightarrow> (\<exists>i. Suc i < length is \<and> is ! i = l \<and> is ! Suc i = r)"
proof
  assume "adj is l r"
  then obtain xs ys where "is = xs @ l # r # ys" by (auto simp: adj_def)
  then show "\<exists>i. Suc i < length is \<and> is ! i = l \<and> is ! Suc i = r"
    by (intro exI [of _ "length xs"]) (simp add: nth_append)
next
  assume "\<exists>i. Suc i < length is \<and> is ! i = l \<and> is ! Suc i = r"
  then obtain i where i: "Suc i < length is" "is ! i = l" "is ! Suc i = r" by blast
  have "is = take i is @ is ! i # is ! Suc i # drop (Suc (Suc i)) is"
    using i(1) by (metis Cons_nth_drop_Suc Suc_lessD append_take_drop_id)
  then show "adj is l r" using i unfolding adj_def by metis
qed

lemma chain_adj:
  assumes "chain_ok syms is" "adj is l r"
  shows "0 < sy_n (syms ! l)" "0 < sy_n (syms ! r)" "l < length syms" "r < length syms" "l < r"
    "sy_text (syms ! r) = drop (sy_n (syms ! l)) (sy_text (syms ! l))"
    "sy_n (syms ! l) + sy_n (syms ! r) \<le> length (sy_text (syms ! l))"
proof -
  have l: "linked syms l r" by (rule adj_linked [OF assms])
  have m: "l \<in> set is" "r \<in> set is" using adj_mem [OF assms(2)] by auto
  have c: "i < length syms \<and> 0 < sy_n (syms ! i) \<and> sy_n (syms ! i) \<le> length (sy_text (syms ! i))" if "i \<in> set is" for i
    using assms(1) that unfolding chain_ok_def by blast
  show t: "sy_text (syms ! r) = drop (sy_n (syms ! l)) (sy_text (syms ! l))" "l < r"
    using l by (simp_all add: linked_def)
  show "0 < sy_n (syms ! l)" "0 < sy_n (syms ! r)" "l < length syms" "r < length syms"
    using c [OF m(1)] c [OF m(2)] by auto
  show "sy_n (syms ! l) + sy_n (syms ! r) \<le> length (sy_text (syms ! l))"
    using c [OF m(1)] c [OF m(2)] by (auto simp: t(1))
qed

text \<open>Dropping \<open>r\<close> from the chain.\<close>

lemma adj_merged_old:
  assumes "distinct (xs @ l # r # ys)" "adj (xs @ l # r # ys) a b" "b \<noteq> r" "a \<noteq> r"
  shows "adj (xs @ l # ys) a b"
proof -
  obtain us vs where e: "xs @ l # r # ys = us @ a # b # vs" using assms(2) by (auto simp: adj_def)
  from this [symmetric] consider
    zs where "us = xs @ zs" "zs @ a # b # vs = l # r # ys" | zs where "us @ zs = xs" "a # b # vs = zs @ l # r # ys"
    by (auto simp: append_eq_append_conv2)
  then show ?thesis
  proof cases
    case 1
    then have "\<exists>ws. zs = l # r # ws \<and> ws @ a # b # vs = ys"
      using assms(3,4) by (cases zs; cases "tl zs"; auto)
    then show ?thesis using 1 unfolding adj_def by (metis append.assoc append_Cons)
  next
    case 2
    then have "zs = [a] \<and> b = l \<and> vs = r # ys \<or> (\<exists>ws. zs = a # b # ws)"
      using assms(3,4) by (cases zs; cases "tl zs"; auto)
    then show ?thesis
    proof (elim disjE exE conjE)
      assume "zs = [a]" "b = l"
      then show ?thesis using 2 by (intro adjI [of us _ _ ys]) simp
    next
      fix ws assume z: "zs = a # b # ws"
      then have "us @ a # b # (ws @ l # ys) = xs @ l # ys" using 2 by simp
      then show ?thesis by (rule adjI)
    qed
  qed
qed

lemma adj_merged_new:
  assumes "distinct (xs @ l # r # ys)" "adj (xs @ l # ys) a b"
  shows "adj (xs @ l # r # ys) a b \<and> a \<noteq> l \<and> b \<noteq> l \<or> xs \<noteq> [] \<and> a = last xs \<and> b = l \<or> ys \<noteq> [] \<and> a = l \<and> b = hd ys"
proof -
  obtain us vs where e: "us @ a # b # vs = xs @ l # ys" using assms(2) by (auto simp: adj_def)
  then consider
    zs where "us = xs @ zs" "zs @ a # b # vs = l # ys" | zs where "us @ zs = xs" "a # b # vs = zs @ l # ys"
    by (auto simp: append_eq_append_conv2)
  then show ?thesis
  proof cases
    case 1
    show ?thesis
    proof (cases zs)
      case Nil
      then show ?thesis using 1 by auto
    next
      case (Cons z ws)
      then have e: "(xs @ l # r # ws) @ a # b # vs = xs @ l # r # ys" "ws @ a # b # vs = ys" using 1 by auto
      have "a \<noteq> l" "b \<noteq> l" using assms(1) by (auto simp flip: e(2))
      then show ?thesis using adjI [OF e(1)] by blast
    qed
  next
    case 2
    then have "zs = [] \<and> a = l \<and> b # vs = ys \<or> zs = [a] \<and> b = l \<or> (\<exists>ws. zs = a # b # ws \<and> vs = ws @ l # ys)"
      by (cases zs; cases "tl zs"; auto)
    then show ?thesis
    proof (elim disjE exE conjE)
      fix ws assume "zs = a # b # ws" "vs = ws @ l # ys"
      then have e: "us @ a # b # ws = xs" "us @ a # b # (ws @ l # r # ys) = xs @ l # r # ys" using 2 by auto
      have "a \<noteq> l" "b \<noteq> l" using assms(1) by (auto simp flip: e(1))
      then show ?thesis using adjI [OF e(2)] by blast
    qed (use 2 in auto)
  qed
qed

text \<open>The popped entry.\<close>

lemma best_entry_mem: "best_entry precedes e q \<in> set (e # q)"
  unfolding best_entry_def by (induction q arbitrary: e) auto

lemma best_entry_first:
  assumes "\<And>a. \<not> precedes a a" "\<And>a b c. \<not> precedes b a \<Longrightarrow> \<not> precedes c b \<Longrightarrow> \<not> precedes c a"
    and "\<And>a b. precedes a b \<Longrightarrow> \<not> precedes b a"
  shows "x \<in> set (e # q) \<Longrightarrow> \<not> precedes x (best_entry precedes e q)"
proof (induction q arbitrary: e x)
  case Nil
  then show ?case using assms(1) by (simp add: best_entry_def)
next
  case (Cons y q)
  let ?e = "if precedes y e then y else e"
  have e: "best_entry precedes e (y # q) = best_entry precedes ?e q" by (simp add: best_entry_def)
  have top: "\<not> precedes ?e (best_entry precedes ?e q)" by (rule Cons.IH) simp
  consider "x = e" | "x = y" | "x \<in> set q" using Cons.prems by auto
  then show ?case
  proof cases
    case 3
    then show ?thesis unfolding e by (intro Cons.IH) simp
  next
    case 1
    then have "\<not> precedes x ?e" using assms(1,3) by auto
    then show ?thesis unfolding e using assms(2) [OF top] by blast
  next
    case 2
    then have "\<not> precedes x ?e" using assms(1) by auto
    then show ?thesis unfolding e using assms(2) [OF top] by blast
  qed
qed

lemma queue_pop_none: "queue_pop precedes q = None \<longleftrightarrow> q = []"
  by (simp add: queue_pop_def Let_def split: list.split)

lemma queue_pop_some:
  assumes "queue_pop precedes q = Some (e, q')"
  shows "e \<in> set q" "q' = remove1 e q" "length q = Suc (length q')"
proof -
  obtain a q0 where q: "q = a # q0" "e = best_entry precedes a q0" "q' = remove1 e q"
    using assms by (auto simp: queue_pop_def Let_def split: list.splits)
  show "e \<in> set q" "q' = remove1 e q" using best_entry_mem [of precedes a q0] q by auto
  then show "length q = Suc (length q')" using q(1) by (cases q) (auto simp: length_remove1 dest: length_pos_if_in_set)
qed

subsection \<open>The loop is the specification\<close>

text \<open>
  What a session provides: \<open>add\<close> queues a pair of neighbours that has a key, \<open>stale\<close> notices that a symbol has
  changed. \<open>mark\<close> is what an entry keeps of its text, \<open>log_ok\<close> a law of the log, which \<open>add\<close> keeps on texts that
  are \<open>text_ok\<close>.
\<close>

definition bigram_precedes :: "('k \<Rightarrow> 'k \<Rightarrow> bool) \<Rightarrow> 'k llm_bigram \<Rightarrow> 'k llm_bigram \<Rightarrow> bool" where
  "bigram_precedes lt e e' \<longleftrightarrow> lt (bg_key e) (bg_key e') \<or> bg_key e = bg_key e' \<and> bg_left e < bg_left e'"

locale merge_session =
  fixes key :: "byte list \<Rightarrow> byte list \<Rightarrow> 'k option"
    and lt :: "'k \<Rightarrow> 'k \<Rightarrow> bool"
    and mark :: "byte list \<Rightarrow> byte list"
    and text_ok :: "byte list \<Rightarrow> bool"
    and log_ok :: "'s \<Rightarrow> bool"
    and add :: "('k, 's) merge_state \<Rightarrow> int \<Rightarrow> int \<Rightarrow> ('k, 's) merge_state"
    and stale :: "'k llm_bigram \<Rightarrow> llm_symbol \<Rightarrow> llm_symbol \<Rightarrow> bool"
    and precedes :: "'k llm_bigram \<Rightarrow> 'k llm_bigram \<Rightarrow> bool"
  assumes lt_irrefl: "\<not> lt k k"
    and lt_trans: "lt k1 k2 \<Longrightarrow> lt k2 k3 \<Longrightarrow> lt k1 k3"
    and lt_total: "lt k1 k2 \<or> k1 = k2 \<or> lt k2 k1"
    and precedes_iff: "precedes e e' \<longleftrightarrow> bigram_precedes lt e e'"
    and add_none: "l = -1 \<or> r = -1 \<Longrightarrow> add st l r = st"
    and add_symbols: "ms_symbols (add st l r) = ms_symbols st"
    and text_take: "text_ok t \<Longrightarrow> text_ok (take n t)"
    and add_log: "0 \<le> l \<Longrightarrow> 0 \<le> r \<Longrightarrow> text_ok (sym_str (symbol_at st l)) \<Longrightarrow> text_ok (sym_str (symbol_at st r)) \<Longrightarrow>
      log_ok (ms_log st) \<Longrightarrow> log_ok (ms_log (add st l r))"
    and add_queue: "0 \<le> l \<Longrightarrow> 0 \<le> r \<Longrightarrow> sy_text (symbol_at st r) = drop (sy_n (symbol_at st l)) (sy_text (symbol_at st l)) \<Longrightarrow>
      ms_queue (add st l r) =
        (case key (sym_str (symbol_at st l)) (sym_str (symbol_at st r)) of None \<Rightarrow> ms_queue st
         | Some k \<Rightarrow> ms_queue st @
             [\<lparr>bg_left = l, bg_right = r, bg_key = k,
               bg_text = mark (sym_str (symbol_at st l) @ sym_str (symbol_at st r)),
               bg_size = length (sym_str (symbol_at st l)) + length (sym_str (symbol_at st r))\<rparr>])"
    and stale_dead: "sy_n ls = 0 \<or> sy_n rs = 0 \<Longrightarrow> stale e ls rs"
    and stale_iff: "sy_text rs = drop (sy_n ls) (sy_text ls) \<Longrightarrow> 0 < sy_n ls \<Longrightarrow> 0 < sy_n rs \<Longrightarrow>
      sy_n ls + sy_n rs \<le> length (sy_text ls) \<Longrightarrow> bg_size e \<le> length (sy_text ls) \<Longrightarrow>
      bg_text e = mark (take (bg_size e) (sy_text ls)) \<Longrightarrow>
      stale e ls rs \<longleftrightarrow> sy_n ls + sy_n rs \<noteq> bg_size e"
begin

definition entry_ok :: "llm_symbol list \<Rightarrow> nat list \<Rightarrow> 'k llm_bigram \<Rightarrow> bool" where
  "entry_ok syms is e \<longleftrightarrow> 0 \<le> bg_left e \<and> 0 \<le> bg_right e \<and>
     nat (bg_left e) < length syms \<and> nat (bg_right e) < length syms \<and>
     (nat (bg_left e) \<in> set is \<longrightarrow> nat (bg_right e) \<in> set is \<longrightarrow>
       adj is (nat (bg_left e)) (nat (bg_right e)) \<and>
       (let ls = syms ! nat (bg_left e); b = bg_size e - sy_n ls in
        sy_n ls < bg_size e \<and> bg_size e \<le> length (sy_text ls) \<and> b \<le> sy_n (syms ! nat (bg_right e)) \<and>
        bg_text e = mark (take (bg_size e) (sy_text ls)) \<and>
        key (sym_str ls) (take b (drop (sy_n ls) (sy_text ls))) = Some (bg_key e)))"

definition covered :: "llm_symbol list \<Rightarrow> 'k llm_bigram list \<Rightarrow> nat \<Rightarrow> nat \<Rightarrow> bool" where
  "covered syms q l r \<longleftrightarrow> key (sym_str (syms ! l)) (sym_str (syms ! r)) \<noteq> None \<longrightarrow>
     (\<exists>e \<in> set q. bg_left e = int l \<and> bg_right e = int r \<and> bg_size e = sy_n (syms ! l) + sy_n (syms ! r))"

definition session_ok :: "('k, 's) merge_state \<Rightarrow> nat list \<Rightarrow> bool" where
  "session_ok st is \<longleftrightarrow> chain_ok (ms_symbols st) is \<and> log_ok (ms_log st) \<and>
     (\<forall>s \<in> set (ms_symbols st). text_ok (sy_text s)) \<and>
     (\<forall>e \<in> set (ms_queue st). entry_ok (ms_symbols st) is e) \<and>
     (\<forall>l r. adj is l r \<longrightarrow> covered (ms_symbols st) (ms_queue st) l r)"

lemma lt_asym: "lt k k' \<Longrightarrow> \<not> lt k' k"
  using lt_irrefl lt_trans [of k k' k] by blast

lemma not_precedes:
  "\<not> precedes b a \<longleftrightarrow> lt (bg_key a) (bg_key b) \<or> bg_key a = bg_key b \<and> bg_left a \<le> bg_left b"
proof -
  have "\<not> (lt kb ka \<or> kb = ka \<and> lb < la) \<longleftrightarrow> lt ka kb \<or> ka = kb \<and> la \<le> lb" for ka kb and la lb :: int
    using lt_total [of ka kb] lt_irrefl [of ka] lt_asym [of ka kb] by force
  then show ?thesis unfolding precedes_iff bigram_precedes_def .
qed

lemma precedes_order:
  "\<not> precedes a a" "precedes a b \<Longrightarrow> \<not> precedes b a"
  "\<not> precedes b a \<Longrightarrow> \<not> precedes c b \<Longrightarrow> \<not> precedes c a"
proof -
  show "\<not> precedes a a" by (simp add: not_precedes)
  show "\<not> precedes b a" if "precedes a b"
    using that by (simp add: not_precedes) (auto simp: precedes_iff bigram_precedes_def)
  show "\<not> precedes c a" if "\<not> precedes b a" "\<not> precedes c b"
    using that lt_trans [of "bg_key a" "bg_key b" "bg_key c"] unfolding not_precedes by (elim disjE conjE) auto
qed

lemma entry_live:
  assumes "chain_ok syms is" "entry_ok syms is e" "nat (bg_left e) \<in> set is" "nat (bg_right e) \<in> set is"
  defines "ls \<equiv> syms ! nat (bg_left e)" and "rs \<equiv> syms ! nat (bg_right e)"
  shows "stale e ls rs \<longleftrightarrow> sy_n ls + sy_n rs \<noteq> bg_size e"
    "sy_n ls + sy_n rs = bg_size e \<Longrightarrow> key (sym_str ls) (sym_str rs) = Some (bg_key e)"
    "adj is (nat (bg_left e)) (nat (bg_right e))"
proof -
  show a: "adj is (nat (bg_left e)) (nat (bg_right e))" using assms(2-4) unfolding entry_ok_def by blast
  have e: "sy_n ls < bg_size e" "bg_size e \<le> length (sy_text ls)" "bg_text e = mark (take (bg_size e) (sy_text ls))"
    "key (sym_str ls) (take (bg_size e - sy_n ls) (drop (sy_n ls) (sy_text ls))) = Some (bg_key e)"
    using assms(2-4) unfolding entry_ok_def ls_def Let_def by blast+
  note c = chain_adj [OF assms(1) a, folded ls_def rs_def]
  show "stale e ls rs \<longleftrightarrow> sy_n ls + sy_n rs \<noteq> bg_size e" by (rule stale_iff) (use c e in auto)
  show "key (sym_str ls) (sym_str rs) = Some (bg_key e)" if "sy_n ls + sy_n rs = bg_size e"
    using e(4) c(6) that [symmetric] by (simp add: sym_str_def)
qed

lemma entry_fresh:
  assumes "chain_ok syms is" "entry_ok syms is e"
    and "\<not> stale e (syms ! nat (bg_left e)) (syms ! nat (bg_right e))"
  shows "nat (bg_left e) \<in> set is" "nat (bg_right e) \<in> set is"
proof -
  have "0 < sy_n (syms ! nat (bg_left e))" "0 < sy_n (syms ! nat (bg_right e))" using assms(3) stale_dead gr0I by metis+
  then show "nat (bg_left e) \<in> set is" "nat (bg_right e) \<in> set is"
    using assms(1,2) unfolding chain_ok_def entry_ok_def by (metis less_irrefl)+
qed

lemma top_first:
  assumes "queue_pop precedes q = Some (e, q')" "x \<in> set q"
  shows "\<not> precedes x e"
proof -
  obtain a q0 where q: "q = a # q0" "e = best_entry precedes a q0"
    using assms(1) by (auto simp: queue_pop_def Let_def split: list.splits)
  show ?thesis unfolding q(2)
  proof (rule best_entry_first [of precedes])
    show "\<not> precedes a a" for a by (rule precedes_order(1))
    show "\<not> precedes c a" if "\<not> precedes b a" "\<not> precedes c b" for a b c
      using that by (rule precedes_order(3))
    show "\<not> precedes b a" if "precedes a b" for a b using that by (rule precedes_order(2))
    show "x \<in> set (a # q0)" using assms(2) q(1) by simp
  qed
qed

text \<open>The top entry, when fresh, is the best pair.\<close>

lemma top_is_best:
  assumes ok: "session_ok st is" and "queue_pop precedes (ms_queue st) = Some (e, q)"
    and fresh: "\<not> stale e (symbol_at st (bg_left e)) (symbol_at st (bg_right e))"
  obtains xs ys where "is = xs @ nat (bg_left e) # nat (bg_right e) # ys"
    "best_pair key lt (pieces (ms_symbols st) is) = Some (length xs, bg_key e)"
proof -
  define syms where "syms = ms_symbols st"
  note fresh' = fresh [folded syms_def]
  have c: "chain_ok syms is" and q: "\<And>e. e \<in> set (ms_queue st) \<Longrightarrow> entry_ok syms is e"
    and cov: "\<And>l r. adj is l r \<Longrightarrow> covered syms (ms_queue st) l r"
    using ok by (simp_all add: session_ok_def syms_def)
  have e: "entry_ok syms is e" by (rule q [OF queue_pop_some(1) [OF assms(2)]])
  note m = entry_fresh [OF c e fresh']
  note live = entry_live [OF c e m]
  obtain xs ys where e_is: "is = xs @ nat (bg_left e) # nat (bg_right e) # ys" using live(3) by (auto simp: adj_def)
  have nth: "pieces syms is ! i = sym_str (syms ! (is ! i))" if "i < length is" for i
    using that by (simp add: pieces_def)
  have pos: "is ! length xs = nat (bg_left e)" "is ! Suc (length xs) = nat (bg_right e)" "Suc (length xs) < length is"
    by (simp_all add: e_is nth_append)
  have key: "key (pieces syms is ! length xs) (pieces syms is ! Suc (length xs)) = Some (bg_key e)"
    using live(1,2) fresh' pos by (simp add: nth)
  have least: "lt (bg_key e) k \<or> bg_key e = k \<and> length xs \<le> j"
    if j: "Suc j < length is" and k: "key (pieces syms is ! j) (pieces syms is ! Suc j) = Some k" for j k
  proof -
    have "adj is (is ! j) (is ! Suc j)" using j unfolding adj_nth by blast
    then obtain e' where e': "e' \<in> set (ms_queue st)" "bg_left e' = int (is ! j)" "bg_right e' = int (is ! Suc j)"
      "bg_size e' = sy_n (syms ! (is ! j)) + sy_n (syms ! (is ! Suc j))"
      using cov k j by (fastforce simp: covered_def nth)
    have "bg_key e' = k"
      using entry_live(2) [OF c q [OF e'(1)]] e' k j by (simp add: nth)
    moreover have "\<not> precedes e' e"
      by (rule top_first [OF assms(2) e'(1)])
    moreover have "length xs \<le> j" if "bg_left e \<le> bg_left e'"
    proof (rule ccontr)
      assume "\<not> length xs \<le> j"
      then have "is ! j < is ! length xs" using chain_sorted [OF c] pos(3) by (auto intro: sorted_wrt_nth_less)
      then show False using that e'(2) pos(1) by linarith
    qed
    ultimately show ?thesis by (auto simp: not_precedes)
  qed
  have best: "is_best key lt (pieces syms is) (length xs) (bg_key e)"
    unfolding is_best_def using pos(3) key least by simp
  have "best_pair key lt (pieces syms is) \<noteq> None"
  proof
    assume "best_pair key lt (pieces syms is) = None"
    from best_pair_none [OF this, of "length xs"] show False using pos(3) key by simp
  qed
  then obtain i k where b: "best_pair key lt (pieces syms is) = Some (i, k)" by (metis not_None_eq surj_pair)
  have "i = length xs \<and> k = bg_key e"
    by (rule is_best_unique [OF lt_irrefl lt_trans best_pair_some [OF lt_irrefl lt_trans lt_total b] best])
  then show thesis using that e_is b unfolding syms_def by blast
qed

text \<open>A stale entry can go.\<close>

lemma drop_stale:
  assumes ok: "session_ok st is" and pop: "queue_pop precedes (ms_queue st) = Some (e, q)"
    and stale: "stale e (symbol_at st (bg_left e)) (symbol_at st (bg_right e))"
  shows "session_ok (st\<lparr>ms_queue := q\<rparr>) is"
proof -
  define syms where "syms = ms_symbols st"
  have c: "chain_ok syms is" and e: "entry_ok syms is e"
    using ok queue_pop_some(1) [OF pop] by (simp_all add: session_ok_def syms_def)
  have q: "q = remove1 e (ms_queue st)" by (rule queue_pop_some(2) [OF pop])
  have "covered syms q l r" if a: "adj is l r" for l r
    unfolding covered_def
  proof
    assume "key (sym_str (syms ! l)) (sym_str (syms ! r)) \<noteq> None"
    then obtain e' where e': "e' \<in> set (ms_queue st)" "bg_left e' = int l" "bg_right e' = int r"
      "bg_size e' = sy_n (syms ! l) + sy_n (syms ! r)"
      using ok a unfolding session_ok_def covered_def syms_def by blast
    have "e' \<noteq> e"
    proof
      assume "e' = e"
      then have "nat (bg_left e) = l" "nat (bg_right e) = r" using e' by auto
      then show False
        using entry_live(1) [OF c e] stale adj_mem [OF a] e'(4) \<open>e' = e\<close> unfolding syms_def by simp
    qed
    then have "e' \<in> set q" using e'(1) by (simp add: q)
    then show "\<exists>e\<in>set q. bg_left e = int l \<and> bg_right e = int r \<and> bg_size e = sy_n (syms ! l) + sy_n (syms ! r)"
      using e' by blast
  qed
  moreover have "set q \<subseteq> set (ms_queue st)" by (simp add: q set_remove1_subset)
  ultimately show ?thesis using ok unfolding session_ok_def syms_def by auto
qed

text \<open>A queued pair of neighbours is covered.\<close>

lemma add_entries:
  assumes "chain_ok (ms_symbols st) is" "\<forall>e \<in> set (ms_queue st). entry_ok (ms_symbols st) is e"
    and "l = -1 \<or> r = -1 \<or> 0 \<le> l \<and> 0 \<le> r \<and> adj is (nat l) (nat r)"
  shows "\<forall>e \<in> set (ms_queue (add st l r)). entry_ok (ms_symbols st) is e"
    "set (ms_queue st) \<subseteq> set (ms_queue (add st l r))"
    "length (ms_queue (add st l r)) \<le> Suc (length (ms_queue st))"
    "0 \<le> l \<Longrightarrow> 0 \<le> r \<Longrightarrow> covered (ms_symbols st) (ms_queue (add st l r)) (nat l) (nat r)"
proof -
  define syms where "syms = ms_symbols st"
  have all: "(\<forall>e \<in> set (ms_queue (add st l r)). entry_ok syms is e) \<and>
    set (ms_queue st) \<subseteq> set (ms_queue (add st l r)) \<and> length (ms_queue (add st l r)) \<le> Suc (length (ms_queue st)) \<and>
    (0 \<le> l \<longrightarrow> 0 \<le> r \<longrightarrow> covered syms (ms_queue (add st l r)) (nat l) (nat r))"
  proof (cases "l = -1 \<or> r = -1")
    case True
    then show ?thesis using assms(2) by (auto simp: add_none syms_def)
  next
    case False
    then have lr: "0 \<le> l" "0 \<le> r" and a: "adj is (nat l) (nat r)" using assms(3) by auto
    note c = chain_adj [OF assms(1) a, folded syms_def]
    have len: "length (sym_str (syms ! nat l)) = sy_n (syms ! nat l)" "length (sym_str (syms ! nat r)) = sy_n (syms ! nat r)"
      "sym_str (syms ! nat l) @ sym_str (syms ! nat r) =
        take (sy_n (syms ! nat l) + sy_n (syms ! nat r)) (sy_text (syms ! nat l))"
      using c(6,7) by (simp_all add: sym_str_def take_add)
    note q = add_queue [OF lr, of st, folded syms_def, OF c(6), unfolded len]
    show ?thesis
    proof (cases "key (sym_str (syms ! nat l)) (sym_str (syms ! nat r))")
      case None
      then show ?thesis using assms(2) by (simp add: q covered_def syms_def)
    next
      case (Some k)
      have "entry_ok syms is \<lparr>bg_left = l, bg_right = r, bg_key = k,
          bg_text = mark (take (sy_n (syms ! nat l) + sy_n (syms ! nat r)) (sy_text (syms ! nat l))),
          bg_size = sy_n (syms ! nat l) + sy_n (syms ! nat r)\<rparr>"
        using Some c lr a by (simp add: entry_ok_def sym_str_def) (use c(3) in linarith)
      then show ?thesis using assms(2) Some lr by (auto simp: q covered_def syms_def [symmetric] len)
    qed
  qed
  show "\<forall>e \<in> set (ms_queue (add st l r)). entry_ok (ms_symbols st) is e"
    "set (ms_queue st) \<subseteq> set (ms_queue (add st l r))" "length (ms_queue (add st l r)) \<le> Suc (length (ms_queue st))"
    "0 \<le> l \<Longrightarrow> 0 \<le> r \<Longrightarrow> covered (ms_symbols st) (ms_queue (add st l r)) (nat l) (nat r)"
    using all unfolding syms_def by blast+
qed

lemma add_log_ok:
  assumes "chain_ok (ms_symbols st) is" "\<forall>s \<in> set (ms_symbols st). text_ok (sy_text s)"
    and "l = -1 \<or> r = -1 \<or> 0 \<le> l \<and> 0 \<le> r \<and> adj is (nat l) (nat r)" and lg: "log_ok (ms_log st)"
  shows "log_ok (ms_log (add st l r))"
proof (cases "l = -1 \<or> r = -1")
  case True
  then show ?thesis using lg by (simp add: add_none)
next
  case False
  then have a: "0 \<le> l" "0 \<le> r" "adj is (nat l) (nat r)" using assms(3) by blast+
  have "text_ok (sy_text (symbol_at st l))" "text_ok (sy_text (symbol_at st r))"
    using assms(2) chain_adj(3,4) [OF assms(1) a(3)] by auto
  then show ?thesis using lg a by (intro add_log) (simp_all add: sym_str_def text_take)
qed

lemma covered_mono: "covered syms q l r \<Longrightarrow> set q \<subseteq> set q' \<Longrightarrow> covered syms q' l r"
  by (auto simp: covered_def)

text \<open>What a merge leaves of the entries.\<close>

lemma entry_merged:
  assumes c: "chain_ok syms (xs @ l # r # ys)" and e: "entry_ok syms (xs @ l # r # ys) e"
  shows "entry_ok (merge_symbols (int l) (int r) syms) (xs @ l # ys) e"
proof -
  let ?is = "xs @ l # r # ys" and ?syms = "merge_symbols (int l) (int r) syms"
  note at = merge_symbols_at [OF c]
  have d: "distinct ?is" by (rule chain_distinct [OF c])
  let ?a = "nat (bg_left e)" and ?b = "nat (bg_right e)"
  have "adj (xs @ l # ys) ?a ?b \<and>
       (let ls = ?syms ! ?a; b = bg_size e - sy_n ls in
        sy_n ls < bg_size e \<and> bg_size e \<le> length (sy_text ls) \<and> b \<le> sy_n (?syms ! ?b) \<and>
        bg_text e = mark (take (bg_size e) (sy_text ls)) \<and>
        key (sym_str ls) (take b (drop (sy_n ls) (sy_text ls))) = Some (bg_key e))"
    if m: "?a \<in> set (xs @ l # ys)" "?b \<in> set (xs @ l # ys)"
  proof -
    have m': "?a \<in> set ?is" "?b \<in> set ?is" "?a \<noteq> r" "?b \<noteq> r" using m d by auto
    then have a: "adj ?is ?a ?b" and
      i: "let ls = syms ! ?a; b = bg_size e - sy_n ls in
        sy_n ls < bg_size e \<and> bg_size e \<le> length (sy_text ls) \<and> b \<le> sy_n (syms ! ?b) \<and>
        bg_text e = mark (take (bg_size e) (sy_text ls)) \<and>
        key (sym_str ls) (take b (drop (sy_n ls) (sy_text ls))) = Some (bg_key e)"
      using e unfolding entry_ok_def by blast+
    have a': "adj (xs @ l # ys) ?a ?b" by (rule adj_merged_old [OF d a]) (use m' in auto)
    have "?a \<noteq> l"
    proof
      assume "?a = l"
      have "linked syms l r" by (rule adj_linked [OF c adjI [OF refl]])
      moreover have "linked syms l ?b" using adj_linked [OF c a] \<open>?a = l\<close> by simp
      ultimately have "int ?b = int r" unfolding linked_def by metis
      then have "?b = r" by (simp only: of_nat_eq_iff)
      then show False using m'(4) by simp
    qed
    then have la: "sy_text (?syms ! ?a) = sy_text (syms ! ?a)" "sy_n (?syms ! ?a) = sy_n (syms ! ?a)"
      using at(4) at(5) [of ?a] m'(3) by (cases "ys \<noteq> [] \<and> ?a = hd ys"; auto)+
    have lb: "sy_n (syms ! ?b) \<le> sy_n (?syms ! ?b)"
      using at(2) at(4) at(5) [of ?b] m'(4) by (cases "?b = l"; cases "ys \<noteq> [] \<and> ?b = hd ys") auto
    show ?thesis using a' i la lb by (auto simp: Let_def sym_str_def)
  qed
  then show ?thesis using e at(1) unfolding entry_ok_def by auto
qed

lemma merge_step:
  assumes ok: "session_ok st is" and pop: "queue_pop precedes (ms_queue st) = Some (e, q)"
    and fresh: "\<not> stale e (symbol_at st (bg_left e)) (symbol_at st (bg_right e))"
  defines "l \<equiv> bg_left e"
  defines "st2 \<equiv> st\<lparr>ms_queue := q, ms_symbols := merge_symbols l (bg_right e) (ms_symbols st)\<rparr>"
  defines "st3 \<equiv> add st2 (sy_prev (symbol_at st2 l)) l"
  defines "st4 \<equiv> add st3 l (sy_next (symbol_at st3 l))"
  obtains is' where "session_ok st4 is'" "Suc (length is') = length is" "hd is' = hd is" "length (ms_queue st4) \<le> length q + 2"
    "\<exists>i. best_pair key lt (pieces (ms_symbols st) is) = Some (i, bg_key e) \<and>
       pieces (ms_symbols st4) is' = merge_at i (pieces (ms_symbols st) is)"
proof -
  define a where "a = nat l"
  define b where "b = nat (bg_right e)"
  obtain xs ys where e_is: "is = xs @ a # b # ys" and best: "best_pair key lt (pieces (ms_symbols st) is) = Some (length xs, bg_key e)"
    using top_is_best [OF ok pop fresh] unfolding a_def b_def l_def by blast
  have c: "chain_ok (ms_symbols st) (xs @ a # b # ys)" and ents: "\<forall>e \<in> set (ms_queue st). entry_ok (ms_symbols st) is e"
    and cov: "\<And>l r. adj is l r \<Longrightarrow> covered (ms_symbols st) (ms_queue st) l r" and lg: "log_ok (ms_log st)"
    and tx: "\<forall>s \<in> set (ms_symbols st). text_ok (sy_text s)"
    using ok by (simp_all add: session_ok_def e_is)
  have e: "entry_ok (ms_symbols st) is e" using ents queue_pop_some(1) [OF pop] by blast
  then have ab: "l = int a" "bg_right e = int b" by (simp_all add: entry_ok_def a_def b_def l_def)
  define syms where "syms = merge_symbols (int a) (int b) (ms_symbols st)"
  have st2: "ms_symbols st2 = syms" "ms_queue st2 = q" "ms_log st2 = ms_log st"
    by (simp_all add: st2_def syms_def ab)
  have st3: "ms_symbols st3 = syms" and st4: "ms_symbols st4 = syms"
    by (simp_all add: st4_def st3_def add_symbols st2)
  define is' where "is' = xs @ a # ys"
  note at = merge_symbols_at [OF c, folded syms_def]
  have c': "chain_ok syms is'" and p': "pieces syms is' = merge_at (length xs) (pieces (ms_symbols st) is)"
    using merge_symbols_chain [OF c] by (simp_all add: syms_def is'_def e_is)
  have q: "set q \<subseteq> set (ms_queue st)" by (simp add: queue_pop_some(2) [OF pop] set_remove1_subset)
  have ents2: "\<forall>e \<in> set (ms_queue st2). entry_ok (ms_symbols st2) is' e"
    using ents q entry_merged [OF c] by (auto simp: st2 syms_def is'_def e_is)
  have prev: "sy_prev (symbol_at st2 l) = (if xs = [] then -1 else int (last xs))"
  proof -
    have "sy_prev (syms ! a) = sy_prev (ms_symbols st ! a)" by (simp add: at(2))
    also have "\<dots> = (if xs = [] then -1 else int (last xs))"
      using c by (auto simp: chain_ok_def successively_append_iff linked_def)
    finally show ?thesis by (simp add: st2 ab)
  qed
  have nxt: "sy_next (symbol_at st3 l) = (if ys = [] then -1 else int (hd ys))"
  proof -
    have "sy_next (syms ! a) = sy_next (ms_symbols st ! b)" by (simp add: at(2))
    also have "\<dots> = (if ys = [] then -1 else int (hd ys))"
      using c by (auto simp: chain_ok_def successively_append_iff successively_Cons linked_def)
    finally show ?thesis by (simp add: st3 ab)
  qed
  have left: "xs \<noteq> [] \<Longrightarrow> adj is' (last xs) a"
    unfolding is'_def by (rule adjI [of "butlast xs" _ _ ys]) simp
  have right: "ys \<noteq> [] \<Longrightarrow> adj is' a (hd ys)"
    unfolding is'_def by (rule adjI [of xs _ _ "tl ys"]) simp
  have pos2: "sy_prev (symbol_at st2 l) = -1 \<or> l = -1 \<or>
      0 \<le> sy_prev (symbol_at st2 l) \<and> 0 \<le> l \<and> adj is' (nat (sy_prev (symbol_at st2 l))) (nat l)"
    unfolding prev using left by (simp add: ab(1))
  note add3 = add_entries [OF c' [folded st2(1)] ents2 pos2, folded st3_def, unfolded st2]
  have pos3: "l = -1 \<or> sy_next (symbol_at st3 l) = -1 \<or>
      0 \<le> l \<and> 0 \<le> sy_next (symbol_at st3 l) \<and> adj is' (nat l) (nat (sy_next (symbol_at st3 l)))"
    unfolding nxt using right by (simp add: ab(1))
  have ents3: "\<forall>e \<in> set (ms_queue st3). entry_ok (ms_symbols st3) is' e" using add3(1) by (simp add: st3)
  note add4 = add_entries [OF c' [folded st3] ents3 pos3, folded st4_def, unfolded st3]
  have cov4: "covered syms (ms_queue st4) x y" if xy: "adj is' x y" for x y
  proof -
    have "adj is x y \<and> x \<noteq> a \<and> y \<noteq> a \<or> xs \<noteq> [] \<and> x = last xs \<and> y = a \<or> ys \<noteq> [] \<and> x = a \<and> y = hd ys"
      using adj_merged_new [OF chain_distinct [OF c] xy [unfolded is'_def]] by (simp add: e_is)
    then consider (old) "adj is x y" "x \<noteq> a" "y \<noteq> a" | (left) "xs \<noteq> []" "x = last xs" "y = a" | (right) "ys \<noteq> []" "x = a" "y = hd ys"
      by blast
    then show ?thesis
    proof cases
      case old
      have "x \<in> set is'" "y \<in> set is'" using adj_mem [OF xy] by auto
      then have "x \<noteq> b" "y \<noteq> b" using chain_distinct [OF c] by (auto simp: is'_def)
      then have same: "sy_n (syms ! z) = sy_n (ms_symbols st ! z) \<and> sy_text (syms ! z) = sy_text (ms_symbols st ! z)"
        if "z \<in> {x, y}" for z
        using that old at(4) at(5) [of z] by (cases "ys \<noteq> [] \<and> z = hd ys") auto
      have "covered syms q x y"
        unfolding covered_def
      proof
        assume k: "key (sym_str (syms ! x)) (sym_str (syms ! y)) \<noteq> None"
        have "sym_str (syms ! x) = sym_str (ms_symbols st ! x)" "sym_str (syms ! y) = sym_str (ms_symbols st ! y)"
          using same by (simp_all add: sym_str_def)
        then obtain e' where e': "e' \<in> set (ms_queue st)" "bg_left e' = int x" "bg_right e' = int y"
          "bg_size e' = sy_n (ms_symbols st ! x) + sy_n (ms_symbols st ! y)"
          using cov [OF old(1)] k unfolding covered_def by auto
        have "e' \<noteq> e" using e'(2) old(2) ab(1) by (auto simp: l_def)
        then have "e' \<in> set q" using e'(1) by (simp add: queue_pop_some(2) [OF pop])
        then show "\<exists>e\<in>set q. bg_left e = int x \<and> bg_right e = int y \<and> bg_size e = sy_n (syms ! x) + sy_n (syms ! y)"
          using e' same by auto
      qed
      then show ?thesis by (rule covered_mono) (use add3(2) add4(2) in blast)
    next
      case left
      then have "covered syms (ms_queue st3) x y" using add3(4) unfolding prev [unfolded st2] by (simp add: ab(1))
      then show ?thesis by (rule covered_mono) (rule add4(2))
    next
      case right
      then show ?thesis using add4(4) unfolding nxt [unfolded st3] by (simp add: ab(1))
    qed
  qed
  have tx': "\<forall>s \<in> set syms. text_ok (sy_text s)"
    using tx merge_symbols_texts [of "int a" "int b" "ms_symbols st", folded syms_def, THEN arg_cong [where f = set]]
    by (auto simp: image_iff) (metis (mono_tags, lifting) image_iff)
  have "log_ok (ms_log st3)"
    unfolding st3_def by (rule add_log_ok [OF c' [folded st2(1)] _ pos2]) (use tx' lg in \<open>simp_all add: st2\<close>)
  then have "log_ok (ms_log st4)"
    unfolding st4_def by (rule add_log_ok [OF c' [folded st3] _ pos3, rotated]) (use tx' in \<open>simp add: st3\<close>)
  then have "session_ok st4 is'" using c' tx' add4(1) cov4 by (simp add: session_ok_def st4)
  moreover have "length (ms_queue st4) \<le> length q + 2" using add3(3) add4(3) by simp
  moreover have "hd is' = hd is" by (cases xs) (simp_all add: is'_def e_is)
  ultimately show thesis using that best p' by (simp add: st4 is'_def e_is)
qed

theorem merge_loop_naive:
  assumes "session_ok st is"
  shows "\<exists>st' is'. merge_loop add stale precedes st = Some st' \<and> chain_ok (ms_symbols st') is' \<and> log_ok (ms_log st') \<and>
     (is \<noteq> [] \<longrightarrow> is' \<noteq> [] \<and> hd is' = hd is) \<and> pieces (ms_symbols st') is' = naive_merge key lt (pieces (ms_symbols st) is)"
  using assms
proof (induction "3 * length is + length (ms_queue st)" arbitrary: st "is" rule: less_induct)
  case less
  show ?case
  proof (cases "queue_pop precedes (ms_queue st)")
    case None
    then have q: "ms_queue st = []" by (simp add: queue_pop_none)
    have "best_pair key lt (pieces (ms_symbols st) is) = None"
    proof (rule ccontr)
      assume "best_pair key lt (pieces (ms_symbols st) is) \<noteq> None"
      then obtain i k where "best_pair key lt (pieces (ms_symbols st) is) = Some (i, k)" by (metis not_None_eq surj_pair)
      from best_pair_some [OF lt_irrefl lt_trans lt_total this]
      have i: "Suc i < length is" and k: "key (pieces (ms_symbols st) is ! i) (pieces (ms_symbols st) is ! Suc i) = Some k"
        by (simp_all add: is_best_def)
      have "adj is (is ! i) (is ! Suc i)" using i unfolding adj_nth by blast
      then show False using less.prems i k q by (fastforce simp: session_ok_def covered_def pieces_def)
    qed
    then have "naive_merge key lt (pieces (ms_symbols st) is) = pieces (ms_symbols st) is"
      by (subst naive_merge.simps) simp
    then show ?thesis using less.prems None by (subst merge_loop.simps) (auto simp: session_ok_def)
  next
    case (Some r)
    obtain e q where r: "r = (e, q)" by fastforce
    note pop = Some [unfolded r]
    show ?thesis
    proof (cases "stale e (symbol_at st (bg_left e)) (symbol_at st (bg_right e))")
      case True
      have "merge_loop add stale precedes st = merge_loop add stale precedes (st\<lparr>ms_queue := q\<rparr>)"
        using pop True by (subst merge_loop.simps) (simp add: Let_def)
      then show ?thesis
        using less.hyps [OF _ drop_stale [OF less.prems pop True]] queue_pop_some(3) [OF pop] by simp
    next
      case False
      define st2 where "st2 = st\<lparr>ms_queue := q, ms_symbols := merge_symbols (bg_left e) (bg_right e) (ms_symbols st)\<rparr>"
      define st3 where "st3 = add st2 (sy_prev (symbol_at st2 (bg_left e))) (bg_left e)"
      define st4 where "st4 = add st3 (bg_left e) (sy_next (symbol_at st3 (bg_left e)))"
      obtain is' i where m: "session_ok st4 is'" "Suc (length is') = length is" "hd is' = hd is"
        "length (ms_queue st4) \<le> length q + 2" "best_pair key lt (pieces (ms_symbols st) is) = Some (i, bg_key e)"
        "pieces (ms_symbols st4) is' = merge_at i (pieces (ms_symbols st) is)"
        using merge_step [OF less.prems pop False] unfolding st4_def st3_def st2_def by blast
      have "merge_loop add stale precedes st = merge_loop add stale precedes st4"
        using pop False by (subst merge_loop.simps) (simp add: Let_def st4_def st3_def st2_def)
      moreover have "naive_merge key lt (pieces (ms_symbols st) is) = naive_merge key lt (pieces (ms_symbols st4) is')"
        by (subst naive_merge.simps) (simp add: m(5,6))
      moreover have "is' \<noteq> []" "is \<noteq> []" using m(5) best_pair_pos [OF m(5)] m(2) by auto
      ultimately show ?thesis using less.hyps [OF _ m(1)] m(2-4) queue_pop_some(3) [OF pop] by simp
    qed
  qed
qed

text \<open>The first entries.\<close>

lemma seed_fold:
  assumes c: "chain_ok syms [0..<length syms]" and "m \<le> length syms"
    and "ms_symbols st = syms" "log_ok (ms_log st)" "ms_queue st = []" and tx: "\<forall>s \<in> set syms. text_ok (sy_text s)"
  defines "f \<equiv> \<lambda>i st. add st (int i - 1) (int i)"
  shows "ms_symbols (fold f [1..<m] st) = syms \<and> log_ok (ms_log (fold f [1..<m] st)) \<and>
     (\<forall>e \<in> set (ms_queue (fold f [1..<m] st)). entry_ok syms [0..<length syms] e) \<and>
     (\<forall>i. Suc i < m \<longrightarrow> covered syms (ms_queue (fold f [1..<m] st)) i (Suc i))"
  using assms(2)
proof (induction m)
  case 0
  then show ?case using assms(3-5) by simp
next
  case (Suc m)
  show ?case
  proof (cases "m = 0")
    case True
    then show ?thesis using assms(3-5) by simp
  next
    case False
    define st1 where "st1 = fold f [1..<m] st"
    have ih: "ms_symbols st1 = syms" "log_ok (ms_log st1)" "\<forall>e \<in> set (ms_queue st1). entry_ok syms [0..<length syms] e"
      "\<And>i. Suc i < m \<Longrightarrow> covered syms (ms_queue st1) i (Suc i)"
      using Suc by (simp_all add: st1_def)
    have "[0..<length syms] = [0..<m - 1] @ (m - 1) # m # [Suc m..<length syms]"
      using False Suc.prems upt_add_eq_append [of 0 "m - 1" "length syms - (m - 1)"]
      by (simp add: upt_conv_Cons)
    then have a: "adj [0..<length syms] (m - 1) m" by (intro adjI) (rule sym)
    have "nat (int m - 1) = m - 1" using False by simp
    then have pos: "int m - 1 = -1 \<or> int m = -1 \<or> 0 \<le> int m - 1 \<and> 0 \<le> int m \<and> adj [0..<length syms] (nat (int m - 1)) (nat (int m))"
      using a False by simp
    note ae = add_entries [of st1, unfolded ih(1), OF c ih(3) pos]
    have fold: "fold f [1..<Suc m] st = add st1 (int m - 1) (int m)"
      using False by (simp add: st1_def f_def)
    have "covered syms (ms_queue (add st1 (int m - 1) (int m))) i (Suc i)" if "Suc i < Suc m" for i
    proof (cases "Suc i = m")
      case True
      then show ?thesis using ae(4) by auto
    next
      case False
      then show ?thesis using that ih(4) [of i] ae(2) covered_mono by auto
    qed
    then show ?thesis unfolding fold using ae(1) ih(1,2) tx add_log_ok [of st1, unfolded ih(1), OF c tx pos] by (simp add: add_symbols)
  qed
qed

lemma seed_ok:
  assumes "chain_ok (ms_symbols st) [0..<length (ms_symbols st)]" "log_ok (ms_log st)" "ms_queue st = []"
    and "\<forall>s \<in> set (ms_symbols st). text_ok (sy_text s)"
  shows "session_ok (seed_bigrams add st) [0..<length (ms_symbols st)] \<and> ms_symbols (seed_bigrams add st) = ms_symbols st"
proof -
  define n where "n = length (ms_symbols st)"
  note s = seed_fold [OF assms(1) order_refl refl assms(2-4)]
  have "covered (ms_symbols st) (ms_queue (seed_bigrams add st)) l r" if "adj [0..<n] l r" for l r
  proof -
    have "Suc l < n" "r = Suc l" using that unfolding adj_nth by auto
    then show ?thesis using s by (simp add: seed_bigrams_def n_def)
  qed
  then show ?thesis using s assms(1,4) by (simp add: session_ok_def seed_bigrams_def n_def)
qed

theorem session_naive:
  assumes "chain_ok syms [0..<length syms]" "log_ok lg" "\<forall>s \<in> set syms. text_ok (sy_text s)"
  shows "\<exists>st is. merge_loop add stale precedes (seed_bigrams add \<lparr>ms_symbols = syms, ms_queue = [], ms_log = lg\<rparr>) = Some st \<and>
     chain_ok (ms_symbols st) is \<and> log_ok (ms_log st) \<and> (syms \<noteq> [] \<longrightarrow> is \<noteq> [] \<and> hd is = 0) \<and>
     pieces (ms_symbols st) is = naive_merge key lt (map sym_str syms)"
proof -
  let ?st = "\<lparr>ms_symbols = syms, ms_queue = [], ms_log = lg\<rparr>"
  have ok: "session_ok (seed_bigrams add ?st) [0..<length syms]" "ms_symbols (seed_bigrams add ?st) = syms"
    using seed_ok [of ?st] assms by simp_all
  have "pieces syms [0..<length syms] = map sym_str syms"
    unfolding pieces_def by (rule nth_equalityI) simp_all
  then show ?thesis using merge_loop_naive [OF ok(1)] ok(2) by simp
qed

end

lemma sorted_list_eq: "sorted_wrt (<) (xs :: nat list) \<Longrightarrow> sorted_wrt (<) ys \<Longrightarrow> set xs = set ys \<Longrightarrow> xs = ys"
  using strict_sorted_equal by blast

text \<open>The live symbols in the order of the array are the chain.\<close>

lemma chain_live:
  assumes "chain_ok syms is"
  shows "filter (\<lambda>i. 0 < sy_n (syms ! i)) [0..<length syms] = is"
    "map sym_str (filter (\<lambda>s. 0 < sy_n s) syms) = pieces syms is"
proof -
  show f: "filter (\<lambda>i. 0 < sy_n (syms ! i)) [0..<length syms] = is"
  proof (rule sorted_list_eq)
    show "sorted_wrt (<) (filter (\<lambda>i. 0 < sy_n (syms ! i)) [0..<length syms])"
      by (intro sorted_wrt_filter) (simp add: sorted_wrt_upt)
    show "sorted_wrt (<) is" by (rule chain_sorted [OF assms])
    show "set (filter (\<lambda>i. 0 < sy_n (syms ! i)) [0..<length syms]) = set is"
      using assms unfolding chain_ok_def by auto
  qed
  have "syms = map (\<lambda>i. syms ! i) [0..<length syms]" by (simp add: map_nth)
  then have "filter (\<lambda>s. 0 < sy_n s) syms = map (\<lambda>i. syms ! i) (filter (\<lambda>i. 0 < sy_n (syms ! i)) [0..<length syms])"
    by (metis (no_types, lifting) comp_apply filter_cong filter_map)
  then show "map sym_str (filter (\<lambda>s. 0 < sy_n s) syms) = pieces syms is" by (simp add: f pieces_def)
qed

subsection \<open>The first symbols\<close>

function utf8_pieces :: "byte list \<Rightarrow> byte list list" where
  "utf8_pieces s =
     (if s = [] \<or> \<not> hd s < 256 then []
      else take (unicode_len_utf8 (hd s)) s # utf8_pieces (drop (unicode_len_utf8 (hd s)) s))"
  by auto
termination
proof (relation "measure length")
  fix s :: "byte list"
  assume "\<not> (s = [] \<or> \<not> hd s < 256)"
  then show "(drop (unicode_len_utf8 (hd s)) s, s) \<in> measure length"
    using unicode_len_range [of "hd s"] by (cases s) auto
qed simp

declare utf8_pieces.simps [simp del]

lemma utf8_pieces_concat: "\<forall>b \<in> set s. b < 256 \<Longrightarrow> concat (utf8_pieces s) = s"
proof (induction s rule: utf8_pieces.induct)
  case (1 s)
  show ?case
  proof (cases "s = []")
    case False
    then have "hd s < 256" using 1(2) by simp
    then show ?thesis using False 1 by (subst utf8_pieces.simps) (simp, metis append_take_drop_id in_set_dropD)
  qed (simp add: utf8_pieces.simps)
qed

lemma init_symbols_empty: "init_symbols idx [] = []"
  by (subst init_symbols.simps) simp

lemma init_symbols_step:
  assumes "\<forall>b \<in> set s. b < 256" "s \<noteq> []"
  defines "n \<equiv> min (unicode_len_utf8 (hd s)) (length s)"
  shows "init_symbols idx s = \<lparr>sy_prev = idx - 1, sy_next = (if drop n s = [] then -1 else idx + 1), sy_text = s, sy_n = n\<rparr> #
      init_symbols (idx + 1) (drop n s)"
    "0 < n" "n \<le> length s"
proof -
  have h: "hd s < 256" using assms(1,2) by simp
  show "init_symbols idx s = \<lparr>sy_prev = idx - 1, sy_next = (if drop n s = [] then -1 else idx + 1), sy_text = s, sy_n = n\<rparr> #
      init_symbols (idx + 1) (drop n s)"
    using h assms(2) by (subst init_symbols.simps) (simp add: n_def Let_def)
  show "0 < n" "n \<le> length s" using unicode_len_range [OF h] assms(2) by (auto simp: n_def)
qed

lemma init_symbols_pieces: "\<forall>b \<in> set s. b < 256 \<Longrightarrow> map sym_str (init_symbols idx s) = utf8_pieces s"
proof (induction "length s" arbitrary: idx s rule: less_induct)
  case less
  show ?case
  proof (cases "s = []")
    case True
    then show ?thesis by (simp add: init_symbols_empty utf8_pieces.simps)
  next
    case False
    note st = init_symbols_step [OF less.prems False]
    define n where "n = min (unicode_len_utf8 (hd s)) (length s)"
    have e: "take n s = take (unicode_len_utf8 (hd s)) s" "drop n s = drop (unicode_len_utf8 (hd s)) s"
      by (auto simp: n_def min_def)
    have "map sym_str (init_symbols (idx + 1) (drop n s)) = utf8_pieces (drop n s)"
      by (rule less.hyps) (use st(2) False less.prems in \<open>auto simp: n_def dest: in_set_dropD\<close>)
    then show ?thesis
      using False less.prems st(1) [of idx]
      by (subst utf8_pieces.simps) (simp add: n_def [symmetric] sym_str_def e)
  qed
qed

lemma init_symbols_nth:
  "\<forall>b \<in> set s. b < 256 \<Longrightarrow> i < length (init_symbols idx s) \<Longrightarrow>
   (let t = init_symbols idx s; y = t ! i in
    sy_prev y = idx + int i - 1 \<and> sy_next y = (if Suc i = length t then -1 else idx + int i + 1) \<and>
    0 < sy_n y \<and> sy_n y \<le> length (sy_text y) \<and> (i = 0 \<longrightarrow> sy_text y = s) \<and>
    (Suc i < length t \<longrightarrow> sy_text (t ! Suc i) = drop (sy_n y) (sy_text y)))"
proof (induction "length s" arbitrary: idx s i rule: less_induct)
  case less
  have ne: "s \<noteq> []" using less.prems(2) by (auto simp: init_symbols_empty)
  note st = init_symbols_step [OF less.prems(1) ne]
  define n where "n = min (unicode_len_utf8 (hd s)) (length s)"
  define t where "t = init_symbols (idx + 1) (drop n s)"
  note st' = st [folded n_def]
  have bytes: "\<forall>b \<in> set (drop n s). b < 256" using less.prems(1) by (auto dest: in_set_dropD)
  have ih: "i < length t \<Longrightarrow> (let y = t ! i in
    sy_prev y = idx + 1 + int i - 1 \<and> sy_next y = (if Suc i = length t then -1 else idx + 1 + int i + 1) \<and>
    0 < sy_n y \<and> sy_n y \<le> length (sy_text y) \<and> (i = 0 \<longrightarrow> sy_text y = drop n s) \<and>
    (Suc i < length t \<longrightarrow> sy_text (t ! Suc i) = drop (sy_n y) (sy_text y)))" for i
    unfolding t_def using less.hyps [of "drop n s" i "idx + 1"] st'(2) ne bytes by (simp add: Let_def)
  have t: "t = [] \<longleftrightarrow> drop n s = []"
    unfolding t_def using init_symbols_step(1) [OF bytes] by (metis init_symbols_empty list.distinct(1))
  show ?case
  proof (cases i)
    case 0
    then show ?thesis
      using ih [of 0] t st'(2,3) unfolding st'(1) t_def [symmetric] by (cases t) (auto simp: Let_def)
  next
    case (Suc j)
    then have "j < length t" using less.prems(2) unfolding st'(1) t_def [symmetric] by simp
    then show ?thesis using ih [of j] Suc unfolding st'(1) t_def [symmetric] by (simp add: Let_def)
  qed
qed

lemma init_symbols_chain:
  assumes "\<forall>b \<in> set s. b < 256"
  shows "chain_ok (init_symbols 0 s) [0..<length (init_symbols 0 s)]"
proof -
  define t where "t = init_symbols 0 s"
  note n = init_symbols_nth [OF assms, of _ 0, folded t_def, unfolded Let_def]
  have "successively (linked t) [0..<length t]"
    by (rule successively_conv_nth [THEN iffD2, rule_format]) (use n in \<open>simp add: linked_def\<close>)
  moreover have "sy_prev (t ! hd [0..<length t]) = -1 \<and> sy_next (t ! last [0..<length t]) = -1" if "[0..<length t] \<noteq> []"
  proof -
    have "0 < length t" "last [0..<length t] = length t - 1" using that by simp_all
    then show ?thesis using n [of 0] n [of "length t - 1"] by simp
  qed
  ultimately show ?thesis using n unfolding chain_ok_def t_def [symmetric] by simp
qed

text \<open>What every piece of the specification inherits.\<close>

lemma merge_at_all:
  "(\<And>a b. P a \<Longrightarrow> P b \<Longrightarrow> Q a b \<Longrightarrow> P (a @ b)) \<Longrightarrow> \<forall>p \<in> set ps. P p \<Longrightarrow>
   (Suc i < length ps \<Longrightarrow> Q (ps ! i) (ps ! Suc i)) \<Longrightarrow> \<forall>p \<in> set (merge_at i ps). P p"
  by (induction i ps rule: merge_at.induct) auto

lemma best_pair_key: "best_pair key lt ps = Some (i, k) \<Longrightarrow> key (ps ! i) (ps ! Suc i) = Some k"
  by (induction key lt ps arbitrary: i k rule: best_pair.induct)
    (auto simp: Let_def split: option.splits if_splits prod.splits)

lemma naive_merge_all:
  assumes "\<And>a b k. P a \<Longrightarrow> P b \<Longrightarrow> key a b = Some k \<Longrightarrow> P (a @ b)"
  shows "\<forall>p \<in> set ps. P p \<Longrightarrow> \<forall>p \<in> set (naive_merge key lt ps). P p"
proof (induction "length ps" arbitrary: ps rule: less_induct)
  case less
  show ?case
  proof (cases "best_pair key lt ps")
    case None
    then show ?thesis using less.prems by (subst naive_merge.simps) simp
  next
    case (Some r)
    obtain i k where r: "r = (i, k)" by fastforce
    have key: "key (ps ! i) (ps ! Suc i) = Some k" by (rule best_pair_key [OF Some [unfolded r]])
    have "\<forall>p \<in> set (merge_at i ps). P p"
      by (rule merge_at_all [where Q = "\<lambda>a b. key a b = Some k"]) (use assms less.prems key in blast)+
    then have "\<forall>p \<in> set (naive_merge key lt (merge_at i ps)). P p"
      using less.hyps [of "merge_at i ps"] best_pair_pos [OF Some [unfolded r]] merge_at_length [of i ps] by simp
    then show ?thesis by (subst naive_merge.simps) (simp add: Some r)
  qed
qed

text \<open>No pair of neighbours is left that has a key.\<close>

lemma naive_merge_done: "Suc j < length (naive_merge key lt ps) \<Longrightarrow>
  key (naive_merge key lt ps ! j) (naive_merge key lt ps ! Suc j) = None"
proof (induction key lt ps arbitrary: j rule: naive_merge.induct)
  case (1 key lt ps)
  show ?case
  proof (cases "best_pair key lt ps")
    case None
    then have "naive_merge key lt ps = ps" by (subst naive_merge.simps) simp
    then show ?thesis using best_pair_none [OF None] 1(2) by simp
  next
    case (Some r)
    obtain i k where r: "r = (i, k)" by fastforce
    have "naive_merge key lt ps = naive_merge key lt (merge_at i ps)" by (subst naive_merge.simps) (simp add: Some r)
    then show ?thesis using 1(1) [OF Some r [symmetric]] 1(2) by simp
  qed
qed

end
