(* ===== verification/TokBpe.thy ===== *)
theory TokBpe
  imports Vocab TokMerge
begin

text \<open>
  The BPE session of \<^verbatim>\<open>llama-vocab.cpp\<close>: a text is split into words in the byte alphabet, the symbols of each
  word are merged by rank, what is left of all words becomes one chain and the chain gives the tokens. The
  session is the greedy merging of \<open>naive_merge\<close>, always returns, and its pieces spell the text.
\<close>

subsection \<open>The session\<close>

definition bpe_precedes :: "int llm_bigram \<Rightarrow> int llm_bigram \<Rightarrow> bool" where
  "bpe_precedes r l = (bg_key l > bg_key r \<or> bg_key l = bg_key r \<and> bg_left l > bg_left r)"

definition bpe_stale :: "int llm_bigram \<Rightarrow> llm_symbol \<Rightarrow> llm_symbol \<Rightarrow> bool" where
  "bpe_stale bigram ls rs = (sy_n ls = 0 \<or> sy_n rs = 0 \<or> sym_str ls @ sym_str rs \<noteq> bg_text bigram)"

text \<open>The log is False once an assertion of \<open>find_bpe_rank\<close> has failed; what follows is then without effect.\<close>

definition add_new_bigram :: "'s llama_vocab \<Rightarrow> (int, bool) merge_state \<Rightarrow> int \<Rightarrow> int \<Rightarrow> (int, bool) merge_state" where
  "add_new_bigram v st l r =
     (if l = -1 \<or> r = -1 then st
      else let left_token = sym_str (symbol_at st l); right_token = sym_str (symbol_at st r) in
        case find_bpe_rank v left_token right_token of
          None \<Rightarrow> st\<lparr>ms_log := False\<rparr>
        | Some rank_found \<Rightarrow>
            if rank_found < 0 then st
            else st\<lparr>ms_queue := ms_queue st @
                   [\<lparr>bg_left = l, bg_right = r, bg_key = rank_found, bg_text = left_token @ right_token,
                     bg_size = length left_token + length right_token\<rparr>]\<rparr>)"

definition bpe_symbols :: "'s llama_vocab \<Rightarrow> byte list \<Rightarrow> llm_symbol list" where
  "bpe_symbols v word =
     (if vo_ignore_merges v \<and> token_of_text v word \<noteq> LLAMA_TOKEN_NULL
      then [\<lparr>sy_prev = -1, sy_next = -1, sy_text = word, sy_n = length word\<rparr>]
      else init_symbols 0 word)"

text \<open>One word; \<open>None\<close> would be a loop that does not end.\<close>

definition bpe_word :: "'s llama_vocab \<Rightarrow> byte list \<Rightarrow> (vocab_error + llm_symbol list) option" where
  "bpe_word v word =
     map_option (\<lambda>st. if ms_log st then Inr (ms_symbols st) else Inl Vocab_Abort)
       (merge_loop (add_new_bigram v) bpe_stale bpe_precedes
         (seed_bigrams (add_new_bigram v) \<lparr>ms_symbols = bpe_symbols v word, ms_queue = [], ms_log = True\<rparr>))"

text \<open>The live symbols go to the end of the final chain.\<close>

fun bpe_finish :: "llm_symbol list \<Rightarrow> llm_symbol list \<times> int \<Rightarrow> llm_symbol list \<times> int" where
  "bpe_finish [] (final, prev) = (final, prev)"
| "bpe_finish (s # syms) (final, prev) =
     (if sy_n s > 0 then
        (let final1 = (if prev \<noteq> -1 then final[nat prev := (final ! nat prev)\<lparr>sy_next := int (length final)\<rparr>] else final)
         in bpe_finish syms (final1 @ [s\<lparr>sy_prev := prev, sy_next := -1\<rparr>], int (length final1)))
      else bpe_finish syms (final, prev))"

fun bpe_words :: "'s llama_vocab \<Rightarrow> byte list list \<Rightarrow> llm_symbol list \<times> int \<Rightarrow> (vocab_error + llm_symbol list) option" where
  "bpe_words v [] (final, prev) = Some (Inr final)"
| "bpe_words v (word # ws) (final, prev) =
     (case bpe_word v word of
        None \<Rightarrow> None
      | Some (Inl e) \<Rightarrow> Some (Inl e)
      | Some (Inr syms) \<Rightarrow> bpe_words v ws (bpe_finish syms (final, prev)))"

text \<open>A symbol that is no token gives the tokens of its bytes, where there are any.\<close>

definition bpe_tokens :: "'s llama_vocab \<Rightarrow> byte list \<Rightarrow> token_id list" where
  "bpe_tokens v str =
     (let t = token_of_text v str in
      if t = LLAMA_TOKEN_NULL
      then filter (\<lambda>t. t \<noteq> LLAMA_TOKEN_NULL) (map (\<lambda>b. token_of_text v [b]) str) else [t])"

partial_function (option) bpe_walk ::
  "'s llama_vocab \<Rightarrow> llm_symbol list \<Rightarrow> int \<Rightarrow> token_id list \<Rightarrow> (vocab_error + token_id list) option"
where
  "bpe_walk v syms i out =
     (if i = -1 then Some (Inr out)
      else if i < 0 \<or> length syms \<le> nat i then Some (Inl Bad_Access)
      else let s = syms ! nat i in
        bpe_walk v syms (sy_next s) (if sy_n s = 0 then out else out @ bpe_tokens v (sym_str s)))"

definition bpe_tokenize ::
  "'s llama_vocab \<Rightarrow> (byte list \<Rightarrow> split_error + byte list list) \<Rightarrow> byte list \<Rightarrow> token_id list \<Rightarrow> (vocab_error + token_id list) option"
where
  "bpe_tokenize v split txt out =
     (case split txt of
        Inl e \<Rightarrow> Some (Inl (Split_Error e))
      | Inr words \<Rightarrow>
          (case bpe_words v words ([], -1) of
             None \<Rightarrow> None
           | Some (Inl e) \<Rightarrow> Some (Inl e)
           | Some (Inr syms) \<Rightarrow> if syms = [] then Some (Inr out) else bpe_walk v syms 0 out))"

text \<open>The tokens around the text.\<close>

definition bpe_append_bos :: "'s llama_vocab \<Rightarrow> token_id list \<Rightarrow> token_id list option" where
  "bpe_append_bos v out =
     (if vo_add_bos v then (if vo_bos_id v \<noteq> LLAMA_TOKEN_NULL then Some (out @ [vo_bos_id v]) else None) else Some out)"

definition bpe_append_eos :: "'s llama_vocab \<Rightarrow> token_id list \<Rightarrow> token_id list option" where
  "bpe_append_eos v out =
     (if vo_add_eos v then (if vo_eos_id v \<noteq> LLAMA_TOKEN_NULL then Some (out @ [vo_eos_id v]) else None) else Some out)"

subsection \<open>A session of merging\<close>

definition bpe_key :: "'s llama_vocab \<Rightarrow> byte list \<Rightarrow> byte list \<Rightarrow> int option" where
  "bpe_key v a b =
     (case find_bpe_rank v a b of None \<Rightarrow> None | Some r \<Rightarrow> if r < 0 then None else Some r)"

definition no_breaks :: "byte list \<Rightarrow> bool" where
  "no_breaks t \<longleftrightarrow> 32 \<notin> set t \<and> 10 \<notin> set t"

lemma bpe_stale_size:
  assumes "sy_text rs = drop (sy_n ls) (sy_text ls)" "0 < sy_n ls" "0 < sy_n rs"
    and "sy_n ls + sy_n rs \<le> length (sy_text ls)" "bg_size e \<le> length (sy_text ls)"
    and "bg_text e = take (bg_size e) (sy_text ls)"
  shows "bpe_stale e ls rs \<longleftrightarrow> sy_n ls + sy_n rs \<noteq> bg_size e"
  using assms by (simp add: bpe_stale_def sym_str_join take_eq_take)

lemma bpe_stale_dead: "sy_n ls = 0 \<or> sy_n rs = 0 \<Longrightarrow> bpe_stale e ls rs"
  by (auto simp: bpe_stale_def)

interpretation bpe: merge_session "bpe_key v" "(<)" "\<lambda>t. t" no_breaks "\<lambda>ok. ok" "add_new_bigram v" bpe_stale bpe_precedes
  for v :: "'s llama_vocab"
proof
  fix st :: "(int, bool) merge_state" and l r :: int
  show "ms_symbols (add_new_bigram v st l r) = ms_symbols st"
    by (simp add: add_new_bigram_def Let_def split: option.split)
  show "ms_log (add_new_bigram v st l r)" if "ms_log st"
    and "0 \<le> l" "0 \<le> r" "no_breaks (sym_str (symbol_at st l))" "no_breaks (sym_str (symbol_at st r))"
    using that by (simp add: add_new_bigram_def find_bpe_rank_def no_breaks_def Let_def)
  show "ms_queue (add_new_bigram v st l r) =
      (case bpe_key v (sym_str (symbol_at st l)) (sym_str (symbol_at st r)) of None \<Rightarrow> ms_queue st
       | Some k \<Rightarrow> ms_queue st @
           [\<lparr>bg_left = l, bg_right = r, bg_key = k, bg_text = sym_str (symbol_at st l) @ sym_str (symbol_at st r),
             bg_size = length (sym_str (symbol_at st l)) + length (sym_str (symbol_at st r))\<rparr>])"
    if "0 \<le> l" "0 \<le> r" "sy_text (symbol_at st r) = drop (sy_n (symbol_at st l)) (sy_text (symbol_at st l))"
    using that by (auto simp: add_new_bigram_def bpe_key_def Let_def split: option.split)
qed (auto simp: bigram_precedes_def bpe_precedes_def add_new_bigram_def bpe_stale_size bpe_stale_dead no_breaks_def
    dest: in_set_takeD)

subsection \<open>The session is the greedy merging\<close>

definition bpe_word_pieces :: "'s llama_vocab \<Rightarrow> byte list \<Rightarrow> byte list list" where
  "bpe_word_pieces v word =
     (if vo_ignore_merges v \<and> token_of_text v word \<noteq> LLAMA_TOKEN_NULL \<and> word \<noteq> [] then [word]
      else naive_merge (bpe_key v) (<) (utf8_pieces word))"

definition word_bytes :: "byte list \<Rightarrow> bool" where
  "word_bytes w \<longleftrightarrow> (\<forall>b \<in> set w. b < 256 \<and> b \<noteq> 32 \<and> b \<noteq> 10)"

lemma init_texts: "y \<in> set (init_symbols i s) \<Longrightarrow> set (sy_text y) \<subseteq> set s"
proof (induction "length s" arbitrary: i s rule: less_induct)
  case less
  show ?case
  proof (cases "s = [] \<or> \<not> hd s < 256")
    case True
    then show ?thesis using less.prems by (subst (asm) init_symbols.simps) auto
  next
    case False
    define n where "n = min (unicode_len_utf8 (hd s)) (length s)"
    have "0 < n" using False unicode_len_range [of "hd s"] by (auto simp: n_def)
    have "y \<in> set (init_symbols (i + 1) (drop n s)) \<or> sy_text y = s"
      using less.prems False by (subst (asm) init_symbols.simps) (auto simp: n_def Let_def)
    then show ?thesis
      using less.hyps [of "drop n s"] \<open>0 < n\<close> False by (auto dest: in_set_dropD)
  qed
qed

lemma utf8_pieces_nonempty: "p \<in> set (utf8_pieces s) \<Longrightarrow> p \<noteq> []"
proof (induction s rule: utf8_pieces.induct)
  case (1 s)
  then show ?case
    using unicode_len_range [of "hd s"] by (subst (asm) (2) utf8_pieces.simps) (auto split: if_splits)
qed

lemma bpe_word_ok:
  assumes "word_bytes word"
  shows "\<exists>syms. bpe_word v word = Some (Inr syms) \<and>
     map sym_str (filter (\<lambda>s. 0 < sy_n s) syms) = bpe_word_pieces v word"
proof (cases "vo_ignore_merges v \<and> token_of_text v word \<noteq> LLAMA_TOKEN_NULL \<and> word = []")
  case True
  then have "bpe_symbols v word = [\<lparr>sy_prev = -1, sy_next = -1, sy_text = [], sy_n = 0\<rparr>]"
    unfolding bpe_symbols_def by auto
  moreover have "bpe_word_pieces v word = []" using True by (simp add: bpe_word_pieces_def utf8_pieces.simps naive_merge.simps)
  ultimately show ?thesis by (simp add: bpe_word_def seed_bigrams_def merge_loop.simps queue_pop_def)
next
  case False
  let ?syms = "bpe_symbols v word"
  have bytes: "\<forall>b \<in> set word. b < 256" and nb: "no_breaks word" using assms by (auto simp: word_bytes_def no_breaks_def)
  have c: "chain_ok ?syms [0..<length ?syms]"
    using False init_symbols_chain [OF bytes] by (auto simp: bpe_symbols_def chain_ok_def)
  have t: "\<forall>s \<in> set ?syms. no_breaks (sy_text s)"
    using nb init_texts [of _ 0 word] unfolding bpe_symbols_def no_breaks_def by (auto split: if_splits)
  obtain st "is" where st: "merge_loop (add_new_bigram v) bpe_stale bpe_precedes
      (seed_bigrams (add_new_bigram v) \<lparr>ms_symbols = ?syms, ms_queue = [], ms_log = True\<rparr>) = Some st"
    "chain_ok (ms_symbols st) is" "ms_log st"
    "pieces (ms_symbols st) is = naive_merge (bpe_key v) (<) (map sym_str ?syms)"
    using bpe.session_naive [OF c _ t, where lg = True] by blast
  have "naive_merge (bpe_key v) (<) (map sym_str ?syms) = bpe_word_pieces v word"
    using False init_symbols_pieces [OF bytes]
    by (auto simp: bpe_word_pieces_def bpe_symbols_def sym_str_def naive_merge.simps [of _ _ "[_]"])
  then show ?thesis using st chain_live(2) [OF st(2)] by (auto simp: bpe_word_def)
qed

text \<open>The final chain is consecutive.\<close>

definition final_ok :: "llm_symbol list \<Rightarrow> int \<Rightarrow> bool" where
  "final_ok final prev \<longleftrightarrow> prev = int (length final) - 1 \<and>
     (\<forall>i < length final. 0 < sy_n (final ! i) \<and> sy_next (final ! i) = (if Suc i = length final then -1 else int i + 1))"

lemma final_ok_add:
  assumes "final_ok final prev" "0 < sy_n s"
  defines "final1 \<equiv> (if prev \<noteq> -1 then final[nat prev := (final ! nat prev)\<lparr>sy_next := int (length final)\<rparr>] else final)"
  shows "final_ok (final1 @ [s\<lparr>sy_prev := prev, sy_next := -1\<rparr>]) (int (length final1))"
    "map sym_str (final1 @ [s\<lparr>sy_prev := prev, sy_next := -1\<rparr>]) = map sym_str final @ [sym_str s]"
proof -
  have prev: "prev = int (length final) - 1" using assms(1) by (simp add: final_ok_def)
  have len: "length final1 = length final" by (simp add: final1_def)
  have at: "sy_n (final1 ! i) = sy_n (final ! i) \<and> sy_next (final1 ! i) = int i + 1" if "i < length final" for i
  proof (cases "Suc i = length final")
    case True
    then have "nat prev = i" "prev \<noteq> -1" using prev by auto
    then have "final1 ! i = (final ! i)\<lparr>sy_next := int (length final)\<rparr>" using that by (simp add: final1_def)
    moreover have "int (length final) = int i + 1" using True by linarith
    ultimately show ?thesis by simp
  next
    case False
    then have "nat prev \<noteq> i" using prev that by auto
    then have "final1 ! i = final ! i" by (simp add: final1_def)
    then show ?thesis using assms(1) that False by (simp add: final_ok_def)
  qed
  show "final_ok (final1 @ [s\<lparr>sy_prev := prev, sy_next := -1\<rparr>]) (int (length final1))"
    using at assms(1,2) unfolding final_ok_def by (auto simp: len nth_append less_Suc_eq)
  have "map sym_str final1 = map sym_str final"
    unfolding final1_def by (simp add: update_same sym_str_def)
  then show "map sym_str (final1 @ [s\<lparr>sy_prev := prev, sy_next := -1\<rparr>]) = map sym_str final @ [sym_str s]"
    by (simp add: sym_str_def)
qed

lemma bpe_finish_ok:
  assumes "bpe_finish syms (final, prev) = (final', prev')" "final_ok final prev"
  shows "final_ok final' prev' \<and> map sym_str final' = map sym_str final @ map sym_str (filter (\<lambda>s. 0 < sy_n s) syms)"
  using assms
proof (induction syms arbitrary: final prev)
  case Nil
  then show ?case by simp
next
  case (Cons s syms)
  show ?case
  proof (cases "0 < sy_n s")
    case True
    note add = final_ok_add [OF Cons.prems(2) True]
    show ?thesis using Cons.IH [OF _ add(1)] Cons.prems(1) True add(2) by (simp add: Let_def)
  next
    case False
    then show ?thesis using Cons by simp
  qed
qed

lemma bpe_words_ok:
  assumes "\<forall>w \<in> set words. word_bytes w" "final_ok final prev"
  shows "\<exists>syms prev'. bpe_words v words (final, prev) = Some (Inr syms) \<and> final_ok syms prev' \<and>
    map sym_str syms = map sym_str final @ concat (map (bpe_word_pieces v) words)"
  using assms
proof (induction words arbitrary: final prev)
  case Nil
  then show ?case by auto
next
  case (Cons w ws)
  obtain syms where w: "bpe_word v w = Some (Inr syms)" "map sym_str (filter (\<lambda>s. 0 < sy_n s) syms) = bpe_word_pieces v w"
    using bpe_word_ok Cons.prems(1) by (metis list.set_intros(1))
  obtain final' prev' where f: "bpe_finish syms (final, prev) = (final', prev')" by fastforce
  note fin = bpe_finish_ok [OF f Cons.prems(2)]
  show ?case using Cons.IH [of final' prev'] Cons.prems(1) fin w f by auto
qed

lemma bpe_walk_ok:
  assumes "final_ok final prev" "i < length final"
  shows "bpe_walk v final (int i) out = Some (Inr (out @ concat (map (bpe_tokens v) (map sym_str (drop i final)))))"
  using assms(2)
proof (induction "length final - i" arbitrary: i out rule: less_induct)
  case less
  let ?out = "out @ bpe_tokens v (sym_str (final ! i))"
  have s: "0 < sy_n (final ! i)" "sy_next (final ! i) = (if Suc i = length final then -1 else int i + 1)"
    using assms(1) less.prems by (auto simp: final_ok_def)
  have step: "bpe_walk v final (int i) out = bpe_walk v final (sy_next (final ! i)) ?out"
    using less.prems s(1) by (subst bpe_walk.simps) (simp add: Let_def)
  have d: "drop i final = final ! i # drop (Suc i) final" using less.prems by (simp add: Cons_nth_drop_Suc)
  show ?case
  proof (cases "Suc i = length final")
    case True
    then show ?thesis unfolding step s(2) d by (subst bpe_walk.simps) simp
  next
    case False
    then have "bpe_walk v final (int (Suc i)) ?out =
        Some (Inr (?out @ concat (map (bpe_tokens v) (map sym_str (drop (Suc i) final)))))"
      using less.hyps [of "Suc i"] less.prems by simp
    then show ?thesis unfolding step s(2) d using False by (simp add: add.commute)
  qed
qed

theorem bpe_tokenize_pieces:
  assumes "split txt = Inr words" "\<forall>w \<in> set words. word_bytes w"
  shows "bpe_tokenize v split txt out =
    Some (Inr (out @ concat (map (bpe_tokens v) (concat (map (bpe_word_pieces v) words)))))"
proof -
  have "final_ok [] (-1)" by (simp add: final_ok_def)
  then obtain syms prev where s: "bpe_words v words ([], -1) = Some (Inr syms)" "final_ok syms prev"
    "map sym_str syms = concat (map (bpe_word_pieces v) words)"
    using bpe_words_ok [OF assms(2), of "[]" "-1" v] by auto
  show ?thesis
  proof (cases "syms = []")
    case True
    then show ?thesis using s assms(1) by (simp add: bpe_tokenize_def)
  next
    case False
    then show ?thesis using bpe_walk_ok [OF s(2), of 0 v out] s assms(1) by (simp add: bpe_tokenize_def)
  qed
qed

subsection \<open>The byte alphabet\<close>

lemma byte_code_ge: "b < 256 \<Longrightarrow> 0x21 \<le> byte_code b"
  by (auto simp: byte_code_def byte_ranges_def)

lemma byte_to_utf8_some: "unicode_byte_to_utf8 b = Some s \<longleftrightarrow> b < 256 \<and> unicode_cpt_to_utf8 (byte_code b) = Some s"
proof (cases "b < 256")
  case True
  then show ?thesis by (simp add: byte_to_utf8)
next
  case False
  then have "unicode_byte_to_utf8 b = None"
    using byte_to_utf8_loop [of 256] byte_ranges_less [of b]
    by (auto simp: unicode_byte_to_utf8_def unicode_byte_to_utf8_map_def fold_map_set)
  then show ?thesis using False by simp
qed

text \<open>The code of a byte is one UTF-8 character, without spaces or line breaks.\<close>

lemma byte_utf8_char:
  assumes "unicode_byte_to_utf8 b = Some s"
  shows "word_bytes s" "s \<noteq> []" "unicode_len_utf8 (hd s) = length s"
proof -
  define c where "c = byte_code b"
  have c: "0x21 \<le> c" "c < 512" "unicode_cpt_to_utf8 c = Some s"
    using assms byte_code_ge byte_code_less by (auto simp: byte_to_utf8_some c_def)
  have "word_bytes s \<and> s \<noteq> [] \<and> unicode_len_utf8 (hd s) = length s"
  proof (cases "c \<le> 0x7f")
    case True
    then have "s = [c]" using c(3) by (simp add: cpt_to_utf8_arith)
    then show ?thesis using c(1) True unicode_len_ranges(1) [of c] by (simp add: word_bytes_def)
  next
    case False
    then have s: "s = [0xc0 + c div 64, 0x80 + c mod 64]" using c(2,3) by (simp add: cpt_to_utf8_arith)
    have "c div 64 < 8" "c mod 64 < 64" using c(2) by auto
    then show ?thesis using unicode_len_ranges(2) [of "0xc0 + c div 64"] by (auto simp: s word_bytes_def)
  qed
  then show "word_bytes s" "s \<noteq> []" "unicode_len_utf8 (hd s) = length s" by auto
qed

lemma encode_word: "encode_bytes bs = Some w \<Longrightarrow> word_bytes w"
proof (induction bs arbitrary: w)
  case (Cons b bs)
  then obtain s t where "unicode_byte_to_utf8 b = Some s" "encode_bytes bs = Some t" "w = s @ t"
    by (auto split: bind_splits)
  then show ?case using byte_utf8_char(1) [of b s] Cons.IH [of t] by (auto simp: word_bytes_def)
qed (simp add: word_bytes_def)

lemma encode_pieces: "encode_bytes bs = Some w \<Longrightarrow> utf8_pieces w = map (\<lambda>b. the (unicode_byte_to_utf8 b)) bs"
proof (induction bs arbitrary: w)
  case Nil
  then show ?case by (simp add: utf8_pieces.simps)
next
  case (Cons b bs)
  then obtain s t where s: "unicode_byte_to_utf8 b = Some s" "encode_bytes bs = Some t" "w = s @ t"
    by (auto split: bind_splits)
  note ch = byte_utf8_char [OF s(1)]
  have "hd w < 256" using ch(1,2) s(3) by (simp add: word_bytes_def)
  then show ?case
    using ch(2,3) s Cons.IH [OF s(2)] by (subst utf8_pieces.simps) simp
qed

lemma encode_code: "encode_bytes bs = Some w \<Longrightarrow> unicode_cpts_to_utf8 (map byte_code bs) = Some w"
  by (induction bs arbitrary: w) (auto simp: byte_to_utf8_some split: bind_splits)

lemma decode_codes:
  "\<forall>b \<in> set bs. b < 256 \<Longrightarrow> decode_cpts t (map byte_code bs) = Inr bs"
proof (induction bs)
  case (Cons b bs)
  obtain s where s: "unicode_byte_to_utf8 b = Some s" "unicode_utf8_to_byte s = Some b"
    using utf8_to_byte [of b] Cons.prems by auto
  then have "unicode_cpt_to_utf8 (byte_code b) = Some s" by (simp add: byte_to_utf8_some)
  then show ?case using s Cons by simp
qed simp

lemma encode_small: "encode_bytes bs = Some w \<Longrightarrow> \<forall>b \<in> set bs. b < 256"
  by (induction bs arbitrary: w) (auto simp: byte_to_utf8_some split: bind_splits)

lemma decode_encode: "encode_bytes bs = Some w \<Longrightarrow> llama_decode_text w = Inr bs"
  using cpts_from_utf8_encode [OF encode_code] decode_codes [OF encode_small] by (simp add: llama_decode_text_def)

lemma encode_inject_bytes: "encode_bytes xs = Some w \<Longrightarrow> encode_bytes ys = Some w \<Longrightarrow> xs = ys"
  using decode_encode [of xs w] decode_encode [of ys w] by simp

text \<open>Every word that the splitter returns is in the alphabet.\<close>

definition in_alphabet :: "byte list \<Rightarrow> bool" where
  "in_alphabet w \<longleftrightarrow> (\<exists>bs. encode_bytes bs = Some w)"

lemma in_alphabet_append: "in_alphabet a \<Longrightarrow> in_alphabet b \<Longrightarrow> in_alphabet (a @ b)"
proof -
  assume "in_alphabet a" "in_alphabet b"
  then obtain xs ys where "encode_bytes xs = Some a" "encode_bytes ys = Some b" by (auto simp: in_alphabet_def)
  then have "encode_bytes (xs @ ys) = Some (a @ b)" by (simp add: encode_bytes_append)
  then show ?thesis unfolding in_alphabet_def by blast
qed

lemma in_alphabet_concat: "\<forall>p \<in> set ps. in_alphabet p \<Longrightarrow> in_alphabet (concat ps)"
proof (induction ps)
  case Nil
  show ?case unfolding in_alphabet_def by (rule exI [of _ "[]"]) simp
qed (simp add: in_alphabet_append)

lemma encoding_process_alphabet: "unicode_byte_encoding_process ws = Inr r \<Longrightarrow> \<forall>w \<in> set r. in_alphabet w"
  by (induction ws arbitrary: r) (auto simp: in_alphabet_def)

lemma regex_split_alphabet:
  "unicode_regex_split regex wregex T cpt_flags txt exprs = Inr words \<Longrightarrow> \<forall>w \<in> set words. in_alphabet w"
  using encoding_process_alphabet by (fastforce simp: unicode_regex_split_def Let_def)

lemma alphabet_word: "in_alphabet w \<Longrightarrow> word_bytes w"
  using encode_word by (auto simp: in_alphabet_def)

subsection \<open>What the tokens spell\<close>

text \<open>A vocabulary for byte-level BPE: a plain token for every byte of the text and for every merge.\<close>

definition bpe_vocab :: "'s llama_vocab \<Rightarrow> byte list \<Rightarrow> bool" where
  "bpe_vocab v txt \<longleftrightarrow> vo_type v = Vocab_BPE \<and> vocab_ok v \<and>
     (\<forall>b \<in> set txt. map_of (vo_token_to_id v) (the (unicode_byte_to_utf8 b)) \<noteq> None) \<and>
     (\<forall>((a, b), r) \<in> set (vo_bpe_ranks v). map_of (vo_token_to_id v) (a @ b) \<noteq> None) \<and>
     (\<forall>d \<in> set (vo_id_to_token v). in_alphabet (td_text d) \<longrightarrow> plain_attr (td_attr d))"

lemma alphabet_token_spells:
  assumes "bpe_vocab v txt" "encode_bytes bs = Some p" "map_of (vo_token_to_id v) p \<noteq> None"
  shows "spelled v (bpe_tokens v p) = Inr bs"
proof -
  obtain t where t: "map_of (vo_token_to_id v) p = Some t" using assms(3) by auto
  then obtain i where i: "i < n_tokens v" "t = int i" "td_text (vo_id_to_token v ! i) = p"
    using assms(1) unfolding bpe_vocab_def vocab_ok_def by blast
  have "vo_id_to_token v ! i \<in> set (vo_id_to_token v)" using i(1) by (simp add: n_tokens_def)
  then have "plain_attr (td_attr (vo_id_to_token v ! i))"
    using assms(1,2) i(3) unfolding bpe_vocab_def in_alphabet_def by blast
  then have "whole_piece v t = Inr bs"
    using assms(1) i decode_encode [OF assms(2)] by (simp add: whole_piece_def plain_attr_def bpe_vocab_def Let_def)
  moreover have "token_of_text v p = t" "t \<noteq> LLAMA_TOKEN_NULL" using t i(2) by (simp_all add: token_of_text_def LLAMA_TOKEN_NULL_def)
  ultimately show ?thesis by (simp add: bpe_tokens_def)
qed

text \<open>The pieces of a word are tokens.\<close>

lemma bpe_key_rank: "bpe_key v a b = Some r \<Longrightarrow> ((a, b), r) \<in> set (vo_bpe_ranks v)"
  by (auto simp: bpe_key_def find_bpe_rank_def split: option.splits if_splits dest: map_of_SomeD)

lemma bpe_pieces_tokens:
  assumes "bpe_vocab v txt" "encode_bytes bs = Some w" "set bs \<subseteq> set txt"
  shows "\<forall>p \<in> set (bpe_word_pieces v w). in_alphabet p \<and> map_of (vo_token_to_id v) p \<noteq> None"
proof (cases "vo_ignore_merges v \<and> token_of_text v w \<noteq> LLAMA_TOKEN_NULL \<and> w \<noteq> []")
  case True
  then show ?thesis using assms(2) by (auto simp: bpe_word_pieces_def in_alphabet_def token_of_text_def split: option.splits)
next
  case False
  have "\<forall>p \<in> set (naive_merge (bpe_key v) (<) (utf8_pieces w)). in_alphabet p \<and> map_of (vo_token_to_id v) p \<noteq> None"
  proof (rule naive_merge_all)
    fix a b k
    assume "in_alphabet a \<and> map_of (vo_token_to_id v) a \<noteq> None" "in_alphabet b \<and> map_of (vo_token_to_id v) b \<noteq> None"
      "bpe_key v a b = Some k"
    then show "in_alphabet (a @ b) \<and> map_of (vo_token_to_id v) (a @ b) \<noteq> None"
      using assms(1) bpe_key_rank [of v a b k] unfolding bpe_vocab_def by (auto simp: in_alphabet_append)
  next
    have "in_alphabet (the (unicode_byte_to_utf8 b)) \<and> map_of (vo_token_to_id v) (the (unicode_byte_to_utf8 b)) \<noteq> None"
      if b: "b \<in> set bs" for b
    proof -
      have "b < 256" using encode_small [OF assms(2)] b by blast
      then obtain s where "unicode_byte_to_utf8 b = Some s" using utf8_to_byte by blast
      then have "encode_bytes [b] = Some (the (unicode_byte_to_utf8 b))" by simp
      moreover have "map_of (vo_token_to_id v) (the (unicode_byte_to_utf8 b)) \<noteq> None"
        using assms(1,3) b unfolding bpe_vocab_def by blast
      ultimately show ?thesis unfolding in_alphabet_def by blast
    qed
    then show "\<forall>p \<in> set (utf8_pieces w). in_alphabet p \<and> map_of (vo_token_to_id v) p \<noteq> None"
      by (auto simp: encode_pieces [OF assms(2)])
  qed
  then show ?thesis using False by (auto simp: bpe_word_pieces_def)
qed

lemma bpe_word_concat: "word_bytes w \<Longrightarrow> concat (bpe_word_pieces v w) = w"
  by (simp add: bpe_word_pieces_def naive_merge_concat utf8_pieces_concat word_bytes_def)

lemma pieces_spell:
  assumes "bpe_vocab v txt" "\<forall>p \<in> set ps. in_alphabet p \<and> map_of (vo_token_to_id v) p \<noteq> None"
    and "encode_bytes bs = Some (concat ps)"
  shows "spelled v (concat (map (bpe_tokens v) ps)) = Inr bs"
  using assms(2,3)
proof (induction ps arbitrary: bs)
  case Nil
  then have "bs = []" using decode_encode [of bs "[]"] decode_encode [of "[]" "[]"] by simp
  then show ?case by simp
next
  case (Cons p ps)
  obtain xs where xs: "encode_bytes xs = Some p" using Cons.prems(1) by (auto simp: in_alphabet_def)
  obtain ys where ys: "encode_bytes ys = Some (concat ps)"
    using in_alphabet_concat [of ps] Cons.prems(1) by (auto simp: in_alphabet_def)
  have "bs = xs @ ys" using encode_inject_bytes [OF Cons.prems(2), of "xs @ ys"] xs ys by (simp add: encode_bytes_append)
  then show ?case
    using alphabet_token_spells [OF assms(1) xs] Cons.IH [OF _ ys] Cons.prems(1) by (simp add: spelled_append)
qed

theorem bpe_tokenize_spells:
  assumes "bpe_vocab v txt" "split txt = Inr words" "\<forall>w \<in> set words. in_alphabet w" "encode_bytes txt = Some (concat words)"
  shows "\<exists>ts. bpe_tokenize v split txt out = Some (Inr (out @ ts)) \<and> spelled v ts = Inr txt"
proof -
  have wb: "\<forall>w \<in> set words. word_bytes w" using assms(3) alphabet_word by blast
  have tokens: "\<forall>p \<in> set (concat (map (bpe_word_pieces v) words)). in_alphabet p \<and> map_of (vo_token_to_id v) p \<noteq> None"
  proof
    fix p assume "p \<in> set (concat (map (bpe_word_pieces v) words))"
    then obtain w where w: "w \<in> set words" "p \<in> set (bpe_word_pieces v w)" by auto
    then obtain bs where bs: "encode_bytes bs = Some w" using assms(3) by (auto simp: in_alphabet_def)
    obtain us vs where "words = us @ w # vs" using split_list [OF w(1)] by blast
    have "in_alphabet (concat us)" "in_alphabet (concat vs)"
      using assms(3) \<open>words = us @ w # vs\<close> by (auto intro!: in_alphabet_concat)
    then obtain xs ys where "encode_bytes xs = Some (concat us)" "encode_bytes ys = Some (concat vs)"
      by (auto simp: in_alphabet_def)
    then have "encode_bytes (xs @ bs @ ys) = Some (concat words)"
      using bs \<open>words = us @ w # vs\<close> by (simp add: encode_bytes_append)
    then have "txt = xs @ bs @ ys" using encode_inject_bytes assms(4) by blast
    then have "set bs \<subseteq> set txt" by auto
    then show "in_alphabet p \<and> map_of (vo_token_to_id v) p \<noteq> None"
      using bpe_pieces_tokens [OF assms(1) bs] w(2) by blast
  qed
  have "concat (concat (map (bpe_word_pieces v) words)) = concat words"
    using wb by (induction words) (simp_all add: bpe_word_concat)
  then have "spelled v (concat (map (bpe_tokens v) (concat (map (bpe_word_pieces v) words)))) = Inr txt"
    using pieces_spell [OF assms(1) tokens] assms(4) by simp
  then show ?thesis using bpe_tokenize_pieces [of split "txt" words v out, OF assms(2) wb] by blast
qed

end
