(* ===== verification/TokSpm.thy ===== *)
theory TokSpm
  imports Vocab TokMerge
begin

text \<open>
  The SPM session of \<^verbatim>\<open>llama-vocab.cpp\<close>: the symbols of a text are merged by the scores of the tokens they
  form, and a symbol that is no token gives the tokens of its bytes. The session is the greedy merging of
  \<open>naive_merge\<close> and always returns; the way back through \<open>rev_merge\<close> is never taken. Scores have a linear order,
  which floats have when they are not NaN.
\<close>

subsection \<open>The session\<close>

type_synonym rev_merges = "(byte list \<times> (int \<times> int)) list"

definition spm_precedes :: "'s :: linorder llm_bigram \<Rightarrow> 's llm_bigram \<Rightarrow> bool" where
  "spm_precedes r l = (bg_key l < bg_key r \<or> bg_key l = bg_key r \<and> bg_left l > bg_left r)"

definition spm_stale :: "'s llm_bigram \<Rightarrow> llm_symbol \<Rightarrow> llm_symbol \<Rightarrow> bool" where
  "spm_stale bigram ls rs = (sy_n ls = 0 \<or> sy_n rs = 0 \<or> sy_n ls + sy_n rs \<noteq> bg_size bigram)"

text \<open>An entry holds no text. The token is compared as an unsigned number.\<close>

definition try_add_bigram :: "'s llama_vocab \<Rightarrow> ('s, rev_merges) merge_state \<Rightarrow> int \<Rightarrow> int \<Rightarrow> ('s, rev_merges) merge_state" where
  "try_add_bigram v st l r =
     (if l = -1 \<or> r = -1 then st
      else let txt = take (sy_n (symbol_at st l) + sy_n (symbol_at st r)) (sy_text (symbol_at st l));
               token = token_of_text v txt in
        if token = LLAMA_TOKEN_NULL then st
        else if token < 0 \<or> nat token \<ge> n_tokens v then st
        else st\<lparr>ms_queue := ms_queue st @
                  [\<lparr>bg_left = l, bg_right = r, bg_key = td_score (vo_id_to_token v ! nat token), bg_text = [],
                    bg_size = length txt\<rparr>],
                ms_log := AList.update txt (l, r) (ms_log st)\<rparr>)"

fun byte_tokens :: "'s llama_vocab \<Rightarrow> byte list \<Rightarrow> token_id list \<Rightarrow> vocab_error + token_id list" where
  "byte_tokens v [] out = Inr out"
| "byte_tokens v (b # bs) out = attempt (byte_to_token v b) (\<lambda>t. byte_tokens v bs (out @ [t]))"

partial_function (option) resegment ::
  "'s llama_vocab \<Rightarrow> rev_merges \<Rightarrow> llm_symbol list \<Rightarrow> llm_symbol \<Rightarrow> token_id list \<Rightarrow> (vocab_error + token_id list) option"
where
  "resegment v rev_merge syms s out =
     (let txt = sym_str s; token = token_of_text v txt in
      if token \<noteq> LLAMA_TOKEN_NULL then Some (Inr (out @ [token]))
      else case map_of rev_merge txt of
          None \<Rightarrow> Some (byte_tokens v txt out)
        | Some (a, b) \<Rightarrow>
            if a < 0 \<or> length syms \<le> nat a \<or> b < 0 \<or> length syms \<le> nat b then Some (Inl Bad_Access)
            else do {
              r \<leftarrow> resegment v rev_merge syms (syms ! nat a) out;
              (case r of Inl e \<Rightarrow> Some (Inl e) | Inr out1 \<Rightarrow> resegment v rev_merge syms (syms ! nat b) out1)
            })"

partial_function (option) spm_walk ::
  "'s llama_vocab \<Rightarrow> rev_merges \<Rightarrow> llm_symbol list \<Rightarrow> int \<Rightarrow> token_id list \<Rightarrow> (vocab_error + token_id list) option"
where
  "spm_walk v rev_merge syms i out =
     (if i = -1 then Some (Inr out)
      else if i < 0 \<or> length syms \<le> nat i then Some (Inl Bad_Access)
      else do {
        r \<leftarrow> resegment v rev_merge syms (syms ! nat i) out;
        (case r of Inl e \<Rightarrow> Some (Inl e) | Inr out1 \<Rightarrow> spm_walk v rev_merge syms (sy_next (syms ! nat i)) out1)
      })"

text \<open>The walk starts at symbol 0 in any case.\<close>

definition spm_tokenize :: "'s :: linorder llama_vocab \<Rightarrow> byte list \<Rightarrow> token_id list \<Rightarrow> (vocab_error + token_id list) option" where
  "spm_tokenize v txt out =
     do {
       st \<leftarrow> merge_loop (try_add_bigram v) spm_stale spm_precedes
              (seed_bigrams (try_add_bigram v) \<lparr>ms_symbols = init_symbols 0 txt, ms_queue = [], ms_log = []\<rparr>);
       spm_walk v (ms_log st) (ms_symbols st) 0 out
     }"

subsection \<open>A session of merging\<close>

definition spm_key :: "'s llama_vocab \<Rightarrow> byte list \<Rightarrow> byte list \<Rightarrow> 's option" where
  "spm_key v a b =
     (let token = token_of_text v (a @ b) in
      if token < 0 \<or> nat token \<ge> n_tokens v then None else Some (td_score (vo_id_to_token v ! nat token)))"

definition known_merges :: "'s llama_vocab \<Rightarrow> rev_merges \<Rightarrow> bool" where
  "known_merges v m \<longleftrightarrow> (\<forall>t. map_of m t \<noteq> None \<longrightarrow> token_of_text v t \<noteq> LLAMA_TOKEN_NULL)"

interpretation spm: merge_session "spm_key v" "(>)" "\<lambda>t. []" "\<lambda>t. True" "known_merges v"
  "try_add_bigram v" spm_stale spm_precedes
  for v :: "'s :: linorder llama_vocab"
proof
  fix st :: "('s, rev_merges) merge_state" and l r :: int
  show "ms_symbols (try_add_bigram v st l r) = ms_symbols st"
    by (simp add: try_add_bigram_def Let_def)
  show "known_merges v (ms_log (try_add_bigram v st l r))" if "known_merges v (ms_log st)"
    using that by (auto simp: try_add_bigram_def known_merges_def Let_def update_conv')
  show "ms_queue (try_add_bigram v st l r) =
      (case spm_key v (sym_str (symbol_at st l)) (sym_str (symbol_at st r)) of None \<Rightarrow> ms_queue st
       | Some k \<Rightarrow> ms_queue st @
           [\<lparr>bg_left = l, bg_right = r, bg_key = k, bg_text = [],
             bg_size = length (sym_str (symbol_at st l)) + length (sym_str (symbol_at st r))\<rparr>])"
    if "0 \<le> l" "0 \<le> r" "sy_text (symbol_at st r) = drop (sy_n (symbol_at st l)) (sy_text (symbol_at st l))"
  proof -
    note j = sym_str_join [OF that(3), symmetric]
    show ?thesis using that(1,2) unfolding try_add_bigram_def spm_key_def j
      by (auto simp: Let_def LLAMA_TOKEN_NULL_def)
  qed
qed (auto simp: bigram_precedes_def spm_precedes_def try_add_bigram_def spm_stale_def)

subsection \<open>The session is the greedy merging\<close>

text \<open>What becomes of the pieces: a token, or the tokens of the bytes.\<close>

fun spm_pieces :: "'s llama_vocab \<Rightarrow> byte list list \<Rightarrow> token_id list \<Rightarrow> vocab_error + token_id list" where
  "spm_pieces v [] out = Inr out"
| "spm_pieces v (p # ps) out =
     attempt (if token_of_text v p \<noteq> LLAMA_TOKEN_NULL then Inr (out @ [token_of_text v p]) else byte_tokens v p out)
       (spm_pieces v ps)"

lemma resegment_piece:
  "known_merges v m \<Longrightarrow> resegment v m syms s out =
     Some (if token_of_text v (sym_str s) \<noteq> LLAMA_TOKEN_NULL then Inr (out @ [token_of_text v (sym_str s)])
           else byte_tokens v (sym_str s) out)"
  by (subst resegment.simps) (auto simp: known_merges_def Let_def split: option.split)

lemma spm_walk_chain:
  assumes "chain_ok syms is" "known_merges v m" "i < length is"
  shows "spm_walk v m syms (int (is ! i)) out = Some (spm_pieces v (pieces syms (drop i is)) out)"
  using assms(3)
proof (induction "length is - i" arbitrary: i out rule: less_induct)
  case less
  have live: "is ! i < length syms" using assms(1) less.prems by (simp add: chain_ok_def)
  have nxt: "sy_next (syms ! (is ! i)) = (if Suc i = length is then -1 else int (is ! Suc i))"
  proof (cases "Suc i = length is")
    case True
    then have "is \<noteq> []" "length is - 1 = i" by auto
    then have "last is = is ! i" by (simp add: last_conv_nth)
    then show ?thesis using assms(1) True \<open>is \<noteq> []\<close> by (simp add: chain_ok_def)
  next
    case False
    then have "adj is (is ! i) (is ! Suc i)" using less.prems unfolding adj_nth by (intro exI [of _ i]) simp
    then show ?thesis using adj_linked [OF assms(1)] False by (auto simp: linked_def)
  qed
  have d: "drop i is = is ! i # drop (Suc i) is" using less.prems by (simp add: Cons_nth_drop_Suc)
  have step: "spm_walk v m syms (int (is ! i)) out =
      (case (if token_of_text v (sym_str (syms ! (is ! i))) \<noteq> LLAMA_TOKEN_NULL
             then Inr (out @ [token_of_text v (sym_str (syms ! (is ! i)))]) else byte_tokens v (sym_str (syms ! (is ! i))) out) of
         Inl e \<Rightarrow> Some (Inl e) | Inr out1 \<Rightarrow> spm_walk v m syms (sy_next (syms ! (is ! i))) out1)"
    using live by (subst spm_walk.simps) (simp add: resegment_piece [OF assms(2)])
  have rest: "spm_walk v m syms (sy_next (syms ! (is ! i))) out1 = Some (spm_pieces v (pieces syms (drop (Suc i) is)) out1)" for out1
  proof (cases "Suc i = length is")
    case True
    then show ?thesis unfolding nxt by (subst spm_walk.simps) (simp add: pieces_def)
  next
    case False
    then show ?thesis unfolding nxt using less.hyps [of "Suc i"] less.prems by simp
  qed
  show ?case unfolding step rest d by (simp add: pieces_def attempt_def split: sum.split)
qed

theorem spm_tokenize_pieces:
  assumes "\<forall>b \<in> set txt. b < 256" "txt \<noteq> []"
  shows "spm_tokenize v txt out = Some (spm_pieces v (naive_merge (spm_key v) (>) (utf8_pieces txt)) out)"
proof -
  have "init_symbols 0 txt \<noteq> []" using init_symbols_step(1) [OF assms, of 0] by simp
  moreover have "known_merges v []" by (simp add: known_merges_def)
  ultimately obtain st "is" where st: "merge_loop (try_add_bigram v) spm_stale spm_precedes
      (seed_bigrams (try_add_bigram v) \<lparr>ms_symbols = init_symbols 0 txt, ms_queue = [], ms_log = []\<rparr>) = Some st"
    "chain_ok (ms_symbols st) is" "known_merges v (ms_log st)" "is \<noteq> []" "hd is = 0"
    "pieces (ms_symbols st) is = naive_merge (spm_key v) (>) (map sym_str (init_symbols 0 txt))"
    using spm.session_naive [OF init_symbols_chain [OF assms(1)], of v "[]"] by auto
  have "spm_walk v (ms_log st) (ms_symbols st) 0 out = Some (spm_pieces v (pieces (ms_symbols st) is) out)"
    using spm_walk_chain [OF st(2,3), of 0 out] st(4,5) by (simp add: hd_conv_nth)
  then show ?thesis using st(1,6) by (simp add: spm_tokenize_def init_symbols_pieces [OF assms(1)])
qed

subsection \<open>What the tokens spell\<close>

text \<open>A UTF-8 character by its bytes.\<close>

definition char_ok :: "byte list \<Rightarrow> bool" where
  "char_ok c \<longleftrightarrow> c \<noteq> [] \<and> hd c < 256 \<and> (hd c < 128 \<or> 192 \<le> hd c) \<and> unicode_len_utf8 (hd c) = length c \<and>
     (\<forall>b \<in> set (tl c). 128 \<le> b \<and> b < 192)"

lemma char_ok_Cons: "char_ok c \<Longrightarrow> \<exists>b bs. c = b # bs"
  by (cases c) (simp_all add: char_ok_def)

lemma cpt_char:
  assumes "unicode_cpt_to_utf8 cpt = Some c"
  shows "char_ok c"
proof -
  have d: "cpt \<le> 0x7ff \<Longrightarrow> cpt div 64 < 32" "cpt \<le> 0xffff \<Longrightarrow> cpt div 4096 < 16" "cpt \<le> 0x10ffff \<Longrightarrow> cpt div 262144 < 8"
    by auto
  consider "cpt \<le> 0x7f" "c = [cpt]" | "cpt \<le> 0x7ff" "c = [0xc0 + cpt div 64, 0x80 + cpt mod 64]"
    | "cpt \<le> 0xffff" "c = [0xe0 + cpt div 4096, 0x80 + cpt div 64 mod 64, 0x80 + cpt mod 64]"
    | "cpt \<le> 0x10ffff" "c = [0xf0 + cpt div 262144, 0x80 + cpt div 4096 mod 64, 0x80 + cpt div 64 mod 64, 0x80 + cpt mod 64]"
    using assms by (auto simp: cpt_to_utf8_arith split: if_splits)
  then show ?thesis
  proof cases
    case 1
    then show ?thesis by (simp add: char_ok_def unicode_len_ranges)
  next
    case 2
    then show ?thesis using d(1) by (simp add: char_ok_def unicode_len_ranges)
  next
    case 3
    then show ?thesis using d(2) by (simp add: char_ok_def unicode_len_ranges)
  next
    case 4
    then show ?thesis using d(3) by (simp add: char_ok_def unicode_len_ranges)
  qed
qed

definition chars_ok :: "byte list list \<Rightarrow> bool" where
  "chars_ok cs \<longleftrightarrow> (\<forall>c \<in> set cs. char_ok c)"

lemma utf8_chars: "unicode_cpts_to_utf8 cps = Some txt \<Longrightarrow> \<exists>cs. chars_ok cs \<and> txt = concat cs"
proof (induction cps arbitrary: "txt")
  case Nil
  then show ?case by (intro exI [of _ "[]"]) (simp add: chars_ok_def)
next
  case (Cons c cps)
  then obtain b bs where b: "unicode_cpt_to_utf8 c = Some b" "unicode_cpts_to_utf8 cps = Some bs" "txt = b @ bs"
    by (auto split: bind_splits)
  obtain cs where "chars_ok cs" "bs = concat cs" using Cons.IH [OF b(2)] by blast
  then show ?case using cpt_char [OF b(1)] b(3) by (intro exI [of _ "b # cs"]) (simp add: chars_ok_def)
qed

lemma chars_bytes: "chars_ok cs \<Longrightarrow> \<forall>b \<in> set (concat cs). b < 256"
proof (intro ballI)
  fix b assume cs: "chars_ok cs" "b \<in> set (concat cs)"
  then obtain c where c: "char_ok c" "b \<in> set c" by (auto simp: chars_ok_def)
  then have "b = hd c \<or> b \<in> set (tl c)" by (cases c) auto
  then show "b < 256" using c(1) by (auto simp: char_ok_def)
qed

lemma utf8_pieces_chars: "chars_ok cs \<Longrightarrow> utf8_pieces (concat cs) = cs"
proof (induction cs)
  case Nil
  then show ?case by (simp add: utf8_pieces.simps)
next
  case (Cons c cs)
  then have c: "char_ok c" by (simp add: chars_ok_def)
  then have "c \<noteq> []" "hd c < 256" "unicode_len_utf8 (hd c) = length c" by (simp_all add: char_ok_def)
  then show ?case using Cons by (subst utf8_pieces.simps) (simp add: chars_ok_def)
qed

lemma escaped_space_char: "char_ok escaped_space"
  using unicode_len_ranges(3) [of 226] by (simp add: char_ok_def escaped_space_def)

lemma space_char: "char_ok [32]"
  by (simp add: char_ok_def unicode_len_ranges)

text \<open>Both ways of the white space act character by character.\<close>

lemma escape_chars:
  assumes "chars_ok cs"
  shows "llama_escape_whitespace (concat cs) = concat (map (\<lambda>c. if c = [32] then escaped_space else c) cs)"
proof -
  have "concat (map (\<lambda>b. if b = 32 then escaped_space else [b]) c) = (if c = [32] then escaped_space else c)" if "char_ok c" for c
  proof (cases "c = [32]")
    case False
    obtain b bs where c: "c = b # bs" using char_ok_Cons [OF \<open>char_ok c\<close>] by blast
    have "b \<noteq> 32"
    proof
      assume "b = 32"
      then show False using that False c unicode_len_ranges(1) [of 32] by (simp add: char_ok_def)
    qed
    moreover have "32 \<notin> set bs" using that c by (auto simp: char_ok_def)
    ultimately have e: "map (\<lambda>b. if b = 32 then escaped_space else [b]) c = map (\<lambda>b. [b]) c"
      using c by (intro map_cong) auto
    show ?thesis unfolding e using False by simp
  qed simp
  then show ?thesis using assms unfolding escape_concat chars_ok_def by (induction cs) simp_all
qed

lemma unescape_cont: "\<forall>b \<in> set bs. b \<noteq> 0xe2 \<Longrightarrow> llama_unescape_whitespace (bs @ s) = bs @ llama_unescape_whitespace s"
  by (induction bs) (simp_all add: unescape_Cons escaped_space_def)

lemma unescape_char:
  assumes "char_ok c"
  shows "llama_unescape_whitespace (c @ s) = (if c = escaped_space then [32] else c) @ llama_unescape_whitespace s"
proof -
  obtain b bs where c: "c = b # bs" using char_ok_Cons [OF assms] by blast
  have rest: "llama_unescape_whitespace (bs @ s) = bs @ llama_unescape_whitespace s"
    by (rule unescape_cont) (use assms c in \<open>auto simp: char_ok_def\<close>)
  show ?thesis
  proof (cases "b = 0xe2")
    case True
    then have len: "length c = 3" using assms c unicode_len_ranges(3) [of 226] by (simp add: char_ok_def)
    then have "take 3 (c @ s) = c" "drop 3 (c @ s) = s" by simp_all
    then show ?thesis using unescape_Cons [of b "bs @ s"] rest c by simp
  next
    case False
    then have "take 3 (c @ s) \<noteq> escaped_space" "c \<noteq> escaped_space" using c by (simp_all add: escaped_space_def)
    then show ?thesis using unescape_Cons [of b "bs @ s"] rest c by simp
  qed
qed

lemma unescape_chars:
  "chars_ok cs \<Longrightarrow> llama_unescape_whitespace (concat cs) = concat (map (\<lambda>c. if c = escaped_space then [32] else c) cs)"
proof (induction cs)
  case Nil
  then show ?case by (simp add: llama_unescape_whitespace_def replace_all_Nil escaped_space_len)
next
  case (Cons c cs)
  then show ?case using unescape_char [of c "concat cs"] by (simp add: chars_ok_def)
qed

text \<open>Texts of whole characters.\<close>

definition whole_chars :: "byte list \<Rightarrow> bool" where
  "whole_chars p \<longleftrightarrow> (\<exists>cs. chars_ok cs \<and> p = concat cs)"

lemma whole_chars_append: "whole_chars a \<Longrightarrow> whole_chars b \<Longrightarrow> whole_chars (a @ b)"
proof -
  assume "whole_chars a" "whole_chars b"
  then obtain xs ys where "chars_ok (xs @ ys)" "a @ b = concat (xs @ ys)" unfolding whole_chars_def chars_ok_def by auto
  then show ?thesis unfolding whole_chars_def by blast
qed

lemma whole_chars_char: "char_ok c \<Longrightarrow> whole_chars c"
  unfolding whole_chars_def by (rule exI [of _ "[c]"]) (simp add: chars_ok_def)

lemma unescape_whole: "whole_chars p \<Longrightarrow> llama_unescape_whitespace (p @ s) = llama_unescape_whitespace p @ llama_unescape_whitespace s"
proof -
  assume "whole_chars p"
  then obtain cs where cs: "chars_ok cs" "p = concat cs" by (auto simp: whole_chars_def)
  have "llama_unescape_whitespace (concat cs @ s) = concat (map (\<lambda>c. if c = escaped_space then [32] else c) cs) @ llama_unescape_whitespace s"
    using cs(1) by (induction cs) (simp_all add: chars_ok_def unescape_char)
  then show ?thesis using unescape_chars [OF cs(1)] cs(2) by simp
qed

text \<open>
  A vocabulary for the round trip: a token for the escaped space, a byte token for every byte of the text, and
  no token that merging reaches is special or a byte token.
\<close>

definition formable :: "'s llama_vocab \<Rightarrow> byte list \<Rightarrow> bool" where
  "formable v p \<longleftrightarrow> char_ok p \<or> map_of (vo_token_to_id v) p \<noteq> None"

definition spm_vocab :: "'s llama_vocab \<Rightarrow> byte list \<Rightarrow> bool" where
  "spm_vocab v txt \<longleftrightarrow> vo_type v = Vocab_SPM \<and> vocab_ok v \<and> map_of (vo_token_to_id v) escaped_space \<noteq> None \<and>
     (\<forall>b \<in> set txt. \<exists>i < n_tokens v. td_text (vo_id_to_token v ! i) = hex_name b \<and> td_attr (vo_id_to_token v ! i) = ATTR_BYTE) \<and>
     (\<forall>d \<in> set (vo_id_to_token v). \<not> plain_attr (td_attr d) \<longrightarrow>
        \<not> char_ok (td_text d) \<and> (\<forall>a b. td_text d = a @ b \<longrightarrow> \<not> (formable v a \<and> formable v b)))"

definition spm_piece :: "'s llama_vocab \<Rightarrow> byte list \<Rightarrow> byte list \<Rightarrow> bool" where
  "spm_piece v txt p \<longleftrightarrow> whole_chars p \<and>
     (case map_of (vo_token_to_id v) p of
        None \<Rightarrow> char_ok p \<and> p \<noteq> escaped_space \<and> set p \<subseteq> set txt
      | Some t \<Rightarrow> plain_attr (td_attr (vo_id_to_token v ! nat t)))"

lemma spm_piece_token:
  assumes "spm_vocab v txt" "whole_chars p" "map_of (vo_token_to_id v) p = Some t"
    and "char_ok p \<or> (\<exists>a b. p = a @ b \<and> formable v a \<and> formable v b)"
  shows "spm_piece v txt p"
proof -
  obtain i where i: "i < n_tokens v" "t = int i" "td_text (vo_id_to_token v ! i) = p"
    using assms(1,3) unfolding spm_vocab_def vocab_ok_def by blast
  have "vo_id_to_token v ! i \<in> set (vo_id_to_token v)" using i(1) by (simp add: n_tokens_def)
  then have "plain_attr (td_attr (vo_id_to_token v ! i))"
    using assms(1,4) i(3) unfolding spm_vocab_def by metis
  then show ?thesis using assms(2,3) i(2) by (simp add: spm_piece_def)
qed

lemma spm_piece_formable: "spm_piece v txt p \<Longrightarrow> formable v p"
  by (auto simp: spm_piece_def formable_def split: option.splits)

lemma spm_piece_merge:
  assumes "spm_vocab v txt" "spm_piece v txt a" "spm_piece v txt b" "spm_key v a b = Some k"
  shows "spm_piece v txt (a @ b)"
proof -
  obtain t where "map_of (vo_token_to_id v) (a @ b) = Some t"
    using assms(4) by (auto simp: spm_key_def token_of_text_def LLAMA_TOKEN_NULL_def Let_def split: option.splits if_splits)
  moreover have "whole_chars (a @ b)" using assms(2,3) by (intro whole_chars_append) (simp_all add: spm_piece_def)
  ultimately show ?thesis
    using spm_piece_token [OF assms(1)] spm_piece_formable [OF assms(2)] spm_piece_formable [OF assms(3)] by blast
qed

lemma spm_piece_char:
  assumes "spm_vocab v txt" "char_ok c" "c = escaped_space \<or> set c \<subseteq> set txt"
  shows "spm_piece v txt c"
proof (cases "map_of (vo_token_to_id v) c")
  case None
  then show ?thesis using assms whole_chars_char [OF assms(2)] by (auto simp: spm_piece_def spm_vocab_def)
next
  case (Some t)
  then show ?thesis using spm_piece_token [OF assms(1) whole_chars_char [OF assms(2)] Some] assms(2) by blast
qed

lemma byte_tokens_spell:
  assumes "spm_vocab v txt" "set bs \<subseteq> set txt" "\<forall>b \<in> set bs. b < 256"
  shows "\<exists>ts. byte_tokens v bs out = Inr (out @ ts) \<and> spelled v ts = Inr bs"
  using assms(2,3)
proof (induction bs arbitrary: out)
  case Nil
  then show ?case by (intro exI [of _ "[]"]) simp
next
  case (Cons b bs)
  obtain i where i: "i < n_tokens v" "td_text (vo_id_to_token v ! i) = hex_name b" "td_attr (vo_id_to_token v ! i) = ATTR_BYTE"
    using assms(1) Cons.prems(1) unfolding spm_vocab_def by (meson list.set_intros(1) subsetD)
  have "map_of (vo_token_to_id v) (hex_name b) = Some (int i)"
    using assms(1) i unfolding spm_vocab_def vocab_ok_def by blast
  moreover have "token_has v (int i) ATTR_BYTE" using i(3) by (simp add: token_has_def attr_bits)
  ultimately have t: "byte_to_token v b = Inr (int i)" "token_to_byte v (int i) = Inr b"
    using token_of_byte [of v b "int i"] assms(1) Cons.prems(2) by (auto simp: spm_vocab_def)
  have "whole_piece v (int i) = Inr [b]"
    using assms(1) i(3) t(2) by (simp add: whole_piece_def spm_vocab_def Let_def attr_bits ATTR_special_def)
  moreover obtain ts where "byte_tokens v bs (out @ [int i]) = Inr ((out @ [int i]) @ ts)" "spelled v ts = Inr bs"
    using Cons.IH [of "out @ [int i]"] Cons.prems by auto
  ultimately show ?case using t(1) by (intro exI [of _ "int i # ts"]) simp
qed

lemma spm_piece_spells:
  assumes "spm_vocab v txt" "spm_piece v txt p"
  shows "\<exists>ts. (if token_of_text v p \<noteq> LLAMA_TOKEN_NULL then Inr (out @ [token_of_text v p]) else byte_tokens v p out) = Inr (out @ ts)
    \<and> spelled v ts = Inr (llama_unescape_whitespace p)"
proof (cases "map_of (vo_token_to_id v) p")
  case None
  then have p: "char_ok p" "p \<noteq> escaped_space" "set p \<subseteq> set txt" using assms(2) by (auto simp: spm_piece_def)
  have "\<forall>b \<in> set p. b < 256" using chars_bytes [of "[p]"] p(1) by (simp add: chars_ok_def)
  moreover have "llama_unescape_whitespace p = p"
    using unescape_char [OF p(1), of "[]"] p(2) by (simp add: llama_unescape_whitespace_def replace_all_Nil escaped_space_len)
  ultimately show ?thesis
    using byte_tokens_spell [OF assms(1) p(3), of out] None by (simp add: token_of_text_def)
next
  case (Some t)
  then obtain i where i: "i < n_tokens v" "t = int i" "td_text (vo_id_to_token v ! i) = p"
    using assms(1) unfolding spm_vocab_def vocab_ok_def by blast
  have "plain_attr (td_attr (vo_id_to_token v ! i))" using assms(2) Some i(2) by (simp add: spm_piece_def)
  then have "whole_piece v t = Inr (llama_unescape_whitespace p)"
    using assms(1) i by (simp add: whole_piece_def plain_attr_def spm_vocab_def Let_def)
  moreover have "token_of_text v p = t" "t \<noteq> LLAMA_TOKEN_NULL" using Some i(2) by (simp_all add: token_of_text_def LLAMA_TOKEN_NULL_def)
  ultimately show ?thesis by (intro exI [of _ "[t]"]) simp
qed

lemma spm_pieces_spell:
  assumes "spm_vocab v txt"
  shows "\<forall>p \<in> set ps. spm_piece v txt p \<Longrightarrow>
    \<exists>ts. spm_pieces v ps out = Inr (out @ ts) \<and> spelled v ts = Inr (llama_unescape_whitespace (concat ps))"
proof (induction ps arbitrary: out)
  case Nil
  then show ?case by (intro exI [of _ "[]"]) (simp add: llama_unescape_whitespace_def replace_all_Nil escaped_space_len)
next
  case (Cons p ps)
  obtain ts where ts: "(if token_of_text v p \<noteq> LLAMA_TOKEN_NULL then Inr (out @ [token_of_text v p]) else byte_tokens v p out) = Inr (out @ ts)"
    "spelled v ts = Inr (llama_unescape_whitespace p)"
    using spm_piece_spells [OF assms, of p out] Cons.prems by auto
  obtain us where us: "spm_pieces v ps (out @ ts) = Inr ((out @ ts) @ us)" "spelled v us = Inr (llama_unescape_whitespace (concat ps))"
    using Cons.IH [of "out @ ts"] Cons.prems by auto
  have "whole_chars p" using Cons.prems by (simp add: spm_piece_def)
  then show ?case using ts us by (intro exI [of _ "ts @ us"]) (simp add: spelled_append unescape_whole)
qed

theorem spm_tokenize_spells:
  assumes "spm_vocab v txt" "unicode_cpts_to_utf8 cps = Some txt" "find_sub escaped_space txt = None" "txt \<noteq> []"
  shows "\<exists>ts. spm_tokenize v (llama_escape_whitespace txt) out = Some (Inr (out @ ts)) \<and> spelled v ts = Inr txt"
proof -
  obtain cs where cs: "chars_ok cs" "txt = concat cs" using utf8_chars [OF assms(2)] by blast
  define es where "es = map (\<lambda>c. if c = [32] then escaped_space else c) cs"
  have es: "llama_escape_whitespace txt = concat es" using escape_chars [OF cs(1)] cs(2) by (simp add: es_def)
  have es_ok: "chars_ok es" using cs(1) by (auto simp: chars_ok_def es_def escaped_space_char)
  have "concat es \<noteq> []" using cs assms(4) by (cases cs) (auto simp: es_def escaped_space_len chars_ok_def char_ok_def)
  then have tok: "spm_tokenize v (concat es) out = Some (spm_pieces v (naive_merge (spm_key v) (>) es) out)"
    using spm_tokenize_pieces [OF chars_bytes [OF es_ok]] utf8_pieces_chars [OF es_ok] by simp
  have "\<forall>p \<in> set es. spm_piece v txt p"
    using spm_piece_char [OF assms(1)] es_ok cs by (auto simp: chars_ok_def es_def)
  then have "\<forall>p \<in> set (naive_merge (spm_key v) (>) es). spm_piece v txt p"
    by (rule naive_merge_all [rotated]) (rule spm_piece_merge [OF assms(1)])
  then obtain ts where "spm_pieces v (naive_merge (spm_key v) (>) es) out = Inr (out @ ts)"
    "spelled v ts = Inr (llama_unescape_whitespace (concat es))"
    using spm_pieces_spell [OF assms(1)] by (metis naive_merge_concat)
  then show ?thesis using tok unescape_escape [OF assms(3)] by (simp add: es)
qed

end
