(* ===== verification/TokGreedy.thy ===== *)
theory TokGreedy
  imports Vocab "HOL-Library.Sublist"
begin

text \<open>
  The tries of \<^verbatim>\<open>llama-vocab.cpp\<close>, and the RWKV session, which takes the longest token at each position. Lookups
  after insertions; with a token for every byte of the text the session is the greedy longest match and spells
  the text, without one it may never return.
\<close>

subsection \<open>Tries\<close>

text \<open>The children are a \<open>std::map\<close>: an association list.\<close>

datatype naive_trie = Naive_Trie (tr_children: "(byte \<times> naive_trie) list") (tr_has_value: bool) (tr_value: token_id)

definition empty_trie :: naive_trie where
  "empty_trie = Naive_Trie [] False 0"

fun trie_insert :: "byte list \<Rightarrow> token_id \<Rightarrow> naive_trie \<Rightarrow> naive_trie" where
  "trie_insert [] x (Naive_Trie cs h y) = Naive_Trie cs True x"
| "trie_insert (c # key) x (Naive_Trie cs h y) =
     Naive_Trie (AList.update c (trie_insert key x (case map_of cs c of Some t \<Rightarrow> t | None \<Rightarrow> empty_trie)) cs) h y"

definition traverse :: "naive_trie \<Rightarrow> byte \<Rightarrow> naive_trie option" where
  "traverse t c = map_of (tr_children t) c"

fun get_longest_prefix :: "naive_trie \<Rightarrow> byte list \<Rightarrow> nat" where
  "get_longest_prefix t [] = 0"
| "get_longest_prefix t (c # key) = (case traverse t c of None \<Rightarrow> 0 | Some t' \<Rightarrow> Suc (get_longest_prefix t' key))"

text \<open>The node at the end of a path, and its value.\<close>

fun trie_node :: "naive_trie \<Rightarrow> byte list \<Rightarrow> naive_trie option" where
  "trie_node t [] = Some t"
| "trie_node t (c # key) = (case traverse t c of None \<Rightarrow> None | Some t' \<Rightarrow> trie_node t' key)"

definition trie_lookup :: "naive_trie \<Rightarrow> byte list \<Rightarrow> token_id option" where
  "trie_lookup t key = (case trie_node t key of None \<Rightarrow> None | Some n \<Rightarrow> if tr_has_value n then Some (tr_value n) else None)"

lemma trie_node_append: "trie_node t (xs @ ys) = (case trie_node t xs of None \<Rightarrow> None | Some n \<Rightarrow> trie_node n ys)"
  by (induction xs arbitrary: t) (auto split: option.split)

lemma traverse_insert:
  "traverse (trie_insert (c # key) x t) d =
     (if d = c then Some (trie_insert key x (case traverse t c of Some t' \<Rightarrow> t' | None \<Rightarrow> empty_trie)) else traverse t d)"
  by (cases t) (simp add: traverse_def update_conv')

lemma trie_lookup_empty [simp]: "trie_lookup empty_trie key = None"
  by (cases key) (simp_all add: trie_lookup_def empty_trie_def traverse_def)

lemma trie_lookup_Cons: "trie_lookup t (c # key) = (case traverse t c of None \<Rightarrow> None | Some t' \<Rightarrow> trie_lookup t' key)"
  by (simp add: trie_lookup_def split: option.split)

lemma trie_lookup_insert: "trie_lookup (trie_insert key x t) key' = (if key' = key then Some x else trie_lookup t key')"
proof (induction key arbitrary: t key')
  case Nil
  obtain cs h y where "t = Naive_Trie cs h y" by (cases t)
  then show ?case by (cases key') (simp_all add: trie_lookup_def traverse_def)
next
  case (Cons c key)
  have root: "trie_lookup (trie_insert (c # key) x t) [] = trie_lookup t []"
    by (cases t) (simp add: trie_lookup_def)
  show ?case
  proof (cases key')
    case Nil
    then show ?thesis using root by simp
  next
    case (Cons d key2)
    then show ?thesis using Cons.IH by (auto simp: trie_lookup_Cons traverse_insert split: option.split)
  qed
qed

text \<open>A node exists where a key goes on.\<close>

lemma trie_node_insert: "trie_node (trie_insert key x t) p \<noteq> None \<longleftrightarrow> trie_node t p \<noteq> None \<or> prefix p key"
proof (induction key arbitrary: t p)
  case Nil
  obtain cs h y where "t = Naive_Trie cs h y" by (cases t)
  then show ?case by (cases p) (simp_all add: traverse_def)
next
  case (Cons c key)
  have empty: "trie_node empty_trie q \<noteq> None \<longleftrightarrow> q = []" for q
    by (cases q) (simp_all add: empty_trie_def traverse_def)
  show ?case
  proof (cases p)
    case Nil
    then show ?thesis by simp
  next
    case (Cons d q)
    then show ?thesis using Cons.IH empty by (auto simp: traverse_insert split: option.split)
  qed
qed

lemma trie_node_insert_None: "trie_node (trie_insert key x t) p = None \<longleftrightarrow> trie_node t p = None \<and> \<not> prefix p key"
  using trie_node_insert [of key x t p] by blast

text \<open>Many insertions: the last one of a key counts.\<close>

definition trie_of :: "(byte list \<times> token_id) list \<Rightarrow> naive_trie" where
  "trie_of kvs = fold (\<lambda>(k, x). trie_insert k x) kvs empty_trie"

lemma trie_of_lookup: "trie_lookup (trie_of kvs) key = map_of (rev kvs) key"
proof -
  have "trie_lookup (fold (\<lambda>(k, x). trie_insert k x) kvs t) key = (case map_of (rev kvs) key of Some x \<Rightarrow> Some x | None \<Rightarrow> trie_lookup t key)" for t
    by (induction kvs arbitrary: t) (auto simp: trie_lookup_insert map_add_Some_iff split: option.split)
  then show ?thesis by (simp add: trie_of_def split: option.split)
qed

lemma trie_of_node: "trie_node (trie_of kvs) p = None \<longleftrightarrow> p \<noteq> [] \<and> (\<forall>(k, x) \<in> set kvs. \<not> prefix p k)"
proof -
  have "trie_node (fold (\<lambda>(k, x). trie_insert k x) kvs t) p = None \<longleftrightarrow> trie_node t p = None \<and> (\<forall>(k, x) \<in> set kvs. \<not> prefix p k)" for t
    by (induction kvs arbitrary: t) (auto simp: trie_node_insert_None)
  moreover have "trie_node empty_trie p = None \<longleftrightarrow> p \<noteq> []" by (cases p) (simp_all add: empty_trie_def traverse_def)
  ultimately show ?thesis by (simp add: trie_of_def)
qed

lemma longest_prefix_node: "n \<le> length s \<Longrightarrow> n \<le> get_longest_prefix t s \<longleftrightarrow> trie_node t (take n s) \<noteq> None"
proof (induction t s arbitrary: n rule: get_longest_prefix.induct)
  case (2 t c key)
  then show ?case by (cases n) (auto split: option.split)
qed simp

subsection \<open>The RWKV session\<close>

definition rwkv_matcher :: "'s llama_vocab \<Rightarrow> naive_trie" where
  "rwkv_matcher v = trie_of (map (\<lambda>i. (llama_unescape_rwkv_token (td_text (vo_id_to_token v ! i)), int i)) [0..<n_tokens v])"

text \<open>\<open>std::string\<close> lets a read at its size through, and gives 0.\<close>

definition string_at :: "byte list \<Rightarrow> nat \<Rightarrow> byte option" where
  "string_at s i = (if i < length s then Some (s ! i) else if i = length s then Some 0 else None)"

lemma string_at_bound: "string_at s i = Some b \<Longrightarrow> i \<le> length s"
  by (simp add: string_at_def split: if_splits)

function rwkv_longest :: "byte list \<Rightarrow> naive_trie option \<Rightarrow> nat \<Rightarrow> token_id \<times> nat \<Rightarrow> vocab_error + (token_id \<times> nat)" where
  "rwkv_longest s None position best = Inr best"
| "rwkv_longest s (Some node) position best =
     (let best1 = (if tr_has_value node then (tr_value node, position + 1) else best) in
      case string_at s (position + 1) of
        None \<Rightarrow> Inl Bad_Access
      | Some c \<Rightarrow> rwkv_longest s (traverse node c) (position + 1) best1)"
  by pat_completeness auto
termination
  by (relation "measure (\<lambda>(s, node, position, best). Suc (length s) - position)") (auto dest: string_at_bound)

partial_function (option) rwkv_tokenize_from ::
  "'s llama_vocab \<Rightarrow> naive_trie \<Rightarrow> byte list \<Rightarrow> nat \<Rightarrow> token_id list \<Rightarrow> (vocab_error + token_id list) option"
where
  "rwkv_tokenize_from v matcher s position out =
     (if position < length s then
        (case traverse matcher (s ! position) of
           None \<Rightarrow> rwkv_tokenize_from v matcher s (position + 1) (out @ [vo_unk_id v])
         | Some node \<Rightarrow>
             (case rwkv_longest s (Some node) position (0, 0) of
                Inl e \<Rightarrow> Some (Inl e)
              | Inr (token_id, token_length) \<Rightarrow> rwkv_tokenize_from v matcher s token_length (out @ [token_id])))
      else Some (Inr out))"

definition rwkv_tokenize :: "'s llama_vocab \<Rightarrow> byte list \<Rightarrow> token_id list \<Rightarrow> (vocab_error + token_id list) option" where
  "rwkv_tokenize v s out = rwkv_tokenize_from v (rwkv_matcher v) s 0 out"

subsection \<open>Greedy matching\<close>

text \<open>
  The lengths of the tokens that a text begins with, for a lookup \<open>lk\<close>, and the greedy tokens of a text:
  always the longest; \<open>None\<close> where no token begins.
\<close>

definition token_lengths :: "(byte list \<Rightarrow> token_id option) \<Rightarrow> byte list \<Rightarrow> nat list" where
  "token_lengths lk u = filter (\<lambda>m. lk (take m u) \<noteq> None) [1..<Suc (length u)]"

lemma token_lengths_mem: "m \<in> set (token_lengths lk u) \<longleftrightarrow> 1 \<le> m \<and> m \<le> length u \<and> lk (take m u) \<noteq> None"
  by (auto simp: token_lengths_def)

lemma token_lengths_last: "token_lengths lk u \<noteq> [] \<Longrightarrow>
  0 < last (token_lengths lk u) \<and> last (token_lengths lk u) \<le> length u \<and> lk (take (last (token_lengths lk u)) u) \<noteq> None"
  using last_in_set [of "token_lengths lk u"] unfolding token_lengths_mem by simp

function greedy_tokens :: "(byte list \<Rightarrow> token_id option) \<Rightarrow> byte list \<Rightarrow> token_id list option" where
  "greedy_tokens lk u =
     (if u = [] then Some []
      else if token_lengths lk u = [] then None
      else let m = last (token_lengths lk u) in map_option (\<lambda>ts. the (lk (take m u)) # ts) (greedy_tokens lk (drop m u)))"
  by auto
termination
proof (relation "measure (\<lambda>(lk, u). length u)")
  fix lk :: "byte list \<Rightarrow> token_id option" and u and m
  assume "u \<noteq> []" "token_lengths lk u \<noteq> []" "m = last (token_lengths lk u)"
  then show "((lk, drop m u), lk, u) \<in> measure (\<lambda>(lk, u). length u)"
    using token_lengths_last [of lk u] by auto
qed simp

declare greedy_tokens.simps [simp del]

text \<open>With a token for every byte it never fails.\<close>

lemma greedy_total:
  assumes "\<And>b. b \<in> set u \<Longrightarrow> lk [b] \<noteq> None"
  shows "\<exists>ts. greedy_tokens lk u = Some ts"
  using assms
proof (induction "length u" arbitrary: u rule: less_induct)
  case less
  show ?case
  proof (cases u)
    case Nil
    then show ?thesis by (simp add: greedy_tokens.simps)
  next
    case (Cons b u')
    then have "1 \<in> set (token_lengths lk u)" using less.prems [of b] unfolding token_lengths_mem by simp
    then have ne: "token_lengths lk u \<noteq> []" by auto
    define m where "m = last (token_lengths lk u)"
    have "0 < m" using token_lengths_last [OF ne] by (simp add: m_def)
    have "\<exists>ts. greedy_tokens lk (drop m u) = Some ts"
    proof (rule less.hyps)
      show "length (drop m u) < length u" using \<open>0 < m\<close> Cons by simp
      show "lk [c] \<noteq> None" if "c \<in> set (drop m u)" for c by (rule less.prems [OF in_set_dropD [OF that]])
    qed
    then obtain ts where "greedy_tokens lk (drop m u) = Some ts" by blast
    then show ?thesis using ne Cons by (subst greedy_tokens.simps) (simp add: m_def Let_def)
  qed
qed

text \<open>What the greedy tokens are, one by one.\<close>

lemma greedy_concat:
  assumes "\<And>k x. lk k = Some x \<Longrightarrow> spell x = k"
  shows "greedy_tokens lk u = Some ts \<Longrightarrow> concat (map spell ts) = u"
proof (induction "length u" arbitrary: u ts rule: less_induct)
  case less
  show ?case
  proof (cases "u = []")
    case True
    then show ?thesis using less.prems by (simp add: greedy_tokens.simps)
  next
    case False
    define m where "m = last (token_lengths lk u)"
    have ne: "token_lengths lk u \<noteq> []" using less.prems False by (subst (asm) greedy_tokens.simps) (auto split: if_splits)
    then obtain ts' where ts: "greedy_tokens lk (drop m u) = Some ts'" "ts = the (lk (take m u)) # ts'"
      using less.prems False by (subst (asm) greedy_tokens.simps) (auto simp: m_def Let_def)
    note last = token_lengths_last [OF ne, folded m_def]
    obtain x where x: "lk (take m u) = Some x" using last by auto
    have "concat (map spell ts') = drop m u" by (rule less.hyps [OF _ ts(1)]) (use last in auto)
    then show ?thesis using ts(2) x assms [OF x] by simp
  qed
qed

definition best_below :: "naive_trie \<Rightarrow> nat \<Rightarrow> byte list \<Rightarrow> nat \<Rightarrow> token_id \<times> nat" where
  "best_below t a u k =
     (let ms = filter (\<lambda>m. trie_lookup t (take m u) \<noteq> None) [1..<k] in
      if ms = [] then (0, 0) else (the (trie_lookup t (take (last ms) u)), a + last ms))"

lemma best_below_skip:
  assumes "\<And>m. k \<le> m \<Longrightarrow> m < l \<Longrightarrow> trie_lookup t (take m u) = None" "1 \<le> k" "k \<le> l"
  shows "best_below t a u l = best_below t a u k"
proof -
  have "[1..<l] = [1..<k] @ [k..<l]" using assms(2,3) upt_add_eq_append [of 1 k "l - k"] by simp
  then show ?thesis using assms(1) by (simp add: best_below_def)
qed

lemma best_below_Suc:
  assumes "1 \<le> k" "trie_node t (take k u) = Some node"
  shows "(if tr_has_value node then (tr_value node, a + k) else best_below t a u k) = best_below t a u (Suc k)"
  using assms by (auto simp: best_below_def trie_lookup_def)

lemma rwkv_longest_best:
  assumes nul: "\<And>p. trie_node t p \<noteq> None \<Longrightarrow> 0 \<notin> set (tl p)" and u: "u = drop a s"
  shows "1 \<le> k \<Longrightarrow> k \<le> length u \<Longrightarrow>
    rwkv_longest s (trie_node t (take k u)) (a + k - 1) (best_below t a u k) = Inr (best_below t a u (Suc (length u)))"
proof (induction "length u - k" arbitrary: k rule: less_induct)
  case less
  show ?case
  proof (cases "trie_node t (take k u)")
    case None
    have "trie_lookup t (take m u) = None" if "k \<le> m" for m
      using None trie_node_append [of t "take k u" "take (m - k) (drop k u)"] that
      by (simp add: trie_lookup_def flip: take_add)
    then have "best_below t a u (Suc (length u)) = best_below t a u k"
      by (intro best_below_skip) (use less.prems in auto)
    then show ?thesis using None by simp
  next
    case (Some node)
    note b = best_below_Suc [OF less.prems(1) Some, of a]
    have len: "length u = length s - a" "k \<le> length s - a" using u less.prems by auto
    have step: "rwkv_longest s (trie_node t (take k u)) (a + k - 1) (best_below t a u k) =
        (case string_at s (a + k) of None \<Rightarrow> Inl Bad_Access
         | Some c \<Rightarrow> rwkv_longest s (traverse node c) (a + k) (best_below t a u (Suc k)))"
    proof -
      have "a + k - 1 + 1 = a + k" using less.prems(1) by simp
      then show ?thesis unfolding Some rwkv_longest.simps Let_def by (simp only: b)
    qed
    show ?thesis
    proof (cases "k = length u")
      case True
      have "traverse node 0 = None"
      proof (rule ccontr)
        assume "traverse node 0 \<noteq> None"
        then have "trie_node t (take k u @ [0]) \<noteq> None" using Some by (simp add: trie_node_append split: option.split)
        from nul [OF this] show False using less.prems by (cases u) auto
      qed
      moreover have "a + k = length s" using True len less.prems by simp
      ultimately show ?thesis unfolding step using True by (simp add: string_at_def)
    next
      case False
      then have k: "k < length u" using less.prems(2) by simp
      then have at: "string_at s (a + k) = Some (u ! k)" using u len by (auto simp: string_at_def)
      have "traverse node (u ! k) = trie_node t (take (Suc k) u)"
        using Some k by (simp add: take_Suc_conv_app_nth trie_node_append split: option.split)
      then show ?thesis unfolding step at using less.hyps [of "Suc k"] k by simp
    qed
  qed
qed

text \<open>With a token for every byte the session is the greedy matching.\<close>

lemma rwkv_from_greedy:
  assumes nul: "\<And>p. trie_node t p \<noteq> None \<Longrightarrow> 0 \<notin> set (tl p)" and bytes: "\<And>b. b \<in> set s \<Longrightarrow> trie_lookup t [b] \<noteq> None"
  shows "a \<le> length s \<Longrightarrow> greedy_tokens (trie_lookup t) (drop a s) = Some ts \<Longrightarrow>
    rwkv_tokenize_from v t s a out = Some (Inr (out @ ts))"
proof (induction "length s - a" arbitrary: a out ts rule: less_induct)
  case less
  show ?case
  proof (cases "a = length s")
    case True
    then show ?thesis using less.prems(2)
      by (subst rwkv_tokenize_from.simps) (simp add: greedy_tokens.simps)
  next
    case False
    define u where "u = drop a s"
    have u: "u = s ! a # drop (Suc a) s" using False less.prems by (simp add: u_def Cons_nth_drop_Suc)
    have "trie_lookup t [s ! a] \<noteq> None" using bytes False less.prems by simp
    then obtain node where node: "traverse t (s ! a) = Some node" by (auto simp: trie_lookup_def split: option.splits)
    have "0 < length u" "take 1 u = [s ! a]" by (subst u; simp)+
    then have "1 \<in> set (token_lengths (trie_lookup t) u)"
      using \<open>trie_lookup t [s ! a] \<noteq> None\<close> unfolding token_lengths_mem by (simp add: Suc_le_eq)
    then have ne: "token_lengths (trie_lookup t) u \<noteq> []" by auto
    note last = token_lengths_last [OF ne]
    define m where "m = last (token_lengths (trie_lookup t) u)"
    have "trie_node t (take 1 u) = Some node" using node u by simp
    moreover have "best_below t a u 1 = (0, 0)" by (simp add: best_below_def)
    moreover have "rwkv_longest s (trie_node t (take 1 u)) (a + 1 - 1) (best_below t a u 1) = Inr (best_below t a u (Suc (length u)))"
      by (rule rwkv_longest_best [OF nul u_def]) (use u in simp_all)
    ultimately have "rwkv_longest s (Some node) a (0, 0) = Inr (best_below t a u (Suc (length u)))" by simp
    also have "best_below t a u (Suc (length u)) = (the (trie_lookup t (take m u)), a + m)"
      using ne by (simp add: best_below_def token_lengths_def m_def Let_def)
    finally have step: "rwkv_tokenize_from v t s a out = rwkv_tokenize_from v t s (a + m) (out @ [the (trie_lookup t (take m u))])"
      using False less.prems node by (subst rwkv_tokenize_from.simps) simp
    obtain ts' where ts: "greedy_tokens (trie_lookup t) (drop m u) = Some ts'" "ts = the (trie_lookup t (take m u)) # ts'"
      using less.prems(2) ne \<open>0 < length u\<close> unfolding u_def [symmetric]
      by (subst (asm) greedy_tokens.simps) (auto simp: m_def Let_def)
    have "rwkv_tokenize_from v t s (a + m) (out @ [the (trie_lookup t (take m u))]) =
        Some (Inr ((out @ [the (trie_lookup t (take m u))]) @ ts'))"
      by (rule less.hyps) (use last ts(1) less.prems in \<open>auto simp: m_def u_def add.commute\<close>)
    then show ?thesis unfolding step ts(2) by simp
  qed
qed

lemma rwkv_matcher_token:
  assumes "trie_lookup (rwkv_matcher v) p = Some x"
  obtains i where "i < n_tokens v" "x = int i" "llama_unescape_rwkv_token (td_text (vo_id_to_token v ! i)) = p"
  using assms map_of_SomeD by (fastforce simp: rwkv_matcher_def trie_of_lookup)

lemma rwkv_matcher_has:
  assumes "i < n_tokens v" "llama_unescape_rwkv_token (td_text (vo_id_to_token v ! i)) = k"
  shows "trie_lookup (rwkv_matcher v) k \<noteq> None"
proof -
  let ?f = "\<lambda>i. llama_unescape_rwkv_token (td_text (vo_id_to_token v ! i))"
  have "k \<in> ?f ` set [0..<n_tokens v]" using assms by (intro image_eqI [of _ _ i]) simp_all
  then have "k \<in> fst ` set (rev (map (\<lambda>i. (?f i, int i)) [0..<n_tokens v]))" by (simp add: image_image)
  then show ?thesis unfolding rwkv_matcher_def trie_of_lookup map_of_eq_None_iff by blast
qed

lemma rwkv_no_nul:
  assumes "\<forall>i < n_tokens v. 0 \<notin> set (tl (llama_unescape_rwkv_token (td_text (vo_id_to_token v ! i))))"
    and "trie_node (rwkv_matcher v) p \<noteq> None"
  shows "0 \<notin> set (tl p)"
proof (cases "p = []")
  case False
  then obtain i where i: "i < n_tokens v" "prefix p (llama_unescape_rwkv_token (td_text (vo_id_to_token v ! i)))"
    using assms(2) unfolding rwkv_matcher_def trie_of_node by auto
  then obtain q where "llama_unescape_rwkv_token (td_text (vo_id_to_token v ! i)) = p @ q" by (auto simp: prefix_def)
  moreover have "0 \<notin> set (tl (llama_unescape_rwkv_token (td_text (vo_id_to_token v ! i))))" using assms(1) i(1) by blast
  ultimately have "0 \<notin> set (tl (p @ q))" by simp
  then show ?thesis using False by (cases p) auto
qed simp

theorem rwkv_tokenize_greedy:
  assumes "\<forall>i < n_tokens v. 0 \<notin> set (tl (llama_unescape_rwkv_token (td_text (vo_id_to_token v ! i))))"
    and "\<forall>b \<in> set s. \<exists>i < n_tokens v. llama_unescape_rwkv_token (td_text (vo_id_to_token v ! i)) = [b]"
  shows "\<exists>ts. rwkv_tokenize v s out = Some (Inr (out @ ts)) \<and> greedy_tokens (trie_lookup (rwkv_matcher v)) s = Some ts"
proof -
  note nul = rwkv_no_nul [OF assms(1)]
  have bytes: "trie_lookup (rwkv_matcher v) [b] \<noteq> None" if b: "b \<in> set s" for b
  proof -
    obtain i where "i < n_tokens v" "llama_unescape_rwkv_token (td_text (vo_id_to_token v ! i)) = [b]"
      using assms(2) b by blast
    then show ?thesis by (rule rwkv_matcher_has)
  qed
  obtain ts where ts: "greedy_tokens (trie_lookup (rwkv_matcher v)) s = Some ts" 
    using greedy_total [of s "trie_lookup (rwkv_matcher v)"] bytes by blast
  then show ?thesis
    using rwkv_from_greedy [where a = 0 and ts = ts, OF nul bytes] by (auto simp: rwkv_tokenize_def)
qed

lemma spelled_concat: "(\<And>t. t \<in> set ts \<Longrightarrow> whole_piece v t = Inr (f t)) \<Longrightarrow> spelled v ts = Inr (concat (map f ts))"
  by (induction ts) simp_all

lemma greedy_spells:
  assumes "vo_type v = Vocab_RWKV" "greedy_tokens (trie_lookup (rwkv_matcher v)) s = Some ts"
  shows "spelled v ts = Inr s"
proof -
  let ?f = "\<lambda>t. llama_unescape_rwkv_token (td_text (vo_id_to_token v ! nat t))"
  have "?f x = k" if "trie_lookup (rwkv_matcher v) k = Some x" for k x
    by (rule rwkv_matcher_token [OF that]) simp
  then have "concat (map ?f ts) = s" using greedy_concat [OF _ assms(2), where spell = ?f] by blast
  then show ?thesis using spelled_concat [of ts v ?f] assms(1) by (simp add: whole_piece_def Let_def)
qed

text \<open>A text that goes into the trie without being a token's start starts over, for ever.\<close>

lemma rwkv_stuck:
  assumes "traverse t (s ! 0) = Some node" "s \<noteq> []" "rwkv_longest s (Some node) 0 (0, 0) = Inr (0, 0)"
  shows "rwkv_tokenize_from v t s 0 out = None"
proof -
  have "a = 0 \<longrightarrow> s' = s \<longrightarrow> t' = t \<longrightarrow> False" if "rwkv_tokenize_from v' t' s' a out = Some r" for v' :: "'a llama_vocab" and t' s' a out r
  proof (rule rwkv_tokenize_from.raw_induct [where P = "\<lambda>v' t' s' a out r. a = 0 \<longrightarrow> s' = s \<longrightarrow> t' = t \<longrightarrow> False", OF _ that], goal_cases)
    case (1 f v' t' s' a out y)
    show ?case
    proof (intro impI)
      assume e: "a = 0" "s' = s" "t' = t"
      then have "f v' t s 0 (out @ [0]) = Some y" using 1(2) assms by (simp del: rwkv_longest.simps)
      from 1(1) [OF this] show False by simp
    qed
  qed
  then show ?thesis by (metis option.exhaust)
qed

theorem rwkv_diverges:
  assumes "trie_node (rwkv_matcher v) (take 1 s) \<noteq> None" "s \<noteq> []" "\<forall>m. trie_lookup (rwkv_matcher v) (take (Suc m) s) = None"
    and "\<forall>i < n_tokens v. 0 \<notin> set (tl (llama_unescape_rwkv_token (td_text (vo_id_to_token v ! i))))"
  shows "rwkv_tokenize v s out = None"
proof -
  let ?t = "rwkv_matcher v"
  obtain b s' where s: "s = b # s'" using assms(2) by (cases s) auto
  then obtain node where node: "traverse ?t b = Some node" using assms(1) by (auto split: option.splits)
  have none: "best_below ?t 0 s k = (0, 0)" for k
  proof -
    have "trie_lookup ?t (take m s) = None" if "m \<in> set [1..<k]" for m
    proof -
      have "m \<noteq> 0" using that by simp
      then obtain j where "m = Suc j" by (cases m) auto
      then show ?thesis using assms(3) by simp
    qed
    then show ?thesis by (simp add: best_below_def)
  qed
  have "rwkv_longest s (trie_node ?t (take 1 s)) (0 + 1 - 1) (best_below ?t 0 s 1) = Inr (best_below ?t 0 s (Suc (length s)))"
    by (rule rwkv_longest_best [OF rwkv_no_nul [OF assms(4)]]) (use s in simp_all)
  then have "rwkv_longest s (Some node) 0 (0, 0) = Inr (0, 0)" using node s unfolding none by simp
  then show ?thesis using rwkv_stuck [of ?t s node v out] node s by (simp add: rwkv_tokenize_def)
qed

text \<open>The stuck case in terms of the vocabulary: a token starts like the text and none is a prefix of it.\<close>

abbreviation rwkv_text :: "'s llama_vocab \<Rightarrow> nat \<Rightarrow> byte list" where
  "rwkv_text v i \<equiv> llama_unescape_rwkv_token (td_text (vo_id_to_token v ! i))"

lemma rwkv_matcher_start:
  assumes "i < n_tokens v" "rwkv_text v i = p @ q"
  shows "trie_node (rwkv_matcher v) p \<noteq> None"
proof
  assume "trie_node (rwkv_matcher v) p = None"
  then have "trie_lookup (rwkv_matcher v) (p @ q) = None" by (simp add: trie_lookup_def trie_node_append)
  then show False using rwkv_matcher_has [OF assms] by simp
qed

lemma rwkv_gap_stuck:
  assumes "i < n_tokens v" "rwkv_text v i = b # q" "\<forall>j < n_tokens v. \<forall>m. rwkv_text v j \<noteq> take (Suc m) (b # s)"
    and "\<forall>j < n_tokens v. 0 \<notin> set (tl (rwkv_text v j))"
  shows "rwkv_tokenize v (b # s) out = None"
proof (rule rwkv_diverges [OF _ _ _ assms(4)])
  show "trie_node (rwkv_matcher v) (take 1 (b # s)) \<noteq> None"
    using rwkv_matcher_start [OF assms(1), of "[b]" q] assms(2) by simp
  show "\<forall>m. trie_lookup (rwkv_matcher v) (take (Suc m) (b # s)) = None"
  proof
    fix m
    have "\<not> (\<exists>x. trie_lookup (rwkv_matcher v) (take (Suc m) (b # s)) = Some x)"
    proof
      assume "\<exists>x. trie_lookup (rwkv_matcher v) (take (Suc m) (b # s)) = Some x"
      then obtain x where "trie_lookup (rwkv_matcher v) (take (Suc m) (b # s)) = Some x" by blast
      then show False by (rule rwkv_matcher_token) (use assms(3) in blast)
    qed
    then show "trie_lookup (rwkv_matcher v) (take (Suc m) (b # s)) = None" by simp
  qed
qed simp

subsection \<open>The WPM session\<close>

definition is_separator :: "unicode_cpt_flags \<Rightarrow> bool" where "is_separator f = bit f 3"
definition is_punctuation :: "unicode_cpt_flags \<Rightarrow> bool" where "is_punctuation f = bit f 5"
definition is_symbol :: "unicode_cpt_flags \<Rightarrow> bool" where "is_symbol f = bit f 6"
definition is_control :: "unicode_cpt_flags \<Rightarrow> bool" where "is_control f = bit f 7"

definition is_chinese_char :: "nat \<Rightarrow> bool" where
  "is_chinese_char cpt \<longleftrightarrow>
     (cpt \<ge> 0x04E00 \<and> cpt \<le> 0x09FFF) \<or> (cpt \<ge> 0x03400 \<and> cpt \<le> 0x04DBF) \<or>
     (cpt \<ge> 0x20000 \<and> cpt \<le> 0x2A6DF) \<or> (cpt \<ge> 0x2A700 \<and> cpt \<le> 0x2B73F) \<or>
     (cpt \<ge> 0x2B740 \<and> cpt \<le> 0x2B81F) \<or> (cpt \<ge> 0x2B920 \<and> cpt \<le> 0x2CEAF) \<or>
     (cpt \<ge> 0x0F900 \<and> cpt \<le> 0x0FAFF) \<or> (cpt \<ge> 0x2F800 \<and> cpt \<le> 0x2FA1F)"

text \<open>
  The words so far, never an empty list. \<open>assert\<close> on separators is compiled out of release builds; every
  separator is white space in the data.
\<close>

definition finish_word :: "byte list list \<Rightarrow> byte list list" where
  "finish_word ws = (if last ws \<noteq> [] then ws @ [[]] else ws)"

definition preprocess_cpt :: "unicode_data \<Rightarrow> (nat \<Rightarrow> unicode_cpt_flags) \<Rightarrow> nat \<Rightarrow> byte list list \<Rightarrow> byte list list option" where
  "preprocess_cpt T cpt_flags cpt ws =
     (let flags = unicode_cpt_flags_from_cpt cpt_flags cpt in
      if is_whitespace flags then Some (finish_word ws)
      else if cpt = 0 \<or> cpt = 0xFFFD \<or> is_control flags then Some ws
      else do {
        s \<leftarrow> unicode_cpt_to_utf8 (unicode_tolower T cpt);
        Some (if is_punctuation flags \<or> (cpt < 0x7F \<and> is_symbol flags) \<or> is_chinese_char cpt
              then butlast (finish_word ws) @ [s] @ [[]]
              else butlast ws @ [last ws @ s])
      })"

fun preprocess_cpts :: "unicode_data \<Rightarrow> (nat \<Rightarrow> unicode_cpt_flags) \<Rightarrow> nat list \<Rightarrow> byte list list \<Rightarrow> byte list list option" where
  "preprocess_cpts T cpt_flags [] ws = Some ws"
| "preprocess_cpts T cpt_flags (c # cs) ws = do { ws1 \<leftarrow> preprocess_cpt T cpt_flags c ws; preprocess_cpts T cpt_flags cs ws1 }"

definition wpm_preprocess :: "unicode_data \<Rightarrow> (nat \<Rightarrow> unicode_cpt_flags) \<Rightarrow> byte list \<Rightarrow> byte list list option" where
  "wpm_preprocess T cpt_flags txt = do {
     cpts_nfd \<leftarrow> unicode_cpts_normalize_nfd T (unicode_cpts_from_utf8 txt);
     ws \<leftarrow> preprocess_cpts T cpt_flags cpts_nfd [[]];
     Some (if last ws = [] then butlast ws else ws) }"

text \<open>The longest match at \<open>i\<close> that ends at \<open>j\<close> or before.\<close>

fun wpm_match :: "'s llama_vocab \<Rightarrow> byte list \<Rightarrow> nat \<Rightarrow> nat \<Rightarrow> (nat \<times> token_id) option" where
  "wpm_match v word1 i 0 = None"
| "wpm_match v word1 i (Suc j) =
     (if Suc j > i then
        (let t = token_of_text v (take (Suc j - i) (drop i word1)) in
         if t \<noteq> LLAMA_TOKEN_NULL then Some (Suc j, t) else wpm_match v word1 i j)
      else None)"

lemma wpm_match_gt: "wpm_match v word1 i j = Some (j', t) \<Longrightarrow> i < j' \<and> j' \<le> j"
  by (induction v word1 i j rule: wpm_match.induct) (auto simp: Let_def split: if_splits)

function wpm_word :: "'s llama_vocab \<Rightarrow> byte list \<Rightarrow> nat \<Rightarrow> token_id list \<Rightarrow> token_id list option" where
  "wpm_word v word1 i out =
     (if i < length word1 then
        (case wpm_match v word1 i (min (length word1) (i + vo_max_token_len v + 1)) of
           None \<Rightarrow> None
         | Some (j, t) \<Rightarrow> wpm_word v word1 j (out @ [t]))
      else Some out)"
  by pat_completeness auto
termination
proof (relation "measure (\<lambda>(v, word1, i, out). length word1 - i)", goal_cases)
  case (2 v word1 i out x j t)
  then have "wpm_match v word1 i (min (length word1) (i + vo_max_token_len v + 1)) = Some (j, t)" by simp
  then show ?case using wpm_match_gt 2(1) by fastforce
qed simp

declare wpm_word.simps [simp del]

fun wpm_words :: "'s llama_vocab \<Rightarrow> byte list list \<Rightarrow> token_id list \<Rightarrow> token_id list" where
  "wpm_words v [] out = out"
| "wpm_words v (word # ws) out =
     (if word = [] then wpm_words v ws out
      else let out1 = (case wpm_word v (escaped_space @ word) 0 out of None \<Rightarrow> out | Some o1 \<Rightarrow> o1) in
        wpm_words v ws (if length out1 = length out then out1 @ [vo_unk_id v] else out1))"

definition wpm_tokenize ::
  "'s llama_vocab \<Rightarrow> unicode_data \<Rightarrow> (nat \<Rightarrow> unicode_cpt_flags) \<Rightarrow> byte list \<Rightarrow> token_id list \<Rightarrow> vocab_error + token_id list"
where
  "wpm_tokenize v T cpt_flags txt out =
     attempt (or_fail (Split_Error Invalid_Codepoint) (wpm_preprocess T cpt_flags txt)) (\<lambda>words. Inr (wpm_words v words out))"

subsection \<open>The words are matched greedily\<close>

definition text_lookup :: "'s llama_vocab \<Rightarrow> byte list \<Rightarrow> token_id option" where
  "text_lookup v t = (let t' = token_of_text v t in if t' = LLAMA_TOKEN_NULL then None else Some t')"

lemma wpm_match_lengths:
  assumes "i \<le> length w"
  shows "i + k \<le> length w \<Longrightarrow>
    wpm_match v w i (i + k) =
     (let ms = filter (\<lambda>m. text_lookup v (take m (drop i w)) \<noteq> None) [1..<Suc k] in
      if ms = [] then None else Some (i + last ms, the (text_lookup v (take (last ms) (drop i w)))))"
proof (induction k)
  case 0
  then show ?case by (cases i) simp_all
next
  case (Suc k)
  have e: "Suc (i + k) - i = Suc k" "i + Suc k = Suc (i + k)" "i < Suc (i + k)" by simp_all
  have "wpm_match v w i (i + Suc k) =
      (case text_lookup v (take (Suc k) (drop i w)) of Some t \<Rightarrow> Some (Suc (i + k), t) | None \<Rightarrow> wpm_match v w i (i + k))"
    unfolding e(2) wpm_match.simps e(1) using e(3) by (simp add: text_lookup_def Let_def)
  then show ?case using Suc by (simp split: option.split)
qed

text \<open>No token is longer than the window, so it shows the longest.\<close>

lemma token_in_window:
  assumes "vocab_ok v" "max_len_ok v" "text_lookup v t \<noteq> None"
  shows "length t \<le> vo_max_token_len v"
proof -
  obtain t' where "map_of (vo_token_to_id v) t = Some t'"
    using assms(3) by (auto simp: text_lookup_def token_of_text_def Let_def split: option.splits if_splits)
  then obtain i where "i < n_tokens v" "td_text (vo_id_to_token v ! i) = t"
    using assms(1) unfolding vocab_ok_def by blast
  then show ?thesis using assms(2) by (auto simp: max_len_ok_def n_tokens_def)
qed

lemma wpm_match_longest:
  assumes "vocab_ok v" "max_len_ok v" "i < length w"
  shows "wpm_match v w i (min (length w) (i + vo_max_token_len v + 1)) =
    (let ms = token_lengths (text_lookup v) (drop i w) in
     if ms = [] then None else Some (i + last ms, the (text_lookup v (take (last ms) (drop i w)))))"
proof -
  define k where "k = min (length w - i) (vo_max_token_len v + 1)"
  have e: "min (length w) (i + vo_max_token_len v + 1) = i + k" using assms(3) by (auto simp: k_def min_def)
  have "filter (\<lambda>m. text_lookup v (take m (drop i w)) \<noteq> None) [1..<Suc k] = token_lengths (text_lookup v) (drop i w)"
  proof (cases "k = length w - i")
    case True
    then show ?thesis by (simp add: token_lengths_def)
  next
    case False
    then have k: "k = vo_max_token_len v + 1" "k < length w - i" by (auto simp: k_def min_def)
    have "[1..<Suc (length w - i)] = [1..<Suc k] @ [Suc k..<Suc (length w - i)]"
      using k(2) upt_add_eq_append [of 1 "Suc k" "length w - i - k"] by simp
    moreover have "text_lookup v (take m (drop i w)) = None" if "m \<in> set [Suc k..<Suc (length w - i)]" for m
    proof (rule ccontr)
      assume "text_lookup v (take m (drop i w)) \<noteq> None"
      from token_in_window [OF assms(1,2) this] show False using that k by auto
    qed
    ultimately show ?thesis by (simp add: token_lengths_def)
  qed
  then show ?thesis unfolding e using wpm_match_lengths [of i w k v] assms(3) by (simp add: k_def)
qed

lemma wpm_word_greedy:
  assumes "vocab_ok v" "max_len_ok v"
  shows "i \<le> length w \<Longrightarrow> wpm_word v w i out = map_option (\<lambda>ts. out @ ts) (greedy_tokens (text_lookup v) (drop i w))"
proof (induction "length w - i" arbitrary: i out rule: less_induct)
  case less
  show ?case
  proof (cases "i = length w")
    case True
    then show ?thesis by (subst wpm_word.simps, subst greedy_tokens.simps) simp
  next
    case False
    then have i: "i < length w" "drop i w \<noteq> []" using less.prems by auto
    note m = wpm_match_longest [OF assms i(1)]
    show ?thesis
    proof (cases "token_lengths (text_lookup v) (drop i w) = []")
      case True
      then show ?thesis using i m by (subst wpm_word.simps, subst greedy_tokens.simps) (simp add: Let_def)
    next
      case ne: False
      define n where "n = last (token_lengths (text_lookup v) (drop i w))"
      note last = token_lengths_last [OF ne, folded n_def]
      have "wpm_word v w i out = wpm_word v w (i + n) (out @ [the (text_lookup v (take n (drop i w)))])"
        using i m ne by (subst wpm_word.simps) (simp add: Let_def n_def)
      also have "\<dots> = map_option (\<lambda>ts. (out @ [the (text_lookup v (take n (drop i w)))]) @ ts) (greedy_tokens (text_lookup v) (drop (i + n) w))"
        by (rule less.hyps) (use last i in auto)
      finally show ?thesis
        using i ne by (subst greedy_tokens.simps) (simp add: n_def Let_def option.map_comp comp_def add.commute)
    qed
  qed
qed

text \<open>Each word on its own: its greedy tokens, or the unknown token.\<close>

definition wpm_word_tokens :: "'s llama_vocab \<Rightarrow> byte list \<Rightarrow> token_id list" where
  "wpm_word_tokens v w =
     (case greedy_tokens (text_lookup v) (escaped_space @ w) of None \<Rightarrow> [vo_unk_id v] | Some ts \<Rightarrow> ts)"

lemma greedy_nonempty: "greedy_tokens lk u = Some ts \<Longrightarrow> u \<noteq> [] \<Longrightarrow> ts \<noteq> []"
  by (subst (asm) greedy_tokens.simps) (auto simp: Let_def split: if_splits)

theorem wpm_words_greedy:
  assumes "vocab_ok v" "max_len_ok v"
  shows "wpm_words v ws out = out @ concat (map (wpm_word_tokens v) (filter (\<lambda>w. w \<noteq> []) ws))"
proof (induction ws arbitrary: out)
  case (Cons w ws)
  have "wpm_word v (escaped_space @ w) 0 out = map_option (\<lambda>ts. out @ ts) (greedy_tokens (text_lookup v) (escaped_space @ w))"
    using wpm_word_greedy [OF assms, of 0] by simp
  moreover have "escaped_space @ w \<noteq> []" by (simp add: escaped_space_len)
  ultimately show ?case using Cons greedy_nonempty [of "text_lookup v" "escaped_space @ w"]
    by (auto simp: wpm_word_tokens_def split: option.split)
qed simp

subsection \<open>The words\<close>

text \<open>No word is empty, and together they are the lower-case text without white space and control characters.\<close>

definition wpm_kept :: "(nat \<Rightarrow> unicode_cpt_flags) \<Rightarrow> nat \<Rightarrow> bool" where
  "wpm_kept cpt_flags c \<longleftrightarrow> \<not> is_whitespace (unicode_cpt_flags_from_cpt cpt_flags c) \<and> c \<noteq> 0 \<and> c \<noteq> 0xFFFD \<and>
     \<not> is_control (unicode_cpt_flags_from_cpt cpt_flags c)"

definition words_ok :: "byte list list \<Rightarrow> bool" where
  "words_ok ws \<longleftrightarrow> ws \<noteq> [] \<and> [] \<notin> set (butlast ws)"

lemma words_ok_split: "words_ok ws \<Longrightarrow> \<exists>us w. ws = us @ [w] \<and> [] \<notin> set us"
  unfolding words_ok_def by (intro exI [of _ "butlast ws"] exI [of _ "last ws"]) simp

lemma words_ok_concat: "words_ok ws \<Longrightarrow> concat (butlast ws) @ last ws = concat ws"
  using words_ok_split by fastforce

lemma words_ok_last: "words_ok ws \<Longrightarrow> last ws \<noteq> [] \<Longrightarrow> [] \<notin> set ws"
  using words_ok_split by fastforce

lemma finish_word_ok: "words_ok ws \<Longrightarrow> words_ok (finish_word ws) \<and> concat (finish_word ws) = concat ws"
  using words_ok_last [of ws] by (simp add: finish_word_def words_ok_def)

lemma finish_word_last: "words_ok ws \<Longrightarrow> butlast (finish_word ws) @ [[]] = finish_word ws"
proof -
  assume "words_ok ws"
  then have "ws = butlast ws @ [last ws]" by (simp add: words_ok_def)
  then show ?thesis by (cases "last ws = []") (simp_all add: finish_word_def)
qed

lemma utf8_nonempty: "unicode_cpt_to_utf8 c = Some s \<Longrightarrow> s \<noteq> []"
  by (auto simp: cpt_to_utf8_arith split: if_splits)

lemma preprocess_cpt_ok:
  assumes "preprocess_cpt T cpt_flags c ws = Some ws'" "words_ok ws"
  shows "words_ok ws' \<and> (if wpm_kept cpt_flags c then \<exists>s. unicode_cpt_to_utf8 (unicode_tolower T c) = Some s \<and> concat ws' = concat ws @ s
    else concat ws' = concat ws)"
proof (cases "wpm_kept cpt_flags c")
  case False
  then show ?thesis using assms finish_word_ok [OF assms(2)]
    by (auto simp: preprocess_cpt_def wpm_kept_def Let_def split: if_splits)
next
  case True
  then obtain s where s: "unicode_cpt_to_utf8 (unicode_tolower T c) = Some s"
    and ws': "ws' = butlast (finish_word ws) @ [s] @ [[]] \<or> ws' = butlast ws @ [last ws @ s]"
    using assms(1) by (auto simp: preprocess_cpt_def wpm_kept_def Let_def split: if_splits bind_splits)
  have f: "words_ok (finish_word ws)" "concat (finish_word ws) = concat ws" using finish_word_ok [OF assms(2)] by auto
  have "concat (butlast (finish_word ws)) = concat ws"
    using arg_cong [OF finish_word_last [OF assms(2)], of concat] f(2) by simp
  moreover have "concat (butlast ws) @ last ws = concat ws" by (rule words_ok_concat [OF assms(2)])
  ultimately have "concat ws' = concat ws @ s" using ws' by auto
  moreover have "words_ok ws'" using ws' f(1) assms(2) utf8_nonempty [OF s] by (auto simp: words_ok_def butlast_append)
  ultimately show ?thesis using True s by simp
qed

lemma preprocess_cpts_ok:
  "preprocess_cpts T cpt_flags cs ws = Some ws' \<Longrightarrow> words_ok ws \<Longrightarrow>
    words_ok ws' \<and> (\<exists>r. unicode_cpts_to_utf8 (map (unicode_tolower T) (filter (wpm_kept cpt_flags) cs)) = Some r \<and> concat ws' = concat ws @ r)"
proof (induction cs arbitrary: ws)
  case (Cons c cs)
  then obtain ws1 where w: "preprocess_cpt T cpt_flags c ws = Some ws1" "preprocess_cpts T cpt_flags cs ws1 = Some ws'"
    by (auto split: bind_splits)
  note one = preprocess_cpt_ok [OF w(1) Cons.prems(2)]
  note rest = Cons.IH [OF w(2)]
  show ?case using one rest by (auto split: if_splits)
qed simp

theorem wpm_preprocess_ok:
  assumes "wpm_preprocess T cpt_flags txt = Some words"
  shows "[] \<notin> set words \<and> (\<exists>nfd. unicode_cpts_normalize_nfd T (unicode_cpts_from_utf8 txt) = Some nfd \<and>
    unicode_cpts_to_utf8 (map (unicode_tolower T) (filter (wpm_kept cpt_flags) nfd)) = Some (concat words))"
proof -
  obtain nfd ws where w: "unicode_cpts_normalize_nfd T (unicode_cpts_from_utf8 txt) = Some nfd"
    "preprocess_cpts T cpt_flags nfd [[]] = Some ws" "words = (if last ws = [] then butlast ws else ws)"
    using assms by (auto simp: wpm_preprocess_def split: bind_splits)
  have ok: "words_ok ws" "unicode_cpts_to_utf8 (map (unicode_tolower T) (filter (wpm_kept cpt_flags) nfd)) = Some (concat ws)"
    using preprocess_cpts_ok [OF w(2)] by (auto simp: words_ok_def)
  have "concat words = concat ws" using w(3) words_ok_concat [OF ok(1)] by auto
  moreover have "[] \<notin> set words" using ok(1) w(3) words_ok_last [OF ok(1)] by (auto simp: words_ok_def)
  ultimately show ?thesis using w(1) ok(2) by auto
qed

theorem wpm_tokenize_greedy:
  assumes "vocab_ok v" "max_len_ok v" "wpm_preprocess T cpt_flags txt = Some words"
  shows "wpm_tokenize v T cpt_flags txt out = Inr (out @ concat (map (wpm_word_tokens v) words))"
proof -
  have "filter (\<lambda>w. w \<noteq> []) words = words" using wpm_preprocess_ok [OF assms(3)] by (auto simp: filter_id_conv)
  then show ?thesis using wpm_words_greedy [OF assms(1,2), of words out] assms(3) by (simp add: wpm_tokenize_def)
qed

end
