(* ===== verification/Examples.thy ===== *)
theory Examples
  imports KvSystem KvState GbnfLang PretokLlama3
begin

text \<open>
  Concrete caches, batches, files and grammars, evaluated: the inputs on which the properties are
  instantiated.
\<close>

section \<open>A cache of four cells\<close>

definition ex_cell :: "int \<Rightarrow> int set \<Rightarrow> kv_cell" where
  "ex_cell p S = \<lparr>cell_pos = p, cell_delta = 0, cell_seq_id = S\<rparr>"

definition ex_cache :: "kv_cell list \<Rightarrow> nat \<Rightarrow> nat \<Rightarrow> nat \<Rightarrow> (nat \<times> nat) list \<Rightarrow> kv_unified" where
  "ex_cache cs head used n pending = \<lparr>kv_head = head, kv_size = 4, kv_used = used, kv_n = n, kv_cells = cs,
     kv_has_shift = False, kv_do_defrag = False, kv_can_shift = True, kv_padding = 1, kv_moves = [],
     kv_pending = pending\<rparr>"

definition ex_kv0 :: kv_unified where
  "ex_kv0 = ex_cache (replicate 4 kv_cell_new) 0 0 0 []"

definition ex_ub :: "nat llama_ubatch" where
  "ex_ub = \<lparr>ub_equal_seqs = False, ub_n_tokens = 2, ub_n_seq_tokens = 1, ub_n_seqs = 2, ub_token = Some [7, 8],
     ub_embd = None, ub_pos = [0, 1], ub_n_seq_id = [1, 1], ub_seq_id = [[0], [0]], ub_output = [0, 1]\<rparr>"

definition ex_kv1 :: kv_unified where
  "ex_kv1 = ex_cache [ex_cell 0 {0}, ex_cell 1 {0}, kv_cell_new, kv_cell_new] 0 2 2 [(0, 2)]"

lemma ex_kv_init: "kv_init 4 1 = Some ex_kv0"
  by (simp add: kv_init_def ex_kv0_def ex_cache_def)

lemma ex_sys_start: "sys_start ex_kv0"
  unfolding sys_start_def by (intro exI [of _ 4] exI [of _ 1] conjI) (simp, rule ex_kv_init)

lemma ex_kv0_ok: "kv_ok ex_kv0"
  using kv_init_ok [OF ex_kv_init] by simp

lemma ex_kv1_ok: "kv_ok ex_kv1"
  by (simp add: kv_ok_def ex_kv1_def ex_cache_def ex_cell_def cell_ok_def kv_cell_new_def occupied_def is_empty_def)

lemma upt_two: "[0..<2] = [0, Suc 0]"
  by (simp add: upt_rec)

lemma ex_ub_placeable: "ub_placeable ex_ub"
  by (simp add: ub_placeable_def ub_reads_ok_def ub_entries_def ex_ub_def ub_seq_set_def upt_two)

lemma ex_kv0_free: "free_run (kv_cells ex_kv0) 0 (ub_n_tokens ex_ub)"
  by (auto simp: free_run_def ex_kv0_def ex_cache_def ex_ub_def kv_cell_new_def)

lemma ex_find: "\<exists>kv'. find_slot ex_ub ex_kv0 = Some (True, kv')"
  using find_slot_cases [OF ex_kv0_ok ex_ub_placeable] ex_kv0_free by blast

definition ex_kv_full :: kv_unified where
  "ex_kv_full = ex_cache [ex_cell 0 {0}, ex_cell 1 {0}, ex_cell 2 {0}, kv_cell_new] 0 3 3 []"

lemma ex_kv_full_ok: "kv_ok ex_kv_full"
  by (simp add: kv_ok_def ex_kv_full_def ex_cache_def ex_cell_def cell_ok_def kv_cell_new_def occupied_def is_empty_def)

lemma ex_kv_full_positions: "seq_positions 0 (kv_abs ex_kv_full) = mset_set {0..<3}"
proof -
  have "{0..<3} = {0, 1, 2 :: int}" by auto
  then show ?thesis
    by (simp add: kv_abs_def cells_abs_def ex_kv_full_def ex_cache_def ex_cell_def kv_cell_new_def is_empty_def cell_entry_def)
qed

text \<open>A hole at cell 0, and the data of one layer, one value per cell.\<close>

definition ex_kv_hole :: kv_unified where
  "ex_kv_hole = (ex_cache [kv_cell_new, ex_cell 0 {0}, ex_cell 1 {0}, kv_cell_new] 0 2 3 [])\<lparr>kv_do_defrag := True\<rparr>"

definition ex_layer :: "nat kv_layer" where
  "ex_layer = \<lparr>ly_n_embd_k = 1, ly_n_embd_v = 1, ly_k = (\<lambda>i. 10 + i), ly_v = (\<lambda>i. 20 + i)\<rparr>"

lemma ex_kv_hole_ok: "kv_ok ex_kv_hole" "kv_do_defrag ex_kv_hole" "kv_can_shift ex_kv_hole"
  by (simp_all add: kv_ok_def ex_kv_hole_def ex_cache_def ex_cell_def cell_ok_def kv_cell_new_def occupied_def is_empty_def)

lemma ex_layer_ok: "layers_ok [ex_layer]"
  by (simp add: layers_ok_def ex_layer_def)

section \<open>A saved cache\<close>

text \<open>Two layers of one-byte elements; one cell to save.\<close>

definition ex_traits :: type_traits where
  "ex_traits = \<lparr>tr_size = (\<lambda>_. 1), tr_blck = (\<lambda>_. 1)\<rparr>"

definition ex_st_layer :: "nat \<Rightarrow> st_layer" where
  "ex_st_layer d = \<lparr>sl_embd_k = 1, sl_embd_v = 1, sl_k = \<lparr>tn_type = 0, tn_data = [d, d + 1, d + 2, d + 3]\<rparr>,
     sl_v = \<lparr>tn_type = 0, tn_data = [d + 4, d + 5, d + 6, d + 7]\<rparr>\<rparr>"

definition ex_store :: "kv_unified \<Rightarrow> nat \<Rightarrow> kv_store" where
  "ex_store kv d = \<lparr>st_kv = kv, st_v_trans = True, st_layers = [ex_st_layer d]\<rparr>"

lemma ex_store_ok: "store_ok ex_traits (ex_store ex_kv_hole d)" "store_ok ex_traits (ex_store ex_kv0 d)"
  using ex_kv_hole_ok(1) ex_kv0_ok
  by (simp_all add: store_ok_def data_ok_def layer_ok_def ex_store_def ex_st_layer_def ex_traits_def k_size_row_def
      v_size_row_def v_size_el_def ggml_row_size_def)
    (simp_all add: ex_kv_hole_def ex_kv0_def ex_cache_def ex_cell_def kv_cell_new_def i32_fits_def list_all_iff)

lemma ex_same_model: "same_model (ex_store kv d) (ex_store kv' d')"
  by (simp add: same_model_def same_shape_def ex_store_def ex_st_layer_def)

lemma ex_saved: "saved_cells 0 (st_kv (ex_store ex_kv_hole d)) = [1, 2]"
proof -
  have "[0..<4] = [0, 1, 2, 3]" by (simp add: upt_rec)
  then show ?thesis
    by (simp add: saved_cells_def ex_store_def ex_kv_hole_def ex_cache_def ex_cell_def kv_cell_new_def saved_cell_def
        has_seq_id_def is_empty_def)
qed

lemma ex_free_rm: "free_run (kv_cells (seq_rm 3 (-1) (-1) (st_kv (ex_store ex_kv0 d)))) 0 (length [1, 2 :: nat])"
proof -
  have "kv_cells (seq_rm 3 (-1) (-1) ex_kv0) = replicate 4 kv_cell_new"
    by (simp add: seq_op_cells ex_kv0_def ex_cache_def rm_new_def seq_rm_cell_def in_range_def kv_cell_new_def norm_p0_def)
  then show ?thesis by (auto simp: free_run_def ex_store_def kv_cell_new_def)
qed

section \<open>A batch of three tokens\<close>

definition ex_batch :: "nat llama_batch" where
  "ex_batch = \<lparr>b_n_tokens = 3, b_token = Some [5, 6, 7], b_embd = None, b_pos = Some [0, 0, 1],
     b_n_seq_id = Some [1, 1, 1], b_seq_id = Some [[0], [1], [0]], b_logits = None\<rparr>"

lemma ex_batch_ok: "batch_ok ex_batch"
  by (simp add: batch_ok_def ex_batch_def)

lemma ex_batch_simple: "\<exists>sb. sbatch_init ex_batch True False = Some sb"
  by (simp add: sbatch_init_def Let_def)

section \<open>A grammar\<close>

text \<open>\<open>root ::= "a" root | "b" | [c-d]\<close>\<close>

definition ex_rules :: llama_grammar_rules where
  "ex_rules = [[gelem LLAMA_GRETYPE_CHAR 97, gelem LLAMA_GRETYPE_RULE_REF 0, gelem LLAMA_GRETYPE_ALT 0,
     gelem LLAMA_GRETYPE_CHAR 98, gelem LLAMA_GRETYPE_ALT 0,
     gelem LLAMA_GRETYPE_CHAR 99, gelem LLAMA_GRETYPE_CHAR_RNG_UPPER 100, gelem LLAMA_GRETYPE_END 0]]"

lemma ex_rules_ok: "rules_ok ex_rules"
  by (simp add: rules_ok_def ex_rules_def)

lemma ex_starts: "alt_starts (ex_rules ! 0) = Some [0, 3, 5]"
  by (simp add: ex_rules_def alt_starts_def)

lemma ex_ranked: "left_ranked {} (\<lambda>r. 0) ex_rules"
  by (simp add: left_ranked_def ex_rules_def alt_starts_def is_end_of_sequence_def)

lemma ex_initial:
  "initial_stacks 1 ex_rules 0 = Some [[(0, 0)], [(0, 3)], [(0, 5)]]"
  by (simp add: initial_stacks_def ex_rules_def alt_starts_def push_pos_def elem_at_def rest_at_def
      is_end_of_sequence_def add_stack_def)

lemma ex_accept: "accept_code_points 2 ex_rules [97] [[(0, 0)], [(0, 3)], [(0, 5)]] = Some [[(0, 0)], [(0, 3)], [(0, 5)]]"
  by (simp add: llama_grammar_accept_def accept_stack_def llama_grammar_match_char_def is_positive_char_def
      ex_rules_def alt_starts_def push_pos_def elem_at_def rest_at_def move_def
      is_end_of_sequence_def add_stack_def eval_nat_numeral)

text \<open>A grammar object on these rules with two tokens, "a" and "z".\<close>

definition ex_grammar :: llama_grammar where
  "ex_grammar = \<lparr>g_vocab = \<lparr>v_token_to_piece = (\<lambda>t. if t = 0 then [97] else [122]), v_is_eog = (\<lambda>t. False)\<rparr>,
     g_o_vocab = None, g_rules = ex_rules, g_stacks = [[(0, 0)], [(0, 3)], [(0, 5)]],
     g_partial_utf8 = \<lparr>pu_value = 0, pu_remain = 0\<rparr>, g_lazy = False, g_awaiting_trigger = False,
     g_trigger_buffer = [], g_trigger_tokens = [], g_trigger_patterns = []\<rparr>"

definition ex_tokens :: "int llama_token_data list" where
  "ex_tokens = [\<lparr>td_id = 0, td_logit = 5, td_p = 0\<rparr>, \<lparr>td_id = 1, td_logit = 6, td_p = 0\<rparr>]"

definition ex_candidate :: "nat \<Rightarrow> nat \<Rightarrow> llama_grammar_candidate" where
  "ex_candidate i c = \<lparr>c_index = i, c_code_points = [c, 0], c_pos = 0, c_partial_utf8 = \<lparr>pu_value = c, pu_remain = 0\<rparr>\<rparr>"

lemmas ex_engine = llama_grammar_accept_def accept_stack_def llama_grammar_match_char_def is_positive_char_def
  ex_rules_def alt_starts_def push_pos_def elem_at_def rest_at_def move_def is_end_of_sequence_def add_stack_def
  reject_for_stack_def c_cpt_def c_next_def c_prev_def sort_candidate_def eval_nat_numeral

lemma ex_reject:
  "llama_grammar_reject_candidates 3 2 ex_rules [[(0, 0)], [(0, 3)], [(0, 5)]] [ex_candidate 0 97, ex_candidate 1 122]
    = Some [ex_candidate 1 122]"
  by (simp add: ex_engine ex_candidate_def)

lemma ex_decode:
  "decode_utf8 [97] \<lparr>pu_value = 0, pu_remain = 0\<rparr> = ([97, 0], \<lparr>pu_value = 97, pu_remain = 0\<rparr>)"
  "decode_utf8 [122] \<lparr>pu_value = 0, pu_remain = 0\<rparr> = ([122, 0], \<lparr>pu_value = 122, pu_remain = 0\<rparr>)"
  by (simp_all add: decode_utf8_def utf8_lookup_def numeral_2_eq_2[symmetric] push_bit_eq_mult drop_bit_eq_div)

lemma ex_apply:
  "llama_grammar_apply_impl (-1) 3 2 ex_grammar ex_tokens =
     Some (None, [\<lparr>td_id = 0, td_logit = 5, td_p = 0\<rparr>, \<lparr>td_id = 1, td_logit = -1, td_p = 0\<rparr>])"
  using ex_reject
  by (simp add: llama_grammar_apply_impl_def ex_grammar_def ex_tokens_def g_piece_def g_is_eog_def ex_decode ex_candidate_def)

lemma ex_accept_token: "\<exists>e g'. llama_grammar_accept_impl 2 ex_grammar 0 = Some (e, g')"
  using ex_accept
  by (simp add: llama_grammar_accept_impl_def llama_grammar_accept_str_def ex_grammar_def g_piece_def g_is_eog_def ex_decode)

lemma ex_stacks_ok: "stacks_ok ex_rules [[(0, 0)], [(0, 3)], [(0, 5)]]"
  by (auto simp: stacks_ok_def ready_def stack_ok_def stack_wf_def pos_ok_def at_char_def is_positive_char_def elem_at_def rest_at_def
      ex_rules_def is_end_of_sequence_def)

section \<open>Grammar texts\<close>

text \<open>Evaluating the parser: the fuel is a numeral.\<close>

lemmas fuel_numeral = parse_sequence.simps(2) [of "pred_numeral k" for k, folded numeral_eq_Suc]
  parse_more_alternates.simps(2) [of "pred_numeral k" for k, folded numeral_eq_Suc]
  parse_alternates.simps(2) [of "pred_numeral k" for k, folded numeral_eq_Suc]

lemmas gbnf_eval = gbnf_parse_def parse_rule_def parse_name_def get_symbol_id_def is_word_char_def is_digit_char_def
  parse_fuel_def fuel_numeral andthen_def sequence_step_def Let_def parse_literal.simps parse_class.simps parse_char_def
  decode_utf8_one_def handle_repetitions_def rec_rule_def add_rule_def generate_symbol_id_def dec_digits.simps
  is_newline_def parse_upper_def parse_bounds_def parse_int_def stoul_int_def digits_value_def end_of_rule_def
  parse_rules.simps undefined_ref_def drop_bit_eq_div push_bit_eq_mult

text \<open>\<open>root ::= "b"*\<close>\<close>

definition ex_star :: "byte list" where
  "ex_star = [114, 111, 111, 116, 32, 58, 58, 61, 32, 34, 98, 34, 42]"

definition ex_star_parser :: grammar_parser where
  "ex_star_parser = \<lparr>symbol_ids = [([114, 111, 111, 116], 0), ([114, 111, 111, 116, 95, 49], 1)],
     p_rules = [[gelem LLAMA_GRETYPE_RULE_REF 1, gelem LLAMA_GRETYPE_END 0],
       [gelem LLAMA_GRETYPE_CHAR 98, gelem LLAMA_GRETYPE_RULE_REF 1, gelem LLAMA_GRETYPE_ALT 0, gelem LLAMA_GRETYPE_END 0]]\<rparr>"

lemma ex_star_parse: "gbnf_parse ex_star = Inr ex_star_parser"
  by (simp add: ex_star_def ex_star_parser_def gbnf_eval)

text \<open>\<open>a ::= root{0} "x"\<close>: the name \<open>root\<close> is known, its rule does not exist.\<close>

definition ex_no_root :: "byte list" where
  "ex_no_root = [97, 32, 58, 58, 61, 32, 114, 111, 111, 116, 123, 48, 125, 32, 34, 120, 34]"

lemma ex_no_root_parse:
  "gbnf_parse ex_no_root = Inr \<lparr>symbol_ids = [([97], 0), ([114, 111, 111, 116], 1)],
     p_rules = [[gelem LLAMA_GRETYPE_CHAR 120, gelem LLAMA_GRETYPE_END 0]]\<rparr>"
  by (simp add: ex_no_root_def gbnf_eval)

lemma ex_no_root_check:
  "check_left_recursion f [[gelem LLAMA_GRETYPE_CHAR 120, gelem LLAMA_GRETYPE_END 0]] \<in> {None, Some False}"
  by (cases f) (simp_all add: check_left_recursion_def lr_start_def is_end_of_sequence_def)

lemma ex_star_check: "check_left_recursion 3 (p_rules ex_star_parser) = Some False"
  by (simp add: ex_star_parser_def check_left_recursion_def lr_start_def eval_nat_numeral is_end_of_sequence_def)

lemma ex_star_empty: "empty_closed {0, 1} (p_rules ex_star_parser)" "visible_empty {0, 1} (p_rules ex_star_parser)"
  by (simp_all add: ex_star_parser_def empty_closed_def visible_empty_def plainly_empty_def is_end_of_sequence_def
      alt_starts_def less_2_cases_iff All_less_Suc numeral_2_eq_2)

lemma ex_star_init:
  "\<exists>g. llama_grammar_init_str 3 vocab o_vocab ex_star root_name False [] [] = Some (Init_Grammar g)"
  using ex_star_check
  by (simp add: llama_grammar_init_str_def ex_star_parse llama_grammar_init_rules_def ex_star_parser_def root_name_def
      initial_stacks_def alt_starts_def push_pos_def elem_at_def rest_at_def move_def is_end_of_sequence_def add_stack_def
      eval_nat_numeral)

text \<open>The state of the parser after \<open>root ::= "b"\<close>, before the star.\<close>

definition ex_before_star :: grammar_parser where
  "ex_before_star = \<lparr>symbol_ids = [([114, 111, 111, 116], 0)], p_rules = []\<rparr>"

lemma ex_before_star_ok:
  "parser_ok ex_before_star" "word_name [114, 111, 111, 116]"
  "sequence_ok (n_syms ex_before_star) 0 [gelem LLAMA_GRETYPE_CHAR 98]" "no_end [gelem LLAMA_GRETYPE_CHAR 98]"
  by (simp_all add: parser_ok_def ex_before_star_def symbols_ok_def name_ok_def word_name_def is_word_char_def
      sequence_ok_def is_end_of_sequence_def)

lemma ex_star_step:
  "handle_repetitions 0 (-1) [114, 111, 111, 116] 0 [gelem LLAMA_GRETYPE_CHAR 98] ex_before_star
    = Inr ([gelem LLAMA_GRETYPE_RULE_REF 1], ex_star_parser\<lparr>p_rules := [] # tl (p_rules ex_star_parser)\<rparr>)"
  by (simp add: ex_before_star_def ex_star_parser_def gbnf_eval)

lemma ex_star_copies: "copies R [gelem LLAMA_GRETYPE_CHAR 98] 2 [98, 98]"
proof -
  have "body_lang R [gelem LLAMA_GRETYPE_CHAR 98] [98]"
    by (rule body_char [of _ _ 1]) (simp_all add: llama_grammar_match_char_def is_positive_char_def body_Nil)
  then show ?thesis by (auto simp: numeral_2_eq_2 intro!: exI [of _ "[98]"])
qed

section \<open>A table of flags\<close>

text \<open>Digits, small letters and the usual white space; everything else is punctuation.\<close>

definition ex_data :: unicode_data where
  "ex_data = \<lparr>ranges_flags = [(0, 0x0020), (48, 0x0002), (58, 0x0020), (97, 0x0004), (123, 0x0020), (0x110000, 0)],
     set_whitespace = [10, 13, 32], map_lowercase = [(83, 115)], map_uppercase = [],
     ranges_nfd = [\<lparr>nfd_first = 0, nfd_last = 0, nfd_nfd = 0\<rparr>]\<rparr>"

definition ex_flags :: "nat \<Rightarrow> unicode_cpt_flags" where
  "ex_flags c =
     (if c \<in> {10, 13, 32} then 0x0120 else if c = 0 then 0x0820 else if 48 \<le> c \<and> c < 58 then 0x0002
      else if c = 115 then 0x0204 else if 97 \<le> c \<and> c < 123 then 0x0004 else if c < 0x110000 then 0x0020 else 0x0001)"

lemma ex_flags_array: "unicode_cpt_flags_array ex_data = Some ex_flags"
  by (simp add: unicode_cpt_flags_array_def ex_data_def fill_flags_def or_flags_def MAX_CODEPOINTS_def fun_eq_iff ex_flags_def flags_UNDEFINED_def)

lemma ex_flags_nonzero: "ex_flags c \<noteq> 0"
  by (simp add: ex_flags_def)

lemma ex_flags_classes:
  "is_whitespace (ex_flags c) \<longleftrightarrow> c \<in> {10, 13, 32}" "is_number (ex_flags c) \<longleftrightarrow> 48 \<le> c \<and> c < 58"
  "is_letter (ex_flags c) \<longleftrightarrow> 97 \<le> c \<and> c < 123"
  by (auto simp: ex_flags_def is_number_def is_letter_def is_whitespace_def)

lemma ex_classes_ok: "classes_ok (unicode_cpt_flags_from_cpt ex_flags)"
proof -
  have "unicode_cpt_flags_from_cpt ex_flags = ex_flags"
    by (simp add: fun_eq_iff unicode_cpt_flags_from_cpt_def ex_flags_def MAX_CODEPOINTS_def flags_UNDEFINED_def)
  then show ?thesis using ex_flags_nonzero by (auto simp: classes_ok_def ex_flags_classes is_other_def)
qed

text \<open>\<open>it's 1\<close>\<close>

definition ex_text :: "byte list" where
  "ex_text = [105, 116, 39, 115, 32, 49]"

lemma ex_text_utf8: "unicode_cpts_to_utf8 [105, 116, 39, 115, 32, 49] = Some ex_text"
  by (simp add: ex_text_def unicode_cpt_to_utf8_def)

definition ex_engine :: "byte list \<Rightarrow> nat list \<Rightarrow> (nat \<times> nat) list option" where
  "ex_engine e w = Some []"

lemma ex_engine_walks: "walks ex_engine"
  by (simp add: walks_def ex_engine_def)

text \<open>
  A name that is used and never defined can slip through the check: in \<open>a ::= root{0} "x"\<close> the repetition
  erases the reference, \<open>root\<close> stays in the table with a number that no rule has, and the construction of
  the stacks reads outside the rules.
\<close>

lemma ex_no_root_outside:
  "(\<exists>p. gbnf_parse ex_no_root = Inr p \<and> map_of (symbol_ids p) root_name = Some (length (p_rules p)))
    \<and> llama_grammar_init_str f vocab o_vocab ex_no_root root_name lazy pats toks = None"
  using ex_no_root_check [of f]
  by (auto simp: ex_no_root_parse root_name_def llama_grammar_init_str_def llama_grammar_init_rules_def initial_stacks_def)

end
