(* ===== verification/TokExamples.thy ===== *)
theory TokExamples
  imports Examples TokBpe TokSpm TokGreedy
begin

text \<open>
  Small vocabularies, built by the loader from lists of texts, and what they are for the tokenizers.
\<close>

definition blank_vocab :: "llama_vocab_type \<Rightarrow> int llama_vocab" where
  "blank_vocab ty =
     \<lparr>vo_type = ty, vo_add_space_prefix = False, vo_add_bos = False, vo_add_eos = False, vo_ignore_merges = False,
      vo_clean_spaces = False, vo_remove_extra_whitespaces = False, vo_escape_whitespaces = True,
      vo_treat_whitespace_as_suffix = False, vo_max_token_len = 0, vo_bos_id = -1, vo_eos_id = -1, vo_unk_id = 0,
      vo_sep_id = -1, vo_token_to_id = [], vo_id_to_token = [], vo_special_tokens = [], vo_piece_cache = [],
      vo_bpe_ranks = []\<rparr>"

definition built :: "llama_vocab_type \<Rightarrow> byte list list \<Rightarrow> int list option \<Rightarrow> byte list list \<Rightarrow> int llama_vocab" where
  "built ty ws types merges = load_merges merges (the (load_tokens ws None types (blank_vocab ty)))"

definition ex_bpe :: "int llama_vocab" where
  "ex_bpe = built Vocab_BPE [[97], [98], [97, 98]] None [[97, 32, 98]]"

definition ex_spm :: "int llama_vocab" where
  "ex_spm = built Vocab_SPM [escaped_space, [98], escaped_space @ [98], hex_name 32, hex_name 98] (Some [1, 1, 1, 6, 6]) []"

definition ex_rwkv :: "int llama_vocab" where
  "ex_rwkv = built Vocab_RWKV [[97], [98], [97, 98]] None []"

definition ex_rwkv_gap :: "int llama_vocab" where
  "ex_rwkv_gap = built Vocab_RWKV [[97, 98]] None []"

definition ex_wpm :: "int llama_vocab" where
  "ex_wpm = built Vocab_WPM [escaped_space @ [97], [98]] None []"

lemmas built_simps = Let_def find_sub.simps str_find_def cut_merge_def emplace_def built_def blank_vocab_def load_tokens_def load_merges_def array_read_def attr_of_type_def

lemma ex_bpe_eq:
  "ex_bpe = (blank_vocab Vocab_BPE)\<lparr>vo_max_token_len := 2, vo_token_to_id := [([97], 0), ([98], 1), ([97, 98], 2)],
     vo_id_to_token := [\<lparr>td_text = [97], td_score = 0, td_attr = ATTR_NORMAL\<rparr>,
       \<lparr>td_text = [98], td_score = 0, td_attr = ATTR_NORMAL\<rparr>, \<lparr>td_text = [97, 98], td_score = 0, td_attr = ATTR_NORMAL\<rparr>],
     vo_bpe_ranks := [(([97], [98]), 0)]\<rparr>"
  by (simp add: ex_bpe_def built_simps replicate_Suc numeral_2_eq_2 numeral_3_eq_3)

lemma ex_spm_eq:
  "ex_spm = (blank_vocab Vocab_SPM)\<lparr>vo_max_token_len := 6, vo_token_to_id :=
       [(escaped_space, 0), ([98], 1), (escaped_space @ [98], 2), (hex_name 32, 3), (hex_name 98, 4)],
     vo_id_to_token := [\<lparr>td_text = escaped_space, td_score = 0, td_attr = ATTR_NORMAL\<rparr>,
       \<lparr>td_text = [98], td_score = 0, td_attr = ATTR_NORMAL\<rparr>, \<lparr>td_text = escaped_space @ [98], td_score = 0, td_attr = ATTR_NORMAL\<rparr>,
       \<lparr>td_text = hex_name 32, td_score = 0, td_attr = ATTR_BYTE\<rparr>, \<lparr>td_text = hex_name 98, td_score = 0, td_attr = ATTR_BYTE\<rparr>]\<rparr>"
  by (simp add: ex_spm_def built_simps replicate_Suc numeral_2_eq_2 numeral_3_eq_3 escaped_space_def hex_name_def hex_digit_def)

lemma ex_rwkv_eq:
  "ex_rwkv = (blank_vocab Vocab_RWKV)\<lparr>vo_max_token_len := 2, vo_token_to_id := [([97], 0), ([98], 1), ([97, 98], 2)],
     vo_id_to_token := [\<lparr>td_text = [97], td_score = 0, td_attr = ATTR_NORMAL\<rparr>,
       \<lparr>td_text = [98], td_score = 0, td_attr = ATTR_NORMAL\<rparr>, \<lparr>td_text = [97, 98], td_score = 0, td_attr = ATTR_NORMAL\<rparr>]\<rparr>"
  by (simp add: ex_rwkv_def built_simps replicate_Suc numeral_2_eq_2 numeral_3_eq_3)

lemma ex_rwkv_gap_eq:
  "ex_rwkv_gap = (blank_vocab Vocab_RWKV)\<lparr>vo_max_token_len := 2, vo_token_to_id := [([97, 98], 0)],
     vo_id_to_token := [\<lparr>td_text = [97, 98], td_score = 0, td_attr = ATTR_NORMAL\<rparr>]\<rparr>"
  by (simp add: ex_rwkv_gap_def built_simps)

lemma built_ok: "load_tokens ws None types (blank_vocab ty) \<noteq> None \<Longrightarrow> vocab_ok (built ty ws types merges) \<and> max_len_ok (built ty ws types merges)"
  using load_tokens_ok(1) [of ws None types "blank_vocab ty"] load_tokens_max [of ws None types "blank_vocab ty"]
  by (auto simp: built_def vocab_ok_def max_len_ok_def load_merges_def n_tokens_def blank_vocab_def)

lemma ex_vocab_ok: "vocab_ok ex_bpe" "vocab_ok ex_spm" "vocab_ok ex_wpm" "max_len_ok ex_wpm"
proof -
  show "vocab_ok ex_bpe" unfolding ex_bpe_def
    by (rule built_ok [THEN conjunct1]) (simp add: built_simps replicate_Suc numeral_3_eq_3)
  show "vocab_ok ex_spm" unfolding ex_spm_def
    by (rule built_ok [THEN conjunct1]) (simp add: built_simps replicate_Suc escaped_space_def hex_name_def hex_digit_def)
  show "vocab_ok ex_wpm" "max_len_ok ex_wpm" unfolding ex_wpm_def
    using built_ok [of "[escaped_space @ [97], [98]]" None Vocab_WPM "[]"] by (simp_all add: built_simps replicate_Suc escaped_space_def)
qed

lemma plain_attrs: "plain_attr ATTR_NORMAL" "\<not> plain_attr ATTR_BYTE"
  by (simp_all add: plain_attr_def attr_bits ATTR_special_def)

lemma ex_bpe_vocab: "bpe_vocab ex_bpe [97, 98]"
proof -
  have "unicode_byte_to_utf8 97 = Some [97]" "unicode_byte_to_utf8 98 = Some [98]"
    by (simp_all add: byte_to_utf8 byte_code_def byte_ranges_def unicode_cpt_to_utf8_def)
  then show ?thesis unfolding bpe_vocab_def
    using ex_vocab_ok(1) by (simp add: ex_bpe_eq blank_vocab_def plain_attrs)
qed

text \<open>The names of the byte tokens cannot come out of merging: no cut of one is two texts that can.\<close>

lemma hex_names: "hex_name 32 = [60, 48, 120, 50, 48, 62]" "hex_name 98 = [60, 48, 120, 54, 50, 62]"
  by (simp_all add: hex_name_def hex_digit_def)

lemma ex_spm_formable: "formable ex_spm p \<longleftrightarrow> char_ok p \<or> p \<in> {escaped_space, [98], escaped_space @ [98], hex_name 32, hex_name 98}"
  by (simp add: formable_def ex_spm_eq blank_vocab_def)

lemma ex_spm_hex:
  assumes "d \<in> {50, 54}" "e \<in> {48, 50}" "[60, 48, 120, d, e, 62] = a @ b"
  shows "\<not> (formable ex_spm a \<and> formable ex_spm b)"
proof -
  have "length a + length b = 6" using arg_cong [OF assms(3), of length] by simp
  then have le: "length a \<le> 6" by simp
  have "a = take (length a) [60, 48, 120, d, e, 62]" "b = drop (length a) [60, 48, 120, d, e, 62]"
    unfolding assms(3) by simp_all
  moreover have "length a = 0 \<or> length a = 1 \<or> length a = 2 \<or> length a = 3 \<or> length a = 4 \<or> length a = 5 \<or> length a = 6"
    using le by linarith
  ultimately show ?thesis using assms(1,2)
    by (elim disjE) (simp_all add: ex_spm_formable char_ok_def escaped_space_def hex_names unicode_len_ranges)
qed

lemma ex_spm_vocab: "spm_vocab ex_spm [32, 98]"
proof -
  have len: "n_tokens ex_spm = 5" by (simp add: ex_spm_eq blank_vocab_def n_tokens_def)
  have byte: "td_text (vo_id_to_token ex_spm ! 3) = hex_name 32" "td_attr (vo_id_to_token ex_spm ! 3) = ATTR_BYTE"
    "td_text (vo_id_to_token ex_spm ! 4) = hex_name 98" "td_attr (vo_id_to_token ex_spm ! 4) = ATTR_BYTE"
    by (simp_all add: ex_spm_eq blank_vocab_def)
  have "\<exists>i < n_tokens ex_spm. td_text (vo_id_to_token ex_spm ! i) = hex_name b \<and> td_attr (vo_id_to_token ex_spm ! i) = ATTR_BYTE"
    if "b \<in> set [32, 98]" for b
    using that byte len by (auto intro: exI [of _ 3] exI [of _ 4])
  moreover have "td_text d = hex_name 32 \<or> td_text d = hex_name 98" if "d \<in> set (vo_id_to_token ex_spm)" "\<not> plain_attr (td_attr d)" for d
    using that by (auto simp: ex_spm_eq blank_vocab_def plain_attrs)
  moreover have "\<not> char_ok (hex_name 32)" "\<not> char_ok (hex_name 98)" by (simp_all add: hex_names char_ok_def)
  moreover have "\<not> (formable ex_spm a \<and> formable ex_spm b)" if "hex_name 32 = a @ b \<or> hex_name 98 = a @ b" for a b
    using that ex_spm_hex [of 50 48 a b] ex_spm_hex [of 54 50 a b] by (auto simp: hex_names)
  moreover have "vo_type ex_spm = Vocab_SPM" "map_of (vo_token_to_id ex_spm) escaped_space \<noteq> None"
    by (simp_all add: ex_spm_eq blank_vocab_def)
  ultimately show ?thesis unfolding spm_vocab_def using ex_vocab_ok(2) by metis
qed

text \<open>For the trie: texts without escapes stand for themselves.\<close>

lemma ex_rwkv_texts:
  "n_tokens ex_rwkv = 3" "llama_unescape_rwkv_token (td_text (vo_id_to_token ex_rwkv ! 0)) = [97]"
  "llama_unescape_rwkv_token (td_text (vo_id_to_token ex_rwkv ! 1)) = [98]"
  "llama_unescape_rwkv_token (td_text (vo_id_to_token ex_rwkv ! 2)) = [97, 98]"
  by (simp_all add: ex_rwkv_eq blank_vocab_def n_tokens_def llama_unescape_rwkv_token_def)

lemma ex_rwkv_gap_texts:
  "n_tokens ex_rwkv_gap = 1" "llama_unescape_rwkv_token (td_text (vo_id_to_token ex_rwkv_gap ! 0)) = [97, 98]"
  by (simp_all add: ex_rwkv_gap_eq blank_vocab_def n_tokens_def llama_unescape_rwkv_token_def)

lemma ex_rwkv_load: "load_tokens [[97], [98], [97, 98]] None None (blank_vocab Vocab_RWKV) = Some ex_rwkv"
  by (simp add: ex_rwkv_def built_simps replicate_Suc numeral_3_eq_3)

lemma ex_wpm_cpt: "c \<in> {97, 98} \<Longrightarrow> preprocess_cpt ex_data ex_flags c ws = Some (butlast ws @ [last ws @ [c]])"
proof -
  assume c: "c \<in> {97, 98}"
  have "unicode_cpt_flags_from_cpt ex_flags c = 4" using c by (auto simp: unicode_cpt_flags_from_cpt_def ex_flags_def MAX_CODEPOINTS_def)
  moreover have "unicode_tolower ex_data c = c" "unicode_cpt_to_utf8 c = Some [c]" "\<not> is_chinese_char c"
    using c by (auto simp: unicode_tolower_def ex_data_def unicode_cpt_to_utf8_def is_chinese_char_def)
  moreover have "\<not> is_whitespace 4" "\<not> is_control 4" "\<not> is_punctuation 4" "\<not> is_symbol 4"
    by (simp_all add: is_whitespace_def is_control_def is_punctuation_def is_symbol_def)
  ultimately show ?thesis using c by (auto simp: preprocess_cpt_def)
qed

lemma ex_wpm_words: "wpm_preprocess ex_data ex_flags [97, 98] = Some [[97, 98]]"
proof -
  have "unicode_cpts_from_utf8 [97, 98] = [97, 98]"
    by (rule cpts_from_utf8_encode) (simp add: unicode_cpt_to_utf8_def)
  moreover have "unicode_cpts_normalize_nfd ex_data [97, 98] = Some [97, 98]"
    by (simp add: normalize_cpt_def ex_data_def)
  ultimately show ?thesis by (simp add: wpm_preprocess_def ex_wpm_cpt del: unicode_cpts_normalize_nfd.simps)
qed

end
