(* ===== verification/AllocDyn.thy ===== *)
theory AllocDyn
  imports Prelude
begin

text \<open>
  The dynamic tensor allocator of \<^verbatim>\<open>ggml/src/ggml-alloc.c\<close> (\<open>ggml_dyn_tallocr\<close>), which
  hands out offsets in a buffer that does not exist yet, and the bump allocator \<open>ggml_tallocr\<close>.

  A \<open>size_t\<close> is a natural number below \<^verbatim>\<open>2^64\<close>, and the additions and subtractions of the code
  wrap (\<open>u64_add\<close>, \<open>u64_sub\<close>). The array \<open>free_blocks\<close> with its counter \<open>n_free_blocks\<close> is the list
  of the first \<open>n_free_blocks\<close> entries: the entries behind them are never read. An abort is \<open>None\<close>.

  The specification is the set of the blocks in use, a set of pairs (offset, size): the free blocks
  and the used blocks partition the address range \<open>0 ..< SIZE_MAX / 2\<close>. The list of free blocks is
  sorted with a gap between any two of them, which makes it a function of the used set.
\<close>

subsection \<open>size\_t\<close>

abbreviation U64 :: nat where
  "U64 \<equiv> 18446744073709551616"

definition size_max :: nat where
  "size_max = 18446744073709551615"

definition u64_add :: "nat \<Rightarrow> nat \<Rightarrow> nat" where
  "u64_add a b = (a + b) mod U64"

definition u64_sub :: "nat \<Rightarrow> nat \<Rightarrow> nat" where
  "u64_sub a b = (a + (U64 - b mod U64)) mod U64"

named_theorems u64_simps
  \<open>rules that remove the wrap-around of a size where the values are in range\<close>

lemma u64_add_exact [u64_simps]: "a + b < U64 \<Longrightarrow> u64_add a b = a + b"
  by (simp add: u64_add_def)

lemma u64_sub_exact [u64_simps]: "b \<le> a \<Longrightarrow> a < U64 \<Longrightarrow> u64_sub a b = a - b"
proof -
  assume *: "b \<le> a" "a < U64"
  then have "a + (U64 - b mod U64) = (a - b) + U64" by simp
  moreover have "((a - b) + U64) mod U64 = a - b"
    using * by (simp only: mod_add_self2) simp
  ultimately show ?thesis by (simp only: u64_sub_def)
qed

subsection \<open>Alignment\<close>

definition aligned_offset :: "nat \<Rightarrow> nat \<Rightarrow> nat \<Rightarrow> nat" where
  "aligned_offset buffer off alignment =
     (let align = (u64_sub alignment (u64_add buffer off mod alignment)) mod alignment
      in u64_add off align)"

text \<open>The size in bytes that a request for \<open>n\<close> bytes takes: the next multiple of the alignment.\<close>

definition padded :: "nat \<Rightarrow> nat \<Rightarrow> nat" where
  "padded al n = (if n mod al = 0 then n else n + (al - n mod al))"

lemma padded_dvd: "0 < al \<Longrightarrow> al dvd padded al n"
proof -
  assume "0 < al"
  show ?thesis
  proof (cases "n mod al = 0")
    case False
    have "n + (al - n mod al) = n div al * al + al"
      using mod_less_divisor [OF \<open>0 < al\<close>, of n] div_mult_mod_eq [of n al] by linarith
    then show ?thesis using False by (simp add: padded_def)
  qed (simp add: padded_def mod_eq_0_iff_dvd)
qed

lemma padded_ge: "n \<le> padded al n"
  by (simp add: padded_def)

lemma padded_less: "0 < al \<Longrightarrow> padded al n < n + al"
  by (auto simp: padded_def)

lemma padded_pos [simp]: "0 < n \<Longrightarrow> 0 < padded al n"
  by (simp add: padded_def)

lemma aligned_offset_padded:
  assumes "0 < al" "al < U64" "n < U64" "padded al n < U64"
  shows "aligned_offset 0 n al = padded al n"
proof -
  have lt: "n mod al < al" using assms(1) by simp
  have 1: "u64_add 0 n = n" using assms(3) by (simp add: u64_simps)
  have 2: "u64_sub al (n mod al) = al - n mod al" using lt assms(2) by (simp add: u64_simps)
  show ?thesis
  proof (cases "n mod al = 0")
    case True
    then show ?thesis using assms by (simp add: aligned_offset_def 1 2 padded_def u64_simps)
  next
    case False
    then have "(al - n mod al) mod al = al - n mod al" using lt by simp
    then show ?thesis using assms False
      by (simp add: aligned_offset_def 1 2 padded_def u64_simps)
  qed
qed

subsection \<open>The allocator\<close>

record free_block =
  fb_off :: nat
  fb_size :: nat

record dyn_tallocr =
  dt_alignment :: nat
  dt_free :: "free_block list"
  dt_max :: nat

definition max_free_blocks :: nat where
  "max_free_blocks = 256"

definition dyn_reset :: "dyn_tallocr \<Rightarrow> dyn_tallocr" where
  "dyn_reset a = a \<lparr>dt_free := [\<lparr>fb_off = 0, fb_size = size_max div 2\<rparr>], dt_max := 0\<rparr>"

definition dyn_new :: "nat \<Rightarrow> dyn_tallocr" where
  "dyn_new al = dyn_reset \<lparr>dt_alignment = al, dt_free = [], dt_max = 0\<rparr>"

definition dyn_max_size :: "dyn_tallocr \<Rightarrow> nat" where
  "dyn_max_size a = dt_max a"

text \<open>The loop over all free blocks but the last; of two best blocks the later one is taken.\<close>

fun best_fit_loop :: "nat \<Rightarrow> nat \<Rightarrow> free_block list \<Rightarrow> nat option \<Rightarrow> nat \<Rightarrow> nat option" where
  "best_fit_loop sz i [] best best_size = best"
| "best_fit_loop sz i (b # bs) best best_size =
     (if sz \<le> fb_size b \<and> fb_size b \<le> best_size
      then best_fit_loop sz (Suc i) bs (Some i) (fb_size b)
      else best_fit_loop sz (Suc i) bs best best_size)"

definition choose_block :: "free_block list \<Rightarrow> nat \<Rightarrow> nat option" where
  "choose_block fbs sz =
     (case best_fit_loop sz 0 (butlast fbs) None size_max of
        Some i \<Rightarrow> Some i
      | None \<Rightarrow> if fbs \<noteq> [] \<and> sz \<le> fb_size (last fbs) then Some (length fbs - 1) else None)"

definition take_block :: "free_block list \<Rightarrow> nat \<Rightarrow> nat \<Rightarrow> free_block list" where
  "take_block fbs i sz =
     (let b = fbs ! i;
          b' = \<lparr>fb_off = u64_add (fb_off b) sz, fb_size = u64_sub (fb_size b) sz\<rparr>
      in if fb_size b' = 0 then take i fbs @ drop (Suc i) fbs else fbs[i := b'])"

definition dyn_alloc :: "dyn_tallocr \<Rightarrow> nat \<Rightarrow> (nat \<times> dyn_tallocr) option" where
  "dyn_alloc a n =
     (let sz = aligned_offset 0 n (dt_alignment a) in
      case choose_block (dt_free a) sz of
        None \<Rightarrow> None
      | Some i \<Rightarrow>
          (let off = fb_off (dt_free a ! i) in
           Some (off, a \<lparr>dt_free := take_block (dt_free a) i sz,
                         dt_max := max (dt_max a) (u64_add off sz)\<rparr>)))"

text \<open>The merging loop of the free: \<open>pre\<close> holds the blocks before the index.\<close>

definition fb_end :: "free_block \<Rightarrow> nat" where
  "fb_end b = u64_add (fb_off b) (fb_size b)"

definition grow :: "free_block \<Rightarrow> nat \<Rightarrow> free_block" where
  "grow b n = b \<lparr>fb_size := u64_add (fb_size b) n\<rparr>"

fun free_merge :: "free_block list \<Rightarrow> free_block list \<Rightarrow> nat \<Rightarrow> nat \<Rightarrow> free_block list option" where
  "free_merge pre [] off sz = None"
| "free_merge pre (b # bs) off sz =
     (if fb_end b = off then
        (let b' = grow b sz in
         if bs \<noteq> [] \<and> fb_end b' = fb_off (hd bs)
         then Some (pre @ grow b' (fb_size (hd bs)) # tl bs)
         else Some (pre @ b' # bs))
      else if u64_add off sz = fb_off b then
        (let b' = grow (b \<lparr>fb_off := off\<rparr>) sz in
         if pre \<noteq> [] \<and> fb_end (last pre) = fb_off b'
         then Some (butlast pre @ grow (last pre) (fb_size b') # bs)
         else Some (pre @ b' # bs))
      else free_merge (pre @ [b]) bs off sz)"

definition insert_block :: "free_block list \<Rightarrow> nat \<Rightarrow> nat \<Rightarrow> free_block list" where
  "insert_block fbs off sz =
     takeWhile (\<lambda>b. fb_off b < off) fbs @ \<lparr>fb_off = off, fb_size = sz\<rparr> #
     dropWhile (\<lambda>b. fb_off b < off) fbs"

definition dyn_free :: "dyn_tallocr \<Rightarrow> nat \<Rightarrow> nat \<Rightarrow> dyn_tallocr option" where
  "dyn_free a off n =
     (let sz = aligned_offset 0 n (dt_alignment a) in
      case free_merge [] (dt_free a) off sz of
        Some fbs \<Rightarrow> Some (a \<lparr>dt_free := fbs\<rparr>)
      | None \<Rightarrow>
          if length (dt_free a) < max_free_blocks
          then Some (a \<lparr>dt_free := insert_block (dt_free a) off sz\<rparr>)
          else None)"

subsection \<open>The free list\<close>

definition arena :: nat where
  "arena = size_max div 2"

definition cover :: "free_block list \<Rightarrow> nat set" where
  "cover fbs = (\<Union>b\<in>set fbs. {fb_off b ..< fb_off b + fb_size b})"

definition blocks_ok :: "free_block list \<Rightarrow> bool" where
  "blocks_ok fbs \<longleftrightarrow> sorted_wrt (\<lambda>a b. fb_off a + fb_size a < fb_off b) fbs \<and>
     (\<forall>b \<in> set fbs. 0 < fb_size b \<and> fb_off b + fb_size b \<le> arena)"

lemma arena_val: "arena = 9223372036854775807"
  by (simp add: arena_def size_max_def)

lemma arena_add: "x \<le> arena \<Longrightarrow> y \<le> arena \<Longrightarrow> u64_add x y = x + y"
  by (simp add: arena_val u64_simps)

lemma cover_simps [simp]:
  "cover [] = {}"
  "cover (b # bs) = {fb_off b ..< fb_off b + fb_size b} \<union> cover bs"
  "cover (xs @ ys) = cover xs \<union> cover ys"
  by (auto simp: cover_def)

lemma blocks_ok_simps [simp]:
  "blocks_ok []"
  "blocks_ok (b # bs) \<longleftrightarrow> 0 < fb_size b \<and> fb_off b + fb_size b \<le> arena \<and>
     (\<forall>c \<in> set bs. fb_off b + fb_size b < fb_off c) \<and> blocks_ok bs"
  "blocks_ok (xs @ ys) \<longleftrightarrow> blocks_ok xs \<and> blocks_ok ys \<and>
     (\<forall>b \<in> set xs. \<forall>c \<in> set ys. fb_off b + fb_size b < fb_off c)"
  by (auto simp: blocks_ok_def sorted_wrt_append)

lemma blocks_okD: "blocks_ok fbs \<Longrightarrow> b \<in> set fbs \<Longrightarrow> 0 < fb_size b \<and> fb_off b + fb_size b \<le> arena"
  by (simp add: blocks_ok_def)

lemma fb_end_ok: "fb_off b + fb_size b \<le> arena \<Longrightarrow> fb_end b = fb_off b + fb_size b"
  by (simp add: fb_end_def arena_val u64_simps)

lemma grow_ok: "fb_size b + n \<le> arena \<Longrightarrow> grow b n = b \<lparr>fb_size := fb_size b + n\<rparr>"
  by (simp add: grow_def arena_val u64_simps)

lemma cover_mem: "b \<in> set fbs \<Longrightarrow> fb_off b \<le> x \<Longrightarrow> x < fb_off b + fb_size b \<Longrightarrow> x \<in> cover fbs"
  by (auto simp: cover_def)

lemma cover_le: "blocks_ok fbs \<Longrightarrow> cover fbs \<subseteq> {0 ..< arena}"
  by (fastforce simp: cover_def blocks_ok_def)

text \<open>The free list is a function of the free bytes.\<close>

lemma cover_first:
  assumes "blocks_ok (b # bs)"
  shows "fb_off b \<in> cover (b # bs)" "\<And>x. x \<in> cover (b # bs) \<Longrightarrow> fb_off b \<le> x"
    "fb_off b + fb_size b \<notin> cover (b # bs)"
    "\<And>x. fb_off b \<le> x \<Longrightarrow> x < fb_off b + fb_size b \<Longrightarrow> x \<in> cover (b # bs)"
  using assms by (fastforce simp: cover_def)+

lemma blocks_ok_canonical:
  assumes "blocks_ok xs" "blocks_ok ys" "cover xs = cover ys"
  shows "xs = ys"
  using assms
proof (induction xs arbitrary: ys)
  case Nil
  then show ?case by (cases ys) auto
next
  case (Cons b bs)
  from Cons.prems obtain c cs where ys: "ys = c # cs" by (cases ys) auto
  note b = cover_first [OF Cons.prems(1)]
  note c = cover_first [OF Cons.prems(2) [unfolded ys]]
  note eq = Cons.prems(3) [unfolded ys]
  have off: "fb_off b = fb_off c"
    using b(1,2) c(1,2) eq by (metis le_antisym)
  have size: "fb_size b = fb_size c"
  proof (rule ccontr)
    assume "fb_size b \<noteq> fb_size c"
    then consider "fb_size b < fb_size c" | "fb_size c < fb_size b" by linarith
    then show False
    proof cases
      case 1
      have "fb_off b + fb_size b \<in> cover (c # cs)" by (rule c(4)) (use 1 off in simp_all)
      with b(3) [unfolded eq] show False by contradiction
    next
      case 2
      have "fb_off c + fb_size c \<in> cover (b # bs)" by (rule b(4)) (use 2 off in simp_all)
      with c(3) [folded eq] show False by contradiction
    qed
  qed
  have bc: "b = c" using off size by (simp add: free_block.equality)
  have "cover bs = cover (b # bs) - {fb_off b ..< fb_off b + fb_size b}"
    using Cons.prems(1) by (fastforce simp: cover_def)
  moreover have "cover cs = cover (c # cs) - {fb_off c ..< fb_off c + fb_size c}"
    using Cons.prems(2) ys by (fastforce simp: cover_def)
  ultimately have "cover bs = cover cs" using eq bc by simp
  then have "bs = cs" using Cons.IH Cons.prems ys by simp
  then show ?case by (simp add: ys bc)
qed

subsection \<open>Choosing and splitting a block\<close>

lemma best_fit_loop_spec:
  assumes "best_fit_loop sz i bs best best_size = Some k" "best = None \<or> best = Some j"
  shows "(best = Some k) \<or> (i \<le> k \<and> k < i + length bs \<and> sz \<le> fb_size (bs ! (k - i)))"
  using assms
proof (induction bs arbitrary: i best best_size j)
  case Nil
  then show ?case by simp
next
  case (Cons b bs)
  show ?case
  proof (cases "sz \<le> fb_size b \<and> fb_size b \<le> best_size")
    case True
    then have "Some i = Some k \<or> (Suc i \<le> k \<and> k < Suc i + length bs \<and> sz \<le> fb_size (bs ! (k - Suc i)))"
      using Cons.IH [of "Suc i" "Some i" "fb_size b" i] Cons.prems by simp
    then show ?thesis using True by (auto simp: nth_Cons')
  next
    case False
    then have "best = Some k \<or> (Suc i \<le> k \<and> k < Suc i + length bs \<and> sz \<le> fb_size (bs ! (k - Suc i)))"
      using Cons.IH [of "Suc i" best best_size j] Cons.prems by auto
    then show ?thesis by (auto simp: nth_Cons')
  qed
qed

lemma choose_block_fits:
  assumes "choose_block fbs sz = Some i"
  shows "i < length fbs" "sz \<le> fb_size (fbs ! i)"
proof -
  have "i < length fbs \<and> sz \<le> fb_size (fbs ! i)"
  proof (cases "best_fit_loop sz 0 (butlast fbs) None size_max")
    case None
    then show ?thesis using assms by (auto simp: choose_block_def last_conv_nth split: if_splits)
  next
    case (Some k)
    then have "k = i" using assms by (simp add: choose_block_def)
    then show ?thesis using best_fit_loop_spec [OF Some] by (auto simp: nth_butlast)
  qed
  then show "i < length fbs" "sz \<le> fb_size (fbs ! i)" by auto
qed

text \<open>The best block is the smallest that fits; \<open>bs\<close> has no larger sizes than \<open>size_max\<close>.\<close>

lemma best_fit_loop_some:
  "best_fit_loop sz i bs (Some j) n \<noteq> None"
  by (induction bs arbitrary: i j n) auto

lemma best_fit_loop_none:
  assumes "best_fit_loop sz i bs None n = None" "\<forall>b \<in> set bs. fb_size b \<le> n"
  shows "\<forall>b \<in> set bs. fb_size b < sz"
  using assms by (induction bs arbitrary: i) (auto simp: best_fit_loop_some split: if_splits)

lemma best_fit_loop_least_some:
  assumes "best_fit_loop sz i bs (Some j) n = Some k"
  shows "\<exists>r. (k = j \<and> r = n \<or> i \<le> k \<and> r = fb_size (bs ! (k - i))) \<and> r \<le> n \<and>
    (\<forall>b \<in> set bs. sz \<le> fb_size b \<longrightarrow> r \<le> fb_size b)"
  using assms
proof (induction bs arbitrary: i j n)
  case Nil
  then show ?case by auto
next
  case (Cons b bs)
  show ?case
  proof (cases "sz \<le> fb_size b \<and> fb_size b \<le> n")
    case True
    then have l: "best_fit_loop sz (Suc i) bs (Some i) (fb_size b) = Some k" using Cons.prems by simp
    obtain r where "k = i \<and> r = fb_size b \<or> Suc i \<le> k \<and> r = fb_size (bs ! (k - Suc i))"
      "r \<le> fb_size b" "\<forall>b \<in> set bs. sz \<le> fb_size b \<longrightarrow> r \<le> fb_size b"
      using Cons.IH [OF l] by blast
    then show ?thesis using True by (intro exI [of _ r]) (auto simp: nth_Cons')
  next
    case False
    then have l: "best_fit_loop sz (Suc i) bs (Some j) n = Some k" using Cons.prems by auto
    obtain r where "k = j \<and> r = n \<or> Suc i \<le> k \<and> r = fb_size (bs ! (k - Suc i))"
      "r \<le> n" "\<forall>b \<in> set bs. sz \<le> fb_size b \<longrightarrow> r \<le> fb_size b"
      using Cons.IH [OF l] by blast
    then show ?thesis using False by (intro exI [of _ r]) (auto simp: nth_Cons')
  qed
qed

lemma best_fit_loop_least:
  assumes "best_fit_loop sz i bs None n = Some k" "\<forall>b \<in> set bs. fb_size b \<le> n"
  shows "\<forall>b \<in> set bs. sz \<le> fb_size b \<longrightarrow> fb_size (bs ! (k - i)) \<le> fb_size b"
  using assms
proof (induction bs arbitrary: i)
  case Nil
  then show ?case by simp
next
  case (Cons b bs)
  show ?case
  proof (cases "sz \<le> fb_size b")
    case True
    then have l: "best_fit_loop sz (Suc i) bs (Some i) (fb_size b) = Some k" using Cons.prems by simp
    obtain r where r: "k = i \<and> r = fb_size b \<or> Suc i \<le> k \<and> r = fb_size (bs ! (k - Suc i))"
      "r \<le> fb_size b" "\<forall>b \<in> set bs. sz \<le> fb_size b \<longrightarrow> r \<le> fb_size b"
      using best_fit_loop_least_some [OF l] by blast
    then have "r = fb_size ((b # bs) ! (k - i))" by (auto simp: nth_Cons')
    then show ?thesis using r by auto
  next
    case False
    then have l: "best_fit_loop sz (Suc i) bs None n = Some k" using Cons.prems by simp
    have "Suc i \<le> k" using best_fit_loop_spec [OF l] by simp
    then show ?thesis using Cons.IH [OF l] Cons.prems False by (auto simp: nth_Cons')
  qed
qed

lemma blocks_ok_apart:
  assumes "blocks_ok (pre @ b # post)"
  shows "x \<in> cover pre \<Longrightarrow> x < fb_off b" "x \<in> cover post \<Longrightarrow> fb_off b + fb_size b < x"
  using assms by (fastforce simp: cover_def)+

lemma take_block_split:
  assumes "blocks_ok fbs" "i < length fbs" "sz \<le> fb_size (fbs ! i)"
  defines "b \<equiv> fbs ! i"
  shows "take_block fbs i sz = take i fbs @
    (if fb_size b = sz then [] else [\<lparr>fb_off = fb_off b + sz, fb_size = fb_size b - sz\<rparr>]) @ drop (Suc i) fbs"
proof -
  have "0 < fb_size b \<and> fb_off b + fb_size b \<le> arena"
    unfolding b_def by (rule blocks_okD [OF assms(1) nth_mem [OF assms(2)]])
  then have "u64_add (fb_off b) sz = fb_off b + sz" "u64_sub (fb_size b) sz = fb_size b - sz"
    using assms(3) by (auto simp: b_def [symmetric] arena_val u64_simps)
  then show ?thesis
    using assms(2,3) by (auto simp: take_block_def Let_def b_def [symmetric] upd_conv_take_nth_drop)
qed

lemma take_block_ok:
  assumes "blocks_ok fbs" "i < length fbs" "sz \<le> fb_size (fbs ! i)" "0 < sz"
  defines "b \<equiv> fbs ! i"
  shows "blocks_ok (take_block fbs i sz)"
    "cover (take_block fbs i sz) = cover fbs - {fb_off b ..< fb_off b + sz}"
    "{fb_off b ..< fb_off b + sz} \<subseteq> cover fbs"
    "\<And>c. c \<in> set (take_block fbs i sz) \<Longrightarrow> c \<in> set fbs \<or> fb_off c = fb_off b + sz"
    "length (take_block fbs i sz) \<le> length fbs"
proof -
  have split: "fbs = take i fbs @ b # drop (Suc i) fbs"
    using assms(2) by (simp add: id_take_nth_drop b_def)
  have ok: "blocks_ok (take i fbs @ b # drop (Suc i) fbs)" using assms(1) split by simp
  have sz: "sz \<le> fb_size b" using assms(3) by (simp add: b_def)
  note tb = take_block_split [OF assms(1-3), folded b_def]
  show "blocks_ok (take_block fbs i sz)" using ok sz assms(4) by (auto simp: tb)
  have "cover (take_block fbs i sz) = cover (take i fbs @ b # drop (Suc i) fbs) - {fb_off b ..< fb_off b + sz}"
    unfolding tb using sz by (auto dest!: blocks_ok_apart [OF ok])
  then show "cover (take_block fbs i sz) = cover fbs - {fb_off b ..< fb_off b + sz}" using split by simp
  show "{fb_off b ..< fb_off b + sz} \<subseteq> cover fbs"
    by (subst split) (use sz in auto)
  show "c \<in> set (take_block fbs i sz) \<Longrightarrow> c \<in> set fbs \<or> fb_off c = fb_off b + sz" for c
    by (auto simp: tb dest: in_set_takeD in_set_dropD split: if_splits)
  show "length (take_block fbs i sz) \<le> length fbs" using assms(2) by (simp add: tb)
qed

subsection \<open>Giving a block back\<close>

text \<open>
  The interval \<open>off ..< off + sz\<close> is not free; the blocks already passed neither end where it begins
  nor begin where it ends. The branch that merges with the previous block is never taken: the
  previous block would have matched first.
\<close>

lemma free_merge_some:
  assumes "free_merge pre bs off sz = Some r" "blocks_ok (pre @ bs)"
    "\<forall>b \<in> set (pre @ bs). fb_off b + fb_size b \<le> off \<or> off + sz \<le> fb_off b"
    "0 < sz" "off + sz \<le> arena"
    "\<forall>b \<in> set pre. fb_off b + fb_size b < off \<or> off + sz < fb_off b"
  shows "blocks_ok r \<and> cover r = cover (pre @ bs) \<union> {off ..< off + sz} \<and> length r \<le> length (pre @ bs) \<and>
    (\<forall>b \<in> set r. fb_off b = off \<or> (\<exists>c \<in> set (pre @ bs). fb_off b = fb_off c))"
  using assms
proof (induction pre bs off sz rule: free_merge.induct)
  case (1 pre off sz)
  then show ?case by simp
next
  case (2 pre b bs off sz)
  have eb: "fb_end b = fb_off b + fb_size b" using "2.prems"(2) by (simp add: fb_end_ok)
  have os: "u64_add off sz = off + sz" using "2.prems"(5) by (simp add: arena_val u64_simps)
  show ?case
  proof (cases "fb_end b = off")
    case True
    have lenb: "fb_off b + (fb_size b + sz) \<le> arena" using True eb "2.prems"(5) by simp
    then have g: "grow b sz = b \<lparr>fb_size := fb_size b + sz\<rparr>" by (intro grow_ok) simp
    have e: "fb_end (grow b sz) = off + sz" using lenb True eb by (simp add: g fb_end_ok)
    show ?thesis
    proof (cases "bs \<noteq> [] \<and> off + sz = fb_off (hd bs)")
      case False
      then have r: "r = pre @ grow b sz # bs" using "2.prems"(1) True e by (auto simp: Let_def)
      have "\<forall>c \<in> set bs. off + sz < fb_off c"
      proof (cases bs)
        case (Cons c cs)
        then have "off < fb_off c" "off + sz \<le> fb_off c" "off + sz \<noteq> fb_off c"
          using "2.prems"(2,3) True eb False by auto
        then show ?thesis using Cons "2.prems"(2) by auto
      qed simp
      then show ?thesis using "2.prems"(2,4) lenb True eb by (auto simp: r g)
    next
      case both: True
      then obtain c cs where bs: "bs = c # cs" by (cases bs) auto
      have cok: "fb_off c + fb_size c \<le> arena" "off + sz = fb_off c" using "2.prems"(2) bs both by auto
      then have g2: "grow (grow b sz) (fb_size c) = b \<lparr>fb_size := fb_size b + sz + fb_size c\<rparr>"
        using True eb by (simp add: g grow_ok)
      have r: "r = pre @ grow (grow b sz) (fb_size c) # cs" using "2.prems"(1) True e bs both by simp
      show ?thesis using "2.prems"(2,4) cok True eb by (auto simp: r g2 bs)
    qed
  next
    case notend: False
    show ?thesis
    proof (cases "off + sz = fb_off b")
      case True
      have pre: "\<forall>c \<in> set pre. fb_off c + fb_size c < off"
        using "2.prems"(2,6) True by fastforce
      have g: "grow (b \<lparr>fb_off := off\<rparr>) sz = \<lparr>fb_off = off, fb_size = fb_size b + sz, \<dots> = free_block.more b\<rparr>"
        using True "2.prems"(2) by (subst grow_ok) (auto simp: free_block.defs)
      have dead: "\<not> (pre \<noteq> [] \<and> fb_end (last pre) = off)"
      proof
        assume *: "pre \<noteq> [] \<and> fb_end (last pre) = off"
        then have "last pre \<in> set pre" by simp
        then have "fb_off (last pre) + fb_size (last pre) < off" "fb_off (last pre) + fb_size (last pre) \<le> arena"
          using pre "2.prems"(2) by (auto dest: blocks_okD)
        then show False using * by (simp add: fb_end_ok)
      qed
      have r: "r = pre @ grow (b \<lparr>fb_off := off\<rparr>) sz # bs"
        using "2.prems"(1) notend True os dead by (simp add: g)
      show ?thesis using "2.prems"(2,4) True pre by (auto simp: r g)
    next
      case False
      have rec: "free_merge (pre @ [b]) bs off sz = Some r" using "2.prems"(1) notend False os by simp
      have False': "u64_add off sz \<noteq> fb_off b" using False os by simp
      have bdis: "fb_off b + fb_size b < off \<or> off + sz < fb_off b"
        using "2.prems"(3) notend False eb by (auto simp: nat_less_le)
      have "blocks_ok r \<and> cover r = cover ((pre @ [b]) @ bs) \<union> {off ..< off + sz} \<and>
        length r \<le> length ((pre @ [b]) @ bs) \<and>
        (\<forall>c \<in> set r. fb_off c = off \<or> (\<exists>d \<in> set ((pre @ [b]) @ bs). fb_off c = fb_off d))"
        by (rule "2.IH" [OF notend False']) (use "2.prems" notend False os eb rec bdis in simp_all)
      then show ?thesis by simp
    qed
  qed
qed

lemma free_merge_none:
  assumes "free_merge pre bs off sz = None" "blocks_ok bs" "off + sz \<le> arena"
    "\<forall>b \<in> set bs. fb_off b + fb_size b \<le> off \<or> off + sz \<le> fb_off b" "b \<in> set bs"
  shows "fb_off b + fb_size b < off \<or> off + sz < fb_off b"
  using assms
proof (induction pre bs off sz rule: free_merge.induct)
  case (1 pre off sz)
  then show ?case by simp
next
  case (2 pre c bs off sz)
  have e: "fb_end c = fb_off c + fb_size c" "u64_add off sz = off + sz"
    using "2.prems"(2,3) by (simp_all add: fb_end_ok arena_val u64_simps)
  then have n: "fb_off c + fb_size c \<noteq> off" "off + sz \<noteq> fb_off c" "free_merge (pre @ [c]) bs off sz = None"
    using "2.prems"(1) by (auto simp: Let_def split: if_splits)
  show ?case
  proof (cases "b = c")
    case True
    then show ?thesis using n "2.prems"(4) by (simp add: nat_less_le)
  next
    case False
    then show ?thesis by (intro "2.IH") (use n e "2.prems" in simp_all)
  qed
qed

lemma insert_block_ok:
  assumes "blocks_ok fbs" "0 < sz" "off + sz \<le> arena"
    "\<forall>b \<in> set fbs. fb_off b + fb_size b < off \<or> off + sz < fb_off b"
  shows "blocks_ok (insert_block fbs off sz)"
    "cover (insert_block fbs off sz) = cover fbs \<union> {off ..< off + sz}"
    "\<And>b. b \<in> set (insert_block fbs off sz) \<Longrightarrow> fb_off b = off \<or> b \<in> set fbs"
    "length (insert_block fbs off sz) = Suc (length fbs)"
proof -
  let ?p = "\<lambda>b. fb_off b < off"
  have split: "takeWhile ?p fbs @ dropWhile ?p fbs = fbs" by simp
  have ok: "blocks_ok (takeWhile ?p fbs @ dropWhile ?p fbs)" using assms(1) by simp
  have 1: "fb_off b + fb_size b < off" if "b \<in> set (takeWhile ?p fbs)" for b
    using set_takeWhileD [OF that] assms(4) by fastforce
  have 2: "off + sz < fb_off c" if c: "c \<in> set (dropWhile ?p fbs)" for c
  proof -
    obtain d ds where d: "dropWhile ?p fbs = d # ds" using c by (cases "dropWhile ?p fbs") auto
    then have "\<not> fb_off d < off" by (metis hd_dropWhile list.sel(1) list.distinct(1))
    moreover have "d = c \<or> fb_off d < fb_off c" using ok c d by auto
    moreover have "c \<in> set fbs" using c by (rule set_dropWhileD)
    ultimately show ?thesis using assms(4) by fastforce
  qed
  show "blocks_ok (insert_block fbs off sz)"
    unfolding insert_block_def using ok [unfolded blocks_ok_simps] assms(2,3)
    by (auto simp del: takeWhile_dropWhile_id dest: 1 2)
  have "cover (takeWhile ?p fbs) \<union> cover (dropWhile ?p fbs) = cover fbs"
    by (metis split cover_simps(3))
  then show "cover (insert_block fbs off sz) = cover fbs \<union> {off ..< off + sz}"
    by (auto simp: insert_block_def)
  show "b \<in> set (insert_block fbs off sz) \<Longrightarrow> fb_off b = off \<or> b \<in> set fbs" for b
    by (auto simp: insert_block_def dest: set_takeWhileD set_dropWhileD)
  show "length (insert_block fbs off sz) = Suc (length fbs)"
    by (simp add: insert_block_def) (metis split length_append)
qed

subsection \<open>The specification: the blocks in use\<close>

definition span :: "nat \<times> nat \<Rightarrow> nat set" where
  "span p = {fst p ..< fst p + snd p}"

definition dyn_inv :: "dyn_tallocr \<Rightarrow> (nat \<times> nat) set \<Rightarrow> bool" where
  "dyn_inv a L \<longleftrightarrow>
     0 < dt_alignment a \<and> dt_alignment a \<le> arena \<and> dt_max a \<le> arena \<and>
     blocks_ok (dt_free a) \<and> (\<forall>b \<in> set (dt_free a). dt_alignment a dvd fb_off b) \<and>
     length (dt_free a) \<le> max_free_blocks \<and>
     pairwise (\<lambda>p q. disjnt (span p) (span q)) L \<and>
     (\<forall>p \<in> L. 0 < snd p \<and> fst p + snd p \<le> dt_max a \<and>
        dt_alignment a dvd fst p \<and> dt_alignment a dvd snd p) \<and>
     cover (dt_free a) = {0 ..< arena} - (\<Union>p\<in>L. span p)"

lemma dyn_inv_new:
  assumes "0 < al" "al \<le> arena"
  shows "dyn_inv (dyn_new al) {}"
  using assms
  by (simp add: dyn_inv_def dyn_new_def dyn_reset_def arena_def [symmetric] max_free_blocks_def pairwise_def)

lemma dyn_inv_reset: "dyn_inv a L \<Longrightarrow> dyn_inv (dyn_reset a) {}"
  by (simp add: dyn_inv_def dyn_reset_def arena_def [symmetric] max_free_blocks_def pairwise_def)

lemma dyn_pad:
  assumes "dyn_inv a L" "n \<le> arena"
  shows "aligned_offset 0 n (dt_alignment a) = padded (dt_alignment a) n"
proof -
  have "0 < dt_alignment a" "dt_alignment a \<le> arena" using assms(1) by (simp_all add: dyn_inv_def)
  moreover then have "padded (dt_alignment a) n < n + dt_alignment a" by (simp add: padded_less)
  ultimately show ?thesis using assms(2) by (intro aligned_offset_padded) (simp_all add: arena_val)
qed

lemma dyn_alloc_cases:
  assumes "dyn_inv a L" "n \<le> arena" "dyn_alloc a n = Some (off, a')"
  obtains i where "choose_block (dt_free a) (padded (dt_alignment a) n) = Some i"
    "off = fb_off (dt_free a ! i)"
    "a' = a \<lparr>dt_free := take_block (dt_free a) i (padded (dt_alignment a) n),
             dt_max := max (dt_max a) (off + padded (dt_alignment a) n)\<rparr>"
proof -
  let ?sz = "padded (dt_alignment a) n"
  obtain i where i: "choose_block (dt_free a) ?sz = Some i" "off = fb_off (dt_free a ! i)"
    "a' = a \<lparr>dt_free := take_block (dt_free a) i ?sz, dt_max := max (dt_max a) (u64_add off ?sz)\<rparr>"
    using assms(3) by (auto simp: dyn_alloc_def dyn_pad [OF assms(1,2)] Let_def split: option.splits)
  have "dt_free a ! i \<in> set (dt_free a)" "?sz \<le> fb_size (dt_free a ! i)"
    using choose_block_fits [OF i(1)] by simp_all
  then have "off + ?sz \<le> arena" using assms(1) i(2) by (fastforce simp: dyn_inv_def dest: blocks_okD)
  then have "u64_add off ?sz = off + ?sz" by (simp add: arena_val u64_simps)
  then show ?thesis using that i by simp
qed

text \<open>
  An allocation takes bytes that no block in use holds, on an aligned offset; the bytes stay below
  the recorded maximum.
\<close>

lemma dyn_alloc_inv:
  assumes "dyn_inv a L" "0 < n" "n \<le> arena" "dyn_alloc a n = Some (off, a')"
  defines "p \<equiv> (off, padded (dt_alignment a) n)"
  shows "dyn_inv a' (insert p L)" "\<forall>q \<in> L. disjnt (span p) (span q)"
    "dt_alignment a' = dt_alignment a" "dt_max a' = max (dt_max a) (fst p + snd p)"
proof -
  let ?al = "dt_alignment a" and ?sz = "padded (dt_alignment a) n"
  obtain i where i: "choose_block (dt_free a) ?sz = Some i" "off = fb_off (dt_free a ! i)"
    and a': "a' = a \<lparr>dt_free := take_block (dt_free a) i ?sz, dt_max := max (dt_max a) (off + ?sz)\<rparr>"
    using dyn_alloc_cases [OF assms(1,3,4)] by blast
  have inv: "0 < ?al" "blocks_ok (dt_free a)" "\<forall>b \<in> set (dt_free a). ?al dvd fb_off b"
    "pairwise (\<lambda>p q. disjnt (span p) (span q)) L"
    "cover (dt_free a) = {0 ..< arena} - (\<Union>p\<in>L. span p)"
    using assms(1) by (simp_all add: dyn_inv_def)
  have sz: "0 < ?sz" "?al dvd ?sz" using assms(2) inv(1) by (simp_all add: padded_dvd)
  note fits = choose_block_fits [OF i(1)]
  note tb = take_block_ok [OF inv(2) fits sz(1), folded i(2)]
  have sub: "span p \<subseteq> {0 ..< arena} - (\<Union>p\<in>L. span p)"
    using tb(3) inv(5) by (simp add: span_def p_def)
  then show apart: "\<forall>q \<in> L. disjnt (span p) (span q)" by (auto simp: disjnt_def)
  have le: "off + ?sz \<le> arena" using sub sz(1) by (simp add: span_def p_def subset_iff)
      (metis Suc_leI add_gr_0 le_add1 less_add_same_cancel1 less_imp_Suc_add not_less_eq add_Suc_right)
  have off: "?al dvd off" using inv(3) i(2) fits(1) by simp
  have "cover (dt_free a') = {0 ..< arena} - (\<Union>p\<in>insert p L. span p)"
    using tb(2) inv(5) by (auto simp: a' span_def p_def)
  moreover have "pairwise (\<lambda>p q. disjnt (span p) (span q)) (insert p L)"
    using inv(4) apart by (auto simp: pairwise_insert disjnt_sym)
  moreover have "?al dvd fb_off b" if "b \<in> set (dt_free a')" for b
    using tb(4) [of b] that inv(3) off sz(2) by (auto simp: a')
  moreover have "length (dt_free a') \<le> max_free_blocks"
    using tb(5) assms(1) by (simp add: a' dyn_inv_def)
  ultimately show "dyn_inv a' (insert p L)"
    using assms(1) tb(1) le off sz unfolding dyn_inv_def a' by (auto simp: p_def le_max_iff_disj)
  show "dt_alignment a' = ?al" "dt_max a' = max (dt_max a) (fst p + snd p)"
    by (simp_all add: a' p_def)
qed

lemma dyn_used_apart:
  assumes "dyn_inv a L" "p \<in> L"
  shows "\<forall>b \<in> set (dt_free a). fb_off b + fb_size b \<le> fst p \<or> fst p + snd p \<le> fb_off b"
proof
  fix b assume b: "b \<in> set (dt_free a)"
  have "{fb_off b ..< fb_off b + fb_size b} \<inter> span p = {}"
    using b assms by (fastforce simp: cover_def dyn_inv_def)
  moreover have "0 < fb_size b" "0 < snd p" using assms b by (auto simp: dyn_inv_def blocks_okD)
  ultimately show "fb_off b + fb_size b \<le> fst p \<or> fst p + snd p \<le> fb_off b"
    by (auto simp: span_def)
qed

text \<open>The free gives back exactly the bytes of the block; only the limit of 256 free blocks fails.\<close>

lemma dyn_free_inv:
  assumes "dyn_inv a L" "0 < n" "n \<le> arena" "(off, padded (dt_alignment a) n) \<in> L"
    "dyn_free a off n = Some a'"
  shows "dyn_inv a' (L - {(off, padded (dt_alignment a) n)})"
    "dt_alignment a' = dt_alignment a" "dt_max a' = dt_max a"
proof -
  let ?al = "dt_alignment a" and ?sz = "padded (dt_alignment a) n"
  let ?p = "(off, ?sz)"
  have inv: "blocks_ok (dt_free a)" "\<forall>b \<in> set (dt_free a). ?al dvd fb_off b" "dt_max a \<le> arena"
    "pairwise (\<lambda>p q. disjnt (span p) (span q)) L" "length (dt_free a) \<le> max_free_blocks"
    "cover (dt_free a) = {0 ..< arena} - (\<Union>p\<in>L. span p)"
    using assms(1) by (simp_all add: dyn_inv_def)
  have p: "0 < ?sz" "off + ?sz \<le> dt_max a" "?al dvd off"
    using assms(1,4) by (fastforce simp: dyn_inv_def)+
  then have le: "off + ?sz \<le> arena" using inv(3) by simp
  have apart: "\<forall>b \<in> set (dt_free a). fb_off b + fb_size b \<le> off \<or> off + ?sz \<le> fb_off b"
    using dyn_used_apart [OF assms(1,4)] by simp
  have "dt_alignment a' = ?al \<and> dt_max a' = dt_max a \<and> blocks_ok (dt_free a') \<and>
    cover (dt_free a') = cover (dt_free a) \<union> span ?p \<and> length (dt_free a') \<le> max_free_blocks \<and>
    (\<forall>b \<in> set (dt_free a'). ?al dvd fb_off b)"
  proof (cases "free_merge [] (dt_free a) off ?sz")
    case (Some r)
    then have a': "a' = a \<lparr>dt_free := r\<rparr>"
      using assms(5) by (simp add: dyn_free_def dyn_pad [OF assms(1,3)])
    have "blocks_ok r \<and> cover r = cover ([] @ dt_free a) \<union> {off ..< off + ?sz} \<and>
      length r \<le> length ([] @ dt_free a) \<and>
      (\<forall>b \<in> set r. fb_off b = off \<or> (\<exists>c \<in> set ([] @ dt_free a). fb_off b = fb_off c))"
      by (rule free_merge_some [OF Some]) (use inv(1) apart p(1) le in simp_all)
    then show ?thesis using inv(2,5) p(3) by (auto simp: a' span_def)
  next
    case None
    then have a': "length (dt_free a) < max_free_blocks" "a' = a \<lparr>dt_free := insert_block (dt_free a) off ?sz\<rparr>"
      using assms(5) by (auto simp: dyn_free_def dyn_pad [OF assms(1,3)] split: if_splits)
    have "\<forall>b \<in> set (dt_free a). fb_off b + fb_size b < off \<or> off + ?sz < fb_off b"
      using free_merge_none [OF None inv(1) le apart] by blast
    note ib = insert_block_ok [OF inv(1) p(1) le this]
    show ?thesis using ib inv(2) a'(1) p(3) by (auto simp: a'(2) span_def)
  qed
  then have *: "dt_alignment a' = ?al" "dt_max a' = dt_max a" "blocks_ok (dt_free a')"
    "cover (dt_free a') = cover (dt_free a) \<union> span ?p" "length (dt_free a') \<le> max_free_blocks"
    "\<forall>b \<in> set (dt_free a'). ?al dvd fb_off b" by blast+
  show "dt_alignment a' = ?al" "dt_max a' = dt_max a" using * by blast+
  have "span ?p \<inter> (\<Union>q\<in>L - {?p}. span q) = {}"
    using pairwiseD [OF inv(4) assms(4)] unfolding disjnt_def by blast
  moreover have "span ?p \<subseteq> {0 ..< arena}" using le by (auto simp: span_def)
  ultimately have "cover (dt_free a') = {0 ..< arena} - (\<Union>q\<in>L - {?p}. span q)"
    using *(4) inv(6) assms(4) by auto
  moreover have "pairwise (\<lambda>p q. disjnt (span p) (span q)) (L - {?p})"
    using inv(4) by (auto simp: pairwise_def)
  ultimately show "dyn_inv a' (L - {?p})"
    using assms(1) * by (simp add: dyn_inv_def)
qed

text \<open>The result of a free when the block was in use: at most 255 other gaps leave room.\<close>

lemma dyn_free_returns:
  assumes "length (dt_free a) < max_free_blocks"
  shows "dyn_free a off n \<noteq> None"
  using assms by (simp add: dyn_free_def Let_def split: option.splits)

lemma dyn_alloc_none_iff:
  assumes "dyn_inv a L" "n \<le> arena"
  shows "dyn_alloc a n = None \<longleftrightarrow> (\<forall>b \<in> set (dt_free a). fb_size b < padded (dt_alignment a) n)"
proof -
  let ?sz = "padded (dt_alignment a) n" and ?fbs = "dt_free a"
  have ok: "\<forall>b \<in> set ?fbs. fb_size b \<le> size_max"
    using assms(1) by (fastforce simp: dyn_inv_def arena_val size_max_def dest: blocks_okD)
  have "choose_block ?fbs ?sz = None \<longleftrightarrow> (\<forall>b \<in> set ?fbs. fb_size b < ?sz)"
  proof
    assume *: "choose_block ?fbs ?sz = None"
    then have "best_fit_loop ?sz 0 (butlast ?fbs) None size_max = None"
      and l: "?fbs = [] \<or> fb_size (last ?fbs) < ?sz"
      by (auto simp: choose_block_def split: option.splits if_splits)
    then have "\<forall>b \<in> set (butlast ?fbs). fb_size b < ?sz"
      using best_fit_loop_none ok by (metis in_set_butlastD)
    then show "\<forall>b \<in> set ?fbs. fb_size b < ?sz"
      using l by (cases "?fbs" rule: rev_cases) auto
  next
    assume *: "\<forall>b \<in> set ?fbs. fb_size b < ?sz"
    show "choose_block ?fbs ?sz = None"
    proof (rule ccontr)
      assume "choose_block ?fbs ?sz \<noteq> None"
      then obtain i where i: "choose_block ?fbs ?sz = Some i" by blast
      show False using choose_block_fits [OF i] * by (metis nth_mem not_less)
    qed
  qed
  then show ?thesis
    by (auto simp: dyn_alloc_def dyn_pad [OF assms] Let_def split: option.splits)
qed

text \<open>
  The block taken is the smallest of those that fit, except that the last block, the unbounded
  rest of the arena, is taken only when no other fits.
\<close>

lemma dyn_alloc_best_fit:
  assumes "dyn_inv a L" "n \<le> arena" "dyn_alloc a n = Some (off, a')"
  shows "\<exists>i < length (dt_free a). off = fb_off (dt_free a ! i) \<and>
    padded (dt_alignment a) n \<le> fb_size (dt_free a ! i) \<and>
    (\<forall>b \<in> set (butlast (dt_free a)). padded (dt_alignment a) n \<le> fb_size b \<longrightarrow>
       Suc i < length (dt_free a) \<and> fb_size (dt_free a ! i) \<le> fb_size b)"
proof -
  let ?sz = "padded (dt_alignment a) n" and ?fbs = "dt_free a"
  obtain i where i: "choose_block ?fbs ?sz = Some i" "off = fb_off (?fbs ! i)"
    using dyn_alloc_cases [OF assms] by blast
  have ok: "\<forall>b \<in> set (butlast ?fbs). fb_size b \<le> size_max"
    using assms(1) by (fastforce simp: dyn_inv_def arena_val size_max_def dest: in_set_butlastD blocks_okD)
  have "\<forall>b \<in> set (butlast ?fbs). ?sz \<le> fb_size b \<longrightarrow> Suc i < length ?fbs \<and> fb_size (?fbs ! i) \<le> fb_size b"
  proof (cases "best_fit_loop ?sz 0 (butlast ?fbs) None size_max")
    case None
    then show ?thesis using best_fit_loop_none [OF None ok] by fastforce
  next
    case (Some k)
    then have ik: "i = k" using i(1) by (simp add: choose_block_def)
    have lt: "i < length (butlast ?fbs)" using best_fit_loop_spec [OF Some] ik by simp
    have "\<forall>b \<in> set (butlast ?fbs). ?sz \<le> fb_size b \<longrightarrow> fb_size (butlast ?fbs ! k) \<le> fb_size b"
      using best_fit_loop_least [OF Some ok] by simp
    then show ?thesis using lt ik by (auto simp: nth_butlast)
  qed
  then show ?thesis using choose_block_fits [OF i(1)] i(2) by blast
qed

subsection \<open>Freeing what was allocated\<close>

text \<open>
  The free list is a function of the used bytes (\<open>blocks_ok_canonical\<close>): an allocation and its
  free give the same list back, and when nothing is in use the arena is one block again.
\<close>

lemma dyn_inv_unique:
  assumes "dyn_inv a L" "dyn_inv b L"
  shows "dt_free a = dt_free b"
  using assms by (intro blocks_ok_canonical) (simp_all add: dyn_inv_def)

lemma dyn_inv_empty:
  assumes "dyn_inv a {}"
  shows "dt_free a = [\<lparr>fb_off = 0, fb_size = arena\<rparr>]"
  using assms by (intro blocks_ok_canonical) (simp_all add: dyn_inv_def arena_val)

lemma dyn_alloc_free:
  assumes "dyn_inv a L" "0 < n" "n \<le> arena" "dyn_alloc a n = Some (off, a')"
  shows "\<exists>a''. dyn_free a' off n = Some a'' \<and> dt_free a'' = dt_free a"
proof -
  let ?al = "dt_alignment a" and ?sz = "padded (dt_alignment a) n"
  note al = dyn_alloc_inv [OF assms]
  have al': "dt_alignment a' = ?al" using al(3) .
  have inv': "dyn_inv a' (insert (off, ?sz) L)" using al(1) .
  have sz: "0 < ?sz" using assms(2) by simp
  have "dyn_free a' off n \<noteq> None"
  proof (cases "length (dt_free a') < max_free_blocks")
    case True
    then show ?thesis by (rule dyn_free_returns)
  next
    case False
    obtain i where i: "choose_block (dt_free a) ?sz = Some i" "off = fb_off (dt_free a ! i)"
      and a': "a' = a \<lparr>dt_free := take_block (dt_free a) i ?sz, dt_max := max (dt_max a) (off + ?sz)\<rparr>"
      using dyn_alloc_cases [OF assms(1,3,4)] by blast
    have ok: "blocks_ok (dt_free a)" "length (dt_free a) \<le> max_free_blocks"
      using assms(1) by (simp_all add: dyn_inv_def)
    note tb = take_block_split [OF ok(1) choose_block_fits [OF i(1)], folded i(2)]
    have "i < length (dt_free a)" using choose_block_fits [OF i(1)] by simp
    then have "\<lparr>fb_off = off + ?sz, fb_size = fb_size (dt_free a ! i) - ?sz\<rparr> \<in> set (dt_free a')"
      using False ok(2) by (auto simp: a' tb split: if_splits)
    moreover have "off + ?sz \<le> arena" using inv' by (auto simp: dyn_inv_def)
    moreover have apart': "\<forall>b \<in> set (dt_free a'). fb_off b + fb_size b \<le> off \<or> off + ?sz \<le> fb_off b"
      using dyn_used_apart [OF inv', of "(off, ?sz)"] by simp
    ultimately have "free_merge [] (dt_free a') off ?sz \<noteq> None"
      using free_merge_none [OF _ _ _ apart'] inv' by (fastforce simp: dyn_inv_def)
    then show ?thesis using dyn_pad [OF inv' assms(3)] by (auto simp: dyn_free_def al')
  qed
  then obtain a'' where a'': "dyn_free a' off n = Some a''" by blast
  have "dyn_inv a'' (insert (off, ?sz) L - {(off, ?sz)})"
    using dyn_free_inv(1) [OF inv' assms(2,3) _ a''] by (simp add: al')
  moreover have "(off, ?sz) \<notin> L" using al(2) sz by (auto simp: span_def disjnt_def)
  ultimately have "dyn_inv a'' L" by simp
  then show ?thesis using a'' dyn_inv_unique assms(1) by blast
qed

subsection \<open>The interface of an allocator\<close>

text \<open>
  What the graph allocator needs of an allocator of offsets: \<open>inv s L\<close> says that the blocks in use
  are \<open>L\<close>, \<open>pad\<close> is the size a request takes, \<open>peak\<close> the size the buffer will get. The client keeps
  a map \<open>A\<close> from the names of its objects to their blocks.
\<close>

lemma ran_inj_delete:
  assumes "inj_on A (dom A)" "A k = Some b"
  shows "ran (A(k := None)) = ran A - {b}"
proof -
  have u: "x = k" if "A x = Some b" for x using that assms by (metis domI inj_onD)
  show ?thesis
  proof (intro set_eqI iffI)
    fix y assume "y \<in> ran (A(k := None))"
    then obtain x where x: "x \<noteq> k" "A x = Some y" by (auto simp: ran_def split: if_splits)
    then show "y \<in> ran A - {b}" using u [of x] by (auto intro: ranI)
  next
    fix y assume "y \<in> ran A - {b}"
    then obtain x where x: "A x = Some y" "y \<noteq> b" by (auto simp: ran_def)
    then have "x \<noteq> k" using assms(2) by auto
    then show "y \<in> ran (A(k := None))" using x by (intro ranI [of _ x]) simp
  qed
qed

locale block_allocator =
  fixes inv :: "'s \<Rightarrow> (nat \<times> nat) set \<Rightarrow> bool"
    and pad :: "'s \<Rightarrow> nat \<Rightarrow> nat"
    and align :: "'s \<Rightarrow> nat"
    and peak :: "'s \<Rightarrow> nat"
    and alloc :: "'s \<Rightarrow> nat \<Rightarrow> (nat \<times> 's) option"
    and give :: "'s \<Rightarrow> nat \<Rightarrow> nat \<Rightarrow> 's option"
  assumes inv_apart: "inv s L \<Longrightarrow> p \<in> L \<Longrightarrow> q \<in> L \<Longrightarrow> p \<noteq> q \<Longrightarrow> disjnt (span p) (span q)"
    and inv_block: "inv s L \<Longrightarrow> p \<in> L \<Longrightarrow> 0 < snd p \<and> fst p + snd p \<le> peak s \<and> align s dvd fst p"
    and alloc_inv: "inv s L \<Longrightarrow> 0 < n \<Longrightarrow> n \<le> arena \<Longrightarrow> alloc s n = Some (off, s') \<Longrightarrow>
      inv s' (insert (off, pad s n) L) \<and> (\<forall>q \<in> L. disjnt (span (off, pad s n)) (span q)) \<and>
      pad s' = pad s \<and> peak s \<le> peak s'"
    and give_inv: "inv s L \<Longrightarrow> 0 < n \<Longrightarrow> n \<le> arena \<Longrightarrow> (off, pad s n) \<in> L \<Longrightarrow>
      give s off n = Some s' \<Longrightarrow> inv s' (L - {(off, pad s n)}) \<and> pad s' = pad s \<and> peak s' = peak s"
begin

definition owners :: "'s \<Rightarrow> ('k \<Rightarrow> (nat \<times> nat) option) \<Rightarrow> bool" where
  "owners s A \<longleftrightarrow> inv s (ran A) \<and> inj_on A (dom A)"

lemma owners_empty: "inv s {} \<Longrightarrow> owners s Map.empty"
  by (simp add: owners_def)

lemma owners_apart:
  assumes "owners s A" "A k = Some p" "A l = Some q" "k \<noteq> l"
  shows "disjnt (span p) (span q)"
proof -
  have "p \<noteq> q" using assms by (metis domI inj_onD owners_def)
  moreover have "p \<in> ran A" "q \<in> ran A" using assms(2,3) by (auto intro: ranI)
  moreover have "inv s (ran A)" using assms(1) by (simp add: owners_def)
  ultimately show ?thesis using inv_apart by blast
qed

lemma owners_bound: "owners s A \<Longrightarrow> A k = Some p \<Longrightarrow> 0 < snd p \<and> fst p + snd p \<le> peak s \<and> align s dvd fst p"
  unfolding owners_def by (rule inv_block) (auto intro: ranI)

lemma owners_alloc:
  assumes "owners s A" "A k = None" "0 < n" "n \<le> arena" "alloc s n = Some (off, s')"
  shows "owners s' (A(k \<mapsto> (off, pad s n)))" "pad s' = pad s" "peak s \<le> peak s'"
proof -
  have i: "inv s (ran A)" using assms(1) by (simp add: owners_def)
  note al = alloc_inv [OF i assms(3-5)]
  have sz: "0 < pad s n" using inv_block [of s' "insert (off, pad s n) (ran A)" "(off, pad s n)"] al by simp
  have "(off, pad s n) \<notin> ran A" using al sz by (auto simp: disjnt_def span_def)
  moreover have "ran (A(k \<mapsto> (off, pad s n))) = insert (off, pad s n) (ran A)"
    using assms(2) by simp
  moreover have "inj_on (A(k \<mapsto> (off, pad s n))) (insert k (dom A))"
    using assms(1,2) calculation(1) by (auto simp: owners_def inj_on_def ran_def domIff)
  ultimately show "owners s' (A(k \<mapsto> (off, pad s n)))" using al by (simp add: owners_def)
  show "pad s' = pad s" "peak s \<le> peak s'" using al by auto
qed

lemma owners_give:
  assumes "owners s A" "A k = Some (off, pad s n)" "0 < n" "n \<le> arena" "give s off n = Some s'"
  shows "owners s' (A(k := None))" "pad s' = pad s" "peak s' = peak s"
proof -
  have i: "inv s (ran A)" and inj: "inj_on A (dom A)" using assms(1) by (simp_all add: owners_def)
  have mem: "(off, pad s n) \<in> ran A" using assms(2) by (auto intro: ranI)
  note gi = give_inv [OF i assms(3,4) mem assms(5)]
  have "ran (A(k := None)) = ran A - {(off, pad s n)}"
    using ran_inj_delete [OF inj assms(2)] .
  moreover have "inj_on (A(k := None)) (dom A - {k})" using inj by (auto simp: inj_on_def)
  ultimately show "owners s' (A(k := None))" using gi by (simp add: owners_def)
  show "pad s' = pad s" "peak s' = peak s" using gi by auto
qed

text \<open>The block changes its owner: what the in-place reuse of a parent's memory does.\<close>

lemma owners_move:
  assumes "owners s A" "A p = Some b" "A k = None"
  shows "owners s (A(p := None, k \<mapsto> b))"
proof -
  have inj: "inj_on A (dom A)" using assms(1) by (simp add: owners_def)
  have "p \<noteq> k" using assms by auto
  have "ran (A(p := None, k \<mapsto> b)) = ran A"
    using assms(2,3) ran_inj_delete [OF inj assms(2)] \<open>p \<noteq> k\<close> by (auto intro: ranI)
  moreover have "inj_on (A(p := None, k \<mapsto> b)) (insert k (dom A - {p}))"
    using inj assms(2,3) \<open>p \<noteq> k\<close> by (auto simp: inj_on_def domIff)
  ultimately show ?thesis using assms(1) \<open>p \<noteq> k\<close> by (simp add: owners_def insert_Diff_if)
qed

end

interpretation dyn: block_allocator dyn_inv "\<lambda>a. padded (dt_alignment a)" dt_alignment dt_max dyn_alloc dyn_free
proof
  show "disjnt (span p) (span q)" if "dyn_inv s L" "p \<in> L" "q \<in> L" "p \<noteq> q" for s L p q
    using that by (auto simp: dyn_inv_def pairwise_def)
  show "0 < snd p \<and> fst p + snd p \<le> dt_max s \<and> dt_alignment s dvd fst p" if "dyn_inv s L" "p \<in> L" for s L p
    using that by (auto simp: dyn_inv_def)
  show "dyn_inv s' (insert (off, padded (dt_alignment s) n) L) \<and>
      (\<forall>q \<in> L. disjnt (span (off, padded (dt_alignment s) n)) (span q)) \<and>
      padded (dt_alignment s') = padded (dt_alignment s) \<and> dt_max s \<le> dt_max s'"
    if "dyn_inv s L" "0 < n" "n \<le> arena" "dyn_alloc s n = Some (off, s')" for s L n off s'
    using dyn_alloc_inv [OF that] by simp
  show "dyn_inv s' (L - {(off, padded (dt_alignment s) n)}) \<and>
      padded (dt_alignment s') = padded (dt_alignment s) \<and> dt_max s' = dt_max s"
    if "dyn_inv s L" "0 < n" "n \<le> arena" "(off, padded (dt_alignment s) n) \<in> L"
      "dyn_free s off n = Some s'" for s L n off s'
    using dyn_free_inv [OF that] by simp
qed

subsection \<open>Runs of the allocator\<close>

text \<open>
  A run allocates under fresh names and frees under names in use, as the graph allocator does; the
  map holds the offset and the requested size of each name.
\<close>

inductive dyn_run :: "nat \<Rightarrow> dyn_tallocr \<Rightarrow> (nat \<Rightarrow> (nat \<times> nat) option) \<Rightarrow> bool" for al where
  run_new: "dyn_run al (dyn_new al) Map.empty"
| run_alloc: "dyn_run al a B \<Longrightarrow> B k = None \<Longrightarrow> 0 < n \<Longrightarrow> n \<le> arena \<Longrightarrow>
    dyn_alloc a n = Some (off, a') \<Longrightarrow> dyn_run al a' (B(k \<mapsto> (off, n)))"
| run_free: "dyn_run al a B \<Longrightarrow> B k = Some (off, n) \<Longrightarrow>
    dyn_free a off n = Some a' \<Longrightarrow> dyn_run al a' (B(k := None))"

lemma dyn_run_owners:
  assumes "dyn_run al a B" "0 < al" "al \<le> arena"
  shows "dyn.owners a (\<lambda>k. map_option (\<lambda>(off, n). (off, padded al n)) (B k)) \<and>
    dt_alignment a = al \<and> (\<forall>k off n. B k = Some (off, n) \<longrightarrow> 0 < n \<and> n \<le> arena)"
  using assms(1)
proof (induction rule: dyn_run.induct)
  case run_new
  then show ?case using dyn.owners_empty [OF dyn_inv_new [OF assms(2,3)]]
    by (simp add: dyn_new_def dyn_reset_def)
next
  case (run_alloc a B k n off a')
  let ?A = "\<lambda>B k. map_option (\<lambda>(off, n). (off, padded al n)) (B k)"
  have "?A (B(k \<mapsto> (off, n))) = (?A B)(k \<mapsto> (off, padded al n))" by auto
  moreover have "dt_alignment a' = dt_alignment a"
    using run_alloc by (auto simp: dyn_alloc_def Let_def split: option.splits)
  ultimately show ?case
    using run_alloc dyn.owners_alloc(1) [of a "?A B" k n off a'] by (auto split: if_splits)
next
  case (run_free a B k off n a')
  let ?A = "\<lambda>B k. map_option (\<lambda>(off, n). (off, padded al n)) (B k)"
  have "?A (B(k := None)) = (?A B)(k := None)" by auto
  moreover have "dt_alignment a' = dt_alignment a"
    using run_free by (auto simp: dyn_free_def Let_def split: option.splits if_splits)
  ultimately show ?case
    using run_free dyn.owners_give(1) [of a "?A B" k off n a'] by (auto split: if_splits)
qed

lemma dyn_run_inv: "dyn_run al a B \<Longrightarrow> 0 < al \<Longrightarrow> al \<le> arena \<Longrightarrow> \<exists>L. dyn_inv a L \<and> dt_alignment a = al"
  using dyn_run_owners by (fastforce simp: dyn.owners_def)

lemma dyn_run_bounds:
  assumes "dyn_run al a B" "0 < al" "al \<le> arena" "B k = Some (off, n)"
  shows "al dvd off \<and> off + padded al n \<le> dyn_max_size a \<and> dyn_max_size a \<le> arena \<and>
    (\<forall>j off' n'. j \<noteq> k \<and> B j = Some (off', n') \<longrightarrow> off + padded al n \<le> off' \<or> off' + padded al n' \<le> off)"
proof -
  let ?A = "\<lambda>k. map_option (\<lambda>(off, n). (off, padded al n)) (B k)"
  have ow: "dyn.owners a ?A" and al: "dt_alignment a = al"
    and pos: "\<And>k off n. B k = Some (off, n) \<Longrightarrow> 0 < n" using dyn_run_owners [OF assms(1-3)] by auto
  have k: "?A k = Some (off, padded al n)" using assms(4) by simp
  have "off + padded al n \<le> off' \<or> off' + padded al n' \<le> off" if j: "j \<noteq> k" "B j = Some (off', n')" for j off' n'
  proof (rule ccontr)
    assume n: "\<not> ?thesis"
    have "?A j = Some (off', padded al n')" using j(2) by simp
    then have d: "disjnt (span (off, padded al n)) (span (off', padded al n'))"
      using dyn.owners_apart [OF ow k] j(1) by blast
    have "0 < padded al n" "0 < padded al n'" using pos [OF assms(4)] pos [OF j(2)] by simp_all
    then have "max off off' \<in> span (off, padded al n)" "max off off' \<in> span (off', padded al n')"
      using n by (auto simp: span_def)
    then show False using d by (auto simp: disjnt_def)
  qed
  moreover have "dt_max a \<le> arena" using dyn_run_inv [OF assms(1-3)] by (auto simp: dyn_inv_def)
  ultimately show ?thesis using dyn.owners_bound [OF ow k] al by (auto simp: dyn_max_size_def)
qed

lemma dyn_run_give_back:
  assumes "dyn_run al a B" "0 < al" "al \<le> arena"
  shows "0 < n \<Longrightarrow> n \<le> arena \<Longrightarrow> dyn_alloc a n = Some (off, a') \<Longrightarrow>
      \<exists>a''. dyn_free a' off n = Some a'' \<and> dt_free a'' = dt_free a"
    "B = Map.empty \<Longrightarrow> dt_free a = dt_free (dyn_new al)"
proof -
  show "\<exists>a''. dyn_free a' off n = Some a'' \<and> dt_free a'' = dt_free a"
    if "0 < n" "n \<le> arena" "dyn_alloc a n = Some (off, a')"
    using dyn_run_inv [OF assms] dyn_alloc_free that by blast
  assume "B = Map.empty"
  then have "dyn_inv a {}" using dyn_run_owners [OF assms] by (simp add: dyn.owners_def)
  from dyn_inv_empty [OF this] show "dt_free a = dt_free (dyn_new al)"
    by (simp add: dyn_new_def dyn_reset_def arena_def)
qed

lemma dyn_run_best_fit:
  assumes "dyn_run al a B" "0 < al" "al \<le> arena" "n \<le> arena"
  shows "(dyn_alloc a n = None \<longleftrightarrow> (\<forall>b \<in> set (dt_free a). fb_size b < padded al n))
    \<and> (\<forall>off a'. dyn_alloc a n = Some (off, a') \<longrightarrow>
        (\<exists>i < length (dt_free a). off = fb_off (dt_free a ! i) \<and> padded al n \<le> fb_size (dt_free a ! i) \<and>
          (\<forall>b \<in> set (butlast (dt_free a)). padded al n \<le> fb_size b \<longrightarrow>
             Suc i < length (dt_free a) \<and> fb_size (dt_free a ! i) \<le> fb_size b)))"
  using dyn_run_inv [OF assms(1-3)] dyn_alloc_none_iff [OF _ assms(4)] dyn_alloc_best_fit [OF _ assms(4)] by blast

end
