(* ===== verification/Tensor.thy ===== *)
theory Tensor
  imports Prelude
begin

text \<open>
  Tensors and compute graphs as \<^verbatim>\<open>ggml.h\<close> and \<^verbatim>\<open>ggml-impl.h\<close> declare them. A
  \<open>struct ggml_tensor *\<close> is a natural number and the memory of the tensors is a function from it to the
  record, so that sharing (a tensor is the source of many nodes, a view names its \<open>view_src\<close>) is
  kept; \<open>NULL\<close> is \<open>None\<close>. A backend buffer is its type, its size and its base address; two buffers of the
  modelled code are the same object exactly when these agree. The parameters of an operation, the name and \<open>extra\<close> are left out: none of
  the modelled code reads them.
\<close>

datatype (plugins only: size) ggml_op =
    GGML_OP_NONE | GGML_OP_DUP | GGML_OP_ADD | GGML_OP_ADD1
  | GGML_OP_ACC | GGML_OP_SUB | GGML_OP_MUL | GGML_OP_DIV
  | GGML_OP_SQR | GGML_OP_SQRT | GGML_OP_LOG | GGML_OP_SIN
  | GGML_OP_COS | GGML_OP_SUM | GGML_OP_SUM_ROWS | GGML_OP_MEAN
  | GGML_OP_ARGMAX | GGML_OP_COUNT_EQUAL | GGML_OP_REPEAT | GGML_OP_REPEAT_BACK
  | GGML_OP_CONCAT | GGML_OP_SILU_BACK | GGML_OP_NORM | GGML_OP_RMS_NORM
  | GGML_OP_RMS_NORM_BACK | GGML_OP_GROUP_NORM | GGML_OP_L2_NORM | GGML_OP_MUL_MAT
  | GGML_OP_MUL_MAT_ID | GGML_OP_OUT_PROD | GGML_OP_SCALE | GGML_OP_SET
  | GGML_OP_CPY | GGML_OP_CONT | GGML_OP_RESHAPE | GGML_OP_VIEW
  | GGML_OP_PERMUTE | GGML_OP_TRANSPOSE | GGML_OP_GET_ROWS | GGML_OP_GET_ROWS_BACK
  | GGML_OP_DIAG | GGML_OP_DIAG_MASK_INF | GGML_OP_DIAG_MASK_ZERO | GGML_OP_SOFT_MAX
  | GGML_OP_SOFT_MAX_BACK | GGML_OP_ROPE | GGML_OP_ROPE_BACK | GGML_OP_CLAMP
  | GGML_OP_CONV_TRANSPOSE_1D | GGML_OP_IM2COL | GGML_OP_IM2COL_BACK | GGML_OP_CONV_2D_DW
  | GGML_OP_CONV_TRANSPOSE_2D | GGML_OP_POOL_1D | GGML_OP_POOL_2D | GGML_OP_POOL_2D_BACK
  | GGML_OP_UPSCALE | GGML_OP_PAD | GGML_OP_PAD_REFLECT_1D | GGML_OP_ARANGE
  | GGML_OP_TIMESTEP_EMBEDDING | GGML_OP_ARGSORT | GGML_OP_LEAKY_RELU | GGML_OP_FLASH_ATTN_EXT
  | GGML_OP_FLASH_ATTN_BACK | GGML_OP_SSM_CONV | GGML_OP_SSM_SCAN | GGML_OP_WIN_PART
  | GGML_OP_WIN_UNPART | GGML_OP_GET_REL_POS | GGML_OP_ADD_REL_POS | GGML_OP_RWKV_WKV6
  | GGML_OP_GATED_LINEAR_ATTN | GGML_OP_RWKV_WKV7 | GGML_OP_UNARY | GGML_OP_MAP_CUSTOM1
  | GGML_OP_MAP_CUSTOM2 | GGML_OP_MAP_CUSTOM3 | GGML_OP_CUSTOM | GGML_OP_CROSS_ENTROPY_LOSS
  | GGML_OP_CROSS_ENTROPY_LOSS_BACK | GGML_OP_OPT_STEP_ADAMW | GGML_OP_COUNT

record buffer =
  bu_buft :: nat
  bu_size :: nat
  bu_base :: nat

record tensor =
  tn_type :: nat
  tn_buffer :: "buffer option"
  tn_ne :: "int list"
  tn_nb :: "nat list"
  tn_op :: ggml_op
  tn_flags :: nat
  tn_src :: "nat option list"
  tn_view_src :: "nat option"
  tn_view_offs :: nat
  tn_data :: "nat option"

record cgraph =
  gr_nodes :: "nat list"
  gr_leafs :: "nat list"

type_synonym tensors = "nat \<Rightarrow> tensor"

definition flag_input :: "tensor \<Rightarrow> bool" where
  "flag_input t = odd (tn_flags t)"

definition flag_output :: "tensor \<Rightarrow> bool" where
  "flag_output t = odd (tn_flags t div 2)"

text \<open>The sources that a loop over \<open>src\<close> visits, which skips \<open>NULL\<close>.\<close>

definition srcs :: "tensor \<Rightarrow> nat list" where
  "srcs t = List.map_filter (\<lambda>s. s) (tn_src t)"

definition ggml_is_view :: "tensor \<Rightarrow> bool" where
  "ggml_is_view t = (tn_view_src t \<noteq> None)"

definition ggml_are_same_layout :: "tensor \<Rightarrow> tensor \<Rightarrow> bool" where
  "ggml_are_same_layout a b =
     (tn_type a = tn_type b \<and>
      list_all (\<lambda>i. tn_ne a ! i = tn_ne b ! i \<and> tn_nb a ! i = tn_nb b ! i) [0..<4])"

definition ggml_op_can_inplace :: "ggml_op \<Rightarrow> bool" where
  "ggml_op_can_inplace op = (op \<in> {GGML_OP_SCALE, GGML_OP_DIAG_MASK_ZERO, GGML_OP_DIAG_MASK_INF, GGML_OP_ADD,
     GGML_OP_ADD1, GGML_OP_SUB, GGML_OP_MUL, GGML_OP_DIV,
     GGML_OP_SQR, GGML_OP_SQRT, GGML_OP_LOG, GGML_OP_UNARY,
     GGML_OP_ROPE, GGML_OP_ROPE_BACK, GGML_OP_SILU_BACK, GGML_OP_RMS_NORM,
     GGML_OP_RMS_NORM_BACK, GGML_OP_SOFT_MAX, GGML_OP_SOFT_MAX_BACK})"

end
