(* ===== verification/AllocGraph.thy ===== *)
theory AllocGraph
  imports AllocDyn Tensor
begin

text \<open>
  The graph allocator of \<^verbatim>\<open>ggml/src/ggml-alloc.c\<close> (\<open>ggml_gallocr\<close>): it walks over a compute graph
  in execution order, takes an offset for every tensor that has no memory yet, gives the offset back
  after the last use, and lets a node overwrite a parent that nobody else needs.

  The hash table from tensors to \<open>struct hash_node\<close> is a function here; the theory \<open>HashSet\<close>
  shows that the table of the code behaves as one. The two pointers \<open>buf_tallocs[i]\<close> and
  \<open>buf_tallocs[j]\<close> may be the same allocator: \<open>ga_talloc_of\<close> maps a buffer id to an index into the
  list \<open>ga_tallocs\<close> of the allocators. The sizes, alignments and buffers that a backend supplies are
  the parameter \<open>be\<close>. An abort, a failed assertion or an index out of range is \<open>None\<close>.
\<close>

subsection \<open>Data\<close>

text \<open>
  What a backend supplies for a buffer type: \<open>get_alloc_size\<close>, \<open>get_alignment\<close>, \<open>get_max_size\<close>, the
  size and base address of a new buffer unless \<open>alloc_buffer\<close> fails, \<open>init_tensor\<close>'s success, and the
  flag \<open>no_alloc\<close>.
\<close>

record backend =
  be_alloc_size :: "nat \<Rightarrow> tensor \<Rightarrow> nat"
  be_alignment :: "nat \<Rightarrow> nat"
  be_max_size :: "nat \<Rightarrow> nat"
  be_alloc_buffer :: "nat \<Rightarrow> nat \<Rightarrow> (nat \<times> nat) option"
  be_init_tensor :: "buffer \<Rightarrow> tensor \<Rightarrow> bool"
  be_no_alloc :: "nat \<Rightarrow> bool"

record hash_node =
  hn_children :: int
  hn_views :: int
  hn_buffer :: nat
  hn_offset :: nat
  hn_allocated :: bool

record tensor_alloc =
  ta_buffer :: int
  ta_offset :: nat
  ta_size_max :: nat

record node_alloc =
  na_dst :: tensor_alloc
  na_src :: "tensor_alloc list"

record gallocr =
  ga_bufts :: "nat list"
  ga_buffers :: "buffer option list"
  ga_buffer_sizes :: "nat list"
  ga_talloc_of :: "nat list"
  ga_tallocs :: "dyn_tallocr list"
  ga_hash :: "nat \<Rightarrow> hash_node"
  ga_node_allocs :: "node_alloc list"
  ga_leaf_allocs :: "tensor_alloc list"

definition hash_node0 :: hash_node where
  "hash_node0 = \<lparr>hn_children = 0, hn_views = 0, hn_buffer = 0, hn_offset = 0, hn_allocated = False\<rparr>"

definition ggml_max_src :: nat where
  "ggml_max_src = 10"

subsection \<open>A new allocator\<close>

text \<open>The same buffer type used twice shares the allocator of its first use.\<close>

fun new_tallocs :: "backend \<Rightarrow> nat list \<Rightarrow> nat list \<Rightarrow> nat list \<times> dyn_tallocr list \<Rightarrow> nat list \<times> dyn_tallocr list" where
  "new_tallocs be seen [] acc = acc"
| "new_tallocs be seen (b # bs) (ids, allocs) =
     (case List.find (\<lambda>j. seen ! j = b) [0..<length seen] of
        Some j \<Rightarrow> new_tallocs be (seen @ [b]) bs (ids @ [ids ! j], allocs)
      | None \<Rightarrow> new_tallocs be (seen @ [b]) bs (ids @ [length allocs], allocs @ [dyn_new (be_alignment be b)]))"

definition ggml_gallocr_new_n :: "backend \<Rightarrow> nat list \<Rightarrow> gallocr" where
  "ggml_gallocr_new_n be bufts =
     (let (ids, allocs) = new_tallocs be [] bufts ([], []) in
      \<lparr>ga_bufts = bufts, ga_buffers = replicate (length bufts) None,
       ga_buffer_sizes = replicate (length bufts) 0, ga_talloc_of = ids, ga_tallocs = allocs,
       ga_hash = (\<lambda>_. hash_node0), ga_node_allocs = [], ga_leaf_allocs = []\<rparr>)"

definition ggml_gallocr_new :: "backend \<Rightarrow> nat \<Rightarrow> gallocr" where
  "ggml_gallocr_new be buft = ggml_gallocr_new_n be [buft]"

subsection \<open>Allocating and freeing one tensor\<close>

definition upd_hash :: "nat \<Rightarrow> (hash_node \<Rightarrow> hash_node) \<Rightarrow> gallocr \<Rightarrow> gallocr" where
  "upd_hash t f ga = ga \<lparr>ga_hash := (ga_hash ga)(t := f (ga_hash ga t))\<rparr>"

definition ggml_gallocr_is_own :: "gallocr \<Rightarrow> nat \<Rightarrow> bool" where
  "ggml_gallocr_is_own ga t = hn_allocated (ga_hash ga t)"

definition ggml_gallocr_is_allocated :: "tensors \<Rightarrow> gallocr \<Rightarrow> nat \<Rightarrow> bool" where
  "ggml_gallocr_is_allocated T ga t = (tn_data (T t) \<noteq> None \<or> hn_allocated (ga_hash ga t))"

text \<open>
  The loop over the parents in search of one whose memory the node may take: the result is the
  parent and, if it is a view, its source.
\<close>

fun reuse_parent :: "tensors \<Rightarrow> gallocr \<Rightarrow> nat \<Rightarrow> nat list \<Rightarrow> (nat \<times> nat option) option" where
  "reuse_parent T ga node [] = None"
| "reuse_parent T ga node (p # ps) =
     (let hp = ga_hash ga p in
      if \<not> ggml_gallocr_is_own ga p then reuse_parent T ga node ps
      else if flag_output (T p) \<or>
              (case tn_view_src (T p) of None \<Rightarrow> False | Some v \<Rightarrow> flag_output (T v))
      then reuse_parent T ga node ps
      else if \<not> ggml_are_same_layout (T node) (T p) then reuse_parent T ga node ps
      else if hn_children hp = 1 \<and> hn_views hp = 0 then
        (case tn_view_src (T p) of
           Some v \<Rightarrow>
             if hn_views (ga_hash ga v) = 1 \<and> hn_children (ga_hash ga v) = 0 \<and>
                tn_data (T v) = tn_data (T p)
             then Some (p, Some v) else reuse_parent T ga node ps
         | None \<Rightarrow> Some (p, None))
      else reuse_parent T ga node ps)"

definition take_offset :: "backend \<Rightarrow> tensors \<Rightarrow> gallocr \<Rightarrow> nat \<Rightarrow> nat \<Rightarrow> gallocr option" where
  "take_offset be T ga node bid = do {
     ensure (bid < length (ga_bufts ga) \<and> bid < length (ga_talloc_of ga));
     let k = ga_talloc_of ga ! bid;
     ensure (k < length (ga_tallocs ga));
     (off, a) \<leftarrow> dyn_alloc (ga_tallocs ga ! k) (be_alloc_size be (ga_bufts ga ! bid) (T node));
     Some (upd_hash node (\<lambda>h. h \<lparr>hn_buffer := bid, hn_offset := off\<rparr>)
             (ga \<lparr>ga_tallocs := (ga_tallocs ga)[k := a]\<rparr>))
   }"

definition ggml_gallocr_allocate_node ::
  "backend \<Rightarrow> tensors \<Rightarrow> int \<Rightarrow> nat \<Rightarrow> gallocr \<Rightarrow> gallocr option" where
  "ggml_gallocr_allocate_node be T buffer_id node ga = do {
     ensure (0 \<le> buffer_id);
     if \<not> ggml_gallocr_is_allocated T ga node \<and> \<not> ggml_is_view (T node) then
       (let ga1 = upd_hash node (\<lambda>h. h \<lparr>hn_allocated := True\<rparr>) ga in
        case (if ggml_op_can_inplace (tn_op (T node)) then reuse_parent T ga1 node (srcs (T node)) else None) of
          Some (p, v) \<Rightarrow>
            (let hp = ga_hash ga1 p;
                 ga2 = upd_hash node (\<lambda>h. h \<lparr>hn_buffer := hn_buffer hp, hn_offset := hn_offset hp\<rparr>) ga1;
                 ga3 = upd_hash p (\<lambda>h. h \<lparr>hn_allocated := False\<rparr>) ga2
             in Some (case v of None \<Rightarrow> ga3 | Some vs \<Rightarrow> upd_hash vs (\<lambda>h. h \<lparr>hn_allocated := False\<rparr>) ga3))
        | None \<Rightarrow> take_offset be T ga1 node (nat buffer_id))
     else Some ga
   }"

definition ggml_gallocr_free_node :: "backend \<Rightarrow> tensors \<Rightarrow> nat \<Rightarrow> gallocr \<Rightarrow> gallocr option" where
  "ggml_gallocr_free_node be T node ga =
     (if flag_output (T node) then Some ga
      else do {
        let hn = ga_hash ga node;
        let bid = hn_buffer hn;
        ensure (bid < length (ga_bufts ga) \<and> bid < length (ga_talloc_of ga));
        let k = ga_talloc_of ga ! bid;
        ensure (k < length (ga_tallocs ga));
        a \<leftarrow> dyn_free (ga_tallocs ga ! k) (hn_offset hn) (be_alloc_size be (ga_bufts ga ! bid) (T node));
        Some (upd_hash node (\<lambda>h. h \<lparr>hn_allocated := False\<rparr>) (ga \<lparr>ga_tallocs := (ga_tallocs ga)[k := a]\<rparr>))
      })"

subsection \<open>Planning a graph\<close>

definition get_node_buffer_id :: "int list option \<Rightarrow> nat \<Rightarrow> int option" where
  "get_node_buffer_id ids i =
     (case ids of None \<Rightarrow> Some 0 | Some xs \<Rightarrow> if i < length xs then Some (xs ! i) else None)"

definition alloc_leaf :: "backend \<Rightarrow> tensors \<Rightarrow> int list option \<Rightarrow> nat \<times> nat \<Rightarrow> gallocr \<Rightarrow> gallocr option" where
  "alloc_leaf be T ids = (\<lambda>(i, leaf) ga. do {
     bid \<leftarrow> get_node_buffer_id ids i;
     ggml_gallocr_allocate_node be T bid leaf ga
   })"

text \<open>The second loop: the children and views of every tensor are counted, inputs are allocated.\<close>

definition count_src :: "backend \<Rightarrow> tensors \<Rightarrow> int \<Rightarrow> nat \<Rightarrow> gallocr \<Rightarrow> gallocr option" where
  "count_src be T bid s ga =
     (let ga1 = upd_hash s (\<lambda>h. h \<lparr>hn_children := hn_children h + 1\<rparr>) ga in
      if flag_input (T s) then ggml_gallocr_allocate_node be T bid s ga1 else Some ga1)"

definition count_node :: "backend \<Rightarrow> tensors \<Rightarrow> int list option \<Rightarrow> nat \<times> nat \<Rightarrow> gallocr \<Rightarrow> gallocr option" where
  "count_node be T ids = (\<lambda>(i, node) ga. do {
     bid \<leftarrow> get_node_buffer_id ids i;
     let ga1 = (case tn_view_src (T node) of
                  Some v \<Rightarrow> if tn_op (T node) \<noteq> GGML_OP_NONE
                            then upd_hash v (\<lambda>h. h \<lparr>hn_views := hn_views h + 1\<rparr>) ga else ga
                | None \<Rightarrow> ga);
     ga2 \<leftarrow> (if flag_input (T node) then ggml_gallocr_allocate_node be T bid node ga1 else Some ga1);
     fold_opt (count_src be T bid) (srcs (T node)) ga2
   })"

text \<open>After a node, each use of a parent is given back.\<close>

definition release_src :: "backend \<Rightarrow> tensors \<Rightarrow> nat \<Rightarrow> gallocr \<Rightarrow> gallocr option" where
  "release_src be T p ga =
     (let ga1 = upd_hash p (\<lambda>h. h \<lparr>hn_children := hn_children h - 1\<rparr>) ga;
          hp = ga_hash ga1 p in
      if hn_children hp = 0 \<and> hn_views hp = 0 then
        (case tn_view_src (T p) of
           Some v \<Rightarrow>
             (let ga2 = upd_hash v (\<lambda>h. h \<lparr>hn_views := hn_views h - 1\<rparr>) ga1;
                  hv = ga_hash ga2 v in
              if hn_views hv = 0 \<and> hn_children hv = 0 \<and> hn_allocated hv
              then ggml_gallocr_free_node be T v ga2 else Some ga2)
         | None \<Rightarrow>
             if hn_allocated hp then ggml_gallocr_free_node be T p ga1 else Some ga1)
      else Some ga1)"

definition exec_node :: "backend \<Rightarrow> tensors \<Rightarrow> int list option \<Rightarrow> nat \<times> nat \<Rightarrow> gallocr \<Rightarrow> gallocr option" where
  "exec_node be T ids = (\<lambda>(i, node) ga. do {
     bid \<leftarrow> get_node_buffer_id ids i;
     ga1 \<leftarrow> fold_opt (ggml_gallocr_allocate_node be T bid) (srcs (T node)) ga;
     ga2 \<leftarrow> ggml_gallocr_allocate_node be T bid node ga1;
     fold_opt (release_src be T) (srcs (T node)) ga2
   })"

definition ggml_gallocr_alloc_graph_impl ::
  "backend \<Rightarrow> tensors \<Rightarrow> cgraph \<Rightarrow> int list option \<Rightarrow> int list option \<Rightarrow> gallocr \<Rightarrow> gallocr option" where
  "ggml_gallocr_alloc_graph_impl be T g node_ids leaf_ids ga = do {
     let ga0 = ga \<lparr>ga_hash := (\<lambda>_. hash_node0)\<rparr>;
     ga1 \<leftarrow> fold_opt (alloc_leaf be T leaf_ids) (enumerate 0 (gr_leafs g)) ga0;
     ga2 \<leftarrow> fold_opt (count_node be T node_ids) (enumerate 0 (gr_nodes g)) ga1;
     fold_opt (exec_node be T node_ids) (enumerate 0 (gr_nodes g)) ga2
   }"

end
