(* ===== verification/AllocSafe.thy ===== *)
theory AllocSafe
  imports AllocGraph
begin

text \<open>
  What the plan of \<open>AllocGraph\<close> guarantees. A tensor is \<open>own\<close> to the graph when it has no memory and
  is not a view; every source of a node reads the memory of its \<open>root\<close>, the tensor itself or the one it
  is a view of. At each node the tensors that a later node still reads, and the outputs, hold memory
  that the node does not write, with the one exception of a parent that the node replaces.

  The proof follows the loops of the code with three invariants: \<open>mem_ok\<close> (the allocated tensors own
  disjoint blocks of their allocators), \<open>counts\<close> (\<open>n_children\<close> and \<open>n_views\<close> count the uses and the views
  still to come) and \<open>kept\<close> (a tensor that has been given memory still has it, unless all its uses
  are over).
\<close>

subsection \<open>Well-formed graphs\<close>

definition own :: "tensors \<Rightarrow> nat \<Rightarrow> bool" where
  "own T t = (tn_data (T t) = None \<and> tn_view_src (T t) = None)"

definition view_root :: "tensors \<Rightarrow> nat \<Rightarrow> nat" where
  "view_root T s = (case tn_view_src (T s) of None \<Rightarrow> s | Some v \<Rightarrow> v)"

definition uses :: "tensors \<Rightarrow> nat list \<Rightarrow> nat list" where
  "uses T ns = concat (map (\<lambda>n. srcs (T n)) ns)"

definition graph_tensors :: "cgraph \<Rightarrow> nat set" where
  "graph_tensors g = set (gr_leafs g) \<union> set (gr_nodes g)"

text \<open>
  The nodes are in an order of execution: sources and the owners of viewed memory come first. The
  source of a view is not a view, and a view of the graph's own memory that a node reads is a node
  with an operation. Leafs and inputs are not computed in place.
\<close>

definition graph_ok :: "tensors \<Rightarrow> cgraph \<Rightarrow> bool" where
  "graph_ok T g =
     (let ls = gr_leafs g; ns = gr_nodes g in
      distinct (ls @ ns) \<and>
      list_all (\<lambda>i. list_all (\<lambda>s. s \<in> set ls \<or> s \<in> set (take i ns)) (srcs (T (ns ! i)))) [0..<length ns] \<and>
      list_all (\<lambda>i. case tn_view_src (T (ns ! i)) of None \<Rightarrow> True
                  | Some v \<Rightarrow> \<not> ggml_is_view (T v) \<and>
                      (own T v \<longrightarrow> v \<in> set ls \<or> v \<in> set (take i ns))) [0..<length ns] \<and>
      list_all (\<lambda>l. case tn_view_src (T l) of None \<Rightarrow> True
                  | Some v \<Rightarrow> \<not> ggml_is_view (T v) \<and> \<not> own T v) ls \<and>
      list_all (\<lambda>s. ggml_is_view (T s) \<and> own T (view_root T s) \<longrightarrow> tn_op (T s) \<noteq> GGML_OP_NONE) (uses T ns) \<and>
      list_all (\<lambda>t. t \<in> set ls \<or> flag_input (T t) \<longrightarrow> \<not> ggml_op_can_inplace (tn_op (T t))) (ls @ ns))"

text \<open>What is asked of a backend: sizes that are positive, not absurd, and that the layout determines.\<close>

definition sizes_ok :: "backend \<Rightarrow> tensors \<Rightarrow> cgraph \<Rightarrow> nat list \<Rightarrow> bool" where
  "sizes_ok be T g bufts =
     (list_all (\<lambda>b. list_all (\<lambda>t. 0 < be_alloc_size be b (T t) \<and> be_alloc_size be b (T t) \<le> arena)
        (gr_leafs g @ gr_nodes g)) bufts \<and>
      list_all (\<lambda>t. list_all (\<lambda>u. ggml_are_same_layout (T t) (T u) \<longrightarrow>
          list_all (\<lambda>b. be_alloc_size be b (T t) = be_alloc_size be b (T u)) bufts)
        (gr_leafs g @ gr_nodes g)) (gr_leafs g @ gr_nodes g))"

definition tallocs_ok :: "gallocr \<Rightarrow> bool" where
  "tallocs_ok ga \<longleftrightarrow> length (ga_talloc_of ga) = length (ga_bufts ga) \<and>
     (\<forall>k \<in> set (ga_talloc_of ga). k < length (ga_tallocs ga))"

subsection \<open>The memory of a tensor\<close>

definition talloc_idx :: "gallocr \<Rightarrow> nat \<Rightarrow> nat" where
  "talloc_idx ga t = ga_talloc_of ga ! hn_buffer (ga_hash ga t)"

definition tensor_size :: "backend \<Rightarrow> tensors \<Rightarrow> gallocr \<Rightarrow> nat \<Rightarrow> nat" where
  "tensor_size be T ga t = be_alloc_size be (ga_bufts ga ! hn_buffer (ga_hash ga t)) (T t)"

definition block_of :: "backend \<Rightarrow> tensors \<Rightarrow> gallocr \<Rightarrow> nat \<Rightarrow> nat \<times> nat" where
  "block_of be T ga t =
     (hn_offset (ga_hash ga t),
      padded (dt_alignment (ga_tallocs ga ! talloc_idx ga t)) (tensor_size be T ga t))"

definition live_map :: "backend \<Rightarrow> tensors \<Rightarrow> gallocr \<Rightarrow> nat \<Rightarrow> nat \<Rightarrow> (nat \<times> nat) option" where
  "live_map be T ga k t =
     (if hn_allocated (ga_hash ga t) \<and> talloc_idx ga t = k then Some (block_of be T ga t) else None)"

definition mem_ok :: "backend \<Rightarrow> tensors \<Rightarrow> cgraph \<Rightarrow> gallocr \<Rightarrow> bool" where
  "mem_ok be T g ga \<longleftrightarrow> tallocs_ok ga \<and> sizes_ok be T g (ga_bufts ga) \<and>
     (\<forall>k < length (ga_tallocs ga). dyn.owners (ga_tallocs ga ! k) (live_map be T ga k)) \<and>
     (\<forall>t. hn_allocated (ga_hash ga t) \<longrightarrow>
        own T t \<and> t \<in> graph_tensors g \<and> hn_buffer (ga_hash ga t) < length (ga_bufts ga))"

lemma sizes_okD:
  assumes "sizes_ok be T g bufts" "i < length bufts" "t \<in> graph_tensors g"
  shows "0 < be_alloc_size be (bufts ! i) (T t)" "be_alloc_size be (bufts ! i) (T t) \<le> arena"
  using assms by (auto simp: sizes_ok_def graph_tensors_def list_all_iff)

lemma sizes_ok_layout:
  assumes "sizes_ok be T g bufts" "i < length bufts" "t \<in> graph_tensors g" "u \<in> graph_tensors g"
    "ggml_are_same_layout (T t) (T u)"
  shows "be_alloc_size be (bufts ! i) (T t) = be_alloc_size be (bufts ! i) (T u)"
  using assms by (auto simp: sizes_ok_def graph_tensors_def list_all_iff)

text \<open>Two allocated tensors never share a byte.\<close>

lemma mem_ok_apart:
  assumes "mem_ok be T g ga" "hn_allocated (ga_hash ga t)" "hn_allocated (ga_hash ga u)" "t \<noteq> u"
    "talloc_idx ga t = talloc_idx ga u"
  shows "disjnt (span (block_of be T ga t)) (span (block_of be T ga u))"
proof -
  let ?k = "talloc_idx ga t"
  have "hn_buffer (ga_hash ga t) < length (ga_talloc_of ga)"
    using assms(1,2) by (simp add: mem_ok_def tallocs_ok_def)
  then have "?k < length (ga_tallocs ga)" using assms(1) by (simp add: mem_ok_def tallocs_ok_def talloc_idx_def)
  then have "dyn.owners (ga_tallocs ga ! ?k) (live_map be T ga ?k)" using assms(1) by (simp add: mem_ok_def)
  then show ?thesis
    by (rule dyn.owners_apart) (use assms in \<open>auto simp: live_map_def\<close>)
qed

lemma mem_ok_bound:
  assumes "mem_ok be T g ga" "hn_allocated (ga_hash ga t)"
  shows "hn_buffer (ga_hash ga t) < length (ga_bufts ga)" "talloc_idx ga t < length (ga_tallocs ga)"
    "fst (block_of be T ga t) + snd (block_of be T ga t) \<le> dt_max (ga_tallocs ga ! talloc_idx ga t)"
    "dt_alignment (ga_tallocs ga ! talloc_idx ga t) dvd hn_offset (ga_hash ga t)"
proof -
  let ?k = "talloc_idx ga t"
  show "hn_buffer (ga_hash ga t) < length (ga_bufts ga)" using assms by (simp add: mem_ok_def)
  then show k: "?k < length (ga_tallocs ga)" using assms(1) by (simp add: mem_ok_def tallocs_ok_def talloc_idx_def)
  then have "dyn.owners (ga_tallocs ga ! ?k) (live_map be T ga ?k)" using assms(1) by (simp add: mem_ok_def)
  then show "fst (block_of be T ga t) + snd (block_of be T ga t) \<le> dt_max (ga_tallocs ga ! ?k)"
    "dt_alignment (ga_tallocs ga ! ?k) dvd hn_offset (ga_hash ga t)"
    using dyn.owners_bound [of "ga_tallocs ga ! ?k" "live_map be T ga ?k" t "block_of be T ga t"] assms
    by (simp_all add: live_map_def block_of_def)
qed

subsection \<open>The three steps on memory: take, move, give back\<close>

text \<open>What no step changes: the buffers and their types, the alignments; the peaks only grow.\<close>

definition frame :: "gallocr \<Rightarrow> gallocr \<Rightarrow> bool" where
  "frame ga ga' \<longleftrightarrow> ga_bufts ga' = ga_bufts ga \<and> ga_talloc_of ga' = ga_talloc_of ga \<and>
     ga_buffers ga' = ga_buffers ga \<and> ga_buffer_sizes ga' = ga_buffer_sizes ga \<and>
     length (ga_tallocs ga') = length (ga_tallocs ga) \<and>
     (\<forall>k < length (ga_tallocs ga).
        dt_alignment (ga_tallocs ga' ! k) = dt_alignment (ga_tallocs ga ! k) \<and>
        dt_max (ga_tallocs ga ! k) \<le> dt_max (ga_tallocs ga' ! k))"

lemma frame_refl [simp]: "frame ga ga"
  by (simp add: frame_def)

lemma frame_trans: "frame a b \<Longrightarrow> frame b c \<Longrightarrow> frame a c"
  unfolding frame_def by (metis (no_types, lifting) le_trans)

lemma dyn_alloc_alignment: "dyn_alloc a n = Some (off, a') \<Longrightarrow> dt_alignment a' = dt_alignment a"
  by (auto simp: dyn_alloc_def Let_def split: option.splits)

lemma dyn_free_alignment: "dyn_free a off n = Some a' \<Longrightarrow> dt_alignment a' = dt_alignment a"
  by (auto simp: dyn_free_def Let_def split: option.splits if_splits)

lemma frame_update:
  assumes "k < length (ga_tallocs ga)" "dt_alignment a = dt_alignment (ga_tallocs ga ! k)"
    "dt_max (ga_tallocs ga ! k) \<le> dt_max a"
  shows "frame ga (upd_hash t f (ga \<lparr>ga_tallocs := (ga_tallocs ga)[k := a]\<rparr>))"
  using assms by (auto simp: frame_def upd_hash_def nth_list_update)

lemma frame_upd_hash [simp]: "frame ga (upd_hash t f ga)"
  by (simp add: frame_def upd_hash_def)

text \<open>The block of a tensor depends on its entry in the table and on what \<open>frame\<close> keeps.\<close>

lemma block_of_cong:
  assumes "frame ga ga'" "tallocs_ok ga" "hn_buffer (ga_hash ga t) < length (ga_bufts ga)"
    "hn_buffer (ga_hash ga' t) = hn_buffer (ga_hash ga t)"
    "hn_offset (ga_hash ga' t) = hn_offset (ga_hash ga t)"
  shows "talloc_idx ga' t = talloc_idx ga t" "block_of be T ga' t = block_of be T ga t"
proof -
  show i: "talloc_idx ga' t = talloc_idx ga t" using assms by (simp add: talloc_idx_def frame_def)
  have "talloc_idx ga t < length (ga_tallocs ga)" using assms(2,3) by (simp add: talloc_idx_def tallocs_ok_def)
  then show "block_of be T ga' t = block_of be T ga t"
    using assms by (simp add: block_of_def i tensor_size_def frame_def)
qed

lemma frame_tallocs_ok: "frame ga ga' \<Longrightarrow> tallocs_ok ga \<Longrightarrow> tallocs_ok ga'"
  by (simp add: frame_def tallocs_ok_def)

lemma take_offset_fresh:
  assumes "mem_ok be T g ga" "own T t" "t \<in> graph_tensors g" "\<not> hn_allocated (ga_hash ga t)"
    "take_offset be T (upd_hash t (\<lambda>h. h \<lparr>hn_allocated := True\<rparr>) ga) t b = Some ga'"
  obtains off where "mem_ok be T g ga'" "frame ga ga'"
    "ga_hash ga' = (ga_hash ga)(t := (ga_hash ga t) \<lparr>hn_allocated := True, hn_buffer := b, hn_offset := off\<rparr>)"
proof -
  let ?k = "ga_talloc_of ga ! b" and ?n = "be_alloc_size be (ga_bufts ga ! b) (T t)"
  obtain off a where b: "b < length (ga_bufts ga)" "?k < length (ga_tallocs ga)"
    and al: "dyn_alloc (ga_tallocs ga ! ?k) ?n = Some (off, a)"
    and ga': "ga' = upd_hash t (\<lambda>h. h \<lparr>hn_buffer := b, hn_offset := off\<rparr>)
      ((upd_hash t (\<lambda>h. h \<lparr>hn_allocated := True\<rparr>) ga) \<lparr>ga_tallocs := (ga_tallocs ga)[?k := a]\<rparr>)"
    using assms(5) by (auto simp: take_offset_def upd_hash_def Let_def split: bind_splits if_splits)
  have ok: "tallocs_ok ga" "sizes_ok be T g (ga_bufts ga)" using assms(1) by (simp_all add: mem_ok_def)
  have hash: "ga_hash ga' = (ga_hash ga)(t := (ga_hash ga t) \<lparr>hn_allocated := True, hn_buffer := b, hn_offset := off\<rparr>)"
    by (simp add: ga' upd_hash_def)
  have own: "dyn.owners (ga_tallocs ga ! ?k) (live_map be T ga ?k)"
    using assms(1) b(2) by (simp add: mem_ok_def)
  have none: "live_map be T ga ?k t = None" using assms(4) by (simp add: live_map_def)
  note al' = dyn.owners_alloc [OF own none sizes_okD [OF ok(2) b(1) assms(3)] al]
  have eq: "dt_alignment a = dt_alignment (ga_tallocs ga ! ?k)" using dyn_alloc_alignment [OF al] .
  have fr: "frame ga ga'"
    using b(2) eq al'(3) by (auto simp: frame_def ga' upd_hash_def nth_list_update)
  have kt: "talloc_idx ga' t = ?k" using fr by (simp add: talloc_idx_def hash frame_def)
  have bt: "block_of be T ga' t = (off, padded (dt_alignment (ga_tallocs ga ! ?k)) ?n)"
    using fr b(2) by (simp add: block_of_def kt tensor_size_def hash frame_def)
  have lm: "live_map be T ga' k = (if k = ?k then (live_map be T ga k)(t \<mapsto> block_of be T ga' t) else live_map be T ga k)" for k
  proof
    fix u
    show "live_map be T ga' k u =
      (if k = ?k then (live_map be T ga k)(t \<mapsto> block_of be T ga' t) else live_map be T ga k) u"
    proof (cases "u = t")
      case True
      then show ?thesis using assms(4) kt by (simp add: live_map_def hash)
    next
      case False
      show ?thesis
      proof (cases "hn_allocated (ga_hash ga u)")
        case True
        then have "hn_buffer (ga_hash ga u) < length (ga_bufts ga)" using assms(1) by (simp add: mem_ok_def)
        then have "talloc_idx ga' u = talloc_idx ga u" "block_of be T ga' u = block_of be T ga u"
          using block_of_cong [OF fr ok(1)] False by (simp_all add: hash)
        then show ?thesis using False by (simp add: live_map_def hash)
      next
        case na: False
        then show ?thesis using False by (simp add: live_map_def hash)
      qed
    qed
  qed
  have "dyn.owners (ga_tallocs ga' ! k) (live_map be T ga' k)" if "k < length (ga_tallocs ga')" for k
  proof (cases "k = ?k")
    case True
    then show ?thesis using al'(1) b(2) bt by (simp add: lm) (simp add: ga' upd_hash_def)
  next
    case False
    then show ?thesis using assms(1) that fr by (simp add: lm mem_ok_def frame_def) (simp add: ga' upd_hash_def)
  qed
  then have "mem_ok be T g ga'"
    using assms(1-3) fr b(1) frame_tallocs_ok [OF fr ok(1)] by (auto simp: mem_ok_def hash frame_def)
  then show ?thesis using that fr hash by blast
qed

lemma move_block:
  assumes "mem_ok be T g ga" "own T t" "t \<in> graph_tensors g" "\<not> hn_allocated (ga_hash ga t)"
    "hn_allocated (ga_hash ga p)" "ggml_are_same_layout (T t) (T p)"
    "ga' = ga \<lparr>ga_hash := (ga_hash ga)
       (t := (ga_hash ga t) \<lparr>hn_allocated := True, hn_buffer := hn_buffer (ga_hash ga p),
                              hn_offset := hn_offset (ga_hash ga p)\<rparr>,
        p := (ga_hash ga p) \<lparr>hn_allocated := False\<rparr>)\<rparr>"
  shows "mem_ok be T g ga'" "block_of be T ga' t = block_of be T ga p" "talloc_idx ga' t = talloc_idx ga p"
proof -
  have tp: "t \<noteq> p" using assms(4,5) by auto
  have ok: "tallocs_ok ga" "sizes_ok be T g (ga_bufts ga)" using assms(1) by (simp_all add: mem_ok_def)
  have p: "hn_buffer (ga_hash ga p) < length (ga_bufts ga)" "p \<in> graph_tensors g"
    using assms(1,5) by (simp_all add: mem_ok_def)
  have sz: "be_alloc_size be (ga_bufts ga ! hn_buffer (ga_hash ga p)) (T t) =
      be_alloc_size be (ga_bufts ga ! hn_buffer (ga_hash ga p)) (T p)"
    using sizes_ok_layout [OF ok(2) p(1) assms(3) p(2) assms(6)] .
  show kt: "talloc_idx ga' t = talloc_idx ga p" using tp by (simp add: talloc_idx_def assms(7))
  then show bt: "block_of be T ga' t = block_of be T ga p"
    using tp sz by (simp add: block_of_def tensor_size_def) (simp add: assms(7))
  have lm: "live_map be T ga' k =
      (if k = talloc_idx ga p then (live_map be T ga k)(p := None, t \<mapsto> block_of be T ga p) else live_map be T ga k)" for k
  proof
    fix u
    show "live_map be T ga' k u = (if k = talloc_idx ga p then
        (live_map be T ga k)(p := None, t \<mapsto> block_of be T ga p) else live_map be T ga k) u"
    proof (cases "u = t \<or> u = p")
      case True
      then show ?thesis using tp assms(4,5) kt bt
        by (auto simp: live_map_def) (simp_all add: assms(7))
    next
      case False
      then have "talloc_idx ga' u = talloc_idx ga u" "block_of be T ga' u = block_of be T ga u"
        by (simp_all add: talloc_idx_def block_of_def tensor_size_def assms(7))
      then show ?thesis using False by (simp add: live_map_def) (simp add: assms(7))
    qed
  qed
  have "dyn.owners (ga_tallocs ga' ! k) (live_map be T ga' k)" if "k < length (ga_tallocs ga')" for k
  proof -
    have o: "dyn.owners (ga_tallocs ga ! k) (live_map be T ga k)"
      using assms(1) that by (simp add: mem_ok_def assms(7))
    have "dyn.owners (ga_tallocs ga ! k) (live_map be T ga' k)"
      using o dyn.owners_move [OF o, of p "block_of be T ga p" t] assms(4,5) by (auto simp: lm live_map_def)
    then show ?thesis by (simp add: assms(7))
  qed
  moreover have "ga_talloc_of ga' = ga_talloc_of ga" "ga_tallocs ga' = ga_tallocs ga" "ga_bufts ga' = ga_bufts ga"
    by (simp_all add: assms(7))
  moreover have "own T u \<and> u \<in> graph_tensors g \<and> hn_buffer (ga_hash ga' u) < length (ga_bufts ga')"
    if "hn_allocated (ga_hash ga' u)" for u
    using that assms(1-3,5) p by (auto simp: mem_ok_def assms(7) split: if_splits)
  ultimately show "mem_ok be T g ga'" using ok by (simp add: mem_ok_def tallocs_ok_def)
qed

lemma free_node_effect:
  assumes "mem_ok be T g ga" "hn_allocated (ga_hash ga t)"
    "ggml_gallocr_free_node be T t ga = Some ga'"
  shows "mem_ok be T g ga' \<and> frame ga ga' \<and>
    ga_hash ga' = (if flag_output (T t) then ga_hash ga
                   else (ga_hash ga)(t := (ga_hash ga t) \<lparr>hn_allocated := False\<rparr>))"
proof (cases "flag_output (T t)")
  case True
  then show ?thesis using assms by (simp add: ggml_gallocr_free_node_def)
next
  case False
  let ?b = "hn_buffer (ga_hash ga t)"
  let ?k = "talloc_idx ga t" and ?n = "be_alloc_size be (ga_bufts ga ! ?b) (T t)"
  have ok: "tallocs_ok ga" "sizes_ok be T g (ga_bufts ga)" using assms(1) by (simp_all add: mem_ok_def)
  have t: "?b < length (ga_bufts ga)" "t \<in> graph_tensors g" using assms(1,2) by (simp_all add: mem_ok_def)
  have k: "?k < length (ga_tallocs ga)" using mem_ok_bound [OF assms(1,2)] by simp
  obtain a where fr: "dyn_free (ga_tallocs ga ! ?k) (hn_offset (ga_hash ga t)) ?n = Some a"
    and ga': "ga' = upd_hash t (\<lambda>h. h \<lparr>hn_allocated := False\<rparr>) (ga \<lparr>ga_tallocs := (ga_tallocs ga)[?k := a]\<rparr>)"
    using assms(3) False by (auto simp: ggml_gallocr_free_node_def talloc_idx_def Let_def split: bind_splits if_splits)
  have own: "dyn.owners (ga_tallocs ga ! ?k) (live_map be T ga ?k)" using assms(1) k by (simp add: mem_ok_def)
  have blk: "live_map be T ga ?k t = Some (hn_offset (ga_hash ga t), padded (dt_alignment (ga_tallocs ga ! ?k)) ?n)"
    using assms(2) by (simp add: live_map_def block_of_def tensor_size_def)
  note gi = dyn.owners_give [OF own blk sizes_okD [OF ok(2) t] fr]
  have frame: "frame ga ga'" unfolding ga'
    by (rule frame_update) (use k dyn_free_alignment [OF fr] gi(3) in simp_all)
  have hash: "ga_hash ga' = (ga_hash ga)(t := (ga_hash ga t) \<lparr>hn_allocated := False\<rparr>)"
    by (simp add: ga' upd_hash_def)
  have lm: "live_map be T ga' k = (if k = ?k then (live_map be T ga k)(t := None) else live_map be T ga k)" for k
  proof
    fix u
    show "live_map be T ga' k u = (if k = ?k then (live_map be T ga k)(t := None) else live_map be T ga k) u"
    proof (cases "u \<noteq> t \<and> hn_allocated (ga_hash ga u)")
      case True
      then have "hn_buffer (ga_hash ga u) < length (ga_bufts ga)" using assms(1) by (simp add: mem_ok_def)
      then have "talloc_idx ga' u = talloc_idx ga u" "block_of be T ga' u = block_of be T ga u"
        using block_of_cong [OF frame ok(1)] True by (simp_all add: hash)
      then show ?thesis using True by (simp add: live_map_def hash)
    next
      case False
      then show ?thesis by (auto simp: live_map_def hash)
    qed
  qed
  have "dyn.owners (ga_tallocs ga' ! k) (live_map be T ga' k)" if "k < length (ga_tallocs ga')" for k
  proof (cases "k = ?k")
    case True
    then show ?thesis using gi(1) k by (simp add: lm) (simp add: ga' upd_hash_def)
  next
    case ne: False
    then show ?thesis using assms(1) that frame by (simp add: lm mem_ok_def frame_def) (simp add: ga' upd_hash_def)
  qed
  then have "mem_ok be T g ga'"
    using assms(1) frame frame_tallocs_ok [OF frame ok(1)] by (auto simp: mem_ok_def hash frame_def)
  then show ?thesis using frame hash False by simp
qed

subsection \<open>Allocating a node: skip, reuse or take\<close>

lemma reuse_parent_spec:
  assumes "reuse_parent T ga t ps = Some (p, v)" "\<And>x. hn_allocated (ga_hash ga x) \<Longrightarrow> own T x \<or> x = t"
    "t \<notin> set ps"
  shows "p \<in> set ps \<and> hn_allocated (ga_hash ga p) \<and> own T p \<and> \<not> flag_output (T p) \<and>
    ggml_are_same_layout (T t) (T p) \<and> hn_children (ga_hash ga p) = 1 \<and> hn_views (ga_hash ga p) = 0 \<and> v = None"
  using assms(1,3)
proof (induction ps)
  case Nil
  then show ?case by simp
next
  case (Cons q qs)
  have IH: ?case if "reuse_parent T ga t qs = Some (p, v)" using Cons that by auto
  show ?case
  proof (cases "hn_allocated (ga_hash ga q) \<and> own T q")
    case True
    then have "tn_view_src (T q) = None" by (simp add: own_def)
    then show ?thesis using Cons.prems(1) True IH
      by (auto simp: ggml_gallocr_is_own_def Let_def split: if_splits)
  next
    case False
    then have "\<not> hn_allocated (ga_hash ga q)" using assms(2) [of q] Cons.prems(2) by auto
    then show ?thesis using Cons.prems(1) IH by (simp add: ggml_gallocr_is_own_def)
  qed
qed

lemma allocate_node_cases:
  assumes "ggml_gallocr_allocate_node be T bid t ga = Some ga'" "mem_ok be T g ga"
    "t \<in> graph_tensors g" "ggml_op_can_inplace (tn_op (T t)) \<longrightarrow> t \<notin> set (srcs (T t))"
  obtains (skip) "\<not> own T t \<or> hn_allocated (ga_hash ga t)" "ga' = ga"
  | (reuse) p where "own T t" "\<not> hn_allocated (ga_hash ga t)" "ggml_op_can_inplace (tn_op (T t))"
      "p \<in> set (srcs (T t))" "hn_allocated (ga_hash ga p)" "\<not> flag_output (T p)"
      "ggml_are_same_layout (T t) (T p)" "hn_children (ga_hash ga p) = 1" "hn_views (ga_hash ga p) = 0"
      "mem_ok be T g ga'" "frame ga ga'" "block_of be T ga' t = block_of be T ga p"
      "talloc_idx ga' t = talloc_idx ga p"
      "ga_hash ga' = (ga_hash ga)
       (t := (ga_hash ga t) \<lparr>hn_allocated := True, hn_buffer := hn_buffer (ga_hash ga p),
                              hn_offset := hn_offset (ga_hash ga p)\<rparr>,
        p := (ga_hash ga p) \<lparr>hn_allocated := False\<rparr>)"
  | (fresh) off where "own T t" "\<not> hn_allocated (ga_hash ga t)" "mem_ok be T g ga'" "frame ga ga'"
      "ga_hash ga' = (ga_hash ga)(t := (ga_hash ga t) \<lparr>hn_allocated := True, hn_buffer := nat bid, hn_offset := off\<rparr>)"
proof (cases "own T t \<and> \<not> hn_allocated (ga_hash ga t)")
  case False
  then have "ga' = ga" using assms(1)
    by (auto simp: ggml_gallocr_allocate_node_def ggml_gallocr_is_allocated_def ggml_is_view_def own_def
        split: if_splits)
  then show ?thesis using False skip by blast
next
  case True
  let ?ga1 = "upd_hash t (\<lambda>h. h \<lparr>hn_allocated := True\<rparr>) ga"
  let ?r = "if ggml_op_can_inplace (tn_op (T t)) then reuse_parent T ?ga1 t (srcs (T t)) else None"
  have c: "\<not> ggml_gallocr_is_allocated T ga t \<and> \<not> ggml_is_view (T t)"
    using True by (simp add: ggml_gallocr_is_allocated_def ggml_is_view_def own_def)
  show ?thesis
  proof (cases ?r)
    case None
    then have "take_offset be T ?ga1 t (nat bid) = Some ga'"
      using assms(1) c by (simp add: ggml_gallocr_allocate_node_def Let_def split: if_splits)
    then show ?thesis
      by (rule take_offset_fresh [OF assms(2) _ assms(3), rotated 2]) (use True fresh in auto)
  next
    case (Some pv)
    obtain p v where pv: "pv = (p, v)" by fastforce
    have r: "ggml_op_can_inplace (tn_op (T t))" "reuse_parent T ?ga1 t (srcs (T t)) = Some (p, v)"
      using Some pv by (auto split: if_splits)
    have al: "own T x \<or> x = t" if "hn_allocated (ga_hash ?ga1 x)" for x
      using that assms(2) by (auto simp: upd_hash_def mem_ok_def split: if_splits)
    note sp = reuse_parent_spec [OF r(2) al assms(4) [rule_format, OF r(1)]]
    have pt: "p \<noteq> t" using sp assms(4) [rule_format, OF r(1)] by auto
    have hp: "ga_hash ?ga1 p = ga_hash ga p" using pt by (simp add: upd_hash_def)
    have ga': "ga' = ga \<lparr>ga_hash := (ga_hash ga)
       (t := (ga_hash ga t) \<lparr>hn_allocated := True, hn_buffer := hn_buffer (ga_hash ga p),
                              hn_offset := hn_offset (ga_hash ga p)\<rparr>,
        p := (ga_hash ga p) \<lparr>hn_allocated := False\<rparr>)\<rparr>"
      using assms(1) c Some pv sp pt
      by (simp add: ggml_gallocr_allocate_node_def Let_def upd_hash_def fun_upd_twist split: if_splits)
    note mv = move_block [OF assms(2) _ assms(3) _ _ _ ga']
    show ?thesis
      by (rule reuse [of p]) (use True r(1) sp hp mv in \<open>auto simp: ga' frame_def\<close>)
  qed
qed

subsection \<open>Facts of a well-formed graph\<close>

lemma in_uses: "s \<in> set (uses T ns) \<longleftrightarrow> (\<exists>n \<in> set ns. s \<in> set (srcs (T n)))"
  by (simp add: uses_def)

lemma in_uses_take:
  assumes "s \<in> set (uses T (take i ns))"
  obtains j where "j < i" "j < length ns" "s \<in> set (srcs (T (ns ! j)))"
proof -
  obtain n where n: "n \<in> set (take i ns)" "s \<in> set (srcs (T n))" using assms by (auto simp: in_uses)
  then obtain j where "j < length (take i ns)" "take i ns ! j = n" by (metis in_set_conv_nth)
  then show ?thesis using that [of j] n(2) by simp
qed

lemma uses_simps [simp]:
  "uses T [] = []" "uses T (n # ns) = srcs (T n) @ uses T ns" "uses T (xs @ ys) = uses T xs @ uses T ys"
  by (simp_all add: uses_def)

lemma graph_ok_distinct:
  assumes "graph_ok T g"
  shows "distinct (gr_nodes g)" "distinct (gr_leafs g)" "set (gr_leafs g) \<inter> set (gr_nodes g) = {}"
  using assms by (auto simp: graph_ok_def Let_def)

lemma graph_ok_src:
  assumes "graph_ok T g" "i < length (gr_nodes g)" "s \<in> set (srcs (T (gr_nodes g ! i)))"
  shows "s \<in> set (gr_leafs g) \<union> set (take i (gr_nodes g))"
  using assms by (auto simp: graph_ok_def Let_def list_all_iff)

lemma not_in_take: "distinct xs \<Longrightarrow> i < length xs \<Longrightarrow> xs ! i \<notin> set (take i xs)"
  by (auto simp: in_set_conv_nth nth_eq_iff_index_eq)

lemma node_not_earlier:
  assumes "graph_ok T g" "i < length (gr_nodes g)"
  shows "gr_nodes g ! i \<notin> set (gr_leafs g) \<union> set (take i (gr_nodes g))"
  using graph_ok_distinct [OF assms(1)] not_in_take assms(2) nth_mem by blast

lemma graph_ok_uses:
  assumes "graph_ok T g" "s \<in> set (uses T (gr_nodes g))"
  shows "s \<in> graph_tensors g"
proof -
  have "s \<in> set (uses T (take (length (gr_nodes g)) (gr_nodes g)))" using assms(2) by simp
  then obtain i where "i < length (gr_nodes g)" "s \<in> set (srcs (T (gr_nodes g ! i)))"
    by (rule in_uses_take)
  then show ?thesis using graph_ok_src [OF assms(1)] by (auto simp: graph_tensors_def dest: in_set_takeD)
qed

lemma graph_ok_node_view:
  assumes "graph_ok T g" "i < length (gr_nodes g)" "tn_view_src (T (gr_nodes g ! i)) = Some v"
  shows "\<not> ggml_is_view (T v)" "own T v \<Longrightarrow> v \<in> set (gr_leafs g) \<union> set (take i (gr_nodes g))"
proof -
  have "\<forall>i \<in> {0 ..< length (gr_nodes g)}. case tn_view_src (T (gr_nodes g ! i)) of None \<Rightarrow> True
      | Some v \<Rightarrow> \<not> ggml_is_view (T v) \<and>
          (own T v \<longrightarrow> v \<in> set (gr_leafs g) \<or> v \<in> set (take i (gr_nodes g)))"
    using assms(1) by (simp add: graph_ok_def Let_def list_all_iff)
  from bspec [OF this, of i] show "\<not> ggml_is_view (T v)"
    "own T v \<Longrightarrow> v \<in> set (gr_leafs g) \<union> set (take i (gr_nodes g))" using assms(2,3) by auto
qed

lemma graph_ok_leaf_view:
  assumes "graph_ok T g" "l \<in> set (gr_leafs g)" "tn_view_src (T l) = Some v"
  shows "\<not> ggml_is_view (T v)" "\<not> own T v"
proof -
  have "\<forall>l \<in> set (gr_leafs g). case tn_view_src (T l) of None \<Rightarrow> True
      | Some v \<Rightarrow> \<not> ggml_is_view (T v) \<and> \<not> own T v"
    using assms(1) by (simp add: graph_ok_def Let_def list_all_iff)
  from bspec [OF this assms(2)] show "\<not> ggml_is_view (T v)" "\<not> own T v" using assms(3) by auto
qed

lemma graph_ok_view:
  assumes "graph_ok T g" "t \<in> graph_tensors g" "tn_view_src (T t) = Some v"
  shows "\<not> ggml_is_view (T v)" "own T v \<Longrightarrow> t \<in> set (gr_nodes g)"
proof -
  have "\<not> ggml_is_view (T v) \<and> (own T v \<longrightarrow> t \<in> set (gr_nodes g))"
  proof (cases "t \<in> set (gr_nodes g)")
    case True
    then obtain i where i: "i < length (gr_nodes g)" "t = gr_nodes g ! i" by (auto simp: in_set_conv_nth)
    then show ?thesis using graph_ok_node_view(1) [OF assms(1)] assms(3) True by auto
  next
    case False
    then have "t \<in> set (gr_leafs g)" using assms(2) by (simp add: graph_tensors_def)
    then show ?thesis using graph_ok_leaf_view [OF assms(1)] assms(3) by auto
  qed
  then show "\<not> ggml_is_view (T v)" "own T v \<Longrightarrow> t \<in> set (gr_nodes g)" by auto
qed

lemma graph_ok_view_use:
  assumes "graph_ok T g" "s \<in> set (uses T (gr_nodes g))" "tn_view_src (T s) = Some v" "own T v"
  shows "s \<in> set (gr_nodes g)" "tn_op (T s) \<noteq> GGML_OP_NONE"
proof -
  show "s \<in> set (gr_nodes g)" using graph_ok_view(2) [OF assms(1) graph_ok_uses [OF assms(1,2)] assms(3,4)] .
  show "tn_op (T s) \<noteq> GGML_OP_NONE"
    using assms by (auto simp: graph_ok_def Let_def list_all_iff view_root_def ggml_is_view_def)
qed

text \<open>No node reads the memory of a node that comes later.\<close>

lemma node_not_read_before:
  assumes "graph_ok T g" "i < length (gr_nodes g)" "own T (gr_nodes g ! i)"
  shows "gr_nodes g ! i \<notin> view_root T ` set (uses T (take i (gr_nodes g)))"
proof
  let ?ns = "gr_nodes g"
  assume "?ns ! i \<in> view_root T ` set (uses T (take i ?ns))"
  then obtain s where rs: "s \<in> set (uses T (take i ?ns))" "view_root T s = ?ns ! i" by auto
  obtain j where "j < i" "s \<in> set (srcs (T (?ns ! j)))" using rs(1) by (rule in_uses_take)
  then have j: "j < i" "s \<in> set (srcs (T (?ns ! j)))" "view_root T s = ?ns ! i" using rs(2) by auto
  then have s: "s \<in> set (gr_leafs g) \<union> set (take j ?ns)" using graph_ok_src [OF assms(1)] assms(2) by auto
  have sub: "set (take j ?ns) \<subseteq> set (take i ?ns)" using j(1) by (simp add: set_take_subset_set_take)
  note new = node_not_earlier [OF assms(1,2)]
  show False
  proof (cases "tn_view_src (T s)")
    case None
    then show False using j(3) s sub new by (auto simp: view_root_def)
  next
    case (Some v)
    then have v: "v = ?ns ! i" using j(3) by (simp add: view_root_def)
    have "s \<in> graph_tensors g" using s by (auto simp: graph_tensors_def dest: in_set_takeD)
    then have "s \<in> set ?ns" using graph_ok_view(2) [OF assms(1) _ Some] assms(3) v by simp
    then have "s \<in> set (take j ?ns)" using s graph_ok_distinct(3) [OF assms(1)] by auto
    then obtain l where l: "l < j" "l < length ?ns" "s = ?ns ! l" using j(1) assms(2) by (auto simp: in_set_conv_nth)
    have "?ns ! i \<in> set (gr_leafs g) \<union> set (take l ?ns)"
      using graph_ok_node_view(2) [OF assms(1) l(2)] assms(3) Some v l(3) by simp
    moreover have "set (take l ?ns) \<subseteq> set (take i ?ns)" using j(1) l(1) by (simp add: set_take_subset_set_take)
    ultimately show False using new by blast
  qed
qed

subsection \<open>The counters\<close>

definition view_node :: "tensors \<Rightarrow> nat \<Rightarrow> nat \<Rightarrow> bool" where
  "view_node T x n \<longleftrightarrow> tn_view_src (T n) = Some x \<and> tn_op (T n) \<noteq> GGML_OP_NONE"

text \<open>The views of \<open>x\<close> that are not over: never a source, or a source of a use to come.\<close>

definition views_left :: "tensors \<Rightarrow> cgraph \<Rightarrow> nat list \<Rightarrow> nat \<Rightarrow> nat" where
  "views_left T g R x = length (filter (\<lambda>n. view_node T x n \<and>
     (n \<notin> set (uses T (gr_nodes g)) \<or> n \<in> set R)) (gr_nodes g))"

definition counts :: "tensors \<Rightarrow> cgraph \<Rightarrow> nat list \<Rightarrow> gallocr \<Rightarrow> bool" where
  "counts T g R ga \<longleftrightarrow>
     (\<forall>t. hn_children (ga_hash ga t) = int (count_list R t)) \<and>
     (\<forall>x. own T x \<longrightarrow> hn_views (ga_hash ga x) = int (views_left T g R x)) \<and>
     (\<forall>v. ggml_is_view (T v) \<longrightarrow> hn_views (ga_hash ga v) = 0)"

definition spent :: "tensors \<Rightarrow> cgraph \<Rightarrow> nat list \<Rightarrow> nat \<Rightarrow> bool" where
  "spent T g R x \<longleftrightarrow> x \<notin> view_root T ` set R \<and> x \<in> view_root T ` set (uses T (gr_nodes g))"

definition kept :: "tensors \<Rightarrow> cgraph \<Rightarrow> nat list \<Rightarrow> nat set \<Rightarrow> nat set \<Rightarrow> gallocr \<Rightarrow> bool" where
  "kept T g R D E ga \<longleftrightarrow>
     (\<forall>x. hn_allocated (ga_hash ga x) \<longrightarrow> x \<in> D) \<and>
     (\<forall>x \<in> D. own T x \<longrightarrow> hn_allocated (ga_hash ga x) \<or> x \<in> E \<or> spent T g R x \<and> \<not> flag_output (T x))"

lemma filter_insert_length:
  assumes "distinct ns"
  shows "length (filter (\<lambda>n. P n \<and> (n \<notin> U \<or> n \<in> insert p R)) ns) =
    length (filter (\<lambda>n. P n \<and> (n \<notin> U \<or> n \<in> R)) ns) +
    (if p \<in> set ns \<and> P p \<and> p \<in> U \<and> p \<notin> R then 1 else 0)"
  using assms by (induction ns) auto

lemma views_left_Cons:
  assumes "graph_ok T g" "p \<in> set (uses T (gr_nodes g))"
  shows "views_left T g (p # R) x = views_left T g R x +
    (if p \<in> set (gr_nodes g) \<and> view_node T x p \<and> p \<notin> set R then 1 else 0)"
  using filter_insert_length [OF graph_ok_distinct(1) [OF assms(1)], of "view_node T x"
      "set (uses T (gr_nodes g))" p "set R"] assms(2)
  by (simp add: views_left_def)

lemma views_left_zero:
  assumes "graph_ok T g" "own T x" "views_left T g R x = 0" "set R \<subseteq> set (uses T (gr_nodes g))" "x \<notin> set R"
  shows "x \<notin> view_root T ` set R"
proof
  assume "x \<in> view_root T ` set R"
  then obtain s where s: "s \<in> set R" "x = view_root T s" by blast
  then have v: "tn_view_src (T s) = Some x" using assms(5) by (auto simp: view_root_def split: option.splits)
  have "s \<in> set (gr_nodes g)" "tn_op (T s) \<noteq> GGML_OP_NONE"
    using graph_ok_view_use [OF assms(1) _ v assms(2)] s(1) assms(4) by auto
  then show False using assms(3) s(1) v by (auto simp: views_left_def view_node_def filter_empty_conv)
qed

lemma kept_mono: "kept T g R D E ga \<Longrightarrow> set R' \<subseteq> set R \<Longrightarrow> ga_hash ga' = ga_hash ga \<Longrightarrow> kept T g R' D E ga'"
  unfolding kept_def spent_def by (auto; blast)

subsection \<open>Giving a use back\<close>

definition same_place :: "gallocr \<Rightarrow> gallocr \<Rightarrow> bool" where
  "same_place ga ga' \<longleftrightarrow> (\<forall>x. hn_buffer (ga_hash ga' x) = hn_buffer (ga_hash ga x) \<and>
     hn_offset (ga_hash ga' x) = hn_offset (ga_hash ga x))"

lemma same_place_refl [simp]: "same_place ga ga"
  by (simp add: same_place_def)

lemma same_place_trans: "same_place a b \<Longrightarrow> same_place b c \<Longrightarrow> same_place a c"
  by (simp add: same_place_def)

definition counter_step :: "(hash_node \<Rightarrow> hash_node) \<Rightarrow> bool" where
  "counter_step f \<longleftrightarrow> (\<forall>h. hn_buffer (f h) = hn_buffer h \<and> hn_offset (f h) = hn_offset h \<and>
     hn_allocated (f h) = hn_allocated h)"

lemma counter_steps [simp]:
  "counter_step (\<lambda>h. h \<lparr>hn_children := c h\<rparr>)" "counter_step (\<lambda>h. h \<lparr>hn_views := d h\<rparr>)"
  by (simp_all add: counter_step_def)

lemma upd_hash_fields [simp]:
  "ga_bufts (upd_hash t f ga) = ga_bufts ga" "ga_talloc_of (upd_hash t f ga) = ga_talloc_of ga"
  "ga_tallocs (upd_hash t f ga) = ga_tallocs ga"
  "ga_buffers (upd_hash t f ga) = ga_buffers ga" "ga_buffer_sizes (upd_hash t f ga) = ga_buffer_sizes ga"
  "ga_hash (upd_hash t f ga) = (ga_hash ga)(t := f (ga_hash ga t))"
  by (simp_all add: upd_hash_def)

lemma counter_step_same:
  assumes "counter_step f"
  shows "hn_buffer (ga_hash (upd_hash t f ga) x) = hn_buffer (ga_hash ga x)"
    "hn_offset (ga_hash (upd_hash t f ga) x) = hn_offset (ga_hash ga x)"
    "hn_allocated (ga_hash (upd_hash t f ga) x) = hn_allocated (ga_hash ga x)"
  using assms by (simp_all add: counter_step_def)

lemma counter_step_mem:
  assumes "counter_step f" "mem_ok be T g ga"
  shows "mem_ok be T g (upd_hash t f ga)" "same_place ga (upd_hash t f ga)"
proof -
  note same = counter_step_same [OF assms(1)]
  have "talloc_idx (upd_hash t f ga) x = talloc_idx ga x" for x
    using same(1) [of t ga x] by (simp only: talloc_idx_def upd_hash_fields(1,2))
  moreover have "tensor_size be T (upd_hash t f ga) x = tensor_size be T ga x" for x
    using same(1) [of t ga x] by (simp only: tensor_size_def upd_hash_fields(1,2))
  ultimately have "live_map be T (upd_hash t f ga) k x = live_map be T ga k x" for k x
    using same(2,3) [of t ga x] by (simp only: live_map_def block_of_def upd_hash_fields(1-3))
  then have "live_map be T (upd_hash t f ga) k = live_map be T ga k" for k by blast
  then show "mem_ok be T g (upd_hash t f ga)"
    using assms(2) same by (simp only: mem_ok_def tallocs_ok_def upd_hash_fields(1-3)) simp
  show "same_place ga (upd_hash t f ga)" unfolding same_place_def using same by blast
qed

text \<open>A use of \<open>p\<close> is over: the counters after it.\<close>

definition drop_use :: "tensors \<Rightarrow> nat \<Rightarrow> gallocr \<Rightarrow> gallocr" where
  "drop_use T p ga =
     (let ga1 = upd_hash p (\<lambda>h. h \<lparr>hn_children := hn_children h - 1\<rparr>) ga;
          hp = ga_hash ga1 p in
      case tn_view_src (T p) of
        Some v \<Rightarrow> if hn_children hp = 0 \<and> hn_views hp = 0
                  then upd_hash v (\<lambda>h. h \<lparr>hn_views := hn_views h - 1\<rparr>) ga1 else ga1
      | None \<Rightarrow> ga1)"

lemma drop_use_counts:
  assumes "graph_ok T g" "counts T g (p # R) ga" "p \<in> set (uses T (gr_nodes g))"
  shows "counts T g R (drop_use T p ga)"
proof -
  let ?ga1 = "upd_hash p (\<lambda>h. h \<lparr>hn_children := hn_children h - 1\<rparr>) ga"
  have ch: "hn_children (ga_hash ?ga1 t) = int (count_list R t)" for t
    using assms(2) by (simp add: counts_def)
  have vw: "hn_views (ga_hash ?ga1 x) = hn_views (ga_hash ga x)" for x by simp
  have own: "hn_views (ga_hash ga x) = int (views_left T g R x) +
      (if p \<in> set (gr_nodes g) \<and> view_node T x p \<and> p \<notin> set R then 1 else 0)" if "own T x" for x
    using assms(2) that views_left_Cons [OF assms(1,3), of R x] by (simp add: counts_def)
  have view: "hn_views (ga_hash ga v) = 0" if "ggml_is_view (T v)" for v
    using assms(2) that by (simp add: counts_def)
  show ?thesis
  proof (cases "tn_view_src (T p)")
    case None
    then have "\<not> view_node T x p" for x by (simp add: view_node_def)
    then show ?thesis using ch vw own view None
      by (simp add: drop_use_def Let_def counts_def del: upd_hash_fields(6))
  next
    case (Some v)
    have pv: "hn_views (ga_hash ga p) = 0" using view Some by (simp add: ggml_is_view_def)
    have vv: "\<not> ggml_is_view (T v)" "own T v \<Longrightarrow> p \<in> set (gr_nodes g) \<and> tn_op (T p) \<noteq> GGML_OP_NONE"
      using graph_ok_view(1) [OF assms(1) graph_ok_uses [OF assms(1,3)] Some]
        graph_ok_view_use [OF assms(1,3) Some] by auto
    have d: "drop_use T p ga =
        (if p \<in> set R then ?ga1 else upd_hash v (\<lambda>h. h \<lparr>hn_views := hn_views h - 1\<rparr>) ?ga1)"
      using ch [of p] vw [of p] pv Some
      by (simp add: drop_use_def Let_def count_list_0_iff del: upd_hash_fields(6))
    show ?thesis
    proof (cases "p \<in> set R")
      case True
      then show ?thesis using ch vw own view by (simp add: d counts_def del: upd_hash_fields(6))
    next
      case False
      let ?ga2 = "upd_hash v (\<lambda>h. h \<lparr>hn_views := hn_views h - 1\<rparr>) ?ga1"
      have "hn_children (ga_hash ?ga2 t) = int (count_list R t)" for t
        unfolding ch [of t, symmetric] by (cases "t = v") simp_all
      moreover have v2: "hn_views (ga_hash ?ga2 x) = hn_views (ga_hash ga x) - (if x = v then 1 else 0)" for x
        by simp
      moreover have "hn_views (ga_hash ?ga2 x) = int (views_left T g R x)" if "own T x" for x
        unfolding v2 using own [OF that] vv(2) that False Some by (auto simp: view_node_def)
      moreover have "hn_views (ga_hash ?ga2 u) = 0" if "ggml_is_view (T u)" for u
        unfolding v2 using view [OF that] vv(1) that by auto
      ultimately show ?thesis using False by (simp add: d counts_def del: upd_hash_fields(6))
    qed
  qed
qed

lemma release_src_drop:
  assumes "tn_view_src (T p) \<noteq> Some p"
  shows "release_src be T p ga =
     (let ga1 = drop_use T p ga; y = view_root T p; h = ga_hash ga1 p; hy = ga_hash ga1 y in
      if hn_children h = 0 \<and> hn_views h = 0 \<and> hn_children hy = 0 \<and> hn_views hy = 0 \<and> hn_allocated hy
      then ggml_gallocr_free_node be T y ga1 else Some ga1)"
proof (cases "tn_view_src (T p)")
  case None
  then show ?thesis by (simp add: release_src_def drop_use_def view_root_def Let_def)
next
  case (Some v)
  then have "v \<noteq> p" using assms by simp
  then show ?thesis using Some by (auto simp: release_src_def drop_use_def view_root_def Let_def)
qed

lemma drop_use_mem:
  assumes "mem_ok be T g ga"
  shows "mem_ok be T g (drop_use T p ga)" "frame ga (drop_use T p ga)" "same_place ga (drop_use T p ga)"
    "hn_allocated (ga_hash (drop_use T p ga) x) = hn_allocated (ga_hash ga x)"
proof -
  let ?ga1 = "upd_hash p (\<lambda>h. h \<lparr>hn_children := hn_children h - 1\<rparr>) ga"
  have "\<exists>v. drop_use T p ga = ?ga1 \<or>
      drop_use T p ga = upd_hash v (\<lambda>h. h \<lparr>hn_views := hn_views h - 1\<rparr>) ?ga1"
  proof (cases "tn_view_src (T p)")
    case (Some a)
    then show ?thesis by (intro exI [of _ a]) (simp add: drop_use_def Let_def del: upd_hash_fields)
  qed (simp add: drop_use_def)
  then obtain v where d: "drop_use T p ga = ?ga1 \<or>
      drop_use T p ga = upd_hash v (\<lambda>h. h \<lparr>hn_views := hn_views h - 1\<rparr>) ?ga1" by blast
  note m1 = counter_step_mem [OF counter_steps(1) assms, of p "\<lambda>h. hn_children h - 1"]
  note m2 = counter_step_mem [OF counter_steps(2) m1(1), of v "\<lambda>h. hn_views h - 1"]
  show "mem_ok be T g (drop_use T p ga)"
    using d m1(1) m2(1) by (elim disjE) (simp_all only:)
  show "frame ga (drop_use T p ga)" using d by (elim disjE) (simp_all add: frame_def)
  show "same_place ga (drop_use T p ga)" 
    using d m1(2) same_place_trans [OF m1(2) m2(2)] by (elim disjE) (simp_all only:)
  show "hn_allocated (ga_hash (drop_use T p ga) x) = hn_allocated (ga_hash ga x)"
    using d by (elim disjE) simp_all
qed

lemma kept_drop:
  assumes "kept T g R D E ga" "set R' \<subseteq> set R"
    "\<And>x. hn_allocated (ga_hash ga' x) \<longrightarrow> hn_allocated (ga_hash ga x)"
    "\<And>x. hn_allocated (ga_hash ga x) \<Longrightarrow> \<not> hn_allocated (ga_hash ga' x) \<Longrightarrow>
       spent T g R' x \<and> \<not> flag_output (T x)"
  shows "kept T g R' D E ga'"
proof -
  have "spent T g R' x" if "spent T g R x" for x using that assms(2) by (auto simp: spent_def)
  then show ?thesis using assms(1,3,4) unfolding kept_def by blast
qed

lemma release_inv:
  assumes "graph_ok T g" "mem_ok be T g ga" "counts T g (p # R) ga" "kept T g (p # R) D E ga"
    "set (p # R) \<subseteq> set (uses T (gr_nodes g))" "release_src be T p ga = Some ga'"
  shows "mem_ok be T g ga' \<and> frame ga ga' \<and> same_place ga ga' \<and> counts T g R ga' \<and> kept T g R D E ga'"
proof -
  let ?ga1 = "drop_use T p ga" and ?y = "view_root T p"
  have pu: "p \<in> set (uses T (gr_nodes g))" and Ru: "set R \<subseteq> set (uses T (gr_nodes g))" using assms(5) by auto
  have nself: "tn_view_src (T p) \<noteq> Some p"
    using graph_ok_view(1) [OF assms(1) graph_ok_uses [OF assms(1) pu]] by (auto simp: ggml_is_view_def)
  note c1 = drop_use_counts [OF assms(1,3) pu]
  note m1 = drop_use_mem [OF assms(2), of p]
  have k1: "kept T g R D E ?ga1" by (rule kept_drop [OF assms(4)]) (auto simp: m1(4))
  let ?h = "ga_hash ?ga1 p" and ?hy = "ga_hash ?ga1 ?y"
  show ?thesis
  proof (cases "hn_children ?h = 0 \<and> hn_views ?h = 0 \<and> hn_children ?hy = 0 \<and> hn_views ?hy = 0 \<and> hn_allocated ?hy")
    case False
    then have "ga' = ?ga1" using assms(6) release_src_drop [where T = T and p = p, OF nself, of be ga] by (auto simp: Let_def)
    then show ?thesis using m1 c1 k1 by simp
  next
    case True
    then have fr: "ggml_gallocr_free_node be T ?y ?ga1 = Some ga'"
      using assms(6) release_src_drop [where T = T and p = p, OF nself, of be ga] by (simp add: Let_def)
    have ay: "hn_allocated ?hy" and oy: "own T ?y" using True m1(1) by (auto simp: mem_ok_def)
    note f = free_node_effect [OF m1(1) ay fr]
    have "int (views_left T g R ?y) = 0" using True c1 oy by (simp add: counts_def)
    moreover have "int (count_list R ?y) = 0" using True c1 by (simp add: counts_def)
    ultimately have "?y \<notin> view_root T ` set R"
      using views_left_zero [OF assms(1) oy _ Ru] by (simp add: count_list_0_iff)
    then have sp: "spent T g R ?y" using pu by (auto simp: spent_def)
    have "counts T g R ga'" using f c1 by (auto simp: counts_def)
    moreover have "same_place ?ga1 ga'" using f by (auto simp: same_place_def)
    moreover have "kept T g R D E ga'"
      by (rule kept_drop [OF k1]) (use f sp in \<open>auto split: if_splits\<close>)
    ultimately show ?thesis using f m1 frame_trans same_place_trans by blast
  qed
qed

lemma release_all:
  assumes "fold_opt (release_src be T) ps ga = Some ga'" "graph_ok T g" "mem_ok be T g ga"
    "counts T g (ps @ R) ga" "kept T g (ps @ R) D E ga" "set (ps @ R) \<subseteq> set (uses T (gr_nodes g))"
  shows "mem_ok be T g ga' \<and> frame ga ga' \<and> same_place ga ga' \<and> counts T g R ga' \<and> kept T g R D E ga'"
  using assms(1,3-6)
proof (induction ps arbitrary: ga)
  case Nil
  then show ?case by simp
next
  case (Cons p ps)
  then obtain ga1 where ga1: "release_src be T p ga = Some ga1" "fold_opt (release_src be T) ps ga1 = Some ga'"
    by (auto split: bind_splits)
  have *: "mem_ok be T g ga1 \<and> frame ga ga1 \<and> same_place ga ga1 \<and> counts T g (ps @ R) ga1 \<and> kept T g (ps @ R) D E ga1"
    by (rule release_inv [OF assms(2) Cons.prems(2) _ _ _ ga1(1)]) (use Cons.prems in simp_all)
  then have "mem_ok be T g ga' \<and> frame ga1 ga' \<and> same_place ga1 ga' \<and> counts T g R ga' \<and> kept T g R D E ga'"
    using Cons.IH [OF ga1(2)] Cons.prems(5) by simp
  then show ?case using * frame_trans same_place_trans by blast
qed

subsection \<open>The first two loops: leafs and inputs\<close>

definition all_in :: "tensors \<Rightarrow> nat set \<Rightarrow> gallocr \<Rightarrow> bool" where
  "all_in T D ga \<longleftrightarrow> (\<forall>x. hn_allocated (ga_hash ga x) \<longleftrightarrow> own T x \<and> x \<in> D)"

definition same_counters :: "gallocr \<Rightarrow> gallocr \<Rightarrow> bool" where
  "same_counters ga ga' \<longleftrightarrow> (\<forall>x. hn_children (ga_hash ga' x) = hn_children (ga_hash ga x) \<and>
     hn_views (ga_hash ga' x) = hn_views (ga_hash ga x))"

lemma graph_ok_early:
  assumes "graph_ok T g" "t \<in> graph_tensors g" "t \<in> set (gr_leafs g) \<or> flag_input (T t)"
  shows "\<not> ggml_op_can_inplace (tn_op (T t))"
proof -
  have "\<forall>t \<in> set (gr_leafs g @ gr_nodes g). t \<in> set (gr_leafs g) \<or> flag_input (T t) \<longrightarrow>
      \<not> ggml_op_can_inplace (tn_op (T t))"
    using assms(1) unfolding graph_ok_def Let_def list_all_iff by blast
  then show ?thesis using assms(2,3) by (auto simp: graph_tensors_def)
qed

lemma alloc_early:
  assumes "graph_ok T g" "mem_ok be T g ga" "all_in T D ga" "t \<in> graph_tensors g"
    "t \<in> set (gr_leafs g) \<or> flag_input (T t)" "ggml_gallocr_allocate_node be T bid t ga = Some ga'"
  shows "mem_ok be T g ga' \<and> frame ga ga' \<and> same_counters ga ga' \<and> all_in T (insert t D) ga'"
proof -
  have n: "\<not> ggml_op_can_inplace (tn_op (T t))" by (rule graph_ok_early [OF assms(1,4,5)])
  then have "ggml_op_can_inplace (tn_op (T t)) \<longrightarrow> t \<notin> set (srcs (T t))" by simp
  with assms(6,2,4) show ?thesis
  proof (cases rule: allocate_node_cases)
    case skip
    have "all_in T (insert t D) ga" using skip(1) assms(3) unfolding all_in_def by (metis insert_iff)
    then show ?thesis using skip(2) assms(2) by (simp add: same_counters_def)
  next
    case (reuse p)
    then show ?thesis using n by simp
  next
    case (fresh off)
    have "all_in T (insert t D) ga'" using fresh(1,5) assms(3) by (simp add: all_in_def)
    then show ?thesis using fresh by (simp add: same_counters_def)
  qed
qed

lemma alloc_leafs:
  assumes "fold_opt (alloc_leaf be T ids) (enumerate i ls) ga = Some ga'" "graph_ok T g"
    "mem_ok be T g ga" "all_in T D ga" "set ls \<subseteq> set (gr_leafs g)"
  shows "mem_ok be T g ga' \<and> frame ga ga' \<and> same_counters ga ga' \<and> all_in T (D \<union> set ls) ga'"
  using assms(1,3-5)
proof (induction ls arbitrary: i ga D)
  case Nil
  then show ?case by (simp add: same_counters_def)
next
  case (Cons l ls)
  then obtain bid ga1 where a: "ggml_gallocr_allocate_node be T bid l ga = Some ga1"
    "fold_opt (alloc_leaf be T ids) (enumerate (Suc i) ls) ga1 = Some ga'"
    by (auto simp: alloc_leaf_def split: bind_splits)
  have l: "l \<in> graph_tensors g" "l \<in> set (gr_leafs g) \<or> flag_input (T l)"
    using Cons.prems(4) by (simp_all add: graph_tensors_def)
  note s1 = alloc_early [OF assms(2) Cons.prems(2,3) l a(1)]
  then have "mem_ok be T g ga' \<and> frame ga1 ga' \<and> same_counters ga1 ga' \<and> all_in T (insert l D \<union> set ls) ga'"
    using Cons.IH [OF a(2), of "insert l D"] Cons.prems(4) by simp
  then show ?case using s1 frame_trans by (auto simp: same_counters_def)
qed

text \<open>
  The state of the counting loop after the nodes \<open>ns\<close> and the uses \<open>us\<close>.
\<close>

definition early_set :: "tensors \<Rightarrow> cgraph \<Rightarrow> nat set \<Rightarrow> nat set" where
  "early_set T g S = set (gr_leafs g) \<union> {t \<in> S. flag_input (T t)}"

definition counting :: "tensors \<Rightarrow> cgraph \<Rightarrow> nat list \<Rightarrow> nat list \<Rightarrow> gallocr \<Rightarrow> bool" where
  "counting T g ns us ga \<longleftrightarrow> all_in T (early_set T g (set ns \<union> set us)) ga \<and>
     (\<forall>t. hn_children (ga_hash ga t) = int (count_list us t)) \<and>
     (\<forall>x. hn_views (ga_hash ga x) = int (length (filter (view_node T x) ns)))"

lemma early_set_insert:
  "early_set T g (insert t S) = (if flag_input (T t) then insert t (early_set T g S) else early_set T g S)"
  by (auto simp: early_set_def)

lemma count_src_inv:
  assumes "graph_ok T g" "mem_ok be T g ga" "counting T g ns us ga" "s \<in> graph_tensors g"
    "count_src be T bid s ga = Some ga'"
  shows "mem_ok be T g ga' \<and> frame ga ga' \<and> counting T g ns (us @ [s]) ga'"
proof -
  let ?ga1 = "upd_hash s (\<lambda>h. h \<lparr>hn_children := hn_children h + 1\<rparr>) ga"
  let ?D = "early_set T g (set ns \<union> set us)"
  note m1 = counter_step_mem(1) [OF counter_steps(1) assms(2), of s "\<lambda>h. hn_children h + 1"]
  have c1: "hn_children (ga_hash ?ga1 t) = int (count_list (us @ [s]) t)"
    "hn_views (ga_hash ?ga1 t) = int (length (filter (view_node T t) ns))" for t
    using assms(3) by (simp_all add: counting_def)
  have a1: "all_in T ?D ?ga1" using assms(3) by (simp add: counting_def all_in_def)
  show ?thesis
  proof (cases "flag_input (T s)")
    case False
    then have "ga' = ?ga1" using assms(5) by (simp add: count_src_def Let_def)
    then show ?thesis using m1 c1 a1 False by (simp add: counting_def early_set_insert del: upd_hash_fields(6))
  next
    case True
    then have "ggml_gallocr_allocate_node be T bid s ?ga1 = Some ga'"
      using assms(5) by (simp add: count_src_def Let_def)
    then have *: "mem_ok be T g ga'" "frame ?ga1 ga'" "same_counters ?ga1 ga'" "all_in T (insert s ?D) ga'"
      using alloc_early [OF assms(1) m1 a1 assms(4)] True by blast+
    have "hn_children (ga_hash ga' t) = int (count_list (us @ [s]) t)"
      "hn_views (ga_hash ga' t) = int (length (filter (view_node T t) ns))" for t
      using *(3) c1 [of t] by (simp_all only: same_counters_def)
    then show ?thesis using * True frame_trans [OF frame_upd_hash *(2)]
      by (simp add: counting_def early_set_insert)
  qed
qed

lemma count_srcs_inv:
  assumes "fold_opt (count_src be T bid) ss ga = Some ga'" "graph_ok T g" "mem_ok be T g ga"
    "counting T g ns us ga" "set ss \<subseteq> graph_tensors g"
  shows "mem_ok be T g ga' \<and> frame ga ga' \<and> counting T g ns (us @ ss) ga'"
  using assms(1,3-5)
proof (induction ss arbitrary: us ga)
  case Nil
  then show ?case by simp
next
  case (Cons s ss)
  then obtain ga1 where a: "count_src be T bid s ga = Some ga1" "fold_opt (count_src be T bid) ss ga1 = Some ga'"
    by (auto split: bind_splits)
  have s1: "mem_ok be T g ga1 \<and> frame ga ga1 \<and> counting T g ns (us @ [s]) ga1"
    using count_src_inv [OF assms(2) Cons.prems(2,3) _ a(1)] Cons.prems(4) by simp
  then have "mem_ok be T g ga' \<and> frame ga1 ga' \<and> counting T g ns ((us @ [s]) @ ss) ga'"
    using Cons.IH [OF a(2), of "us @ [s]"] Cons.prems(4) by auto
  then show ?case using s1 frame_trans by auto
qed

lemma count_node_inv:
  assumes "graph_ok T g" "mem_ok be T g ga" "counting T g ns us ga" "n \<in> set (gr_nodes g)"
    "count_node be T ids (i, n) ga = Some ga'"
  shows "mem_ok be T g ga' \<and> frame ga ga' \<and> counting T g (ns @ [n]) (us @ srcs (T n)) ga'"
proof -
  let ?D = "early_set T g (set ns \<union> set us)"
  let ?ga1 = "case tn_view_src (T n) of
      Some v \<Rightarrow> if tn_op (T n) \<noteq> GGML_OP_NONE then upd_hash v (\<lambda>h. h \<lparr>hn_views := hn_views h + 1\<rparr>) ga else ga
    | None \<Rightarrow> ga"
  obtain bid ga2 where
    a: "(if flag_input (T n) then ggml_gallocr_allocate_node be T bid n ?ga1 else Some ?ga1) = Some ga2"
    and b: "fold_opt (count_src be T bid) (srcs (T n)) ga2 = Some ga'"
    using assms(5) unfolding count_node_def by (auto simp: Let_def split: bind_splits)
  have nt: "n \<in> graph_tensors g" using assms(4) by (simp add: graph_tensors_def)
  have m1: "mem_ok be T g ?ga1" "frame ga ?ga1"
    using assms(2) counter_step_mem(1) [OF counter_steps(2) assms(2), of _ "\<lambda>h. hn_views h + 1"]
    by (auto split: option.split)
  have c1: "hn_children (ga_hash ?ga1 t) = int (count_list us t)"
    "hn_views (ga_hash ?ga1 t) = int (length (filter (view_node T t) (ns @ [n])))" for t
    using assms(3) by (auto simp: counting_def view_node_def split: option.split)
  have a1: "all_in T ?D ?ga1" using assms(3) by (auto simp: counting_def all_in_def split: option.split)
  have "mem_ok be T g ga2 \<and> frame ?ga1 ga2 \<and> same_counters ?ga1 ga2 \<and>
      all_in T (if flag_input (T n) then insert n ?D else ?D) ga2"
  proof (cases "flag_input (T n)")
    case True
    then have "ggml_gallocr_allocate_node be T bid n ?ga1 = Some ga2" using a by simp
    then show ?thesis using alloc_early [OF assms(1) m1(1) a1 nt] True by simp
  next
    case False
    then have "ga2 = ?ga1" using a by simp
    then show ?thesis using m1(1) a1 False by (simp add: same_counters_def)
  qed
  then have *: "mem_ok be T g ga2" "frame ?ga1 ga2" "same_counters ?ga1 ga2"
    "all_in T (early_set T g (insert n (set ns \<union> set us))) ga2" by (simp_all add: early_set_insert)
  have "hn_children (ga_hash ga2 t) = int (count_list us t)"
    "hn_views (ga_hash ga2 t) = int (length (filter (view_node T t) (ns @ [n])))" for t
    using *(3) c1 [of t] by (simp_all only: same_counters_def)
  then have "counting T g (ns @ [n]) us ga2" using *(4) by (simp add: counting_def)
  moreover have "set (srcs (T n)) \<subseteq> graph_tensors g"
    using graph_ok_uses [OF assms(1)] assms(4) by (auto simp: in_uses)
  ultimately have "mem_ok be T g ga' \<and> frame ga2 ga' \<and> counting T g (ns @ [n]) (us @ srcs (T n)) ga'"
    using count_srcs_inv [OF b assms(1) *(1)] by blast
  then show ?thesis using m1(2) *(2) frame_trans by blast
qed

lemma count_nodes_inv:
  assumes "fold_opt (count_node be T ids) (enumerate i ns') ga = Some ga'" "graph_ok T g"
    "mem_ok be T g ga" "counting T g ns us ga" "set ns' \<subseteq> set (gr_nodes g)"
  shows "mem_ok be T g ga' \<and> frame ga ga' \<and> counting T g (ns @ ns') (us @ uses T ns') ga'"
  using assms(1,3-5)
proof (induction ns' arbitrary: i ns us ga)
  case Nil
  then show ?case by simp
next
  case (Cons n ns')
  then obtain ga1 where a: "count_node be T ids (i, n) ga = Some ga1"
    "fold_opt (count_node be T ids) (enumerate (Suc i) ns') ga1 = Some ga'" by (auto split: bind_splits)
  have s1: "mem_ok be T g ga1 \<and> frame ga ga1 \<and> counting T g (ns @ [n]) (us @ srcs (T n)) ga1"
    using count_node_inv [OF assms(2) Cons.prems(2,3) _ a(1)] Cons.prems(4) by simp
  then have "mem_ok be T g ga' \<and> frame ga1 ga' \<and>
      counting T g ((ns @ [n]) @ ns') ((us @ srcs (T n)) @ uses T ns') ga'"
    using Cons.IH [OF a(2), of "ns @ [n]" "us @ srcs (T n)"] Cons.prems(4) by simp
  then show ?case using s1 frame_trans by auto
qed

subsection \<open>The main loop\<close>

definition uses_from :: "tensors \<Rightarrow> cgraph \<Rightarrow> nat \<Rightarrow> nat list" where
  "uses_from T g i = uses T (drop i (gr_nodes g))"

text \<open>The tensors that hold data before node \<open>i\<close>: leafs, inputs and the nodes before it.\<close>

definition placed_before :: "tensors \<Rightarrow> cgraph \<Rightarrow> nat \<Rightarrow> nat set" where
  "placed_before T g i =
     set (gr_leafs g) \<union> {t \<in> set (gr_nodes g). flag_input (T t)} \<union> set (take i (gr_nodes g))"

text \<open>Node \<open>i\<close> or a later one reads \<open>x\<close>, or it is an output.\<close>

definition live_at :: "tensors \<Rightarrow> cgraph \<Rightarrow> nat \<Rightarrow> nat \<Rightarrow> bool" where
  "live_at T g i x \<longleftrightarrow> x \<in> view_root T ` set (uses_from T g i) \<or> flag_output (T x)"

text \<open>
  The result of node \<open>i\<close> does not touch \<open>x\<close>, or it replaces its source \<open>x\<close> in place, of the same
  layout and read by nobody after node \<open>i\<close>.
\<close>

definition not_clobbered :: "backend \<Rightarrow> tensors \<Rightarrow> cgraph \<Rightarrow> gallocr \<Rightarrow> nat \<Rightarrow> nat \<Rightarrow> bool" where
  "not_clobbered be T g ga i x \<longleftrightarrow>
     (let w = gr_nodes g ! i in
      talloc_idx ga x \<noteq> talloc_idx ga w \<or>
      disjnt (span (block_of be T ga x)) (span (block_of be T ga w)) \<or>
      x \<in> set (srcs (T w)) \<and> ggml_op_can_inplace (tn_op (T w)) \<and> ggml_are_same_layout (T w) (T x) \<and>
      block_of be T ga w = block_of be T ga x \<and> \<not> live_at T g (Suc i) x)"

definition safe_upto :: "backend \<Rightarrow> tensors \<Rightarrow> cgraph \<Rightarrow> nat \<Rightarrow> gallocr \<Rightarrow> bool" where
  "safe_upto be T g i ga \<longleftrightarrow>
     (\<forall>j < i. own T (gr_nodes g ! j) \<longrightarrow>
        (\<forall>x \<in> placed_before T g j. own T x \<and> live_at T g j x \<and> x \<noteq> gr_nodes g ! j \<longrightarrow>
           not_clobbered be T g ga j x))"

definition in_buffer :: "backend \<Rightarrow> tensors \<Rightarrow> gallocr \<Rightarrow> nat \<Rightarrow> bool" where
  "in_buffer be T ga x \<longleftrightarrow> hn_buffer (ga_hash ga x) < length (ga_bufts ga) \<and>
     talloc_idx ga x < length (ga_tallocs ga) \<and>
     fst (block_of be T ga x) + snd (block_of be T ga x) \<le> dt_max (ga_tallocs ga ! talloc_idx ga x) \<and>
     dt_alignment (ga_tallocs ga ! talloc_idx ga x) dvd hn_offset (ga_hash ga x)"

definition exec_inv :: "backend \<Rightarrow> tensors \<Rightarrow> cgraph \<Rightarrow> nat \<Rightarrow> gallocr \<Rightarrow> bool" where
  "exec_inv be T g i ga \<longleftrightarrow> mem_ok be T g ga \<and> counts T g (uses_from T g i) ga \<and>
     kept T g (uses_from T g i) (placed_before T g i) {} ga \<and> safe_upto be T g i ga \<and>
     (\<forall>x \<in> placed_before T g i. own T x \<longrightarrow> in_buffer be T ga x)"

text \<open>A step that keeps the places of the tensors already placed keeps what is known of them.\<close>

definition keeps_places :: "tensors \<Rightarrow> nat set \<Rightarrow> gallocr \<Rightarrow> gallocr \<Rightarrow> bool" where
  "keeps_places T D ga ga' \<longleftrightarrow> frame ga ga' \<and> (\<forall>x \<in> D. own T x \<longrightarrow>
     hn_buffer (ga_hash ga' x) = hn_buffer (ga_hash ga x) \<and> hn_offset (ga_hash ga' x) = hn_offset (ga_hash ga x))"

lemma keeps_places_block:
  assumes "keeps_places T D ga ga'" "tallocs_ok ga" "x \<in> D" "own T x" "in_buffer be T ga x"
  shows "talloc_idx ga' x = talloc_idx ga x" "block_of be T ga' x = block_of be T ga x"
    "in_buffer be T ga' x"
proof -
  have fr: "frame ga ga'" and x: "hn_buffer (ga_hash ga' x) = hn_buffer (ga_hash ga x)"
    "hn_offset (ga_hash ga' x) = hn_offset (ga_hash ga x)" using assms(1,3,4) by (simp_all add: keeps_places_def)
  have b: "hn_buffer (ga_hash ga x) < length (ga_bufts ga)" using assms(5) by (simp add: in_buffer_def)
  note c = block_of_cong [OF fr assms(2) b x]
  show "talloc_idx ga' x = talloc_idx ga x" "block_of be T ga' x = block_of be T ga x" using c by auto
  show "in_buffer be T ga' x"
    using assms(5) c fr x by (simp add: in_buffer_def frame_def) (meson le_trans)
qed

lemma keeps_places_trans:
  assumes "keeps_places T D ga ga1" "keeps_places T D' ga1 ga'" "D \<subseteq> D'"
  shows "keeps_places T D ga ga'"
  using assms frame_trans unfolding keeps_places_def by (metis subsetD)

lemma placed_before_mono: "i \<le> j \<Longrightarrow> placed_before T g i \<subseteq> placed_before T g j"
  unfolding placed_before_def using set_take_subset_set_take [of i j "gr_nodes g"] by blast

lemma placed_before_Suc:
  "i < length (gr_nodes g) \<Longrightarrow> placed_before T g (Suc i) = insert (gr_nodes g ! i) (placed_before T g i)"
  by (auto simp: placed_before_def take_Suc_conv_app_nth)

lemma uses_from_Suc:
  "i < length (gr_nodes g) \<Longrightarrow> uses_from T g i = srcs (T (gr_nodes g ! i)) @ uses_from T g (Suc i)"
  by (simp add: uses_from_def Cons_nth_drop_Suc [symmetric])

lemma uses_from_subset: "set (uses_from T g i) \<subseteq> set (uses T (gr_nodes g))"
  using in_set_dropD [of _ i "gr_nodes g"] by (fastforce simp: uses_from_def in_uses)

lemma keeps_places_safe:
  assumes "keeps_places T (placed_before T g i) ga ga'" "tallocs_ok ga" "safe_upto be T g i ga"
    "\<forall>x \<in> placed_before T g i. own T x \<longrightarrow> in_buffer be T ga x" "i \<le> length (gr_nodes g)"
  shows "safe_upto be T g i ga'"
  unfolding safe_upto_def
proof (intro allI impI ballI, elim conjE)
  fix j x
  assume j: "j < i" "own T (gr_nodes g ! j)" and x: "x \<in> placed_before T g j" "own T x" "live_at T g j x"
    "x \<noteq> gr_nodes g ! j"
  have 1: "not_clobbered be T g ga j x" using assms(3) j x by (simp add: safe_upto_def)
  have xi: "x \<in> placed_before T g i" using x(1) j(1) placed_before_mono [of j i T g] by auto
  have wi: "gr_nodes g ! j \<in> placed_before T g i"
    using placed_before_Suc [of j g T] j(1) assms(5) placed_before_mono [of "Suc j" i T g] by auto
  have "in_buffer be T ga x" "in_buffer be T ga (gr_nodes g ! j)" using assms(4) xi wi x(2) j(2) by blast+
  note b = keeps_places_block [OF assms(1,2) xi x(2) this(1)] keeps_places_block [OF assms(1,2) wi j(2) this(2)]
  show "not_clobbered be T g ga' j x"
    using 1 by (simp only: not_clobbered_def Let_def b)
qed

lemma allocate_skip:
  assumes "ggml_gallocr_allocate_node be T bid t ga = Some ga'" "\<not> own T t \<or> hn_allocated (ga_hash ga t)"
  shows "ga' = ga"
  using assms by (auto simp: ggml_gallocr_allocate_node_def ggml_gallocr_is_allocated_def ggml_is_view_def
      own_def split: if_splits)

lemma allocate_skip_all:
  assumes "fold_opt (ggml_gallocr_allocate_node be T bid) ss ga = Some ga'"
    "\<forall>s \<in> set ss. \<not> own T s \<or> hn_allocated (ga_hash ga s)"
  shows "ga' = ga"
  using assms
proof (induction ss)
  case (Cons s ss)
  then obtain ga1 where a: "ggml_gallocr_allocate_node be T bid s ga = Some ga1"
    "fold_opt (ggml_gallocr_allocate_node be T bid) ss ga1 = Some ga'" by (auto split: bind_splits)
  then show ?case using Cons allocate_skip [OF a(1)] by simp
qed simp

lemma filter_length_mono:
  assumes "\<And>n. P n \<Longrightarrow> Q n"
  shows "length (filter P xs) \<le> length (filter Q xs)"
  using assms by (induction xs) auto

lemma views_left_mono:
  assumes "set R' \<subseteq> set R"
  shows "views_left T g R' x \<le> views_left T g R x"
  unfolding views_left_def by (rule filter_length_mono) (use assms in blast)

subsection \<open>One node\<close>

text \<open>
  The allocation of node \<open>i\<close>: either it takes fresh memory, or it replaces the parent \<open>p\<close>, which then
  is the exception in \<open>kept\<close> until its use is given back.
\<close>

lemma alloc_node_step:
  assumes ok: "graph_ok T g" and i: "i < length (gr_nodes g)" and inv: "exec_inv be T g i ga"
    and a: "ggml_gallocr_allocate_node be T bid (gr_nodes g ! i) ga = Some ga'"
  shows "\<exists>E. mem_ok be T g ga' \<and> keeps_places T (placed_before T g i) ga ga' \<and> same_counters ga ga' \<and>
    kept T g (uses_from T g i) (placed_before T g (Suc i)) E ga' \<and>
    (\<forall>p \<in> E. \<not> live_at T g (Suc i) p \<and> p \<in> set (srcs (T (gr_nodes g ! i)))) \<and>
    (own T (gr_nodes g ! i) \<longrightarrow> hn_allocated (ga_hash ga' (gr_nodes g ! i)) \<and>
      (\<forall>x \<in> placed_before T g i. own T x \<and> live_at T g i x \<and> x \<noteq> gr_nodes g ! i \<longrightarrow>
         not_clobbered be T g ga' i x))"
proof -
  let ?w = "gr_nodes g ! i" and ?D = "placed_before T g i" and ?R = "uses_from T g i"
  have inv: "mem_ok be T g ga" "counts T g ?R ga" "kept T g ?R ?D {} ga"
    "\<forall>x \<in> ?D. own T x \<longrightarrow> in_buffer be T ga x"
    using inv by (simp_all add: exec_inv_def)
  have D: "placed_before T g (Suc i) = insert ?w ?D" by (rule placed_before_Suc [OF i])
  have wt: "?w \<in> graph_tensors g" using i by (simp add: graph_tensors_def)
  have ws: "?w \<notin> set (srcs (T ?w))" using graph_ok_src [OF ok i] node_not_earlier [OF ok i] by auto
  have apart: "not_clobbered be T g ga' i x"
    if "mem_ok be T g ga'" "hn_allocated (ga_hash ga' ?w)" "hn_allocated (ga_hash ga' x)" "x \<noteq> ?w" for x
    using mem_ok_apart [OF that(1,3,2,4)] by (auto simp: not_clobbered_def Let_def)
  have stays: "hn_allocated (ga_hash ga x)" if "x \<in> ?D" "own T x" "live_at T g i x" for x
    using inv(3) that by (auto simp: kept_def live_at_def spent_def)
  have wnew: "?w \<notin> ?D" if "own T ?w" "\<not> hn_allocated (ga_hash ga ?w)"
  proof
    assume "?w \<in> ?D"
    then have sp: "spent T g ?R ?w" using inv(3) that by (auto simp: kept_def)
    have "uses T (gr_nodes g) = uses T (take i (gr_nodes g)) @ ?R"
      by (metis append_take_drop_id uses_from_def uses_simps(3))
    then show False using sp node_not_read_before [OF ok i that(1)] by (auto simp: spent_def)
  qed
  have ws': "ggml_op_can_inplace (tn_op (T ?w)) \<longrightarrow> ?w \<notin> set (srcs (T ?w))" using ws by simp
  from a inv(1) wt ws' show ?thesis
  proof (cases rule: allocate_node_cases)
    case skip
    have wal: "hn_allocated (ga_hash ga ?w)" if "own T ?w" using skip(1) that by simp
    have "kept T g ?R (insert ?w ?D) {} ga"
      using inv(3) wal unfolding kept_def by blast
    then show ?thesis
      using skip(2) inv(1) wal stays apart by (intro exI [of _ "{}"]) (auto simp: D keeps_places_def same_counters_def)
  next
    case (fresh off)
    have wD: "?w \<notin> ?D" by (rule wnew [OF fresh(1,2)])
    have al: "hn_allocated (ga_hash ga' x) \<longleftrightarrow> x = ?w \<or> hn_allocated (ga_hash ga x)" for x
      by (simp add: fresh(5))
    have "kept T g ?R (insert ?w ?D) {} ga'" using inv(3) unfolding kept_def al by blast
    moreover have "keeps_places T ?D ga ga'" using fresh(4,5) wD by (auto simp: keeps_places_def)
    moreover have "same_counters ga ga'" by (simp add: same_counters_def fresh(5))
    ultimately show ?thesis
      using fresh(3) al stays apart [OF fresh(3)] by (intro exI [of _ "{}"]) (simp add: D)
  next
    case (reuse p)
    have wD: "?w \<notin> ?D" by (rule wnew [OF reuse(1,2)])
    have pw: "p \<noteq> ?w" using reuse(2,5) by auto
    have al: "hn_allocated (ga_hash ga' x) \<longleftrightarrow> x = ?w \<or> x \<noteq> p \<and> hn_allocated (ga_hash ga x)" for x
      using pw by (auto simp: reuse(14))
    have "kept T g ?R (insert ?w ?D) {p} ga'"
      using inv(3) unfolding kept_def al by blast
    moreover have "keeps_places T ?D ga ga'" using reuse(11,14) wD by (auto simp: keeps_places_def)
    moreover have "same_counters ga ga'" by (simp add: same_counters_def reuse(14))
    moreover have nl: "\<not> live_at T g (Suc i) p"
    proof -
      let ?R' = "uses_from T g (Suc i)"
      have op: "own T p" using reuse(5) inv(1) by (simp add: mem_ok_def)
      have R: "?R = srcs (T ?w) @ ?R'" by (rule uses_from_Suc [OF i])
      have "int (count_list ?R p) = 1" "int (views_left T g ?R p) = 0"
        using inv(2) reuse(8,9) op by (simp_all add: counts_def)
      moreover have "0 < count_list (srcs (T ?w)) p" using reuse(4) by (metis count_list_0_iff neq0_conv)
      ultimately have "p \<notin> set ?R'" "views_left T g ?R' p = 0"
        using views_left_mono [of ?R' ?R T g p] by (simp_all add: R count_list_0_iff [symmetric])
      then have "p \<notin> view_root T ` set ?R'" by (intro views_left_zero [OF ok op]) (simp_all add: uses_from_subset)
      then show ?thesis using reuse(6) by (simp add: live_at_def)
    qed
    moreover have nc: "not_clobbered be T g ga' i p"
    proof -
      have "block_of be T ga' p = block_of be T ga p"
        by (rule block_of_cong(2) [OF reuse(11)]) (use inv(1) reuse(5,14) pw in \<open>simp_all add: mem_ok_def\<close>)
      then show ?thesis using reuse(3,4,7,12) nl by (simp add: not_clobbered_def Let_def)
    qed
    moreover have "not_clobbered be T g ga' i x"
      if "x \<in> ?D" "own T x" "live_at T g i x" "x \<noteq> ?w" for x
      using nc apart [OF reuse(10)] al stays that by (cases "x = p") simp_all
    ultimately show ?thesis
      using reuse(4,10) al by (intro exI [of _ "{p}"]) (simp add: D)
  qed
qed

lemma exec_node_inv:
  assumes ok: "graph_ok T g" and i: "i < length (gr_nodes g)" and inv: "exec_inv be T g i ga"
    and run: "exec_node be T ids (i, gr_nodes g ! i) ga = Some ga'"
  shows "exec_inv be T g (Suc i) ga' \<and> frame ga ga' \<and> keeps_places T (placed_before T g i) ga ga'"
proof -
  let ?w = "gr_nodes g ! i" and ?D = "placed_before T g i" and ?D' = "placed_before T g (Suc i)"
  let ?R' = "uses_from T g (Suc i)"
  obtain bid ga1 ga2 where
    a: "fold_opt (ggml_gallocr_allocate_node be T bid) (srcs (T ?w)) ga = Some ga1"
    and b: "ggml_gallocr_allocate_node be T bid ?w ga1 = Some ga2"
    and c: "fold_opt (release_src be T) (srcs (T ?w)) ga2 = Some ga'"
    using run by (auto simp: exec_node_def split: bind_splits)
  have R: "uses_from T g i = srcs (T ?w) @ ?R'" by (rule uses_from_Suc [OF i])
  have inv': "mem_ok be T g ga" "counts T g (uses_from T g i) ga" "kept T g (uses_from T g i) ?D {} ga"
    "safe_upto be T g i ga" "\<forall>x \<in> ?D. own T x \<longrightarrow> in_buffer be T ga x"
    using inv by (simp_all add: exec_inv_def)
  have "\<not> own T s \<or> hn_allocated (ga_hash ga s)" if "s \<in> set (srcs (T ?w))" for s
  proof -
    have "s \<in> ?D" using graph_ok_src [OF ok i that] by (auto simp: placed_before_def)
    moreover have "\<not> spent T g (uses_from T g i) s" if "own T s"
    proof -
      have "view_root T s = s" using that by (simp add: own_def view_root_def)
      moreover have "s \<in> set (uses_from T g i)" using \<open>s \<in> set (srcs (T ?w))\<close> by (simp add: R)
      ultimately have "s \<in> view_root T ` set (uses_from T g i)" by (metis image_eqI)
      then show ?thesis by (simp add: spent_def)
    qed
    ultimately show ?thesis using inv'(3) by (auto simp: kept_def)
  qed
  then have ga1: "ga1 = ga" by (intro allocate_skip_all [OF a]) blast
  obtain E where s: "mem_ok be T g ga2" "keeps_places T ?D ga ga2" "same_counters ga ga2"
    "kept T g (uses_from T g i) ?D' E ga2"
    "\<forall>p \<in> E. \<not> live_at T g (Suc i) p \<and> p \<in> set (srcs (T ?w))"
    "own T ?w \<longrightarrow> hn_allocated (ga_hash ga2 ?w) \<and>
      (\<forall>x \<in> ?D. own T x \<and> live_at T g i x \<and> x \<noteq> ?w \<longrightarrow> not_clobbered be T g ga2 i x)"
    using alloc_node_step [OF ok i inv b [unfolded ga1]] by blast
  have "counts T g (uses_from T g i) ga2"
    using inv'(2) s(3) by (simp add: counts_def same_counters_def)
  then have r: "mem_ok be T g ga'" "frame ga2 ga'" "same_place ga2 ga'" "counts T g ?R' ga'" "kept T g ?R' ?D' E ga'"
    using release_all [OF c ok s(1), of ?R' ?D' E] s(4) uses_from_subset [of T g i] by (simp_all add: R)
  have k: "kept T g ?R' ?D' {} ga'"
  proof -
    have "spent T g ?R' p \<and> \<not> flag_output (T p)" if "p \<in> E" "own T p" for p
    proof -
      have "p \<in> set (uses T (gr_nodes g))" using s(5) that(1) i by (auto simp: in_uses)
      moreover have "view_root T p = p" using that(2) by (simp add: own_def view_root_def)
      ultimately show ?thesis using s(5) that(1) by (force simp: spent_def live_at_def)
    qed
    then show ?thesis using r(5) by (auto simp: kept_def)
  qed
  have tok: "tallocs_ok ga" "tallocs_ok ga2" using inv'(1) s(1) by (simp_all add: mem_ok_def)
  have D': "?D' = insert ?w ?D" by (rule placed_before_Suc [OF i])
  have buf2: "\<forall>x \<in> ?D'. own T x \<longrightarrow> in_buffer be T ga2 x"
  proof (intro ballI impI)
    fix x assume x: "x \<in> ?D'" "own T x"
    show "in_buffer be T ga2 x"
    proof (cases "x \<in> ?D")
      case True
      then show ?thesis using keeps_places_block(3) [OF s(2) tok(1) True x(2)] inv'(5) x(2) by blast
    next
      case False
      then have "hn_allocated (ga_hash ga2 x)" using s(6) x D' by auto
      then show ?thesis using mem_ok_bound [OF s(1)] by (simp add: in_buffer_def)
    qed
  qed
  have safe2: "safe_upto be T g (Suc i) ga2"
    using keeps_places_safe [OF s(2) tok(1) inv'(4,5)] i s(6)
    by (auto simp: safe_upto_def less_Suc_eq)
  have kp: "keeps_places T ?D' ga2 ga'" using r(2,3) by (simp add: keeps_places_def same_place_def)
  have "safe_upto be T g (Suc i) ga'"
    by (rule keeps_places_safe [OF kp tok(2) safe2 buf2]) (use i in simp)
  moreover have "\<forall>x \<in> ?D'. own T x \<longrightarrow> in_buffer be T ga' x"
    using keeps_places_block(3) [OF kp tok(2)] buf2 by blast
  moreover have "keeps_places T ?D ga ga'"
    by (rule keeps_places_trans [OF s(2) kp]) (simp add: D' subset_insertI)
  moreover then have "frame ga ga'" by (simp add: keeps_places_def)
  ultimately show ?thesis using r(1,4) k unfolding exec_inv_def by blast
qed

lemma exec_nodes_inv:
  assumes "graph_ok T g" "exec_inv be T g i ga" "i \<le> length (gr_nodes g)"
    "fold_opt (exec_node be T ids) (enumerate i (drop i (gr_nodes g))) ga = Some ga'"
  shows "exec_inv be T g (length (gr_nodes g)) ga' \<and> frame ga ga' \<and> keeps_places T (placed_before T g i) ga ga'"
  using assms(2-4)
proof (induction "length (gr_nodes g) - i" arbitrary: i ga)
  case 0
  then show ?case by (simp add: keeps_places_def)
next
  case (Suc n)
  then have i: "i < length (gr_nodes g)" by simp
  then have "drop i (gr_nodes g) = gr_nodes g ! i # drop (Suc i) (gr_nodes g)" by (simp add: Cons_nth_drop_Suc)
  then obtain ga1 where a: "exec_node be T ids (i, gr_nodes g ! i) ga = Some ga1"
    "fold_opt (exec_node be T ids) (enumerate (Suc i) (drop (Suc i) (gr_nodes g))) ga1 = Some ga'"
    using Suc.prems(3) by (auto split: bind_splits)
  have s: "exec_inv be T g (Suc i) ga1" "frame ga ga1" "keeps_places T (placed_before T g i) ga ga1"
    using exec_node_inv [OF assms(1) i Suc.prems(1) a(1)] by auto
  then have "exec_inv be T g (length (gr_nodes g)) ga'" "frame ga1 ga'"
    "keeps_places T (placed_before T g (Suc i)) ga1 ga'"
    using Suc.hyps(1) [of "Suc i" ga1] Suc.hyps(2) a(2) i by auto
  then show ?case
    using s frame_trans keeps_places_trans [OF s(3) _ placed_before_mono [of i "Suc i" T g]] by auto
qed

subsection \<open>The whole plan\<close>

text \<open>The allocators of a fresh plan: their lists of free blocks are reset.\<close>

definition fresh_ok :: "backend \<Rightarrow> tensors \<Rightarrow> cgraph \<Rightarrow> gallocr \<Rightarrow> bool" where
  "fresh_ok be T g ga \<longleftrightarrow> tallocs_ok ga \<and> sizes_ok be T g (ga_bufts ga) \<and>
     (\<forall>k < length (ga_tallocs ga). dyn_inv (ga_tallocs ga ! k) {})"

text \<open>Leafs and inputs, which the user fills before the graph runs, do not overlap one another.\<close>

definition start_apart :: "backend \<Rightarrow> tensors \<Rightarrow> cgraph \<Rightarrow> gallocr \<Rightarrow> bool" where
  "start_apart be T g ga \<longleftrightarrow> (\<forall>x \<in> placed_before T g 0. \<forall>y \<in> placed_before T g 0.
     own T x \<and> own T y \<and> x \<noteq> y \<longrightarrow> talloc_idx ga x \<noteq> talloc_idx ga y \<or>
       disjnt (span (block_of be T ga x)) (span (block_of be T ga y)))"

lemma start_apart_keeps:
  assumes "keeps_places T (placed_before T g 0) ga ga'" "tallocs_ok ga" "start_apart be T g ga"
    "\<forall>x \<in> placed_before T g 0. own T x \<longrightarrow> in_buffer be T ga x"
  shows "start_apart be T g ga'"
  unfolding start_apart_def
proof (intro ballI impI, elim conjE)
  fix x y assume x: "x \<in> placed_before T g 0" "own T x" and y: "y \<in> placed_before T g 0" "own T y" and "x \<noteq> y"
  have "in_buffer be T ga x" "in_buffer be T ga y" using assms(4) x y by blast+
  note b = keeps_places_block [OF assms(1,2) x this(1)] keeps_places_block [OF assms(1,2) y this(2)]
  show "talloc_idx ga' x \<noteq> talloc_idx ga' y \<or> disjnt (span (block_of be T ga' x)) (span (block_of be T ga' y))"
    using assms(3) x y \<open>x \<noteq> y\<close> unfolding b start_apart_def by blast
qed

lemma alloc_graph_impl_inv:
  assumes "graph_ok T g" "fresh_ok be T g ga"
    "ggml_gallocr_alloc_graph_impl be T g node_ids leaf_ids ga = Some ga'"
  shows "exec_inv be T g (length (gr_nodes g)) ga' \<and> frame ga ga' \<and> start_apart be T g ga'"
proof -
  let ?ga0 = "ga \<lparr>ga_hash := (\<lambda>_. hash_node0)\<rparr>"
  obtain ga1 ga2 where
    a: "fold_opt (alloc_leaf be T leaf_ids) (enumerate 0 (gr_leafs g)) ?ga0 = Some ga1"
    and b: "fold_opt (count_node be T node_ids) (enumerate 0 (gr_nodes g)) ga1 = Some ga2"
    and c: "fold_opt (exec_node be T node_ids) (enumerate 0 (gr_nodes g)) ga2 = Some ga'"
    using assms(3) by (auto simp: ggml_gallocr_alloc_graph_impl_def Let_def split: bind_splits)
  have "live_map be T ?ga0 k = Map.empty" for k by (rule ext) (simp add: live_map_def hash_node0_def)
  then have m0: "mem_ok be T g ?ga0"
    using assms(2) by (simp add: mem_ok_def fresh_ok_def tallocs_ok_def hash_node0_def dyn.owners_empty)
  have f0: "frame ga ?ga0" by (simp add: frame_def)
  have a0: "all_in T {} ?ga0" by (simp add: all_in_def hash_node0_def)
  have s1: "mem_ok be T g ga1" "frame ?ga0 ga1" "same_counters ?ga0 ga1" "all_in T (set (gr_leafs g)) ga1"
    using alloc_leafs [OF a assms(1) m0 a0] by auto
  have "counting T g [] [] ga1"
    using s1(3,4) by (simp add: counting_def early_set_def same_counters_def hash_node0_def)
  then have s2: "mem_ok be T g ga2" "frame ga1 ga2" "counting T g (gr_nodes g) (uses T (gr_nodes g)) ga2"
    using count_nodes_inv [OF b assms(1) s1(1), of "[]" "[]"] by simp_all
  have early: "early_set T g (set (gr_nodes g) \<union> set (uses T (gr_nodes g))) = placed_before T g 0"
    using graph_ok_uses [OF assms(1)] by (auto simp: early_set_def placed_before_def graph_tensors_def)
  then have al: "hn_allocated (ga_hash ga2 x) \<longleftrightarrow> own T x \<and> x \<in> placed_before T g 0" for x
    using s2(3) by (simp add: counting_def all_in_def)
  have "counts T g (uses_from T g 0) ga2"
  proof -
    have "hn_views (ga_hash ga2 v) = 0" if "ggml_is_view (T v)" for v
    proof -
      have "\<not> view_node T v n" if "n \<in> set (gr_nodes g)" for n
        using graph_ok_view(1) [OF assms(1), of n v] that \<open>ggml_is_view (T v)\<close>
        by (auto simp: view_node_def graph_tensors_def)
      then have "filter (view_node T v) (gr_nodes g) = []" by (simp add: filter_empty_conv)
      then show ?thesis using s2(3) by (simp add: counting_def)
    qed
    moreover have "views_left T g (uses_from T g 0) x = length (filter (view_node T x) (gr_nodes g))" for x
      unfolding views_left_def uses_from_def by (intro arg_cong [of _ _ length] filter_cong) auto
    ultimately show ?thesis using s2(3) by (simp add: counts_def counting_def uses_from_def)
  qed
  moreover have "kept T g (uses_from T g 0) (placed_before T g 0) {} ga2" using al by (simp add: kept_def)
  moreover have "in_buffer be T ga2 x" if "x \<in> placed_before T g 0" "own T x" for x
    using mem_ok_bound [OF s2(1)] al that by (simp add: in_buffer_def)
  moreover have "safe_upto be T g 0 ga2" by (simp add: safe_upto_def)
  ultimately have e0: "exec_inv be T g 0 ga2" using s2(1) by (simp add: exec_inv_def)
  then have e: "exec_inv be T g (length (gr_nodes g)) ga'" "frame ga2 ga'"
    "keeps_places T (placed_before T g 0) ga2 ga'"
    using exec_nodes_inv [OF assms(1), of be 0 ga2 node_ids ga'] c by simp_all
  have "start_apart be T g ga2"
    unfolding start_apart_def using al mem_ok_apart [OF s2(1)] by blast
  then have "start_apart be T g ga'"
    by (rule start_apart_keeps [OF e(3), rotated]) (use e0 in \<open>simp_all add: exec_inv_def mem_ok_def\<close>)
  then show ?thesis using e f0 s1(2) s2(2) frame_trans by blast
qed

end
