(* ===== verification/AllocPlan.thy ===== *)
theory AllocPlan
  imports AllocSafe
begin

text \<open>
  The graph allocator around the plan of \<open>AllocGraph\<close>: \<open>ggml_gallocr_reserve_n\<close> records the
  plan per node and gets the buffers, \<open>ggml_gallocr_alloc_graph\<close> gives every tensor its address, after
  a new reservation when the recorded plan does not fit.

  A \<open>GGML_ASSERT\<close> that fails is \<open>None\<close>. The plain \<open>assert\<close>s of \<^verbatim>\<open>ggml-alloc.c\<close>, which a release build
  compiles out, are not part of the model.
\<close>

subsection \<open>Buffers and tensors, from ggml-backend.cpp\<close>

definition ggml_backend_buft_alloc_buffer :: "backend \<Rightarrow> nat \<Rightarrow> nat \<Rightarrow> buffer option" where
  "ggml_backend_buft_alloc_buffer be buft sz =
     (if sz = 0 then Some \<lparr>bu_buft = buft, bu_size = 0, bu_base = 0\<rparr>
      else if be_no_alloc be buft then Some \<lparr>bu_buft = buft, bu_size = sz, bu_base = be_alignment be buft\<rparr>
      else map_option (\<lambda>(n, base). \<lparr>bu_buft = buft, bu_size = n, bu_base = base\<rparr>) (be_alloc_buffer be buft sz))"

definition ggml_backend_buffer_get_base :: "buffer \<Rightarrow> nat" where
  "ggml_backend_buffer_get_base b = (if bu_size b = 0 then 0 else bu_base b)"

definition ggml_backend_view_init :: "backend \<Rightarrow> nat \<Rightarrow> tensors \<Rightarrow> (bool \<times> tensors) option" where
  "ggml_backend_view_init be t T =
     (case (tn_buffer (T t), tn_view_src (T t)) of
        (None, Some v) \<Rightarrow>
          (case (tn_buffer (T v), tn_data (T v)) of
             (Some b, Some d) \<Rightarrow>
               (let t' = (T t) \<lparr>tn_buffer := Some b, tn_data := Some (u64_add d (tn_view_offs (T t)))\<rparr>
                in Some (be_init_tensor be b t', T(t := t')))
           | _ \<Rightarrow> None)
      | _ \<Rightarrow> None)"

definition ggml_backend_tensor_alloc :: "backend \<Rightarrow> buffer \<Rightarrow> nat \<Rightarrow> nat \<Rightarrow> tensors \<Rightarrow> (bool \<times> tensors) option" where
  "ggml_backend_tensor_alloc be b t addr T = do {
     ensure (tn_buffer (T t) = None \<and> tn_data (T t) = None \<and> tn_view_src (T t) = None);
     ensure (ggml_backend_buffer_get_base b \<le> addr);
     ensure (u64_add addr (be_alloc_size be (bu_buft b) (T t)) \<le>
             u64_add (ggml_backend_buffer_get_base b) (bu_size b));
     let t' = (T t) \<lparr>tn_buffer := Some b, tn_data := Some addr\<rparr>;
     Some (be_init_tensor be b t', T(t := t'))
   }"

subsection \<open>Reserving\<close>

definition no_place :: tensor_alloc where
  "no_place = \<lparr>ta_buffer = -1, ta_offset = size_max, ta_size_max = 0\<rparr>"

definition place_of :: "backend \<Rightarrow> tensors \<Rightarrow> gallocr \<Rightarrow> nat \<Rightarrow> tensor_alloc" where
  "place_of be T ga t =
     (if tn_view_src (T t) \<noteq> None \<or> tn_data (T t) \<noteq> None then no_place
      else \<lparr>ta_buffer = int (hn_buffer (ga_hash ga t)), ta_offset = hn_offset (ga_hash ga t),
            ta_size_max = be_alloc_size be (ga_bufts ga ! hn_buffer (ga_hash ga t)) (T t)\<rparr>)"

definition node_place :: "backend \<Rightarrow> tensors \<Rightarrow> gallocr \<Rightarrow> nat \<Rightarrow> node_alloc" where
  "node_place be T ga n =
     \<lparr>na_dst = place_of be T ga n,
      na_src = map (\<lambda>s. case s of None \<Rightarrow> no_place | Some s \<Rightarrow> place_of be T ga s) (tn_src (T n))\<rparr>"

text \<open>One step of the loop over the buffers; two ids with one allocator get one buffer.\<close>

definition shared_buffers :: "gallocr \<Rightarrow> nat \<Rightarrow> buffer option list" where
  "shared_buffers ga i =
     (case List.find (\<lambda>j. ga_talloc_of ga ! j = ga_talloc_of ga ! i) [0..<i] of
        Some j \<Rightarrow> (ga_buffers ga)[i := ga_buffers ga ! j]
      | None \<Rightarrow> ga_buffers ga)"

definition reserve_buffer :: "backend \<Rightarrow> nat \<Rightarrow> gallocr \<times> bool \<Rightarrow> gallocr \<times> bool" where
  "reserve_buffer be i = (\<lambda>(ga, success).
     let bufs = shared_buffers ga i;
         cur_size = (case bufs ! i of None \<Rightarrow> 0 | Some b \<Rightarrow> bu_size b);
         new_size = dyn_max_size (ga_tallocs ga ! (ga_talloc_of ga ! i))
     in if new_size > cur_size \<or> bufs ! i = None then
          (case ggml_backend_buft_alloc_buffer be (ga_bufts ga ! i) new_size of
             Some b \<Rightarrow> (ga \<lparr>ga_buffers := bufs[i := Some b],
                            ga_buffer_sizes := (ga_buffer_sizes ga)[i := bu_size b]\<rparr>, success)
           | None \<Rightarrow> (ga \<lparr>ga_buffers := bufs[i := None],
                          ga_buffer_sizes := (ga_buffer_sizes ga)[i := new_size]\<rparr>, False))
        else (ga \<lparr>ga_buffers := bufs, ga_buffer_sizes := (ga_buffer_sizes ga)[i := cur_size]\<rparr>, success))"

definition ggml_gallocr_reserve_n ::
  "backend \<Rightarrow> tensors \<Rightarrow> cgraph \<Rightarrow> int list option \<Rightarrow> int list option \<Rightarrow> gallocr \<Rightarrow> (bool \<times> gallocr) option" where
  "ggml_gallocr_reserve_n be T g node_ids leaf_ids ga = do {
     let ga0 = ga \<lparr>ga_tallocs := map dyn_reset (ga_tallocs ga)\<rparr>;
     ga1 \<leftarrow> ggml_gallocr_alloc_graph_impl be T g node_ids leaf_ids ga0;
     let ga2 = ga1 \<lparr>ga_node_allocs := map (node_place be T ga1) (gr_nodes g),
                    ga_leaf_allocs := map (place_of be T ga1) (gr_leafs g)\<rparr>;
     let (ga3, success) = fold (reserve_buffer be) [0..<length (ga_bufts ga)] (ga2, True);
     Some (success, ga3)
   }"

definition ggml_gallocr_reserve :: "backend \<Rightarrow> tensors \<Rightarrow> cgraph \<Rightarrow> gallocr \<Rightarrow> (bool \<times> gallocr) option" where
  "ggml_gallocr_reserve be T g ga = ggml_gallocr_reserve_n be T g None None ga"

subsection \<open>Does the plan fit?\<close>

text \<open>Despite its name the function is true when the recorded place is large enough.\<close>

definition ggml_gallocr_node_needs_realloc :: "backend \<Rightarrow> tensors \<Rightarrow> gallocr \<Rightarrow> nat \<Rightarrow> tensor_alloc \<Rightarrow> bool" where
  "ggml_gallocr_node_needs_realloc be T ga node talloc =
     (if tn_data (T node) = None \<and> tn_view_src (T node) = None then
        (if ta_buffer talloc < 0 then False
         else ta_size_max talloc \<ge> be_alloc_size be (ga_bufts ga ! nat (ta_buffer talloc)) (T node))
      else ta_size_max talloc \<ge> 0)"

definition ggml_gallocr_needs_realloc :: "backend \<Rightarrow> tensors \<Rightarrow> cgraph \<Rightarrow> gallocr \<Rightarrow> bool" where
  "ggml_gallocr_needs_realloc be T g ga =
     (length (ga_node_allocs ga) \<noteq> length (gr_nodes g) \<or>
      length (ga_leaf_allocs ga) \<noteq> length (gr_leafs g) \<or>
      \<not> list_all (\<lambda>(n, na). ggml_gallocr_node_needs_realloc be T ga n (na_dst na) \<and>
          list_all (\<lambda>(s, ta). case s of None \<Rightarrow> True
                     | Some s \<Rightarrow> ggml_gallocr_node_needs_realloc be T ga s ta)
            (zip (tn_src (T n)) (na_src na)))
        (zip (gr_nodes g) (ga_node_allocs ga)))"

subsection \<open>Giving the addresses\<close>

definition ggml_gallocr_init_tensor :: "backend \<Rightarrow> gallocr \<Rightarrow> nat \<times> tensor_alloc \<Rightarrow> tensors \<Rightarrow> tensors option" where
  "ggml_gallocr_init_tensor be ga = (\<lambda>(t, ta) T.
     case tn_view_src (T t) of
       Some v \<Rightarrow>
         if tn_buffer (T t) = None then
           (if tn_buffer (T v) = None then Some T
            else map_option snd (ggml_backend_view_init be t T))
         else Some T
     | None \<Rightarrow>
         if tn_data (T t) = None then
           (if 0 \<le> ta_buffer ta \<and> nat (ta_buffer ta) < length (ga_buffers ga) then
              (case ga_buffers ga ! nat (ta_buffer ta) of
                 None \<Rightarrow> None
               | Some b \<Rightarrow> map_option snd (ggml_backend_tensor_alloc be b t
                   (u64_add (ggml_backend_buffer_get_base b) (ta_offset ta)) T))
            else None)
         else Some T)"

definition init_node :: "backend \<Rightarrow> gallocr \<Rightarrow> nat \<times> node_alloc \<Rightarrow> tensors \<Rightarrow> tensors option" where
  "init_node be ga = (\<lambda>(n, na) T. do {
     T1 \<leftarrow> fold_opt (\<lambda>(s, ta) T. case s of None \<Rightarrow> Some T | Some s \<Rightarrow> ggml_gallocr_init_tensor be ga (s, ta) T)
            (zip (tn_src (T n)) (na_src na)) T;
     ggml_gallocr_init_tensor be ga (n, na_dst na) T1
   })"

definition init_graph :: "backend \<Rightarrow> gallocr \<Rightarrow> cgraph \<Rightarrow> tensors \<Rightarrow> tensors option" where
  "init_graph be ga g T = do {
     T1 \<leftarrow> fold_opt (ggml_gallocr_init_tensor be ga) (zip (gr_leafs g) (ga_leaf_allocs ga)) T;
     fold_opt (init_node be ga) (zip (gr_nodes g) (ga_node_allocs ga)) T1
   }"

definition ggml_gallocr_alloc_graph ::
  "backend \<Rightarrow> tensors \<Rightarrow> cgraph \<Rightarrow> gallocr \<Rightarrow> (bool \<times> tensors \<times> gallocr) option" where
  "ggml_gallocr_alloc_graph be T g ga = do {
     (ok, ga1) \<leftarrow>
       (if ggml_gallocr_needs_realloc be T g ga then
          (if length (ga_bufts ga) = 1 then ggml_gallocr_reserve be T g ga else Some (False, ga))
        else Some (True, ga));
     if \<not> ok then Some (False, T, ga1)
     else do {
       T' \<leftarrow> init_graph be ga1 g T;
       Some (True, T', ga1)
     }
   }"

definition ggml_gallocr_get_buffer_size :: "gallocr \<Rightarrow> nat \<Rightarrow> nat option" where
  "ggml_gallocr_get_buffer_size ga i =
     (if \<not> i < length (ga_buffers ga) then None
      else case ga_buffers ga ! i of
        None \<Rightarrow> Some 0
      | Some b \<Rightarrow> if list_ex (\<lambda>j. ga_buffers ga ! j = Some b) [0..<i] then Some 0 else Some (bu_size b))"

definition ggml_gallocr_get_attempted_buffer_size :: "gallocr \<Rightarrow> nat \<Rightarrow> (nat \<times> bool) option" where
  "ggml_gallocr_get_attempted_buffer_size ga i =
     (if \<not> i < length (ga_buffers ga) then None
      else if list_ex (\<lambda>j. ga_talloc_of ga ! j = ga_talloc_of ga ! i) [0..<i] then Some (0, True)
      else Some (ga_buffer_sizes ga ! i, ga_buffers ga ! i \<noteq> None))"

subsection \<open>A well-formed graph allocator\<close>

definition backend_ok :: "backend \<Rightarrow> nat list \<Rightarrow> bool" where
  "backend_ok be bufts \<longleftrightarrow> (\<forall>b \<in> set bufts. 0 < be_alignment be b \<and> be_alignment be b \<le> arena) \<and>
     (\<forall>b n m base. be_alloc_buffer be b n = Some (m, base) \<longrightarrow> n \<le> m \<and> base + m < U64)"

definition galloc_ok :: "backend \<Rightarrow> gallocr \<Rightarrow> bool" where
  "galloc_ok be ga \<longleftrightarrow>
     length (ga_talloc_of ga) = length (ga_bufts ga) \<and> length (ga_buffers ga) = length (ga_bufts ga) \<and>
     length (ga_buffer_sizes ga) = length (ga_bufts ga) \<and>
     (\<forall>i < length (ga_bufts ga). ga_talloc_of ga ! i < length (ga_tallocs ga)) \<and>
     (\<forall>i < length (ga_bufts ga). \<forall>j < length (ga_bufts ga).
        ga_talloc_of ga ! i = ga_talloc_of ga ! j \<longleftrightarrow> ga_bufts ga ! i = ga_bufts ga ! j) \<and>
     (\<forall>k < length (ga_tallocs ga). \<exists>L. dyn_inv (ga_tallocs ga ! k) L) \<and>
     (\<forall>i < length (ga_bufts ga).
        dt_alignment (ga_tallocs ga ! (ga_talloc_of ga ! i)) = be_alignment be (ga_bufts ga ! i)) \<and>
     (\<forall>i < length (ga_bufts ga). \<forall>b. ga_buffers ga ! i = Some b \<longrightarrow> bu_buft b = ga_bufts ga ! i \<and>
        ggml_backend_buffer_get_base b + bu_size b < U64)"

text \<open>The allocators of a new \<open>ggml_gallocr\<close>: one per distinct buffer type.\<close>

definition tallocs_for :: "backend \<Rightarrow> nat list \<Rightarrow> nat list \<Rightarrow> dyn_tallocr list \<Rightarrow> bool" where
  "tallocs_for be bufts ids allocs \<longleftrightarrow> length ids = length bufts \<and>
     (\<forall>i < length bufts. ids ! i < length allocs) \<and>
     (\<forall>i < length bufts. \<forall>j < length bufts. ids ! i = ids ! j \<longleftrightarrow> bufts ! i = bufts ! j) \<and>
     (\<forall>i < length bufts. allocs ! (ids ! i) = dyn_new (be_alignment be (bufts ! i))) \<and>
     (\<forall>k < length allocs. \<exists>b \<in> set bufts. allocs ! k = dyn_new (be_alignment be b))"

lemma find_nth_some:
  "List.find P xs = Some x \<Longrightarrow> x \<in> set xs \<and> P x"
  by (auto simp: find_Some_iff)

lemma new_tallocs_for:
  assumes "new_tallocs be seen bufts (ids, allocs) = (ids', allocs')" "tallocs_for be seen ids allocs"
  shows "tallocs_for be (seen @ bufts) ids' allocs'"
  using assms
proof (induction bufts arbitrary: seen ids allocs)
  case Nil
  then show ?case by simp
next
  case (Cons b bs)
  have t: "length ids = length seen" "\<And>i. i < length seen \<Longrightarrow> ids ! i < length allocs"
    "\<And>i j. i < length seen \<Longrightarrow> j < length seen \<Longrightarrow> ids ! i = ids ! j \<longleftrightarrow> seen ! i = seen ! j"
    "\<And>k. k < length allocs \<Longrightarrow> \<exists>b \<in> set seen. allocs ! k = dyn_new (be_alignment be b)"
    "\<And>i. i < length seen \<Longrightarrow> allocs ! (ids ! i) = dyn_new (be_alignment be (seen ! i))"
    using Cons.prems(2) by (simp_all add: tallocs_for_def)
  show ?case
  proof (cases "List.find (\<lambda>j. seen ! j = b) [0..<length seen]")
    case None
    then have new: "\<And>j. j < length seen \<Longrightarrow> seen ! j \<noteq> b" by (auto simp: find_None_iff)
    have "tallocs_for be (seen @ [b]) (ids @ [length allocs]) (allocs @ [dyn_new (be_alignment be b)])"
      unfolding tallocs_for_def
    proof (intro conjI allI impI)
      fix i j assume "i < length (seen @ [b])" "j < length (seen @ [b])"
      then show "(ids @ [length allocs]) ! i = (ids @ [length allocs]) ! j \<longleftrightarrow> (seen @ [b]) ! i = (seen @ [b]) ! j"
        using t(1,3) t(2) [of i] t(2) [of j] new [of i] new [of j]
        by (auto simp: nth_append less_Suc_eq)
    next
      fix i assume "i < length (seen @ [b])"
      then show "(ids @ [length allocs]) ! i < length (allocs @ [dyn_new (be_alignment be b)])"
        using t(1) t(2) [of i] by (auto simp: nth_append less_Suc_eq)
    next
      fix i assume "i < length (seen @ [b])"
      then show "(allocs @ [dyn_new (be_alignment be b)]) ! ((ids @ [length allocs]) ! i) =
          dyn_new (be_alignment be ((seen @ [b]) ! i))"
        using t(1) t(2) [of i] t(5) [of i] by (auto simp: nth_append less_Suc_eq)
    next
      fix k assume "k < length (allocs @ [dyn_new (be_alignment be b)])"
      then show "\<exists>c \<in> set (seen @ [b]). (allocs @ [dyn_new (be_alignment be b)]) ! k = dyn_new (be_alignment be c)"
        using t(4) [of k] by (cases "k < length allocs") (auto simp: nth_append less_Suc_eq)
    qed (simp add: t(1))
    then show ?thesis using Cons.IH [of "seen @ [b]"] Cons.prems(1) None by simp
  next
    case (Some j)
    then have j: "j < length seen" "seen ! j = b" using find_nth_some [OF Some] by auto
    have "tallocs_for be (seen @ [b]) (ids @ [ids ! j]) allocs"
      unfolding tallocs_for_def
    proof (intro conjI allI impI)
      fix i l assume "i < length (seen @ [b])" "l < length (seen @ [b])"
      then show "(ids @ [ids ! j]) ! i = (ids @ [ids ! j]) ! l \<longleftrightarrow> (seen @ [b]) ! i = (seen @ [b]) ! l"
        using t(1) t(3) [of i l] t(3) [of i j] t(3) [of j l] j by (auto simp: nth_append less_Suc_eq)
    next
      fix i assume "i < length (seen @ [b])"
      then show "(ids @ [ids ! j]) ! i < length allocs"
        using t(1) t(2) [of i] t(2) [of j] j by (auto simp: nth_append less_Suc_eq)
    next
      fix i assume "i < length (seen @ [b])"
      then show "allocs ! ((ids @ [ids ! j]) ! i) = dyn_new (be_alignment be ((seen @ [b]) ! i))"
        using t(1) t(5) [of i] t(5) [of j] j by (auto simp: nth_append less_Suc_eq)
    next
      fix k assume "k < length allocs"
      then show "\<exists>c \<in> set (seen @ [b]). allocs ! k = dyn_new (be_alignment be c)" using t(4) [of k] by auto
    qed (simp add: t(1))
    then show ?thesis using Cons.IH [of "seen @ [b]"] Cons.prems(1) Some by simp
  qed
qed

lemma galloc_new_ok:
  assumes "backend_ok be bufts"
  shows "galloc_ok be (ggml_gallocr_new_n be bufts)"
proof -
  obtain ids allocs where n: "new_tallocs be [] bufts ([], []) = (ids, allocs)" by fastforce
  have t: "tallocs_for be ([] @ bufts) ids allocs"
    by (rule new_tallocs_for [OF n]) (simp add: tallocs_for_def)
  have "\<exists>L. dyn_inv (allocs ! k) L" if "k < length allocs" for k
  proof -
    obtain b where "b \<in> set bufts" "allocs ! k = dyn_new (be_alignment be b)"
      using t \<open>k < length allocs\<close> by (auto simp: tallocs_for_def)
    then show ?thesis using dyn_inv_new [of "be_alignment be b"] assms by (auto simp: backend_ok_def)
  qed
  then show ?thesis using t by (simp add: galloc_ok_def ggml_gallocr_new_n_def n tallocs_for_def dyn_new_def dyn_reset_def)
qed

lemma galloc_fresh:
  assumes "galloc_ok be ga" "sizes_ok be T g (ga_bufts ga)"
  shows "fresh_ok be T g (ga \<lparr>ga_tallocs := map dyn_reset (ga_tallocs ga)\<rparr>)"
proof -
  have "dyn_inv (dyn_reset (ga_tallocs ga ! k)) {}" if "k < length (ga_tallocs ga)" for k
    using assms(1) that dyn_inv_reset by (auto simp: galloc_ok_def)
  moreover have "tallocs_ok ga" using assms(1) by (auto simp: galloc_ok_def tallocs_ok_def in_set_conv_nth)
  ultimately show ?thesis using assms by (simp add: fresh_ok_def tallocs_ok_def)
qed

subsection \<open>The buffers after a reservation\<close>

text \<open>Buffer \<open>i\<close> is large enough for the plan, and ids with one allocator have one buffer.\<close>

definition buffer_fits :: "gallocr \<Rightarrow> nat \<Rightarrow> bool" where
  "buffer_fits ga i \<longleftrightarrow> (\<exists>b. ga_buffers ga ! i = Some b \<and>
     dt_max (ga_tallocs ga ! (ga_talloc_of ga ! i)) \<le> bu_size b)"

definition buffers_upto :: "gallocr \<Rightarrow> nat \<Rightarrow> bool" where
  "buffers_upto ga i \<longleftrightarrow> (\<forall>j < i. buffer_fits ga j) \<and>
     (\<forall>j < i. \<forall>l < i. ga_talloc_of ga ! j = ga_talloc_of ga ! l \<longrightarrow> ga_buffers ga ! j = ga_buffers ga ! l)"

definition same_plan :: "gallocr \<Rightarrow> gallocr \<Rightarrow> bool" where
  "same_plan ga ga' \<longleftrightarrow> ga_bufts ga' = ga_bufts ga \<and> ga_talloc_of ga' = ga_talloc_of ga \<and>
     ga_tallocs ga' = ga_tallocs ga \<and> ga_hash ga' = ga_hash ga \<and>
     ga_node_allocs ga' = ga_node_allocs ga \<and> ga_leaf_allocs ga' = ga_leaf_allocs ga"

lemma new_buffer_ok:
  assumes "backend_ok be bufts" "b \<in> set bufts" "n \<le> arena"
    "ggml_backend_buft_alloc_buffer be b n = Some buf"
  shows "bu_buft buf = b \<and> n \<le> bu_size buf \<and> ggml_backend_buffer_get_base buf + bu_size buf < U64"
proof -
  have al: "be_alignment be b \<le> arena" using assms(1,2) by (simp add: backend_ok_def)
  consider "n = 0" | "n \<noteq> 0" "be_no_alloc be b" | "n \<noteq> 0" "\<not> be_no_alloc be b" by blast
  then show ?thesis
  proof cases
    case 1
    then show ?thesis using assms(4)
      by (auto simp: ggml_backend_buft_alloc_buffer_def ggml_backend_buffer_get_base_def)
  next
    case 2
    then have "buf = \<lparr>bu_buft = b, bu_size = n, bu_base = be_alignment be b\<rparr>"
      using assms(4) by (simp add: ggml_backend_buft_alloc_buffer_def)
    then show ?thesis using al assms(3) by (simp add: ggml_backend_buffer_get_base_def arena_val)
  next
    case 3
    then obtain m base where "be_alloc_buffer be b n = Some (m, base)"
      "buf = \<lparr>bu_buft = b, bu_size = m, bu_base = base\<rparr>"
      using assms(4) by (auto simp: ggml_backend_buft_alloc_buffer_def)
    moreover then have "n \<le> m \<and> base + m < U64" using assms(1) unfolding backend_ok_def by blast
    ultimately show ?thesis by (auto simp: ggml_backend_buffer_get_base_def)
  qed
qed

lemma shared_buffers_ok:
  assumes "galloc_ok be ga" "i < length (ga_bufts ga)"
  shows "length (shared_buffers ga i) = length (ga_bufts ga)"
    "\<And>j. j \<noteq> i \<Longrightarrow> shared_buffers ga i ! j = ga_buffers ga ! j"
    "\<And>b. shared_buffers ga i ! i = Some b \<Longrightarrow> bu_buft b = ga_bufts ga ! i \<and>
       ggml_backend_buffer_get_base b + bu_size b < U64"
proof -
  let ?f = "List.find (\<lambda>j. ga_talloc_of ga ! j = ga_talloc_of ga ! i) [0..<i]"
  have g: "length (ga_buffers ga) = length (ga_bufts ga)"
    "\<And>i j. i < length (ga_bufts ga) \<Longrightarrow> j < length (ga_bufts ga) \<Longrightarrow>
       ga_talloc_of ga ! i = ga_talloc_of ga ! j \<longleftrightarrow> ga_bufts ga ! i = ga_bufts ga ! j"
    "\<And>i b. i < length (ga_bufts ga) \<Longrightarrow> ga_buffers ga ! i = Some b \<Longrightarrow> bu_buft b = ga_bufts ga ! i \<and>
        ggml_backend_buffer_get_base b + bu_size b < U64"
    using assms(1) by (simp_all add: galloc_ok_def)
  show "length (shared_buffers ga i) = length (ga_bufts ga)"
    using g(1) by (simp add: shared_buffers_def split: option.split)
  show "shared_buffers ga i ! j = ga_buffers ga ! j" if "j \<noteq> i" for j
    using that by (simp add: shared_buffers_def split: option.split)
  show "bu_buft b = ga_bufts ga ! i \<and> ggml_backend_buffer_get_base b + bu_size b < U64"
    if b: "shared_buffers ga i ! i = Some b" for b
  proof (cases ?f)
    case None
    then have "ga_buffers ga ! i = Some b" using b by (simp add: shared_buffers_def)
    then show ?thesis by (rule g(3) [OF assms(2)])
  next
    case (Some j)
    then have j: "j < i" "ga_talloc_of ga ! j = ga_talloc_of ga ! i" using find_nth_some [OF Some] by auto
    then have jl: "j < length (ga_bufts ga)" using assms(2) by simp
    have "ga_buffers ga ! j = Some b" using b Some g(1) assms(2) by (simp add: shared_buffers_def)
    then show ?thesis using g(3) [OF jl] g(2) [OF jl assms(2)] j(2) by metis
  qed
qed

lemma shared_buffers_same:
  assumes "galloc_ok be ga" "i < length (ga_bufts ga)" "buffers_upto ga i"
    "j < i" "ga_talloc_of ga ! j = ga_talloc_of ga ! i"
  shows "shared_buffers ga i ! i = ga_buffers ga ! j \<and> buffer_fits ga j"
proof -
  let ?f = "List.find (\<lambda>j. ga_talloc_of ga ! j = ga_talloc_of ga ! i) [0..<i]"
  have g: "length (ga_buffers ga) = length (ga_bufts ga)" using assms(1) by (simp add: galloc_ok_def)
  have "?f \<noteq> None" using assms(4,5) by (auto simp: find_None_iff)
  then obtain l where l: "?f = Some l" by blast
  then have li: "l < i" "ga_talloc_of ga ! l = ga_talloc_of ga ! j" using find_nth_some [OF l] assms(5) by auto
  have u: "\<And>j. j < i \<Longrightarrow> buffer_fits ga j"
    "\<And>j l. j < i \<Longrightarrow> l < i \<Longrightarrow> ga_talloc_of ga ! j = ga_talloc_of ga ! l \<Longrightarrow> ga_buffers ga ! j = ga_buffers ga ! l"
    using assms(3) unfolding buffers_upto_def by blast+
  have "ga_buffers ga ! l = ga_buffers ga ! j" "buffer_fits ga j"
    by (rule u(2) [OF li(1) assms(4) li(2)], rule u(1) [OF assms(4)])
  then show ?thesis using l g assms(2) by (simp add: shared_buffers_def)
qed

text \<open>Whether or not it succeeds, a step of the loop leaves a well-formed allocator.\<close>

lemma reserve_buffer_keeps:
  assumes "reserve_buffer be i (ga, s) = (ga', s')" "galloc_ok be ga" "backend_ok be (ga_bufts ga)"
    "i < length (ga_bufts ga)" "\<forall>k < length (ga_tallocs ga). dt_max (ga_tallocs ga ! k) \<le> arena"
  shows "galloc_ok be ga' \<and> same_plan ga ga'"
proof -
  let ?bufs = "shared_buffers ga i" and ?new = "dt_max (ga_tallocs ga ! (ga_talloc_of ga ! i))"
  note sb = shared_buffers_ok [OF assms(2,4)]
  have "ga_talloc_of ga ! i < length (ga_tallocs ga)" using assms(2,4) by (simp add: galloc_ok_def)
  then have kl: "?new \<le> arena" using assms(5) by blast
  have bt: "ga_bufts ga ! i \<in> set (ga_bufts ga)" using assms(4) by simp
  have "\<exists>x n. ga' = ga \<lparr>ga_buffers := ?bufs[i := x], ga_buffer_sizes := (ga_buffer_sizes ga)[i := n]\<rparr> \<and>
    (\<forall>b. x = Some b \<longrightarrow> bu_buft b = ga_bufts ga ! i \<and> ggml_backend_buffer_get_base b + bu_size b < U64)"
    (is "\<exists>x n. ?P x n")
  proof (cases "(case ?bufs ! i of None \<Rightarrow> 0 | Some b \<Rightarrow> bu_size b) < ?new \<or> ?bufs ! i = None")
    case False
    then obtain c where c: "?bufs ! i = Some c" by blast
    have "?bufs = ?bufs[i := Some c]" using c by (metis list_update_id)
    moreover have "ga' = ga \<lparr>ga_buffers := ?bufs, ga_buffer_sizes := (ga_buffer_sizes ga)[i := bu_size c]\<rparr>"
      using assms(1) False c by (simp add: reserve_buffer_def Let_def dyn_max_size_def)
    ultimately have "?P (Some c) (bu_size c)" using sb(3) [OF c] by simp
    then show ?thesis by blast
  next
    case True
    show ?thesis
    proof (cases "ggml_backend_buft_alloc_buffer be (ga_bufts ga ! i) ?new")
      case None
      then have "?P None ?new" using assms(1) True by (simp add: reserve_buffer_def Let_def dyn_max_size_def)
      then show ?thesis by blast
    next
      case (Some b)
      then have "?P (Some b) (bu_size b)"
        using assms(1) True new_buffer_ok [OF assms(3) bt kl Some]
        by (simp add: reserve_buffer_def Let_def dyn_max_size_def)
      then show ?thesis by blast
    qed
  qed
  then obtain x n where x: "ga' = ga \<lparr>ga_buffers := ?bufs[i := x], ga_buffer_sizes := (ga_buffer_sizes ga)[i := n]\<rparr>"
    "\<And>b. x = Some b \<Longrightarrow> bu_buft b = ga_bufts ga ! i \<and> ggml_backend_buffer_get_base b + bu_size b < U64" by blast
  have "bu_buft b = ga_bufts ga ! j \<and> ggml_backend_buffer_get_base b + bu_size b < U64"
    if "j < length (ga_bufts ga)" "?bufs[i := x] ! j = Some b" for j b
    using that x(2) sb(1,2) assms(2,4) by (cases "j = i") (simp_all add: galloc_ok_def)
  then show ?thesis using assms(2) sb(1) by (simp add: x(1) same_plan_def galloc_ok_def)
qed

lemma reserve_buffer_step:
  assumes "reserve_buffer be i (ga, True) = (ga', True)" "galloc_ok be ga" "backend_ok be (ga_bufts ga)"
    "i < length (ga_bufts ga)" "buffers_upto ga i"
    "\<forall>k < length (ga_tallocs ga). dt_max (ga_tallocs ga ! k) \<le> arena"
  shows "galloc_ok be ga' \<and> same_plan ga ga' \<and> buffers_upto ga' (Suc i)"
proof -
  let ?bufs = "shared_buffers ga i" and ?new = "dt_max (ga_tallocs ga ! (ga_talloc_of ga ! i))"
  note sb = shared_buffers_ok [OF assms(2,4)] shared_buffers_same [OF assms(2,4,5)]
  have "ga_talloc_of ga ! i < length (ga_tallocs ga)" using assms(2,4) by (simp add: galloc_ok_def)
  then have kl: "?new \<le> arena" using assms(6) by blast
  have "\<exists>b sizes. ga' = ga \<lparr>ga_buffers := ?bufs[i := Some b], ga_buffer_sizes := sizes\<rparr> \<and>
    ?new \<le> bu_size b \<and> bu_buft b = ga_bufts ga ! i \<and> ggml_backend_buffer_get_base b + bu_size b < U64 \<and>
    length sizes = length (ga_buffer_sizes ga) \<and> (\<forall>c. ?bufs ! i = Some c \<longrightarrow> ?new \<le> bu_size c \<longrightarrow> b = c)"
    (is "\<exists>b sizes. ?P b sizes")
  proof (cases "\<exists>c. ?bufs ! i = Some c \<and> ?new \<le> bu_size c")
    case True
    then obtain c where c: "?bufs ! i = Some c" "?new \<le> bu_size c" by blast
    then have "ga' = ga \<lparr>ga_buffers := ?bufs, ga_buffer_sizes := (ga_buffer_sizes ga)[i := bu_size c]\<rparr>"
      using assms(1) by (simp add: reserve_buffer_def Let_def dyn_max_size_def)
    moreover have "?bufs = ?bufs[i := Some c]" using c(1) by (metis list_update_id)
    ultimately have "?P c ((ga_buffer_sizes ga)[i := bu_size c])" using c sb(3) [OF c(1)] by simp
    then show ?thesis by blast
  next
    case False
    then have n: "(case ?bufs ! i of None \<Rightarrow> 0 | Some b \<Rightarrow> bu_size b) < ?new \<or> ?bufs ! i = None"
      by (auto split: option.split)
    then obtain b where b: "ggml_backend_buft_alloc_buffer be (ga_bufts ga ! i) ?new = Some b"
      "ga' = ga \<lparr>ga_buffers := ?bufs[i := Some b], ga_buffer_sizes := (ga_buffer_sizes ga)[i := bu_size b]\<rparr>"
      using assms(1)
      by (cases "ggml_backend_buft_alloc_buffer be (ga_bufts ga ! i) ?new")
        (simp_all add: reserve_buffer_def Let_def dyn_max_size_def)
    have "ga_bufts ga ! i \<in> set (ga_bufts ga)" using assms(4) by simp
    from new_buffer_ok [OF assms(3) this kl b(1)] have "?P b ((ga_buffer_sizes ga)[i := bu_size b])"
      using b(2) False by auto
    then show ?thesis by blast
  qed
  then obtain b sizes where b: "ga' = ga \<lparr>ga_buffers := ?bufs[i := Some b], ga_buffer_sizes := sizes\<rparr>"
    "?new \<le> bu_size b" "bu_buft b = ga_bufts ga ! i" "ggml_backend_buffer_get_base b + bu_size b < U64"
    "length sizes = length (ga_buffer_sizes ga)" "\<And>c. ?bufs ! i = Some c \<Longrightarrow> ?new \<le> bu_size c \<Longrightarrow> b = c"
    by blast
  have bufs': "ga_buffers ga' ! j = (if j = i then Some b else ga_buffers ga ! j)" for j
    using sb(1,2) assms(4) by (auto simp: b(1) nth_list_update)
  have other: "ga_bufts ga' = ga_bufts ga" "ga_talloc_of ga' = ga_talloc_of ga" "ga_tallocs ga' = ga_tallocs ga"
    "length (ga_buffers ga') = length (ga_bufts ga)" "ga_buffer_sizes ga' = sizes"
    by (simp_all add: b(1) sb(1))
  have fits: "buffer_fits ga' j" if "j < Suc i" for j
    using that assms(5) b(2) by (auto simp: buffer_fits_def bufs' other buffers_upto_def less_Suc_eq)
  have same: "Some b = ga_buffers ga ! j" if "j < i" "ga_talloc_of ga ! j = ga_talloc_of ga ! i" for j
    using sb(4) [OF that] b(6) that(2) by (auto simp: buffer_fits_def)
  have "buffers_upto ga' (Suc i)"
    unfolding buffers_upto_def
  proof (intro conjI allI impI)
    fix j assume "j < Suc i" then show "buffer_fits ga' j" by (rule fits)
  next
    fix j l assume jl: "j < Suc i" "l < Suc i" "ga_talloc_of ga' ! j = ga_talloc_of ga' ! l"
    show "ga_buffers ga' ! j = ga_buffers ga' ! l"
    proof (cases "j = i \<or> l = i")
      case True
      then show ?thesis using jl same [of j] same [of l] by (auto simp only: bufs' other less_Suc_eq split: if_splits)
    next
      case False
      then have "j < i" "l < i" "ga_talloc_of ga ! j = ga_talloc_of ga ! l" using jl by (auto simp: other)
      then have "ga_buffers ga ! j = ga_buffers ga ! l" using assms(5) unfolding buffers_upto_def by blast
      then show ?thesis using False by (simp add: bufs')
    qed
  qed
  moreover have "galloc_ok be ga'"
  proof -
    have "bu_buft c = ga_bufts ga ! j \<and> ggml_backend_buffer_get_base c + bu_size c < U64"
      if "j < length (ga_bufts ga)" "ga_buffers ga' ! j = Some c" for j c
      using that b(3,4) assms(2) by (cases "j = i") (simp_all add: bufs' galloc_ok_def)
    then show ?thesis using assms(2) b(5) by (simp add: galloc_ok_def other)
  qed
  ultimately show ?thesis by (simp add: same_plan_def b(1))
qed

lemma reserve_buffer_failed: "snd (reserve_buffer be i (ga, False)) = False"
  by (simp add: reserve_buffer_def Let_def split: option.split)

lemma reserve_buffers_failed: "snd (fold (reserve_buffer be) is (ga, False)) = False"
proof (induction "is" arbitrary: ga)
  case (Cons i "is")
  obtain ga1 where "reserve_buffer be i (ga, False) = (ga1, False)"
    using reserve_buffer_failed by (metis prod.collapse)
  then show ?case using Cons by simp
qed simp

lemma same_plan_trans: "same_plan a b \<Longrightarrow> same_plan b c \<Longrightarrow> same_plan a c"
  by (simp add: same_plan_def)

lemma reserve_buffers_keep:
  assumes "fold (reserve_buffer be) is (ga, s) = (ga', s')" "galloc_ok be ga" "backend_ok be (ga_bufts ga)"
    "\<forall>i \<in> set is. i < length (ga_bufts ga)" "\<forall>k < length (ga_tallocs ga). dt_max (ga_tallocs ga ! k) \<le> arena"
  shows "galloc_ok be ga' \<and> same_plan ga ga'"
  using assms
proof (induction "is" arbitrary: ga s)
  case Nil
  then show ?case by (simp add: same_plan_def)
next
  case (Cons i "is")
  obtain ga1 s1 where s: "reserve_buffer be i (ga, s) = (ga1, s1)" by fastforce
  have 1: "galloc_ok be ga1" "same_plan ga ga1"
    using reserve_buffer_keeps [OF s Cons.prems(2,3) _ Cons.prems(5)] Cons.prems(4) by simp_all
  then have b: "ga_bufts ga1 = ga_bufts ga" "ga_tallocs ga1 = ga_tallocs ga" by (simp_all add: same_plan_def)
  have "galloc_ok be ga' \<and> same_plan ga1 ga'"
    by (rule Cons.IH) (use Cons.prems 1 s b in simp_all)
  then show ?case using 1(2) same_plan_trans by blast
qed

lemma reserve_buffers_ok:
  assumes "fold (reserve_buffer be) [i..<length (ga_bufts ga)] (ga, True) = (ga', True)" "galloc_ok be ga"
    "backend_ok be (ga_bufts ga)" "i \<le> length (ga_bufts ga)" "buffers_upto ga i"
    "\<forall>k < length (ga_tallocs ga). dt_max (ga_tallocs ga ! k) \<le> arena"
  shows "galloc_ok be ga' \<and> same_plan ga ga' \<and> buffers_upto ga' (length (ga_bufts ga))"
  using assms
proof (induction "length (ga_bufts ga) - i" arbitrary: i ga)
  case 0
  then show ?case by (simp add: same_plan_def)
next
  case (Suc n)
  then have i: "i < length (ga_bufts ga)" by simp
  obtain ga1 s where s: "reserve_buffer be i (ga, True) = (ga1, s)" by fastforce
  have f: "fold (reserve_buffer be) [Suc i..<length (ga_bufts ga)] (ga1, s) = (ga', True)"
    using Suc.prems(1) i s by (simp add: upt_conv_Cons)
  then have "s = True" using reserve_buffers_failed [of be "[Suc i..<length (ga_bufts ga)]" ga1] by (cases s) auto
  then have 1: "galloc_ok be ga1" "same_plan ga ga1" "buffers_upto ga1 (Suc i)"
    using reserve_buffer_step [OF _ Suc.prems(2,3) i Suc.prems(5,6)] s by simp_all
  then have b: "ga_bufts ga1 = ga_bufts ga" "ga_tallocs ga1 = ga_tallocs ga" by (simp_all add: same_plan_def)
  have "galloc_ok be ga' \<and> same_plan ga1 ga' \<and> buffers_upto ga' (length (ga_bufts ga1))"
    by (rule Suc.hyps(1)) (use Suc.hyps(2) Suc.prems i 1 f \<open>s = True\<close> b in simp_all)
  then show ?case using 1(2) same_plan_trans b by auto
qed

text \<open>The plan depends on the table, the allocators and the buffer types only.\<close>

lemma plan_cong:
  assumes "ga_bufts ga' = ga_bufts ga" "ga_talloc_of ga' = ga_talloc_of ga"
    "ga_tallocs ga' = ga_tallocs ga" "ga_hash ga' = ga_hash ga"
  shows "talloc_idx ga' t = talloc_idx ga t" "block_of be T ga' t = block_of be T ga t"
    "in_buffer be T ga' t = in_buffer be T ga t" "safe_upto be T g i ga' = safe_upto be T g i ga"
    "place_of be T ga' t = place_of be T ga t" "node_place be T ga' n = node_place be T ga n"
    "start_apart be T g ga' = start_apart be T g ga"
proof -
  show k: "talloc_idx ga' t = talloc_idx ga t" for t using assms by (simp add: talloc_idx_def)
  show b: "block_of be T ga' t = block_of be T ga t" for t
    using assms by (simp add: block_of_def k tensor_size_def)
  show "in_buffer be T ga' t = in_buffer be T ga t" using assms by (simp add: in_buffer_def k b)
  show "safe_upto be T g i ga' = safe_upto be T g i ga"
    by (simp add: safe_upto_def not_clobbered_def k b)
  show "start_apart be T g ga' = start_apart be T g ga" by (simp add: start_apart_def k b)
  show p: "place_of be T ga' t = place_of be T ga t" for t using assms by (simp add: place_of_def)
  show "node_place be T ga' n = node_place be T ga n"
    using p by (simp add: node_place_def split: option.split)
qed

definition reserved :: "backend \<Rightarrow> tensors \<Rightarrow> cgraph \<Rightarrow> gallocr \<Rightarrow> bool" where
  "reserved be T g ga \<longleftrightarrow> galloc_ok be ga \<and> buffers_upto ga (length (ga_bufts ga)) \<and>
     ga_node_allocs ga = map (node_place be T ga) (gr_nodes g) \<and>
     ga_leaf_allocs ga = map (place_of be T ga) (gr_leafs g) \<and>
     safe_upto be T g (length (gr_nodes g)) ga \<and> start_apart be T g ga \<and>
     (\<forall>x \<in> graph_tensors g. own T x \<longrightarrow> in_buffer be T ga x)"

lemma owners_inv: "dyn.owners a A \<Longrightarrow> \<exists>L. dyn_inv a L"
  by (auto simp: dyn.owners_def)

lemma reserve_n_result:
  assumes "galloc_ok be ga" "backend_ok be (ga_bufts ga)" "graph_ok T g" "sizes_ok be T g (ga_bufts ga)"
    "ggml_gallocr_reserve_n be T g node_ids leaf_ids ga = Some (ok, ga')"
  shows "galloc_ok be ga' \<and> ga_bufts ga' = ga_bufts ga \<and> (ok \<longrightarrow> reserved be T g ga')"
proof -
  let ?ga0 = "ga \<lparr>ga_tallocs := map dyn_reset (ga_tallocs ga)\<rparr>"
  obtain ga1 where impl: "ggml_gallocr_alloc_graph_impl be T g node_ids leaf_ids ?ga0 = Some ga1"
    using assms(5) by (auto simp: ggml_gallocr_reserve_n_def Let_def split: bind_splits)
  let ?ga2 = "ga1 \<lparr>ga_node_allocs := map (node_place be T ga1) (gr_nodes g),
                  ga_leaf_allocs := map (place_of be T ga1) (gr_leafs g)\<rparr>"
  have fld: "fold (reserve_buffer be) [0..<length (ga_bufts ga)] (?ga2, True) = (ga', ok)"
    using assms(5) impl by (simp add: ggml_gallocr_reserve_n_def Let_def split: prod.splits)
  have e: "exec_inv be T g (length (gr_nodes g)) ga1" "frame ?ga0 ga1" "start_apart be T g ga1"
    using alloc_graph_impl_inv [OF assms(3) galloc_fresh [OF assms(1,4)] impl] by auto
  have fr: "ga_bufts ga1 = ga_bufts ga" "ga_talloc_of ga1 = ga_talloc_of ga" "ga_buffers ga1 = ga_buffers ga"
    "ga_buffer_sizes ga1 = ga_buffer_sizes ga" "length (ga_tallocs ga1) = length (ga_tallocs ga)"
    using e(2) by (simp_all add: frame_def)
  have al: "dt_alignment (ga_tallocs ga1 ! (ga_talloc_of ga ! i)) = be_alignment be (ga_bufts ga ! i)"
    if "i < length (ga_bufts ga)" for i
    using e(2) assms(1) that by (simp add: frame_def galloc_ok_def dyn_reset_def)
  have inv: "\<exists>L. dyn_inv (ga_tallocs ga1 ! k) L" if "k < length (ga_tallocs ga1)" for k
    using e(1) that owners_inv by (auto simp: exec_inv_def mem_ok_def)
  have ok2: "galloc_ok be ?ga2" using assms(1) inv al by (simp add: galloc_ok_def fr)
  have mx: "\<forall>k < length (ga_tallocs ?ga2). dt_max (ga_tallocs ?ga2 ! k) \<le> arena"
    using inv by (auto simp: dyn_inv_def)
  have b2: "ga_bufts ?ga2 = ga_bufts ga" by (simp add: fr)
  have k: "galloc_ok be ga'" "same_plan ?ga2 ga'"
    using reserve_buffers_keep [OF fld ok2] mx assms(2) b2 by simp_all
  then have b': "ga_bufts ga' = ga_bufts ga" using b2 by (simp add: same_plan_def)
  show ?thesis
  proof (intro conjI impI)
    assume ok
    then have "galloc_ok be ga' \<and> same_plan ?ga2 ga' \<and> buffers_upto ga' (length (ga_bufts ?ga2))"
      by (intro reserve_buffers_ok [where i = 0]) (use fld ok2 mx assms(2) in \<open>simp_all add: b2 buffers_upto_def\<close>)
    then have f: "galloc_ok be ga'" "same_plan ?ga2 ga'" "buffers_upto ga' (length (ga_bufts ga))" by (simp_all add: b2)
    have c: "ga_bufts ga' = ga_bufts ga1" "ga_talloc_of ga' = ga_talloc_of ga1" "ga_tallocs ga' = ga_tallocs ga1"
      "ga_hash ga' = ga_hash ga1" "ga_node_allocs ga' = map (node_place be T ga1) (gr_nodes g)"
      "ga_leaf_allocs ga' = map (place_of be T ga1) (gr_leafs g)"
      using f(2) by (simp_all add: same_plan_def)
    have "placed_before T g (length (gr_nodes g)) = graph_tensors g"
      by (auto simp: placed_before_def graph_tensors_def)
    then show "reserved be T g ga'"
      using e(1,3) f(1,3) unfolding reserved_def plan_cong [OF c(1-4)] c(5,6) exec_inv_def
      by (simp add: c(1) fr(1))
  qed (simp_all add: k b')
qed

lemma reserve_n_reserved:
  assumes "galloc_ok be ga" "backend_ok be (ga_bufts ga)" "graph_ok T g" "sizes_ok be T g (ga_bufts ga)"
    "ggml_gallocr_reserve_n be T g node_ids leaf_ids ga = Some (True, ga')"
  shows "reserved be T g ga' \<and> ga_bufts ga' = ga_bufts ga"
  using reserve_n_result [OF assms] by simp

subsection \<open>Every tensor gets its planned address\<close>

definition buffer_at :: "gallocr \<Rightarrow> nat \<Rightarrow> buffer" where
  "buffer_at ga t = the (ga_buffers ga ! hn_buffer (ga_hash ga t))"

definition address_of :: "gallocr \<Rightarrow> nat \<Rightarrow> nat" where
  "address_of ga t = ggml_backend_buffer_get_base (buffer_at ga t) + hn_offset (ga_hash ga t)"

text \<open>The tensors in \<open>S\<close> have been visited: their own memory is set, nothing else of them is.\<close>

definition init_inv :: "gallocr \<Rightarrow> tensors \<Rightarrow> nat set \<Rightarrow> tensors \<Rightarrow> bool" where
  "init_inv ga T S T' \<longleftrightarrow>
     (\<forall>t. \<exists>b d. T' t = (T t) \<lparr>tn_buffer := b, tn_data := d\<rparr>) \<and>
     (\<forall>t. tn_view_src (T t) = None \<longrightarrow> T' t =
        (if own T t \<and> t \<in> S
         then (T t) \<lparr>tn_buffer := Some (buffer_at ga t), tn_data := Some (address_of ga t)\<rparr> else T t))"

lemma reserved_buffer:
  assumes "reserved be T g ga" "sizes_ok be T g (ga_bufts ga)" "t \<in> graph_tensors g" "own T t"
  defines "b \<equiv> buffer_at ga t"
  shows "hn_buffer (ga_hash ga t) < length (ga_bufts ga)" "hn_buffer (ga_hash ga t) < length (ga_buffers ga)"
    "ga_buffers ga ! hn_buffer (ga_hash ga t) = Some b" "bu_buft b = ga_bufts ga ! hn_buffer (ga_hash ga t)"
    "hn_offset (ga_hash ga t) + be_alloc_size be (bu_buft b) (T t) \<le> bu_size b"
    "ggml_backend_buffer_get_base b + bu_size b < U64"
proof -
  let ?i = "hn_buffer (ga_hash ga t)"
  have r: "galloc_ok be ga" "buffers_upto ga (length (ga_bufts ga))" "in_buffer be T ga t"
    using assms(1,3,4) by (simp_all add: reserved_def)
  show i: "?i < length (ga_bufts ga)" using r(3) by (simp add: in_buffer_def)
  show "?i < length (ga_buffers ga)" using i r(1) by (simp add: galloc_ok_def)
  have "buffer_fits ga ?i" using r(2) i by (simp add: buffers_upto_def)
  then obtain c where c: "ga_buffers ga ! ?i = Some c" "dt_max (ga_tallocs ga ! talloc_idx ga t) \<le> bu_size c"
    by (auto simp: buffer_fits_def talloc_idx_def)
  then have bc: "b = c" by (simp add: b_def buffer_at_def)
  show "ga_buffers ga ! ?i = Some b" using c bc by simp
  have u: "bu_buft c = ga_bufts ga ! ?i \<and> ggml_backend_buffer_get_base c + bu_size c < U64"
    using r(1) i c(1) by (simp add: galloc_ok_def)
  then show "bu_buft b = ga_bufts ga ! ?i" "ggml_backend_buffer_get_base b + bu_size b < U64" using bc by auto
  have "be_alloc_size be (ga_bufts ga ! ?i) (T t) \<le> snd (block_of be T ga t)"
    by (simp add: block_of_def tensor_size_def padded_ge)
  moreover have "fst (block_of be T ga t) + snd (block_of be T ga t) \<le> dt_max (ga_tallocs ga ! talloc_idx ga t)"
    using r(3) by (simp add: in_buffer_def)
  ultimately show "hn_offset (ga_hash ga t) + be_alloc_size be (bu_buft b) (T t) \<le> bu_size b"
    using c(2) bc u by (simp add: block_of_def)
qed

lemma init_tensor_step:
  assumes "reserved be T g ga" "graph_ok T g" "sizes_ok be T g (ga_bufts ga)"
    "\<forall>t \<in> graph_tensors g. own T t \<longrightarrow> tn_buffer (T t) = None"
    "init_inv ga T S T'" "t \<in> graph_tensors g"
    "\<And>v. tn_view_src (T t) = Some v \<Longrightarrow> own T v \<Longrightarrow> v \<in> S"
  shows "\<exists>T''. ggml_gallocr_init_tensor be ga (t, place_of be T ga t) T' = Some T'' \<and> init_inv ga T (insert t S) T''"
proof -
  have i1: "\<exists>b d. T' u = (T u) \<lparr>tn_buffer := b, tn_data := d\<rparr>" for u using assms(5) by (simp add: init_inv_def)
  have i2: "T' u = (if own T u \<and> u \<in> S
      then (T u) \<lparr>tn_buffer := Some (buffer_at ga u), tn_data := Some (address_of ga u)\<rparr> else T u)"
    if "tn_view_src (T u) = None" for u using assms(5) that by (simp add: init_inv_def)
  have vs: "tn_view_src (T' t) = tn_view_src (T t)" using i1 [of t] by auto
  show ?thesis
  proof (cases "tn_view_src (T t)")
    case None
    have t': "T' t = (if own T t \<and> t \<in> S
        then (T t) \<lparr>tn_buffer := Some (buffer_at ga t), tn_data := Some (address_of ga t)\<rparr> else T t)"
      by (rule i2 [OF None])
    show ?thesis
    proof (cases "own T t \<and> t \<notin> S")
      case False
      then have "tn_data (T' t) \<noteq> None" using t' None by (auto simp: own_def)
      then have "ggml_gallocr_init_tensor be ga (t, place_of be T ga t) T' = Some T'"
        by (auto simp: ggml_gallocr_init_tensor_def vs None)
      moreover have "init_inv ga T (insert t S) T'"
        using assms(5) False by (auto simp: init_inv_def)
      ultimately show ?thesis by blast
    next
      case True
      let ?b = "buffer_at ga t"
      have ot: "own T t" using True by simp
      note rb = reserved_buffer [OF assms(1,3,6) ot]
      have tt: "T' t = T t" using t' True by simp
      have d: "tn_data (T t) = None" "tn_buffer (T t) = None" using True assms(4,6) by (simp_all add: own_def)
      have addr: "u64_add (ggml_backend_buffer_get_base ?b) (hn_offset (ga_hash ga t)) = address_of ga t"
        using rb(5,6) by (simp add: address_of_def u64_simps)
      have le: "u64_add (address_of ga t) (be_alloc_size be (bu_buft ?b) (T t)) \<le>
          u64_add (ggml_backend_buffer_get_base ?b) (bu_size ?b)"
        using rb(5,6) by (simp add: address_of_def u64_simps)
      have ge: "ggml_backend_buffer_get_base ?b \<le> address_of ga t" by (simp add: address_of_def)
      let ?t' = "(T t) \<lparr>tn_buffer := Some ?b, tn_data := Some (address_of ga t)\<rparr>"
      have "ggml_gallocr_init_tensor be ga (t, place_of be T ga t) T' = Some (T'(t := ?t'))"
        using rb(2,3) addr le ge d None
        by (simp add: ggml_gallocr_init_tensor_def vs place_of_def tt ggml_backend_tensor_alloc_def Let_def)
      moreover have "init_inv ga T (insert t S) (T'(t := ?t'))"
        unfolding init_inv_def
      proof (intro conjI allI impI)
        fix u show "\<exists>b d. (T'(t := ?t')) u = (T u) \<lparr>tn_buffer := b, tn_data := d\<rparr>"
          using i1 [of u] by auto
      next
        fix u assume "tn_view_src (T u) = None"
        then show "(T'(t := ?t')) u = (if own T u \<and> u \<in> insert t S
          then (T u) \<lparr>tn_buffer := Some (buffer_at ga u), tn_data := Some (address_of ga u)\<rparr> else T u)"
          using i2 [of u] True by (auto simp del: fun_upd_apply simp: fun_upd_def)
      qed
      ultimately show ?thesis by blast
    qed
  next
    case (Some v)
    have vv: "tn_view_src (T v) = None"
      using graph_ok_view(1) [OF assms(2,6) Some] by (simp add: ggml_is_view_def)
    have nt: "\<not> own T t" using Some by (simp add: own_def)
    have keep: "init_inv ga T (insert t S) T1"
      if T1: "\<And>u. u \<noteq> t \<Longrightarrow> T1 u = T' u" "\<exists>b d. T1 t = (T t) \<lparr>tn_buffer := b, tn_data := d\<rparr>" for T1
      unfolding init_inv_def
    proof (intro conjI allI impI)
      fix u show "\<exists>b d. T1 u = (T u) \<lparr>tn_buffer := b, tn_data := d\<rparr>"
        using T1(2) i1 [of u] T1(1) [of u] by (cases "u = t") auto
    next
      fix u assume u: "tn_view_src (T u) = None"
      then have "u \<noteq> t" using Some by auto
      then show "T1 u = (if own T u \<and> u \<in> insert t S
          then (T u) \<lparr>tn_buffer := Some (buffer_at ga u), tn_data := Some (address_of ga u)\<rparr> else T u)"
        using i2 [OF u] T1(1) by simp
    qed
    show ?thesis
    proof (cases "tn_buffer (T' t) = None \<and> tn_buffer (T' v) \<noteq> None")
      case False
      then have "ggml_gallocr_init_tensor be ga (t, place_of be T ga t) T' = Some T'"
        by (auto simp: ggml_gallocr_init_tensor_def vs Some)
      then show ?thesis using keep [of T'] i1 [of t] by blast
    next
      case True
      then obtain b where b: "tn_buffer (T' v) = Some b" by blast
      have "tn_data (T' v) \<noteq> None"
        using i2 [OF vv] assms(7) [OF Some] vv by (auto simp: own_def split: if_splits)
      then obtain d where d: "tn_data (T' v) = Some d" by blast
      let ?t' = "(T' t) \<lparr>tn_buffer := Some b, tn_data := Some (u64_add d (tn_view_offs (T' t)))\<rparr>"
      have "ggml_gallocr_init_tensor be ga (t, place_of be T ga t) T' = Some (T'(t := ?t'))"
        using True b d by (simp add: ggml_gallocr_init_tensor_def vs Some ggml_backend_view_init_def Let_def)
      moreover have "(T'(t := ?t')) t =
          (T t) \<lparr>tn_buffer := Some b, tn_data := Some (u64_add d (tn_view_offs (T' t)))\<rparr>"
        using i1 [of t] by auto
      ultimately show ?thesis using keep [of "T'(t := ?t')"] by (metis fun_upd_other)
    qed
  qed
qed

lemma init_inv_insert_same:
  assumes "init_inv ga T S T'" "t \<in> S"
  shows "insert t S = S"
  using assms by auto

lemma init_leafs:
  assumes "reserved be T g ga" "graph_ok T g" "sizes_ok be T g (ga_bufts ga)"
    "\<forall>t \<in> graph_tensors g. own T t \<longrightarrow> tn_buffer (T t) = None"
    "init_inv ga T S T'" "set ls \<subseteq> set (gr_leafs g)"
  shows "\<exists>T''. fold_opt (ggml_gallocr_init_tensor be ga) (map (\<lambda>l. (l, place_of be T ga l)) ls) T' = Some T'' \<and>
    init_inv ga T (S \<union> set ls) T''"
  using assms(5,6)
proof (induction ls arbitrary: S T')
  case Nil
  then show ?case by simp
next
  case (Cons l ls)
  have l: "l \<in> graph_tensors g" using Cons.prems(2) by (simp add: graph_tensors_def)
  have "\<exists>T1. ggml_gallocr_init_tensor be ga (l, place_of be T ga l) T' = Some T1 \<and> init_inv ga T (insert l S) T1"
    by (rule init_tensor_step [OF assms(1-4) Cons.prems(1) l])
      (use Cons.prems(2) graph_ok_leaf_view(2) [OF assms(2)] in auto)
  then obtain T1 where T1: "ggml_gallocr_init_tensor be ga (l, place_of be T ga l) T' = Some T1"
    "init_inv ga T (insert l S) T1" by blast
  then show ?case using Cons.IH [OF T1(2)] Cons.prems(2) by simp
qed

text \<open>The sources of a node have been visited, so only the node itself is new.\<close>

lemma init_srcs:
  assumes "reserved be T g ga" "graph_ok T g" "sizes_ok be T g (ga_bufts ga)"
    "\<forall>t \<in> graph_tensors g. own T t \<longrightarrow> tn_buffer (T t) = None"
    "init_inv ga T S T'" "\<And>s. Some s \<in> set ss \<Longrightarrow> s \<in> S \<and> s \<in> graph_tensors g"
    "\<And>s v. Some s \<in> set ss \<Longrightarrow> tn_view_src (T s) = Some v \<Longrightarrow> own T v \<Longrightarrow> v \<in> S"
  shows "\<exists>T''. fold_opt (\<lambda>(s, ta) T. case s of None \<Rightarrow> Some T | Some s \<Rightarrow> ggml_gallocr_init_tensor be ga (s, ta) T)
      (map (\<lambda>s. (s, case s of None \<Rightarrow> no_place | Some s \<Rightarrow> place_of be T ga s)) ss) T' = Some T'' \<and>
    init_inv ga T S T''"
  using assms(5-7)
proof (induction ss arbitrary: T')
  case Nil
  then show ?case by simp
next
  case (Cons s ss)
  show ?case
  proof (cases s)
    case None
    then show ?thesis using Cons by auto
  next
    case (Some s')
    have m: "s' \<in> S" "s' \<in> graph_tensors g" using Cons.prems(2) [of s'] Some by auto
    have "\<exists>T1. ggml_gallocr_init_tensor be ga (s', place_of be T ga s') T' = Some T1 \<and> init_inv ga T (insert s' S) T1"
      by (rule init_tensor_step [OF assms(1-4) Cons.prems(1) m(2)]) (use Cons.prems(3) [of s'] Some in auto)
    then obtain T1 where T1: "ggml_gallocr_init_tensor be ga (s', place_of be T ga s') T' = Some T1"
      "init_inv ga T S T1" using m(1) by (auto simp: insert_absorb)
    have "\<exists>T''. fold_opt (\<lambda>(s, ta) T. case s of None \<Rightarrow> Some T | Some s \<Rightarrow> ggml_gallocr_init_tensor be ga (s, ta) T)
        (map (\<lambda>s. (s, case s of None \<Rightarrow> no_place | Some s \<Rightarrow> place_of be T ga s)) ss) T1 = Some T'' \<and>
      init_inv ga T S T''"
      by (rule Cons.IH [OF T1(2)]) (use Cons.prems(2,3) in auto)
    then show ?thesis using T1(1) Some by simp
  qed
qed

lemma in_srcs: "s \<in> set (srcs t) \<longleftrightarrow> Some s \<in> set (tn_src t)"
  by (force simp: srcs_def List.map_filter_def)

text \<open>What a source views is in memory before the node runs.\<close>

lemma src_root_placed:
  assumes "graph_ok T g" "i < length (gr_nodes g)" "s \<in> set (srcs (T (gr_nodes g ! i)))"
    "tn_view_src (T s) = Some v" "own T v"
  shows "v \<in> set (gr_leafs g) \<union> set (take i (gr_nodes g))"
proof -
  have s: "s \<in> set (gr_leafs g) \<union> set (take i (gr_nodes g))" by (rule graph_ok_src [OF assms(1-3)])
  then show ?thesis
  proof
    assume "s \<in> set (gr_leafs g)"
    then show ?thesis using graph_ok_leaf_view(2) [OF assms(1) _ assms(4)] assms(5) by blast
  next
    assume "s \<in> set (take i (gr_nodes g))"
    then obtain j where j: "j < i" "s = gr_nodes g ! j" using assms(2) by (auto simp: in_set_conv_nth)
    have "v \<in> set (gr_leafs g) \<union> set (take j (gr_nodes g))"
      by (rule graph_ok_node_view(2) [OF assms(1)]) (use j assms(2,4,5) in auto)
    then show ?thesis using j(1) set_take_subset_set_take [of j i "gr_nodes g"] by auto
  qed
qed

lemma init_node_step:
  assumes "reserved be T g ga" "graph_ok T g" "sizes_ok be T g (ga_bufts ga)"
    "\<forall>t \<in> graph_tensors g. own T t \<longrightarrow> tn_buffer (T t) = None"
    "i < length (gr_nodes g)" "init_inv ga T (set (gr_leafs g) \<union> set (take i (gr_nodes g))) T'"
  shows "\<exists>T''. init_node be ga (gr_nodes g ! i, node_place be T ga (gr_nodes g ! i)) T' = Some T'' \<and>
    init_inv ga T (set (gr_leafs g) \<union> set (take (Suc i) (gr_nodes g))) T''"
proof -
  let ?n = "gr_nodes g ! i" and ?S = "set (gr_leafs g) \<union> set (take i (gr_nodes g))"
  have n: "?n \<in> graph_tensors g" using assms(5) by (simp add: graph_tensors_def)
  have src: "tn_src (T' ?n) = tn_src (T ?n)"
  proof -
    obtain b d where "T' ?n = (T ?n) \<lparr>tn_buffer := b, tn_data := d\<rparr>"
      using assms(6) unfolding init_inv_def by blast
    then show ?thesis by simp
  qed
  have z: "zip (tn_src (T' ?n)) (na_src (node_place be T ga ?n)) =
      map (\<lambda>s. (s, case s of None \<Rightarrow> no_place | Some s \<Rightarrow> place_of be T ga s)) (tn_src (T ?n))"
    by (simp add: src node_place_def zip_map2 zip_same_conv_map)
  have sub: "?S \<subseteq> graph_tensors g" by (auto simp: graph_tensors_def dest: in_set_takeD)
  have "\<exists>T1. fold_opt (\<lambda>(s, ta) T. case s of None \<Rightarrow> Some T | Some s \<Rightarrow> ggml_gallocr_init_tensor be ga (s, ta) T)
      (map (\<lambda>s. (s, case s of None \<Rightarrow> no_place | Some s \<Rightarrow> place_of be T ga s)) (tn_src (T ?n))) T' = Some T1 \<and>
    init_inv ga T ?S T1"
  proof (rule init_srcs [OF assms(1-4,6)])
    fix s assume "Some s \<in> set (tn_src (T ?n))"
    then have s: "s \<in> set (srcs (T ?n))" by (simp add: in_srcs)
    then show "s \<in> ?S \<and> s \<in> graph_tensors g" using graph_ok_src [OF assms(2,5) s] sub by blast
    show "v \<in> ?S" if "tn_view_src (T s) = Some v" "own T v" for v
      by (rule src_root_placed [OF assms(2,5) s that])
  qed
  then obtain T1 where T1: "fold_opt (\<lambda>(s, ta) T. case s of None \<Rightarrow> Some T | Some s \<Rightarrow> ggml_gallocr_init_tensor be ga (s, ta) T)
      (zip (tn_src (T' ?n)) (na_src (node_place be T ga ?n))) T' = Some T1" "init_inv ga T ?S T1"
    unfolding z by blast
  have "\<exists>T''. ggml_gallocr_init_tensor be ga (?n, place_of be T ga ?n) T1 = Some T'' \<and> init_inv ga T (insert ?n ?S) T''"
    by (rule init_tensor_step [OF assms(1-4) T1(2) n]) (rule graph_ok_node_view(2) [OF assms(2,5)])
  then show ?thesis using T1(1) assms(5)
    by (auto simp: init_node_def node_place_def take_Suc_conv_app_nth)
qed

lemma init_nodes:
  assumes "reserved be T g ga" "graph_ok T g" "sizes_ok be T g (ga_bufts ga)"
    "\<forall>t \<in> graph_tensors g. own T t \<longrightarrow> tn_buffer (T t) = None"
    "i \<le> length (gr_nodes g)" "init_inv ga T (set (gr_leafs g) \<union> set (take i (gr_nodes g))) T'"
  shows "\<exists>T''. fold_opt (init_node be ga) (map (\<lambda>n. (n, node_place be T ga n)) (drop i (gr_nodes g))) T' = Some T'' \<and>
    init_inv ga T (graph_tensors g) T''"
  using assms(5,6)
proof (induction "length (gr_nodes g) - i" arbitrary: i T')
  case 0
  then show ?case by (simp add: graph_tensors_def)
next
  case (Suc n)
  then have i: "i < length (gr_nodes g)" by simp
  obtain T1 where T1: "init_node be ga (gr_nodes g ! i, node_place be T ga (gr_nodes g ! i)) T' = Some T1"
    "init_inv ga T (set (gr_leafs g) \<union> set (take (Suc i) (gr_nodes g))) T1"
    using init_node_step [OF assms(1-4) i Suc.prems(2)] by blast
  have "drop i (gr_nodes g) = gr_nodes g ! i # drop (Suc i) (gr_nodes g)" using i by (simp add: Cons_nth_drop_Suc)
  then show ?case using Suc.hyps(1) [of "Suc i" T1] Suc.hyps(2) T1 i by simp
qed

lemma init_graph_ok:
  assumes "reserved be T g ga" "graph_ok T g" "sizes_ok be T g (ga_bufts ga)"
    "\<forall>t \<in> graph_tensors g. own T t \<longrightarrow> tn_buffer (T t) = None"
  shows "\<exists>T'. init_graph be ga g T = Some T' \<and> init_inv ga T (graph_tensors g) T'"
proof -
  have "T t = (T t) \<lparr>tn_buffer := tn_buffer (T t), tn_data := tn_data (T t)\<rparr>" for t by simp
  then have "init_inv ga T {} T" unfolding init_inv_def by fastforce
  from init_leafs [OF assms this, of "gr_leafs g"] obtain T1 where
    T1: "fold_opt (ggml_gallocr_init_tensor be ga) (map (\<lambda>l. (l, place_of be T ga l)) (gr_leafs g)) T = Some T1"
    "init_inv ga T (set (gr_leafs g)) T1" by auto
  from init_nodes [OF assms, of 0 T1] T1(2) obtain T2 where
    T2: "fold_opt (init_node be ga) (map (\<lambda>n. (n, node_place be T ga n)) (gr_nodes g)) T1 = Some T2"
    "init_inv ga T (graph_tensors g) T2" by auto
  have z: "zip xs (map f xs) = map (\<lambda>x. (x, f x)) xs" for xs :: "nat list" and f :: "nat \<Rightarrow> 'c"
    by (simp add: zip_map2 zip_same_conv_map)
  show ?thesis
    using T1(1) T2 assms(1) by (simp add: init_graph_def reserved_def z)
qed

subsection \<open>The memory of a tensor after the allocation\<close>

text \<open>The bytes that the data of \<open>x\<close> occupies, as pairs of a buffer type and an address.\<close>

definition tensor_bytes :: "backend \<Rightarrow> tensors \<Rightarrow> tensors \<Rightarrow> nat \<Rightarrow> (nat \<times> nat) set" where
  "tensor_bytes be T T' x =
     (case (tn_buffer (T' x), tn_data (T' x)) of
        (Some b, Some a) \<Rightarrow> {bu_buft b} \<times> {a ..< a + be_alloc_size be (bu_buft b) (T x)}
      | _ \<Rightarrow> {})"

lemma init_inv_own:
  assumes "init_inv ga T (graph_tensors g) T'" "own T x" "x \<in> graph_tensors g"
  shows "T' x = (T x) \<lparr>tn_buffer := Some (buffer_at ga x), tn_data := Some (address_of ga x)\<rparr>"
  using assms by (simp add: init_inv_def own_def)

lemma tensor_bytes_own:
  assumes "reserved be T g ga" "sizes_ok be T g (ga_bufts ga)" "init_inv ga T (graph_tensors g) T'"
    "own T x" "x \<in> graph_tensors g"
  shows "tensor_bytes be T T' x = {ga_bufts ga ! hn_buffer (ga_hash ga x)} \<times>
    {address_of ga x ..< address_of ga x + tensor_size be T ga x}"
  using reserved_buffer(4) [OF assms(1,2,5,4)]
  by (simp add: tensor_bytes_def init_inv_own [OF assms(3-5)] tensor_size_def)

lemma blocks_bytes_apart:
  assumes "reserved be T g ga" "sizes_ok be T g (ga_bufts ga)" "init_inv ga T (graph_tensors g) T'"
    "own T x" "x \<in> graph_tensors g" "own T y" "y \<in> graph_tensors g"
    "talloc_idx ga x \<noteq> talloc_idx ga y \<or> disjnt (span (block_of be T ga x)) (span (block_of be T ga y))"
  shows "tensor_bytes be T T' x \<inter> tensor_bytes be T T' y = {}"
proof -
  note bx = tensor_bytes_own [OF assms(1-5)]
  note by' = tensor_bytes_own [OF assms(1-3,6,7)]
  have ok: "galloc_ok be ga" "buffers_upto ga (length (ga_bufts ga))" using assms(1) by (simp_all add: reserved_def)
  have lx: "hn_buffer (ga_hash ga x) < length (ga_bufts ga)" and ly: "hn_buffer (ga_hash ga y) < length (ga_bufts ga)"
    using reserved_buffer(1) [OF assms(1,2)] assms(4-7) by auto
  show ?thesis
  proof (cases "talloc_idx ga x = talloc_idx ga y")
    case False
    then have "ga_bufts ga ! hn_buffer (ga_hash ga x) \<noteq> ga_bufts ga ! hn_buffer (ga_hash ga y)"
      using ok(1) lx ly by (simp add: galloc_ok_def talloc_idx_def)
    then show ?thesis by (auto simp: bx by')
  next
    case True
    then have apart: "disjnt (span (block_of be T ga x)) (span (block_of be T ga y))" using assms(8) by simp
    have "ga_buffers ga ! hn_buffer (ga_hash ga x) = ga_buffers ga ! hn_buffer (ga_hash ga y)"
      using ok(2) lx ly True unfolding buffers_upto_def talloc_idx_def by blast
    then have base: "buffer_at ga x = buffer_at ga y" by (simp add: buffer_at_def)
    have "{address_of ga x ..< address_of ga x + tensor_size be T ga x} \<inter>
        {address_of ga y ..< address_of ga y + tensor_size be T ga y} = {}"
    proof (rule ccontr)
      assume "\<not> ?thesis"
      then obtain z where "z \<in> {address_of ga x ..< address_of ga x + tensor_size be T ga x} \<inter>
        {address_of ga y ..< address_of ga y + tensor_size be T ga y}" by blast
      then have z: "address_of ga x \<le> z" "z < address_of ga x + tensor_size be T ga x"
        "address_of ga y \<le> z" "z < address_of ga y + tensor_size be T ga y" by simp_all
      let ?z = "z - ggml_backend_buffer_get_base (buffer_at ga x)"
      have "?z \<in> span (block_of be T ga x)" "?z \<in> span (block_of be T ga y)"
        using z base padded_ge [of "tensor_size be T ga x" "dt_alignment (ga_tallocs ga ! talloc_idx ga x)"]
          padded_ge [of "tensor_size be T ga y" "dt_alignment (ga_tallocs ga ! talloc_idx ga y)"]
        by (auto simp: span_def block_of_def address_of_def)
      then show False using apart by (auto simp: disjnt_def)
    qed
    then show ?thesis by (auto simp: bx by')
  qed
qed

lemma reserved_not_clobbered:
  assumes "reserved be T g ga" "sizes_ok be T g (ga_bufts ga)" "init_inv ga T (graph_tensors g) T'"
    "own T x" "x \<in> graph_tensors g" "i < length (gr_nodes g)" "own T (gr_nodes g ! i)"
    "not_clobbered be T g ga i x"
  defines "w \<equiv> gr_nodes g ! i"
  shows "tensor_bytes be T T' x \<inter> tensor_bytes be T T' w = {} \<or>
    x \<in> set (srcs (T w)) \<and> ggml_op_can_inplace (tn_op (T w)) \<and> ggml_are_same_layout (T w) (T x) \<and>
      \<not> live_at T g (Suc i) x"
proof -
  have w: "own T w" "w \<in> graph_tensors g" using assms(6,7) by (simp_all add: w_def graph_tensors_def)
  show ?thesis
    using blocks_bytes_apart [OF assms(1-5) w] assms(8)
    by (auto simp: not_clobbered_def Let_def w_def [symmetric])
qed

text \<open>The address is in the buffer and aligned as the buffer's base is.\<close>

lemma reserved_in_buffer:
  assumes "reserved be T g ga" "sizes_ok be T g (ga_bufts ga)" "init_inv ga T (graph_tensors g) T'"
    "own T x" "x \<in> graph_tensors g"
  shows "\<exists>b a. tn_buffer (T' x) = Some b \<and> tn_data (T' x) = Some a \<and> bu_buft b \<in> set (ga_bufts ga) \<and>
    ggml_backend_buffer_get_base b \<le> a \<and>
    a + be_alloc_size be (bu_buft b) (T x) \<le> ggml_backend_buffer_get_base b + bu_size b \<and>
    be_alignment be (bu_buft b) dvd a - ggml_backend_buffer_get_base b"
proof -
  note rb = reserved_buffer [OF assms(1,2,5,4)]
  have "dt_alignment (ga_tallocs ga ! talloc_idx ga x) dvd hn_offset (ga_hash ga x)"
    using assms(1,4,5) by (simp add: reserved_def in_buffer_def)
  then have al: "be_alignment be (bu_buft (buffer_at ga x)) dvd hn_offset (ga_hash ga x)"
    using assms(1) rb(1,4) by (simp add: reserved_def galloc_ok_def talloc_idx_def)
  have "bu_buft (buffer_at ga x) \<in> set (ga_bufts ga)" using rb(1,4) by simp
  then show ?thesis
    using rb(5) al by (simp add: init_inv_own [OF assms(3-5)] address_of_def)
qed

text \<open>The plan fits the graph it was made for.\<close>

lemma place_fits:
  assumes "reserved be T g ga" "t \<in> graph_tensors g"
  shows "ggml_gallocr_node_needs_realloc be T ga t (place_of be T ga t)"
  by (auto simp: ggml_gallocr_node_needs_realloc_def place_of_def no_place_def)

lemma reserved_no_realloc:
  assumes "reserved be T g ga" "graph_ok T g"
  shows "\<not> ggml_gallocr_needs_realloc be T g ga"
proof -
  have na: "ga_node_allocs ga = map (node_place be T ga) (gr_nodes g)"
    "ga_leaf_allocs ga = map (place_of be T ga) (gr_leafs g)" using assms(1) by (simp_all add: reserved_def)
  have src: "s \<in> graph_tensors g" if "n \<in> set (gr_nodes g)" "Some s \<in> set (tn_src (T n))" for n s
    using graph_ok_uses [OF assms(2)] that by (auto simp: in_uses in_srcs)
  have "list_all (\<lambda>(s, ta). case s of None \<Rightarrow> True
           | Some s \<Rightarrow> ggml_gallocr_node_needs_realloc be T ga s ta)
      (zip (tn_src (T n)) (na_src (node_place be T ga n)))" if "n \<in> set (gr_nodes g)" for n
    using place_fits [OF assms(1) src [OF that]]
    by (auto simp: node_place_def zip_map2 zip_same_conv_map list_all_iff split: option.split)
  then have "list_all (\<lambda>(n, na). ggml_gallocr_node_needs_realloc be T ga n (na_dst na) \<and>
          list_all (\<lambda>(s, ta). case s of None \<Rightarrow> True
                     | Some s \<Rightarrow> ggml_gallocr_node_needs_realloc be T ga s ta)
            (zip (tn_src (T n)) (na_src na)))
        (zip (gr_nodes g) (ga_node_allocs ga))"
    using place_fits [OF assms(1)]
    by (auto simp: na zip_map2 zip_same_conv_map list_all_iff node_place_def graph_tensors_def)
  then show ?thesis by (simp add: ggml_gallocr_needs_realloc_def na)
qed

lemma alloc_graph_reserved:
  assumes "reserved be T g ga" "graph_ok T g" "sizes_ok be T g (ga_bufts ga)"
    "\<forall>t \<in> graph_tensors g. own T t \<longrightarrow> tn_buffer (T t) = None"
  shows "\<exists>T'. ggml_gallocr_alloc_graph be T g ga = Some (True, T', ga) \<and> init_inv ga T (graph_tensors g) T'"
  using reserved_no_realloc [OF assms(1,2)] init_graph_ok [OF assms]
  by (auto simp: ggml_gallocr_alloc_graph_def)

subsection \<open>The states of a graph allocator\<close>

lemma alloc_graph_result:
  assumes "galloc_ok be ga" "backend_ok be (ga_bufts ga)" "graph_ok T g" "sizes_ok be T g (ga_bufts ga)"
    "ggml_gallocr_alloc_graph be T g ga = Some (ok, T', ga')"
  shows "galloc_ok be ga' \<and> ga_bufts ga' = ga_bufts ga"
proof -
  let ?r = "if ggml_gallocr_needs_realloc be T g ga then
      (if length (ga_bufts ga) = 1 then ggml_gallocr_reserve be T g ga else Some (False, ga)) else Some (True, ga)"
  obtain ok1 ga1 where r: "?r = Some (ok1, ga1)"
    using assms(5) unfolding ggml_gallocr_alloc_graph_def by (cases ?r) auto
  have "ga' = ga1"
    using assms(5) unfolding ggml_gallocr_alloc_graph_def r
    by (cases "init_graph be ga1 g T") (auto split: if_splits)
  moreover have "galloc_ok be ga1 \<and> ga_bufts ga1 = ga_bufts ga"
  proof (cases "ggml_gallocr_needs_realloc be T g ga \<and> length (ga_bufts ga) = 1")
    case True
    then have "ggml_gallocr_reserve_n be T g None None ga = Some (ok1, ga1)"
      using r by (simp add: ggml_gallocr_reserve_def)
    then show ?thesis using reserve_n_result [OF assms(1-4)] by blast
  next
    case False
    then have "ga1 = ga" using r by (auto split: if_splits)
    then show ?thesis using assms(1) by simp
  qed
  ultimately show ?thesis by simp
qed

text \<open>A graph allocator from its construction on, planning and allocating any well-formed graphs.\<close>

inductive gallocr_run :: "backend \<Rightarrow> nat list \<Rightarrow> gallocr \<Rightarrow> bool" for be bufts where
  plan_new: "gallocr_run be bufts (ggml_gallocr_new_n be bufts)"
| plan_reserve: "gallocr_run be bufts ga \<Longrightarrow> graph_ok T g \<Longrightarrow> sizes_ok be T g bufts \<Longrightarrow>
    ggml_gallocr_reserve_n be T g node_ids leaf_ids ga = Some (ok, ga') \<Longrightarrow> gallocr_run be bufts ga'"
| plan_alloc: "gallocr_run be bufts ga \<Longrightarrow> graph_ok T g \<Longrightarrow> sizes_ok be T g bufts \<Longrightarrow>
    ggml_gallocr_alloc_graph be T g ga = Some (ok, T', ga') \<Longrightarrow> gallocr_run be bufts ga'"

lemma gallocr_run_ok:
  assumes "gallocr_run be bufts ga" "backend_ok be bufts"
  shows "galloc_ok be ga \<and> ga_bufts ga = bufts"
  using assms(1)
proof (induction rule: gallocr_run.induct)
  case plan_new
  then show ?case using galloc_new_ok [OF assms(2)]
    by (simp add: ggml_gallocr_new_n_def split: prod.split)
next
  case (plan_reserve ga T g node_ids leaf_ids ok ga')
  then show ?case using reserve_n_result [of be ga T g node_ids leaf_ids ok ga'] assms(2) by simp
next
  case (plan_alloc ga T g ok T' ga')
  then show ?case using alloc_graph_result [of be ga T g ok T' ga'] assms(2) by simp
qed

end
