(* ===== verification/HashSet.thy ===== *)
theory HashSet
  imports Prelude
begin

unbundle bit_operations_syntax

text \<open>
  The hash set of tensors of \<^verbatim>\<open>ggml-impl.h\<close> and \<^verbatim>\<open>ggml.c\<close>: open addressing with linear probing over
  the addresses of the tensors, a bitset of 32-bit words for the slots in use, no removal except a
  reset of the whole table. Its users (the graph allocator, the graph builder) keep arrays indexed
  by the slots; what they rely on is that a key keeps its slot.

  A key is the address of a tensor. The aborts \<open>GGML_ABORT\<close> of a full table are \<open>None\<close>; the loops
  stop when the probe comes back to its first slot, which the lemmas prove it does.
\<close>

subsection \<open>The bitset\<close>

definition ggml_bitset_size :: "nat \<Rightarrow> nat" where
  "ggml_bitset_size n = drop_bit 5 (n + 31)"

definition bitset_bit :: "nat \<Rightarrow> 32 word" where
  "bitset_bit i = push_bit (i AND 31) 1"

definition ggml_bitset_get :: "32 word list \<Rightarrow> nat \<Rightarrow> bool" where
  "ggml_bitset_get bs i = (bs ! drop_bit 5 i AND bitset_bit i \<noteq> 0)"

definition ggml_bitset_set :: "32 word list \<Rightarrow> nat \<Rightarrow> 32 word list" where
  "ggml_bitset_set bs i = bs[drop_bit 5 i := bs ! drop_bit 5 i OR bitset_bit i]"

definition ggml_bitset_clear :: "32 word list \<Rightarrow> nat \<Rightarrow> 32 word list" where
  "ggml_bitset_clear bs i = bs[drop_bit 5 i := bs ! drop_bit 5 i AND NOT (bitset_bit i)]"

lemma word_index: "drop_bit 5 i = i div 32" "(i :: nat) AND 31 = i mod 32"
proof -
  show "drop_bit 5 i = i div 32" by (simp add: drop_bit_eq_div)
  have "i AND 31 = i AND mask 5" by (simp add: mask_eq_exp_minus_1)
  then show "i AND 31 = i mod 32" by (simp add: take_bit_eq_mask [symmetric] take_bit_eq_mod)
qed

lemma bit_single: "bit (bitset_bit i) m \<longleftrightarrow> m = i mod 32"
proof -
  have "i mod 32 < 32" by simp
  then show ?thesis unfolding bitset_bit_def word_index by (auto simp: bit_exp_iff possible_bit_def)
qed

lemma bitset_get_bit: "ggml_bitset_get bs i \<longleftrightarrow> bit (bs ! (i div 32)) (i mod 32)"
proof -
  have "w AND bitset_bit i = 0 \<longleftrightarrow> \<not> bit w (i mod 32)" for w :: "32 word"
  proof
    assume "w AND bitset_bit i = 0"
    then have "\<not> bit (w AND bitset_bit i) (i mod 32)" by simp
    then show "\<not> bit w (i mod 32)" by (simp add: bit_and_iff bit_single)
  next
    assume "\<not> bit w (i mod 32)"
    then show "w AND bitset_bit i = 0" by (intro bit_word_eqI) (auto simp: bit_and_iff bit_single)
  qed
  then show ?thesis by (simp add: ggml_bitset_get_def word_index)
qed

lemma div_mod_32: "(i :: nat) = j \<longleftrightarrow> i div 32 = j div 32 \<and> i mod 32 = j mod 32"
  by (metis div_mult_mod_eq)

lemma bitset_get_set:
  assumes "i < 32 * length bs"
  shows "ggml_bitset_get (ggml_bitset_set bs i) j \<longleftrightarrow> j = i \<or> ggml_bitset_get bs j"
proof -
  have l: "i div 32 < length bs" using assms by (simp add: less_mult_imp_div_less mult.commute)
  show ?thesis
    unfolding bitset_get_bit ggml_bitset_set_def word_index
    using l by (cases "j div 32 = i div 32") (auto simp: bit_or_iff bit_single div_mod_32 [of j i])
qed

lemma bitset_get_clear:
  assumes "i < 32 * length bs"
  shows "ggml_bitset_get (ggml_bitset_clear bs i) j \<longleftrightarrow> j \<noteq> i \<and> ggml_bitset_get bs j"
proof -
  have l: "i div 32 < length bs" using assms by (simp add: less_mult_imp_div_less mult.commute)
  have "j mod 32 < 32" by simp
  show ?thesis
    unfolding bitset_get_bit ggml_bitset_clear_def word_index
    using l \<open>j mod 32 < 32\<close>
    by (cases "j div 32 = i div 32") (auto simp: bit_and_iff bit_not_iff bit_single div_mod_32 [of j i])
qed

lemma bitset_zero: "j < 32 * n \<Longrightarrow> \<not> ggml_bitset_get (replicate n 0) j"
  by (simp add: bitset_get_bit less_mult_imp_div_less mult.commute)

lemma bitset_size_covers: "n \<le> 32 * ggml_bitset_size n"
  by (simp add: ggml_bitset_size_def word_index)

subsection \<open>The set\<close>

record hash_set =
  hs_size :: nat
  hs_used :: "32 word list"
  hs_keys :: "nat list"

definition hashset_full :: nat where
  "hashset_full = 18446744073709551615"

definition hashset_already_exists :: nat where
  "hashset_already_exists = 18446744073709551614"

text \<open>The next primes after the powers of two, searched by halving.\<close>

definition hash_primes :: "nat list" where
  "hash_primes = [2, 3, 5, 11, 17, 37, 67, 131, 257, 521, 1031, 2053, 4099, 8209, 16411, 32771,
     65537, 131101, 262147, 524309, 1048583, 2097169, 4194319, 8388617, 16777259, 33554467,
     67108879, 134217757, 268435459, 536870923, 1073741827, 2147483659]"

function prime_search :: "nat \<Rightarrow> nat \<Rightarrow> nat \<Rightarrow> nat" where
  "prime_search min_sz l r =
     (if l < r then
        (let m = (l + r) div 2 in
         if hash_primes ! m < min_sz then prime_search min_sz (m + 1) r else prime_search min_sz l m)
      else l)"
  by auto
termination
  by (relation "measure (\<lambda>(_, l, r). r - l)") auto

declare prime_search.simps [simp del]

definition ggml_hash_size :: "nat \<Rightarrow> nat" where
  "ggml_hash_size min_sz =
     (let l = prime_search min_sz 0 (length hash_primes)
      in if l < length hash_primes then hash_primes ! l else min_sz OR 1)"

text \<open>The memory of the keys is not initialised by the code; a key is read only under its bit.\<close>

definition ggml_hash_set_new :: "nat \<Rightarrow> hash_set" where
  "ggml_hash_set_new n =
     (let sz = ggml_hash_size n in
      \<lparr>hs_size = sz, hs_used = replicate (ggml_bitset_size sz) 0, hs_keys = replicate sz 0\<rparr>)"

definition ggml_hash_set_reset :: "hash_set \<Rightarrow> hash_set" where
  "ggml_hash_set_reset hs = hs \<lparr>hs_used := replicate (ggml_bitset_size (hs_size hs)) 0\<rparr>"

definition ggml_hash :: "nat \<Rightarrow> nat" where
  "ggml_hash p = drop_bit 4 p"

partial_function (option) hash_find_loop :: "hash_set \<Rightarrow> nat \<Rightarrow> nat \<Rightarrow> nat \<Rightarrow> nat option" where
  "hash_find_loop hs key h i =
     (if ggml_bitset_get (hs_used hs) i \<and> hs_keys hs ! i \<noteq> key then
        (let i' = (i + 1) mod hs_size hs in
         if i' = h then Some hashset_full else hash_find_loop hs key h i')
      else Some i)"

definition ggml_hash_find :: "hash_set \<Rightarrow> nat \<Rightarrow> nat option" where
  "ggml_hash_find hs key = (let h = ggml_hash key mod hs_size hs in hash_find_loop hs key h h)"

definition ggml_hash_contains :: "hash_set \<Rightarrow> nat \<Rightarrow> bool option" where
  "ggml_hash_contains hs key =
     map_option (\<lambda>i. i \<noteq> hashset_full \<and> ggml_bitset_get (hs_used hs) i) (ggml_hash_find hs key)"

definition use_slot :: "nat \<Rightarrow> nat \<Rightarrow> hash_set \<Rightarrow> hash_set" where
  "use_slot i key hs = hs \<lparr>hs_used := ggml_bitset_set (hs_used hs) i, hs_keys := (hs_keys hs)[i := key]\<rparr>"

text \<open>The two insertions share their loop; \<open>present i\<close> is what is returned for a key already there.\<close>

partial_function (option) insert_loop ::
  "(nat \<Rightarrow> nat) \<Rightarrow> hash_set \<Rightarrow> nat \<Rightarrow> nat \<Rightarrow> nat \<Rightarrow> (nat \<times> hash_set) option" where
  "insert_loop present hs key h i =
     (if \<not> ggml_bitset_get (hs_used hs) i then Some (i, use_slot i key hs)
      else if hs_keys hs ! i = key then Some (present i, hs)
      else (let i' = (i + 1) mod hs_size hs in
            if i' = h then None else insert_loop present hs key h i'))"

definition ggml_hash_insert :: "hash_set \<Rightarrow> nat \<Rightarrow> (nat \<times> hash_set) option" where
  "ggml_hash_insert hs key =
     (let h = ggml_hash key mod hs_size hs in insert_loop (\<lambda>_. hashset_already_exists) hs key h h)"

definition ggml_hash_find_or_insert :: "hash_set \<Rightarrow> nat \<Rightarrow> (nat \<times> hash_set) option" where
  "ggml_hash_find_or_insert hs key =
     (let h = ggml_hash key mod hs_size hs in insert_loop (\<lambda>i. i) hs key h h)"

subsection \<open>The probe sequence\<close>

lemma add_mod_if:
  fixes h k n :: nat
  assumes "h < n" "k < n"
  shows "(h + k) mod n = (if h + k < n then h + k else h + k - n)"
  using assms by (simp add: mod_if)

lemma probe_inj:
  assumes "h < n" "j < n" "k < n" "(h + j) mod n = (h + k) mod n"
  shows "j = (k :: nat)"
  using assms by (simp add: add_mod_if split: if_splits)

lemma probe_surj:
  assumes "h < n" "i < (n :: nat)"
  obtains k where "k < n" "(h + k) mod n = i"
proof (cases "h \<le> i")
  case True
  then show ?thesis using that [of "i - h"] assms by simp
next
  case False
  then have "n + i - h < n" "(h + (n + i - h)) mod n = i" using assms by simp_all
  then show ?thesis using that by blast
qed

lemma probe_next: "((h + k) mod n + 1) mod n = (h + Suc k) mod (n :: nat)"
  by (simp add: mod_Suc_eq)

definition slot_busy :: "hash_set \<Rightarrow> nat \<Rightarrow> nat \<Rightarrow> bool" where
  "slot_busy hs key i \<longleftrightarrow> ggml_bitset_get (hs_used hs) i \<and> hs_keys hs ! i \<noteq> key"

text \<open>A loop that moves on while the slot is busy reaches the first slot that is not.\<close>

lemma probe_walk:
  assumes "\<And>k. Suc k < n \<Longrightarrow> busy k \<Longrightarrow> F (s k) = F (s (Suc k))" "\<forall>j < m. busy j" "m < (n :: nat)"
  shows "F (s 0) = F (s m)"
  using assms(2,3) by (induction m) (use assms(1) in auto)

lemma probe_step:
  assumes "h < n" "Suc k < n"
  shows "((h + k) mod n + 1) mod n = (h + Suc k) mod n" "(h + Suc k) mod n \<noteq> h"
  using assms probe_inj [of h n "Suc k" 0] by (auto simp: mod_Suc_eq)

lemma probe_wrap:
  fixes h n :: nat
  assumes "h < n"
  shows "((h + (n - 1)) mod n + 1) mod n = h"
proof -
  have "((h + (n - 1)) mod n + 1) mod n = (h + (n - 1) + 1) mod n" by (rule mod_add_left_eq)
  also have "h + (n - 1) + 1 = h + n" using assms by simp
  finally show ?thesis using assms by simp
qed

lemma insert_loop_walk:
  assumes "h < hs_size hs" "m < hs_size hs" "\<forall>j < m. slot_busy hs key ((h + j) mod hs_size hs)"
  shows "insert_loop present hs key h h = insert_loop present hs key h ((h + m) mod hs_size hs)"
proof -
  have "insert_loop present hs key h ((h + 0) mod hs_size hs) = insert_loop present hs key h ((h + m) mod hs_size hs)"
  proof (rule probe_walk [OF _ assms(3,2)])
    fix k assume k: "Suc k < hs_size hs" "slot_busy hs key ((h + k) mod hs_size hs)"
    show "insert_loop present hs key h ((h + k) mod hs_size hs) =
        insert_loop present hs key h ((h + Suc k) mod hs_size hs)"
      using k(2) probe_step [OF assms(1) k(1)]
      by (subst insert_loop.simps) (simp only: slot_busy_def Let_def if_False not_True_eq_False)
  qed
  then show ?thesis using assms(1) by simp
qed

lemma find_loop_walk:
  assumes "h < hs_size hs" "m < hs_size hs" "\<forall>j < m. slot_busy hs key ((h + j) mod hs_size hs)"
  shows "hash_find_loop hs key h h = hash_find_loop hs key h ((h + m) mod hs_size hs)"
proof -
  have "hash_find_loop hs key h ((h + 0) mod hs_size hs) = hash_find_loop hs key h ((h + m) mod hs_size hs)"
  proof (rule probe_walk [OF _ assms(3,2)])
    fix k assume k: "Suc k < hs_size hs" "slot_busy hs key ((h + k) mod hs_size hs)"
    show "hash_find_loop hs key h ((h + k) mod hs_size hs) = hash_find_loop hs key h ((h + Suc k) mod hs_size hs)"
      using k(2) probe_step [OF assms(1) k(1)]
      by (subst hash_find_loop.simps) (simp only: slot_busy_def Let_def if_False if_True simp_thms)
  qed
  then show ?thesis using assms(1) by simp
qed

lemma insert_loop_run:
  assumes "h < hs_size hs" "m < hs_size hs" "\<forall>j < m. slot_busy hs key ((h + j) mod hs_size hs)"
    "i = (h + m) mod hs_size hs" "\<not> slot_busy hs key i"
  shows "insert_loop present hs key h h =
    (if ggml_bitset_get (hs_used hs) i then Some (present i, hs) else Some (i, use_slot i key hs))"
  unfolding insert_loop_walk [OF assms(1-3)] assms(4) [symmetric]
  using assms(5) by (subst insert_loop.simps) (simp add: slot_busy_def)

lemma find_loop_run:
  assumes "h < hs_size hs" "m < hs_size hs" "\<forall>j < m. slot_busy hs key ((h + j) mod hs_size hs)"
    "i = (h + m) mod hs_size hs" "\<not> slot_busy hs key i"
  shows "hash_find_loop hs key h h = Some i"
  unfolding find_loop_walk [OF assms(1-3)] assms(4) [symmetric]
  using assms(5) by (subst hash_find_loop.simps) (auto simp: slot_busy_def)

lemma loops_full:
  assumes "h < hs_size hs" "\<forall>j < hs_size hs. slot_busy hs key ((h + j) mod hs_size hs)"
  shows "insert_loop present hs key h h = None" "hash_find_loop hs key h h = Some hashset_full"
proof -
  let ?l = "hs_size hs - 1"
  have l1: "?l < hs_size hs" using assms(1) by simp
  have l: "?l < hs_size hs" "\<forall>j < ?l. slot_busy hs key ((h + j) mod hs_size hs)"
    "slot_busy hs key ((h + ?l) mod hs_size hs)"
    using l1 assms(2) by (simp, simp, blast)
  note w = probe_wrap [OF assms(1)]
  show "insert_loop present hs key h h = None"
    unfolding insert_loop_walk [OF assms(1) l(1,2)]
    using l(3) by (subst insert_loop.simps) (simp only: slot_busy_def Let_def if_False if_True simp_thms w)
  show "hash_find_loop hs key h h = Some hashset_full"
    unfolding find_loop_walk [OF assms(1) l(1,2)]
    using l(3) by (subst hash_find_loop.simps) (simp only: slot_busy_def Let_def if_False if_True simp_thms w)
qed

subsection \<open>Every key has one slot\<close>

text \<open>
  A key is found along its probe sequence: the slots before its own are busy with other keys.
\<close>

definition on_path :: "hash_set \<Rightarrow> nat \<Rightarrow> bool" where
  "on_path hs i \<longleftrightarrow> (\<exists>k < hs_size hs. i = (ggml_hash (hs_keys hs ! i) + k) mod hs_size hs \<and>
     (\<forall>j < k. slot_busy hs (hs_keys hs ! i) ((ggml_hash (hs_keys hs ! i) + j) mod hs_size hs)))"

definition hash_ok :: "hash_set \<Rightarrow> bool" where
  "hash_ok hs \<longleftrightarrow> 0 < hs_size hs \<and> length (hs_keys hs) = hs_size hs \<and>
     hs_size hs \<le> 32 * length (hs_used hs) \<and>
     (\<forall>i < hs_size hs. ggml_bitset_get (hs_used hs) i \<longrightarrow> on_path hs i)"

definition slot_of :: "hash_set \<Rightarrow> nat \<Rightarrow> nat option" where
  "slot_of hs key =
     List.find (\<lambda>i. ggml_bitset_get (hs_used hs) i \<and> hs_keys hs ! i = key) [0..<hs_size hs]"

lemma hash_mod_path: "(ggml_hash key mod n + j) mod n = (ggml_hash key + j) mod n"
  by (simp add: mod_add_left_eq)

lemma key_run:
  assumes "hash_ok hs" "i < hs_size hs" "ggml_bitset_get (hs_used hs) i" "hs_keys hs ! i = key"
  shows "insert_loop present hs key (ggml_hash key mod hs_size hs) (ggml_hash key mod hs_size hs) =
      Some (present i, hs)"
    "hash_find_loop hs key (ggml_hash key mod hs_size hs) (ggml_hash key mod hs_size hs) = Some i"
proof -
  let ?h = "ggml_hash key mod hs_size hs"
  have "on_path hs i" using assms(1-3) by (simp add: hash_ok_def)
  then obtain k where k: "k < hs_size hs" "i = (ggml_hash key + k) mod hs_size hs"
    "\<forall>j < k. slot_busy hs key ((ggml_hash key + j) mod hs_size hs)"
    by (auto simp: on_path_def assms(4))
  have h: "?h < hs_size hs" using assms(2) by simp
  have i: "i = (?h + k) mod hs_size hs" "\<forall>j < k. slot_busy hs key ((?h + j) mod hs_size hs)"
    "\<not> slot_busy hs key i" using k assms(4) by (simp_all add: hash_mod_path slot_busy_def)
  show "insert_loop present hs key ?h ?h = Some (present i, hs)"
    using insert_loop_run [OF h k(1) i(2,1,3)] assms(3) by simp
  show "hash_find_loop hs key ?h ?h = Some i" by (rule find_loop_run [OF h k(1) i(2,1,3)])
qed

lemma slot_of_some:
  "slot_of hs key = Some i \<Longrightarrow> i < hs_size hs \<and> ggml_bitset_get (hs_used hs) i \<and> hs_keys hs ! i = key"
  by (auto simp: slot_of_def find_Some_iff)

lemma slot_unique:
  assumes "hash_ok hs" "i < hs_size hs" "ggml_bitset_get (hs_used hs) i" "hs_keys hs ! i = key"
  shows "slot_of hs key = Some i"
proof -
  have "slot_of hs key \<noteq> None" using assms(2-4) by (auto simp: slot_of_def find_None_iff)
  then obtain l where l: "slot_of hs key = Some l" by blast
  then have "l < hs_size hs \<and> ggml_bitset_get (hs_used hs) l \<and> hs_keys hs ! l = key" by (rule slot_of_some)
  then have "Some i = Some l" using key_run(2) [OF assms] key_run(2) [of hs l key] assms(1) by simp
  then show ?thesis using l by simp
qed

lemma slot_of_none: "slot_of hs key = None \<longleftrightarrow>
    (\<forall>i < hs_size hs. ggml_bitset_get (hs_used hs) i \<longrightarrow> hs_keys hs ! i \<noteq> key)"
  by (auto simp: slot_of_def find_None_iff)

lemma new_key_run:
  assumes "hash_ok hs" "slot_of hs key = None" "i0 < hs_size hs" "\<not> ggml_bitset_get (hs_used hs) i0"
  obtains i where "i < hs_size hs" "\<not> ggml_bitset_get (hs_used hs) i"
    "\<And>present. insert_loop present hs key (ggml_hash key mod hs_size hs) (ggml_hash key mod hs_size hs) =
      Some (i, use_slot i key hs)"
    "hash_find_loop hs key (ggml_hash key mod hs_size hs) (ggml_hash key mod hs_size hs) = Some i"
    "hash_ok (use_slot i key hs)"
proof -
  let ?n = "hs_size hs" and ?h = "ggml_hash key mod hs_size hs"
  let ?free = "\<lambda>m. m < ?n \<and> \<not> ggml_bitset_get (hs_used hs) ((?h + m) mod ?n)"
  have n: "0 < ?n" using assms(3) by simp
  then have h: "?h < ?n" by simp
  obtain k0 where "k0 < ?n" "(?h + k0) mod ?n = i0" using probe_surj [OF h assms(3)] by blast
  then have "?free k0" using assms(4) by simp
  then have m: "?free (LEAST m. ?free m)" by (rule LeastI)
  define m where "m = (LEAST m. ?free m)"
  define i where "i = (?h + m) mod ?n"
  have i: "i < ?n" "\<not> ggml_bitset_get (hs_used hs) i" "m < ?n" using m n by (simp_all add: i_def m_def)
  have busy: "slot_busy hs key ((?h + j) mod ?n)" if "j < m" for j
  proof -
    have "\<not> ?free j" using not_less_Least that unfolding m_def by blast
    then have "ggml_bitset_get (hs_used hs) ((?h + j) mod ?n)" using that i(3) by simp
    then show ?thesis using assms(2) n by (simp add: slot_busy_def slot_of_none)
  qed
  have nb: "\<not> slot_busy hs key i" using i(2) by (simp add: slot_busy_def)
  have b: "\<forall>j < m. slot_busy hs key ((?h + j) mod ?n)" using busy by blast
  let ?hs' = "use_slot i key hs"
  have len: "length (hs_keys hs) = ?n" "?n \<le> 32 * length (hs_used hs)" using assms(1) by (simp_all add: hash_ok_def)
  have used': "ggml_bitset_get (hs_used ?hs') j \<longleftrightarrow> j = i \<or> ggml_bitset_get (hs_used hs) j" for j
    using bitset_get_set [of i "hs_used hs" j] i(1) len by (simp add: use_slot_def)
  have keys': "hs_keys ?hs' ! j = (if j = i then key else hs_keys hs ! j)" for j
    using len(1) i(1) by (simp add: use_slot_def)
  have size': "hs_size ?hs' = ?n" by (simp add: use_slot_def)
  have busy': "slot_busy ?hs' q j" if "slot_busy hs q j" for q j
    using that i(2) by (auto simp: slot_busy_def used' keys')
  have "on_path ?hs' j" if "j < ?n" "ggml_bitset_get (hs_used ?hs') j" for j
  proof (cases "j = i")
    case True
    then show ?thesis unfolding on_path_def size' keys'
      using i(3) b busy' by (intro exI [of _ m]) (simp add: i_def hash_mod_path)
  next
    case False
    then have "on_path hs j" using that assms(1) by (simp add: used' hash_ok_def)
    then show ?thesis using False busy' unfolding on_path_def size' keys' by auto
  qed
  then have "hash_ok ?hs'" using assms(1) len n by (simp add: hash_ok_def size') (simp add: use_slot_def ggml_bitset_set_def)
  then show ?thesis
    using that [OF i(1,2)] insert_loop_run [OF h i(3) b i_def nb] find_loop_run [OF h i(3) b i_def nb] i(2) by simp
qed

subsection \<open>The operations\<close>

lemma hash_ok_range: "hash_ok hs \<Longrightarrow> ggml_hash key mod hs_size hs < hs_size hs"
  by (simp add: hash_ok_def)

lemma all_busy:
  assumes "hash_ok hs" "slot_of hs key = None" "\<forall>i < hs_size hs. ggml_bitset_get (hs_used hs) i"
  shows "\<forall>j < hs_size hs. slot_busy hs key ((ggml_hash key mod hs_size hs + j) mod hs_size hs)"
  using assms by (simp add: slot_busy_def slot_of_none hash_ok_def)

text \<open>
  What each operation returns: for a key that has a slot that slot (or "already exists"), for a new
  key a slot that was free, and in a full table the abort or \<open>GGML_HASHSET_FULL\<close>.
\<close>

lemma find_or_insert_cases:
  assumes "hash_ok hs"
  obtains (present) i where "slot_of hs key = Some i" "ggml_hash_find_or_insert hs key = Some (i, hs)"
      "ggml_hash_insert hs key = Some (hashset_already_exists, hs)" "ggml_hash_find hs key = Some i"
  | (added) i where "slot_of hs key = None" "i < hs_size hs" "\<not> ggml_bitset_get (hs_used hs) i"
      "ggml_hash_find_or_insert hs key = Some (i, use_slot i key hs)"
      "ggml_hash_insert hs key = Some (i, use_slot i key hs)"
      "ggml_hash_find hs key = Some i" "hash_ok (use_slot i key hs)"
  | (full) "slot_of hs key = None" "\<forall>i < hs_size hs. ggml_bitset_get (hs_used hs) i"
      "ggml_hash_find_or_insert hs key = None" "ggml_hash_insert hs key = None"
      "ggml_hash_find hs key = Some hashset_full"
proof (cases "slot_of hs key")
  case (Some i)
  then have "i < hs_size hs" "ggml_bitset_get (hs_used hs) i" "hs_keys hs ! i = key"
    using slot_of_some by blast+
  from key_run [OF assms this] show ?thesis
    using present [OF Some] by (simp add: ggml_hash_find_or_insert_def ggml_hash_insert_def ggml_hash_find_def)
next
  case None
  show ?thesis
  proof (cases "\<forall>i < hs_size hs. ggml_bitset_get (hs_used hs) i")
    case True
    note f = loops_full [OF hash_ok_range [OF assms] all_busy [OF assms None True]]
    show ?thesis
      by (rule full [OF None True])
        (simp_all add: ggml_hash_find_or_insert_def ggml_hash_insert_def ggml_hash_find_def f)
  next
    case False
    then obtain i0 where "i0 < hs_size hs" "\<not> ggml_bitset_get (hs_used hs) i0" by blast
    from new_key_run [OF assms None this] obtain i where i: "i < hs_size hs" "\<not> ggml_bitset_get (hs_used hs) i"
      "\<And>present. insert_loop present hs key (ggml_hash key mod hs_size hs) (ggml_hash key mod hs_size hs) =
        Some (i, use_slot i key hs)"
      "hash_find_loop hs key (ggml_hash key mod hs_size hs) (ggml_hash key mod hs_size hs) = Some i"
      "hash_ok (use_slot i key hs)" by blast
    show ?thesis
      by (rule added [OF None i(1,2)])
        (simp_all add: ggml_hash_find_or_insert_def ggml_hash_insert_def ggml_hash_find_def i(3-5))
  qed
qed

lemma contains_iff:
  assumes "hash_ok hs" "hs_size hs < hashset_full"
  shows "ggml_hash_contains hs key = Some (slot_of hs key \<noteq> None)"
  using assms(1)
proof (cases rule: find_or_insert_cases [where key = key])
  case (present i)
  then have "i < hs_size hs" "ggml_bitset_get (hs_used hs) i" using slot_of_some by blast+
  then show ?thesis using present assms(2) by (simp add: ggml_hash_contains_def)
qed (use assms(2) in \<open>auto simp: ggml_hash_contains_def\<close>)

lemma slot_of_use:
  assumes "hash_ok hs" "hash_ok (use_slot i key hs)" "slot_of hs key = None" "i < hs_size hs"
    "\<not> ggml_bitset_get (hs_used hs) i"
  shows "slot_of (use_slot i key hs) p = (if p = key then Some i else slot_of hs p)"
proof -
  have len: "i < 32 * length (hs_used hs)" "i < length (hs_keys hs)" using assms(1,4) by (auto simp: hash_ok_def)
  have s: "hs_size (use_slot i key hs) = hs_size hs"
    "\<And>j. ggml_bitset_get (hs_used (use_slot i key hs)) j \<longleftrightarrow> j = i \<or> ggml_bitset_get (hs_used hs) j"
    "\<And>j. hs_keys (use_slot i key hs) ! j = (if j = i then key else hs_keys hs ! j)"
    using len by (auto simp: use_slot_def bitset_get_set nth_list_update)
  show ?thesis
  proof (cases "p = key")
    case True
    then show ?thesis using slot_unique [OF assms(2), of i key] assms(4) by (simp add: s)
  next
    case False
    show ?thesis
    proof (cases "slot_of hs p")
      case None
      then have "slot_of (use_slot i key hs) p = None"
        using False unfolding slot_of_none s by auto
      then show ?thesis using None False by simp
    next
      case (Some j)
      then have j: "j < hs_size hs" "ggml_bitset_get (hs_used hs) j" "hs_keys hs ! j = p"
        using slot_of_some by blast+
      then have "j \<noteq> i" using assms(5) by blast
      then show ?thesis using slot_unique [OF assms(2), of j p] j False Some by (simp add: s)
    qed
  qed
qed

subsection \<open>An array indexed by slots is a map\<close>

text \<open>
  \<open>ggml_gallocr_hash_get\<close> and the builders use the set as a map: \<open>vals\<close> is an array of \<open>hs_size\<close>
  entries, initialised to \<open>d\<close>, and the entry of a key is the one at its slot.
\<close>

definition table_ok :: "hash_set \<Rightarrow> 'v list \<Rightarrow> 'v \<Rightarrow> bool" where
  "table_ok hs vals d \<longleftrightarrow> hash_ok hs \<and> length vals = hs_size hs \<and>
     (\<forall>i < hs_size hs. \<not> ggml_bitset_get (hs_used hs) i \<longrightarrow> vals ! i = d)"

definition table_map :: "hash_set \<Rightarrow> 'v list \<Rightarrow> 'v \<Rightarrow> nat \<Rightarrow> 'v" where
  "table_map hs vals d p = (case slot_of hs p of None \<Rightarrow> d | Some i \<Rightarrow> vals ! i)"

lemma table_access:
  assumes "table_ok hs vals d" "ggml_hash_find_or_insert hs p = Some (i, hs')"
  shows "i < length vals" "vals ! i = table_map hs vals d p"
    "table_ok hs' (vals[i := v]) d" "table_map hs' (vals[i := v]) d = (table_map hs vals d)(p := v)"
proof -
  have ok: "hash_ok hs" "length vals = hs_size hs" using assms(1) by (simp_all add: table_ok_def)
  have "i < length vals \<and> vals ! i = table_map hs vals d p \<and>
    table_ok hs' (vals[i := v]) d \<and> table_map hs' (vals[i := v]) d = (table_map hs vals d)(p := v)"
    using ok(1)
  proof (cases rule: find_or_insert_cases [where key = p])
    case (present j)
    then have e: "j = i" "hs' = hs" using assms(2) by auto
    have i: "i < hs_size hs" "ggml_bitset_get (hs_used hs) i" "hs_keys hs ! i = p"
      using slot_of_some [OF present(1)] e by auto
    have inj: "slot_of hs q = Some i \<longleftrightarrow> q = p" for q
      using slot_of_some [of hs q i] i present(1) e by auto
    have "table_map hs (vals[i := v]) d q = ((table_map hs vals d)(p := v)) q" for q
      using inj [of q] i(1) ok(2) present(1) e
      by (cases "slot_of hs q") (auto simp: table_map_def nth_list_update)
    then show ?thesis using assms(1) i present(1) e ok(2)
      by (auto simp: table_ok_def table_map_def nth_list_update)
  next
    case (added j)
    then have e: "j = i" "hs' = use_slot i p hs" using assms(2) by auto
    note so = slot_of_use [OF ok(1) added(7,1,2,3), unfolded e(1)]
    have ni: "slot_of hs q \<noteq> Some i" for q using slot_of_some [of hs q i] added(3) e by auto
    have "table_map hs' (vals[i := v]) d q = ((table_map hs vals d)(p := v)) q" for q
    proof (cases "q = p")
      case True
      then show ?thesis using added(2) ok(2) by (simp add: table_map_def e so)
    next
      case False
      then show ?thesis using ni [of q] by (cases "slot_of hs q") (auto simp: table_map_def e so)
    qed
    moreover have "table_ok hs' (vals[i := v]) d"
    proof -
      have "ggml_bitset_get (hs_used (use_slot i p hs)) l \<longleftrightarrow> l = i \<or> ggml_bitset_get (hs_used hs) l" for l
        using bitset_get_set [of i "hs_used hs" l] added(2) ok(1) e by (simp add: use_slot_def hash_ok_def)
      then show ?thesis using assms(1) added(2,7) e ok(2)
        by (auto simp: table_ok_def nth_list_update) (simp_all add: use_slot_def)
    qed
    ultimately show ?thesis using assms(1) added(1-3) e ok(2) by (auto simp: table_ok_def table_map_def)
  next
    case full
    then show ?thesis using assms(2) by simp
  qed
  then show "i < length vals" "vals ! i = table_map hs vals d p"
    "table_ok hs' (vals[i := v]) d" "table_map hs' (vals[i := v]) d = (table_map hs vals d)(p := v)" by auto
qed

lemma table_new:
  assumes "0 < ggml_hash_size n"
  shows "table_ok (ggml_hash_set_new n) (replicate (ggml_hash_size n) d) d"
    "table_map (ggml_hash_set_new n) (replicate (ggml_hash_size n) d) d = (\<lambda>_. d)"
proof -
  have z: "\<not> ggml_bitset_get (hs_used (ggml_hash_set_new n)) j" if "j < ggml_hash_size n" for j
    using bitset_zero [of j "ggml_bitset_size (ggml_hash_size n)"] bitset_size_covers [of "ggml_hash_size n"] that
    by (simp add: ggml_hash_set_new_def Let_def)
  then show "table_ok (ggml_hash_set_new n) (replicate (ggml_hash_size n) d) d"
    using assms bitset_size_covers [of "ggml_hash_size n"]
    by (simp add: table_ok_def hash_ok_def) (simp add: ggml_hash_set_new_def Let_def)
  have "slot_of (ggml_hash_set_new n) p = None" for p
    using z by (simp add: slot_of_none) (simp add: ggml_hash_set_new_def Let_def)
  then show "table_map (ggml_hash_set_new n) (replicate (ggml_hash_size n) d) d = (\<lambda>_. d)"
    by (simp add: table_map_def fun_eq_iff)
qed

subsection \<open>Sizes: a large enough table is never full\<close>

lemma prime_search_bound:
  assumes "l \<le> r" "r \<le> length hash_primes" "r < length hash_primes \<longrightarrow> min_sz \<le> hash_primes ! r"
    "\<forall>k < l. hash_primes ! k < min_sz"
  defines "m \<equiv> prime_search min_sz l r"
  shows "m \<le> length hash_primes \<and> (m < length hash_primes \<longrightarrow> min_sz \<le> hash_primes ! m) \<and>
    (\<forall>k < m. hash_primes ! k < min_sz)"
  using assms(1-4) unfolding m_def
proof (induction min_sz l r rule: prime_search.induct)
  case (1 min_sz l r)
  show ?case
  proof (cases "l < r")
    case False
    then show ?thesis using "1.prems" by (simp add: prime_search.simps)
  next
    case True
    let ?m = "(l + r) div 2"
    have m: "l \<le> ?m" "?m < r" using True by auto
    have sorted: "\<forall>k < length hash_primes. \<forall>j \<le> k. hash_primes ! j \<le> hash_primes ! k"
    proof -
      have "sorted hash_primes" by (simp add: hash_primes_def)
      then show ?thesis by (simp add: sorted_nth_mono)
    qed
    show ?thesis
    proof (cases "hash_primes ! ?m < min_sz")
      case lt: True
      have below: "hash_primes ! k < min_sz" if "k < ?m + 1" for k
      proof -
        have "hash_primes ! k \<le> hash_primes ! ?m" using sorted that m(2) "1.prems"(2) by simp
        then show ?thesis using lt by simp
      qed
      have "prime_search min_sz l r = prime_search min_sz (?m + 1) r"
        using True lt by (subst prime_search.simps) (simp add: Let_def)
      then show ?thesis using "1.IH"(1) [OF True refl lt] "1.prems"(2,3) m below by simp
    next
      case False
      have "prime_search min_sz l r = prime_search min_sz l ?m"
        using True False by (subst prime_search.simps) (simp add: Let_def)
      then show ?thesis using "1.IH"(2) [OF True refl False] "1.prems"(2,4) m False by simp
    qed
  qed
qed

lemma hash_size_ge: "min_sz \<le> ggml_hash_size min_sz" "0 < ggml_hash_size min_sz"
proof -
  let ?m = "prime_search min_sz 0 (length hash_primes)"
  have m: "?m < length hash_primes \<longrightarrow> min_sz \<le> hash_primes ! ?m"
    using prime_search_bound [of 0 "length hash_primes" min_sz] by simp
  have o: "min_sz OR Suc 0 = min_sz + (if even min_sz then 1 else 0)"
    using or_one_eq [of min_sz] by simp
  have "\<forall>p \<in> set hash_primes. 0 < p" by (simp add: hash_primes_def)
  then have pos: "?m < length hash_primes \<longrightarrow> 0 < hash_primes ! ?m" by simp
  show "min_sz \<le> ggml_hash_size min_sz" using m by (simp add: ggml_hash_size_def Let_def o)
  show "0 < ggml_hash_size min_sz" using pos by (auto simp: ggml_hash_size_def Let_def o odd_pos)
qed

definition key_set :: "hash_set \<Rightarrow> nat set" where
  "key_set hs = {p. slot_of hs p \<noteq> None}"

lemma key_set_alt: "key_set hs = (!) (hs_keys hs) ` {i. i < hs_size hs \<and> ggml_bitset_get (hs_used hs) i}"
  using slot_of_some by (force simp: key_set_def slot_of_none image_iff)

lemma key_set_full:
  assumes "hash_ok hs" "\<forall>i < hs_size hs. ggml_bitset_get (hs_used hs) i"
  shows "card (key_set hs) = hs_size hs"
proof -
  have e: "{i. i < hs_size hs \<and> ggml_bitset_get (hs_used hs) i} = {..< hs_size hs}" using assms(2) by auto
  have "inj_on ((!) (hs_keys hs)) {..< hs_size hs}"
  proof (rule inj_onI)
    fix i j assume "i \<in> {..< hs_size hs}" "j \<in> {..< hs_size hs}" "hs_keys hs ! i = hs_keys hs ! j"
    then have "slot_of hs (hs_keys hs ! i) = Some i" "slot_of hs (hs_keys hs ! i) = Some j"
      using slot_unique [OF assms(1), of i "hs_keys hs ! i"] slot_unique [OF assms(1), of j "hs_keys hs ! i"]
        assms(2) by auto
    then show "i = j" by simp
  qed
  then show ?thesis unfolding key_set_alt e by (simp add: card_image)
qed

lemma finite_key_set: "finite (key_set hs)"
  unfolding key_set_alt by simp

lemma find_or_insert_fits:
  assumes "hash_ok hs" "card (insert p (key_set hs)) \<le> hs_size hs"
  shows "\<exists>i hs'. ggml_hash_find_or_insert hs p = Some (i, hs') \<and> hash_ok hs' \<and>
    hs_size hs' = hs_size hs \<and> key_set hs' = insert p (key_set hs) \<and>
    (\<forall>q j. slot_of hs q = Some j \<longrightarrow> slot_of hs' q = Some j)"
  using assms(1)
proof (cases rule: find_or_insert_cases [where key = p])
  case (present i)
  then show ?thesis using assms(1) by (simp add: key_set_def insert_absorb)
next
  case (added i)
  note so = slot_of_use [OF assms(1) added(7,1,2,3)]
  have "key_set (use_slot i p hs) = insert p (key_set hs)" by (auto simp: key_set_def so)
  moreover have "hs_size (use_slot i p hs) = hs_size hs" by (simp add: use_slot_def)
  moreover have "slot_of (use_slot i p hs) q = Some j" if "slot_of hs q = Some j" for q j
    using that added(1) by (auto simp: so)
  ultimately show ?thesis using added(4,7) by blast
next
  case full
  then have "p \<notin> key_set hs" by (simp add: key_set_def)
  then have False using key_set_full [OF assms(1) full(2)] assms(2) finite_key_set by simp
  then show ?thesis ..
qed

text \<open>
  A walk over any keys, in any order and with repetitions, never fills a table that has room for the
  distinct ones, and no key ever moves.
\<close>

definition hash_walk :: "nat list \<Rightarrow> hash_set \<Rightarrow> hash_set option" where
  "hash_walk = fold_opt (\<lambda>p hs. map_option snd (ggml_hash_find_or_insert hs p))"

lemma hash_walk_fits:
  assumes "hash_ok hs" "card (key_set hs \<union> set ps) \<le> hs_size hs"
  shows "\<exists>hs'. hash_walk ps hs = Some hs' \<and> hash_ok hs' \<and> key_set hs' = key_set hs \<union> set ps \<and>
    (\<forall>q j. slot_of hs q = Some j \<longrightarrow> slot_of hs' q = Some j)"
  using assms
proof (induction ps arbitrary: hs)
  case Nil
  then show ?case by (simp add: hash_walk_def)
next
  case (Cons p ps)
  have "card (insert p (key_set hs)) \<le> card (key_set hs \<union> set (p # ps))"
    by (rule card_mono) (auto simp: finite_key_set)
  then have "card (insert p (key_set hs)) \<le> hs_size hs" using Cons.prems(2) by simp
  then obtain i hs1 where 1: "ggml_hash_find_or_insert hs p = Some (i, hs1)" "hash_ok hs1"
    "hs_size hs1 = hs_size hs" "key_set hs1 = insert p (key_set hs)"
    "\<forall>q j. slot_of hs q = Some j \<longrightarrow> slot_of hs1 q = Some j"
    using find_or_insert_fits [OF Cons.prems(1)] by blast
  have "\<exists>hs'. hash_walk ps hs1 = Some hs' \<and> hash_ok hs' \<and> key_set hs' = key_set hs1 \<union> set ps \<and>
      (\<forall>q j. slot_of hs1 q = Some j \<longrightarrow> slot_of hs' q = Some j)"
    by (rule Cons.IH [OF 1(2)]) (use Cons.prems(2) in \<open>simp add: 1(3,4)\<close>)
  then obtain hs' where 2: "hash_walk ps hs1 = Some hs'" "hash_ok hs'" "key_set hs' = key_set hs1 \<union> set ps"
    "\<forall>q j. slot_of hs1 q = Some j \<longrightarrow> slot_of hs' q = Some j" by blast
  have "hash_walk (p # ps) hs = Some hs'" using 1(1) 2(1) by (simp add: hash_walk_def)
  moreover have "key_set hs' = key_set hs \<union> set (p # ps)" using 1(4) 2(3) by simp
  ultimately show ?case using 1(5) 2(2,4) by blast
qed

text \<open>
  A client's array, indexed by the slots, under any sequence of accesses. This is how the graph
  allocator's table of \<open>struct hash_node\<close> is used (\<open>ggml_gallocr_hash_get\<close>).
\<close>

definition table_step :: "nat \<times> ('v \<Rightarrow> 'v) \<Rightarrow> hash_set \<times> 'v list \<Rightarrow> (hash_set \<times> 'v list) option" where
  "table_step = (\<lambda>(p, f) (hs, vals).
     map_option (\<lambda>(i, hs'). (hs', vals[i := f (vals ! i)])) (ggml_hash_find_or_insert hs p))"

definition table_run :: "(nat \<times> ('v \<Rightarrow> 'v)) list \<Rightarrow> hash_set \<times> 'v list \<Rightarrow> (hash_set \<times> 'v list) option" where
  "table_run = fold_opt table_step"

lemma table_run_refines:
  assumes "table_ok hs vals d" "card (key_set hs \<union> fst ` set ups) \<le> hs_size hs"
  shows "\<exists>hs' vals'. table_run ups (hs, vals) = Some (hs', vals') \<and> table_ok hs' vals' d \<and>
    table_map hs' vals' d = fold (\<lambda>(p, f) m. m(p := f (m p))) ups (table_map hs vals d)"
  using assms
proof (induction ups arbitrary: hs vals)
  case Nil
  then show ?case by (simp add: table_run_def)
next
  case (Cons u ups)
  obtain p f where u: "u = (p, f)" by fastforce
  have ok: "hash_ok hs" using Cons.prems(1) by (simp add: table_ok_def)
  have "card (insert p (key_set hs)) \<le> card (key_set hs \<union> fst ` set (u # ups))"
    by (rule card_mono) (auto simp: u finite_key_set)
  then have "card (insert p (key_set hs)) \<le> hs_size hs" using Cons.prems(2) by simp
  from find_or_insert_fits [OF ok this] obtain i hs1 where
    i: "ggml_hash_find_or_insert hs p = Some (i, hs1)" "hs_size hs1 = hs_size hs"
      "key_set hs1 = insert p (key_set hs)" by blast
  let ?v = "f (vals ! i)"
  note a = table_access [OF Cons.prems(1) i(1)]
  have t: "table_ok hs1 (vals[i := ?v]) d"
    "table_map hs1 (vals[i := ?v]) d = (table_map hs vals d)(p := f (table_map hs vals d p))"
    using a(3,4) [of ?v] a(2) by simp_all
  have "card (key_set hs1 \<union> fst ` set ups) \<le> hs_size hs1" using Cons.prems(2) i(2,3) by (simp add: u)
  from Cons.IH [OF t(1) this] show ?case
    using i(1) t(2) by (simp add: table_run_def table_step_def u)
qed

lemma table_run_new:
  assumes "card (fst ` set ups) \<le> n"
  shows "\<exists>hs vals. table_run ups (ggml_hash_set_new n, replicate (ggml_hash_size n) d) = Some (hs, vals) \<and>
    table_map hs vals d = fold (\<lambda>(p, f) m. m(p := f (m p))) ups (\<lambda>_. d)"
proof -
  note t = table_new [OF hash_size_ge(2), of n d]
  have "\<not> ggml_bitset_get (hs_used (ggml_hash_set_new n)) i" if "i < hs_size (ggml_hash_set_new n)" for i
  proof -
    have "i < 32 * ggml_bitset_size (ggml_hash_size n)"
      using that bitset_size_covers [of "ggml_hash_size n"] by (simp add: ggml_hash_set_new_def Let_def)
    then show ?thesis by (simp add: ggml_hash_set_new_def Let_def bitset_zero)
  qed
  then have "key_set (ggml_hash_set_new n) = {}" by (auto simp: key_set_alt)
  moreover have "hs_size (ggml_hash_set_new n) = ggml_hash_size n" by (simp add: ggml_hash_set_new_def Let_def)
  ultimately have "card (key_set (ggml_hash_set_new n) \<union> fst ` set ups) \<le> hs_size (ggml_hash_set_new n)"
    using assms hash_size_ge(1) [of n] by simp
  from table_run_refines [OF t(1) this] show ?thesis using t(2) by auto
qed

end
