(* ===== verification/GraphBuild.thy ===== *)
theory GraphBuild
  imports HashSet Tensor
begin

text \<open>
  The construction of a compute graph in \<^verbatim>\<open>ggml.c\<close>: \<open>ggml_visit_parents\<close> walks from a result back to
  everything it depends on, each tensor once, and lists a tensor after its sources. The arrays
  \<open>nodes\<close> and \<open>leafs\<close> with their counters are lists, \<open>bg_size\<close> is their capacity. Graphs without
  gradients: \<open>grads\<close> and \<open>grad_accs\<close> are \<open>NULL\<close>. Names are not modelled.

  The recursion of \<open>ggml_visit_parents\<close> has fuel, which bounds its depth; a depth beyond the longest
  chain of sources is enough.
\<close>

datatype eval_order = ORDER_LEFT_TO_RIGHT | ORDER_RIGHT_TO_LEFT | ORDER_COUNT

record build_graph =
  bg_graph :: cgraph
  bg_size :: nat
  bg_visited :: hash_set
  bg_order :: eval_order

definition flag_param :: "tensor \<Rightarrow> bool" where
  "flag_param t = odd (tn_flags t div 4)"

definition ggml_new_graph_custom :: "nat \<Rightarrow> build_graph" where
  "ggml_new_graph_custom n =
     \<lparr>bg_graph = \<lparr>gr_nodes = [], gr_leafs = []\<rparr>, bg_size = n,
      bg_visited = ggml_hash_set_new (n * 2), bg_order = ORDER_LEFT_TO_RIGHT\<rparr>"

definition ggml_graph_clear :: "build_graph \<Rightarrow> build_graph" where
  "ggml_graph_clear bg = bg \<lparr>bg_graph := \<lparr>gr_nodes = [], gr_leafs = []\<rparr>,
     bg_visited := ggml_hash_set_reset (bg_visited bg)\<rparr>"

definition visit_order :: "eval_order \<Rightarrow> tensor \<Rightarrow> nat list" where
  "visit_order ord t = (case ord of ORDER_RIGHT_TO_LEFT \<Rightarrow> rev (srcs t) | _ \<Rightarrow> srcs t)"

definition add_visited :: "tensors \<Rightarrow> nat \<Rightarrow> build_graph \<Rightarrow> build_graph option" where
  "add_visited T node bg =
     (let g = bg_graph bg in
      if tn_op (T node) = GGML_OP_NONE \<and> \<not> flag_param (T node) then do {
        ensure (length (gr_leafs g) < bg_size bg);
        Some (bg \<lparr>bg_graph := g \<lparr>gr_leafs := gr_leafs g @ [node]\<rparr>\<rparr>)
      }
      else do {
        ensure (length (gr_nodes g) < bg_size bg);
        Some (bg \<lparr>bg_graph := g \<lparr>gr_nodes := gr_nodes g @ [node]\<rparr>\<rparr>)
      })"

primrec ggml_visit_parents :: "nat \<Rightarrow> tensors \<Rightarrow> nat \<Rightarrow> build_graph \<Rightarrow> build_graph option" where
  "ggml_visit_parents 0 T = (\<lambda>node bg. None)"
| "ggml_visit_parents (Suc fuel) T = (\<lambda>node bg. do {
     (r, hs) \<leftarrow> ggml_hash_insert (bg_visited bg) node;
     if r = hashset_already_exists then Some bg
     else do {
       bg1 \<leftarrow> fold_opt (ggml_visit_parents fuel T) (visit_order (bg_order bg) (T node))
                (bg \<lparr>bg_visited := hs\<rparr>);
       add_visited T node bg1
     }
   })"

definition ggml_build_forward_impl :: "nat \<Rightarrow> tensors \<Rightarrow> bool \<Rightarrow> nat \<Rightarrow> build_graph \<Rightarrow> build_graph option" where
  "ggml_build_forward_impl fuel T expand t bg0 = do {
     let bg = (if expand then bg0 else ggml_graph_clear bg0);
     let n0 = length (gr_nodes (bg_graph bg));
     bg1 \<leftarrow> ggml_visit_parents fuel T t bg;
     let ns = gr_nodes (bg_graph bg1);
     ensure (length ns - n0 > 0 \<longrightarrow> last ns = t);
     Some bg1
   }"

definition ggml_build_forward_expand :: "nat \<Rightarrow> tensors \<Rightarrow> nat \<Rightarrow> build_graph \<Rightarrow> build_graph option" where
  "ggml_build_forward_expand fuel T t bg = ggml_build_forward_impl fuel T True t bg"

subsection \<open>Other operations on a graph\<close>

definition ggml_graph_node :: "build_graph \<Rightarrow> int \<Rightarrow> nat option" where
  "ggml_graph_node bg i =
     (let ns = gr_nodes (bg_graph bg); n = int (length ns) in
      if i < 0 then (if n + i \<ge> 0 then Some (ns ! nat (n + i)) else None)
      else if i < n then Some (ns ! nat i) else None)"

definition ggml_graph_add_node :: "nat \<Rightarrow> build_graph \<Rightarrow> build_graph option" where
  "ggml_graph_add_node t bg =
     (let g = bg_graph bg in
      if bg_size bg > length (gr_nodes g)
      then Some (bg \<lparr>bg_graph := g \<lparr>gr_nodes := gr_nodes g @ [t]\<rparr>\<rparr>) else None)"

text \<open>A view shares the nodes between two indices and has no leafs and no capacity.\<close>

definition ggml_graph_view :: "build_graph \<Rightarrow> nat \<Rightarrow> nat \<Rightarrow> build_graph" where
  "ggml_graph_view bg i0 i1 =
     \<lparr>bg_graph = \<lparr>gr_nodes = take (i1 - i0) (drop i0 (gr_nodes (bg_graph bg))), gr_leafs = []\<rparr>, bg_size = 0,
      bg_visited = \<lparr>hs_size = 0, hs_used = [], hs_keys = []\<rparr>, bg_order = bg_order bg\<rparr>"

definition ggml_graph_cpy :: "build_graph \<Rightarrow> build_graph \<Rightarrow> build_graph option" where
  "ggml_graph_cpy src dst = do {
     ensure (bg_size dst \<ge> length (gr_leafs (bg_graph src)));
     ensure (bg_size dst \<ge> length (gr_nodes (bg_graph src)));
     ensure (hs_size (bg_visited dst) \<ge> hs_size (bg_visited src));
     hs \<leftarrow> fold_opt (\<lambda>i hs. if ggml_bitset_get (hs_used (bg_visited src)) i
              then map_option snd (ggml_hash_insert hs (hs_keys (bg_visited src) ! i)) else Some hs)
            [0..<hs_size (bg_visited src)] (bg_visited dst);
     Some (dst \<lparr>bg_graph := bg_graph src, bg_order := bg_order src, bg_visited := hs\<rparr>)
   }"

definition ggml_graph_dup :: "build_graph \<Rightarrow> build_graph option" where
  "ggml_graph_dup bg = ggml_graph_cpy bg (ggml_new_graph_custom (bg_size bg))"

subsection \<open>The order of the nodes\<close>

text \<open>Tensors are made after their sources: \<open>rank\<close> decreases along a source.\<close>

definition ranked :: "tensors \<Rightarrow> (nat \<Rightarrow> nat) \<Rightarrow> nat set \<Rightarrow> bool" where
  "ranked T rank U \<longleftrightarrow> (\<forall>t \<in> U. \<forall>s \<in> set (srcs (T t)). s \<in> U \<and> rank s < rank t)"

definition listed :: "cgraph \<Rightarrow> nat set" where
  "listed g = set (gr_leafs g) \<union> set (gr_nodes g)"

definition in_order :: "tensors \<Rightarrow> cgraph \<Rightarrow> bool" where
  "in_order T g \<longleftrightarrow> distinct (gr_leafs g @ gr_nodes g) \<and>
     (\<forall>i < length (gr_nodes g). \<forall>s \<in> set (srcs (T (gr_nodes g ! i))).
        s \<in> set (gr_leafs g) \<union> set (take i (gr_nodes g))) \<and>
     (\<forall>l \<in> set (gr_leafs g). tn_op (T l) = GGML_OP_NONE \<and> \<not> flag_param (T l) \<and>
        set (srcs (T l)) \<subseteq> listed g) \<and>
     (\<forall>n \<in> set (gr_nodes g). \<not> (tn_op (T n) = GGML_OP_NONE \<and> \<not> flag_param (T n)))"

text \<open>\<open>P\<close> is the set of the tensors whose visit has begun and not ended.\<close>

definition build_inv :: "tensors \<Rightarrow> nat set \<Rightarrow> nat set \<Rightarrow> build_graph \<Rightarrow> bool" where
  "build_inv T U P bg \<longleftrightarrow> hash_ok (bg_visited bg) \<and> hs_size (bg_visited bg) < hashset_already_exists \<and>
     key_set (bg_visited bg) = listed (bg_graph bg) \<union> P \<and> listed (bg_graph bg) \<inter> P = {} \<and>
     listed (bg_graph bg) \<union> P \<subseteq> U \<and> finite U \<and> card U \<le> bg_size bg \<and> card U \<le> hs_size (bg_visited bg) \<and>
     in_order T (bg_graph bg)"

definition graph_extends :: "build_graph \<Rightarrow> build_graph \<Rightarrow> bool" where
  "graph_extends bg bg' \<longleftrightarrow> bg_order bg' = bg_order bg \<and> bg_size bg' = bg_size bg \<and>
     (\<exists>ns. gr_nodes (bg_graph bg') = gr_nodes (bg_graph bg) @ ns) \<and>
     (\<exists>ls. gr_leafs (bg_graph bg') = gr_leafs (bg_graph bg) @ ls)"

lemma graph_extends_refl [simp]: "graph_extends bg bg"
  by (simp add: graph_extends_def)

lemma graph_extends_trans: "graph_extends a b \<Longrightarrow> graph_extends b c \<Longrightarrow> graph_extends a c"
  by (auto simp: graph_extends_def)

lemma graph_extends_listed: "graph_extends a b \<Longrightarrow> listed (bg_graph a) \<subseteq> listed (bg_graph b)"
  by (auto simp: graph_extends_def listed_def)

lemma set_visit_order [simp]: "set (visit_order ord t) = set (srcs t)"
  by (cases ord) (auto simp: visit_order_def)

lemma in_order_add_leaf:
  assumes "in_order T g" "t \<notin> listed g" "tn_op (T t) = GGML_OP_NONE \<and> \<not> flag_param (T t)"
    "set (srcs (T t)) \<subseteq> listed g"
  shows "in_order T (g \<lparr>gr_leafs := gr_leafs g @ [t]\<rparr>)"
  using assms by (auto simp: in_order_def listed_def)

lemma in_order_add_node:
  assumes "in_order T g" "t \<notin> listed g" "\<not> (tn_op (T t) = GGML_OP_NONE \<and> \<not> flag_param (T t))"
    "set (srcs (T t)) \<subseteq> listed g"
  shows "in_order T (g \<lparr>gr_nodes := gr_nodes g @ [t]\<rparr>)"
  using assms by (auto simp: in_order_def listed_def nth_append less_Suc_eq)

lemma add_visited_inv:
  assumes "build_inv T U (insert t P) bg" "t \<notin> P" "set (srcs (T t)) \<subseteq> listed (bg_graph bg)"
  shows "\<exists>bg'. add_visited T t bg = Some bg' \<and> build_inv T U P bg' \<and> graph_extends bg bg' \<and> t \<in> listed (bg_graph bg')"
proof -
  let ?g = "bg_graph bg"
  have inv: "listed ?g \<inter> insert t P = {}" "listed ?g \<union> insert t P \<subseteq> U" "finite U" "card U \<le> bg_size bg"
    "in_order T ?g" using assms(1) by (simp_all add: build_inv_def)
  have t: "t \<notin> listed ?g" using inv(1) by simp
  have "card (insert t (listed ?g)) \<le> card U" by (rule card_mono) (use inv in auto)
  moreover have "card (insert t (listed ?g)) = Suc (card (listed ?g))"
    using t by (simp add: listed_def)
  moreover have "card (listed ?g) = length (gr_leafs ?g) + length (gr_nodes ?g)"
    using inv(5) by (simp add: in_order_def listed_def card_Un_disjoint distinct_card)
  ultimately have room: "length (gr_leafs ?g) < bg_size bg" "length (gr_nodes ?g) < bg_size bg"
    using inv(4) by simp_all
  show ?thesis
  proof (cases "tn_op (T t) = GGML_OP_NONE \<and> \<not> flag_param (T t)")
    case True
    let ?g' = "?g \<lparr>gr_leafs := gr_leafs ?g @ [t]\<rparr>"
    have "listed ?g' = insert t (listed ?g)" by (simp add: listed_def)
    then have "build_inv T U P (bg \<lparr>bg_graph := ?g'\<rparr>)"
      using assms(1,2) in_order_add_leaf [OF inv(5) t True assms(3)] by (auto simp: build_inv_def)
    moreover have "t \<in> listed ?g'" by (simp add: listed_def)
    ultimately show ?thesis using True room(1) by (auto simp: add_visited_def Let_def graph_extends_def)
  next
    case False
    let ?g' = "?g \<lparr>gr_nodes := gr_nodes ?g @ [t]\<rparr>"
    have "listed ?g' = insert t (listed ?g)" by (simp add: listed_def)
    then have "build_inv T U P (bg \<lparr>bg_graph := ?g'\<rparr>)"
      using assms(1,2) in_order_add_node [OF inv(5) t False assms(3)] by (auto simp: build_inv_def)
    moreover have "t \<in> listed ?g'" by (simp add: listed_def)
    ultimately show ?thesis using False room(2) by (auto simp: add_visited_def Let_def graph_extends_def)
  qed
qed

inductive_set reach :: "tensors \<Rightarrow> nat \<Rightarrow> nat set" for T t where
  reach_refl: "t \<in> reach T t"
| reach_step: "u \<in> reach T t \<Longrightarrow> s \<in> set (srcs (T u)) \<Longrightarrow> s \<in> reach T t"

lemma reach_trans: "v \<in> reach T u \<Longrightarrow> u \<in> reach T t \<Longrightarrow> v \<in> reach T t"
  by (induction rule: reach.induct) (auto intro: reach.intros)

lemma reach_src: "s \<in> set (srcs (T t)) \<Longrightarrow> reach T s \<subseteq> reach T t"
  using reach_trans reach_step [OF reach_refl] by blast

definition visited_from :: "tensors \<Rightarrow> nat set \<Rightarrow> nat set \<Rightarrow> nat \<Rightarrow> build_graph \<Rightarrow> build_graph \<Rightarrow> bool" where
  "visited_from T U P t bg bg' \<longleftrightarrow> build_inv T U P bg' \<and> graph_extends bg bg' \<and> t \<in> listed (bg_graph bg') \<and>
     listed (bg_graph bg') \<subseteq> listed (bg_graph bg) \<union> reach T t"

lemma visit_srcs:
  assumes "\<And>s bg. s \<in> set ss \<Longrightarrow> build_inv T U P bg \<Longrightarrow>
      \<exists>bg'. f s bg = Some bg' \<and> visited_from T U P s bg bg'"
    "build_inv T U P bg"
  shows "\<exists>bg'. fold_opt f ss bg = Some bg' \<and> build_inv T U P bg' \<and> graph_extends bg bg' \<and>
    set ss \<subseteq> listed (bg_graph bg') \<and>
    listed (bg_graph bg') \<subseteq> listed (bg_graph bg) \<union> (\<Union>s \<in> set ss. reach T s)"
  using assms
proof (induction ss arbitrary: bg)
  case Nil
  then show ?case by simp
next
  case (Cons s ss)
  obtain bg1 where 1: "f s bg = Some bg1" "visited_from T U P s bg bg1" using Cons.prems by auto
  then have i1: "build_inv T U P bg1" "graph_extends bg bg1" "s \<in> listed (bg_graph bg1)"
    "listed (bg_graph bg1) \<subseteq> listed (bg_graph bg) \<union> reach T s" by (simp_all add: visited_from_def)
  obtain bg' where 2: "fold_opt f ss bg1 = Some bg'" "build_inv T U P bg'" "graph_extends bg1 bg'"
    "set ss \<subseteq> listed (bg_graph bg')"
    "listed (bg_graph bg') \<subseteq> listed (bg_graph bg1) \<union> (\<Union>s \<in> set ss. reach T s)"
    using Cons.IH [OF _ i1(1)] Cons.prems(1) by auto
  have "set (s # ss) \<subseteq> listed (bg_graph bg')" using 2(4) graph_extends_listed [OF 2(3)] i1(3) by auto
  moreover have "listed (bg_graph bg') \<subseteq> listed (bg_graph bg) \<union> (\<Union>s \<in> set (s # ss). reach T s)"
    using 2(5) i1(4) by auto
  ultimately show ?case using 1(1) 2(1-3) graph_extends_trans [OF i1(2) 2(3)] by auto
qed

lemma visit_parents_inv:
  assumes "ranked T rank U" "build_inv T U P bg" "t \<in> U" "\<forall>p \<in> P. rank t < rank p" "rank t < fuel"
  shows "\<exists>bg'. ggml_visit_parents fuel T t bg = Some bg' \<and> visited_from T U P t bg bg'"
  using assms(2-5)
proof (induction fuel arbitrary: P t bg)
  case 0
  then show ?case by simp
next
  case (Suc fuel)
  let ?hs = "bg_visited bg"
  have inv: "hash_ok ?hs" "hs_size ?hs < hashset_already_exists" "key_set ?hs = listed (bg_graph bg) \<union> P"
    "listed (bg_graph bg) \<inter> P = {}" "listed (bg_graph bg) \<union> P \<subseteq> U" "finite U" "card U \<le> hs_size ?hs"
    using Suc.prems(1) by (simp_all add: build_inv_def)
  have tP: "t \<notin> P" using Suc.prems(3) by auto
  from inv(1) show ?case
  proof (cases rule: find_or_insert_cases [where key = t])
    case (present i)
    then have "t \<in> key_set ?hs" by (simp add: key_set_def)
    then have "t \<in> listed (bg_graph bg)" using inv(3) tP by simp
    then show ?thesis using present Suc.prems(1) by (simp add: visited_from_def)
  next
    case full
    then have "card (key_set ?hs) = hs_size ?hs" "t \<notin> key_set ?hs"
      using key_set_full [OF inv(1)] by (auto simp: key_set_def)
    moreover have "card (insert t (key_set ?hs)) \<le> card U"
      by (rule card_mono) (use inv Suc.prems(2) in auto)
    ultimately show ?thesis using inv(7) finite_key_set [of ?hs] by simp
  next
    case (added i)
    let ?hs' = "use_slot i t ?hs" and ?P' = "insert t P"
    let ?bg0 = "bg \<lparr>bg_visited := ?hs'\<rparr>"
    have "t \<notin> key_set ?hs" by (simp add: key_set_def added(1))
    then have tn: "t \<notin> listed (bg_graph bg)" using inv(3) by blast
    have "key_set ?hs' = insert t (key_set ?hs)"
      by (auto simp: key_set_def slot_of_use [OF inv(1) added(7,1,2,3)])
    then have i0: "build_inv T U ?P' ?bg0"
      using Suc.prems(1,2) added(7) tn tP by (auto simp: build_inv_def use_slot_def)
    have i: "i \<noteq> hashset_already_exists" using added(2) inv(2) by simp
    have "\<exists>bg'. fold_opt (ggml_visit_parents fuel T) (visit_order (bg_order bg) (T t)) ?bg0 = Some bg' \<and>
        build_inv T U ?P' bg' \<and> graph_extends ?bg0 bg' \<and> set (visit_order (bg_order bg) (T t)) \<subseteq> listed (bg_graph bg') \<and>
        listed (bg_graph bg') \<subseteq> listed (bg_graph ?bg0) \<union> (\<Union>s \<in> set (visit_order (bg_order bg) (T t)). reach T s)"
    proof (rule visit_srcs [OF _ i0])
      fix s bg1 assume s: "s \<in> set (visit_order (bg_order bg) (T t))" and b: "build_inv T U ?P' bg1"
      have sr: "s \<in> U" "rank s < rank t" using assms(1) s Suc.prems(2) by (auto simp: ranked_def)
      then have "\<forall>p \<in> ?P'. rank s < rank p" "rank s < fuel" using Suc.prems(3,4) by auto
      then show "\<exists>bg'. ggml_visit_parents fuel T s bg1 = Some bg' \<and> visited_from T U ?P' s bg1 bg'"
        using Suc.IH [OF b sr(1)] by blast
    qed
    then obtain bg1 where b1: "fold_opt (ggml_visit_parents fuel T) (visit_order (bg_order bg) (T t)) ?bg0 = Some bg1"
      "build_inv T U ?P' bg1" "graph_extends ?bg0 bg1" "set (srcs (T t)) \<subseteq> listed (bg_graph bg1)"
      "listed (bg_graph bg1) \<subseteq> listed (bg_graph bg) \<union> (\<Union>s \<in> set (srcs (T t)). reach T s)" by auto
    obtain bg' where b2: "add_visited T t bg1 = Some bg'" "build_inv T U P bg'" "graph_extends bg1 bg'"
      "t \<in> listed (bg_graph bg')" using add_visited_inv [OF b1(2) tP b1(4)] by blast
    have "listed (bg_graph bg') \<subseteq> insert t (listed (bg_graph bg1))"
      using b2(1) by (auto simp: add_visited_def Let_def listed_def split: if_splits)
    moreover have "listed (bg_graph bg1) \<subseteq> listed (bg_graph bg) \<union> reach T t"
      using b1(5) reach_src [of _ T t] by blast
    ultimately have "listed (bg_graph bg') \<subseteq> listed (bg_graph bg) \<union> reach T t"
      using reach_refl [of t T] by blast
    moreover have "graph_extends bg bg'"
      using graph_extends_trans [OF b1(3) b2(3)] by (simp add: graph_extends_def)
    ultimately have "visited_from T U P t bg bg'" using b2 by (simp add: visited_from_def)
    moreover have "ggml_visit_parents (Suc fuel) T t bg = Some bg'"
      using added(5) i b1(1) b2(1) by simp
    ultimately show ?thesis by blast
  qed
qed

text \<open>Everything a listed tensor depends on is listed.\<close>

lemma in_order_closed:
  assumes "in_order T g" "t \<in> listed g"
  shows "reach T t \<subseteq> listed g"
proof
  fix u assume "u \<in> reach T t"
  then show "u \<in> listed g"
  proof induction
    case reach_refl
    then show ?case by (rule assms(2))
  next
    case (reach_step u s)
    show ?case
    proof (cases "u \<in> set (gr_leafs g)")
      case True
      then show ?thesis using assms(1) reach_step(2) unfolding in_order_def by blast
    next
      case False
      then have "u \<in> set (gr_nodes g)" using reach_step.IH by (simp add: listed_def)
      then obtain i where i: "i < length (gr_nodes g)" "u = gr_nodes g ! i" by (auto simp: in_set_conv_nth)
      then have "s \<in> set (gr_leafs g) \<union> set (take i (gr_nodes g))"
        using assms(1) reach_step(2) by (auto simp: in_order_def)
      then show ?thesis by (auto simp: listed_def dest: in_set_takeD)
    qed
  qed
qed

subsection \<open>Building forward\<close>

lemma ranked_reach:
  assumes "ranked T rank U" "t \<in> U"
  shows "reach T t \<subseteq> U"
proof
  fix u assume "u \<in> reach T t"
  then show "u \<in> U" by induction (use assms in \<open>auto simp: ranked_def\<close>)
qed

text \<open>The visit ends with its own tensor, unless there was nothing to do.\<close>

lemma visit_last:
  assumes "ggml_visit_parents fuel T t bg = Some bg'" "tn_op (T t) = GGML_OP_NONE \<and> \<not> flag_param (T t) \<longrightarrow> srcs (T t) = []"
  shows "gr_nodes (bg_graph bg') = gr_nodes (bg_graph bg) \<or> last (gr_nodes (bg_graph bg')) = t"
proof (cases fuel)
  case (Suc f)
  obtain r hs where ins: "ggml_hash_insert (bg_visited bg) t = Some (r, hs)"
    using assms(1) Suc by (auto split: bind_splits)
  show ?thesis
  proof (cases "r = hashset_already_exists")
    case True
    then show ?thesis using assms(1) Suc ins by simp
  next
    case False
    then obtain bg1 where b: "fold_opt (ggml_visit_parents f T) (visit_order (bg_order bg) (T t)) (bg \<lparr>bg_visited := hs\<rparr>) = Some bg1"
      "add_visited T t bg1 = Some bg'" using assms(1) Suc ins by (auto split: bind_splits)
    show ?thesis
    proof (cases "tn_op (T t) = GGML_OP_NONE \<and> \<not> flag_param (T t)")
      case True
      then have "srcs (T t) = []" using assms(2) by blast
      then have "visit_order (bg_order bg) (T t) = []"
        by (cases "bg_order bg") (simp_all add: visit_order_def)
      then show ?thesis using b True by (auto simp: add_visited_def Let_def split: if_splits)
    next
      case False
      then show ?thesis using b(2) by (auto simp: add_visited_def Let_def split: if_splits)
    qed
  qed
qed (use assms(1) in simp)

text \<open>The builder: a graph made of whole dependency cones, with room for \<open>U\<close>.\<close>

definition builder_ok :: "tensors \<Rightarrow> nat set \<Rightarrow> build_graph \<Rightarrow> bool" where
  "builder_ok T U bg \<longleftrightarrow> build_inv T U {} bg"

lemma build_forward:
  assumes "ranked T rank U" "builder_ok T U bg" "t \<in> U" "rank t < fuel"
    "tn_op (T t) = GGML_OP_NONE \<and> \<not> flag_param (T t) \<longrightarrow> srcs (T t) = []"
  shows "\<exists>bg'. ggml_build_forward_expand fuel T t bg = Some bg' \<and> builder_ok T U bg' \<and> graph_extends bg bg' \<and>
    listed (bg_graph bg') = listed (bg_graph bg) \<union> reach T t"
proof -
  obtain bg' where 1: "ggml_visit_parents fuel T t bg = Some bg'" "visited_from T U {} t bg bg'"
    using visit_parents_inv [OF assms(1) _ assms(3) _ assms(4), of "{}" bg] assms(2)
    by (auto simp: builder_ok_def)
  have v: "build_inv T U {} bg'" "graph_extends bg bg'" "t \<in> listed (bg_graph bg')"
    "listed (bg_graph bg') \<subseteq> listed (bg_graph bg) \<union> reach T t" using 1(2) by (simp_all add: visited_from_def)
  have "in_order T (bg_graph bg')" using v(1) by (simp add: build_inv_def)
  from in_order_closed [OF this v(3)] have "listed (bg_graph bg') = listed (bg_graph bg) \<union> reach T t"
    using v(4) graph_extends_listed [OF v(2)] by blast
  moreover have "ggml_build_forward_expand fuel T t bg = Some bg'"
    using 1(1) visit_last [OF 1(1) assms(5)]
    by (auto simp: ggml_build_forward_expand_def ggml_build_forward_impl_def Let_def)
  ultimately show ?thesis using v by (simp add: builder_ok_def)
qed

lemma new_graph_ok:
  assumes "finite U" "card U \<le> n" "ggml_hash_size (n * 2) < hashset_already_exists"
  shows "builder_ok T U (ggml_new_graph_custom n)"
proof -
  let ?hs = "ggml_hash_set_new (n * 2)"
  have s: "hs_size ?hs = ggml_hash_size (n * 2)" by (simp add: ggml_hash_set_new_def Let_def)
  have "hash_ok ?hs" using table_new(1) [OF hash_size_ge(2), of "n * 2" "()"] by (simp add: table_ok_def)
  moreover have "key_set ?hs = {}"
  proof -
    have "slot_of ?hs p = None" for p
      using bitset_zero [of _ "ggml_bitset_size (ggml_hash_size (n * 2))"] bitset_size_covers [of "ggml_hash_size (n * 2)"]
      by (auto simp: slot_of_none s) (auto simp: ggml_hash_set_new_def Let_def)
    then show ?thesis by (simp add: key_set_def)
  qed
  moreover have "card U \<le> ggml_hash_size (n * 2)" using assms(2) hash_size_ge(1) [of "n * 2"] by simp
  ultimately show ?thesis
    using assms by (simp add: builder_ok_def build_inv_def ggml_new_graph_custom_def s listed_def in_order_def)
qed

end
