(* ===== verification/GraphAlloc.thy ===== *)
theory GraphAlloc
  imports AllocPlan GraphBuild
begin

text \<open>
  The builder and the allocator together: a graph made by \<open>ggml_build_forward_expand\<close> is one the
  allocator's plan is right for. What is asked of the tensors is what the constructors of
  \<^verbatim>\<open>ggml.c\<close> do: a view names a tensor that is not a view, and is an operation on that tensor or on
  another view of it; an input is not the result of an operation that can work in place.
\<close>

definition tensors_ok :: "tensors \<Rightarrow> nat set \<Rightarrow> bool" where
  "tensors_ok T U \<longleftrightarrow> (\<forall>t \<in> U.
     (\<forall>v. tn_view_src (T t) = Some v \<longrightarrow> \<not> ggml_is_view (T v) \<and>
        (own T v \<longrightarrow> tn_op (T t) \<noteq> GGML_OP_NONE \<and> (\<exists>a \<in> set (srcs (T t)). view_root T a = v))) \<and>
     (flag_input (T t) \<longrightarrow> \<not> ggml_op_can_inplace (tn_op (T t))))"

lemma tensors_okD:
  assumes "tensors_ok T U" "t \<in> U" "tn_view_src (T t) = Some v"
  shows "\<not> ggml_is_view (T v)" "own T v \<Longrightarrow> tn_op (T t) \<noteq> GGML_OP_NONE"
    "own T v \<Longrightarrow> \<exists>a \<in> set (srcs (T t)). view_root T a = v"
  using assms unfolding tensors_ok_def by blast+

lemma tensors_ok_subset: "tensors_ok T U \<Longrightarrow> V \<subseteq> U \<Longrightarrow> tensors_ok T V"
  unfolding tensors_ok_def by blast

text \<open>The owner of viewed memory comes before the view: by induction over the chain of views.\<close>

lemma owner_before:
  assumes "in_order T g" "tensors_ok T (listed g)" "i < length (gr_nodes g)"
    "tn_view_src (T (gr_nodes g ! i)) = Some v" "own T v"
  shows "v \<in> set (gr_leafs g) \<union> set (take i (gr_nodes g))"
  using assms(3,4)
proof (induction i rule: less_induct)
  case (less i)
  let ?n = "gr_nodes g ! i"
  have "?n \<in> listed g" using less.prems(1) by (simp add: listed_def)
  then obtain a where a: "a \<in> set (srcs (T ?n))" "view_root T a = v"
    using tensors_okD(3) [OF assms(2) _ less.prems(2) assms(5)] by blast
  have pre: "a \<in> set (gr_leafs g) \<union> set (take i (gr_nodes g))"
    using assms(1) less.prems(1) a(1) by (auto simp: in_order_def)
  show ?case
  proof (cases "tn_view_src (T a)")
    case None
    then show ?thesis using a(2) pre by (simp add: view_root_def)
  next
    case (Some u)
    then have u: "u = v" using a(2) by (simp add: view_root_def)
    have al: "a \<in> listed g" using pre by (auto simp: listed_def dest: in_set_takeD)
    have "tn_op (T a) \<noteq> GGML_OP_NONE" using tensors_okD(2) [OF assms(2) al Some] u assms(5) by simp
    then have "a \<notin> set (gr_leafs g)" using assms(1) by (auto simp: in_order_def)
    then have "a \<in> set (take i (gr_nodes g))" using pre by simp
    then obtain j where j: "j < i" "a = gr_nodes g ! j" using less.prems(1) by (auto simp: in_set_conv_nth)
    have "v \<in> set (gr_leafs g) \<union> set (take j (gr_nodes g))"
      using less.IH [OF j(1)] less.prems(1) j Some u by simp
    then show ?thesis using j(1) set_take_subset_set_take [of j i "gr_nodes g"] by auto
  qed
qed

lemma in_order_graph_ok:
  assumes "in_order T g" "tensors_ok T (listed g)"
  shows "graph_ok T g"
proof -
  let ?ls = "gr_leafs g" and ?ns = "gr_nodes g"
  have leaf_op: "tn_op (T l) = GGML_OP_NONE" if "l \<in> set ?ls" for l
    using assms(1) that by (simp add: in_order_def)
  have "distinct (?ls @ ?ns)" using assms(1) by (simp add: in_order_def)
  moreover have "list_all (\<lambda>i. list_all (\<lambda>s. s \<in> set ?ls \<or> s \<in> set (take i ?ns)) (srcs (T (?ns ! i)))) [0..<length ?ns]"
    using assms(1) by (auto simp: in_order_def list_all_iff)
  moreover have "list_all (\<lambda>i. case tn_view_src (T (?ns ! i)) of None \<Rightarrow> True
      | Some v \<Rightarrow> \<not> ggml_is_view (T v) \<and> (own T v \<longrightarrow> v \<in> set ?ls \<or> v \<in> set (take i ?ns))) [0..<length ?ns]"
    unfolding list_all_iff
  proof (intro ballI)
    fix i assume "i \<in> set [0..<length ?ns]"
    then have i: "i < length ?ns" by simp
    then have "?ns ! i \<in> listed g" by (simp add: listed_def)
    then show "case tn_view_src (T (?ns ! i)) of None \<Rightarrow> True
      | Some v \<Rightarrow> \<not> ggml_is_view (T v) \<and> (own T v \<longrightarrow> v \<in> set ?ls \<or> v \<in> set (take i ?ns))"
      using tensors_okD(1) [OF assms(2)] owner_before [OF assms i] by (auto split: option.split)
  qed
  moreover have "list_all (\<lambda>l. case tn_view_src (T l) of None \<Rightarrow> True
      | Some v \<Rightarrow> \<not> ggml_is_view (T v) \<and> \<not> own T v) ?ls"
    unfolding list_all_iff
  proof (intro ballI)
    fix l assume l: "l \<in> set ?ls"
    then have "l \<in> listed g" by (simp add: listed_def)
    then show "case tn_view_src (T l) of None \<Rightarrow> True | Some v \<Rightarrow> \<not> ggml_is_view (T v) \<and> \<not> own T v"
      using tensors_okD(1,2) [OF assms(2)] leaf_op [OF l] by (auto split: option.split)
  qed
  moreover have "list_all (\<lambda>s. ggml_is_view (T s) \<and> own T (view_root T s) \<longrightarrow> tn_op (T s) \<noteq> GGML_OP_NONE) (uses T ?ns)"
    unfolding list_all_iff
  proof (intro ballI impI)
    fix s assume s: "s \<in> set (uses T ?ns)" "ggml_is_view (T s) \<and> own T (view_root T s)"
    have "s \<in> set (uses T (take (length ?ns) ?ns))" using s(1) by simp
    then obtain j where j: "j < length ?ns" "s \<in> set (srcs (T (?ns ! j)))" by (rule in_uses_take)
    then have "s \<in> listed g" using assms(1) by (auto simp: in_order_def listed_def dest: in_set_takeD)
    moreover obtain v where v: "tn_view_src (T s) = Some v" using s(2) by (auto simp: ggml_is_view_def)
    moreover have "own T v" using s(2) v by (simp add: view_root_def)
    ultimately show "tn_op (T s) \<noteq> GGML_OP_NONE" using tensors_okD(2) [OF assms(2)] by blast
  qed
  moreover have "list_all (\<lambda>t. t \<in> set ?ls \<or> flag_input (T t) \<longrightarrow> \<not> ggml_op_can_inplace (tn_op (T t))) (?ls @ ?ns)"
    unfolding list_all_iff
  proof (intro ballI impI)
    fix t assume t: "t \<in> set (?ls @ ?ns)" "t \<in> set ?ls \<or> flag_input (T t)"
    have "t \<in> listed g" using t(1) by (auto simp: listed_def)
    then have "flag_input (T t) \<longrightarrow> \<not> ggml_op_can_inplace (tn_op (T t))" using assms(2) by (simp add: tensors_ok_def)
    moreover have "\<not> ggml_op_can_inplace GGML_OP_NONE" by (simp add: ggml_op_can_inplace_def)
    ultimately show "\<not> ggml_op_can_inplace (tn_op (T t))" using t(2) leaf_op by auto
  qed
  ultimately show ?thesis by (simp add: graph_ok_def Let_def)
qed

end
