(* ===== verification/GraphExec.thy ===== *)
theory GraphExec
  imports AllocPlan
begin

text \<open>
  Running a graph: the loop of \<open>ggml_graph_compute_thread\<close> in \<^verbatim>\<open>ggml-cpu.c\<close> over the memory that the
  graph allocator has planned, and the same loop over values, where no two tensors share memory. The
  theorem of this file is the refinement: with the planned addresses, reuse of memory included, the
  loop computes the same values.

  The kernels are a parameter: \<open>ks_run n\<close> is what the operation of node \<open>n\<close> makes of the data of its
  sources and, if the node is a view, of the data that the view is a part of; it writes the data of
  the node's root. A kernel reads before it writes, as an operation that can work in place does. One
  thread; a barrier of several is a step of the loop. Memory is a function from a buffer type and an
  address to a byte. Tensors whose memory is not the graph's (weights, caches) keep their data apart.
\<close>

subsection \<open>The loop over the nodes\<close>

record 'b kernels =
  ks_bytes :: "tensor \<Rightarrow> nat"
  ks_run :: "nat \<Rightarrow> 'b list list \<Rightarrow> 'b list \<Rightarrow> 'b list"

definition ggml_is_empty :: "tensor \<Rightarrow> bool" where
  "ggml_is_empty t = list_ex (\<lambda>i. tn_ne t ! i = 0) [0..<4]"

definition computed :: "tensor \<Rightarrow> bool" where
  "computed t = (\<not> (tn_op t = GGML_OP_NONE \<or> ggml_is_empty t))"

text \<open>The flag is true if the abort callback stopped the loop after a node.\<close>

fun ggml_graph_compute_thread :: "(nat \<Rightarrow> 's \<Rightarrow> 's) \<Rightarrow> (nat \<Rightarrow> bool) \<Rightarrow> nat \<Rightarrow> nat list \<Rightarrow> 's \<Rightarrow> bool \<times> 's" where
  "ggml_graph_compute_thread forward aborts i [] st = (False, st)"
| "ggml_graph_compute_thread forward aborts i (n # ns) st =
     (let st' = forward n st in
      if aborts i then (True, st') else ggml_graph_compute_thread forward aborts (Suc i) ns st')"

subsection \<open>The two machines\<close>

record 'b store =
  st_mem :: "nat \<times> nat \<Rightarrow> 'b"
  st_ext :: "nat \<Rightarrow> 'b list"

definition data_at :: "'b kernels \<Rightarrow> tensors \<Rightarrow> tensors \<Rightarrow> nat \<Rightarrow> (nat \<times> nat) list" where
  "data_at ks T T' r =
     (case (tn_buffer (T' r), tn_data (T' r)) of
        (Some b, Some a) \<Rightarrow> map (\<lambda>i. (bu_buft b, a + i)) [0..<ks_bytes ks (T r)]
      | _ \<Rightarrow> [])"

definition load_data :: "'b kernels \<Rightarrow> tensors \<Rightarrow> tensors \<Rightarrow> 'b store \<Rightarrow> nat \<Rightarrow> 'b list" where
  "load_data ks T T' st r =
     (if own T r then map (st_mem st) (data_at ks T T' r) else st_ext st r)"

definition save_data :: "'b kernels \<Rightarrow> tensors \<Rightarrow> tensors \<Rightarrow> nat \<Rightarrow> 'b list \<Rightarrow> 'b store \<Rightarrow> 'b store" where
  "save_data ks T T' r bs st =
     (if own T r
      then st \<lparr>st_mem := (\<lambda>a. case map_of (zip (data_at ks T T' r) bs) a of Some b \<Rightarrow> b | None \<Rightarrow> st_mem st a)\<rparr>
      else st \<lparr>st_ext := (st_ext st)(r := bs)\<rparr>)"

definition forward_mem :: "'b kernels \<Rightarrow> tensors \<Rightarrow> tensors \<Rightarrow> nat \<Rightarrow> 'b store \<Rightarrow> 'b store" where
  "forward_mem ks T T' n st =
     (if \<not> computed (T n) then st
      else save_data ks T T' (view_root T n)
        (ks_run ks n (map (\<lambda>s. load_data ks T T' st (view_root T s)) (srcs (T n)))
           (if ggml_is_view (T n) then load_data ks T T' st (view_root T n) else [])) st)"

definition forward_val :: "'b kernels \<Rightarrow> tensors \<Rightarrow> nat \<Rightarrow> (nat \<Rightarrow> 'b list) \<Rightarrow> nat \<Rightarrow> 'b list" where
  "forward_val ks T n vals =
     (if \<not> computed (T n) then vals
      else vals(view_root T n := ks_run ks n (map (\<lambda>s. vals (view_root T s)) (srcs (T n)))
             (if ggml_is_view (T n) then vals (view_root T n) else [])))"

definition run_graph :: "'b kernels \<Rightarrow> tensors \<Rightarrow> tensors \<Rightarrow> (nat \<Rightarrow> bool) \<Rightarrow> cgraph \<Rightarrow> 'b store \<Rightarrow> bool \<times> 'b store" where
  "run_graph ks T T' aborts g st = ggml_graph_compute_thread (forward_mem ks T T') aborts 0 (gr_nodes g) st"

definition graph_values ::
  "'b kernels \<Rightarrow> tensors \<Rightarrow> (nat \<Rightarrow> bool) \<Rightarrow> cgraph \<Rightarrow> (nat \<Rightarrow> 'b list) \<Rightarrow> bool \<times> (nat \<Rightarrow> 'b list)" where
  "graph_values ks T aborts g vals = ggml_graph_compute_thread (forward_val ks T) aborts 0 (gr_nodes g) vals"

text \<open>
  What is asked of graph and kernels: a node that owns memory is computed, unless the user fills it;
  a view that is computed has what it views among its sources; a kernel writes as many bytes as its
  result (for a view, what it is a view of) has, which are no more than were allocated.
\<close>

definition runnable :: "tensors \<Rightarrow> cgraph \<Rightarrow> bool" where
  "runnable T g = list_all (\<lambda>n.
     (own T n \<longrightarrow> computed (T n) \<or> flag_input (T n)) \<and>
     (ggml_is_view (T n) \<and> own T (view_root T n) \<and> computed (T n) \<longrightarrow> view_root T n \<in> view_root T ` set (srcs (T n))))
     (gr_nodes g)"

definition kernels_fit :: "backend \<Rightarrow> 'b kernels \<Rightarrow> tensors \<Rightarrow> cgraph \<Rightarrow> nat list \<Rightarrow> bool" where
  "kernels_fit be ks T g bufts \<longleftrightarrow>
     (\<forall>b \<in> set bufts. \<forall>t \<in> graph_tensors g. ks_bytes ks (T t) \<le> be_alloc_size be b (T t)) \<and>
     (\<forall>n ss old. (ggml_is_view (T n) \<longrightarrow> length old = ks_bytes ks (T (view_root T n))) \<longrightarrow>
        length (ks_run ks n ss old) = ks_bytes ks (T (view_root T n)))"

subsection \<open>Tensors that are live at the same time are apart\<close>

lemma live_at_Suc: "i < length (gr_nodes g) \<Longrightarrow> live_at T g (Suc i) x \<Longrightarrow> live_at T g i x"
  by (auto simp: live_at_def uses_from_Suc)

lemma placed_in_graph: "placed_before T g i \<subseteq> graph_tensors g"
  by (auto simp: placed_before_def graph_tensors_def dest: in_set_takeD)

lemma live_apart:
  assumes "reserved be T g ga" "graph_ok T g" "sizes_ok be T g (ga_bufts ga)" "init_inv ga T (graph_tensors g) T'"
    "i \<le> length (gr_nodes g)"
    "x \<in> placed_before T g i" "own T x" "live_at T g i x"
    "y \<in> placed_before T g i" "own T y" "live_at T g i y" "x \<noteq> y"
  shows "tensor_bytes be T T' x \<inter> tensor_bytes be T T' y = {}"
  using assms(5-)
proof (induction i arbitrary: x y)
  case 0
  then have "talloc_idx ga x \<noteq> talloc_idx ga y \<or> disjnt (span (block_of be T ga x)) (span (block_of be T ga y))"
    using assms(1) unfolding reserved_def start_apart_def by blast
  then show ?case
    by (rule blocks_bytes_apart [OF assms(1,3,4) 0(3) subsetD [OF placed_in_graph 0(2)] 0(6)
      subsetD [OF placed_in_graph 0(5)]])
next
  case (Suc i)
  let ?w = "gr_nodes g ! i"
  have i: "i < length (gr_nodes g)" using Suc.prems(1) by simp
  have lv: "live_at T g i x" "live_at T g i y" using live_at_Suc [OF i] Suc.prems by blast+
  have new: "tensor_bytes be T T' u \<inter> tensor_bytes be T T' ?w = {}"
    if u: "u \<in> placed_before T g i" "own T u" "live_at T g (Suc i) u" "u \<noteq> ?w" and w: "own T ?w" for u
  proof -
    have "not_clobbered be T g ga i u"
      using assms(1) i u w live_at_Suc [OF i] unfolding reserved_def safe_upto_def by blast
    then show ?thesis
      using reserved_not_clobbered [OF assms(1,3,4) u(2) subsetD [OF placed_in_graph u(1)] i w] u(3) by blast
  qed
  have pb: "x = ?w \<or> x \<in> placed_before T g i" "y = ?w \<or> y \<in> placed_before T g i"
    using Suc.prems(2,5) placed_before_Suc [OF i] by auto
  show ?case
  proof (cases "x \<in> placed_before T g i")
    case xi: True
    show ?thesis
    proof (cases "y \<in> placed_before T g i")
      case True
      then show ?thesis using Suc.IH [OF _ xi Suc.prems(3) lv(1) True Suc.prems(6) lv(2) Suc.prems(8)] i by simp
    next
      case False
      then have "y = ?w" using pb by blast
      then show ?thesis using new [OF xi Suc.prems(3,4)] Suc.prems(6,8) by blast
    qed
  next
    case False
    then have "x = ?w" using pb by blast
    then show ?thesis using new [of y] pb(2) Suc.prems(3,6,7,8) by blast
  qed
qed

subsection \<open>Loading and saving\<close>

lemma distinct_data_at: "distinct (data_at ks T T' r)"
  by (auto simp: data_at_def distinct_map inj_on_def split: option.split)

lemma load_save_other:
  assumes "own T x \<Longrightarrow> own T r \<Longrightarrow> set (data_at ks T T' x) \<inter> set (data_at ks T T' r) = {}" "x \<noteq> r"
  shows "load_data ks T T' (save_data ks T T' r bs st) x = load_data ks T T' st x"
proof -
  have "map_of (zip (data_at ks T T' r) bs) a = None" if "a \<in> set (data_at ks T T' x)" "own T x" "own T r" for a
    using assms(1) that by (auto simp: map_of_eq_None_iff dest: set_zip_leftD)
  then show ?thesis using assms(2) by (auto simp: load_data_def save_data_def)
qed

lemma load_save_same:
  assumes "own T r \<Longrightarrow> length bs = length (data_at ks T T' r)"
  shows "load_data ks T T' (save_data ks T T' r bs st) r = bs"
proof (cases "own T r")
  case True
  then show ?thesis using assms distinct_data_at [of ks T T' r]
    by (simp add: load_data_def save_data_def list_eq_iff_nth_eq map_of_zip_nth)
qed (simp add: load_data_def save_data_def)

lemma data_at_bytes:
  assumes "reserved be T g ga" "sizes_ok be T g (ga_bufts ga)" "init_inv ga T (graph_tensors g) T'"
    "kernels_fit be ks T g (ga_bufts ga)" "own T x" "x \<in> graph_tensors g"
  shows "set (data_at ks T T' x) \<subseteq> tensor_bytes be T T' x" "length (data_at ks T T' x) = ks_bytes ks (T x)"
proof -
  note rb = reserved_buffer [OF assms(1,2,6,5)]
  have "bu_buft (buffer_at ga x) \<in> set (ga_bufts ga)" using rb(1,4) by simp
  then have "ks_bytes ks (T x) \<le> be_alloc_size be (bu_buft (buffer_at ga x)) (T x)"
    using assms(4,6) by (simp add: kernels_fit_def)
  then show "set (data_at ks T T' x) \<subseteq> tensor_bytes be T T' x" "length (data_at ks T T' x) = ks_bytes ks (T x)"
    by (auto simp: data_at_def tensor_bytes_def init_inv_own [OF assms(3,5,6)])
qed

subsection \<open>The refinement\<close>

text \<open>Before node \<open>i\<close> the memory of every live tensor holds its value.\<close>

definition agrees :: "'b kernels \<Rightarrow> tensors \<Rightarrow> tensors \<Rightarrow> cgraph \<Rightarrow> nat \<Rightarrow> 'b store \<Rightarrow> (nat \<Rightarrow> 'b list) \<Rightarrow> bool" where
  "agrees ks T T' g i st vals \<longleftrightarrow>
     (\<forall>x \<in> placed_before T g i. own T x \<and> live_at T g i x \<longrightarrow> load_data ks T T' st x = vals x) \<and>
     (\<forall>r. \<not> own T r \<longrightarrow> st_ext st r = vals r)"

lemma agrees_root:
  assumes "agrees ks T T' g i st vals" "graph_ok T g" "i < length (gr_nodes g)"
    "s \<in> set (srcs (T (gr_nodes g ! i)))"
  shows "load_data ks T T' st (view_root T s) = vals (view_root T s)"
    "own T (view_root T s) \<Longrightarrow> view_root T s \<in> placed_before T g i \<and> live_at T g i (view_root T s)"
proof -
  have lv: "live_at T g i (view_root T s)" using assms(3,4) by (auto simp: live_at_def uses_from_Suc)
  show pl: "view_root T s \<in> placed_before T g i \<and> live_at T g i (view_root T s)" if o: "own T (view_root T s)"
  proof (cases "tn_view_src (T s)")
    case None
    then show ?thesis using graph_ok_src [OF assms(2-4)] lv by (auto simp: view_root_def placed_before_def)
  next
    case (Some v)
    then show ?thesis using src_root_placed [OF assms(2-4) Some] o lv by (auto simp: view_root_def placed_before_def)
  qed
  show "load_data ks T T' st (view_root T s) = vals (view_root T s)"
    using assms(1) pl by (cases "own T (view_root T s)") (auto simp: agrees_def load_data_def)
qed

lemma forward_agrees:
  assumes "reserved be T g ga" "graph_ok T g" "sizes_ok be T g (ga_bufts ga)" "init_inv ga T (graph_tensors g) T'"
    "kernels_fit be ks T g (ga_bufts ga)" "runnable T g" "i < length (gr_nodes g)" "agrees ks T T' g i st vals"
  defines "w \<equiv> gr_nodes g ! i"
  shows "agrees ks T T' g (Suc i) (forward_mem ks T T' w st) (forward_val ks T w vals)"
proof -
  let ?r = "view_root T w"
  have wn: "w \<in> set (gr_nodes g)" using assms(7) by (simp add: w_def)
  have wg: "w \<in> graph_tensors g" using wn by (simp add: graph_tensors_def)
  have run: "own T w \<longrightarrow> computed (T w) \<or> flag_input (T w)"
    "ggml_is_view (T w) \<and> own T ?r \<and> computed (T w) \<longrightarrow> ?r \<in> view_root T ` set (srcs (T w))"
    using assms(6) wn by (simp_all add: runnable_def list_all_iff)
  have pb: "placed_before T g (Suc i) = insert w (placed_before T g i)"
    using placed_before_Suc [OF assms(7)] by (simp add: w_def)
  note lv = live_at_Suc [OF assms(7)]
  show ?thesis
  proof (cases "computed (T w)")
    case False
    then have "own T w \<Longrightarrow> w \<in> placed_before T g i" using run(1) wn by (simp add: placed_before_def)
    then show ?thesis
      using assms(8) lv False by (auto simp: agrees_def pb forward_mem_def forward_val_def)
  next
    case True
    have view: "ggml_is_view (T w) \<Longrightarrow> own T ?r \<Longrightarrow> ?r \<in> placed_before T g i \<and> live_at T g i ?r"
      using run(2) True agrees_root(2) [OF assms(8,2,7)] by (auto simp: w_def)
    have noview: "\<not> ggml_is_view (T w) \<Longrightarrow> ?r = w" by (simp add: ggml_is_view_def view_root_def)
    have old: "load_data ks T T' st ?r = vals ?r" if "ggml_is_view (T w)"
      using assms(8) view [OF that] by (cases "own T ?r") (auto simp: agrees_def load_data_def)
    let ?bs = "ks_run ks w (map (\<lambda>s. vals (view_root T s)) (srcs (T w))) (if ggml_is_view (T w) then vals ?r else [])"
    have srcs: "map (\<lambda>s. load_data ks T T' st (view_root T s)) (srcs (T w)) = map (\<lambda>s. vals (view_root T s)) (srcs (T w))"
      using agrees_root(1) [OF assms(8,2,7)] by (simp add: w_def)
    have mem: "forward_mem ks T T' w st = save_data ks T T' ?r ?bs st"
      using True old unfolding forward_mem_def srcs by simp
    have val: "forward_val ks T w vals = vals(?r := ?bs)" using True by (simp add: forward_val_def)
    have rg: "own T ?r \<Longrightarrow> ?r \<in> graph_tensors g"
      using view noview wg placed_in_graph [of T g i] by (cases "ggml_is_view (T w)") auto
    have len: "length ?bs = ks_bytes ks (T ?r)" if "own T ?r"
    proof -
      have "length (vals ?r) = ks_bytes ks (T ?r)" if "ggml_is_view (T w)"
        using old [OF that] data_at_bytes(2) [OF assms(1,3,4,5) \<open>own T ?r\<close> rg] \<open>own T ?r\<close>
        by (metis length_map load_data_def)
      then show ?thesis using assms(5) by (simp add: kernels_fit_def)
    qed
    have same: "load_data ks T T' (save_data ks T T' ?r ?bs st) ?r = ?bs"
      by (rule load_save_same)
        (use data_at_bytes(2) [OF assms(1,3,4,5)] rg len in simp)
    have other: "load_data ks T T' (save_data ks T T' ?r ?bs st) x = load_data ks T T' st x"
      if x: "x \<in> placed_before T g i" "own T x" "live_at T g (Suc i) x" "x \<noteq> ?r" for x
    proof (rule load_save_other [OF _ x(4)])
      assume r: "own T ?r"
      have "tensor_bytes be T T' x \<inter> tensor_bytes be T T' ?r = {}"
      proof (cases "ggml_is_view (T w)")
        case True
        show ?thesis
          by (rule live_apart [OF assms(1-4), of i]) (use assms(7) x lv view [OF True r] r in auto)
      next
        case False
        then have e: "?r = gr_nodes g ! i" using noview by (simp add: w_def)
        have "not_clobbered be T g ga i x"
          using assms(1,7) x lv r e unfolding reserved_def safe_upto_def by metis
        then show ?thesis
          using reserved_not_clobbered [OF assms(1,3,4) x(2) subsetD [OF placed_in_graph x(1)] assms(7)] r e x(3)
          by metis
      qed
      moreover have "x \<in> graph_tensors g" using x(1) placed_in_graph by blast
      ultimately show "set (data_at ks T T' x) \<inter> set (data_at ks T T' ?r) = {}"
        using data_at_bytes(1) [OF assms(1,3,4,5)] x(2) r rg by blast
    qed
    show ?thesis
      unfolding agrees_def
    proof (intro conjI ballI allI impI)
      fix x assume x: "x \<in> placed_before T g (Suc i)" "own T x \<and> live_at T g (Suc i) x"
      show "load_data ks T T' (forward_mem ks T T' w st) x = forward_val ks T w vals x"
      proof (cases "x = ?r")
        case True
        then show ?thesis using same by (simp add: mem val)
      next
        case False
        have "x \<noteq> w"
          using False x(2) noview by (auto simp: own_def ggml_is_view_def)
        then have "x \<in> placed_before T g i" using x(1) by (simp add: pb)
        then show ?thesis using other x(2) False assms(8) lv by (simp add: mem val agrees_def)
      qed
    next
      fix r assume r: "\<not> own T r"
      show "st_ext (forward_mem ks T T' w st) r = forward_val ks T w vals r"
      proof (cases "r = ?r")
        case True
        then show ?thesis using r by (simp add: mem val save_data_def)
      next
        case False
        then show ?thesis using r assms(8) by (simp add: mem val save_data_def agrees_def)
      qed
    qed
  qed
qed

text \<open>The loop over a suffix of the nodes; it may be stopped after any of them.\<close>

lemma compute_agrees:
  assumes "reserved be T g ga" "graph_ok T g" "sizes_ok be T g (ga_bufts ga)" "init_inv ga T (graph_tensors g) T'"
    "kernels_fit be ks T g (ga_bufts ga)" "runnable T g" "i \<le> length (gr_nodes g)" "agrees ks T T' g i st vals"
  shows "\<exists>k st' vals' b. i \<le> k \<and> k \<le> length (gr_nodes g) \<and> (\<not> b \<longrightarrow> k = length (gr_nodes g)) \<and>
    ggml_graph_compute_thread (forward_mem ks T T') aborts i (drop i (gr_nodes g)) st = (b, st') \<and>
    ggml_graph_compute_thread (forward_val ks T) aborts i (drop i (gr_nodes g)) vals = (b, vals') \<and>
    agrees ks T T' g k st' vals'"
  using assms(7,8)
proof (induction "length (gr_nodes g) - i" arbitrary: i st vals)
  case 0
  then show ?case by auto
next
  case (Suc n)
  then have i: "i < length (gr_nodes g)" by simp
  let ?w = "gr_nodes g ! i"
  have d: "drop i (gr_nodes g) = ?w # drop (Suc i) (gr_nodes g)" using i by (simp add: Cons_nth_drop_Suc)
  have st: "agrees ks T T' g (Suc i) (forward_mem ks T T' ?w st) (forward_val ks T ?w vals)"
    by (rule forward_agrees [OF assms(1-6) i Suc.prems(2)])
  show ?case
  proof (cases "aborts i")
    case True
    show ?thesis
      using st i True by (intro exI [of _ "Suc i"] exI [of _ True] exI) (auto simp: d)
  next
    case False
    have ih: "\<exists>k st' vals' b. Suc i \<le> k \<and> k \<le> length (gr_nodes g) \<and> (\<not> b \<longrightarrow> k = length (gr_nodes g)) \<and>
      ggml_graph_compute_thread (forward_mem ks T T') aborts (Suc i) (drop (Suc i) (gr_nodes g))
        (forward_mem ks T T' ?w st) = (b, st') \<and>
      ggml_graph_compute_thread (forward_val ks T) aborts (Suc i) (drop (Suc i) (gr_nodes g))
        (forward_val ks T ?w vals) = (b, vals') \<and> agrees ks T T' g k st' vals'"
      by (rule Suc.hyps(1)) (use Suc.hyps(2) i st in simp_all)
    from ih obtain k where k: "Suc i \<le> k \<and> k \<le> length (gr_nodes g)" "\<exists>st' vals' b. (\<not> b \<longrightarrow> k = length (gr_nodes g)) \<and>
      ggml_graph_compute_thread (forward_mem ks T T') aborts (Suc i) (drop (Suc i) (gr_nodes g))
        (forward_mem ks T T' ?w st) = (b, st') \<and>
      ggml_graph_compute_thread (forward_val ks T) aborts (Suc i) (drop (Suc i) (gr_nodes g))
        (forward_val ks T ?w vals) = (b, vals') \<and> agrees ks T T' g k st' vals'" by blast
    show ?thesis
      unfolding d ggml_graph_compute_thread.simps Let_def if_not_P [OF False]
      by (rule exI [of _ k]) (use k in \<open>simp add: Suc_leD\<close>)
  qed
qed

text \<open>
  A store that has been filled as the user does it: the leafs and the inputs hold their values, and so
  do the tensors outside.
\<close>

definition filled :: "'b kernels \<Rightarrow> tensors \<Rightarrow> tensors \<Rightarrow> cgraph \<Rightarrow> 'b store \<Rightarrow> (nat \<Rightarrow> 'b list) \<Rightarrow> bool" where
  "filled ks T T' g st vals \<longleftrightarrow>
     (\<forall>x \<in> graph_tensors g. own T x \<and> (x \<in> set (gr_leafs g) \<or> flag_input (T x)) \<longrightarrow> load_data ks T T' st x = vals x) \<and>
     (\<forall>r. \<not> own T r \<longrightarrow> st_ext st r = vals r)"

lemma filled_agrees: "filled ks T T' g st vals \<Longrightarrow> agrees ks T T' g 0 st vals"
  by (auto simp: filled_def agrees_def placed_before_def graph_tensors_def)

lemma planned_run:
  assumes "reserved be T g ga" "graph_ok T g" "sizes_ok be T g (ga_bufts ga)" "init_inv ga T (graph_tensors g) T'"
    "kernels_fit be ks T g (ga_bufts ga)" "runnable T g" "filled ks T T' g st vals"
  shows "\<exists>k st' vals' b. k \<le> length (gr_nodes g) \<and> (\<not> b \<longrightarrow> k = length (gr_nodes g)) \<and>
    run_graph ks T T' aborts g st = (b, st') \<and> graph_values ks T aborts g vals = (b, vals') \<and>
    agrees ks T T' g k st' vals'"
  using compute_agrees [OF assms(1-6) _ filled_agrees [OF assms(7)], of aborts]
  by (simp add: run_graph_def graph_values_def)

lemma planned_outputs:
  assumes "reserved be T g ga" "graph_ok T g" "sizes_ok be T g (ga_bufts ga)" "init_inv ga T (graph_tensors g) T'"
    "kernels_fit be ks T g (ga_bufts ga)" "runnable T g" "filled ks T T' g st vals"
  shows "\<exists>b st' vals'. run_graph ks T T' aborts g st = (b, st') \<and> graph_values ks T aborts g vals = (b, vals') \<and>
    (\<not> b \<longrightarrow> (\<forall>x \<in> graph_tensors g. own T x \<and> flag_output (T x) \<longrightarrow> load_data ks T T' st' x = vals' x)) \<and>
    (\<forall>r. \<not> own T r \<longrightarrow> st_ext st' r = vals' r)"
proof -
  have "graph_tensors g = placed_before T g (length (gr_nodes g))"
    by (auto simp: placed_before_def graph_tensors_def)
  moreover obtain k st' vals' b where k: "\<not> b \<longrightarrow> k = length (gr_nodes g)"
    "run_graph ks T T' aborts g st = (b, st')" "graph_values ks T aborts g vals = (b, vals')"
    "agrees ks T T' g k st' vals'"
    using planned_run [OF assms] by blast
  ultimately show ?thesis by (auto simp: agrees_def live_at_def)
qed

end
