(* ===== verification/AllocExamples.thy ===== *)
theory AllocExamples
  imports GraphAlloc GraphExec
begin

text \<open>
  A graph of six tensors of 32 bytes, built, planned, given addresses and run: the inputs on which the
  properties of the allocators are instantiated.
\<close>

section \<open>An allocator with two blocks in use\<close>

definition ex_block :: "nat \<Rightarrow> nat \<Rightarrow> dyn_tallocr" where
  "ex_block off m = \<lparr>dt_alignment = 64, dt_free = [\<lparr>fb_off = off, fb_size = 9223372036854775807 - off\<rparr>], dt_max = m\<rparr>"

lemmas dyn_eval = dyn_alloc_def aligned_offset_def u64_add_def u64_sub_def choose_block_def take_block_def
  size_max_def dyn_free_def fb_end_def grow_def max_free_blocks_def insert_block_def dyn_reset_def dyn_new_def
  dyn_max_size_def

lemma ex_block_run: "dyn_run 64 (ex_block 192 192) [0 \<mapsto> (0, 40), 1 \<mapsto> (64, 100)]"
proof -
  have "dyn_run 64 (ex_block 64 64) [0 \<mapsto> (0, 40)]"
    by (rule run_alloc [OF run_new]) (simp_all add: dyn_eval arena_def ex_block_def)
  then show ?thesis
    by (rule run_alloc) (simp_all add: dyn_eval arena_def ex_block_def)
qed

section \<open>A backend and a graph\<close>

definition ex_tensor :: "ggml_op \<Rightarrow> nat \<Rightarrow> nat list \<Rightarrow> nat option \<Rightarrow> tensor" where
  "ex_tensor op flags ss v = \<lparr>tn_type = 0, tn_buffer = None, tn_ne = [8, 1, 1, 1], tn_nb = [4, 32, 32, 32],
     tn_op = op, tn_flags = flags, tn_src = map Some ss @ replicate (ggml_max_src - length ss) None,
     tn_view_src = v, tn_view_offs = 0, tn_data = None\<rparr>"

text \<open>Weights 16 and input 32; the sum 64 replaces the product 48; 80 is a view of 64; the output is 96.\<close>

definition ex_T :: tensors where
  "ex_T t = (if t = 16 then ex_tensor GGML_OP_NONE 0 [] None
     else if t = 32 then ex_tensor GGML_OP_NONE 1 [] None
     else if t = 48 then ex_tensor GGML_OP_MUL_MAT 0 [16, 32] None
     else if t = 64 then ex_tensor GGML_OP_ADD 0 [48, 32] None
     else if t = 80 then ex_tensor GGML_OP_VIEW 0 [64] (Some 64)
     else ex_tensor GGML_OP_SOFT_MAX 2 [80] None)"

lemma ex_T_at:
  "ex_T 16 = ex_tensor GGML_OP_NONE 0 [] None"
  "ex_T 32 = ex_tensor GGML_OP_NONE 1 [] None"
  "ex_T 48 = ex_tensor GGML_OP_MUL_MAT 0 [16, 32] None"
  "ex_T 64 = ex_tensor GGML_OP_ADD 0 [48, 32] None"
  "ex_T 80 = ex_tensor GGML_OP_VIEW 0 [64] (Some 64)"
  "ex_T 96 = ex_tensor GGML_OP_SOFT_MAX 2 [80] None"
  by (simp_all add: ex_T_def)

lemma ex_tensor_simps [simp]:
  "tn_type (ex_tensor op flags ss v) = 0" "tn_buffer (ex_tensor op flags ss v) = None"
  "tn_ne (ex_tensor op flags ss v) = [8, 1, 1, 1]" "tn_nb (ex_tensor op flags ss v) = [4, 32, 32, 32]"
  "tn_op (ex_tensor op flags ss v) = op" "tn_flags (ex_tensor op flags ss v) = flags"
  "srcs (ex_tensor op flags ss v) = ss" "tn_view_src (ex_tensor op flags ss v) = v"
  "tn_data (ex_tensor op flags ss v) = None"
  "tn_src (ex_tensor op flags ss v) = map Some ss @ replicate (ggml_max_src - length ss) None"
  "tn_view_offs (ex_tensor op flags ss v) = 0"
proof -
  have "List.map_filter (\<lambda>s. s) (map Some xs @ replicate n None) = xs" for xs :: "nat list" and n
    by (induction xs) (auto simp: List.map_filter_def)
  then show "srcs (ex_tensor op flags ss v) = ss" by (simp add: srcs_def ex_tensor_def)
qed (simp_all add: ex_tensor_def)

definition ex_g :: cgraph where
  "ex_g = \<lparr>gr_nodes = [48, 64, 80, 96], gr_leafs = [16, 32]\<rparr>"

definition ex_be :: backend where
  "ex_be = \<lparr>be_alloc_size = (\<lambda>b t. 4 * prod_list (map nat (tn_ne t))), be_alignment = (\<lambda>b. 64),
     be_max_size = (\<lambda>b. 65536), be_alloc_buffer = (\<lambda>b n. if n \<le> 65536 then Some (n, 4096) else None),
     be_init_tensor = (\<lambda>b t. True), be_no_alloc = (\<lambda>b. False)\<rparr>"

lemma ex_backend_ok: "backend_ok ex_be [0]"
  by (simp add: backend_ok_def ex_be_def arena_def size_max_def)

lemma ex_upt: "[0..<4] = [0, Suc 0, 2, 3]"
  by (simp add: upt_rec)

lemma ex_graph_ok: "graph_ok ex_T ex_g"
  by (simp add: graph_ok_def ex_g_def ex_upt ex_T_at uses_def view_root_def own_def ggml_is_view_def
    flag_input_def ggml_op_can_inplace_def)

lemma ex_sizes_ok: "sizes_ok ex_be ex_T ex_g [0]"
  by (simp add: sizes_ok_def ex_be_def ex_g_def ex_T_at arena_def size_max_def)

lemma ex_runnable: "runnable ex_T ex_g"
  by (simp add: runnable_def ex_g_def ex_upt ex_T_at view_root_def own_def ggml_is_view_def computed_def
    ggml_is_empty_def)

definition ex_ga0 :: gallocr where
  "ex_ga0 = ggml_gallocr_new ex_be 0"

lemmas plan_eval = ggml_gallocr_alloc_graph_impl_def alloc_leaf_def count_node_def count_src_def exec_node_def
  release_src_def ggml_gallocr_allocate_node_def take_offset_def ggml_gallocr_free_node_def get_node_buffer_id_def
  upd_hash_def ggml_gallocr_is_own_def ggml_gallocr_is_allocated_def ggml_is_view_def ggml_op_can_inplace_def
  ggml_are_same_layout_def flag_input_def flag_output_def hash_node0_def

lemmas reserve_eval = ggml_gallocr_reserve_n_def place_of_def no_place_def node_place_def shared_buffers_def
  reserve_buffer_def ggml_backend_buft_alloc_buffer_def ggml_gallocr_new_def ggml_gallocr_new_n_def

text \<open>The plan: the sum is where the product was, the result where the weights were.\<close>

lemma ex_reserve:
  "\<exists>ga. ggml_gallocr_reserve_n ex_be ex_T ex_g None None ex_ga0 = Some (True, ga) \<and>
     ga_buffers ga = [Some \<lparr>bu_buft = 0, bu_size = 192, bu_base = 4096\<rparr>] \<and>
     map (\<lambda>x. hn_offset (ga_hash ga x)) [16, 32, 48, 64, 96] = [0, 64, 128, 128, 0] \<and>
     map (\<lambda>x. hn_buffer (ga_hash ga x)) [16, 32, 48, 64, 96] = [0, 0, 0, 0, 0]"
  by (simp add: reserve_eval plan_eval dyn_eval ex_g_def ex_T_at ex_upt ex_ga0_def ex_be_def)

lemma ex_no_buffer: "\<forall>t \<in> graph_tensors ex_g. own ex_T t \<longrightarrow> tn_buffer (ex_T t) = None"
  by (simp add: ex_T_def)

lemma ex_run: "gallocr_run ex_be [0] ex_ga0"
  unfolding ex_ga0_def ggml_gallocr_new_def by (rule plan_new)

text \<open>The addresses, by way of the theorem on what an allocation does after a reservation.\<close>

lemma planned_address:
  assumes "galloc_ok be ga" "backend_ok be (ga_bufts ga)" "graph_ok T g" "sizes_ok be T g (ga_bufts ga)"
    "\<forall>t \<in> graph_tensors g. own T t \<longrightarrow> tn_buffer (T t) = None"
    "ggml_gallocr_reserve_n be T g node_ids leaf_ids ga = Some (True, ga1)"
  shows "\<exists>T'. ggml_gallocr_alloc_graph be T g ga1 = Some (True, T', ga1) \<and>
    (\<forall>x \<in> graph_tensors g. own T x \<longrightarrow>
       tn_buffer (T' x) = ga_buffers ga1 ! hn_buffer (ga_hash ga1 x) \<and> tn_data (T' x) = Some (address_of ga1 x))"
proof -
  have r: "reserved be T g ga1" "ga_bufts ga1 = ga_bufts ga" using reserve_n_reserved [OF assms(1-4,6)] by auto
  then have sz: "sizes_ok be T g (ga_bufts ga1)" using assms(4) by simp
  obtain T' where T': "ggml_gallocr_alloc_graph be T g ga1 = Some (True, T', ga1)" "init_inv ga1 T (graph_tensors g) T'"
    using alloc_graph_reserved [OF r(1) assms(3) sz assms(5)] by blast
  have "tn_buffer (T' x) = ga_buffers ga1 ! hn_buffer (ga_hash ga1 x) \<and> tn_data (T' x) = Some (address_of ga1 x)"
    if "x \<in> graph_tensors g" "own T x" for x
    using init_inv_own [OF T'(2) that(2,1)] reserved_buffer(3) [OF r(1) sz that] by simp
  then show ?thesis using T'(1) by blast
qed

lemma ex_allocated:
  "\<exists>ga T'. ggml_gallocr_reserve_n ex_be ex_T ex_g None None ex_ga0 = Some (True, ga) \<and>
     ggml_gallocr_alloc_graph ex_be ex_T ex_g ga = Some (True, T', ga) \<and>
     map (\<lambda>x. tn_data (T' x)) [16, 32, 48, 64, 96] = [Some 4096, Some 4160, Some 4224, Some 4224, Some 4096] \<and>
     (\<forall>x \<in> {16, 32, 96}. tn_buffer (T' x) = Some \<lparr>bu_buft = 0, bu_size = 192, bu_base = 4096\<rparr>)"
proof -
  obtain ga where ga: "ggml_gallocr_reserve_n ex_be ex_T ex_g None None ex_ga0 = Some (True, ga)"
    "ga_buffers ga = [Some \<lparr>bu_buft = 0, bu_size = 192, bu_base = 4096\<rparr>]"
    "map (\<lambda>x. hn_offset (ga_hash ga x)) [16, 32, 48, 64, 96] = [0, 64, 128, 128, 0]"
    "map (\<lambda>x. hn_buffer (ga_hash ga x)) [16, 32, 48, 64, 96] = [0, 0, 0, 0, 0]"
    using ex_reserve by (elim exE conjE, intro that)
  have ok: "galloc_ok ex_be ex_ga0" "ga_bufts ex_ga0 = [0]" using gallocr_run_ok [OF ex_run ex_backend_ok] by auto
  obtain T' where T': "ggml_gallocr_alloc_graph ex_be ex_T ex_g ga = Some (True, T', ga)"
    "\<forall>x \<in> graph_tensors ex_g. own ex_T x \<longrightarrow>
       tn_buffer (T' x) = ga_buffers ga ! hn_buffer (ga_hash ga x) \<and> tn_data (T' x) = Some (address_of ga x)"
    using planned_address [OF ok(1) _ ex_graph_ok _ ex_no_buffer ga(1)] ok(2) ex_backend_ok ex_sizes_ok by auto
  have "own ex_T x \<and> x \<in> graph_tensors ex_g" if "x \<in> {16, 32, 48, 64, 96}" for x
    using that by (auto simp: own_def ex_T_at graph_tensors_def ex_g_def)
  then have t: "tn_buffer (T' x) = ga_buffers ga ! hn_buffer (ga_hash ga x)" "tn_data (T' x) = Some (address_of ga x)"
    if "x \<in> {16, 32, 48, 64, 96}" for x
    using T'(2) that by blast+
  have h: "hn_buffer (ga_hash ga 16) = 0" "hn_buffer (ga_hash ga 32) = 0" "hn_buffer (ga_hash ga 48) = 0"
    "hn_buffer (ga_hash ga 64) = 0" "hn_buffer (ga_hash ga 96) = 0"
    "hn_offset (ga_hash ga 16) = 0" "hn_offset (ga_hash ga 32) = 64" "hn_offset (ga_hash ga 48) = 128"
    "hn_offset (ga_hash ga 64) = 128" "hn_offset (ga_hash ga 96) = 0"
    using ga(3,4) by simp_all
  have a: "address_of ga x = 4096 + hn_offset (ga_hash ga x)" if "hn_buffer (ga_hash ga x) = 0" for x
    using that ga(2) by (simp add: address_of_def buffer_at_def ggml_backend_buffer_get_base_def)
  have "map (\<lambda>x. tn_data (T' x)) [16, 32, 48, 64, 96] = [Some 4096, Some 4160, Some 4224, Some 4224, Some 4096]"
    by (simp add: t(2) a h)
  moreover have "\<forall>x \<in> {16, 32, 96}. tn_buffer (T' x) = Some \<lparr>bu_buft = 0, bu_size = 192, bu_base = 4096\<rparr>"
    by (simp add: t(1) h ga(2))
  ultimately show ?thesis using ga(1) T'(1) by (intro exI conjI)
qed

section \<open>A view that is an output\<close>

text \<open>The view 48 of 32 is an output, and it is also read by node 64; node 80 then takes its memory.\<close>

definition ex_out_T :: tensors where
  "ex_out_T t = (if t = 16 then ex_tensor GGML_OP_NONE 1 [] None
     else if t = 32 then ex_tensor GGML_OP_MUL_MAT 0 [16, 16] None
     else if t = 48 then ex_tensor GGML_OP_RESHAPE 2 [32] (Some 32)
     else if t = 64 then ex_tensor GGML_OP_MUL_MAT 0 [48, 16] None
     else ex_tensor GGML_OP_MUL_MAT 2 [64, 16] None)"

definition ex_out_g :: cgraph where
  "ex_out_g = \<lparr>gr_nodes = [32, 48, 64, 80], gr_leafs = [16]\<rparr>"

lemma ex_out_T_at:
  "ex_out_T 16 = ex_tensor GGML_OP_NONE 1 [] None"
  "ex_out_T 32 = ex_tensor GGML_OP_MUL_MAT 0 [16, 16] None"
  "ex_out_T 48 = ex_tensor GGML_OP_RESHAPE 2 [32] (Some 32)"
  "ex_out_T 64 = ex_tensor GGML_OP_MUL_MAT 0 [48, 16] None"
  "ex_out_T 80 = ex_tensor GGML_OP_MUL_MAT 2 [64, 16] None"
  by (simp_all add: ex_out_T_def)

lemma ex_out_reserve:
  "\<exists>ga. ggml_gallocr_reserve_n ex_be ex_out_T ex_out_g None None ex_ga0 = Some (True, ga) \<and>
     ga_buffers ga = [Some \<lparr>bu_buft = 0, bu_size = 192, bu_base = 4096\<rparr>] \<and>
     map (\<lambda>x. hn_offset (ga_hash ga x)) [16, 32, 64, 80] = [0, 64, 128, 64] \<and>
     map (\<lambda>x. hn_buffer (ga_hash ga x)) [16, 32, 64, 80] = [0, 0, 0, 0]"
  by (simp add: reserve_eval plan_eval dyn_eval ex_out_g_def ex_out_T_at ex_upt ex_ga0_def ex_be_def)

lemma ex_out_ok: "graph_ok ex_out_T ex_out_g" "sizes_ok ex_be ex_out_T ex_out_g [0]"
  "\<forall>t \<in> graph_tensors ex_out_g. own ex_out_T t \<longrightarrow> tn_buffer (ex_out_T t) = None"
proof -
  show "graph_ok ex_out_T ex_out_g"
    by (simp add: graph_ok_def ex_out_g_def ex_upt ex_out_T_at uses_def view_root_def own_def ggml_is_view_def
      flag_input_def ggml_op_can_inplace_def)
  show "sizes_ok ex_be ex_out_T ex_out_g [0]"
    by (simp add: sizes_ok_def ex_be_def ex_out_g_def ex_out_T_at arena_def size_max_def)
qed (simp add: ex_out_T_def)

lemma ex_out_allocated:
  "\<exists>ga T'. ggml_gallocr_reserve_n ex_be ex_out_T ex_out_g None None ex_ga0 = Some (True, ga) \<and>
     ggml_gallocr_alloc_graph ex_be ex_out_T ex_out_g ga = Some (True, T', ga) \<and>
     tn_data (T' 80) = tn_data (T' 32)"
proof -
  obtain ga where ga: "ggml_gallocr_reserve_n ex_be ex_out_T ex_out_g None None ex_ga0 = Some (True, ga)"
    "ga_buffers ga = [Some \<lparr>bu_buft = 0, bu_size = 192, bu_base = 4096\<rparr>]"
    "map (\<lambda>x. hn_offset (ga_hash ga x)) [16, 32, 64, 80] = [0, 64, 128, 64]"
    "map (\<lambda>x. hn_buffer (ga_hash ga x)) [16, 32, 64, 80] = [0, 0, 0, 0]"
    using ex_out_reserve by (elim exE conjE, intro that)
  have ok: "galloc_ok ex_be ex_ga0" "ga_bufts ex_ga0 = [0]" using gallocr_run_ok [OF ex_run ex_backend_ok] by auto
  obtain T' where T': "ggml_gallocr_alloc_graph ex_be ex_out_T ex_out_g ga = Some (True, T', ga)"
    "\<forall>x \<in> graph_tensors ex_out_g. own ex_out_T x \<longrightarrow>
       tn_buffer (T' x) = ga_buffers ga ! hn_buffer (ga_hash ga x) \<and> tn_data (T' x) = Some (address_of ga x)"
    using planned_address [OF ok(1) _ ex_out_ok(1) _ ex_out_ok(3) ga(1)] ok(2) ex_backend_ok ex_out_ok(2) by auto
  have "own ex_out_T 32" "own ex_out_T 80" "32 \<in> graph_tensors ex_out_g" "80 \<in> graph_tensors ex_out_g"
    by (simp_all add: own_def ex_out_T_at graph_tensors_def ex_out_g_def)
  then have d: "tn_data (T' 32) = Some (address_of ga 32)" "tn_data (T' 80) = Some (address_of ga 80)"
    using T'(2) by blast+
  have "hn_buffer (ga_hash ga 80) = hn_buffer (ga_hash ga 32)" "hn_offset (ga_hash ga 80) = hn_offset (ga_hash ga 32)"
    using ga(3,4) by simp_all
  then have "tn_data (T' 80) = tn_data (T' 32)" by (simp add: d address_of_def buffer_at_def)
  then show ?thesis using ga(1) T'(1) by (intro exI conjI)
qed

section \<open>A plan for another graph\<close>

text \<open>The plan is made for \<open>ex_old_T\<close>, where node 64 no longer needs 32; in \<open>ex_new_T\<close> it does.\<close>

definition ex_old_T :: tensors where
  "ex_old_T t = (if t = 16 then ex_tensor GGML_OP_NONE 1 [] None
     else if t = 32 then ex_tensor GGML_OP_MUL_MAT 0 [16, 16] None
     else if t = 48 then ex_tensor GGML_OP_MUL_MAT 0 [32, 16] None
     else ex_tensor GGML_OP_MUL_MAT 2 [48, 16] None)"

definition ex_new_T :: tensors where
  "ex_new_T t = (if t = 64 then ex_tensor GGML_OP_MUL_MAT 2 [48, 32] None else ex_old_T t)"

definition ex_old_g :: cgraph where
  "ex_old_g = \<lparr>gr_nodes = [32, 48, 64], gr_leafs = [16]\<rparr>"

lemma ex_old_T_at:
  "ex_old_T 16 = ex_tensor GGML_OP_NONE 1 [] None"
  "ex_old_T 32 = ex_tensor GGML_OP_MUL_MAT 0 [16, 16] None"
  "ex_old_T 48 = ex_tensor GGML_OP_MUL_MAT 0 [32, 16] None"
  "ex_old_T 64 = ex_tensor GGML_OP_MUL_MAT 2 [48, 16] None"
  by (simp_all add: ex_old_T_def)

definition ex_old_hash :: "nat \<Rightarrow> hash_node" where
  "ex_old_hash = (\<lambda>_. hash_node0)
     (32 := hash_node0 \<lparr>hn_offset := 64\<rparr>, 64 := hash_node0 \<lparr>hn_offset := 64, hn_allocated := True\<rparr>,
      48 := hash_node0 \<lparr>hn_offset := 128\<rparr>, 16 := hash_node0)"

definition ex_place :: "nat \<Rightarrow> tensor_alloc" where
  "ex_place off = \<lparr>ta_buffer = 0, ta_offset = off, ta_size_max = 32\<rparr>"

definition ex_node_place :: "nat \<Rightarrow> nat \<Rightarrow> nat \<Rightarrow> node_alloc" where
  "ex_node_place d a b = \<lparr>na_dst = ex_place d,
     na_src = ex_place a # ex_place b # replicate (ggml_max_src - Suc (Suc 0)) no_place\<rparr>"

definition ex_old_ga :: gallocr where
  "ex_old_ga = \<lparr>ga_bufts = [0], ga_buffers = [Some \<lparr>bu_buft = 0, bu_size = 192, bu_base = 4096\<rparr>],
     ga_buffer_sizes = [192], ga_talloc_of = [0],
     ga_tallocs = [\<lparr>dt_alignment = 64, dt_free = [\<lparr>fb_off = 0, fb_size = 64\<rparr>,
       \<lparr>fb_off = 128, fb_size = 9223372036854775679\<rparr>], dt_max = 192\<rparr>],
     ga_hash = ex_old_hash,
     ga_node_allocs = [ex_node_place 64 0 0, ex_node_place 128 64 0, ex_node_place 64 128 0],
     ga_leaf_allocs = [ex_place 0]\<rparr>"

lemma ex_old_reserve: "ggml_gallocr_reserve_n ex_be ex_old_T ex_old_g None None ex_ga0 = Some (True, ex_old_ga)"
  by (simp add: reserve_eval plan_eval dyn_eval ex_old_g_def ex_old_T_at ex_upt ex_ga0_def ex_be_def
    ex_old_ga_def ex_old_hash_def ex_node_place_def ex_place_def)

lemma ex_new_T_at:
  "ex_new_T 16 = ex_tensor GGML_OP_NONE 1 [] None"
  "ex_new_T 32 = ex_tensor GGML_OP_MUL_MAT 0 [16, 16] None"
  "ex_new_T 48 = ex_tensor GGML_OP_MUL_MAT 0 [32, 16] None"
  "ex_new_T 64 = ex_tensor GGML_OP_MUL_MAT 2 [48, 32] None"
  by (simp_all add: ex_old_T_def ex_new_T_def)

lemma ex_eight: "replicate (ggml_max_src - Suc (Suc 0)) x = [x, x, x, x, x, x, x, x]"
  by (simp add: ggml_max_src_def numeral_eq_Suc)

lemmas init_eval = ggml_gallocr_alloc_graph_def ggml_gallocr_needs_realloc_def init_graph_def init_node_def
  ggml_gallocr_node_needs_realloc_def ggml_gallocr_init_tensor_def ggml_backend_tensor_alloc_def
  ggml_backend_buffer_get_base_def no_place_def

lemma ex_new_alloc: "\<exists>T'. ggml_gallocr_alloc_graph ex_be ex_new_T ex_old_g ex_old_ga = Some (True, T', ex_old_ga) \<and>
    map (\<lambda>x. tn_data (T' x)) [16, 32, 48, 64] = [Some 4096, Some 4160, Some 4224, Some 4160]"
  by (simp add: init_eval ex_new_T_at ex_old_g_def ex_old_ga_def ex_node_place_def ex_place_def ex_eight ex_be_def u64_add_def)

section \<open>Kernels and a run\<close>

text \<open>Data of one byte; a view changes nothing, every other operation adds up its sources and one.\<close>

definition ex_ks :: "nat kernels" where
  "ex_ks = \<lparr>ks_bytes = (\<lambda>t. 1), ks_run = (\<lambda>n ss old. if n = 80 then old else [sum_list (concat ss) + 1])\<rparr>"

lemma ex_kernels_fit: "kernels_fit ex_be ex_ks ex_T ex_g [0]"
  by (auto simp: kernels_fit_def ex_ks_def ex_be_def graph_tensors_def ex_g_def ex_T_at ggml_is_view_def ex_T_def)

definition ex_vals :: "nat \<Rightarrow> nat list" where
  "ex_vals r = (if r = 16 then [7] else if r = 32 then [5] else [])"

definition ex_st :: "nat store" where
  "ex_st = \<lparr>st_mem = (\<lambda>a. if a = (0, 4096) then 7 else if a = (0, 4160) then 5 else 0), st_ext = (\<lambda>r. [])\<rparr>"

text \<open>The product is 13, the sum 19, the output 20.\<close>

lemma ex_values: "\<exists>vals. graph_values ex_ks ex_T (\<lambda>_. False) ex_g ex_vals = (False, vals) \<and> vals 96 = [20]"
  by (simp add: graph_values_def ex_g_def forward_val_def computed_def ggml_is_empty_def ex_upt ex_T_at view_root_def
    ex_vals_def ex_ks_def ggml_is_view_def Let_def)

lemma ex_filled:
  assumes "map (\<lambda>x. tn_data (T' x)) [16, 32, 48, 64, 96] = [Some 4096, Some 4160, Some 4224, Some 4224, Some 4096]"
    "\<forall>x \<in> {16, 32, 96}. tn_buffer (T' x) = Some \<lparr>bu_buft = 0, bu_size = 192, bu_base = 4096\<rparr>"
  shows "filled ex_ks ex_T T' ex_g ex_st ex_vals"
proof -
  have t: "tn_data (T' 16) = Some 4096" "tn_data (T' 32) = Some 4160"
    "tn_buffer (T' 16) = Some \<lparr>bu_buft = 0, bu_size = 192, bu_base = 4096\<rparr>"
    "tn_buffer (T' 32) = Some \<lparr>bu_buft = 0, bu_size = 192, bu_base = 4096\<rparr>"
    using assms by simp_all
  have "load_data ex_ks ex_T T' ex_st x = ex_vals x" if "x = 16 \<or> x = 32" for x
    using that by (auto simp: load_data_def own_def ex_T_at data_at_def t ex_ks_def ex_st_def ex_vals_def)
  moreover have "x = 16 \<or> x = 32"
    if "x \<in> graph_tensors ex_g" "x \<in> set (gr_leafs ex_g) \<or> flag_input (ex_T x)" for x
    using that by (auto simp: graph_tensors_def ex_g_def ex_T_at flag_input_def)
  moreover have "ex_vals r = []" if "\<not> own ex_T r" for r
    using that by (auto simp: ex_vals_def own_def ex_T_at)
  ultimately show ?thesis by (auto simp: filled_def ex_st_def)
qed

section \<open>What the builder asks for\<close>

definition ex_rank :: "nat \<Rightarrow> nat" where
  "ex_rank t = t div 16"

lemma ex_T_ranked: "ranked ex_T ex_rank {16, 32, 48, 64, 80, 96}"
  by (simp add: ranked_def ex_T_at ex_rank_def)

lemma ex_tensors_ok: "tensors_ok ex_T {16, 32, 48, 64, 80, 96}"
  by (simp add: tensors_ok_def ex_T_at ggml_is_view_def flag_input_def ggml_op_can_inplace_def view_root_def)

lemma ex_hash_size: "ggml_hash_size 16 < hashset_already_exists"
  by (simp add: ggml_hash_size_def prime_search.simps hash_primes_def hashset_already_exists_def)

lemma ex_new_graph_ok: "graph_ok ex_new_T ex_old_g"
  by (simp add: graph_ok_def ex_old_g_def ex_upt ex_new_T_at uses_def view_root_def own_def ggml_is_view_def
    flag_input_def ggml_op_can_inplace_def)

text \<open>With a plan for a graph of the same shape, in which node 64 does not read 32, the allocation of the new graph succeeds
  with the old plan and puts the result of node 64 over its own operand, although the operation cannot work in place.\<close>

lemma ex_stale_plan:
  "\<exists>T'. ggml_gallocr_reserve_n ex_be ex_old_T ex_old_g None None ex_ga0 = Some (True, ex_old_ga) \<and>
     ggml_gallocr_alloc_graph ex_be ex_new_T ex_old_g ex_old_ga = Some (True, T', ex_old_ga) \<and>
     graph_ok ex_new_T ex_old_g \<and> 32 \<in> set (srcs (ex_new_T 64)) \<and> \<not> ggml_op_can_inplace (tn_op (ex_new_T 64)) \<and>
     tn_data (T' 64) = tn_data (T' 32)"
  using ex_old_reserve ex_new_alloc ex_new_graph_ok by (auto simp: ex_new_T_at ggml_op_can_inplace_def)

end
