(* ===== verification/Spec2Isabelle.thy ===== *)
theory Spec2Isabelle
  imports Prelude Batch KvUnified KvSlot KvDefrag ByteIo KvState KvRecurrent KvSystem Utf8 Grammar GrammarLang
    GrammarTerm Gbnf LeftRec GbnfOk GbnfLang Pretokenize PretokOk PretokRegex PretokLlama3
    Vocab TokMerge TokBpe TokSpm TokGreedy
    Examples TokExamples AllocDyn Tensor AllocGraph AllocSafe AllocPlan HashSet GraphBuild GraphAlloc GraphExec AllocExamples
begin

text \<open>
  A verification library for the C and C++ core of the inference runtime: under
  \<^verbatim>\<open>src/llama/llama.cpp\<close> the batches of tokens, the two KV caches with their saved states, UTF-8,
  pre-tokenization, the vocabulary with its tokenizers, and the grammar sampler; under \<^verbatim>\<open>src/ml/backend/ggml/ggml\<close> the construction of
  compute graphs, the planning of their memory and the loop that runs them.

  \<^bold>\<open>How the program works.\<close> A batch of tokens, each with a position and the sequences it belongs to, is
  sorted into sequences and cut into micro-batches (\<^verbatim>\<open>llama-batch.cpp\<close>). For each micro-batch the cache
  searches a run of free cells (\<open>find_slot\<close>), the graph is computed, and the slot is committed or
  restored (\<^verbatim>\<open>llama-kv-cache.cpp\<close>). Computing a graph means: the tensors that the result depends on are
  listed in an order of execution (\<^verbatim>\<open>ggml.c\<close>, with the hash set of \<^verbatim>\<open>ggml-impl.h\<close>), every tensor is given a
  place in a buffer that is reused as soon as its readers are done (\<^verbatim>\<open>ggml-alloc.c\<close>, \<^verbatim>\<open>ggml-backend.cpp\<close>),
  and the nodes are computed one after the other (\<^verbatim>\<open>ggml-cpu.c\<close>). Between batches a client removes, copies, keeps, shifts or divides
  the positions of sequences; the cache applies the shift and compacts itself in \<open>update\<close>; its contents
  can be written to a byte stream and read back. Each sampled token is checked against a grammar
  (\<^verbatim>\<open>llama-grammar.cpp\<close>): its bytes are decoded incrementally and drive a set of pushdown stacks. The
  grammar is written in a text notation, GBNF, which a recursive descent parser turns into rules.

  \<^bold>\<open>Theories.\<close>
  \<^item> \<open>Prelude\<close>: 32-bit unsigned arithmetic, C division, the loop over cells, checked reads and writes of
    arrays, insertion sort for \<open>std::sort\<close>, and the collection of hints they share.
  \<^item> \<open>Batch\<close>: \<open>llama_batch\<close>, \<open>llama_ubatch\<close>, \<open>llama_sbatch\<close> as records; \<open>reserve_ubatch\<close>,
    \<open>add_seq_to_ubatch\<close>, the three splits, the construction of the sequences, \<open>llama_batch_allocr\<close>.
    \<open>None\<close> is a failed \<open>GGML_ASSERT\<close> or an access outside an array.
  \<^item> \<open>KvUnified\<close>: the cells, the record \<open>kv_unified\<close> and the sequence operations; the invariant
    \<open>kv_ok\<close> and the abstract contents \<open>kv_abs\<close>, the multiset of (position, sequences) of the occupied
    cells, with one refinement lemma per operation.
  \<^item> \<open>KvSlot\<close>: \<open>find_slot\<close>, \<open>commit\<close>, \<open>restore\<close>.
  \<^item> \<open>KvDefrag\<close>: \<open>defrag_prepare\<close>, the copy graph, \<open>update\<close>.
  \<^item> \<open>ByteIo\<close>, \<open>KvState\<close>: the byte stream; \<open>state_write\<close> and \<open>state_read\<close>.
  \<^item> \<open>KvRecurrent\<close>: the recurrent cache.
  \<^item> \<open>KvSystem\<close>: the interfaces. The locale \<open>kv_memory\<close> states what a client of a sequence memory
    relies on, and proves the context shift from it; \<open>transition_system\<close> turns step-wise preservation
    into an invariant of the reachable states. Both are interpreted on the models.
  \<^item> \<open>Utf8\<close>: the encoder and the decoders of \<^verbatim>\<open>unicode.cpp\<close> and \<^verbatim>\<open>llama-grammar.cpp\<close>, the byte alphabet.
  \<^item> \<open>Grammar\<close>, \<open>GrammarLang\<close>, \<open>GrammarTerm\<close>: the engine; the language of a grammar and the
    refinement of it by the stacks; termination without left recursion.
  \<^item> \<open>Gbnf\<close>: the parser of grammar texts and the construction of a grammar object; \<open>LeftRec\<close>: the check
    for left recursion returns, and is sound where it sees every empty rule; \<open>GbnfOk\<close>: the parser
    returns, and its rules are well-formed; \<open>GbnfLang\<close>: the language of repetitions and literals.
  \<^item> \<open>Pretokenize\<close>: the flags of code points and \<open>unicode_regex_split\<close>, which cuts a text into the words
    BPE works on; \<open>PretokOk\<close>: it returns and loses nothing (the locale \<open>splitter\<close>); \<open>PretokRegex\<close> and
    \<open>PretokLlama3\<close>: a backtracking matcher and the two hand-written splitters against their expressions
    (the locale \<open>regex_splitter\<close>).
  \<^item> \<open>Vocab\<close>: the tables of a vocabulary (\<^verbatim>\<open>llama-vocab.cpp\<close>), built from the lists of the model file, the lookups,
    and the text of a token. \<open>vocab_ok\<close> says that the two tables are inverse.
  \<^item> \<open>TokMerge\<close>: the loop of the sessions for BPE and SPM, which takes bigrams from a priority queue and joins the
    symbols of a linked list; the locale \<open>merge_session\<close> states what the loop needs of the bigrams of a session (one is
    stale exactly when its symbols have changed, the queue has a strict order on live bigrams) and proves that the loop
    returns and computes \<open>naive_merge\<close>, which joins the first best pair of neighbours until none is left.
    \<open>TokBpe\<close> and \<open>TokSpm\<close> interpret it on the two sessions as \<open>bpe\<close> and \<open>spm\<close>, and show what the tokens spell.
  \<^item> \<open>TokGreedy\<close>: the trie, the RWKV tokenizer and WordPiece, against \<open>greedy_tokens\<close>, which takes the longest token.
  \<^item> \<open>HashSet\<close>: the bitset, the hash set with its probing loops and its size; an array indexed by the slots is
    a map, and a large enough table is never full.
  \<^item> \<open>Tensor\<close>, \<open>GraphBuild\<close>: the tensors and their operations (enumerated as in \<^verbatim>\<open>ggml.h\<close>); the graph, its construction
    by \<open>ggml_build_forward_expand\<close>, clearing, copying and viewing it.
  \<^item> \<open>AllocDyn\<close>: the allocator of offsets, \<open>ggml_dyn_tallocr\<close>; the locale \<open>block_allocator\<close> states what its client
    relies on (used blocks are apart, aligned and below the peak), and is interpreted on it as \<open>dyn\<close>.
  \<^item> \<open>AllocGraph\<close>: the plan, \<open>ggml_gallocr_alloc_graph_impl\<close>; \<open>AllocSafe\<close>: what it guarantees, by invariants of its
    loops on top of \<open>dyn\<close>; \<open>AllocPlan\<close>: reserving buffers, \<open>ggml_gallocr_alloc_graph\<close>, the states of an allocator.
  \<^item> \<open>GraphAlloc\<close>: a graph made by the builder is one the plan is right for. \<open>GraphExec\<close>: the loop over the nodes, on
    the planned memory and on values, and the refinement between the two.
  \<^item> \<open>Examples\<close>, \<open>TokExamples\<close>, \<open>AllocExamples\<close>: concrete inputs for the instances of the properties.

  \<^bold>\<open>Representation.\<close> \<open>uint32_t\<close> counters are \<open>nat\<close> with the wrap-around written out
  (\<open>u32_add\<close>, \<open>u32_sub\<close>), \<open>size_t\<close> likewise (\<open>u64_add\<close>, \<open>u64_sub\<close>); the words of a bitset are \<open>32 word\<close>; \<open>llama_pos\<close> and \<open>llama_seq_id\<close> are \<open>int\<close>, which is the code as long as no
  position overflows (signed overflow is undefined behaviour there). A pointer into the rules of a
  grammar is a pair of indices. An abort, a failed assertion and an access out of range are \<open>None\<close>; an
  exception is a value.

  \<^bold>\<open>Fuel.\<close> \<open>find_loop\<close> runs with \<open>2 * size + 2\<close> rounds, and \<open>find_slot\<close> never exhausts them on a
  well-formed cache (\<open>find_slot_complete\<close>). The recursion of \<open>advance_stack\<close>, of \<open>reject_candidates\<close> and of the
  left-recursion check has a fuel argument; \<open>engine_returns\<close> shows that enough fuel exists for every
  grammar without left recursion, \<open>hidden_left_recursion\<close> that none does for a grammar the code lets through, \<open>LeftRec\<close> shows that the
  check itself needs no more than one call per rule and one. The grammar parser runs with three units per byte
  of the rest of the text and three more, and never runs out (\<open>parsed_rules_ok\<close>). The recursion of
  \<open>ggml_visit_parents\<close> has fuel for its depth, and one more than the longest chain of sources is enough
  (\<open>built_graph_ok\<close>). The probing loops of the hash set are partial functions, shown to return.

  \<^bold>\<open>Tensors and addresses.\<close> A tensor is known by its address, a natural number; the memory of the tensors is a
  function \<open>tensors\<close> from addresses to records. In \<open>AllocGraph\<close> the table from tensors to \<open>struct hash_node\<close>
  is a function, which \<open>hash_table_is_map\<close> justifies. \<open>0 < size\<close> is asked of the tensors of a
  planned graph (\<open>sizes_ok\<close>): the allocator does not keep a block of size 0 apart from others, nor does it have to.

  \<^bold>\<open>Parameters.\<close> A backend supplies sizes, alignments and buffers (\<open>backend\<close>), and the kernels what an
  operation computes (\<open>kernels\<close>); \<open>backend_ok\<close>, \<open>sizes_ok\<close> and \<open>kernels_fit\<close> say what is relied on. The K-shift graph (rotary embedding), \<open>std::regex\<close> matching, the pieces of the
  model's own vocabulary and the generated tables of \<^verbatim>\<open>unicode-data.cpp\<close> are arguments. \<open>std::sort\<close> is insertion sort, one of the orders the standard
  allows; what is proved of it is only that it returns a sorted permutation.

  \<^bold>\<open>Not modelled.\<close> The numerical kernels of ggml, gradients, the scheduler that splits a graph over several
  backends, the graphs that the models build, model loading, the unigram tokenizer, the handling of special tokens in a text and the
  samplers other than the grammar; the tensors of the caches are byte or value arrays. In the recurrent cache, saving and reading states. The
  plain \<open>assert\<close>s of \<^verbatim>\<open>ggml-alloc.c\<close>, which a release build compiles out, and its debugging code.
\<close>

section \<open>The unified KV cache\<close>



text \<open>C2. When find_slot succeeds, the entries of the micro-batch (every token's position with its
  sequences) have been added to the cache's contents and nothing else has changed, and they lie in a
  run of cells that was free.\<close>

theorem find_slot_adds:
  assumes "kv_ok kv" "ub_placeable ub" "find_slot ub kv = Some (True, kv')"
  shows "kv_ok kv' \<and> kv_abs kv' = kv_abs kv + mset (ub_entries ub)
    \<and> free_run (kv_cells kv) (kv_head kv') (ub_n_tokens ub)"
  using find_slot_cases [OF assms(1,2)] find_slot_found_ok [OF assms] assms(3) by fastforce

theorem find_slot_adds_witness: "\<exists>kv'. find_slot ex_ub ex_kv0 = Some (True, kv') \<and> kv_abs kv' = {#(0, {0}), (1, {0})#}"
proof -
  obtain kv' where kv': "find_slot ex_ub ex_kv0 = Some (True, kv')" using ex_find by blast
  have "kv_abs ex_kv0 = {#}" by (rule kv_abs_init [OF ex_kv_init])
  moreover have "ub_entries ex_ub = [(0, {0}), (1, {0})]" by (simp add: ub_entries_def ex_ub_def ub_seq_set_def upt_two)
  ultimately show ?thesis using find_slot_adds [OF ex_kv0_ok ex_ub_placeable kv'] kv' by simp
qed

text \<open>C3. find_slot finds a slot whenever there is one: if some run of free cells is long enough for the
  micro-batch, it returns true, wherever the head is. In particular its search loop returns.\<close>

theorem find_slot_complete:
  assumes "kv_ok kv" "ub_placeable ub" "free_run (kv_cells kv) w (ub_n_tokens ub)"
  shows "\<exists>kv'. find_slot ub kv = Some (True, kv')"
  using find_slot_cases [OF assms(1,2)] assms(3) by blast

theorem find_slot_complete_witness: "\<exists>kv'. find_slot ex_ub (ex_kv0\<lparr>kv_head := 3\<rparr>) = Some (True, kv')"
proof (rule find_slot_complete [OF _ ex_ub_placeable])
  show "kv_ok (ex_kv0\<lparr>kv_head := 3\<rparr>)" using ex_kv0_ok by (simp add: kv_ok_def ex_kv0_def ex_cache_def)
  show "free_run (kv_cells (ex_kv0\<lparr>kv_head := 3\<rparr>)) 0 (ub_n_tokens ex_ub)" using ex_kv0_free by simp
qed

text \<open>C4. A slot that is not committed can be undone: restore after a successful find_slot on a cache
  without pending slots gives back the contents and the used count.\<close>

theorem restore_undoes_find_slot:
  assumes "kv_ok kv" "kv_pending kv = []" "ub_placeable ub" "find_slot ub kv = Some (True, kv')"
  shows "kv_ok (kv_restore kv') \<and> kv_abs (kv_restore kv') = kv_abs kv \<and> kv_used (kv_restore kv') = kv_used kv"
  using restore_after_find_slot [OF assms] by blast

theorem restore_undoes_find_slot_witness:
  "\<exists>kv'. find_slot ex_ub ex_kv0 = Some (True, kv') \<and> kv_abs (kv_restore kv') = {#}"
proof -
  obtain kv' where kv': "find_slot ex_ub ex_kv0 = Some (True, kv')" using ex_find by blast
  have "kv_pending ex_kv0 = []" by (simp add: ex_kv0_def ex_cache_def)
  from restore_undoes_find_slot [OF ex_kv0_ok this ex_ub_placeable kv'] kv' kv_abs_init [OF ex_kv_init]
  show ?thesis by simp
qed



text \<open>C6. The context shift: on a cache that holds the positions below n for a sequence, removing d of
  them from k on and moving the later ones down by d leaves the positions below n - d, without a gap.\<close>

theorem context_shift_contiguous:
  assumes "kv_ok kv" "0 \<le> sid" "0 \<le> k" "0 < d" "k + d < n" "n < int32_max"
    "seq_positions sid (kv_abs kv) = mset_set {0..<n}"
  shows "seq_positions sid (kv_abs (seq_add sid (k + d) n (- d) (seq_rm sid k (k + d) kv))) = mset_set {0..<n - d}"
  by (rule unified.context_shift(1) [OF assms])

theorem context_shift_contiguous_witness:
  "seq_positions 0 (kv_abs (seq_add 0 2 3 (-1) (seq_rm 0 1 2 ex_kv_full))) = mset_set {0..<2}"
  using context_shift_contiguous [OF ex_kv_full_ok, of 0 1 1 3] ex_kv_full_positions by (simp add: int32_max_def)

section \<open>Saved states\<close>





section \<open>Batches\<close>

text \<open>C9. Splitting a batch the simple way until nothing is left returns after at most one micro-batch
  per token; every micro-batch is non-empty and at most as large as asked for, and together they are
  the batch: the positions, the tokens, in order.\<close>

theorem simple_split_covers:
  assumes "batch_ok b" "sbatch_init b True la = Some sb" "0 < n0"
  shows "\<exists>ubs sb'. drain split_simple n0 (b_n_tokens b) sb = Some (ubs, sb') \<and> sb_n_tokens sb' = 0
    \<and> (\<forall>ub\<in>set ubs. 0 < ub_n_tokens ub \<and> ub_n_tokens ub \<le> n0)
    \<and> concat (map ub_positions ubs) = the (b_pos b)
    \<and> (\<forall>t. b_token b = Some t \<longrightarrow> concat (map (\<lambda>ub. the (ub_tokens ub)) ubs) = t)
    \<and> sb_out_ids sb' = filter (wanted sb) [0..<b_n_tokens b]"
proof -
  have "sb_n_tokens sb = b_n_tokens b" "sb_batch sb = b" "sb_out_ids sb = []"
    using assms(2) by (auto simp: sbatch_init_def Let_def)
  then show ?thesis using drain_simple [OF simple_init_ok [OF assms(1,2)] assms(3), of "b_n_tokens b"] by simp
qed

theorem simple_split_covers_witness:
  "\<exists>sb ubs sb'. sbatch_init ex_batch True False = Some sb \<and> drain split_simple 2 3 sb = Some (ubs, sb')
    \<and> concat (map ub_positions ubs) = [0, 0, 1]"
proof -
  obtain sb where sb: "sbatch_init ex_batch True False = Some sb" using ex_batch_simple by blast
  have "b_n_tokens ex_batch = 3" "the (b_pos ex_batch) = [0, 0, 1]" by (simp_all add: ex_batch_def)
  then show ?thesis using simple_split_covers [OF ex_batch_ok sb, of 2] sb by auto
qed



section \<open>The recurrent cache\<close>



section \<open>Tensor memory\<close>

text \<open>C12. However offsets have been taken and given back, two blocks in use never overlap, their offsets are
  multiples of the alignment, and they end below the size that the allocator asks for, which is below
  half the address space.\<close>

theorem tallocr_blocks_apart:
  assumes "dyn_run al a B" "0 < al" "al \<le> arena" "B k = Some (off, n)"
  shows "al dvd off \<and> off + padded al n \<le> dyn_max_size a \<and> dyn_max_size a \<le> arena \<and>
    (\<forall>j off' n'. j \<noteq> k \<and> B j = Some (off', n') \<longrightarrow> off + padded al n \<le> off' \<or> off' + padded al n' \<le> off)"
  by (rule dyn_run_bounds [OF assms])

theorem tallocr_blocks_apart_witness: "dyn_max_size (ex_block 192 192) \<le> arena"
  using tallocr_blocks_apart [OF ex_block_run, of 1 64 100] by (simp add: arena_def size_max_def)

text \<open>C13. Giving back what was just taken restores the list of free blocks, without the abort for a
  list that is full; and when everything has been given back, in whatever order, the list is that of a new
  allocator: one block, no fragments.\<close>

theorem tallocr_give_back:
  assumes "dyn_run al a B" "0 < al" "al \<le> arena"
  shows "(\<forall>n off a'. 0 < n \<and> n \<le> arena \<and> dyn_alloc a n = Some (off, a') \<longrightarrow>
       (\<exists>a''. dyn_free a' off n = Some a'' \<and> dt_free a'' = dt_free a))
    \<and> (B = Map.empty \<longrightarrow> dt_free a = dt_free (dyn_new al))"
  using dyn_run_give_back [OF assms] by blast

theorem tallocr_give_back_witness: "\<exists>a. dyn_free (ex_block 256 256) 192 50 = Some a \<and> dt_free a = dt_free (ex_block 192 192)"
proof -
  have "dyn_alloc (ex_block 192 192) 50 = Some (192, ex_block 256 256)"
    by (simp add: dyn_eval ex_block_def)
  then show ?thesis using tallocr_give_back [OF ex_block_run] by (auto simp: arena_def size_max_def)
qed

text \<open>C14. The choice is best fit: the allocator aborts exactly when no free block is large enough; otherwise
  the offset is the start of a free block, the smallest that fits among all but the last, and the last
  block, which is the rest of the address space, is used only when no other fits.\<close>

theorem tallocr_best_fit:
  assumes "dyn_run al a B" "0 < al" "al \<le> arena" "n \<le> arena"
  shows "(dyn_alloc a n = None \<longleftrightarrow> (\<forall>b \<in> set (dt_free a). fb_size b < padded al n))
    \<and> (\<forall>off a'. dyn_alloc a n = Some (off, a') \<longrightarrow>
        (\<exists>i < length (dt_free a). off = fb_off (dt_free a ! i) \<and> padded al n \<le> fb_size (dt_free a ! i) \<and>
          (\<forall>b \<in> set (butlast (dt_free a)). padded al n \<le> fb_size b \<longrightarrow>
             Suc i < length (dt_free a) \<and> fb_size (dt_free a ! i) \<le> fb_size b)))"
  by (rule dyn_run_best_fit [OF assms])

theorem tallocr_best_fit_witness: "dyn_alloc (ex_block 192 192) 50 \<noteq> None"
  using tallocr_best_fit [OF ex_block_run, of 50] by (simp add: arena_def size_max_def ex_block_def padded_def)

text \<open>C15. After a successful reservation, \<open>ggml_gallocr_alloc_graph\<close> returns without an abort and without
  planning again, and every tensor that had no memory lies, with its whole size, inside the buffer of its
  backend, at an offset that is a multiple of the alignment.\<close>

theorem planned_in_bounds:
  assumes "gallocr_run be bufts ga" "backend_ok be bufts" "graph_ok T g" "sizes_ok be T g bufts"
    "\<forall>t \<in> graph_tensors g. own T t \<longrightarrow> tn_buffer (T t) = None"
    "ggml_gallocr_reserve_n be T g node_ids leaf_ids ga = Some (True, ga1)"
  shows "\<exists>T'. ggml_gallocr_alloc_graph be T g ga1 = Some (True, T', ga1) \<and>
    (\<forall>x \<in> graph_tensors g. own T x \<longrightarrow> (\<exists>b a. tn_buffer (T' x) = Some b \<and> tn_data (T' x) = Some a \<and>
       bu_buft b \<in> set bufts \<and> ggml_backend_buffer_get_base b \<le> a \<and>
       a + be_alloc_size be (bu_buft b) (T x) \<le> ggml_backend_buffer_get_base b + bu_size b \<and>
       be_alignment be (bu_buft b) dvd a - ggml_backend_buffer_get_base b))"
proof -
  note ok = gallocr_run_ok [OF assms(1,2)]
  have r: "reserved be T g ga1" "ga_bufts ga1 = bufts" using reserve_n_reserved [of be ga] ok assms by auto
  then have sz: "sizes_ok be T g (ga_bufts ga1)" using assms(4) by simp
  obtain T' where "ggml_gallocr_alloc_graph be T g ga1 = Some (True, T', ga1)" "init_inv ga1 T (graph_tensors g) T'"
    using alloc_graph_reserved [OF r(1) assms(3) sz assms(5)] by blast
  then show ?thesis using reserved_in_buffer [OF r(1) sz] r(2) by blast
qed

theorem planned_in_bounds_witness:
  "\<exists>ga T'. ggml_gallocr_alloc_graph ex_be ex_T ex_g ga = Some (True, T', ga) \<and> tn_data (T' 96) \<noteq> None"
proof -
  obtain ga where ga: "ggml_gallocr_reserve_n ex_be ex_T ex_g None None ex_ga0 = Some (True, ga)"
    using ex_reserve by (elim exE conjE, intro that)
  have "own ex_T 96 \<and> 96 \<in> graph_tensors ex_g" by (simp add: own_def ex_T_at graph_tensors_def ex_g_def)
  then show ?thesis
    using planned_in_bounds [OF ex_run ex_backend_ok ex_graph_ok ex_sizes_ok ex_no_buffer ga] by fastforce
qed



text \<open>C17. Building a graph returns, with recursion no deeper than the longest chain of sources, and the
  graph lists exactly what the result depends on, each tensor once and after its sources; it is a graph
  that the allocator's plan is right for.\<close>

theorem built_graph_ok:
  assumes "ranked T rank U" "finite U" "card U \<le> n" "ggml_hash_size (n * 2) < hashset_already_exists"
    "t \<in> U" "rank t < fuel" "tn_op (T t) = GGML_OP_NONE \<and> \<not> flag_param (T t) \<longrightarrow> srcs (T t) = []" "tensors_ok T U"
  shows "\<exists>bg. ggml_build_forward_expand fuel T t (ggml_new_graph_custom n) = Some bg \<and>
    listed (bg_graph bg) = reach T t \<and> in_order T (bg_graph bg) \<and> graph_ok T (bg_graph bg)"
proof -
  obtain bg where bg: "ggml_build_forward_expand fuel T t (ggml_new_graph_custom n) = Some bg" "builder_ok T U bg"
    "listed (bg_graph bg) = listed (bg_graph (ggml_new_graph_custom n)) \<union> reach T t"
    using build_forward [OF assms(1) new_graph_ok [OF assms(2-4)] assms(5-7)] by blast
  have l: "listed (bg_graph bg) = reach T t"
    using bg(3) by (simp add: listed_def ggml_new_graph_custom_def)
  have i: "in_order T (bg_graph bg)" "listed (bg_graph bg) \<subseteq> U" using bg(2) by (simp_all add: builder_ok_def build_inv_def)
  then show ?thesis using bg(1) l in_order_graph_ok tensors_ok_subset [OF assms(8) i(2)] by blast
qed

theorem built_graph_ok_witness:
  "\<exists>bg. ggml_build_forward_expand 9 ex_T 96 (ggml_new_graph_custom 8) = Some bg \<and> graph_ok ex_T (bg_graph bg)"
  using built_graph_ok [OF ex_T_ranked _ _ _ _ _ _ ex_tensors_ok, of 8 96 9]
  by (simp add: ex_hash_size ex_T_at ex_rank_def) blast

text \<open>C18. The hash table of the code is a map: an array indexed by the slots of a table with room for the
  distinct keys goes through any sequence of accesses, in any order and however the addresses collide,
  like a function from the keys, and the table is never full.\<close>

theorem hash_table_is_map:
  assumes "card (fst ` set ups) \<le> n"
  shows "\<exists>hs vals. table_run ups (ggml_hash_set_new n, replicate (ggml_hash_size n) d) = Some (hs, vals) \<and>
    table_map hs vals d = fold (\<lambda>(p, f) m. m(p := f (m p))) ups (\<lambda>_. d)"
  by (rule table_run_new [OF assms])

theorem hash_table_is_map_witness:
  "\<exists>hs vals. table_run [(16, Suc), (608, Suc), (16, Suc)] (ggml_hash_set_new 2, replicate (ggml_hash_size 2) 0) =
      Some (hs, vals) \<and> table_map hs vals 0 16 = (2 :: nat) \<and> table_map hs vals 0 608 = 1"
proof -
  have "fst ` set [(16 :: nat, Suc), (608, Suc), (16, Suc)] = {16, 608}" by auto
  then have "card (fst ` set [(16 :: nat, Suc), (608, Suc), (16, Suc)]) \<le> 2" by simp
  from hash_table_is_map [OF this, of 0] show ?thesis by fastforce
qed


section \<open>Text\<close>

text \<open>C20. Encoding code points and decoding the bytes gives the code points back: in the strict decoder of
  the tokenizer, and, from any state between code points and without the code point 0, in the decoder of
  the grammar.\<close>

theorem utf8_roundtrip:
  assumes "unicode_cpts_to_utf8 cps = Some bs"
  shows "unicode_cpts_from_utf8 bs = cps
    \<and> (0 \<notin> set cps \<and> pu_remain p = 0 \<longrightarrow> (\<exists>p'. decode_utf8 bs p = (cps @ [0], p')))"
  using cpts_from_utf8_encode [OF assms] decode_utf8_encode [OF assms] by blast

theorem utf8_roundtrip_witness:
  "unicode_cpts_from_utf8 [0x41, 0xE2, 0x82, 0xAC] = [0x41, 0x20AC]
    \<and> (\<exists>p'. decode_utf8 [0x41, 0xE2, 0x82, 0xAC] \<lparr>pu_value = 5, pu_remain = 0\<rparr> = ([0x41, 0x20AC] @ [0], p'))"
proof -
  have "unicode_cpts_to_utf8 [0x41, 0x20AC] = Some [0x41, 0xE2, 0x82, 0xAC]"
    by (simp add: unicode_cpt_to_utf8_def push_bit_eq_mult drop_bit_eq_div Let_def)
  from utf8_roundtrip [OF this, of "\<lparr>pu_value = 5, pu_remain = 0\<rparr>"] show ?thesis by simp
qed

section \<open>Grammars\<close>

text \<open>C21. The parsing stacks are the language: after the engine has accepted a text, the stacks stand for
  exactly the texts that complete it to a sentence of the start rule.\<close>

theorem engine_accepts_prefixes:
  assumes "initial_stacks fuel rules start = Some stacks" "accept_code_points fuel' rules cps stacks = Some stacks'"
  shows "stacks_lang rules stacks' w \<longleftrightarrow> rule_lang rules start (cps @ w)"
  using accept_code_points_lang(1) [OF assms(2) initial_stacks_lang(2) [OF assms(1)]] initial_stacks_lang(1) [OF assms(1)]
  by simp

theorem engine_accepts_prefixes_witness:
  "stacks_lang ex_rules [[(0, 0)], [(0, 3)], [(0, 5)]] [98] \<longleftrightarrow> rule_lang ex_rules 0 ([97] @ [98])"
  by (rule engine_accepts_prefixes [OF ex_initial ex_accept])

text \<open>C22. Candidate tokens: reject_candidates rejects a candidate exactly when no stack can read all its
  code points and still match its incomplete last character.\<close>

theorem rejects_exactly:
  assumes "llama_grammar_reject_candidates depth fuel rules stacks toks = Some rej" "\<forall>t\<in>set toks. c_ok t"
  shows "set rej = {t \<in> set toks. \<not> (\<exists>s\<in>set stacks. viable rules s (c_rest t) (c_partial_utf8 t))}"
  using reject_candidates_ok [OF assms] by (simp add: rejects_ok_def c_viable_def)

theorem rejects_exactly_witness:
  "\<exists>s\<in>set [[(0, 0)], [(0, 3)], [(0, 5)]]. viable ex_rules s [97] \<lparr>pu_value = 97, pu_remain = 0\<rparr>"
proof -
  have "\<forall>t\<in>set [ex_candidate 0 97, ex_candidate 1 122]. c_ok t" by (simp add: c_ok_def ex_candidate_def)
  from rejects_exactly [OF ex_reject this] have "ex_candidate 0 97 \<notin> {t \<in> set [ex_candidate 0 97, ex_candidate 1 122].
      \<not> (\<exists>s\<in>set [[(0, 0)], [(0, 3)], [(0, 5)]]. viable ex_rules s (c_rest t) (c_partial_utf8 t))}"
    by (metis empty_set ex_candidate_def list.set_intros(1) list.simps(15) llama_grammar_candidate.ext_inject
        llama_grammar_candidate.iffs nat.distinct(1) One_nat_def singletonD)
  then show ?thesis by (simp add: c_rest_def ex_candidate_def)
qed



text \<open>C24. The engine returns: for well-formed rules without left recursion (a rank on rules that decreases
  at every left-most reference, nullable ones included) the initial stacks are computed, every text
  can be fed to them, and candidates of any bounded length are sorted into accepted and rejected.\<close>

theorem engine_returns:
  assumes "rules_ok rules" "left_ranked N rk rules" "start < length rules"
  shows "\<exists>f stacks. initial_stacks f rules start = Some stacks
    \<and> (\<forall>cps. \<exists>f' stacks'. accept_code_points f' rules cps stacks = Some stacks')
    \<and> (\<forall>stacks'. stacks' \<noteq> [] \<and> stacks_ok rules stacks' \<longrightarrow> (\<exists>f0. \<forall>f\<ge>f0. \<forall>toks. depth_ok d toks \<longrightarrow>
         (\<exists>rej. llama_grammar_reject_candidates d f rules stacks' toks = Some rej)))"
  using initial_stacks_total [OF assms] accept_code_points_total [OF assms(1,2)]
    reject_candidates_returns [OF assms(1,2), of _ d] unfolding reject_returns_def by blast

theorem engine_returns_witness:
  "(\<exists>f stacks. initial_stacks f ex_rules 0 = Some stacks
      \<and> (\<forall>cps. \<exists>f' stacks'. accept_code_points f' ex_rules cps stacks = Some stacks'))
    \<and> (\<exists>f0. \<forall>f\<ge>f0. \<exists>rej. llama_grammar_reject_candidates 3 f ex_rules [[(0, 0)], [(0, 3)], [(0, 5)]] [ex_candidate 0 97] = Some rej)"
proof -
  have d: "depth_ok 3 [ex_candidate 0 97]" by (simp add: depth_ok_def c_ok_def c_rest_def ex_candidate_def)
  have o: "stacks_ok ex_rules [[(0, 0)], [(0, 3)], [(0, 5)]]" by (rule ex_stacks_ok)
  have "0 < length ex_rules" by (simp add: ex_rules_def)
  from engine_returns [OF ex_rules_ok ex_ranked this, of 3] show ?thesis using d o by blast
qed

text \<open>C25. The check for left recursion that guards the engine misses a left recursion hidden behind a rule
  that is empty through another rule: it accepts such a grammar, and no number of recursive calls lets
  advance_stack return on it.\<close>

theorem hidden_left_recursion:
  "check_left_recursion 4 hidden_rules = Some False
    \<and> llama_grammar_advance_stack f hidden_rules ((0, 0) # s) new = None"
  using hidden_not_detected hidden_diverges by blast

section \<open>Grammar texts\<close>

text \<open>C26. The parser of grammar texts returns on every text, with a grammar or with an error that the code
  raises, and the rules it returns are those the engine works on: every rule ends where it should, every
  reference leads to a rule, and the elements of character classes follow one another as the matching
  assumes.\<close>

theorem parsed_rules_ok: "gbnf_parse src \<noteq> Inl Spent \<and> (\<forall>p. gbnf_parse src = Inr p \<longrightarrow> rules_ok (p_rules p))"
  using gbnf_parse_returns gbnf_parse_ok(2) by blast

theorem parsed_rules_ok_witness: "rules_ok (p_rules ex_star_parser)"
  using parsed_rules_ok [of ex_star] ex_star_parse by blast

text \<open>C27. A repetition means what it says: the rules the parser writes for S{m,n} derive exactly the texts
  made of at least m and at most n copies of S, of any number from m on without an upper bound.\<close>

theorem repetition_language:
  assumes "parser_ok p" "word_name name" "sequence_ok (n_syms p) ls rule" "no_end (drop ls rule)" "0 \<le> mn"
    "handle_repetitions mn mx name ls rule p = Inr (rule', p')"
    "\<And>i. i < length (p_rules p') \<Longrightarrow> i < length R \<and> R ! i = p_rules p' ! i"
  shows "take ls rule' = take ls rule \<and> (body_lang R (drop ls rule') w
    \<longleftrightarrow> (\<exists>k. nat mn \<le> k \<and> (0 \<le> mx \<longrightarrow> k \<le> nat (max mn mx)) \<and> copies R (drop ls rule) k w))"
  using handle_repetitions_lang [OF assms] by blast

theorem repetition_language_witness: 
  "body_lang ([] # tl (p_rules ex_star_parser)) [gelem LLAMA_GRETYPE_RULE_REF 1] [98, 98]"
proof -
  let ?p' = "ex_star_parser\<lparr>p_rules := [] # tl (p_rules ex_star_parser)\<rparr>"
  have R: "i < length (p_rules ?p') \<Longrightarrow> i < length (p_rules ?p') \<and> p_rules ?p' ! i = p_rules ?p' ! i" for i by simp
  have "copies (p_rules ?p') (drop 0 [gelem LLAMA_GRETYPE_CHAR 98]) 2 [98, 98]" using ex_star_copies by simp
  with repetition_language [OF ex_before_star_ok(1,2,3) _ _ ex_star_step R, of "[98, 98]"] ex_before_star_ok(4)
  show ?thesis by (simp del: copies.simps) blast
qed

text \<open>C28. Literals are read as they are written: the grammar of a quoted text, UTF-8 with quotes and
  backslashes escaped, derives that text and no other.\<close>

theorem literal_roundtrip:
  assumes "literal_text cps = Some bs" "0 \<notin> set cps"
  shows "\<exists>p. gbnf_parse ([114, 111, 111, 116, 32, 58, 58, 61, 32, 34] @ bs @ [34]) = Inr p
    \<and> map_of (symbol_ids p) root_name = Some 0 \<and> (\<forall>w. rule_lang (p_rules p) 0 w \<longleftrightarrow> w = cps)"
  using literal_parse [OF assms] chars_rule_lang by simp

theorem literal_roundtrip_witness:
  "\<exists>p. gbnf_parse [114, 111, 111, 116, 32, 58, 58, 61, 32, 34, 97, 92, 34, 0xE2, 0x82, 0xAC, 34] = Inr p
    \<and> rule_lang (p_rules p) 0 [97, 34, 0x20AC]"
proof -
  have "literal_text [97, 34, 0x20AC] = Some [97, 92, 34, 0xE2, 0x82, 0xAC]"
    by (simp add: unicode_cpt_to_utf8_def push_bit_eq_mult drop_bit_eq_div Let_def)
  from literal_roundtrip [OF this] show ?thesis by auto
qed

text \<open>C29. A grammar object built from a text stands for the language of its start rule, and its rules are
  well-formed.\<close>

theorem grammar_text_language:
  assumes "llama_grammar_init_str fuel vocab o_vocab src root lazy pats toks = Some (Init_Grammar g)"
  shows "\<exists>p start. gbnf_parse src = Inr p \<and> map_of (symbol_ids p) root = Some start \<and> g_rules g = p_rules p
    \<and> rules_ok (g_rules g) \<and> (\<forall>w. stacks_lang (g_rules g) (g_stacks g) w \<longleftrightarrow> rule_lang (p_rules p) start w)"
  by (rule init_str_language [OF assms])

theorem grammar_text_language_witness:
  "\<exists>g. llama_grammar_init_str 3 (g_vocab ex_grammar) None ex_star root_name False [] [] = Some (Init_Grammar g) \<and> rules_ok (g_rules g)"
  using ex_star_init [of "g_vocab ex_grammar" None] grammar_text_language by blast

text \<open>C30. Where the check sees every empty rule it is enough: for a text whose rules are empty only in the
  open, construction returns, and a grammar that it returns can be fed with any text.\<close>

theorem grammar_text_returns:
  assumes "gbnf_parse src = Inr p" "empty_closed N (p_rules p)" "visible_empty N (p_rules p)"
    "map_of (symbol_ids p) root = Some start" "start < length (p_rules p)"
  shows "\<exists>fuel res. llama_grammar_init_str fuel vocab o_vocab src root lazy pats toks = Some res
    \<and> (\<forall>g cps. res = Init_Grammar g \<longrightarrow> (\<exists>f' stacks'. accept_code_points f' (g_rules g) cps (g_stacks g) = Some stacks'))"
  using init_str_feeds [OF assms] .

theorem grammar_text_returns_witness:
  "\<exists>fuel res. llama_grammar_init_str fuel (g_vocab ex_grammar) None ex_star root_name False [] [] = Some res
    \<and> (\<forall>g cps. res = Init_Grammar g \<longrightarrow> (\<exists>f' stacks'. accept_code_points f' (g_rules g) cps (g_stacks g) = Some stacks'))"
  by (rule grammar_text_returns [OF ex_star_parse ex_star_empty, where start = 0])
    (auto simp: ex_star_parser_def root_name_def)

section \<open>Pre-tokenization\<close>

text \<open>C31. Pre-tokenization loses nothing: for a text in UTF-8 and regular expression engines that list
  their matches in order, the words are, one after the other, the text in the byte alphabet; the only
  errors are those the engines raise and the one for an expression that mixes categories and non-ASCII
  text.\<close>

theorem words_lossless:
  assumes "unicode_cpts_to_utf8 cps = Some txt" "walks regex" "walks wregex"
  shows "case unicode_regex_split regex wregex T cpt_flags txt exprs of
           Inl e \<Rightarrow> e = Regex_Failed \<or> e = Regex_Mixed
         | Inr words \<Rightarrow> encode_bytes txt = Some (concat words)"
  by (rule unicode_regex_split_lossless [OF assms])

theorem words_lossless_witness:
  "case unicode_regex_split ex_engine ex_engine ex_data ex_flags ex_text [gpt2_expr] of
     Inl e \<Rightarrow> e = Regex_Failed \<or> e = Regex_Mixed
   | Inr words \<Rightarrow> encode_bytes ex_text = Some (concat words)"
  by (rule words_lossless [OF ex_text_utf8 ex_engine_walks ex_engine_walks])

text \<open>C32. The hand-written splitters are the regular expressions they stand for: on any pieces of a text
  they return, and what they return is the general path over a backtracking matcher for the expression,
  matches and gaps between them. The classes have to be as in the data: every code point has a flag, the
  classes are disjoint, spaces and line breaks are white space.\<close>

theorem splitters_follow_regex:
  assumes "unicode_cpts_to_utf8 cps = Some txt" "classes_ok (unicode_cpt_flags_from_cpt cpt_flags)" "sum_list offs \<le> length cps"
  shows "\<exists>gpt2 llama3. unicode_regex_split_custom_gpt2 T cpt_flags txt offs = Some gpt2
    \<and> unicode_regex_split_custom_llama3 T cpt_flags txt offs = Some llama3
    \<and> unicode_regex_split_stl (\<lambda>w. Some (rx_matches (gpt2_regex (unicode_cpt_flags_from_cpt cpt_flags)) 0 w)) cps offs 0 = Inr gpt2
    \<and> unicode_regex_split_stl
        (\<lambda>w. Some (rx_matches (llama3_regex (unicode_cpt_flags_from_cpt cpt_flags) (unicode_tolower T)) 0 w)) cps offs 0 = Inr llama3"
  using gpt2_split_is_regex [OF assms] llama3_split_is_regex [OF assms] by blast

theorem splitters_follow_regex_witness:
  "\<exists>gpt2 llama3. unicode_regex_split_custom_gpt2 ex_data ex_flags ex_text [4, 2] = Some gpt2
    \<and> unicode_regex_split_custom_llama3 ex_data ex_flags ex_text [4, 2] = Some llama3"
  using splitters_follow_regex [OF ex_text_utf8 ex_classes_ok, of "[4, 2]" ex_data] by auto

section \<open>Vocabulary and tokenizers\<close>

text \<open>C33. A vocabulary that is loaded without failing its assertion has inverse tables: the text of every token is the
  word of the file (or its replacement, where the word is empty), looking the word up gives the token, no other text has
  one, and no text is longer than the length the longest-match searches are bounded by.\<close>

theorem vocabulary_tables_inverse:
  assumes "load_tokens ws scores toktypes v = Some v'" "vo_token_to_id v = []"
  shows "(\<forall>i < length ws. map_option td_text (get_token_data v' (int i)) = Some (named_word i (ws ! i)) \<and>
      token_of_text v' (named_word i (ws ! i)) = int i \<and> length (named_word i (ws ! i)) \<le> vo_max_token_len v') \<and>
    (\<forall>s. token_of_text v' s \<noteq> LLAMA_TOKEN_NULL \<longrightarrow> (\<exists>i < length ws. token_of_text v' s = int i \<and> s = named_word i (ws ! i)))"
  by (rule load_tokens_inverse [OF assms])

theorem vocabulary_tables_inverse_witness: "token_of_text ex_rwkv [97, 98] = 2"
proof -
  have l: "load_tokens [[97], [98], [97, 98]] None None (blank_vocab Vocab_RWKV) = Some ex_rwkv" by (rule ex_rwkv_load)
  show ?thesis using vocabulary_tables_inverse [OF l] by (simp add: blank_vocab_def named_word_def All_less_Suc numeral_3_eq_3)
qed

text \<open>C34. The BPE session computes greedy merging: it returns on every text, with the errors of pre-tokenization, or
  else with the tokens of the pieces that each word is left with when the leftmost pair of neighbours of the least rank
  is joined, again and again, until no pair has a rank. The queue of bigrams, which keeps outdated entries, and the
  linked list of symbols are an implementation of that.\<close>

theorem bpe_is_greedy_merging:
  "bpe_tokenize v (\<lambda>t. unicode_regex_split regex wregex T cpt_flags t exprs) txt out =
     Some (case unicode_regex_split regex wregex T cpt_flags txt exprs of
             Inl e \<Rightarrow> Inl (Split_Error e)
           | Inr words \<Rightarrow> Inr (out @ concat (map (bpe_tokens v) (concat (map (bpe_word_pieces v) words)))))"
proof (cases "unicode_regex_split regex wregex T cpt_flags txt exprs")
  case (Inl e)
  then show ?thesis by (simp add: bpe_tokenize_def)
next
  case (Inr words)
  then show ?thesis
    using bpe_tokenize_pieces [of "\<lambda>t. unicode_regex_split regex wregex T cpt_flags t exprs", OF Inr]
      regex_split_alphabet [OF Inr] alphabet_word by fastforce
qed



text \<open>C36. The SPM session computes greedy merging too, by score: it returns on every non-empty text, with what the pieces give that
  are left when the leftmost pair of neighbours of the highest score is joined until no pair is a token.\<close>

theorem spm_is_greedy_merging:
  assumes "\<forall>b \<in> set txt. b < 256" "txt \<noteq> []"
  shows "spm_tokenize v txt out = Some (spm_pieces v (naive_merge (spm_key v) (>) (utf8_pieces txt)) out)"
  by (rule spm_tokenize_pieces [OF assms])

theorem spm_is_greedy_merging_witness:
  "spm_tokenize ex_spm (escaped_space @ [98]) [] =
     Some (spm_pieces ex_spm (naive_merge (spm_key ex_spm) (>) (utf8_pieces (escaped_space @ [98]))) [])"
  by (rule spm_is_greedy_merging) (simp_all add: escaped_space_def)

text \<open>C37. SPM loses nothing: a text in UTF-8 without the mark of a space, with its spaces escaped, is tokenized without
  an error into tokens whose texts are the text, whatever merges the vocabulary has, as long as every byte of the text has a byte
  token and the byte tokens cannot come out of merging.\<close>

theorem spm_tokens_spell_text:
  assumes "spm_vocab v txt" "unicode_cpts_to_utf8 cps = Some txt" "find_sub escaped_space txt = None" "txt \<noteq> []"
  shows "\<exists>ts. spm_tokenize v (llama_escape_whitespace txt) out = Some (Inr (out @ ts)) \<and> spelled v ts = Inr txt"
  by (rule spm_tokenize_spells [OF assms])

theorem spm_tokens_spell_text_witness:
  "\<exists>ts. spm_tokenize ex_spm (llama_escape_whitespace [32, 98]) [] = Some (Inr ts) \<and> spelled ex_spm ts = Inr [32, 98]"
proof -
  have u: "unicode_cpts_to_utf8 [32, 98] = Some [32, 98]" by (simp add: unicode_cpt_to_utf8_def)
  have m: "find_sub escaped_space [32, 98] = None" by (simp add: find_sub.simps escaped_space_def)
  show ?thesis using spm_tokens_spell_text [OF ex_spm_vocab u m, of "[]"] by simp
qed

text \<open>C38. The RWKV tokenizer takes the longest token at every position: where every byte of the text is a token and no token goes on with
  a zero byte, it returns, with the greedy tokens, and they spell the text.\<close>

theorem rwkv_longest_match:
  assumes "vo_type v = Vocab_RWKV" "\<forall>i < n_tokens v. 0 \<notin> set (tl (rwkv_text v i))"
    and "\<forall>b \<in> set s. \<exists>i < n_tokens v. rwkv_text v i = [b]"
  shows "\<exists>ts. rwkv_tokenize v s out = Some (Inr (out @ ts)) \<and> greedy_tokens (trie_lookup (rwkv_matcher v)) s = Some ts
    \<and> spelled v ts = Inr s"
  using rwkv_tokenize_greedy [OF assms(2,3)] greedy_spells [OF assms(1)] by blast

theorem rwkv_longest_match_witness: "\<exists>ts. rwkv_tokenize ex_rwkv [97, 98, 98] [] = Some (Inr ts) \<and> spelled ex_rwkv ts = Inr [97, 98, 98]"
proof -
  have "vo_type ex_rwkv = Vocab_RWKV" by (simp add: ex_rwkv_eq blank_vocab_def)
  moreover have "\<forall>i < n_tokens ex_rwkv. 0 \<notin> set (tl (rwkv_text ex_rwkv i))"
    using ex_rwkv_texts by (simp add: All_less_Suc numeral_3_eq_3 numeral_2_eq_2)
  moreover have "\<forall>b \<in> set [97, 98, 98]. \<exists>i < n_tokens ex_rwkv. rwkv_text ex_rwkv i = [b]"
    using ex_rwkv_texts by (simp add: Ex_less_Suc numeral_3_eq_3 numeral_2_eq_2)
  ultimately show ?thesis using rwkv_longest_match [of ex_rwkv "[97, 98, 98]" "[]"] by auto
qed

text \<open>C39. Without a token for a byte it may never return: where a token starts with the first byte of the text and no token
  is a prefix of the text, the search sets the position back to the start of the text.\<close>

theorem rwkv_never_returns:
  assumes "i < n_tokens v" "rwkv_text v i = b # q" "\<forall>j < n_tokens v. \<forall>m. rwkv_text v j \<noteq> take (Suc m) (b # s)"
    and "\<forall>j < n_tokens v. 0 \<notin> set (tl (rwkv_text v j))"
  shows "rwkv_tokenize v (b # s) out = None"
  by (rule rwkv_gap_stuck [OF assms])

theorem rwkv_never_returns_witness: "rwkv_tokenize ex_rwkv_gap [97, 99] [] = None"
proof -
  have "\<forall>j < n_tokens ex_rwkv_gap. \<forall>m. rwkv_text ex_rwkv_gap j \<noteq> take (Suc m) [97, 99]"
    using ex_rwkv_gap_texts by (auto simp: take_Cons split: nat.splits)
  then show ?thesis
    using rwkv_never_returns [of 0 ex_rwkv_gap 97 "[98]" "[99]" "[]"] ex_rwkv_gap_texts by simp
qed

text \<open>C40. WordPiece: the words are the lower-case text without white space and control characters, none is empty, and each
  gives the longest tokens from left to right, or the unknown token alone where some rest has no token.\<close>

theorem wpm_longest_match:
  assumes "vocab_ok v" "max_len_ok v" "wpm_preprocess T cpt_flags txt = Some words"
  shows "[] \<notin> set words \<and> (\<exists>nfd. unicode_cpts_normalize_nfd T (unicode_cpts_from_utf8 txt) = Some nfd \<and>
      unicode_cpts_to_utf8 (map (unicode_tolower T) (filter (wpm_kept cpt_flags) nfd)) = Some (concat words)) \<and>
    wpm_tokenize v T cpt_flags txt out = Inr (out @ concat (map (wpm_word_tokens v) words))"
  using wpm_preprocess_ok [OF assms(3)] wpm_tokenize_greedy [OF assms] by blast

theorem wpm_longest_match_witness:
  "wpm_tokenize ex_wpm ex_data ex_flags [97, 98] [] = Inr (concat (map (wpm_word_tokens ex_wpm) [[97, 98]]))"
proof -
  have "wpm_preprocess ex_data ex_flags [97, 98] = Some [[97, 98]]" by (rule ex_wpm_words)
  from wpm_longest_match [OF ex_vocab_ok(3,4) this, of "[]"] show ?thesis by simp
qed

end
